(* ===== verification/Prelude.thy ===== *)
theory Prelude
  imports Main "HOL-Library.Char_ord" "HOL-Library.List_Lexorder"
begin

text \<open>
  What every component of the model shares: Rust's machine integers (with the wrap-around of a
  release build written out), fallible results as sums, the string operations of the standard
  library the code calls, decimal printing and parsing, and JSON values as \<open>serde_json\<close> hands
  them over.

  Strings are lists of bytes (\<open>char list\<close>), ordered lexicographically by byte, which is how
  Rust orders \<open>str\<close>.
\<close>

section \<open>Collections of facts\<close>

named_theorems int_ranges \<open>unfolding the machine-integer ranges\<close>
named_theorems res_elims \<open>inverting a sequence of fallible steps\<close>

section \<open>Machine integers\<close>

text \<open>
  An \<open>i64\<close> or \<open>i32\<close> is an \<^typ>\<open>int\<close>, a \<open>u64\<close> or \<open>usize\<close> a \<^typ>\<open>nat\<close>, each with its range as a
  predicate. The release profile of the crate leaves overflow checks off, so \<open>+\<close> and \<open>-\<close> wrap:
  \<open>i64_add\<close> and \<open>u64_add\<close> write that out wherever the code's own arithmetic could leave the range.
\<close>

definition i64 :: "int \<Rightarrow> bool" where
  "i64 x \<longleftrightarrow> - (2 ^ 63) \<le> x \<and> x < 2 ^ 63"

definition i32 :: "int \<Rightarrow> bool" where
  "i32 x \<longleftrightarrow> - (2 ^ 31) \<le> x \<and> x < 2 ^ 31"

definition u64 :: "nat \<Rightarrow> bool" where
  "u64 n \<longleftrightarrow> n < 2 ^ 64"

lemmas [int_ranges] = i64_def i32_def u64_def

definition wrap_i64 :: "int \<Rightarrow> int" where
  "wrap_i64 x = (x + 2 ^ 63) mod 2 ^ 64 - 2 ^ 63"

definition i64_add :: "int \<Rightarrow> int \<Rightarrow> int" where
  "i64_add a b = wrap_i64 (a + b)"

definition i64_sub :: "int \<Rightarrow> int \<Rightarrow> int" where
  "i64_sub a b = wrap_i64 (a - b)"

definition u64_add :: "nat \<Rightarrow> nat \<Rightarrow> nat" where
  "u64_add a b = (a + b) mod 2 ^ 64"

lemma wrap_i64_id [simp]: "i64 x \<Longrightarrow> wrap_i64 x = x"
  by (simp add: wrap_i64_def i64_def)

lemma wrap_i64_range [simp]: "i64 (wrap_i64 x)"
proof -
  have "0 \<le> (x + 2 ^ 63) mod 2 ^ 64" and "(x + 2 ^ 63) mod 2 ^ 64 < (2 ^ 64 :: int)"
    by (rule pos_mod_sign, simp) (rule pos_mod_bound, simp)
  then show ?thesis by (simp add: wrap_i64_def i64_def)
qed

lemma i64_add_exact: "i64 (a + b) \<Longrightarrow> i64_add a b = a + b"
  by (simp add: i64_add_def)

lemma i64_sub_exact: "i64 (a - b) \<Longrightarrow> i64_sub a b = a - b"
  by (simp add: i64_sub_def)

lemma i64_add_max: "i64_add (2 ^ 63 - 1) 1 = - (2 ^ 63)"
  by (simp add: i64_add_def wrap_i64_def)

lemma i64_succ [simp]: "i64 b \<Longrightarrow> b < 2 ^ 63 - 1 \<Longrightarrow> i64_add b 1 = b + 1"
  by (rule i64_add_exact) (simp add: i64_def)

lemma i64_pred [simp]: "i64 b \<Longrightarrow> - (2 ^ 63) < b \<Longrightarrow> i64_sub b 1 = b - 1"
  by (rule i64_sub_exact) (simp add: i64_def)

lemma u64_add_exact [simp]: "u64 (a + b) \<Longrightarrow> u64_add a b = a + b"
  by (simp add: u64_add_def u64_def)

lemma u64_add_range [simp]: "u64 (u64_add a b)"
  by (simp add: u64_add_def u64_def)

lemma u64_succ [simp]:
  "n < 2 ^ 64 - 1 \<Longrightarrow> u64_add n 1 = Suc n" "n < 2 ^ 64 - 1 \<Longrightarrow> u64_add n (Suc 0) = Suc n"
  by (simp_all add: u64_add_def)

section \<open>Fallible results\<close>

text \<open>
  \<open>Result<T, E>\<close> is the sum \<open>'e + 'a\<close>, \<^term>\<open>Inl\<close> the error; the \<open>?\<close> operator is \<open>res_bind\<close>.
\<close>

fun res_bind :: "'e + 'a \<Rightarrow> ('a \<Rightarrow> 'e + 'b) \<Rightarrow> 'e + 'b" where
  "res_bind (Inl e) k = Inl e"
| "res_bind (Inr a) k = k a"

lemma res_bind_Inr_iff [simp]:
  "res_bind r k = Inr b \<longleftrightarrow> (\<exists>a. r = Inr a \<and> k a = Inr b)"
  by (cases r) auto

lemma res_bind_Inl_iff:
  "res_bind r k = Inl e \<longleftrightarrow> r = Inl e \<or> (\<exists>a. r = Inr a \<and> k a = Inl e)"
  by (cases r) auto

lemma res_bind_cong [fundef_cong]:
  "r = r' \<Longrightarrow> (\<And>a. r' = Inr a \<Longrightarrow> k a = k' a) \<Longrightarrow> res_bind r k = res_bind r' k'"
  by (cases r') auto

lemma res_bind_InrE [res_elims]:
  assumes "res_bind r k = Inr b"
  obtains a where "r = Inr a" and "k a = Inr b"
  using assms by auto

text \<open>\<open>Option::filter\<close> and \<open>Option::ok_or\<close>.\<close>

fun opt_filter :: "('a \<Rightarrow> bool) \<Rightarrow> 'a option \<Rightarrow> 'a option" where
  "opt_filter P None = None"
| "opt_filter P (Some x) = (if P x then Some x else None)"

lemma opt_filter_Some_iff [simp]: "opt_filter P x = Some y \<longleftrightarrow> x = Some y \<and> P y"
  by (cases x) auto

fun ok_or :: "'e \<Rightarrow> 'a option \<Rightarrow> 'e + 'a" where
  "ok_or e None = Inl e"
| "ok_or e (Some x) = Inr x"

text \<open>\<open>Iterator::collect::<Result<Vec<_>, _>>()\<close>: every item's result, or the first error.\<close>

fun collect_res :: "('a \<Rightarrow> 'e + 'b) \<Rightarrow> 'a list \<Rightarrow> 'e + 'b list" where
  "collect_res f [] = Inr []"
| "collect_res f (x # xs) = res_bind (f x) (\<lambda>y. res_bind (collect_res f xs) (\<lambda>ys. Inr (y # ys)))"


lemma collect_res_Inr_length: "collect_res f xs = Inr ys \<Longrightarrow> length ys = length xs"
  by (induction xs arbitrary: ys) auto

lemma collect_res_Inr_iff:
  "collect_res f xs = Inr ys \<longleftrightarrow> list_all2 (\<lambda>x y. f x = Inr y) xs ys"
  by (induction xs arbitrary: ys) (auto simp: list_all2_Cons1)

section \<open>Strings\<close>

text \<open>\<open>str::strip_prefix\<close>, \<open>str::strip_suffix\<close>, \<open>str::starts_with\<close>, \<open>str::ends_with\<close>.\<close>

fun strip_prefix :: "'a list \<Rightarrow> 'a list \<Rightarrow> 'a list option" where
  "strip_prefix [] s = Some s"
| "strip_prefix (p # ps) [] = None"
| "strip_prefix (p # ps) (c # cs) = (if p = c then strip_prefix ps cs else None)"

lemma strip_prefix_Some_iff [simp]: "strip_prefix p s = Some r \<longleftrightarrow> s = p @ r"
  by (induction p s rule: strip_prefix.induct) auto

lemma strip_prefix_append [simp]: "strip_prefix p (p @ r) = Some r"
  by simp

definition strip_suffix :: "'a list \<Rightarrow> 'a list \<Rightarrow> 'a list option" where
  "strip_suffix x s = map_option rev (strip_prefix (rev x) (rev s))"

lemma strip_suffix_Some_iff [simp]: "strip_suffix x s = Some r \<longleftrightarrow> s = r @ x"
proof -
  have "strip_suffix x s = Some r \<longleftrightarrow> (\<exists>z. rev s = rev x @ z \<and> r = rev z)"
    by (auto simp: strip_suffix_def)
  also have "\<dots> \<longleftrightarrow> s = r @ x"
    by (metis rev_append rev_rev_ident)
  finally show ?thesis .
qed

definition starts_with :: "'a list \<Rightarrow> 'a list \<Rightarrow> bool" where
  "starts_with p s \<longleftrightarrow> strip_prefix p s \<noteq> None"

definition ends_with :: "'a list \<Rightarrow> 'a list \<Rightarrow> bool" where
  "ends_with x s \<longleftrightarrow> strip_suffix x s \<noteq> None"

lemma starts_with_iff: "starts_with p s \<longleftrightarrow> (\<exists>r. s = p @ r)"
  by (auto simp: starts_with_def)

lemma ends_with_iff: "ends_with x s \<longleftrightarrow> (\<exists>r. s = r @ x)"
  by (auto simp: ends_with_def)

text \<open>\<open>str::rsplit_once(c)\<close>: the parts before and after the last \<open>c\<close>.\<close>

fun rsplit_once :: "'a \<Rightarrow> 'a list \<Rightarrow> ('a list \<times> 'a list) option" where
  "rsplit_once c [] = None"
| "rsplit_once c (x # xs) =
     (case rsplit_once c xs of
        Some (a, b) \<Rightarrow> Some (x # a, b)
      | None \<Rightarrow> if x = c then Some ([], xs) else None)"

lemma rsplit_once_None_iff: "rsplit_once c s = None \<longleftrightarrow> c \<notin> set s"
  by (induction s) (auto split: option.splits)

lemma rsplit_once_Some_iff:
  "rsplit_once c s = Some (a, b) \<longleftrightarrow> s = a @ c # b \<and> c \<notin> set b"
proof (induction s arbitrary: a)
  case Nil
  then show ?case by simp
next
  case (Cons x xs)
  show ?case
  proof (cases "rsplit_once c xs")
    case None
    then have "c \<notin> set xs" by (simp add: rsplit_once_None_iff)
    with None show ?thesis by (cases a) auto
  next
    case (Some ab)
    obtain a' b' where ab: "ab = (a', b')" by (cases ab)
    from Some have "c \<in> set xs" by (metis rsplit_once_None_iff option.distinct(1))
    with Some ab Cons.IH [of a'] Cons.IH [of "tl a"] show ?thesis
      by (cases a) (auto simp: append_eq_Cons_conv)
  qed
qed

lemma rsplit_once_append [simp]: "c \<notin> set b \<Longrightarrow> rsplit_once c (a @ c # b) = Some (a, b)"
  by (simp add: rsplit_once_Some_iff)

text \<open>\<open>str::split(c)\<close>: every part, the empty ones too.\<close>

fun split_on :: "'a \<Rightarrow> 'a list \<Rightarrow> 'a list list" where
  "split_on c [] = [[]]"
| "split_on c (x # xs) =
     (if x = c then [] # split_on c xs
      else case split_on c xs of p # ps \<Rightarrow> (x # p) # ps | [] \<Rightarrow> [[x]])"

lemma split_on_none: "c \<notin> set s \<Longrightarrow> split_on c s = [s]"
  by (induction s) auto

lemma split_on_append: "c \<notin> set a \<Longrightarrow> split_on c (a @ c # b) = a # split_on c b"
  by (induction a) auto

text \<open>\<open>str::trim_end_matches(c)\<close> for one character.\<close>

definition trim_end_matches :: "'a \<Rightarrow> 'a list \<Rightarrow> 'a list" where
  "trim_end_matches c s = rev (dropWhile (\<lambda>x. x = c) (rev s))"

text \<open>\<open>str::eq_ignore_ascii_case\<close>.\<close>

definition ascii_lower :: "char \<Rightarrow> char" where
  "ascii_lower c =
     (let n = of_char c :: nat in if 65 \<le> n \<and> n \<le> 90 then char_of (n + 32) else c)"

definition eq_ignore_ascii_case :: "string \<Rightarrow> string \<Rightarrow> bool" where
  "eq_ignore_ascii_case a b \<longleftrightarrow> map ascii_lower a = map ascii_lower b"

section \<open>Decimal numbers\<close>

text \<open>\<open>str::trim\<close>: the UTF-8 encodings of the characters Unicode calls white space, off both ends.\<close>

definition white_space :: "string list" where
  "white_space =
     map (\<lambda>n. [char_of n]) [9, 10, 11, 12, 13, 32 :: nat]
     @ map (map char_of) ([[0xC2, 0x85], [0xC2, 0xA0], [0xE1, 0x9A, 0x80 :: nat]]
         @ map (\<lambda>n. [0xE2, 0x80, n]) ([0x80..<0x8B] @ [0xA8, 0xA9, 0xAF])
         @ [[0xE2, 0x81, 0x9F], [0xE3, 0x80, 0x80]])"

definition strip_space :: "(string \<Rightarrow> string \<Rightarrow> string option) \<Rightarrow> string \<Rightarrow> string option" where
  "strip_space strip s =
     (case filter (\<lambda>w. w \<noteq> [] \<and> strip w s \<noteq> None) white_space of [] \<Rightarrow> None | w # _ \<Rightarrow> strip w s)"

function trim_start :: "string \<Rightarrow> string" where
  "trim_start s = (case strip_space strip_prefix s of None \<Rightarrow> s | Some s' \<Rightarrow> trim_start s')"
  by pat_completeness auto
termination
  by (relation "measure length")
    (auto simp: strip_space_def filter_eq_Cons_iff split: list.splits)

function trim_end :: "string \<Rightarrow> string" where
  "trim_end s = (case strip_space strip_suffix s of None \<Rightarrow> s | Some s' \<Rightarrow> trim_end s')"
  by pat_completeness auto
termination
  by (relation "measure length")
    (auto simp: strip_space_def filter_eq_Cons_iff split: list.splits)

declare trim_start.simps [simp del] trim_end.simps [simp del]

definition trim_str :: "string \<Rightarrow> string" where
  "trim_str s = trim_end (trim_start s)"

definition digit_char :: "nat \<Rightarrow> char" where
  "digit_char d = char_of (48 + d)"

definition is_digit :: "char \<Rightarrow> bool" where
  "is_digit c \<longleftrightarrow> 48 \<le> (of_char c :: nat) \<and> (of_char c :: nat) \<le> 57"

definition digit_value :: "char \<Rightarrow> nat" where
  "digit_value c = of_char c - 48"

text \<open>\<open>Display\<close> of an unsigned and of a signed integer.\<close>

fun show_nat :: "nat \<Rightarrow> string" where
  "show_nat n = (if n < 10 then [digit_char n] else show_nat (n div 10) @ [digit_char (n mod 10)])"

declare show_nat.simps [simp del]

definition show_int :: "int \<Rightarrow> string" where
  "show_int x = (if x < 0 then CHR ''-'' # show_nat (nat (- x)) else show_nat (nat x))"

definition digits_value :: "string \<Rightarrow> nat" where
  "digits_value s = foldl (\<lambda>n c. 10 * n + digit_value c) 0 s"

text \<open>
  \<open>str::parse::<u64>()\<close> (an optional \<open>+\<close>, then at least one digit) and, of a string of digits,
  \<open>str::parse::<i32>()\<close>; both fail out of range.
\<close>

definition parse_unsigned :: "nat \<Rightarrow> string \<Rightarrow> nat option" where
  "parse_unsigned bound s =
     (let d = (case s of c # cs \<Rightarrow> if c = CHR ''+'' then cs else s | [] \<Rightarrow> s)
      in if d \<noteq> [] \<and> list_all is_digit d \<and> digits_value d < bound then Some (digits_value d)
         else None)"

definition parse_u64 :: "string \<Rightarrow> nat option" where
  "parse_u64 = parse_unsigned (2 ^ 64)"

definition parse_u32 :: "string \<Rightarrow> nat option" where
  "parse_u32 = parse_unsigned (2 ^ 32)"

definition parse_digits_i32 :: "string \<Rightarrow> int option" where
  "parse_digits_i32 s =
     (if s \<noteq> [] \<and> list_all is_digit s \<and> digits_value s < 2 ^ 31 then Some (int (digits_value s))
      else None)"

lemma digit_char_value [simp]: "d < 10 \<Longrightarrow> digit_value (digit_char d) = d"
  by (simp add: digit_value_def digit_char_def)

lemma is_digit_digit_char [simp]: "d < 10 \<Longrightarrow> is_digit (digit_char d)"
  by (simp add: is_digit_def digit_char_def)

lemma show_nat_digits [simp]: "list_all is_digit (show_nat n)"
proof (induction n rule: show_nat.induct)
  case (1 n)
  then show ?case by (subst show_nat.simps) auto
qed

lemma show_nat_nonempty [simp]: "show_nat n \<noteq> []"
  by (subst show_nat.simps) simp

lemma digits_value_snoc: "digits_value (s @ [c]) = 10 * digits_value s + digit_value c"
  by (simp add: digits_value_def)

lemma digits_value_show [simp]: "digits_value (show_nat n) = n"
proof (induction n rule: show_nat.induct)
  case (1 n)
  show ?case
  proof (cases "n < 10")
    case True
    then show ?thesis by (subst show_nat.simps) (simp add: digits_value_def)
  next
    case False
    with "1.IH" show ?thesis
      by (subst show_nat.simps) (simp add: digits_value_snoc)
  qed
qed

lemma show_nat_inject [simp]: "show_nat m = show_nat n \<longleftrightarrow> m = n"
  by (metis digits_value_show)

lemma not_digit_notin_show: "\<not> is_digit c \<Longrightarrow> c \<notin> set (show_nat n)"
  using show_nat_digits [of n] by (auto simp: list_all_iff)

lemma dash_notin_show [simp]: "CHR ''-'' \<notin> set (show_nat n)"
  by (rule not_digit_notin_show) (simp add: is_digit_def)

lemma parse_digits_i32_show:
  "int n < 2 ^ 31 \<Longrightarrow> parse_digits_i32 (show_nat n) = Some (int n)"
  by (simp add: parse_digits_i32_def)

lemma parse_unsigned_show: "n < bound \<Longrightarrow> parse_unsigned bound (show_nat n) = Some n"
proof -
  assume n: "n < bound"
  have "hd (show_nat n) \<noteq> CHR ''+''"
  proof -
    have "hd (show_nat n) \<in> set (show_nat n)" by (rule hd_in_set) simp
    moreover have "CHR ''+'' \<notin> set (show_nat n)"
      by (rule not_digit_notin_show) (simp add: is_digit_def)
    ultimately show ?thesis by metis
  qed
  moreover obtain c cs where s: "show_nat n = c # cs"
    by (metis show_nat_nonempty neq_Nil_conv)
  ultimately have "c \<noteq> CHR ''+''" by simp
  with s have "(case show_nat n of c # cs \<Rightarrow> if c = CHR ''+'' then cs else show_nat n
      | [] \<Rightarrow> show_nat n) = show_nat n" by simp
  with n show ?thesis by (simp add: parse_unsigned_def)
qed

lemma show_int_inject [simp]: "show_int x = show_int y \<longleftrightarrow> x = y"
proof
  assume eq: "show_int x = show_int y"
  have neg: "CHR ''-'' # show_nat m \<noteq> show_nat n" for m n
    by (metis dash_notin_show list.set_intros(1))
  show "x = y"
    using eq neg neg [symmetric]
    by (auto simp: show_int_def split: if_splits)
qed simp

text \<open>\<open>{n:020}\<close>: zero-padded to twenty digits.\<close>

definition pad20 :: "nat \<Rightarrow> string" where
  "pad20 n = (let s = show_nat n in replicate (20 - length s) CHR ''0'' @ s)"

lemma digit_value_inject: "is_digit a \<Longrightarrow> is_digit b \<Longrightarrow> digit_value a = digit_value b \<Longrightarrow> a = b"
  by (simp add: is_digit_def digit_value_def eq_diff_iff)

lemma digit_value_less: "is_digit a \<Longrightarrow> digit_value a < 10"
  unfolding is_digit_def digit_value_def by linarith

lemma digits_value_inject:
  assumes "list_all is_digit s" and "list_all is_digit t" and "length s = length t"
    and "digits_value s = digits_value t"
  shows "s = t"
  using assms
proof (induction s arbitrary: t rule: rev_induct)
  case (snoc a s)
  then obtain t' b where t: "t = t' @ [b]" by (metis append_Nil2 length_0_conv rev_exhaust snoc_eq_iff_butlast)
  have lt: "digit_value a < 10" "digit_value b < 10"
    using snoc.prems(1,2) by (auto simp: t digit_value_less)
  have eq: "10 * digits_value s + digit_value a = 10 * digits_value t' + digit_value b"
    using snoc.prems(4) by (simp add: t digits_value_snoc)
  with lt have "digits_value s = digits_value t'" "digit_value a = digit_value b" by presburger+
  with snoc show ?case by (auto simp: t digit_value_inject)
qed simp

lemma digits_value_zeros: "digits_value (replicate n CHR ''0'' @ s) = digits_value s"
  by (induction n) (simp_all add: digits_value_def digit_value_def)

lemma length_show_nat: "n < 10 ^ k \<Longrightarrow> 0 < k \<Longrightarrow> length (show_nat n) \<le> k"
proof (induction k arbitrary: n)
  case (Suc k)
  show ?case
  proof (cases "n < 10")
    case True
    then show ?thesis by (subst show_nat.simps) simp
  next
    case False
    with Suc.prems have "0 < k" by (cases k) auto
    moreover from Suc.prems have "n div 10 < 10 ^ k" by (simp add: less_mult_imp_div_less mult.commute)
    ultimately have "length (show_nat (n div 10)) \<le> k" by (rule Suc.IH [rotated])
    with False show ?thesis by (subst show_nat.simps) simp
  qed
qed simp

lemma pad20_length: "n < 2 ^ 64 \<Longrightarrow> length (pad20 n) = 20"
  using length_show_nat [of n 20] by (simp add: pad20_def Let_def)

lemma pad20_digits [simp]: "list_all is_digit (pad20 n)"
  by (simp add: pad20_def Let_def) (simp add: list_all_iff is_digit_def)

lemma digits_value_pad20 [simp]: "digits_value (pad20 n) = n"
  by (simp add: pad20_def Let_def digits_value_zeros)

section \<open>JSON values\<close>

text \<open>
  A \<open>serde_json::Value\<close>. A number is the integer it holds (\<open>u64\<close> or \<open>i64\<close>) or the bits of a
  double; an object is its members in key order.
\<close>

datatype json =
    JNull
  | JBool bool
  | JInt int
  | JFloat nat
  | JStr string
  | JArr "json list"
  | JObj "(string \<times> json) list"

fun as_i64 :: "json \<Rightarrow> int option" where
  "as_i64 (JInt x) = (if i64 x then Some x else None)"
| "as_i64 _ = None"

fun as_u64 :: "json \<Rightarrow> nat option" where
  "as_u64 (JInt x) = (if 0 \<le> x \<and> u64 (nat x) then Some (nat x) else None)"
| "as_u64 _ = None"

fun as_str :: "json \<Rightarrow> string option" where
  "as_str (JStr s) = Some s"
| "as_str _ = None"

fun as_array :: "json \<Rightarrow> json list option" where
  "as_array (JArr xs) = Some xs"
| "as_array _ = None"

fun json_get :: "string \<Rightarrow> json \<Rightarrow> json option" where
  "json_get k (JObj m) = map_of m k"
| "json_get k _ = None"

end
