(* ===== verification/Cursor.thy ===== *)
theory Cursor
  imports Prelude
begin

text \<open>
  \<open>src/source/cursor.rs\<close>: the resumable stream position \<open>(version, index)\<close>, its steps within and
  across commits, and its total order. Versions and indexes are \<open>u64\<close>: the steps wrap as a release
  build does.
\<close>

type_synonym version = nat

datatype ordering = Less | Equal | Greater

fun ordering_then :: "ordering \<Rightarrow> ordering \<Rightarrow> ordering" where
  "ordering_then Equal o' = o'"
| "ordering_then o1 _ = o1"

definition u64_cmp :: "nat \<Rightarrow> nat \<Rightarrow> ordering" where
  "u64_cmp a b = (if a < b then Less else if a = b then Equal else Greater)"

section \<open>The cursor\<close>

datatype stream_cursor = StreamCursor (cursor_version: version) (cursor_index: nat)

definition at_version :: "version \<Rightarrow> stream_cursor" where
  "at_version v = StreamCursor v 0"

definition next_version :: "stream_cursor \<Rightarrow> stream_cursor" where
  "next_version c = StreamCursor (u64_add (cursor_version c) 1) 0"

definition advanced_by :: "stream_cursor \<Rightarrow> nat \<Rightarrow> stream_cursor" where
  "advanced_by c n = StreamCursor (cursor_version c) (u64_add (cursor_index c) n)"

definition is_commit_boundary :: "stream_cursor \<Rightarrow> bool" where
  "is_commit_boundary c \<longleftrightarrow> cursor_index c = 0"

definition last_fully_consumed_version :: "stream_cursor \<Rightarrow> version option" where
  "last_fully_consumed_version c =
     (if \<not> is_commit_boundary c then None
      else if cursor_version c = 0 then None
      else Some (cursor_version c - 1))"

definition cursor_cmp :: "stream_cursor \<Rightarrow> stream_cursor \<Rightarrow> ordering" where
  "cursor_cmp a b =
     ordering_then (u64_cmp (cursor_version a) (cursor_version b))
       (u64_cmp (cursor_index a) (cursor_index b))"

definition cursor_display :: "stream_cursor \<Rightarrow> string" where
  "cursor_display c = CHR ''v'' # show_nat (cursor_version c) @ CHR ''+'' # show_nat (cursor_index c)"

definition cursor_wf :: "stream_cursor \<Rightarrow> bool" where
  "cursor_wf c \<longleftrightarrow> u64 (cursor_version c) \<and> u64 (cursor_index c)"

text \<open>The \<open>Ord\<close> instance: \<open>cmp\<close> decides the library's order.\<close>

instantiation stream_cursor :: linorder
begin

definition less_eq_stream_cursor :: "stream_cursor \<Rightarrow> stream_cursor \<Rightarrow> bool" where
  "a \<le> b \<longleftrightarrow> cursor_cmp a b \<noteq> Greater"

definition less_stream_cursor :: "stream_cursor \<Rightarrow> stream_cursor \<Rightarrow> bool" where
  "a < b \<longleftrightarrow> cursor_cmp a b = Less"

instance
  by standard
    (auto simp: less_eq_stream_cursor_def less_stream_cursor_def cursor_cmp_def u64_cmp_def
      stream_cursor.expand split: if_splits)

end

lemma cursor_less_iff:
  "a < b \<longleftrightarrow> cursor_version a < cursor_version b
     \<or> (cursor_version a = cursor_version b \<and> cursor_index a < cursor_index b)"
  by (simp add: less_stream_cursor_def cursor_cmp_def u64_cmp_def)

lemma cursor_le_iff:
  "a \<le> b \<longleftrightarrow> cursor_version a < cursor_version b
     \<or> (cursor_version a = cursor_version b \<and> cursor_index a \<le> cursor_index b)"
  by (auto simp: less_eq_stream_cursor_def cursor_cmp_def u64_cmp_def)

lemma at_version_simps [simp]:
  "cursor_version (at_version v) = v" "cursor_index (at_version v) = 0"
  "is_commit_boundary (at_version v)"
  by (simp_all add: at_version_def is_commit_boundary_def)

lemma next_version_simps [simp]:
  "cursor_version (next_version c) = u64_add (cursor_version c) 1"
  "cursor_index (next_version c) = 0"
  "is_commit_boundary (next_version c)"
  by (simp_all add: next_version_def is_commit_boundary_def)

lemma advanced_by_simps [simp]:
  "cursor_version (advanced_by c n) = cursor_version c"
  "cursor_index (advanced_by c n) = u64_add (cursor_index c) n"
  by (simp_all add: advanced_by_def)

lemma is_commit_boundary_iff: "is_commit_boundary c \<longleftrightarrow> c = at_version (cursor_version c)"
  by (cases c) (simp add: is_commit_boundary_def at_version_def)

lemma last_fully_consumed_Some_iff:
  "last_fully_consumed_version c = Some v \<longleftrightarrow> c = at_version (Suc v)"
  by (cases c) (auto simp: last_fully_consumed_version_def is_commit_boundary_def at_version_def)

lemma at_version_inject [simp]: "at_version a = at_version b \<longleftrightarrow> a = b"
  by (simp add: at_version_def)

lemma last_fully_consumed_at_version [simp]:
  "last_fully_consumed_version (at_version (Suc v)) = Some v"
  "last_fully_consumed_version (at_version 0) = None"
  by (simp_all add: last_fully_consumed_version_def)

lemma cursor_wf_next [simp]: "cursor_wf (next_version c)"
  by (simp add: cursor_wf_def) (simp add: u64_def)

lemma cursor_wf_advanced [simp]: "cursor_wf c \<Longrightarrow> cursor_wf (advanced_by c n)"
  by (simp add: cursor_wf_def)

section \<open>Properties\<close>

text \<open>
  The steps move a cursor forward in its order and never past the following commit's start:
  short of the last version a \<open>u64\<close> can hold, \<open>next_version\<close> is the least commit boundary above
  the cursor, and advancing within a commit, however far, stays strictly below it.
\<close>

lemma next_version_least_boundary:
  assumes "cursor_version c < 2 ^ 64 - 1"
  shows "c < next_version c \<and> advanced_by c n < next_version c
    \<and> (is_commit_boundary d \<and> c < d \<longrightarrow> next_version c \<le> d)"
  using assms by (auto simp: cursor_less_iff cursor_le_iff is_commit_boundary_def)

lemma next_version_least_boundary_witness:
  "StreamCursor 7 42 < next_version (StreamCursor 7 42)
   \<and> next_version (StreamCursor 7 42) \<le> at_version 9
   \<and> advanced_by (StreamCursor 7 42) 100000 < next_version (StreamCursor 7 42)"
proof -
  have h: "cursor_version (StreamCursor 7 42) < 2 ^ 64 - 1" by simp
  have "StreamCursor 7 42 < at_version 9" by (simp add: cursor_less_iff)
  then show ?thesis
    using next_version_least_boundary [OF h, of 100000 "at_version 9"] by simp
qed

end
