(* ===== verification/Errors.thy ===== *)
theory Errors
  imports Cursor
begin

text \<open>
  \<open>src/error.rs\<close>: the error type of the crate and the classification a Kafka pipeline handles its
  errors by. An error of delta-rs is its variant, as far as the crate tells variants apart, and the
  text it prints, which is all the crate has to recognise one kind of checkpoint failure. The
  wording of the crate's own messages is not modelled: \<open>E_Other\<close> and its like carry the fixed words
  that tell one site from another.
\<close>

section \<open>Errors of delta-rs and the object store\<close>

datatype store_error =
    OS_NotFound
  | OS_Generic
  | OS_JoinError
  | OS_Other string

datatype conflict_error =
    ConcurrentDeleteDelete
  | ConcurrentTransaction
  | ConflictOther string

datatype transaction_error =
    TE_CommitConflict conflict_error
  | TE_VersionAlreadyExists nat
  | TE_MaxCommitAttempts nat
  | TE_UnsupportedTableFeatures string
  | TE_TableFeaturesRequired string
  | TE_ObjectStore store_error
  | TE_LogStoreError string
  | TE_Other string

datatype delta_kind =
    DK_InvalidVersion nat
  | DK_VersionAlreadyExists nat
  | DK_Transaction transaction_error
  | DK_ObjectStore store_error
  | DK_Io
  | DK_Arrow
  | DK_SchemaMismatch
  | DK_InvalidJsonLog
  | DK_NotATable
  | DK_KernelError
  | DK_Other

datatype delta_error = DeltaError (delta_kind: delta_kind) (delta_text: string)

section \<open>The crate's error type\<close>

datatype registry_failure = SR_Unavailable | SR_Unauthorized | SR_Refused

datatype client_failure = KC_Transport | KC_Fatal | KC_Config

datatype (plugins only: size) error =
    E_Delta delta_error
  | E_Io
  | E_Config string
  | E_ChangeCommit version
  | E_CommitTooLarge version nat nat nat nat
      \<comment> \<open>\<open>version, files, bytes, max_files, max_bytes\<close>\<close>
  | E_DeletionVectorUnsupported version string
  | E_UnsupportedProtocol version int int
  | E_CursorUnavailable string stream_cursor
  | E_BootstrapUnreachable string version version "string option" version
  | E_SourceFileVacuumed string version string
  | E_SourceReplaced string string
  | E_Fenced string int "int option" "int option"
      \<comment> \<open>\<open>app_id, partition, expected, found\<close>\<close>
  | E_OffsetLogTruncated string version
  | E_DataQualityWrite string nat error
  | E_DataQualityConflict string nat nat string
  | E_KafkaTxnRetention string string
  | E_TargetProtocolUnsupported string string
  | E_TargetReplaced string string string
  | E_KafkaOffsetMissing string "int list" bool
  | E_KafkaOffsetVanished string string "(int \<times> int) list"
  | E_SchemaRegistry string registry_failure string
  | E_KafkaSchemaReferences string nat "string list"
  | E_KafkaMetadataCollision nat string string
  | E_KafkaPartitionColumnUnmapped string "string list" "string list" bool
  | E_KafkaSchemaConflict "string list" string
  | E_KafkaOffsetsUnavailable string int int int
      \<comment> \<open>\<open>topic, partition, wanted, low\<close>\<close>
  | E_KafkaOffsetsRegressed string int int int
      \<comment> \<open>\<open>topic, partition, stored, high\<close>\<close>
  | E_KafkaTopicReplaced string int int string string
  | E_KafkaUndecodable string int int "nat option" string string
  | E_KafkaTooManyUndecodable nat nat string int int "nat option" string
  | E_KafkaAppIdUnknown string string "string list"
  | E_KafkaCompatUnset string string bool
  | E_KafkaStartingOffsetsIncomplete string "int list"
  | E_KafkaClient client_failure string
  | E_Transform string
  | E_Evaluation string
  | E_Capacity string
  | E_Schema string
  | E_Other string

type_synonym 'a res = "error + 'a"

section \<open>Recognising errors of delta-rs\<close>

fun str_contains :: "string \<Rightarrow> string \<Rightarrow> bool" where
  "str_contains p [] \<longleftrightarrow> p = []"
| "str_contains p (c # cs) \<longleftrightarrow> starts_with p (c # cs) \<or> str_contains p cs"

definition is_unreadable_checkpoint :: "delta_error \<Rightarrow> bool" where
  "is_unreadable_checkpoint e \<longleftrightarrow>
     str_contains ''Invalid data type for Delta Lake'' (delta_text e)
     \<or> (str_contains ''stats_parsed'' (delta_text e) \<and> str_contains ''Schema error'' (delta_text e))"

definition is_store_fault :: "delta_error \<Rightarrow> bool" where
  "is_store_fault e \<longleftrightarrow>
     (case delta_kind e of
        DK_ObjectStore _ \<Rightarrow> True
      | DK_Io \<Rightarrow> True
      | DK_Transaction (TE_ObjectStore _) \<Rightarrow> True
      | DK_Transaction (TE_LogStoreError _) \<Rightarrow> True
      | _ \<Rightarrow> False)"

definition is_unwritable :: "delta_error \<Rightarrow> bool" where
  "is_unwritable e \<longleftrightarrow>
     (case delta_kind e of
        DK_Transaction (TE_UnsupportedTableFeatures _) \<Rightarrow> True
      | DK_Transaction (TE_TableFeaturesRequired _) \<Rightarrow> True
      | _ \<Rightarrow> False)"

definition is_unfit :: "delta_error \<Rightarrow> bool" where
  "is_unfit e \<longleftrightarrow> delta_kind e = DK_Arrow \<or> delta_kind e = DK_SchemaMismatch"

definition is_unreadable_log :: "delta_error \<Rightarrow> bool" where
  "is_unreadable_log e \<longleftrightarrow> delta_kind e = DK_InvalidJsonLog"

section \<open>The class of an error\<close>

datatype error_class =
    Replan
  | Transient
  | Capacity
  | BlockingPipeline
  | BlockingPartition
  | OpenRefusal
  | ConsumerFatal

fun data_quality_class :: "error \<Rightarrow> error_class" where
  "data_quality_class err =
     (case err of
        E_DataQualityWrite _ _ source \<Rightarrow> data_quality_class source
      | E_Capacity _ \<Rightarrow> Capacity
      | E_TargetProtocolUnsupported _ _ \<Rightarrow> BlockingPipeline
      | E_Delta e \<Rightarrow>
          if is_store_fault e then Transient
          else if is_unwritable e \<or> is_unfit e \<or> is_unreadable_log e then BlockingPipeline
          else Transient
      | E_Other _ \<Rightarrow> ConsumerFatal
      | _ \<Rightarrow> Transient)"

declare data_quality_class.simps [simp del]

definition delta_class :: "delta_error \<Rightarrow> error_class" where
  "delta_class e =
     (case delta_kind e of
        DK_InvalidVersion _ \<Rightarrow> Replan
      | DK_VersionAlreadyExists _ \<Rightarrow> Replan
      | DK_Transaction (TE_CommitConflict _) \<Rightarrow> Replan
      | DK_Transaction (TE_VersionAlreadyExists _) \<Rightarrow> Replan
      | DK_Transaction (TE_MaxCommitAttempts _) \<Rightarrow> Replan
      | _ \<Rightarrow>
          if is_unreadable_checkpoint e then Replan
          else if is_unwritable e then BlockingPipeline
          else Transient)"

definition kafka_class :: "error \<Rightarrow> error_class" where
  "kafka_class err =
     (case err of
        E_Capacity _ \<Rightarrow> Capacity
      | E_DataQualityWrite _ _ source \<Rightarrow> data_quality_class source
      | E_DataQualityConflict _ _ _ _ \<Rightarrow> Transient
      | E_Fenced _ _ _ _ \<Rightarrow> Replan
      | E_OffsetLogTruncated _ _ \<Rightarrow> Replan
      | E_Delta e \<Rightarrow> delta_class e
      | E_Io \<Rightarrow> Transient
      | E_Config _ \<Rightarrow> Transient
      | E_KafkaTxnRetention _ _ \<Rightarrow> BlockingPipeline
      | E_TargetProtocolUnsupported _ _ \<Rightarrow> BlockingPipeline
      | E_TargetReplaced _ _ _ \<Rightarrow> BlockingPipeline
      | E_KafkaOffsetVanished _ _ _ \<Rightarrow> BlockingPipeline
      | E_Transform _ \<Rightarrow> BlockingPipeline
      | E_Evaluation _ \<Rightarrow> BlockingPipeline
      | E_Schema _ \<Rightarrow> BlockingPipeline
      | E_KafkaOffsetMissing _ _ _ \<Rightarrow> OpenRefusal
      | E_KafkaAppIdUnknown _ _ _ \<Rightarrow> OpenRefusal
      | E_KafkaCompatUnset _ _ _ \<Rightarrow> OpenRefusal
      | E_KafkaStartingOffsetsIncomplete _ _ \<Rightarrow> OpenRefusal
      | E_KafkaOffsetsUnavailable _ _ _ _ \<Rightarrow> BlockingPartition
      | E_KafkaOffsetsRegressed _ _ _ _ \<Rightarrow> BlockingPartition
      | E_KafkaTopicReplaced _ _ _ _ _ \<Rightarrow> BlockingPartition
      | E_KafkaUndecodable _ _ _ _ _ _ \<Rightarrow> BlockingPipeline
      | E_KafkaTooManyUndecodable _ _ _ _ _ _ _ \<Rightarrow> BlockingPipeline
      | E_KafkaClient f _ \<Rightarrow> (case f of KC_Transport \<Rightarrow> Transient | KC_Fatal \<Rightarrow> ConsumerFatal | KC_Config \<Rightarrow> ConsumerFatal)
      | E_SchemaRegistry _ f _ \<Rightarrow> (case f of SR_Unavailable \<Rightarrow> Transient | SR_Unauthorized \<Rightarrow> ConsumerFatal | SR_Refused \<Rightarrow> BlockingPipeline)
      | E_KafkaSchemaReferences _ _ _ \<Rightarrow> BlockingPipeline
      | E_KafkaMetadataCollision _ _ _ \<Rightarrow> BlockingPipeline
      | E_KafkaPartitionColumnUnmapped _ _ _ _ \<Rightarrow> BlockingPipeline
      | E_KafkaSchemaConflict _ _ \<Rightarrow> BlockingPipeline
      | E_Other _ \<Rightarrow> ConsumerFatal
      | E_ChangeCommit _ \<Rightarrow> ConsumerFatal
      | E_CommitTooLarge _ _ _ _ _ \<Rightarrow> ConsumerFatal
      | E_DeletionVectorUnsupported _ _ \<Rightarrow> ConsumerFatal
      | E_UnsupportedProtocol _ _ _ \<Rightarrow> ConsumerFatal
      | E_CursorUnavailable _ _ \<Rightarrow> ConsumerFatal
      | E_BootstrapUnreachable _ _ _ _ _ \<Rightarrow> ConsumerFatal
      | E_SourceFileVacuumed _ _ _ \<Rightarrow> ConsumerFatal
      | E_SourceReplaced _ _ \<Rightarrow> ConsumerFatal)"

definition kafka_block_reason :: "error \<Rightarrow> string" where
  "kafka_block_reason e =
     (let by_class = (case kafka_class e of
          Capacity \<Rightarrow> ''capacity''
        | Replan \<Rightarrow> ''transient''
        | Transient \<Rightarrow> ''transient''
        | _ \<Rightarrow> ''other'')
      in case e of
        E_TargetReplaced _ _ _ \<Rightarrow> ''target_replaced''
      | E_KafkaTxnRetention _ _ \<Rightarrow> ''txn_retention''
      | E_TargetProtocolUnsupported _ _ \<Rightarrow> ''protocol_unsupported''
      | E_Delta d \<Rightarrow> if is_unwritable d then ''protocol_unsupported'' else by_class
      | E_KafkaOffsetVanished _ _ _ \<Rightarrow> ''offset_vanished''
      | E_KafkaUndecodable _ _ _ _ _ _ \<Rightarrow> ''undecodable''
      | E_KafkaTooManyUndecodable _ _ _ _ _ _ _ \<Rightarrow> ''undecodable''
      | E_KafkaSchemaConflict _ _ \<Rightarrow> ''schema_conflict''
      | E_KafkaSchemaReferences _ _ _ \<Rightarrow> ''schema_references''
      | E_KafkaMetadataCollision _ _ _ \<Rightarrow> ''metadata_collision''
      | E_KafkaPartitionColumnUnmapped _ _ _ _ \<Rightarrow> ''partition_column_unmapped''
      | E_Transform _ \<Rightarrow> ''transform''
      | E_Evaluation _ \<Rightarrow> ''evaluation''
      | E_Schema _ \<Rightarrow> ''schema''
      | E_DataQualityWrite _ _ _ \<Rightarrow> ''data_quality''
      | E_SchemaRegistry _ _ _ \<Rightarrow> ''schema_registry''
      | _ \<Rightarrow> by_class)"

definition kafka_waits_for_an_operator :: "error \<Rightarrow> bool" where
  "kafka_waits_for_an_operator e \<longleftrightarrow>
     (case kafka_class e of
        OpenRefusal \<Rightarrow> True
      | BlockingPipeline \<Rightarrow> True
      | BlockingPartition \<Rightarrow> True
      | Capacity \<Rightarrow> True
      | ConsumerFatal \<Rightarrow>
          (case e of
             E_KafkaClient KC_Config _ \<Rightarrow> True
           | E_SchemaRegistry _ SR_Unauthorized _ \<Rightarrow> True
           | _ \<Rightarrow> False)
      | Replan \<Rightarrow> False
      | Transient \<Rightarrow> False)"

fun is_capacity :: "error \<Rightarrow> bool" where
  "is_capacity err \<longleftrightarrow>
     (case err of
        E_Capacity _ \<Rightarrow> True
      | E_DataQualityWrite _ _ source \<Rightarrow> is_capacity source
      | _ \<Rightarrow> False)"

declare is_capacity.simps [simp del]

lemma data_quality_class_capacity: "data_quality_class e = Capacity \<longleftrightarrow> is_capacity e"
proof (induction e)
qed (simp_all add: data_quality_class.simps is_capacity.simps)

lemma data_quality_class_cases:
  "data_quality_class e \<in> {Capacity, BlockingPipeline, Transient, ConsumerFatal}"
proof (induction e)
qed (simp_all add: data_quality_class.simps)

lemma delta_class_cases: "delta_class e \<in> {Replan, BlockingPipeline, Transient}"
  by (auto simp: delta_class_def split: delta_kind.splits transaction_error.splits)

lemma delta_class_not [simp]: "delta_class e \<noteq> Capacity" "Capacity \<noteq> delta_class e"
  using delta_class_cases [of e] by auto

section \<open>Properties\<close>

text \<open>
  An error is handled as exhausted capacity exactly when it is one, however deep a
  data-quality write has wrapped it; and an error of the data-quality table is never a replan of
  the target, never blocks one partition alone and never counts as an open-time refusal, whatever
  its cause.
\<close>

lemma data_quality_write_class:
  "(kafka_class e = Capacity \<longleftrightarrow> is_capacity e)
   \<and> kafka_class (E_DataQualityWrite uri rows e) \<notin> {Replan, BlockingPartition, OpenRefusal}"
proof -
  have "kafka_class e = Capacity \<longleftrightarrow> is_capacity e"
    by (cases e) (simp_all add: kafka_class_def data_quality_class_capacity is_capacity.simps
        split: client_failure.split registry_failure.split)
  moreover have "kafka_class (E_DataQualityWrite uri rows e) \<notin> {Replan, BlockingPartition, OpenRefusal}"
    using data_quality_class_cases [of e] by (auto simp: kafka_class_def)
  ultimately show ?thesis by blast
qed

end
