(* ===== verification/Offset.thy ===== *)
theory Offset
  imports Errors
begin

text \<open>
  \<open>src/offset.rs\<close>: the resume offset a Delta pipeline keeps in its target's own log, one \<open>txn\<close>
  action under the pipeline's app id. The target handle is delta-rs's: what it answers for an app
  id's \<open>txn\<close> is the parameter \<open>transaction_version\<close>.
\<close>

record offset_store =
  os_app_id :: string
  os_starting_version :: version

definition offset_store_new :: "string \<Rightarrow> version \<Rightarrow> offset_store" where
  "offset_store_new app_id starting_version =
     \<lparr>os_app_id = app_id, os_starting_version = starting_version\<rparr>"

definition last_committed_version ::
    "offset_store \<Rightarrow> (string \<Rightarrow> delta_error + int option) \<Rightarrow> version option res" where
  "last_committed_version s transaction_version =
     (case transaction_version (os_app_id s) of
        Inl e \<Rightarrow> Inl (E_Delta e)
      | Inr None \<Rightarrow> Inr None
      | Inr (Some v) \<Rightarrow>
          if v < 0 then Inl (E_Other ''target table holds a negative txn version'')
          else Inr (Some (nat v)))"

definition resume_cursor ::
    "offset_store \<Rightarrow> (string \<Rightarrow> delta_error + int option) \<Rightarrow> stream_cursor res" where
  "resume_cursor s transaction_version =
     res_bind (last_committed_version s transaction_version) (\<lambda>last.
       Inr (case last of
              Some v \<Rightarrow> at_version (u64_add v 1)
            | None \<Rightarrow> at_version (os_starting_version s)))"

definition txn_version_for :: "stream_cursor \<Rightarrow> int res" where
  "txn_version_for c =
     (case last_fully_consumed_version c of
        None \<Rightarrow> Inl (E_Other ''refusing to record a mid-commit cursor'')
      | Some v \<Rightarrow>
          if v < 2 ^ 63 then Inr (int v)
          else Inl (E_Other ''source version does not fit in the txn action's i64''))"

lemma txn_version_for_Inr_iff:
  "txn_version_for c = Inr t \<longleftrightarrow> (\<exists>v. c = at_version (Suc v) \<and> v < 2 ^ 63 \<and> t = int v)"
  by (auto simp: txn_version_for_def last_fully_consumed_Some_iff split: option.splits)

lemma resume_cursor_stored:
  "transaction_version (os_app_id s) = Inr (Some (int v)) \<Longrightarrow> v < 2 ^ 63 \<Longrightarrow>
     resume_cursor s transaction_version = Inr (at_version (Suc v))"
  by (simp add: resume_cursor_def last_committed_version_def)

lemma resume_cursor_fresh:
  "transaction_version (os_app_id s) = Inr None \<Longrightarrow>
     resume_cursor s transaction_version = Inr (at_version (os_starting_version s))"
  by (simp add: resume_cursor_def last_committed_version_def)

lemma resume_cursor_boundary:
  "resume_cursor s tv = Inr c \<Longrightarrow> is_commit_boundary c"
  by (auto simp: resume_cursor_def split: option.splits)

section \<open>Properties\<close>

text \<open>
  A restart continues exactly where the last commit ended: whatever cursor a batch ended at,
  if its offset can be recorded at all, a target holding that record resumes at that very cursor.
  A cursor in the middle of a commit, one at version 0 and one past what the \<open>txn\<close> action's \<open>i64\<close>
  can hold are refused instead of rounded.
\<close>

lemma resume_at_recorded_cursor:
  "(case txn_version_for c of
      Inr t \<Rightarrow> (\<forall>tv. tv (os_app_id s) = Inr (Some t) \<longrightarrow> resume_cursor s tv = Inr c)
    | Inl e \<Rightarrow> cursor_index c \<noteq> 0 \<or> cursor_version c = 0 \<or> cursor_version c > 2 ^ 63)"
proof (cases "txn_version_for c")
  case (Inl e)
  then have "cursor_index c \<noteq> 0 \<or> cursor_version c = 0 \<or> cursor_version c > 2 ^ 63"
    by (cases c)
      (auto simp: txn_version_for_def last_fully_consumed_version_def is_commit_boundary_def
        split: option.splits if_splits)
  with Inl show ?thesis by simp
next
  case (Inr t)
  then obtain v where "c = at_version (Suc v)" "v < 2 ^ 63" "t = int v"
    by (auto simp: txn_version_for_Inr_iff)
  with Inr show ?thesis by (simp add: resume_cursor_stored)
qed

lemma resume_at_recorded_cursor_witness:
  "txn_version_for (at_version 12) = Inr 11
   \<and> resume_cursor (offset_store_new ''ddi.orders'' 0) (\<lambda>_. Inr (Some 11)) = Inr (at_version 12)"
proof -
  have t: "txn_version_for (at_version 12) = Inr 11"
    by (simp add: txn_version_for_def last_fully_consumed_version_def)
  show ?thesis
    using resume_at_recorded_cursor [of "at_version 12" "offset_store_new ''ddi.orders'' 0"]
    by (simp add: t)
qed

end
