(* ===== verification/BTree.thy ===== *)
theory BTree
  imports Prelude
begin

text \<open>
  \<open>BTreeMap\<close> and \<open>BTreeSet\<close> of the standard library, as the code uses them: an association list,
  respectively a list, in strictly ascending key order, so that iterating is reading it from the
  left. The interface the components rely on is the locale \<open>ordered_map\<close>; the list model is its
  interpretation \<open>btm\<close>.
\<close>

section \<open>The interface\<close>

locale ordered_map =
  fixes empty :: "'m"
    and ins :: "'k::linorder \<Rightarrow> 'v \<Rightarrow> 'm \<Rightarrow> 'm"
    and del :: "'k \<Rightarrow> 'm \<Rightarrow> 'm"
    and get :: "'m \<Rightarrow> 'k \<Rightarrow> 'v option"
    and entries :: "'m \<Rightarrow> ('k \<times> 'v) list"
    and wf :: "'m \<Rightarrow> bool"
  assumes get_empty: "get empty k = None"
    and get_ins: "get (ins k v m) k' = (if k' = k then Some v else get m k')"
    and get_del: "get (del k m) k' = (if k' = k then None else get m k')"
    and get_entries: "wf m \<Longrightarrow> get m k = Some v \<longleftrightarrow> (k, v) \<in> set (entries m)"
    and sorted_entries: "wf m \<Longrightarrow> sorted_wrt (<) (map fst (entries m))"
    and entries_ext: "wf m \<Longrightarrow> wf n \<Longrightarrow> entries m = entries n \<Longrightarrow> m = n"
    and wf_empty: "wf empty"
    and wf_ins: "wf m \<Longrightarrow> wf (ins k v m)"
    and wf_del: "wf m \<Longrightarrow> wf (del k m)"
begin

lemma distinct_entries: "wf m \<Longrightarrow> distinct (map fst (entries m))"
  using sorted_entries strict_sorted_iff by blast

lemma get_eq_map_of: "wf m \<Longrightarrow> get m = map_of (entries m)"
  by (rule ext) (metis distinct_entries get_entries map_of_eq_Some_iff not_Some_eq)

lemma dom_get: "wf m \<Longrightarrow> dom (get m) = fst ` set (entries m)"
  by (simp add: get_eq_map_of dom_map_of_conv_image_fst)

text \<open>Two maps that answer every lookup alike are equal.\<close>

lemma ext_get:
  assumes wf: "wf m" "wf n" and eq: "\<And>k. get m k = get n k"
  shows "m = n"
proof -
  have same: "set (entries m) = set (entries n)"
    using wf eq by (auto simp flip: get_entries)
  have "entries m = entries n"
  proof (rule map_sorted_distinct_set_unique [where f = fst])
    show "inj_on fst (set (entries m) \<union> set (entries n))"
      using same wf by (simp add: distinct_entries eq_key_imp_eq_value inj_on_def)
        (metis distinct_entries eq_key_imp_eq_value prod.collapse)
  qed (use wf same sorted_entries strict_sorted_iff in blast)+
  then show ?thesis using entries_ext wf by blast
qed

lemma wf_fold_ins: "wf m \<Longrightarrow> wf (foldl (\<lambda>m (k, v). ins k v m) m kvs)"
  by (induction kvs arbitrary: m) (auto simp: wf_ins split: prod.splits)

lemma get_fold_ins: "get (foldl (\<lambda>m (k, v). ins k v m) m kvs) k = (get m ++ map_of (rev kvs)) k"
proof (induction kvs arbitrary: m)
  case Nil
  then show ?case by simp
next
  case (Cons kv kvs)
  then show ?case
    by (cases kv) (auto simp: get_ins map_add_def split: option.splits)
qed

end


section \<open>\<open>BTreeMap\<close>\<close>

type_synonym ('k, 'v) bmap = "('k \<times> 'v) list"

fun bt_insert :: "'k::linorder \<Rightarrow> 'v \<Rightarrow> ('k, 'v) bmap \<Rightarrow> ('k, 'v) bmap" where
  "bt_insert k v [] = [(k, v)]"
| "bt_insert k v ((k', v') # m) =
     (if k < k' then (k, v) # (k', v') # m
      else if k = k' then (k, v) # m
      else (k', v') # bt_insert k v m)"

definition bt_remove :: "'k \<Rightarrow> ('k, 'v) bmap \<Rightarrow> ('k, 'v) bmap" where
  "bt_remove k m = filter (\<lambda>e. fst e \<noteq> k) m"

abbreviation bt_get :: "('k, 'v) bmap \<Rightarrow> 'k \<Rightarrow> 'v option" where
  "bt_get \<equiv> map_of"

abbreviation bt_keys :: "('k, 'v) bmap \<Rightarrow> 'k list" where
  "bt_keys m \<equiv> map fst m"

definition bt_mem :: "'k \<Rightarrow> ('k, 'v) bmap \<Rightarrow> bool" where
  "bt_mem k m \<longleftrightarrow> bt_get m k \<noteq> None"

definition bt_wf :: "('k::linorder, 'v) bmap \<Rightarrow> bool" where
  "bt_wf m \<longleftrightarrow> sorted_wrt (<) (map fst m)"

text \<open>\<open>collect\<close> into a map, and \<open>extend\<close>: later entries win.\<close>

definition bt_extend :: "('k::linorder, 'v) bmap \<Rightarrow> ('k \<times> 'v) list \<Rightarrow> ('k, 'v) bmap" where
  "bt_extend m kvs = foldl (\<lambda>m (k, v). bt_insert k v m) m kvs"

definition bt_collect :: "('k::linorder \<times> 'v) list \<Rightarrow> ('k, 'v) bmap" where
  "bt_collect kvs = bt_extend [] kvs"

lemma bt_get_insert [simp]: "bt_get (bt_insert k v m) k' = (if k' = k then Some v else bt_get m k')"
  by (induction k v m rule: bt_insert.induct) auto

lemma bt_get_remove [simp]: "bt_get (bt_remove k m) k' = (if k' = k then None else bt_get m k')"
  by (induction m) (auto simp: bt_remove_def)

lemma set_bt_insert_keys: "fst ` set (bt_insert k v m) = insert k (fst ` set m)"
  by (induction k v m rule: bt_insert.induct) auto

lemma bt_wf_Nil [simp]: "bt_wf []"
  by (simp add: bt_wf_def)

lemma bt_wf_insert [simp]: "bt_wf m \<Longrightarrow> bt_wf (bt_insert k v m)"
proof (induction k v m rule: bt_insert.induct)
  case (1 k v)
  then show ?case by (simp add: bt_wf_def)
next
  case (2 k v k' v' m)
  from "2.prems" have m: "bt_wf m" and lt: "\<forall>x \<in> fst ` set m. k' < x"
    by (auto simp: bt_wf_def)
  show ?case
  proof (cases "k' < k")
    case True
    with "2.IH" m have "bt_wf (bt_insert k v m)" by auto
    moreover have "\<forall>x \<in> fst ` set (bt_insert k v m). k' < x"
      using lt True by (simp add: set_bt_insert_keys)
    ultimately show ?thesis using True by (auto simp: bt_wf_def)
  next
    case False
    with m lt show ?thesis by (force simp: bt_wf_def)
  qed
qed

lemma bt_wf_filter [simp]: "bt_wf m \<Longrightarrow> bt_wf (filter P m)"
  by (induction m) (auto simp: bt_wf_def)

lemma bt_wf_remove [simp]: "bt_wf m \<Longrightarrow> bt_wf (bt_remove k m)"
  by (simp add: bt_remove_def)

lemma bt_wf_map_values [simp]: "bt_wf (map (\<lambda>e. (fst e, f e)) m) \<longleftrightarrow> bt_wf m"
  by (simp add: bt_wf_def comp_def)

lemma bt_wf_distinct: "bt_wf m \<Longrightarrow> distinct (map fst m)"
  unfolding bt_wf_def using strict_sorted_iff by blast

interpretation btm: ordered_map "[]" bt_insert bt_remove bt_get "\<lambda>m. m" bt_wf
proof unfold_locales
  fix m :: "('a \<times> 'b) list" and k v
  assume "bt_wf m"
  then show "bt_get m k = Some v \<longleftrightarrow> (k, v) \<in> set m"
    by (meson bt_wf_distinct map_of_eq_Some_iff)
qed (auto simp: bt_wf_def intro: bt_wf_insert [unfolded bt_wf_def] bt_wf_remove [unfolded bt_wf_def])

lemmas bt_get_Some_iff = btm.get_entries
lemmas bt_ext = btm.ext_get

lemma bt_mem_iff: "bt_mem k m \<longleftrightarrow> k \<in> fst ` set m"
  by (simp add: bt_mem_def map_of_eq_None_iff)

lemma bt_wf_extend [simp]: "bt_wf m \<Longrightarrow> bt_wf (bt_extend m kvs)"
  by (simp add: bt_extend_def btm.wf_fold_ins)

lemma bt_wf_collect [simp]: "bt_wf (bt_collect kvs)"
  by (simp add: bt_collect_def)

lemma bt_get_extend: "bt_get (bt_extend m kvs) k = (bt_get m ++ map_of (rev kvs)) k"
  unfolding bt_extend_def by (rule btm.get_fold_ins)

lemma bt_get_collect: "bt_get (bt_collect kvs) k = map_of (rev kvs) k"
  by (simp add: bt_collect_def bt_get_extend)

lemma bt_get_collect_distinct:
  "distinct (map fst kvs) \<Longrightarrow> bt_get (bt_collect kvs) k = map_of kvs k"
proof -
  assume d: "distinct (map fst kvs)"
  then have d': "distinct (map fst (rev kvs))" by (simp add: rev_map [symmetric])
  have "map_of (rev kvs) = map_of kvs"
    by (rule map_of_eqI) (use d d' in \<open>auto intro!: map_of_inject_set [THEN iffD2, THEN fun_cong]\<close>)
  then show ?thesis by (simp add: bt_get_collect)
qed

lemma bt_get_map_values: "bt_get (map (\<lambda>e. (fst e, f (snd e))) m) k = map_option f (bt_get m k)"
  by (induction m) auto

lemma bt_get_filter:
  "bt_wf m \<Longrightarrow> bt_get (filter P m) k = opt_filter (\<lambda>v. P (k, v)) (bt_get m k)"
proof (cases "bt_get m k")
  case None
  then have "bt_get (filter P m) k = None"
    by (auto simp: map_of_eq_None_iff)
  with None show ?thesis by simp
next
  case (Some v)
  assume wf: "bt_wf m"
  with Some have "(k, v) \<in> set m" by (simp add: bt_get_Some_iff)
  moreover have "bt_get (filter P m) k = Some v \<longleftrightarrow> (k, v) \<in> set (filter P m)"
    using wf by (simp add: bt_get_Some_iff)
  moreover have "bt_get (filter P m) k = None" if "\<not> P (k, v)"
    using wf Some that
    by (auto simp: map_of_eq_None_iff) (metis bt_get_Some_iff option.inject)
  ultimately show ?thesis using Some by auto
qed

text \<open>\<open>m.iter().filter_map(..)\<close> keeping each key it keeps.\<close>

definition bt_filter_map :: "('k \<Rightarrow> 'v \<Rightarrow> 'w option) \<Rightarrow> ('k, 'v) bmap \<Rightarrow> ('k, 'w) bmap" where
  "bt_filter_map f m = List.map_filter (\<lambda>(k, v). map_option (Pair k) (f k v)) m"

lemma bt_filter_map_simps [simp]:
  "bt_filter_map f [] = []"
  "bt_filter_map f ((k, v) # m)
     = (case f k v of None \<Rightarrow> bt_filter_map f m | Some w \<Rightarrow> (k, w) # bt_filter_map f m)"
  by (simp_all add: bt_filter_map_def List.map_filter_simps split: option.split)

lemma bt_filter_map_keys: "fst ` set (bt_filter_map f m) \<subseteq> fst ` set m"
proof (induction m)
  case (Cons e m)
  then show ?case by (cases e) (auto split: option.splits)
qed simp

lemma bt_wf_filter_map [simp]: "bt_wf m \<Longrightarrow> bt_wf (bt_filter_map f m)"
proof (induction m)
  case (Cons e m)
  obtain k v where e: "e = (k, v)" by (cases e)
  from Cons.prems have "bt_wf m" "\<forall>x \<in> fst ` set m. k < x" by (auto simp: bt_wf_def e)
  with Cons.IH bt_filter_map_keys [of f m] have "bt_wf (bt_filter_map f m)"
    "\<forall>x \<in> fst ` set (bt_filter_map f m). k < x" by (blast, meson subsetD)
  then show ?case by (auto simp: e bt_wf_def split: option.splits)
qed simp

lemma bt_get_filter_map:
  "bt_wf m \<Longrightarrow> bt_get (bt_filter_map f m) k = Option.bind (bt_get m k) (f k)"
proof (induction m)
  case (Cons e m)
  obtain l v where e: "e = (l, v)" by (cases e)
  from Cons.prems have wf: "bt_wf m" and "\<forall>x \<in> fst ` set m. l < x" by (auto simp: bt_wf_def e)
  then have "l \<notin> fst ` set (bt_filter_map f m)" using bt_filter_map_keys [of f m] by force
  then have "bt_get (bt_filter_map f m) l = None" by (simp add: map_of_eq_None_iff)
  with Cons.IH [OF wf] show ?case by (auto simp: e split: option.splits)
qed simp

lemma bt_get_collect_map:
  assumes "bt_wf m"
  shows "bt_get (bt_collect (map (\<lambda>(k, v). (k, g k v)) m)) k = map_option (g k) (bt_get m k)"
proof -
  have keys: "map fst (map (\<lambda>(k, v). (k, g k v)) m) = map fst m" by (induction m) auto
  have "distinct (map fst (map (\<lambda>(k, v). (k, g k v)) m))"
    unfolding keys by (rule bt_wf_distinct [OF assms])
  then have "bt_get (bt_collect (map (\<lambda>(k, v). (k, g k v)) m)) k = map_of (map (\<lambda>(k, v). (k, g k v)) m) k"
    by (rule bt_get_collect_distinct)
  also have "\<dots> = map_option (g k) (bt_get m k)" by (induction m) auto
  finally show ?thesis .
qed

lemma bt_get_collect_wf: "bt_wf m \<Longrightarrow> bt_get (bt_collect m) k = bt_get m k"
  by (rule bt_get_collect_distinct) (rule bt_wf_distinct)

section \<open>\<open>BTreeSet\<close>\<close>

type_synonym 'k bset = "'k list"

definition bs_collect :: "'k::linorder list \<Rightarrow> 'k bset" where
  "bs_collect xs = map fst (bt_collect (map (\<lambda>x. (x, ())) xs))"

definition bs_insert :: "'k::linorder \<Rightarrow> 'k bset \<Rightarrow> 'k bset" where
  "bs_insert x s = insort_insert x s"

definition bs_remove :: "'k \<Rightarrow> 'k bset \<Rightarrow> 'k bset" where
  "bs_remove x s = filter (\<lambda>y. y \<noteq> x) s"

definition bs_wf :: "'k::linorder bset \<Rightarrow> bool" where
  "bs_wf s \<longleftrightarrow> sorted_wrt (<) s"

lemma set_bs_collect [simp]: "set (bs_collect xs) = set xs"
proof -
  have "set (bs_collect xs) = dom (bt_get (bt_collect (map (\<lambda>x. (x, ())) xs)))"
    by (simp add: bs_collect_def dom_map_of_conv_image_fst)
  also have "\<dots> = set xs"
    by (auto simp: bt_get_collect dom_def rev_map [symmetric] map_of_eq_None_iff) (force dest: map_of_SomeD simp: rev_map)+
  finally show ?thesis .
qed

lemma bs_wf_collect [simp]: "bs_wf (bs_collect xs)"
  using bt_wf_collect by (auto simp: bs_wf_def bs_collect_def bt_wf_def)

lemma set_bs_insert [simp]: "set (bs_insert x s) = insert x (set s)"
  by (simp add: bs_insert_def set_insort_insert)

lemma bs_wf_insert [simp]: "bs_wf s \<Longrightarrow> bs_wf (bs_insert x s)"
  unfolding bs_wf_def bs_insert_def strict_sorted_iff
  by (auto simp: sorted_insort_insert distinct_insort_insert)

lemma set_bs_remove [simp]: "set (bs_remove x s) = set s - {x}"
  by (auto simp: bs_remove_def)

lemma bs_wf_remove [simp]: "bs_wf s \<Longrightarrow> bs_wf (bs_remove x s)"
  by (auto simp: bs_wf_def bs_remove_def sorted_wrt_filter)

end
