(* ===== verification/Log_Stream.thy ===== *)
theory Log_Stream
  imports Errors BTree
begin

text \<open>
  \<open>src/source/log_stream.rs\<close>: the incremental reader of a Delta table's commit log. A log store
  is delta-rs's and the object store's; what they answer during one poll is a \<open>log_store\<close>, a
  parameter of every operation. The stream's own state is the record \<open>log_stream\<close>, an operation
  returns its result beside the state it leaves.
\<close>

section \<open>The action model the reader uses\<close>

text \<open>
  A \<open>deltalake::kernel::Action\<close> as far as this module looks at one: \<open>add\<close> and \<open>remove\<close> with the
  fields it reads, and every other action as its name.
\<close>

record add_file =
  add_path :: string
  add_size :: int
  add_data_change :: bool
  add_deletion_vector :: bool

record remove_file =
  remove_path :: string
  remove_data_change :: bool

datatype action = ActAdd add_file | ActRemove remove_file | ActOther string

datatype change_policy = PolicyFail | SkipChangeCommits | IgnoreChanges

datatype commit_class = ClassData nat | ClassCompaction | ClassChange nat | ClassNoData

definition data_adds :: "action list \<Rightarrow> add_file list" where
  "data_adds actions =
     List.map_filter (\<lambda>a. case a of ActAdd add \<Rightarrow> if add_data_change add then Some add else None
                               | _ \<Rightarrow> None) actions"

definition data_removes :: "action list \<Rightarrow> remove_file list" where
  "data_removes actions =
     List.map_filter (\<lambda>a. case a of ActRemove r \<Rightarrow> if remove_data_change r then Some r else None
                               | _ \<Rightarrow> None) actions"

definition classify :: "action list \<Rightarrow> commit_class" where
  "classify actions =
     (let adds = length (filter (\<lambda>a. case a of ActAdd add \<Rightarrow> add_data_change add | _ \<Rightarrow> False) actions);
          removes = length (data_removes actions)
      in if 0 < removes then ClassChange adds
         else if 0 < adds then ClassData adds
         else if list_ex (\<lambda>a. case a of ActAdd _ \<Rightarrow> True | ActRemove _ \<Rightarrow> True | ActOther _ \<Rightarrow> False) actions
              then ClassCompaction
              else ClassNoData)"

section \<open>What delta-rs and the object store answer\<close>

type_synonym schema = string \<comment> \<open>a \<open>StructType\<close> in its serialised form\<close>

record log_snapshot =
  snap_version :: version
  snap_metadata :: json
  snap_schema :: schema

record log_store =
  get_latest_version :: "version \<Rightarrow> delta_error + version"
  read_commit_entry :: "version \<Rightarrow> delta_error + string option"
  get_actions :: "version \<Rightarrow> string \<Rightarrow> delta_error + action list"
  log_state :: "version option \<Rightarrow> delta_error + log_snapshot"
  head_last_modified :: "version \<Rightarrow> string + nat"

definition metadata_id :: "json \<Rightarrow> string option" where
  "metadata_id m = Option.bind (json_get ''id'' m) as_str"

section \<open>The batch\<close>

record log_batch =
  lb_start :: stream_cursor
  lb_end :: stream_cursor
  lb_files :: "add_file list"
  lb_file_versions :: "version list"
  lb_schema :: schema
  lb_through_version :: version
  lb_through_log_timestamp :: "nat option"

definition version_of :: "log_batch \<Rightarrow> nat \<Rightarrow> version" where
  "version_of b index =
     (if index < length (lb_file_versions b) then lb_file_versions b ! index
      else lb_through_version b)"

definition add_bytes :: "add_file \<Rightarrow> nat" where
  "add_bytes a = nat (max (add_size a) 0)"

text \<open>\<open>Iterator::sum::<u64>()\<close> of the sizes, wrapping as the release build does.\<close>

definition sum_bytes :: "add_file list \<Rightarrow> nat" where
  "sum_bytes as = foldl (\<lambda>n a. u64_add n (add_bytes a)) 0 as"

definition total_bytes :: "log_batch \<Rightarrow> nat" where
  "total_bytes b = sum_bytes (lb_files b)"

section \<open>The stream\<close>

record log_stream =
  ls_cursor :: stream_cursor
  ls_max_files :: nat
  ls_max_bytes :: nat
  ls_policy :: change_policy
  ls_allow_commit_splitting :: bool
  ls_pin_lookup_snapshots :: bool
  ls_schema_cache :: "(version, schema) bmap"
  ls_head :: "version option"
  ls_source_uri :: string
  ls_version_floor :: version
  ls_stop_after :: "version option"
  ls_identity :: "(version \<times> string) option"

definition log_stream_new :: "string \<Rightarrow> version option \<Rightarrow> json option \<Rightarrow> log_stream" where
  "log_stream_new root_url table_version metadata =
     \<lparr>ls_cursor = at_version 0, ls_max_files = 1000, ls_max_bytes = 256 * 1024 * 1024,
      ls_policy = PolicyFail, ls_allow_commit_splitting = False, ls_pin_lookup_snapshots = False,
      ls_schema_cache = [], ls_head = None, ls_source_uri = root_url,
      ls_version_floor = (case table_version of None \<Rightarrow> 0 | Some v \<Rightarrow> v),
      ls_stop_after = None,
      ls_identity = (case (table_version, Option.bind metadata metadata_id) of
          (Some v, Some i) \<Rightarrow> Some (v, i) | _ \<Rightarrow> None)\<rparr>"

definition with_starting_cursor :: "stream_cursor \<Rightarrow> log_stream \<Rightarrow> log_stream" where
  "with_starting_cursor c s = s\<lparr>ls_cursor := c\<rparr>"

definition with_starting_version :: "version \<Rightarrow> log_stream \<Rightarrow> log_stream" where
  "with_starting_version v s = s\<lparr>ls_cursor := at_version v\<rparr>"

definition with_max_files_per_batch :: "nat \<Rightarrow> log_stream \<Rightarrow> log_stream" where
  "with_max_files_per_batch n s = s\<lparr>ls_max_files := max n 1\<rparr>"

definition with_max_bytes_per_batch :: "nat \<Rightarrow> log_stream \<Rightarrow> log_stream" where
  "with_max_bytes_per_batch n s = s\<lparr>ls_max_bytes := max n 1\<rparr>"

definition with_stop_after :: "version option \<Rightarrow> log_stream \<Rightarrow> log_stream" where
  "with_stop_after v s = s\<lparr>ls_stop_after := v\<rparr>"

definition release_stop :: "log_stream \<Rightarrow> log_stream" where
  "release_stop s = s\<lparr>ls_stop_after := None\<rparr>"

text \<open>
  \<open>combined_ceiling\<close>; \<open>budget\<close> is \<open>budget::current().bytes_per_batch(amplification)\<close>, a
  floating-point estimate that changes from batch to batch: any value.
\<close>

definition combined_ceiling :: "nat option \<Rightarrow> log_stream \<Rightarrow> nat" where
  "combined_ceiling budget s =
     (case budget of Some b \<Rightarrow> min (ls_max_bytes s) b | None \<Rightarrow> ls_max_bytes s)"

section \<open>The identity of the source\<close>

definition replaced :: "log_stream \<Rightarrow> string \<Rightarrow> error" where
  "replaced s detail = E_SourceReplaced (ls_source_uri s) detail"

definition check_identity ::
    "log_store \<Rightarrow> log_stream \<Rightarrow> version \<Rightarrow> string option \<Rightarrow> unit res \<times> log_stream" where
  "check_identity store s v now =
     (case now of
        None \<Rightarrow> (Inr (), s)
      | Some now_id \<Rightarrow>
          (case ls_identity s of
             None \<Rightarrow> (Inr (), s)
           | Some (seen_at, was) \<Rightarrow>
               if was \<noteq> now_id then
                 (case log_state store (Some seen_at) of
                    Inl e \<Rightarrow> (Inl (E_Delta e), s)
                  | Inr then_snap \<Rightarrow>
                      if metadata_id (snap_metadata then_snap) \<noteq> Some was
                      then (Inl (replaced s ''its table id changed''), s)
                      else (Inr (), s\<lparr>ls_identity := Some (v, now_id)\<rparr>))
               else (Inr (), s\<lparr>ls_identity := Some (v, now_id)\<rparr>)))"

definition latest_version :: "log_store \<Rightarrow> log_stream \<Rightarrow> version res \<times> log_stream" where
  "latest_version store s =
     (case get_latest_version store (ls_version_floor s) of
        Inr v \<Rightarrow> (Inr v, s\<lparr>ls_version_floor := v\<rparr>)
      | Inl e \<Rightarrow>
          (case delta_kind e of
             DK_InvalidVersion _ \<Rightarrow>
               (case log_state store None of
                  Inl e' \<Rightarrow> (Inl (E_Delta e'), s)
                | Inr head \<Rightarrow>
                    let resolved = snap_version head
                    in if resolved < ls_version_floor s
                       then (Inl (replaced s ''its head is now below a version already seen''), s)
                       else
                         (case check_identity store s resolved (metadata_id (snap_metadata head)) of
                            (Inl e', s') \<Rightarrow> (Inl e', s')
                          | (Inr _, s') \<Rightarrow>
                              let s'' = s'\<lparr>ls_version_floor := resolved\<rparr>
                              in (case get_latest_version store resolved of
                                    Inl e' \<Rightarrow> (Inl (E_Delta e'), s'')
                                  | Inr v \<Rightarrow> (Inr v, s''))))
           | _ \<Rightarrow> (Inl (E_Delta e), s)))"

definition schema_at :: "log_store \<Rightarrow> log_stream \<Rightarrow> version \<Rightarrow> schema res \<times> log_stream" where
  "schema_at store s v =
     (case bt_get (ls_schema_cache s) v of
        Some sch \<Rightarrow> (Inr sch, s)
      | None \<Rightarrow>
          (case log_state store (Some v) of
             Inl e \<Rightarrow> (Inl (E_Delta e), s)
           | Inr snap \<Rightarrow>
               (case check_identity store s (snap_version snap) (metadata_id (snap_metadata snap)) of
                  (Inl e, s') \<Rightarrow> (Inl e, s')
                | (Inr _, s') \<Rightarrow>
                    let cache = (if length (ls_schema_cache s') > 8 then [] else ls_schema_cache s')
                    in (Inr (snap_schema snap),
                        s'\<lparr>ls_schema_cache := bt_insert v (snap_schema snap) cache\<rparr>))))"

definition commit_log_timestamp :: "log_store \<Rightarrow> version \<Rightarrow> nat res" where
  "commit_log_timestamp store v =
     (case head_last_modified store v of
        Inl _ \<Rightarrow> Inl (E_Other ''cannot read Delta-log timestamp for source commit'')
      | Inr t \<Rightarrow> Inr t)"

definition keeps_identity :: "log_store \<Rightarrow> version option \<Rightarrow> version \<Rightarrow> string \<Rightarrow> bool res" where
  "keeps_identity store table_version v i =
     (if (case table_version of None \<Rightarrow> True | Some head \<Rightarrow> v > head) then Inr False
      else
        (case log_state store (Some v) of
           Inr then_snap \<Rightarrow> Inr (metadata_id (snap_metadata then_snap) = Some i)
         | Inl e \<Rightarrow>
             (case delta_kind e of
                DK_InvalidVersion _ \<Rightarrow> Inr False
              | DK_NotATable \<Rightarrow> Inr False
              | DK_ObjectStore OS_NotFound \<Rightarrow> Inr False
              | DK_KernelError \<Rightarrow>
                  (case read_commit_entry store v of
                     Inr None \<Rightarrow> Inr False
                   | _ \<Rightarrow> Inl (E_Delta e))
              | _ \<Rightarrow> Inl (E_Delta e))))"

text \<open>\<open>earliest_readable_commit\<close> over the listing: each object's file name and modification time.\<close>

definition commit_file_version :: "string \<Rightarrow> version option" where
  "commit_file_version name =
     (case strip_suffix ''.json'' name of
        None \<Rightarrow> None
      | Some stem \<Rightarrow>
          if length stem \<noteq> 20 \<or> \<not> list_all is_digit stem then None else parse_u64 stem)"

definition oldest_step ::
    "(version \<times> nat) option \<Rightarrow> string option \<times> nat \<Rightarrow> (version \<times> nat) option" where
  "oldest_step oldest m =
     (case Option.bind (fst m) commit_file_version of
        None \<Rightarrow> oldest
      | Some v \<Rightarrow>
          if (case oldest of None \<Rightarrow> True | Some (held, _) \<Rightarrow> v < held) then Some (v, snd m)
          else oldest)"

definition earliest_readable_commit :: "(string option \<times> nat) list \<Rightarrow> (version \<times> nat) option" where
  "earliest_readable_commit listing = foldl oldest_step None listing"

section \<open>Reading a batch\<close>

text \<open>
  \<open>scan\<close> holds the locals of \<open>next_batch\<close>'s loop; \<open>scan_step\<close> is one pass of its body, which
  ends in \<open>continue\<close>, in \<open>break\<close> or in an early return.
\<close>

record scan =
  sc_files :: "(version \<times> add_file) list"
  sc_bytes :: nat
  sc_cursor :: stream_cursor
  sc_through :: "version option"
  sc_log_timestamp :: "nat option"

datatype step_exit = Continue scan | Break scan | Return error

definition pinned_timestamp :: "log_store \<Rightarrow> log_stream \<Rightarrow> scan \<Rightarrow> version \<Rightarrow> nat option res" where
  "pinned_timestamp store s sc v =
     (if ls_pin_lookup_snapshots s
      then res_bind (commit_log_timestamp store v) (\<lambda>t. Inr (Some t))
      else Inr (sc_log_timestamp sc))"

text \<open>The \<open>for\<close> loop that takes as much of an oversized commit as fits.\<close>

fun take_some :: "nat \<Rightarrow> nat \<Rightarrow> add_file list \<Rightarrow> nat \<Rightarrow> nat \<Rightarrow> nat" where
  "take_some max_files max_bytes [] n taken_bytes = n"
| "take_some max_files max_bytes (a # as) n taken_bytes =
     (let sz = add_bytes a
      in if n + 1 > max_files \<or> (u64_add taken_bytes sz > max_bytes \<and> n > 0) then n
         else take_some max_files max_bytes as (n + 1) (u64_add taken_bytes sz))"

definition take_count :: "log_stream \<Rightarrow> add_file list \<Rightarrow> nat" where
  "take_count s remaining =
     min (max (take_some (ls_max_files s) (ls_max_bytes s) remaining 0 0) 1) (length remaining)"

text \<open>The \<open>match (&class, self.policy)\<close>: skip the commit, refuse it, or emit these adds.\<close>

datatype commit_adds = Skip | Refuse | Emit "add_file list"

definition commit_adds_of :: "change_policy \<Rightarrow> action list \<Rightarrow> commit_adds" where
  "commit_adds_of policy actions =
     (case (classify actions, policy) of
        (ClassCompaction, _) \<Rightarrow> Skip
      | (ClassNoData, _) \<Rightarrow> Skip
      | (ClassChange _, PolicyFail) \<Rightarrow> Refuse
      | (ClassChange _, SkipChangeCommits) \<Rightarrow> Skip
      | (ClassChange _, IgnoreChanges) \<Rightarrow> Emit (data_adds actions)
      | (ClassData _, _) \<Rightarrow> Emit (data_adds actions))"

text \<open>What the loop does with the adds of a commit, after the class and policy have been settled.\<close>

definition scan_adds ::
    "log_store \<Rightarrow> nat option \<Rightarrow> log_stream \<Rightarrow> scan \<Rightarrow> version \<Rightarrow> add_file list \<Rightarrow> step_exit" where
  "scan_adds store budget s sc v adds =
     (case find add_deletion_vector adds of
        Some a \<Rightarrow> Return (E_DeletionVectorUnsupported v (add_path a))
      | None \<Rightarrow>
          let already = min (cursor_index (sc_cursor sc)) (length adds);
              remaining = drop already adds
          in if remaining = [] then Continue (sc\<lparr>sc_cursor := next_version (sc_cursor sc)\<rparr>)
             else
               let commit_bytes = sum_bytes remaining;
                   fits_files = length (sc_files sc) + length remaining \<le> ls_max_files s;
                   ceiling = (if sc_files sc = [] then ls_max_bytes s else combined_ceiling budget s);
                   fits_bytes = u64_add (sc_bytes sc) commit_bytes \<le> ceiling
               in if fits_files \<and> fits_bytes then
                    (case pinned_timestamp store s sc v of
                       Inl e \<Rightarrow> Return e
                     | Inr ts \<Rightarrow>
                         let sc' = sc\<lparr>sc_files := sc_files sc @ map (Pair v) remaining,
                                      sc_bytes := u64_add (sc_bytes sc) commit_bytes,
                                      sc_through := Some v,
                                      sc_log_timestamp := ts,
                                      sc_cursor := next_version (sc_cursor sc)\<rparr>
                         in if ls_pin_lookup_snapshots s then Break sc' else Continue sc')
                  else if sc_files sc \<noteq> [] then Break sc
                  else if \<not> ls_allow_commit_splitting s then
                    Return (E_CommitTooLarge v (length remaining) commit_bytes
                              (ls_max_files s) (ls_max_bytes s))
                  else
                    let n = take_count s remaining
                    in case pinned_timestamp store s sc v of
                         Inl e \<Rightarrow> Return e
                       | Inr ts \<Rightarrow>
                           Break (sc\<lparr>sc_files := sc_files sc @ map (Pair v) (take n remaining),
                                     sc_cursor := advanced_by (sc_cursor sc) n,
                                     sc_through := Some v,
                                     sc_log_timestamp := ts\<rparr>))"

definition scan_step :: "log_store \<Rightarrow> nat option \<Rightarrow> log_stream \<Rightarrow> scan \<Rightarrow> step_exit" where
  "scan_step store budget s sc =
     (let v = cursor_version (sc_cursor sc)
      in case read_commit_entry store v of
           Inl e \<Rightarrow> Return (E_Delta e)
         | Inr None \<Rightarrow>
             if sc_files sc = [] then Return (E_CursorUnavailable (ls_source_uri s) (sc_cursor sc))
             else Break sc
         | Inr (Some raw) \<Rightarrow>
             (case get_actions store v raw of
                Inl e \<Rightarrow> Return (E_Delta e)
              | Inr actions \<Rightarrow>
                  (case commit_adds_of (ls_policy s) actions of
                     Skip \<Rightarrow> Continue (sc\<lparr>sc_cursor := next_version (sc_cursor sc)\<rparr>)
                   | Refuse \<Rightarrow> Return (E_ChangeCommit v)
                   | Emit adds \<Rightarrow> scan_adds store budget s sc v adds)))"

partial_function (option) scan_loop ::
    "log_store \<Rightarrow> nat option \<Rightarrow> log_stream \<Rightarrow> version \<Rightarrow> scan \<Rightarrow> scan res option" where
  "scan_loop store budget s readable sc =
     (if cursor_version (sc_cursor sc) \<le> readable then
        (case scan_step store budget s sc of
           Continue sc' \<Rightarrow> scan_loop store budget s readable sc'
         | Break sc' \<Rightarrow> Some (Inr sc')
         | Return e \<Rightarrow> Some (Inl e))
      else Some (Inr sc))"

definition scan_start :: "stream_cursor \<Rightarrow> scan" where
  "scan_start c =
     \<lparr>sc_files = [], sc_bytes = 0, sc_cursor = c, sc_through = None, sc_log_timestamp = None\<rparr>"

text \<open>The end of \<open>next_batch\<close>, after the loop.\<close>

definition finish_batch :: "log_store \<Rightarrow> log_stream \<Rightarrow> scan \<Rightarrow> log_batch option res \<times> log_stream" where
  "finish_batch store s sc =
     (if sc_files sc = [] then (Inr None, s\<lparr>ls_cursor := sc_cursor sc\<rparr>)
      else
        let start = ls_cursor s;
            through = (case sc_through sc of Some v \<Rightarrow> v | None \<Rightarrow> cursor_version start)
        in case schema_at store s through of
             (Inl e, s') \<Rightarrow> (Inl e, s')
           | (Inr sch, s') \<Rightarrow>
               (Inr (Some \<lparr>lb_start = start, lb_end = sc_cursor sc,
                           lb_files = map snd (sc_files sc),
                           lb_file_versions = map fst (sc_files sc),
                           lb_schema = sch, lb_through_version = through,
                           lb_through_log_timestamp = sc_log_timestamp sc\<rparr>),
                s'\<lparr>ls_cursor := sc_cursor sc\<rparr>))"

text \<open>\<open>None\<close> would be a poll that never returns.\<close>

definition next_batch ::
    "log_store \<Rightarrow> nat option \<Rightarrow> log_stream \<Rightarrow> (log_batch option res \<times> log_stream) option" where
  "next_batch store budget s0 =
     (case latest_version store s0 of
        (Inl e, s) \<Rightarrow> Some (Inl e, s)
      | (Inr latest, s1) \<Rightarrow>
          let s = s1\<lparr>ls_head := Some latest\<rparr>;
              readable = (case ls_stop_after s of None \<Rightarrow> latest | Some stop \<Rightarrow> min stop latest)
          in if cursor_version (ls_cursor s) > readable then Some (Inr None, s)
             else
               (case scan_loop store budget s readable (scan_start (ls_cursor s)) of
                  None \<Rightarrow> None
                | Some (Inl e) \<Rightarrow> Some (Inl e, s)
                | Some (Inr sc) \<Rightarrow> Some (finish_batch store s sc)))"

section \<open>The specification: one stream of files\<close>

text \<open>
  What a log holds for a stream of a given policy: the adds each commit is to emit, tagged with its
  version; \<open>stream_upto\<close> is all that lies below a cursor, in commit then log order.
\<close>

definition commit_actions :: "log_store \<Rightarrow> version \<Rightarrow> action list option" where
  "commit_actions store v =
     (case read_commit_entry store v of
        Inr (Some raw) \<Rightarrow> (case get_actions store v raw of Inr as \<Rightarrow> Some as | Inl _ \<Rightarrow> None)
      | _ \<Rightarrow> None)"

definition commit_items :: "log_store \<Rightarrow> change_policy \<Rightarrow> version \<Rightarrow> (version \<times> add_file) list" where
  "commit_items store policy v =
     (case commit_actions store v of
        None \<Rightarrow> []
      | Some as \<Rightarrow> (case commit_adds_of policy as of Emit adds \<Rightarrow> map (Pair v) adds | _ \<Rightarrow> []))"

definition stream_upto :: "(version \<Rightarrow> 'a list) \<Rightarrow> stream_cursor \<Rightarrow> 'a list" where
  "stream_upto items c =
     concat (map items [0..<cursor_version c]) @ take (cursor_index c) (items (cursor_version c))"

lemma stream_upto_at_version: "stream_upto items (at_version v) = concat (map items [0..<v])"
  by (simp add: stream_upto_def)

lemma stream_upto_next:
  "cursor_version c < 2 ^ 64 - 1 \<Longrightarrow>
     stream_upto items (next_version c)
     = stream_upto items c @ drop (cursor_index c) (items (cursor_version c))"
  by (simp add: stream_upto_def)

lemma stream_upto_advanced:
  "cursor_index c + n < 2 ^ 64 \<Longrightarrow>
     stream_upto items (advanced_by c n)
     = stream_upto items c @ take n (drop (cursor_index c) (items (cursor_version c)))"
  by (simp add: stream_upto_def take_add u64_def)

text \<open>A stream's position never depends on where in the stream it was reached from.\<close>

lemma stream_upto_mono:
  assumes "a \<le> b"
  shows "\<exists>d. stream_upto items b = stream_upto items a @ d"
proof (cases "cursor_version a = cursor_version b")
  case True
  with assms have "cursor_index a \<le> cursor_index b" by (simp add: cursor_le_iff)
  then obtain n where "cursor_index b = cursor_index a + n" using le_Suc_ex by blast
  with True show ?thesis by (simp add: stream_upto_def take_add)
next
  case False
  with assms have lt: "cursor_version a < cursor_version b" by (auto simp: cursor_le_iff)
  then have "[0..<cursor_version b]
      = [0..<cursor_version a] @ cursor_version a # [Suc (cursor_version a)..<cursor_version b]"
    by (metis le_add1 less_imp_add_positive upt_add_eq_append upt_conv_Cons zero_le lt)
  then show ?thesis
    by (simp add: stream_upto_def)
      (metis append_assoc append_take_drop_id)
qed

text \<open>
  What is asked of the log store: Delta numbers its versions in an \<open>i64\<close>, a commit's actions fit
  the memory they were read into, and a head that is answered is at or above the version it was
  asked from (\<open>get_latest_version\<close>'s documented requirement).
\<close>

definition log_ok :: "log_store \<Rightarrow> bool" where
  "log_ok store \<longleftrightarrow>
     (\<forall>f v. get_latest_version store f = Inr v \<longrightarrow> f \<le> v \<and> v < 2 ^ 63)
     \<and> (\<forall>v raw as. get_actions store v raw = Inr as \<longrightarrow> length as < 2 ^ 64)"

lemma log_ok_latest: "log_ok store \<Longrightarrow> get_latest_version store f = Inr v \<Longrightarrow> f \<le> v \<and> v < 2 ^ 63"
  by (auto simp: log_ok_def)

lemma length_data_adds: "length (data_adds as) \<le> length as"
  by (auto simp: data_adds_def List.map_filter_def intro: length_filter_le)

lemma commit_adds_emit: "commit_adds_of policy as = Emit adds \<Longrightarrow> adds = data_adds as"
  by (auto simp: commit_adds_of_def split: commit_class.splits change_policy.splits)

lemma commit_actions_Some_iff:
  "commit_actions store v = Some as \<longleftrightarrow>
     (\<exists>raw. read_commit_entry store v = Inr (Some raw) \<and> get_actions store v raw = Inr as)"
  by (auto simp: commit_actions_def split: sum.splits option.splits)

lemma commit_actions_length: "log_ok store \<Longrightarrow> commit_actions store v = Some as \<Longrightarrow> length as < 2 ^ 64"
  by (auto simp: log_ok_def commit_actions_Some_iff)

section \<open>One pass of the loop\<close>

text \<open>
  Every way a pass can end, with what it was that made it: the commit skipped or with nothing left
  in it, taken whole, left for the next batch, or split.
\<close>

lemma scan_adds_cases:
  assumes "scan_adds store budget s sc v adds = ex"
  obtains e where "ex = Return e"
  | "list_all (\<lambda>a. \<not> add_deletion_vector a) adds" "length adds \<le> cursor_index (sc_cursor sc)"
      "ex = Continue (sc\<lparr>sc_cursor := next_version (sc_cursor sc)\<rparr>)"
  | ts rest where "list_all (\<lambda>a. \<not> add_deletion_vector a) adds"
      "rest = drop (cursor_index (sc_cursor sc)) adds" "rest \<noteq> []"
      "length (sc_files sc) + length rest \<le> ls_max_files s"
      "u64_add (sc_bytes sc) (sum_bytes rest) \<le> ls_max_bytes s"
      "pinned_timestamp store s sc v = Inr ts"
      "ex = (let sc' = sc\<lparr>sc_files := sc_files sc @ map (Pair v) rest,
                sc_bytes := u64_add (sc_bytes sc) (sum_bytes rest), sc_through := Some v,
                sc_log_timestamp := ts, sc_cursor := next_version (sc_cursor sc)\<rparr>
             in if ls_pin_lookup_snapshots s then Break sc' else Continue sc')"
  | "sc_files sc \<noteq> []" "ex = Break sc"
  | ts rest where "list_all (\<lambda>a. \<not> add_deletion_vector a) adds"
      "rest = drop (cursor_index (sc_cursor sc)) adds" "rest \<noteq> []" "sc_files sc = []"
      "ls_allow_commit_splitting s" "pinned_timestamp store s sc v = Inr ts"
      "ex = Break (sc\<lparr>sc_files := map (Pair v) (take (take_count s rest) rest),
                sc_cursor := advanced_by (sc_cursor sc) (take_count s rest),
                sc_through := Some v, sc_log_timestamp := ts\<rparr>)"
proof (cases "find add_deletion_vector adds")
  case (Some a)
  with assms show thesis by (intro that(1) [of "E_DeletionVectorUnsupported v (add_path a)"]) (simp add: scan_adds_def)
next
  case None
  then have dv: "list_all (\<lambda>a. \<not> add_deletion_vector a) adds"
    by (simp add: find_None_iff list_all_iff)
  define rest where "rest = drop (cursor_index (sc_cursor sc)) adds"
  define fits where "fits \<longleftrightarrow> length (sc_files sc) + length rest \<le> ls_max_files s
    \<and> u64_add (sc_bytes sc) (sum_bytes rest)
        \<le> (if sc_files sc = [] then ls_max_bytes s else combined_ceiling budget s)"
  have already: "drop (min (cursor_index (sc_cursor sc)) (length adds)) adds = rest"
    by (simp add: min_def rest_def)
  have "(if sc_files sc = [] then ls_max_bytes s else combined_ceiling budget s) \<le> ls_max_bytes s"
    by (auto simp: combined_ceiling_def split: option.splits)
  then have bytes: "u64_add (sc_bytes sc) (sum_bytes rest) \<le> ls_max_bytes s" if fits
    using that unfolding fits_def by linarith
  have files: "length (sc_files sc) + length rest \<le> ls_max_files s" if fits
    using that by (simp add: fits_def)
  have ex: "ex = (if rest = [] then Continue (sc\<lparr>sc_cursor := next_version (sc_cursor sc)\<rparr>)
      else if fits then
        (case pinned_timestamp store s sc v of
           Inl e \<Rightarrow> Return e
         | Inr ts \<Rightarrow>
             let sc' = sc\<lparr>sc_files := sc_files sc @ map (Pair v) rest,
                sc_bytes := u64_add (sc_bytes sc) (sum_bytes rest), sc_through := Some v,
                sc_log_timestamp := ts, sc_cursor := next_version (sc_cursor sc)\<rparr>
             in if ls_pin_lookup_snapshots s then Break sc' else Continue sc')
      else if sc_files sc \<noteq> [] then Break sc
      else if \<not> ls_allow_commit_splitting s then
        Return (E_CommitTooLarge v (length rest) (sum_bytes rest) (ls_max_files s) (ls_max_bytes s))
      else
        (case pinned_timestamp store s sc v of
           Inl e \<Rightarrow> Return e
         | Inr ts \<Rightarrow>
             Break (sc\<lparr>sc_files := sc_files sc @ map (Pair v) (take (take_count s rest) rest),
                sc_cursor := advanced_by (sc_cursor sc) (take_count s rest),
                sc_through := Some v, sc_log_timestamp := ts\<rparr>)))"
    unfolding assms [symmetric] scan_adds_def Let_def None option.case already fits_def by (rule refl)
  consider (empty) "rest = []" | (fits) "rest \<noteq> []" fits
    | (full) "rest \<noteq> []" "\<not> fits" "sc_files sc \<noteq> []"
    | (large) "rest \<noteq> []" "\<not> fits" "sc_files sc = []" "\<not> ls_allow_commit_splitting s"
    | (split) "rest \<noteq> []" "\<not> fits" "sc_files sc = []" "ls_allow_commit_splitting s"
    by blast
  then show thesis
  proof cases
    case empty
    moreover from empty have "length adds \<le> cursor_index (sc_cursor sc)" by (simp add: rest_def)
    ultimately show thesis using ex dv that(2) by simp
  next
    case fits
    show thesis
    proof (cases "pinned_timestamp store s sc v")
      case (Inl e)
      with fits ex that(1) show thesis by simp
    next
      case (Inr ts)
      with fits ex have "ex = (let sc' = sc\<lparr>sc_files := sc_files sc @ map (Pair v) rest,
                sc_bytes := u64_add (sc_bytes sc) (sum_bytes rest), sc_through := Some v,
                sc_log_timestamp := ts, sc_cursor := next_version (sc_cursor sc)\<rparr>
             in if ls_pin_lookup_snapshots s then Break sc' else Continue sc')"
        by simp
      with that(3) [OF dv rest_def fits(1) files [OF fits(2)] bytes [OF fits(2)] Inr]
      show thesis by blast
    qed
  next
    case full
    with ex that(4) show thesis by simp
  next
    case large
    with ex that(1) show thesis by simp
  next
    case split
    show thesis
    proof (cases "pinned_timestamp store s sc v")
      case (Inl e)
      with split ex that(1) show thesis by simp
    next
      case (Inr ts)
      with split ex that(5) [OF dv rest_def split(1,3,4) Inr] show thesis by simp
    qed
  qed
qed

text \<open>The same for a whole pass: a pass that emits read the commit at the cursor.\<close>

lemma scan_step_cases:
  assumes "scan_step store budget s sc = ex"
  obtains e where "ex = Return e"
  | "commit_actions store (cursor_version (sc_cursor sc)) = None" "sc_files sc \<noteq> []" "ex = Break sc"
  | as where "commit_actions store (cursor_version (sc_cursor sc)) = Some as"
      "commit_adds_of (ls_policy s) as = Skip"
      "ex = Continue (sc\<lparr>sc_cursor := next_version (sc_cursor sc)\<rparr>)"
  | as adds where "commit_actions store (cursor_version (sc_cursor sc)) = Some as"
      "commit_adds_of (ls_policy s) as = Emit adds"
      "scan_adds store budget s sc (cursor_version (sc_cursor sc)) adds = ex"
proof (cases "commit_actions store (cursor_version (sc_cursor sc))")
  case None
  with assms that(1,2) show thesis
    by (auto simp: scan_step_def commit_actions_def split: sum.splits option.splits if_splits)
next
  case (Some as)
  then obtain raw where "read_commit_entry store (cursor_version (sc_cursor sc)) = Inr (Some raw)"
    "get_actions store (cursor_version (sc_cursor sc)) raw = Inr as"
    by (auto simp: commit_actions_Some_iff)
  with Some assms that(1,3,4) show thesis
    by (cases "commit_adds_of (ls_policy s) as") (auto simp: scan_step_def)
qed

section \<open>The loop\<close>

lemma scan_loop_invariant:
  assumes run: "scan_loop store budget s readable sc0 = Some (Inr sc1)" and init: "P sc0"
    and continue: "\<And>sc sc'. P sc \<Longrightarrow> cursor_version (sc_cursor sc) \<le> readable \<Longrightarrow>
      scan_step store budget s sc = Continue sc' \<Longrightarrow> P sc'"
    and break: "\<And>sc sc'. P sc \<Longrightarrow> cursor_version (sc_cursor sc) \<le> readable \<Longrightarrow>
      scan_step store budget s sc = Break sc' \<Longrightarrow> Q sc'"
    and over: "\<And>sc. P sc \<Longrightarrow> readable < cursor_version (sc_cursor sc) \<Longrightarrow> Q sc"
  shows "Q sc1"
proof -
  have "Q sc1" if "r = Inr sc1" and "scan_loop store budget s readable sc0 = Some r" for r
    using that(2,1) init continue break over
  proof (induction rule: scan_loop.raw_induct [rotated, consumes 1])
    case (1 loop store budget s readable sc r)
    show ?case
    proof (cases "cursor_version (sc_cursor sc) \<le> readable")
      case False
      with 1(2,3,4) 1(7) [of sc] show ?thesis by simp
    next
      case True
      show ?thesis
      proof (cases "scan_step store budget s sc")
        case (Continue sc')
        with 1(2) True have "loop store budget s readable sc' = Some r" by simp
        then show ?thesis
          by (rule 1(1) [OF _ 1(3) 1(5) [OF 1(4) True Continue] 1(5,6,7)])
      next
        case (Break sc')
        with 1(2,3) True 1(6) [OF 1(4) True Break] show ?thesis by simp
      next
        case (Return e)
        with 1(2,3) True show ?thesis by simp
      qed
    qed
  qed
  with run show ?thesis by blast
qed

text \<open>
  The loop ends after at most one pass per readable version: every \<open>continue\<close> moves to the next
  version, short of the end of \<open>u64\<close>.
\<close>

lemma scan_step_continue:
  assumes "scan_step store budget s sc = Continue sc'"
  shows "sc_cursor sc' = next_version (sc_cursor sc)"
  using assms
proof (cases rule: scan_step_cases)
  case (4 as adds)
  from 4(3) show ?thesis
    by (cases rule: scan_adds_cases) (auto simp: Let_def split: if_splits)
qed auto

lemma scan_loop_returns:
  assumes "readable < 2 ^ 64 - 1"
  shows "\<exists>r. scan_loop store budget s readable sc = Some r"
proof (induction "Suc readable - cursor_version (sc_cursor sc)" arbitrary: sc rule: less_induct)
  case less
  show ?case
  proof (cases "cursor_version (sc_cursor sc) \<le> readable")
    case False
    then show ?thesis by (subst scan_loop.simps) simp
  next
    case True
    show ?thesis
    proof (cases "scan_step store budget s sc")
      case (Continue sc')
      then have "sc_cursor sc' = next_version (sc_cursor sc)" by (rule scan_step_continue)
      with True assms have "cursor_version (sc_cursor sc') = Suc (cursor_version (sc_cursor sc))"
        by simp
      with True have "Suc readable - cursor_version (sc_cursor sc')
          < Suc readable - cursor_version (sc_cursor sc)" by simp
      from less [OF this] Continue True show ?thesis by (subst scan_loop.simps) simp
    next
      case (Break sc')
      with True show ?thesis by (subst scan_loop.simps) simp
    next
      case (Return e)
      with True show ?thesis by (subst scan_loop.simps) simp
    qed
  qed
qed

section \<open>What a scan has delivered\<close>

text \<open>
  \<open>scanned\<close>: the files held are exactly those of the log between the start and the cursor, every
  commit passed over was there to be read, and nothing beyond \<open>readable\<close> was touched.
\<close>

definition scanned :: "log_store \<Rightarrow> log_stream \<Rightarrow> version \<Rightarrow> scan \<Rightarrow> bool" where
  "scanned store s readable sc \<longleftrightarrow>
     ls_cursor s \<le> sc_cursor sc
     \<and> stream_upto (commit_items store (ls_policy s)) (sc_cursor sc)
         = stream_upto (commit_items store (ls_policy s)) (ls_cursor s) @ sc_files sc
     \<and> (\<forall>v. cursor_version (ls_cursor s) \<le> v \<and> v < cursor_version (sc_cursor sc)
              \<longrightarrow> commit_actions store v \<noteq> None)
     \<and> (sc_cursor sc \<noteq> ls_cursor s \<and> \<not> is_commit_boundary (sc_cursor sc)
              \<longrightarrow> commit_actions store (cursor_version (sc_cursor sc)) \<noteq> None)
     \<and> cursor_version (sc_cursor sc) \<le> max (Suc readable) (cursor_version (ls_cursor s))"

lemma scanned_start: "scanned store s readable (scan_start (ls_cursor s))"
  by (auto simp: scanned_def scan_start_def)

lemma commit_items_emit:
  "commit_actions store v = Some as \<Longrightarrow> commit_adds_of policy as = Emit adds \<Longrightarrow>
     commit_items store policy v = map (Pair v) adds"
  by (simp add: commit_items_def)

lemma commit_items_skip:
  "commit_actions store v = Some as \<Longrightarrow> commit_adds_of policy as = Skip \<Longrightarrow>
     commit_items store policy v = []"
  by (simp add: commit_items_def)

lemma scanned_next:
  assumes inv: "scanned store s readable sc" and r: "readable < 2 ^ 64 - 1"
    and le: "cursor_version (sc_cursor sc) \<le> readable"
    and act: "commit_actions store (cursor_version (sc_cursor sc)) \<noteq> None"
    and cur: "sc_cursor sc' = next_version (sc_cursor sc)"
    and files: "sc_files sc' = sc_files sc
      @ drop (cursor_index (sc_cursor sc)) (commit_items store (ls_policy s) (cursor_version (sc_cursor sc)))"
  shows "scanned store s readable sc'"
proof -
  have lt: "cursor_version (sc_cursor sc) < 2 ^ 64 - 1" using r le by simp
  have "sc_cursor sc < next_version (sc_cursor sc)" using lt by (simp add: cursor_less_iff)
  with inv have "ls_cursor s \<le> sc_cursor sc'" unfolding cur scanned_def by (meson le_less_trans less_imp_le)
  moreover have "commit_actions store v \<noteq> None"
    if "cursor_version (ls_cursor s) \<le> v" "v < cursor_version (sc_cursor sc')" for v
    using that inv act lt unfolding cur scanned_def by (auto simp: less_Suc_eq)
  moreover have "cursor_version (sc_cursor sc') \<le> max (Suc readable) (cursor_version (ls_cursor s))"
    using le lt unfolding cur by simp
  ultimately show ?thesis
    using inv stream_upto_next [OF lt, of "commit_items store (ls_policy s)"]
    unfolding scanned_def files by (simp add: cur)
qed

lemma take_count_bounds:
  "rest \<noteq> [] \<Longrightarrow> 0 < take_count s rest \<and> take_count s rest \<le> length rest"
  by (auto simp: take_count_def Suc_le_eq)

lemma scanned_split:
  assumes ok: "log_ok store" and inv: "scanned store s readable sc" and le: "cursor_version (sc_cursor sc) \<le> readable"
    and act: "commit_actions store (cursor_version (sc_cursor sc)) = Some as"
    and emit: "commit_adds_of (ls_policy s) as = Emit adds"
    and rest: "rest = drop (cursor_index (sc_cursor sc)) adds" "rest \<noteq> []"
    and cur: "sc_cursor sc' = advanced_by (sc_cursor sc) (take_count s rest)"
    and files: "sc_files sc' = sc_files sc
        @ map (Pair (cursor_version (sc_cursor sc))) (take (take_count s rest) rest)"
  shows "scanned store s readable sc'"
proof -
  let ?n = "take_count s rest"
  have n: "0 < ?n" "?n \<le> length rest" using take_count_bounds rest(2) by auto
  have len: "length adds < 2 ^ 64"
    using ok act length_data_adds [of as] commit_adds_emit [OF emit]
    by (metis commit_actions_length le_less_trans)
  have lt: "cursor_index (sc_cursor sc) + ?n < 2 ^ 64" using n len rest by simp
  then have "sc_cursor sc < advanced_by (sc_cursor sc) ?n"
    using n by (simp add: cursor_less_iff u64_def)
  with inv have "ls_cursor s \<le> sc_cursor sc'" unfolding cur scanned_def by (meson le_less_trans less_imp_le)
  then show ?thesis
    using inv act le rest(1) files stream_upto_advanced [OF lt, of "commit_items store (ls_policy s)"]
      commit_items_emit [OF act emit]
    unfolding scanned_def by (simp add: cur take_map drop_map)
qed

lemma scan_adds_scanned:
  assumes ok: "log_ok store" and inv: "scanned store s readable sc" and r: "readable < 2 ^ 64 - 1"
    and le: "cursor_version (sc_cursor sc) \<le> readable"
    and act: "commit_actions store (cursor_version (sc_cursor sc)) = Some as"
    and emit: "commit_adds_of (ls_policy s) as = Emit adds"
    and run: "scan_adds store budget s sc (cursor_version (sc_cursor sc)) adds = ex"
    and ex: "ex = Continue sc' \<or> ex = Break sc'"
  shows "scanned store s readable sc'"
proof -
  note items = commit_items_emit [OF act emit]
  note nxt = scanned_next [OF inv r le]
  show ?thesis
    using run
  proof (cases rule: scan_adds_cases)
    case 1
    with ex show ?thesis by simp
  next
    case 2
    with ex show ?thesis by (intro nxt) (auto simp: items act drop_map)
  next
    case (3 ts rest)
    with ex show ?thesis
      by (intro nxt) (auto simp: items act drop_map Let_def split: if_splits)
  next
    case 4
    with ex inv show ?thesis by simp
  next
    case (5 ts rest)
    with ex show ?thesis
      by (intro scanned_split [OF ok inv le act emit 5(2,3)]) auto
  qed
qed

lemma scan_step_scanned:
  assumes ok: "log_ok store" and inv: "scanned store s readable sc" and r: "readable < 2 ^ 64 - 1"
    and le: "cursor_version (sc_cursor sc) \<le> readable"
    and run: "scan_step store budget s sc = ex" and ex: "ex = Continue sc' \<or> ex = Break sc'"
  shows "scanned store s readable sc'"
  using run
proof (cases rule: scan_step_cases)
  case 1
  with ex show ?thesis by simp
next
  case 2
  with ex inv show ?thesis by simp
next
  case (3 as)
  with ex show ?thesis
    by (intro scanned_next [OF inv r le]) (auto simp: commit_items_skip)
next
  case (4 as adds)
  show ?thesis by (rule scan_adds_scanned [OF ok inv r le 4 ex])
qed

lemma scan_loop_scanned:
  assumes "log_ok store" and "readable < 2 ^ 64 - 1"
    and "scan_loop store budget s readable (scan_start (ls_cursor s)) = Some (Inr sc)"
  shows "scanned store s readable sc"
  using assms(3)
  by (rule scan_loop_invariant [where P = "scanned store s readable"])
    (use assms(1,2) in \<open>auto intro: scanned_start scan_step_scanned\<close>)

section \<open>What a poll leaves alone\<close>

definition same_settings :: "log_stream \<Rightarrow> log_stream \<Rightarrow> bool" where
  "same_settings s t \<longleftrightarrow>
     ls_cursor t = ls_cursor s \<and> ls_max_files t = ls_max_files s \<and> ls_max_bytes t = ls_max_bytes s
     \<and> ls_policy t = ls_policy s \<and> ls_allow_commit_splitting t = ls_allow_commit_splitting s
     \<and> ls_pin_lookup_snapshots t = ls_pin_lookup_snapshots s
     \<and> ls_source_uri t = ls_source_uri s \<and> ls_stop_after t = ls_stop_after s"

lemma check_identity_settings: "check_identity store s v now = (r, s') \<Longrightarrow> same_settings s s'"
  by (auto simp: check_identity_def same_settings_def split: option.splits sum.splits if_splits)

lemma check_identity_floor: "check_identity store s v now = (r, s') \<Longrightarrow> ls_version_floor s' = ls_version_floor s"
  by (auto simp: check_identity_def split: option.splits sum.splits if_splits)

lemma latest_version_settings: "latest_version store s = (r, s') \<Longrightarrow> same_settings s s'"
  by (auto simp: latest_version_def Let_def same_settings_def
      dest!: check_identity_settings [unfolded same_settings_def]
      split: option.splits sum.splits if_splits delta_kind.splits prod.splits)

lemma schema_at_settings: "schema_at store s v = (r, s') \<Longrightarrow> same_settings s s'"
  by (auto simp: schema_at_def Let_def same_settings_def
      dest!: check_identity_settings [unfolded same_settings_def]
      split: option.splits sum.splits if_splits prod.splits)

lemma latest_version_bound:
  assumes "log_ok store" and "latest_version store s = (Inr v, s')"
  shows "v < 2 ^ 63 \<and> ls_version_floor s \<le> v \<and> ls_version_floor s \<le> ls_version_floor s'
    \<and> ls_version_floor s' \<le> v"
  using assms
  by (auto simp: latest_version_def Let_def
      dest: log_ok_latest check_identity_floor
      split: option.splits sum.splits if_splits delta_kind.splits prod.splits)

text \<open>The ways a poll can end.\<close>

lemma next_batch_cases:
  assumes "next_batch store budget s0 = Some (r, s')" and ok: "log_ok store"
  obtains e where "r = Inl e" "ls_cursor s' = ls_cursor s0"
  | "r = Inr None" "ls_cursor s' = ls_cursor s0"
  | s readable sc where "same_settings s0 s" "readable < 2 ^ 63"
      "readable \<le> (case ls_stop_after s0 of None \<Rightarrow> readable | Some stop \<Rightarrow> stop)"
      "scan_loop store budget s readable (scan_start (ls_cursor s)) = Some (Inr sc)"
      "sc_files sc = []" "r = Inr None" "ls_cursor s' = sc_cursor sc"
  | s readable sc through sch where "same_settings s0 s" "readable < 2 ^ 63"
      "readable \<le> (case ls_stop_after s0 of None \<Rightarrow> readable | Some stop \<Rightarrow> stop)"
      "scan_loop store budget s readable (scan_start (ls_cursor s)) = Some (Inr sc)"
      "sc_files sc \<noteq> []"
      "through = (case sc_through sc of Some v \<Rightarrow> v | None \<Rightarrow> cursor_version (ls_cursor s0))"
      "r = Inr (Some \<lparr>lb_start = ls_cursor s0, lb_end = sc_cursor sc,
           lb_files = map snd (sc_files sc), lb_file_versions = map fst (sc_files sc),
           lb_schema = sch, lb_through_version = through,
           lb_through_log_timestamp = sc_log_timestamp sc\<rparr>)"
      "ls_cursor s' = sc_cursor sc"
proof (cases "latest_version store s0")
  case (Pair lv s1)
  note set1 = latest_version_settings [OF Pair]
  show thesis
  proof (cases lv)
    case (Inl e)
    with assms(1) Pair set1 show thesis
      by (intro that(1) [of e]) (auto simp: next_batch_def same_settings_def)
  next
    case (Inr latest)
    define s where "s = s1\<lparr>ls_head := Some latest\<rparr>"
    define readable where "readable = (case ls_stop_after s of None \<Rightarrow> latest | Some stop \<Rightarrow> min stop latest)"
    have set: "same_settings s0 s" using set1 by (simp add: s_def same_settings_def)
    have "latest < 2 ^ 63" using latest_version_bound [OF ok] Pair Inr by blast
    then have readable: "readable < 2 ^ 63"
      "readable \<le> (case ls_stop_after s0 of None \<Rightarrow> readable | Some stop \<Rightarrow> stop)"
      using set by (auto simp: readable_def same_settings_def split: option.splits)
    have run: "(if cursor_version (ls_cursor s) > readable then Some (Inr None, s)
        else (case scan_loop store budget s readable (scan_start (ls_cursor s)) of
                None \<Rightarrow> None
              | Some (Inl e) \<Rightarrow> Some (Inl e, s)
              | Some (Inr sc) \<Rightarrow> Some (finish_batch store s sc))) = Some (r, s')"
      using assms(1) unfolding next_batch_def Pair Inr prod.case sum.case Let_def s_def [symmetric]
        readable_def [symmetric] by simp
    have cur: "ls_cursor s = ls_cursor s0" using set by (simp add: same_settings_def)
    consider "cursor_version (ls_cursor s) > readable" "r = Inr None" "s' = s"
      | e where "r = Inl e" "s' = s"
      | sc where "scan_loop store budget s readable (scan_start (ls_cursor s)) = Some (Inr sc)"
          "finish_batch store s sc = (r, s')"
      using run by (auto split: if_splits option.splits sum.splits)
    then show thesis
    proof cases
      case 1
      with that(2) cur show thesis by simp
    next
      case 2
      with that(1) cur show thesis by simp
    next
      case (3 sc)
      show thesis
      proof (cases "sc_files sc = []")
        case True
        with 3 that(3) [OF set readable 3(1)] show thesis by (auto simp: finish_batch_def)
      next
        case False
        define through where
          "through = (case sc_through sc of Some v \<Rightarrow> v | None \<Rightarrow> cursor_version (ls_cursor s0))"
        obtain sr s2 where sch: "schema_at store s through = (sr, s2)" by (meson surj_pair)
        with schema_at_settings have "ls_cursor s2 = ls_cursor s0"
          using cur by (auto simp: same_settings_def)
        moreover have "(case sr of Inl e \<Rightarrow> (Inl e, s2)
            | Inr sch \<Rightarrow> (Inr (Some \<lparr>lb_start = ls_cursor s0, lb_end = sc_cursor sc,
                 lb_files = map snd (sc_files sc), lb_file_versions = map fst (sc_files sc),
                 lb_schema = sch, lb_through_version = through,
                 lb_through_log_timestamp = sc_log_timestamp sc\<rparr>),
               s2\<lparr>ls_cursor := sc_cursor sc\<rparr>)) = (r, s')"
          using 3(2) False sch unfolding finish_batch_def Let_def cur through_def
          by (cases sr) simp_all
        ultimately show thesis
          using that(1) that(4) [OF set readable 3(1) False through_def]
          by (cases sr) auto
      qed
    qed
  qed
qed

section \<open>A poll's contract\<close>

text \<open>
  A log to evaluate the reader on: a table created at version 0, files appended at 1, compacted at
  2, appended to twice over at 3, and its head there.
\<close>

definition example_add :: "string \<Rightarrow> int \<Rightarrow> bool \<Rightarrow> action" where
  "example_add path sz change =
     ActAdd \<lparr>add_path = path, add_size = sz, add_data_change = change, add_deletion_vector = False\<rparr>"

definition example_commits :: "action list list" where
  "example_commits =
     [[ActOther ''metaData''],
      [ActOther ''txn'', example_add ''a'' 10 True],
      [ActRemove \<lparr>remove_path = ''a'', remove_data_change = False\<rparr>, example_add ''b'' 10 False],
      [example_add ''c'' 20 True, example_add ''d'' 30 True]]"

definition example_log :: log_store where
  "example_log =
     \<lparr>get_latest_version = (\<lambda>f. if f \<le> 3 then Inr 3 else Inl (DeltaError (DK_InvalidVersion f) [])),
      read_commit_entry = (\<lambda>v. Inr (if v \<le> 3 then Some (show_nat v) else None)),
      get_actions = (\<lambda>v _. if v \<le> 3 then Inr (example_commits ! v)
                           else Inl (DeltaError DK_InvalidJsonLog [])),
      log_state = (\<lambda>v. Inr \<lparr>snap_version = (case v of Some w \<Rightarrow> w | None \<Rightarrow> 3),
                             snap_metadata = JObj [(''id'', JStr ''t1'')], snap_schema = ''s''\<rparr>),
      head_last_modified = (\<lambda>v. Inr (1000 + v))\<rparr>"

definition example_stream :: log_stream where
  "example_stream = log_stream_new ''file:///t'' (Some 3) (Some (JObj [(''id'', JStr ''t1'')]))"

lemma example_log_ok: "log_ok example_log"
proof -
  have "length (example_commits ! v) < 2 ^ 64" if "v \<le> 3" for v
  proof -
    have "example_commits ! v \<in> set example_commits"
      using that by (intro nth_mem) (simp add: example_commits_def)
    then show ?thesis by (auto simp: example_commits_def)
  qed
  then show ?thesis by (auto simp: log_ok_def example_log_def split: if_splits)
qed

lemmas example_defs =
  example_log_def example_stream_def example_commits_def example_add_def log_stream_new_def

lemmas next_batch_defs =
  next_batch_def latest_version_def finish_batch_def scan_start_def schema_at_def check_identity_def
  scan_loop.simps scan_step_def scan_adds_def commit_adds_of_def classify_def data_adds_def
  data_removes_def List.map_filter_def pinned_timestamp_def commit_log_timestamp_def
  sum_bytes_def add_bytes_def combined_ceiling_def metadata_id_def u64_def Let_def
  next_version_def advanced_by_def at_version_def

definition poll_delivers :: "log_store \<Rightarrow> log_stream \<Rightarrow> log_batch \<Rightarrow> bool" where
  "poll_delivers store s b \<longleftrightarrow>
     lb_start b = ls_cursor s \<and> lb_start b < lb_end b \<and> lb_files b \<noteq> []
     \<and> length (lb_file_versions b) = length (lb_files b)
     \<and> stream_upto (commit_items store (ls_policy s)) (lb_end b)
         = stream_upto (commit_items store (ls_policy s)) (lb_start b)
           @ zip (lb_file_versions b) (lb_files b)
     \<and> (\<forall>v. cursor_version (lb_start b) \<le> v \<and> at_version v < lb_end b
              \<longrightarrow> commit_actions store v \<noteq> None)"

lemma poll_delivers_scanned:
  assumes set: "same_settings s0 s" and inv: "scanned store s readable sc" and ne: "sc_files sc \<noteq> []"
    and b: "lb_start b = ls_cursor s0" "lb_end b = sc_cursor sc" "lb_files b = map snd (sc_files sc)"
      "lb_file_versions b = map fst (sc_files sc)"
  shows "poll_delivers store s0 b"
proof -
  have cur: "ls_cursor s = ls_cursor s0" "ls_policy s = ls_policy s0"
    using set by (auto simp: same_settings_def)
  have neq: "sc_cursor sc \<noteq> ls_cursor s0"
    using inv ne by (auto simp: scanned_def cur)
  have le: "ls_cursor s0 \<le> sc_cursor sc" using inv by (simp add: scanned_def cur)
  have "commit_actions store v \<noteq> None"
    if "cursor_version (ls_cursor s0) \<le> v" "at_version v < sc_cursor sc" for v
  proof (cases "v < cursor_version (sc_cursor sc)")
    case True
    with that inv show ?thesis by (auto simp: scanned_def cur)
  next
    case False
    with that(2) have "v = cursor_version (sc_cursor sc)" "\<not> is_commit_boundary (sc_cursor sc)"
      by (auto simp: cursor_less_iff is_commit_boundary_def)
    with inv neq show ?thesis by (auto simp: scanned_def cur)
  qed
  moreover have "stream_upto (commit_items store (ls_policy s0)) (sc_cursor sc)
      = stream_upto (commit_items store (ls_policy s0)) (ls_cursor s0) @ sc_files sc"
    using inv by (simp add: scanned_def cur)
  moreover have "zip (map fst (sc_files sc)) (map snd (sc_files sc)) = sc_files sc"
    by (simp add: zip_map_fst_snd)
  ultimately show ?thesis
    using ne neq le unfolding poll_delivers_def b by auto
qed

text \<open>
  C25. A poll of the source delivers a gap-free, duplicate-free stretch of its log: a batch
  holds exactly the files between its start and end cursors, tagged with their versions, in commit
  then log order, every commit it spans was read, the stream moves to its end; a poll that
  delivers nothing moves past commits without files only; a failed poll moves nothing.
\<close>

theorem next_batch_gap_free:
  assumes "log_ok store" and "next_batch store budget s = Some (r, s')"
  shows "(case r of
      Inl e \<Rightarrow> ls_cursor s' = ls_cursor s
    | Inr None \<Rightarrow> ls_cursor s \<le> ls_cursor s'
        \<and> stream_upto (commit_items store (ls_policy s)) (ls_cursor s')
            = stream_upto (commit_items store (ls_policy s)) (ls_cursor s)
    | Inr (Some b) \<Rightarrow> poll_delivers store s b \<and> ls_cursor s' = lb_end b)"
  using assms(2,1)
proof (cases rule: next_batch_cases)
  case (3 t readable sc)
  then have "scanned store t readable sc" using scan_loop_scanned [OF assms(1) _ 3(4)] by simp
  with 3 show ?thesis by (simp add: scanned_def same_settings_def)
next
  case (4 t readable sc through sch)
  then have "scanned store t readable sc" using scan_loop_scanned [OF assms(1) _ 4(4)] by simp
  with 4 show ?thesis by (auto intro: poll_delivers_scanned)
qed auto

theorem next_batch_gap_free_witness:
  "\<exists>b s'. next_batch example_log None example_stream = Some (Inr (Some b), s')
     \<and> zip (lb_file_versions b) (map add_path (lb_files b)) = [(1, ''a''), (3, ''c''), (3, ''d'')]
     \<and> poll_delivers example_log example_stream b"
proof -
  obtain b s' where run: "next_batch example_log None example_stream = Some (Inr (Some b), s')"
    "zip (lb_file_versions b) (map add_path (lb_files b)) = [(1, ''a''), (3, ''c''), (3, ''d'')]"
    by (simp add: example_defs next_batch_defs)
  from next_batch_gap_free [OF example_log_ok run(1)] run show ?thesis by auto
qed

section \<open>Limits, versions and provenance of a batch\<close>

lemma u64_add_mod: "u64_add (a mod 2 ^ 64) b = (a + b) mod 2 ^ 64"
  by (simp add: u64_add_def mod_simps)

lemma foldl_bytes:
  "foldl (\<lambda>n a. u64_add n (add_bytes a)) (t mod 2 ^ 64) as = (t + sum_list (map add_bytes as)) mod 2 ^ 64"
proof (induction as arbitrary: t)
  case (Cons a as)
  show ?case
    using Cons.IH [of "t + add_bytes a"]
    by (simp only: foldl_Cons u64_add_mod list.map sum_list.Cons add.assoc)
qed simp

lemma sum_bytes_mod: "sum_bytes as = sum_list (map add_bytes as) mod 2 ^ 64"
  using foldl_bytes [of 0] by (simp add: sum_bytes_def)

lemma sum_bytes_append: "sum_bytes (as @ bs) = u64_add (sum_bytes as) (sum_bytes bs)"
  by (simp add: sum_bytes_mod u64_add_def mod_simps)

lemma take_some_bounds:
  assumes "n \<le> 1 \<or> t \<le> max_bytes" and "n \<le> max_files"
  shows "let m = take_some max_files max_bytes as n t
    in n \<le> m \<and> m \<le> n + length as \<and> m \<le> max_files
       \<and> (m \<le> 1 \<or> foldl (\<lambda>n a. u64_add n (add_bytes a)) t (take (m - n) as) \<le> max_bytes)"
  using assms
proof (induction max_files max_bytes as n t rule: take_some.induct)
  case (1 max_files max_bytes n t)
  then show ?case by auto
next
  case (2 max_files max_bytes a as n t)
  show ?case
  proof (cases "n + 1 > max_files \<or> (u64_add t (add_bytes a) > max_bytes \<and> n > 0)")
    case True
    with 2(2,3) show ?thesis by (auto simp: Let_def)
  next
    case False
    define m where "m = take_some max_files max_bytes as (n + 1) (u64_add t (add_bytes a))"
    have "n + 1 \<le> m \<and> m \<le> n + 1 + length as \<and> m \<le> max_files
       \<and> (m \<le> 1 \<or> foldl (\<lambda>n a. u64_add n (add_bytes a)) (u64_add t (add_bytes a))
            (take (m - (n + 1)) as) \<le> max_bytes)"
      unfolding m_def using 2(1) [OF refl False] False by (auto simp: Let_def)
    moreover have "take_some max_files max_bytes (a # as) n t = m"
      using False by (auto simp: m_def Let_def)
    moreover from calculation(1) have "m - n = Suc (m - (n + 1))" by linarith
    ultimately show ?thesis unfolding Let_def by simp
  qed
qed

lemma take_count_limits:
  assumes "1 \<le> ls_max_files s" and "rest \<noteq> []"
  shows "take_count s rest \<le> ls_max_files s
    \<and> (sum_bytes (take (take_count s rest) rest) \<le> ls_max_bytes s \<or> take_count s rest = 1)"
proof -
  define m where "m = take_some (ls_max_files s) (ls_max_bytes s) rest 0 0"
  have m: "m \<le> length rest" "m \<le> ls_max_files s"
    "m \<le> 1 \<or> sum_bytes (take m rest) \<le> ls_max_bytes s"
    using take_some_bounds [of 0 0 "ls_max_bytes s" "ls_max_files s" rest]
    by (auto simp: m_def Let_def sum_bytes_def)
  have "take_count s rest = max m 1"
  proof -
    have "1 \<le> length rest" using assms(2) by (cases rest) auto
    with m(1) show ?thesis by (simp add: take_count_def m_def [symmetric])
  qed
  with m assms show ?thesis by (auto simp: max_def)
qed

text \<open>The loop's second invariant, and what is left of it when a commit had to be split.\<close>

definition within_limits :: "log_stream \<Rightarrow> version \<Rightarrow> scan \<Rightarrow> bool" where
  "within_limits s readable sc \<longleftrightarrow>
     length (sc_files sc) \<le> ls_max_files s
     \<and> sc_bytes sc = sum_bytes (map snd (sc_files sc)) \<and> sc_bytes sc \<le> ls_max_bytes s
     \<and> (is_commit_boundary (ls_cursor s) \<longrightarrow> is_commit_boundary (sc_cursor sc))
     \<and> (\<forall>(v, a) \<in> set (sc_files sc). v \<le> readable)
     \<and> (sc_files sc \<noteq> [] \<longrightarrow> sc_through sc = Some (fst (last (sc_files sc))))"

definition ends_within_limits :: "log_stream \<Rightarrow> version \<Rightarrow> scan \<Rightarrow> bool" where
  "ends_within_limits s readable sc \<longleftrightarrow>
     length (sc_files sc) \<le> ls_max_files s
     \<and> (sum_bytes (map snd (sc_files sc)) \<le> ls_max_bytes s
          \<or> ls_allow_commit_splitting s \<and> length (sc_files sc) = 1)
     \<and> (is_commit_boundary (ls_cursor s) \<longrightarrow>
          is_commit_boundary (sc_cursor sc) \<or> ls_allow_commit_splitting s)
     \<and> (\<forall>(v, a) \<in> set (sc_files sc). v \<le> readable)
     \<and> (sc_files sc \<noteq> [] \<longrightarrow> sc_through sc = Some (fst (last (sc_files sc))))"

lemma within_limits_ends: "within_limits s readable sc \<Longrightarrow> ends_within_limits s readable sc"
  by (auto simp: within_limits_def ends_within_limits_def)

lemma last_map_Pair: "xs \<noteq> [] \<Longrightarrow> fst (last (map (Pair v) xs)) = v"
  by (simp add: last_map)

lemma scan_adds_limits:
  assumes files: "1 \<le> ls_max_files s" and inv: "within_limits s readable sc"
    and le: "cursor_version (sc_cursor sc) \<le> readable"
    and run: "scan_adds store budget s sc (cursor_version (sc_cursor sc)) adds = ex"
  shows "(\<forall>sc'. ex = Continue sc' \<longrightarrow> within_limits s readable sc')
    \<and> (\<forall>sc'. ex = Break sc' \<longrightarrow> ends_within_limits s readable sc')"
  using run
proof (cases rule: scan_adds_cases)
  case (3 ts rest)
  let ?sc = "sc\<lparr>sc_files := sc_files sc @ map (Pair (cursor_version (sc_cursor sc))) rest,
      sc_bytes := u64_add (sc_bytes sc) (sum_bytes rest),
      sc_through := Some (cursor_version (sc_cursor sc)),
      sc_log_timestamp := ts, sc_cursor := next_version (sc_cursor sc)\<rparr>"
  have "within_limits s readable ?sc"
    using inv 3(3-5) le
    by (auto simp: within_limits_def sum_bytes_append last_map_Pair comp_def)
  with 3(7) show ?thesis by (auto simp: Let_def intro: within_limits_ends split: if_splits)
next
  case (5 ts rest)
  let ?n = "take_count s rest"
  have "length (take ?n rest) = ?n" using take_count_bounds [OF 5(3)] by simp
  moreover have "take ?n rest \<noteq> []" using take_count_bounds [OF 5(3)] 5(3) by auto
  ultimately show ?thesis
    using 5(5,7) take_count_limits [OF files 5(3)] le
    by (auto simp: ends_within_limits_def last_map_Pair comp_def)
qed (use inv in \<open>auto simp: within_limits_def intro: within_limits_ends [unfolded within_limits_def]\<close>)

lemma scan_loop_limits:
  assumes files: "1 \<le> ls_max_files s"
    and run: "scan_loop store budget s readable (scan_start (ls_cursor s)) = Some (Inr sc)"
  shows "ends_within_limits s readable sc"
  using run
proof (rule scan_loop_invariant [where P = "within_limits s readable"])
  show "within_limits s readable (scan_start (ls_cursor s))"
    by (simp add: within_limits_def scan_start_def sum_bytes_def)
next
  fix sc sc'
  assume inv: "within_limits s readable sc" and le: "cursor_version (sc_cursor sc) \<le> readable"
    and run: "scan_step store budget s sc = Continue sc'"
  from run show "within_limits s readable sc'"
  proof (cases rule: scan_step_cases)
    case (3 as)
    with inv show ?thesis by (simp add: within_limits_def)
  next
    case (4 as adds)
    with scan_adds_limits [OF files inv le 4(3)] show ?thesis by blast
  qed auto
next
  fix sc sc'
  assume inv: "within_limits s readable sc" and le: "cursor_version (sc_cursor sc) \<le> readable"
    and run: "scan_step store budget s sc = Break sc'"
  from run show "ends_within_limits s readable sc'"
  proof (cases rule: scan_step_cases)
    case 2
    with inv show ?thesis by (auto intro: within_limits_ends)
  next
    case (4 as adds)
    with scan_adds_limits [OF files inv le 4(3)] show ?thesis by blast
  qed auto
qed (rule within_limits_ends)

text \<open>
  The limits of a batch hold: never more files than configured; never more bytes, except for a
  single file that is too large by itself when commits may be split; unless they may, a reader
  that starts at a commit boundary ends at one, so its position is always a bare version; and no
  file of a batch comes from beyond the version the stream was told to stop after.
\<close>

lemma next_batch_within_limits:
  assumes "log_ok store" and "1 \<le> ls_max_files s"
    and "next_batch store budget s = Some (Inr (Some b), s')"
  shows "length (lb_files b) \<le> ls_max_files s
    \<and> (total_bytes b \<le> ls_max_bytes s \<or> ls_allow_commit_splitting s \<and> length (lb_files b) = 1)
    \<and> (is_commit_boundary (lb_start b) \<and> \<not> ls_allow_commit_splitting s \<longrightarrow> is_commit_boundary (lb_end b))
    \<and> (\<forall>stop v. ls_stop_after s = Some stop \<and> v \<in> set (lb_file_versions b) \<longrightarrow> v \<le> stop)
    \<and> lb_through_version b = last (lb_file_versions b)"
  using assms(3,1)
proof (cases rule: next_batch_cases)
  case (4 t readable sc through sch)
  from 4(1) assms(2) have "1 \<le> ls_max_files t" by (simp add: same_settings_def)
  from scan_loop_limits [OF this 4(4)] have lim: "ends_within_limits t readable sc" .
  then have "through = last (map fst (sc_files sc))"
    using 4(5,6) by (simp add: ends_within_limits_def last_map)
  moreover have "v \<le> stop" if "ls_stop_after s = Some stop" "v \<in> fst ` set (sc_files sc)" for v stop
    using that lim 4(3) by (auto simp: ends_within_limits_def)
  ultimately show ?thesis
    using lim 4(1,7) by (auto simp: ends_within_limits_def same_settings_def total_bytes_def)
qed auto

lemma next_batch_within_limits_witness:
  "\<exists>b s'. next_batch example_log None (with_max_files_per_batch 2 example_stream) = Some (Inr (Some b), s')
     \<and> lb_end b = at_version 3 \<and> length (lb_files b) \<le> 2"
proof -
  obtain b s' where run:
    "next_batch example_log None (with_max_files_per_batch 2 example_stream) = Some (Inr (Some b), s')"
    "lb_end b = at_version 3"
    by (simp add: example_defs next_batch_defs with_max_files_per_batch_def)
  have "1 \<le> ls_max_files (with_max_files_per_batch 2 example_stream)"
    by (simp add: with_max_files_per_batch_def)
  from next_batch_within_limits [OF example_log_ok this run(1)] run show ?thesis
    by (auto simp: with_max_files_per_batch_def)
qed

section \<open>Where a file comes from\<close>

text \<open>\<open>emitted\<close>: the file may be read downstream as it is.\<close>

definition emitted :: "log_store \<Rightarrow> change_policy \<Rightarrow> version \<Rightarrow> add_file \<Rightarrow> bool" where
  "emitted store policy v a \<longleftrightarrow>
     (\<exists>as. commit_actions store v = Some as \<and> ActAdd a \<in> set as
        \<and> add_data_change a \<and> \<not> add_deletion_vector a
        \<and> (policy \<noteq> IgnoreChanges \<longrightarrow> (\<forall>r. ActRemove r \<in> set as \<longrightarrow> \<not> remove_data_change r)))"

lemma in_data_adds: "a \<in> set (data_adds as) \<longleftrightarrow> ActAdd a \<in> set as \<and> add_data_change a"
  by (force simp: data_adds_def List.map_filter_def split: action.splits if_splits)

lemma data_removes_empty: "data_removes as = [] \<longleftrightarrow> (\<forall>r. ActRemove r \<in> set as \<longrightarrow> \<not> remove_data_change r)"
  by (force simp: data_removes_def List.map_filter_def filter_empty_conv split: action.splits if_splits)

lemma commit_adds_clean:
  "commit_adds_of policy as = Emit adds \<Longrightarrow> policy \<noteq> IgnoreChanges \<Longrightarrow> data_removes as = []"
  by (auto simp: commit_adds_of_def classify_def Let_def
      split: commit_class.splits change_policy.splits if_splits)

lemma emitted_adds:
  assumes "commit_actions store v = Some as" and "commit_adds_of policy as = Emit adds"
    and "list_all (\<lambda>a. \<not> add_deletion_vector a) adds" and "a \<in> set adds"
  shows "emitted store policy v a"
  using assms commit_adds_emit [OF assms(2)] commit_adds_clean [OF assms(2)]
  by (auto simp: emitted_def in_data_adds data_removes_empty list_all_iff)

definition all_emitted :: "log_store \<Rightarrow> log_stream \<Rightarrow> scan \<Rightarrow> bool" where
  "all_emitted store s sc \<longleftrightarrow> (\<forall>v a. (v, a) \<in> set (sc_files sc) \<longrightarrow> emitted store (ls_policy s) v a)"

lemma scan_step_emitted:
  assumes inv: "all_emitted store s sc" and run: "scan_step store budget s sc = ex"
    and ex: "ex = Continue sc' \<or> ex = Break sc'"
  shows "all_emitted store s sc'"
  using run
proof (cases rule: scan_step_cases)
  case (4 as adds)
  note em = emitted_adds [OF 4(1,2)]
  from 4(3) show ?thesis
  proof (cases rule: scan_adds_cases)
    case (3 ts rest)
    with ex have "sc_files sc' = sc_files sc @ map (Pair (cursor_version (sc_cursor sc))) rest"
      by (auto simp: Let_def split: if_splits)
    with inv em [OF 3(1)] 3(2) show ?thesis
      by (auto simp: all_emitted_def dest: in_set_dropD)
  next
    case (5 ts rest)
    from 5(7) ex have "sc_files sc'
        = map (Pair (cursor_version (sc_cursor sc))) (take (take_count s rest) rest)" by auto
    with em [OF 5(1)] 5(2) show ?thesis
      by (auto simp: all_emitted_def dest!: in_set_takeD in_set_dropD)
  qed (use inv ex in \<open>auto simp: all_emitted_def\<close>)
qed (use inv ex in \<open>auto simp: all_emitted_def\<close>)

lemma scan_loop_emitted:
  assumes "scan_loop store budget s readable (scan_start (ls_cursor s)) = Some (Inr sc)"
  shows "all_emitted store s sc"
  using assms
  by (rule scan_loop_invariant [where P = "all_emitted store s"])
    (auto simp: scan_start_def intro: scan_step_emitted, simp add: all_emitted_def)

text \<open>
  Nothing but appended data reaches a reader: every file of a batch is an \<open>add\<close> with
  \<open>dataChange\<close> of the commit it is tagged with, never one a compaction rewrote, and has no
  deletion vector; unless the policy ignores changes, its commit removes no data either.
\<close>

lemma next_batch_only_appends:
  assumes "log_ok store" and "next_batch store budget s = Some (Inr (Some b), s')"
    and "i < length (lb_files b)"
  shows "emitted store (ls_policy s) (version_of b i) (lb_files b ! i)"
  using assms(2,1)
proof (cases rule: next_batch_cases)
  case (4 t readable sc through sch)
  from scan_loop_emitted [OF 4(4)] have "all_emitted store t sc" .
  moreover have "sc_files sc ! i = (version_of b i, lb_files b ! i)" "i < length (sc_files sc)"
    using assms(3) 4(7) by (auto simp: version_of_def)
  ultimately show ?thesis
    using 4(1) nth_mem [of i "sc_files sc"] by (auto simp: all_emitted_def same_settings_def)
qed auto

lemma next_batch_only_appends_witness:
  "\<exists>b s'. next_batch example_log None example_stream = Some (Inr (Some b), s')
     \<and> version_of b 2 = 3 \<and> emitted example_log PolicyFail 3 (lb_files b ! 2)"
proof -
  obtain b s' where run: "next_batch example_log None example_stream = Some (Inr (Some b), s')"
    "version_of b 2 = 3" "2 < length (lb_files b)"
    by (simp add: example_defs next_batch_defs version_of_def)
  have "ls_policy example_stream = PolicyFail" by (simp add: example_defs)
  with next_batch_only_appends [OF example_log_ok run(1,3)] run show ?thesis by auto
qed

section \<open>A poll returns, and tells the truth about being caught up\<close>

lemma scan_step_break_files:
  assumes "scan_step store budget s sc = Break sc'"
  shows "sc_files sc' \<noteq> []"
  using assms
proof (cases rule: scan_step_cases)
  case (4 as adds)
  from 4(3) show ?thesis
  proof (cases rule: scan_adds_cases)
    case (3 ts rest)
    then show ?thesis by (auto simp: Let_def split: if_splits)
  next
    case (5 ts rest)
    with take_count_bounds [OF 5(3)] show ?thesis by auto
  qed auto
qed auto

lemma scan_loop_caught_up:
  assumes "scan_loop store budget s readable sc0 = Some (Inr sc)"
  shows "sc_files sc \<noteq> [] \<or> readable < cursor_version (sc_cursor sc)"
  using assms
  by (rule scan_loop_invariant [where P = "\<lambda>_. True"]) (auto dest: scan_step_break_files)

lemma next_batch_total:
  assumes "log_ok store"
  shows "\<exists>r s'. next_batch store budget s = Some (r, s')
    \<and> (r = Inr None \<longrightarrow>
         (\<exists>latest s1. latest_version store s = (Inr latest, s1) \<and> ls_head s' = Some latest
            \<and> (case ls_stop_after s of None \<Rightarrow> latest | Some stop \<Rightarrow> min stop latest)
                < cursor_version (ls_cursor s')))"
proof (cases "latest_version store s")
  case (Pair lv s1)
  show ?thesis
  proof (cases lv)
    case (Inl e)
    with Pair show ?thesis by (simp add: next_batch_def)
  next
    case (Inr latest)
    define t where "t = s1\<lparr>ls_head := Some latest\<rparr>"
    have stop: "ls_stop_after t = ls_stop_after s"
      using latest_version_settings [OF Pair] by (simp add: t_def same_settings_def)
    define readable where "readable = (case ls_stop_after s of None \<Rightarrow> latest | Some stop \<Rightarrow> min stop latest)"
    have "latest < 2 ^ 63" using latest_version_bound [OF assms] Pair Inr by blast
    then have "readable < 2 ^ 64 - 1" by (auto simp: readable_def split: option.splits)
    from scan_loop_returns [OF this] obtain out
      where loop: "scan_loop store budget t readable (scan_start (ls_cursor t)) = Some out" by blast
    have run: "next_batch store budget s =
      (if cursor_version (ls_cursor t) > readable then Some (Inr None, t)
       else (case out of Inl e \<Rightarrow> Some (Inl e, t) | Inr sc \<Rightarrow> Some (finish_batch store t sc)))"
      unfolding next_batch_def Pair Inr prod.case sum.case Let_def t_def [symmetric] stop
        readable_def [symmetric] loop by simp
    have fin: "\<exists>r s'. finish_batch store t sc = (r, s')
        \<and> (r = Inr None \<longrightarrow> ls_head s' = Some latest \<and> readable < cursor_version (ls_cursor s'))"
      if "out = Inr sc" for sc
      using scan_loop_caught_up [of store budget t readable "scan_start (ls_cursor t)" sc] loop that
      by (auto simp: finish_batch_def Let_def t_def split: prod.splits sum.splits)
    show ?thesis
    proof (cases "cursor_version (ls_cursor t) > readable")
      case True
      with run Pair Inr show ?thesis by (auto simp: readable_def t_def)
    next
      case False
      show ?thesis
      proof (cases out)
        case (Inl e)
        with run False show ?thesis by simp
      next
        case (Inr sc)
        from fin [OF this] run False Inr Pair \<open>lv = Inr latest\<close> show ?thesis
          by (auto simp: readable_def)
      qed
    qed
  qed
qed

text \<open>
  C27. A poll of a log always returns, and a poll that reports the reader caught up is right:
  nothing at or below the head it saw, or the version it is to stop after, is left to read.
\<close>

theorem next_batch_returns:
  assumes "log_ok store"
  shows "\<exists>r s'. next_batch store budget s = Some (r, s')
    \<and> (r = Inr None \<longrightarrow>
         (\<exists>latest s1. latest_version store s = (Inr latest, s1) \<and> ls_head s' = Some latest
            \<and> (case ls_stop_after s of None \<Rightarrow> latest | Some stop \<Rightarrow> min stop latest)
                < cursor_version (ls_cursor s')))"
  by (rule next_batch_total [OF assms])

theorem next_batch_returns_witness:
  "\<exists>s'. next_batch example_log None (with_starting_version 4 example_stream) = Some (Inr None, s')
     \<and> cursor_version (ls_cursor s') > 3"
proof -
  have stop: "ls_stop_after (with_starting_version 4 example_stream) = None"
    by (simp add: with_starting_version_def example_defs)
  obtain s' where run:
    "next_batch example_log None (with_starting_version 4 example_stream) = Some (Inr None, s')"
    "ls_head s' = Some 3"
    by (simp add: example_defs next_batch_defs with_starting_version_def)
  from next_batch_returns [OF example_log_ok, of None "with_starting_version 4 example_stream"]
  have "cursor_version (ls_cursor s') > 3" using run by (auto simp: stop)
  with run show ?thesis by blast
qed

section \<open>Pinned lookup snapshots\<close>

definition pinned :: "log_store \<Rightarrow> scan \<Rightarrow> bool" where
  "pinned store sc \<longleftrightarrow> sc_files sc = []
     \<or> (\<exists>v t. sc_through sc = Some v \<and> fst ` set (sc_files sc) = {v}
          \<and> head_last_modified store v = Inr t \<and> sc_log_timestamp sc = Some t)"

lemma pinned_timestamp_Inr:
  "ls_pin_lookup_snapshots s \<Longrightarrow> pinned_timestamp store s sc v = Inr ts \<Longrightarrow>
     \<exists>t. head_last_modified store v = Inr t \<and> ts = Some t"
  by (auto simp: pinned_timestamp_def commit_log_timestamp_def split: sum.splits)

lemma scan_adds_pinned:
  assumes pin: "ls_pin_lookup_snapshots s" and inv: "sc_files sc = []"
    and run: "scan_adds store budget s sc v adds = ex"
  shows "(\<forall>sc'. ex = Continue sc' \<longrightarrow> sc_files sc' = []) \<and> (\<forall>sc'. ex = Break sc' \<longrightarrow> pinned store sc')"
  using run
proof (cases rule: scan_adds_cases)
  case (3 ts rest)
  have "fst ` set (map (Pair v) rest) = {v}" using 3(3) by (cases rest) auto
  with 3(7) pinned_timestamp_Inr [OF pin 3(6)] pin inv show ?thesis
    by (auto simp: Let_def pinned_def)
next
  case (5 ts rest)
  have "fst ` set (map (Pair v) (take (take_count s rest) rest)) = {v}"
    using take_count_bounds [OF 5(3), of s] 5(3) by (cases rest; cases "take_count s rest") auto
  with 5(7) pinned_timestamp_Inr [OF pin 5(6)] show ?thesis
    by (auto simp: pinned_def)
qed (use inv in auto)

lemma scan_loop_pinned:
  assumes pin: "ls_pin_lookup_snapshots s"
    and run: "scan_loop store budget s readable (scan_start (ls_cursor s)) = Some (Inr sc)"
  shows "pinned store sc"
  using run
proof (rule scan_loop_invariant [where P = "\<lambda>sc. sc_files sc = []"])
  fix sc sc'
  assume inv: "sc_files sc = []" and run: "scan_step store budget s sc = Continue sc'"
  from run show "sc_files sc' = []"
  proof (cases rule: scan_step_cases)
    case (4 as adds)
    with scan_adds_pinned [OF pin inv 4(3)] show ?thesis by blast
  qed (use inv in auto)
next
  fix sc sc'
  assume inv: "sc_files sc = []" and run: "scan_step store budget s sc = Break sc'"
  from run show "pinned store sc'"
  proof (cases rule: scan_step_cases)
    case (4 as adds)
    with scan_adds_pinned [OF pin inv 4(3)] show ?thesis by blast
  qed (use inv in auto)
qed (auto simp: scan_start_def pinned_def)

text \<open>
  A lookup pipeline's batch has one deterministic lookup time: with pinned snapshots every file
  of a batch comes from a single source commit, \<open>through_version\<close>, and the batch carries the
  object store's modification time of exactly that commit, whatever the batch limits are.
\<close>

lemma next_batch_pinned:
  assumes "log_ok store" and "ls_pin_lookup_snapshots s"
    and "next_batch store budget s = Some (Inr (Some b), s')"
  shows "set (lb_file_versions b) = {lb_through_version b}
    \<and> (\<exists>t. head_last_modified store (lb_through_version b) = Inr t \<and> lb_through_log_timestamp b = Some t)"
  using assms(3,1)
proof (cases rule: next_batch_cases)
  case (4 t readable sc through sch)
  from 4(1) assms(2) have "ls_pin_lookup_snapshots t" by (simp add: same_settings_def)
  from scan_loop_pinned [OF this 4(4)] 4(5,6,7) show ?thesis by (auto simp: pinned_def) (metis fst_conv imageI singletonD)
qed auto

lemma next_batch_pinned_witness:
  "\<exists>b s'. next_batch example_log None (example_stream\<lparr>ls_pin_lookup_snapshots := True\<rparr>) = Some (Inr (Some b), s')
     \<and> lb_through_log_timestamp b = Some 1001 \<and> lb_file_versions b = [1]"
proof -
  obtain b s' where run:
    "next_batch example_log None (example_stream\<lparr>ls_pin_lookup_snapshots := True\<rparr>) = Some (Inr (Some b), s')"
    "lb_through_version b = 1" "length (lb_file_versions b) = 1"
    by (simp add: example_defs next_batch_defs)
  have "ls_pin_lookup_snapshots (example_stream\<lparr>ls_pin_lookup_snapshots := True\<rparr>)" by simp
  from next_batch_pinned [OF example_log_ok this run(1)] run(2)
  have "set (lb_file_versions b) = {1}" "lb_through_log_timestamp b = Some 1001"
    by (auto simp: example_log_def)
  with run(1,3) show ?thesis by (cases "lb_file_versions b") auto
qed

section \<open>The head and the identity of the source\<close>

text \<open>
  A source that is another table at the same path is told from one replaced in place: when
  this stream's log state can be read, a snapshot is refused as \<open>SourceReplaced\<close> exactly when a
  reopen, holding the identity the stream has, would not recognise the log either
  (\<open>keeps_identity\<close>), unless the id is the same; and a snapshot accepted becomes the identity.
\<close>

lemma check_identity_agrees_with_reopen:
  assumes "ls_identity s = Some (seen_at, was)" and "seen_at \<le> head"
    and "log_state store (Some seen_at) = Inr snap"
  shows "check_identity store s v (Some now) =
     (if was = now \<or> keeps_identity store (Some head) seen_at was = Inr True
      then (Inr (), s\<lparr>ls_identity := Some (v, now)\<rparr>)
      else (Inl (E_SourceReplaced (ls_source_uri s) ''its table id changed''), s))"
  using assms by (simp add: check_identity_def keeps_identity_def replaced_def)

lemma check_identity_agrees_with_reopen_witness:
  "check_identity example_log example_stream 5 (Some ''t2'')
     = (Inr (), example_stream\<lparr>ls_identity := Some (5, ''t2'')\<rparr>)"
proof -
  have i: "ls_identity example_stream = Some (3, ''t1'')"
    by (simp add: example_defs metadata_id_def)
  have "keeps_identity example_log (Some 5) 3 ''t1'' = Inr True"
    by (simp add: keeps_identity_def example_log_def metadata_id_def)
  moreover have l: "\<exists>snap. log_state example_log (Some 3) = Inr snap" by (simp add: example_log_def)
  ultimately show ?thesis
    using check_identity_agrees_with_reopen [OF i, of 5 example_log _ 5 "''t2''"] by auto
qed

text \<open>
  The head a stream reads to never falls behind what it has seen: a head that is answered is at
  or above the floor held, the floor only moves forward and stays at or below the head, and a log
  whose head has fallen below the floor is refused as a replaced source, never read from a
  position that means nothing in it.
\<close>

lemma latest_version_forward:
  assumes "log_ok store"
  shows "(case latest_version store s of
      (Inr v, s') \<Rightarrow> ls_version_floor s \<le> ls_version_floor s' \<and> ls_version_floor s' \<le> v
    | (Inl e, s') \<Rightarrow> ls_version_floor s \<le> ls_version_floor s')
    \<and> (\<forall>e v head. get_latest_version store (ls_version_floor s) = Inl e
         \<and> delta_kind e = DK_InvalidVersion v \<and> log_state store None = Inr head
         \<and> snap_version head < ls_version_floor s
         \<longrightarrow> (\<exists>d. latest_version store s = (Inl (E_SourceReplaced (ls_source_uri s) d), s)))"
proof -
  have "ls_version_floor s \<le> ls_version_floor s'" if "latest_version store s = (Inl e, s')" for e s'
    using that
    by (auto simp: latest_version_def Let_def dest: check_identity_floor
        split: option.splits sum.splits if_splits delta_kind.splits prod.splits)
  with latest_version_bound [OF assms, of s] have "(case latest_version store s of
      (Inr v, s') \<Rightarrow> ls_version_floor s \<le> ls_version_floor s' \<and> ls_version_floor s' \<le> v
    | (Inl e, s') \<Rightarrow> ls_version_floor s \<le> ls_version_floor s')"
    by (auto split: prod.split sum.split)
  then show ?thesis by (simp add: latest_version_def replaced_def)
qed

lemma latest_version_forward_witness:
  "fst (latest_version example_log example_stream) = Inr 3
   \<and> ls_version_floor example_stream \<le> 3"
proof -
  have r: "latest_version example_log example_stream = (Inr 3, example_stream\<lparr>ls_version_floor := 3\<rparr>)"
    by (simp add: latest_version_def example_defs)
  from latest_version_forward [OF example_log_ok, of example_stream] show ?thesis
    by (simp add: r)
qed

section \<open>The oldest commit of a listing\<close>

definition commits_listed :: "(string option \<times> nat) list \<Rightarrow> (version \<times> nat) list" where
  "commits_listed listing =
     concat (map (\<lambda>m. case Option.bind (fst m) commit_file_version of None \<Rightarrow> [] | Some v \<Rightarrow> [(v, snd m)])
       listing)"

lemma foldl_oldest:
  "(case foldl oldest_step held listing of
      None \<Rightarrow> held = None \<and> commits_listed listing = []
    | Some (v, t) \<Rightarrow> (v, t) \<in> set_option held \<union> set (commits_listed listing)
        \<and> (\<forall>e \<in> set_option held \<union> set (commits_listed listing). v \<le> fst e))"
proof (induction listing arbitrary: held)
  case Nil
  then show ?case by (cases held) (auto simp: commits_listed_def)
next
  case (Cons m ms)
  show ?case
  proof (cases "Option.bind (fst m) commit_file_version")
    case None
    then have "oldest_step held m = held" "commits_listed (m # ms) = commits_listed ms"
      by (simp_all add: oldest_step_def commits_listed_def)
    with Cons.IH [of held] show ?thesis unfolding foldl_Cons by metis
  next
    case (Some v)
    then have l: "commits_listed (m # ms) = (v, snd m) # commits_listed ms"
      by (simp add: commits_listed_def)
    have held: "oldest_step held m = Some (v, snd m)
        \<and> (\<forall>e \<in> set_option held. v \<le> fst e)
      \<or> (\<exists>w u. held = Some (w, u) \<and> w \<le> v \<and> oldest_step held m = held)"
      using Some by (cases held) (auto simp: oldest_step_def)
    show ?thesis
      using Cons.IH [of "oldest_step held m"] held unfolding l
      by (auto split: option.splits)
  qed
qed

lemma parse_u64_digits:
  "list_all is_digit s \<Longrightarrow> s \<noteq> [] \<Longrightarrow>
     parse_u64 s = (if digits_value s < 2 ^ 64 then Some (digits_value s) else None)"
  by (cases s) (auto simp: parse_u64_def parse_unsigned_def is_digit_def)

lemma commit_file_version_iff:
  "commit_file_version name = Some v \<longleftrightarrow> v < 2 ^ 64 \<and> name = pad20 v @ ''.json''"
proof
  assume "commit_file_version name = Some v"
  then obtain stem where stem: "name = stem @ ''.json''" "length stem = 20" "list_all is_digit stem"
    "parse_u64 stem = Some v"
    by (auto simp: commit_file_version_def split: option.splits if_splits)
  then have v: "v < 2 ^ 64" "digits_value stem = v"
    by (cases stem; simp add: parse_u64_digits split: if_splits)+
  then have "stem = pad20 v"
    using stem(2,3) by (intro digits_value_inject) (simp_all add: pad20_length)
  with v stem show "v < 2 ^ 64 \<and> name = pad20 v @ ''.json''" by simp
next
  assume "v < 2 ^ 64 \<and> name = pad20 v @ ''.json''"
  moreover from this have "length (pad20 v) = 20" by (simp add: pad20_length)
  moreover from this have "pad20 v \<noteq> []" by auto
  moreover have "strip_suffix ''.json'' (pad20 v @ ''.json'') = Some (pad20 v)" by simp
  ultimately show "commit_file_version name = Some v"
    unfolding commit_file_version_def by (simp add: parse_u64_digits del: strip_suffix_Some_iff)
qed

text \<open>
  The oldest readable commit of a table is found whatever the listing's order and whatever
  else lies in the log directory: only a name of twenty digits and \<open>.json\<close> counts, the answer is
  listed and no listed commit is older, and there is none exactly when no commit is listed.
\<close>

lemma earliest_readable_commit_least:
  "(case earliest_readable_commit listing of
      None \<Rightarrow> \<forall>v t. v < 2 ^ 64 \<longrightarrow> (Some (pad20 v @ ''.json''), t) \<notin> set listing
    | Some (v, t) \<Rightarrow> v < 2 ^ 64 \<and> (Some (pad20 v @ ''.json''), t) \<in> set listing
        \<and> (\<forall>w u. w < 2 ^ 64 \<and> (Some (pad20 w @ ''.json''), u) \<in> set listing \<longrightarrow> v \<le> w))"
proof -
  have mem: "(v, t) \<in> set (commits_listed listing)
      \<longleftrightarrow> v < 2 ^ 64 \<and> (Some (pad20 v @ ''.json''), t) \<in> set listing" for v t
  proof -
    have "(v, t) \<in> set (commits_listed listing)
        \<longleftrightarrow> (\<exists>m \<in> set listing. Option.bind (fst m) commit_file_version = Some v \<and> snd m = t)"
      by (force simp: commits_listed_def split: option.splits)
    also have "\<dots> \<longleftrightarrow> (\<exists>m \<in> set listing. v < 2 ^ 64 \<and> m = (Some (pad20 v @ ''.json''), t))"
      by (intro bex_cong refl) (auto simp: bind_eq_Some_conv commit_file_version_iff prod_eq_iff)
    finally show ?thesis by blast
  qed
  show ?thesis
  proof (cases "earliest_readable_commit listing")
    case None
    then have "commits_listed listing = []"
      using foldl_oldest [of None listing] by (simp add: earliest_readable_commit_def)
    with mem None show ?thesis by auto
  next
    case (Some vt)
    obtain v t where vt: "vt = (v, t)" by (cases vt)
    have "(v, t) \<in> set (commits_listed listing)" "\<forall>e \<in> set (commits_listed listing). v \<le> fst e"
      using foldl_oldest [of None listing] Some by (auto simp: earliest_readable_commit_def vt)
    with mem Some vt show ?thesis by fastforce
  qed
qed

definition example_listing :: "(string option \<times> nat) list" where
  "example_listing =
     [(Some ''00000000000000000007.checkpoint.parquet'', 5), (Some ''00000000000000000012.json'', 9),
      (Some ''00000000000000000011.json'', 8), (None, 1), (Some ''_last_checkpoint'', 2)]"

lemma earliest_readable_commit_least_witness:
  "\<exists>v t. earliest_readable_commit example_listing = Some (v, t) \<and> v = 11 \<and> t = 8
   \<and> (\<forall>w u. w < 2 ^ 64 \<and> (Some (pad20 w @ ''.json''), u) \<in> set example_listing \<longrightarrow> v \<le> w)"
proof -
  note defs = commit_file_version_def strip_suffix_def is_digit_def parse_u64_def parse_unsigned_def
    digits_value_def digit_value_def
  have "commit_file_version ''00000000000000000012.json'' = Some 12"
    "commit_file_version ''00000000000000000011.json'' = Some 11"
    "commit_file_version ''00000000000000000007.checkpoint.parquet'' = None"
    "commit_file_version ''_last_checkpoint'' = None"
    by (simp_all add: defs)
  then have r: "earliest_readable_commit example_listing = Some (11, 8)"
    by (simp add: earliest_readable_commit_def oldest_step_def example_listing_def)
  note least = earliest_readable_commit_least [of example_listing, unfolded r option.case prod.case]
  show ?thesis
    by (intro exI conjI) (rule r, rule refl, rule refl, rule conjunct2 [OF conjunct2 [OF least]])
qed

end
