(* ===== verification/Cutoff.thy ===== *)
theory Cutoff
  imports Errors BTree
begin

text \<open>
  \<open>src/dedup.rs\<close>, the coverage window as a commit records it: the reason, the source version it
  closes after and the columns its cut-off is kept per value of, written to and read back from the
  commit's metadata. \<open>Dedup\<close> and \<open>Rescan\<close> hold the rest of the
  file, the filter and the rescan.
\<close>

datatype coverage_reason = Rebuilt | Bootstrap | SourceReplaced

definition reason_as_str :: "coverage_reason \<Rightarrow> string" where
  "reason_as_str r =
     (case r of
        Rebuilt \<Rightarrow> ''rebuilt''
      | Bootstrap \<Rightarrow> ''bootstrap''
      | SourceReplaced \<Rightarrow> ''source_replaced'')"

definition reason_parse :: "string \<Rightarrow> coverage_reason option" where
  "reason_parse s =
     (if s = ''rebuilt'' then Some Rebuilt
      else if s = ''bootstrap'' then Some Bootstrap
      else if s = ''source_replaced'' then Some SourceReplaced
      else None)"

definition cutoff_reason_key :: string where
  "cutoff_reason_key = ''ddi.cutoff.reason''"

definition cutoff_source_through_key :: string where
  "cutoff_source_through_key = ''ddi.cutoff.sourceThrough''"

definition cutoff_partition_columns_key :: string where
  "cutoff_partition_columns_key = ''ddi.cutoff.partitionColumns''"

definition cutoff_partitioned_reason_suffix :: string where
  "cutoff_partitioned_reason_suffix = ''.partitioned''"

record recorded_cutoff =
  rc_reason :: coverage_reason
  rc_source_through :: "version option"
  rc_partition_columns :: "string list"

definition to_commit_metadata :: "recorded_cutoff \<Rightarrow> (string \<times> json) list" where
  "to_commit_metadata c =
     (let reason = (if rc_partition_columns c = [] then reason_as_str (rc_reason c)
                    else reason_as_str (rc_reason c) @ cutoff_partitioned_reason_suffix)
      in [(cutoff_reason_key, JStr reason)]
         @ (case rc_source_through c of
              Some through \<Rightarrow> [(cutoff_source_through_key, JInt (int through))]
            | None \<Rightarrow> [])
         @ (if rc_partition_columns c = [] then []
            else [(cutoff_partition_columns_key, JArr (map JStr (rc_partition_columns c)))]))"

text \<open>\<open>a.iter().map(..).collect::<Option<Vec<_>>>()\<close>.\<close>

fun collect_opt :: "('a \<Rightarrow> 'b option) \<Rightarrow> 'a list \<Rightarrow> 'b list option" where
  "collect_opt f [] = Some []"
| "collect_opt f (x # xs) =
     Option.bind (f x) (\<lambda>y. map_option ((#) y) (collect_opt f xs))"

definition read_source_through :: "(string \<Rightarrow> json option) \<Rightarrow> version option option" where
  "read_source_through info =
     (case info cutoff_source_through_key of
        None \<Rightarrow> Some None
      | Some v \<Rightarrow> map_option Some (as_u64 v))"

definition read_partition_columns :: "(string \<Rightarrow> json option) \<Rightarrow> string list option" where
  "read_partition_columns info =
     (case info cutoff_partition_columns_key of
        None \<Rightarrow> Some []
      | Some v \<Rightarrow> Option.bind (as_array v) (collect_opt as_str))"

definition from_commit_info :: "(string \<Rightarrow> json option) \<Rightarrow> recorded_cutoff option" where
  "from_commit_info info =
     Option.bind (info cutoff_reason_key) (\<lambda>raw.
       let (base, partitioned) =
             (case as_str raw of
                Some t \<Rightarrow>
                  (case strip_suffix cutoff_partitioned_reason_suffix t of
                     Some base \<Rightarrow> (Some base, True)
                   | None \<Rightarrow> (Some t, False))
              | None \<Rightarrow> (None, False))
       in Option.bind (Option.bind base reason_parse) (\<lambda>reason.
            Option.bind (read_source_through info) (\<lambda>source_through.
              Option.bind (read_partition_columns info) (\<lambda>partition_columns.
                if partitioned = (partition_columns = []) then None
                else Some \<lparr>rc_reason = reason, rc_source_through = source_through,
                           rc_partition_columns = partition_columns\<rparr>))))"

lemma collect_opt_JStr [simp]: "collect_opt as_str (map JStr xs) = Some xs"
  by (induction xs) simp_all

lemma reason_parse_as_str [simp]: "reason_parse (reason_as_str r) = Some r"
  by (cases r) (simp_all add: reason_as_str_def reason_parse_def)

lemma reason_not_partitioned [simp]:
  "strip_suffix cutoff_partitioned_reason_suffix (reason_as_str r) = None"
  by (cases r) (simp_all add: reason_as_str_def cutoff_partitioned_reason_suffix_def strip_suffix_def)

lemma reason_partitioned [simp]:
  "strip_suffix cutoff_partitioned_reason_suffix (reason_as_str r @ cutoff_partitioned_reason_suffix)
     = Some (reason_as_str r)"
  by simp

lemma cutoff_keys_distinct [simp]:
  "cutoff_reason_key \<noteq> cutoff_source_through_key" "cutoff_source_through_key \<noteq> cutoff_reason_key"
  "cutoff_reason_key \<noteq> cutoff_partition_columns_key" "cutoff_partition_columns_key \<noteq> cutoff_reason_key"
  "cutoff_source_through_key \<noteq> cutoff_partition_columns_key"
  "cutoff_partition_columns_key \<noteq> cutoff_source_through_key"
  by (simp_all add: cutoff_reason_key_def cutoff_source_through_key_def cutoff_partition_columns_key_def)

lemma from_commit_info_cong:
  assumes "info cutoff_reason_key = info' cutoff_reason_key"
    and "info cutoff_source_through_key = info' cutoff_source_through_key"
    and "info cutoff_partition_columns_key = info' cutoff_partition_columns_key"
  shows "from_commit_info info = from_commit_info info'"
  using assms by (simp add: from_commit_info_def read_source_through_def read_partition_columns_def)

lemma from_to_commit_metadata:
  assumes "case rc_source_through c of None \<Rightarrow> True | Some v \<Rightarrow> u64 v"
  shows "from_commit_info (map_of (to_commit_metadata c)) = Some c"
  using assms
  by (cases c; cases "rc_source_through c"; cases "rc_partition_columns c = []")
    (auto simp: from_commit_info_def to_commit_metadata_def read_source_through_def
      read_partition_columns_def u64_def)

text \<open>
  A coverage window survives a restart in whichever form it was opened: what a commit records
  of it, among whatever other metadata that uses none of its keys, is read back as the same window;
  and a build from before the partitioned form, which knows the reason only by its plain
  name, takes a partitioned window for none rather than for an unpartitioned one.
\<close>

lemma recorded_cutoff_roundtrip:
  assumes "case rc_source_through c of None \<Rightarrow> True | Some v \<Rightarrow> u64 v"
    and "\<forall>k \<in> fst ` set other. k \<noteq> cutoff_reason_key \<and> k \<noteq> cutoff_source_through_key
           \<and> k \<noteq> cutoff_partition_columns_key"
  shows "from_commit_info (map_of (other @ to_commit_metadata c)) = Some c
    \<and> (rc_partition_columns c \<noteq> [] \<longrightarrow>
         Option.bind (Option.bind (map_of (to_commit_metadata c) cutoff_reason_key) as_str) reason_parse = None)"
proof -
  have none: "map_of other k = None"
    if "k = cutoff_reason_key \<or> k = cutoff_source_through_key \<or> k = cutoff_partition_columns_key" for k
    using assms(2) that by (auto simp: map_of_eq_None_iff)
  have "from_commit_info (map_of (other @ to_commit_metadata c)) = from_commit_info (map_of (to_commit_metadata c))"
    by (rule from_commit_info_cong) (simp_all add: map_add_def none split: option.split)
  moreover have "reason_parse (reason_as_str r @ cutoff_partitioned_reason_suffix) = None" for r
    by (cases r) (simp_all add: reason_as_str_def cutoff_partitioned_reason_suffix_def reason_parse_def)
  ultimately show ?thesis
    using from_to_commit_metadata [OF assms(1)] by (simp add: to_commit_metadata_def Let_def)
qed

lemma recorded_cutoff_roundtrip_witness:
  "from_commit_info (map_of ([(''ddi.appId'', JStr ''a'')]
      @ to_commit_metadata \<lparr>rc_reason = Rebuilt, rc_source_through = Some 7,
           rc_partition_columns = [''kafka_partition'']\<rparr>))
   = Some \<lparr>rc_reason = Rebuilt, rc_source_through = Some 7, rc_partition_columns = [''kafka_partition'']\<rparr>"
proof -
  let ?c = "\<lparr>rc_reason = Rebuilt, rc_source_through = Some 7, rc_partition_columns = [''kafka_partition'']\<rparr>"
  have "case rc_source_through ?c of None \<Rightarrow> True | Some v \<Rightarrow> u64 v" by (simp add: u64_def)
  moreover have "\<forall>k \<in> fst ` set [(''ddi.appId'', JStr ''a'')]. k \<noteq> cutoff_reason_key
      \<and> k \<noteq> cutoff_source_through_key \<and> k \<noteq> cutoff_partition_columns_key"
    by (simp add: cutoff_reason_key_def cutoff_source_through_key_def cutoff_partition_columns_key_def)
  ultimately show ?thesis using recorded_cutoff_roundtrip by blast
qed

end
