(* ===== verification/Spill.thy ===== *)
theory Spill
  imports Errors
begin

text \<open>
  \<open>src/spill.rs\<close>, the part that decides whether a failure is exhausted capacity: a DataFusion error
  by its variant or its text, an error of delta-rs by its text alone. The spill directory, its
  size limit and the runtimes built on it are the operating system's and DataFusion's.
\<close>

definition disk_exhausted :: string where
  "disk_exhausted = ''used disk space during the spilling process''"

definition spill_file_create :: string where
  "spill_file_create = ''Failed to create partition file''"

definition exhausted :: string where
  "exhausted = ''Resources exhausted:''"

text \<open>A \<open>DataFusionError\<close>: whether its root is \<open>ResourcesExhausted\<close>, and its text.\<close>

record datafusion_error =
  df_root_exhausted :: bool
  df_text :: string

definition capacity :: "string \<Rightarrow> string \<Rightarrow> error" where
  "capacity s ctx =
     (let which = (if str_contains disk_exhausted s then ''the process's spill budget''
                   else if str_contains spill_file_create s then ''the spill directory''
                   else ''a memory pool'')
      in E_Capacity (ctx @ '': '' @ s @ ''What ran out was '' @ which))"

definition df_is_capacity :: "datafusion_error \<Rightarrow> bool" where
  "df_is_capacity e \<longleftrightarrow> df_root_exhausted e \<or> str_contains spill_file_create (df_text e)
     \<or> str_contains disk_exhausted (df_text e)"

definition classify_datafusion :: "datafusion_error \<Rightarrow> string \<Rightarrow> error" where
  "classify_datafusion e ctx =
     (if \<not> df_is_capacity e then E_Transform (ctx @ '': '' @ df_text e)
      else capacity (df_text e) ctx)"

definition classify_delta :: "delta_error \<Rightarrow> string \<Rightarrow> error" where
  "classify_delta e ctx =
     (let s = delta_text e
      in if \<not> str_contains exhausted s \<and> \<not> str_contains disk_exhausted s then E_Delta e
         else capacity s ctx)"

lemma is_capacity_simps [simp]:
  "is_capacity (E_Capacity s)" "\<not> is_capacity (E_Delta e)" "\<not> is_capacity (E_Transform s)"
  by (simp_all add: is_capacity.simps)

lemma is_capacity_capacity [simp]: "is_capacity (capacity s ctx)"
  by (simp add: capacity_def Let_def)

lemma str_contains_iff: "str_contains p s \<longleftrightarrow> (\<exists>a b. s = a @ p @ b)"
proof (induction s)
  case Nil
  then show ?case by auto
next
  case (Cons c cs)
  have "(\<exists>a b. c # cs = a @ p @ b) \<longleftrightarrow> (\<exists>b. c # cs = p @ b) \<or> (\<exists>a b. cs = a @ p @ b)"
    by (metis append_Cons append_Nil append_eq_Cons_conv)
  with Cons.IH show ?case by (simp add: starts_with_iff)
qed

lemma classify_datafusion_capacity:
  "is_capacity (classify_datafusion e ctx) \<longleftrightarrow> df_is_capacity e"
  by (simp add: classify_datafusion_def)

lemma classify_delta_capacity:
  "is_capacity (classify_delta e ctx)
     \<longleftrightarrow> str_contains exhausted (delta_text e) \<or> str_contains disk_exhausted (delta_text e)"
  by (simp add: classify_delta_def Let_def)

text \<open>
  Exhausted capacity is recognised by what the failure says: of DataFusion's errors exactly those
  that exhausted a pool, filled the spill directory or could not create a spill file; of delta-rs's
  exactly those whose text names the first two. The same text about a spill file that cannot be
  created is capacity from the one and an ordinary, retried \<open>Delta\<close> error from the other.
\<close>

lemma capacity_recognised:
  "(is_capacity (classify_datafusion e ctx) \<longleftrightarrow>
      df_root_exhausted e \<or> str_contains spill_file_create (df_text e)
        \<or> str_contains disk_exhausted (df_text e))
   \<and> (is_capacity (classify_delta d ctx) \<longleftrightarrow>
        str_contains exhausted (delta_text d) \<or> str_contains disk_exhausted (delta_text d))
   \<and> (str_contains spill_file_create (delta_text d) \<and> \<not> str_contains exhausted (delta_text d)
        \<and> \<not> str_contains disk_exhausted (delta_text d) \<longrightarrow> classify_delta d ctx = E_Delta d)"
proof -
  have "classify_delta d ctx = E_Delta d"
    if "\<not> str_contains exhausted (delta_text d)" "\<not> str_contains disk_exhausted (delta_text d)"
    using that by (simp add: classify_delta_def)
  then show ?thesis
    using classify_datafusion_capacity [of e ctx] classify_delta_capacity [of d ctx]
    unfolding df_is_capacity_def by blast
qed

lemma capacity_recognised_witness:
  "classify_delta (DeltaError DK_Other ''Failed to create partition file at x'') ''merge''
     = E_Delta (DeltaError DK_Other ''Failed to create partition file at x'')
   \<and> is_capacity (classify_datafusion \<lparr>df_root_exhausted = False,
        df_text = ''Failed to create partition file at x''\<rparr> ''merge'')"
proof -
  let ?t = "''Failed to create partition file at x''"
  have "str_contains spill_file_create ?t" "\<not> str_contains exhausted ?t" "\<not> str_contains disk_exhausted ?t"
    by (simp_all add: spill_file_create_def exhausted_def disk_exhausted_def starts_with_def)
  then show ?thesis
    using capacity_recognised [of "\<lparr>df_root_exhausted = False, df_text = ?t\<rparr>" "''merge''"
        "DeltaError DK_Other ?t"] by simp
qed

end
