(* ===== verification/Fence_Names.thy ===== *)
theory Fence_Names
  imports Errors BTree
begin

text \<open>
  \<open>src/fence.rs\<close>, the part that reads no log: the \<open>txn\<close> appIds a Kafka pipeline writes under, the
  era of its offsets in a target, and the takeover of offsets kafka-delta-ingest may have written.
  A partition is an \<open>i32\<close>, an offset an \<open>i64\<close>; topics number their partitions from 0.
\<close>

section \<open>The names\<close>

definition txn_app_id :: "string \<Rightarrow> int \<Rightarrow> string" where
  "txn_app_id app_id p = app_id @ CHR ''-'' # show_int p"

definition takeover_marker_version :: int where
  "takeover_marker_version = 1"

definition kafka_txn_last_updated :: int where
  "kafka_txn_last_updated = 253402300799999"

definition takeover_marker_app_id :: "string \<Rightarrow> string" where
  "takeover_marker_app_id app_id = app_id @ ''.ddi''"

definition partition_of :: "string \<Rightarrow> string \<Rightarrow> int option" where
  "partition_of app_id tid =
     (case Option.bind (strip_prefix app_id tid) (strip_prefix ''-'') of
        None \<Rightarrow> None
      | Some digits \<Rightarrow>
          if digits = [] \<or> \<not> list_all is_digit digits then None else parse_digits_i32 digits)"

lemma partition_of_Some_iff:
  "partition_of app_id tid = Some p \<longleftrightarrow>
     (\<exists>d. tid = app_id @ CHR ''-'' # d \<and> d \<noteq> [] \<and> list_all is_digit d
        \<and> digits_value d < 2 ^ 31 \<and> p = int (digits_value d))"
  by (auto simp: partition_of_def parse_digits_i32_def bind_eq_Some_conv
      split: option.splits if_splits)

lemma partition_of_txn_app_id:
  "0 \<le> p \<Longrightarrow> p < 2 ^ 31 \<Longrightarrow> partition_of app_id (txn_app_id app_id p) = Some p"
  by (auto simp: partition_of_Some_iff txn_app_id_def show_int_def intro!: exI [of _ "show_nat (nat p)"])

lemma partition_of_nonneg: "partition_of app_id tid = Some p \<Longrightarrow> 0 \<le> p \<and> p < 2 ^ 31"
  by (auto simp: partition_of_Some_iff)

lemma partition_of_marker [simp]: "partition_of a (takeover_marker_app_id b) = None"
proof (cases "partition_of a (takeover_marker_app_id b)")
  case (Some p)
  then obtain d where d: "b @ ''.ddi'' = a @ CHR ''-'' # d" "d \<noteq> []" "list_all is_digit d"
    by (auto simp: partition_of_Some_iff takeover_marker_app_id_def)
  from d(1,2) have "last d = CHR ''i''"
    by (metis last_appendR last_ConsR list.distinct(1) last.simps append_Cons)
  moreover from d(2,3) have "is_digit (last d)" by (simp add: list_all_iff)
  ultimately show ?thesis by (simp add: is_digit_def)
qed

lemma txn_app_id_inject:
  assumes "0 \<le> p" "0 \<le> q"
  shows "txn_app_id a p = txn_app_id b q \<longleftrightarrow> a = b \<and> p = q"
proof
  assume eq: "txn_app_id a p = txn_app_id b q"
  have "rsplit_once CHR ''-'' (txn_app_id a p) = Some (a, show_nat (nat p))"
    "rsplit_once CHR ''-'' (txn_app_id b q) = Some (b, show_nat (nat q))"
    using assms by (simp_all add: txn_app_id_def show_int_def)
  with eq assms show "a = b \<and> p = q" by (metis eq_nat_nat_iff option.inject prod.inject show_nat_inject)
qed simp

lemma marker_inject [simp]: "takeover_marker_app_id a = takeover_marker_app_id b \<longleftrightarrow> a = b"
  by (simp add: takeover_marker_app_id_def)

lemma txn_app_id_not_marker: "0 \<le> p \<Longrightarrow> p < 2 ^ 31 \<Longrightarrow> txn_app_id a p \<noteq> takeover_marker_app_id b"
  by (metis option.distinct(1) partition_of_marker partition_of_txn_app_id)

text \<open>
  No two offsets share a \<open>txn\<close>: over any pipelines and partitions, each partition of each
  app tid has an appId of its own, which no takeover marker equals and which names exactly that
  partition to its own app tid and to no other.
\<close>

lemma txn_app_ids_separate:
  assumes "0 \<le> p" "p < 2 ^ 31" "0 \<le> q" "q < 2 ^ 31"
  shows "(txn_app_id a p = txn_app_id b q \<longleftrightarrow> a = b \<and> p = q)
    \<and> txn_app_id a p \<noteq> takeover_marker_app_id b
    \<and> (partition_of b (txn_app_id a p) = Some q \<longleftrightarrow> a = b \<and> p = q)"
proof -
  have "a = b \<and> p = q" if "partition_of b (txn_app_id a p) = Some q"
  proof -
    from that obtain d where d: "txn_app_id a p = b @ CHR ''-'' # d" "list_all is_digit d"
      "q = int (digits_value d)" by (auto simp: partition_of_Some_iff)
    have "CHR ''-'' \<notin> set d" using d(2) by (auto simp: list_all_iff is_digit_def)
    then have "rsplit_once CHR ''-'' (txn_app_id a p) = Some (b, d)" by (simp add: d(1))
    moreover have "rsplit_once CHR ''-'' (txn_app_id a p) = Some (a, show_nat (nat p))"
      using assms(1) by (simp add: txn_app_id_def show_int_def)
    ultimately show ?thesis using d(3) assms(1) by auto
  qed
  with assms show ?thesis by (auto simp: txn_app_id_inject txn_app_id_not_marker partition_of_txn_app_id)
qed

lemma txn_app_ids_separate_witness:
  "txn_app_id ''orders'' 11 \<noteq> txn_app_id ''orders-1'' 1
   \<and> partition_of ''orders'' (txn_app_id ''orders'' 11) = Some 11"
  using txn_app_ids_separate [of 11 1 "''orders''" "''orders-1''"]
    txn_app_ids_separate [of 11 11 "''orders''" "''orders''"] by simp

section \<open>One appId's state, and the era\<close>

text \<open>\<open>MessageMark\<close> and \<open>TxnState\<close>.\<close>

record message_mark =
  mk_offset :: int
  mk_timestamp_ms :: int
  mk_value_len :: nat

record txn_state =
  ts_version :: "int option"
  ts_mark :: "message_mark option"

definition default_txn_state :: txn_state where
  "default_txn_state = \<lparr>ts_version = None, ts_mark = None\<rparr>"

datatype era_kind = EraFresh | EraKdi | EraDdi

definition era :: "string \<Rightarrow> (string, txn_state) bmap \<Rightarrow> era_kind" where
  "era app_id txns =
     (let held = (\<lambda>tid. case bt_get txns tid of Some t \<Rightarrow> ts_version t \<noteq> None | None \<Rightarrow> False)
      in if held (takeover_marker_app_id app_id) then EraDdi
         else if list_ex (\<lambda>(tid, t). ts_version t \<noteq> None \<and> partition_of app_id tid \<noteq> None) txns
              then EraKdi
              else EraFresh)"

section \<open>Taking over\<close>

type_synonym partition = int

definition takeover_check ::
    "string \<Rightarrow> era_kind \<Rightarrow> bool \<Rightarrow> (partition, int option \<times> int) bmap \<Rightarrow> partition bset \<Rightarrow> unit res" where
  "takeover_check app_id e holds_rows partitions acknowledged =
     (case (case e of EraKdi \<Rightarrow> Some False
                    | EraFresh \<Rightarrow> if holds_rows then Some True else None
                    | EraDdi \<Rightarrow> None) of
        None \<Rightarrow> Inr ()
      | Some fresh \<Rightarrow>
          let missing = map fst (filter (\<lambda>(p, stored, high).
                stored = None \<and> high > 0 \<and> p \<notin> set acknowledged) partitions)
          in if missing = [] then Inr () else Inl (E_KafkaOffsetMissing app_id missing fresh))"

definition takeover_baseline ::
    "era_kind \<Rightarrow> (partition, int option) bmap \<Rightarrow> (partition, int) bmap \<Rightarrow> (partition, int) bmap option" where
  "takeover_baseline e stored explicit =
     (if e \<noteq> EraKdi then None
      else Some (bt_collect (bt_filter_map (\<lambda>p st.
             case (st, bt_get explicit p) of
               (Some offset, _) \<Rightarrow> Some offset
             | (None, Some nxt) \<Rightarrow> if nxt > 0 then Some (i64_sub nxt 1) else None
             | (None, None) \<Rightarrow> None) stored)))"

datatype no_txn_start =
    StartExplicit int
  | StartZero
  | StartUnavailable int int \<comment> \<open>\<open>wanted, low\<close>\<close>
  | StartRegressed int int \<comment> \<open>\<open>wanted, high\<close>\<close>

definition start_without_offset :: "int \<Rightarrow> int \<Rightarrow> int option \<Rightarrow> no_txn_start" where
  "start_without_offset low high explicit =
     (case explicit of
        Some wanted \<Rightarrow>
          if wanted < low then StartUnavailable wanted low
          else if wanted > high then StartRegressed wanted high
          else StartExplicit wanted
      | None \<Rightarrow> if low = 0 then StartZero else StartUnavailable 0 low)"

lemma takeover_baseline_get:
  "bt_wf stored \<Longrightarrow> takeover_baseline EraKdi stored explicit = Some a \<Longrightarrow>
     bt_get a p = Option.bind (bt_get stored p) (\<lambda>st. case (st, bt_get explicit p) of
         (Some offset, _) \<Rightarrow> Some offset
       | (None, Some nxt) \<Rightarrow> if nxt > 0 then Some (i64_sub nxt 1) else None
       | (None, None) \<Rightarrow> None)"
  by (auto simp: takeover_baseline_def bt_get_collect_wf bt_get_filter_map)

text \<open>
  Taking over from kafka-delta-ingest never re-reads what may be in the table: when the check
  of the open passes, the baseline re-asserts every stored offset at its value; and a
  partition of the topic without one whose topic holds messages has an explicit entry, is recorded
  one below an entry above 0, and does not start at offset 0 on its own even after the baseline.
\<close>

lemma takeover_accounts_for_every_partition:
  assumes "bt_wf partitions"
    and "takeover_check app_id EraKdi holds_rows partitions (bs_collect (bt_keys explicit)) = Inr ()"
    and "takeover_baseline EraKdi (map (\<lambda>e. (fst e, fst (snd e))) partitions) explicit = Some a"
    and "bt_get partitions p = Some (stored, high)"
  shows "(case stored of
      Some offset \<Rightarrow> bt_get a p = Some offset
    | None \<Rightarrow> high > 0 \<longrightarrow>
        (\<exists>s. bt_get explicit p = Some s
          \<and> (if s > 0 then bt_get a p = Some (i64_sub s 1)
             else bt_get a p = None \<and> (\<forall>low. start_without_offset low high (Some s) \<noteq> StartZero))))"
proof -
  have "bt_get (map (\<lambda>e. (fst e, fst (snd e))) partitions) p = Some stored"
    using assms(4) by (induction partitions) auto
  then have get: "bt_get a p = (case (stored, bt_get explicit p) of
         (Some offset, _) \<Rightarrow> Some offset
       | (None, Some nxt) \<Rightarrow> if nxt > 0 then Some (i64_sub nxt 1) else None
       | (None, None) \<Rightarrow> None)"
    using takeover_baseline_get [OF _ assms(3)] assms(1) by simp
  show ?thesis
  proof (cases stored)
    case (Some offset)
    with get show ?thesis by simp
  next
    case None
    show ?thesis
    proof (cases "high > 0")
      case True
      have "(p, stored, high) \<in> set partitions" using assms(1,4) by (simp add: bt_get_Some_iff)
      with assms(2) None True have "p \<in> fst ` set explicit"
        by (force simp: takeover_check_def Let_def filter_empty_conv split: if_splits)
      then obtain s where "bt_get explicit p = Some s" by (metis map_of_eq_None_iff option.exhaust)
      with get None show ?thesis by (simp add: start_without_offset_def)
    qed (simp add: None)
  qed
qed

lemma takeover_accounts_for_every_partition_witness:
  "takeover_check ''a'' EraKdi True [(0, Some 41, 42), (1, None, 7)] (bs_collect (bt_keys [(1, 5)])) = Inr ()
   \<and> (\<exists>a. takeover_baseline EraKdi [(0, Some 41), (1, None)] [(1, 5)] = Some a
        \<and> bt_get a 0 = Some 41 \<and> bt_get a 1 = Some 4)"
proof -
  let ?ps = "[(0, Some 41, 42), (1, None, 7)] :: (partition, int option \<times> int) bmap"
  let ?ex = "[(1, 5)] :: (partition, int) bmap"
  have wf: "bt_wf ?ps" by (simp add: bt_wf_def)
  have c: "takeover_check ''a'' EraKdi True ?ps (bs_collect (bt_keys ?ex)) = Inr ()"
    by (simp add: takeover_check_def)
  obtain a where a: "takeover_baseline EraKdi (map (\<lambda>e. (fst e, fst (snd e))) ?ps) ?ex = Some a"
    by (simp add: takeover_baseline_def)
  have g: "bt_get ?ps 0 = Some (Some 41, 42)" "bt_get ?ps 1 = Some (None, 7)" by simp_all
  from takeover_accounts_for_every_partition [OF wf c a g(1)]
    takeover_accounts_for_every_partition [OF wf c a g(2)] a c
  show ?thesis by (simp add: i64_def)
qed

end
