(* ===== verification/Sink.thy ===== *)
theory Sink
  imports Fence_Names Cutoff Spill
begin

text \<open>
  \<open>src/sink.rs\<close>: what a commit records beside its rows, and the two ways rows are written. The
  write and the merge themselves are delta-rs's: \<open>delta_ops\<close>, a parameter of the operations that
  use them. Arrow batches are opaque rows.
\<close>

section \<open>What a commit carries\<close>

text \<open>\<open>Transaction\<close> and \<open>CommitProperties\<close> of delta-rs, as plain data.\<close>

record transaction =
  tx_app_id :: string
  tx_version :: int
  tx_last_updated :: "int option"

record commit_properties =
  cp_transactions :: "transaction list"
  cp_metadata :: "(string \<times> json) list"
  cp_cleanup_expired_logs :: "bool option"

record lookup_commit =
  lc_name :: string
  lc_version :: int
  lc_table_id :: "string option"
  lc_used_pre_history :: bool
  lc_used_current :: bool

record kafka_offsets =
  ko_topic :: string
  ko_group_id :: string
  ko_ranges :: "(partition, int \<times> int) bmap"
  ko_assert :: "(partition, int) bmap"
  ko_marks :: "(partition, message_mark) bmap"
  ko_cleanup_logs :: bool
  ko_baseline :: bool
  ko_override_reason :: "string option"
  ko_takeover_marker :: bool

datatype offsets = OffsetVersion int | OffsetKafka kafka_offsets

section \<open>Protecting checkpoints\<close>

text \<open>
  \<open>fence::protects_checkpoints\<close>; \<open>None\<close> is a handle with no snapshot or a protocol that does not
  serialise.
\<close>

definition protects_checkpoints :: "json option \<Rightarrow> bool" where
  "protects_checkpoints protocol =
     (case protocol of
        None \<Rightarrow> True
      | Some p \<Rightarrow>
          (case Option.bind (json_get ''writerFeatures'' p) as_array of
             None \<Rightarrow> False
           | Some features \<Rightarrow> list_ex (\<lambda>f. as_str f = Some ''checkpointProtection'') features))"

section \<open>The sink\<close>

record sink =
  sk_app_id :: string
  sk_target_file_size :: "nat option"
  sk_source_identity :: "(version \<times> string) option"
  sk_lookup_snapshots :: "lookup_commit list"
  sk_cutoff :: "recorded_cutoff option"

definition sink_new :: "string \<Rightarrow> nat \<Rightarrow> sink" where
  "sink_new app_id target_file_size =
     \<lparr>sk_app_id = app_id,
      sk_target_file_size = (if target_file_size = 0 then None else Some target_file_size),
      sk_source_identity = None, sk_lookup_snapshots = [], sk_cutoff = None\<rparr>"

definition set_source_identity :: "(version \<times> string) option \<Rightarrow> sink \<Rightarrow> sink" where
  "set_source_identity i s = s\<lparr>sk_source_identity := i\<rparr>"

definition set_cutoff :: "recorded_cutoff option \<Rightarrow> sink \<Rightarrow> sink" where
  "set_cutoff c s = s\<lparr>sk_cutoff := c\<rparr>"

text \<open>A \<open>LookupSnapshot\<close> as far as the sink records it; \<open>version as i64\<close> wraps.\<close>

definition set_lookup_snapshots ::
    "(string \<times> version \<times> string option \<times> bool \<times> bool) list \<Rightarrow> sink \<Rightarrow> sink" where
  "set_lookup_snapshots snapshots s =
     s\<lparr>sk_lookup_snapshots := map (\<lambda>(name, v, table_id, pre, cur).
         \<lparr>lc_name = name, lc_version = wrap_i64 (int v), lc_table_id = table_id,
          lc_used_pre_history = pre, lc_used_current = cur\<rparr>) snapshots\<rparr>"

definition lookup_metadata :: "lookup_commit \<Rightarrow> (string \<times> json) list" where
  "lookup_metadata l =
     (let prefix = ''ddi.lookup.'' @ lc_name l
      in [(prefix @ ''.version'', JInt (lc_version l))]
         @ (case lc_table_id l of Some i \<Rightarrow> [(prefix @ ''.tableId'', JStr i)] | None \<Rightarrow> [])
         @ (if lc_used_pre_history l then [(prefix @ ''.preHistory'', JBool True)] else [])
         @ (if lc_used_current l then [(prefix @ ''.current'', JBool True)] else []))"

definition properties :: "sink \<Rightarrow> json option \<Rightarrow> int \<Rightarrow> commit_properties" where
  "properties s protocol source_version =
     (let metadata =
        [(''ddi.sourceVersion'', JInt source_version), (''ddi.appId'', JStr (sk_app_id s))]
        @ (case sk_source_identity s of
             Some (v, i) \<Rightarrow> [(''ddi.sourceTableId'', JStr i), (''ddi.sourceTableIdVersion'', JInt (int v))]
           | None \<Rightarrow> [])
        @ concat (map lookup_metadata (sk_lookup_snapshots s))
        @ (case sk_cutoff s of Some c \<Rightarrow> to_commit_metadata c | None \<Rightarrow> [])
      in \<lparr>cp_transactions = [\<lparr>tx_app_id = sk_app_id s, tx_version = source_version, tx_last_updated = None\<rparr>],
          cp_metadata = metadata,
          cp_cleanup_expired_logs = (if protects_checkpoints protocol then Some False else None)\<rparr>)"

definition kafka_txn :: "string \<Rightarrow> int \<Rightarrow> transaction" where
  "kafka_txn app_id v =
     \<lparr>tx_app_id = app_id, tx_version = v, tx_last_updated = Some kafka_txn_last_updated\<rparr>"

definition mark_json :: "message_mark \<Rightarrow> json" where
  "mark_json m = JArr [JInt (mk_offset m), JInt (mk_timestamp_ms m), JInt (int (mk_value_len m))]"

definition kafka_properties :: "sink \<Rightarrow> json option \<Rightarrow> kafka_offsets \<Rightarrow> commit_properties" where
  "kafka_properties s protocol o' =
     (let txns = map (\<lambda>(p, last). kafka_txn (txn_app_id (sk_app_id s) p) last) (ko_assert o')
            @ (if ko_takeover_marker o'
               then [kafka_txn (takeover_marker_app_id (sk_app_id s)) takeover_marker_version] else []);
          ranges = bt_collect (map (\<lambda>(p, first, last). (show_int p, JArr [JInt first, JInt last])) (ko_ranges o'));
          marks = bt_collect (map (\<lambda>(p, m). (show_int p, mark_json m)) (ko_marks o'));
          metadata =
            [(''ddi.appId'', JStr (sk_app_id s)),
             (''ddi.kafka.topic'', JStr (ko_topic o')),
             (''ddi.kafka.groupId'', JStr (ko_group_id o')),
             (''ddi.kafka.offsets'', JObj ranges),
             (''ddi.kafka.marks'', JObj marks)]
            @ (if ko_baseline o' then [(''ddi.kafka.baseline'', JBool True)] else [])
            @ (case ko_override_reason o' of
                 Some reason \<Rightarrow> [(''ddi.kafka.offsetOverride'', JStr reason)] | None \<Rightarrow> [])
      in \<lparr>cp_transactions = txns, cp_metadata = metadata,
          cp_cleanup_expired_logs = Some (ko_cleanup_logs o' \<and> \<not> protects_checkpoints protocol)\<rparr>)"

section \<open>Writing\<close>

record merge_plan =
  mp_predicate :: string
  mp_newer_than_stored :: string
  mp_update_columns :: "string list"
  mp_insert_columns :: "string list"
  mp_window_bounded :: bool
  mp_window_clamped :: bool

record merge_metrics =
  mm_updated :: nat
  mm_inserted :: nat
  mm_files_scanned :: nat

text \<open>
  delta-rs: \<open>do_write\<close> is \<open>table.write(batches)\<close> with \<open>SaveMode::Append\<close>, casts that fail and the
  target file size; \<open>do_merge\<close> the merge of \<open>MergePlan\<close>, after \<open>prepare_merge\<close> has registered the
  batch and built its clauses. \<open>table_txn\<close> is what a table answers for an appId.
\<close>

record ('tbl, 'rows) delta_ops =
  table_version :: "'tbl \<Rightarrow> version option"
  table_protocol :: "'tbl \<Rightarrow> json option"
  table_txn :: "'tbl \<Rightarrow> string \<Rightarrow> int option"
  new_session :: "'tbl \<Rightarrow> unit res"
  do_write :: "'tbl \<Rightarrow> 'rows list \<Rightarrow> commit_properties \<Rightarrow> nat option \<Rightarrow> delta_error + 'tbl"
  prepare_merge :: "'tbl \<Rightarrow> 'rows \<Rightarrow> merge_plan \<Rightarrow> unit res"
  do_merge :: "'tbl \<Rightarrow> 'rows \<Rightarrow> merge_plan \<Rightarrow> commit_properties \<Rightarrow> delta_error + ('tbl \<times> merge_metrics)"
  num_rows :: "'rows \<Rightarrow> nat"
  empty_like :: "'rows \<Rightarrow> 'rows"

definition sink_write ::
    "('tbl, 'rows) delta_ops \<Rightarrow> sink \<Rightarrow> 'tbl \<Rightarrow> 'rows list \<Rightarrow> commit_properties \<Rightarrow> 'tbl res" where
  "sink_write ops s table batches props =
     res_bind (new_session ops table) (\<lambda>_.
       case do_write ops table batches props (sk_target_file_size s) of
         Inl e \<Rightarrow> Inl (classify_delta e ''append: writing the batch'')
       | Inr t \<Rightarrow> Inr t)"

definition sink_commit ::
    "('tbl, 'rows) delta_ops \<Rightarrow> sink \<Rightarrow> 'tbl \<Rightarrow> 'rows list \<Rightarrow> int \<Rightarrow> 'tbl res" where
  "sink_commit ops s table batches source_version =
     sink_write ops s table batches (properties s (table_protocol ops table) source_version)"

definition commit_kafka ::
    "('tbl, 'rows) delta_ops \<Rightarrow> sink \<Rightarrow> 'tbl \<Rightarrow> 'rows list \<Rightarrow> kafka_offsets \<Rightarrow> 'tbl res" where
  "commit_kafka ops s table batches o' =
     sink_write ops s table batches (kafka_properties s (table_protocol ops table) o')"

record upsert_stats =
  us_rows_in :: nat
  us_updated :: nat
  us_inserted :: nat
  us_files_scanned :: nat
  us_committed :: bool
  us_window_bounded :: bool
  us_window_clamped :: bool
  us_queue_millis :: nat
  us_merge_millis :: nat

definition rows_written :: "upsert_stats \<Rightarrow> nat" where
  "rows_written st = u64_add (us_updated st) (us_inserted st)"

definition upsert ::
    "('tbl, 'rows) delta_ops \<Rightarrow> sink \<Rightarrow> 'tbl \<Rightarrow> 'rows \<Rightarrow> int \<Rightarrow> merge_plan \<Rightarrow> ('tbl \<times> upsert_stats) res" where
  "upsert ops s table batch source_version plan =
     (let before = table_version ops table
      in res_bind (new_session ops table) (\<lambda>_.
         res_bind (prepare_merge ops table batch plan) (\<lambda>_.
           case do_merge ops table batch plan (properties s (table_protocol ops table) source_version) of
             Inl e \<Rightarrow> Inl (classify_delta e ''upsert: merging into the target'')
           | Inr (t, metrics) \<Rightarrow>
               let stats = \<lparr>us_rows_in = num_rows ops batch, us_updated = mm_updated metrics,
                     us_inserted = mm_inserted metrics, us_files_scanned = mm_files_scanned metrics,
                     us_committed = (table_version ops t \<noteq> before),
                     us_window_bounded = mp_window_bounded plan, us_window_clamped = mp_window_clamped plan,
                     us_queue_millis = 0, us_merge_millis = 0\<rparr>
               in if us_committed stats then Inr (t, stats)
                  else res_bind (sink_commit ops s t [empty_like ops batch] source_version)
                         (\<lambda>t'. Inr (t', stats)))))"

text \<open>\<open>quoted\<close>: a column name for the planner, quotes doubled.\<close>

definition quoted :: "string \<Rightarrow> string" where
  "quoted name =
     CHR 0x22 # concat (map (\<lambda>c. if c = CHR 0x22 then [c, c] else [c]) name) @ [CHR 0x22]"

section \<open>What delta-rs promises\<close>

text \<open>
  The documented behaviour the sink relies on: a write that succeeds has committed its \<open>txn\<close>
  actions; a merge that succeeds has committed them too, or produced no file action, and then has
  written no commit and left the table where it was.
\<close>

definition txn_after :: "commit_properties \<Rightarrow> (string \<Rightarrow> int option) \<Rightarrow> string \<Rightarrow> int option" where
  "txn_after props before =
     before ++ map_of (rev (map (\<lambda>t. (tx_app_id t, tx_version t)) (cp_transactions props)))"

definition delta_ops_ok :: "('tbl, 'rows) delta_ops \<Rightarrow> bool" where
  "delta_ops_ok ops \<longleftrightarrow>
     (\<forall>t rows props size t'. do_write ops t rows props size = Inr t' \<longrightarrow>
        table_txn ops t' = txn_after props (table_txn ops t))
     \<and> (\<forall>t rows plan props t' m. do_merge ops t rows plan props = Inr (t', m) \<longrightarrow>
          (if table_version ops t' \<noteq> table_version ops t
           then table_txn ops t' = txn_after props (table_txn ops t)
           else t' = t))"

lemma sink_write_txn:
  "delta_ops_ok ops \<Longrightarrow> sink_write ops s t rows props = Inr t' \<Longrightarrow>
     table_txn ops t' = txn_after props (table_txn ops t)"
  by (auto simp: sink_write_def delta_ops_ok_def split: sum.splits)

lemma properties_txn: "txn_after (properties s protocol v) before = before(sk_app_id s \<mapsto> v)"
  by (simp add: txn_after_def properties_def Let_def)

lemma sink_commit_txn:
  assumes "delta_ops_ok ops" and "sink_commit ops s t rows v = Inr t'"
  shows "table_txn ops t' = (table_txn ops t)(sk_app_id s \<mapsto> v)"
  using sink_write_txn [OF assms(1)] assms(2) by (simp add: sink_commit_def properties_txn)

lemma upsert_txn:
  assumes ok: "delta_ops_ok ops" and up: "upsert ops s t batch v plan = Inr (t', stats)"
  shows "table_txn ops t' = (table_txn ops t)(sk_app_id s \<mapsto> v)"
proof -
  from up obtain u m where merge: "do_merge ops t batch plan (properties s (table_protocol ops t) v) = Inr (u, m)"
    and rest: "if table_version ops u \<noteq> table_version ops t then t' = u
      else sink_commit ops s u [empty_like ops batch] v = Inr t'"
    by (auto simp: upsert_def Let_def split: sum.splits if_splits)
  show ?thesis
  proof (cases "table_version ops u = table_version ops t")
    case True
    with merge ok have "u = t" unfolding delta_ops_ok_def by metis
    with rest True sink_commit_txn [OF ok] show ?thesis by auto
  next
    case False
    with merge ok have "table_txn ops u = txn_after (properties s (table_protocol ops t) v) (table_txn ops t)"
      unfolding delta_ops_ok_def by metis
    with rest False show ?thesis by (simp add: properties_txn)
  qed
qed

text \<open>
  The offset moves with every batch, whichever way it is written: a commit that succeeds and an
  upsert that succeeds both leave the target recording exactly the batch's source version under
  the pipeline's app id and every other \<open>txn\<close> as it was, the upsert even when its merge changed
  nothing and delta-rs therefore wrote no commit at all.
\<close>

lemma every_write_records_its_offset:
  assumes "delta_ops_ok ops"
  shows "(sink_commit ops s t rows v = Inr t1 \<longrightarrow> table_txn ops t1 = (table_txn ops t)(sk_app_id s \<mapsto> v))
    \<and> (upsert ops s t batch v plan = Inr (t2, stats) \<longrightarrow>
         table_txn ops t2 = (table_txn ops t)(sk_app_id s \<mapsto> v))"
  using sink_commit_txn [OF assms] upsert_txn [OF assms] by blast

text \<open>A target to evaluate the sink on: its version and its \<open>txn\<close>s; a merge of an empty batch commits nothing.\<close>

definition example_ops :: "(version \<times> (string \<Rightarrow> int option), nat list) delta_ops" where
  "example_ops =
     \<lparr>table_version = (\<lambda>t. Some (fst t)), table_protocol = (\<lambda>_. Some (JObj [])), table_txn = snd,
      new_session = (\<lambda>_. Inr ()),
      do_write = (\<lambda>t rows props size. Inr (Suc (fst t), txn_after props (snd t))),
      prepare_merge = (\<lambda>_ _ _. Inr ()),
      do_merge = (\<lambda>t rows plan props.
        Inr (if rows = [] then t else (Suc (fst t), txn_after props (snd t)),
             \<lparr>mm_updated = 0, mm_inserted = length rows, mm_files_scanned = 0\<rparr>)),
      num_rows = length, empty_like = (\<lambda>_. [])\<rparr>"

definition example_plan :: merge_plan where
  "example_plan = \<lparr>mp_predicate = ''p'', mp_newer_than_stored = ''n'', mp_update_columns = [],
     mp_insert_columns = [], mp_window_bounded = True, mp_window_clamped = False\<rparr>"

lemma every_write_records_its_offset_witness:
  "\<exists>t stats. upsert example_ops (sink_new ''a'' 0) (7, Map.empty) [] 42 example_plan = Inr (t, stats)
     \<and> \<not> us_committed stats \<and> table_txn example_ops t = [''a'' \<mapsto> 42]"
proof -
  have ok: "delta_ops_ok example_ops" by (auto simp: delta_ops_ok_def example_ops_def)
  obtain t stats where up: "upsert example_ops (sink_new ''a'' 0) (7, Map.empty) [] 42 example_plan = Inr (t, stats)"
    "\<not> us_committed stats"
    by (simp add: upsert_def example_ops_def example_plan_def sink_commit_def sink_write_def)
  have "table_txn example_ops (7, Map.empty) = Map.empty" by (simp add: example_ops_def)
  with every_write_records_its_offset [OF ok, of "sink_new ''a'' 0" "(7, Map.empty)" "[]" 42 _ "[]" example_plan t stats] up
  show ?thesis by (auto simp: sink_new_def)
qed

text \<open>
  No commit of either kind cleans up the log of a table that protects its checkpoints, or of
  one whose protocol cannot be read; and a Kafka commit always says whether it cleans up.
\<close>

lemma protected_log_is_never_cleaned:
  "(protects_checkpoints protocol \<longrightarrow>
      cp_cleanup_expired_logs (properties s protocol v) = Some False
      \<and> cp_cleanup_expired_logs (kafka_properties s protocol o') = Some False)
   \<and> protects_checkpoints None
   \<and> cp_cleanup_expired_logs (kafka_properties s protocol o') \<noteq> None"
  by (simp add: properties_def kafka_properties_def Let_def protects_checkpoints_def)

lemma protected_log_is_never_cleaned_witness:
  "cp_cleanup_expired_logs (properties (sink_new ''a'' 0)
     (Some (JObj [(''writerFeatures'', JArr [JStr ''checkpointProtection''])])) 3) = Some False"
proof -
  have "protects_checkpoints (Some (JObj [(''writerFeatures'', JArr [JStr ''checkpointProtection''])]))"
    by (simp add: protects_checkpoints_def)
  with protected_log_is_never_cleaned show ?thesis by blast
qed

end
