(* ===== verification/Fence_Read.thy ===== *)
theory Fence_Read
  imports Sink
begin

text \<open>
  \<open>src/fence.rs\<close>, the reading of offsets from a target's log: \<open>read_txns\<close> and what it is made of.
  A table handle, as one read sees it, is a \<open>handle\<close>: what delta-rs, the object store, the parquet
  reader and \<open>serde_json\<close> answer. The code keeps a few commit reads in flight and takes them in order;
  reading one after the other gives the same answers. The lookup counters only feed metrics and are
  left out.
\<close>

section \<open>Commit lines\<close>

text \<open>
  \<open>serde\<close>'s derived decoding of a struct: from an object by name, from an array by position; an
  \<open>Option\<close> field may be missing or null. A stream of values ends at the first one that fails.
\<close>

definition struct_fields :: "string list \<Rightarrow> json \<Rightarrow> json option list option" where
  "struct_fields keys j =
     (case j of
        JObj m \<Rightarrow> Some (map (map_of m) keys)
      | JArr xs \<Rightarrow> if length xs = length keys then Some (map Some xs) else None
      | _ \<Rightarrow> None)"

definition opt_field :: "(json \<Rightarrow> 'a option) \<Rightarrow> json option \<Rightarrow> 'a option option" where
  "opt_field decode x =
     (case x of
        None \<Rightarrow> Some None
      | Some JNull \<Rightarrow> Some None
      | Some j \<Rightarrow> map_option Some (decode j))"

record txn_action =
  ta_app_id :: string
  ta_version :: int

record commit_info =
  ci_app_id :: "json option"
  ci_marks :: "json option"

record log_line =
  ll_txn :: "txn_action option"
  ll_commit_info :: "commit_info option"

definition decode_txn :: "json \<Rightarrow> txn_action option" where
  "decode_txn j =
     (case struct_fields [''appId'', ''version''] j of
        Some [Some a, Some v] \<Rightarrow>
          (case (as_str a, as_i64 v) of
             (Some app_id, Some n) \<Rightarrow> Some \<lparr>ta_app_id = app_id, ta_version = n\<rparr>
           | _ \<Rightarrow> None)
      | _ \<Rightarrow> None)"

definition decode_commit_info :: "json \<Rightarrow> commit_info option" where
  "decode_commit_info j =
     (case struct_fields [''ddi.appId'', ''ddi.kafka.marks''] j of
        Some [a, m] \<Rightarrow>
          (case (opt_field Some a, opt_field Some m) of
             (Some app, Some marks) \<Rightarrow> Some \<lparr>ci_app_id = app, ci_marks = marks\<rparr>
           | _ \<Rightarrow> None)
      | _ \<Rightarrow> None)"

definition decode_log_line :: "json \<Rightarrow> log_line option" where
  "decode_log_line j =
     (case struct_fields [''txn'', ''commitInfo''] j of
        Some [t, i] \<Rightarrow>
          (case (opt_field decode_txn t, opt_field decode_commit_info i) of
             (Some txn, Some info) \<Rightarrow> Some \<lparr>ll_txn = txn, ll_commit_info = info\<rparr>
           | _ \<Rightarrow> None)
      | _ \<Rightarrow> None)"

text \<open>
  \<open>Deserializer::from_slice(..).into_iter::<T>()\<close>: the values decoded before the first failure,
  and whether there was one. \<open>json_stream\<close> is \<open>serde_json\<close>'s own part of it.
\<close>

fun typed_stream :: "(json \<Rightarrow> 'a option) \<Rightarrow> json list \<Rightarrow> bool \<Rightarrow> 'a list \<times> bool" where
  "typed_stream decode [] failed = ([], failed)"
| "typed_stream decode (j # js) failed =
     (case decode j of
        None \<Rightarrow> ([], True)
      | Some x \<Rightarrow> (case typed_stream decode js failed of (xs, f) \<Rightarrow> (x # xs, f)))"

section \<open>The handle\<close>

record object_meta =
  om_location :: "string list" \<comment> \<open>the segments of its path\<close>
  om_size :: nat

text \<open>
  The \<open>txn\<close> column of a parquet checkpoint: absent, or per record batch its rows, unless it is not
  a struct of a string \<open>appId\<close> and an integer \<open>version\<close>.
\<close>

record txn_row =
  tr_null :: bool
  tr_app_id :: "string option"
  tr_version :: "int option"

datatype txn_batch = BadColumn string | TxnRows "txn_row list"

record handle =
  h_version :: "version option"
  h_url :: string
  h_configuration :: "delta_error + (string \<times> string) list"
  h_can_write :: "string option" \<comment> \<open>why \<open>PROTOCOL.can_write_to\<close> refuses\<close>
  h_log_path :: "string list"
  h_read_commit_entry :: "version \<Rightarrow> delta_error + string option"
  h_list_with_offset :: "string \<Rightarrow> store_error + object_meta list"
  h_get :: "string list \<Rightarrow> store_error + string"
  h_head :: "string list \<Rightarrow> store_error + unit"
  h_txn_column :: "object_meta \<Rightarrow> string + txn_batch list option"
  h_transaction_version :: "string \<Rightarrow> delta_error + int option"
  h_json_stream :: "string \<Rightarrow> json list \<times> bool"
  h_metadata_column :: "object_meta \<Rightarrow> string + string option"

definition log_lines :: "handle \<Rightarrow> string \<Rightarrow> log_line list \<times> bool" where
  "log_lines h bytes = (case h_json_stream h bytes of (js, failed) \<Rightarrow> typed_stream decode_log_line js failed)"

definition store_error_of :: "store_error \<Rightarrow> error" where
  "store_error_of e = E_Delta (DeltaError (DK_ObjectStore e) [])"

definition not_loaded :: "handle \<Rightarrow> error" where
  "not_loaded h = E_Other ''the offsets were asked for on a handle that has not loaded the table''"

definition missing_commit :: "handle \<Rightarrow> version \<Rightarrow> error" where
  "missing_commit h v = E_OffsetLogTruncated (h_url h) v"

definition txn_retention :: string where
  "txn_retention = ''delta.setTransactionRetentionDuration''"

definition column_mapping_mode :: string where
  "column_mapping_mode = ''delta.columnMapping.mode''"

definition refuse_txn_retention :: "handle \<Rightarrow> unit res" where
  "refuse_txn_retention h =
     (case h_configuration h of
        Inl e \<Rightarrow> Inl (E_Delta e)
      | Inr conf \<Rightarrow>
          (case find (\<lambda>(key, _). eq_ignore_ascii_case key txn_retention) conf of
             None \<Rightarrow> Inr ()
           | Some (_, retention) \<Rightarrow> Inl (E_KafkaTxnRetention (h_url h) retention)))"

definition refuse_unwritable_protocol :: "handle \<Rightarrow> unit res" where
  "refuse_unwritable_protocol h =
     (case h_configuration h of
        Inl e \<Rightarrow> Inl (E_Delta e)
      | Inr conf \<Rightarrow>
          (case h_can_write h of
             Some why \<Rightarrow> Inl (E_TargetProtocolUnsupported (h_url h) why)
           | None \<Rightarrow>
               (case opt_filter (\<lambda>m. \<not> eq_ignore_ascii_case m ''none'') (map_of conf column_mapping_mode) of
                  Some mode \<Rightarrow> Inl (E_TargetProtocolUnsupported (h_url h) (''it uses column mapping '' @ mode))
                | None \<Rightarrow> Inr ())))"

section \<open>One commit\<close>

definition mark_for :: "json option \<Rightarrow> string \<Rightarrow> txn_action \<Rightarrow> message_mark option" where
  "mark_for marks app_id txn =
     Option.bind (map_option show_int (partition_of app_id (ta_app_id txn))) (\<lambda>p.
     Option.bind marks (\<lambda>ms.
     Option.bind (json_get p ms) (\<lambda>entry.
     Option.bind (as_array entry) (\<lambda>xs.
       case xs of
         [offset, timestamp_ms, value_len] \<Rightarrow>
           Option.bind (as_i64 offset) (\<lambda>off.
           Option.bind (as_i64 timestamp_ms) (\<lambda>ts.
           Option.bind (opt_filter (\<lambda>n. n < 2 ^ 32) (as_u64 value_len)) (\<lambda>len.
             if off = ta_version txn
             then Some \<lparr>mk_offset = off, mk_timestamp_ms = ts, mk_value_len = len\<rparr>
             else None)))
       | _ \<Rightarrow> None))))"

text \<open>The loop over the lines: the wanted \<open>txn\<close>s nobody newer wrote, and the last commitInfo.\<close>

fun collect_lines ::
    "string bset \<Rightarrow> (string, txn_state) bmap \<Rightarrow> log_line list \<Rightarrow> txn_action list \<times> commit_info option
       \<Rightarrow> txn_action list \<times> commit_info option" where
  "collect_lines wanted found [] acc = acc"
| "collect_lines wanted found (l # ls) (txns, info) =
     (let txns' = (case ll_txn l of
            Some t \<Rightarrow> if ta_app_id t \<in> set wanted \<and> \<not> bt_mem (ta_app_id t) found then txns @ [t] else txns
          | None \<Rightarrow> txns);
          info' = (if ll_commit_info l \<noteq> None then ll_commit_info l else info)
      in collect_lines wanted found ls (txns', info'))"

definition txn_state_of :: "commit_info option \<Rightarrow> txn_action \<Rightarrow> txn_state" where
  "txn_state_of info txn =
     (let ddi_app_id = Option.bind (Option.bind info ci_app_id) as_str;
          marks = Option.bind info ci_marks
      in \<lparr>ts_version = Some (ta_version txn),
          ts_mark = Option.bind ddi_app_id (\<lambda>app_id. mark_for marks app_id txn)\<rparr>)"

definition record_commit ::
    "handle \<Rightarrow> string \<Rightarrow> string bset \<Rightarrow> (string, txn_state) bmap \<Rightarrow> (string, txn_state) bmap res" where
  "record_commit h bytes wanted found =
     (case log_lines h bytes of
        (ls, True) \<Rightarrow> Inl (E_Other ''cannot read the offsets: a commit is not valid JSON'')
      | (ls, False) \<Rightarrow>
          (case collect_lines wanted found ls ([], None) of
             (txns, info) \<Rightarrow>
               Inr (foldl (\<lambda>f t. bt_insert (ta_app_id t) (txn_state_of info t) f) found txns)))"

definition may_carry_a_mark :: "string \<Rightarrow> bool" where
  "may_carry_a_mark app_id \<longleftrightarrow>
     (case rsplit_once CHR ''-'' app_id of
        None \<Rightarrow> False
      | Some (a, p) \<Rightarrow> partition_of a app_id \<noteq> None \<and> p \<noteq> [])"

section \<open>Checkpoints\<close>

record checkpoint =
  ck_version :: version
  ck_files :: "object_meta list"

datatype checkpoint_kind = CkSingle | CkUuid | CkPart nat nat

definition checkpoint_kind_of :: "string list \<Rightarrow> checkpoint_kind option" where
  "checkpoint_kind_of rest =
     (case rest of
        [c, a] \<Rightarrow> if c = ''checkpoint'' \<and> a = ''parquet'' then Some CkSingle else None
      | [c, uuid, ext] \<Rightarrow>
          if c = ''checkpoint'' \<and> (ext = ''json'' \<or> ext = ''parquet'') \<and> length uuid = 36
          then Some CkUuid else None
      | [c, part, parts, ext] \<Rightarrow>
          if c = ''checkpoint'' \<and> ext = ''parquet'' \<and> length part = 10 \<and> length parts = 10 then
            (case (parse_u32 part, parse_u32 parts) of
               (Some i, Some n) \<Rightarrow> if i = 0 \<or> i > n then None else Some (CkPart i n)
             | _ \<Rightarrow> None)
          else None
      | _ \<Rightarrow> None)"

definition checkpoint_file :: "object_meta \<Rightarrow> string list \<Rightarrow> (version \<times> checkpoint_kind) option" where
  "checkpoint_file m log_path =
     (case strip_prefix log_path (om_location m) of
        Some [name] \<Rightarrow>
          (case split_on CHR ''.'' name of
             v # rest \<Rightarrow>
               if length v \<noteq> 20 then None
               else Option.bind (parse_u64 v) (\<lambda>version.
                      map_option (Pair version) (checkpoint_kind_of rest))
           | [] \<Rightarrow> None)
      | _ \<Rightarrow> None)"

definition complete_parts :: "(checkpoint_kind \<times> object_meta) list \<Rightarrow> (nat, (nat, object_meta) bmap) bmap" where
  "complete_parts files =
     foldl (\<lambda>sets (kind, m). case kind of
         CkPart part parts \<Rightarrow>
           bt_insert parts (bt_insert part m (case bt_get sets parts of Some s \<Rightarrow> s | None \<Rightarrow> [])) sets
       | _ \<Rightarrow> sets) [] files"

definition complete_checkpoint :: "version \<Rightarrow> (checkpoint_kind \<times> object_meta) list \<Rightarrow> checkpoint option" where
  "complete_checkpoint v files =
     (let single = (\<lambda>want. map_option (\<lambda>(_, m). \<lparr>ck_version = v, ck_files = [m]\<rparr>)
            (find (\<lambda>(kind, _). kind = want) files))
      in case single CkSingle of
           Some c \<Rightarrow> Some c
         | None \<Rightarrow>
             (case single CkUuid of
                Some c \<Rightarrow> Some c
              | None \<Rightarrow>
                  map_option (\<lambda>(_, s). \<lparr>ck_version = v, ck_files = map snd s\<rparr>)
                    (find (\<lambda>(parts, s). length s = parts) (complete_parts files))))"

definition by_version ::
    "handle \<Rightarrow> version \<Rightarrow> version \<Rightarrow> object_meta list \<Rightarrow> (version, (checkpoint_kind \<times> object_meta) list) bmap" where
  "by_version h from' to' listing =
     foldl (\<lambda>acc m. case checkpoint_file m (h_log_path h) of
         None \<Rightarrow> acc
       | Some (v, kind) \<Rightarrow>
           if from' \<le> v \<and> v \<le> to' \<and> om_size m > 0
           then bt_insert v ((case bt_get acc v of Some fs \<Rightarrow> fs | None \<Rightarrow> []) @ [(kind, m)]) acc
           else acc) [] listing"

fun find_map :: "('a \<Rightarrow> 'b option) \<Rightarrow> 'a list \<Rightarrow> 'b option" where
  "find_map f [] = None"
| "find_map f (x # xs) = (case f x of Some y \<Rightarrow> Some y | None \<Rightarrow> find_map f xs)"

definition checkpoint_between :: "handle \<Rightarrow> version \<Rightarrow> version \<Rightarrow> checkpoint option res" where
  "checkpoint_between h from' to' =
     (case h_list_with_offset h (pad20 from') of
        Inl e \<Rightarrow> Inl (store_error_of e)
      | Inr listing \<Rightarrow>
          Inr (find_map (\<lambda>(v, files). complete_checkpoint v files) (rev (by_version h from' to' listing))))"

definition listing_window :: nat where
  "listing_window = 1000"

definition decode_hint :: "json \<Rightarrow> version option" where
  "decode_hint j = (case struct_fields [''version''] j of Some [Some v] \<Rightarrow> as_u64 v | _ \<Rightarrow> None)"

definition last_checkpoint_hint :: "handle \<Rightarrow> version option res" where
  "last_checkpoint_hint h =
     (case h_get h (h_log_path h @ [''_last_checkpoint'']) of
        Inl OS_NotFound \<Rightarrow> Inr None
      | Inl e \<Rightarrow> Inl (store_error_of e)
      | Inr bytes \<Rightarrow>
          Inr (case h_json_stream h bytes of
                 ([j], False) \<Rightarrow> decode_hint j
               | _ \<Rightarrow> None))"

definition newest_checkpoint :: "handle \<Rightarrow> version \<Rightarrow> checkpoint option res" where
  "newest_checkpoint h v =
     res_bind (last_checkpoint_hint h) (\<lambda>hint.
       let from' = (case hint of
              Some n \<Rightarrow> if n \<le> v then n else v - (listing_window - 1)
            | None \<Rightarrow> v - (listing_window - 1))
       in res_bind (checkpoint_between h from' v) (\<lambda>found.
            case found of
              Some c \<Rightarrow> Inr (Some c)
            | None \<Rightarrow> if from' = 0 then Inr None else checkpoint_between h 0 v))"

text \<open>\<open>json_txns\<close> and \<open>parquet_txns\<close>; \<open>Inl\<close> is the reason a checkpoint cannot be read here.\<close>

definition json_txns :: "handle \<Rightarrow> object_meta \<Rightarrow> string + (string \<times> int) list" where
  "json_txns h m =
     (case h_get h (om_location m) of
        Inl _ \<Rightarrow> Inl ''the file cannot be read''
      | Inr bytes \<Rightarrow>
          (case log_lines h bytes of
             (_, True) \<Rightarrow> Inl ''it is not valid JSON''
           | (ls, False) \<Rightarrow>
               Inr (List.map_filter (\<lambda>l. map_option (\<lambda>t. (ta_app_id t, ta_version t)) (ll_txn l)) ls)))"

fun batch_txns :: "txn_row list \<Rightarrow> string + (string \<times> int) list" where
  "batch_txns [] = Inr []"
| "batch_txns (r # rs) =
     (if tr_null r then batch_txns rs
      else
        (case tr_app_id r of
           None \<Rightarrow> batch_txns rs
         | Some app_id \<Rightarrow>
             (case tr_version r of
                None \<Rightarrow> Inl ''its txn has no version''
              | Some v \<Rightarrow> res_bind (batch_txns rs) (\<lambda>ts. Inr ((app_id, v) # ts)))))"

definition parquet_txns :: "handle \<Rightarrow> object_meta \<Rightarrow> string + (string \<times> int) list" where
  "parquet_txns h m =
     (case h_txn_column h m of
        Inl why \<Rightarrow> Inl why
      | Inr None \<Rightarrow> Inl ''it has no txn column''
      | Inr (Some batches) \<Rightarrow>
          res_bind (collect_res (\<lambda>b. case b of BadColumn why \<Rightarrow> Inl why | TxnRows rows \<Rightarrow> batch_txns rows) batches)
            (\<lambda>tss. Inr (concat tss)))"

definition file_txns :: "handle \<Rightarrow> object_meta \<Rightarrow> string + (string \<times> int) list" where
  "file_txns h m =
     (if om_location m \<noteq> [] \<and> ends_with ''.json'' (last (om_location m)) then json_txns h m
      else parquet_txns h m)"

fun add_txns :: "string bset \<Rightarrow> (string \<times> int) list \<Rightarrow> (string, int) bmap \<Rightarrow> string + (string, int) bmap" where
  "add_txns wanted [] txns = Inr txns"
| "add_txns wanted ((i, v) # rest) txns =
     (if i \<notin> set wanted then add_txns wanted rest txns
      else
        (case bt_get txns i of
           Some other \<Rightarrow>
             if other \<noteq> v then Inl ''it holds two txns for one appId''
             else add_txns wanted rest (bt_insert i v txns)
         | None \<Rightarrow> add_txns wanted rest (bt_insert i v txns)))"

fun checkpoint_txns :: "handle \<Rightarrow> object_meta list \<Rightarrow> string bset \<Rightarrow> (string, int) bmap \<Rightarrow> string + (string, int) bmap" where
  "checkpoint_txns h [] wanted txns = Inr txns"
| "checkpoint_txns h (f # fs) wanted txns =
     res_bind (file_txns h f) (\<lambda>in_file.
       res_bind (add_txns wanted in_file txns) (checkpoint_txns h fs wanted))"

section \<open>Below a checkpoint\<close>

definition below_checkpoint_reads :: nat where
  "below_checkpoint_reads = 256"

record below_memo =
  bm_checkpoint :: "version option"
  bm_found :: "(string, int \<times> message_mark option) bmap"

definition default_memo :: below_memo where
  "default_memo = \<lparr>bm_checkpoint = None, bm_found = []\<rparr>"

type_synonym found = "(string, txn_state) bmap"

definition is_outage :: "delta_error \<Rightarrow> bool" where
  "is_outage e \<longleftrightarrow> delta_kind e = DK_ObjectStore OS_Generic \<or> delta_kind e = DK_ObjectStore OS_JoinError"

text \<open>\<open>answered.retain(..)\<close>: what the memo knows is taken from it.\<close>

fun take_from_memo :: "below_memo \<Rightarrow> string list \<Rightarrow> found \<Rightarrow> string list \<times> found" where
  "take_from_memo memo [] found = ([], found)"
| "take_from_memo memo (i # rest) found =
     (case bt_get found i of
        None \<Rightarrow> take_from_memo memo rest found
      | Some answer \<Rightarrow>
          (case bt_get (bm_found memo) i of
             Some (v, mark) \<Rightarrow>
               if ts_version answer = Some v
               then take_from_memo memo rest (bt_insert i (answer\<lparr>ts_mark := mark\<rparr>) found)
               else (case take_from_memo memo rest found of (is', f) \<Rightarrow> (i # is', f))
           | None \<Rightarrow> (case take_from_memo memo rest found of (is', f) \<Rightarrow> (i # is', f))))"

text \<open>One \<open>txn\<close> met below the checkpoint.\<close>

definition apply_met ::
    "string list \<times> found \<times> below_memo \<Rightarrow> string \<times> txn_state \<Rightarrow> string list \<times> found \<times> below_memo" where
  "apply_met st met =
     (case (st, met) of ((answered, found, memo), (i, written)) \<Rightarrow>
        let answered' = filter (\<lambda>x. x \<noteq> i) answered
        in case bt_get found i of
             None \<Rightarrow> (answered', found, memo)
           | Some answer \<Rightarrow>
               (case ts_version answer of
                  None \<Rightarrow> (answered', found, memo)
                | Some v \<Rightarrow>
                    let answer' = (if ts_version written = ts_version answer
                                   then answer\<lparr>ts_mark := ts_mark written\<rparr> else answer)
                    in (answered', bt_insert i answer' found,
                        memo\<lparr>bm_found := bt_insert i (v, ts_mark answer') (bm_found memo)\<rparr>)))"

fun below_loop ::
    "handle \<Rightarrow> version list \<Rightarrow> string list \<times> found \<times> below_memo
       \<Rightarrow> (string list \<times> found) res \<times> below_memo" where
  "below_loop h [] (answered, found, memo) = (Inr (answered, found), memo)"
| "below_loop h (v # vs) (answered, found, memo) =
     (case h_read_commit_entry h v of
        Inl e \<Rightarrow> if is_outage e then (Inl (E_Delta e), memo) else (Inr (answered, found), memo)
      | Inr None \<Rightarrow> (Inr (answered, found), memo)
      | Inr (Some bytes) \<Rightarrow>
          (case record_commit h bytes answered [] of
             Inl _ \<Rightarrow> (Inr (answered, found), memo)
           | Inr met \<Rightarrow>
               (case foldl apply_met (answered, found, memo) met of
                  (answered', found', memo') \<Rightarrow>
                    if answered' = [] then (Inr ([], found'), memo')
                    else below_loop h vs (answered', found', memo'))))"

definition remember_missing :: "string list \<Rightarrow> found \<Rightarrow> below_memo \<Rightarrow> below_memo" where
  "remember_missing answered found memo =
     foldl (\<lambda>m i. case Option.bind (bt_get found i) ts_version of
         Some v \<Rightarrow> m\<lparr>bm_found := bt_insert i (v, None) (bm_found m)\<rparr>
       | None \<Rightarrow> m) memo answered"

text \<open>The versions \<open>(floor..bottom).rev()\<close>.\<close>

definition down_from :: "version \<Rightarrow> version \<Rightarrow> version list" where
  "down_from hi lo = rev [lo..<hi]"

definition below_checkpoint ::
    "handle \<Rightarrow> version \<Rightarrow> string bset \<Rightarrow> found \<Rightarrow> below_memo \<Rightarrow> found res \<times> below_memo" where
  "below_checkpoint h bottom answered found memo0 =
     (let memo = (if bm_checkpoint memo0 \<noteq> Some bottom
                  then \<lparr>bm_checkpoint = Some bottom, bm_found = []\<rparr> else memo0)
      in case take_from_memo memo answered found of
           (answered', found') \<Rightarrow>
             if answered' = [] then (Inr found', memo)
             else
               (case below_loop h (down_from bottom (bottom - below_checkpoint_reads)) (answered', found', memo) of
                  (Inl e, memo') \<Rightarrow> (Inl e, memo')
                | (Inr (left, found''), memo') \<Rightarrow> (Inr found'', remember_missing left found'' memo')))"

section \<open>The walk\<close>

fun kernel_lookups :: "handle \<Rightarrow> string list \<Rightarrow> found \<Rightarrow> found res" where
  "kernel_lookups h [] found = Inr found"
| "kernel_lookups h (i # rest) found =
     (case h_transaction_version h i of
        Inl e \<Rightarrow> Inl (E_Delta e)
      | Inr v \<Rightarrow>
          kernel_lookups h rest
            (if v \<noteq> None then bt_insert i \<lparr>ts_version = v, ts_mark = None\<rparr> found else found))"

definition all_found :: "string bset \<Rightarrow> found \<Rightarrow> bool" where
  "all_found wanted found \<longleftrightarrow> length found = length wanted"

text \<open>The commits from below the head down to the checkpoint; \<open>True\<close>: everything was found.\<close>

fun walk_commits ::
    "handle \<Rightarrow> checkpoint option \<Rightarrow> version \<Rightarrow> string bset \<Rightarrow> version list \<Rightarrow> found \<Rightarrow> (bool \<times> found) res" where
  "walk_commits h ckpt bottom wanted [] found = Inr (False, found)"
| "walk_commits h ckpt bottom wanted (v # vs) found =
     (case h_read_commit_entry h v of
        Inl e \<Rightarrow> Inl (E_Delta e)
      | Inr read \<Rightarrow>
          res_bind
            (case read of
               Some bytes \<Rightarrow> record_commit h bytes wanted found
             | None \<Rightarrow> if ckpt \<noteq> None \<and> v = bottom then Inr found else Inl (missing_commit h v))
            (\<lambda>found'. if all_found wanted found' then Inr (True, found')
                      else walk_commits h ckpt bottom wanted vs found'))"



definition checkpoint_answers :: "handle \<Rightarrow> checkpoint \<Rightarrow> string bset \<Rightarrow> found \<Rightarrow> found res" where
  "checkpoint_answers h ckpt rest found =
     (case checkpoint_txns h (ck_files ckpt) rest [] of
        Inr txns \<Rightarrow> Inr (foldl (\<lambda>f (i, v). bt_insert i \<lparr>ts_version = Some v, ts_mark = None\<rparr> f) found txns)
      | Inl why \<Rightarrow>
          (case h_configuration h of
             Inl e \<Rightarrow> Inl (E_Delta e)
           | Inr _ \<Rightarrow> kernel_lookups h rest found))"

text \<open>\<open>walk\<close> in three parts: what the checkpoint answers, the commits down to it, the head.\<close>

definition ask_checkpoint ::
    "handle \<Rightarrow> checkpoint \<Rightarrow> string bset \<Rightarrow> bool \<Rightarrow> found \<Rightarrow> below_memo \<Rightarrow> found res \<times> below_memo" where
  "ask_checkpoint h c wanted marks found memo =
     (let rest = filter (\<lambda>i. \<not> bt_mem i found) wanted
      in case checkpoint_answers h c rest found of
           Inl e \<Rightarrow> (Inl e, memo)
         | Inr found' \<Rightarrow>
             let answered = filter (\<lambda>i. bt_mem i found' \<and> may_carry_a_mark i) rest
             in if marks \<and> answered \<noteq> [] then below_checkpoint h (ck_version c) answered found' memo
                else (Inr found', memo))"

definition walk_down ::
    "handle \<Rightarrow> version \<Rightarrow> bool \<Rightarrow> string bset \<Rightarrow> bool \<Rightarrow> checkpoint option \<Rightarrow> found \<Rightarrow> below_memo
       \<Rightarrow> found res \<times> below_memo" where
  "walk_down h head head_there wanted marks ckpt found0 memo =
     (let bottom = (case ckpt of Some c \<Rightarrow> ck_version c | None \<Rightarrow> 0)
      in if \<not> head_there \<and> map_option ck_version ckpt \<noteq> Some head
         then (Inl (missing_commit h head), memo)
         else
           (case walk_commits h ckpt bottom wanted (down_from head bottom) found0 of
              Inl e \<Rightarrow> (Inl e, memo)
            | Inr (done', found) \<Rightarrow>
                if done' then (Inr found, memo)
                else
                  (case ckpt of
                     None \<Rightarrow> (Inr found, memo)
                   | Some c \<Rightarrow> ask_checkpoint h c wanted marks found memo)))"

definition walk ::
    "handle \<Rightarrow> version \<Rightarrow> string bset \<Rightarrow> bool \<Rightarrow> below_memo \<Rightarrow> found res \<times> below_memo" where
  "walk h head wanted marks memo =
     (case h_read_commit_entry h head of
        Inl e \<Rightarrow> (Inl (E_Delta e), memo)
      | Inr head_commit \<Rightarrow>
          (case (case head_commit of Some bytes \<Rightarrow> record_commit h bytes wanted [] | None \<Rightarrow> Inr []) of
             Inl e \<Rightarrow> (Inl e, memo)
           | Inr found0 \<Rightarrow>
               if head_commit \<noteq> None \<and> all_found wanted found0 then (Inr found0, memo)
               else
                 (case newest_checkpoint h head of
                    Inl e \<Rightarrow> (Inl e, memo)
                  | Inr ckpt \<Rightarrow> walk_down h head (head_commit \<noteq> None) wanted marks ckpt found0 memo)))"

text \<open>\<open>read\<close>: \<open>marks\<close> is \<open>Below::Marks\<close>. The memo is the caller's and keeps what a failed read put there.\<close>

definition read_log ::
    "handle \<Rightarrow> string list \<Rightarrow> bool \<Rightarrow> below_memo \<Rightarrow> found res \<times> below_memo" where
  "read_log h app_ids marks memo =
     (let wanted = bs_collect app_ids;
          answer = (\<lambda>found. map (\<lambda>i. (i, case bt_get found i of Some s \<Rightarrow> s | None \<Rightarrow> default_txn_state)) wanted)
      in if wanted = [] then (Inr (answer []), memo)
         else
           (case h_version h of
              None \<Rightarrow> (Inl (not_loaded h), memo)
            | Some head \<Rightarrow>
                (case walk h head wanted marks memo of
                   (Inl e, memo') \<Rightarrow> (Inl e, memo')
                 | (Inr found, memo') \<Rightarrow> (Inr (answer found), memo'))))"

definition read_txns :: "handle \<Rightarrow> string list \<Rightarrow> found res" where
  "read_txns h app_ids =
     res_bind (refuse_txn_retention h) (\<lambda>_. fst (read_log h app_ids True default_memo))"

section \<open>Other questions to the log\<close>

definition commit_exists :: "handle \<Rightarrow> bool res" where
  "commit_exists h =
     (case h_version h of
        None \<Rightarrow> Inr True
      | Some v \<Rightarrow>
          (case h_head h (h_log_path h @ [pad20 v @ ''.json'']) of
             Inr _ \<Rightarrow> Inr True
           | Inl OS_NotFound \<Rightarrow> Inr False
           | Inl e \<Rightarrow> Inl (store_error_of e)))"

definition has_protocol :: "handle \<Rightarrow> string \<Rightarrow> bool" where
  "has_protocol h bytes =
     (case h_json_stream h bytes of
        (js, failed) \<Rightarrow>
          list_ex (\<lambda>p. p \<noteq> None)
            (fst (typed_stream (\<lambda>j. case struct_fields [''protocol''] j of
                    Some [x] \<Rightarrow> opt_field Some x | _ \<Rightarrow> None) js failed)))"

partial_function (option) protocol_loop :: "handle \<Rightarrow> version \<Rightarrow> bool res option" where
  "protocol_loop h v =
     (let v' = u64_add v 1
      in case h_read_commit_entry h v' of
           Inl e \<Rightarrow> Some (Inl (E_Delta e))
         | Inr None \<Rightarrow> Some (Inr False)
         | Inr (Some bytes) \<Rightarrow> if has_protocol h bytes then Some (Inr True) else protocol_loop h v')"

definition protocol_changed_since :: "handle \<Rightarrow> bool res option" where
  "protocol_changed_since h =
     (case h_version h of None \<Rightarrow> Some (Inr False) | Some v \<Rightarrow> protocol_loop h v)"

definition decode_metadata_id :: "json \<Rightarrow> string option" where
  "decode_metadata_id j =
     (case struct_fields [''id''] j of Some [Some i] \<Rightarrow> as_str i | _ \<Rightarrow> None)"

definition id_from_json :: "handle \<Rightarrow> string \<Rightarrow> string option" where
  "id_from_json h bytes =
     (case h_json_stream h bytes of
        (js, failed) \<Rightarrow>
          find_map (\<lambda>m. m)
            (fst (typed_stream (\<lambda>j. case struct_fields [''metaData''] j of
                    Some [x] \<Rightarrow> opt_field decode_metadata_id x | _ \<Rightarrow> None) js failed)))"

fun id_from_files :: "handle \<Rightarrow> object_meta list \<Rightarrow> string option res" where
  "id_from_files h [] = Inr None"
| "id_from_files h (m # ms) =
     (if om_location m \<noteq> [] \<and> ends_with ''.json'' (last (om_location m)) then
        (case h_get h (om_location m) of
           Inl e \<Rightarrow> Inl (store_error_of e)
         | Inr bytes \<Rightarrow>
             (case id_from_json h bytes of
                Some i \<Rightarrow> Inr (Some i)
              | None \<Rightarrow> id_from_files h ms))
      else
        (case h_metadata_column h m of
           Inr (Some i) \<Rightarrow> Inr (Some i)
         | _ \<Rightarrow> id_from_files h ms))"

definition stored_table_id :: "handle \<Rightarrow> string option res" where
  "stored_table_id h =
     (case h_read_commit_entry h 0 of
        Inl e \<Rightarrow> Inl (E_Delta e)
      | Inr (Some bytes) \<Rightarrow> Inr (id_from_json h bytes)
      | Inr None \<Rightarrow>
          res_bind (newest_checkpoint h (case h_version h of Some v \<Rightarrow> v | None \<Rightarrow> 0)) (\<lambda>ckpt.
            case ckpt of
              None \<Rightarrow> Inr None
            | Some c \<Rightarrow> id_from_files h (ck_files c)))"

text \<open>\<open>recent_txn_app_ids\<close>: the evidence the typo guard compares a fresh app id with.\<close>

fun recent_commit_ids :: "handle \<Rightarrow> version list \<Rightarrow> string bset \<Rightarrow> string bset res" where
  "recent_commit_ids h [] ids = Inr ids"
| "recent_commit_ids h (v # vs) ids =
     (case h_read_commit_entry h v of
        Inl e \<Rightarrow> Inl (E_Delta e)
      | Inr None \<Rightarrow> Inr ids
      | Inr (Some bytes) \<Rightarrow>
          recent_commit_ids h vs
            (foldl (\<lambda>s l. case ll_txn l of Some t \<Rightarrow> bs_insert (ta_app_id t) s | None \<Rightarrow> s) ids
              (fst (log_lines h bytes))))"

definition recent_txn_app_ids :: "handle \<Rightarrow> nat \<Rightarrow> string bset res" where
  "recent_txn_app_ids h max_commits =
     (case h_version h of
        None \<Rightarrow> Inl (not_loaded h)
      | Some head \<Rightarrow>
          res_bind (recent_commit_ids h (rev [head - (max max_commits 1 - 1)..<Suc head]) []) (\<lambda>ids.
          res_bind (newest_checkpoint h head) (\<lambda>ckpt.
            Inr (case ckpt of
                   None \<Rightarrow> ids
                 | Some c \<Rightarrow>
                     foldl (\<lambda>s m. case file_txns h m of
                         Inr txns \<Rightarrow> foldl (\<lambda>s (i, _). bs_insert i s) s txns
                       | Inl _ \<Rightarrow> s) ids (ck_files c)))))"

end
