(* ===== verification/Fence_Spec.thy ===== *)
theory Fence_Spec
  imports Fence_Read
begin

text \<open>
  What reading offsets from a log has to answer, stated over the history of its commits, and the
  proof that \<open>read_txns\<close> answers it: \<open>newest_state\<close> is the specification, the walk from the head
  and the checkpoint below it are the implementation.
\<close>

section \<open>The specification\<close>

definition txns_of :: "log_line list \<Rightarrow> txn_action list" where
  "txns_of ls = List.map_filter ll_txn ls"

definition info_of :: "log_line list \<Rightarrow> commit_info option" where
  "info_of ls = foldl (\<lambda>i l. if ll_commit_info l \<noteq> None then ll_commit_info l else i) None ls"

text \<open>The last \<open>txn\<close> of an appId in one commit, with the mark the commit records beside it.\<close>

definition commit_state :: "log_line list \<Rightarrow> string \<Rightarrow> txn_state option" where
  "commit_state ls i =
     map_option (txn_state_of (info_of ls)) (map_of (rev (map (\<lambda>t. (ta_app_id t, t)) (txns_of ls))) i)"

definition newest_in :: "(version \<Rightarrow> log_line list) \<Rightarrow> string \<Rightarrow> version \<Rightarrow> version \<Rightarrow> txn_state option" where
  "newest_in hist i lo hi = find_map (\<lambda>v. commit_state (hist v) i) (rev [lo..<hi])"

text \<open>The newest \<open>txn\<close> of an appId at or below a version.\<close>

definition newest_state :: "(version \<Rightarrow> log_line list) \<Rightarrow> string \<Rightarrow> version \<Rightarrow> txn_state option" where
  "newest_state hist i head = newest_in hist i 0 (Suc head)"

definition newest_version :: "(version \<Rightarrow> log_line list) \<Rightarrow> string \<Rightarrow> version \<Rightarrow> int option" where
  "newest_version hist i head = Option.bind (newest_state hist i head) ts_version"

text \<open>Some commit below a version wrote this very offset, with this mark beside it.\<close>

definition mark_recorded ::
    "(version \<Rightarrow> log_line list) \<Rightarrow> version \<Rightarrow> string \<Rightarrow> int option \<Rightarrow> message_mark \<Rightarrow> bool" where
  "mark_recorded hist hi i v mk \<longleftrightarrow>
     (\<exists>u < hi. commit_state (hist u) i = Some \<lparr>ts_version = v, ts_mark = Some mk\<rparr>)"

text \<open>
  What is asked of the store: a commit that is served and parses is the one that was written; a
  checkpoint whose files can all be read holds the state at its version, one \<open>txn\<close> per appId, as
  the protocol defines a checkpoint; and the kernel's answer is the table's.
\<close>

definition serves :: "handle \<Rightarrow> (version \<Rightarrow> log_line list) \<Rightarrow> bool" where
  "serves h hist \<longleftrightarrow>
     (\<forall>v b ls. h_read_commit_entry h v = Inr (Some b) \<and> log_lines h b = (ls, False) \<longrightarrow> ls = hist v)"

definition checkpoint_holds :: "handle \<Rightarrow> (version \<Rightarrow> log_line list) \<Rightarrow> checkpoint \<Rightarrow> bool" where
  "checkpoint_holds h hist c \<longleftrightarrow>
     (\<forall>tss. collect_res (file_txns h) (ck_files c) = Inr tss \<longrightarrow>
        (\<forall>i v. (i, v) \<in> set (concat tss) \<longleftrightarrow> newest_version hist i (ck_version c) = Some v))"

definition handle_ok :: "handle \<Rightarrow> (version \<Rightarrow> log_line list) \<Rightarrow> version \<Rightarrow> bool" where
  "handle_ok h hist head \<longleftrightarrow>
     h_version h = Some head \<and> serves h hist
     \<and> (\<forall>c. newest_checkpoint h head = Inr (Some c) \<longrightarrow> checkpoint_holds h hist c)
     \<and> (\<forall>i v. h_transaction_version h i = Inr v \<longrightarrow> v = newest_version hist i head)"

section \<open>One commit\<close>

lemma find_map_append: "find_map f (xs @ ys) = (case find_map f xs of Some y \<Rightarrow> Some y | None \<Rightarrow> find_map f ys)"
  by (induction xs) (auto split: option.splits)

lemma find_map_Some: "find_map f xs = Some y \<Longrightarrow> \<exists>x \<in> set xs. f x = Some y"
  by (induction xs) (auto split: option.splits)

lemma newest_in_empty [simp]: "hi \<le> lo \<Longrightarrow> newest_in hist i lo hi = None"
  by (simp add: newest_in_def)

lemma newest_in_split:
  "lo \<le> mid \<Longrightarrow> mid \<le> hi \<Longrightarrow>
     newest_in hist i lo hi
     = (case newest_in hist i mid hi of Some s \<Rightarrow> Some s | None \<Rightarrow> newest_in hist i lo mid)"
proof -
  assume "lo \<le> mid" "mid \<le> hi"
  then have "rev [lo..<hi] = rev [mid..<hi] @ rev [lo..<mid]"
    by (metis le_Suc_ex rev_append upt_add_eq_append)
  then show ?thesis unfolding newest_in_def by (simp add: find_map_append)
qed

lemma newest_in_one [simp]: "newest_in hist i v (Suc v) = commit_state (hist v) i"
  by (simp add: newest_in_def split: option.split)

lemma newest_in_Some: "newest_in hist i lo hi = Some s \<Longrightarrow> \<exists>u \<ge> lo. u < hi \<and> commit_state (hist u) i = Some s"
  by (fastforce simp: newest_in_def dest!: find_map_Some)

lemma commit_state_version: "commit_state ls i = Some s \<Longrightarrow> ts_version s \<noteq> None"
  by (auto simp: commit_state_def txn_state_of_def Let_def)

lemma newest_state_version: "newest_state hist i head = Some s \<Longrightarrow> newest_version hist i head = ts_version s"
  by (simp add: newest_version_def)

lemma newest_version_None: "newest_version hist i head = None \<longleftrightarrow> newest_state hist i head = None"
proof (cases "newest_state hist i head")
  case (Some s)
  then have "ts_version s \<noteq> None"
    using newest_in_Some commit_state_version unfolding newest_state_def by blast
  with Some show ?thesis by (auto simp: newest_version_def)
qed (simp add: newest_version_def)

lemma info_fold:
  "foldl (\<lambda>i l. if ll_commit_info l \<noteq> None then ll_commit_info l else i) i ls
     = (if info_of ls = None then i else info_of ls)"
proof (induction ls arbitrary: i)
  case (Cons l ls)
  have "info_of (l # ls) = (if info_of ls = None then ll_commit_info l else info_of ls)"
    using Cons.IH [of "ll_commit_info l"] by (simp add: info_of_def)
  then show ?case
    using Cons.IH [of "if ll_commit_info l \<noteq> None then ll_commit_info l else i"] by auto
qed (simp add: info_of_def)

lemma collect_lines_eq:
  "collect_lines wanted found ls (txns, info)
     = (txns @ filter (\<lambda>t. ta_app_id t \<in> set wanted \<and> \<not> bt_mem (ta_app_id t) found) (txns_of ls),
        if info_of ls = None then info else info_of ls)"
proof (induction ls arbitrary: txns info)
  case (Cons l ls)
  have "info_of (l # ls) = (if info_of ls = None then ll_commit_info l else info_of ls)"
    using info_fold [of "ll_commit_info l" ls] by (simp add: info_of_def)
  then show ?case
    by (cases "ll_txn l") (auto simp: Cons.IH txns_of_def List.map_filter_simps Let_def)
qed (simp add: txns_of_def info_of_def List.map_filter_simps)

lemma foldl_insert_txns:
  "bt_get (foldl (\<lambda>f t. bt_insert (ta_app_id t) (g t) f) found ts) i
     = (case map_of (rev (map (\<lambda>t. (ta_app_id t, t)) ts)) i of Some t \<Rightarrow> Some (g t) | None \<Rightarrow> bt_get found i)"
  by (induction ts arbitrary: found) (auto simp: map_add_def split: option.splits)

lemma bt_wf_foldl_insert:
  "bt_wf found \<Longrightarrow> bt_wf (foldl (\<lambda>f t. bt_insert (k t) (g t) f) found ts)"
  by (induction ts arbitrary: found) auto

lemma map_of_rev_filter:
  "map_of (rev (map (\<lambda>t. (ta_app_id t, t)) (filter (\<lambda>t. P (ta_app_id t)) ts))) i
     = (if P i then map_of (rev (map (\<lambda>t. (ta_app_id t, t)) ts)) i else None)"
  by (induction ts) (auto simp: map_add_def split: option.splits)

lemma record_commit_Inr:
  assumes "record_commit h bytes wanted found = Inr found'"
  obtains ls where "log_lines h bytes = (ls, False)"
    and "\<And>i. bt_get found' i = (case bt_get found i of
        Some s \<Rightarrow> Some s | None \<Rightarrow> if i \<in> set wanted then commit_state ls i else None)"
    and "bt_wf found \<Longrightarrow> bt_wf found'"
proof -
  from assms obtain ls where ls: "log_lines h bytes = (ls, False)"
    by (auto simp: record_commit_def split: prod.splits bool.splits)
  let ?P = "\<lambda>i. i \<in> set wanted \<and> \<not> bt_mem i found"
  have f: "found' = foldl (\<lambda>f t. bt_insert (ta_app_id t) (txn_state_of (info_of ls) t) f) found
      (filter (\<lambda>t. ?P (ta_app_id t)) (txns_of ls))"
    using assms ls by (simp add: record_commit_def collect_lines_eq split: if_splits)
  have "bt_get found' i = (case bt_get found i of
      Some s \<Rightarrow> Some s | None \<Rightarrow> if i \<in> set wanted then commit_state ls i else None)" for i
    unfolding f foldl_insert_txns map_of_rev_filter [where P = ?P]
    by (auto simp: commit_state_def bt_mem_def split: option.splits)
  moreover have "bt_wf found \<Longrightarrow> bt_wf found'"
    unfolding f by (rule bt_wf_foldl_insert)
  ultimately show thesis using that ls by blast
qed

section \<open>The walk\<close>

definition covers ::
    "(version \<Rightarrow> log_line list) \<Rightarrow> version \<Rightarrow> string bset \<Rightarrow> version \<Rightarrow> found \<Rightarrow> bool" where
  "covers hist head wanted lo found \<longleftrightarrow>
     bt_wf found
     \<and> (\<forall>i. bt_get found i = (if i \<in> set wanted then newest_in hist i lo (Suc head) else None))"

lemma covers_commit:
  assumes "serves h hist" and "covers hist head wanted (Suc v) found" and "v \<le> head"
    and "h_read_commit_entry h v = Inr (Some bytes)" and "record_commit h bytes wanted found = Inr found'"
  shows "covers hist head wanted v found'"
proof -
  obtain ls where ls: "log_lines h bytes = (ls, False)"
    "\<And>i. bt_get found' i = (case bt_get found i of
        Some s \<Rightarrow> Some s | None \<Rightarrow> if i \<in> set wanted then commit_state ls i else None)"
    "bt_wf found \<Longrightarrow> bt_wf found'"
    using record_commit_Inr [OF assms(5)] by metis
  have "ls = hist v" using assms(1,4) ls(1) by (auto simp: serves_def)
  with ls(2,3) assms(2,3) show ?thesis
    using newest_in_split [of v "Suc v" "Suc head" hist]
    by (auto simp: covers_def split: option.splits)
qed

lemma all_found_covers:
  assumes "covers hist head wanted lo found" and "all_found wanted found" and "distinct wanted"
    and "i \<in> set wanted"
  shows "newest_in hist i lo (Suc head) \<noteq> None"
proof -
  have sub: "fst ` set found \<subseteq> set wanted"
  proof
    fix k assume "k \<in> fst ` set found"
    then have "bt_get found k \<noteq> None" by (simp add: map_of_eq_None_iff)
    with assms(1) show "k \<in> set wanted" by (auto simp: covers_def split: if_splits)
  qed
  have "card (fst ` set found) = length found"
    using assms(1) bt_wf_distinct [of found] by (metis covers_def distinct_card length_map list.set_map)
  with assms(2,3) have "card (fst ` set found) = card (set wanted)"
    by (simp add: all_found_def distinct_card)
  with sub have "fst ` set found = set wanted" by (intro card_subset_eq) auto
  with assms(4) have "bt_get found i \<noteq> None" by (auto simp: map_of_eq_None_iff)
  with assms(1,4) show ?thesis by (simp add: covers_def)
qed

lemma newest_in_full:
  "newest_in hist i lo (Suc head) = Some s \<Longrightarrow> lo \<le> Suc head \<Longrightarrow> newest_state hist i head = Some s"
  using newest_in_split [of 0 lo "Suc head" hist i] by (simp add: newest_state_def)

text \<open>Where the walk over the commits stops, and what it knows then.\<close>

lemma walk_commits_covers:
  assumes "serves h hist" and "walk_commits h ckpt bottom wanted (down_from hi bottom) found = Inr (done', found')"
    and "covers hist head wanted hi found" and "bottom \<le> hi" and "hi \<le> Suc head"
  shows "\<exists>lo \<ge> bottom. lo \<le> Suc head \<and> covers hist head wanted lo found'
    \<and> (if done' then all_found wanted found' else lo = bottom \<or> (ckpt \<noteq> None \<and> lo \<le> Suc bottom) \<or> lo = hi \<and> hi = bottom)"
  using assms(2-5)
proof (induction "hi - bottom" arbitrary: hi found)
  case 0
  then have "down_from hi bottom = []" by (simp add: down_from_def)
  with 0 show ?case by auto
next
  case (Suc n)
  then obtain v where v: "hi = Suc v" "bottom \<le> v" by (cases hi) auto
  then have list: "down_from hi bottom = v # down_from v bottom" by (simp add: down_from_def)
  from Suc.prems(1) obtain read where read: "h_read_commit_entry h v = Inr read"
    by (cases "h_read_commit_entry h v") (auto simp: list)
  from Suc.prems(1) obtain f where f:
    "(case read of Some bytes \<Rightarrow> record_commit h bytes wanted found
        | None \<Rightarrow> if ckpt \<noteq> None \<and> v = bottom then Inr found else Inl (missing_commit h v)) = Inr f"
    and next': "(if all_found wanted f then Inr (True, f)
        else walk_commits h ckpt bottom wanted (down_from v bottom) f) = Inr (done', found')"
    by (auto simp: list read)
  show ?case
  proof (cases read)
    case (Some bytes)
    with f have rec: "record_commit h bytes wanted found = Inr f" by simp
    have cov: "covers hist head wanted v f"
      using covers_commit [OF assms(1) _ _ _ rec] Suc.prems(2,4) read Some v by auto
    show ?thesis
    proof (cases "all_found wanted f")
      case True
      with next' cov v Suc.prems(4) show ?thesis by auto
    next
      case False
      have "n = v - bottom" using Suc.hyps(2) v by simp
      from Suc.hyps(1) [OF this _ cov v(2)] next' False Suc.prems(4) v show ?thesis by auto
    qed
  next
    case None
    with f have b: "ckpt \<noteq> None" "v = bottom" "f = found" by (auto split: if_splits)
    then have "down_from v bottom = []" by (simp add: down_from_def)
    with next' b(3) have "found' = found" "done' \<longleftrightarrow> all_found wanted found"
      by (auto split: if_splits)
    with b(1,2) Suc.prems(2,4) v show ?thesis by (intro exI [of _ "Suc bottom"]) auto
  qed
qed

section \<open>What an answer is\<close>

definition good_answer ::
    "(version \<Rightarrow> log_line list) \<Rightarrow> version \<Rightarrow> string \<Rightarrow> txn_state option \<Rightarrow> bool" where
  "good_answer hist head i a \<longleftrightarrow>
     (case a of
        None \<Rightarrow> newest_version hist i head = None
      | Some s \<Rightarrow> ts_version s \<noteq> None \<and> ts_version s = newest_version hist i head
          \<and> (\<forall>mk. ts_mark s = Some mk \<longrightarrow> mark_recorded hist (Suc head) i (ts_version s) mk))"

definition answers ::
    "(version \<Rightarrow> log_line list) \<Rightarrow> version \<Rightarrow> string bset \<Rightarrow> found \<Rightarrow> bool" where
  "answers hist head wanted found \<longleftrightarrow> (\<forall>i \<in> set wanted. good_answer hist head i (bt_get found i))"

lemma mark_recorded_mono: "mark_recorded hist lo i v mk \<Longrightarrow> lo \<le> hi \<Longrightarrow> mark_recorded hist hi i v mk"
  unfolding mark_recorded_def by (meson less_le_trans)

lemma txn_state_eta: "s = \<lparr>ts_version = ts_version s, ts_mark = ts_mark s\<rparr>"
  by simp

lemma good_answer_newest: "newest_state hist i head = Some s \<Longrightarrow> good_answer hist head i (Some s)"
proof -
  assume s: "newest_state hist i head = Some s"
  then obtain u where u: "u < Suc head" "commit_state (hist u) i = Some s"
    using newest_in_Some unfolding newest_state_def by blast
  then have "mark_recorded hist (Suc head) i (ts_version s) mk" if "ts_mark s = Some mk" for mk
    using that unfolding mark_recorded_def by (metis txn_state_eta)
  with s u show ?thesis
    by (auto simp: good_answer_def newest_state_version dest: commit_state_version)
qed

lemma covers_good:
  assumes "covers hist head wanted lo found" and "i \<in> set wanted" and "lo \<le> Suc head"
    and "newest_in hist i lo (Suc head) \<noteq> None \<or> lo = 0"
  shows "good_answer hist head i (bt_get found i)"
proof (cases "newest_in hist i lo (Suc head)")
  case (Some s)
  with assms have "newest_state hist i head = Some s" by (blast intro: newest_in_full)
  with Some assms(1,2) show ?thesis by (simp add: covers_def good_answer_newest)
next
  case None
  with assms(1,2,4) show ?thesis
    by (auto simp: covers_def good_answer_def newest_version_None newest_state_def)
qed

text \<open>An appId no commit down to the checkpoint has a \<open>txn\<close> of is as the checkpoint says.\<close>

lemma newest_state_below:
  assumes "newest_in hist i lo (Suc head) = None" and "lo = bottom \<or> lo = Suc bottom" and "bottom \<le> head"
  shows "newest_state hist i head = newest_state hist i bottom"
proof -
  have "newest_in hist i (Suc bottom) (Suc head) = None"
    using assms newest_in_split [of bottom "Suc bottom" "Suc head" hist i]
    by (auto split: option.splits)
  then show ?thesis
    using newest_in_split [of 0 "Suc bottom" "Suc head" hist i] assms(3) by (simp add: newest_state_def)
qed

section \<open>The checkpoint and the kernel\<close>

lemma add_txns_get:
  assumes "add_txns wanted ts acc = Inr t"
  shows "(\<forall>i v. i \<in> set wanted \<longrightarrow> (bt_get t i = Some v \<longleftrightarrow> bt_get acc i = Some v \<or> (i, v) \<in> set ts))
    \<and> (\<forall>i. i \<notin> set wanted \<longrightarrow> bt_get t i = bt_get acc i) \<and> (bt_wf acc \<longrightarrow> bt_wf t)"
  using assms
proof (induction wanted ts acc rule: add_txns.induct)
  case (2 wanted i v rest acc)
  show ?case
  proof (cases "i \<in> set wanted")
    case False
    with 2 show ?thesis by auto
  next
    case True
    have ins: "add_txns wanted rest (bt_insert i v acc) = Inr t" "bt_get acc i = None \<or> bt_get acc i = Some v"
      using 2(4) True by (auto split: option.splits if_splits)
    have "(\<forall>j w. j \<in> set wanted \<longrightarrow> (bt_get t j = Some w \<longleftrightarrow> bt_get (bt_insert i v acc) j = Some w \<or> (j, w) \<in> set rest))
      \<and> (\<forall>j. j \<notin> set wanted \<longrightarrow> bt_get t j = bt_get (bt_insert i v acc) j) \<and> (bt_wf (bt_insert i v acc) \<longrightarrow> bt_wf t)"
      using ins 2(2,3) True by (cases "bt_get acc i") auto
    with ins(2) True show ?thesis by auto
  qed
qed simp

lemma checkpoint_txns_get:
  assumes "checkpoint_txns h fs wanted acc = Inr t"
  shows "\<exists>tss. collect_res (file_txns h) fs = Inr tss
    \<and> (\<forall>i v. i \<in> set wanted \<longrightarrow> (bt_get t i = Some v \<longleftrightarrow> bt_get acc i = Some v \<or> (i, v) \<in> set (concat tss)))
    \<and> (\<forall>i. i \<notin> set wanted \<longrightarrow> bt_get t i = bt_get acc i) \<and> (bt_wf acc \<longrightarrow> bt_wf t)"
  using assms
proof (induction fs arbitrary: acc)
  case (Cons f fs)
  then obtain ts acc' where f: "file_txns h f = Inr ts" "add_txns wanted ts acc = Inr acc'"
    "checkpoint_txns h fs wanted acc' = Inr t" by auto
  from Cons.IH [OF f(3)] obtain tss where tss: "collect_res (file_txns h) fs = Inr tss"
    "\<forall>i v. i \<in> set wanted \<longrightarrow> (bt_get t i = Some v \<longleftrightarrow> bt_get acc' i = Some v \<or> (i, v) \<in> set (concat tss))"
    "\<forall>i. i \<notin> set wanted \<longrightarrow> bt_get t i = bt_get acc' i" "bt_wf acc' \<longrightarrow> bt_wf t" by auto
  from add_txns_get [OF f(2)] tss f(1) show ?case by (intro exI [of _ "ts # tss"]) auto
qed auto

lemma foldl_insert_pairs:
  "bt_get (foldl (\<lambda>f (i, v). bt_insert i (g v) f) found txns) i
     = (case map_of (rev txns) i of Some v \<Rightarrow> Some (g v) | None \<Rightarrow> bt_get found i)"
proof (induction txns arbitrary: found)
  case (Cons e txns)
  then show ?case by (cases e) (auto simp: map_add_def split: option.splits)
qed simp

lemma map_of_rev_wf: "bt_wf m \<Longrightarrow> map_of (rev m) = map_of m"
proof -
  assume "bt_wf m"
  then have d: "distinct (map fst m)" by (rule bt_wf_distinct)
  then have "distinct (map fst (rev m))" by (simp add: rev_map [symmetric])
  then have "map_of (rev m) i = Some v \<longleftrightarrow> map_of m i = Some v" for i v
    using d by (metis map_of_eq_Some_iff set_rev)
  then show ?thesis by (metis option.exhaust ext)
qed

lemma kernel_lookups_get:
  assumes "kernel_lookups h rest found = Inr found'"
  shows "(\<forall>i \<in> set rest. \<exists>v. h_transaction_version h i = Inr v)
    \<and> (\<forall>i. bt_get found' i =
        (if i \<in> set rest \<and> h_transaction_version h i \<noteq> Inr None
         then Some \<lparr>ts_version = projr (h_transaction_version h i), ts_mark = None\<rparr> else bt_get found i))"
  using assms
proof (induction rest arbitrary: found)
  case (Cons i rest)
  then obtain v where v: "h_transaction_version h i = Inr v" by (auto split: sum.splits)
  with Cons.prems have "kernel_lookups h rest
      (if v \<noteq> None then bt_insert i \<lparr>ts_version = v, ts_mark = None\<rparr> found else found) = Inr found'" by simp
  from Cons.IH [OF this] v show ?case by auto
qed simp

text \<open>
  What the checkpoint or the kernel adds: the right version for every appId not met above the
  checkpoint, and no mark.
\<close>

lemma checkpoint_answers_good:
  assumes "checkpoint_holds h hist c"
    and kernel: "\<forall>i v. h_transaction_version h i = Inr v \<longrightarrow> v = newest_version hist i head"
    and same: "\<forall>i \<in> set rest. newest_version hist i head = newest_version hist i (ck_version c)"
    and "checkpoint_answers h c rest found = Inr found'"
    and absent: "\<forall>i \<in> set rest. bt_get found i = None"
  shows "(\<forall>i. i \<notin> set rest \<longrightarrow> bt_get found' i = bt_get found i)
    \<and> (\<forall>i \<in> set rest. bt_get found' i =
         map_option (\<lambda>v. \<lparr>ts_version = Some v, ts_mark = None\<rparr>) (newest_version hist i head))"
proof (cases "checkpoint_txns h (ck_files c) rest []")
  case (Inr txns)
  from checkpoint_txns_get [OF this] obtain tss where tss: "collect_res (file_txns h) (ck_files c) = Inr tss"
    "\<forall>i v. i \<in> set rest \<longrightarrow> (bt_get txns i = Some v \<longleftrightarrow> (i, v) \<in> set (concat tss))"
    "\<forall>i. i \<notin> set rest \<longrightarrow> bt_get txns i = None" "bt_wf txns" by auto
  have get: "bt_get txns i = newest_version hist i head" if "i \<in> set rest" for i
  proof -
    have "bt_get txns i = Some v \<longleftrightarrow> newest_version hist i head = Some v" for v
      using tss(1,2) assms(1) same that by (simp add: checkpoint_holds_def)
    then show ?thesis by (metis option.exhaust)
  qed
  have f: "found' = foldl (\<lambda>f (i, v). bt_insert i \<lparr>ts_version = Some v, ts_mark = None\<rparr> f) found txns"
    using assms(4) Inr by (simp add: checkpoint_answers_def)
  show ?thesis
    using get tss(3) absent unfolding f foldl_insert_pairs map_of_rev_wf [OF tss(4)]
    by (auto split: option.split)
next
  case (Inl why)
  with assms(4) have k: "kernel_lookups h rest found = Inr found'"
    by (simp add: checkpoint_answers_def split: sum.splits)
  show ?thesis
  proof (intro conjI allI ballI impI)
    fix i assume "i \<notin> set rest"
    with kernel_lookups_get [OF k] show "bt_get found' i = bt_get found i" by simp
  next
    fix i assume i: "i \<in> set rest"
    with kernel_lookups_get [OF k] obtain v where "h_transaction_version h i = Inr v" by blast
    moreover from this kernel have "v = newest_version hist i head" by blast
    ultimately show "bt_get found' i
        = map_option (\<lambda>v. \<lparr>ts_version = Some v, ts_mark = None\<rparr>) (newest_version hist i head)"
      using kernel_lookups_get [OF k] i absent by (cases v) auto
  qed
qed

section \<open>The marks below a checkpoint\<close>

definition memo_ok :: "(version \<Rightarrow> log_line list) \<Rightarrow> below_memo \<Rightarrow> bool" where
  "memo_ok hist memo \<longleftrightarrow>
     (\<forall>c i v mk. bm_checkpoint memo = Some c \<and> bt_get (bm_found memo) i = Some (v, Some mk)
        \<longrightarrow> mark_recorded hist c i (Some v) mk)"

lemma memo_ok_default [simp]: "memo_ok hist default_memo"
  by (simp add: memo_ok_def default_memo_def)

text \<open>
  What a walk below keeps: every answer good, the appIds still looked for without a mark, and the
  memo true.
\<close>

definition below_inv ::
    "(version \<Rightarrow> log_line list) \<Rightarrow> version \<Rightarrow> version \<Rightarrow> string bset \<Rightarrow> string list \<Rightarrow> found \<Rightarrow> below_memo \<Rightarrow> bool" where
  "below_inv hist head bottom wanted left found memo \<longleftrightarrow>
     answers hist head wanted found \<and> memo_ok hist memo \<and> bm_checkpoint memo = Some bottom
     \<and> set left \<subseteq> set wanted
     \<and> (\<forall>i \<in> set left. \<forall>s. bt_get found i = Some s \<longrightarrow> ts_mark s = None)"

lemma answers_insert:
  assumes "answers hist head wanted found" and "good_answer hist head i (Some s)"
  shows "answers hist head wanted (bt_insert i s found)"
  using assms by (auto simp: answers_def)

lemma good_answer_with_mark:
  assumes "good_answer hist head i (Some s)" and "\<forall>mk. m = Some mk \<longrightarrow> mark_recorded hist (Suc head) i (ts_version s) mk"
  shows "good_answer hist head i (Some (s\<lparr>ts_mark := m\<rparr>))"
  using assms by (auto simp: good_answer_def)

lemma take_from_memo_inv:
  assumes "below_inv hist head bottom wanted left found memo" and "bottom \<le> head" and "distinct left"
    and "take_from_memo memo left found = (left', found')"
  shows "below_inv hist head bottom wanted left' found' memo \<and> set left' \<subseteq> set left \<and> distinct left'
    \<and> (\<forall>i. i \<notin> set left \<longrightarrow> bt_get found' i = bt_get found i)"
  using assms
proof (induction memo left found arbitrary: left' found' rule: take_from_memo.induct)
  case (1 memo found)
  then show ?case by simp
next
  case (2 memo i rest found)
  have rest_inv: "below_inv hist head bottom wanted rest found memo"
    using "2.prems"(1) by (simp add: below_inv_def)
  note d = "2.prems"(3)
  consider (drop) "bt_get found i = None"
    | (hit) s v m where "bt_get found i = Some s" "bt_get (bm_found memo) i = Some (v, m)" "ts_version s = Some v"
    | (miss) s where "bt_get found i = Some s"
        "\<And>v m. bt_get (bm_found memo) i = Some (v, m) \<Longrightarrow> ts_version s \<noteq> Some v"
    by (cases "bt_get found i"; cases "bt_get (bm_found memo) i") auto
  then show ?case
  proof cases
    case drop
    with "2.prems"(4) have "take_from_memo memo rest found = (left', found')" by simp
    from "2.IH"(1) [OF drop rest_inv "2.prems"(2) _ this] d show ?thesis by auto
  next
    case hit
    let ?f = "bt_insert i (s\<lparr>ts_mark := m\<rparr>) found"
    have run: "take_from_memo memo rest ?f = (left', found')" using "2.prems"(4) hit by simp
    have i: "i \<in> set wanted" using "2.prems"(1) by (simp add: below_inv_def)
    have "\<forall>mk. m = Some mk \<longrightarrow> mark_recorded hist (Suc head) i (ts_version s) mk"
      using "2.prems"(1,2) hit mark_recorded_mono [of hist bottom i _ _ "Suc head"]
      by (auto simp: below_inv_def memo_ok_def)
    moreover have "good_answer hist head i (Some s)"
      using "2.prems"(1) i hit(1) by (metis answers_def below_inv_def)
    ultimately have "answers hist head wanted ?f"
      using "2.prems"(1) by (auto intro!: answers_insert good_answer_with_mark simp: below_inv_def)
    then have inv: "below_inv hist head bottom wanted rest ?f memo"
      using "2.prems"(1) d by (auto simp: below_inv_def)
    from "2.IH"(3) [OF hit(1,2) refl hit(3) inv "2.prems"(2) _ run] d show ?thesis by auto
  next
    case miss
    from "2.prems"(4) miss obtain l where run: "take_from_memo memo rest found = (l, found')" "left' = i # l"
      by (cases "take_from_memo memo rest found"; cases "bt_get (bm_found memo) i")
        (auto split: if_splits)
    have "below_inv hist head bottom wanted l found' memo \<and> set l \<subseteq> set rest \<and> distinct l
        \<and> (\<forall>j. j \<notin> set rest \<longrightarrow> bt_get found' j = bt_get found j)"
    proof (cases "bt_get (bm_found memo) i")
      case None
      from "2.IH"(2) [OF miss(1) None rest_inv "2.prems"(2) _ run(1)] d show ?thesis by simp
    next
      case (Some e)
      obtain v m where e: "e = (v, m)" by (cases e)
      from "2.IH"(4) [OF miss(1) Some [unfolded e] refl miss(2) [OF Some [unfolded e]] rest_inv "2.prems"(2) _ run(1)] d
      show ?thesis by simp
    qed
    with run(2) d "2.prems"(1) miss(1) show ?thesis by (auto simp: below_inv_def)
  qed
qed

lemma apply_met_inv:
  assumes inv: "below_inv hist head bottom wanted left found memo" and v: "v < bottom" "bottom \<le> head"
    and i: "i \<in> set left" and written: "commit_state (hist v) i = Some w"
    and run: "apply_met (left, found, memo) (i, w) = (left', found', memo')"
  shows "below_inv hist head bottom wanted left' found' memo' \<and> left' = filter (\<lambda>x. x \<noteq> i) left"
proof (cases "Option.bind (bt_get found i) ts_version")
  case None
  with run inv show ?thesis
    by (auto simp: apply_met_def Let_def below_inv_def split: option.splits)
next
  case (Some ver)
  then obtain s where s: "bt_get found i = Some s" "ts_version s = Some ver"
    by (auto simp: bind_eq_Some_conv)
  let ?s = "if ts_version w = ts_version s then s\<lparr>ts_mark := ts_mark w\<rparr> else s"
  have out: "left' = filter (\<lambda>x. x \<noteq> i) left" "found' = bt_insert i ?s found"
    "memo' = memo\<lparr>bm_found := bt_insert i (ver, ts_mark ?s) (bm_found memo)\<rparr>"
    using run s by (auto simp: apply_met_def Let_def)
  have none: "ts_mark s = None" using inv i s(1) by (simp add: below_inv_def)
  have rec: "mark_recorded hist bottom i (Some ver) mk" if "ts_mark ?s = Some mk" for mk
  proof -
    have "ts_version w = Some ver" "ts_mark w = Some mk"
      using that none s(2) by (auto split: if_splits)
    then have "commit_state (hist v) i = Some \<lparr>ts_version = Some ver, ts_mark = Some mk\<rparr>"
      using written by (cases w) simp
    with v(1) show ?thesis unfolding mark_recorded_def by blast
  qed
  have "good_answer hist head i (Some s)"
    using inv i s(1) by (metis answers_def below_inv_def subsetD)
  then have "good_answer hist head i (Some ?s)"
    using good_answer_with_mark [of hist head i s "ts_mark w"] rec s(2) v(2) none
      mark_recorded_mono [of hist bottom i "Some ver" _ "Suc head"] by auto
  then have "answers hist head wanted found'"
    using inv unfolding out by (intro answers_insert) (simp_all add: below_inv_def)
  moreover have "memo_ok hist memo'"
    using inv rec unfolding out(3) memo_ok_def by (auto simp: below_inv_def memo_ok_def)
  ultimately show ?thesis using inv by (auto simp: below_inv_def out)
qed

lemma apply_mets_inv:
  assumes "below_inv hist head bottom wanted left found memo" and v: "v < bottom" "bottom \<le> head"
    and "\<forall>i w. (i, w) \<in> set met \<longrightarrow> i \<in> set left \<and> commit_state (hist v) i = Some w" and "distinct (map fst met)"
    and "foldl apply_met (left, found, memo) met = (left', found', memo')"
  shows "below_inv hist head bottom wanted left' found' memo' \<and> set left' \<subseteq> set left"
  using assms(1,4-6)
proof (induction met arbitrary: left found memo)
  case (Cons e met)
  obtain i w where e: "e = (i, w)" by (cases e)
  obtain l f m where step: "apply_met (left, found, memo) (i, w) = (l, f, m)" by (metis prod_cases3)
  have "i \<in> set left" "commit_state (hist v) i = Some w" using Cons.prems(2) e by auto
  from apply_met_inv [OF Cons.prems(1) v this step]
  have inv: "below_inv hist head bottom wanted l f m" and l: "l = filter (\<lambda>x. x \<noteq> i) left" by auto
  have "\<forall>j w. (j, w) \<in> set met \<longrightarrow> j \<in> set l \<and> commit_state (hist v) j = Some w"
    using Cons.prems(2,3) by (auto simp: e l rev_image_eqI)
  from Cons.IH [OF inv this] Cons.prems(3,4) step e l show ?case by auto
qed simp

lemma below_loop_inv:
  assumes "serves h hist" and "below_inv hist head bottom wanted left found memo" and "bottom \<le> head"
    and "\<forall>v \<in> set vs. v < bottom"
    and "below_loop h vs (left, found, memo) = (r, memo')"
  shows "memo_ok hist memo'
    \<and> (case r of Inl e \<Rightarrow> True | Inr (left', found') \<Rightarrow> below_inv hist head bottom wanted left' found' memo')"
  using assms(2,4,5)
proof (induction vs arbitrary: left found memo)
  case Nil
  then show ?case by (auto simp: below_inv_def)
next
  case (Cons v vs)
  have stop: ?case if "(Inr (left, found), memo) = (r, memo')"
    using that Cons.prems(1) by (auto simp: below_inv_def)
  show ?case
  proof (cases "h_read_commit_entry h v")
    case (Inl e)
    with Cons.prems show ?thesis
      by (cases "is_outage e") (auto simp: below_inv_def)
  next
    case (Inr read)
    show ?thesis
    proof (cases "\<exists>bytes met. read = Some bytes \<and> record_commit h bytes left [] = Inr met")
      case False
      with Inr Cons.prems(3) have "(Inr (left, found), memo) = (r, memo')"
        by (auto split: option.splits sum.splits)
      then show ?thesis by (rule stop)
    next
      case True
      then obtain bytes met where bytes: "read = Some bytes" and met: "record_commit h bytes left [] = Inr met"
        by blast
      from record_commit_Inr [OF met] obtain ls where ls: "log_lines h bytes = (ls, False)"
        "\<And>i. bt_get met i = (if i \<in> set left then commit_state ls i else None)" "bt_wf met"
        by (metis bt_wf_Nil map_of.simps(1) option.simps(4))
      have "ls = hist v" using assms(1) Inr bytes ls(1) by (auto simp: serves_def)
      with ls(2,3) have mets: "\<forall>i w. (i, w) \<in> set met \<longrightarrow> i \<in> set left \<and> commit_state (hist v) i = Some w"
        by (auto simp: bt_get_Some_iff [symmetric] split: if_splits)
      obtain l f m where fold: "foldl apply_met (left, found, memo) met = (l, f, m)" by (metis prod_cases3)
      have v: "v < bottom" using Cons.prems(2) by simp
      from apply_mets_inv [OF Cons.prems(1) v assms(3) mets bt_wf_distinct [OF ls(3)] fold]
      have inv: "below_inv hist head bottom wanted l f m" by simp
      have rest: "\<forall>v \<in> set vs. v < bottom" using Cons.prems(2) by simp
      show ?thesis
      proof (cases "l = []")
        case True
        with Cons.prems(3) Inr bytes met fold have "(Inr ([], f), m) = (r, memo')" by simp
        with inv True show ?thesis by (auto simp: below_inv_def)
      next
        case False
        with Cons.prems(3) Inr bytes met fold have "below_loop h vs (l, f, m) = (r, memo')" by simp
        from Cons.IH [OF inv rest this] show ?thesis .
      qed
    qed
  qed
qed

lemma remember_missing_ok: "memo_ok hist memo \<Longrightarrow> memo_ok hist (remember_missing left found memo)"
proof (induction left arbitrary: memo)
  case (Cons i left)
  have "memo_ok hist (case Option.bind (bt_get found i) ts_version of
      Some v \<Rightarrow> memo\<lparr>bm_found := bt_insert i (v, None) (bm_found memo)\<rparr> | None \<Rightarrow> memo)"
    using Cons.prems by (auto simp: memo_ok_def split: option.split)
  from Cons.IH [OF this] show ?case by (simp add: remember_missing_def)
qed (simp add: remember_missing_def)

lemma below_checkpoint_good:
  assumes "serves h hist" and "answers hist head wanted found" and "memo_ok hist memo" and "bottom \<le> head"
    and "set left \<subseteq> set wanted" and "distinct left"
    and "\<forall>i \<in> set left. \<forall>s. bt_get found i = Some s \<longrightarrow> ts_mark s = None"
    and run: "below_checkpoint h bottom left found memo = (r, memo')"
  shows "memo_ok hist memo' \<and> (case r of Inl e \<Rightarrow> True | Inr found' \<Rightarrow> answers hist head wanted found')"
proof -
  define memo1 where "memo1 = (if bm_checkpoint memo \<noteq> Some bottom
      then \<lparr>bm_checkpoint = Some bottom, bm_found = []\<rparr> else memo)"
  have "below_inv hist head bottom wanted left found memo1"
    using assms by (auto simp: below_inv_def memo1_def memo_ok_def)
  moreover obtain left1 found1 where take: "take_from_memo memo1 left found = (left1, found1)"
    by (meson surj_pair)
  ultimately have inv: "below_inv hist head bottom wanted left1 found1 memo1"
    using take_from_memo_inv assms(4,6) by blast
  obtain lr lm where loop: "below_loop h (down_from bottom (bottom - below_checkpoint_reads)) (left1, found1, memo1) = (lr, lm)"
    by (meson surj_pair)
  have below: "\<forall>v \<in> set (down_from bottom (bottom - below_checkpoint_reads)). v < bottom"
    by (simp add: down_from_def)
  note res = below_loop_inv [OF assms(1) inv assms(4) below loop]
  show ?thesis
  proof (cases "left1 = []")
    case True
    with run take have "r = Inr found1" "memo' = memo1"
      by (simp_all add: below_checkpoint_def memo1_def [symmetric])
    with inv show ?thesis by (simp add: below_inv_def)
  next
    case False
    with run take loop have "(case lr of Inl e \<Rightarrow> (Inl e, lm)
        | Inr (l, f) \<Rightarrow> (Inr f, remember_missing l f lm)) = (r, memo')"
      by (simp add: below_checkpoint_def memo1_def [symmetric] split: sum.splits)
    with res show ?thesis
      by (auto simp: below_inv_def remember_missing_ok split: sum.splits)
  qed
qed

section \<open>Reading offsets is right\<close>

lemma complete_checkpoint_version: "complete_checkpoint v files = Some c \<Longrightarrow> ck_version c = v"
  by (auto simp: complete_checkpoint_def Let_def split: option.splits prod.splits)

lemma by_version_range:
  assumes "v \<in> fst ` set (by_version h lo hi listing)"
  shows "lo \<le> v \<and> v \<le> hi"
proof -
  let ?f = "\<lambda>acc m. case checkpoint_file m (h_log_path h) of
      None \<Rightarrow> acc
    | Some (v, kind) \<Rightarrow>
        if lo \<le> v \<and> v \<le> hi \<and> om_size m > 0
        then bt_insert v ((case bt_get acc v of Some fs \<Rightarrow> fs | None \<Rightarrow> []) @ [(kind, m)]) acc
        else acc"
  have step: "fst ` set (?f acc m) \<subseteq> fst ` set acc \<union> {lo..hi}" for acc m
  proof (cases "checkpoint_file m (h_log_path h)")
    case (Some vk)
    obtain v kind where "vk = (v, kind)" by (cases vk)
    with Some show ?thesis by (simp add: set_bt_insert_keys)
  qed auto
  have "fst ` set (foldl ?f acc ms) \<subseteq> fst ` set acc \<union> {lo..hi}" for acc ms
  proof (induction ms arbitrary: acc)
    case (Cons m ms)
    have "fst ` set (foldl ?f (?f acc m) ms) \<subseteq> fst ` set acc \<union> {lo..hi}"
      by (rule subset_trans [OF Cons.IH]) (use step in blast)
    then show ?case by (simp only: foldl_Cons)
  qed simp
  from this [of "[]" listing] assms show ?thesis unfolding by_version_def by auto
qed

lemma newest_checkpoint_version: "newest_checkpoint h v = Inr (Some c) \<Longrightarrow> ck_version c \<le> v"
proof -
  have between: "ck_version c \<le> hi" if "checkpoint_between h lo hi = Inr (Some c)" for lo hi
  proof -
    from that obtain listing where "find_map (\<lambda>(v, files). complete_checkpoint v files)
        (rev (by_version h lo hi listing)) = Some c"
      by (auto simp: checkpoint_between_def split: sum.splits)
    from find_map_Some [OF this] obtain w files where "(w, files) \<in> set (by_version h lo hi listing)"
      "complete_checkpoint w files = Some c" by auto
    with by_version_range [of w h lo hi listing] complete_checkpoint_version [of w files c]
    show ?thesis by force
  qed
  show "newest_checkpoint h v = Inr (Some c) \<Longrightarrow> ck_version c \<le> v"
    by (auto simp: newest_checkpoint_def Let_def dest!: between split: option.splits if_splits)
qed

lemma covers_answers:
  assumes "covers hist head wanted lo f" "lo \<le> Suc head" "all_found wanted f \<or> lo = 0" "distinct wanted"
  shows "answers hist head wanted f"
  unfolding answers_def
proof
  fix i assume i: "i \<in> set wanted"
  have "newest_in hist i lo (Suc head) \<noteq> None \<or> lo = 0"
    using assms(3) all_found_covers [OF assms(1) _ assms(4) i] by blast
  with covers_good [OF assms(1) i assms(2)] show "good_answer hist head i (bt_get f i)" by blast
qed

lemma ask_checkpoint_good:
  assumes ok: "handle_ok h hist head" and memo: "memo_ok hist memo" and dist: "distinct wanted"
    and holds: "checkpoint_holds h hist c" and le: "ck_version c \<le> head"
    and cov: "covers hist head wanted lo found" and lo: "lo = ck_version c \<or> lo = Suc (ck_version c)"
    and run: "ask_checkpoint h c wanted marks found memo = (r, memo')"
  shows "memo_ok hist memo' \<and> (case r of Inl e \<Rightarrow> True | Inr found' \<Rightarrow> answers hist head wanted found')"
proof -
  define rest where "rest = filter (\<lambda>i. \<not> bt_mem i found) wanted"
  have absent: "newest_in hist i lo (Suc head) = None" "bt_get found i = None" if "i \<in> set rest" for i
    using that cov by (auto simp: rest_def bt_mem_def covers_def)
  have same: "\<forall>i \<in> set rest. newest_version hist i head = newest_version hist i (ck_version c)"
    using newest_state_below [OF absent(1) lo le] by (simp add: newest_version_def)
  show ?thesis
  proof (cases "checkpoint_answers h c rest found")
    case (Inl e)
    with run have "r = Inl e" "memo' = memo"
      by (simp_all add: ask_checkpoint_def rest_def [symmetric])
    with memo show ?thesis by simp
  next
    case (Inr found1)
    have kernel: "\<forall>i v. h_transaction_version h i = Inr v \<longrightarrow> v = newest_version hist i head"
      using ok by (simp add: handle_ok_def)
    from checkpoint_answers_good [OF holds kernel same Inr] absent(2)
    have get: "\<And>i. i \<notin> set rest \<Longrightarrow> bt_get found1 i = bt_get found i"
      "\<And>i. i \<in> set rest \<Longrightarrow> bt_get found1 i
         = map_option (\<lambda>v. \<lparr>ts_version = Some v, ts_mark = None\<rparr>) (newest_version hist i head)"
      by auto
    have good: "answers hist head wanted found1"
      unfolding answers_def
    proof
      fix i assume i: "i \<in> set wanted"
      show "good_answer hist head i (bt_get found1 i)"
      proof (cases "i \<in> set rest")
        case True
        with get(2) show ?thesis by (auto simp: good_answer_def split: option.split)
      next
        case False
        then have "newest_in hist i lo (Suc head) \<noteq> None"
          using i cov by (auto simp: rest_def bt_mem_def covers_def)
        moreover have "lo \<le> Suc head" using lo le by auto
        ultimately show ?thesis using covers_good [OF cov i] get(1) [OF False] by simp
      qed
    qed
    define answered where "answered = filter (\<lambda>i. bt_mem i found1 \<and> may_carry_a_mark i) rest"
    have run': "(if marks \<and> answered \<noteq> [] then below_checkpoint h (ck_version c) answered found1 memo
        else (Inr found1, memo)) = (r, memo')"
      using run Inr by (simp add: ask_checkpoint_def rest_def [symmetric] answered_def [symmetric] Let_def)
    show ?thesis
    proof (cases "marks \<and> answered \<noteq> []")
      case True
      have serves: "serves h hist" using ok by (simp add: handle_ok_def)
      have sub: "set answered \<subseteq> set wanted" "distinct answered"
        using dist by (auto simp: answered_def rest_def)
      have "\<forall>i \<in> set answered. \<forall>s. bt_get found1 i = Some s \<longrightarrow> ts_mark s = None"
        using get(2) by (auto simp: answered_def)
      from below_checkpoint_good [OF serves good memo le sub this] run' True show ?thesis by simp
    next
      case False
      with run' good memo show ?thesis by auto
    qed
  qed
qed

lemma walk_down_good:
  assumes ok: "handle_ok h hist head" and memo: "memo_ok hist memo" and dist: "distinct wanted"
    and ckpt: "newest_checkpoint h head = Inr ckpt"
    and cov: "covers hist head wanted (if there then head else Suc head) found0"
    and run: "walk_down h head there wanted marks ckpt found0 memo = (r, memo')"
  shows "memo_ok hist memo' \<and> (case r of Inl e \<Rightarrow> True | Inr found \<Rightarrow> answers hist head wanted found)"
proof -
  define bottom where "bottom = (case ckpt of Some c \<Rightarrow> ck_version c | None \<Rightarrow> 0)"
  have le: "bottom \<le> head"
    using ckpt newest_checkpoint_version by (auto simp: bottom_def split: option.splits)
  have serves: "serves h hist" using ok by (simp add: handle_ok_def)
  show ?thesis
  proof (cases "\<not> there \<and> map_option ck_version ckpt \<noteq> Some head")
    case True
    with run memo show ?thesis by (auto simp: walk_down_def)
  next
    case False
    then have at: "there \<or> bottom = head \<and> ckpt \<noteq> None" by (auto simp: bottom_def)
    show ?thesis
    proof (cases "walk_commits h ckpt bottom wanted (down_from head bottom) found0")
      case (Inl e)
      with run memo False show ?thesis by (auto simp: walk_down_def Let_def bottom_def)
    next
      case (Inr df)
      obtain d f where df: "df = (d, f)" by (cases df)
      note steps = Inr [unfolded df]
      obtain lo where lo: "lo \<le> Suc head" "covers hist head wanted lo f" "d \<longrightarrow> all_found wanted f"
        "\<not> d \<longrightarrow> lo = bottom \<or> (ckpt \<noteq> None \<and> lo = Suc bottom)"
      proof (cases there)
        case True
        then have "covers hist head wanted head found0" using cov by simp
        from walk_commits_covers [OF serves steps this le] obtain lo where
          "bottom \<le> lo" "lo \<le> Suc head" "covers hist head wanted lo f"
          "if d then all_found wanted f
           else lo = bottom \<or> (ckpt \<noteq> None \<and> lo \<le> Suc bottom) \<or> lo = head \<and> head = bottom" by auto
        then show ?thesis by (intro that [of lo]) (auto split: if_splits)
      next
        case False
        with at have "bottom = head" "ckpt \<noteq> None" by auto
        then have "down_from head bottom = []" by (simp add: down_from_def)
        with steps have "d = False" "f = found0" by auto
        with False cov \<open>bottom = head\<close> \<open>ckpt \<noteq> None\<close> that [of "Suc head"] show ?thesis by auto
      qed
      have run': "(if d then (Inr f, memo)
          else (case ckpt of None \<Rightarrow> (Inr f, memo)
                | Some c \<Rightarrow> ask_checkpoint h c wanted marks f memo)) = (r, memo')"
        using run unfolding walk_down_def Let_def bottom_def [symmetric] if_not_P [OF False] steps
        by simp
      show ?thesis
      proof (cases d)
        case True
        with covers_answers [OF lo(2,1) _ dist] lo(3) run' memo show ?thesis by auto
      next
        case nd: False
        show ?thesis
        proof (cases ckpt)
          case None
          with nd lo(4) have "lo = 0" by (simp add: bottom_def)
          with covers_answers [OF lo(2,1) _ dist] nd None run' memo show ?thesis by auto
        next
          case (Some c)
          have "checkpoint_holds h hist c" using ok ckpt Some by (simp add: handle_ok_def)
          moreover have "ck_version c \<le> head" using le Some by (simp add: bottom_def)
          moreover have "lo = ck_version c \<or> lo = Suc (ck_version c)"
            using lo(4) nd Some by (auto simp: bottom_def)
          ultimately show ?thesis
            using ask_checkpoint_good [OF ok memo dist _ _ lo(2)] run' nd Some by auto
        qed
      qed
    qed
  qed
qed

lemma walk_good:
  assumes ok: "handle_ok h hist head" and memo: "memo_ok hist memo" and dist: "distinct wanted"
    and run: "walk h head wanted marks memo = (r, memo')"
  shows "memo_ok hist memo' \<and> (case r of Inl e \<Rightarrow> True | Inr found \<Rightarrow> answers hist head wanted found)"
proof (cases "h_read_commit_entry h head")
  case (Inl e)
  with run memo show ?thesis by (auto simp: walk_def)
next
  case read: (Inr head_commit)
  have serves: "serves h hist" using ok by (simp add: handle_ok_def)
  define first where "first = (case head_commit of
      Some bytes \<Rightarrow> record_commit h bytes wanted [] | None \<Rightarrow> Inr [])"
  have run': "(case first of
      Inl e \<Rightarrow> (Inl e, memo)
    | Inr found0 \<Rightarrow>
        if head_commit \<noteq> None \<and> all_found wanted found0 then (Inr found0, memo)
        else (case newest_checkpoint h head of
                Inl e \<Rightarrow> (Inl e, memo)
              | Inr ckpt \<Rightarrow> walk_down h head (head_commit \<noteq> None) wanted marks ckpt found0 memo)) = (r, memo')"
    using run unfolding walk_def read first_def by simp
  show ?thesis
  proof (cases first)
    case (Inl e)
    with run' memo show ?thesis by auto
  next
    case (Inr found0)
    have empty: "covers hist head wanted (Suc head) []" by (auto simp: covers_def)
    have cov: "covers hist head wanted (if head_commit \<noteq> None then head else Suc head) found0"
    proof (cases head_commit)
      case None
      with Inr empty show ?thesis by (simp add: first_def)
    next
      case (Some bytes)
      with Inr have "record_commit h bytes wanted [] = Inr found0" by (simp add: first_def)
      from covers_commit [OF serves empty _ _ this] read Some show ?thesis by simp
    qed
    show ?thesis
    proof (cases "head_commit \<noteq> None \<and> all_found wanted found0")
      case True
      with covers_answers [OF cov _ _ dist] run' Inr memo show ?thesis by auto
    next
      case False
      show ?thesis
      proof (cases "newest_checkpoint h head")
        case (Inl e)
        with run' memo \<open>first = Inr found0\<close> False show ?thesis by (auto split: if_splits)
      next
        case ckpt: (Inr ckpt)
        from run' Inr False ckpt
        have "walk_down h head (head_commit \<noteq> None) wanted marks ckpt found0 memo = (r, memo')"
          by (simp split: if_splits)
        from walk_down_good [OF ok memo dist ckpt cov this] show ?thesis .
      qed
    qed
  qed
qed

lemma read_log_good:
  assumes ok: "handle_ok h hist head" and memo: "memo_ok hist memo"
    and run: "read_log h app_ids marks memo = (r, memo')"
  shows "memo_ok hist memo' \<and> (case r of
      Inl e \<Rightarrow> True
    | Inr m \<Rightarrow> bt_wf m \<and> bt_keys m = bs_collect app_ids
        \<and> (\<forall>i \<in> set app_ids. \<exists>s. bt_get m i = Some s \<and> ts_version s = newest_version hist i head
             \<and> (\<forall>mk. ts_mark s = Some mk \<longrightarrow> mark_recorded hist (Suc head) i (ts_version s) mk)))"
proof -
  define wanted where "wanted = bs_collect app_ids"
  have wf: "bs_wf wanted" by (simp add: wanted_def)
  then have dist: "distinct wanted" using strict_sorted_iff unfolding bs_wf_def by blast
  let ?answer = "\<lambda>found. map (\<lambda>i. (i, case bt_get found i of Some s \<Rightarrow> s | None \<Rightarrow> default_txn_state)) wanted"
  have keys: "bt_keys (?answer f) = wanted" "bt_wf (?answer f)" for f
    using wf by (simp_all add: bt_wf_def bs_wf_def comp_def)
  have get: "bt_get (?answer f) i = (if i \<in> set wanted
      then Some (case bt_get f i of Some s \<Rightarrow> s | None \<Rightarrow> default_txn_state) else None)" for f i
    by (simp add: map_of_map_keys [unfolded o_def] map_of_map_restrict restrict_map_def)
  have set: "set wanted = set app_ids" by (simp add: wanted_def)
  show ?thesis
  proof (cases "wanted = []")
    case True
    with run have "r = Inr (?answer [])" "memo' = memo" by (auto simp: read_log_def wanted_def [symmetric])
    with True set keys memo show ?thesis by (simp add: wanted_def)
  next
    case False
    have head: "h_version h = Some head" using ok by (simp add: handle_ok_def)
    obtain wr wm where walk: "walk h head wanted marks memo = (wr, wm)" by (meson surj_pair)
    note good = walk_good [OF ok memo dist walk]
    have out: "(case wr of Inl e \<Rightarrow> (Inl e, wm) | Inr found \<Rightarrow> (Inr (?answer found), wm)) = (r, memo')"
      using run False head walk by (simp add: read_log_def wanted_def [symmetric] Let_def)
    show ?thesis
    proof (cases wr)
      case (Inl e)
      with out good show ?thesis by auto
    next
      case (Inr found)
      with out have r: "r = Inr (?answer found)" "memo' = wm" by auto
      have ans: "good_answer hist head i (bt_get found i)" if "i \<in> set app_ids" for i
        using good Inr that set by (auto simp: answers_def)
      have "\<exists>s. bt_get (?answer found) i = Some s \<and> ts_version s = newest_version hist i head
          \<and> (\<forall>mk. ts_mark s = Some mk \<longrightarrow> mark_recorded hist (Suc head) i (ts_version s) mk)"
        if "i \<in> set app_ids" for i
        using ans [OF that] that set unfolding get
        by (cases "bt_get found i") (auto simp: good_answer_def default_txn_state_def)
      with good r keys show ?thesis unfolding wanted_def by simp
    qed
  qed
qed

text \<open>A target's log to evaluate the reader on: two partitions written at 1, the first again at 2.\<close>

definition example_txn_line :: "string \<Rightarrow> int \<Rightarrow> json" where
  "example_txn_line i v = JObj [(''txn'', JObj [(''appId'', JStr i), (''version'', JInt v)])]"

definition example_info_line :: "(string \<times> json) list \<Rightarrow> json" where
  "example_info_line marks =
     JObj [(''commitInfo'', JObj [(''ddi.appId'', JStr ''a''), (''ddi.kafka.marks'', JObj marks)])]"

definition example_json :: "string \<Rightarrow> json list \<times> bool" where
  "example_json s =
     (if s = ''c0'' then ([JObj [(''metaData'', JObj [(''id'', JStr ''t1'')])]], False)
      else if s = ''c1'' then
        ([example_info_line [(''0'', JArr [JInt 5, JInt 100, JInt 3]), (''1'', JArr [JInt 9, JInt 101, JInt 4])],
          example_txn_line ''a-0'' 5, example_txn_line ''a-1'' 9], False)
      else ([example_info_line [(''0'', JArr [JInt 7, JInt 102, JInt 2])], example_txn_line ''a-0'' 7], False))"

definition example_bytes :: "version \<Rightarrow> string" where
  "example_bytes v = (if v = 0 then ''c0'' else if v = 1 then ''c1'' else ''c2'')"

definition example_history :: "version \<Rightarrow> log_line list" where
  "example_history v =
     (case example_json (example_bytes v) of (js, failed) \<Rightarrow> fst (typed_stream decode_log_line js failed))"

definition example_handle :: handle where
  "example_handle =
     \<lparr>h_version = Some 2, h_url = ''file:///t'', h_configuration = Inr [], h_can_write = None,
      h_log_path = [''t'', ''_delta_log''],
      h_read_commit_entry = (\<lambda>v. Inr (if v \<le> 2 then Some (example_bytes v) else None)),
      h_list_with_offset = (\<lambda>_. Inr []), h_get = (\<lambda>_. Inl OS_NotFound), h_head = (\<lambda>_. Inr ()),
      h_txn_column = (\<lambda>_. Inr None),
      h_transaction_version = (\<lambda>i. Inr (newest_version example_history i 2)),
      h_json_stream = example_json, h_metadata_column = (\<lambda>_. Inr None)\<rparr>"

lemma example_newest_checkpoint: "newest_checkpoint example_handle v = Inr None"
  by (simp add: newest_checkpoint_def last_checkpoint_hint_def checkpoint_between_def by_version_def
      example_handle_def Let_def)

lemma example_handle_ok: "handle_ok example_handle example_history 2"
  unfolding handle_ok_def serves_def example_newest_checkpoint
  by (auto simp: example_handle_def log_lines_def example_history_def split: if_splits prod.splits)

lemmas read_log_defs =
  read_txns_def read_log_def walk_def walk_down_def record_commit_def log_lines_def
  refuse_txn_retention_def example_handle_def example_bytes_def example_json_def
  example_txn_line_def example_info_line_def decode_log_line_def decode_txn_def decode_commit_info_def
  struct_fields_def opt_field_def txn_state_of_def mark_for_def all_found_def down_from_def
  bs_collect_def bt_collect_def bt_extend_def bt_mem_def default_txn_state_def upt_rec i64_def Let_def
  example_newest_checkpoint [unfolded example_handle_def]

text \<open>
  C12. Reading offsets is exact or fails: for every appId asked about, the answer is the newest
  \<open>txn\<close> at or below the handle's version, or that there is none, whatever mix of commits, checkpoint
  and kernel it came from and however much of the log has been cleaned up; and a mark beside it was
  recorded by a commit of the log that wrote that very offset.
\<close>

theorem read_txns_newest:
  assumes "handle_ok h hist head" and "read_txns h app_ids = Inr m"
  shows "bt_keys m = bs_collect app_ids
    \<and> (\<forall>i \<in> set app_ids. \<exists>s. bt_get m i = Some s \<and> ts_version s = newest_version hist i head
         \<and> (\<forall>mk. ts_mark s = Some mk \<longrightarrow> mark_recorded hist (Suc head) i (ts_version s) mk))"
proof -
  from assms(2) have "fst (read_log h app_ids True default_memo) = Inr m"
    by (simp add: read_txns_def)
  then obtain memo' where "read_log h app_ids True default_memo = (Inr m, memo')"
    by (cases "read_log h app_ids True default_memo") auto
  from read_log_good [OF assms(1) memo_ok_default this] show ?thesis by simp
qed

theorem read_txns_newest_witness:
  "\<exists>m. read_txns example_handle [''a-1'', ''a-0'', ''a.ddi''] = Inr m
     \<and> map_option ts_version (bt_get m ''a-0'') = Some (newest_version example_history ''a-0'' 2)
     \<and> map_option ts_version (bt_get m ''a-0'') = Some (Some 7)
     \<and> map_option ts_version (bt_get m ''a.ddi'') = Some None"
proof -
  obtain m where m: "read_txns example_handle [''a-1'', ''a-0'', ''a.ddi''] = Inr m"
    "map_option ts_version (bt_get m ''a-0'') = Some (Some 7)"
    "map_option ts_version (bt_get m ''a.ddi'') = Some None"
    by (simp add: read_log_defs)
  from read_txns_newest [OF example_handle_ok m(1)] m show ?thesis by auto
qed

end
