(* ===== verification/Fence.thy ===== *)
theory Fence
  imports Fence_Spec
begin

text \<open>
  \<open>src/fence.rs\<close>, the \<open>Fence\<close>: the offsets one writer holds for the partitions it owns, and the
  \<open>txn\<close>s each of its commits carries. An operation that reads the log takes the handle it reads;
  one that may fail returns its result beside the fence it leaves.
\<close>

record fence =
  f_app_id :: string
  f_base :: "(partition, int option \<times> message_mark option) bmap"
  f_carried :: "partition bset"
  f_marker :: "bool option"
  f_below :: below_memo

definition fence_new :: "string \<Rightarrow> fence" where
  "fence_new app_id =
     \<lparr>f_app_id = app_id, f_base = [], f_carried = [], f_marker = None, f_below = default_memo\<rparr>"

definition owned :: "fence \<Rightarrow> partition list" where
  "owned f = bt_keys (f_base f)"

definition takeover_marker_due :: "fence \<Rightarrow> bool" where
  "takeover_marker_due f \<longleftrightarrow> f_marker f \<noteq> Some True"

definition ids_to_read :: "fence \<Rightarrow> partition list \<Rightarrow> string list" where
  "ids_to_read f partitions =
     map (txn_app_id (f_app_id f)) partitions
     @ (if f_marker f \<noteq> Some True then [takeover_marker_app_id (f_app_id f)] else [])"

definition read_marker :: "found \<Rightarrow> fence \<Rightarrow> fence" where
  "read_marker txns f =
     (case bt_get txns (takeover_marker_app_id (f_app_id f)) of
        Some txn \<Rightarrow> f\<lparr>f_marker := Some (ts_version txn \<noteq> None)\<rparr>
      | None \<Rightarrow> f)"

definition base_of :: "fence \<Rightarrow> partition \<Rightarrow> (int option \<times> message_mark option) option" where
  "base_of f p = bt_get (f_base f) p"

definition is_txn_retention :: "error \<Rightarrow> bool" where
  "is_txn_retention e = (case e of E_KafkaTxnRetention _ _ \<Rightarrow> True | _ \<Rightarrow> False)"

text \<open>The partitions this fence held at an offset the table no longer has.\<close>

definition vanished_of :: "fence \<Rightarrow> found \<Rightarrow> partition list \<Rightarrow> (partition \<times> int) list" where
  "vanished_of f txns own =
     List.map_filter (\<lambda>p.
       Option.bind (Option.bind (bt_get (f_base f) p) fst) (\<lambda>held.
         if Option.bind (bt_get txns (txn_app_id (f_app_id f) p)) ts_version = None
         then Some (p, held) else None)) own"

definition reset :: "fence \<Rightarrow> handle \<Rightarrow> partition list \<Rightarrow> unit res \<times> fence" where
  "reset f h own =
     (let ids = ids_to_read f own;
          (read, below) = (case refuse_txn_retention h of
              Inl e \<Rightarrow> (Inl e, f_below f)
            | Inr _ \<Rightarrow> read_log h ids True (f_below f));
          f1 = f\<lparr>f_below := below\<rparr>
      in case read of
           Inl e \<Rightarrow>
             (Inl e, f1\<lparr>f_carried := [],
                        f_marker := (if f_marker f = Some False \<or> is_txn_retention e then None
                                     else f_marker f)\<rparr>)
         | Inr txns \<Rightarrow>
             let f2 = read_marker txns f1;
                 vanished = vanished_of f2 txns own
             in if vanished \<noteq> [] then
                  (Inl (E_KafkaOffsetVanished (h_url h) (f_app_id f) vanished), f2\<lparr>f_carried := []\<rparr>)
                else
                  (Inr (), f2\<lparr>
                     f_base := bt_collect (map (\<lambda>p.
                       let txn = (case bt_get txns (txn_app_id (f_app_id f) p) of
                             Some s \<Rightarrow> s | None \<Rightarrow> default_txn_state)
                       in (p, (ts_version txn, ts_mark txn))) own),
                     f_carried := bs_collect own\<rparr>))"

type_synonym ranges = "(partition, int \<times> int) bmap"

text \<open>The first unverified partition whose offset is not the one held.\<close>

fun mismatch :: "fence \<Rightarrow> found \<Rightarrow> partition list \<Rightarrow> error option" where
  "mismatch f txns [] = None"
| "mismatch f txns (p # ps) =
     (let expected = (case bt_get (f_base f) p of Some (b, _) \<Rightarrow> b | None \<Rightarrow> None);
          held = Option.bind (bt_get txns (txn_app_id (f_app_id f) p)) ts_version
      in if held \<noteq> expected then Some (E_Fenced (f_app_id f) p expected held)
         else mismatch f txns ps)"

definition verify :: "fence \<Rightarrow> handle \<Rightarrow> ranges \<Rightarrow> unit res \<times> fence" where
  "verify f h rs =
     (let unverified = filter (\<lambda>p. p \<notin> set (f_carried f)) (bt_keys rs)
      in if unverified = [] \<and> f_marker f \<noteq> None then (Inr (), f)
         else if \<exists>p \<in> set unverified. \<not> bt_mem p (f_base f)
         then (Inl (E_Other ''internal: a batch read a partition this writer does not own''), f)
         else
           let ids = map (txn_app_id (f_app_id f)) unverified
                 @ (if f_marker f = None then [takeover_marker_app_id (f_app_id f)] else [])
           in case refuse_txn_retention h of
                Inl e \<Rightarrow> (Inl e, f\<lparr>f_marker := None\<rparr>)
              | Inr _ \<Rightarrow>
                  (case fst (read_log h ids False default_memo) of
                     Inl e \<Rightarrow> (Inl e, f)
                   | Inr txns \<Rightarrow>
                       let f1 = read_marker txns f
                       in case mismatch f1 txns unverified of
                            Some e \<Rightarrow> (Inl e, f1)
                          | None \<Rightarrow> (Inr (), f1\<lparr>f_carried := bs_collect (f_carried f1 @ unverified)\<rparr>)))"

definition keep_mark :: "int \<Rightarrow> message_mark option \<Rightarrow> message_mark option" where
  "keep_mark offset m = opt_filter (\<lambda>k. mk_offset k = offset) m"

text \<open>\<open>assert_map\<close>: the batch's partitions at their last offset, then every other carried one.\<close>

definition assert_map ::
    "fence \<Rightarrow> ranges \<Rightarrow> (partition, message_mark) bmap
       \<Rightarrow> (partition, int) bmap \<times> (partition, message_mark) bmap" where
  "assert_map f rs marks =
     (let batch = bt_filter_map (\<lambda>p r. Some (snd r, keep_mark (snd r) (bt_get marks p))) rs;
          others = List.map_filter (\<lambda>p.
            if bt_mem p rs then None
            else case bt_get (f_base f) p of
                   Some (Some b, m) \<Rightarrow> Some (p, b, keep_mark b m)
                 | _ \<Rightarrow> None) (f_carried f);
          all = batch @ others
      in (bt_collect (map (\<lambda>(p, v, _). (p, v)) all),
          bt_collect (List.map_filter (\<lambda>(p, _, m). map_option (Pair p) m) all)))"

definition committed :: "kafka_offsets \<Rightarrow> fence \<Rightarrow> fence" where
  "committed o' f =
     (let f1 = (if ko_takeover_marker o' then f\<lparr>f_marker := Some True\<rparr> else f);
          step = (\<lambda>(base, carried) (p, v).
            if bt_mem p base
            then (bt_insert p (Some v, keep_mark v (bt_get (ko_marks o') p)) base, bs_insert p carried)
            else (base, carried));
          (base, carried) = foldl step (f_base f1, []) (ko_assert o')
      in f1\<lparr>f_base := base, f_carried := carried\<rparr>)"

definition forget :: "partition \<Rightarrow> fence \<Rightarrow> fence" where
  "forget p f = f\<lparr>f_base := bt_remove p (f_base f), f_carried := bs_remove p (f_carried f)\<rparr>"

section \<open>Well-formed fences\<close>

text \<open>
  Partitions are a topic's; carried ones are owned; and every partition with a known offset is
  carried, unless a failed reset has left nothing carried.
\<close>

definition fence_wf :: "fence \<Rightarrow> bool" where
  "fence_wf f \<longleftrightarrow> bt_wf (f_base f) \<and> bs_wf (f_carried f)
     \<and> set (f_carried f) \<subseteq> set (bt_keys (f_base f))
     \<and> (\<forall>p \<in> set (bt_keys (f_base f)). 0 \<le> p \<and> p < 2 ^ 31)"

definition offset_at :: "fence \<Rightarrow> partition \<Rightarrow> int option" where
  "offset_at f p = Option.bind (bt_get (f_base f) p) fst"

lemma offset_at_frame [simp]:
  "offset_at (f\<lparr>f_marker := m\<rparr>) p = offset_at f p" "offset_at (f\<lparr>f_carried := c\<rparr>) p = offset_at f p"
  "offset_at (f\<lparr>f_below := b\<rparr>) p = offset_at f p"
  by (simp_all add: offset_at_def)

definition known_carried :: "fence \<Rightarrow> bool" where
  "known_carried f \<longleftrightarrow> (\<forall>p. offset_at f p \<noteq> None \<longrightarrow> p \<in> set (f_carried f))"

lemma fence_wf_new [simp]: "fence_wf (fence_new a)" "known_carried (fence_new a)"
  by (simp_all add: fence_wf_def fence_new_def bs_wf_def known_carried_def offset_at_def)

lemma read_marker_frame [simp]:
  "f_base (read_marker t f) = f_base f" "f_carried (read_marker t f) = f_carried f"
  "f_app_id (read_marker t f) = f_app_id f" "f_below (read_marker t f) = f_below f"
  by (simp_all add: read_marker_def split: option.split)

lemma fence_wf_nonneg: "fence_wf f \<Longrightarrow> p \<in> set (bt_keys (f_base f)) \<Longrightarrow> 0 \<le> p \<and> p < 2 ^ 31"
  unfolding fence_wf_def by blast

lemma base_known_owned: "offset_at f p \<noteq> None \<Longrightarrow> p \<in> set (bt_keys (f_base f))"
  by (auto simp: offset_at_def map_of_eq_None_iff bind_eq_None_conv)

lemma known_owned: "offset_at f p \<noteq> None \<Longrightarrow> p \<in> set (owned f)"
  using base_known_owned by (simp add: owned_def)

section \<open>What a commit asserts\<close>

lemma map_of_map_filter_keys:
  "map_of (List.map_filter (\<lambda>p. map_option (Pair p) (g p)) ps) q = (if q \<in> set ps then g q else None)"
  by (induction ps) (auto simp: List.map_filter_simps split: option.splits)

lemma keys_map_filter:
  "fst ` set (List.map_filter (\<lambda>p. map_option (Pair p) (g p)) ps) = {p \<in> set ps. g p \<noteq> None}"
  by (induction ps) (auto simp: List.map_filter_simps split: option.splits)

lemma distinct_map_filter:
  "distinct ps \<Longrightarrow> distinct (map fst (List.map_filter (\<lambda>p. map_option (Pair p) (g p)) ps))"
proof (induction ps)
  case (Cons p ps)
  then show ?case
    using keys_map_filter [of g ps] by (auto simp: List.map_filter_simps split: option.splits)
qed (simp add: List.map_filter_simps)

definition asserted :: "fence \<Rightarrow> ranges \<Rightarrow> (partition, message_mark) bmap \<Rightarrow> partition
    \<Rightarrow> (int \<times> message_mark option) option" where
  "asserted f rs marks p =
     (case bt_get rs p of
        Some (_, l) \<Rightarrow> Some (l, keep_mark l (bt_get marks p))
      | None \<Rightarrow>
          if p \<in> set (f_carried f) then
            (case bt_get (f_base f) p of
               Some (Some b, m) \<Rightarrow> Some (b, keep_mark b m)
             | _ \<Rightarrow> None)
          else None)"

lemma assert_map_get:
  assumes wf: "fence_wf f" and rs: "bt_wf rs" and run: "assert_map f rs marks = (a, m)"
  shows "bt_wf a \<and> bt_wf m \<and> bt_get a p = map_option fst (asserted f rs marks p)
    \<and> bt_get m p = Option.bind (asserted f rs marks p) snd"
proof -
  define g where "g p = (if bt_mem p rs then None else
      case bt_get (f_base f) p of Some (Some b, m) \<Rightarrow> Some (b, keep_mark b m) | _ \<Rightarrow> None)" for p
  define batch where "batch = bt_filter_map (\<lambda>p r. Some (snd r, keep_mark (snd r) (bt_get marks p))) rs"
  define others where "others = List.map_filter (\<lambda>p. map_option (Pair p) (g p)) (f_carried f)"
  have others': "List.map_filter (\<lambda>p. if bt_mem p rs then None
      else case bt_get (f_base f) p of Some (Some b, m) \<Rightarrow> Some (p, b, keep_mark b m) | _ \<Rightarrow> None) (f_carried f)
      = others"
    unfolding others_def g_def
    by (intro arg_cong2 [of _ _ _ _ List.map_filter] ext refl) (auto split: option.splits)
  have am: "a = bt_collect (map (\<lambda>(p, v, _). (p, v)) (batch @ others))"
    "m = bt_collect (List.map_filter (\<lambda>(p, _, m). map_option (Pair p) m) (batch @ others))"
    using run unfolding assert_map_def Let_def others' batch_def [symmetric] by auto
  have carried: "distinct (f_carried f)"
    using wf strict_sorted_iff unfolding fence_wf_def bs_wf_def by blast
  have batch_get: "map_of batch q = map_option (\<lambda>r. (snd r, keep_mark (snd r) (bt_get marks q))) (bt_get rs q)" for q
    unfolding batch_def by (simp add: bt_get_filter_map [OF rs] split: option.split)
      (cases "bt_get rs q"; simp)
  have dist: "distinct (map fst (batch @ others))"
  proof -
    have "distinct (map fst batch)" unfolding batch_def by (intro bt_wf_distinct bt_wf_filter_map rs)
    moreover have "distinct (map fst others)" unfolding others_def by (rule distinct_map_filter [OF carried])
    moreover have "fst ` set batch \<inter> fst ` set others = {}"
    proof -
      have "fst ` set batch \<subseteq> fst ` set rs" unfolding batch_def by (rule bt_filter_map_keys)
      moreover have "p \<notin> fst ` set rs" if "p \<in> fst ` set others" for p
        using that unfolding others_def keys_map_filter g_def by (auto simp: bt_mem_iff split: if_splits)
      ultimately show ?thesis by blast
    qed
    ultimately show ?thesis by simp
  qed
  have all_get: "map_of (batch @ others) q = asserted f rs marks q" for q
    unfolding map_of_append map_add_def batch_get others_def map_of_map_filter_keys
    by (auto simp: asserted_def g_def bt_mem_def split: option.splits)
  have dist_a: "distinct (map fst (map (\<lambda>(p, v, _). (p, v)) xs))"
    if "distinct (map fst xs)" for xs :: "(partition \<times> int \<times> message_mark option) list"
    using that by (simp add: comp_def case_prod_beta)
  have get_a: "map_of (map (\<lambda>(p, v, _). (p, v)) xs) q = map_option fst (map_of xs q)"
    for xs :: "(partition \<times> int \<times> message_mark option) list" and q
    by (induction xs) auto
  have keys_m: "fst ` set (List.map_filter (\<lambda>(p, _, m). map_option (Pair p) m) xs) \<subseteq> fst ` set xs"
    for xs :: "(partition \<times> int \<times> message_mark option) list"
    by (induction xs) (auto simp: List.map_filter_simps split: option.splits)
  have dist_m: "distinct (map fst (List.map_filter (\<lambda>(p, _, m). map_option (Pair p) m) xs))"
    if "distinct (map fst xs)" for xs :: "(partition \<times> int \<times> message_mark option) list"
    using that
  proof (induction xs)
    case (Cons x xs)
    obtain p v m where x: "x = (p, v, m)" by (cases x)
    have "p \<notin> fst ` set (List.map_filter (\<lambda>(p, _, m). map_option (Pair p) m) xs)"
      using Cons.prems keys_m [of xs] x by auto
    with Cons x show ?case by (auto simp: List.map_filter_simps split: option.splits)
  qed (simp add: List.map_filter_simps)
  have get_m: "map_of (List.map_filter (\<lambda>(p, _, m). map_option (Pair p) m) xs) q = Option.bind (map_of xs q) snd"
    if "distinct (map fst xs)" for xs :: "(partition \<times> int \<times> message_mark option) list" and q
    using that
  proof (induction xs)
    case (Cons x xs)
    have "map_of (List.map_filter (\<lambda>(p, _, m). map_option (Pair p) m) xs) (fst x) = None"
      using Cons.prems keys_m [of xs] by (auto simp: map_of_eq_None_iff)
    with Cons show ?case by (cases x) (auto simp: List.map_filter_simps split: option.splits)
  qed (simp add: List.map_filter_simps)
  show ?thesis
    unfolding am
    using bt_get_collect_distinct [OF dist_a [OF dist], of p] bt_get_collect_distinct [OF dist_m [OF dist], of p]
    unfolding get_a get_m [OF dist] all_get by simp
qed

lemma assert_map_known:
  assumes "fence_wf f" and "known_carried f" and "bt_wf rs" and "assert_map f rs marks = (a, m)"
  shows "bt_get a p = (case bt_get rs p of Some (_, l) \<Rightarrow> Some l | None \<Rightarrow> offset_at f p)
    \<and> (\<forall>mk. bt_get m p = Some mk \<longrightarrow> bt_get a p = Some (mk_offset mk))"
  using assert_map_get [OF assms(1,3,4), of p] assms(2)
  by (auto simp: asserted_def known_carried_def offset_at_def keep_mark_def split: option.splits)

text \<open>
  Every commit of a writer asserts everything it knows: each partition of the batch at the last
  offset it read, every other partition with a known offset at that offset, and nothing else; and
  a mark is kept only where it describes the offset it sits beside.
\<close>

lemma assert_map_asserts_all_known:
  assumes "fence_wf f" and "known_carried f" and "bt_wf rs" and "assert_map f rs marks = (a, m)"
  shows "bt_get a p = (case bt_get rs p of Some (_, l) \<Rightarrow> Some l | None \<Rightarrow> offset_at f p)
    \<and> (\<forall>mk. bt_get m p = Some mk \<longrightarrow> bt_get a p = Some (mk_offset mk))"
  using assms by (rule assert_map_known)

definition example_fence :: fence where
  "example_fence = \<lparr>f_app_id = ''a'', f_base = [(0, Some 7, None), (1, Some 9, Some \<lparr>mk_offset = 9,
      mk_timestamp_ms = 101, mk_value_len = 4\<rparr>), (2, None, None)], f_carried = [0, 1, 2],
      f_marker = Some True, f_below = default_memo\<rparr>"

lemma example_fence_wf: "fence_wf example_fence" "known_carried example_fence"
  by (auto simp: fence_wf_def example_fence_def bt_wf_def bs_wf_def known_carried_def offset_at_def
      split: if_splits)

lemma assert_map_asserts_all_known_witness:
  "\<exists>a m. assert_map example_fence [(0, 8, 12)] [] = (a, m)
     \<and> bt_get a 0 = Some 12 \<and> bt_get a 1 = Some 9 \<and> bt_get a 2 = None"
proof -
  obtain a m where r: "assert_map example_fence [(0, 8, 12)] [] = (a, m)" by (meson surj_pair)
  have wf: "bt_wf [(0, 8, 12)]" by (simp add: bt_wf_def)
  note get = assert_map_asserts_all_known [OF example_fence_wf wf r]
  from get [of 0] get [of 1] get [of 2] r show ?thesis
    by (simp add: offset_at_def example_fence_def)
qed

section \<open>Reading, verifying and landing keep the fence exact\<close>

text \<open>
  A fence is exact at a version of a log when the offset of every carried partition is the newest
  there, and what it knows of the takeover marker is so.
\<close>

definition marker_exact :: "fence \<Rightarrow> (version \<Rightarrow> log_line list) \<Rightarrow> version \<Rightarrow> bool" where
  "marker_exact f hist v \<longleftrightarrow>
     (case f_marker f of
        None \<Rightarrow> True
      | Some b \<Rightarrow> b \<longleftrightarrow> newest_version hist (takeover_marker_app_id (f_app_id f)) v \<noteq> None)"

definition exact :: "fence \<Rightarrow> (version \<Rightarrow> log_line list) \<Rightarrow> version \<Rightarrow> bool" where
  "exact f hist v \<longleftrightarrow>
     marker_exact f hist v \<and> memo_ok hist (f_below f)
     \<and> (\<forall>p \<in> set (f_carried f). offset_at f p = newest_version hist (txn_app_id (f_app_id f) p) v)"

lemma read_log_get:
  assumes "handle_ok h hist v" and "memo_ok hist memo" and "read_log h ids marks memo = (r, memo')"
  shows "memo_ok hist memo'"
    and "r = Inr txns \<Longrightarrow> i \<in> set ids \<Longrightarrow>
      \<exists>s. bt_get txns i = Some s \<and> ts_version s = newest_version hist i v"
    and "r = Inr txns \<Longrightarrow> i \<notin> set ids \<Longrightarrow> bt_get txns i = None"
proof -
  note good = read_log_good [OF assms]
  show "memo_ok hist memo'" using good by blast
  show "\<exists>s. bt_get txns i = Some s \<and> ts_version s = newest_version hist i v"
    if "r = Inr txns" "i \<in> set ids" using good that by auto
  show "bt_get txns i = None" if "r = Inr txns" "i \<notin> set ids"
  proof -
    have "set (bt_keys txns) = set ids" using good that(1) by auto
    with that(2) show ?thesis by (auto simp: map_of_eq_None_iff)
  qed
qed

lemma marker_exact_cong:
  "f_marker f = f_marker g \<Longrightarrow> f_app_id f = f_app_id g \<Longrightarrow> marker_exact f hist v = marker_exact g hist v"
  by (simp only: marker_exact_def)

text \<open>What reading the marker in the same pass tells.\<close>

lemma read_marker_exact:
  assumes ok: "handle_ok h hist v" and memo: "memo_ok hist memo"
    and read: "read_log h ids marks memo = (Inr txns, memo')"
    and asked: "takeover_marker_app_id (f_app_id f) \<in> set ids \<or> marker_exact f hist v"
    and wanted: "takeover_marker_app_id (f_app_id f) \<notin> set ids \<longrightarrow> f_marker f \<noteq> None"
  shows "marker_exact (read_marker txns f) hist v \<and> f_marker (read_marker txns f) \<noteq> None"
proof (cases "takeover_marker_app_id (f_app_id f) \<in> set ids")
  case True
  from read_log_get(2) [OF ok memo read refl True] obtain s where
    "bt_get txns (takeover_marker_app_id (f_app_id f)) = Some s"
    "ts_version s = newest_version hist (takeover_marker_app_id (f_app_id f)) v" by blast
  then show ?thesis by (simp add: read_marker_def marker_exact_def)
next
  case False
  from read_log_get(3) [OF ok memo read refl False]
  have "read_marker txns f = f" by (simp add: read_marker_def)
  with False asked wanted show ?thesis by auto
qed

lemma marker_notin_ids:
  "\<forall>p \<in> set ps. 0 \<le> p \<and> p < 2 ^ 31 \<Longrightarrow>
     takeover_marker_app_id a \<notin> set (map (txn_app_id a) ps)"
proof
  assume ps: "\<forall>p \<in> set ps. 0 \<le> p \<and> p < 2 ^ 31"
    and "takeover_marker_app_id a \<in> set (map (txn_app_id a) ps)"
  then obtain p where "p \<in> set ps" "takeover_marker_app_id a = txn_app_id a p" by auto
  with ps show False using txn_app_id_not_marker by metis
qed

lemma vanished_of_keys:
  "fst ` set (vanished_of f txns own)
     = {p \<in> set own. offset_at f p \<noteq> None
          \<and> Option.bind (bt_get txns (txn_app_id (f_app_id f) p)) ts_version = None}"
proof -
  define g where "g p = Option.bind (offset_at f p) (\<lambda>held.
      if Option.bind (bt_get txns (txn_app_id (f_app_id f) p)) ts_version = None then Some held else None)" for p
  have "Option.bind (Option.bind (bt_get (f_base f) p) fst) (\<lambda>held.
      if Option.bind (bt_get txns (txn_app_id (f_app_id f) p)) ts_version = None then Some (p, held) else None)
    = map_option (Pair p) (g p)" for p
    unfolding g_def offset_at_def by (cases "Option.bind (bt_get (f_base f) p) fst") simp_all
  then have "vanished_of f txns own = List.map_filter (\<lambda>p. map_option (Pair p) (g p)) own"
    by (simp add: vanished_of_def)
  then have "fst ` set (vanished_of f txns own) = {p \<in> set own. g p \<noteq> None}"
    by (simp only: keys_map_filter)
  moreover have "g p \<noteq> None \<longleftrightarrow> offset_at f p \<noteq> None
      \<and> Option.bind (bt_get txns (txn_app_id (f_app_id f) p)) ts_version = None" for p
    unfolding g_def by (cases "offset_at f p") simp_all
  ultimately show ?thesis by simp
qed

text \<open>A reset, whichever way it ends.\<close>

lemma reset_exact:
  assumes ok: "handle_ok h hist v" and wf: "fence_wf f" and memo: "memo_ok hist (f_below f)"
    and own: "\<forall>p \<in> set own. 0 \<le> p \<and> p < 2 ^ 31"
    and marker: "f_marker f = Some True \<longrightarrow> newest_version hist (takeover_marker_app_id (f_app_id f)) v \<noteq> None"
    and run: "reset f h own = (r, f')"
  shows "fence_wf f' \<and> exact f' hist v \<and> f_app_id f' = f_app_id f
    \<and> (case r of
         Inr _ \<Rightarrow> owned f' = bs_collect own \<and> set (f_carried f') = set own \<and> f_marker f' \<noteq> None
           \<and> (\<forall>p \<in> set own. offset_at f p \<noteq> None \<longrightarrow> offset_at f' p \<noteq> None)
       | Inl _ \<Rightarrow> f_carried f' = [] \<and> f_base f' = f_base f)"
proof -
  let ?a = "f_app_id f" and ?ids = "ids_to_read f own"
  obtain read below where rd: "(case refuse_txn_retention h of
      Inl e \<Rightarrow> (Inl e, f_below f) | Inr _ \<Rightarrow> read_log h ?ids True (f_below f)) = (read, below)"
    by (meson surj_pair)
  have below: "memo_ok hist below"
    using rd memo read_log_get(1) [OF ok memo] by (auto split: sum.splits)
  define f1 where "f1 = f\<lparr>f_below := below\<rparr>"
  have f1: "f_app_id f1 = ?a" "f_base f1 = f_base f" "f_marker f1 = f_marker f" "f_below f1 = below"
    by (simp_all add: f1_def)
  show ?thesis
  proof (cases read)
    case (Inl e)
    with run rd have "r = Inl e" "f' = f1\<lparr>f_carried := [], f_marker :=
        (if f_marker f = Some False \<or> is_txn_retention e then None else f_marker f)\<rparr>"
      by (simp_all add: reset_def f1_def)
    with wf below f1 marker show ?thesis
      by (auto simp: fence_wf_def bs_wf_def exact_def marker_exact_def split: option.splits)
  next
    case (Inr txns)
    with rd have log: "read_log h ?ids True (f_below f) = (Inr txns, below)"
      by (auto split: sum.splits)
    define f2 where "f2 = read_marker txns f1"
    have asked: "takeover_marker_app_id ?a \<in> set ?ids \<or> marker_exact f1 hist v"
      using marker f1 by (auto simp: ids_to_read_def marker_exact_def)
    have wanted: "takeover_marker_app_id ?a \<notin> set ?ids \<longrightarrow> f_marker f1 \<noteq> None"
      using f1 by (auto simp: ids_to_read_def)
    have m2: "marker_exact f2 hist v" "f_marker f2 \<noteq> None"
      using read_marker_exact [OF ok memo log, of f1] asked wanted f1 by (auto simp: f2_def)
    have f2: "f_app_id f2 = ?a" "f_base f2 = f_base f" "f_below f2 = below" by (simp_all add: f2_def f1)
    have get: "\<exists>s. bt_get txns (txn_app_id ?a p) = Some s \<and> ts_version s = newest_version hist (txn_app_id ?a p) v"
      if "p \<in> set own" for p
      by (rule read_log_get(2) [OF ok memo log refl]) (use that in \<open>simp add: ids_to_read_def\<close>)
    show ?thesis
    proof (cases "vanished_of f2 txns own = []")
      case False
      with run rd Inr have "r = Inl (E_KafkaOffsetVanished (h_url h) ?a (vanished_of f2 txns own))"
        "f' = f2\<lparr>f_carried := []\<rparr>"
        by (simp_all add: reset_def f1_def [symmetric] f2_def [symmetric] Let_def)
      with wf m2 below f2 show ?thesis
        by (auto simp: fence_wf_def bs_wf_def exact_def marker_exact_def)
    next
      case True
      define newb where "newb = map (\<lambda>p. let txn = (case bt_get txns (txn_app_id ?a p) of
          Some s \<Rightarrow> s | None \<Rightarrow> default_txn_state) in (p, (ts_version txn, ts_mark txn))) own"
      have f': "r = Inr ()" "f' = f2\<lparr>f_base := bt_collect newb, f_carried := bs_collect own\<rparr>"
        using run rd Inr True
        by (simp_all add: reset_def f1_def [symmetric] f2_def [symmetric] newb_def Let_def)
      have newb_get: "map_of (rev newb) p = (if p \<in> set own then Some (case bt_get txns (txn_app_id ?a p) of
          Some s \<Rightarrow> (ts_version s, ts_mark s) | None \<Rightarrow> (None, None)) else None)" for p
        unfolding newb_def rev_map
        by (induction own rule: rev_induct)
          (auto simp: Let_def default_txn_state_def map_add_def split: option.splits)
      have base: "bt_get (f_base f') p = map_of (rev newb) p" for p
        by (simp add: f' bt_get_collect)
      have off: "offset_at f' p = newest_version hist (txn_app_id ?a p) v" if "p \<in> set own" for p
        using get [OF that] that by (auto simp: offset_at_def base newb_get)
      have keys: "set (bt_keys (f_base f')) = set own"
        using base newb_get by (auto simp: dom_map_of_conv_image_fst [symmetric] dom_def split: if_splits)
      have "owned f' = bs_collect own"
      proof -
        have "bs_wf (owned f')" by (simp add: owned_def f' bs_wf_def bt_wf_def [symmetric])
        moreover have "set (owned f') = set (bs_collect own)" using keys by (simp add: owned_def)
        ultimately show ?thesis
          using bs_wf_collect [of own] unfolding bs_wf_def
          by (metis sorted_distinct_set_unique strict_sorted_iff)
      qed
      moreover have "offset_at f' p \<noteq> None" if "p \<in> set own" "offset_at f p \<noteq> None" for p
      proof -
        have "p \<notin> fst ` set (vanished_of f2 txns own)" using True by simp
        moreover have "offset_at f2 p = offset_at f p" by (simp add: offset_at_def f2)
        ultimately show ?thesis
          using that get [OF that(1)] off [OF that(1)] unfolding vanished_of_keys f2 by auto
      qed
      moreover have "fence_wf f'"
        using own keys by (auto simp: fence_wf_def f' image_iff) 
      moreover have "marker_exact f' hist v"
        using m2(1) marker_exact_cong [of f' f2] by (simp add: f' f2)
      then have "exact f' hist v"
        using off below by (simp add: exact_def f' f2)
      ultimately show ?thesis using f' m2(2) f2 by simp
    qed
  qed
qed

lemma mismatch_None:
  "mismatch f txns ps = None \<Longrightarrow> p \<in> set ps \<Longrightarrow>
     Option.bind (bt_get txns (txn_app_id (f_app_id f) p)) ts_version = offset_at f p"
proof (induction ps)
  case (Cons q ps)
  have "(case bt_get (f_base f) q of Some (b, _) \<Rightarrow> b | None \<Rightarrow> None) = offset_at f q"
    by (cases "bt_get (f_base f) q") (auto simp: offset_at_def)
  with Cons show ?case by (auto simp: Let_def split: if_splits)
qed simp

lemma verify_exact:
  assumes ok: "handle_ok h hist v" and wf: "fence_wf f" and ex: "exact f hist v"
    and run: "verify f h rs = (r, f')"
  shows "fence_wf f' \<and> exact f' hist v \<and> f_app_id f' = f_app_id f \<and> f_base f' = f_base f
    \<and> set (f_carried f) \<subseteq> set (f_carried f')
    \<and> (r = Inr () \<longrightarrow> f_marker f' \<noteq> None \<and> set (bt_keys rs) \<subseteq> set (f_carried f'))"
proof -
  let ?a = "f_app_id f"
  define unv where "unv = filter (\<lambda>p. p \<notin> set (f_carried f)) (bt_keys rs)"
  define ids where "ids = map (txn_app_id ?a) unv
      @ (if f_marker f = None then [takeover_marker_app_id ?a] else [])"
  consider (idle) "unv = [] \<and> f_marker f \<noteq> None"
    | (foreign) "\<not> (unv = [] \<and> f_marker f \<noteq> None)" "\<exists>p \<in> set unv. \<not> bt_mem p (f_base f)"
    | (read) "\<not> (unv = [] \<and> f_marker f \<noteq> None)" "\<not> (\<exists>p \<in> set unv. \<not> bt_mem p (f_base f))"
    by blast
  then show ?thesis
  proof cases
    case idle
    then have "r = Inr ()" "f' = f" using run by (simp_all add: verify_def unv_def [symmetric])
    moreover have "set (bt_keys rs) \<subseteq> set (f_carried f)"
    proof
      fix p assume "p \<in> set (bt_keys rs)"
      moreover from idle have "p \<notin> set unv" by simp
      ultimately show "p \<in> set (f_carried f)" by (auto simp: unv_def)
    qed
    ultimately show ?thesis using wf ex idle by auto
  next
    case foreign
    then have "f' = f" "r \<noteq> Inr ()"
      using run unfolding verify_def unv_def [symmetric] Let_def if_not_P [OF foreign(1)] if_P [OF foreign(2)]
      by auto
    with wf ex show ?thesis by auto
  next
    case read
    have run': "(case refuse_txn_retention h of
        Inl e \<Rightarrow> (Inl e, f\<lparr>f_marker := None\<rparr>)
      | Inr _ \<Rightarrow> (case fst (read_log h ids False default_memo) of
           Inl e \<Rightarrow> (Inl e, f)
         | Inr txns \<Rightarrow> (case mismatch (read_marker txns f) txns unv of
              Some e \<Rightarrow> (Inl e, read_marker txns f)
            | None \<Rightarrow> (Inr (), (read_marker txns f)\<lparr>f_carried :=
                bs_collect (f_carried (read_marker txns f) @ unv)\<rparr>)))) = (r, f')"
      using run unfolding verify_def unv_def [symmetric] Let_def if_not_P [OF read(1)] if_not_P [OF read(2)]
        ids_def [symmetric] by simp
    show ?thesis
    proof (cases "refuse_txn_retention h")
      case (Inl e)
      with run' have "r = Inl e" "f' = f\<lparr>f_marker := None\<rparr>" by auto
      with wf ex show ?thesis by (auto simp: fence_wf_def exact_def marker_exact_def)
    next
      case (Inr u)
      show ?thesis
      proof (cases "fst (read_log h ids False default_memo)")
        case (Inl e)
        with run' \<open>refuse_txn_retention h = Inr u\<close> wf ex show ?thesis by auto
      next
        case txns: (Inr txns)
        then obtain memo' where log: "read_log h ids False default_memo = (Inr txns, memo')"
          by (cases "read_log h ids False default_memo") auto
        define f1 where "f1 = read_marker txns f"
        have "takeover_marker_app_id ?a \<in> set ids \<or> marker_exact f hist v"
          "takeover_marker_app_id ?a \<notin> set ids \<longrightarrow> f_marker f \<noteq> None"
          using ex by (auto simp: ids_def exact_def)
        from read_marker_exact [OF ok memo_ok_default log this]
        have m1: "marker_exact f1 hist v" "f_marker f1 \<noteq> None" by (simp_all add: f1_def)
        have f1: "f_app_id f1 = ?a" "f_base f1 = f_base f" "f_carried f1 = f_carried f" "f_below f1 = f_below f"
          by (simp_all add: f1_def)
        have wf1: "fence_wf f1" "exact f1 hist v"
          using wf ex m1 f1 by (simp_all add: fence_wf_def exact_def offset_at_def)
        show ?thesis
        proof (cases "mismatch f1 txns unv")
          case (Some e)
          with run' Inr txns have "r = Inl e" "f' = f1" by (auto simp: f1_def)
          with wf1 f1 show ?thesis by auto
        next
          case None
          with run' Inr txns have r: "r = Inr ()" and
            f': "f' = f1\<lparr>f_carried := bs_collect (f_carried f @ unv)\<rparr>" by (auto simp: f1_def)
          have off: "offset_at f p = newest_version hist (txn_app_id ?a p) v" if "p \<in> set unv" for p
          proof -
            have "txn_app_id ?a p \<in> set ids" using that by (simp add: ids_def)
            from read_log_get(2) [OF ok memo_ok_default log refl this] mismatch_None [OF None that]
            show ?thesis by (auto simp: f1 offset_at_def)
          qed
          have unv_base: "set unv \<subseteq> set (bt_keys (f_base f))"
            using read(2) by (auto simp: bt_mem_iff)
          have "fence_wf f'"
            using wf unv_base by (auto simp: fence_wf_def f' f1)
          moreover have "marker_exact f' hist v"
            using m1(1) marker_exact_cong [of f' f1] by (simp add: f' f1)
          then have "exact f' hist v"
            using ex off by (auto simp: exact_def f' f1 offset_at_def)
          moreover have "set (bt_keys rs) \<subseteq> set (f_carried f')"
            by (auto simp: f' unv_def)
          ultimately show ?thesis using r m1(2) by (auto simp: f' f1)
        qed
      qed
    qed
  qed
qed

lemma committed_fold:
  assumes "bt_wf a" and "bt_wf base"
    and "foldl (\<lambda>(base, carried) (p, v).
      if bt_mem p base then (bt_insert p (Some v, keep_mark v (bt_get marks p)) base, bs_insert p carried)
      else (base, carried)) (base, carried) a = (base', carried')"
    and "bs_wf carried"
  shows "bt_wf base' \<and> bs_wf carried' \<and> set (bt_keys base') = set (bt_keys base)
    \<and> set carried' = set carried \<union> (set (bt_keys a) \<inter> set (bt_keys base))
    \<and> (\<forall>p. bt_get base' p = (case bt_get a p of
         Some v \<Rightarrow> if bt_mem p base then Some (Some v, keep_mark v (bt_get marks p)) else None
       | None \<Rightarrow> bt_get base p))"
  using assms
proof (induction a arbitrary: base carried)
  case (Cons e a)
  obtain q w where e: "e = (q, w)" by (cases e)
  have wfa: "bt_wf a" and qa: "q \<notin> fst ` set a" using Cons.prems(1) by (auto simp: e bt_wf_def)
  then have qn: "bt_get a q = None" by (simp add: map_of_eq_None_iff)
  show ?case
  proof (cases "bt_mem q base")
    case True
    let ?b = "bt_insert q (Some w, keep_mark w (bt_get marks q)) base"
    have mem: "bt_mem p ?b = bt_mem p base" for p using True by (simp add: bt_mem_def)
    have keys: "set (bt_keys ?b) = set (bt_keys base)"
      using True by (auto simp: set_bt_insert_keys bt_mem_iff)
    note ih = Cons.IH [OF wfa, of ?b "bs_insert q carried"]
    with Cons.prems True show ?thesis
      unfolding mem keys by (auto simp: e qn bt_mem_iff split: option.splits)
  next
    case False
    with Cons.IH [OF wfa, of base carried] Cons.prems show ?thesis
      by (auto simp: e qn bt_mem_iff bt_mem_def map_of_eq_None_iff split: option.splits)
  qed
qed auto

lemma committed_get:
  assumes wf: "fence_wf f" and a: "bt_wf (ko_assert o')"
  shows "fence_wf (committed o' f) \<and> f_app_id (committed o' f) = f_app_id f
    \<and> f_below (committed o' f) = f_below f
    \<and> owned (committed o' f) = owned f
    \<and> f_marker (committed o' f) = (if ko_takeover_marker o' then Some True else f_marker f)
    \<and> set (f_carried (committed o' f)) = set (bt_keys (ko_assert o')) \<inter> set (owned f)
    \<and> (\<forall>p \<in> set (owned f). offset_at (committed o' f) p =
         (case bt_get (ko_assert o') p of Some v \<Rightarrow> Some v | None \<Rightarrow> offset_at f p))"
proof -
  obtain base carried where fold: "foldl (\<lambda>(base, carried) (p, v).
      if bt_mem p base then (bt_insert p (Some v, keep_mark v (bt_get (ko_marks o') p)) base, bs_insert p carried)
      else (base, carried)) (f_base f, []) (ko_assert o') = (base, carried)" by (meson surj_pair)
  have wfb: "bt_wf (f_base f)" using wf by (simp add: fence_wf_def)
  note res = committed_fold [OF a wfb fold]
  have c: "committed o' f = (if ko_takeover_marker o' then f\<lparr>f_marker := Some True\<rparr> else f)
      \<lparr>f_base := base, f_carried := carried\<rparr>"
    using fold by (simp add: committed_def Let_def)
  have fields: "f_base (committed o' f) = base" "f_carried (committed o' f) = carried"
    "f_app_id (committed o' f) = f_app_id f" "f_below (committed o' f) = f_below f"
    "f_marker (committed o' f) = (if ko_takeover_marker o' then Some True else f_marker f)"
    by (simp_all add: c)
  have wf': "fence_wf (committed o' f)"
    using wf res by (auto simp: fence_wf_def fields bs_wf_def)
  have "owned (committed o' f) = owned f"
  proof (rule strict_sorted_equal)
    show "sorted_wrt (<) (owned (committed o' f))" "sorted_wrt (<) (owned f)"
      using wf wf' by (simp_all add: owned_def fence_wf_def bt_wf_def)
    show "set (owned (committed o' f)) = set (owned f)"
      using res by (simp add: owned_def fields bs_wf_def)
  qed
  moreover have "offset_at (committed o' f) p = (case bt_get (ko_assert o') p of
      Some v \<Rightarrow> Some v | None \<Rightarrow> offset_at f p)" if "p \<in> set (owned f)" for p
  proof -
    have "bt_mem p (f_base f)" using that by (simp add: owned_def bt_mem_iff)
    with res show ?thesis
      by (cases "bt_get (ko_assert o') p") (simp_all add: offset_at_def fields bs_wf_def)
  qed
  moreover have "set (f_carried (committed o' f)) = set (bt_keys (ko_assert o')) \<inter> set (owned f)"
    using res by (simp add: fields owned_def bs_wf_def)
  ultimately show ?thesis using wf' by (simp add: fields)
qed

section \<open>Properties\<close>

text \<open>
  After a reset that succeeds, the fence owns exactly the partitions asked for, every one of them
  carried at the newest offset of the log at the handle's version, knows exactly whether the
  takeover marker is there, and has lost no offset it held; after one that fails, whatever the
  reason, it carries nothing and still holds the offsets it held.
\<close>

lemma reset_reads_the_newest:
  assumes "handle_ok h hist v" and "fence_wf f" and "memo_ok hist (f_below f)"
    and "\<forall>p \<in> set own. 0 \<le> p \<and> p < 2 ^ 31"
    and "f_marker f = Some True \<longrightarrow> newest_version hist (takeover_marker_app_id (f_app_id f)) v \<noteq> None"
    and "reset f h own = (r, f')"
  shows "(case r of
      Inr _ \<Rightarrow> owned f' = bs_collect own \<and> known_carried f'
        \<and> (\<forall>p \<in> set own. offset_at f' p = newest_version hist (txn_app_id (f_app_id f) p) v
             \<and> (offset_at f p \<noteq> None \<longrightarrow> offset_at f' p \<noteq> None))
        \<and> (takeover_marker_due f' \<longleftrightarrow>
             newest_version hist (takeover_marker_app_id (f_app_id f)) v = None)
    | Inl _ \<Rightarrow> f_carried f' = [] \<and> f_base f' = f_base f)"
proof (cases r)
  case (Inr u)
  from reset_exact [OF assms] Inr
  have ex: "exact f' hist v" "f_app_id f' = f_app_id f" "owned f' = bs_collect own"
    "set (f_carried f') = set own" "f_marker f' \<noteq> None"
    "\<forall>p \<in> set own. offset_at f p \<noteq> None \<longrightarrow> offset_at f' p \<noteq> None" by auto
  have "set (owned f') = set own" using ex(3) by simp
  then have "known_carried f'"
    using ex(4) known_owned unfolding known_carried_def by blast
  with ex show ?thesis
    unfolding Inr sum.case
    by (auto simp: exact_def marker_exact_def takeover_marker_due_def split: option.splits)
next
  case (Inl e)
  with reset_exact [OF assms] show ?thesis by simp
qed

lemma show_int_small: "show_int 0 = ''0''" "show_int 1 = ''1''" "show_int 2 = ''2''"
  by code_simp+

lemma reset_reads_the_newest_witness:
  "\<exists>f'. reset (fence_new ''a'') example_handle [0, 1, 2] = (Inr (), f')
     \<and> owned f' = bs_collect [0, 1, 2] \<and> takeover_marker_due f'
     \<and> offset_at f' 0 = newest_version example_history (txn_app_id ''a'' 0) 2"
proof -
  have wf: "fence_wf (fence_new ''a'')" "memo_ok example_history (f_below (fence_new ''a''))"
    "\<forall>p \<in> set [0, 1, 2]. (0 :: int) \<le> p \<and> p < 2 ^ 31"
    "f_marker (fence_new ''a'') = Some True \<longrightarrow>
       newest_version example_history (takeover_marker_app_id (f_app_id (fence_new ''a''))) 2 \<noteq> None"
    by simp_all (simp_all add: fence_new_def)
  obtain f' where r: "reset (fence_new ''a'') example_handle [0, 1, 2] = (Inr (), f')"
    and due: "takeover_marker_due f'"
    by (simp add: reset_def fence_new_def ids_to_read_def txn_app_id_def takeover_marker_app_id_def
        show_int_small vanished_of_def List.map_filter_simps read_marker_def
        takeover_marker_due_def read_log_defs)
  from reset_reads_the_newest [OF example_handle_ok wf r] r due show ?thesis
    by (simp add: fence_new_def)
qed

text \<open>
  A commit that lands leaves no offset behind: the partitions it asserted hold the offsets it
  asserted, every other owned partition holds what it held, and every partition with a known
  offset is carried again, so that the next commit asserts it too.
\<close>

lemma committed_carries_all_known:
  assumes "fence_wf f" and "known_carried f" and "bt_wf rs" and "set (bt_keys rs) \<subseteq> set (owned f)"
    and "assert_map f rs marks = (ko_assert o', ko_marks o')"
  shows "known_carried (committed o' f) \<and> owned (committed o' f) = owned f
    \<and> (\<forall>p \<in> set (owned f). offset_at (committed o' f) p
          = (case bt_get rs p of Some (_, l) \<Rightarrow> Some l | None \<Rightarrow> offset_at f p))
    \<and> (ko_takeover_marker o' \<longrightarrow> \<not> takeover_marker_due (committed o' f))"
proof -
  have wfa: "bt_wf (ko_assert o')" using assert_map_get [OF assms(1,3,5)] by simp
  have get: "bt_get (ko_assert o') p = (case bt_get rs p of Some (_, l) \<Rightarrow> Some l | None \<Rightarrow> offset_at f p)" for p
    using assert_map_known [OF assms(1,2,3,5)] by simp
  note c = committed_get [OF assms(1) wfa]
  have off: "offset_at (committed o' f) p = bt_get (ko_assert o') p" if "p \<in> set (owned f)" for p
    using c that get [of p] by (auto split: option.splits)
  have "known_carried (committed o' f)"
    unfolding known_carried_def
  proof (intro allI impI)
    fix p assume p: "offset_at (committed o' f) p \<noteq> None"
    then have own: "p \<in> set (owned f)"
      using known_owned [OF p] c by simp
    then have "bt_get (ko_assert o') p \<noteq> None" using p off by simp
    then have "p \<in> set (bt_keys (ko_assert o'))" by (auto simp: map_of_eq_None_iff)
    with own c show "p \<in> set (f_carried (committed o' f))" by simp
  qed
  with c off get show ?thesis by (simp add: takeover_marker_due_def)
qed

definition example_offsets :: kafka_offsets where
  "example_offsets =
     (let (a, m) = assert_map example_fence [(0, 8, 12)] [(0, \<lparr>mk_offset = 12, mk_timestamp_ms = 103, mk_value_len = 6\<rparr>)]
      in \<lparr>ko_topic = ''t'', ko_group_id = ''g'', ko_ranges = [(0, 8, 12)], ko_assert = a, ko_marks = m,
          ko_cleanup_logs = False, ko_baseline = False, ko_override_reason = None,
          ko_takeover_marker = takeover_marker_due example_fence\<rparr>)"

lemma committed_carries_all_known_witness:
  "known_carried (committed example_offsets example_fence)
   \<and> offset_at (committed example_offsets example_fence) 0 = Some 12
   \<and> offset_at (committed example_offsets example_fence) 1 = Some 9"
proof -
  have own: "set (bt_keys [(0 :: int, 8 :: int, 12 :: int)]) \<subseteq> set (owned example_fence)"
    by (simp add: owned_def example_fence_def)
  have wf: "bt_wf [(0 :: int, 8 :: int, 12 :: int)]" by (simp add: bt_wf_def)
  have run: "assert_map example_fence [(0, 8, 12)]
      [(0, \<lparr>mk_offset = 12, mk_timestamp_ms = 103, mk_value_len = 6\<rparr>)]
      = (ko_assert example_offsets, ko_marks example_offsets)"
    by (simp add: example_offsets_def split: prod.split)
  have set: "set (owned example_fence) = {0, 1, 2}" by (simp add: owned_def example_fence_def)
  from committed_carries_all_known [OF example_fence_wf wf own run] set show ?thesis
    by (simp add: offset_at_def example_fence_def)
qed

section \<open>What a commit records is what a read finds\<close>

text \<open>
  How delta-rs writes a commit: a \<open>txn\<close> action for each transaction it was given, and one
  commitInfo with the metadata at its top level.
\<close>

definition commit_writes :: "commit_properties \<Rightarrow> log_line list \<Rightarrow> bool" where
  "commit_writes props ls \<longleftrightarrow>
     txns_of ls = map (\<lambda>t. \<lparr>ta_app_id = tx_app_id t, ta_version = tx_version t\<rparr>) (cp_transactions props)
     \<and> info_of ls = Some \<lparr>ci_app_id = map_of (cp_metadata props) ''ddi.appId'',
                          ci_marks = map_of (cp_metadata props) ''ddi.kafka.marks''\<rparr>"

definition mark_wf :: "message_mark \<Rightarrow> bool" where
  "mark_wf m \<longleftrightarrow> i64 (mk_offset m) \<and> i64 (mk_timestamp_ms m) \<and> mk_value_len m < 2 ^ 32"

lemma kafka_commit_txns:
  assumes "commit_writes (kafka_properties sk protocol o') ls"
  shows "txns_of ls = map (\<lambda>(p, v). \<lparr>ta_app_id = txn_app_id (sk_app_id sk) p, ta_version = v\<rparr>) (ko_assert o')
      @ (if ko_takeover_marker o'
         then [\<lparr>ta_app_id = takeover_marker_app_id (sk_app_id sk), ta_version = takeover_marker_version\<rparr>] else [])"
  using assms by (auto simp: commit_writes_def kafka_properties_def kafka_txn_def Let_def)

lemma kafka_commit_info:
  assumes "commit_writes (kafka_properties sk protocol o') ls"
  shows "info_of ls = Some \<lparr>ci_app_id = Some (JStr (sk_app_id sk)),
    ci_marks = Some (JObj (bt_collect (map (\<lambda>(p, m). (show_int p, mark_json m)) (ko_marks o'))))\<rparr>"
  using assms by (auto simp: commit_writes_def kafka_properties_def Let_def)

lemma distinct_commit_ids:
  assumes "bt_wf a" and "\<forall>p \<in> set (bt_keys a). 0 \<le> p \<and> p < 2 ^ 31"
  shows "distinct (map (\<lambda>(p, v). txn_app_id i p) a)"
proof -
  have "distinct (map fst a)" by (rule bt_wf_distinct [OF assms(1)])
  moreover have "inj_on (txn_app_id i) (fst ` set a)"
    using assms(2) by (auto simp: inj_on_def txn_app_id_inject)
  ultimately have "distinct (map (txn_app_id i) (map fst a))"
    by (simp add: distinct_map del: map_map)
  moreover have "map (\<lambda>(p, v). txn_app_id i p) a = map (txn_app_id i) (map fst a)"
    by (induction a) auto
  ultimately show ?thesis by (simp only:)
qed

lemma commit_txn_get:
  assumes "commit_writes (kafka_properties sk protocol o') ls" and a: "bt_wf (ko_assert o')"
    and ps: "\<forall>p \<in> set (bt_keys (ko_assert o')). 0 \<le> p \<and> p < 2 ^ 31"
  shows "map_of (rev (map (\<lambda>t. (ta_app_id t, t)) (txns_of ls))) i = (
    if i = takeover_marker_app_id (sk_app_id sk) then
      (if ko_takeover_marker o' then Some \<lparr>ta_app_id = i, ta_version = takeover_marker_version\<rparr> else None)
    else map_option (\<lambda>v. \<lparr>ta_app_id = i, ta_version = v\<rparr>)
      (map_of (map (\<lambda>(p, v). (txn_app_id (sk_app_id sk) p, v)) (ko_assert o')) i))"
proof -
  let ?m = "takeover_marker_app_id (sk_app_id sk)"
  define xs where "xs = map (\<lambda>(p, v). (txn_app_id (sk_app_id sk) p, \<lparr>ta_app_id = txn_app_id (sk_app_id sk) p, ta_version = v\<rparr>))
      (ko_assert o')"
  have l: "map (\<lambda>t. (ta_app_id t, t)) (txns_of ls) = xs
      @ (if ko_takeover_marker o' then [(?m, \<lparr>ta_app_id = ?m, ta_version = takeover_marker_version\<rparr>)] else [])"
    unfolding kafka_commit_txns [OF assms(1)] xs_def by (auto simp: comp_def)
  have "map fst xs = map (\<lambda>(p, v). txn_app_id (sk_app_id sk) p) (ko_assert o')"
    by (auto simp: xs_def)
  then have dist: "distinct (map fst xs)" using distinct_commit_ids [OF a ps] by simp
  then have "distinct (map fst (rev xs))" by (simp add: rev_map [symmetric])
  then have rev: "map_of (rev xs) = map_of xs"
    using dist by (metis map_of_inject_set set_rev)
  have get: "map_of xs i = map_option (\<lambda>v. \<lparr>ta_app_id = i, ta_version = v\<rparr>)
      (map_of (map (\<lambda>(p, v). (txn_app_id (sk_app_id sk) p, v)) (ko_assert o')) i)"
  proof -
    have "map_of (map (\<lambda>(p, v). (txn_app_id (sk_app_id sk) p, \<lparr>ta_app_id = txn_app_id (sk_app_id sk) p, ta_version = v\<rparr>)) ys) i
        = map_option (\<lambda>v. \<lparr>ta_app_id = i, ta_version = v\<rparr>) (map_of (map (\<lambda>(p, v). (txn_app_id (sk_app_id sk) p, v)) ys) i)" for ys
      by (induction ys) auto
    then show ?thesis unfolding xs_def .
  qed
  have none: "map_of xs ?m = None"
  proof -
    have "?m \<notin> set (map fst xs)"
    proof
      assume "?m \<in> set (map fst xs)"
      then obtain p v where "(p, v) \<in> set (ko_assert o')" and m: "?m = txn_app_id (sk_app_id sk) p"
        by (auto simp: xs_def)
      then have "p \<in> set (bt_keys (ko_assert o'))" by force
      with ps m show False using txn_app_id_not_marker by metis
    qed
    then show ?thesis by (auto simp: map_of_eq_None_iff)
  qed
  show ?thesis
    unfolding l using none get by (auto simp: rev map_add_def)
qed

lemma assert_by_app_id:
  assumes "bt_wf a" and "\<forall>p \<in> set (bt_keys a). 0 \<le> p \<and> p < 2 ^ 31" and "0 \<le> q"
  shows "map_of (map (\<lambda>(p, v). (txn_app_id i p, v)) a) (txn_app_id i q) = bt_get a q"
  using assms(2,3) by (induction a) (auto simp: txn_app_id_inject)

lemma marks_json_get:
  assumes "bt_wf marks"
  shows "map_of (bt_collect (map (\<lambda>(p, m). (show_int p, mark_json m)) marks)) (show_int p) = map_option mark_json (bt_get marks p)"
proof -
  have "distinct (map show_int (map fst marks))"
    using bt_wf_distinct [OF assms] by (simp add: distinct_map inj_on_def del: map_map)
  then have "distinct (map fst (map (\<lambda>(p, m). (show_int p, mark_json m)) marks))" by (simp add: comp_def case_prod_beta)
  moreover have "map_of (map (\<lambda>(p, m). (show_int p, mark_json m)) xs) (show_int p) = map_option mark_json (map_of xs p)" for xs
    by (induction xs) auto
  ultimately show ?thesis by (simp only: bt_get_collect_distinct)
qed

text \<open>
  C26. What a Kafka commit records is what a later read takes from it: of every asserted partition
  the asserted offset, with the mark exactly when the commit had one at that offset; of the
  takeover marker that it is there, if the commit wrote it; of any other appId nothing.
\<close>

theorem kafka_commit_roundtrip:
  assumes "commit_writes (kafka_properties sk protocol o') ls"
    and "bt_wf (ko_assert o')" and "bt_wf (ko_marks o')"
    and "\<forall>p \<in> set (bt_keys (ko_assert o')). 0 \<le> p \<and> p < 2 ^ 31"
    and "\<forall>(p, m) \<in> set (ko_marks o'). 0 \<le> p \<and> mark_wf m"
  shows "(\<forall>p. 0 \<le> p \<and> p < 2 ^ 31 \<longrightarrow> commit_state ls (txn_app_id (sk_app_id sk) p) =
      map_option (\<lambda>v. \<lparr>ts_version = Some v, ts_mark = keep_mark v (bt_get (ko_marks o') p)\<rparr>)
        (bt_get (ko_assert o') p))
    \<and> commit_state ls (takeover_marker_app_id (sk_app_id sk)) =
        (if ko_takeover_marker o' then Some \<lparr>ts_version = Some takeover_marker_version, ts_mark = None\<rparr> else None)"
proof -
  let ?a = "sk_app_id sk"
  define mj where "mj = bt_collect (map (\<lambda>(p, m). (show_int p, mark_json m)) (ko_marks o'))"
  have info: "info_of ls = Some \<lparr>ci_app_id = Some (JStr ?a), ci_marks = Some (JObj mj)\<rparr>"
    using kafka_commit_info [OF assms(1)] by (simp add: mj_def)
  note txn = commit_txn_get [OF assms(1,2,4)]
  note mj_get = marks_json_get [OF assms(3), folded mj_def]
  have mark: "mark_for (Some (JObj mj)) ?a \<lparr>ta_app_id = txn_app_id ?a p, ta_version = v\<rparr>
      = keep_mark v (bt_get (ko_marks o') p)" if p: "0 \<le> p" "p < 2 ^ 31" for p v
  proof (cases "bt_get (ko_marks o') p")
    case None
    with p show ?thesis by (simp add: mark_for_def partition_of_txn_app_id mj_get keep_mark_def)
  next
    case (Some m)
    then have "(p, m) \<in> set (ko_marks o')" by (rule map_of_SomeD)
    with assms(5) have "mark_wf m" by auto
    then have "i64 (mk_offset m)" "i64 (mk_timestamp_ms m)" "mk_value_len m < 2 ^ 32" "u64 (mk_value_len m)"
      by (auto simp: mark_wf_def u64_def)
    with p Some show ?thesis
      by (simp add: mark_for_def partition_of_txn_app_id mj_get keep_mark_def mark_json_def)
  qed
  have "commit_state ls (txn_app_id ?a p) =
      map_option (\<lambda>v. \<lparr>ts_version = Some v, ts_mark = keep_mark v (bt_get (ko_marks o') p)\<rparr>)
        (bt_get (ko_assert o') p)" if p: "0 \<le> p" "p < 2 ^ 31" for p
    using txn_app_id_not_marker [OF p] assert_by_app_id [OF assms(2,4) p(1)] mark [OF p]
    unfolding commit_state_def txn info
    by (cases "bt_get (ko_assert o') p") (simp_all add: txn_state_of_def)
  moreover have "commit_state ls (takeover_marker_app_id ?a) =
      (if ko_takeover_marker o' then Some \<lparr>ts_version = Some takeover_marker_version, ts_mark = None\<rparr> else None)"
    unfolding commit_state_def txn info by (simp add: txn_state_of_def mark_for_def)
  ultimately show ?thesis by blast
qed

theorem kafka_commit_roundtrip_witness:
  "\<exists>ls. commit_writes (kafka_properties (sink_new ''a'' 0) (Some (JObj [])) example_offsets) ls
     \<and> commit_state ls (txn_app_id ''a'' 0) = Some \<lparr>ts_version = Some 12,
          ts_mark = Some \<lparr>mk_offset = 12, mk_timestamp_ms = 103, mk_value_len = 6\<rparr>\<rparr>"
proof -
  let ?props = "kafka_properties (sink_new ''a'' 0) (Some (JObj [])) example_offsets"
  define ls where "ls = \<lparr>ll_txn = None, ll_commit_info = Some \<lparr>ci_app_id = map_of (cp_metadata ?props) ''ddi.appId'',
                          ci_marks = map_of (cp_metadata ?props) ''ddi.kafka.marks''\<rparr>\<rparr>
      # map (\<lambda>t. \<lparr>ll_txn = Some \<lparr>ta_app_id = tx_app_id t, ta_version = tx_version t\<rparr>, ll_commit_info = None\<rparr>)
          (cp_transactions ?props)"
  have "txns_of (map (\<lambda>t. \<lparr>ll_txn = Some (f t), ll_commit_info = None\<rparr>) ts) = map f ts" for f and ts :: "transaction list"
    by (induction ts) (simp_all add: txns_of_def List.map_filter_simps)
  moreover have "foldl (\<lambda>i l. if ll_commit_info l \<noteq> None then ll_commit_info l else i) i
      (map (\<lambda>t. \<lparr>ll_txn = Some (f t), ll_commit_info = None\<rparr>) ts) = i" for i f and ts :: "transaction list"
    by (induction ts) simp_all
  ultimately have w: "commit_writes ?props ls"
    by (simp add: commit_writes_def ls_def txns_of_def info_of_def List.map_filter_simps)
  have ex: "ko_assert example_offsets = [(0, 12), (1, 9)]"
    "ko_marks example_offsets = [(0, \<lparr>mk_offset = 12, mk_timestamp_ms = 103, mk_value_len = 6\<rparr>),
       (1, \<lparr>mk_offset = 9, mk_timestamp_ms = 101, mk_value_len = 4\<rparr>)]"
    by (simp_all add: example_offsets_def assert_map_def example_fence_def keep_mark_def bt_mem_def
        List.map_filter_simps bt_collect_def bt_extend_def)
  have h: "bt_wf (ko_assert example_offsets)" "bt_wf (ko_marks example_offsets)"
    "\<forall>p \<in> set (bt_keys (ko_assert example_offsets)). 0 \<le> p \<and> p < 2 ^ 31"
    "\<forall>(p, m) \<in> set (ko_marks example_offsets). 0 \<le> p \<and> mark_wf m"
    by (simp_all add: ex bt_wf_def mark_wf_def i64_def)
  from kafka_commit_roundtrip [OF w h] w show ?thesis
    by (auto simp: sink_new_def ex keep_mark_def)
qed

end
