(* ===== verification/Partitions.thy ===== *)
theory Partitions
  imports Fence_Names
begin

text \<open>
  \<open>src/kafka/partitions.rs\<close>: what a member knows of each partition it owns, which messages it
  takes, and the batch they fill. An \<open>Instant\<close> and a \<open>Duration\<close> are numbers of ticks;
  \<open>duration_since\<close> saturates at zero, as subtraction on \<open>nat\<close> does. Offsets are \<open>i64\<close>.
\<close>

section \<open>Types\<close>

datatype reread =
    Expect message_mark
  | Unverifiable int

fun reread_offset :: "reread \<Rightarrow> int" where
  "reread_offset (Expect m) = mk_offset m"
| "reread_offset (Unverifiable b) = b"

datatype block =
    Unavailable int int \<comment> \<open>\<open>wanted, low\<close>\<close>
  | Regressed int int \<comment> \<open>\<open>stored, high\<close>\<close>
  | Replaced message_mark message_mark \<comment> \<open>\<open>recorded, found\<close>\<close>
  | Unresolved

definition describe :: "message_mark \<Rightarrow> string" where
  "describe m =
     ''timestamp '' @ show_int (mk_timestamp_ms m) @ '' ms, '' @ show_nat (mk_value_len m) @ '' value bytes''"

fun block_error :: "string \<Rightarrow> partition \<Rightarrow> block \<Rightarrow> error" where
  "block_error topic p (Unavailable wanted low) = E_KafkaOffsetsUnavailable topic p wanted low"
| "block_error topic p (Regressed stored high) = E_KafkaOffsetsRegressed topic p stored high"
| "block_error topic p (Replaced recorded found) =
     E_KafkaTopicReplaced topic p (mk_offset recorded) (describe recorded) (describe found)"
| "block_error topic p Unresolved = E_Other ''assigned while the target's offsets could not be read''"

datatype pstate =
    Ready (next_expected: int) (start_offset: int) (to_reread: "reread option") (last_message: nat)
  | Blocked (blocked_on: block) (blocked_since: nat)

datatype dropped = NotOwned | DroppedBlocked | Duplicate | Reread

datatype admitted = Take nat | Drop dropped | BlockOn block

type_synonym partitions = "(partition, pstate) bmap"

section \<open>Operations\<close>

definition parts_owned :: "partitions \<Rightarrow> partition list" where
  "parts_owned m = bt_keys m"

definition parts_blocked :: "partitions \<Rightarrow> (partition \<times> block) list" where
  "parts_blocked m =
     List.map_filter (\<lambda>(p, s). case s of Blocked b _ \<Rightarrow> Some (p, b) | _ \<Rightarrow> None) m"

definition parts_ready :: "partitions \<Rightarrow> (partition \<times> int) list" where
  "parts_ready m =
     List.map_filter (\<lambda>(p, s). case s of Ready n _ _ _ \<Rightarrow> Some (p, n) | _ \<Rightarrow> None) m"

definition ready_at :: "partition \<Rightarrow> int \<Rightarrow> reread option \<Rightarrow> nat \<Rightarrow> partitions \<Rightarrow> partitions" where
  "ready_at p offset rr now m = bt_insert p (Ready offset offset rr now) m"

definition block_part :: "partition \<Rightarrow> block \<Rightarrow> nat \<Rightarrow> partitions \<Rightarrow> partitions" where
  "block_part p b now m =
     (let since = (case bt_get m p of Some (Blocked _ since) \<Rightarrow> since | _ \<Rightarrow> now)
      in bt_insert p (Blocked b since) m)"

definition polled_again :: "partition option \<Rightarrow> nat \<Rightarrow> partitions \<Rightarrow> partitions" where
  "polled_again q now m =
     map (\<lambda>(p, s). (p, case s of
         Ready n st rr l \<Rightarrow> if q = None \<or> q = Some p then Ready n st rr now else s
       | Blocked _ _ \<Rightarrow> s)) m"

text \<open>A message at or past the offset expected is taken; the offsets it skips are counted.\<close>

definition admit_next ::
    "partition \<Rightarrow> int \<Rightarrow> int \<Rightarrow> int \<Rightarrow> nat \<Rightarrow> partitions \<Rightarrow> admitted \<times> partitions" where
  "admit_next p offset nxt st now m =
     (if offset < nxt then (Drop Duplicate, bt_insert p (Ready nxt st None now) m)
      else (Take (nat (i64_sub offset nxt mod 2 ^ 64)),
            bt_insert p (Ready (i64_add offset 1) st None now) m))"

definition admit :: "partition \<Rightarrow> message_mark \<Rightarrow> nat \<Rightarrow> partitions \<Rightarrow> admitted \<times> partitions" where
  "admit p mark now m =
     (let offset = mk_offset mark in
      case bt_get m p of
        None \<Rightarrow> (Drop NotOwned, m)
      | Some (Blocked _ _) \<Rightarrow> (Drop DroppedBlocked, m)
      | Some (Ready nxt st rr _) \<Rightarrow>
          (case rr of
             None \<Rightarrow> admit_next p offset nxt st now m
           | Some expected \<Rightarrow>
               let at = reread_offset expected in
               if offset = at then
                 (case expected of
                    Expect recorded \<Rightarrow>
                      if (mk_timestamp_ms recorded, mk_value_len recorded) \<noteq> (mk_timestamp_ms mark, mk_value_len mark)
                      then (BlockOn (Replaced recorded mark), bt_insert p (Ready nxt st rr now) m)
                      else (Drop Reread, bt_insert p (Ready (i64_add offset 1) st None now) m)
                  | Unverifiable _ \<Rightarrow> (Drop Reread, bt_insert p (Ready (i64_add offset 1) st None now) m))
               else if offset < at then (Drop Duplicate, bt_insert p (Ready nxt st rr now) m)
               else admit_next p offset (i64_add at 1) st now m))"

text \<open>Once-mode's rule for a partition that is done.\<close>

definition parts_done :: "partition \<Rightarrow> int \<Rightarrow> nat \<Rightarrow> nat \<Rightarrow> partitions \<Rightarrow> bool" where
  "parts_done p end_offset idle now m =
     (case bt_get m p of
        None \<Rightarrow> True
      | Some (Ready nxt st rr l) \<Rightarrow>
          let upto = (case rr of Some r \<Rightarrow> i64_add (reread_offset r) 1 | None \<Rightarrow> nxt)
          in max upto st \<ge> end_offset \<or> now - l \<ge> idle
      | Some (Blocked _ since) \<Rightarrow> now - since \<ge> idle)"

record buffer =
  bu_opened_at :: "nat option"
  bu_ranges :: "(partition, int \<times> int) bmap"
  bu_marks :: "(partition, message_mark) bmap"
  bu_messages :: nat
  bu_raw_bytes :: nat

definition empty_buffer :: buffer where
  "empty_buffer =
     \<lparr>bu_opened_at = None, bu_ranges = [], bu_marks = [], bu_messages = 0, bu_raw_bytes = 0\<rparr>"

record limits =
  li_latency :: nat
  li_max_messages :: "nat option"
  li_max_bytes :: nat
  li_max_decoded :: "nat option"

definition buffer_is_empty :: "buffer \<Rightarrow> bool" where
  "buffer_is_empty b \<longleftrightarrow> bu_messages b = 0"

definition buffer_take :: "partition \<Rightarrow> message_mark \<Rightarrow> nat \<Rightarrow> nat \<Rightarrow> buffer \<Rightarrow> buffer" where
  "buffer_take p mark raw_bytes now b =
     b\<lparr>bu_opened_at := Some (case bu_opened_at b of Some t \<Rightarrow> t | None \<Rightarrow> now),
       bu_ranges := (case bt_get (bu_ranges b) p of
           Some (f, _) \<Rightarrow> bt_insert p (f, mk_offset mark) (bu_ranges b)
         | None \<Rightarrow> bt_insert p (mk_offset mark, mk_offset mark) (bu_ranges b)),
       bu_marks := bt_insert p mark (bu_marks b),
       bu_messages := u64_add (bu_messages b) 1,
       bu_raw_bytes := u64_add (bu_raw_bytes b) raw_bytes\<rparr>"

definition buffer_deadline :: "nat \<Rightarrow> buffer \<Rightarrow> nat option" where
  "buffer_deadline latency b = map_option (\<lambda>t. t + latency) (bu_opened_at b)"

definition buffer_closes :: "limits \<Rightarrow> nat \<Rightarrow> nat \<Rightarrow> buffer \<Rightarrow> bool" where
  "buffer_closes li decoded_bytes now b =
     (\<not> buffer_is_empty b
      \<and> ((case buffer_deadline (li_latency li) b of Some d \<Rightarrow> now \<ge> d | None \<Rightarrow> False)
         \<or> (case li_max_messages li of Some k \<Rightarrow> bu_messages b \<ge> k | None \<Rightarrow> False)
         \<or> bu_raw_bytes b \<ge> li_max_bytes li
         \<or> (case li_max_decoded li of Some k \<Rightarrow> decoded_bytes \<ge> k | None \<Rightarrow> False)))"

section \<open>The messages of a poll\<close>

text \<open>
  \<open>Pipeline::take\<close> of \<open>src/kafka/step.rs\<close>, as far as it moves the partitions and the buffer: a
  message of a paused partition is dropped, an admitted one goes into the buffer, and one that
  shows the topic was replaced blocks and pauses its partition.
\<close>

record message =
  ms_partition :: partition
  ms_mark :: message_mark
  ms_bytes :: nat
  ms_at :: nat

type_synonym reading = "partition bset \<times> partitions \<times> buffer"

definition take_message :: "message \<Rightarrow> reading \<Rightarrow> reading" where
  "take_message ms = (\<lambda>(paused, parts, buf).
     let p = ms_partition ms in
     if p \<in> set paused then (paused, parts, buf)
     else case admit p (ms_mark ms) (ms_at ms) parts of
            (Take _, parts') \<Rightarrow> (paused, parts', buffer_take p (ms_mark ms) (ms_bytes ms) (ms_at ms) buf)
          | (Drop _, parts') \<Rightarrow> (paused, parts', buf)
          | (BlockOn b, parts') \<Rightarrow> (bs_insert p paused, block_part p b (ms_at ms) parts', buf))"

text \<open>Whether a message is taken, and the marks of one partition's taken messages, in order.\<close>

definition takes :: "message \<Rightarrow> reading \<Rightarrow> bool" where
  "takes ms = (\<lambda>(paused, parts, buf).
     ms_partition ms \<notin> set paused
     \<and> (case fst (admit (ms_partition ms) (ms_mark ms) (ms_at ms) parts) of Take _ \<Rightarrow> True | _ \<Rightarrow> False))"

fun taken_messages :: "message list \<Rightarrow> reading \<Rightarrow> message list" where
  "taken_messages [] r = []"
| "taken_messages (ms # mss) r =
     (if takes ms r then [ms] else []) @ taken_messages mss (take_message ms r)"

definition taken :: "partition \<Rightarrow> message list \<Rightarrow> reading \<Rightarrow> message_mark list" where
  "taken p mss r = map ms_mark (filter (\<lambda>ms. ms_partition ms = p) (taken_messages mss r))"

definition take_all :: "message list \<Rightarrow> reading \<Rightarrow> reading" where
  "take_all mss r = foldl (\<lambda>r ms. take_message ms r) r mss"

text \<open>The least offset a partition may still take.\<close>

definition floor_of :: "pstate \<Rightarrow> int" where
  "floor_of s = (case s of
      Ready n _ (Some r) _ \<Rightarrow> reread_offset r + 1
    | Ready n _ None _ \<Rightarrow> n
    | Blocked _ _ \<Rightarrow> 0)"

text \<open>Offsets below the last \<open>i64\<close>, which no topic reaches.\<close>

definition offset_ok :: "int \<Rightarrow> bool" where
  "offset_ok b \<longleftrightarrow> i64 b \<and> b < 2 ^ 63 - 1"

lemma offset_ok_succ [simp]: "offset_ok b \<Longrightarrow> i64_add b 1 = b + 1"
  by (simp add: offset_ok_def)

definition pstate_ok :: "pstate \<Rightarrow> bool" where
  "pstate_ok s \<longleftrightarrow> (case s of Ready _ _ (Some r) _ \<Rightarrow> offset_ok (reread_offset r) | _ \<Rightarrow> True)"

lemma reading_cases:
  assumes "\<And>paused parts buf. r = (paused, parts, buf) \<Longrightarrow> P"
  shows P
  using assms by (cases r) auto

text \<open>What one message does to its own partition.\<close>

lemma admit_ready:
  assumes st: "bt_get parts p = Some s" "\<not> (\<exists>b t. s = Blocked b t)" and ok: "pstate_ok s"
    and off: "offset_ok (mk_offset mark)" and run: "admit p mark now parts = (r, parts')"
  obtains s' where "bt_get parts' p = Some s'" "\<not> (\<exists>b t. s' = Blocked b t)" "pstate_ok s'"
    "case r of Take _ \<Rightarrow> floor_of s \<le> mk_offset mark \<and> floor_of s' = mk_offset mark + 1
       \<and> to_reread s' = None
     | Drop _ \<Rightarrow> mk_offset mark < floor_of s \<and> floor_of s' = floor_of s
       \<and> (to_reread s' = to_reread s \<or> to_reread s' = None)
     | BlockOn b \<Rightarrow> (\<exists>rec. to_reread s = Some (Expect rec) \<and> mk_offset rec = mk_offset mark
         \<and> b = Replaced rec mark
         \<and> (mk_timestamp_ms rec, mk_value_len rec) \<noteq> (mk_timestamp_ms mark, mk_value_len mark))"
proof -
  obtain n st' rr l where s: "s = Ready n st' rr l" using assms(2) by (cases s) auto
  have run': "(case rr of
             None \<Rightarrow> admit_next p (mk_offset mark) n st' now parts
           | Some expected \<Rightarrow>
               if mk_offset mark = reread_offset expected then
                 (case expected of
                    Expect recorded \<Rightarrow>
                      if (mk_timestamp_ms recorded, mk_value_len recorded) \<noteq> (mk_timestamp_ms mark, mk_value_len mark)
                      then (BlockOn (Replaced recorded mark), bt_insert p (Ready n st' rr now) parts)
                      else (Drop Reread, bt_insert p (Ready (i64_add (mk_offset mark) 1) st' None now) parts)
                  | Unverifiable _ \<Rightarrow> (Drop Reread, bt_insert p (Ready (i64_add (mk_offset mark) 1) st' None now) parts))
               else if mk_offset mark < reread_offset expected then (Drop Duplicate, bt_insert p (Ready n st' rr now) parts)
               else admit_next p (mk_offset mark) (i64_add (reread_offset expected) 1) st' now parts) = (r, parts')"
    using run st(1) unfolding admit_def s Let_def by (simp only: option.case pstate.case)
  show thesis
  proof (cases rr)
    case None
    with run' off show ?thesis
      by (intro that [of "the (bt_get parts' p)"])
        (auto simp: s admit_next_def floor_of_def pstate_ok_def split: if_splits)
  next
    case (Some e)
    have e: "offset_ok (reread_offset e)" using ok by (simp add: s Some pstate_ok_def)
    show ?thesis
    proof (cases "mk_offset mark = reread_offset e")
      case True
      then show ?thesis using run' off e
        by (intro that [of "the (bt_get parts' p)"]; cases e)
          (auto simp: s Some floor_of_def pstate_ok_def split: if_splits)
    next
      case False
      with run' e off show ?thesis
        by (intro that [of "the (bt_get parts' p)"])
          (auto simp: s Some admit_next_def floor_of_def pstate_ok_def split: if_splits)
    qed
  qed
qed

lemma admit_other: "admit p mark now parts = (r, parts') \<Longrightarrow> q \<noteq> p \<Longrightarrow> bt_get parts' q = bt_get parts q"
  by (auto simp: admit_def admit_next_def Let_def split: option.splits pstate.splits reread.splits if_splits)

lemma admit_not_ready:
  "bt_get parts p = None \<or> bt_get parts p = Some (Blocked b t) \<Longrightarrow>
     (\<exists>d. admit p mark now parts = (Drop d, parts))"
  by (auto simp: admit_def)

lemma taken_simps [simp]:
  "taken p [] r = []"
  "taken p (ms # mss) r =
     (if ms_partition ms = p \<and> takes ms r then [ms_mark ms] else []) @ taken p mss (take_message ms r)"
  by (simp_all add: taken_def)

lemma take_message_other:
  assumes "ms_partition ms \<noteq> p" and "take_message ms (paused, parts, buf) = (paused', parts', buf')"
  shows "bt_get parts' p = bt_get parts p" "p \<in> set paused' \<longleftrightarrow> p \<in> set paused"
    "bt_get (bu_ranges buf') p = bt_get (bu_ranges buf) p" "bt_get (bu_marks buf') p = bt_get (bu_marks buf) p"
proof -
  obtain a q where a: "admit (ms_partition ms) (ms_mark ms) (ms_at ms) parts = (a, q)" by (meson surj_pair)
  note other = admit_other [OF a assms(1) [symmetric]]
  show "bt_get parts' p = bt_get parts p" "p \<in> set paused' \<longleftrightarrow> p \<in> set paused"
    "bt_get (bu_ranges buf') p = bt_get (bu_ranges buf) p" "bt_get (bu_marks buf') p = bt_get (bu_marks buf) p"
    using assms a other
    by (auto simp: take_message_def block_part_def buffer_take_def Let_def
        split: if_splits admitted.splits option.splits)
qed

lemma takes_paused [simp]: "ms_partition ms \<in> set paused \<Longrightarrow> \<not> takes ms (paused, parts, buf)"
  "ms_partition ms \<in> set paused \<Longrightarrow> take_message ms (paused, parts, buf) = (paused, parts, buf)"
  by (simp_all add: takes_def take_message_def)

lemma takes_not_ready:
  assumes "bt_get parts (ms_partition ms) = None \<or> bt_get parts (ms_partition ms) = Some (Blocked b t)"
  shows "\<not> takes ms (paused, parts, buf)" "take_message ms (paused, parts, buf) = (paused, parts, buf)"
proof -
  from admit_not_ready [OF assms, of "ms_mark ms" "ms_at ms"] obtain d
    where "admit (ms_partition ms) (ms_mark ms) (ms_at ms) parts = (Drop d, parts)" by blast
  then show "\<not> takes ms (paused, parts, buf)" "take_message ms (paused, parts, buf) = (paused, parts, buf)"
    by (simp_all add: takes_def take_message_def Let_def)
qed

text \<open>A partition that is paused, blocked or not owned takes nothing.\<close>

definition idle_partition :: "partition \<Rightarrow> reading \<Rightarrow> bool" where
  "idle_partition p = (\<lambda>(paused, parts, buf).
     p \<in> set paused \<or> (case bt_get parts p of Some (Ready _ _ _ _) \<Rightarrow> False | _ \<Rightarrow> True))"

lemma idle_step:
  assumes "idle_partition p r" and "ms_partition ms = p"
  shows "\<not> takes ms r" "take_message ms r = r"
proof -
  obtain paused parts buf where r: "r = (paused, parts, buf)" by (cases r)
  consider "p \<in> set paused" | "bt_get parts p = None" | b t where "bt_get parts p = Some (Blocked b t)"
    using assms(1) by (auto simp: r idle_partition_def split: option.splits pstate.splits)
  then have "\<not> takes ms r \<and> take_message ms r = r"
  proof cases
    case 1
    then show ?thesis using takes_paused assms(2) by (simp add: r)
  next
    case 2
    then show ?thesis using takes_not_ready [of parts ms] assms(2) by (simp add: r)
  next
    case 3
    then show ?thesis using takes_not_ready [of parts ms b t] assms(2) by (simp add: r)
  qed
  then show "\<not> takes ms r" "take_message ms r = r" by simp_all
qed

lemma idle_other: "idle_partition p r \<Longrightarrow> ms_partition ms \<noteq> p \<Longrightarrow> idle_partition p (take_message ms r)"
  using take_message_other by (cases r; cases "take_message ms r") (fastforce simp: idle_partition_def)

lemma taken_idle: "idle_partition p r \<Longrightarrow> taken p mss r = []"
proof (induction mss arbitrary: r)
  case (Cons ms mss)
  then show ?case using idle_step [OF Cons.prems] idle_other [OF Cons.prems]
    by (cases "ms_partition ms = p") auto
qed simp

text \<open>What one message does to a partition that reads.\<close>

lemma take_message_ready:
  assumes st: "bt_get parts p = Some s" "\<not> idle_partition p (paused, parts, buf)" and ok: "pstate_ok s"
    and ms: "ms_partition ms = p" and off: "offset_ok (mk_offset (ms_mark ms))"
    and run: "take_message ms (paused, parts, buf) = (paused', parts', buf')"
  shows "if takes ms (paused, parts, buf)
    then floor_of s \<le> mk_offset (ms_mark ms) \<and> paused' = paused
      \<and> (\<exists>s'. bt_get parts' p = Some s' \<and> \<not> idle_partition p (paused', parts', buf') \<and> pstate_ok s'
           \<and> floor_of s' = mk_offset (ms_mark ms) + 1 \<and> to_reread s' = None)
      \<and> buf' = buffer_take p (ms_mark ms) (ms_bytes ms) (ms_at ms) buf
    else buf' = buf
      \<and> ((\<exists>rec. to_reread s = Some (Expect rec) \<and> mk_offset rec = mk_offset (ms_mark ms)
            \<and> (mk_timestamp_ms rec, mk_value_len rec) \<noteq> (mk_timestamp_ms (ms_mark ms), mk_value_len (ms_mark ms))
            \<and> bt_get parts' p = Some (Blocked (Replaced rec (ms_mark ms)) (ms_at ms)) \<and> p \<in> set paused')
         \<or> (mk_offset (ms_mark ms) < floor_of s
            \<and> (\<exists>s'. bt_get parts' p = Some s' \<and> \<not> idle_partition p (paused', parts', buf') \<and> pstate_ok s'
                 \<and> floor_of s' = floor_of s \<and> (to_reread s' = to_reread s \<or> to_reread s' = None))))"
proof -
  obtain a q where a: "admit p (ms_mark ms) (ms_at ms) parts = (a, q)" by (meson surj_pair)
  have ready: "\<not> (\<exists>b t. s = Blocked b t)" and np: "p \<notin> set paused"
    using st by (auto simp: idle_partition_def)
  obtain s' where s': "bt_get q p = Some s'" "\<not> (\<exists>b t. s' = Blocked b t)" "pstate_ok s'"
    "case a of Take _ \<Rightarrow> floor_of s \<le> mk_offset (ms_mark ms) \<and> floor_of s' = mk_offset (ms_mark ms) + 1
       \<and> to_reread s' = None
     | Drop _ \<Rightarrow> mk_offset (ms_mark ms) < floor_of s \<and> floor_of s' = floor_of s
       \<and> (to_reread s' = to_reread s \<or> to_reread s' = None)
     | BlockOn b \<Rightarrow> (\<exists>rec. to_reread s = Some (Expect rec) \<and> mk_offset rec = mk_offset (ms_mark ms)
         \<and> b = Replaced rec (ms_mark ms)
         \<and> (mk_timestamp_ms rec, mk_value_len rec) \<noteq> (mk_timestamp_ms (ms_mark ms), mk_value_len (ms_mark ms)))"
    using admit_ready [OF st(1) ready ok off a] .
  then have nb: "case s' of Ready _ _ _ _ \<Rightarrow> True | _ \<Rightarrow> False" by (cases s') auto
  show ?thesis
    using run a s' nb np ms
    by (cases a) (auto simp: take_message_def takes_def idle_partition_def block_part_def Let_def split: pstate.splits)
qed

section \<open>What a batch holds\<close>

text \<open>
  C31. The offsets taken of a partition only ever rise, whatever is delivered: with any messages in any
  order, duplicates and other partitions' included, no offset of a partition is taken twice or out
  of order, none below the one it expects, and none at or below the stored offset it re-reads.
\<close>

theorem taken_offsets_increase:
  assumes "bt_get parts p = Some s" and "pstate_ok s"
    and "\<forall>ms \<in> set mss. offset_ok (mk_offset (ms_mark ms))"
  shows "sorted_wrt (<) (map mk_offset (taken p mss (paused, parts, buf)))
    \<and> (\<forall>m \<in> set (taken p mss (paused, parts, buf)). floor_of s \<le> mk_offset m)"
  using assms
proof (induction mss arbitrary: paused parts buf s)
  case (Cons ms mss)
  obtain paused' parts' buf' where run: "take_message ms (paused, parts, buf) = (paused', parts', buf')"
    by (cases "take_message ms (paused, parts, buf)") auto
  have rest: "\<forall>ms \<in> set mss. offset_ok (mk_offset (ms_mark ms))" using Cons.prems(3) by simp
  show ?case
  proof (cases "idle_partition p (paused, parts, buf)")
    case True
    then show ?thesis by (simp only: taken_idle) simp
  next
    case False
    show ?thesis
    proof (cases "ms_partition ms = p")
      case other: False
      from take_message_other(1) [OF other run] Cons.IH [of parts' s paused' buf'] Cons.prems other run rest
      show ?thesis by simp
    next
      case here: True
      have off: "offset_ok (mk_offset (ms_mark ms))" using Cons.prems(3) by simp
      note step = take_message_ready [OF Cons.prems(1) False Cons.prems(2) here off run]
      show ?thesis
      proof (cases "takes ms (paused, parts, buf)")
        case True
        with step obtain s' where "bt_get parts' p = Some s'" "pstate_ok s'"
          and f: "floor_of s \<le> mk_offset (ms_mark ms)" "floor_of s' = mk_offset (ms_mark ms) + 1" by auto
        from Cons.IH [OF this(1,2) rest, of paused' buf'] f True here run show ?thesis by auto
      next
        case no: False
        have "taken p mss (paused', parts', buf') = []"
          if "bt_get parts' p = Some (Blocked b t)" for b t
          using that by (intro taken_idle) (simp add: idle_partition_def)
        moreover have ?thesis if "bt_get parts' p = Some s'" "pstate_ok s'" "floor_of s' = floor_of s" for s'
          using Cons.IH [OF that(1,2) rest, of paused' buf'] that(3) no run by simp
        ultimately show ?thesis using step no run by auto
      qed
    qed
  qed
qed simp

definition example_reading :: reading where
  "example_reading = ([], ready_at 0 41 (Some (Expect \<lparr>mk_offset = 41, mk_timestamp_ms = 7, mk_value_len = 2\<rparr>)) 0 [],
     empty_buffer)"

definition example_message :: "int \<Rightarrow> message" where
  "example_message b = \<lparr>ms_partition = 0, ms_mark = \<lparr>mk_offset = b, mk_timestamp_ms = 7, mk_value_len = 2\<rparr>,
     ms_bytes = 2, ms_at = 1\<rparr>"

theorem taken_offsets_increase_witness:
  "map mk_offset (taken 0 (map example_message [41, 43, 42, 43, 45]) example_reading) = [43, 45]
   \<and> sorted_wrt (<) (map mk_offset (taken 0 (map example_message [41, 43, 42, 43, 45]) example_reading))"
proof -
  have "bt_get (fst (snd example_reading)) 0
      = Some (Ready 41 41 (Some (Expect \<lparr>mk_offset = 41, mk_timestamp_ms = 7, mk_value_len = 2\<rparr>)) 0)"
    by (simp add: example_reading_def ready_at_def)
  moreover have "pstate_ok (Ready 41 41 (Some (Expect \<lparr>mk_offset = 41, mk_timestamp_ms = 7, mk_value_len = 2\<rparr>)) 0)"
    by (simp add: pstate_ok_def offset_ok_def i64_def)
  moreover have "\<forall>ms \<in> set (map example_message [41, 43, 42, 43, 45]). offset_ok (mk_offset (ms_mark ms))"
    by (simp add: example_message_def offset_ok_def i64_def)
  ultimately have "sorted_wrt (<) (map mk_offset (taken 0 (map example_message [41, 43, 42, 43, 45]) example_reading))"
    using taken_offsets_increase by (metis prod.collapse)
  moreover have "map mk_offset (taken 0 (map example_message [41, 43, 42, 43, 45]) example_reading) = [43, 45]"
    by (simp add: example_reading_def example_message_def ready_at_def takes_def take_message_def admit_def
        admit_next_def i64_add_def wrap_i64_def)
  ultimately show ?thesis by blast
qed

text \<open>The message at the stored offset is not the one recorded there.\<close>

definition replaced_by :: "pstate \<Rightarrow> message_mark \<Rightarrow> bool" where
  "replaced_by s m \<longleftrightarrow> (\<exists>rec. to_reread s = Some (Expect rec) \<and> mk_offset rec = mk_offset m
     \<and> (mk_timestamp_ms rec, mk_value_len rec) \<noteq> (mk_timestamp_ms m, mk_value_len m))"

definition marks_of :: "partition \<Rightarrow> message list \<Rightarrow> message_mark list" where
  "marks_of p mss = map ms_mark (filter (\<lambda>ms. ms_partition ms = p) mss)"

lemma in_order_taken:
  assumes "bt_get parts p = Some s" and "s = Ready n st rr l" and "p \<notin> set paused" and "pstate_ok s"
    and "\<forall>ms \<in> set mss. offset_ok (mk_offset (ms_mark ms))"
    and "sorted_wrt (<) (map mk_offset (marks_of p mss))"
  shows "taken p mss (paused, parts, buf) =
    (if \<exists>m \<in> set (marks_of p mss). replaced_by s m then []
     else filter (\<lambda>m. floor_of s \<le> mk_offset m) (marks_of p mss))"
  using assms
proof (induction mss arbitrary: paused parts buf s n st rr l)
  case Nil
  then show ?case by (simp add: marks_of_def)
next
  case (Cons ms mss)
  obtain paused' parts' buf' where run: "take_message ms (paused, parts, buf) = (paused', parts', buf')"
    by (cases "take_message ms (paused, parts, buf)") auto
  have rest: "\<forall>ms \<in> set mss. offset_ok (mk_offset (ms_mark ms))"
    and srest: "sorted_wrt (<) (map mk_offset (marks_of p mss))"
    using Cons.prems(5,6) by (auto simp: marks_of_def split: if_splits)
  have active: "\<not> idle_partition p (paused, parts, buf)"
    using Cons.prems(1,2,3) by (simp add: idle_partition_def)
  have go: "taken p mss (paused', parts', buf') =
      (if \<exists>m \<in> set (marks_of p mss). replaced_by s' m then []
       else filter (\<lambda>m. floor_of s' \<le> mk_offset m) (marks_of p mss))"
    if s': "bt_get parts' p = Some s'" "\<not> idle_partition p (paused', parts', buf')" "pstate_ok s'" for s'
  proof -
    from s'(1,2) obtain n' st' rr' l' where "s' = Ready n' st' rr' l'" and "p \<notin> set paused'"
      by (cases s') (auto simp: idle_partition_def)
    from Cons.IH [OF s'(1) this s'(3) rest srest] show ?thesis .
  qed
  show ?case
  proof (cases "ms_partition ms = p")
    case other: False
    have m: "marks_of p (ms # mss) = marks_of p mss" using other by (simp add: marks_of_def)
    have "bt_get parts' p = Some s" "\<not> idle_partition p (paused', parts', buf')"
      using take_message_other(1,2) [OF other run] Cons.prems(1,2,3) by (auto simp: idle_partition_def)
    from go [OF this Cons.prems(4)] show ?thesis using other run m by simp
  next
    case here: True
    have off: "offset_ok (mk_offset (ms_mark ms))" using Cons.prems(5) by simp
    have m: "marks_of p (ms # mss) = ms_mark ms # marks_of p mss" using here by (simp add: marks_of_def)
    have later: "\<forall>m \<in> set (marks_of p mss). mk_offset (ms_mark ms) < mk_offset m"
      using Cons.prems(6) by (simp add: m)
    note step = take_message_ready [OF Cons.prems(1) active Cons.prems(4) here off run]
    show ?thesis
    proof (cases "takes ms (paused, parts, buf)")
      case True
      with step obtain s' where s': "bt_get parts' p = Some s'" "\<not> idle_partition p (paused', parts', buf')" "pstate_ok s'"
        and f: "floor_of s \<le> mk_offset (ms_mark ms)" "floor_of s' = mk_offset (ms_mark ms) + 1" "to_reread s' = None"
        by auto
      have "\<not> replaced_by s' m" for m using f(3) by (simp add: replaced_by_def)
      moreover have "\<not> replaced_by s m" if "m \<in> set (marks_of p (ms # mss))" for m
      proof
        assume "replaced_by s m"
        then obtain rec where "rr = Some (Expect rec)" "mk_offset rec = mk_offset m"
          using Cons.prems(2) by (auto simp: replaced_by_def)
        then have "floor_of s = mk_offset m + 1" using Cons.prems(2) by (simp add: floor_of_def)
        with f(1) later that show False by (auto simp: m)
      qed
      moreover have "filter (\<lambda>m. floor_of s' \<le> mk_offset m) (marks_of p mss) = marks_of p mss"
        using later f(2) by (intro filter_True) auto
      moreover have "filter (\<lambda>m. floor_of s \<le> mk_offset m) (marks_of p mss) = marks_of p mss"
        using later f(1) by (intro filter_True) auto
      ultimately show ?thesis using go [OF s'] f(1) True here run by (simp add: m)
    next
      case no: False
      show ?thesis
      proof (cases "replaced_by s (ms_mark ms)")
        case True
        then have "floor_of s = mk_offset (ms_mark ms) + 1"
          using Cons.prems(2) by (auto simp: replaced_by_def floor_of_def)
        have rep: "\<exists>rec. to_reread s = Some (Expect rec) \<and> mk_offset rec = mk_offset (ms_mark ms)
            \<and> (mk_timestamp_ms rec, mk_value_len rec) \<noteq> (mk_timestamp_ms (ms_mark ms), mk_value_len (ms_mark ms))"
          using True by (simp add: replaced_by_def)
        have "idle_partition p (paused', parts', buf')"
        proof -
          from rep Cons.prems(2) obtain rec where r: "rr = Some (Expect rec)" "mk_offset rec = mk_offset (ms_mark ms)"
            "(mk_timestamp_ms rec, mk_value_len rec) \<noteq> (mk_timestamp_ms (ms_mark ms), mk_value_len (ms_mark ms))" by auto
          have "admit p (ms_mark ms) (ms_at ms) parts
              = (BlockOn (Replaced rec (ms_mark ms)), bt_insert p (Ready n st rr (ms_at ms)) parts)"
            using Cons.prems(1,2) r by (auto simp: admit_def)
          with run Cons.prems(3) here have "p \<in> set paused'"
            by (auto simp: take_message_def)
          then show ?thesis by (simp add: idle_partition_def)
        qed
        then have "taken p mss (paused', parts', buf') = []" by (rule taken_idle)
        with True no here run show ?thesis by (simp add: m)
      next
        case False
        with step no obtain s' where s': "bt_get parts' p = Some s'" "\<not> idle_partition p (paused', parts', buf')" "pstate_ok s'"
          and f: "mk_offset (ms_mark ms) < floor_of s" "floor_of s' = floor_of s"
            "to_reread s' = to_reread s \<or> to_reread s' = None"
          by (auto simp: replaced_by_def)
        have "(\<exists>m \<in> set (marks_of p mss). replaced_by s' m) \<longleftrightarrow> (\<exists>m \<in> set (marks_of p (ms # mss)). replaced_by s m)"
        proof -
          have "\<not> replaced_by s m" if "to_reread s' = None" "to_reread s \<noteq> None" "m \<in> set (marks_of p mss)" for m
          proof
            assume "replaced_by s m"
            then obtain rec where r: "rr = Some (Expect rec)" "mk_offset rec = mk_offset m"
              using Cons.prems(2) by (auto simp: replaced_by_def)
            have lt: "mk_offset (ms_mark ms) < mk_offset rec" using later that(3) r(2) by auto
            have "admit p (ms_mark ms) (ms_at ms) parts
                = (Drop Duplicate, bt_insert p (Ready n st rr (ms_at ms)) parts)"
              using Cons.prems(1,2) r(1) lt by (simp add: admit_def)
            with run Cons.prems(3) here have "parts' = bt_insert p (Ready n st rr (ms_at ms)) parts"
              by (simp add: take_message_def)
            with s'(1) that(1) r(1) show False by auto
          qed
          moreover have "replaced_by s' m \<longleftrightarrow> replaced_by s m" if "to_reread s' = to_reread s" for m
            using that by (simp add: replaced_by_def)
          moreover have "\<not> replaced_by s m" "\<not> replaced_by s' m" if "to_reread s' = None" "to_reread s = None" for m
            using that by (simp_all add: replaced_by_def)
          moreover have "\<not> replaced_by s' m" if "to_reread s' = None" for m
            using that by (simp add: replaced_by_def)
          moreover have "(\<exists>m \<in> set (marks_of p (ms # mss)). replaced_by s m) \<longleftrightarrow> (\<exists>m \<in> set (marks_of p mss). replaced_by s m)"
            using False by (simp add: m)
          ultimately show ?thesis using f(3) by blast
        qed
        moreover have "filter (\<lambda>m. floor_of s \<le> mk_offset m) (marks_of p (ms # mss))
            = filter (\<lambda>m. floor_of s' \<le> mk_offset m) (marks_of p mss)"
          using f(1,2) by (simp add: m)
        moreover have "taken p (ms # mss) (paused, parts, buf) = taken p mss (paused', parts', buf')"
          using no run by simp
        ultimately show ?thesis using go [OF s'] by (simp only:)
      qed
    qed
  qed
qed

text \<open>
  Nothing delivered is left out: when a partition's messages arrive in the topic's order, as one
  seek delivers them, every one at or past the offset expected is taken; unless the message at the
  stored offset is not the one the last commit recorded there, and then nothing is.
\<close>

lemma in_order_delivery_is_taken:
  assumes "bt_get parts p = Some s" and "s = Ready n st rr l" and "p \<notin> set paused" and "pstate_ok s"
    and "\<forall>ms \<in> set mss. offset_ok (mk_offset (ms_mark ms))"
    and "sorted_wrt (<) (map mk_offset (marks_of p mss))"
  shows "taken p mss (paused, parts, buf) =
    (if \<exists>m \<in> set (marks_of p mss). replaced_by s m then []
     else filter (\<lambda>m. floor_of s \<le> mk_offset m) (marks_of p mss))"
  using assms by (rule in_order_taken)

lemma in_order_delivery_is_taken_witness:
  "taken 0 (map example_message [40, 41, 43, 45]) example_reading = map (ms_mark \<circ> example_message) [43, 45]
   \<and> taken 0 (map (example_message(41 := (example_message 41)\<lparr>ms_mark :=
         \<lparr>mk_offset = 41, mk_timestamp_ms = 9, mk_value_len = 2\<rparr>\<rparr>)) [40, 41, 43, 45]) example_reading = []"
proof -
  let ?s = "Ready 41 41 (Some (Expect \<lparr>mk_offset = 41, mk_timestamp_ms = 7, mk_value_len = 2\<rparr>)) 0"
  let ?bad = "example_message(41 := (example_message 41)\<lparr>ms_mark :=
         \<lparr>mk_offset = 41, mk_timestamp_ms = 9, mk_value_len = 2\<rparr>\<rparr>)"
  have s: "bt_get [(0, ?s)] 0 = Some ?s" "(0 :: partition) \<notin> set []" "pstate_ok ?s"
    by (simp_all add: pstate_ok_def offset_ok_def i64_def)
  have offs: "\<forall>ms \<in> set (map f [40, 41, 43, 45]). offset_ok (mk_offset (ms_mark ms))"
    if "f = example_message \<or> f = ?bad" for f
    using that by (auto simp: example_message_def offset_ok_def i64_def)
  have srt: "sorted_wrt (<) (map mk_offset (marks_of 0 (map f [40, 41, 43, 45])))"
    if "f = example_message \<or> f = ?bad" for f
    using that by (auto simp: example_message_def marks_of_def)
  have r: "example_reading = ([], [(0, ?s)], empty_buffer)"
    by (simp add: example_reading_def ready_at_def)
  note t = in_order_delivery_is_taken [OF s(1) refl s(2) s(3) offs srt]
  show ?thesis
    unfolding r using t [of example_message empty_buffer] t [of ?bad empty_buffer]
    by (simp add: marks_of_def example_message_def replaced_by_def floor_of_def)
qed

text \<open>How taking a message changes what the buffer says of one partition.\<close>

lemma take_all_buffer:
  "bu_ranges (snd (snd (take_all mss (paused, parts, buf))))
     = foldl (\<lambda>rs ms. bt_insert (ms_partition ms) (case bt_get rs (ms_partition ms) of
          Some (f, _) \<Rightarrow> (f, mk_offset (ms_mark ms)) | None \<Rightarrow> (mk_offset (ms_mark ms), mk_offset (ms_mark ms))) rs)
        (bu_ranges buf) (taken_messages mss (paused, parts, buf))
   \<and> bu_marks (snd (snd (take_all mss (paused, parts, buf))))
     = foldl (\<lambda>rs ms. bt_insert (ms_partition ms) (ms_mark ms) rs) (bu_marks buf)
         (taken_messages mss (paused, parts, buf))
   \<and> bu_messages (snd (snd (take_all mss (paused, parts, buf))))
     = foldl (\<lambda>k ms. u64_add k 1) (bu_messages buf) (taken_messages mss (paused, parts, buf))
   \<and> bu_raw_bytes (snd (snd (take_all mss (paused, parts, buf))))
     = foldl (\<lambda>k ms. u64_add k (ms_bytes ms)) (bu_raw_bytes buf) (taken_messages mss (paused, parts, buf))"
proof (induction mss arbitrary: paused parts buf)
  case (Cons ms mss)
  obtain paused' parts' buf' where run: "take_message ms (paused, parts, buf) = (paused', parts', buf')"
    by (cases "take_message ms (paused, parts, buf)") auto
  have b: "buf' = (if takes ms (paused, parts, buf)
      then buffer_take (ms_partition ms) (ms_mark ms) (ms_bytes ms) (ms_at ms) buf else buf)"
    using run by (auto simp: take_message_def takes_def Let_def split: if_splits admitted.splits prod.splits)
  have "take_all (ms # mss) (paused, parts, buf) = take_all mss (paused', parts', buf')"
    by (simp add: take_all_def run)
  with Cons.IH [of paused' parts' buf'] show ?case
    by (auto simp: b run buffer_take_def split: option.splits)
qed (simp add: take_all_def)

lemma ranges_fold:
  "bt_get (foldl (\<lambda>rs ms. bt_insert (ms_partition ms) (case bt_get rs (ms_partition ms) of
        Some (f, _) \<Rightarrow> (f, mk_offset (ms_mark ms)) | None \<Rightarrow> (mk_offset (ms_mark ms), mk_offset (ms_mark ms))) rs) rs tms) p
     = (let ts = map ms_mark (filter (\<lambda>ms. ms_partition ms = p) tms) in
        if ts = [] then bt_get rs p
        else Some (case bt_get rs p of Some (f, _) \<Rightarrow> f | None \<Rightarrow> mk_offset (hd ts), mk_offset (last ts)))"
  by (induction tms arbitrary: rs) (auto simp: Let_def split: option.splits)

lemma marks_fold:
  "bt_get (foldl (\<lambda>rs ms. bt_insert (ms_partition ms) (ms_mark ms) rs) rs tms) p
     = (let ts = map ms_mark (filter (\<lambda>ms. ms_partition ms = p) tms) in
        if ts = [] then bt_get rs p else Some (last ts))"
  by (induction tms arbitrary: rs) (auto simp: Let_def)

lemma u64_sum_fold: "foldl (\<lambda>k ms. u64_add k (f ms)) k tms mod 2 ^ 64 = (k + sum_list (map f tms)) mod 2 ^ 64"
proof (induction tms arbitrary: k)
  case (Cons ms tms)
  have "(u64_add k (f ms) + sum_list (map f tms)) mod 2 ^ 64 = (k + f ms + sum_list (map f tms)) mod 2 ^ 64"
    unfolding u64_add_def by (rule mod_add_left_eq)
  then show ?case by (simp only: foldl_Cons Cons.IH list.map sum_list.Cons add.assoc)
qed (simp only: foldl_Nil list.map sum_list.Nil add_0_right)

lemma u64_fold_range: "k < 2 ^ 64 \<Longrightarrow> foldl (\<lambda>k ms. u64_add k (f ms)) k tms < 2 ^ 64"
proof (induction tms arbitrary: k)
  case (Cons ms tms)
  have "u64_add k (f ms) < 2 ^ 64" unfolding u64_add_def by (rule mod_less_divisor) simp
  with Cons.IH show ?case by (simp only: foldl_Cons)
qed simp

text \<open>
  A batch says exactly what it took: its range of a partition runs from the first offset taken to
  the last, with the last message's mark beside it, a partition nothing was taken of has neither,
  and its counters are the messages taken and their bytes, as far as \<open>u64\<close> counts.
\<close>

lemma batch_accounts_for_taken:
  fixes mss paused parts p
  defines "ts \<equiv> taken p mss (paused, parts, empty_buffer)"
    and "b \<equiv> snd (snd (take_all mss (paused, parts, empty_buffer)))"
  shows "bt_get (bu_ranges b) p = (if ts = [] then None else Some (mk_offset (hd ts), mk_offset (last ts)))
    \<and> bt_get (bu_marks b) p = (if ts = [] then None else Some (last ts))
    \<and> bu_messages b = length (taken_messages mss (paused, parts, empty_buffer)) mod 2 ^ 64
    \<and> bu_raw_bytes b = sum_list (map ms_bytes (taken_messages mss (paused, parts, empty_buffer))) mod 2 ^ 64"
proof -
  let ?tms = "taken_messages mss (paused, parts, empty_buffer)"
  note b = take_all_buffer [of mss paused parts empty_buffer, folded b_def]
  have ranges: "bt_get (bu_ranges b) p = (if ts = [] then None else Some (mk_offset (hd ts), mk_offset (last ts)))"
    using b ranges_fold [of "[]" ?tms p] by (simp add: ts_def taken_def empty_buffer_def Let_def)
  have marks: "bt_get (bu_marks b) p = (if ts = [] then None else Some (last ts))"
    using b marks_fold [of "[]" ?tms p] by (simp add: ts_def taken_def empty_buffer_def Let_def)
  have zero: "(0 :: nat) < 2 ^ 64" by simp
  have "bu_messages b = foldl (\<lambda>k ms. u64_add k 1) 0 ?tms" "bu_raw_bytes b = foldl (\<lambda>k ms. u64_add k (ms_bytes ms)) 0 ?tms"
    using b by (simp_all add: empty_buffer_def)
  moreover have "foldl (\<lambda>k ms. u64_add k (f ms)) 0 ?tms = sum_list (map f ?tms) mod 2 ^ 64" for f
    using u64_sum_fold [of f 0 ?tms] mod_less [OF u64_fold_range [OF zero, of f ?tms]] by (simp only: add_0)
  ultimately have "bu_messages b = sum_list (map (\<lambda>_. 1) ?tms) mod 2 ^ 64"
    "bu_raw_bytes b = sum_list (map ms_bytes ?tms) mod 2 ^ 64" by (simp_all only:)
  with ranges marks show ?thesis by (simp add: sum_list_triv)
qed

end
