(* ===== verification/Start.thy ===== *)
theory Start
  imports Partitions "HOL-Library.Product_Lexorder"
begin

text \<open>
  \<open>src/kafka/start.rs\<close>: where each partition starts reading, and what the open of a pipeline
  decides once for the whole topic. The watermarks, the offsets stored in the target and the
  target's file statistics are arguments, as in the code; a warning it only logs is left out.
\<close>

section \<open>One partition\<close>

datatype start =
    StartReady int "reread option"
  | StartBlocked block

definition resolve :: "int option \<Rightarrow> message_mark option \<Rightarrow> int \<Rightarrow> int \<Rightarrow> int option \<Rightarrow> start" where
  "resolve stored mark low high explicit =
     (case stored of
        Some b \<Rightarrow>
          if i64_add b 1 < low then StartBlocked (Unavailable (i64_add b 1) low)
          else if i64_add b 1 = low then StartReady (i64_add b 1) None
          else if b \<ge> high then StartBlocked (Regressed b high)
          else StartReady b (Some (case opt_filter (\<lambda>m. mk_offset m = b) mark of
                 Some m \<Rightarrow> Expect m | None \<Rightarrow> Unverifiable b))
      | None \<Rightarrow>
          (case start_without_offset low high explicit of
             StartExplicit offset \<Rightarrow> StartReady offset None
           | StartZero \<Rightarrow> StartReady 0 None
           | StartUnavailable wanted l \<Rightarrow> StartBlocked (Unavailable wanted l)
           | StartRegressed wanted h \<Rightarrow> StartBlocked (Regressed (i64_sub wanted 1) h)))"

section \<open>A fresh app_id\<close>

datatype named_start = Earliest | Latest

datatype start_policy =
    PolicyEarliest
  | PolicyLatest
  | PolicyExplicit "(partition, int) bmap" "named_start option"

definition policy_partitions :: "start_policy \<Rightarrow> (partition, int) bmap option" where
  "policy_partitions p = (case p of PolicyExplicit ps _ \<Rightarrow> Some ps | _ \<Rightarrow> None)"

type_synonym watermarks = "(partition, int \<times> int) bmap"

fun named :: "named_start \<Rightarrow> int \<times> int \<Rightarrow> int" where
  "named Earliest (low, high) = low"
| "named Latest (low, high) = high"

definition fresh_starts :: "string \<Rightarrow> start_policy \<Rightarrow> watermarks \<Rightarrow> (partition, int) bmap res" where
  "fresh_starts topic policy ws =
     (case policy of
        PolicyEarliest \<Rightarrow> Inr (bt_collect (map (\<lambda>(p, w). (p, named Earliest w)) ws))
      | PolicyLatest \<Rightarrow> Inr (bt_collect (map (\<lambda>(p, w). (p, named Latest w)) ws))
      | PolicyExplicit ps rest \<Rightarrow>
          let missing = filter (\<lambda>p. \<not> bt_mem p ps) (bt_keys ws)
          in if rest = None \<and> missing \<noteq> [] then Inl (E_KafkaStartingOffsetsIncomplete topic missing)
             else Inr (bt_collect (map (\<lambda>(p, w). (p, case bt_get ps p of
                    Some s \<Rightarrow> s | None \<Rightarrow> named (the rest) w)) ws)))"

definition fresh_baseline :: "(partition, int) bmap \<Rightarrow> (partition, int) bmap option" where
  "fresh_baseline starts =
     (let a = bt_collect (map (\<lambda>(p, s). (p, i64_sub s 1)) (filter (\<lambda>(p, s). s > 0) starts))
      in if a = [] then None else Some a)"

section \<open>The typo guard\<close>

text \<open>\<open>str::chars\<close>: a character is its UTF-8 bytes, the first one and those that continue it.\<close>

definition continues :: "char \<Rightarrow> bool" where
  "continues c \<longleftrightarrow> 128 \<le> (of_char c :: nat) \<and> (of_char c :: nat) < 192"

function utf8_chars :: "string \<Rightarrow> string list" where
  "utf8_chars [] = []"
| "utf8_chars (c # cs) = (c # takeWhile continues cs) # utf8_chars (dropWhile continues cs)"
  by pat_completeness auto

termination utf8_chars
  by (relation "measure length") (auto simp: le_imp_less_Suc length_dropWhile_le)

text \<open>One character of \<open>a\<close> against the row: \<open>prev\<close> is the old \<open>row[j]\<close>.\<close>

definition edit_cell :: "'c \<Rightarrow> nat list \<times> nat \<Rightarrow> nat \<times> 'c \<Rightarrow> nat list \<times> nat" where
  "edit_cell ca = (\<lambda>(row, prev) (j, cb).
     let cur = row ! (j + 1)
     in (row[j + 1 := min (min (prev + (if ca \<noteq> cb then 1 else 0)) (row ! j + 1)) (cur + 1)], cur))"

definition edit_row :: "'c list \<Rightarrow> nat list \<Rightarrow> nat \<times> 'c \<Rightarrow> nat list" where
  "edit_row b row = (\<lambda>(i, ca).
     fst (foldl (edit_cell ca) (row[0 := i + 1], row ! 0) (enumerate 0 b)))"

definition edit_distance :: "string \<Rightarrow> string \<Rightarrow> nat" where
  "edit_distance a b =
     (let b = utf8_chars b
      in foldl (edit_row b) [0..<length b + 1] (enumerate 0 (utf8_chars a)) ! length b)"

definition seen_app_id :: "string \<Rightarrow> string" where
  "seen_app_id t =
     (case strip_suffix ''.ddi'' t of
        Some a \<Rightarrow> a
      | None \<Rightarrow>
          (case rsplit_once CHR ''-'' t of
             Some (a, p) \<Rightarrow> if p \<noteq> [] \<and> list_all is_digit p then a else t
           | None \<Rightarrow> t))"

definition typo_guard ::
    "string \<Rightarrow> string \<Rightarrow> nat \<Rightarrow> bool \<Rightarrow> string bset \<Rightarrow> string list \<Rightarrow> unit res" where
  "typo_guard app_id target_uri data_files explicit app_ids neighbours =
     (if data_files = 0 \<or> explicit then Inr ()
      else
        let owner = (\<lambda>t. find (\<lambda>a. partition_of a t \<noteq> None \<or> t = takeover_marker_app_id a) neighbours)
        in if app_ids \<noteq> [] \<and> list_all (\<lambda>t. owner t \<noteq> None) app_ids then Inr ()
           else Inl (E_KafkaAppIdUnknown app_id target_uri
                  (sort_key (\<lambda>a. (edit_distance a app_id, a)) (bs_collect (map seen_app_id app_ids)))))"

section \<open>What the target looks like\<close>

text \<open>
  \<open>target_rows\<close>: a snapshot's number of files, the fields of its schema and each file's statistics;
  \<open>serde_json::from_str\<close> is a parameter.
\<close>

record target_files =
  tf_num_files :: nat
  tf_fields :: "string list"
  tf_stats :: "string option list"

fun may_hold_topic :: "(string \<Rightarrow> json option) \<Rightarrow> string \<Rightarrow> string \<Rightarrow> string option list \<Rightarrow> bool" where
  "may_hold_topic parse column topic [] = False"
| "may_hold_topic parse column topic (f # fs) =
     (case Option.bind f parse of
        None \<Rightarrow> True
      | Some stats \<Rightarrow>
          let bound = (\<lambda>which. Option.bind (Option.bind (json_get which stats) (json_get column)) as_str)
          in case (bound ''minValues'', bound ''maxValues'') of
               (Some mn, Some mx) \<Rightarrow>
                 if length (utf8_chars mn) \<ge> 32 \<or> length (utf8_chars mx) \<ge> 32 then True
                 else if mn \<le> topic \<and> topic \<le> mx then True
                 else may_hold_topic parse column topic fs
             | _ \<Rightarrow> True)"

definition target_rows ::
    "(string \<Rightarrow> json option) \<Rightarrow> delta_error + target_files \<Rightarrow> string \<Rightarrow> string \<Rightarrow> (nat \<times> bool) res" where
  "target_rows parse snapshot prefix topic =
     (case snapshot of
        Inl e \<Rightarrow> Inl (E_Delta e)
      | Inr s \<Rightarrow>
          let files = tf_num_files s
          in if files = 0 then Inr (0, False)
             else if prefix @ ''topic'' \<notin> set (tf_fields s) then Inr (files, True)
             else Inr (files, may_hold_topic parse (prefix @ ''topic'') topic (tf_stats s)))"

section \<open>The open\<close>

record open_facts =
  of_app_id :: string
  of_topic :: string
  of_target_uri :: string
  of_stored :: "(partition, int option) bmap"
  of_watermarks :: watermarks
  of_era :: era_kind
  of_data_files :: nat
  of_holds_rows :: bool
  of_policy :: start_policy
  of_explicit :: bool
  of_kdi_compat :: "bool option"
  of_neighbours :: "string list"
  of_app_ids :: "string bset"

record open_plan =
  op_baseline :: "(partition, int) bmap option"
  op_kdi_compat :: bool

definition plan_open :: "open_facts \<Rightarrow> open_plan res" where
  "plan_open f =
     (let explicit_entries = (case policy_partitions (of_policy f) of Some ps \<Rightarrow> ps | None \<Rightarrow> [])
      in res_bind
        (if of_era f = EraFresh
         then typo_guard (of_app_id f) (of_target_uri f) (of_data_files f) (of_explicit f) (of_app_ids f)
                (of_neighbours f)
         else Inr ()) (\<lambda>_.
      let parts = bt_collect (map (\<lambda>(p, s). (p, s, case bt_get (of_watermarks f) p of
                    Some w \<Rightarrow> snd w | None \<Rightarrow> 0)) (of_stored f));
          acknowledged = bs_collect (bt_keys explicit_entries)
      in res_bind (takeover_check (of_app_id f) (of_era f) (of_holds_rows f) parts acknowledged) (\<lambda>_.
      let may_be_kdis = of_era f = EraKdi \<or> (of_era f = EraFresh \<and> of_holds_rows f)
      in res_bind
        (case of_kdi_compat f of
           Some set_to \<Rightarrow> Inr set_to
         | None \<Rightarrow> if may_be_kdis
                 then Inl (E_KafkaCompatUnset (of_app_id f) (of_target_uri f) (of_era f = EraFresh))
                 else Inr False) (\<lambda>kdi_compat.
      res_bind
        (case of_era f of
           EraFresh \<Rightarrow> res_bind (fresh_starts (of_topic f) (of_policy f) (of_watermarks f))
             (\<lambda>starts. Inr (fresh_baseline starts))
         | EraKdi \<Rightarrow> Inr (takeover_baseline (of_era f) (of_stored f) explicit_entries)
         | EraDdi \<Rightarrow> Inr None) (\<lambda>baseline.
      Inr \<lparr>op_baseline = baseline, op_kdi_compat = kdi_compat\<rparr>)))))"

section \<open>Starting where the last commit ended\<close>

text \<open>
  A partition with an offset in the target resumes right after it: it reads iff that offset is
  still inside the topic or right below it, and then, of the messages the topic delivers in order
  from where it was assigned, takes exactly those past the stored offset; unless the message at the
  stored offset is not the one the commit recorded, and then takes none.
\<close>

lemma resume_takes_what_follows:
  assumes "offset_ok b" and "resolve (Some b) mark low high explicit = StartReady at rr"
    and "p \<notin> set paused" and "\<forall>ms \<in> set mss. offset_ok (mk_offset (ms_mark ms))"
    and "sorted_wrt (<) (map mk_offset (marks_of p mss))"
  shows "low \<le> b + 1 \<and> (b < high \<or> b + 1 = low)
    \<and> taken p mss (paused, ready_at p at rr now parts, buf) =
       (if at = b \<and> (\<exists>m k. mark = Some m \<and> mk_offset m = b \<and> k \<in> set (marks_of p mss) \<and> mk_offset k = b
              \<and> (mk_timestamp_ms m, mk_value_len m) \<noteq> (mk_timestamp_ms k, mk_value_len k)) then []
        else filter (\<lambda>m. b < mk_offset m) (marks_of p mss))"
proof -
  let ?s = "Ready at at rr now"
  have "i64_add b 1 = b + 1" using assms(1) by simp
  with assms(2) have r: "low \<le> b + 1" "b < high \<or> b + 1 = low"
    "if b + 1 = low then at = b + 1 \<and> rr = None
     else at = b \<and> rr = Some (case opt_filter (\<lambda>m. mk_offset m = b) mark of Some m \<Rightarrow> Expect m | None \<Rightarrow> Unverifiable b)"
    by (auto simp: resolve_def split: if_splits)
  have fl: "floor_of ?s = b + 1"
    using r(3) by (cases mark) (auto simp: floor_of_def split: if_splits)
  have ok: "pstate_ok ?s"
    using r(3) assms(1) by (cases mark) (auto simp: pstate_ok_def split: if_splits)
  have rep: "replaced_by ?s k \<longleftrightarrow> at = b \<and> (\<exists>m. mark = Some m \<and> mk_offset m = b \<and> mk_offset k = b
      \<and> (mk_timestamp_ms m, mk_value_len m) \<noteq> (mk_timestamp_ms k, mk_value_len k))" for k
    using r(3) by (cases mark) (auto simp: replaced_by_def split: if_splits)
  have get: "bt_get (ready_at p at rr now parts) p = Some ?s" by (simp add: ready_at_def)
  have "taken p mss (paused, ready_at p at rr now parts, buf) =
      (if \<exists>k \<in> set (marks_of p mss). replaced_by ?s k then []
       else filter (\<lambda>m. b + 1 \<le> mk_offset m) (marks_of p mss))"
    using in_order_taken [OF get refl assms(3) ok assms(4,5)] by (simp add: fl)
  moreover have "filter (\<lambda>m. b + 1 \<le> mk_offset m) (marks_of p mss) = filter (\<lambda>m. b < mk_offset m) (marks_of p mss)"
    by (rule filter_cong) auto
  moreover have "(\<exists>k \<in> set (marks_of p mss). replaced_by ?s k) \<longleftrightarrow>
      at = b \<and> (\<exists>m k. mark = Some m \<and> mk_offset m = b \<and> k \<in> set (marks_of p mss) \<and> mk_offset k = b
        \<and> (mk_timestamp_ms m, mk_value_len m) \<noteq> (mk_timestamp_ms k, mk_value_len k))"
    unfolding rep by blast
  ultimately show ?thesis using r(1,2) by (simp only: simp_thms)
qed

lemma resume_takes_what_follows_witness:
  "taken 0 (map example_message [41, 43, 45])
     ([], ready_at 0 41 (Some (Expect \<lparr>mk_offset = 41, mk_timestamp_ms = 7, mk_value_len = 2\<rparr>)) 0 [], empty_buffer)
   = map (ms_mark \<circ> example_message) [43, 45]"
proof -
  let ?m = "\<lparr>mk_offset = 41, mk_timestamp_ms = 7, mk_value_len = 2\<rparr> :: message_mark"
  have a: "offset_ok 41" "(0 :: partition) \<notin> set []" by (simp_all add: offset_ok_def i64_def)
  then have r: "resolve (Some 41) (Some ?m) 30 50 None = StartReady 41 (Some (Expect ?m))"
    by (simp add: resolve_def)
  have ms: "\<forall>ms \<in> set (map example_message [41, 43, 45]). offset_ok (mk_offset (ms_mark ms))"
    "sorted_wrt (<) (map mk_offset (marks_of 0 (map example_message [41, 43, 45])))"
    and marks: "marks_of 0 (map example_message [41, 43, 45]) = map (ms_mark \<circ> example_message) [41, 43, 45]"
    by (simp_all add: example_message_def offset_ok_def i64_def marks_of_def)
  from resume_takes_what_follows [OF a(1) r a(2) ms, of 0 "[]" empty_buffer] show ?thesis
    unfolding marks by (auto simp: example_message_def simp del: taken_simps)
qed

section \<open>A fresh start\<close>

lemma fresh_starts_get:
  assumes "bt_wf ws" and "fresh_starts topic policy ws = Inr starts"
  shows "bt_wf starts" and "bt_get starts p = map_option (\<lambda>w.
      case policy of
        PolicyEarliest \<Rightarrow> fst w
      | PolicyLatest \<Rightarrow> snd w
      | PolicyExplicit ps rest \<Rightarrow> (case bt_get ps p of Some s \<Rightarrow> s | None \<Rightarrow> named (the rest) w)) (bt_get ws p)"
    and "\<And>ps. policy = PolicyExplicit ps None \<Longrightarrow> bt_get ws p \<noteq> None \<Longrightarrow> bt_get ps p \<noteq> None"
proof -
  note get = bt_get_collect_map [OF assms(1)]
  show "bt_wf starts" using assms(2) by (auto simp: fresh_starts_def Let_def split: start_policy.splits if_splits)
  show "bt_get starts p = map_option (\<lambda>w.
      case policy of
        PolicyEarliest \<Rightarrow> fst w
      | PolicyLatest \<Rightarrow> snd w
      | PolicyExplicit ps rest \<Rightarrow> (case bt_get ps p of Some s \<Rightarrow> s | None \<Rightarrow> named (the rest) w)) (bt_get ws p)"
  proof (cases policy)
    case PolicyEarliest
    then show ?thesis using assms(2) get [of "\<lambda>_. named Earliest" p]
      by (cases "bt_get ws p") (auto simp: fresh_starts_def)
  next
    case PolicyLatest
    then show ?thesis using assms(2) get [of "\<lambda>_. named Latest" p]
      by (cases "bt_get ws p") (auto simp: fresh_starts_def)
  next
    case (PolicyExplicit ps rest)
    then show ?thesis using assms(2)
        get [of "\<lambda>p w. case bt_get ps p of Some s \<Rightarrow> s | None \<Rightarrow> named (the rest) w" p]
      by (auto simp: fresh_starts_def Let_def split: if_splits)
  qed
  show "bt_get ps p \<noteq> None" if "policy = PolicyExplicit ps None" "bt_get ws p \<noteq> None" for ps
  proof -
    have "filter (\<lambda>p. \<not> bt_mem p ps) (bt_keys ws) = []"
      using assms(2) that(1) by (auto simp: fresh_starts_def Let_def split: if_splits)
    moreover have "p \<in> set (bt_keys ws)" using that(2) by (auto simp: map_of_eq_None_iff)
    ultimately show ?thesis by (auto simp: filter_empty_conv bt_mem_def)
  qed
qed

lemma fresh_baseline_get:
  assumes "bt_wf starts"
  shows "(case fresh_baseline starts of Some a \<Rightarrow> bt_get a p | None \<Rightarrow> None)
     = (case bt_get starts p of Some s \<Rightarrow> if s > 0 then Some (i64_sub s 1) else None | None \<Rightarrow> None)"
proof -
  let ?l = "map (\<lambda>(p, s). (p, i64_sub s 1)) (filter (\<lambda>(p, s). s > 0) starts)"
  have keys: "map fst ?l = map fst (filter (\<lambda>(p, s). s > 0) starts)" by (induction starts) auto
  have "distinct (map fst ?l)"
    unfolding keys by (rule bt_wf_distinct [OF bt_wf_filter [OF assms]])
  then have get: "bt_get (bt_collect ?l) p = map_of ?l p" by (rule bt_get_collect_distinct)
  have "map_of ?l p = (case bt_get starts p of Some s \<Rightarrow> if s > 0 then Some (i64_sub s 1) else None | None \<Rightarrow> None)"
    using bt_wf_distinct [OF assms]
  proof (induction starts)
    case (Cons e starts)
    obtain q s where e: "e = (q, s)" by (cases e)
    have d: "distinct (map fst starts)" and q: "bt_get starts q = None"
      using Cons.prems by (auto simp: e map_of_eq_None_iff)
    show ?case using Cons.IH [OF d] q by (cases "p = q") (simp_all add: e)
  qed simp
  with get show ?thesis by (auto simp: fresh_baseline_def Let_def)
qed

text \<open>
  A fresh pipeline starts where its policy says and stays there: with the baseline of the open in
  the target, or nothing where there is none, each partition of the topic later resolves to reading
  from the very offset the policy names, as long as that is inside the topic.
\<close>

lemma fresh_start_resumes_at_policy:
  assumes "bt_wf ws" and "fresh_starts topic policy ws = Inr starts" and "bt_get ws p = Some (low, high)"
    and "bt_get starts p = Some s" and "low \<le> s" and "s \<le> high" and "offset_ok s" and "0 \<le> low" and "offset_ok high"
    and "low \<le> low'" and "high \<le> high'" and "low' \<le> s"
  shows "(case policy of PolicyEarliest \<Rightarrow> s = low | PolicyLatest \<Rightarrow> s = high
      | PolicyExplicit ps rest \<Rightarrow> (case bt_get ps p of Some e \<Rightarrow> s = e | None \<Rightarrow> rest \<noteq> None))
    \<and> (\<exists>at rr. resolve (case fresh_baseline starts of Some a \<Rightarrow> bt_get a p | None \<Rightarrow> None) mark low' high'
            (Option.bind (policy_partitions policy) (\<lambda>ps. bt_get ps p)) = StartReady at rr
        \<and> floor_of (Ready at at rr now) = s)"
proof
  note starts = fresh_starts_get [OF assms(1,2)]
  show "case policy of PolicyEarliest \<Rightarrow> s = low | PolicyLatest \<Rightarrow> s = high
      | PolicyExplicit ps rest \<Rightarrow> (case bt_get ps p of Some e \<Rightarrow> s = e | None \<Rightarrow> rest \<noteq> None)"
    using starts(2) [of p] starts(3) [of _ p] assms(3,4) by (auto split: start_policy.splits option.splits)
  have base: "(case fresh_baseline starts of Some a \<Rightarrow> bt_get a p | None \<Rightarrow> None)
      = (if s > 0 then Some (i64_sub s 1) else None)"
    using fresh_baseline_get [OF starts(1), of p] assms(4) by simp
  show "\<exists>at rr. resolve (case fresh_baseline starts of Some a \<Rightarrow> bt_get a p | None \<Rightarrow> None) mark low' high'
            (Option.bind (policy_partitions policy) (\<lambda>ps. bt_get ps p)) = StartReady at rr
        \<and> floor_of (Ready at at rr now) = s"
  proof (cases "s > 0")
    case True
    have sub: "i64_sub s 1 = s - 1" using assms(7) True by (simp add: offset_ok_def int_ranges)
    have "i64_add (s - 1) 1 = s"
      using assms(7) True i64_add_exact [of "s - 1" 1] by (simp add: offset_ok_def int_ranges)
    with assms True show ?thesis unfolding base
      by (cases mark) (auto simp: sub resolve_def floor_of_def)
  next
    case False
    with assms have s: "s = 0" "low' = 0" "low = 0" by simp_all
    have ex: "Option.bind (policy_partitions policy) (\<lambda>ps. bt_get ps p) = None
        \<or> Option.bind (policy_partitions policy) (\<lambda>ps. bt_get ps p) = Some 0"
      using starts(2) [of p] assms(3,4) s by (auto simp: policy_partitions_def split: start_policy.splits option.splits)
    have "0 \<le> high'" using assms s by simp
    with ex False show ?thesis unfolding base
      by (auto simp: resolve_def start_without_offset_def s floor_of_def)
  qed
qed

lemma fresh_start_resumes_at_policy_witness:
  "fresh_baseline [(0, 30), (1, 0)] = Some [(0, 29)]
   \<and> (\<exists>at rr. resolve (Some 29) None 12 60 None = StartReady at rr \<and> floor_of (Ready at at rr 0) = 30)"
proof -
  let ?ws = "[(0, 10, 50), (1, 0, 9)] :: watermarks"
  let ?policy = "PolicyExplicit [(0, 30), (1, 0)] None"
  have b: "fresh_baseline [(0, 30), (1, 0)] = Some [(0, 29)]"
    by (simp add: fresh_baseline_def bt_collect_def bt_extend_def i64_sub_exact int_ranges)
  have h: "bt_wf ?ws" "fresh_starts ''t'' ?policy ?ws = Inr [(0, 30), (1, 0)]" "bt_get ?ws 0 = Some (10, 50)"
    "bt_get [(0 :: partition, 30 :: int), (1, 0)] 0 = Some 30" "(10 :: int) \<le> 30" "(30 :: int) \<le> 50" "offset_ok 30"
    "(0 :: int) \<le> 10" "offset_ok 50" "(10 :: int) \<le> 12" "(50 :: int) \<le> 60" "(12 :: int) \<le> 30"
    by (simp_all add: bt_wf_def fresh_starts_def bt_mem_def bt_collect_def bt_extend_def offset_ok_def int_ranges)
  from fresh_start_resumes_at_policy [OF h, of None 0] b show ?thesis
    by (auto simp: policy_partitions_def resolve_def i64_add_exact int_ranges)
qed

section \<open>The typo guard's suggestion\<close>

text \<open>
  Turning one sequence into another by single insertions, deletions and substitutions; the
  recursion of Levenshtein, and the rows of the code's table, which are that recursion on
  prefixes read from the right.
\<close>

inductive edits :: "nat \<Rightarrow> 'c list \<Rightarrow> 'c list \<Rightarrow> bool" where
  edits_nil: "edits 0 [] []"
| edits_keep: "edits n a b \<Longrightarrow> edits n (x # a) (x # b)"
| edits_subst: "edits n a b \<Longrightarrow> edits (Suc n) (x # a) (y # b)"
| edits_del: "edits n a b \<Longrightarrow> edits (Suc n) (x # a) b"
| edits_ins: "edits n a b \<Longrightarrow> edits (Suc n) a (y # b)"

lemma edits_append: "edits m a b \<Longrightarrow> edits n c d \<Longrightarrow> edits (m + n) (a @ c) (b @ d)"
  by (induction rule: edits.induct) (auto intro: edits.intros)

lemma edits_rev: "edits n a b \<Longrightarrow> edits n (rev a) (rev b)"
proof (induction rule: edits.induct)
  case (edits_keep n a b x)
  from edits_append [OF edits_keep.IH, of 0 "[x]" "[x]"] show ?case by (simp add: edits.intros)
next
  case (edits_subst n a b x y)
  from edits_append [OF edits_subst.IH, of 1 "[x]" "[y]"] show ?case by (simp add: edits.intros)
next
  case (edits_del n a b x)
  from edits_append [OF edits_del.IH, of 1 "[x]" "[]"] show ?case by (simp add: edits.intros)
next
  case (edits_ins n a b y)
  from edits_append [OF edits_ins.IH, of 1 "[]" "[y]"] show ?case by (simp add: edits.intros)
qed (simp add: edits.intros)

fun lev :: "'c list \<Rightarrow> 'c list \<Rightarrow> nat" where
  "lev [] b = length b"
| "lev a [] = length a"
| "lev (x # a) (y # b) =
     min (min (lev a b + (if x \<noteq> y then 1 else 0)) (lev (x # a) b + 1)) (lev a (y # b) + 1)"

lemma lev_Nil2 [simp]: "lev a [] = length a"
  by (cases a) simp_all

lemma edits_from_nil: "edits (length b) [] b"
  by (induction b) (auto intro: edits.intros)

lemma edits_to_nil: "edits (length a) a []"
  by (induction a) (auto intro: edits.intros)

lemma edits_lev: "edits (lev a b) a b"
proof (induction a b rule: lev.induct)
  case (3 x a y b)
  then have "edits (lev a b + (if x \<noteq> y then 1 else 0)) (x # a) (y # b)"
    "edits (lev (x # a) b + 1) (x # a) (y # b)" "edits (lev a (y # b) + 1) (x # a) (y # b)"
    by (auto intro: edits.intros)
  then show ?case by (simp add: min_def)
next
  case (2 v va)
  show ?case using edits_to_nil [of "v # va"] by simp
qed (simp add: edits_from_nil)

lemma lev_del: "lev (x # a) b \<le> Suc (lev a b)" and lev_ins: "lev a (y # b) \<le> Suc (lev a b)"
proof -
  have del: "lev (x # a) b \<le> Suc (lev a b)" for x :: 'a and a b by (cases b) auto
  show "lev (x # a) b \<le> Suc (lev a b)" by (rule del)
  show "lev a (y # b) \<le> Suc (lev a b)" by (cases a) auto
qed

lemma lev_least: "edits n a b \<Longrightarrow> lev a b \<le> n"
proof (induction rule: edits.induct)
  case (edits_del n a b x)
  then show ?case using lev_del [of x a b] by linarith
next
  case (edits_ins n a b y)
  then show ?case using lev_ins [of a y b] by linarith
qed auto

text \<open>The table's cell \<open>(i, j)\<close>: the distance of the first \<open>i\<close> and \<open>j\<close> characters.\<close>

definition cell :: "'c list \<Rightarrow> 'c list \<Rightarrow> nat \<Rightarrow> nat \<Rightarrow> nat" where
  "cell a b i j = lev (rev (take i a)) (rev (take j b))"

lemma cell_0 [simp]: "i \<le> length a \<Longrightarrow> cell a b i 0 = i" "j \<le> length b \<Longrightarrow> cell a b 0 j = j"
  by (simp_all add: cell_def)

lemma cell_Suc:
  "i < length a \<Longrightarrow> j < length b \<Longrightarrow> cell a b (Suc i) (Suc j) =
     min (min (cell a b i j + (if a ! i \<noteq> b ! j then 1 else 0)) (cell a b (Suc i) j + 1)) (cell a b i (Suc j) + 1)"
  by (simp add: cell_def take_Suc_conv_app_nth)

lemma foldl_take_Suc:
  "j < length xs \<Longrightarrow> foldl f s (take (Suc j) xs) = f (foldl f s (take j xs)) (xs ! j)"
  by (simp add: take_Suc_conv_app_nth)

lemma edit_cells:
  assumes i: "i < length a" and row: "length row = Suc (length b)" "\<forall>k \<le> length b. row ! k = cell a b i k"
    and j: "j \<le> length b"
  shows "let (row', prev) = foldl (edit_cell (a ! i)) (row[0 := i + 1], row ! 0) (take j (enumerate 0 b))
    in length row' = Suc (length b) \<and> prev = cell a b i j
      \<and> (\<forall>k \<le> length b. row' ! k = (if k \<le> j then cell a b (Suc i) k else cell a b i k))"
  using j
proof (induction j)
  case 0
  with i row show ?case by (auto simp: nth_list_update)
next
  case (Suc j)
  let ?s = "foldl (edit_cell (a ! i)) (row[0 := i + 1], row ! 0) (take j (enumerate 0 b))"
  obtain row' prev where s: "?s = (row', prev)" by (meson surj_pair)
  from Suc s have ih: "length row' = Suc (length b)" "prev = cell a b i j"
    "\<forall>k \<le> length b. row' ! k = (if k \<le> j then cell a b (Suc i) k else cell a b i k)" by simp_all
  have e: "enumerate 0 b ! j = (j, b ! j)" "j < length (enumerate 0 b)" using Suc.prems by (simp_all add: nth_enumerate_eq)
  have next_cell: "foldl (edit_cell (a ! i)) (row[0 := i + 1], row ! 0) (take (Suc j) (enumerate 0 b))
      = (row'[j + 1 := min (min (prev + (if a ! i \<noteq> b ! j then 1 else 0)) (row' ! j + 1)) (row' ! (j + 1) + 1)], row' ! (j + 1))"
    unfolding foldl_take_Suc [OF e(2)] s e(1) by (simp add: edit_cell_def Let_def)
  show ?case
    unfolding next_cell using ih Suc.prems cell_Suc [OF i, of j b]
    by (auto simp: nth_list_update le_Suc_eq)
qed

lemma edit_rows:
  assumes "i \<le> length a"
  shows "length (foldl (edit_row b) [0..<length b + 1] (take i (enumerate 0 a))) = Suc (length b)
    \<and> (\<forall>k \<le> length b. foldl (edit_row b) [0..<length b + 1] (take i (enumerate 0 a)) ! k = cell a b i k)"
  using assms
proof (induction i)
  case 0
  then show ?case by (simp del: upt_Suc add: nth_append)
next
  case (Suc i)
  let ?row = "foldl (edit_row b) [0..<length b + 1] (take i (enumerate 0 a))"
  have e: "enumerate 0 a ! i = (i, a ! i)" "i < length (enumerate 0 a)" using Suc.prems by (simp_all add: nth_enumerate_eq)
  have ih: "length ?row = Suc (length b)" "\<forall>k \<le> length b. ?row ! k = cell a b i k" using Suc by simp_all
  have i: "i < length a" using Suc.prems by simp
  have "take (length b) (enumerate 0 b) = enumerate 0 b" by simp
  with edit_cells [OF i ih le_refl] show ?case
    unfolding foldl_take_Suc [OF e(2)] e(1) by (auto simp: edit_row_def Let_def split: prod.splits)
qed

text \<open>
  The distance the typo guard sorts its suggestions by is Levenshtein's: the characters of one
  app_id can be turned into the other's by that many insertions, deletions and substitutions, and
  by no fewer.
\<close>

lemma edit_distance_is_least:
  "edits (edit_distance a b) (utf8_chars a) (utf8_chars b)
   \<and> (\<forall>n. edits n (utf8_chars a) (utf8_chars b) \<longrightarrow> edit_distance a b \<le> n)"
proof -
  let ?a = "utf8_chars a" and ?b = "utf8_chars b"
  have "edit_distance a b = cell ?a ?b (length ?a) (length ?b)"
    using edit_rows [of "length ?a" ?a ?b] by (simp add: edit_distance_def Let_def)
  then have d: "edit_distance a b = lev (rev ?a) (rev ?b)" by (simp add: cell_def)
  have "edits (lev (rev ?a) (rev ?b)) (rev (rev ?a)) (rev (rev ?b))" by (intro edits_rev edits_lev)
  then have "edits (edit_distance a b) ?a ?b" by (simp add: d)
  moreover have "edit_distance a b \<le> n" if "edits n ?a ?b" for n
    unfolding d using edits_rev [OF that] by (rule lev_least)
  ultimately show ?thesis by blast
qed

lemma edit_distance_is_least_witness:
  "\<exists>n. edit_distance ''od'' ''ord'' = n \<and> n \<le> 1 \<and> \<not> edits 0 (utf8_chars ''od'') (utf8_chars ''ord'')"
proof -
  have c: "utf8_chars ''od'' = map (\<lambda>c. [c]) ''od''" "utf8_chars ''ord'' = map (\<lambda>c. [c]) ''ord''"
    by code_simp+
  have "edits (Suc 0) [[CHR ''d'']] [[CHR ''r''], [CHR ''d'']]"
    by (intro edits_ins edits_keep edits_nil)
  then have "edits 1 (utf8_chars ''od'') (utf8_chars ''ord'')"
    unfolding c by (simp add: edits_keep)
  then have "edit_distance ''od'' ''ord'' \<le> 1" using edit_distance_is_least by blast
  moreover have "edit_distance ''od'' ''ord'' = 1" by code_simp
  moreover have "\<not> edits 0 (utf8_chars ''od'') (utf8_chars ''ord'')"
  proof
    assume "edits 0 (utf8_chars ''od'') (utf8_chars ''ord'')"
    then have "edit_distance ''od'' ''ord'' \<le> 0" using edit_distance_is_least by blast
    with \<open>edit_distance ''od'' ''ord'' = 1\<close> show False by simp
  qed
  ultimately show ?thesis by blast
qed

lemma seen_app_id_txn: "0 \<le> p \<Longrightarrow> p < 2 ^ 31 \<Longrightarrow> seen_app_id (txn_app_id a p) = a"
proof -
  assume p: "0 \<le> p" "p < 2 ^ 31"
  have r: "rsplit_once CHR ''-'' (txn_app_id a p) = Some (a, show_nat (nat p))"
    using p by (simp add: txn_app_id_def show_int_def)
  have d: "list_all is_digit (show_nat (nat p))" "show_nat (nat p) \<noteq> []" by simp_all
  have "strip_suffix ''.ddi'' (txn_app_id a p) = None"
  proof (cases "strip_suffix ''.ddi'' (txn_app_id a p)")
    case (Some b)
    then have "txn_app_id a p = takeover_marker_app_id b" by (simp add: takeover_marker_app_id_def)
    with txn_app_id_not_marker [OF p] show ?thesis by metis
  qed
  with r d show ?thesis by (simp add: seen_app_id_def)
qed

lemma seen_app_id_marker [simp]: "seen_app_id (takeover_marker_app_id a) = a"
proof -
  have "strip_suffix ''.ddi'' (a @ ''.ddi'') = Some a" by simp
  then show ?thesis unfolding seen_app_id_def takeover_marker_app_id_def by (simp only: option.case)
qed

text \<open>
  A mistyped app_id is refused, and told the nearest one: the guard lets an open pass only on a
  target without data, with offsets of the pipeline's own, or where every \<open>txn\<close> is a configured
  neighbour's; otherwise it names every pipeline the target's \<open>txn\<close>s belong to, once each and the
  nearest first.
\<close>

lemma typo_guard_decides:
  "(typo_guard app_id uri data_files explicit app_ids neighbours = Inr () \<longleftrightarrow>
      data_files = 0 \<or> explicit
      \<or> app_ids \<noteq> [] \<and> (\<forall>t \<in> set app_ids. \<exists>a \<in> set neighbours.
            partition_of a t \<noteq> None \<or> t = takeover_marker_app_id a))
   \<and> (\<forall>e. typo_guard app_id uri data_files explicit app_ids neighbours = Inl e \<longrightarrow>
       (\<exists>seen. e = E_KafkaAppIdUnknown app_id uri seen \<and> distinct seen \<and> set seen = seen_app_id ` set app_ids
          \<and> sorted_wrt (\<lambda>x y. edit_distance x app_id \<le> edit_distance y app_id) seen
          \<and> (\<forall>a p. 0 \<le> p \<and> p < 2 ^ 31 \<and> txn_app_id a p \<in> set app_ids \<longrightarrow> a \<in> set seen)
          \<and> (\<forall>a. takeover_marker_app_id a \<in> set app_ids \<longrightarrow> a \<in> set seen)))"
proof -
  let ?key = "\<lambda>a. (edit_distance a app_id, a)"
  define seen where "seen = sort_key ?key (bs_collect (map seen_app_id app_ids))"
  have owner: "find (\<lambda>a. partition_of a t \<noteq> None \<or> t = takeover_marker_app_id a) neighbours \<noteq> None
      \<longleftrightarrow> (\<exists>a \<in> set neighbours. partition_of a t \<noteq> None \<or> t = takeover_marker_app_id a)" for t
    unfolding find_None_iff by blast
  have g: "typo_guard app_id uri data_files explicit app_ids neighbours =
      (if data_files = 0 \<or> explicit then Inr ()
       else if app_ids \<noteq> [] \<and> (\<forall>t \<in> set app_ids. \<exists>a \<in> set neighbours.
            partition_of a t \<noteq> None \<or> t = takeover_marker_app_id a) then Inr ()
       else Inl (E_KafkaAppIdUnknown app_id uri seen))"
    unfolding typo_guard_def Let_def list_all_iff owner seen_def ..
  have set_seen: "set seen = seen_app_id ` set app_ids" by (simp add: seen_def)
  have dist: "distinct seen"
    using bs_wf_collect [of "map seen_app_id app_ids"] unfolding bs_wf_def strict_sorted_iff by (simp add: seen_def)
  have "sorted (map ?key seen)" unfolding seen_def by (rule sorted_sort_key)
  then have srt: "sorted_wrt (\<lambda>x y. edit_distance x app_id \<le> edit_distance y app_id) seen"
    unfolding sorted_map by (rule sorted_wrt_mono_rel [rotated]) (auto simp: less_eq_prod_def)
  have own: "a \<in> set seen" if "0 \<le> p" "p < 2 ^ 31" "txn_app_id a p \<in> set app_ids" for a p
    using that seen_app_id_txn [OF that(1,2), of a] unfolding set_seen by force
  have mark: "a \<in> set seen" if "takeover_marker_app_id a \<in> set app_ids" for a
    using that seen_app_id_marker [of a] unfolding set_seen by force
  show ?thesis
  proof (intro conjI allI impI)
    fix e assume "typo_guard app_id uri data_files explicit app_ids neighbours = Inl e"
    then have "e = E_KafkaAppIdUnknown app_id uri seen" unfolding g by (simp split: if_splits)
    with dist set_seen srt own mark show "\<exists>seen. e = E_KafkaAppIdUnknown app_id uri seen \<and> distinct seen
          \<and> set seen = seen_app_id ` set app_ids
          \<and> sorted_wrt (\<lambda>x y. edit_distance x app_id \<le> edit_distance y app_id) seen
          \<and> (\<forall>a p. 0 \<le> p \<and> p < 2 ^ 31 \<and> txn_app_id a p \<in> set app_ids \<longrightarrow> a \<in> set seen)
          \<and> (\<forall>a. takeover_marker_app_id a \<in> set app_ids \<longrightarrow> a \<in> set seen)" by blast
  next
    show "typo_guard app_id uri data_files explicit app_ids neighbours = Inr () \<longleftrightarrow>
      data_files = 0 \<or> explicit
      \<or> app_ids \<noteq> [] \<and> (\<forall>t \<in> set app_ids. \<exists>a \<in> set neighbours.
            partition_of a t \<noteq> None \<or> t = takeover_marker_app_id a)"
      unfolding g by (auto simp only: if_split_asm sum.simps split: if_split)
  qed
qed

lemma typo_guard_decides_witness:
  "typo_guard ''od'' ''u'' 3 False [takeover_marker_app_id ''x'', txn_app_id ''od'' 0] [] \<noteq> Inr ()
   \<and> (\<exists>seen. typo_guard ''od'' ''u'' 3 False [takeover_marker_app_id ''x'', txn_app_id ''od'' 0] []
          = Inl (E_KafkaAppIdUnknown ''od'' ''u'' seen) \<and> ''od'' \<in> set seen \<and> ''x'' \<in> set seen)"
proof -
  let ?ids = "[takeover_marker_app_id ''x'', txn_app_id ''od'' 0]"
  note d = typo_guard_decides [of "''od''" "''u''" 3 False ?ids "[]"]
  have no: "typo_guard ''od'' ''u'' 3 False ?ids [] \<noteq> Inr ()" using d [THEN conjunct1] by auto
  then obtain e where e: "typo_guard ''od'' ''u'' 3 False ?ids [] = Inl e"
    by (cases "typo_guard ''od'' ''u'' 3 False ?ids []") auto
  from d [THEN conjunct2, rule_format, OF e] obtain seen where s: "e = E_KafkaAppIdUnknown ''od'' ''u'' seen"
    "\<forall>a p. 0 \<le> p \<and> p < 2 ^ 31 \<and> txn_app_id a p \<in> set ?ids \<longrightarrow> a \<in> set seen"
    "\<forall>a. takeover_marker_app_id a \<in> set ?ids \<longrightarrow> a \<in> set seen" by blast
  have "''od'' \<in> set seen" using s(2) [rule_format, of 0 "''od''"] by simp
  moreover have "''x'' \<in> set seen" using s(3) [rule_format, of "''x''"] by simp
  ultimately show ?thesis using no e s(1) by blast
qed

section \<open>The open's plan\<close>

text \<open>The entries of \<open>starting_offsets\<close>, and the topic's partitions with their offset and high watermark.\<close>

definition explicit_entry :: "open_facts \<Rightarrow> partition \<Rightarrow> int option" where
  "explicit_entry f p = Option.bind (policy_partitions (of_policy f)) (\<lambda>ps. bt_get ps p)"

lemma takeover_check_entry:
  assumes "takeover_check app_id e holds parts (bs_collect (bt_keys ex)) = Inr ()"
    and "e = EraKdi \<or> e = EraFresh \<and> holds" and "bt_get parts p = Some (None, high)" and "high > 0"
  shows "p \<in> set (bt_keys ex)"
proof -
  have "(p, None, high) \<in> set parts" using assms(3) by (rule map_of_SomeD)
  with assms(1,2,4) show ?thesis
    by (force simp: takeover_check_def Let_def filter_empty_conv split: if_splits era_kind.splits)
qed

text \<open>
  C32. An open that goes through has accounted for everything: it commits a baseline only before ddi's
  own era, taking every offset kafka-delta-ingest stored over at its value and a fresh app_id's
  from its policy; where the target may hold the topic's rows, a partition with messages and no
  stored offset has an entry of its own and \<open>kdi_compat\<close> is set; and a fresh app_id has passed the
  typo guard.
\<close>

theorem plan_open_accounts_for_everything:
  assumes "plan_open f = Inr plan" and "bt_wf (of_stored f)"
  shows "(of_era f = EraDdi \<longrightarrow> op_baseline plan = None)
    \<and> (of_era f = EraKdi \<longrightarrow> (\<exists>a. op_baseline plan = Some a
         \<and> (\<forall>p b. bt_get (of_stored f) p = Some (Some b) \<longrightarrow> bt_get a p = Some b)))
    \<and> (of_era f = EraFresh \<longrightarrow>
         (\<exists>starts. fresh_starts (of_topic f) (of_policy f) (of_watermarks f) = Inr starts
            \<and> op_baseline plan = fresh_baseline starts)
         \<and> typo_guard (of_app_id f) (of_target_uri f) (of_data_files f) (of_explicit f) (of_app_ids f)
             (of_neighbours f) = Inr ())
    \<and> (of_era f = EraKdi \<or> of_era f = EraFresh \<and> of_holds_rows f \<longrightarrow>
         of_kdi_compat f = Some (op_kdi_compat plan)
         \<and> (\<forall>p low high. bt_get (of_stored f) p = Some None \<and> bt_get (of_watermarks f) p = Some (low, high)
              \<and> high > 0 \<longrightarrow> explicit_entry f p \<noteq> None))"
proof -
  define ex where "ex = (case policy_partitions (of_policy f) of Some ps \<Rightarrow> ps | None \<Rightarrow> [])"
  define parts where "parts = bt_collect (map (\<lambda>(p, s). (p, s, case bt_get (of_watermarks f) p of
      Some w \<Rightarrow> snd w | None \<Rightarrow> 0)) (of_stored f))"
  define may where "may \<longleftrightarrow> of_era f = EraKdi \<or> (of_era f = EraFresh \<and> of_holds_rows f)"
  from assms(1) obtain compat baseline where
    guard: "of_era f = EraFresh \<Longrightarrow> typo_guard (of_app_id f) (of_target_uri f) (of_data_files f) (of_explicit f)
      (of_app_ids f) (of_neighbours f) = Inr ()"
    and check: "takeover_check (of_app_id f) (of_era f) (of_holds_rows f) parts (bs_collect (bt_keys ex)) = Inr ()"
    and compat: "(case of_kdi_compat f of Some set_to \<Rightarrow> Inr set_to
         | None \<Rightarrow> if may then Inl (E_KafkaCompatUnset (of_app_id f) (of_target_uri f) (of_era f = EraFresh))
                 else Inr False) = Inr compat"
    and base: "(case of_era f of
           EraFresh \<Rightarrow> res_bind (fresh_starts (of_topic f) (of_policy f) (of_watermarks f))
             (\<lambda>starts. Inr (fresh_baseline starts))
         | EraKdi \<Rightarrow> Inr (takeover_baseline (of_era f) (of_stored f) ex)
         | EraDdi \<Rightarrow> Inr None) = Inr baseline"
    and plan: "plan = \<lparr>op_baseline = baseline, op_kdi_compat = compat\<rparr>"
    unfolding plan_open_def Let_def res_bind_Inr_iff ex_def [symmetric] parts_def [symmetric] may_def [symmetric]
    by (auto split: if_splits)
  have parts_get: "bt_get parts p = map_option (\<lambda>s. (s, case bt_get (of_watermarks f) p of Some w \<Rightarrow> snd w | None \<Rightarrow> 0))
      (bt_get (of_stored f) p)" for p
    unfolding parts_def by (rule bt_get_collect_map [OF assms(2)])
  have entry: "explicit_entry f p \<noteq> None"
    if era: "may" and p: "bt_get (of_stored f) p = Some None" "bt_get (of_watermarks f) p = Some (low, high)" "high > 0"
    for p low high
  proof -
    have "p \<in> set (bt_keys ex)"
      using takeover_check_entry [OF check era [unfolded may_def], of p high] parts_get [of p] p by simp
    then show ?thesis unfolding explicit_entry_def ex_def
      by (cases "policy_partitions (of_policy f)") (auto simp: map_of_eq_None_iff)
  qed
  have kdi: "\<exists>a. baseline = Some a \<and> (\<forall>p b. bt_get (of_stored f) p = Some (Some b) \<longrightarrow> bt_get a p = Some b)"
    if "of_era f = EraKdi"
  proof -
    from base that obtain a where a: "takeover_baseline EraKdi (of_stored f) ex = Some a" "baseline = Some a"
      by (auto simp: takeover_baseline_def)
    with takeover_baseline_get [OF assms(2) a(1)] show ?thesis by simp
  qed
  have fresh: "\<exists>starts. fresh_starts (of_topic f) (of_policy f) (of_watermarks f) = Inr starts \<and> baseline = fresh_baseline starts"
    if "of_era f = EraFresh" using base that by (auto simp: res_bind_Inr_iff)
  have "of_kdi_compat f = Some compat" if may using compat that by (auto split: option.splits)
  moreover have "baseline = None" if "of_era f = EraDdi" using base that by simp
  ultimately show ?thesis using guard entry kdi fresh unfolding plan may_def by auto
qed

definition example_facts :: open_facts where
  "example_facts = \<lparr>of_app_id = ''a'', of_topic = ''t'', of_target_uri = ''u'', of_stored = [(0, Some 41), (1, None)],
     of_watermarks = [(0, 0, 50), (1, 0, 9)], of_era = EraKdi, of_data_files = 3, of_holds_rows = True,
     of_policy = PolicyExplicit [(1, 0)] None, of_explicit = True, of_kdi_compat = Some True,
     of_neighbours = [], of_app_ids = []\<rparr>"

theorem plan_open_accounts_for_everything_witness:
  "\<exists>plan a. plan_open example_facts = Inr plan \<and> op_baseline plan = Some a \<and> bt_get a 0 = Some 41
     \<and> op_kdi_compat plan \<and> explicit_entry example_facts 1 \<noteq> None"
proof -
  obtain plan where p: "plan_open example_facts = Inr plan"
    by (simp add: plan_open_def example_facts_def policy_partitions_def takeover_check_def Let_def
        bt_collect_def bt_extend_def)
  have wf: "bt_wf (of_stored example_facts)" by (simp add: example_facts_def bt_wf_def)
  note facts = plan_open_accounts_for_everything [OF p wf]
  from facts obtain a where "op_baseline plan = Some a" "bt_get a 0 = Some 41"
    by (auto simp: example_facts_def)
  moreover have "op_kdi_compat plan" using facts by (simp add: example_facts_def)
  moreover have "explicit_entry example_facts 1 \<noteq> None" using facts by (simp add: example_facts_def)
  ultimately show ?thesis using p by blast
qed

end
