(* ===== verification/Member.thy ===== *)
theory Member
  imports Fence Start
begin

text \<open>
  \<open>src/kafka/step.rs\<close> with \<open>KafkaSource\<close>, \<open>Held\<close> and \<open>KafkaBatch\<close> of \<open>src/kafka/mod.rs\<close>: one member of
  a group, from closing a batch to committing it, and what a failure leads to. A step takes what
  it finds outside as an \<open>env\<close>: the clock, delta-rs's refresh and open, the decoder, the shared part
  of \<open>pipeline.rs\<close> that transforms and commits, the brokers' watermarks. Logging and counters are
  left out; times are milliseconds.
\<close>

section \<open>State\<close>

record 'rows kafka_batch =
  kb_rows :: 'rows
  kb_undecodable :: nat
  kb_first_undecodable :: "(partition \<times> int \<times> nat option \<times> string) option"
  kb_ranges :: ranges
  kb_marks :: "(partition, message_mark) bmap"
  kb_bases :: "(partition, int option) bmap"
  kb_messages :: nat
  kb_raw_bytes :: nat

datatype held_for = HeldReplan | HeldTransient | HeldCapacity | HeldOperator

record 'rows held =
  he_batch :: "'rows kafka_batch"
  he_due :: nat
  he_backoff :: nat
  he_retrying :: bool

record stalled =
  st_message :: message
  st_due :: nat
  st_backoff :: nat
  st_blocking :: "string option"

definition backoff_min :: nat where "backoff_min = 1000"
definition backoff_max :: nat where "backoff_max = 60000"
definition backoff_capacity :: nat where "backoff_capacity = 300000"
definition once_idle :: nat where "once_idle = 10000"
definition handle_max_age :: nat where "handle_max_age = 600000"

record 'rows member =
  m_app_id :: string
  m_topic :: string
  m_group_id :: string
  m_target_uri :: string
  m_once :: bool
  m_blocked_recheck_secs :: nat
  m_dq_uri :: string
  m_max_rejects :: nat
  m_explicit :: "(partition, int) bmap"
  m_has_dq :: bool
  m_fence :: fence
  m_target :: handle
  m_table_id :: "string option"
  m_parts :: partitions
  m_buf :: buffer
  m_held :: "'rows held option"
  m_held_for :: "held_for option"
  m_stalled :: "stalled option"
  m_blocked :: "string option"
  m_next_recheck :: "nat option"
  m_paused :: "partition bset"
  m_unbased_start :: "(partition, int) bmap"
  m_refreshed_at :: nat
  m_last_commit :: "nat option"
  m_last_backoff :: "nat option"
  m_reset_this_step :: bool
  m_once_end :: "(partition, int) bmap option"

text \<open>\<open>decoder.finish()\<close>: the rows, how many messages were undecodable, and the first of them.\<close>

type_synonym 'rows decoded =
  "'rows \<times> nat \<times> (partition \<times> int \<times> nat option \<times> string) option"

text \<open>
  \<open>ev_update\<close> is \<open>update_incremental\<close>, \<open>ev_open\<close> \<open>Storage::open\<close>, \<open>ev_table_id\<close> \<open>lookup::table_id\<close>;
  \<open>ev_rebuild\<close> reads the target's schema and rebuilds the coercer and conformer where it changed;
  \<open>ev_prepare\<close> fits a batch's rows for the transform; \<open>ev_process\<close> is \<open>Pipeline::process\<close> up to its
  commit, and answers the handle the commit leaves; \<open>ev_protocol_changed\<close> is what
  \<open>protocol_changed_since\<close> of \<open>Fence_Read\<close> returns, as it does for every log that ends.
\<close>

record 'rows env =
  ev_now :: nat
  ev_update :: "handle \<Rightarrow> delta_error + handle"
  ev_open :: "handle res"
  ev_table_id :: "handle \<Rightarrow> string option"
  ev_rebuild :: "handle \<Rightarrow> unit res"
  ev_finish :: "'rows decoded res"
  ev_prepare :: "'rows \<Rightarrow> 'rows res"
  ev_protocol_changed :: "handle \<Rightarrow> bool res"
  ev_cleans_up :: "handle \<Rightarrow> bool"
  ev_process :: "handle \<Rightarrow> 'rows \<Rightarrow> kafka_offsets \<Rightarrow> handle res"
  ev_dq_open :: "bool res"
  ev_watermarks :: "partition list \<Rightarrow> watermarks res"

section \<open>Pausing and holding\<close>

definition pause :: "partition list \<Rightarrow> 'rows member \<Rightarrow> 'rows member" where
  "pause ps m = m\<lparr>m_paused := foldl (\<lambda>s p. bs_insert p s) (m_paused m) ps\<rparr>"

definition pause_all :: "'rows member \<Rightarrow> 'rows member" where
  "pause_all m = pause (parts_owned (m_parts m)) m"

definition blocked_recheck :: "'rows member \<Rightarrow> nat" where
  "blocked_recheck m = max (m_blocked_recheck_secs m) 1 * 1000"

definition get_or_insert :: "'a \<Rightarrow> 'a option \<Rightarrow> 'a option" where
  "get_or_insert x o' = (case o' of None \<Rightarrow> Some x | Some y \<Rightarrow> Some y)"

definition block_partition :: "nat \<Rightarrow> partition \<Rightarrow> block \<Rightarrow> 'rows member \<Rightarrow> 'rows member" where
  "block_partition now p b m =
     pause [p] (m\<lparr>m_parts := block_part p b now (m_parts m),
                  m_next_recheck := get_or_insert (now + blocked_recheck m) (m_next_recheck m)\<rparr>)"

definition hold :: "nat \<Rightarrow> 'rows kafka_batch \<Rightarrow> nat \<Rightarrow> held_for \<Rightarrow> 'rows member \<Rightarrow> 'rows member" where
  "hold now batch backoff why m =
     pause_all (m\<lparr>m_held := Some \<lparr>he_batch = batch, he_due = now + backoff, he_backoff = backoff,
                     he_retrying = (why \<noteq> HeldOperator)\<rparr>,
                  m_held_for := Some why\<rparr>)"

definition clamp :: "nat \<Rightarrow> nat \<Rightarrow> nat \<Rightarrow> nat" where
  "clamp lo hi x = (if x < lo then lo else if x > hi then hi else x)"

definition hold_for_class ::
    "nat \<Rightarrow> 'rows kafka_batch \<Rightarrow> error \<Rightarrow> 'rows member \<Rightarrow> unit res \<times> 'rows member" where
  "hold_for_class now batch e m =
     (let prev = m_last_backoff m; m1 = m\<lparr>m_last_backoff := None\<rparr>; cls = kafka_class e
      in if cls = ConsumerFatal then (Inl e, m1)
         else if cls = Capacity then (Inr (), hold now batch backoff_capacity HeldCapacity m1)
         else if cls = Replan \<or> cls = Transient then
           (Inr (), hold now batch (case prev of None \<Rightarrow> backoff_min
                      | Some b \<Rightarrow> clamp backoff_min backoff_max (b * 2)) HeldTransient m1)
         else if m_once m then (Inl e, m1)
         else (Inr (), hold now batch (blocked_recheck m) HeldOperator
                 (m1\<lparr>m_blocked := Some (kafka_block_reason e)\<rparr>)))"

section \<open>A batch and the offsets it was read from\<close>

definition fence_offset :: "'rows member \<Rightarrow> partition \<Rightarrow> int option" where
  "fence_offset m p = Option.bind (base_of (m_fence m) p) fst"

definition close_batch :: "'rows env \<Rightarrow> 'rows member \<Rightarrow> 'rows kafka_batch res \<times> 'rows member" where
  "close_batch ev m =
     (let buf = m_buf m; m1 = m\<lparr>m_buf := empty_buffer\<rparr>
      in case ev_finish ev of
           Inl e \<Rightarrow> (Inl e, m1)
         | Inr (rows, undecodable, first) \<Rightarrow>
             (Inr \<lparr>kb_rows = rows, kb_undecodable = undecodable, kb_first_undecodable = first,
                   kb_ranges = bu_ranges buf, kb_marks = bu_marks buf,
                   kb_bases = bt_collect (map (\<lambda>p. (p, fence_offset m p)) (bt_keys (bu_ranges buf))),
                   kb_messages = bu_messages buf, kb_raw_bytes = bu_raw_bytes buf\<rparr>, m1))"

definition moved_partition :: "'rows kafka_batch \<Rightarrow> 'rows member \<Rightarrow> partition option" where
  "moved_partition batch m =
     find (\<lambda>p. bt_get (m_parts m) p = None
             \<or> map_option fst (base_of (m_fence m) p) \<noteq> bt_get (kb_bases batch) p)
       (bt_keys (kb_ranges batch))"

definition moved_error :: "partition \<Rightarrow> 'rows kafka_batch \<Rightarrow> 'rows member \<Rightarrow> error" where
  "moved_error p batch m =
     E_Fenced (m_app_id m) p (case bt_get (kb_bases batch) p of Some b \<Rightarrow> b | None \<Rightarrow> None) (fence_offset m p)"

section \<open>Refreshing the target and reading the offsets again\<close>

text \<open>
  The handle moves before the checks that follow it: a refresh that fails there leaves the new
  handle behind.
\<close>

definition refresh_target :: "'rows env \<Rightarrow> 'rows member \<Rightarrow> unit res \<times> 'rows member" where
  "refresh_target ev m =
     (let (found, m1) = (case ev_update ev (m_target m) of
            Inr h \<Rightarrow>
              (case stored_table_id h of
                 Inl e \<Rightarrow> (Inl e, m\<lparr>m_target := h\<rparr>)
               | Inr (Some i) \<Rightarrow> (Inr (Some i), m\<lparr>m_target := h\<rparr>)
               | Inr None \<Rightarrow> (Inr (ev_table_id ev h), m\<lparr>m_target := h\<rparr>))
          | Inl _ \<Rightarrow>
              (case ev_open ev of
                 Inl e \<Rightarrow> (Inl e, m)
               | Inr h \<Rightarrow> (Inr (ev_table_id ev h), m\<lparr>m_target := h\<rparr>)))
      in (res_bind found (\<lambda>i.
            case m_table_id m of
              Some opened \<Rightarrow>
                if i \<noteq> Some opened
                then Inl (E_TargetReplaced (m_target_uri m) opened (case i of Some f \<Rightarrow> f | None \<Rightarrow> []))
                else res_bind (refuse_txn_retention (m_target m1)) (\<lambda>_.
                     res_bind (refuse_unwritable_protocol (m_target m1)) (\<lambda>_. ev_rebuild ev (m_target m1)))
            | None \<Rightarrow> res_bind (refuse_txn_retention (m_target m1)) (\<lambda>_.
                     res_bind (refuse_unwritable_protocol (m_target m1)) (\<lambda>_. ev_rebuild ev (m_target m1)))), m1))"

definition refresh_and_reset :: "'rows env \<Rightarrow> 'rows member \<Rightarrow> partition bset res \<times> 'rows member" where
  "refresh_and_reset ev m =
     (let owned_now = parts_owned (m_parts m);
          before = (\<lambda>p. fence_offset m p)
      in case refresh_target ev m of
           (Inl e, m1) \<Rightarrow> (Inl e, m1)
         | (Inr _, m1) \<Rightarrow>
             (case reset (m_fence m1) (m_target m1) owned_now of
                (Inl e, f) \<Rightarrow> (Inl e, m1\<lparr>m_fence := f\<rparr>)
              | (Inr _, f) \<Rightarrow>
                  let m2 = m1\<lparr>m_fence := f, m_refreshed_at := ev_now ev\<rparr>
                  in (Inr (bs_collect (filter (\<lambda>p. fence_offset m2 p \<noteq> before p) owned_now)), m2)))"

text \<open>Where a partition reads on from: past its offset in the target, or where it was assigned.\<close>

definition read_on :: "'rows member \<Rightarrow> partition \<Rightarrow> int option" where
  "read_on m p =
     (case map_option (\<lambda>b. i64_add b 1) (fence_offset m p) of
        Some a \<Rightarrow> Some a
      | None \<Rightarrow> bt_get (m_unbased_start m) p)"

definition reposition_one :: "nat \<Rightarrow> 'rows member \<times> partition list \<Rightarrow> partition \<Rightarrow> 'rows member \<times> partition list" where
  "reposition_one now = (\<lambda>(m, paused) p.
     case bt_get (m_parts m) p of
       Some (Ready _ _ _ _) \<Rightarrow>
         (m\<lparr>m_parts := ready_at p (case read_on m p of Some a \<Rightarrow> a | None \<Rightarrow> 0) None now (m_parts m)\<rparr>, paused @ [p])
     | Some (Blocked _ _) \<Rightarrow> (m\<lparr>m_next_recheck := Some now\<rparr>, paused)
     | None \<Rightarrow> (m, paused))"

definition reposition_changed ::
    "nat \<Rightarrow> partition bset \<Rightarrow> 'rows kafka_batch option \<Rightarrow> 'rows member \<Rightarrow> 'rows member" where
  "reposition_changed now changed survives m =
     (let spoiled = (\<not> buffer_is_empty (m_buf m) \<and> list_ex (\<lambda>p. p \<in> set changed) (bt_keys (bu_ranges (m_buf m))));
          buffered = (if spoiled then bt_keys (bu_ranges (m_buf m)) else []);
          m1 = (if spoiled then m\<lparr>m_buf := empty_buffer, m_stalled := None\<rparr> else m);
          adrift = List.map_filter (\<lambda>(p, s). case s of
              Ready n _ _ _ \<Rightarrow>
                if \<not> (case survives of Some b \<Rightarrow> bt_mem p (kb_ranges b) | None \<Rightarrow> False)
                   \<and> \<not> bt_mem p (bu_ranges (m_buf m1))
                   \<and> (case read_on m1 p of Some a \<Rightarrow> a \<noteq> n | None \<Rightarrow> False)
                then Some p else None
            | Blocked _ _ \<Rightarrow> None) (m_parts m1);
          again = bs_collect (changed @ buffered @ adrift);
          (m2, ps) = foldl (reposition_one now) (m1, []) again
      in pause ps m2)"

definition reset_in_place ::
    "'rows env \<Rightarrow> 'rows kafka_batch option \<Rightarrow> 'rows member \<Rightarrow> unit res \<times> 'rows member" where
  "reset_in_place ev batch m =
     (case refresh_and_reset ev (m\<lparr>m_reset_this_step := True\<rparr>) of
        (Inl e, m1) \<Rightarrow>
          (case batch of
             Some b \<Rightarrow> hold_for_class (ev_now ev) b e m1
           | None \<Rightarrow> (Inl e, m1))
      | (Inr changed, m1) \<Rightarrow>
          let survives = opt_filter (\<lambda>b. moved_partition b m1 = None) batch;
              m2 = reposition_changed (ev_now ev) changed survives m1
          in (Inr (), case survives of
                Some b \<Rightarrow> m2\<lparr>m_held := Some \<lparr>he_batch = b, he_due = ev_now ev, he_backoff = 0, he_retrying = True\<rparr>,
                            m_held_for := Some HeldReplan\<rparr>
              | None \<Rightarrow> m2\<lparr>m_blocked := None\<rparr>))"

section \<open>Committing\<close>

definition batch_offsets :: "'rows env \<Rightarrow> 'rows kafka_batch \<Rightarrow> 'rows member \<Rightarrow> kafka_offsets" where
  "batch_offsets ev batch m =
     (let (a, marks) = assert_map (m_fence m) (kb_ranges batch) (kb_marks batch)
      in \<lparr>ko_topic = m_topic m, ko_group_id = m_group_id m, ko_ranges = kb_ranges batch,
          ko_assert = a, ko_marks = marks, ko_cleanup_logs = ev_cleans_up ev (m_target m),
          ko_baseline = False, ko_override_reason = None,
          ko_takeover_marker = takeover_marker_due (m_fence m)\<rparr>)"

definition after_commit :: "nat \<Rightarrow> kafka_offsets \<Rightarrow> 'rows member \<Rightarrow> 'rows member" where
  "after_commit now o' m =
     m\<lparr>m_fence := committed o' (m_fence m), m_parts := polled_again None now (m_parts m),
       m_last_commit := Some now, m_refreshed_at := now, m_held_for := None, m_last_backoff := None,
       m_blocked := None\<rparr>"

definition undecodable_error :: "'rows kafka_batch \<Rightarrow> 'rows member \<Rightarrow> error option" where
  "undecodable_error batch m =
     (case kb_first_undecodable batch of
        None \<Rightarrow> None
      | Some (p, offset, schema_id, reason) \<Rightarrow>
          if \<not> m_has_dq m then Some (E_KafkaUndecodable (m_topic m) p offset schema_id reason (m_dq_uri m))
          else if kb_undecodable batch > m_max_rejects m
          then Some (E_KafkaTooManyUndecodable (kb_undecodable batch) (m_max_rejects m) (m_topic m) p offset schema_id reason)
          else None)"

definition protocol_conflict :: error where
  "protocol_conflict =
     E_Delta (DeltaError (DK_Transaction (TE_CommitConflict (ConflictOther
       ''another writer changed the protocol since this handle's version''))) [])"

text \<open>The upgrade that landed between the protocol check and the commit: nothing more is written.\<close>

definition backstop :: "nat \<Rightarrow> 'rows member \<Rightarrow> 'rows member" where
  "backstop now m =
     (case refuse_unwritable_protocol (m_target m) of
        Inr _ \<Rightarrow> m
      | Inl e \<Rightarrow> pause_all (m\<lparr>m_blocked := Some (kafka_block_reason e),
                              m_next_recheck := Some (now + blocked_recheck m)\<rparr>))"

text \<open>\<open>try_commit\<close> past its refresh: the checks, the fence, the shared part and the commit.\<close>

definition commit_fenced :: "'rows env \<Rightarrow> 'rows kafka_batch \<Rightarrow> 'rows member \<Rightarrow> unit res \<times> 'rows member" where
  "commit_fenced ev batch m =
     (case moved_partition batch m of
        Some p \<Rightarrow> (Inl (moved_error p batch m), m)
      | None \<Rightarrow>
     (case undecodable_error batch m of
        Some e \<Rightarrow> (Inl e, m)
      | None \<Rightarrow>
     (case ev_prepare ev (kb_rows batch) of
        Inl e \<Rightarrow> (Inl e, m)
      | Inr rows \<Rightarrow>
     (case verify (m_fence m) (m_target m) (kb_ranges batch) of
        (Inl e, f) \<Rightarrow> (Inl e, m\<lparr>m_fence := f\<rparr>)
      | (Inr _, f) \<Rightarrow>
          let m1 = m\<lparr>m_fence := f\<rparr>; o' = batch_offsets ev batch m1
          in case ev_protocol_changed ev (m_target m1) of
               Inl e \<Rightarrow> (Inl e, m1)
             | Inr True \<Rightarrow> (Inl protocol_conflict, m1)
             | Inr False \<Rightarrow>
                 (case ev_process ev (m_target m1) rows o' of
                    Inl e \<Rightarrow> (Inl e, m1)
                  | Inr h \<Rightarrow> (Inr (), backstop (ev_now ev) (after_commit (ev_now ev) o' (m1\<lparr>m_target := h\<rparr>))))))))"

definition try_commit :: "'rows env \<Rightarrow> 'rows kafka_batch \<Rightarrow> 'rows member \<Rightarrow> unit res \<times> 'rows member" where
  "try_commit ev batch m =
     (let aged = ev_now ev - m_refreshed_at m \<ge> handle_max_age;
          stale = (if aged then Inr True else res_bind (commit_exists (m_target m)) (\<lambda>e. Inr (\<not> e)))
      in case stale of
           Inl e \<Rightarrow> (Inl e, m)
         | Inr False \<Rightarrow> commit_fenced ev batch m
         | Inr True \<Rightarrow>
             (case refresh_and_reset ev m of
                (Inl e, m1) \<Rightarrow> (Inl e, m1)
              | (Inr changed, m1) \<Rightarrow>
                  commit_fenced ev batch (reposition_changed (ev_now ev) changed (Some batch) m1)))"

definition after_failure ::
    "'rows env \<Rightarrow> 'rows kafka_batch \<Rightarrow> error \<Rightarrow> 'rows member \<Rightarrow> unit res \<times> 'rows member" where
  "after_failure ev batch e m =
     (if kafka_class e \<noteq> Replan then hold_for_class (ev_now ev) batch e m
      else reset_in_place ev (Some batch) m)"

definition commit_batch ::
    "'rows env \<Rightarrow> 'rows env \<Rightarrow> 'rows kafka_batch \<Rightarrow> 'rows member \<Rightarrow> unit res \<times> 'rows member" where
  "commit_batch ev ev' batch m =
     (case try_commit ev batch m of
        (Inr _, m1) \<Rightarrow> (Inr (), m1)
      | (Inl e, m1) \<Rightarrow> after_failure ev' batch e m1)"

section \<open>Trying a held batch again\<close>

definition recheck_for_batch ::
    "'rows env \<Rightarrow> 'rows kafka_batch \<Rightarrow> 'rows member \<Rightarrow> 'rows kafka_batch option res \<times> 'rows member" where
  "recheck_for_batch ev batch m =
     (let dq = (if m_has_dq m then Inr True else ev_dq_open ev)
      in case dq of
           Inl e \<Rightarrow> (Inl e, m)
         | Inr has \<Rightarrow>
             (case refresh_and_reset ev (m\<lparr>m_has_dq := has\<rparr>) of
                (Inl e, m1) \<Rightarrow>
                  if kafka_class e \<noteq> ConsumerFatal then
                    (Inr None, hold (ev_now ev) batch (blocked_recheck m1) HeldOperator
                       (m1\<lparr>m_blocked := Some (kafka_block_reason e)\<rparr>))
                  else (Inl e, m1)
              | (Inr changed, m1) \<Rightarrow>
                  let valid = (moved_partition batch m1 = None);
                      m2 = reposition_changed (ev_now ev) changed (if valid then Some batch else None) m1
                  in if valid then (Inr (Some batch), m2) else (Inr None, m2\<lparr>m_blocked := None\<rparr>)))"

text \<open>\<open>due_work\<close> for a held batch: the batch to commit now, if there is one.\<close>

definition due_held :: "'rows env \<Rightarrow> 'rows member \<Rightarrow> 'rows kafka_batch option res \<times> 'rows member" where
  "due_held ev m =
     (case m_held m of
        None \<Rightarrow> (Inr None, m)
      | Some h \<Rightarrow>
          if he_due h > ev_now ev then (Inr None, m)
          else
            let m1 = m\<lparr>m_held := None, m_last_backoff := Some (he_backoff h)\<rparr>
            in if \<not> he_retrying h \<and> m_held_for m1 = Some HeldOperator
               then recheck_for_batch ev (he_batch h) m1
               else (Inr (Some (he_batch h)), m1))"

text \<open>A step that finds a held batch due, and what it comes to (\<open>Work::Retry\<close> in \<open>step_kafka\<close>).\<close>

definition retry_step :: "'rows env \<Rightarrow> 'rows env \<Rightarrow> 'rows env \<Rightarrow> 'rows member \<Rightarrow> unit res \<times> 'rows member" where
  "retry_step ev ev' ev'' m =
     (case due_held ev (m\<lparr>m_reset_this_step := False\<rparr>) of
        (Inl e, m1) \<Rightarrow> (Inl e, m1)
      | (Inr None, m1) \<Rightarrow> (Inr (), m1)
      | (Inr (Some batch), m1) \<Rightarrow> commit_batch ev' ev'' batch m1)"

section \<open>Blocked partitions, out-of-range offsets, stalled messages\<close>

definition resolve_blocked ::
    "nat \<Rightarrow> watermarks \<Rightarrow> 'rows member \<Rightarrow> partition \<Rightarrow> 'rows member" where
  "resolve_blocked now ws m p =
     (case bt_get ws p of
        None \<Rightarrow> m
      | Some (low, high) \<Rightarrow>
          let (base, mark) = (case base_of (m_fence m) p of Some b \<Rightarrow> b | None \<Rightarrow> (None, None))
          in case resolve base mark low high (bt_get (m_explicit m) p) of
               StartReady offset rr \<Rightarrow>
                 m\<lparr>m_unbased_start := (if base = None then bt_insert p offset (m_unbased_start m) else m_unbased_start m),
                   m_parts := ready_at p offset rr now (m_parts m)\<rparr>
             | StartBlocked b \<Rightarrow> m\<lparr>m_parts := block_part p b now (m_parts m)\<rparr>)"

text \<open>A partition whose topic was replaced waits for its offset to move.\<close>

definition recheckable :: "'rows member \<Rightarrow> partition \<times> block \<Rightarrow> bool" where
  "recheckable m = (\<lambda>(p, b). case b of
      Replaced recorded _ \<Rightarrow> fence_offset m p \<noteq> Some (mk_offset recorded)
    | _ \<Rightarrow> True)"

definition recheck_blocked :: "'rows env \<Rightarrow> 'rows member \<Rightarrow> unit res \<times> 'rows member" where
  "recheck_blocked ev m =
     (let again = Some (ev_now ev + blocked_recheck m)
      in case refresh_and_reset ev (m\<lparr>m_next_recheck := None\<rparr>) of
           (Inl e, m1) \<Rightarrow>
             if kafka_class e \<noteq> ConsumerFatal then
               (Inr (), m1\<lparr>m_blocked := (if list_ex (\<lambda>(_, b). b = Unresolved) (parts_blocked (m_parts m1))
                                        then Some (kafka_block_reason e) else m_blocked m1),
                           m_next_recheck := again\<rparr>)
             else (Inl e, m1)
         | (Inr changed, m1) \<Rightarrow>
             let m2 = reposition_changed (ev_now ev) changed None m1;
                 blocked = map fst (filter (recheckable m2) (parts_blocked (m_parts m2)))
             in if blocked = [] then
                  (Inr (), m2\<lparr>m_blocked := None,
                     m_next_recheck := (if parts_blocked (m_parts m2) \<noteq> [] then again else m_next_recheck m2)\<rparr>)
                else case ev_watermarks ev blocked of
                  Inl e \<Rightarrow> (Inr (), m2\<lparr>m_next_recheck := again\<rparr>)
                | Inr ws \<Rightarrow>
                    let m3 = foldl (resolve_blocked (ev_now ev) ws) (m2\<lparr>m_blocked := None\<rparr>) blocked
                    in (Inr (), m3\<lparr>m_next_recheck :=
                          (if parts_blocked (m_parts m3) \<noteq> [] then again else m_next_recheck m3)\<rparr>))"

definition range_block :: "int \<Rightarrow> int \<times> int \<Rightarrow> block option" where
  "range_block nxt = (\<lambda>(low, high).
     if nxt < low then Some (Unavailable nxt low)
     else if nxt > high then Some (Regressed (i64_sub nxt 1) high)
     else None)"

definition out_of_range :: "'rows env \<Rightarrow> 'rows member \<Rightarrow> unit res \<times> 'rows member" where
  "out_of_range ev m =
     (let ready = parts_ready (m_parts m); ps = map fst ready
      in case ev_watermarks ev ps of
           Inl e \<Rightarrow> if kafka_class e = Transient then (Inr (), pause ps m) else (Inl e, m)
         | Inr ws \<Rightarrow>
             let offenders = List.map_filter (\<lambda>(p, nxt).
                   map_option (Pair p) (Option.bind (bt_get ws p) (range_block nxt))) ready
             in if offenders = [] then (Inr (), pause ps m)
                else (Inr (), foldl (\<lambda>m (p, b). block_partition (ev_now ev) p b m) m offenders))"

definition stall :: "nat \<Rightarrow> message \<Rightarrow> error \<Rightarrow> nat option \<Rightarrow> 'rows member \<Rightarrow> unit res \<times> 'rows member" where
  "stall now ms e prev m =
     (let cls = kafka_class e
      in if cls = ConsumerFatal then (Inl e, m)
         else
           let backoff = (if cls = Transient then (case prev of None \<Rightarrow> backoff_min | Some b \<Rightarrow> min (b * 2) backoff_max)
                 else if cls = Capacity then backoff_capacity else blocked_recheck m);
               blocking = (if cls \<in> {BlockingPipeline, BlockingPartition, OpenRefusal}
                 then Some (kafka_block_reason e) else None)
           in (Inr (), pause_all (m\<lparr>m_stalled := Some \<lparr>st_message = ms, st_due = now + backoff,
                  st_backoff = backoff, st_blocking = blocking\<rparr>\<rparr>)))"

text \<open>A message from the poll: admitted, buffered, and fed to the decoder, which may hand it back.\<close>

definition take_polled :: "(message \<Rightarrow> error option) \<Rightarrow> message \<Rightarrow> 'rows member \<Rightarrow> unit res \<times> 'rows member" where
  "take_polled feed ms m =
     (let p = ms_partition ms in
      if p \<in> set (m_paused m) then (Inr (), m)
      else case admit p (ms_mark ms) (ms_at ms) (m_parts m) of
             (Take _, parts') \<Rightarrow>
               let m1 = m\<lparr>m_parts := parts', m_buf := buffer_take p (ms_mark ms) (ms_bytes ms) (ms_at ms) (m_buf m)\<rparr>
               in (case feed ms of None \<Rightarrow> (Inr (), m1) | Some e \<Rightarrow> stall (ms_at ms) ms e None m1)
           | (Drop _, parts') \<Rightarrow> (Inr (), m\<lparr>m_parts := parts'\<rparr>)
           | (BlockOn b, parts') \<Rightarrow> (Inr (), block_partition (ms_at ms) p b (m\<lparr>m_parts := parts'\<rparr>)))"

definition feed_stalled :: "nat \<Rightarrow> (message \<Rightarrow> error option) \<Rightarrow> 'rows member \<Rightarrow> unit res \<times> 'rows member" where
  "feed_stalled now feed m =
     (case m_stalled m of
        None \<Rightarrow> (Inr (), m)
      | Some st \<Rightarrow>
          let m1 = m\<lparr>m_stalled := None\<rparr>
          in case feed (st_message st) of
               None \<Rightarrow> (Inr (), m1)
             | Some e \<Rightarrow> stall now (st_message st) e (Some (st_backoff st)) m1)"

text \<open>Once-mode's end: every partition done and nothing left to commit.\<close>

definition once_done :: "nat \<Rightarrow> 'rows member \<Rightarrow> bool res" where
  "once_done now m =
     (case m_once_end m of
        None \<Rightarrow> Inr False
      | Some ends \<Rightarrow>
          if \<not> buffer_is_empty (m_buf m) \<or> m_held m \<noteq> None \<or> m_stalled m \<noteq> None then Inr False
          else if \<not> list_all (\<lambda>(p, e). parts_done p e once_idle now (m_parts m)) ends then Inr False
          else (case parts_blocked (m_parts m) of
                  (p, b) # _ \<Rightarrow> Inl (block_error (m_topic m) p b)
                | [] \<Rightarrow> Inr True))"

end
