(* ===== verification/Member_Spec.thy ===== *)
theory Member_Spec
  imports Member
begin

text \<open>
  What the commits of a group's members do to the offsets in the target, over the whole history of
  its log: \<open>hist v\<close> is what commit \<open>v\<close> holds, whoever writes it and whenever, and a handle stands at
  one version of it. The abstract specification is a compare-and-swap on the offsets of a batch's
  partitions; \<open>try_commit\<close> implements it over delta-rs's conflict check.
\<close>

section \<open>The history of a log\<close>

definition ids_of :: "log_line list \<Rightarrow> string set" where
  "ids_of ls = set (map ta_app_id (txns_of ls))"

lemma commit_state_None: "commit_state ls i = None \<longleftrightarrow> i \<notin> ids_of ls"
proof -
  have "map_of (rev (map (\<lambda>t. (ta_app_id t, t)) (txns_of ls))) i = None \<longleftrightarrow> i \<notin> ids_of ls"
    by (force simp: ids_of_def map_of_eq_None_iff)
  then show ?thesis by (simp add: commit_state_def)
qed

lemma newest_version_step:
  "newest_version hist i (Suc n) =
     (case commit_state (hist (Suc n)) i of Some s \<Rightarrow> ts_version s | None \<Rightarrow> newest_version hist i n)"
  unfolding newest_version_def newest_state_def
  using newest_in_split [of 0 "Suc n" "Suc (Suc n)" hist i] by (auto split: option.splits)

lemma newest_version_unwritten:
  assumes "v \<le> w" and "\<And>u. v < u \<Longrightarrow> u \<le> w \<Longrightarrow> i \<notin> ids_of (hist u)"
  shows "newest_version hist i w = newest_version hist i v"
  using assms
proof (induction w)
  case (Suc w)
  show ?case
  proof (cases "v = Suc w")
    case False
    with Suc.prems have "v \<le> w" "commit_state (hist (Suc w)) i = None" by (auto simp: commit_state_None)
    with Suc show ?thesis by (simp add: newest_version_step)
  qed simp
qed simp

lemma newest_version_stays:
  assumes "v \<le> w" and "newest_version hist i v \<noteq> None"
  shows "newest_version hist i w \<noteq> None"
  using assms
proof (induction w)
  case (Suc w)
  show ?case
  proof (cases "v = Suc w")
    case False
    with Suc have "newest_version hist i w \<noteq> None" by simp
    then show ?thesis using commit_state_version [of "hist (Suc w)" i]
      by (auto simp: newest_version_step split: option.splits)
  qed (use Suc.prems in simp)
qed simp

section \<open>Members whose offsets are the target's\<close>

text \<open>The fence of a member is exact at the version its handle stands at.\<close>

definition member_ok :: "'rows member \<Rightarrow> (version \<Rightarrow> log_line list) \<Rightarrow> version \<Rightarrow> bool" where
  "member_ok m hist v \<longleftrightarrow>
     handle_ok (m_target m) hist v \<and> fence_wf (m_fence m) \<and> exact (m_fence m) hist v
     \<and> f_app_id (m_fence m) = m_app_id m
     \<and> (\<forall>p \<in> set (bt_keys (m_parts m)). 0 \<le> p \<and> p < 2 ^ 31)"

lemma exact_later_marker:
  assumes "exact f hist v" and "v \<le> w" and "f_marker f = Some True"
  shows "newest_version hist (takeover_marker_app_id (f_app_id f)) w \<noteq> None"
  using assms newest_version_stays [OF assms(2)] by (auto simp: exact_def marker_exact_def)

text \<open>
  What is asked of delta-rs. A refresh or an open answers a handle that reads this log, at this
  version or a later one. A commit that is reported landed is in the log after the handle's
  version, holds the \<open>txn\<close>s and metadata it was given, and shares no \<open>txn\<close> appId with any commit that
  landed between the handle's version and it.
\<close>

definition refreshes :: "'rows env \<Rightarrow> (version \<Rightarrow> log_line list) \<Rightarrow> handle \<Rightarrow> version \<Rightarrow> bool" where
  "refreshes ev hist h v \<longleftrightarrow>
     (\<forall>h'. ev_update ev h = Inr h' \<or> ev_open ev = Inr h' \<longrightarrow> (\<exists>w \<ge> v. handle_ok h' hist w))"

definition lands :: "'rows env \<Rightarrow> (version \<Rightarrow> log_line list) \<Rightarrow> string \<Rightarrow> handle \<Rightarrow> version \<Rightarrow> bool" where
  "lands ev hist app_id h v \<longleftrightarrow>
     (\<forall>rows o' h'. ev_process ev h rows o' = Inr h' \<longrightarrow>
        (\<exists>n sk protocol. v < n \<and> handle_ok h' hist n \<and> sk_app_id sk = app_id
           \<and> commit_writes (kafka_properties sk protocol o') (hist n)
           \<and> (\<forall>u. v < u \<and> u < n \<longrightarrow> ids_of (hist u) \<inter> ids_of (hist n) = {})))"

section \<open>Refreshing\<close>

lemma refresh_target_frame:
  assumes "refresh_target ev m = (r, m')"
  shows "m' = m\<lparr>m_target := m_target m'\<rparr>"
    and "m_target m' = m_target m \<or> ev_update ev (m_target m) = Inr (m_target m') \<or> ev_open ev = Inr (m_target m')"
    and "r = Inr () \<Longrightarrow> ev_update ev (m_target m) = Inr (m_target m') \<or> ev_open ev = Inr (m_target m')"
  using assms by (auto simp: refresh_target_def Let_def split: sum.splits option.splits prod.splits if_splits)

lemma reset_runs_exact:
  assumes ok: "member_ok m hist v" and h: "handle_ok h hist w" and vw: "v \<le> w"
    and run: "reset (m_fence m) h (parts_owned (m_parts m)) = (r, f)"
  shows "member_ok (m\<lparr>m_target := h, m_fence := f\<rparr>) hist w
    \<and> (r = Inr () \<longrightarrow> set (f_carried f) = set (parts_owned (m_parts m)))"
proof -
  have f: "fence_wf (m_fence m)" "exact (m_fence m) hist v" "memo_ok hist (f_below (m_fence m))"
    "\<forall>p \<in> set (parts_owned (m_parts m)). 0 \<le> p \<and> p < 2 ^ 31"
    using ok by (simp_all add: member_ok_def exact_def parts_owned_def)
  note e = reset_exact [OF h f(1) f(3) f(4) _ run] exact_later_marker [OF f(2) vw]
  with ok h show ?thesis by (auto simp: member_ok_def split: sum.splits)
qed

lemma refresh_and_reset_exact:
  assumes "member_ok m hist v" and "refreshes ev hist (m_target m) v" and "refresh_and_reset ev m = (Inr changed, m')"
  shows "\<exists>w \<ge> v. member_ok m' hist w
    \<and> (\<forall>p \<in> set (parts_owned (m_parts m)). fence_offset m' p = newest_version hist (txn_app_id (m_app_id m) p) w)
    \<and> set changed = {p \<in> set (parts_owned (m_parts m)). fence_offset m' p \<noteq> fence_offset m p}"
proof -
  obtain m1 where r1: "refresh_target ev m = (Inr (), m1)"
    using assms(3) by (auto simp: refresh_and_reset_def Let_def split: prod.splits sum.splits)
  then obtain f where r2: "reset (m_fence m1) (m_target m1) (parts_owned (m_parts m)) = (Inr (), f)"
    and m': "m' = m1\<lparr>m_fence := f, m_refreshed_at := ev_now ev\<rparr>"
    and ch: "changed = bs_collect (filter (\<lambda>p. fence_offset m' p \<noteq> fence_offset m p) (parts_owned (m_parts m)))"
    using assms(3) by (auto simp: refresh_and_reset_def Let_def split: prod.splits sum.splits)
  note fr = refresh_target_frame [OF r1]
  from fr(3) assms(2) obtain w where w: "v \<le> w" "handle_ok (m_target m1) hist w"
    unfolding refreshes_def by blast
  have "m_fence m1 = m_fence m" "m_parts m1 = m_parts m" "m_app_id m1 = m_app_id m"
    by (subst fr(1), simp)+
  note same = this
  have ok: "member_ok (m\<lparr>m_target := m_target m1, m_fence := f\<rparr>) hist w"
    and carried: "set (f_carried f) = set (parts_owned (m_parts m))"
    using reset_runs_exact [OF assms(1) w(2,1) r2 [unfolded same]] by simp_all
  have ok': "member_ok m' hist w" using ok same by (simp add: member_ok_def m')
  have "fence_offset m' p = newest_version hist (txn_app_id (m_app_id m) p) w"
    if "p \<in> set (parts_owned (m_parts m))" for p
    using ok' that carried same by (auto simp: member_ok_def exact_def m' fence_offset_def base_of_def offset_at_def)
  with w(1) ok' ch show ?thesis by auto
qed

text \<open>
  A refresh that succeeds leaves a member with the target's newest offsets: its handle has not
  gone back, every partition it owns is held at the newest offset of the log at that handle's
  version, and the partitions it reports changed are exactly those whose offset is another than before.
\<close>

lemma refresh_reads_the_newest:
  assumes "member_ok m hist v" and "refreshes ev hist (m_target m) v" and "refresh_and_reset ev m = (Inr changed, m')"
  shows "\<exists>w \<ge> v. member_ok m' hist w
    \<and> (\<forall>p \<in> set (parts_owned (m_parts m)). fence_offset m' p = newest_version hist (txn_app_id (m_app_id m) p) w)
    \<and> set changed = {p \<in> set (parts_owned (m_parts m)). fence_offset m' p \<noteq> fence_offset m p}"
  using assms by (rule refresh_and_reset_exact)

section \<open>Landing a batch\<close>

text \<open>
  A batch as \<open>close_batch\<close> leaves it: every partition has its offset of then beside its range, and was
  read past it.
\<close>

definition batch_wf :: "'rows kafka_batch \<Rightarrow> bool" where
  "batch_wf b \<longleftrightarrow> bt_wf (kb_ranges b)
     \<and> (\<forall>p f l. bt_get (kb_ranges b) p = Some (f, l) \<longrightarrow> f \<le> l
          \<and> (\<exists>base. bt_get (kb_bases b) p = Some base \<and> (case base of Some o' \<Rightarrow> o' < f | None \<Rightarrow> True)))"

lemma pause_frame [simp]:
  "m_fence (pause ps m) = m_fence m" "m_target (pause ps m) = m_target m" "m_parts (pause ps m) = m_parts m"
  "m_app_id (pause ps m) = m_app_id m" "m_held (pause ps m) = m_held m" "m_refreshed_at (pause ps m) = m_refreshed_at m"
  by (simp_all add: pause_def)

lemma backstop_frame [simp]:
  "m_fence (backstop now m) = m_fence m" "m_target (backstop now m) = m_target m"
  "m_parts (backstop now m) = m_parts m" "m_app_id (backstop now m) = m_app_id m"
  by (simp_all add: backstop_def pause_all_def split: sum.split)

lemma polled_again_keys [simp]: "map fst (polled_again q now ps) = map fst ps"
  by (simp add: polled_again_def case_prod_beta comp_def)

lemma commit_fenced_Inr:
  assumes "commit_fenced ev batch m = (Inr (), m')"
  obtains rows f h o' where "moved_partition batch m = None"
    and "verify (m_fence m) (m_target m) (kb_ranges batch) = (Inr (), f)"
    and "o' = batch_offsets ev batch (m\<lparr>m_fence := f\<rparr>)"
    and "ev_process ev (m_target m) rows o' = Inr h"
    and "m' = backstop (ev_now ev) (after_commit (ev_now ev) o' (m\<lparr>m_fence := f, m_target := h\<rparr>))"
  using assms that by (auto simp: commit_fenced_def Let_def split: option.splits sum.splits prod.splits bool.splits)

lemma moved_partition_None:
  assumes "moved_partition batch m = None" and "batch_wf batch" and "bt_get (kb_ranges batch) p = Some r"
  shows "p \<in> set (bt_keys (m_parts m))" and "bt_get (kb_bases batch) p = Some (fence_offset m p)"
proof -
  obtain f l where r: "r = (f, l)" by (cases r)
  have p: "p \<in> set (bt_keys (kb_ranges batch))" using map_of_SomeD [OF assms(3)] by force
  have n: "bt_get (m_parts m) p \<noteq> None" "map_option fst (base_of (m_fence m) p) = bt_get (kb_bases batch) p"
    using assms(1) p by (auto simp: moved_partition_def find_None_iff)
  show "p \<in> set (bt_keys (m_parts m))" using n(1) by (auto simp: map_of_eq_None_iff)
  obtain base where "bt_get (kb_bases batch) p = Some base"
    using assms(2,3) r unfolding batch_wf_def by blast
  with n(2) show "bt_get (kb_bases batch) p = Some (fence_offset m p)"
    by (auto simp: fence_offset_def)
qed

lemma batch_offsets_fields:
  assumes "o' = batch_offsets ev batch m"
  shows "assert_map (m_fence m) (kb_ranges batch) (kb_marks batch) = (ko_assert o', ko_marks o')"
    and "ko_takeover_marker o' = takeover_marker_due (m_fence m)"
  by (simp_all add: assms batch_offsets_def split: prod.split)

text \<open>What a Kafka commit writes of each partition, and of the marker.\<close>

lemma commit_ids:
  assumes "commit_writes (kafka_properties sk protocol o') ls" and "bt_wf (ko_assert o')"
    and "\<forall>p \<in> set (bt_keys (ko_assert o')). 0 \<le> p \<and> p < 2 ^ 31" and "0 \<le> p" "p < 2 ^ 31"
  shows "map_option ts_version (commit_state ls (txn_app_id (sk_app_id sk) p)) = map_option Some (bt_get (ko_assert o') p)"
    and "map_option ts_version (commit_state ls (takeover_marker_app_id (sk_app_id sk)))
      = (if ko_takeover_marker o' then Some (Some takeover_marker_version) else None)"
  using commit_txn_get [OF assms(1,2,3)] txn_app_id_not_marker [OF assms(4,5)] assert_by_app_id [OF assms(2,3,4)]
  by (auto simp: commit_state_def txn_state_of_def option.map_comp comp_def)

text \<open>The offsets of a target, as one commit may change them.\<close>

definition offsets_at :: "(version \<Rightarrow> log_line list) \<Rightarrow> string \<Rightarrow> version \<Rightarrow> partition \<Rightarrow> int option" where
  "offsets_at hist app_id v p = newest_version hist (txn_app_id app_id p) v"

text \<open>
  The abstract specification: commit \<open>n\<close> is a compare-and-swap of the batch's partitions, from the
  offsets the batch was read from to the last offsets it read, and leaves every other offset.
\<close>

definition swaps :: "(version \<Rightarrow> log_line list) \<Rightarrow> string \<Rightarrow> 'rows kafka_batch \<Rightarrow> version \<Rightarrow> bool" where
  "swaps hist app_id b n \<longleftrightarrow>
     0 < n \<and> (\<forall>p. 0 \<le> p \<and> p < 2 ^ 31 \<longrightarrow>
       (case bt_get (kb_ranges b) p of
          Some (_, l) \<Rightarrow> bt_get (kb_bases b) p = Some (offsets_at hist app_id (n - 1) p)
            \<and> offsets_at hist app_id n p = Some l
        | None \<Rightarrow> offsets_at hist app_id n p = offsets_at hist app_id (n - 1) p))"

text \<open>
  What a Kafka commit that lands does to the offsets: those it asserts are what it writes, and were, just
  before, what they are at the version it was prepared on; every other is what it was.
\<close>

lemma kafka_landing:
  assumes w: "commit_writes (kafka_properties sk protocol o') (hist n)" and n: "v < n"
    and wfa: "bt_wf (ko_assert o')" and nonneg: "\<forall>p \<in> set (bt_keys (ko_assert o')). 0 \<le> p \<and> p < 2 ^ 31"
    and free: "\<forall>u. v < u \<and> u < n \<longrightarrow> ids_of (hist u) \<inter> ids_of (hist n) = {}"
  shows "0 \<le> p \<Longrightarrow> p < 2 ^ 31 \<Longrightarrow> offsets_at hist (sk_app_id sk) n p
      = (case bt_get (ko_assert o') p of Some x \<Rightarrow> Some x | None \<Rightarrow> offsets_at hist (sk_app_id sk) (n - 1) p)"
    and "bt_get (ko_assert o') p \<noteq> None \<Longrightarrow>
      offsets_at hist (sk_app_id sk) (n - 1) p = offsets_at hist (sk_app_id sk) v p"
    and "newest_version hist (takeover_marker_app_id (sk_app_id sk)) n
      = (if ko_takeover_marker o' then Some takeover_marker_version
         else newest_version hist (takeover_marker_app_id (sk_app_id sk)) (n - 1))"
    and "ko_takeover_marker o' \<longleftrightarrow> takeover_marker_app_id (sk_app_id sk) \<in> ids_of (hist n)"
    and "i \<in> ids_of (hist n) \<Longrightarrow> newest_version hist i (n - 1) = newest_version hist i v"
proof -
  from n obtain k where k: "n = Suc k" "v \<le> k" by (cases n) auto
  show quiet: "newest_version hist i (n - 1) = newest_version hist i v" if "i \<in> ids_of (hist n)" for i
    using that free k by (simp, intro newest_version_unwritten) auto
  note ids = commit_ids [OF w wfa nonneg]
  show "offsets_at hist (sk_app_id sk) n p
      = (case bt_get (ko_assert o') p of Some x \<Rightarrow> Some x | None \<Rightarrow> offsets_at hist (sk_app_id sk) (n - 1) p)"
    if "0 \<le> p" "p < 2 ^ 31"
    using ids(1) [OF that] by (auto simp: offsets_at_def k(1) newest_version_step split: option.splits)
  show "offsets_at hist (sk_app_id sk) (n - 1) p = offsets_at hist (sk_app_id sk) v p" if a: "bt_get (ko_assert o') p \<noteq> None"
  proof -
    have "p \<in> set (bt_keys (ko_assert o'))" using a by (auto simp: map_of_eq_None_iff)
    with nonneg have "0 \<le> p" "p < 2 ^ 31" by blast+
    with ids(1) [of p] a have "commit_state (hist n) (txn_app_id (sk_app_id sk) p) \<noteq> None" by auto
    then show ?thesis unfolding offsets_at_def by (intro quiet) (simp add: commit_state_None)
  qed
  have mk: "map_option ts_version (commit_state (hist n) (takeover_marker_app_id (sk_app_id sk)))
      = (if ko_takeover_marker o' then Some (Some takeover_marker_version) else None)"
    using ids(2) [of 0] by simp
  then show "newest_version hist (takeover_marker_app_id (sk_app_id sk)) n
      = (if ko_takeover_marker o' then Some takeover_marker_version
         else newest_version hist (takeover_marker_app_id (sk_app_id sk)) (n - 1))"
    by (auto simp: k(1) newest_version_step split: option.splits if_splits)
  show "ko_takeover_marker o' \<longleftrightarrow> takeover_marker_app_id (sk_app_id sk) \<in> ids_of (hist n)"
    using mk commit_state_None [of "hist n" "takeover_marker_app_id (sk_app_id sk)"] by (auto split: if_splits)
qed

lemma asserted_carried:
  assumes "set (bt_keys rs) \<subseteq> set (f_carried f)" and "asserted f rs marks p \<noteq> None"
  shows "p \<in> set (f_carried f)"
  using assms map_of_SomeD [of rs p]
  by (force simp: asserted_def split: option.splits if_splits)

lemma landing:
  assumes ok: "member_ok m hist v" and lands: "lands ev hist (m_app_id m) (m_target m) v" and b: "batch_wf batch"
    and run: "commit_fenced ev batch m = (Inr (), m')"
  shows "\<exists>n > v. h_version (m_target m') = Some n \<and> swaps hist (m_app_id m) batch n \<and> member_ok m' hist n
    \<and> (takeover_marker_app_id (m_app_id m) \<in> ids_of (hist n) \<longrightarrow>
         newest_version hist (takeover_marker_app_id (m_app_id m)) (n - 1) = None)"
proof -
  let ?a = "m_app_id m" and ?mk = "takeover_marker_app_id (m_app_id m)"
  from commit_fenced_Inr [OF run] obtain rows f h o' where moved: "moved_partition batch m = None"
    and ver: "verify (m_fence m) (m_target m) (kb_ranges batch) = (Inr (), f)"
    and o': "o' = batch_offsets ev batch (m\<lparr>m_fence := f\<rparr>)"
    and proc: "ev_process ev (m_target m) rows o' = Inr h"
    and m': "m' = backstop (ev_now ev) (after_commit (ev_now ev) o' (m\<lparr>m_fence := f, m_target := h\<rparr>))" .
  have ok': "handle_ok (m_target m) hist v" "fence_wf (m_fence m)" "exact (m_fence m) hist v"
    "f_app_id (m_fence m) = ?a" using ok by (simp_all add: member_ok_def)
  note ve = verify_exact [OF ok'(1,2,3) ver]
  have f: "fence_wf f" "exact f hist v" "f_app_id f = ?a" "f_base f = f_base (m_fence m)" "f_marker f \<noteq> None"
    and keys: "set (bt_keys (kb_ranges batch)) \<subseteq> set (f_carried f)"
    using ve ok'(4) by simp_all
  have am: "assert_map f (kb_ranges batch) (kb_marks batch) = (ko_assert o', ko_marks o')"
    and due: "ko_takeover_marker o' = takeover_marker_due f"
    using batch_offsets_fields [OF o'] by simp_all
  have wf: "bt_wf (kb_ranges batch)" using b by (simp add: batch_wf_def)
  note get = assert_map_get [OF f(1) wf am]
  have wfa: "bt_wf (ko_assert o')" using get by blast
  have carried: "p \<in> set (f_carried f)" if "bt_get (ko_assert o') p \<noteq> None" for p
    using get [of p] that by (intro asserted_carried [OF keys]) auto
  have nn: "0 \<le> p \<and> p < 2 ^ 31" if "p \<in> set (f_carried f)" for p
    using f(1) that unfolding fence_wf_def by blast
  have nonneg: "\<forall>p \<in> set (bt_keys (ko_assert o')). 0 \<le> p \<and> p < 2 ^ 31"
    using carried nn by (auto simp: map_of_eq_None_iff)
  from lands proc obtain n sk protocol where n: "v < n" "handle_ok h hist n" "sk_app_id sk = ?a"
    and w: "commit_writes (kafka_properties sk protocol o') (hist n)"
    and free: "\<forall>u. v < u \<and> u < n \<longrightarrow> ids_of (hist u) \<inter> ids_of (hist n) = {}"
    unfolding lands_def by blast
  note la = kafka_landing [where hist = hist, OF w n(1) wfa nonneg free, unfolded n(3)]
  have held: "offset_at f p = offsets_at hist ?a v p" if "p \<in> set (f_carried f)" for p
    using f(2,3) that by (simp add: exact_def offsets_at_def)
  have before: "offsets_at hist ?a (n - 1) p = offset_at f p" if "bt_get (ko_assert o') p \<noteq> None" for p
    using la(2) [OF that] held [OF carried [OF that]] by simp
  have swap: "case bt_get (kb_ranges batch) p of
      Some (_, l) \<Rightarrow> bt_get (kb_bases batch) p = Some (offsets_at hist ?a (n - 1) p) \<and> offsets_at hist ?a n p = Some l
    | None \<Rightarrow> offsets_at hist ?a n p = offsets_at hist ?a (n - 1) p" if p: "0 \<le> p" "p < 2 ^ 31" for p
  proof (cases "bt_get (kb_ranges batch) p")
    case (Some r)
    obtain f0 l where r: "r = (f0, l)" by (cases r)
    have a: "bt_get (ko_assert o') p = Some l" using get [of p] Some r by (simp add: asserted_def)
    have "bt_get (kb_bases batch) p = Some (fence_offset m p)" using moved_partition_None(2) [OF moved b Some] .
    also have "fence_offset m p = offset_at f p" using f(4) by (simp add: fence_offset_def base_of_def offset_at_def)
    finally show ?thesis using before [of p] la(1) [OF p] a Some r by simp
  next
    case None
    show ?thesis
    proof (cases "bt_get (ko_assert o') p")
      case a: (Some x)
      then have "offset_at f p = Some x" using get [of p] None
        by (auto simp: asserted_def offset_at_def split: option.splits if_splits)
      with before [of p] la(1) [OF p] a None show ?thesis by simp
    qed (use la(1) [OF p] None in simp)
  qed
  have marker: "newest_version hist ?mk n \<noteq> None \<and> f_marker (committed o' f) = Some True"
  proof (cases "takeover_marker_due f")
    case True
    with la(3) due show ?thesis using committed_get [OF f(1) wfa] by simp
  next
    case False
    then have "f_marker f = Some True" by (simp add: takeover_marker_due_def)
    with exact_later_marker [OF f(2), of n] f(3) n(1) due False show ?thesis
      using committed_get [OF f(1) wfa] by simp
  qed
  note c = committed_get [OF f(1) wfa]
  have ex: "exact (committed o' f) hist n"
    unfolding exact_def marker_exact_def
  proof (intro conjI ballI)
    show "case f_marker (committed o' f) of None \<Rightarrow> True
      | Some b \<Rightarrow> b = (newest_version hist (takeover_marker_app_id (f_app_id (committed o' f))) n \<noteq> None)"
      using marker c f(3) by simp
    show "memo_ok hist (f_below (committed o' f))" using c f(2) by (simp add: exact_def)
    fix p assume "p \<in> set (f_carried (committed o' f))"
    with c have p: "p \<in> set (bt_keys (ko_assert o'))" "p \<in> set (owned f)" by auto
    then obtain x where x: "bt_get (ko_assert o') p = Some x" by (metis map_of_eq_None_iff not_Some_eq set_map)
    have "0 \<le> p" "p < 2 ^ 31" using nonneg p(1) by auto
    from la(1) [OF this] x c p(2) f(3) show "offset_at (committed o' f) p
        = newest_version hist (txn_app_id (f_app_id (committed o' f)) p) n" by (simp add: offsets_at_def)
  qed
  have "member_ok m' hist n"
    using ok n(2) c f(3) ex by (simp add: member_ok_def m' after_commit_def)
  moreover have "swaps hist ?a batch n" using swap n(1) unfolding swaps_def by simp
  moreover have "newest_version hist ?mk (n - 1) = None" if "?mk \<in> ids_of (hist n)"
    using la(5) [OF that] la(4) that due f(2,3,5)
    by (auto simp: takeover_marker_due_def exact_def marker_exact_def)
  moreover have "h_version (m_target m') = Some n" using n(2) by (simp add: m' after_commit_def handle_ok_def)
  ultimately show ?thesis using n(1) by blast
qed

lemma reposition_one_frame:
  assumes "reposition_one now (m, ps) p = (m', ps')"
  shows "m_fence m' = m_fence m \<and> m_target m' = m_target m \<and> m_app_id m' = m_app_id m
    \<and> set (bt_keys (m_parts m')) = set (bt_keys (m_parts m))"
proof (cases "bt_get (m_parts m) p")
  case None
  with assms show ?thesis by (simp add: reposition_one_def)
next
  case (Some s)
  then have "p \<in> fst ` set (m_parts m)" by (force dest: map_of_SomeD)
  then have "fst ` set (ready_at p a rr now (m_parts m)) = fst ` set (m_parts m)" for a rr
    by (simp add: ready_at_def set_bt_insert_keys insert_absorb)
  note keys = this
  show ?thesis
  proof (cases s)
    case (Ready n st rr l)
    with assms Some have "m' = m\<lparr>m_parts := ready_at p (case read_on m p of Some a \<Rightarrow> a | None \<Rightarrow> 0) None now (m_parts m)\<rparr>"
      by (simp add: reposition_one_def)
    then show ?thesis using keys by simp
  next
    case (Blocked b t)
    with assms Some have "m' = m\<lparr>m_next_recheck := Some now\<rparr>" by (simp add: reposition_one_def)
    then show ?thesis by simp
  qed
qed

lemma reposition_fold_frame:
  assumes "foldl (reposition_one now) (m, ps) qs = (m', ps')"
  shows "m_fence m' = m_fence m \<and> m_target m' = m_target m \<and> m_app_id m' = m_app_id m
    \<and> set (bt_keys (m_parts m')) = set (bt_keys (m_parts m))"
  using assms
proof (induction qs arbitrary: m ps)
  case (Cons q qs)
  obtain m1 ps1 where s: "reposition_one now (m, ps) q = (m1, ps1)" by (meson surj_pair)
  with Cons.prems have "foldl (reposition_one now) (m1, ps1) qs = (m', ps')" by simp
  from Cons.IH [OF this] reposition_one_frame [OF s] show ?case by simp
qed simp

lemma reposition_changed_frame:
  "m_fence (reposition_changed now ch sv m) = m_fence m \<and> m_target (reposition_changed now ch sv m) = m_target m
   \<and> m_app_id (reposition_changed now ch sv m) = m_app_id m
   \<and> set (bt_keys (m_parts (reposition_changed now ch sv m))) = set (bt_keys (m_parts m))"
proof -
  define sp where "sp \<longleftrightarrow> \<not> buffer_is_empty (m_buf m) \<and> list_ex (\<lambda>p. p \<in> set ch) (bt_keys (bu_ranges (m_buf m)))"
  define m1 where "m1 = (if sp then m\<lparr>m_buf := empty_buffer, m_stalled := None\<rparr> else m)"
  have m1: "m_fence m1 = m_fence m" "m_target m1 = m_target m" "m_app_id m1 = m_app_id m" "m_parts m1 = m_parts m"
    by (simp_all add: m1_def)
  have "\<exists>again. reposition_changed now ch sv m = (case foldl (reposition_one now) (m1, []) again of (m2, ps) \<Rightarrow> pause ps m2)"
    unfolding reposition_changed_def Let_def sp_def [symmetric] m1_def [symmetric] by blast
  then obtain again where again: "reposition_changed now ch sv m
      = (case foldl (reposition_one now) (m1, []) again of (m2, ps) \<Rightarrow> pause ps m2)" by blast
  obtain m2 ps where f: "foldl (reposition_one now) (m1, []) again = (m2, ps)" by (meson surj_pair)
  with again have r: "reposition_changed now ch sv m = pause ps m2" by simp
  from reposition_fold_frame [OF f] show ?thesis unfolding r by (simp add: m1)
qed

lemma member_ok_reposition: "member_ok m hist v \<Longrightarrow> member_ok (reposition_changed now ch sv m) hist v"
  using reposition_changed_frame [of now ch sv m] by (simp add: member_ok_def)

lemma refresh_and_reset_app_id: "refresh_and_reset ev m = (r, m') \<Longrightarrow> m_app_id m' = m_app_id m"
proof -
  assume run: "refresh_and_reset ev m = (r, m')"
  obtain r1 m1 where r1: "refresh_target ev m = (r1, m1)" by (meson surj_pair)
  have "m_app_id m1 = m_app_id m" by (subst refresh_target_frame(1) [OF r1], simp)
  with run r1 show ?thesis
    by (auto simp: refresh_and_reset_def Let_def split: prod.splits sum.splits)
qed

lemma try_commit_lands:
  assumes "member_ok m hist v" and "refreshes ev hist (m_target m) v"
    and "\<And>h w. handle_ok h hist w \<Longrightarrow> lands ev hist (m_app_id m) h w" and "batch_wf batch"
    and "try_commit ev batch m = (Inr (), m')"
  shows "\<exists>n > v. h_version (m_target m') = Some n \<and> swaps hist (m_app_id m) batch n \<and> member_ok m' hist n
    \<and> (takeover_marker_app_id (m_app_id m) \<in> ids_of (hist n) \<longrightarrow>
         newest_version hist (takeover_marker_app_id (m_app_id m)) (n - 1) = None)"
proof -
  have direct: ?thesis if "commit_fenced ev batch m = (Inr (), m')"
    using landing [OF assms(1) assms(3) assms(4) that] assms(1) by (simp add: member_ok_def)
  show ?thesis
  proof (cases "commit_fenced ev batch m = (Inr (), m')")
    case False
    with assms(5) obtain changed m1 where r: "refresh_and_reset ev m = (Inr changed, m1)"
      and c: "commit_fenced ev batch (reposition_changed (ev_now ev) changed (Some batch) m1) = (Inr (), m')"
      by (auto simp: try_commit_def Let_def split: sum.splits bool.splits prod.splits if_splits)
    from refresh_and_reset_exact [OF assms(1,2) r] obtain w where w: "v \<le> w" "member_ok m1 hist w" by blast
    let ?m2 = "reposition_changed (ev_now ev) changed (Some batch) m1"
    have ok: "member_ok ?m2 hist w" using w(2) by (rule member_ok_reposition)
    have a: "m_app_id ?m2 = m_app_id m"
      using refresh_and_reset_app_id [OF r] reposition_changed_frame [of "ev_now ev" changed "Some batch" m1] by simp
    have "handle_ok (m_target ?m2) hist w" using ok by (simp add: member_ok_def)
    from landing [OF ok _ assms(4) c] assms(3) [OF this] a w(1) show ?thesis
      by (metis order_le_less_trans)
  qed (rule direct)
qed

text \<open>
  C13. A commit that lands is a compare-and-swap on the target's offsets, whatever other writers do
  meanwhile: at the version it lands at, every partition of the batch went from the very offset the
  batch was read from to the last one it read, every other offset is what it was, the takeover
  marker is written only where there was none, and the member's offsets are again the target's.
\<close>

theorem commit_is_compare_and_swap:
  assumes "member_ok m hist v" and "refreshes ev hist (m_target m) v"
    and "\<And>h w. handle_ok h hist w \<Longrightarrow> lands ev hist (m_app_id m) h w" and "batch_wf batch"
    and "try_commit ev batch m = (Inr (), m')"
  shows "\<exists>n > v. h_version (m_target m') = Some n \<and> swaps hist (m_app_id m) batch n \<and> member_ok m' hist n
    \<and> (takeover_marker_app_id (m_app_id m) \<in> ids_of (hist n) \<longrightarrow>
         newest_version hist (takeover_marker_app_id (m_app_id m)) (n - 1) = None)"
  using assms by (rule try_commit_lands)

section \<open>Exactly once\<close>

text \<open>Batch \<open>b\<close> landed as commit \<open>n\<close>: some member with the target's offsets committed it there.\<close>

definition landed :: "(version \<Rightarrow> log_line list) \<Rightarrow> string \<Rightarrow> 'rows kafka_batch \<Rightarrow> version \<Rightarrow> bool" where
  "landed hist a b n \<longleftrightarrow>
     (\<exists>(ev :: 'rows env) m m' v. member_ok m hist v \<and> m_app_id m = a \<and> refreshes ev hist (m_target m) v
        \<and> (\<forall>h w. handle_ok h hist w \<longrightarrow> lands ev hist a h w) \<and> batch_wf b
        \<and> try_commit ev b m = (Inr (), m') \<and> h_version (m_target m') = Some n)"

lemma landed_swaps:
  fixes b :: "'rows kafka_batch"
  assumes "landed hist a b n"
  shows "swaps hist a b n \<and> batch_wf b"
proof -
  from assms obtain ev :: "'rows env" and m m' v where h: "member_ok m hist v" "refreshes ev hist (m_target m) v"
    and l: "\<And>h w. handle_ok h hist w \<Longrightarrow> lands ev hist (m_app_id m) h w" and "batch_wf b" "m_app_id m = a"
    and "try_commit ev b m = (Inr (), m')" "h_version (m_target m') = Some n"
    unfolding landed_def by blast
  with try_commit_lands [OF h l] show ?thesis by fastforce
qed

text \<open>Between two versions only members write the offset of a partition.\<close>

definition members_write :: "'rows itself \<Rightarrow> (version \<Rightarrow> log_line list) \<Rightarrow> string \<Rightarrow> partition \<Rightarrow> version \<Rightarrow> version \<Rightarrow> bool" where
  "members_write t hist a p lo hi \<longleftrightarrow>
     (\<forall>n. lo < n \<and> n < hi \<and> txn_app_id a p \<in> ids_of (hist n) \<longrightarrow> (\<exists>b :: 'rows kafka_batch. landed hist a b n))"

lemma offsets_only_rise:
  assumes "members_write TYPE('rows) hist a p lo hi" and "0 \<le> p" "p < 2 ^ 31"
    and "offsets_at hist a lo p = Some l" and "lo \<le> n" "n < hi"
  shows "\<exists>x \<ge> l. offsets_at hist a n p = Some x"
  using assms(5,6)
proof (induction n)
  case 0
  with assms(4) show ?case by auto
next
  case (Suc n)
  show ?case
  proof (cases "lo = Suc n")
    case True
    with assms(4) show ?thesis by auto
  next
    case False
    with Suc obtain x where x: "l \<le> x" "offsets_at hist a n p = Some x" by auto
    show ?thesis
    proof (cases "txn_app_id a p \<in> ids_of (hist (Suc n))")
      case True
      with assms(1) Suc.prems False obtain b :: "'rows kafka_batch" where "landed hist a b (Suc n)"
        unfolding members_write_def by (metis le_neq_implies_less)
      then have s: "swaps hist a b (Suc n)" and wf: "batch_wf b" using landed_swaps by auto
      show ?thesis
      proof (cases "bt_get (kb_ranges b) p")
        case None
        with s assms(2,3) x show ?thesis by (auto simp: swaps_def)
      next
        case (Some r)
        obtain f0 l0 where r: "r = (f0, l0)" by (cases r)
        from s assms(2,3) Some r have "bt_get (kb_bases b) p = Some (Some x)" "offsets_at hist a (Suc n) p = Some l0"
          using x by (auto simp: swaps_def)
        with wf Some r x(1) show ?thesis by (fastforce simp: batch_wf_def)
      qed
    next
      case False
      then have "commit_state (hist (Suc n)) (txn_app_id a p) = None" by (simp add: commit_state_None)
      with x show ?thesis by (simp add: offsets_at_def newest_version_step)
    qed
  qed
qed

text \<open>
  C17. No message is committed twice: of two batches any members of a pipeline landed, with nobody else
  writing the partition's offset in between, the later one begins past the last offset of the
  earlier one; and where no commit in between wrote it either, it was read from exactly there on.
\<close>

theorem landed_batches_never_overlap:
  fixes b1 b2 :: "'rows kafka_batch"
  assumes "landed hist a b1 n1" and "landed hist a b2 n2" and "n1 < n2"
    and "members_write TYPE('rows) hist a p n1 n2" and "0 \<le> p" and "p < 2 ^ 31"
    and "bt_get (kb_ranges b1) p = Some (f1, l1)" and "bt_get (kb_ranges b2) p = Some (f2, l2)"
  shows "l1 < f2
    \<and> ((\<forall>n. n1 < n \<and> n < n2 \<longrightarrow> txn_app_id a p \<notin> ids_of (hist n)) \<longrightarrow> bt_get (kb_bases b2) p = Some (Some l1))"
proof -
  have s1: "swaps hist a b1 n1" and s2: "swaps hist a b2 n2" and wf: "batch_wf b2"
    using landed_swaps assms(1,2) by auto
  have l1: "offsets_at hist a n1 p = Some l1" using s1 assms(5,6,7) by (auto simp: swaps_def)
  have base: "bt_get (kb_bases b2) p = Some (offsets_at hist a (n2 - 1) p)"
    using s2 assms(5,6,8) by (auto simp: swaps_def)
  have "n1 \<le> n2 - 1" "n2 - 1 < n2" using assms(3) by auto
  from offsets_only_rise [OF assms(4,5,6) l1 this] obtain x where x: "l1 \<le> x" "offsets_at hist a (n2 - 1) p = Some x"
    by blast
  have "\<exists>b. bt_get (kb_bases b2) p = Some b \<and> (case b of Some o' \<Rightarrow> o' < f2 | None \<Rightarrow> True)"
    using wf assms(8) unfolding batch_wf_def by blast
  with base x(2) have "x < f2" by auto
  with x(1) have "l1 < f2" by simp
  moreover have "bt_get (kb_bases b2) p = Some (Some l1)"
    if "\<forall>n. n1 < n \<and> n < n2 \<longrightarrow> txn_app_id a p \<notin> ids_of (hist n)"
  proof -
    have "newest_version hist (txn_app_id a p) (n2 - 1) = newest_version hist (txn_app_id a p) n1"
      by (rule newest_version_unwritten) (use assms(3) that in auto)
    with base l1 show ?thesis by (simp add: offsets_at_def)
  qed
  ultimately show ?thesis by blast
qed

section \<open>A run\<close>

text \<open>
  The log of \<open>Fence_Spec\<close>'s example, whose commits 1 and 2 wrote partition 0's offset as 5 and 7, with
  what two later commits of members wrote.
\<close>

definition lines_of :: "commit_properties \<Rightarrow> log_line list" where
  "lines_of props =
     \<lparr>ll_txn = None, ll_commit_info = Some \<lparr>ci_app_id = map_of (cp_metadata props) ''ddi.appId'',
        ci_marks = map_of (cp_metadata props) ''ddi.kafka.marks''\<rparr>\<rparr>
     # map (\<lambda>t. \<lparr>ll_txn = Some \<lparr>ta_app_id = tx_app_id t, ta_version = tx_version t\<rparr>, ll_commit_info = None\<rparr>)
         (cp_transactions props)"

lemma commit_writes_lines_of: "commit_writes props (lines_of props)"
proof -
  have "txns_of (map (\<lambda>t. \<lparr>ll_txn = Some (f t), ll_commit_info = None\<rparr>) ts) = map f ts" for f and ts :: "transaction list"
    by (induction ts) (simp_all add: txns_of_def List.map_filter_simps)
  moreover have "foldl (\<lambda>i l. if ll_commit_info l \<noteq> None then ll_commit_info l else i) i
      (map (\<lambda>t. \<lparr>ll_txn = Some (f t), ll_commit_info = None\<rparr>) ts) = i" for i f and ts :: "transaction list"
    by (induction ts) simp_all
  ultimately show ?thesis
    by (simp add: commit_writes_def lines_of_def txns_of_def info_of_def List.map_filter_simps)
qed

definition example_sink :: sink where
  "example_sink = sink_new ''a'' 0"

definition offsets_upto :: "int \<Rightarrow> int \<Rightarrow> bool \<Rightarrow> kafka_offsets" where
  "offsets_upto f l marker =
     \<lparr>ko_topic = ''t'', ko_group_id = ''g'', ko_ranges = [(0, f, l)], ko_assert = [(0, l)], ko_marks = [],
      ko_cleanup_logs = False, ko_baseline = False, ko_override_reason = None, ko_takeover_marker = marker\<rparr>"

definition run_history :: "kafka_offsets \<Rightarrow> kafka_offsets \<Rightarrow> version \<Rightarrow> log_line list" where
  "run_history o3 o4 v =
     (if v \<le> 2 then example_history v
      else if v = 3 then lines_of (kafka_properties example_sink None o3)
      else if v = 4 then lines_of (kafka_properties example_sink None o4)
      else [])"

text \<open>A handle at a version that can read the log up to commit 2, or not even its first commit.\<close>

definition run_handle :: "version \<Rightarrow> bool \<Rightarrow> handle" where
  "run_handle v first_readable =
     example_handle\<lparr>h_version := Some v,
       h_read_commit_entry := (\<lambda>u. if u = 0 \<and> \<not> first_readable then Inl (DeltaError (DK_ObjectStore OS_Generic) [])
                                  else if u \<le> v \<and> u \<le> 2 then Inr (Some (example_bytes u))
                                  else Inl (DeltaError (DK_ObjectStore OS_Generic) [])),
       h_transaction_version := (\<lambda>i. Inl (DeltaError DK_KernelError []))\<rparr>"

lemma run_newest_checkpoint: "newest_checkpoint (run_handle v b) w = Inr None"
  by (simp add: newest_checkpoint_def last_checkpoint_hint_def checkpoint_between_def by_version_def
      run_handle_def example_handle_def Let_def)

lemma run_handle_ok: "handle_ok (run_handle v b) (run_history o3 o4) v"
  unfolding handle_ok_def serves_def run_newest_checkpoint
  by (auto simp: run_handle_def run_history_def example_handle_def log_lines_def example_history_def
      split: if_splits prod.splits)

lemma run_handle_version: "handle_ok (run_handle v b) hist w \<Longrightarrow> w = v"
  by (simp add: handle_ok_def run_handle_def example_handle_def)

definition run_fence :: "int \<Rightarrow> bool \<Rightarrow> fence" where
  "run_fence b marker = \<lparr>f_app_id = ''a'', f_base = [(0, Some b, None)], f_carried = [0],
     f_marker = Some marker, f_below = default_memo\<rparr>"

definition run_member :: "version \<Rightarrow> fence \<Rightarrow> unit member" where
  "run_member v f = \<lparr>m_app_id = ''a'', m_topic = ''t'', m_group_id = ''g'', m_target_uri = ''file:///t'',
     m_once = False, m_blocked_recheck_secs = 60, m_dq_uri = ''file:///dq'', m_max_rejects = 0, m_explicit = [],
     m_has_dq = False, m_fence = f, m_target = run_handle v True, m_table_id = Some ''t1'',
     m_parts = [(0, Ready 9 6 None 0)], m_buf = empty_buffer, m_held = None, m_held_for = None, m_stalled = None,
     m_blocked = None, m_next_recheck = None, m_paused = [], m_unbased_start = [], m_refreshed_at = 0,
     m_last_commit = None, m_last_backoff = None, m_reset_this_step = False, m_once_end = None\<rparr>"

definition run_batch :: "int \<Rightarrow> int \<Rightarrow> int \<Rightarrow> unit kafka_batch" where
  "run_batch base f l = \<lparr>kb_rows = (), kb_undecodable = 0, kb_first_undecodable = None, kb_ranges = [(0, f, l)],
     kb_marks = [], kb_bases = [(0, Some base)], kb_messages = 1, kb_raw_bytes = 1\<rparr>"

text \<open>A world in which a refresh moves a handle to one version, and the one commit that lands is \<open>n\<close>.\<close>

definition run_env :: "nat \<Rightarrow> version \<Rightarrow> bool \<Rightarrow> version \<Rightarrow> kafka_offsets option \<Rightarrow> unit env" where
  "run_env now to first_readable n o' =
     \<lparr>ev_now = now, ev_update = (\<lambda>_. Inr (run_handle to first_readable)),
      ev_open = Inl E_Io, ev_table_id = (\<lambda>_. Some ''t1''), ev_rebuild = (\<lambda>_. Inr ()),
      ev_finish = Inr ((), 0, None), ev_prepare = (\<lambda>r. Inr r), ev_protocol_changed = (\<lambda>_. Inr False),
      ev_cleans_up = (\<lambda>_. False),
      ev_process = (\<lambda>h _ offs. if h_version h = Some (n - 1) \<and> o' = Some offs then Inr (run_handle n True)
         else Inl (E_Delta (DeltaError (DK_Transaction (TE_CommitConflict ConcurrentTransaction)) []))),
      ev_dq_open = Inr False, ev_watermarks = (\<lambda>_. Inr [])\<rparr>"

lemma run_lands:
  assumes "0 < n" and "\<And>offs. o' = Some offs \<Longrightarrow> commit_writes (kafka_properties example_sink None offs) (run_history o3 o4 n)"
    and "handle_ok h (run_history o3 o4) w"
  shows "lands (run_env now to b n o') (run_history o3 o4) ''a'' h w"
  unfolding lands_def
proof (intro allI impI)
  fix rows offs h'
  assume "ev_process (run_env now to b n o') h rows offs = Inr h'"
  then have "h_version h = Some (n - 1)" "o' = Some offs" and h': "h' = run_handle n True"
    by (auto simp: run_env_def split: if_splits)
  with assms(1,3) have "w = n - 1" "w < n" by (auto simp: handle_ok_def)
  moreover have "sk_app_id example_sink = ''a''" by (simp add: example_sink_def sink_new_def)
  moreover have "handle_ok h' (run_history o3 o4) n" unfolding h' by (rule run_handle_ok)
  ultimately show "\<exists>n sk protocol. w < n \<and> handle_ok h' (run_history o3 o4) n \<and> sk_app_id sk = ''a''
      \<and> commit_writes (kafka_properties sk protocol offs) (run_history o3 o4 n)
      \<and> (\<forall>u. w < u \<and> u < n \<longrightarrow> ids_of (run_history o3 o4 u) \<inter> ids_of (run_history o3 o4 n) = {})"
    using assms(2) \<open>o' = Some offs\<close> by (intro exI [of _ n] exI [of _ example_sink] exI [of _ None]) auto
qed

lemma run_refreshes:
  "v \<le> to \<Longrightarrow> refreshes (run_env now to b n o') (run_history o3 o4) h v"
  unfolding refreshes_def using run_handle_ok by (auto simp: run_env_def)

lemma example_history_at:
  "example_history 0 = [\<lparr>ll_txn = None, ll_commit_info = None\<rparr>]"
  "txns_of (example_history 1) = [\<lparr>ta_app_id = ''a-0'', ta_version = 5\<rparr>, \<lparr>ta_app_id = ''a-1'', ta_version = 9\<rparr>]"
  "txns_of (example_history 2) = [\<lparr>ta_app_id = ''a-0'', ta_version = 7\<rparr>]"
  by (simp_all add: example_history_def example_bytes_def example_json_def decode_log_line_def struct_fields_def
      opt_field_def example_info_line_def example_txn_line_def decode_commit_info_def decode_txn_def
      txns_of_def List.map_filter_simps i64_def)

lemma run_ids: "txn_app_id ''a'' 0 = ''a-0''" "takeover_marker_app_id ''a'' = ''a.ddi''"
  by (simp_all add: txn_app_id_def takeover_marker_app_id_def show_int_small)

lemma run_newest:
  "newest_version (run_history o3 o4) ''a-0'' 1 = Some 5"
  "newest_version (run_history o3 o4) ''a-0'' 2 = Some 7"
  "newest_version (run_history o3 o4) ''a.ddi'' 1 = None"
  "newest_version (run_history o3 o4) ''a.ddi'' 2 = None"
proof -
  have 0: "newest_version (run_history o3 o4) i 0 = None" for i
    by (simp add: newest_version_def newest_state_def run_history_def example_history_at commit_state_def
        txns_of_def List.map_filter_simps)
  show 1: "newest_version (run_history o3 o4) ''a-0'' 1 = Some 5" "newest_version (run_history o3 o4) ''a.ddi'' 1 = None"
    using newest_version_step [of "run_history o3 o4" _ 0] 0
    by (simp_all add: run_history_def example_history_at [unfolded One_nat_def] commit_state_def txn_state_of_def)
  show "newest_version (run_history o3 o4) ''a-0'' 2 = Some 7" "newest_version (run_history o3 o4) ''a.ddi'' 2 = None"
    using newest_version_step [of "run_history o3 o4" _ 1] 1
    by (simp_all add: run_history_def numeral_2_eq_2 example_history_at [unfolded numeral_2_eq_2] commit_state_def txn_state_of_def)
qed

lemma run_member_ok:
  assumes "v = 1 \<and> b = 5 \<or> v = 2 \<and> b = 7"
  shows "member_ok (run_member v (run_fence b False)) (run_history o3 o4) v"
  using assms run_handle_ok run_newest
  by (auto simp: member_ok_def run_member_def run_fence_def fence_wf_def bt_wf_def bs_wf_def exact_def
      marker_exact_def run_ids offset_at_def)

lemma run_batch_wf: "base < f \<Longrightarrow> f \<le> l \<Longrightarrow> batch_wf (run_batch base f l)"
  by (simp add: batch_wf_def run_batch_def bt_wf_def)

text \<open>How a batch of the run commits when its fence and its handle agree with the world's.\<close>

lemma run_verify: "verify (run_fence b k) h [(0, f, l)] = (Inr (), run_fence b k)"
  by (simp add: verify_def run_fence_def)

lemma run_offsets:
  assumes "m_fence m = run_fence b k" "m_topic m = ''t''" "m_group_id m = ''g''"
  shows "batch_offsets (run_env now to r n o') (run_batch b f l) m = offsets_upto f l (\<not> k)"
  by (simp add: assms batch_offsets_def run_env_def run_batch_def run_fence_def assert_map_def
      offsets_upto_def takeover_marker_due_def keep_mark_def bt_mem_def List.map_filter_simps
      bt_collect_def bt_extend_def)

lemma run_commit_exists: "commit_exists (run_handle v r) = Inr True"
  by (simp add: commit_exists_def run_handle_def example_handle_def)

lemma run_unwritable: "refuse_unwritable_protocol (run_handle v r) = Inr ()" "refuse_txn_retention (run_handle v r) = Inr ()"
  by (simp_all add: refuse_unwritable_protocol_def refuse_txn_retention_def run_handle_def example_handle_def)

lemma run_try_at:
  assumes n: "0 < n" "now < 600000" and m: "m_fence m = run_fence b k" "m_target m = run_handle (n - 1) r'"
    "m_refreshed_at m = 0" "m_topic m = ''t''" "m_group_id m = ''g''" "bt_get (m_parts m) 0 \<noteq> None"
  shows "try_commit (run_env now to r n (Some (offsets_upto f l (\<not> k)))) (run_batch b f l) m
    = (Inr (), after_commit now (offsets_upto f l (\<not> k)) (m\<lparr>m_target := run_handle n True\<rparr>))"
proof -
  let ?ev = "run_env now to r n (Some (offsets_upto f l (\<not> k)))"
  have 1: "moved_partition (run_batch b f l) m = None"
    using m(6) by (simp add: moved_partition_def run_batch_def m run_fence_def base_of_def)
  have 2: "undecodable_error (run_batch b f l) m = None" by (simp add: undecodable_error_def run_batch_def)
  have 3: "verify (m_fence m) (m_target m) (kb_ranges (run_batch b f l)) = (Inr (), m_fence m)"
    by (simp add: m run_batch_def run_verify)
  have 5: "ev_process ?ev (m_target m) () (offsets_upto f l (\<not> k)) = Inr (run_handle n True)"
    by (simp add: run_env_def m run_handle_def example_handle_def)
  have 6: "ev_prepare ?ev (kb_rows (run_batch b f l)) = Inr ()" "ev_protocol_changed ?ev (m_target m) = Inr False"
    "ev_now ?ev = now" by (simp_all add: run_env_def run_batch_def)
  have 7: "backstop now (after_commit now (offsets_upto f l (\<not> k)) (m\<lparr>m_target := run_handle n True\<rparr>))
      = after_commit now (offsets_upto f l (\<not> k)) (m\<lparr>m_target := run_handle n True\<rparr>)"
    by (simp add: backstop_def after_commit_def run_unwritable)
  have 8: "m\<lparr>m_fence := m_fence m\<rparr> = m" by simp
  have "commit_fenced ?ev (run_batch b f l) m
      = (Inr (), after_commit now (offsets_upto f l (\<not> k)) (m\<lparr>m_target := run_handle n True\<rparr>))"
    unfolding commit_fenced_def 1 2 3 6 option.case sum.case prod.case Let_def 8
      run_offsets [OF m(1,4,5)] bool.case 5 7 ..
  moreover have "commit_exists (m_target m) = Inr True" by (simp add: m run_commit_exists)
  ultimately show ?thesis using n(2)
    by (simp add: try_commit_def 6 handle_max_age_def m)
qed

lemma run_try:
  assumes "0 < n" and "now < 600000"
  shows "try_commit (run_env now to r n (Some (offsets_upto f l (\<not> k)))) (run_batch b f l) (run_member (n - 1) (run_fence b k))
    = (Inr (), after_commit now (offsets_upto f l (\<not> k)) ((run_member (n - 1) (run_fence b k))\<lparr>m_target := run_handle n True\<rparr>))"
  by (rule run_try_at [OF assms]) (simp_all add: run_member_def)

lemma run_newest_3:
  "newest_version (run_history (offsets_upto 8 12 True) o4) ''a-0'' 3 = Some 12"
  "newest_version (run_history (offsets_upto 8 12 True) o4) ''a.ddi'' 3 \<noteq> None"
proof -
  have c: "run_history (offsets_upto 8 12 True) o4 (Suc 2) = lines_of (kafka_properties example_sink None (offsets_upto 8 12 True))"
    by (simp add: run_history_def)
  have t: "txns_of (lines_of (kafka_properties example_sink None (offsets_upto 8 12 True)))
      = [\<lparr>ta_app_id = ''a-0'', ta_version = 12\<rparr>, \<lparr>ta_app_id = ''a.ddi'', ta_version = 1\<rparr>]"
    using commit_writes_lines_of [of "kafka_properties example_sink None (offsets_upto 8 12 True)"]
    by (simp add: commit_writes_def kafka_properties_def kafka_txn_def Let_def offsets_upto_def example_sink_def
        sink_new_def run_ids takeover_marker_version_def)
  note step = newest_version_step [of "run_history (offsets_upto 8 12 True) o4" _ 2, unfolded c]
  show "newest_version (run_history (offsets_upto 8 12 True) o4) ''a-0'' 3 = Some 12"
    "newest_version (run_history (offsets_upto 8 12 True) o4) ''a.ddi'' 3 \<noteq> None"
    using step [of "''a-0''"] step [of "''a.ddi''"] by (simp_all add: commit_state_def t txn_state_of_def)
qed

lemma run_landed:
  defines "hist \<equiv> run_history (offsets_upto 8 12 True) (offsets_upto 13 20 False)"
  shows "landed hist ''a'' (run_batch 7 8 12) 3" and "landed hist ''a'' (run_batch 12 13 20) 4"
proof -
  have w: "commit_writes (kafka_properties example_sink None (offsets_upto 8 12 True)) (hist 3)"
    "commit_writes (kafka_properties example_sink None (offsets_upto 13 20 False)) (hist 4)"
    by (simp_all add: hist_def run_history_def commit_writes_lines_of)
  have ok3: "member_ok (run_member 3 (run_fence 12 True)) hist 3"
    unfolding hist_def using run_handle_ok run_newest_3
    by (auto simp: member_ok_def run_member_def run_fence_def fence_wf_def bt_wf_def bs_wf_def exact_def
        marker_exact_def run_ids offset_at_def)
  have ok2: "member_ok (run_member 2 (run_fence 7 False)) hist 2" unfolding hist_def by (rule run_member_ok) simp
  have id: "m_app_id (run_member v f) = ''a''" for v f by (simp add: run_member_def)
  show "landed hist ''a'' (run_batch 7 8 12) 3" unfolding landed_def
  proof (intro exI conjI allI impI)
    show "try_commit (run_env 0 3 True 3 (Some (offsets_upto 8 12 (\<not> False)))) (run_batch 7 8 12)
        (run_member (3 - 1) (run_fence 7 False)) = (Inr (), after_commit 0 (offsets_upto 8 12 (\<not> False))
          ((run_member (3 - 1) (run_fence 7 False))\<lparr>m_target := run_handle 3 True\<rparr>))"
      by (rule run_try) simp_all
    show "lands (run_env 0 3 True 3 (Some (offsets_upto 8 12 (\<not> False)))) hist ''a'' h x" if "handle_ok h hist x" for h x
      using that w unfolding hist_def by (intro run_lands) auto
    show "refreshes (run_env 0 3 True 3 (Some (offsets_upto 8 12 (\<not> False)))) hist
        (m_target (run_member (3 - 1) (run_fence 7 False))) 2"
      unfolding hist_def by (rule run_refreshes) simp
  qed (use ok2 id run_batch_wf [of 7 8 12] in \<open>simp_all add: after_commit_def run_handle_def example_handle_def\<close>)
  show "landed hist ''a'' (run_batch 12 13 20) 4" unfolding landed_def
  proof (intro exI conjI allI impI)
    show "try_commit (run_env 0 4 True 4 (Some (offsets_upto 13 20 (\<not> True)))) (run_batch 12 13 20)
        (run_member (4 - 1) (run_fence 12 True)) = (Inr (), after_commit 0 (offsets_upto 13 20 (\<not> True))
          ((run_member (4 - 1) (run_fence 12 True))\<lparr>m_target := run_handle 4 True\<rparr>))"
      by (rule run_try) simp_all
    show "lands (run_env 0 4 True 4 (Some (offsets_upto 13 20 (\<not> True)))) hist ''a'' h x" if "handle_ok h hist x" for h x
      using that w unfolding hist_def by (intro run_lands) auto
    show "refreshes (run_env 0 4 True 4 (Some (offsets_upto 13 20 (\<not> True)))) hist
        (m_target (run_member (4 - 1) (run_fence 12 True))) 3"
      unfolding hist_def by (rule run_refreshes) simp
  qed (use ok3 id run_batch_wf [of 12 13 20] in \<open>simp_all add: after_commit_def run_handle_def example_handle_def\<close>)
qed

theorem landed_batches_never_overlap_witness:
  "\<exists>hist (b1 :: unit kafka_batch) (b2 :: unit kafka_batch).
     landed hist ''a'' b1 3 \<and> landed hist ''a'' b2 4 \<and> bt_get (kb_ranges b1) 0 = Some (8, 12)
     \<and> bt_get (kb_ranges b2) 0 = Some (13, 20) \<and> (12 :: int) < 13 \<and> bt_get (kb_bases b2) 0 = Some (Some 12)"
proof -
  let ?hist = "run_history (offsets_upto 8 12 True) (offsets_upto 13 20 False)"
  have r: "bt_get (kb_ranges (run_batch 7 8 12)) 0 = Some (8, 12)" "bt_get (kb_ranges (run_batch 12 13 20)) 0 = Some (13, 20)"
    by (simp_all add: run_batch_def)
  have mw: "members_write TYPE(unit) ?hist ''a'' 0 3 4" by (auto simp: members_write_def)
  have lt: "(3 :: version) < 4" "(0 :: partition) \<le> 0" "(0 :: partition) < 2 ^ 31" by simp_all
  from landed_batches_never_overlap [OF run_landed lt(1) mw lt(2,3) r]
  have "(12 :: int) < 13" "bt_get (kb_bases (run_batch 12 13 20)) 0 = Some (Some 12)" by auto
  with run_landed r show ?thesis by blast
qed

lemma run_handle_fields:
  "h_version (run_handle v b) = Some v" "h_configuration (run_handle v b) = Inr []"
  "h_read_commit_entry (run_handle v True) u = (if u \<le> v \<and> u \<le> 2 then Inr (Some (example_bytes u))
     else Inl (DeltaError (DK_ObjectStore OS_Generic) []))"
  "h_json_stream (run_handle v b) = example_json" "h_url (run_handle v b) = ''file:///t''"
  by (simp_all add: run_handle_def example_handle_def)

lemma run_stored_table_id: "stored_table_id (run_handle v True) = Inr (Some ''t1'')"
  by (simp add: stored_table_id_def run_handle_def example_handle_def example_bytes_def example_json_def
      id_from_json_def decode_metadata_id_def struct_fields_def opt_field_def Let_def)

lemma refresh_reads_the_newest_witness:
  "\<exists>changed m'. refresh_and_reset (run_env 0 2 True 3 None) (run_member 1 (run_fence 5 False)) = (Inr changed, m')
     \<and> set changed = {0} \<and> fence_offset m' 0 = Some 7"
proof -
  let ?ev = "run_env 0 2 True 3 None" and ?m = "run_member 1 (run_fence 5 False)"
  let ?hist = "run_history (offsets_upto 8 12 True) (offsets_upto 13 20 False)"
  have t: "refresh_target ?ev ?m = (Inr (), ?m\<lparr>m_target := run_handle 2 True\<rparr>)"
    by (simp add: refresh_target_def run_env_def run_member_def run_stored_table_id run_unwritable)
  obtain f where "reset (run_fence 5 False) (run_handle 2 True) [0] = (Inr (), f)"
    by (simp add: reset_def run_fence_def run_handle_fields ids_to_read_def txn_app_id_def takeover_marker_app_id_def
        show_int_small vanished_of_def List.map_filter_simps read_marker_def read_log_defs run_newest_checkpoint)
  moreover have "m_fence ?m = run_fence 5 False" "parts_owned (m_parts ?m) = [0]"
    by (simp_all add: parts_owned_def run_member_def)
  ultimately have "\<exists>changed m'. refresh_and_reset ?ev ?m = (Inr changed, m') \<and> m_target m' = run_handle 2 True"
    unfolding refresh_and_reset_def t Let_def by simp
  then obtain changed m' where r: "refresh_and_reset ?ev ?m = (Inr changed, m')"
    and target: "m_target m' = run_handle 2 True" by blast
  have ok: "member_ok ?m ?hist 1" by (rule run_member_ok) simp
  have rf: "refreshes ?ev ?hist (m_target ?m) 1" by (rule run_refreshes) simp
  from refresh_reads_the_newest [OF ok rf r] obtain w where "member_ok m' ?hist w"
    and newest: "\<forall>p \<in> set (parts_owned (m_parts ?m)). fence_offset m' p = newest_version ?hist (txn_app_id (m_app_id ?m) p) w"
    and ch: "set changed = {p \<in> set (parts_owned (m_parts ?m)). fence_offset m' p \<noteq> fence_offset ?m p}" by blast
  with target have "handle_ok (run_handle 2 True) ?hist w" by (simp add: member_ok_def)
  then have "w = 2" by (rule run_handle_version)
  with newest have "fence_offset m' 0 = Some 7"
    by (simp add: parts_owned_def run_member_def run_ids run_newest)
  moreover have "fence_offset ?m 0 = Some 5" by (simp add: fence_offset_def base_of_def run_member_def run_fence_def)
  moreover have "set (parts_owned (m_parts ?m)) = {0}" by (simp add: parts_owned_def run_member_def)
  ultimately have "set changed = {0}" using ch by auto
  with r \<open>fence_offset m' 0 = Some 7\<close> show ?thesis by blast
qed

theorem commit_is_compare_and_swap_witness:
  "\<exists>hist (m' :: unit member). try_commit (run_env 0 3 True 3 (Some (offsets_upto 8 12 True))) (run_batch 7 8 12)
       (run_member 2 (run_fence 7 False)) = (Inr (), m')
     \<and> h_version (m_target m') = Some 3 \<and> swaps hist ''a'' (run_batch 7 8 12) 3 \<and> member_ok m' hist 3
     \<and> offsets_at hist ''a'' 2 0 = Some 7"
proof -
  let ?hist = "run_history (offsets_upto 8 12 True) (offsets_upto 13 20 False)"
  let ?ev = "run_env 0 3 True 3 (Some (offsets_upto 8 12 True))" and ?m = "run_member 2 (run_fence 7 False)"
  have "\<exists>m'. try_commit ?ev (run_batch 7 8 12) ?m = (Inr (), m') \<and> h_version (m_target m') = Some 3"
    using run_try [of 3 0 3 True 8 12 False 7] by (simp add: after_commit_def run_handle_fields)
  then obtain m' where r: "try_commit ?ev (run_batch 7 8 12) ?m = (Inr (), m')" "h_version (m_target m') = Some 3" by blast
  have ok: "member_ok ?m ?hist 2" by (rule run_member_ok) simp
  have rf: "refreshes ?ev ?hist (m_target ?m) 2" by (rule run_refreshes) simp
  have id: "m_app_id ?m = ''a''" by (simp add: run_member_def)
  have la: "lands ?ev ?hist (m_app_id ?m) h w" if "handle_ok h ?hist w" for h w
    unfolding id using that by (intro run_lands) (auto simp: run_history_def commit_writes_lines_of)
  have wf: "batch_wf (run_batch 7 8 12)" by (rule run_batch_wf) simp_all
  from commit_is_compare_and_swap [OF ok rf la wf r(1)] r(2) id
  have "swaps ?hist ''a'' (run_batch 7 8 12) 3 \<and> member_ok m' ?hist 3" by auto
  moreover have "offsets_at ?hist ''a'' 2 0 = Some 7" by (simp add: offsets_at_def run_ids run_newest)
  ultimately show ?thesis using r by blast
qed

section \<open>A reset that fails after the handle moved\<close>

text \<open>
  The compare-and-swap rests on the fence being exact at the version the handle stands at, and one
  path leaves it behind: \<open>refresh_target\<close> moves the handle and then fails in the read of commit 0,
  before \<open>Fence::reset\<close> is reached. The batch is held as for any transient failure and tried again
  without a refresh; the fence still carries the old offset, so \<open>verify\<close> reads nothing, and delta-rs
  looks for conflicts only above the new handle.
\<close>

definition commits_land :: "'rows env \<Rightarrow> (version \<Rightarrow> log_line list) \<Rightarrow> string \<Rightarrow> bool" where
  "commits_land ev hist app_id \<longleftrightarrow> (\<forall>h w. handle_ok h hist w \<longrightarrow> lands ev hist app_id h w)"

definition lost_member :: "unit member" where
  "lost_member = (run_member 1 (run_fence 5 False))\<lparr>m_target := run_handle 2 False, m_reset_this_step := True\<rparr>"

definition lost_held :: "unit member" where
  "lost_held = hold 0 (run_batch 5 6 8) backoff_min HeldTransient lost_member"

lemma lost_first:
  "commit_batch (run_env 0 2 False 9 None) (run_env 0 2 False 9 None) (run_batch 5 6 8) (run_member 1 (run_fence 5 False))
     = (Inr (), lost_held)"
proof -
  let ?ev = "run_env 0 2 False 9 None" and ?m = "run_member 1 (run_fence 5 False)"
  let ?e = "E_Delta (DeltaError (DK_Transaction (TE_CommitConflict ConcurrentTransaction)) [])"
  have 1: "moved_partition (run_batch 5 6 8) ?m = None"
    by (simp add: moved_partition_def run_batch_def run_member_def run_fence_def base_of_def)
  have 2: "undecodable_error (run_batch 5 6 8) ?m = None" by (simp add: undecodable_error_def run_batch_def)
  have 3: "verify (m_fence ?m) (m_target ?m) (kb_ranges (run_batch 5 6 8)) = (Inr (), m_fence ?m)"
    by (simp add: run_member_def run_batch_def run_verify)
  have 6: "ev_prepare ?ev (kb_rows (run_batch 5 6 8)) = Inr ()" "ev_protocol_changed ?ev h = Inr False"
    "ev_now ?ev = 0" "ev_process ?ev h () offs = Inl ?e" for h offs by (simp_all add: run_env_def run_batch_def)
  have 8: "?m\<lparr>m_fence := m_fence ?m\<rparr> = ?m" by simp
  have "commit_fenced ?ev (run_batch 5 6 8) ?m = (Inl ?e, ?m)"
    unfolding commit_fenced_def 1 2 3 6 option.case sum.case prod.case Let_def 8 bool.case ..
  moreover have "commit_exists (m_target ?m) = Inr True" "m_refreshed_at ?m = 0"
    by (simp_all add: run_member_def run_commit_exists)
  ultimately have t: "try_commit ?ev (run_batch 5 6 8) ?m = (Inl ?e, ?m)"
    by (simp add: try_commit_def 6 handle_max_age_def)
  have cls: "kafka_class ?e = Replan" by (simp add: kafka_class_def delta_class_def)
  have "refresh_target ?ev (?m\<lparr>m_reset_this_step := True\<rparr>)
      = (Inl (E_Delta (DeltaError (DK_ObjectStore OS_Generic) [])), lost_member)"
    by (simp add: refresh_target_def run_env_def run_member_def lost_member_def stored_table_id_def run_handle_def
        example_handle_def)
  then have "reset_in_place ?ev (Some (run_batch 5 6 8)) ?m
      = hold_for_class 0 (run_batch 5 6 8) (E_Delta (DeltaError (DK_ObjectStore OS_Generic) [])) lost_member"
    by (simp add: reset_in_place_def refresh_and_reset_def Let_def 6)
  also have "\<dots> = (Inr (), lost_held)"
    by (simp add: hold_for_class_def kafka_class_def delta_class_def is_unwritable_def lost_held_def lost_member_def run_member_def Let_def)
  finally have r: "reset_in_place ?ev (Some (run_batch 5 6 8)) ?m = (Inr (), lost_held)" .
  have "after_failure ?ev (run_batch 5 6 8) ?e ?m = (Inr (), lost_held)"
    unfolding after_failure_def cls r by simp
  then show ?thesis unfolding commit_batch_def t prod.case sum.case .
qed

lemma lost_again:
  "\<exists>m'. retry_step (run_env 60000 3 True 3 (Some (offsets_upto 6 8 True))) (run_env 60000 3 True 3 (Some (offsets_upto 6 8 True)))
       (run_env 60000 3 True 3 (Some (offsets_upto 6 8 True))) lost_held = (Inr (), m') \<and> h_version (m_target m') = Some 3"
proof -
  let ?ev = "run_env 60000 3 True 3 (Some (offsets_upto 6 8 True))"
  let ?m = "lost_held\<lparr>m_reset_this_step := False, m_held := None, m_last_backoff := Some backoff_min\<rparr>"
  have "due_held ?ev (lost_held\<lparr>m_reset_this_step := False\<rparr>) = (Inr (Some (run_batch 5 6 8)), ?m)"
    by (simp add: due_held_def lost_held_def hold_def pause_all_def pause_def run_env_def backoff_min_def)
  moreover have "try_commit (run_env 60000 3 True 3 (Some (offsets_upto 6 8 (\<not> False)))) (run_batch 5 6 8) ?m
      = (Inr (), after_commit 60000 (offsets_upto 6 8 (\<not> False)) (?m\<lparr>m_target := run_handle 3 True\<rparr>))"
    by (rule run_try_at [where r' = False])
       (simp_all add: lost_held_def lost_member_def hold_def pause_all_def pause_def run_member_def)
  moreover have "h_version (m_target (after_commit 60000 (offsets_upto 6 8 (\<not> False)) (?m\<lparr>m_target := run_handle 3 True\<rparr>))) = Some 3"
    by (simp add: after_commit_def run_handle_fields)
  ultimately show ?thesis by (simp add: retry_step_def commit_batch_def)
qed

text \<open>
  C18. The code does not keep its compare-and-swap across a refresh that fails half way. In a log whose
  commits 1 and 2 wrote partition 0's offset as 5 and 7, a member that is exact at commit 1 commits a
  batch of offsets 6 to 8: delta-rs answers that a concurrent commit conflicts, the member refreshes,
  the handle moves to commit 2, and the read of commit 0 that follows fails with a transient storage
  error. The batch is held, and its next try lands as commit 3 although the target's offset was 7 just
  before it: offsets 6 and 7 are in the target twice. Every hypothesis of the compare-and-swap theorem
  holds at the start.
\<close>

theorem retry_after_failed_refresh_overwrites:
  "\<exists>hist ev ev' m1 (m :: unit member) batch m2.
     member_ok m hist 1 \<and> refreshes ev hist (m_target m) 1 \<and> commits_land ev hist (m_app_id m) \<and> batch_wf batch
     \<and> commit_batch ev ev batch m = (Inr (), m1)
     \<and> refreshes ev' hist (m_target m1) 2 \<and> commits_land ev' hist (m_app_id m)
     \<and> retry_step ev' ev' ev' m1 = (Inr (), m2) \<and> h_version (m_target m2) = Some 3
     \<and> bt_get (kb_ranges batch) 0 = Some (6, 8) \<and> offsets_at hist (m_app_id m) 2 0 = Some 7
     \<and> \<not> swaps hist (m_app_id m) batch 3"
proof -
  let ?hist = "run_history (offsets_upto 6 8 True) (offsets_upto 13 20 False)"
  let ?ev = "run_env 0 2 False 9 None" and ?ev' = "run_env 60000 3 True 3 (Some (offsets_upto 6 8 True))"
  let ?m = "run_member 1 (run_fence 5 False)" and ?b = "run_batch 5 6 8"
  obtain m2 where m2: "retry_step ?ev' ?ev' ?ev' lost_held = (Inr (), m2)" "h_version (m_target m2) = Some 3"
    using lost_again by blast
  have id: "m_app_id ?m = ''a''" by (simp add: run_member_def)
  have r: "bt_get (kb_ranges ?b) 0 = Some (6, 8)" "bt_get (kb_bases ?b) 0 = Some (Some 5)"
    by (simp_all add: run_batch_def)
  have seven: "offsets_at ?hist ''a'' 2 0 = Some 7" by (simp add: offsets_at_def run_ids run_newest)
  have "(3 :: nat) - 1 = 2" by simp
  with r seven have "\<not> swaps ?hist ''a'' ?b 3" by (force simp: swaps_def)
  moreover have "commits_land ?ev ?hist ''a''" by (simp add: commits_land_def lands_def run_env_def)
  moreover have "commits_land ?ev' ?hist ''a''" unfolding commits_land_def
    by (intro allI impI run_lands) (auto simp: run_history_def commit_writes_lines_of)
  ultimately show ?thesis
    using m2 r seven lost_first run_member_ok [of 1 5] run_refreshes [of 1 2] run_refreshes [of 2 3]
      run_batch_wf [of 5 6 8] id
    by (intro exI [of _ ?hist] exI [of _ ?ev] exI [of _ ?ev'] exI [of _ lost_held] exI [of _ ?m] exI [of _ ?b]
        exI [of _ m2]) simp
qed

end
