(* ===== verification/Rebalance.thy ===== *)
theory Rebalance
  imports Member
begin

text \<open>
  \<open>src/kafka/rebalance.rs\<close> and the revoke flush of \<open>src/kafka/step.rs\<close>: taking partitions the group
  gives a member, at the offsets of the target, and giving them up. What librdkafka answers to
  \<open>assign\<close>, \<open>unassign\<close>, \<open>seek\<close> and \<open>resume\<close> is an argument. The time box of the flush, which drops
  \<open>try_commit\<close> at whatever await it stands at, is not modelled.
\<close>

definition start_one ::
    "watermarks \<Rightarrow> 'rows member \<times> (partition \<times> start) list \<Rightarrow> partition \<Rightarrow> 'rows member \<times> (partition \<times> start) list" where
  "start_one ws = (\<lambda>(m, starts) p.
     let (low, high) = (case bt_get ws p of Some w \<Rightarrow> w | None \<Rightarrow> (0, 0));
         (base, mark) = (case base_of (m_fence m) p of Some b \<Rightarrow> b | None \<Rightarrow> (None, None));
         st = resolve base mark low high (bt_get (m_explicit m) p)
     in (case (base, st) of
           (None, StartReady offset _) \<Rightarrow> m\<lparr>m_unbased_start := bt_insert p offset (m_unbased_start m)\<rparr>
         | _ \<Rightarrow> m,
         bt_insert p st starts))"

definition read_starts ::
    "'rows env \<Rightarrow> partition list \<Rightarrow> 'rows member \<Rightarrow> ((partition, start) bmap \<times> watermarks) res \<times> 'rows member" where
  "read_starts ev ps m =
     (case refresh_target ev m of
        (Inl e, m1) \<Rightarrow> (Inl e, m1)
      | (Inr _, m1) \<Rightarrow>
          (case reset (m_fence m1) (m_target m1) ps of
             (Inl e, f) \<Rightarrow> (Inl e, m1\<lparr>m_fence := f\<rparr>)
           | (Inr _, f) \<Rightarrow>
               let m2 = m1\<lparr>m_fence := f, m_refreshed_at := ev_now ev\<rparr>
               in case ev_watermarks ev ps of
                    Inl e \<Rightarrow> (Inl e, m2)
                  | Inr ws \<Rightarrow>
                      let (m3, starts) = foldl (start_one ws) (m2\<lparr>m_unbased_start := []\<rparr>, []) ps
                      in (Inr (starts, ws), m3)))"

text \<open>One partition put where it starts, and whether it is assigned paused.\<close>

definition place_one ::
    "nat \<Rightarrow> 'rows member \<times> partition list \<Rightarrow> partition \<times> start \<Rightarrow> 'rows member \<times> partition list" where
  "place_one now = (\<lambda>(m, paused) (p, st).
     case st of
       StartReady offset rr \<Rightarrow> (m\<lparr>m_parts := ready_at p offset rr now (m_parts m)\<rparr>, paused)
     | StartBlocked b \<Rightarrow>
         (m\<lparr>m_next_recheck := (if b \<noteq> Unresolved then get_or_insert (now + blocked_recheck m) (m_next_recheck m)
                              else m_next_recheck m),
            m_parts := block_part p b now (m_parts m)\<rparr>, paused @ [p]))"

definition assign_partitions ::
    "'rows env \<Rightarrow> unit res \<Rightarrow> partition list \<Rightarrow> bool \<Rightarrow> 'rows member \<Rightarrow> unit res \<times> 'rows member" where
  "assign_partitions ev assigned ps once m =
     (let now = ev_now ev;
          (resolved, m1) = read_starts ev ps (m\<lparr>m_parts := []\<rparr>);
          (starts, ends, m2) = (case resolved of
              Inr (starts, ws) \<Rightarrow> (Inr starts, ws, m1)
            | Inl e \<Rightarrow>
                if kafka_class e = ConsumerFatal \<or> once then (Inl e, [], m1)
                else (Inr (bt_collect (map (\<lambda>p. (p, StartBlocked Unresolved)) ps)), [],
                      m1\<lparr>m_blocked := Some (kafka_block_reason e),
                         m_next_recheck := Some (now + (if kafka_class e = Transient then backoff_min * 5
                                                      else blocked_recheck m))\<rparr>))
      in case starts of
           Inl e \<Rightarrow> (Inl e, m2)
         | Inr starts \<Rightarrow>
             let (m3, paused) = foldl (place_one now) (m2, []) starts
             in case assigned of
                  Inl e \<Rightarrow> (Inl e, m3)
                | Inr _ \<Rightarrow>
                    let m4 = pause paused (m3\<lparr>m_paused := []\<rparr>)
                    in (Inr (), if once then m4\<lparr>m_once_end := Some (bt_collect (map (\<lambda>(p, w). (p, snd w)) ends))\<rparr> else m4))"

definition unassign :: "unit res \<Rightarrow> 'rows member \<Rightarrow> unit res \<times> 'rows member" where
  "unassign done_with m =
     (let m1 = m\<lparr>m_buf := empty_buffer, m_held := None, m_held_for := None, m_stalled := None,
                 m_blocked := None, m_next_recheck := None\<rparr>;
          f = foldl (\<lambda>f p. forget p f) (m_fence m1) (parts_owned (m_parts m1))
      in (done_with, m1\<lparr>m_fence := f, m_parts := [], m_paused := [], m_unbased_start := []\<rparr>))"

datatype flushed = FlushCommitted | FlushDropped | FlushNothing

definition flush_inner :: "'rows env \<Rightarrow> 'rows member \<Rightarrow> flushed res \<times> 'rows member" where
  "flush_inner ev m =
     (if m_held m = None \<and> buffer_is_empty (m_buf m) then (Inr FlushNothing, m)
      else if m_blocked m \<noteq> None \<or> m_stalled m \<noteq> None then (Inr FlushDropped, m)
      else
        let (batch, m1) = (case m_held m of
              Some h \<Rightarrow> (Inr (he_batch h), m\<lparr>m_held := None\<rparr>)
            | None \<Rightarrow> close_batch ev m)
        in case batch of
             Inl e \<Rightarrow> (Inl e, m1)
           | Inr b \<Rightarrow>
               (case try_commit ev b m1 of
                  (Inr _, m2) \<Rightarrow> (Inr FlushCommitted, m2)
                | (Inl _, m2) \<Rightarrow> (Inr FlushDropped, m2)))"

definition flush_then_unassign :: "'rows env \<Rightarrow> unit res \<Rightarrow> 'rows member \<Rightarrow> unit res \<times> 'rows member" where
  "flush_then_unassign ev done_with m =
     (case (if m_parts m = [] then (Inr FlushNothing, m) else flush_inner ev m) of
        (Inl e, m1) \<Rightarrow> (Inl e, m1)
      | (Inr _, m1) \<Rightarrow> unassign done_with m1)"

definition drop_and_unassign :: "unit res \<Rightarrow> 'rows member \<Rightarrow> unit res \<times> 'rows member" where
  "drop_and_unassign done_with m = unassign done_with m"

text \<open>
  Paused partitions that are Ready, sought at the offset each expects; \<open>seek\<close> answers which of them
  could not be sought, \<open>resume\<close> whether the rest could be resumed.
\<close>

definition to_release :: "'rows member \<Rightarrow> (partition \<times> int) list" where
  "to_release m =
     List.map_filter (\<lambda>p. case bt_get (m_parts m) p of Some (Ready n _ _ _) \<Rightarrow> Some (p, n) | _ \<Rightarrow> None) (m_paused m)"

definition release ::
    "nat \<Rightarrow> ((partition \<times> int) list \<Rightarrow> partition list res) \<Rightarrow> (partition list \<Rightarrow> unit res) \<Rightarrow> 'rows member
       \<Rightarrow> unit res \<times> 'rows member" where
  "release now seek resume m =
     (let ready = to_release m in
      if ready = [] then (Inr (), m)
      else case seek ready of
             Inl e \<Rightarrow> if kafka_class e = Transient then (Inr (), m) else (Inl e, m)
           | Inr failed \<Rightarrow>
               let back = filter (\<lambda>p. p \<notin> set failed) (map fst ready)
               in case resume back of
                    Inl e \<Rightarrow> if kafka_class e \<noteq> Transient then (Inl e, m) else (Inr (), m)
                  | Inr _ \<Rightarrow>
                      (Inr (), foldl (\<lambda>m p. m\<lparr>m_paused := bs_remove p (m_paused m),
                                m_parts := polled_again (Some p) now (m_parts m)\<rparr>) m back))"

section \<open>Properties\<close>

lemma forget_fold:
  "fence_wf f \<Longrightarrow> (let f' = foldl (\<lambda>f p. forget p f) f ps in
     fence_wf f' \<and> f_app_id f' = f_app_id f \<and> set (owned f') = set (owned f) - set ps
     \<and> set (f_carried f') = set (f_carried f) - set ps)"
proof (induction ps arbitrary: f)
  case (Cons p ps)
  have base: "set (bt_keys (bt_remove p (f_base f))) = set (bt_keys (f_base f)) - {p}"
    by (auto simp: bt_remove_def)
  have "fence_wf (forget p f)"
    using Cons.prems base by (auto simp: fence_wf_def forget_def)
  from Cons.IH [OF this] show ?case
    by (auto simp: Let_def owned_def forget_def bt_remove_def)
qed simp

text \<open>
  A member that gives its partitions up lets go of them: whatever it held, no later commit of it
  asserts an offset of one of them unless it reads that partition again; and nothing it had buffered
  or held is left to commit.
\<close>

lemma unassign_lets_go:
  assumes "fence_wf (m_fence m)" and "p \<in> set (parts_owned (m_parts m))" and "unassign answer m = (r, m')"
  shows "m_held m' = None \<and> buffer_is_empty (m_buf m') \<and> m_parts m' = []
    \<and> (\<forall>rs marks. bt_wf rs \<and> p \<notin> set (bt_keys rs) \<longrightarrow>
         bt_get (fst (assert_map (m_fence m') rs marks)) p = None)"
proof -
  let ?f = "foldl (\<lambda>f p. forget p f) (m_fence m) (parts_owned (m_parts m))"
  have f: "m_fence m' = ?f" and rest: "m_held m' = None" "buffer_is_empty (m_buf m')" "m_parts m' = []"
    using assms(3) by (auto simp: unassign_def Let_def buffer_is_empty_def empty_buffer_def)
  note ff = forget_fold [OF assms(1), of "parts_owned (m_parts m)", unfolded Let_def]
  have wf: "fence_wf ?f" and c: "p \<notin> set (f_carried ?f)" using ff assms(2) by auto
  have "bt_get (fst (assert_map ?f rs marks)) p = None" if "bt_wf rs" "p \<notin> set (bt_keys rs)" for rs marks
  proof -
    obtain a ms where r: "assert_map ?f rs marks = (a, ms)" by (meson surj_pair)
    have "bt_get rs p = None" using that(2) by (simp add: map_of_eq_None_iff)
    with c have "asserted ?f rs marks p = None" by (simp add: asserted_def)
    with assert_map_get [OF wf that(1) r, of p] r show ?thesis by simp
  qed
  with rest f show ?thesis by simp
qed

definition leaving_member :: "unit member" where
  "leaving_member = \<lparr>m_app_id = ''a'', m_topic = ''t'', m_group_id = ''g'', m_target_uri = ''file:///t'',
     m_once = False, m_blocked_recheck_secs = 60, m_dq_uri = ''file:///dq'', m_max_rejects = 0, m_explicit = [],
     m_has_dq = False,
     m_fence = \<lparr>f_app_id = ''a'', f_base = [(0, Some 5, None), (1, Some 3, None)], f_carried = [0, 1],
        f_marker = Some False, f_below = default_memo\<rparr>,
     m_target = example_handle, m_table_id = Some ''t1'',
     m_parts = [(0, Ready 9 6 None 0), (1, Ready 4 4 None 0)], m_buf = empty_buffer, m_held = None, m_held_for = None,
     m_stalled = None, m_blocked = None, m_next_recheck = None, m_paused = [1], m_unbased_start = [], m_refreshed_at = 0,
     m_last_commit = None, m_last_backoff = None, m_reset_this_step = False, m_once_end = None\<rparr>"

lemma unassign_lets_go_witness:
  "\<exists>m'. unassign (Inr ()) leaving_member = (Inr (), m') \<and> m_parts m' = []
     \<and> bt_get (fst (assert_map (m_fence m') [] [])) 0 = None
     \<and> bt_get (fst (assert_map (m_fence leaving_member) [] [])) 0 = Some 5"
proof -
  obtain m' where r: "unassign (Inr ()) leaving_member = (Inr (), m')"
    by (simp add: unassign_def Let_def)
  have wf: "fence_wf (m_fence leaving_member)" and p: "(0 :: partition) \<in> set (parts_owned (m_parts leaving_member))"
    by (simp_all add: leaving_member_def fence_wf_def bt_wf_def bs_wf_def parts_owned_def)
  from unassign_lets_go [OF wf p r] have "m_parts m' = []"
    "bt_get (fst (assert_map (m_fence m') [] [])) 0 = None" by (auto simp: bt_wf_def)
  moreover have "bt_get (fst (assert_map (m_fence leaving_member) [] [])) 0 = Some 5"
    by (simp add: assert_map_def leaving_member_def List.map_filter_simps base_of_def bt_collect_def bt_extend_def bt_mem_def)
  ultimately show ?thesis using r by blast
qed

end
