(* ===== verification/Quality.thy ===== *)
theory Quality
  imports Sink Fence_Read
begin

text \<open>
  \<open>src/dq.rs\<close>: recording the rows a target would not take. delta-rs, the object store and the
  decoding of Arrow rows are parameters (\<open>dq_ops\<close>, \<open>rejected\<close>); what they do to the table's log is
  a world \<open>'w\<close> that every call threads. Batches of rejects are lists of the table's rows.
\<close>

section \<open>The table and its rows\<close>

definition dq_suffix :: string where
  "dq_suffix = ''__ddi_dq''"

definition trim_end_slashes :: "string \<Rightarrow> string" where
  "trim_end_slashes s = rev (dropWhile (\<lambda>c. c = CHR ''/'') (rev s))"

definition dq_uri_for :: "string \<Rightarrow> string" where
  "dq_uri_for target_uri = trim_end_slashes target_uri @ dq_suffix"

definition dq_app_id_for :: "string \<Rightarrow> string" where
  "dq_app_id_for app_id = app_id @ ''.dq''"

definition kafka_conflict_retries :: nat where
  "kafka_conflict_retries = 3"

record dq_row =
  dr_app_id :: string
  dr_pipeline :: string
  dr_source_version :: int
  dr_column :: "string option"
  dr_reason :: string
  dr_payload :: "string option"
  dr_timestamp :: int

text \<open>
  A \<open>Rejected\<close>: per row a column and a reason; \<open>rj_ints\<close> is a column of its batch cast to \<open>i64\<close>,
  absent when there is none of that name or it is no integer, and \<open>rj_payloads\<close> the rows as JSON.
\<close>

record rejected =
  rj_columns :: "string option list"
  rj_reasons :: "string list"
  rj_ints :: "string \<Rightarrow> int option list option"
  rj_payloads :: "string option list"

definition rejected_len :: "rejected \<Rightarrow> nat" where
  "rejected_len r = length (rj_reasons r)"

text \<open>
  A handle: the version it loaded, whether it has a snapshot, its protocol, why a writer would
  refuse it, and the two settings the commit looks at.
\<close>

record dq_table =
  dt_version :: "version option"
  dt_snapshot :: bool
  dt_protocol :: "json option"
  dt_refused :: "unit res"
  dt_config :: "delta_error + (bool \<times> nat)" \<comment> \<open>cleans up expired logs, checkpoint interval\<close>

record 'w dq_ops =
  do_open :: "'w \<Rightarrow> dq_table res \<times> 'w"
  do_append :: "dq_table \<Rightarrow> dq_row list \<Rightarrow> commit_properties \<Rightarrow> 'w \<Rightarrow> (delta_error + dq_table) \<times> 'w"
  do_read :: "dq_table \<Rightarrow> version \<Rightarrow> 'w \<Rightarrow> (delta_error + string option) \<times> 'w"
  do_txn :: "dq_table \<Rightarrow> string \<Rightarrow> 'w \<Rightarrow> (delta_error + int option) \<times> 'w"
  do_session :: "dq_table \<Rightarrow> unit res"
  do_json :: "string \<Rightarrow> json list" \<comment> \<open>the lines of a commit, up to the first that does not parse\<close>
  do_in_memory :: dq_table

record data_quality =
  dq_app_id :: string
  dq_dq_app_id :: string
  dq_pipeline :: string
  dq_uri :: string
  dq_table :: dq_table
  dq_prefix :: string
  dq_retries :: nat

definition dq_open :: "'w dq_ops \<Rightarrow> string \<Rightarrow> string \<Rightarrow> string \<Rightarrow> 'w \<Rightarrow> data_quality option res \<times> 'w" where
  "dq_open ops uri app_id pipeline w =
     (case do_open ops w of
        (Inr t, w') \<Rightarrow>
          (Inr (Some \<lparr>dq_app_id = app_id, dq_dq_app_id = dq_app_id_for app_id, dq_pipeline = pipeline, dq_uri = uri,
                      dq_table = t, dq_prefix = ''kafka_'', dq_retries = 0\<rparr>), w')
      | (Inl _, w') \<Rightarrow> (Inr None, w'))"

definition assemble ::
    "data_quality \<Rightarrow> int list \<Rightarrow> string option list \<Rightarrow> string list \<Rightarrow> string option list \<Rightarrow> int \<Rightarrow> dq_row list res" where
  "assemble dq versions columns reasons payloads now =
     (let n = length reasons in
      if length versions \<noteq> n \<or> length columns \<noteq> n \<or> length payloads \<noteq> n
      then Inl (E_Other ''cannot assemble the data-quality batch'')
      else Inr (map (\<lambda>((v, c), (r, p)). \<lparr>dr_app_id = dq_app_id dq, dr_pipeline = dq_pipeline dq, dr_source_version = v,
                   dr_column = c, dr_reason = r, dr_payload = p, dr_timestamp = now\<rparr>)
                 (zip (zip versions columns) (zip reasons payloads))))"

section \<open>A Delta batch\<close>

definition dq_batch :: "data_quality \<Rightarrow> rejected list \<Rightarrow> int \<Rightarrow> int \<Rightarrow> dq_row list res" where
  "dq_batch dq rejected source_version now =
     (let columns = concat (map rj_columns rejected);
          reasons = concat (map rj_reasons rejected);
          payload = concat (map rj_payloads rejected)
      in assemble dq (replicate (length reasons) source_version) columns reasons payload now)"

definition already_recorded :: "'w dq_ops \<Rightarrow> data_quality \<Rightarrow> int \<Rightarrow> 'w \<Rightarrow> bool res \<times> 'w" where
  "already_recorded ops dq source_version w =
     (if \<not> dt_snapshot (dq_table dq) then (Inr False, w)
      else case do_txn ops (dq_table dq) (dq_dq_app_id dq) w of
             (Inl e, w') \<Rightarrow> (Inl (E_Delta e), w')
           | (Inr stored, w') \<Rightarrow> (Inr (stored = Some source_version), w'))"

definition dq_properties :: "data_quality \<Rightarrow> int \<Rightarrow> commit_properties" where
  "dq_properties dq source_version =
     \<lparr>cp_transactions = [\<lparr>tx_app_id = dq_dq_app_id dq, tx_version = source_version, tx_last_updated = None\<rparr>],
      cp_metadata = [(''ddi.sourceVersion'', JInt source_version), (''ddi.appId'', JStr (dq_app_id dq))],
      cp_cleanup_expired_logs =
        (if protects_checkpoints (dt_protocol (dq_table dq)) then Some False else None)\<rparr>"

definition dq_write ::
    "'w dq_ops \<Rightarrow> data_quality \<Rightarrow> rejected list \<Rightarrow> int \<Rightarrow> int \<Rightarrow> 'w \<Rightarrow> nat res \<times> data_quality \<times> 'w" where
  "dq_write ops dq rejected source_version now w =
     (let rows = sum_list (map rejected_len rejected) in
      if rows = 0 then (Inr 0, dq, w)
      else case already_recorded ops dq source_version w of
             (Inl e, w1) \<Rightarrow> (Inl e, dq, w1)
           | (Inr True, w1) \<Rightarrow> (Inr 0, dq, w1)
           | (Inr False, w1) \<Rightarrow>
               (case dq_batch dq rejected source_version now of
                  Inl e \<Rightarrow> (Inl e, dq, w1)
                | Inr batch \<Rightarrow>
                    (case do_session ops (dq_table dq) of
                       Inl e \<Rightarrow> (Inl e, dq\<lparr>dq_table := do_in_memory ops\<rparr>, w1)
                     | Inr _ \<Rightarrow>
                         (case do_append ops (dq_table dq) batch (dq_properties dq source_version) w1 of
                            (Inr t, w2) \<Rightarrow> (Inr rows, dq\<lparr>dq_table := t\<rparr>, w2)
                          | (Inl _, w2) \<Rightarrow>
                              (case do_open ops w2 of
                                 (reopened, w3) \<Rightarrow>
                                   (Inl (E_Other ''cannot write rejected rows to the data-quality table''),
                                    dq\<lparr>dq_table := (case reopened of Inr t \<Rightarrow> t | Inl _ \<Rightarrow> do_in_memory ops)\<rparr>, w3))))))"

section \<open>A Kafka batch\<close>

text \<open>Each row's partition and offset, where its columns name an offset the batch read.\<close>

definition in_ranges :: "(partition, int \<times> int) bmap \<Rightarrow> int option \<times> int option \<Rightarrow> (partition \<times> int) option" where
  "in_ranges ranges = (\<lambda>(p, o').
     case (p, o') of
       (Some p, Some offset) \<Rightarrow>
         if \<not> (- (2 ^ 31) \<le> p \<and> p < 2 ^ 31) then None
         else (case bt_get ranges p of
                 Some (f, l) \<Rightarrow> if f \<le> offset \<and> offset \<le> l then Some (p, offset) else None
               | None \<Rightarrow> None)
     | _ \<Rightarrow> None)"

definition coordinates ::
    "data_quality \<Rightarrow> rejected \<Rightarrow> (partition, int \<times> int) bmap \<Rightarrow> (partition \<times> int) option list" where
  "coordinates dq r ranges =
     (case (rj_ints r (dq_prefix dq @ ''partition''), rj_ints r (dq_prefix dq @ ''offset'')) of
        (Some partitions, Some offsets) \<Rightarrow> map (in_ranges ranges) (zip partitions offsets)
      | _ \<Rightarrow> replicate (rejected_len r) None)"

definition dq_kafka_batch ::
    "data_quality \<Rightarrow> rejected list \<Rightarrow> (partition, int \<times> int) bmap \<Rightarrow> int \<Rightarrow> dq_row list res" where
  "dq_kafka_batch dq rejected ranges now =
     (let versions = concat (map (\<lambda>r. map (\<lambda>c. case c of Some (_, off) \<Rightarrow> off | None \<Rightarrow> - 1) (coordinates dq r ranges)) rejected);
          columns = concat (map rj_columns rejected);
          reasons = concat (map rj_reasons rejected);
          payload = concat (map rj_payloads rejected)
      in assemble dq versions columns reasons payload now)"

datatype attempt = Conflict delta_error | Ambiguous error | Failed error

definition dq_is_conflict :: "delta_error \<Rightarrow> bool" where
  "dq_is_conflict e \<longleftrightarrow>
     (case delta_kind e of
        DK_VersionAlreadyExists _ \<Rightarrow> True
      | DK_Transaction (TE_CommitConflict _) \<Rightarrow> True
      | DK_Transaction (TE_VersionAlreadyExists _) \<Rightarrow> True
      | DK_Transaction (TE_MaxCommitAttempts _) \<Rightarrow> True
      | _ \<Rightarrow> False)"

definition kafka_write_id :: string where
  "kafka_write_id = ''ddi.kafka.dqWriteId''"

definition write_id_of :: "json list \<Rightarrow> string option" where
  "write_id_of lines =
     find_map (\<lambda>line. Option.bind (json_get ''commitInfo'' line) (\<lambda>info.
                        Option.bind (json_get kafka_write_id info) as_str)) lines"

definition dq_kafka_properties ::
    "data_quality \<Rightarrow> kafka_offsets \<Rightarrow> string \<Rightarrow> bool \<times> nat \<Rightarrow> commit_properties" where
  "dq_kafka_properties dq o' write_id = (\<lambda>(cleans_up, interval).
     let ranges = bt_collect (map (\<lambda>(p, f, l). (show_int p, JArr [JInt f, JInt l])) (ko_ranges o'));
         nxt = (case dt_version (dq_table dq) of None \<Rightarrow> 0 | Some v \<Rightarrow> v + 1)
     in \<lparr>cp_transactions = [],
         cp_metadata = [(''ddi.appId'', JStr (dq_app_id dq)), (''ddi.kafka.offsets'', JObj ranges),
                        (kafka_write_id, JStr write_id)],
         cp_cleanup_expired_logs =
           Some (cleans_up \<and> (nxt + 1) mod interval = 0 \<and> \<not> protects_checkpoints (dt_protocol (dq_table dq)))\<rparr>)"

definition try_write_kafka ::
    "'w dq_ops \<Rightarrow> data_quality \<Rightarrow> dq_row list \<Rightarrow> kafka_offsets \<Rightarrow> string \<Rightarrow> 'w \<Rightarrow> (attempt + unit) \<times> data_quality \<times> 'w" where
  "try_write_kafka ops dq batch o' write_id w =
     (case dt_refused (dq_table dq) of
        Inl e \<Rightarrow> (Inl (Failed e), dq, w)
      | Inr _ \<Rightarrow>
          (case dt_config (dq_table dq) of
             Inl e \<Rightarrow> (Inl (Failed (E_Delta e)), dq, w)
           | Inr conf \<Rightarrow>
               (case do_session ops (dq_table dq) of
                  Inl e \<Rightarrow> (Inl (Failed e), dq, w)
                | Inr _ \<Rightarrow>
                    (case do_append ops (dq_table dq) batch (dq_kafka_properties dq o' write_id conf) w of
                       (Inr t, w') \<Rightarrow> (Inr (), dq\<lparr>dq_table := t\<rparr>, w')
                     | (Inl e, w') \<Rightarrow>
                         (Inl (if dq_is_conflict e then Conflict e
                               else Ambiguous (classify_delta e ''data-quality: writing rejects'')), dq, w')))))"

definition unwritable :: "data_quality \<Rightarrow> nat \<Rightarrow> error \<Rightarrow> error" where
  "unwritable dq rows cause = E_DataQualityWrite (dq_uri dq) rows cause"

text \<open>The commits after \<open>read_version\<close>, newest first.\<close>

fun landed_from :: "'w dq_ops \<Rightarrow> dq_table \<Rightarrow> string \<Rightarrow> version list \<Rightarrow> 'w \<Rightarrow> bool res \<times> 'w" where
  "landed_from ops t write_id [] w = (Inr False, w)"
| "landed_from ops t write_id (v # vs) w =
     (case do_read ops t v w of
        (Inl e, w') \<Rightarrow> (Inl (E_Delta e), w')
      | (Inr None, w') \<Rightarrow> (Inr False, w')
      | (Inr (Some bytes), w') \<Rightarrow>
          if write_id_of (do_json ops bytes) = Some write_id then (Inr True, w')
          else landed_from ops t write_id vs w')"

definition dq_landed ::
    "'w dq_ops \<Rightarrow> data_quality \<Rightarrow> version option \<Rightarrow> string \<Rightarrow> 'w \<Rightarrow> bool res \<times> 'w" where
  "dq_landed ops dq read_version write_id w =
     (case dt_version (dq_table dq) of
        None \<Rightarrow> (Inr False, w)
      | Some head \<Rightarrow>
          landed_from ops (dq_table dq) write_id
            (rev [(case read_version of None \<Rightarrow> 0 | Some v \<Rightarrow> v + 1)..<Suc head]) w)"

text \<open>The loop; the first argument is how many retries of a conflict are left.\<close>

fun write_kafka_loop ::
    "nat \<Rightarrow> 'w dq_ops \<Rightarrow> data_quality \<Rightarrow> nat \<Rightarrow> dq_row list \<Rightarrow> kafka_offsets \<Rightarrow> string \<Rightarrow> 'w
       \<Rightarrow> nat res \<times> data_quality \<times> 'w" where
  "write_kafka_loop left ops dq rows batch o' write_id w =
     (let read_version = dt_version (dq_table dq)
      in case try_write_kafka ops dq batch o' write_id w of
           (Inr _, dq1, w1) \<Rightarrow> (Inr rows, dq1, w1)
         | (Inl (Failed cause), dq1, w1) \<Rightarrow>
             (case do_open ops w1 of
                (Inr t, w2) \<Rightarrow> (Inl (unwritable dq1 rows cause), dq1\<lparr>dq_table := t\<rparr>, w2)
              | (Inl _, w2) \<Rightarrow> (Inl (unwritable dq1 rows cause), dq1, w2))
         | (Inl (Ambiguous cause), dq1, w1) \<Rightarrow>
             (case do_open ops w1 of
                (Inl _, w2) \<Rightarrow> (Inl (unwritable dq1 rows cause), dq1, w2)
              | (Inr t, w2) \<Rightarrow>
                  let dq2 = dq1\<lparr>dq_table := t\<rparr>
                  in (case dq_landed ops dq2 read_version write_id w2 of
                        (Inr True, w3) \<Rightarrow> (Inr rows, dq2, w3)
                      | (_, w3) \<Rightarrow> (Inl (unwritable dq2 rows cause), dq2, w3)))
         | (Inl (Conflict e), dq1, w1) \<Rightarrow>
             (case do_open ops w1 of
                (Inl cause, w2) \<Rightarrow> (Inl (unwritable dq1 rows cause), dq1, w2)
              | (Inr t, w2) \<Rightarrow>
                  let dq2 = dq1\<lparr>dq_table := t\<rparr>
                  in (case dq_landed ops dq2 read_version write_id w2 of
                        (Inl cause, w3) \<Rightarrow> (Inl (unwritable dq2 rows cause), dq2, w3)
                      | (Inr True, w3) \<Rightarrow> (Inr rows, dq2, w3)
                      | (Inr False, w3) \<Rightarrow>
                          (case left of
                             Suc n \<Rightarrow> write_kafka_loop n ops (dq2\<lparr>dq_retries := u64_add (dq_retries dq2) 1\<rparr>) rows batch o' write_id w3
                           | 0 \<Rightarrow> (Inl (E_DataQualityConflict (dq_uri dq2) rows (kafka_conflict_retries + 1) (delta_text e)),
                                  dq2, w3)))))"

declare write_kafka_loop.simps [simp del]

definition dq_write_kafka ::
    "'w dq_ops \<Rightarrow> data_quality \<Rightarrow> rejected list \<Rightarrow> kafka_offsets \<Rightarrow> int \<Rightarrow> string \<Rightarrow> 'w
       \<Rightarrow> nat res \<times> data_quality \<times> 'w" where
  "dq_write_kafka ops dq rejected o' now write_id w =
     (let rows = sum_list (map rejected_len rejected) in
      if rows = 0 then (Inr 0, dq, w)
      else case dq_kafka_batch dq rejected (ko_ranges o') now of
             Inl cause \<Rightarrow> (Inl (unwritable dq rows cause), dq, w)
           | Inr batch \<Rightarrow> write_kafka_loop kafka_conflict_retries ops dq rows batch o' write_id w)"

section \<open>What the table's log does\<close>

text \<open>
  \<open>log w\<close> is the table's log in the world \<open>w\<close>: only this call writes commits with its id; an append
  adds at most one commit of its own, among those of other writers, and has added it when it
  succeeds, but may have added it when it fails; an open sees every commit that landed before it; a
  commit that is read is the one at that version, as long as the log has not been cleaned up.
\<close>

definition own_commit :: "'w dq_ops \<Rightarrow> string \<Rightarrow> string \<Rightarrow> bool" where
  "own_commit ops write_id bytes \<longleftrightarrow> write_id_of (do_json ops bytes) = Some write_id"

definition times_recorded :: "'w dq_ops \<Rightarrow> ('w \<Rightarrow> string list) \<Rightarrow> string \<Rightarrow> 'w \<Rightarrow> nat" where
  "times_recorded ops log write_id w = length (filter (own_commit ops write_id) (log w))"

definition others_write :: "'w dq_ops \<Rightarrow> ('w \<Rightarrow> string list) \<Rightarrow> string \<Rightarrow> 'w \<Rightarrow> 'w \<Rightarrow> bool" where
  "others_write ops log write_id w w' \<longleftrightarrow>
     (\<exists>others. log w' = log w @ others \<and> (\<forall>c \<in> set others. \<not> own_commit ops write_id c))"

definition dq_world_ok :: "'w dq_ops \<Rightarrow> ('w \<Rightarrow> string list) \<Rightarrow> string \<Rightarrow> bool" where
  "dq_world_ok ops log write_id \<longleftrightarrow>
     (\<forall>t rows props w r w'. do_append ops t rows props w = (r, w')
        \<and> map_of (cp_metadata props) kafka_write_id = Some (JStr write_id) \<longrightarrow>
        (\<exists>before mine after. log w' = log w @ before @ mine @ after
           \<and> (\<forall>c \<in> set before \<union> set after. \<not> own_commit ops write_id c)
           \<and> (mine = [] \<or> (\<exists>c. mine = [c] \<and> own_commit ops write_id c))
           \<and> (\<forall>t'. r = Inr t' \<longrightarrow> mine \<noteq> [])))
     \<and> (\<forall>w r w'. do_open ops w = (r, w') \<longrightarrow> others_write ops log write_id w w'
          \<and> (\<forall>t. r = Inr t \<longrightarrow> (\<exists>h. dt_version t = Some h \<and> length (log w) \<le> Suc h \<and> h < length (log w'))))
     \<and> (\<forall>t v w r w'. do_read ops t v w = (r, w') \<longrightarrow> others_write ops log write_id w w'
          \<and> (v < length (log w) \<longrightarrow> r = Inr (Some (log w ! v)) \<or> (\<exists>e. r = Inl e)))"

lemma dq_world_ok_append:
  assumes "dq_world_ok ops log i" and "do_append ops t rows props w = (r, w')"
    and "map_of (cp_metadata props) kafka_write_id = Some (JStr i)"
  shows "\<exists>before mine after. log w' = log w @ before @ mine @ after
     \<and> (\<forall>c \<in> set before \<union> set after. \<not> own_commit ops i c)
     \<and> (mine = [] \<or> (\<exists>c. mine = [c] \<and> own_commit ops i c)) \<and> (\<forall>t'. r = Inr t' \<longrightarrow> mine \<noteq> [])"
  using assms(1) [unfolded dq_world_ok_def, THEN conjunct1, rule_format, OF conjI, OF assms(2,3)] .

lemma dq_world_ok_open:
  assumes "dq_world_ok ops log i" and "do_open ops w = (r, w')"
  shows "others_write ops log i w w'
    \<and> (\<forall>t. r = Inr t \<longrightarrow> (\<exists>h. dt_version t = Some h \<and> length (log w) \<le> Suc h \<and> h < length (log w')))"
  using assms(1) [unfolded dq_world_ok_def, THEN conjunct2, THEN conjunct1, rule_format, OF assms(2)] by simp

definition loaded :: "('w \<Rightarrow> string list) \<Rightarrow> 'w \<Rightarrow> dq_table \<Rightarrow> bool" where
  "loaded log w t \<longleftrightarrow> (case dt_version t of Some v \<Rightarrow> v < length (log w) | None \<Rightarrow> True)"

lemma others_write_refl [simp]: "others_write ops log i w w"
  by (auto simp: others_write_def intro: exI [of _ "[]"])

lemma others_write_trans:
  assumes "others_write ops log i w w'" and "others_write ops log i w' w''"
  shows "others_write ops log i w w''"
proof -
  obtain xs where xs: "log w' = log w @ xs" "\<forall>c \<in> set xs. \<not> own_commit ops i c"
    using assms(1) by (auto simp: others_write_def)
  obtain ys where ys: "log w'' = log w' @ ys" "\<forall>c \<in> set ys. \<not> own_commit ops i c"
    using assms(2) by (auto simp: others_write_def)
  have "log w'' = log w @ (xs @ ys)" "\<forall>c \<in> set (xs @ ys). \<not> own_commit ops i c"
    using xs ys by auto
  then show ?thesis unfolding others_write_def by blast
qed

lemma others_write_count:
  "others_write ops log i w w' \<Longrightarrow> times_recorded ops log i w' = times_recorded ops log i w"
  by (auto simp: others_write_def times_recorded_def filter_empty_conv)

lemma others_write_nth:
  "others_write ops log i w w' \<Longrightarrow> v < length (log w) \<Longrightarrow> v < length (log w') \<and> log w' ! v = log w ! v"
  by (auto simp: others_write_def nth_append)

lemma landed_from_finds:
  assumes ok: "dq_world_ok ops log i"
  shows "landed_from ops t i vs w = (r, w') \<Longrightarrow> \<forall>v \<in> set vs. v < length (log w) \<Longrightarrow>
    others_write ops log i w w' \<and> (\<forall>b. r = Inr b \<longrightarrow> (b \<longleftrightarrow> (\<exists>v \<in> set vs. own_commit ops i (log w ! v))))"
proof (induction vs arbitrary: w)
  case (Cons v vs)
  obtain x w1 where rd: "do_read ops t v w = (x, w1)" by fastforce
  with ok Cons.prems(2) have ow: "others_write ops log i w w1"
    and x: "x = Inr (Some (log w ! v)) \<or> (\<exists>e. x = Inl e)" by (auto simp: dq_world_ok_def)
  note same = others_write_nth [OF ow]
  show ?case
  proof (cases "\<exists>e. x = Inl e \<or> own_commit ops i (log w ! v)")
    case True
    with Cons.prems rd ow x show ?thesis by (auto simp: own_commit_def)
  next
    case False
    with Cons.prems(1) rd x have go: "landed_from ops t i vs w1 = (r, w')" by (auto simp: own_commit_def)
    from Cons.IH [OF go] Cons.prems(2) same
    have "others_write ops log i w1 w' \<and> (\<forall>b. r = Inr b \<longrightarrow> (b \<longleftrightarrow> (\<exists>v \<in> set vs. own_commit ops i (log w1 ! v))))"
      by simp
    moreover have "\<forall>v \<in> set vs. log w1 ! v = log w ! v" using Cons.prems(2) same by simp
    ultimately show ?thesis using others_write_trans [OF ow] False by auto
  qed
qed auto

text \<open>One attempt, and what \<open>landed\<close> answers after the table was reopened.\<close>

lemma append_once:
  assumes ok: "dq_world_ok ops log i" and zero: "times_recorded ops log i w = 0"
    and app: "do_append ops t rows props w = (r, w1)"
    and props: "map_of (cp_metadata props) kafka_write_id = Some (JStr i)"
  shows "times_recorded ops log i w1 \<le> 1 \<and> (\<forall>t'. r = Inr t' \<longrightarrow> times_recorded ops log i w1 = 1)
    \<and> length (log w) \<le> length (log w1)
    \<and> (\<forall>v < length (log w1). own_commit ops i (log w1 ! v) \<longrightarrow> length (log w) \<le> v)
    \<and> (times_recorded ops log i w1 \<noteq> 0 \<longleftrightarrow> (\<exists>v < length (log w1). own_commit ops i (log w1 ! v)))"
proof -
  from ok app props obtain before mine after where l: "log w1 = log w @ before @ mine @ after"
    and foreign: "\<forall>c \<in> set before \<union> set after. \<not> own_commit ops i c"
    and mine: "mine = [] \<or> (\<exists>c. mine = [c] \<and> own_commit ops i c)"
    and fin: "\<forall>t'. r = Inr t' \<longrightarrow> mine \<noteq> []"
    using dq_world_ok_append [OF ok app props] by blast
  have z: "filter (own_commit ops i) (log w) = []" using zero by (simp add: times_recorded_def)
  have f: "filter (own_commit ops i) (log w1) = mine"
    using l foreign mine z by (auto simp: filter_empty_conv)
  have none: "\<not> own_commit ops i (log w1 ! v)" if "v < length (log w)" for v
    using that z l by (simp add: nth_append filter_empty_conv)
  have some: "(\<exists>c \<in> set xs. P c) \<longleftrightarrow> (\<exists>v < length xs. P (xs ! v))" for xs :: "string list" and P
    by (metis in_set_conv_nth)
  have iff: "times_recorded ops log i w1 \<noteq> 0 \<longleftrightarrow> (\<exists>v < length (log w1). own_commit ops i (log w1 ! v))"
    unfolding times_recorded_def length_0_conv filter_empty_conv some [symmetric] by simp
  have count: "times_recorded ops log i w1 = length mine" by (simp add: times_recorded_def f)
  have "length mine \<le> 1" using mine by auto
  moreover have "\<forall>t'. r = Inr t' \<longrightarrow> length mine = 1" using fin mine by auto
  moreover have "length (log w) \<le> length (log w1)" by (simp add: l)
  moreover have "\<forall>v < length (log w1). own_commit ops i (log w1 ! v) \<longrightarrow> length (log w) \<le> v"
    using none leI by blast
  ultimately show ?thesis using iff unfolding count by blast
qed

lemma landed_after_append:
  assumes ok: "dq_world_ok ops log i" and zero: "times_recorded ops log i w = 0"
    and at: "loaded log w t"
    and app: "do_append ops t rows props w = (r, w1)"
    and props: "map_of (cp_metadata props) kafka_write_id = Some (JStr i)"
    and op: "do_open ops w1 = (Inr t2, w2)"
    and la: "dq_landed ops (dq\<lparr>dq_table := t2\<rparr>) (dt_version t) i w2 = (ans, w3)"
  shows "times_recorded ops log i w3 = times_recorded ops log i w1 \<and> loaded log w3 t2
    \<and> (\<forall>b. ans = Inr b \<longrightarrow> (b \<longleftrightarrow> times_recorded ops log i w1 \<noteq> 0))"
proof -
  note a = append_once [OF ok zero app props]
  from ok op obtain h where ow: "others_write ops log i w1 w2"
    and h: "dt_version t2 = Some h" "length (log w1) \<le> Suc h" "h < length (log w2)"
    using dq_world_ok_open [OF ok op] by blast
  let ?from = "case dt_version t of None \<Rightarrow> 0 | Some v \<Rightarrow> v + 1"
  have fr: "?from \<le> length (log w)" using at by (auto simp: loaded_def split: option.splits)
  have "landed_from ops t2 i (rev [?from..<Suc h]) w2 = (ans, w3)"
    using la h(1) by (simp add: dq_landed_def)
  note found = landed_from_finds [OF ok this]
  have range: "set (rev [?from..<Suc h]) = {?from..<Suc h}" by (simp only: set_rev set_upt)
  have "\<forall>v \<in> {?from..<Suc h}. v < length (log w2)" using Suc_leI [OF h(3)] by (meson atLeastLessThan_iff less_le_trans)
  with found have ow3: "others_write ops log i w2 w3"
    and ans: "\<forall>b. ans = Inr b \<longrightarrow> (b \<longleftrightarrow> (\<exists>v \<in> {?from..<Suc h}. own_commit ops i (log w2 ! v)))"
    unfolding range by blast+
  obtain xs where xs: "log w2 = log w1 @ xs" "\<forall>c \<in> set xs. \<not> own_commit ops i c"
    using ow by (auto simp: others_write_def)
  have own: "own_commit ops i (log w2 ! v) \<longleftrightarrow> v < length (log w1) \<and> own_commit ops i (log w1 ! v)"
    if "v < Suc h" for v
    using that h(3) xs by (auto simp: nth_append)
  have "(\<exists>v \<in> {?from..<Suc h}. own_commit ops i (log w2 ! v)) \<longleftrightarrow> (\<exists>v < length (log w1). own_commit ops i (log w1 ! v))"
  proof
    assume "\<exists>v < length (log w1). own_commit ops i (log w1 ! v)"
    then obtain v where v: "v < length (log w1)" "own_commit ops i (log w1 ! v)" by blast
    with a h fr have "v \<in> {?from..<Suc h}" by auto
    with v own show "\<exists>v \<in> {?from..<Suc h}. own_commit ops i (log w2 ! v)" by auto
  qed (use own in auto)
  moreover have "times_recorded ops log i w3 = times_recorded ops log i w1"
    using others_write_count [OF ow] others_write_count [OF ow3] by simp
  moreover have "loaded log w3 t2" using others_write_nth [OF ow3 h(3)] h(1) by (simp add: loaded_def)
  ultimately show ?thesis using ans a by simp
qed

lemma kafka_properties_id:
  "map_of (cp_metadata (dq_kafka_properties dq o' i conf)) kafka_write_id = Some (JStr i)"
  by (cases conf) (simp add: dq_kafka_properties_def kafka_write_id_def Let_def)

lemma try_write_cases:
  assumes "try_write_kafka ops dq batch o' i w = (r, dq1, w1)"
  obtains (refused) e where "r = Inl (Failed e)" "dq1 = dq" "w1 = w"
  | (wrote) t props where "do_append ops (dq_table dq) batch props w = (Inr t, w1)"
      "map_of (cp_metadata props) kafka_write_id = Some (JStr i)" "r = Inr ()" "dq1 = dq\<lparr>dq_table := t\<rparr>"
  | (broke) e props a where "do_append ops (dq_table dq) batch props w = (Inl e, w1)"
      "map_of (cp_metadata props) kafka_write_id = Some (JStr i)" "r = Inl a" "\<forall>c. a \<noteq> Failed c" "dq1 = dq"
proof (cases "\<exists>e. r = Inl (Failed e)")
  case True
  with assms refused show ?thesis
    by (auto simp: try_write_kafka_def split: sum.splits prod.splits if_splits)
next
  case False
  then obtain conf x where a: "do_append ops (dq_table dq) batch (dq_kafka_properties dq o' i conf) w = (x, w1)"
    and r: "(r, dq1) = (case x of Inr t \<Rightarrow> (Inr (), dq\<lparr>dq_table := t\<rparr>)
      | Inl e \<Rightarrow> (Inl (if dq_is_conflict e then Conflict e
               else Ambiguous (classify_delta e ''data-quality: writing rejects'')), dq))"
    using assms by (auto simp: try_write_kafka_def split: sum.splits prod.splits)
  show ?thesis
  proof (cases x)
    case (Inl e)
    with a r broke kafka_properties_id show ?thesis by (simp split: if_splits)
  next
    case (Inr t)
    with a r wrote kafka_properties_id show ?thesis by simp
  qed
qed

text \<open>Every way the loop can end, by how often its own commit is then in the log.\<close>

definition recorded_as :: "nat \<Rightarrow> nat \<Rightarrow> nat res \<Rightarrow> bool" where
  "recorded_as rows recs r \<longleftrightarrow>
     recs \<le> 1
     \<and> (case r of
          Inr n \<Rightarrow> n = rows \<and> recs = 1
        | Inl (E_DataQualityConflict _ _ _ _) \<Rightarrow> recs = 0
        | Inl _ \<Rightarrow> True)"

lemma recorded_as_simps [simp]:
  "recorded_as rows recs (Inr n) \<longleftrightarrow> n = rows \<and> recs = 1"
  "recorded_as rows recs (Inl (unwritable dq k cause)) \<longleftrightarrow> recs \<le> 1"
  "recorded_as rows recs (Inl (E_DataQualityConflict a b c d)) \<longleftrightarrow> recs = 0"
  by (auto simp: recorded_as_def unwritable_def)

lemma write_kafka_round:
  assumes ok: "dq_world_ok ops log i" and zero: "times_recorded ops log i w = 0"
    and at: "loaded log w (dq_table dq)"
    and run: "write_kafka_loop left ops dq rows batch o' i w = (r, dq', w')"
    and again: "\<And>n dq2 w3. left = Suc n \<Longrightarrow> times_recorded ops log i w3 = 0 \<Longrightarrow> loaded log w3 (dq_table dq2) \<Longrightarrow>
      write_kafka_loop n ops dq2 rows batch o' i w3 = (r, dq', w') \<Longrightarrow>
      recorded_as rows (times_recorded ops log i w') r"
  shows "recorded_as rows (times_recorded ops log i w') r"
proof -
  obtain x dq1 w1 where t: "try_write_kafka ops dq batch o' i w = (x, dq1, w1)" by (metis surj_pair)
  obtain y w2 where op: "do_open ops w1 = (y, w2)" by fastforce
  have count2: "times_recorded ops log i w2 = times_recorded ops log i w1"
    by (rule others_write_count [OF dq_world_ok_open [OF ok op, THEN conjunct1]])
  from t show ?thesis
  proof (cases rule: try_write_cases)
    case (refused e)
    with run t op zero count2 show ?thesis
      by (subst (asm) write_kafka_loop.simps) (auto simp: Let_def split: sum.splits)
  next
    case (wrote t' props)
    with append_once [OF ok zero wrote(1,2)] have "times_recorded ops log i w1 = 1" by simp
    with run t wrote show ?thesis by (subst (asm) write_kafka_loop.simps) (auto simp: Let_def)
  next
    case (broke e0 props a)
    note app = broke(1) and props = broke(2) and x = broke(3) and dq1 = broke(5)
    note once = append_once [OF ok zero app props]
    note landed = landed_after_append [OF ok zero at app props]
    show ?thesis
    proof (cases y)
      case (Inl cause)
      with run t op x dq1 once count2 broke(4) show ?thesis
        by (subst (asm) write_kafka_loop.simps) (cases a, auto simp: Let_def)
    next
      case (Inr t2)
      obtain ans w3 where la: "dq_landed ops (dq\<lparr>dq_table := t2\<rparr>) (dt_version (dq_table dq)) i w2 = (ans, w3)" by fastforce
      note l = landed [OF op [unfolded Inr] la]
      show ?thesis
      proof (cases a)
        case (Ambiguous e)
        with run t op x dq1 Inr la once l show ?thesis
          by (subst (asm) write_kafka_loop.simps) (auto simp: Let_def split: sum.splits bool.splits)
      next
        case (Conflict e)
        show ?thesis
        proof (cases "ans = Inr False \<and> left \<noteq> 0")
          case True
          then obtain n where n: "left = Suc n" by (cases left) auto
          with True run t op x dq1 Inr la Conflict
          have "write_kafka_loop n ops (dq\<lparr>dq_table := t2, dq_retries := u64_add (dq_retries dq) 1\<rparr>) rows batch o' i w3
              = (r, dq', w')"
            by (subst (asm) write_kafka_loop.simps) (simp add: Let_def)
          moreover have "times_recorded ops log i w1 = 0"
            using l [THEN conjunct2, THEN conjunct2, rule_format, of False] True by blast
          ultimately show ?thesis using again [OF n, of w3 "dq\<lparr>dq_table := t2, dq_retries := u64_add (dq_retries dq) 1\<rparr>"] l
            by simp
        next
          case False
          with run t op x dq1 Inr la Conflict once l show ?thesis
            by (subst (asm) write_kafka_loop.simps)
              (auto simp: Let_def split: sum.splits bool.splits nat.splits)
        qed
      qed (use broke(4) in blast)
    qed
  qed
qed

lemma write_kafka_loop_once:
  assumes ok: "dq_world_ok ops log i"
  shows "times_recorded ops log i w = 0 \<Longrightarrow> loaded log w (dq_table dq) \<Longrightarrow>
    write_kafka_loop left ops dq rows batch o' i w = (r, dq', w') \<Longrightarrow>
    recorded_as rows (times_recorded ops log i w') r"
proof (induction left arbitrary: dq w)
  case (0 dq w)
  show ?case by (rule write_kafka_round [OF ok 0(1,2,3)]) simp_all
next
  case (Suc n dq w)
  show ?case by (rule write_kafka_round [OF ok Suc.prems(1,2,3)]) (use Suc.IH in simp_all)
qed

section \<open>Properties\<close>

text \<open>
  C38. A Kafka batch's rejects are recorded at most once by one write, whatever its attempts came to: a
  commit that landed though it was reported as failed or as a conflict is found in the log instead
  of being made again. A write that returns has recorded them exactly once, and one that gives up on
  conflicts has not recorded them at all, so the batch can be tried again.
\<close>

theorem rejects_recorded_at_most_once:
  assumes "dq_world_ok ops log write_id" and "times_recorded ops log write_id w = 0" and "loaded log w (dq_table dq)"
    and "dq_write_kafka ops dq rejected o' now write_id w = (r, dq', w')"
  shows "times_recorded ops log write_id w' \<le> 1
    \<and> (case r of
         Inr n \<Rightarrow> n = sum_list (map rejected_len rejected) \<and> times_recorded ops log write_id w' = (if n = 0 then 0 else 1)
       | Inl (E_DataQualityConflict _ _ _ _) \<Rightarrow> times_recorded ops log write_id w' = 0
       | Inl _ \<Rightarrow> True)"
proof -
  define n where "n = sum_list (map rejected_len rejected)"
  note run = assms(4) [unfolded dq_write_kafka_def Let_def, folded n_def]
  have "times_recorded ops log write_id w' \<le> 1
      \<and> (case r of Inr k \<Rightarrow> k = n \<and> times_recorded ops log write_id w' = (if k = 0 then 0 else 1)
         | Inl (E_DataQualityConflict _ _ _ _) \<Rightarrow> times_recorded ops log write_id w' = 0
         | Inl _ \<Rightarrow> True)"
  proof (cases "n = 0")
    case True
    with run assms(2) show ?thesis by auto
  next
    case False
    show ?thesis
    proof (cases "dq_kafka_batch dq rejected (ko_ranges o') now")
      case (Inl cause)
      with False run assms(2) show ?thesis by (auto simp: unwritable_def)
    next
      case (Inr batch)
      with False run have "write_kafka_loop kafka_conflict_retries ops dq n batch o' write_id w = (r, dq', w')" by simp
      from write_kafka_loop_once [OF assms(1-3) this] False show ?thesis
        by (auto simp: recorded_as_def split: sum.splits error.splits)
    qed
  qed
  then show ?thesis by (simp only: n_def)
qed

text \<open>
  A world to run it in: the log, and how the next appends go. A commit is its write id; an append may
  land and still be answered with an error.
\<close>

definition line_of :: "string \<Rightarrow> json list" where
  "line_of bytes = [JObj [(''commitInfo'', JObj [(kafka_write_id, JStr bytes)])]]"

definition example_dq_table :: "version \<Rightarrow> dq_table" where
  "example_dq_table v = \<lparr>dt_version = Some v, dt_snapshot = True, dt_protocol = Some (JObj []), dt_refused = Inr (),
     dt_config = Inr (False, 10)\<rparr>"

definition id_of_props :: "commit_properties \<Rightarrow> string" where
  "id_of_props props = (case map_of (cp_metadata props) kafka_write_id of Some (JStr i) \<Rightarrow> i | _ \<Rightarrow> [])"

definition example_dq_ops :: "(string list \<times> (bool \<times> delta_error option) list) dq_ops" where
  "example_dq_ops =
     \<lparr>do_open = (\<lambda>(l, f). if l = [] then (Inl E_Io, (l, f)) else (Inr (example_dq_table (length l - 1)), (l, f))),
      do_append = (\<lambda>t rows props (l, f).
        case f of
          [] \<Rightarrow> (Inr (example_dq_table (length l)), (l @ [id_of_props props], []))
        | (lands, answer) # f' \<Rightarrow>
            let l' = (if lands then l @ [id_of_props props] else l)
            in (case answer of Some e \<Rightarrow> (Inl e, (l', f'))
                | None \<Rightarrow> (Inr (example_dq_table (length l)), (l @ [id_of_props props], f')))),
      do_read = (\<lambda>t v (l, f). (if v < length l then Inr (Some (l ! v)) else Inr None, (l, f))),
      do_txn = (\<lambda>t i w. (Inr None, w)), do_session = (\<lambda>_. Inr ()), do_json = line_of,
      do_in_memory = example_dq_table 0\<rparr>"

lemma own_commit_example: "own_commit example_dq_ops i c \<longleftrightarrow> c = i"
  by (simp add: own_commit_def example_dq_ops_def line_of_def write_id_of_def)

lemma example_dq_world_ok: "dq_world_ok example_dq_ops fst i"
  unfolding dq_world_ok_def
proof (intro conjI allI impI)
  fix t rows props w r w'
  assume a: "do_append example_dq_ops t rows props w = (r, w') \<and> map_of (cp_metadata props) kafka_write_id = Some (JStr i)"
  then have i: "id_of_props props = i" by (simp add: id_of_props_def)
  obtain l f where w: "w = (l, f)" by fastforce
  from a i have "fst w' = l @ [] @ [i] @ [] \<or> (fst w' = l @ [] @ [] @ [] \<and> (\<exists>e. r = Inl e))"
    by (auto simp: w example_dq_ops_def Let_def split: list.splits option.splits if_splits)
  then show "\<exists>before mine after. fst w' = fst w @ before @ mine @ after
      \<and> (\<forall>c \<in> set before \<union> set after. \<not> own_commit example_dq_ops i c)
      \<and> (mine = [] \<or> (\<exists>c. mine = [c] \<and> own_commit example_dq_ops i c)) \<and> (\<forall>t'. r = Inr t' \<longrightarrow> mine \<noteq> [])"
  proof
    assume "fst w' = l @ [] @ [i] @ []"
    then show ?thesis by - (rule exI [of _ "[]"], rule exI [of _ "[i]"], rule exI [of _ "[]"], simp add: w own_commit_example)
  next
    assume "fst w' = l @ [] @ [] @ [] \<and> (\<exists>e. r = Inl e)"
    then show ?thesis by (intro exI [of _ "[]"]) (auto simp: w own_commit_example)
  qed
qed (auto simp: example_dq_ops_def others_write_def example_dq_table_def split: if_splits)

definition example_dq :: data_quality where
  "example_dq = \<lparr>dq_app_id = ''a'', dq_dq_app_id = ''a.dq'', dq_pipeline = ''p'', dq_uri = ''t__ddi_dq'',
     dq_table = example_dq_table 0, dq_prefix = ''kafka_'', dq_retries = 0\<rparr>"

definition example_rejected :: rejected where
  "example_rejected = \<lparr>rj_columns = [None], rj_reasons = [''bad''], rj_ints = (\<lambda>_. None), rj_payloads = [None]\<rparr>"

definition example_ko :: kafka_offsets where
  "example_ko = \<lparr>ko_topic = ''t'', ko_group_id = ''g'', ko_ranges = [(0, 5, 7)], ko_assert = [(0, 7)], ko_marks = [],
     ko_cleanup_logs = False, ko_baseline = False, ko_override_reason = None, ko_takeover_marker = False\<rparr>"

theorem rejects_recorded_at_most_once_witness:
  "\<exists>dq' w'. dq_write_kafka example_dq_ops example_dq [example_rejected] example_ko 0 ''w1''
       ([''other''], [(True, Some (DeltaError (DK_Transaction (TE_CommitConflict ConcurrentTransaction)) []))])
     = (Inr 1, dq', w') \<and> times_recorded example_dq_ops fst ''w1'' w' = 1"
proof -
  let ?w = "([''other''], [(True, Some (DeltaError (DK_Transaction (TE_CommitConflict ConcurrentTransaction)) []))])"
  have z: "times_recorded example_dq_ops fst ''w1'' ?w = 0" by (simp add: times_recorded_def own_commit_example)
  have l: "loaded fst ?w (dq_table example_dq)" by (simp add: loaded_def example_dq_def example_dq_table_def)
  obtain dq' w' where r: "dq_write_kafka example_dq_ops example_dq [example_rejected] example_ko 0 ''w1'' ?w = (Inr 1, dq', w')"
    by (simp add: dq_write_kafka_def rejected_len_def example_rejected_def dq_kafka_batch_def coordinates_def assemble_def
        write_kafka_loop.simps kafka_conflict_retries_def try_write_kafka_def example_dq_def example_dq_table_def
        example_dq_ops_def dq_is_conflict_def dq_landed_def example_ko_def dq_kafka_properties_def id_of_props_def
        kafka_write_id_def line_of_def write_id_of_def Let_def)
  from rejects_recorded_at_most_once [OF example_dq_world_ok z l r] r show ?thesis by auto
qed

text \<open>
  What delta-rs and the store answer about a \<open>txn\<close>: \<open>stored w i\<close> is its version in the world \<open>w\<close>,
  a write that succeeds has committed its own, and only this pipeline writes its data-quality
  \<open>txn\<close>.
\<close>

definition dq_txn_ok :: "'w dq_ops \<Rightarrow> ('w \<Rightarrow> string \<Rightarrow> int option) \<Rightarrow> string \<Rightarrow> bool" where
  "dq_txn_ok ops stored i \<longleftrightarrow>
     (\<forall>t w r w'. do_txn ops t i w = (r, w') \<longrightarrow> stored w' i = stored w i \<and> (\<forall>s. r = Inr s \<longrightarrow> s = stored w i))
     \<and> (\<forall>w r w'. do_open ops w = (r, w') \<longrightarrow> stored w' i = stored w i)
     \<and> (\<forall>t rows props w t' w'. do_append ops t rows props w = (Inr t', w') \<longrightarrow>
          stored w' i = txn_after props (stored w) i \<and> dt_snapshot t')"

text \<open>
  A Delta batch's rejects are not written twice: once they are recorded for a source version, every
  later write for that very version, by this process or one that opened the table anew, finds them
  and writes nothing; a write for any other version, an earlier one of a source that started over
  included, is not taken for a repeat.
\<close>

lemma recorded_rejects_are_not_repeated:
  assumes "dq_txn_ok ops stored (dq_dq_app_id dq)"
    and "dq_write ops dq rejected v now w = (Inr n, dq', w')" and "0 < n"
    and "dq_dq_app_id dq2 = dq_dq_app_id dq" and "dt_snapshot (dq_table dq2)"
  shows "stored w' (dq_dq_app_id dq) = Some v
    \<and> (\<forall>rejected2 now2 r dq3 w3. dq_write ops dq2 rejected2 v now2 w' = (r, dq3, w3) \<longrightarrow>
         (r = Inr 0 \<or> (\<exists>e. r = Inl e)) \<and> dq3 = dq2 \<and> stored w3 (dq_dq_app_id dq) = Some v)
    \<and> (\<forall>u b w3. already_recorded ops dq2 u w' = (Inr b, w3) \<longrightarrow> (b \<longleftrightarrow> u = v))"
proof -
  let ?i = "dq_dq_app_id dq"
  from assms(2,3) obtain w1 t where app: "do_append ops (dq_table dq) t (dq_properties dq v) w1 = (Inr (dq_table dq'), w')"
    by (auto simp: dq_write_def Let_def split: if_splits prod.splits sum.splits bool.splits)
  with assms(1) have "stored w' ?i = txn_after (dq_properties dq v) (stored w1) ?i"
    unfolding dq_txn_ok_def by blast
  then have st: "stored w' ?i = Some v" by (simp add: txn_after_def dq_properties_def)
  have rec: "stored w3 ?i = Some v \<and> (\<forall>b. r = Inr b \<longrightarrow> (b \<longleftrightarrow> u = v))"
    if a: "already_recorded ops dq2 u w' = (r, w3)" for u r w3
  proof -
    obtain x where x: "do_txn ops (dq_table dq2) ?i w' = (x, w3)"
      and r: "r = (case x of Inl e \<Rightarrow> Inl (E_Delta e) | Inr s \<Rightarrow> Inr (s = Some u))"
      using a assms(4,5) by (auto simp: already_recorded_def split: prod.splits sum.splits)
    from assms(1) x have "stored w3 ?i = stored w' ?i" "\<forall>s. x = Inr s \<longrightarrow> s = stored w' ?i"
      unfolding dq_txn_ok_def by blast+
    with st r show ?thesis by (auto split: sum.splits)
  qed
  have "(r = Inr 0 \<or> (\<exists>e. r = Inl e)) \<and> dq3 = dq2 \<and> stored w3 ?i = Some v"
    if run: "dq_write ops dq2 rejected2 v now2 w' = (r, dq3, w3)" for rejected2 now2 r dq3 w3
  proof (cases "sum_list (map rejected_len rejected2) = 0")
    case True
    with run st show ?thesis by (auto simp: dq_write_def)
  next
    case False
    obtain a w4 where a: "already_recorded ops dq2 v w' = (a, w4)" by fastforce
    from rec [OF a] have "stored w4 ?i = Some v" "a \<noteq> Inr False" by auto
    with run a False show ?thesis
      by (auto simp: dq_write_def Let_def simp del: sum_list_eq_0_iff split: sum.splits bool.splits)
  qed
  with st rec show ?thesis by blast
qed

definition example_txn_ops :: "(string \<Rightarrow> int option) dq_ops" where
  "example_txn_ops =
     \<lparr>do_open = (\<lambda>w. (Inr (example_dq_table 0), w)),
      do_append = (\<lambda>t rows props w. (Inr (example_dq_table 0), txn_after props w)),
      do_read = (\<lambda>t v w. (Inr None, w)), do_txn = (\<lambda>t i w. (Inr (w i), w)), do_session = (\<lambda>_. Inr ()),
      do_json = (\<lambda>_. []), do_in_memory = example_dq_table 0\<rparr>"

lemma recorded_rejects_are_not_repeated_witness:
  "\<exists>dq' w'. dq_write example_txn_ops example_dq [example_rejected] 500 0 Map.empty = (Inr 1, dq', w')
     \<and> w' ''a.dq'' = Some 500 \<and> already_recorded example_txn_ops dq' 499 w' = (Inr False, w')"
proof -
  have ok: "dq_txn_ok example_txn_ops (\<lambda>w. w) (dq_dq_app_id example_dq)"
    by (auto simp: dq_txn_ok_def example_txn_ops_def example_dq_table_def)
  obtain dq' w' where r: "dq_write example_txn_ops example_dq [example_rejected] 500 0 Map.empty = (Inr 1, dq', w')"
      "dq_dq_app_id dq' = dq_dq_app_id example_dq" "dt_snapshot (dq_table dq')"
    by (simp add: dq_write_def rejected_len_def example_rejected_def already_recorded_def example_dq_def
        example_dq_table_def example_txn_ops_def dq_batch_def assemble_def)
  have i: "dq_dq_app_id dq' = ''a.dq''" using r(2) by (simp add: example_dq_def)
  have "already_recorded example_txn_ops dq' 499 w' = (Inr (w' ''a.dq'' = Some 499), w')"
    using r(3) i by (simp add: already_recorded_def example_txn_ops_def)
  with recorded_rejects_are_not_repeated [OF ok r(1) _ r(2,3)] r(1) i r(2) show ?thesis by auto
qed

end
