(* ===== verification/Pipeline.thy ===== *)
theory Pipeline
  imports Quality Offset Log_Stream
begin

text \<open>
  \<open>src/pipeline.rs\<close>: one step of a pipeline over a Delta source, from the poll of its log to the
  commit that records what was read. What is not this crate's or works on Arrow rows, the reading of
  files, the transform, the casts, the cut-off's filter, the merge and the tables, is a parameter
  (\<open>stages\<close>, \<open>step_env\<close>). Log lines, gauges and timings are left out.
\<close>

section \<open>What a step comes to\<close>

datatype step_outcome =
    CaughtUp
  | Progressed (through_version: version) (o_files: nat) (o_rows: nat) (o_target: "version option")
      (o_upsert: "upsert_stats option") (o_rejected: nat) (o_unevaluable: nat) (o_reevaluations: nat)
      (o_covered: nat)
  | Skipped (through_version: version) (o_rejected: nat) (o_unevaluable: nat) (o_reevaluations: nat)
      (o_covered: nat)
  | Waiting

definition fully_rejected :: "step_outcome \<Rightarrow> bool" where
  "fully_rejected r =
     (case r of
        CaughtUp \<Rightarrow> False
      | Waiting \<Rightarrow> False
      | Progressed _ _ rows _ _ rejected _ _ covered \<Rightarrow> rejected > 0 \<and> rows = 0 \<and> covered = 0
      | Skipped _ rejected _ _ covered \<Rightarrow> rejected > 0 \<and> covered = 0)"

section \<open>The coverage window\<close>

record coverage_window =
  cw_reason :: coverage_reason
  cw_through :: "version option"
  cw_resumed :: bool

text \<open>A cut-off: the watermark's filter \<open>'d\<close>, the columns it is kept per value of, and its window.\<close>

record 'd cutoff =
  cu_dedup :: 'd
  cu_partition_columns :: "string list"
  cu_window :: coverage_window
  cu_skipped :: nat

definition cutoff_recorded :: "'d cutoff \<Rightarrow> recorded_cutoff" where
  "cutoff_recorded c =
     \<lparr>rc_reason = cw_reason (cu_window c), rc_source_through = cw_through (cu_window c),
      rc_partition_columns = cu_partition_columns c\<rparr>"

definition cutoff_applies :: "version \<Rightarrow> stream_cursor \<Rightarrow> bool" where
  "cutoff_applies through cursor \<longleftrightarrow> cursor_version cursor \<le> through"

definition window_closes_after :: "version option \<Rightarrow> stream_cursor \<Rightarrow> nat \<Rightarrow> bool" where
  "window_closes_after through end_at beyond \<longleftrightarrow>
     beyond > 0 \<or> (case through of Some h \<Rightarrow> \<not> cutoff_applies h end_at | None \<Rightarrow> False)"

section \<open>Lookups\<close>

record lookup_snapshot =
  ln_name :: string
  ln_version :: version
  ln_table_id :: "string option"
  ln_used_pre_history :: bool
  ln_used_current :: bool

record lookup_transition =
  lt_name :: string
  lt_table_id :: string

record lookup_batch =
  lk_snapshots :: "lookup_snapshot list"
  lk_transitions :: "lookup_transition list"

definition lookup_none :: lookup_batch where
  "lookup_none = \<lparr>lk_snapshots = [], lk_transitions = []\<rparr>"

text \<open>A configured lookup: its name, whether its policy is strict, and \<open>ResolvedLookup::snapshots\<close>.\<close>

record lookup =
  lo_name :: string
  lo_strict :: bool
  lo_snapshots :: "nat \<Rightarrow> (lookup_snapshot \<times> lookup_snapshot) res" \<comment> \<open>selected and head\<close>

definition lookup_table_id_changed :: "string \<Rightarrow> string \<Rightarrow> string \<Rightarrow> bool \<Rightarrow> bool" where
  "lookup_table_id_changed expected selected head history_unavailable \<longleftrightarrow>
     history_unavailable \<or> selected \<noteq> expected \<or> head \<noteq> expected"

definition apply_transition ::
    "(string, string) bmap \<times> string bset \<Rightarrow> lookup_transition \<Rightarrow> (string, string) bmap \<times> string bset" where
  "apply_transition = (\<lambda>(ids, on_open) t. (bt_insert (lt_name t) (lt_table_id t) ids, bs_remove (lt_name t) on_open))"

definition apply_lookup_table_id_transitions ::
    "(string, string) bmap \<Rightarrow> string bset \<Rightarrow> lookup_transition list \<Rightarrow> (string, string) bmap \<times> string bset" where
  "apply_lookup_table_id_transitions ids on_open ts = foldl apply_transition (ids, on_open) ts"

definition select_lookup ::
    "(string, string) bmap \<Rightarrow> string bset \<Rightarrow> nat \<Rightarrow> lookup \<Rightarrow> (lookup_snapshot \<times> lookup_transition list) res" where
  "select_lookup ids on_open timestamp lookup =
     res_bind (lo_snapshots lookup timestamp) (\<lambda>(selected, head).
     let name = ln_name selected in
     res_bind (ok_or (E_Config ''lookup was not present when the pipeline opened'') (bt_get ids name)) (\<lambda>expected.
     res_bind (ok_or (E_Config ''lookup has no Delta table id'') (ln_table_id selected)) (\<lambda>selected_id.
     res_bind (ok_or (E_Config ''lookup current head has no Delta table id'') (ln_table_id head)) (\<lambda>head_id.
     let changed_on_open = name \<in> set on_open;
         ambiguous = lookup_table_id_changed expected selected_id head_id (ln_used_current selected);
         transitions = (if ambiguous \<or> changed_on_open then [\<lparr>lt_name = name, lt_table_id = head_id\<rparr>] else [])
     in if ambiguous then
          if lo_strict lookup then Inl (E_Config ''lookup changed Delta table id'')
          else Inr (head\<lparr>ln_used_current := True\<rparr>, transitions)
        else Inr (selected, transitions)))))"

definition lookup_snapshots ::
    "(string, string) bmap \<Rightarrow> string bset \<Rightarrow> lookup list \<Rightarrow> log_batch \<Rightarrow> lookup_batch res" where
  "lookup_snapshots ids on_open lookups batch =
     (if lookups = [] then Inr lookup_none
      else res_bind (ok_or (E_Config ''source commit has no Delta-log timestamp for pinned lookup selection'')
                       (lb_through_log_timestamp batch)) (\<lambda>timestamp.
           res_bind (collect_res (select_lookup ids on_open timestamp) lookups) (\<lambda>xs.
           Inr \<lparr>lk_snapshots = map fst xs, lk_transitions = concat (map snd xs)\<rparr>)))"

section \<open>The pipeline\<close>

record pipeline_config =
  pc_name :: string
  pc_dedup_timestamp :: "string option"
  pc_dedup_partition :: "string list"
  pc_is_upsert :: bool
  pc_staged :: bool
  pc_max_evaluation_rejects :: nat
  pc_lookups :: "lookup list"
  pc_dq_uri :: string

record ('d, 'tbl) pipeline =
  pl_cfg :: pipeline_config
  pl_stream :: log_stream
  pl_offsets :: offset_store
  pl_target :: 'tbl
  pl_sink :: sink
  pl_cutoff :: "'d cutoff option"
  pl_dq :: "data_quality option"
  pl_lookup_ids :: "(string, string) bmap"
  pl_lookup_on_open :: "string bset"
  pl_publishes :: bool
  pl_prev_published :: "version option"

text \<open>
  The rows' side of a step: \<open>'i\<close> is a batch as read, \<open>'o\<close> one the transform produced, \<open>'r\<close> one in the
  target's schema.
\<close>

record ('i, 'o, 'r, 'd) stages =
  sg_scan :: "log_batch \<Rightarrow> 'i list res"
  sg_in_rows :: "'i \<Rightarrow> nat"
  sg_apply :: "'i list \<Rightarrow> lookup_snapshot list \<Rightarrow> nat \<Rightarrow> ('o list \<times> rejected option \<times> nat) res"
  sg_cross_row :: bool
  sg_conform :: "'o list \<Rightarrow> rejected list \<Rightarrow> ('o list \<times> rejected list) res"
  sg_out_rows :: "'o \<Rightarrow> nat"
  sg_columns_present :: "'o \<Rightarrow> string list"
  sg_target_fields :: "string list"
  sg_coerce :: "'o \<Rightarrow> 'r res"
  sg_coerce_quarantining :: "'o \<Rightarrow> ('r \<times> rejected option) res"
  sg_filter :: "'d \<Rightarrow> 'r \<Rightarrow> ('r \<times> nat \<times> nat) res" \<comment> \<open>kept, covered, beyond\<close>
  sg_require_timestamps :: "string \<Rightarrow> 'r \<Rightarrow> unit res"
  sg_require_partitions :: "string list \<Rightarrow> 'r \<Rightarrow> unit res"
  sg_rows :: "'r \<Rightarrow> nat"
  sg_empty :: 'r
  sg_collapse :: "'r list \<Rightarrow> 'r res"

text \<open>
  The tables during one step: the target as delta-rs sees it in the commit and in each attempt of a
  merge, what a reopen answers, the merge's plan, and the data-quality table's world.
\<close>

record ('tbl, 'r, 'w) step_env =
  se_ops :: "nat \<Rightarrow> ('tbl, 'r) delta_ops"
  se_reopen :: "nat \<Rightarrow> 'tbl res"
  se_memory :: 'tbl
  se_plan :: "'tbl \<Rightarrow> 'r \<Rightarrow> string list \<Rightarrow> merge_plan res"
  se_dq :: "'w dq_ops"
  se_now :: int
  se_write_id :: string

datatype position = PosDelta stream_cursor stream_cursor | PosKafka kafka_offsets

definition delta_end :: "position \<Rightarrow> stream_cursor option" where
  "delta_end p = (case p of PosDelta _ e \<Rightarrow> Some e | PosKafka _ \<Rightarrow> None)"

record 'i batch =
  ba_through :: version
  ba_files :: nat
  ba_input :: "'i list"
  ba_rejects :: "rejected list"
  ba_lookups :: lookup_batch
  ba_position :: position

definition retire :: "('d, 'tbl) pipeline \<Rightarrow> ('d, 'tbl) pipeline" where
  "retire p =
     (case pl_cutoff p of
        None \<Rightarrow> p
      | Some _ \<Rightarrow> p\<lparr>pl_cutoff := None, pl_stream := release_stop (pl_stream p)\<rparr>)"

definition retire_cutoff_if_read_through :: "('d, 'tbl) pipeline \<Rightarrow> bool \<times> ('d, 'tbl) pipeline" where
  "retire_cutoff_if_read_through p =
     (case Option.bind (pl_cutoff p) (\<lambda>c. cw_through (cu_window c)) of
        None \<Rightarrow> (False, p)
      | Some through \<Rightarrow> if cutoff_applies through (ls_cursor (pl_stream p)) then (False, p) else (True, retire p))"

definition settle_cutoff :: "bool option \<Rightarrow> nat \<Rightarrow> nat \<Rightarrow> ('d, 'tbl) pipeline \<Rightarrow> ('d, 'tbl) pipeline" where
  "settle_cutoff closes covered beyond p =
     (let p1 = p\<lparr>pl_cutoff := map_option (\<lambda>c. c\<lparr>cu_skipped := u64_add (cu_skipped c) covered\<rparr>) (pl_cutoff p)\<rparr>
      in if closes = Some True then retire p1 else p1)"

definition acknowledge :: "lookup_transition list \<Rightarrow> ('d, 'tbl) pipeline \<Rightarrow> ('d, 'tbl) pipeline" where
  "acknowledge ts p =
     (let (ids, on_open) = apply_lookup_table_id_transitions (pl_lookup_ids p) (pl_lookup_on_open p) ts
      in p\<lparr>pl_lookup_ids := ids, pl_lookup_on_open := on_open\<rparr>)"

definition publish :: "version \<Rightarrow> ('d, 'tbl) pipeline \<Rightarrow> ('d, 'tbl) pipeline" where
  "publish through p = (if pl_publishes p then p\<lparr>pl_prev_published := Some through\<rparr> else p)"

section \<open>Committing\<close>

definition offsets_for :: "position \<Rightarrow> offsets res" where
  "offsets_for p =
     (case p of
        PosDelta _ e \<Rightarrow> res_bind (txn_version_for e) (\<lambda>v. Inr (OffsetVersion v))
      | PosKafka o' \<Rightarrow> Inr (OffsetKafka o'))"

definition is_commit_conflict :: "error \<Rightarrow> bool" where
  "is_commit_conflict e \<longleftrightarrow>
     (case e of
        E_Delta d \<Rightarrow>
          (case delta_kind d of
             DK_Transaction (TE_CommitConflict _) \<Rightarrow> True
           | DK_Transaction (TE_VersionAlreadyExists _) \<Rightarrow> True
           | DK_Transaction (TE_MaxCommitAttempts _) \<Rightarrow> True
           | _ \<Rightarrow> False)
      | _ \<Rightarrow> False)"

definition is_foreign_checkpoint :: "error \<Rightarrow> bool" where
  "is_foreign_checkpoint e \<longleftrightarrow> (case e of E_Delta d \<Rightarrow> is_unreadable_checkpoint d | _ \<Rightarrow> False)"

definition worth_replanning :: "error \<Rightarrow> bool" where
  "worth_replanning e \<longleftrightarrow> is_commit_conflict e \<or> is_foreign_checkpoint e"

definition merge_attempts :: nat where
  "merge_attempts = 3"

text \<open>A failed commit puts a freshly opened handle back; a Kafka batch's leaves the handle where it was.\<close>

definition pl_commit ::
    "('tbl, 'r, 'w) step_env \<Rightarrow> 'r list \<Rightarrow> offsets \<Rightarrow> ('d, 'tbl) pipeline \<Rightarrow> unit res \<times> ('d, 'tbl) pipeline" where
  "pl_commit env batches offs p =
     (case offs of
        OffsetVersion v \<Rightarrow>
          (case sink_commit (se_ops env 1) (pl_sink p) (pl_target p) batches v of
             Inr t \<Rightarrow> (Inr (), p\<lparr>pl_target := t\<rparr>)
           | Inl e \<Rightarrow>
               (case se_reopen env 1 of
                  Inl e' \<Rightarrow> (Inl e', p\<lparr>pl_target := se_memory env\<rparr>)
                | Inr t \<Rightarrow> (Inl e, p\<lparr>pl_target := t\<rparr>)))
      | OffsetKafka o' \<Rightarrow>
          (case commit_kafka (se_ops env 1) (pl_sink p) (pl_target p) batches o' of
             Inl e \<Rightarrow> (Inl e, p)
           | Inr t \<Rightarrow> (Inr (), p\<lparr>pl_target := t\<rparr>)))"

text \<open>The merge, tried up to \<open>merge_attempts\<close> times; the first argument is how many more are left after this.\<close>

fun merge_loop ::
    "nat \<Rightarrow> ('tbl, 'r, 'w) step_env \<Rightarrow> 'r \<Rightarrow> string list \<Rightarrow> int \<Rightarrow> ('d, 'tbl) pipeline
       \<Rightarrow> upsert_stats res \<times> ('d, 'tbl) pipeline" where
  "merge_loop left env batch update_columns v p =
     (let attempt = merge_attempts - left in
      case se_plan env (pl_target p) batch update_columns of
        Inl e \<Rightarrow> (Inl e, p)
      | Inr plan \<Rightarrow>
          (case upsert (se_ops env attempt) (pl_sink p) (pl_target p) batch v plan of
             Inr (t, stats) \<Rightarrow> (Inr stats, p\<lparr>pl_target := t\<rparr>)
           | Inl e \<Rightarrow>
               (case se_reopen env attempt of
                  Inl e' \<Rightarrow> (Inl e', p\<lparr>pl_target := se_memory env\<rparr>)
                | Inr t \<Rightarrow>
                    (case left of
                       0 \<Rightarrow> (Inl e, p\<lparr>pl_target := t\<rparr>)
                     | Suc n \<Rightarrow>
                         if \<not> worth_replanning e then (Inl e, p\<lparr>pl_target := t\<rparr>)
                         else merge_loop n env batch update_columns v (p\<lparr>pl_target := t\<rparr>)))))"

declare merge_loop.simps [simp del]

definition pl_upsert ::
    "('i, 'o, 'r, 'd) stages \<Rightarrow> ('tbl, 'r, 'w) step_env \<Rightarrow> 'r list \<Rightarrow> string list \<Rightarrow> int \<Rightarrow> ('d, 'tbl) pipeline
       \<Rightarrow> upsert_stats res \<times> ('d, 'tbl) pipeline" where
  "pl_upsert sg env batches update_columns v p =
     (case sg_collapse sg batches of
        Inl e \<Rightarrow> (Inl e, p)
      | Inr batch \<Rightarrow> merge_loop (merge_attempts - 1) env batch update_columns v p)"

definition write_rejects ::
    "('tbl, 'r, 'w) step_env \<Rightarrow> rejected list \<Rightarrow> offsets \<Rightarrow> ('d, 'tbl) pipeline \<Rightarrow> 'w
       \<Rightarrow> nat res \<times> ('d, 'tbl) pipeline \<times> 'w" where
  "write_rejects env rejects offs p w =
     (case pl_dq p of
        None \<Rightarrow> (Inl (E_Other ''internal: rows were rejected but there is no data-quality table''), p, w)
      | Some dq \<Rightarrow>
          let (r, dq', w') = (case offs of
                OffsetVersion v \<Rightarrow> dq_write (se_dq env) dq rejects v (se_now env) w
              | OffsetKafka o' \<Rightarrow> dq_write_kafka (se_dq env) dq rejects o' (se_now env) (se_write_id env) w)
          in (r, p\<lparr>pl_dq := Some dq'\<rparr>, w'))"

section \<open>Transforming and casting a batch\<close>

definition explain_evaluation ::
    "('i, 'o, 'r, 'd) stages \<Rightarrow> ('d, 'tbl) pipeline \<Rightarrow> error \<Rightarrow> error" where
  "explain_evaluation sg p e =
     (case e of
        E_Evaluation m \<Rightarrow>
          if pl_dq p = None \<and> \<not> sg_cross_row sg \<and> pc_max_evaluation_rejects (pl_cfg p) > 0
          then E_Evaluation (m @ ''. If a row's value caused this, creating the data-quality table at ''
                 @ pc_dq_uri (pl_cfg p) @ '' sets that row aside instead of stopping this pipeline.'')
          else e
      | _ \<Rightarrow> e)"

text \<open>The transform's output, the rejects so far, the rows it could not evaluate and its extra runs.\<close>

definition evaluate ::
    "('i, 'o, 'r, 'd) stages \<Rightarrow> ('d, 'tbl) pipeline \<Rightarrow> 'i batch \<Rightarrow> ('o list \<times> rejected list \<times> nat \<times> nat) res" where
  "evaluate sg p b =
     (let max_rejects = (if pl_dq p \<noteq> None then pc_max_evaluation_rejects (pl_cfg p) else 0)
      in case sg_apply sg (ba_input b) (lk_snapshots (ba_lookups b)) max_rejects of
           Inl e \<Rightarrow> Inl (explain_evaluation sg p e)
         | Inr (output, bad, reevaluations) \<Rightarrow>
             res_bind (sg_conform sg output (ba_rejects b)) (\<lambda>(output, rejects).
             Inr (case bad of
                    None \<Rightarrow> (output, rejects, 0, reevaluations)
                  | Some r \<Rightarrow> (output, rejects @ [r], rejected_len r, reevaluations))))"

definition produced_columns :: "('i, 'o, 'r, 'd) stages \<Rightarrow> 'o list \<Rightarrow> string list" where
  "produced_columns sg output =
     (case find (\<lambda>b. sg_out_rows sg b > 0) output of Some b \<Rightarrow> sg_columns_present sg b | None \<Rightarrow> [])"

definition staged_columns_missing :: "('i, 'o, 'r, 'd) stages \<Rightarrow> ('d, 'tbl) pipeline \<Rightarrow> string list \<Rightarrow> bool" where
  "staged_columns_missing sg p produced \<longleftrightarrow>
     pc_staged (pl_cfg p) \<and> produced \<noteq> [] \<and> filter (\<lambda>n. n \<notin> set produced) (sg_target_fields sg) \<noteq> []"

text \<open>One batch of the output cast to the target, and filtered inside a window: kept, covered, beyond.\<close>

definition cast_one ::
    "('i, 'o, 'r, 'd) stages \<Rightarrow> ('d, 'tbl) pipeline \<Rightarrow> 'o \<Rightarrow> ('r \<times> rejected list) res" where
  "cast_one sg p b =
     (if pl_dq p \<noteq> None
      then res_bind (sg_coerce_quarantining sg b) (\<lambda>(good, bad).
             Inr (good, case bad of Some r \<Rightarrow> [r] | None \<Rightarrow> []))
      else res_bind (sg_coerce sg b) (\<lambda>c. Inr (c, [])))"

definition filter_one ::
    "('i, 'o, 'r, 'd) stages \<Rightarrow> ('d, 'tbl) pipeline \<Rightarrow> 'r \<Rightarrow> ('r \<times> nat \<times> nat) res" where
  "filter_one sg p c =
     (case pl_cutoff p of
        Some cu \<Rightarrow> sg_filter sg (cu_dedup cu) c
      | None \<Rightarrow>
          (case pc_dedup_timestamp (pl_cfg p) of
             None \<Rightarrow> Inr (c, 0, 0)
           | Some ts \<Rightarrow>
               res_bind (if pc_is_upsert (pl_cfg p) then Inr () else sg_require_timestamps sg ts c) (\<lambda>_.
               res_bind (sg_require_partitions sg (pc_dedup_partition (pl_cfg p)) c) (\<lambda>_.
               Inr (c, 0, 0)))))"

fun coerce_all ::
    "('i, 'o, 'r, 'd) stages \<Rightarrow> ('d, 'tbl) pipeline \<Rightarrow> 'o list \<Rightarrow> 'r list \<times> rejected list \<times> nat \<times> nat
       \<Rightarrow> ('r list \<times> rejected list \<times> nat \<times> nat) res" where
  "coerce_all sg p [] acc = Inr acc"
| "coerce_all sg p (b # bs) (coerced, rejects, covered, beyond) =
     (if sg_out_rows sg b = 0 then coerce_all sg p bs (coerced, rejects, covered, beyond)
      else res_bind (cast_one sg p b) (\<lambda>(c, bad).
           res_bind (filter_one sg p c) (\<lambda>(c, cov, bey).
           coerce_all sg p bs
             (if sg_rows sg c > 0 then coerced @ [c] else coerced, rejects @ bad, covered + cov, beyond + bey))))"

section \<open>One batch\<close>

text \<open>
  What the commit of a batch is told of the window: one that stays open is recorded with it. Only a
  Delta source opens a window (the code panics on any other).
\<close>

definition batch_closes :: "'i batch \<Rightarrow> nat \<Rightarrow> ('d, 'tbl) pipeline \<Rightarrow> bool option" where
  "batch_closes b beyond p =
     (case (pl_cutoff p, delta_end (ba_position b)) of
        (Some c, Some e) \<Rightarrow> Some (window_closes_after (cw_through (cu_window c)) e beyond)
      | _ \<Rightarrow> None)"

definition record_cutoff :: "bool option \<Rightarrow> ('d, 'tbl) pipeline \<Rightarrow> ('d, 'tbl) pipeline" where
  "record_cutoff closes p =
     p\<lparr>pl_sink := set_cutoff (case (pl_cutoff p, closes) of
          (Some c, Some False) \<Rightarrow> Some (cutoff_recorded c) | _ \<Rightarrow> None) (pl_sink p)\<rparr>"

text \<open>The write of the batch's rows, and how many the target took.\<close>

definition write_rows ::
    "('i, 'o, 'r, 'd) stages \<Rightarrow> ('tbl, 'r, 'w) step_env \<Rightarrow> 'r list \<Rightarrow> string list \<Rightarrow> offsets \<Rightarrow> ('d, 'tbl) pipeline
       \<Rightarrow> (nat \<times> upsert_stats option) res \<times> ('d, 'tbl) pipeline" where
  "write_rows sg env coerced produced offs p =
     (if pc_is_upsert (pl_cfg p) then
        (case offs of
           OffsetVersion v \<Rightarrow>
             (case pl_upsert sg env coerced produced v p of
                (Inl e, p') \<Rightarrow> (Inl e, p')
              | (Inr stats, p') \<Rightarrow> (Inr (rows_written stats, Some stats), p'))
         | OffsetKafka _ \<Rightarrow> (Inl (E_Other ''internal: an upsert needs a source version to commit''), p))
      else
        (case pl_commit env coerced offs p of
           (Inl e, p') \<Rightarrow> (Inl e, p')
         | (Inr _, p') \<Rightarrow> (Inr (sum_list (map (sg_rows sg) coerced), None), p')))"

text \<open>What follows a commit that landed.\<close>

definition committed_batch ::
    "'i batch \<Rightarrow> bool option \<Rightarrow> nat \<Rightarrow> nat \<Rightarrow> ('d, 'tbl) pipeline \<Rightarrow> ('d, 'tbl) pipeline" where
  "committed_batch b closes covered beyond p =
     publish (ba_through b) (settle_cutoff closes covered beyond (acknowledge (lk_transitions (ba_lookups b)) p))"

definition commit_batch_rows ::
    "('i, 'o, 'r, 'd) stages \<Rightarrow> ('tbl, 'r, 'w) step_env \<Rightarrow> 'i batch \<Rightarrow> 'r list \<Rightarrow> string list \<Rightarrow> offsets
       \<Rightarrow> nat \<times> nat \<times> nat \<times> nat \<times> nat \<Rightarrow> bool option \<Rightarrow> ('d, 'tbl) pipeline \<Rightarrow> step_outcome res \<times> ('d, 'tbl) pipeline" where
  "commit_batch_rows sg env b coerced produced offs = (\<lambda>(rejected, unevaluable, reevaluations, covered, beyond) closes p.
     if coerced = [] then
       (case pl_commit env [sg_empty sg] offs p of
          (Inl e, p1) \<Rightarrow> (Inl e, p1)
        | (Inr _, p1) \<Rightarrow>
            (Inr (Skipped (ba_through b) rejected unevaluable reevaluations covered),
             committed_batch b closes covered beyond p1))
     else
       (case write_rows sg env coerced produced offs p of
          (Inl e, p1) \<Rightarrow> (Inl e, p1)
        | (Inr (rows, stats), p1) \<Rightarrow>
            (Inr (Progressed (ba_through b) (ba_files b) rows (table_version (se_ops env 1) (pl_target p1)) stats
                    rejected unevaluable reevaluations covered),
             committed_batch b closes covered beyond p1)))"

definition process ::
    "('i, 'o, 'r, 'd) stages \<Rightarrow> ('tbl, 'r, 'w) step_env \<Rightarrow> 'i batch \<Rightarrow> ('d, 'tbl) pipeline \<Rightarrow> 'w
       \<Rightarrow> step_outcome res \<times> ('d, 'tbl) pipeline \<times> 'w" where
  "process sg env b p w =
     (case evaluate sg p b of
        Inl e \<Rightarrow> (Inl e, p, w)
      | Inr (output, rejects, unevaluable, reevaluations) \<Rightarrow>
     let produced = produced_columns sg output in
     if staged_columns_missing sg p produced
     then (Inl (E_Config ''a staged upsert requires the transform to produce every target column''), p, w)
     else case coerce_all sg p output ([], rejects, 0, 0) of
        Inl e \<Rightarrow> (Inl e, p, w)
      | Inr (coerced, rejects, covered, beyond) \<Rightarrow>
     let rejected = sum_list (map rejected_len rejects);
         closes = batch_closes b beyond p;
         p1 = record_cutoff closes p
     in case offsets_for (ba_position b) of
        Inl e \<Rightarrow> (Inl e, p1, w)
      | Inr offs \<Rightarrow>
     (case (if rejected > 0 then write_rejects env rejects offs p1 w else (Inr 0, p1, w)) of
        (Inl e, p2, w2) \<Rightarrow> (Inl e, p2, w2)
      | (Inr _, p2, w2) \<Rightarrow>
          let (r, p3) = commit_batch_rows sg env b coerced produced offs
                (rejected, unevaluable, reevaluations, covered, beyond) closes p2
          in (r, p3, w2)))"

section \<open>A step over a Delta source\<close>

text \<open>
  The polls of one step: at most two, each of the log as it is then and with the ceiling the memory
  budget gives it. A batch is read under the identity its stream has when it was polled.
\<close>

record polls =
  po_store :: log_store
  po_budget :: "nat option"
  po_store_again :: log_store
  po_budget_again :: "nat option"

definition snapshot_fields :: "lookup_snapshot \<Rightarrow> string \<times> version \<times> string option \<times> bool \<times> bool" where
  "snapshot_fields l = (ln_name l, ln_version l, ln_table_id l, ln_used_pre_history l, ln_used_current l)"

definition read_batch ::
    "('i, 'o, 'r, 'd) stages \<Rightarrow> ('tbl, 'r, 'w) step_env \<Rightarrow> log_batch \<Rightarrow> ('d, 'tbl) pipeline \<Rightarrow> 'w
       \<Rightarrow> step_outcome res \<times> ('d, 'tbl) pipeline \<times> 'w" where
  "read_batch sg env batch p w =
     (let p1 = p\<lparr>pl_sink := set_source_identity (ls_identity (pl_stream p)) (pl_sink p)\<rparr>
      in case lookup_snapshots (pl_lookup_ids p1) (pl_lookup_on_open p1) (pc_lookups (pl_cfg p1)) batch of
           Inl e \<Rightarrow> (Inl e, p1, w)
         | Inr lookups \<Rightarrow>
             let p2 = p1\<lparr>pl_sink := set_lookup_snapshots (map snapshot_fields (lk_snapshots lookups)) (pl_sink p1)\<rparr>
             in case sg_scan sg batch of
                  Inl e \<Rightarrow> (Inl e, p2, w)
                | Inr input \<Rightarrow>
                    process sg env
                      \<lparr>ba_through = lb_through_version batch, ba_files = length (lb_files batch), ba_input = input,
                       ba_rejects = [], ba_lookups = lookups, ba_position = PosDelta (lb_start batch) (lb_end batch)\<rparr>
                      p2 w)"

definition poll :: "log_store \<Rightarrow> nat option \<Rightarrow> ('d, 'tbl) pipeline \<Rightarrow> (log_batch option res \<times> ('d, 'tbl) pipeline) option" where
  "poll store budget p = map_option (\<lambda>(r, s). (r, p\<lparr>pl_stream := s\<rparr>)) (next_batch store budget (pl_stream p))"

definition after_poll ::
    "('i, 'o, 'r, 'd) stages \<Rightarrow> ('tbl, 'r, 'w) step_env \<Rightarrow> log_batch option \<Rightarrow> ('d, 'tbl) pipeline \<Rightarrow> 'w
       \<Rightarrow> step_outcome res \<times> ('d, 'tbl) pipeline \<times> 'w" where
  "after_poll sg env next_one p w =
     (case next_one of None \<Rightarrow> (Inr CaughtUp, p, w) | Some batch \<Rightarrow> read_batch sg env batch p w)"

text \<open>\<open>None\<close> would be a step that never returns.\<close>

definition step_delta ::
    "('i, 'o, 'r, 'd) stages \<Rightarrow> ('tbl, 'r, 'w) step_env \<Rightarrow> polls \<Rightarrow> ('d, 'tbl) pipeline \<Rightarrow> 'w
       \<Rightarrow> (step_outcome res \<times> ('d, 'tbl) pipeline \<times> 'w) option" where
  "step_delta sg env po p w =
     (let p0 = snd (retire_cutoff_if_read_through p)
      in case poll (po_store po) (po_budget po) p0 of
           None \<Rightarrow> None
         | Some (Inl e, p1) \<Rightarrow> Some (Inl e, p1, w)
         | Some (Inr next_one, p1) \<Rightarrow>
             (case (if next_one = None then retire_cutoff_if_read_through p1 else (False, p1)) of
                (False, p2) \<Rightarrow> Some (after_poll sg env next_one p2 w)
              | (True, p2) \<Rightarrow>
                  (case poll (po_store_again po) (po_budget_again po) p2 of
                     None \<Rightarrow> None
                   | Some (Inl e, p3) \<Rightarrow> Some (Inl e, p3, w)
                   | Some (Inr next_one, p3) \<Rightarrow> Some (after_poll sg env next_one p3 w))))"

section \<open>Running until caught up\<close>

text \<open>
  \<open>run_until_caught_up\<close>: the \<open>k\<close>-th step of the run works on \<open>envs k\<close> and \<open>pos k\<close>; \<open>n\<close> counts the batches
  committed so far.
\<close>

partial_function (option) run_until_caught_up ::
    "('i, 'o, 'r, 'd) stages \<Rightarrow> (nat \<Rightarrow> ('tbl, 'r, 'w) step_env) \<Rightarrow> (nat \<Rightarrow> polls) \<Rightarrow> nat \<Rightarrow> nat
       \<Rightarrow> ('d, 'tbl) pipeline \<Rightarrow> 'w \<Rightarrow> (nat res \<times> ('d, 'tbl) pipeline \<times> 'w) option" where
  "run_until_caught_up sg envs pos k n p w =
     (case step_delta sg (envs k) (pos k) p w of
        None \<Rightarrow> None
      | Some (Inl e, p', w') \<Rightarrow> Some (Inl e, p', w')
      | Some (Inr CaughtUp, p', w') \<Rightarrow> Some (Inr n, p', w')
      | Some (Inr Waiting, p', w') \<Rightarrow> run_until_caught_up sg envs pos (Suc k) n p' w'
      | Some (Inr _, p', w') \<Rightarrow> run_until_caught_up sg envs pos (Suc k) (Suc n) p' w')"

end
