(* ===== verification/Reader.thy ===== *)
theory Reader
  imports Log_Stream Offset
begin

text \<open>
  The interface between the reader of a log and what commits its batches: the polls of a reader cut
  its log into consecutive pieces, and what a commit records of a position brings a restarted reader
  back to it. A client that commits a batch together with that record reads every piece exactly once,
  whatever stops it and wherever. The Delta source (\<open>src/source/log_stream.rs\<close>) and its offset store
  (\<open>src/offset.rs\<close>) provide the interface.
\<close>

section \<open>Readers\<close>

locale reader =
  fixes polls :: "'e \<Rightarrow> 's \<Rightarrow> 'err + 'b option \<Rightarrow> 's \<Rightarrow> bool"
    and serves :: "'e \<Rightarrow> bool"
    and adjusts :: "'s \<Rightarrow> 's \<Rightarrow> bool"
    and at :: "'s \<Rightarrow> 'c :: linorder"
    and upto :: "'c \<Rightarrow> 'x list"
    and piece :: "'b \<Rightarrow> 'x list"
    and top :: 'c
  assumes delivers: "serves e \<Longrightarrow> polls e s (Inr (Some b)) s' \<Longrightarrow>
      at s < at s' \<and> at s' \<le> top \<and> upto (at s') = upto (at s) @ piece b \<and> piece b \<noteq> []"
    and passes: "serves e \<Longrightarrow> polls e s (Inr None) s' \<Longrightarrow> at s \<le> at s' \<and> upto (at s') = upto (at s)"
    and stays: "adjusts s s' \<Longrightarrow> at s' = at s"
    and upto_prefix: "c \<le> c' \<Longrightarrow> \<exists>d. upto c' = upto c @ d"
begin

inductive reads :: "'s \<Rightarrow> 'b list \<Rightarrow> 's \<Rightarrow> bool" where
  reads_nothing: "reads s [] s"
| reads_past: "reads s bs s' \<Longrightarrow> serves e \<Longrightarrow> polls e s' (Inr None) s'' \<Longrightarrow> reads s bs s''"
| reads_adjusted: "reads s bs s' \<Longrightarrow> adjusts s' s'' \<Longrightarrow> reads s bs s''"
| reads_batch: "reads s bs s' \<Longrightarrow> serves e \<Longrightarrow> polls e s' (Inr (Some b)) s'' \<Longrightarrow> reads s (bs @ [b]) s''"

lemma reads_in_order:
  "reads s bs s' \<Longrightarrow> at s \<le> at s' \<and> upto (at s') = upto (at s) @ concat (map piece bs)"
proof (induction rule: reads.induct)
  case (reads_past s bs s' e s'')
  with passes [OF reads_past.hyps(2,3)] show ?case by auto
next
  case (reads_adjusted s bs s' s'')
  with stays [OF reads_adjusted.hyps(2)] show ?case by simp
next
  case (reads_batch s bs s' e b s'')
  with delivers [OF reads_batch.hyps(2,3)] show ?case by auto
qed simp

lemma reads_append: "reads s bs s' \<Longrightarrow> reads r as s \<Longrightarrow> reads r (as @ bs) s'"
proof (induction rule: reads.induct)
  case (reads_batch s bs s' e b s'')
  then show ?case using reads.reads_batch [of r "as @ bs" s' e b s''] by simp
qed (auto intro: reads.intros)

text \<open>A reader delivers no more batches than there are items to deliver: every batch holds at least one.\<close>

lemma reads_pieces:
  "reads s bs s' \<Longrightarrow> length bs \<le> length (concat (map piece bs))
     \<and> (bs \<noteq> [] \<longrightarrow> (\<exists>c \<le> top. at s \<le> c \<and> upto c = upto (at s) @ concat (map piece bs)))"
proof (induction rule: reads.induct)
  case (reads_batch s bs s' e b s'')
  note d = delivers [OF reads_batch.hyps(2,3)]
  then have "length bs + 1 \<le> length (concat (map piece bs)) + length (piece b)"
    using reads_batch.IH by (cases "piece b") auto
  moreover have "at s \<le> at s''" "upto (at s'') = upto (at s) @ concat (map piece (bs @ [b]))"
    using reads_in_order [OF reads.reads_batch [OF reads_batch.hyps]] by auto
  ultimately show ?case using d by auto
qed auto

lemma reads_bounded:
  assumes "reads s bs s'"
  shows "length bs \<le> length (upto top)"
proof (cases "bs = []")
  case False
  with reads_pieces [OF assms] obtain c where "c \<le> top" "upto c = upto (at s) @ concat (map piece bs)"
    and len: "length bs \<le> length (concat (map piece bs))" by blast
  moreover then obtain d where "upto top = upto c @ d" using upto_prefix by blast
  ultimately show ?thesis by simp
qed simp

end

section \<open>Readers that can be restarted\<close>

locale restartable_reader = reader polls serves adjusts at upto piece top
  for polls :: "'e \<Rightarrow> 's \<Rightarrow> 'err + 'b option \<Rightarrow> 's \<Rightarrow> bool"
    and serves :: "'e \<Rightarrow> bool"
    and adjusts :: "'s \<Rightarrow> 's \<Rightarrow> bool"
    and at :: "'s \<Rightarrow> 'c :: linorder"
    and upto :: "'c \<Rightarrow> 'x list"
    and piece :: "'b \<Rightarrow> 'x list"
    and top :: 'c +
  fixes recorded :: "'c \<Rightarrow> 't option"
    and resumes :: "'t \<Rightarrow> 's \<Rightarrow> bool"
  assumes resume_where_recorded: "recorded c = Some t \<Longrightarrow> resumes t s \<Longrightarrow> at s = c"
begin

text \<open>
  The batches committed, the record the last of them left, and the reader that runs, if one does: a
  commit may be the last thing a process does, and a process may stop at any point.
\<close>

inductive commits :: "'c \<Rightarrow> 'b list \<Rightarrow> 't option \<Rightarrow> 's option \<Rightarrow> bool" for start where
  commits_none: "commits start [] None None"
| commits_fresh: "commits start bs None None \<Longrightarrow> at s = start \<Longrightarrow> commits start bs None (Some s)"
| commits_resumed: "commits start bs (Some t) None \<Longrightarrow> resumes t s \<Longrightarrow> commits start bs (Some t) (Some s)"
| commits_nothing: "commits start bs t (Some s) \<Longrightarrow> reads s [] s' \<Longrightarrow> commits start bs t (Some s')"
| commits_batch: "commits start bs t (Some s) \<Longrightarrow> reads s [b] s' \<Longrightarrow> recorded (at s') = Some t' \<Longrightarrow>
    commits start (bs @ [b]) (Some t') (Some s')"
| commits_stop: "commits start bs t p \<Longrightarrow> commits start bs t None"

definition committed_upto :: "'c \<Rightarrow> 'b list \<Rightarrow> 't option \<Rightarrow> 'c \<Rightarrow> bool" where
  "committed_upto start bs t c \<longleftrightarrow>
     upto c = upto start @ concat (map piece bs)
     \<and> (case t of None \<Rightarrow> bs = [] \<and> c = start | Some t \<Rightarrow> bs \<noteq> [] \<and> recorded c = Some t)"

lemma commits_exactly_once:
  "commits start bs t p \<Longrightarrow> \<exists>c. committed_upto start bs t c \<and> (\<forall>s. p = Some s \<longrightarrow> c \<le> at s \<and> upto (at s) = upto c)"
proof (induction rule: commits.induct)
  case commits_none
  show ?case by (intro exI [of _ start]) (simp add: committed_upto_def)
next
  case (commits_fresh bs s)
  then show ?case by (auto simp: committed_upto_def)
next
  case (commits_resumed bs t s)
  then obtain c where c: "committed_upto start bs (Some t) c" by blast
  with commits_resumed.hyps(2) have "at s = c" by (auto simp: committed_upto_def intro: resume_where_recorded)
  with c show ?case by auto
next
  case (commits_nothing bs t s s')
  with reads_in_order [OF commits_nothing.hyps(2)] show ?case by (fastforce intro: order_trans)
next
  case (commits_batch bs t s b s' t')
  then obtain c where c: "committed_upto start bs t c" "upto (at s) = upto c" by blast
  with reads_in_order [OF commits_batch.hyps(2)] commits_batch.hyps(3) show ?case
    by (intro exI [of _ "at s'"]) (simp add: committed_upto_def)
next
  case (commits_stop bs t p)
  then show ?case by blast
qed

end

section \<open>The Delta source\<close>

text \<open>
  What a log holds for a policy, whatever part of it a store still serves: a store \<open>follows\<close> the log
  \<open>items\<close> when each commit it can read is the log's. Commits it has cleaned up are unreadable.
\<close>

definition follows :: "log_store \<Rightarrow> change_policy \<Rightarrow> (version \<Rightarrow> (version \<times> add_file) list) \<Rightarrow> bool" where
  "follows store policy items \<longleftrightarrow>
     log_ok store \<and> (\<forall>v. commit_actions store v \<noteq> None \<longrightarrow> commit_items store policy v = items v)"

definition stretch :: "(version \<Rightarrow> 'a list) \<Rightarrow> stream_cursor \<Rightarrow> stream_cursor \<Rightarrow> 'a list" where
  "stretch items a b =
     (if cursor_version a = cursor_version b
      then drop (cursor_index a) (take (cursor_index b) (items (cursor_version a)))
      else drop (cursor_index a) (items (cursor_version a))
        @ concat (map items [Suc (cursor_version a)..<cursor_version b])
        @ take (cursor_index b) (items (cursor_version b)))"

lemma stream_upto_stretch:
  assumes "a \<le> b"
  shows "stream_upto items b = stream_upto items a @ stretch items a b"
proof (cases "cursor_version a = cursor_version b")
  case True
  with assms have "cursor_index a \<le> cursor_index b" by (simp add: cursor_le_iff)
  then have "take (cursor_index b) xs = take (cursor_index a) xs @ drop (cursor_index a) (take (cursor_index b) xs)" for xs :: "'a list"
    by (metis append_take_drop_id min.absorb1 take_take)
  with True show ?thesis by (simp add: stream_upto_def stretch_def)
next
  case False
  with assms have lt: "cursor_version a < cursor_version b" by (auto simp: cursor_le_iff)
  then have "[0..<cursor_version b]
      = [0..<cursor_version a] @ cursor_version a # [Suc (cursor_version a)..<cursor_version b]"
    by (metis le_add1 less_imp_add_positive upt_add_eq_append upt_conv_Cons zero_le lt)
  then show ?thesis by (simp add: stream_upto_def stretch_def False)
qed

lemma stretch_cong:
  assumes "a \<le> b" and "\<And>v. cursor_version a \<le> v \<Longrightarrow> v < cursor_version b \<Longrightarrow> f v = g v"
    and "a \<noteq> b \<Longrightarrow> \<not> is_commit_boundary b \<Longrightarrow> f (cursor_version b) = g (cursor_version b)"
  shows "stretch f a b = stretch g a b"
proof (cases "cursor_version a = cursor_version b")
  case True
  show ?thesis
  proof (cases "a = b \<or> is_commit_boundary b")
    case True
    then show ?thesis using \<open>cursor_version a = cursor_version b\<close>
      by (auto simp: stretch_def is_commit_boundary_def)
  next
    case False
    with assms(3) True show ?thesis by (simp add: stretch_def)
  qed
next
  case False
  with assms(1) have "cursor_version a < cursor_version b" by (auto simp: cursor_le_iff)
  moreover have "a \<noteq> b" using False by auto
  then have "take (cursor_index b) (f (cursor_version b)) = take (cursor_index b) (g (cursor_version b))"
    using assms(3) by (cases "is_commit_boundary b") (simp_all add: is_commit_boundary_def)
  moreover have "map f [Suc (cursor_version a)..<cursor_version b] = map g [Suc (cursor_version a)..<cursor_version b]"
    using assms(2) by simp
  then have "concat (map f [Suc (cursor_version a)..<cursor_version b]) = concat (map g [Suc (cursor_version a)..<cursor_version b])"
    by (rule arg_cong)
  moreover have "f (cursor_version a) = g (cursor_version a)"
    using assms(2) \<open>cursor_version a < cursor_version b\<close> by simp
  ultimately show ?thesis using False by (simp add: stretch_def)
qed

lemma scanned_items:
  assumes "scanned store s readable sc" and "follows store (ls_policy s) items"
  shows "ls_cursor s \<le> sc_cursor sc
    \<and> stream_upto items (sc_cursor sc) = stream_upto items (ls_cursor s) @ sc_files sc"
proof -
  let ?f = "commit_items store (ls_policy s)" and ?a = "ls_cursor s" and ?b = "sc_cursor sc"
  have le: "?a \<le> ?b" and f: "stream_upto ?f ?b = stream_upto ?f ?a @ sc_files sc"
    using assms(1) by (simp_all add: scanned_def)
  have "stretch ?f ?a ?b = stretch items ?a ?b"
    by (rule stretch_cong [OF le]) (use assms in \<open>auto simp: scanned_def follows_def\<close>)
  moreover have "stretch ?f ?a ?b = sc_files sc" using f stream_upto_stretch [OF le, of ?f] by simp
  ultimately show ?thesis using stream_upto_stretch [OF le, of items] le by simp
qed

definition batch_piece :: "log_batch \<Rightarrow> (version \<times> add_file) list" where
  "batch_piece b = zip (lb_file_versions b) (lb_files b)"

lemma next_batch_reads:
  assumes fo: "follows store (ls_policy s) items" and run: "next_batch store budget s = Some (r, s')"
  shows "case r of
      Inl e \<Rightarrow> ls_cursor s' = ls_cursor s
    | Inr None \<Rightarrow> ls_cursor s \<le> ls_cursor s' \<and> stream_upto items (ls_cursor s') = stream_upto items (ls_cursor s)
    | Inr (Some b) \<Rightarrow> ls_cursor s < ls_cursor s' \<and> lb_start b = ls_cursor s \<and> lb_end b = ls_cursor s'
        \<and> stream_upto items (ls_cursor s') = stream_upto items (ls_cursor s) @ batch_piece b
        \<and> batch_piece b \<noteq> [] \<and> cursor_version (ls_cursor s') \<le> 2 ^ 63"
proof -
  have ok: "log_ok store" using fo by (simp add: follows_def)
  have scan: "ls_cursor s \<le> sc_cursor sc
      \<and> stream_upto items (sc_cursor sc) = stream_upto items (ls_cursor s) @ sc_files sc"
    if t: "same_settings s t" and r: "readable < 2 ^ 63"
      and l: "scan_loop store budget t readable (scan_start (ls_cursor t)) = Some (Inr sc)" for t readable sc
  proof -
    have "scanned store t readable sc" using scan_loop_scanned [OF ok _ l] r by simp
    moreover have "ls_policy t = ls_policy s" "ls_cursor t = ls_cursor s" using t by (simp_all add: same_settings_def)
    ultimately show ?thesis using scanned_items [of store t readable sc items] fo by simp
  qed
  from run ok show ?thesis
  proof (cases rule: next_batch_cases)
    case (3 t readable sc)
    with scan [OF 3(1,2,4)] show ?thesis by simp
  next
    case (4 t readable sc through sch)
    from scan [OF 4(1,2,4)] have "ls_cursor s \<le> sc_cursor sc"
      and u: "stream_upto items (sc_cursor sc) = stream_upto items (ls_cursor s) @ sc_files sc" by auto
    moreover from u 4(5) have "sc_cursor sc \<noteq> ls_cursor s" by auto
    moreover have "batch_piece b = sc_files sc" if "r = Inr (Some b)" for b
      using that 4(7) by (auto simp: batch_piece_def zip_map_fst_snd)
    moreover have "cursor_version (sc_cursor sc) \<le> 2 ^ 63"
    proof -
      have "cursor_version (ls_cursor t) \<le> readable"
        using 4(4,5) by (subst (asm) scan_loop.simps) (auto simp: scan_start_def split: if_splits)
      moreover have "scanned store t readable sc" using scan_loop_scanned [OF ok _ 4(4)] 4(2) by simp
      ultimately show ?thesis using 4(2) by (simp add: scanned_def)
    qed
    ultimately show ?thesis using 4(5,7,8) by (simp add: batch_piece_def zip_map_fst_snd order_less_le)
  qed auto
qed

lemma txn_version_cursor:
  assumes "txn_version_for c = Inr t" and "resume_cursor st tv = Inr c'" and "tv (os_app_id st) = Inr (Some t)"
  shows "c' = c"
  using assms by (auto simp: txn_version_for_Inr_iff resume_cursor_stored)

text \<open>A stream of a policy that a fresh open builds over a target whose record is \<open>t\<close>.\<close>

definition recorded_txn :: "stream_cursor \<Rightarrow> int option" where
  "recorded_txn c = (case txn_version_for c of Inr t \<Rightarrow> Some t | Inl _ \<Rightarrow> None)"

definition resumed_stream :: "offset_store \<Rightarrow> int \<Rightarrow> log_stream \<Rightarrow> bool" where
  "resumed_stream st t s \<longleftrightarrow> resume_cursor st (\<lambda>_. Inr (Some t)) = Inr (ls_cursor s)"

definition delta_polls ::
    "change_policy \<Rightarrow> log_store \<times> nat option \<Rightarrow> log_stream \<Rightarrow> log_batch option res \<Rightarrow> log_stream \<Rightarrow> bool" where
  "delta_polls policy e s r s' \<longleftrightarrow> next_batch (fst e) (snd e) s = Some (r, s') \<and> ls_policy s = policy"

definition delta_serves :: "change_policy \<Rightarrow> (version \<Rightarrow> (version \<times> add_file) list) \<Rightarrow> log_store \<times> nat option \<Rightarrow> bool" where
  "delta_serves policy items e \<longleftrightarrow> follows (fst e) policy items"

definition delta_adjusts :: "log_stream \<Rightarrow> log_stream \<Rightarrow> bool" where
  "delta_adjusts s s' \<longleftrightarrow> s' = release_stop s"

interpretation delta_source: restartable_reader "delta_polls policy" "delta_serves policy items" delta_adjusts
  ls_cursor "stream_upto items" batch_piece "at_version (2 ^ 63 + 1)" recorded_txn "resumed_stream st"
  for policy items st
proof unfold_locales
  fix e s b s'
  assume "delta_serves policy items e" and "delta_polls policy e s (Inr (Some b)) s'"
  then show "ls_cursor s < ls_cursor s' \<and> ls_cursor s' \<le> at_version (2 ^ 63 + 1)
      \<and> stream_upto items (ls_cursor s') = stream_upto items (ls_cursor s) @ batch_piece b \<and> batch_piece b \<noteq> []"
    using next_batch_reads [of "fst e" s items "snd e" "Inr (Some b)" s'] by (auto simp: delta_serves_def delta_polls_def cursor_le_iff)
next
  fix e s s'
  assume "delta_serves policy items e" and "delta_polls policy e s (Inr None) s'"
  then show "ls_cursor s \<le> ls_cursor s' \<and> stream_upto items (ls_cursor s') = stream_upto items (ls_cursor s)"
    using next_batch_reads [of "fst e" s items "snd e" "Inr None" s'] by (auto simp: delta_serves_def delta_polls_def)
next
  fix s s' assume "delta_adjusts s s'"
  then show "ls_cursor s' = ls_cursor s" by (simp add: release_stop_def delta_adjusts_def)
next
  fix c c' :: stream_cursor assume "c \<le> c'"
  then show "\<exists>d. stream_upto items c' = stream_upto items c @ d" by (rule stream_upto_mono)
next
  fix c t s
  assume "recorded_txn c = Some t" and "resumed_stream st t s"
  then show "ls_cursor s = c"
    by (auto simp: recorded_txn_def resumed_stream_def intro: txn_version_cursor split: sum.splits)
qed

end
