(* ===== verification/Pipeline_Spec.thy ===== *)
theory Pipeline_Spec
  imports Pipeline Reader
begin

text \<open>
  What a step of a pipeline guarantees: which parts of the pipeline each stage leaves alone, what the
  target holds and records after a step that succeeded, and what a step that failed leaves behind.
\<close>

section \<open>What the stages leave alone\<close>

text \<open>The parts of a pipeline only its configuration decides, and the stream, which only a poll moves.\<close>

definition same_setup :: "('d, 'tbl) pipeline \<Rightarrow> ('d, 'tbl) pipeline \<Rightarrow> bool" where
  "same_setup p p' \<longleftrightarrow>
     pl_cfg p' = pl_cfg p \<and> pl_offsets p' = pl_offsets p \<and> pl_publishes p' = pl_publishes p
     \<and> sk_app_id (pl_sink p') = sk_app_id (pl_sink p)
     \<and> sk_target_file_size (pl_sink p') = sk_target_file_size (pl_sink p)
     \<and> (pl_dq p' = None \<longleftrightarrow> pl_dq p = None)"

definition same_stream :: "('d, 'tbl) pipeline \<Rightarrow> ('d, 'tbl) pipeline \<Rightarrow> bool" where
  "same_stream p p' \<longleftrightarrow> pl_stream p' = pl_stream p \<or> pl_stream p' = release_stop (pl_stream p)"

text \<open>What a commit that lands may change only after it has landed.\<close>

definition same_progress :: "('d, 'tbl) pipeline \<Rightarrow> ('d, 'tbl) pipeline \<Rightarrow> bool" where
  "same_progress p p' \<longleftrightarrow>
     pl_cutoff p' = pl_cutoff p \<and> pl_lookup_ids p' = pl_lookup_ids p
     \<and> pl_lookup_on_open p' = pl_lookup_on_open p \<and> pl_prev_published p' = pl_prev_published p"

lemma same_setup_refl [simp, intro]: "same_setup p p"
  by (simp add: same_setup_def)

lemma same_setup_trans [trans]: "same_setup p q \<Longrightarrow> same_setup q r \<Longrightarrow> same_setup p r"
  by (simp add: same_setup_def)

lemma same_progress_refl [simp, intro]: "same_progress p p"
  by (simp add: same_progress_def)

lemma same_progress_trans [trans]: "same_progress p q \<Longrightarrow> same_progress q r \<Longrightarrow> same_progress p r"
  by (simp add: same_progress_def)

lemma release_stop_simps [simp]:
  "release_stop (release_stop s) = release_stop s" "ls_cursor (release_stop s) = ls_cursor s"
  "ls_policy (release_stop s) = ls_policy s"
  by (simp_all add: release_stop_def)

lemma same_stream_refl [simp, intro]: "same_stream p p"
  by (simp add: same_stream_def)

lemma same_stream_trans [trans]: "same_stream p q \<Longrightarrow> same_stream q r \<Longrightarrow> same_stream p r"
  by (auto simp: same_stream_def)

lemmas same_defs = same_setup_def same_stream_def same_progress_def

lemma target_frame [simp]:
  "same_setup p (p\<lparr>pl_target := t\<rparr>)" "pl_stream (p\<lparr>pl_target := t\<rparr>) = pl_stream p"
  "same_progress p (p\<lparr>pl_target := t\<rparr>)"
  by (simp_all add: same_defs)

lemma retire_frame [simp]:
  "same_setup p (retire p)" "same_stream p (retire p)" "pl_target (retire p) = pl_target p"
  "pl_sink (retire p) = pl_sink p" "pl_dq (retire p) = pl_dq p"
  "pl_lookup_ids (retire p) = pl_lookup_ids p" "pl_lookup_on_open (retire p) = pl_lookup_on_open p"
  "pl_prev_published (retire p) = pl_prev_published p"
  by (auto simp: retire_def same_defs split: option.splits)

lemma retire_if_frame:
  assumes "retire_cutoff_if_read_through p = (b, p')"
  shows "p' = (if b then retire p else p)"
  using assms by (auto simp: retire_cutoff_if_read_through_def split: option.splits if_splits)

lemma settle_frame [simp]:
  "same_setup p (settle_cutoff closes covered beyond p)" "same_stream p (settle_cutoff closes covered beyond p)"
  "pl_target (settle_cutoff closes covered beyond p) = pl_target p"
  "pl_dq (settle_cutoff closes covered beyond p) = pl_dq p"
  "pl_lookup_ids (settle_cutoff closes covered beyond p) = pl_lookup_ids p"
  "pl_prev_published (settle_cutoff closes covered beyond p) = pl_prev_published p"
  by (auto simp: settle_cutoff_def Let_def same_defs retire_def split: option.splits)

lemma acknowledge_frame [simp]:
  "same_setup p (acknowledge ts p)" "pl_stream (acknowledge ts p) = pl_stream p"
  "pl_target (acknowledge ts p) = pl_target p" "pl_cutoff (acknowledge ts p) = pl_cutoff p"
  "pl_dq (acknowledge ts p) = pl_dq p"
  by (simp_all add: acknowledge_def same_defs split: prod.splits)

lemma publish_frame [simp]:
  "same_setup p (publish v p)" "pl_stream (publish v p) = pl_stream p"
  "pl_target (publish v p) = pl_target p" "pl_cutoff (publish v p) = pl_cutoff p" "pl_dq (publish v p) = pl_dq p"
  by (simp_all add: publish_def same_defs)

lemma committed_batch_frame [simp]:
  "same_setup p (committed_batch b closes covered beyond p)"
  "same_stream p (committed_batch b closes covered beyond p)"
  "pl_target (committed_batch b closes covered beyond p) = pl_target p"
  unfolding committed_batch_def
  by (meson acknowledge_frame(1) publish_frame(1) settle_frame(1) same_setup_trans)
    (use settle_frame(2) [of "acknowledge (lk_transitions (ba_lookups b)) p" closes covered beyond] in
      \<open>simp_all add: same_stream_def\<close>)

lemma record_cutoff_frame [simp]:
  "same_setup p (record_cutoff closes p)" "pl_stream (record_cutoff closes p) = pl_stream p"
  "pl_target (record_cutoff closes p) = pl_target p" "same_progress p (record_cutoff closes p)"
  "pl_dq (record_cutoff closes p) = pl_dq p" "pl_cfg (record_cutoff closes p) = pl_cfg p"
  by (simp_all add: record_cutoff_def set_cutoff_def same_defs)

lemma pl_commit_frame:
  "pl_commit env rows offs p = (r, p') \<Longrightarrow> \<exists>t. p' = p\<lparr>pl_target := t\<rparr>"
  by (auto simp: pl_commit_def split: offsets.splits sum.splits) (metis pipeline.surjective pipeline.update_convs(4))+

lemma merge_loop_frame:
  "merge_loop n env batch cols v p = (r, p') \<Longrightarrow> \<exists>t. p' = p\<lparr>pl_target := t\<rparr>"
proof (induction n arbitrary: p)
  case 0
  then show ?case
    by (subst (asm) merge_loop.simps) (auto simp: Let_def split: sum.splits prod.splits, (metis pipeline.surjective pipeline.update_convs(4))+)
next
  case (Suc n)
  from Suc.prems show ?case
    by (subst (asm) merge_loop.simps)
      (auto simp: Let_def split: sum.splits prod.splits if_splits dest!: Suc.IH,
        (metis pipeline.surjective pipeline.update_convs(4))+)
qed

lemma write_rows_frame:
  assumes "write_rows sg env rows produced offs p = (r, p')"
  shows "\<exists>t. p' = p\<lparr>pl_target := t\<rparr>"
proof -
  have here: "\<exists>t. p = p\<lparr>pl_target := t\<rparr>" by (rule exI [of _ "pl_target p"]) simp
  show ?thesis
  proof (cases "pc_is_upsert (pl_cfg p)")
    case True
    with assms here show ?thesis
      by (auto simp: write_rows_def pl_upsert_def split: offsets.splits prod.splits sum.splits dest: merge_loop_frame)
  next
    case False
    with assms show ?thesis
      by (auto simp: write_rows_def split: prod.splits sum.splits dest: pl_commit_frame)
  qed
qed

lemma write_rejects_frame:
  assumes "write_rejects env rejects offs p w = (r, p', w')"
  shows "\<exists>dq'. p' = p\<lparr>pl_dq := dq'\<rparr> \<and> (dq' = None \<longleftrightarrow> pl_dq p = None)"
proof (cases "pl_dq p")
  case None
  with assms show ?thesis
    by (intro exI [of _ "pl_dq p"]) (auto simp: write_rejects_def)
next
  case (Some dq)
  with assms show ?thesis
    by (auto simp: write_rejects_def Let_def split: offsets.splits prod.splits)
qed

text \<open>The rows a batch becomes: transformed, conformed, cast and, inside a window, filtered.\<close>

definition batch_becomes :: "('i, 'o, 'r, 'd) stages \<Rightarrow> ('d, 'tbl) pipeline \<Rightarrow> 'i batch \<Rightarrow> ('r list \<times> rejected list \<times> nat \<times> nat) res" where
  "batch_becomes sg p b =
     res_bind (evaluate sg p b) (\<lambda>(output, rejects, _, _). coerce_all sg p output ([], rejects, 0, 0))"

definition rows_or_empty :: "('i, 'o, 'r, 'd) stages \<Rightarrow> 'r list \<Rightarrow> 'r list" where
  "rows_or_empty sg rows = (if rows = [] then [sg_empty sg] else rows)"

text \<open>A batch processed: what was committed, and what it left of the pipeline.\<close>

definition outcome_reports ::
    "('i, 'o, 'r, 'd) stages \<Rightarrow> ('tbl, 'r, 'w) step_env \<Rightarrow> 'i batch \<Rightarrow> 'r list \<Rightarrow> rejected list \<Rightarrow> nat \<Rightarrow> offsets
       \<Rightarrow> ('d, 'tbl) pipeline \<Rightarrow> ('d, 'tbl) pipeline \<Rightarrow> step_outcome \<Rightarrow> bool" where
  "outcome_reports sg env b rows rejects covered offs p p' out \<longleftrightarrow>
     (case out of
        Skipped through rejected _ _ cov \<Rightarrow>
          rows = [] \<and> through = ba_through b \<and> rejected = sum_list (map rejected_len rejects) \<and> cov = covered
      | Progressed through files n _ stats rejected _ _ cov \<Rightarrow>
          rows \<noteq> [] \<and> through = ba_through b \<and> files = ba_files b
          \<and> rejected = sum_list (map rejected_len rejects) \<and> cov = covered
          \<and> (\<exists>produced. write_rows sg env rows produced offs p = (Inr (n, stats), p'))
      | _ \<Rightarrow> False)"

lemma process_success:
  assumes "process sg env b p w = (Inr out, p', w')"
  obtains rows rejects covered beyond offs p2 p3 where
    "batch_becomes sg p b = Inr (rows, rejects, covered, beyond)"
    "offsets_for (ba_position b) = Inr offs"
    "same_setup p p2" "pl_stream p2 = pl_stream p" "pl_target p2 = pl_target p"
    "pl_sink p2 = pl_sink (record_cutoff (batch_closes b beyond p) p)" "same_progress p p2"
    "sum_list (map rejected_len rejects) > 0 \<longrightarrow> pl_dq p \<noteq> None"
    "if rows = [] then pl_commit env [sg_empty sg] offs p2 = (Inr (), p3)
       else \<exists>produced x. write_rows sg env rows produced offs p2 = (Inr x, p3)"
    "p' = committed_batch b (batch_closes b beyond p) covered beyond p3"
    "outcome_reports sg env b rows rejects covered offs p2 p3 out"
proof -
  obtain made rejects0 unevaluable reevaluations
    where ev: "evaluate sg p b = Inr (made, rejects0, unevaluable, reevaluations)"
    using assms by (cases "evaluate sg p b") (auto simp: process_def)
  have staged: "\<not> staged_columns_missing sg p (produced_columns sg made)"
    using assms ev by (auto simp: process_def Let_def)
  obtain rows rejects covered beyond
    where co: "coerce_all sg p made ([], rejects0, 0, 0) = Inr (rows, rejects, covered, beyond)"
    using assms ev staged by (cases "coerce_all sg p made ([], rejects0, 0, 0)") (auto simp: process_def Let_def)
  obtain offs where of: "offsets_for (ba_position b) = Inr offs"
    using assms ev co staged by (cases "offsets_for (ba_position b)") (auto simp: process_def Let_def)
  define p1 where "p1 = record_cutoff (batch_closes b beyond p) p"
  obtain rn p2 w2 where wr: "(if sum_list (map rejected_len rejects) > 0 then write_rejects env rejects offs p1 w else (Inr 0, p1, w)) = (Inr rn, p2, w2)"
    using assms ev co staged of
    by (auto simp: process_def Let_def p1_def split: prod.splits sum.splits if_splits simp del: sum_list_eq_0_iff)
  have run: "commit_batch_rows sg env b rows (produced_columns sg made) offs
      (sum_list (map rejected_len rejects), unevaluable, reevaluations, covered, beyond) (batch_closes b beyond p) p2 = (Inr out, p')"
    using assms unfolding process_def ev sum.case prod.case Let_def if_not_P [OF staged] co of p1_def [symmetric] wr
    by (cases "commit_batch_rows sg env b rows (produced_columns sg made) offs
      (sum_list (map rejected_len rejects), unevaluable, reevaluations, covered, beyond) (batch_closes b beyond p) p2")
      (simp only: prod.case prod.inject)
  have fr: "\<exists>dq'. p2 = p1\<lparr>pl_dq := dq'\<rparr> \<and> (dq' = None \<longleftrightarrow> pl_dq p1 = None)"
  proof (cases "sum_list (map rejected_len rejects) > 0")
    case True
    with wr show ?thesis by (auto intro: write_rejects_frame simp del: sum_list_eq_0_iff)
  next
    case False
    with wr show ?thesis by (intro exI [of _ "pl_dq p1"]) (auto simp del: sum_list_eq_0_iff)
  qed
  have p2: "same_setup p p2" "pl_stream p2 = pl_stream p" "pl_target p2 = pl_target p"
      "pl_sink p2 = pl_sink p1" "same_progress p p2"
    using fr by (auto simp: p1_def record_cutoff_def set_cutoff_def same_defs)
  have dq: "sum_list (map rejected_len rejects) > 0 \<longrightarrow> pl_dq p \<noteq> None"
    using wr by (auto simp: write_rejects_def p1_def simp del: sum_list_eq_0_iff split: option.splits)
  obtain p3 where p3: "if rows = [] then pl_commit env [sg_empty sg] offs p2 = (Inr (), p3)
       else \<exists>produced x. write_rows sg env rows produced offs p2 = (Inr x, p3)"
    "p' = committed_batch b (batch_closes b beyond p) covered beyond p3"
    "outcome_reports sg env b rows rejects covered offs p2 p3 out"
  proof (cases "rows = []")
    case True
    with run that show thesis
      by (auto simp: commit_batch_rows_def outcome_reports_def split: prod.splits sum.splits simp del: sum_list_eq_0_iff)
  next
    case False
    with run obtain n st q where q: "write_rows sg env rows (produced_columns sg made) offs p2 = (Inr (n, st), q)"
      "out = Progressed (ba_through b) (ba_files b) n (table_version (se_ops env 1) (pl_target q)) st
         (sum_list (map rejected_len rejects)) unevaluable reevaluations covered"
      "p' = committed_batch b (batch_closes b beyond p) covered beyond q"
      by (auto simp: commit_batch_rows_def split: prod.splits sum.splits simp del: sum_list_eq_0_iff)
    show thesis
      by (rule that [of q]) (use q False in \<open>auto simp: outcome_reports_def simp del: sum_list_eq_0_iff\<close>)
  qed
  show thesis
    by (rule that [OF _ of p2(1-3) p2(4) [unfolded p1_def] p2(5) dq p3]) (simp add: batch_becomes_def ev co)
qed

section \<open>What a commit leaves in the target\<close>

text \<open>
  The target's side of a step: every handle the step works on is delta-rs's, and answers the same
  question about the pipeline's \<open>txn\<close>.
\<close>

definition step_ops_ok :: "('tbl \<Rightarrow> string \<Rightarrow> int option) \<Rightarrow> ('tbl, 'r, 'w) step_env \<Rightarrow> bool" where
  "step_ops_ok txn env \<longleftrightarrow> (\<forall>n. delta_ops_ok (se_ops env n) \<and> table_txn (se_ops env n) = txn)"

lemma pl_commit_records:
  assumes "step_ops_ok txn env" and "pl_commit env rows (OffsetVersion v) p = (Inr u, p')"
  shows "sink_commit (se_ops env 1) (pl_sink p) (pl_target p) rows v = Inr (pl_target p')
    \<and> txn (pl_target p') (sk_app_id (pl_sink p)) = Some v"
proof -
  from assms(2) have c: "sink_commit (se_ops env 1) (pl_sink p) (pl_target p) rows v = Inr (pl_target p')"
    by (auto simp: pl_commit_def split: sum.splits)
  moreover have "delta_ops_ok (se_ops env 1)" "table_txn (se_ops env 1) = txn"
    using assms(1) by (simp_all add: step_ops_ok_def)
  ultimately show ?thesis using sink_commit_txn by fastforce
qed

lemma merge_loop_records:
  assumes "step_ops_ok txn env"
  shows "merge_loop n env batch cols v p = (Inr stats, p') \<Longrightarrow> txn (pl_target p') (sk_app_id (pl_sink p)) = Some v"
proof (induction n arbitrary: p)
  case 0
  note run = 0 [unfolded merge_loop.simps [of 0] Let_def]
  from run obtain plan where plan: "se_plan env (pl_target p) batch cols = Inr plan" by (auto split: sum.splits)
  with run obtain t where "upsert (se_ops env (merge_attempts - 0)) (pl_sink p) (pl_target p) batch v plan = Inr (t, stats)"
    "p' = p\<lparr>pl_target := t\<rparr>" by (auto split: sum.splits)
  moreover have "delta_ops_ok (se_ops env (merge_attempts - 0))" "table_txn (se_ops env (merge_attempts - 0)) = txn"
    using assms by (simp_all add: step_ops_ok_def)
  ultimately show ?case using upsert_txn by fastforce
next
  case (Suc n)
  note run = Suc.prems [unfolded merge_loop.simps [of "Suc n"] Let_def]
  have ok: "delta_ops_ok (se_ops env (merge_attempts - Suc n))" "table_txn (se_ops env (merge_attempts - Suc n)) = txn"
    using assms by (simp_all add: step_ops_ok_def)
  from run obtain plan where plan: "se_plan env (pl_target p) batch cols = Inr plan" by (auto split: sum.splits)
  show ?case
  proof (cases "upsert (se_ops env (merge_attempts - Suc n)) (pl_sink p) (pl_target p) batch v plan")
    case (Inr x)
    then obtain t where "upsert (se_ops env (merge_attempts - Suc n)) (pl_sink p) (pl_target p) batch v plan = Inr (t, stats)"
      "p' = p\<lparr>pl_target := t\<rparr>" using run plan by (cases x) auto
    with ok upsert_txn show ?thesis by fastforce
  next
    case (Inl e)
    then obtain t where "merge_loop n env batch cols v (p\<lparr>pl_target := t\<rparr>) = (Inr stats, p')"
      using run plan by (auto split: sum.splits if_splits)
    from Suc.IH [OF this] show ?thesis by simp
  qed
qed

lemma write_rows_records:
  assumes ok: "step_ops_ok txn env" and run: "write_rows sg env rows produced (OffsetVersion v) p = (Inr x, p')"
  shows "txn (pl_target p') (sk_app_id (pl_sink p)) = Some v
    \<and> (\<not> pc_is_upsert (pl_cfg p) \<longrightarrow> sink_commit (se_ops env 1) (pl_sink p) (pl_target p) rows v = Inr (pl_target p'))"
proof (cases "pc_is_upsert (pl_cfg p)")
  case True
  with run show ?thesis
    by (auto simp: write_rows_def pl_upsert_def split: prod.splits sum.splits dest: merge_loop_records [OF ok])
next
  case False
  with run obtain u where "pl_commit env rows (OffsetVersion v) p = (Inr u, p')"
    by (auto simp: write_rows_def split: prod.splits sum.splits)
  with pl_commit_records [OF ok] False show ?thesis by auto
qed

lemma process_commits:
  assumes ok: "step_ops_ok txn env" and run: "process sg env b p w = (Inr out, p', w')"
    and pos: "ba_position b = PosDelta s e"
  obtains rows rejects covered beyond v where
    "batch_becomes sg p b = Inr (rows, rejects, covered, beyond)"
    "txn_version_for e = Inr v" "txn (pl_target p') (sk_app_id (pl_sink p)) = Some v"
    "same_setup p p'" "same_stream p p'"
    "\<not> pc_is_upsert (pl_cfg p) \<Longrightarrow>
       sink_commit (se_ops env 1) (pl_sink (record_cutoff (batch_closes b beyond p) p)) (pl_target p)
         (rows_or_empty sg rows) v = Inr (pl_target p')"
proof -
  obtain rows rejects covered beyond offs p2 p3 where
    r: "batch_becomes sg p b = Inr (rows, rejects, covered, beyond)"
    and of: "offsets_for (ba_position b) = Inr offs"
    and p2: "same_setup p p2" "pl_stream p2 = pl_stream p" "pl_target p2 = pl_target p"
      "pl_sink p2 = pl_sink (record_cutoff (batch_closes b beyond p) p)" "same_progress p p2"
    and "sum_list (map rejected_len rejects) > 0 \<longrightarrow> pl_dq p \<noteq> None"
    and w: "if rows = [] then pl_commit env [sg_empty sg] offs p2 = (Inr (), p3)
       else \<exists>produced x. write_rows sg env rows produced offs p2 = (Inr x, p3)"
    and p': "p' = committed_batch b (batch_closes b beyond p) covered beyond p3"
    and "outcome_reports sg env b rows rejects covered offs p2 p3 out"
    by (rule process_success [OF run])
  from of pos obtain v where v: "offs = OffsetVersion v" "txn_version_for e = Inr v"
    by (auto simp: offsets_for_def)
  have app: "sk_app_id (pl_sink p2) = sk_app_id (pl_sink p)" "pl_cfg p2 = pl_cfg p"
    using p2(1) by (simp_all add: same_setup_def)
  have t: "txn (pl_target p3) (sk_app_id (pl_sink p)) = Some v \<and> (\<not> pc_is_upsert (pl_cfg p) \<longrightarrow>
      sink_commit (se_ops env 1) (pl_sink p2) (pl_target p2) (rows_or_empty sg rows) v = Inr (pl_target p3))"
    and p3: "same_setup p2 p3 \<and> pl_stream p3 = pl_stream p2"
  proof (atomize (full), cases "rows = []")
    case True
    with w v(1) have c: "pl_commit env [sg_empty sg] (OffsetVersion v) p2 = (Inr (), p3)" by simp
    from pl_commit_frame [OF c] obtain t where "p3 = p2\<lparr>pl_target := t\<rparr>" by blast
    with pl_commit_records [OF ok c] True app
    show "(txn (pl_target p3) (sk_app_id (pl_sink p)) = Some v \<and> (\<not> pc_is_upsert (pl_cfg p) \<longrightarrow>
      sink_commit (se_ops env 1) (pl_sink p2) (pl_target p2) (rows_or_empty sg rows) v = Inr (pl_target p3)))
      \<and> same_setup p2 p3 \<and> pl_stream p3 = pl_stream p2" by (simp add: rows_or_empty_def)
  next
    case False
    with w v(1) obtain produced x where c: "write_rows sg env rows produced (OffsetVersion v) p2 = (Inr x, p3)" by auto
    from write_rows_frame [OF c] obtain t where "p3 = p2\<lparr>pl_target := t\<rparr>" by blast
    with write_rows_records [OF ok c] False app
    show "(txn (pl_target p3) (sk_app_id (pl_sink p)) = Some v \<and> (\<not> pc_is_upsert (pl_cfg p) \<longrightarrow>
      sink_commit (se_ops env 1) (pl_sink p2) (pl_target p2) (rows_or_empty sg rows) v = Inr (pl_target p3)))
      \<and> same_setup p2 p3 \<and> pl_stream p3 = pl_stream p2" by (simp add: rows_or_empty_def)
  qed
  show thesis
  proof (rule that [OF r v(2)])
    show "txn (pl_target p') (sk_app_id (pl_sink p)) = Some v" using t p' by simp
    show "same_setup p p'" using p2(1) p3 p' committed_batch_frame(1) same_setup_trans by blast
    show "same_stream p p'"
      using committed_batch_frame(2) [of p3 b "batch_closes b beyond p" covered beyond] p2(2) p3 p'
      by (simp add: same_stream_def)
  qed (use t p2 p' in simp)
qed

section \<open>A whole step\<close>

text \<open>The batch \<open>read_batch\<close> makes of what it polled.\<close>

definition batch_of :: "log_batch \<Rightarrow> 'i list \<Rightarrow> lookup_batch \<Rightarrow> 'i batch" where
  "batch_of batch input lookups =
     \<lparr>ba_through = lb_through_version batch, ba_files = length (lb_files batch), ba_input = input,
      ba_rejects = [], ba_lookups = lookups, ba_position = PosDelta (lb_start batch) (lb_end batch)\<rparr>"

lemma batch_of_position [simp]: "ba_position (batch_of b i l) = PosDelta (lb_start b) (lb_end b)"
  by (simp add: batch_of_def)

text \<open>A pipeline about to process a batch: its sink told the stream's identity and the lookups' snapshots.\<close>

definition told :: "lookup_batch \<Rightarrow> ('d, 'tbl) pipeline \<Rightarrow> ('d, 'tbl) pipeline" where
  "told lookups p =
     p\<lparr>pl_sink := set_lookup_snapshots (map snapshot_fields (lk_snapshots lookups))
        (set_source_identity (ls_identity (pl_stream p)) (pl_sink p))\<rparr>"

lemma told_frame [simp]:
  "same_setup p (told lookups p)" "pl_stream (told lookups p) = pl_stream p" "pl_target (told lookups p) = pl_target p"
  "same_progress p (told lookups p)" "sk_app_id (pl_sink (told lookups p)) = sk_app_id (pl_sink p)"
  "pl_dq (told lookups p) = pl_dq p" "pl_cfg (told lookups p) = pl_cfg p" "pl_cutoff (told lookups p) = pl_cutoff p"
  by (simp_all add: told_def same_defs set_lookup_snapshots_def set_source_identity_def)

lemma read_batch_success:
  assumes "read_batch sg env batch p w = (Inr out, p', w')"
  obtains lookups input where
    "lookup_snapshots (pl_lookup_ids p) (pl_lookup_on_open p) (pc_lookups (pl_cfg p)) batch = Inr lookups"
    "sg_scan sg batch = Inr input"
    "process sg env (batch_of batch input lookups) (told lookups p) w = (Inr out, p', w')"
  using assms
  by (auto simp: read_batch_def Let_def batch_of_def told_def split: sum.splits)

text \<open>The ways a step can come to an outcome: nothing to read, or one batch read and committed.\<close>

lemma poll_stream:
  assumes "poll store budget p = Some (r, p')"
  shows "next_batch store budget (pl_stream p) = Some (r, pl_stream p') \<and> p' = p\<lparr>pl_stream := pl_stream p'\<rparr>"
  using assms by (auto simp: poll_def)

definition polls_follow :: "polls \<Rightarrow> change_policy \<Rightarrow> (version \<Rightarrow> (version \<times> add_file) list) \<Rightarrow> bool" where
  "polls_follow po policy items \<longleftrightarrow>
     follows (po_store po) policy items \<and> follows (po_store_again po) policy items"

definition beyond_poll :: "('d, 'tbl) pipeline \<Rightarrow> ('d, 'tbl) pipeline \<Rightarrow> bool" where
  "beyond_poll p q \<longleftrightarrow>
     same_setup p q \<and> pl_target q = pl_target p \<and> pl_sink q = pl_sink p \<and> pl_dq q = pl_dq p
     \<and> pl_lookup_ids q = pl_lookup_ids p \<and> pl_lookup_on_open q = pl_lookup_on_open p
     \<and> pl_prev_published q = pl_prev_published p \<and> (pl_cutoff q = pl_cutoff p \<or> pl_cutoff q = None)"

lemma beyond_poll_intros [simp, intro]:
  "beyond_poll p p" "beyond_poll p (p\<lparr>pl_stream := s\<rparr>)" "beyond_poll p (retire p)"
  by (auto simp: beyond_poll_def same_setup_def retire_def split: option.splits)

lemma beyond_poll_trans [trans]: "beyond_poll p q \<Longrightarrow> beyond_poll q r \<Longrightarrow> beyond_poll p r"
  by (auto simp: beyond_poll_def same_setup_def)

lemma retire_stream: "pl_stream (retire p) = pl_stream p \<or> delta_adjusts (pl_stream p) (pl_stream (retire p))"
  by (auto simp: retire_def delta_adjusts_def split: option.splits)

lemma next_batch_settings:
  assumes "log_ok store" "next_batch store budget s = Some (r, s')"
  shows "ls_policy s' = ls_policy s \<and> ls_stop_after s' = ls_stop_after s"
proof -
  have fin: "ls_policy s2 = ls_policy s1 \<and> ls_stop_after s2 = ls_stop_after s1"
    if "finish_batch store s1 sc = (q, s2)" for s1 s2 sc q
  proof -
    have "ls_policy s3 = ls_policy s1 \<and> ls_stop_after s3 = ls_stop_after s1" if "schema_at store s1 v = (x, s3)" for v x s3
      using schema_at_settings [OF that] by (simp add: same_settings_def)
    with that show ?thesis by (auto simp: finish_batch_def Let_def split: if_splits prod.splits sum.splits)
  qed
  have "ls_policy s1 = ls_policy s \<and> ls_stop_after s1 = ls_stop_after s" if "latest_version store s = (lv, s1)" for lv s1
    using latest_version_settings [OF that] by (simp add: same_settings_def)
  with assms(2) show ?thesis
    by (auto simp: next_batch_def Let_def split: prod.splits sum.splits if_splits option.splits dest!: fin)
qed

lemma reads_retire:
  assumes "delta_source.reads policy items s bs (pl_stream p)"
  shows "delta_source.reads policy items s bs (pl_stream (retire p))"
  using retire_stream [of p] assms by (auto intro: delta_source.reads_adjusted)

lemma poll_reads:
  assumes p: "poll store budget p = Some (r, p')" and fo: "follows store policy items"
    and pol: "ls_policy (pl_stream p) = policy" and so_far: "delta_source.reads policy items s [] (pl_stream p)"
  shows "beyond_poll p p' \<and> ls_policy (pl_stream p') = policy
    \<and> (case r of
         Inl e \<Rightarrow> ls_cursor (pl_stream p') = ls_cursor (pl_stream p)
       | Inr None \<Rightarrow> delta_source.reads policy items s [] (pl_stream p')
       | Inr (Some b) \<Rightarrow> delta_source.reads policy items s [b] (pl_stream p') \<and> lb_end b = ls_cursor (pl_stream p'))"
proof -
  have nb: "next_batch store budget (pl_stream p) = Some (r, pl_stream p')"
    and p': "p' = p\<lparr>pl_stream := pl_stream p'\<rparr>" using poll_stream [OF p] by simp_all
  have serves: "delta_serves policy items (store, budget)" using fo by (simp add: delta_serves_def)
  have polls: "delta_polls policy (store, budget) (pl_stream p) r (pl_stream p')"
    using nb pol by (simp add: delta_polls_def)
  have "beyond_poll p p'" by (subst p') simp
  moreover have "ls_policy (pl_stream p') = policy"
    using next_batch_settings [OF _ nb] fo pol by (simp add: follows_def)
  moreover have "case r of
         Inl e \<Rightarrow> ls_cursor (pl_stream p') = ls_cursor (pl_stream p)
       | Inr None \<Rightarrow> delta_source.reads policy items s [] (pl_stream p')
       | Inr (Some b) \<Rightarrow> delta_source.reads policy items s [b] (pl_stream p') \<and> lb_end b = ls_cursor (pl_stream p')"
  proof (cases r)
    case (Inl e)
    with next_batch_reads [OF _ nb] fo pol show ?thesis by auto
  next
    case (Inr x)
    with polls delta_source.reads_past [OF so_far serves] delta_source.reads_batch [OF so_far serves]
      next_batch_reads [OF _ nb, of items] fo pol
    show ?thesis by (cases x) auto
  qed
  ultimately show ?thesis by blast
qed

lemma retire_policy [simp]: "ls_policy (pl_stream (retire p)) = ls_policy (pl_stream p)"
  by (simp add: retire_def split: option.splits)

lemma step_delta_cases:
  assumes run: "step_delta sg env po p w = Some (r, p', w')"
    and fo: "polls_follow po policy items" and pol: "ls_policy (pl_stream p) = policy"
  obtains
    e where "r = Inl e" "w' = w" "beyond_poll p p'" "ls_policy (pl_stream p') = policy"
  | "r = Inr CaughtUp" "w' = w" "beyond_poll p p'" "ls_policy (pl_stream p') = policy"
      "delta_source.reads policy items (pl_stream p) [] (pl_stream p')"
  | q b where "beyond_poll p q" "ls_policy (pl_stream q) = policy"
      "delta_source.reads policy items (pl_stream p) [b] (pl_stream q)" "lb_end b = ls_cursor (pl_stream q)"
      "read_batch sg env b q w = (r, p', w')"
proof -
  obtain c0 p0 where re0: "retire_cutoff_if_read_through p = (c0, p0)" by fastforce
  then have p0: "p0 = p \<or> p0 = retire p" using retire_if_frame by metis
  then have b0: "beyond_poll p p0" "ls_policy (pl_stream p0) = policy"
      "delta_source.reads policy items (pl_stream p) [] (pl_stream p0)"
    using pol by (auto intro: reads_retire delta_source.reads_nothing)
  obtain r1 p1 where po1: "poll (po_store po) (po_budget po) p0 = Some (r1, p1)"
    using run re0 by (auto simp: step_delta_def split: option.splits)
  have q1: "beyond_poll p0 p1" "ls_policy (pl_stream p1) = policy"
    using poll_reads [OF po1 _ b0(2,3)] fo by (simp_all add: polls_follow_def)
  note rd1 = poll_reads [OF po1 _ b0(2,3), THEN conjunct2, THEN conjunct2]
  show thesis
  proof (cases r1)
    case (Inl e)
    with run re0 po1 have "(r, p', w') = (Inl e, p1, w)" by (simp add: step_delta_def)
    with that(1) [of e] b0 q1 show thesis by (auto intro: beyond_poll_trans)
  next
    case (Inr n1)
    obtain c2 p2 where re2: "(if n1 = None then retire_cutoff_if_read_through p1 else (False, p1)) = (c2, p2)" by fastforce
    show thesis
    proof (cases c2)
      case False
      then have "p2 = p1" using re2 retire_if_frame by (metis prod.inject)
      then have "after_poll sg env n1 p1 w = (r, p', w')"
        using run re0 po1 Inr re2 False by (simp add: step_delta_def)
      with that(2) that(3) [of p1] b0 q1 rd1 fo Inr show thesis
        by (cases n1) (auto simp: after_poll_def polls_follow_def intro: beyond_poll_trans)
    next
      case True
      then have n1: "n1 = None" and p2: "p2 = retire p1"
        using re2 retire_if_frame [of p1 True p2] by (auto split: if_splits)
      have rd2: "delta_source.reads policy items (pl_stream p) [] (pl_stream p2)"
        and pol2: "ls_policy (pl_stream p2) = policy" and b2: "beyond_poll p p2"
        using rd1 fo Inr n1 p2 q1 b0 by (auto simp: polls_follow_def intro: reads_retire beyond_poll_trans)
      obtain r3 p3 where po3: "poll (po_store_again po) (po_budget_again po) p2 = Some (r3, p3)"
        using run re0 po1 Inr re2 True by (auto simp: step_delta_def split: option.splits)
      have q3: "beyond_poll p p3" "ls_policy (pl_stream p3) = policy"
        using poll_reads [OF po3 _ pol2 rd2] fo b2 by (auto simp: polls_follow_def intro: beyond_poll_trans)
      note rd3 = poll_reads [OF po3 _ pol2 rd2, THEN conjunct2, THEN conjunct2]
      show thesis
      proof (cases r3)
        case (Inl e)
        with run re0 po1 \<open>r1 = Inr n1\<close> re2 True po3 have "(r, p', w') = (Inl e, p3, w)" by (simp add: step_delta_def)
        with that(1) [of e] q3 show thesis by auto
      next
        case (Inr n3)
        then have "after_poll sg env n3 p3 w = (r, p', w')"
          using run re0 po1 \<open>r1 = Inr n1\<close> re2 True po3 by (simp add: step_delta_def)
        with that(2) that(3) [of p3] q3 rd3 fo Inr show thesis
          by (cases n3) (auto simp: after_poll_def polls_follow_def)
      qed
    qed
  qed
qed

lemma recorded_txn_Some: "recorded_txn c = Some v \<longleftrightarrow> txn_version_for c = Inr v"
  by (auto simp: recorded_txn_def split: sum.splits)

lemma same_stream_reads:
  assumes "delta_source.reads policy items s bs (pl_stream p)" and "same_stream p p'"
  shows "delta_source.reads policy items s bs (pl_stream p')"
  using assms(2) delta_source.reads_adjusted [OF assms(1)] assms(1) by (auto simp: same_stream_def delta_adjusts_def)

lemma process_outcome:
  "process sg env b p w = (Inr out, p', w') \<Longrightarrow> out \<noteq> CaughtUp \<and> out \<noteq> Waiting"
  by (auto simp: process_def Let_def commit_batch_rows_def split: sum.splits prod.splits if_splits)

lemma read_batch_outcome:
  "read_batch sg env b p w = (Inr out, p', w') \<Longrightarrow> out \<noteq> CaughtUp \<and> out \<noteq> Waiting"
  by (auto simp: read_batch_def Let_def split: sum.splits dest: process_outcome)

text \<open>A step that comes to an outcome has either read nothing, or read one batch and committed it with its record.\<close>

lemma step_delta_outcome:
  assumes ok: "step_ops_ok txn env" and run: "step_delta sg env po p w = Some (Inr out, p', w')"
    and fo: "polls_follow po policy items" and pol: "ls_policy (pl_stream p) = policy"
  obtains
    "out = CaughtUp" "w' = w" "beyond_poll p p'" "ls_policy (pl_stream p') = policy"
      "delta_source.reads policy items (pl_stream p) [] (pl_stream p')"
  | q b lookups input rows rejects covered beyond v where
      "out \<noteq> CaughtUp" "same_setup p p'" "ls_policy (pl_stream p') = policy" "beyond_poll p q"
      "delta_source.reads policy items (pl_stream p) [b] (pl_stream p')"
      "lookup_snapshots (pl_lookup_ids q) (pl_lookup_on_open q) (pc_lookups (pl_cfg q)) b = Inr lookups"
      "sg_scan sg b = Inr input"
      "batch_becomes sg (told lookups q) (batch_of b input lookups) = Inr (rows, rejects, covered, beyond)"
      "recorded_txn (ls_cursor (pl_stream p')) = Some v"
      "txn (pl_target p') (sk_app_id (pl_sink p)) = Some v"
      "\<not> pc_is_upsert (pl_cfg p) \<Longrightarrow> \<exists>s. sk_app_id s = sk_app_id (pl_sink p) \<and>
         sink_commit (se_ops env 1) s (pl_target p) (rows_or_empty sg rows) v = Inr (pl_target p')"
  using run fo pol
proof (cases rule: step_delta_cases)
  case 2
  with that(1) show thesis by simp
next
  case (3 q b)
  from 3(5) obtain lookups input where look: "lookup_snapshots (pl_lookup_ids q) (pl_lookup_on_open q) (pc_lookups (pl_cfg q)) b = Inr lookups"
    and scan: "sg_scan sg b = Inr input"
    and proc: "process sg env (batch_of b input lookups) (told lookups q) w = (Inr out, p', w')"
    by (rule read_batch_success)
  from ok proc batch_of_position obtain rows rejects covered beyond v where
    r: "batch_becomes sg (told lookups q) (batch_of b input lookups) = Inr (rows, rejects, covered, beyond)"
    and v: "txn_version_for (lb_end b) = Inr v" "txn (pl_target p') (sk_app_id (pl_sink (told lookups q))) = Some v"
    and fr: "same_setup (told lookups q) p'" "same_stream (told lookups q) p'"
    and c: "\<not> pc_is_upsert (pl_cfg (told lookups q)) \<Longrightarrow>
       sink_commit (se_ops env 1) (pl_sink (record_cutoff (batch_closes (batch_of b input lookups) beyond (told lookups q)) (told lookups q)))
         (pl_target (told lookups q)) (rows_or_empty sg rows) v = Inr (pl_target p')"
    by (rule process_commits) (rule that; assumption)
  have q: "same_setup p q" "pl_target q = pl_target p" "sk_app_id (pl_sink q) = sk_app_id (pl_sink p)" "pl_cfg q = pl_cfg p"
    using 3(1) by (simp_all add: beyond_poll_def same_setup_def)
  have app: "sk_app_id (pl_sink (record_cutoff c (told lookups q))) = sk_app_id (pl_sink p)" for c
    using q by (simp add: record_cutoff_def set_cutoff_def)
  have str: "same_stream q p'" using fr(2) by (simp add: same_stream_def)
  show thesis
  proof (rule that(2) [OF _ _ _ 3(1) same_stream_reads [OF 3(3) str] look scan r])
    show "out \<noteq> CaughtUp" using process_outcome [OF proc] by simp
    show "same_setup p p'" using q(1) told_frame(1) fr(1) same_setup_trans by blast
    show "ls_policy (pl_stream p') = policy" using str 3(2) by (auto simp: same_stream_def)
    show "recorded_txn (ls_cursor (pl_stream p')) = Some v"
      using v(1) 3(4) str by (auto simp: recorded_txn_Some same_stream_def)
    show "txn (pl_target p') (sk_app_id (pl_sink p)) = Some v" using v(2) q by simp
  qed (use c app q in auto)
qed simp

text \<open>What a batch becomes is up to the configuration, the window and whether rows can be set aside.\<close>

lemma batch_becomes_cong:
  assumes "pl_cfg p = pl_cfg q" "pl_dq p = None \<longleftrightarrow> pl_dq q = None" "pl_cutoff p = pl_cutoff q"
  shows "batch_becomes sg p b = batch_becomes sg q b"
proof -
  have "explain_evaluation sg p = explain_evaluation sg q"
    by (simp only: explain_evaluation_def [abs_def] assms)
  then have "evaluate sg p b = evaluate sg q b"
    by (simp only: evaluate_def assms(1,2) not_None_eq [symmetric] simp_thms)
  moreover have "coerce_all sg p os acc = coerce_all sg q os acc" for os acc
  proof -
    have "cast_one sg p o' = cast_one sg q o'" "filter_one sg p c = filter_one sg q c" for o' c
      by (simp_all only: cast_one_def filter_one_def assms not_None_eq [symmetric] simp_thms)
    then show ?thesis
    proof (induction os arbitrary: acc)
      case (Cons b os)
      then show ?case by (cases acc) simp
    qed simp
  qed
  ultimately show ?thesis by (simp add: batch_becomes_def)
qed

text \<open>Only an open begins a coverage window; no step does.\<close>

lemma cutoff_none [simp]:
  "pl_cutoff p = None \<Longrightarrow> retire p = p"
  "pl_cutoff p = None \<Longrightarrow> pl_cutoff (settle_cutoff closes covered beyond p) = None"
  "pl_cutoff p = None \<Longrightarrow> pl_cutoff (committed_batch b closes covered beyond p) = None"
  by (simp_all add: retire_def settle_cutoff_def Let_def committed_batch_def)

lemma process_no_window:
  assumes "process sg env b p w = (Inr out, p', w')" and "pl_cutoff p = None"
  shows "pl_cutoff p' = None"
proof -
  obtain rows rejects covered beyond offs p2 p3 where
    "batch_becomes sg p b = Inr (rows, rejects, covered, beyond)" "offsets_for (ba_position b) = Inr offs"
    "same_setup p p2" "pl_stream p2 = pl_stream p" "pl_target p2 = pl_target p"
    "pl_sink p2 = pl_sink (record_cutoff (batch_closes b beyond p) p)"
    and p2: "same_progress p p2"
    and "sum_list (map rejected_len rejects) > 0 \<longrightarrow> pl_dq p \<noteq> None"
    and w: "if rows = [] then pl_commit env [sg_empty sg] offs p2 = (Inr (), p3)
       else \<exists>produced x. write_rows sg env rows produced offs p2 = (Inr x, p3)"
    and p': "p' = committed_batch b (batch_closes b beyond p) covered beyond p3"
    and "outcome_reports sg env b rows rejects covered offs p2 p3 out"
    by (rule process_success [OF assms(1)])
  from w have "\<exists>t. p3 = p2\<lparr>pl_target := t\<rparr>"
    by (metis pl_commit_frame write_rows_frame)
  with p2 assms(2) have "pl_cutoff p3 = None" by (auto simp: same_progress_def)
  with p' show ?thesis by simp
qed

lemma step_delta_no_window:
  assumes run: "step_delta sg env po p w = Some (Inr out, p', w')" and none: "pl_cutoff p = None"
  shows "pl_cutoff p' = None"
proof -
  have re: "retire_cutoff_if_read_through q = (False, q)" if "pl_cutoff q = None" for q
    using that by (simp add: retire_cutoff_if_read_through_def)
  have rd: "pl_cutoff p' = None" if rb: "read_batch sg env b q w = (Inr out, p', w')" and "pl_cutoff q = None" for b q
  proof -
    obtain lookups input where
      "lookup_snapshots (pl_lookup_ids q) (pl_lookup_on_open q) (pc_lookups (pl_cfg q)) b = Inr lookups"
      "sg_scan sg b = Inr input"
      "process sg env (batch_of b input lookups) (told lookups q) w = (Inr out, p', w')"
      by (rule read_batch_success [OF rb])
    with that(2) show ?thesis by (auto intro: process_no_window)
  qed
  obtain r1 p1 where po1: "poll (po_store po) (po_budget po) p = Some (r1, p1)"
    using run re [OF none] by (auto simp: step_delta_def split: option.splits)
  then have p1: "pl_cutoff p1 = None" using none poll_stream [OF po1] by (metis pipeline.select_convs(6) pipeline.surjective pipeline.update_convs(2))
  from run re [OF none] po1 re [OF p1] have "\<exists>n. r1 = Inr n \<and> after_poll sg env n p1 w = (Inr out, p', w')"
    by (auto simp: step_delta_def split: sum.splits if_splits)
  then obtain n where "after_poll sg env n p1 w = (Inr out, p', w')" by blast
  with p1 rd show ?thesis by (cases n) (auto simp: after_poll_def)
qed

lemma read_batch_stream:
  assumes "read_batch sg env b q w = (Inr out, p', w')"
  shows "same_stream q p'"
proof -
  obtain lookups input where
    "lookup_snapshots (pl_lookup_ids q) (pl_lookup_on_open q) (pc_lookups (pl_cfg q)) b = Inr lookups"
    "sg_scan sg b = Inr input"
    and pr: "process sg env (batch_of b input lookups) (told lookups q) w = (Inr out, p', w')"
    by (rule read_batch_success [OF assms])
  obtain rows rejects covered beyond offs p2 p3 where
    "batch_becomes sg (told lookups q) (batch_of b input lookups) = Inr (rows, rejects, covered, beyond)"
    "offsets_for (ba_position (batch_of b input lookups)) = Inr offs"
    "same_setup (told lookups q) p2" and p2: "pl_stream p2 = pl_stream (told lookups q)"
    and "pl_target p2 = pl_target (told lookups q)"
    "pl_sink p2 = pl_sink (record_cutoff (batch_closes (batch_of b input lookups) beyond (told lookups q)) (told lookups q))"
    and "same_progress (told lookups q) p2"
    and "sum_list (map rejected_len rejects) > 0 \<longrightarrow> pl_dq (told lookups q) \<noteq> None"
    and w: "if rows = [] then pl_commit env [sg_empty sg] offs p2 = (Inr (), p3)
       else \<exists>produced x. write_rows sg env rows produced offs p2 = (Inr x, p3)"
    and p': "p' = committed_batch (batch_of b input lookups) (batch_closes (batch_of b input lookups) beyond (told lookups q)) covered beyond p3"
    and "outcome_reports sg env (batch_of b input lookups) rows rejects covered offs p2 p3 out"
    by (rule process_success [OF pr])
  from w have "\<exists>t. p3 = p2\<lparr>pl_target := t\<rparr>"
    by (metis pl_commit_frame write_rows_frame)
  with p2 have "pl_stream p3 = pl_stream q" by auto
  then show ?thesis unfolding p' using committed_batch_frame(2) [of p3] by (simp add: same_stream_def)
qed

section \<open>A step that failed\<close>

definition only_tables :: "('d, 'tbl) pipeline \<Rightarrow> ('d, 'tbl) pipeline \<Rightarrow> bool" where
  "only_tables p p' \<longleftrightarrow> same_setup p p' \<and> same_progress p p' \<and> pl_stream p' = pl_stream p"

lemma only_tables_simps [simp]:
  "only_tables p p" "only_tables p (record_cutoff c p)" "only_tables p (p\<lparr>pl_target := t\<rparr>)" "only_tables p (told l p)"
  "only_tables p (p\<lparr>pl_sink := set_source_identity i (pl_sink p)\<rparr>)"
  by (simp_all add: only_tables_def) (simp_all add: same_defs set_source_identity_def)

lemma only_tables_trans: "only_tables p q \<Longrightarrow> only_tables q r \<Longrightarrow> only_tables p r"
  unfolding only_tables_def by (metis same_setup_trans same_progress_trans)

lemma write_rejects_only_tables:
  "write_rejects env rejects offs p w = (r, p', w') \<Longrightarrow> only_tables p p'"
  by (drule write_rejects_frame) (auto simp: only_tables_def same_defs)

lemma commit_batch_rows_failed:
  assumes "commit_batch_rows sg env b rows produced offs x closes p = (Inl e, p')"
  shows "only_tables p p'"
proof -
  have "\<exists>t. p' = p\<lparr>pl_target := t\<rparr>"
    using assms by (auto simp: commit_batch_rows_def split: prod.splits if_splits sum.splits
        dest: pl_commit_frame write_rows_frame)
  then show ?thesis by auto
qed

lemma process_failure:
  assumes "process sg env b p w = (Inl e, p', w')"
  shows "only_tables p p'"
proof -
  show ?thesis
  proof (cases "evaluate sg p b")
    case (Inl x)
    with assms show ?thesis by (simp add: process_def)
  next
    case (Inr x)
    obtain made rejects0 unevaluable reevaluations where x: "x = (made, rejects0, unevaluable, reevaluations)"
      by (cases x) auto
    show ?thesis
    proof (cases "staged_columns_missing sg p (produced_columns sg made)")
      case True
      with assms Inr x show ?thesis by (simp add: process_def)
    next
      case False
      note staged = False
      show ?thesis
      proof (cases "coerce_all sg p made ([], rejects0, 0, 0)")
        case (Inl y)
        with assms Inr x staged show ?thesis by (simp add: process_def)
      next
        case (Inr y)
        obtain rows rejects covered beyond where y: "y = (rows, rejects, covered, beyond)" by (cases y) auto
        define p1 where "p1 = record_cutoff (batch_closes b beyond p) p"
        note run = assms [unfolded process_def \<open>evaluate sg p b = Inr x\<close> x sum.case prod.case Let_def
            if_not_P [OF staged] Inr y p1_def [symmetric]]
        show ?thesis
        proof (cases "offsets_for (ba_position b)")
          case (Inl z)
          with run have "p' = p1" by simp
          then show ?thesis by (simp add: p1_def)
        next
          case (Inr offs)
          obtain r2 p2 w2 where 2: "(if sum_list (map rejected_len rejects) > 0
              then write_rejects env rejects offs p1 w else (Inr 0, p1, w)) = (r2, p2, w2)"
            by (metis prod_cases3)
          then have "only_tables p1 p2" by (auto split: if_splits intro: write_rejects_only_tables)
          moreover have "only_tables p2 p'"
            using run [unfolded Inr sum.case 2 prod.case]
            by (auto split: sum.splits prod.splits intro: commit_batch_rows_failed)
          ultimately show ?thesis unfolding p1_def by (metis only_tables_simps(2) only_tables_trans)
        qed
      qed
    qed
  qed
qed

end
