(* ===== verification/Pipeline_Example.thy ===== *)
theory Pipeline_Example
  imports Pipeline_Spec
begin

text \<open>
  A pipeline small enough to evaluate: the source is the log of \<open>Log_Stream\<close>'s examples, a row is the path
  of a file, and the target a list of rows beside its \<open>txn\<close>s.
\<close>

section \<open>A pipeline and its stages\<close>

text \<open>The rows are the paths of the files read; the target is a list of them beside its \<open>txn\<close>s.\<close>

type_synonym example_table = "string list list \<times> (string \<Rightarrow> int option)"

definition example_target_ops :: "(example_table, string list) delta_ops" where
  "example_target_ops =
     \<lparr>table_version = (\<lambda>t. Some (length (fst t))), table_protocol = (\<lambda>_. Some (JObj [])), table_txn = snd,
      new_session = (\<lambda>_. Inr ()),
      do_write = (\<lambda>t rows props size. Inr (fst t @ rows, txn_after props (snd t))),
      prepare_merge = (\<lambda>_ _ _. Inr ()),
      do_merge = (\<lambda>t rows plan props. Inr (t, \<lparr>mm_updated = 0, mm_inserted = 0, mm_files_scanned = 0\<rparr>)),
      num_rows = length, empty_like = (\<lambda>_. [])\<rparr>"

definition example_stages :: "(string list, string list, string list, unit) stages" where
  "example_stages =
     \<lparr>sg_scan = (\<lambda>b. Inr [map add_path (lb_files b)]), sg_in_rows = length,
      sg_apply = (\<lambda>bs _ _. Inr (bs, None, 0)), sg_cross_row = False, sg_conform = (\<lambda>bs rs. Inr (bs, rs)),
      sg_out_rows = length, sg_columns_present = (\<lambda>_. [''path'']), sg_target_fields = [''path''],
      sg_coerce = Inr, sg_coerce_quarantining = (\<lambda>b. Inr (b, None)), sg_filter = (\<lambda>_ r. Inr (r, 0, 0)),
      sg_require_timestamps = (\<lambda>_ _. Inr ()), sg_require_partitions = (\<lambda>_ _. Inr ()), sg_rows = length,
      sg_empty = [], sg_collapse = (\<lambda>rs. Inr (concat rs))\<rparr>"

definition example_config :: pipeline_config where
  "example_config =
     \<lparr>pc_name = ''p'', pc_dedup_timestamp = None, pc_dedup_partition = [], pc_is_upsert = False, pc_staged = False,
      pc_max_evaluation_rejects = 0, pc_lookups = [], pc_dq_uri = ''t_dq''\<rparr>"

definition example_pipeline :: "log_stream \<Rightarrow> example_table \<Rightarrow> (unit, example_table) pipeline" where
  "example_pipeline s t =
     \<lparr>pl_cfg = example_config, pl_stream = s, pl_offsets = offset_store_new ''ddi'' 0, pl_target = t,
      pl_sink = sink_new ''ddi'' 0, pl_cutoff = None, pl_dq = None, pl_lookup_ids = [], pl_lookup_on_open = [],
      pl_publishes = False, pl_prev_published = None\<rparr>"

definition example_env :: "(example_table, string list, string list \<times> (bool \<times> delta_error option) list) step_env" where
  "example_env =
     \<lparr>se_ops = (\<lambda>_. example_target_ops), se_reopen = (\<lambda>_. Inr ([], Map.empty)), se_memory = ([], Map.empty),
      se_plan = (\<lambda>_ _ _. Inr example_plan),
      se_dq = example_dq_ops, se_now = 0, se_write_id = ''''\<rparr>"

definition example_polls :: polls where
  "example_polls =
     \<lparr>po_store = example_log, po_budget = None, po_store_again = example_log, po_budget_again = None\<rparr>"

lemmas step_delta_defs =
  step_delta_def poll_def retire_cutoff_if_read_through_def after_poll_def read_batch_def lookup_snapshots_def
  process_def evaluate_def lookup_none_def produced_columns_def staged_columns_missing_def cast_one_def
  filter_one_def batch_closes_def record_cutoff_def offsets_for_def txn_version_for_def
  last_fully_consumed_version_def is_commit_boundary_def commit_batch_rows_def write_rows_def pl_commit_def
  sink_commit_def sink_write_def committed_batch_def publish_def acknowledge_def settle_cutoff_def
  apply_lookup_table_id_transitions_def set_cutoff_def set_lookup_snapshots_def set_source_identity_def
  sink_new_def properties_def txn_after_def

lemmas example_pipeline_defs =
  example_target_ops_def example_stages_def example_config_def example_pipeline_def example_env_def
  example_polls_def

lemma example_step:
  "\<exists>p w. step_delta example_stages example_env example_polls (example_pipeline example_stream ([], Map.empty)) ([], [])
      = Some (Inr (Progressed 3 3 3 (Some 1) None 0 0 0 0), p, w)
   \<and> pl_target p = ([[''a'', ''c'', ''d'']], [''ddi'' \<mapsto> 3])"
  by (simp add: example_defs next_batch_defs step_delta_defs example_pipeline_defs)

end
