(* ===== verification/Run.thy ===== *)
theory Run
  imports Pipeline_Example
begin

text \<open>
  A run to the end of a log: every step of a pipeline returns, and \<open>run_until_caught_up\<close> ends with an
  error or with everything up to the head it saw read and committed.
\<close>

section \<open>A step returns\<close>




section \<open>What a step that read nothing saw\<close>




section \<open>A run ends\<close>






end
