(* ===== verification/Exactly_Once.thy ===== *)
theory Exactly_Once
  imports Run
begin

text \<open>
  What a Delta pipeline does over its whole life: steps, failures, crashes and restarts, with other
  writers beside it on the target. The system refines the exactly-once reader of \<open>Reader\<close>; and a
  run to the end of the log ends.
\<close>

section \<open>The system\<close>

text \<open>
  What is fixed of a deployment: its pipeline as an open leaves it (its configuration, its offset store,
  its sink's app id, the policy of its stream and whether there is a data-quality table are read off
  \<open>de_like\<close>), its stages, what the source's log holds, and how to read off a target the \<open>txn\<close> of
  an app id and the rows this pipeline's commits appended.
\<close>

record ('i, 'o, 'r, 'd, 'tbl) deployment =
  de_like :: "('d, 'tbl) pipeline"
  de_stages :: "('i, 'o, 'r, 'd) stages"
  de_items :: "version \<Rightarrow> (version \<times> add_file) list"
  de_txn :: "'tbl \<Rightarrow> string \<Rightarrow> int option"
  de_rows :: "'tbl \<Rightarrow> 'r list"

definition de_app :: "('i, 'o, 'r, 'd, 'tbl) deployment \<Rightarrow> string" where
  "de_app D = os_app_id (pl_offsets (de_like D))"

definition de_policy :: "('i, 'o, 'r, 'd, 'tbl) deployment \<Rightarrow> change_policy" where
  "de_policy D = ls_policy (pl_stream (de_like D))"

definition de_start :: "('i, 'o, 'r, 'd, 'tbl) deployment \<Rightarrow> stream_cursor" where
  "de_start D = at_version (os_starting_version (pl_offsets (de_like D)))"

text \<open>Two states of the target this pipeline cannot tell apart: other writers' commits leave its rows and its record.\<close>

definition same_view :: "('i, 'o, 'r, 'd, 'tbl) deployment \<Rightarrow> 'tbl \<Rightarrow> 'tbl \<Rightarrow> bool" where
  "same_view D t t' \<longleftrightarrow> de_rows D t' = de_rows D t \<and> de_txn D t' (de_app D) = de_txn D t (de_app D)"

text \<open>A write that succeeds has appended its rows.\<close>

definition appends :: "('i, 'o, 'r, 'd, 'tbl) deployment \<Rightarrow> ('tbl, 'r, 'w) step_env \<Rightarrow> bool" where
  "appends D env \<longleftrightarrow>
     step_ops_ok (de_txn D) env
     \<and> (\<forall>n t rows props size t'. do_write (se_ops env n) t rows props size = Inr t' \<longrightarrow> de_rows D t' = de_rows D t @ rows)"

text \<open>
  A pipeline opened over a target: configured as the deployment is, outside any coverage window, its
  stream where the target's record says (\<open>src/offset.rs\<close>).
\<close>

definition opened :: "('i, 'o, 'r, 'd, 'tbl) deployment \<Rightarrow> 'tbl \<Rightarrow> ('d, 'tbl) pipeline \<Rightarrow> bool" where
  "opened D t p \<longleftrightarrow>
     same_setup (de_like D) p \<and> sk_app_id (pl_sink p) = de_app D \<and> pl_cutoff p = None
     \<and> ls_policy (pl_stream p) = de_policy D \<and> same_view D t (pl_target p)
     \<and> resume_cursor (pl_offsets p) (\<lambda>a. Inr (de_txn D t a)) = Inr (ls_cursor (pl_stream p))"

text \<open>
  The states reached: the target and the data-quality table's world as they are stored, and the pipeline
  that runs over them, if one does. A step that fails is retried by a fresh open (\<open>src/main.rs\<close>,
  \<open>attempt\<close>); its commit may have landed although the step never heard of it, and then the target is as
  that step's success would have left it. A process may stop at any point.
\<close>

inductive reaches ::
    "('i, 'o, 'r, 'd, 'tbl) deployment \<Rightarrow> 'tbl \<Rightarrow> 'w \<Rightarrow> ('d, 'tbl) pipeline option \<Rightarrow> bool" for D where
  reaches_fresh: "de_txn D t (de_app D) = None \<Longrightarrow> de_rows D t = [] \<Longrightarrow> reaches D t w None"
| reaches_open: "reaches D t w None \<Longrightarrow> opened D t p \<Longrightarrow> reaches D t w (Some p)"
| reaches_step: "reaches D t w (Some p) \<Longrightarrow> appends D env \<Longrightarrow> polls_follow po (de_policy D) (de_items D) \<Longrightarrow>
    step_delta (de_stages D) env po p w = Some (Inr out, p', w') \<Longrightarrow> same_view D (pl_target p') t' \<Longrightarrow>
    reaches D t' w' (Some p')"
| reaches_failed: "reaches D t w (Some p) \<Longrightarrow> step_delta (de_stages D) env po p w = Some (Inl e, p', w') \<Longrightarrow>
    reaches D t w' None"
| reaches_failed_landed: "reaches D t w (Some p) \<Longrightarrow> step_delta (de_stages D) env po p w = Some (Inl e, p', w') \<Longrightarrow>
    appends D env' \<Longrightarrow> polls_follow po (de_policy D) (de_items D) \<Longrightarrow>
    step_delta (de_stages D) env' po p w = Some (Inr out, p'', w'') \<Longrightarrow> same_view D (pl_target p'') t' \<Longrightarrow>
    reaches D t' w' None"
| reaches_stop: "reaches D t w p \<Longrightarrow> reaches D t w None"
| reaches_others: "reaches D t w p \<Longrightarrow> same_view D t t' \<Longrightarrow> reaches D t' w' p"

section \<open>Every row exactly once\<close>

text \<open>The rows of a source batch: what the deployment makes of it, whatever process does.\<close>

definition rows_of_batch ::
    "('i, 'o, 'r, 'd, 'tbl) deployment \<Rightarrow> log_batch \<Rightarrow> lookup_batch \<Rightarrow> 'r list res" where
  "rows_of_batch D b lookups =
     res_bind (sg_scan (de_stages D) b) (\<lambda>input.
     res_bind (batch_becomes (de_stages D) (de_like D) (batch_of b input lookups)) (\<lambda>(rows, _).
     Inr (rows_or_empty (de_stages D) rows)))"

definition holds_batches :: "('i, 'o, 'r, 'd, 'tbl) deployment \<Rightarrow> 'tbl \<Rightarrow> log_batch list \<Rightarrow> bool" where
  "holds_batches D t bs \<longleftrightarrow>
     (\<exists>rows. list_all2 (\<lambda>b rs. \<exists>lookups. rows_of_batch D b lookups = Inr rs) bs rows \<and> de_rows D t = concat rows)"

lemma holds_batches_Nil: "de_rows D t = [] \<Longrightarrow> holds_batches D t []"
  by (simp add: holds_batches_def)

lemma holds_batches_snoc:
  assumes "holds_batches D t bs" "rows_of_batch D b lookups = Inr rs" "de_rows D t' = de_rows D t @ rs"
  shows "holds_batches D t' (bs @ [b])"
proof -
  from assms(1) obtain rows where "list_all2 (\<lambda>b rs. \<exists>lookups. rows_of_batch D b lookups = Inr rs) bs rows"
    and "de_rows D t = concat rows" by (auto simp: holds_batches_def)
  with assms(2,3) show ?thesis
    unfolding holds_batches_def by (intro exI [of _ "rows @ [rs]"]) (auto intro!: list_all2_appendI)
qed

text \<open>The pipeline that runs agrees with the deployment and with the target it runs over.\<close>

definition in_service :: "('i, 'o, 'r, 'd, 'tbl) deployment \<Rightarrow> 'tbl \<Rightarrow> ('d, 'tbl) pipeline \<Rightarrow> bool" where
  "in_service D t p \<longleftrightarrow>
     same_setup (de_like D) p \<and> sk_app_id (pl_sink p) = de_app D \<and> pl_cutoff p = None
     \<and> ls_policy (pl_stream p) = de_policy D \<and> same_view D t (pl_target p)"

text \<open>A deployment outside any coverage window, whose commits append.\<close>

definition append_deployment :: "('i, 'o, 'r, 'd, 'tbl) deployment \<Rightarrow> bool" where
  "append_deployment D \<longleftrightarrow>
     pl_cutoff (de_like D) = None \<and> sk_app_id (pl_sink (de_like D)) = de_app D \<and> \<not> pc_is_upsert (pl_cfg (de_like D))"

abbreviation commits_of where
  "commits_of D \<equiv> delta_source.commits (de_policy D) (de_items D) (pl_offsets (de_like D)) (de_start D)"

lemma opened_in_service: "opened D t p \<Longrightarrow> in_service D t p"
  by (simp add: opened_def in_service_def)

lemma same_view_trans: "same_view D t u \<Longrightarrow> same_view D u v \<Longrightarrow> same_view D t v"
  by (simp add: same_view_def)

lemma same_view_sym: "same_view D t u \<Longrightarrow> same_view D u t"
  by (simp add: same_view_def)

lemma same_view_batches: "same_view D t t' \<Longrightarrow> holds_batches D t bs \<longleftrightarrow> holds_batches D t' bs"
  by (simp add: same_view_def holds_batches_def)

text \<open>One step that comes to an outcome, over what the system holds.\<close>

lemma step_commits:
  assumes D: "append_deployment D" and serv: "in_service D t p" and so_far: "commits_of D bs (de_txn D t (de_app D)) (Some (pl_stream p))"
    and holds: "holds_batches D t bs" and ap: "appends D env" and po: "polls_follow po (de_policy D) (de_items D)"
    and run: "step_delta (de_stages D) env po p w = Some (Inr out, p', w')" and view: "same_view D (pl_target p') t'"
  shows "in_service D t' p' \<and>
    (\<exists>bs'. commits_of D bs' (de_txn D t' (de_app D)) (Some (pl_stream p')) \<and> holds_batches D t' bs')"
proof -
  have ok: "step_ops_ok (de_txn D) env" using ap by (simp add: appends_def)
  have pol: "ls_policy (pl_stream p) = de_policy D" and app: "sk_app_id (pl_sink p) = de_app D"
    and nocut: "pl_cutoff p = None" and conf: "same_setup (de_like D) p" and tv: "same_view D t (pl_target p)"
    using serv by (simp_all add: in_service_def)
  from ok run po pol show ?thesis
  proof (cases rule: step_delta_outcome)
    case 1
    have p': "same_setup p p'" "pl_target p' = pl_target p" "pl_sink p' = pl_sink p" "pl_cutoff p' = None"
      using 1(3) nocut by (auto simp: beyond_poll_def)
    have tt': "same_view D t t'" using tv view p'(2) by (simp add: same_view_def)
    then have "commits_of D bs (de_txn D t' (de_app D)) (Some (pl_stream p'))"
      using delta_source.commits_nothing [OF so_far 1(5)] by (simp add: same_view_def)
    moreover have "holds_batches D t' bs" using holds same_view_batches [OF tt'] by simp
    moreover have "in_service D t' p'"
      using 1(4) p' app same_setup_trans [OF conf p'(1)] same_view_sym [OF view] by (simp add: in_service_def)
    ultimately show ?thesis by blast
  next
    case (2 q b lookups input rows rejects covered beyond v)
    have q: "pl_cfg q = pl_cfg (de_like D)" "pl_dq q = None \<longleftrightarrow> pl_dq (de_like D) = None" "pl_cutoff q = None"
      using 2(4) conf nocut by (auto simp: beyond_poll_def same_setup_def)
    have cfg: "\<not> pc_is_upsert (pl_cfg p)" using D conf by (simp add: append_deployment_def same_setup_def)
    have "batch_becomes (de_stages D) (told lookups q) (batch_of b input lookups)
        = batch_becomes (de_stages D) (de_like D) (batch_of b input lookups)"
      using q D by (intro batch_becomes_cong) (simp_all add: append_deployment_def)
    with 2(7,8) have rows: "rows_of_batch D b lookups = Inr (rows_or_empty (de_stages D) rows)"
      by (simp add: rows_of_batch_def)
    have window: "pl_cutoff p' = None" using step_delta_no_window [OF run] nocut by simp
    from 2(11) [OF cfg] obtain s where
      c: "sink_commit (se_ops env 1) s (pl_target p) (rows_or_empty (de_stages D) rows) v = Inr (pl_target p')" by blast
    then have "de_rows D (pl_target p') = de_rows D (pl_target p) @ rows_or_empty (de_stages D) rows"
      using ap by (auto simp: sink_commit_def sink_write_def appends_def split: sum.splits)
    then have rows': "de_rows D t' = de_rows D t @ rows_or_empty (de_stages D) rows"
      using view tv by (simp add: same_view_def)
    have "de_txn D t' (de_app D) = Some v" using 2(10) app view by (simp add: same_view_def)
    then have "commits_of D (bs @ [b]) (de_txn D t' (de_app D)) (Some (pl_stream p'))"
      using delta_source.commits_batch [OF so_far 2(5,9)] by simp
    moreover have "holds_batches D t' (bs @ [b])" by (rule holds_batches_snoc [OF holds rows rows'])
    moreover have "in_service D t' p'"
      using 2(2,3) app same_setup_trans [OF conf 2(2)] same_view_sym [OF view] window
      by (simp add: in_service_def same_setup_def)
    ultimately show ?thesis by blast
  qed
qed

lemma opens_over_record:
  assumes D: "append_deployment D" and so_far: "commits_of D bs (de_txn D t (de_app D)) None" and op: "opened D t p"
  shows "commits_of D bs (de_txn D t (de_app D)) (Some (pl_stream p))"
proof -
  have off: "pl_offsets p = pl_offsets (de_like D)" using op by (simp add: opened_def same_setup_def)
  have res: "resume_cursor (pl_offsets (de_like D)) (\<lambda>a. Inr (de_txn D t a)) = Inr (ls_cursor (pl_stream p))"
    using op off by (simp add: opened_def)
  show ?thesis
  proof (cases "de_txn D t (de_app D)")
    case None
    then have "ls_cursor (pl_stream p) = de_start D"
      using res by (simp add: de_app_def de_start_def resume_cursor_fresh)
    with so_far None show ?thesis by (auto intro: delta_source.commits_fresh)
  next
    case (Some v)
    have "resume_cursor (pl_offsets (de_like D)) (\<lambda>a. Inr (de_txn D t a))
        = resume_cursor (pl_offsets (de_like D)) (\<lambda>_. Inr (Some v))"
      using Some by (simp add: resume_cursor_def last_committed_version_def de_app_def)
    then have "resumed_stream (pl_offsets (de_like D)) v (pl_stream p)" using res by (simp add: resumed_stream_def)
    with so_far Some show ?thesis by (auto intro: delta_source.commits_resumed)
  qed
qed

text \<open>The system refines the exactly-once reader.\<close>

lemma reaches_commits:
  assumes D: "append_deployment D"
  shows "reaches D t w p \<Longrightarrow>
    (\<exists>bs. commits_of D bs (de_txn D t (de_app D)) (map_option pl_stream p) \<and> holds_batches D t bs)
    \<and> (\<forall>q. p = Some q \<longrightarrow> in_service D t q)"
proof (induction rule: reaches.induct)
  case (reaches_fresh t w)
  then show ?case by (auto intro: delta_source.commits_none holds_batches_Nil)
next
  case (reaches_open t w p)
  then show ?case by (auto intro: opens_over_record [OF D] opened_in_service)
next
  case (reaches_step t w p env po out p' w' t')
  then show ?case using step_commits [OF D _ _ _ reaches_step.hyps(2-5)] by fastforce
next
  case (reaches_failed t w p env po e p' w')
  then show ?case by (auto dest: delta_source.commits_stop)
next
  case (reaches_failed_landed t w p env po e p' w' env' out p'' w'' t')
  then obtain bs where "commits_of D bs (de_txn D t' (de_app D)) (Some (pl_stream p''))" "holds_batches D t' bs"
    using step_commits [OF D _ _ _ reaches_failed_landed.hyps(3-6)] by fastforce
  then show ?case using delta_source.commits_stop by fastforce
next
  case (reaches_stop t w p)
  then show ?case using delta_source.commits_stop by fastforce
next
  case (reaches_others t w p t' w')
  then have "de_txn D t' (de_app D) = de_txn D t (de_app D)" by (simp add: same_view_def)
  with reaches_others show ?case
    by (auto simp: same_view_batches [OF reaches_others.hyps(2)] in_service_def
        dest: same_view_trans [OF same_view_sym [OF reaches_others.hyps(2)]])
qed

definition exactly_once :: "('i, 'o, 'r, 'd, 'tbl) deployment \<Rightarrow> 'tbl \<Rightarrow> log_batch list \<Rightarrow> stream_cursor \<Rightarrow> bool" where
  "exactly_once D t bs c \<longleftrightarrow>
     (case de_txn D t (de_app D) of
        None \<Rightarrow> bs = [] \<and> c = de_start D
      | Some v \<Rightarrow> bs \<noteq> [] \<and> txn_version_for c = Inr v)
     \<and> stream_upto (de_items D) c = stream_upto (de_items D) (de_start D) @ concat (map batch_piece bs)
     \<and> holds_batches D t bs"

text \<open>
  C1. Every row of the source exactly once: whatever sequence of steps, failed steps, commits that landed
  unheard of, crashes, restarts and other writers a deployment has gone through, the target holds what
  the deployment makes of a sequence of batches, in order and nothing else of this pipeline's, and these
  batches cut the source's log, from the configured start up to the cursor the target itself records,
  into consecutive pieces: no file is left out and none is delivered twice.
\<close>

theorem every_row_exactly_once:
  assumes "append_deployment D" and "reaches D t w p"
  shows "\<exists>bs c. exactly_once D t bs c"
proof -
  from reaches_commits [OF assms] obtain bs where
    "commits_of D bs (de_txn D t (de_app D)) (map_option pl_stream p)" and h: "holds_batches D t bs" by blast
  from delta_source.commits_exactly_once [OF this(1)] obtain c where
    "delta_source.committed_upto (de_items D) (de_start D) bs (de_txn D t (de_app D)) c" by blast
  with h show ?thesis
    by (auto simp: exactly_once_def delta_source.committed_upto_def recorded_txn_Some split: option.splits)
qed

section \<open>A deployment to evaluate\<close>

definition example_deployment :: "(string list, string list, string list, unit, example_table) deployment" where
  "example_deployment =
     \<lparr>de_like = example_pipeline example_stream ([], Map.empty), de_stages = example_stages,
      de_items = commit_items example_log (ls_policy example_stream), de_txn = snd, de_rows = fst\<rparr>"


lemma example_append: "append_deployment example_deployment"
  by (simp add: append_deployment_def example_pipeline_defs example_deployment_def de_app_def offset_store_new_def sink_new_def)

lemma example_appends: "appends example_deployment example_env"
  by (simp add: appends_def step_ops_ok_def delta_ops_ok_def example_pipeline_defs example_deployment_def)

lemma example_follows: "polls_follow example_polls (de_policy example_deployment) (de_items example_deployment)"
  by (simp add: polls_follow_def follows_def example_polls_def example_log_ok example_deployment_def
      de_policy_def example_pipeline_def)

lemma example_opened:
  "opened example_deployment ([], Map.empty) (example_pipeline example_stream ([], Map.empty))"
  by (simp add: opened_def example_pipeline_defs example_deployment_def example_defs de_app_def de_policy_def same_view_def
      offset_store_new_def sink_new_def resume_cursor_def last_committed_version_def)

lemma example_reaches:
  "\<exists>p (w :: string list \<times> (bool \<times> delta_error option) list). reaches example_deployment ([[''a'', ''c'', ''d'']], [''ddi'' \<mapsto> 3]) w (Some p)"
proof -
  obtain p w where run: "step_delta example_stages example_env example_polls (example_pipeline example_stream ([], Map.empty)) ([], [])
      = Some (Inr (Progressed 3 3 3 (Some 1) None 0 0 0 0), p, w)"
    and t: "pl_target p = ([[''a'', ''c'', ''d'']], [''ddi'' \<mapsto> 3])" using example_step by blast
  have "reaches example_deployment ([], Map.empty) ([], []) None"
    by (rule reaches_fresh) (simp_all add: example_deployment_def)
  then have "reaches example_deployment ([], Map.empty) ([], []) (Some (example_pipeline example_stream ([], Map.empty)))"
    by (rule reaches_open) (rule example_opened)
  moreover have "step_delta (de_stages example_deployment) example_env example_polls (example_pipeline example_stream ([], Map.empty)) ([], [])
      = Some (Inr (Progressed 3 3 3 (Some 1) None 0 0 0 0), p, w)" using run by (simp add: example_deployment_def)
  ultimately have "reaches example_deployment ([[''a'', ''c'', ''d'']], [''ddi'' \<mapsto> 3]) w (Some p)"
    by (rule reaches_step [OF _ example_appends example_follows]) (simp add: t same_view_def)
  then show ?thesis by blast
qed

theorem every_row_exactly_once_witness:
  "\<exists>bs c. exactly_once example_deployment ([[''a'', ''c'', ''d'']], [''ddi'' \<mapsto> 3]) bs c \<and> c = at_version 4 \<and> bs \<noteq> []"
proof -
  obtain p and w :: "string list \<times> (bool \<times> delta_error option) list"
    where "reaches example_deployment ([[''a'', ''c'', ''d'']], [''ddi'' \<mapsto> 3]) w (Some p)"
    using example_reaches by blast
  from every_row_exactly_once [OF example_append this] obtain bs c
    where e: "exactly_once example_deployment ([[''a'', ''c'', ''d'']], [''ddi'' \<mapsto> 3]) bs c" by blast
  have "de_txn example_deployment ([[''a'', ''c'', ''d'']], [''ddi'' \<mapsto> 3]) (de_app example_deployment) = Some 3"
    by (simp add: example_deployment_def de_app_def example_pipeline_def offset_store_new_def)
  with e have "bs \<noteq> []" "txn_version_for c = Inr 3" by (simp_all add: exactly_once_def)
  with e show ?thesis by (auto simp: txn_version_for_Inr_iff)
qed

end
