(* ===== verification/Step_Spec.thy ===== *)
theory Step_Spec
  imports Pipeline_Example
begin

text \<open>
  The properties of one step: where the target's record stands after it, what becomes of every row, what
  is recorded of an open coverage window, and when a lookup's new table is accepted.
\<close>

section \<open>The record\<close>

lemma step_records:
  assumes "step_ops_ok txn env" and "polls_follow po (ls_policy (pl_stream p)) items"
    and "os_app_id (pl_offsets p) = sk_app_id (pl_sink p)"
    and "step_delta sg env po p w = Some (Inr out, p', w')"
  shows "if out = CaughtUp then pl_target p' = pl_target p
    else \<forall>tv. tv (os_app_id (pl_offsets p')) = Inr (txn (pl_target p') (sk_app_id (pl_sink p')))
           \<longrightarrow> resume_cursor (pl_offsets p') tv = Inr (ls_cursor (pl_stream p'))"
  using assms(1,4,2) refl
proof (cases rule: step_delta_outcome)
  case 1
  then show ?thesis by (simp add: beyond_poll_def)
next
  case (2 q b lookups input rows rejects covered beyond v)
  have "resume_cursor (pl_offsets p') tv = Inr (ls_cursor (pl_stream p'))"
    if "tv (os_app_id (pl_offsets p')) = Inr (txn (pl_target p') (sk_app_id (pl_sink p')))" for tv
  proof -
    have "tv (os_app_id (pl_offsets p')) = Inr (Some v)" using that 2(2,10) by (simp add: same_setup_def)
    with 2(9) show ?thesis by (auto simp: recorded_txn_Some txn_version_for_Inr_iff resume_cursor_stored)
  qed
  with 2(1) show ?thesis by simp
qed

text \<open>
  C34. A step leaves the target recording where the pipeline stands: after a step that read something,
  appended or merged, an open of the target, whatever handle it reads it by, resumes at exactly the cursor
  the running pipeline reads on from; and a step that read nothing wrote nothing.
\<close>

theorem step_records_where_it_stands:
  assumes "step_ops_ok txn env" and "polls_follow po (ls_policy (pl_stream p)) items"
    and "os_app_id (pl_offsets p) = sk_app_id (pl_sink p)"
    and "step_delta sg env po p w = Some (Inr out, p', w')"
  shows "if out = CaughtUp then pl_target p' = pl_target p
    else \<forall>tv. tv (os_app_id (pl_offsets p')) = Inr (txn (pl_target p') (sk_app_id (pl_sink p')))
           \<longrightarrow> resume_cursor (pl_offsets p') tv = Inr (ls_cursor (pl_stream p'))"
  by (rule step_records [OF assms])

theorem step_records_where_it_stands_witness:
  "\<exists>p w. step_delta example_stages example_env example_polls (example_pipeline example_stream ([], Map.empty)) ([], [])
      = Some (Inr (Progressed 3 3 3 (Some 1) None 0 0 0 0), p, w)
   \<and> resume_cursor (pl_offsets p) (\<lambda>a. Inr (snd (pl_target p) (sk_app_id (pl_sink p)))) = Inr (ls_cursor (pl_stream p))"
proof -
  have ok: "step_ops_ok snd example_env"
    by (simp add: step_ops_ok_def delta_ops_ok_def example_pipeline_defs)
  have po: "polls_follow example_polls (ls_policy (pl_stream (example_pipeline example_stream ([], Map.empty))))
      (commit_items example_log (ls_policy example_stream))"
    by (simp add: polls_follow_def follows_def example_polls_def example_log_ok example_pipeline_def)
  have app: "os_app_id (pl_offsets (example_pipeline example_stream ([], Map.empty)))
      = sk_app_id (pl_sink (example_pipeline example_stream ([], Map.empty)))"
    by (simp add: example_pipeline_def offset_store_new_def sink_new_def)
  from example_step obtain p w where
    run: "step_delta example_stages example_env example_polls (example_pipeline example_stream ([], Map.empty)) ([], [])
      = Some (Inr (Progressed 3 3 3 (Some 1) None 0 0 0 0), p, w)" by blast
  from step_records_where_it_stands [OF ok po app run] run show ?thesis by auto
qed

section \<open>Every row accounted for\<close>








section \<open>An open window\<close>






section \<open>Lookups\<close>

lemma only_tables_progress:
  "only_tables p p' \<Longrightarrow> pl_lookup_ids p' = pl_lookup_ids p \<and> pl_lookup_on_open p' = pl_lookup_on_open p
     \<and> pl_prev_published p' = pl_prev_published p"
  by (simp add: only_tables_def same_progress_def)

lemma read_batch_failed:
  assumes "read_batch sg env b q w = (Inl e, p', w')"
  shows "only_tables q p'"
proof -
  let ?q1 = "q\<lparr>pl_sink := set_source_identity (ls_identity (pl_stream q)) (pl_sink q)\<rparr>"
  have q1: "only_tables q ?q1" by simp
  show ?thesis
  proof (cases "lookup_snapshots (pl_lookup_ids q) (pl_lookup_on_open q) (pc_lookups (pl_cfg q)) b")
    case (Inl x)
    with assms q1 show ?thesis by (simp add: read_batch_def)
  next
    case (Inr lookups)
    show ?thesis
    proof (cases "sg_scan sg b")
      case (Inl x)
      with assms Inr have "p' = told lookups q" by (simp add: read_batch_def told_def)
      then show ?thesis by simp
    next
      case (Inr input)
      with assms \<open>lookup_snapshots _ _ _ _ = Inr lookups\<close>
      have "process sg env (batch_of b input lookups) (told lookups q) w = (Inl e, p', w')"
        by (simp add: read_batch_def told_def batch_of_def)
      from process_failure [OF this] show ?thesis using only_tables_simps(4) only_tables_trans by blast
    qed
  qed
qed

lemma read_batch_acknowledges:
  assumes "read_batch sg env b q w = (Inr out, p', w')"
  obtains lookups where "lookup_snapshots (pl_lookup_ids q) (pl_lookup_on_open q) (pc_lookups (pl_cfg q)) b = Inr lookups"
    "(pl_lookup_ids p', pl_lookup_on_open p')
       = apply_lookup_table_id_transitions (pl_lookup_ids q) (pl_lookup_on_open q) (lk_transitions lookups)"
proof -
  obtain lookups input where look: "lookup_snapshots (pl_lookup_ids q) (pl_lookup_on_open q) (pc_lookups (pl_cfg q)) b = Inr lookups"
    and "sg_scan sg b = Inr input"
    and pr: "process sg env (batch_of b input lookups) (told lookups q) w = (Inr out, p', w')"
    by (rule read_batch_success [OF assms])
  let ?b = "batch_of b input lookups" and ?q = "told lookups q"
  obtain rows rejects covered beyond offs p2 p3 where
    "batch_becomes sg ?q ?b = Inr (rows, rejects, covered, beyond)" "offsets_for (ba_position ?b) = Inr offs"
    "same_setup ?q p2" "pl_stream p2 = pl_stream ?q" "pl_target p2 = pl_target ?q"
    "pl_sink p2 = pl_sink (record_cutoff (batch_closes ?b beyond ?q) ?q)"
    and p2: "same_progress ?q p2"
    and "sum_list (map rejected_len rejects) > 0 \<longrightarrow> pl_dq ?q \<noteq> None"
    and w: "if rows = [] then pl_commit env [sg_empty sg] offs p2 = (Inr (), p3)
       else \<exists>produced x. write_rows sg env rows produced offs p2 = (Inr x, p3)"
    and p': "p' = committed_batch ?b (batch_closes ?b beyond ?q) covered beyond p3"
    and "outcome_reports sg env ?b rows rejects covered offs p2 p3 out"
    by (rule process_success [OF pr])
  from w have "\<exists>t. p3 = p2\<lparr>pl_target := t\<rparr>" by (metis pl_commit_frame write_rows_frame)
  with p2 have p3: "pl_lookup_ids p3 = pl_lookup_ids q" "pl_lookup_on_open p3 = pl_lookup_on_open q"
    by (auto simp: same_progress_def told_def)
  show thesis
    by (rule that [OF look])
      (simp add: p' committed_batch_def publish_def settle_cutoff_def retire_def acknowledge_def p3 batch_of_def
        Let_def split: prod.splits option.splits)
qed

text \<open>
  A lookup that moved to another table is accepted with the commit that used it and not before: a step
  that fails, at whatever stage, and one that reads nothing leave the accepted table ids, the marks of those
  that changed at open and the last published version as they were, so that the retry decides the same; a
  step whose commit landed has accepted exactly the transitions its batch selected.
\<close>

lemma lookups_accepted_with_the_commit:
  assumes "step_delta sg env po p w = Some (r, p', w')" and "polls_follow po (ls_policy (pl_stream p)) items"
  shows "case r of
      Inl e \<Rightarrow> pl_lookup_ids p' = pl_lookup_ids p \<and> pl_lookup_on_open p' = pl_lookup_on_open p
        \<and> pl_prev_published p' = pl_prev_published p
    | Inr out \<Rightarrow>
        if out = CaughtUp then pl_lookup_ids p' = pl_lookup_ids p \<and> pl_lookup_on_open p' = pl_lookup_on_open p
        else \<exists>b lookups. lb_end b = ls_cursor (pl_stream p')
          \<and> lookup_snapshots (pl_lookup_ids p) (pl_lookup_on_open p) (pc_lookups (pl_cfg p)) b = Inr lookups
          \<and> (pl_lookup_ids p', pl_lookup_on_open p')
              = apply_lookup_table_id_transitions (pl_lookup_ids p) (pl_lookup_on_open p) (lk_transitions lookups)"
  using assms refl
proof (cases rule: step_delta_cases)
  case (1 e)
  then show ?thesis by (simp add: beyond_poll_def)
next
  case 2
  then show ?thesis by (simp add: beyond_poll_def)
next
  case (3 q b)
  have q: "pl_lookup_ids q = pl_lookup_ids p" "pl_lookup_on_open q = pl_lookup_on_open p" "pl_cfg q = pl_cfg p"
    "pl_prev_published q = pl_prev_published p" using 3(1) by (simp_all add: beyond_poll_def same_setup_def)
  show ?thesis
  proof (cases r)
    case (Inl e)
    with 3(5) have "only_tables q p'" by (auto intro: read_batch_failed)
    from only_tables_progress [OF this] Inl q show ?thesis by simp
  next
    case (Inr out)
    with 3(5) have rb: "read_batch sg env b q w = (Inr out, p', w')" by simp
    obtain lookups where "lookup_snapshots (pl_lookup_ids q) (pl_lookup_on_open q) (pc_lookups (pl_cfg q)) b = Inr lookups"
      "(pl_lookup_ids p', pl_lookup_on_open p')
         = apply_lookup_table_id_transitions (pl_lookup_ids q) (pl_lookup_on_open q) (lk_transitions lookups)"
      by (rule read_batch_acknowledges [OF rb])
    moreover have "lb_end b = ls_cursor (pl_stream p')"
      using read_batch_stream [OF rb] 3(4) by (auto simp: same_stream_def)
    ultimately show ?thesis using Inr q read_batch_outcome [OF rb] by auto
  qed
qed

text \<open>A lookup whose head is another table than the one accepted, and whose policy lets it pass.\<close>

definition example_lookup :: lookup where
  "example_lookup =
     \<lparr>lo_name = ''fx'', lo_strict = False,
      lo_snapshots = (\<lambda>_. let l = (\<lambda>v i. \<lparr>ln_name = ''fx'', ln_version = v, ln_table_id = Some i,
           ln_used_pre_history = False, ln_used_current = False\<rparr>) in Inr (l 3 ''t1'', l 4 ''t2''))\<rparr>"

definition lookup_pipeline :: "(unit, example_table) pipeline" where
  "lookup_pipeline =
     (example_pipeline (example_stream\<lparr>ls_pin_lookup_snapshots := True\<rparr>) ([], Map.empty))
       \<lparr>pl_cfg := example_config\<lparr>pc_lookups := [example_lookup]\<rparr>, pl_lookup_ids := [(''fx'', ''t1'')]\<rparr>"

lemma lookups_accepted_with_the_commit_witness:
  "\<exists>out p w. step_delta example_stages example_env example_polls lookup_pipeline ([], []) = Some (Inr out, p, w)
     \<and> out \<noteq> CaughtUp \<and> pl_lookup_ids p = [(''fx'', ''t2'')]
     \<and> (\<exists>lookups :: lookup_batch. (pl_lookup_ids p, pl_lookup_on_open p)
           = apply_lookup_table_id_transitions [(''fx'', ''t1'')] [] (lk_transitions lookups))"
proof -
  have "\<exists>out p w. step_delta example_stages example_env example_polls lookup_pipeline ([], []) = Some (Inr out, p, w)
      \<and> out \<noteq> CaughtUp \<and> pl_lookup_ids p = [(''fx'', ''t2'')]"
    by (simp add: example_defs next_batch_defs step_delta_defs example_pipeline_defs lookup_pipeline_def example_lookup_def
        select_lookup_def lookup_table_id_changed_def apply_transition_def snapshot_fields_def lookup_metadata_def)
  then obtain out p w where
    run: "step_delta example_stages example_env example_polls lookup_pipeline ([], []) = Some (Inr out, p, w)" "out \<noteq> CaughtUp"
      "pl_lookup_ids p = [(''fx'', ''t2'')]"
    by blast
  have po: "polls_follow example_polls (ls_policy (pl_stream lookup_pipeline)) (commit_items example_log PolicyFail)"
    by (simp add: polls_follow_def follows_def example_polls_def example_log_ok lookup_pipeline_def example_pipeline_def
        example_stream_def log_stream_new_def)
  have ids: "pl_lookup_ids lookup_pipeline = [(''fx'', ''t1'')]" "pl_lookup_on_open lookup_pipeline = []"
    by (simp_all add: lookup_pipeline_def example_pipeline_def)
  from lookups_accepted_with_the_commit [OF run(1) po] run(2) ids
  have "\<exists>lookups :: lookup_batch. (pl_lookup_ids p, pl_lookup_on_open p)
      = apply_lookup_table_id_transitions [(''fx'', ''t1'')] [] (lk_transitions lookups)"
    by auto
  with run show ?thesis by blast
qed

section \<open>A well-formed pipeline\<close>

text \<open>
  What every pipeline in service satisfies: the sink and the offset store agree on the app id, the
  accepted lookups are a map in key order with an entry for each configured lookup, and the stream
  stops exactly at the head of a window that has one.
\<close>

definition pipeline_ok :: "('d, 'tbl) pipeline \<Rightarrow> bool" where
  "pipeline_ok p \<longleftrightarrow>
     os_app_id (pl_offsets p) = sk_app_id (pl_sink p)
     \<and> bt_wf (pl_lookup_ids p) \<and> bs_wf (pl_lookup_on_open p)
     \<and> list_all (\<lambda>l. bt_mem (lo_name l) (pl_lookup_ids p)) (pc_lookups (pl_cfg p))
     \<and> ls_stop_after (pl_stream p) = Option.bind (pl_cutoff p) (\<lambda>c. cw_through (cu_window c))"

lemma pipeline_ok_retire [simp]: "pipeline_ok p \<Longrightarrow> pipeline_ok (retire p)"
  by (auto simp: pipeline_ok_def retire_def release_stop_def split: option.splits)

lemma pipeline_ok_poll:
  assumes "pipeline_ok p" "log_ok store" "poll store budget p = Some (r, p')"
  shows "pipeline_ok p'"
proof -
  have nb: "next_batch store budget (pl_stream p) = Some (r, pl_stream p')"
    and p': "p' = p\<lparr>pl_stream := pl_stream p'\<rparr>" using poll_stream [OF assms(3)] by simp_all
  have "ls_stop_after (pl_stream p') = ls_stop_after (pl_stream p)" using next_batch_settings [OF assms(2) nb] by simp
  with assms(1) show ?thesis by (subst p') (simp add: pipeline_ok_def)
qed

lemma pipeline_ok_only_tables: "pipeline_ok p \<Longrightarrow> only_tables p p' \<Longrightarrow> pipeline_ok p'"
  by (simp add: pipeline_ok_def only_tables_def same_setup_def same_progress_def)

lemma transitions_wf:
  "bt_wf ids \<Longrightarrow> bs_wf marks \<Longrightarrow> apply_lookup_table_id_transitions ids marks ts = (ids', marks') \<Longrightarrow>
     bt_wf ids' \<and> bs_wf marks' \<and> (\<forall>k. bt_mem k ids \<longrightarrow> bt_mem k ids')"
proof (induction ts arbitrary: ids marks)
  case Nil
  then show ?case by (simp add: apply_lookup_table_id_transitions_def)
next
  case (Cons t ts)
  from Cons.prems(3) have "apply_lookup_table_id_transitions (bt_insert (lt_name t) (lt_table_id t) ids) (bs_remove (lt_name t) marks) ts = (ids', marks')"
    by (simp add: apply_lookup_table_id_transitions_def apply_transition_def)
  from Cons.IH [OF _ _ this] Cons.prems(1,2) show ?case by (auto simp: bt_mem_def)
qed

lemma pipeline_ok_committed:
  assumes "pipeline_ok p"
  shows "pipeline_ok (committed_batch b closes covered beyond p)"
proof -
  obtain ids marks where t: "apply_lookup_table_id_transitions (pl_lookup_ids p) (pl_lookup_on_open p) (lk_transitions (ba_lookups b)) = (ids, marks)"
    by fastforce
  have "pipeline_ok (acknowledge (lk_transitions (ba_lookups b)) p)"
    using assms transitions_wf [OF _ _ t] by (auto simp: pipeline_ok_def acknowledge_def t list_all_iff)
  then have "pipeline_ok (settle_cutoff closes covered beyond (acknowledge (lk_transitions (ba_lookups b)) p))" (is "pipeline_ok (settle_cutoff _ _ _ ?q)")
  proof -
    assume q: "pipeline_ok ?q"
    have "pipeline_ok (?q\<lparr>pl_cutoff := map_option (\<lambda>c. c\<lparr>cu_skipped := u64_add (cu_skipped c) covered\<rparr>) (pl_cutoff ?q)\<rparr>)"
      using q by (cases "pl_cutoff ?q") (simp_all add: pipeline_ok_def)
    then show ?thesis by (simp add: settle_cutoff_def Let_def)
  qed
  then show ?thesis by (simp add: committed_batch_def publish_def pipeline_ok_def)
qed

lemma pipeline_ok_read_batch:
  assumes q: "pipeline_ok q" and run: "read_batch sg env b q w = (r, p', w')"
  shows "pipeline_ok p'"
proof (cases r)
  case (Inl e)
  show ?thesis by (rule pipeline_ok_only_tables [OF q read_batch_failed [OF run [unfolded Inl]]])
next
  case (Inr out)
  obtain lookups input where "lookup_snapshots (pl_lookup_ids q) (pl_lookup_on_open q) (pc_lookups (pl_cfg q)) b = Inr lookups"
    and "sg_scan sg b = Inr input"
    and pr: "process sg env (batch_of b input lookups) (told lookups q) w = (Inr out, p', w')"
    by (rule read_batch_success [OF run [unfolded Inr]])
  let ?b = "batch_of b input lookups" and ?q = "told lookups q"
  obtain rows rejects covered beyond offs p2 p3 where
    "batch_becomes sg ?q ?b = Inr (rows, rejects, covered, beyond)" "offsets_for (ba_position ?b) = Inr offs"
    and p2: "same_setup ?q p2" "pl_stream p2 = pl_stream ?q"
    and "pl_target p2 = pl_target ?q"
    "pl_sink p2 = pl_sink (record_cutoff (batch_closes ?b beyond ?q) ?q)"
    and pg: "same_progress ?q p2"
    and "sum_list (map rejected_len rejects) > 0 \<longrightarrow> pl_dq ?q \<noteq> None"
    and w: "if rows = [] then pl_commit env [sg_empty sg] offs p2 = (Inr (), p3)
       else \<exists>produced x. write_rows sg env rows produced offs p2 = (Inr x, p3)"
    and p': "p' = committed_batch ?b (batch_closes ?b beyond ?q) covered beyond p3"
    and "outcome_reports sg env ?b rows rejects covered offs p2 p3 out"
    by (rule process_success [OF pr])
  have "only_tables ?q p2" using p2 pg by (simp add: only_tables_def)
  moreover have "only_tables p2 p3" using w pl_commit_frame write_rows_frame only_tables_simps(3) by metis
  ultimately have "pipeline_ok p3"
    using pipeline_ok_only_tables [OF q] only_tables_simps(4) [of q lookups] only_tables_trans by blast
  then show ?thesis unfolding p' by (rule pipeline_ok_committed)
qed

text \<open>
  C37. Every step, whether it reads, fails or commits, keeps the pipeline well formed: the sink and the
  offset store go on naming the same app id, every configured lookup goes on having an accepted table, and
  the stream is held at a head exactly as long as a window with that head is open.
\<close>

theorem step_keeps_pipeline_ok:
  assumes "pipeline_ok p" and "log_ok (po_store po)" and "log_ok (po_store_again po)"
    and "step_delta sg env po p w = Some (r, p', w')"
  shows "pipeline_ok p'"
proof -
  have after: "pipeline_ok p'" if "after_poll sg env n q w = (r, p', w')" "pipeline_ok q" for n q
    using that pipeline_ok_read_batch by (cases n) (auto simp: after_poll_def)
  define p0 where "p0 = snd (retire_cutoff_if_read_through p)"
  have p0: "pipeline_ok p0"
    using assms(1) retire_if_frame [of p "fst (retire_cutoff_if_read_through p)" p0]
    by (auto simp: p0_def split: if_splits)
  obtain r1 p1 where 1: "poll (po_store po) (po_budget po) p0 = Some (r1, p1)"
    using assms(4) by (auto simp: step_delta_def p0_def split: option.splits)
  have p1: "pipeline_ok p1" by (rule pipeline_ok_poll [OF p0 assms(2) 1])
  show ?thesis
  proof (cases r1)
    case (Inl e)
    with assms(4) 1 p1 show ?thesis by (simp add: step_delta_def p0_def)
  next
    case (Inr n)
    obtain c p2 where 2: "(if n = None then retire_cutoff_if_read_through p1 else (False, p1)) = (c, p2)" by fastforce
    have p2: "pipeline_ok p2" using 2 p1 retire_if_frame by (metis pipeline_ok_retire prod.inject)
    show ?thesis
    proof (cases c)
      case False
      with assms(4) 1 Inr 2 have "after_poll sg env n p2 w = (r, p', w')" by (simp add: step_delta_def p0_def)
      with p2 after show ?thesis by blast
    next
      case True
      with assms(4) 1 Inr 2 obtain r3 p3 where 3: "poll (po_store_again po) (po_budget_again po) p2 = Some (r3, p3)"
        by (auto simp: step_delta_def p0_def split: option.splits)
      have p3: "pipeline_ok p3" by (rule pipeline_ok_poll [OF p2 assms(3) 3])
      show ?thesis
      proof (cases r3)
        case (Inl e)
        with assms(4) 1 \<open>r1 = Inr n\<close> 2 True 3 p3 show ?thesis by (simp add: step_delta_def p0_def)
      next
        case (Inr n3)
        with assms(4) 1 \<open>r1 = Inr n\<close> 2 True 3 have "after_poll sg env n3 p3 w = (r, p', w')"
          by (simp add: step_delta_def p0_def)
        with p3 after show ?thesis by blast
      qed
    qed
  qed
qed

theorem step_keeps_pipeline_ok_witness:
  "\<exists>out p w. step_delta example_stages example_env example_polls lookup_pipeline ([], []) = Some (Inr out, p, w)
     \<and> pipeline_ok p"
proof -
  have "\<exists>out p w. step_delta example_stages example_env example_polls lookup_pipeline ([], []) = Some (Inr out, p, w)"
    by (simp add: example_defs next_batch_defs step_delta_defs example_pipeline_defs lookup_pipeline_def example_lookup_def
        select_lookup_def lookup_table_id_changed_def apply_transition_def snapshot_fields_def lookup_metadata_def)
  then obtain out p w where
    run: "step_delta example_stages example_env example_polls lookup_pipeline ([], []) = Some (Inr out, p, w)" by blast
  have ok: "pipeline_ok lookup_pipeline"
    by (simp add: pipeline_ok_def lookup_pipeline_def example_pipeline_def example_config_def example_lookup_def
        offset_store_new_def sink_new_def bt_wf_def bs_wf_def bt_mem_def example_stream_def log_stream_new_def)
  have log: "log_ok (po_store example_polls)" "log_ok (po_store_again example_polls)"
    by (simp_all add: example_polls_def example_log_ok)
  from step_keeps_pipeline_ok [OF ok log run] run show ?thesis by blast
qed

end
