(* ===== verification/Dedup.thy ===== *)
theory Dedup
  imports Cutoff
begin

text \<open>
  \<open>src/dedup.rs\<close>: the cut-off itself. What the target already holds is read as its newest timestamp and
  the keys tied at it, or one such mark per partition, and a batch is filtered by it. Timestamps are a
  linear order (the code compares a byte-comparable encoding of whatever type they have). Of an Arrow
  batch only the columns the cut-off names are kept, each the values of its rows or the error that
  finding or casting it gives.
\<close>

section \<open>Batches\<close>

record 't dedup_batch =
  db_rows :: nat
  db_ts :: "'t option list res"
  db_keys :: "string option list res"
  db_parts :: "string option list list res" \<comment> \<open>a list per partition column\<close>
  db_comparable :: "unit res" \<comment> \<open>whether Arrow compares the column with the target's type\<close>

text \<open>\<open>serde_json::to_string\<close> of a list of strings.\<close>

definition hex_digit :: "nat \<Rightarrow> char" where
  "hex_digit n = ''0123456789abcdef'' ! n"

definition json_escape :: "char \<Rightarrow> string" where
  "json_escape c =
     (if c = CHR 0x22 then [CHR 0x5C, CHR 0x22]
      else if c = CHR 0x5C then [CHR 0x5C, CHR 0x5C]
      else if c = CHR 0x08 then [CHR 0x5C, CHR ''b'']
      else if c = CHR 0x0C then [CHR 0x5C, CHR ''f'']
      else if c = CHR 0x0A then [CHR 0x5C, CHR ''n'']
      else if c = CHR 0x0D then [CHR 0x5C, CHR ''r'']
      else if c = CHR 0x09 then [CHR 0x5C, CHR ''t'']
      else if of_char c < (32 :: nat)
        then [CHR 0x5C, CHR ''u'', CHR ''0'', CHR ''0'', hex_digit (of_char c div 16), hex_digit (of_char c mod 16)]
      else [c])"

definition json_string :: "string \<Rightarrow> string" where
  "json_string s = CHR 0x22 # concat (map json_escape s) @ [CHR 0x22]"

fun json_strings :: "string list \<Rightarrow> string" where
  "json_strings [] = ''''"
| "json_strings [x] = json_string x"
| "json_strings (x # y # xs) = json_string x @ '','' @ json_strings (y # xs)"

definition partition_key :: "string list \<Rightarrow> string" where
  "partition_key values = (case values of [one] \<Rightarrow> one | _ \<Rightarrow> ''['' @ json_strings values @ '']'')"

text \<open>\<open>PartitionText\<close>: row \<open>i\<close>'s partition, \<open>None\<close> with a null in it.\<close>

definition part_null :: "string option list list \<Rightarrow> nat \<Rightarrow> bool" where
  "part_null columns i \<longleftrightarrow> list_ex (\<lambda>c. c ! i = None) columns"

definition part_tuple :: "string option list list \<Rightarrow> nat \<Rightarrow> string list" where
  "part_tuple columns i = map (\<lambda>c. the (c ! i)) columns"

text \<open>\<open>distinct_tuples\<close>: each tuple's text once, and per row its place in that list; a row with a null has none.\<close>

fun distinct_from ::
    "string option list list \<Rightarrow> nat list \<Rightarrow> (string list \<times> nat) list \<Rightarrow> string list \<Rightarrow> nat option list
       \<Rightarrow> string list \<times> nat option list" where
  "distinct_from columns [] seen texts at = (texts, at)"
| "distinct_from columns (i # is) seen texts at =
     (if part_null columns i then distinct_from columns is seen texts (at @ [None])
      else let tuple = part_tuple columns i
           in case map_of seen tuple of
                Some t \<Rightarrow> distinct_from columns is seen texts (at @ [Some t])
              | None \<Rightarrow>
                  distinct_from columns is ((tuple, length texts) # seen) (texts @ [partition_key tuple])
                    (at @ [Some (length texts)]))"

definition distinct_tuples :: "string option list list \<Rightarrow> string list \<times> nat option list" where
  "distinct_tuples columns =
     distinct_from columns [0..<(case columns of [] \<Rightarrow> 0 | c # _ \<Rightarrow> length c)] [] [] []"

text \<open>\<open>PartitionText::with\<close>: one column is its own text, several are looked up in the batch's distinct tuples.\<close>

definition part_with :: "string option list list \<Rightarrow> nat \<Rightarrow> string" where
  "part_with columns i =
     (case columns of
        [one] \<Rightarrow> the (one ! i)
      | _ \<Rightarrow>
          let (texts, at) = distinct_tuples columns
          in case (if i < length at then at ! i else None) of
               Some t \<Rightarrow> if t < length texts then texts ! t else partition_key (part_tuple columns i)
             | None \<Rightarrow> partition_key (part_tuple columns i))"

section \<open>The cut-off\<close>

text \<open>\<open>PartitionMarks\<close> as one map from a partition's text to its mark and the keys tied at it.\<close>

record 't dedup =
  dd_timestamp_column :: string
  dd_key_column :: "string option"
  dd_watermark :: "'t option"
  dd_boundary_keys :: "string set"
  dd_partition_columns :: "string list"
  dd_partitions :: "(string, 't \<times> string set) bmap"

definition dedup_new :: "string \<Rightarrow> string option \<Rightarrow> string list \<Rightarrow> 't dedup" where
  "dedup_new ts key parts =
     \<lparr>dd_timestamp_column = ts, dd_key_column = key, dd_watermark = None, dd_boundary_keys = {},
      dd_partition_columns = parts, dd_partitions = []\<rparr>"

definition is_partitioned :: "'t dedup \<Rightarrow> bool" where
  "is_partitioned d \<longleftrightarrow> dd_partition_columns d \<noteq> []"

definition is_inert :: "'t dedup \<Rightarrow> bool" where
  "is_inert d \<longleftrightarrow> (if is_partitioned d then dd_partitions d = [] else dd_watermark d = None)"

definition max_dedup_partitions :: nat where
  "max_dedup_partitions = 100000"

section \<open>The columns\<close>

datatype arrow_type =
    Int8 | Int16 | Int32 | Int64 | UInt8 | UInt16 | UInt32 | UInt64 | Utf8 | LargeUtf8 | Utf8View
  | OtherType string

definition groups_exactly :: "arrow_type \<Rightarrow> bool" where
  "groups_exactly t \<longleftrightarrow> (case t of OtherType _ \<Rightarrow> False | _ \<Rightarrow> True)"

definition require_columns ::
    "(string \<times> arrow_type) list \<Rightarrow> string \<Rightarrow> string option \<Rightarrow> string list \<Rightarrow> unit res" where
  "require_columns target_fields ts key parts =
     (let wanted = [ts] @ (case key of Some k \<Rightarrow> [k] | None \<Rightarrow> []) @ parts
      in case find (\<lambda>c. map_of target_fields c = None) wanted of
           Some c \<Rightarrow> Inl (E_Config (''dedup column '' @ c @ '' is not in the target table''))
         | None \<Rightarrow>
             (case find (\<lambda>c. \<not> groups_exactly (the (map_of target_fields c))) parts of
                Some c \<Rightarrow> Inl (E_Config (''dedup_partition '' @ c @ '' must be an integer or a string column''))
              | None \<Rightarrow> Inr ()))"

section \<open>Reading it\<close>

definition key_set :: "string option \<Rightarrow> string set" where
  "key_set k = (case k of Some k \<Rightarrow> {k} | None \<Rightarrow> {})"

text \<open>One row of the running answer, for a single cut-off and per partition.\<close>

definition see_row :: "'t :: linorder option \<times> string option \<Rightarrow> 't option \<times> string set \<Rightarrow> 't option \<times> string set" where
  "see_row = (\<lambda>(ts, key) (best, keys).
     case ts of
       None \<Rightarrow> (best, keys)
     | Some t \<Rightarrow>
         (case best of
            None \<Rightarrow> (Some t, key_set key)
          | Some b \<Rightarrow>
              if t > b then (Some t, key_set key)
              else if t = b then (best, keys \<union> key_set key)
              else (best, keys)))"

definition too_many_partitions :: error where
  "too_many_partitions =
     E_Config ''dedup_partition has too many distinct values in the target; it must name a low-cardinality column''"

definition see_part_row ::
    "nat \<Rightarrow> 't :: linorder option \<times> string option \<times> string option \<Rightarrow> (string, 't \<times> string set) bmap
       \<Rightarrow> (string, 't \<times> string set) bmap res" where
  "see_part_row max_partitions = (\<lambda>(ts, key, part) running.
     case (ts, part) of
       (Some t, Some p) \<Rightarrow>
         (case bt_get running p of
            Some (mark, tied) \<Rightarrow>
              Inr (if t > mark then bt_insert p (t, key_set key) running
                   else if t = mark then bt_insert p (mark, tied \<union> key_set key) running
                   else running)
          | None \<Rightarrow>
              if length running \<ge> max_partitions then Inl too_many_partitions
              else Inr (bt_insert p (t, key_set key) running))
     | _ \<Rightarrow> Inr running)"

definition batch_key_list :: "'t dedup \<Rightarrow> 't dedup_batch \<Rightarrow> string option list res" where
  "batch_key_list d b = (case dd_key_column d of Some _ \<Rightarrow> db_keys b | None \<Rightarrow> Inr (replicate (db_rows b) None))"

definition row_part :: "string option list list \<Rightarrow> nat \<Rightarrow> string option" where
  "row_part columns i = (if part_null columns i then None else Some (part_with columns i))"

fun fold_res :: "('a \<Rightarrow> 'b \<Rightarrow> 'b res) \<Rightarrow> 'a list \<Rightarrow> 'b \<Rightarrow> 'b res" where
  "fold_res f [] s = Inr s"
| "fold_res f (x # xs) s = res_bind (f x s) (fold_res f xs)"

text \<open>One batch of the scan of the target.\<close>

definition see_batch :: "nat \<Rightarrow> 't :: linorder dedup_batch \<Rightarrow> 't dedup \<Rightarrow> 't dedup res" where
  "see_batch max_partitions b d =
     (if db_rows b = 0 then Inr d
      else res_bind (db_ts b) (\<lambda>ts.
           res_bind (batch_key_list d b) (\<lambda>keys.
           if is_partitioned d then
             res_bind (db_parts b) (\<lambda>columns.
             res_bind (fold_res (see_part_row max_partitions)
                         (zip ts (zip keys (map (row_part columns) [0..<db_rows b]))) (dd_partitions d)) (\<lambda>running.
             Inr (d\<lparr>dd_partitions := running\<rparr>)))
           else
             let (best, bk) = fold see_row (zip ts keys) (dd_watermark d, dd_boundary_keys d)
             in Inr (d\<lparr>dd_watermark := best, dd_boundary_keys := bk\<rparr>))))"

text \<open>
  The scan hands over the target's batches, read as its schema declares them, or fails.
\<close>

definition read_bounded ::
    "(string \<times> arrow_type) list \<Rightarrow> 't :: linorder dedup_batch res list \<Rightarrow> string \<Rightarrow> string option \<Rightarrow> string list
       \<Rightarrow> nat \<Rightarrow> 't dedup res" where
  "read_bounded target_fields batches ts key parts max_partitions =
     res_bind (require_columns target_fields ts key parts) (\<lambda>_.
     fold_res (\<lambda>b d. res_bind b (\<lambda>b. see_batch max_partitions b d)) batches (dedup_new ts key parts))"

definition read_partitioned ::
    "(string \<times> arrow_type) list \<Rightarrow> 't :: linorder dedup_batch res list \<Rightarrow> string \<Rightarrow> string option \<Rightarrow> string list
       \<Rightarrow> 't dedup res" where
  "read_partitioned target_fields batches ts key parts = read_bounded target_fields batches ts key parts max_dedup_partitions"

section \<open>Filtering by it\<close>

definition require_timestamps :: "'t dedup_batch \<Rightarrow> 't option list res" where
  "require_timestamps b =
     res_bind (db_ts b) (\<lambda>ts.
       if None \<in> set ts then Inl (E_Schema ''dedup timestamp contains nulls; a row with no timestamp can be neither kept nor skipped safely'')
       else Inr ts)"

definition require_partitions :: "'t dedup_batch \<Rightarrow> string option list list res" where
  "require_partitions b =
     res_bind (db_parts b) (\<lambda>columns.
       if list_ex (\<lambda>c. None \<in> set c) columns
       then Inl (E_Schema ''dedup partition contains nulls; a row with no partition can be neither kept nor skipped safely'')
       else Inr columns)"

definition key_unseen :: "string set \<Rightarrow> string option \<Rightarrow> bool" where
  "key_unseen seen k \<longleftrightarrow> (case k of None \<Rightarrow> True | Some k \<Rightarrow> k \<notin> seen)"

text \<open>A row under a single cut-off: whether it is kept, and whether it is past the watermark.\<close>

definition row_after :: "'t :: linorder \<Rightarrow> 't option \<Rightarrow> bool" where
  "row_after mark ts \<longleftrightarrow> (case ts of Some t \<Rightarrow> t > mark | None \<Rightarrow> False)"

definition row_kept :: "string option \<Rightarrow> 't :: linorder \<Rightarrow> string set \<Rightarrow> 't option \<times> string option \<Rightarrow> bool" where
  "row_kept key_column mark seen = (\<lambda>(ts, k).
     row_after mark ts \<or> (key_column \<noteq> None \<and> ts = Some mark \<and> key_unseen seen k))"

text \<open>A row under its own partition's mark: whether it is covered, and whether it is past it.\<close>

definition row_covered ::
    "(string, 't :: linorder \<times> string set) bmap \<Rightarrow> bool \<Rightarrow> bool \<Rightarrow> 't option \<times> string option \<times> string option \<Rightarrow> bool \<times> bool" where
  "row_covered marks keyed ties_covered = (\<lambda>(ts, k, part).
     case (ts, part) of
       (Some t, Some p) \<Rightarrow>
         (case bt_get marks p of
            None \<Rightarrow> (False, True)
          | Some (mark, tied) \<Rightarrow>
              if t > mark then (False, True)
              else if t < mark then (True, False)
              else if keyed then (\<not> key_unseen tied k, False)
              else (ties_covered, False))
     | _ \<Rightarrow> (False, False))"

definition covered_rows ::
    "'t :: linorder dedup \<Rightarrow> bool \<Rightarrow> 't option list \<Rightarrow> string option list list \<Rightarrow> string option list option \<Rightarrow> nat
       \<Rightarrow> bool list \<times> nat" where
  "covered_rows d ties_covered ts columns keys n =
     (if dd_partitions d = [] then (replicate n False, n)
      else
        let ks = (case keys of Some ks \<Rightarrow> ks | None \<Rightarrow> replicate n None);
            rows = map (row_covered (dd_partitions d) (keys \<noteq> None) ties_covered)
                     (zip ts (zip ks (map (row_part columns) [0..<n])))
        in (map fst rows, length (filter snd rows)))"

text \<open>\<open>Filtered\<close>: which rows are kept, how many went, and how many are past anything the target can stand for.\<close>

record filtered =
  fi_keep :: "bool list"
  fi_covered :: nat
  fi_beyond :: nat

definition filter_partitioned :: "'t :: linorder dedup \<Rightarrow> 't dedup_batch \<Rightarrow> filtered res" where
  "filter_partitioned d b =
     res_bind (require_timestamps b) (\<lambda>ts.
     res_bind (require_partitions b) (\<lambda>columns.
     res_bind (case dd_key_column d of Some _ \<Rightarrow> res_bind (db_keys b) (\<lambda>k. Inr (Some k)) | None \<Rightarrow> Inr None) (\<lambda>keys.
     res_bind (if dd_partitions d = [] then Inr () else db_comparable b) (\<lambda>_.
     let (covered, beyond) = covered_rows d True ts columns keys (db_rows b);
         keep = map Not covered
     in Inr \<lparr>fi_keep = keep, fi_covered = db_rows b - length (filter (\<lambda>x. x) keep), fi_beyond = beyond\<rparr>))))"

definition dedup_filter :: "'t :: linorder dedup \<Rightarrow> 't dedup_batch \<Rightarrow> filtered res" where
  "dedup_filter d b =
     (if is_partitioned d then filter_partitioned d b
      else case dd_watermark d of
        None \<Rightarrow> Inr \<lparr>fi_keep = replicate (db_rows b) True, fi_covered = 0, fi_beyond = db_rows b\<rparr>
      | Some mark \<Rightarrow>
          res_bind (require_timestamps b) (\<lambda>ts.
          res_bind (db_comparable b) (\<lambda>_.
          res_bind (batch_key_list d b) (\<lambda>keys.
          let keep = map (row_kept (dd_key_column d) mark (dd_boundary_keys d)) (zip ts keys)
          in Inr \<lparr>fi_keep = keep, fi_covered = db_rows b - length (filter (\<lambda>x. x) keep),
                  fi_beyond = length (filter (row_after mark) ts)\<rparr>))))"

section \<open>A partition's text\<close>

definition tuple_at :: "string list \<Rightarrow> string option list list \<Rightarrow> nat \<Rightarrow> nat option \<Rightarrow> bool" where
  "tuple_at texts columns i t \<longleftrightarrow>
     (if part_null columns i then t = None
      else \<exists>n. t = Some n \<and> n < length texts \<and> texts ! n = partition_key (part_tuple columns i))"

lemma tuple_at_mono: "tuple_at texts columns i t \<Longrightarrow> tuple_at (texts @ extra) columns i t"
  by (auto simp: tuple_at_def nth_append split: if_splits)

lemma distinct_from_spec:
  assumes "\<And>tuple n. map_of seen tuple = Some n \<Longrightarrow> n < length texts \<and> texts ! n = partition_key tuple"
  shows "\<exists>extra ats. distinct_from columns is seen texts at = (texts @ extra, at @ ats)
    \<and> list_all2 (tuple_at (texts @ extra) columns) is ats"
  using assms
proof (induction "is" arbitrary: seen texts at)
  case Nil
  then show ?case by simp
next
  case (Cons i "is")
  show ?case
  proof (cases "part_null columns i")
    case True
    from Cons.IH [where seen = seen and texts = texts and at = "at @ [None]", OF Cons.prems] obtain extra ats where
      "distinct_from columns is seen texts (at @ [None]) = (texts @ extra, (at @ [None]) @ ats)"
      "list_all2 (tuple_at (texts @ extra) columns) is ats" by blast
    moreover have "tuple_at (texts @ extra) columns i None" using True by (simp add: tuple_at_def)
    ultimately show ?thesis using True by (intro exI [of _ extra] exI [of _ "None # ats"]) simp
  next
    case False
    show ?thesis
    proof (cases "map_of seen (part_tuple columns i)")
      case (Some t)
      from Cons.IH [where seen = seen and texts = texts and at = "at @ [Some t]", OF Cons.prems] obtain extra ats where
        "distinct_from columns is seen texts (at @ [Some t]) = (texts @ extra, (at @ [Some t]) @ ats)"
        "list_all2 (tuple_at (texts @ extra) columns) is ats" by blast
      moreover have "tuple_at (texts @ extra) columns i (Some t)"
        using Cons.prems [OF Some] False by (simp add: tuple_at_def nth_append)
      ultimately show ?thesis using False Some by (intro exI [of _ extra] exI [of _ "Some t # ats"]) simp
    next
      case None
      let ?t = "length texts" and ?key = "partition_key (part_tuple columns i)"
      have inv: "n < length (texts @ [?key]) \<and> (texts @ [?key]) ! n = partition_key tuple"
        if "map_of ((part_tuple columns i, ?t) # seen) tuple = Some n" for tuple n
        using that Cons.prems [of tuple n] by (auto simp: nth_append split: if_splits)
      from Cons.IH [where seen = "(part_tuple columns i, ?t) # seen" and texts = "texts @ [?key]" and at = "at @ [Some ?t]", OF inv] obtain extra ats where
        "distinct_from columns is ((part_tuple columns i, ?t) # seen) (texts @ [?key]) (at @ [Some ?t])
           = ((texts @ [?key]) @ extra, (at @ [Some ?t]) @ ats)"
        "list_all2 (tuple_at ((texts @ [?key]) @ extra) columns) is ats" by blast
      moreover have "tuple_at (texts @ ?key # extra) columns i (Some ?t)"
        using False by (simp add: tuple_at_def nth_append)
      ultimately show ?thesis using False None
        by (intro exI [of _ "?key # extra"] exI [of _ "Some ?t # ats"]) (simp add: Let_def)
    qed
  qed
qed

text \<open>The text looked up in a batch's distinct tuples is the text of the row's own values.\<close>

lemma part_with_eq:
  assumes "\<not> part_null columns i" and "list_all (\<lambda>c. length c = n) columns" and "i < n"
  shows "part_with columns i = partition_key (part_tuple columns i)"
proof (cases "\<exists>one. columns = [one]")
  case True
  then show ?thesis by (auto simp: part_with_def partition_key_def part_tuple_def)
next
  case False
  obtain texts ats where d: "distinct_tuples columns = (texts, ats)"
    "list_all2 (tuple_at texts columns) [0..<(case columns of [] \<Rightarrow> 0 | c # _ \<Rightarrow> length c)] ats"
    using distinct_from_spec [of "[]" "[]" columns "[0..<(case columns of [] \<Rightarrow> 0 | c # _ \<Rightarrow> length c)]" "[]"]
    by (auto simp: distinct_tuples_def)
  have "(if i < length ats then ats ! i else None) = None
      \<or> (\<exists>t. (if i < length ats then ats ! i else None) = Some t \<and> t < length texts
            \<and> texts ! t = partition_key (part_tuple columns i))"
  proof (cases "i < length ats")
    case True
    then have "tuple_at texts columns ([0..<(case columns of [] \<Rightarrow> 0 | c # _ \<Rightarrow> length c)] ! i) (ats ! i)"
      using d(2) by (auto simp: list_all2_conv_all_nth)
    then have "tuple_at texts columns i (ats ! i)" using True d(2) by (simp add: list_all2_conv_all_nth)
    with assms(1) True show ?thesis by (auto simp: tuple_at_def)
  qed simp
  with False d(1) show ?thesis
    by (cases columns rule: list.exhaust; cases "tl columns") (auto simp: part_with_def split: list.splits)
qed

lemma row_part_eq:
  assumes "list_all (\<lambda>c. length c = n) columns" and "i < n"
  shows "row_part columns i = (if part_null columns i then None else Some (partition_key (part_tuple columns i)))"
  using part_with_eq [OF _ assms] by (simp add: row_part_def)

section \<open>What is read\<close>

text \<open>
  The cut-off a list of target rows stands for: the newest timestamp among the rows that have one, and the
  keys tied at it; per partition, the same of the rows of that partition.
\<close>

definition newest :: "('t :: linorder option \<times> string option) list \<Rightarrow> 't option" where
  "newest rows = (let ts = List.map_filter fst rows in if ts = [] then None else Some (Max (set ts)))"

definition tied_keys :: "('t option \<times> string option) list \<Rightarrow> 't \<Rightarrow> string set" where
  "tied_keys rows t = {k. (Some t, Some k) \<in> set rows}"

definition cutoff_of :: "('t :: linorder option \<times> string option) list \<Rightarrow> 't option \<times> string set" where
  "cutoff_of rows = (newest rows, case newest rows of None \<Rightarrow> {} | Some t \<Rightarrow> tied_keys rows t)"

lemma map_filter_snoc [simp]:
  "List.map_filter f (xs @ [x]) = List.map_filter f xs @ (case f x of None \<Rightarrow> [] | Some y \<Rightarrow> [y])"
  by (simp add: List.map_filter_def split: option.splits)

lemma set_map_filter_fst: "set (List.map_filter fst rows) = {t. \<exists>k. (Some t, k) \<in> set rows}"
  by (force simp: List.map_filter_def)

lemma newest_None_iff: "newest rows = None \<longleftrightarrow> (\<forall>t k. (Some t, k) \<notin> set rows)"
proof -
  have "List.map_filter fst rows = [] \<longleftrightarrow> set (List.map_filter fst rows) = {}" by simp
  then show ?thesis unfolding newest_def Let_def by (auto simp: set_map_filter_fst)
qed

lemma newest_Some_iff:
  "newest rows = Some m \<longleftrightarrow> (\<exists>k. (Some m, k) \<in> set rows) \<and> (\<forall>t k. (Some t, k) \<in> set rows \<longrightarrow> t \<le> m)"
proof -
  have ne: "List.map_filter fst rows \<noteq> [] \<longleftrightarrow> set (List.map_filter fst rows) \<noteq> {}" by simp
  have "newest rows = Some m \<longleftrightarrow> set (List.map_filter fst rows) \<noteq> {} \<and> Max (set (List.map_filter fst rows)) = m"
    using ne by (auto simp: newest_def Let_def)
  also have "\<dots> \<longleftrightarrow> m \<in> set (List.map_filter fst rows) \<and> (\<forall>t \<in> set (List.map_filter fst rows). t \<le> m)"
    by (metis List.finite_set Max_eq_iff emptyE)
  finally show ?thesis by (auto simp: set_map_filter_fst)
qed

lemma see_row_cutoff_of: "see_row x (cutoff_of rows) = cutoff_of (rows @ [x])"
proof -
  obtain ts key where x: "x = (ts, key)" by fastforce
  show ?thesis
  proof (cases ts)
    case None
    then have "newest (rows @ [x]) = newest rows" by (simp add: newest_def x)
    with None show ?thesis by (auto simp: see_row_def cutoff_of_def x tied_keys_def split: option.splits)
  next
    case (Some t)
    show ?thesis
    proof (cases "newest rows")
      case None
      then have no: "\<forall>t k. (Some t, k) \<notin> set rows" by (simp add: newest_None_iff)
      then have "newest (rows @ [x]) = Some t" by (auto simp: newest_Some_iff x Some)
      with None Some no show ?thesis
        by (auto simp: see_row_def cutoff_of_def x tied_keys_def key_set_def split: option.splits)
    next
      case newest: (Some m)
      then have m: "\<exists>k. (Some m, k) \<in> set rows" "\<forall>t k. (Some t, k) \<in> set rows \<longrightarrow> t \<le> m"
        by (simp_all add: newest_Some_iff)
      consider "t > m" | "t = m" | "t < m" by fastforce
      then show ?thesis
      proof cases
        case 1
        then have "newest (rows @ [x]) = Some t" using m by (fastforce simp: newest_Some_iff x Some)
        moreover have "(Some t, k) \<notin> set rows" for k using m 1 by fastforce
        ultimately show ?thesis using newest Some 1
          by (auto simp: see_row_def cutoff_of_def x tied_keys_def key_set_def split: option.splits)
      next
        case 2
        then have "newest (rows @ [x]) = Some m" using m by (fastforce simp: newest_Some_iff x Some)
        with newest Some 2 show ?thesis
          by (auto simp: see_row_def cutoff_of_def x tied_keys_def key_set_def split: option.splits)
      next
        case 3
        then have "newest (rows @ [x]) = Some m" using m by (fastforce simp: newest_Some_iff x Some)
        with newest Some 3 show ?thesis
          by (auto simp: see_row_def cutoff_of_def x tied_keys_def key_set_def split: option.splits)
      qed
    qed
  qed
qed

lemma fold_see_row: "fold see_row extra (cutoff_of rows) = cutoff_of (rows @ extra)"
proof (induction extra arbitrary: rows)
  case (Cons x extra)
  then show ?case by (simp add: see_row_cutoff_of)
qed simp

section \<open>Partitions are told apart\<close>

lemma hex_digit_inj: "a < 16 \<Longrightarrow> b < 16 \<Longrightarrow> hex_digit a = hex_digit b \<longleftrightarrow> a = b"
proof -
  have d: "distinct ''0123456789abcdef''" by simp
  show "a < 16 \<Longrightarrow> b < 16 \<Longrightarrow> ?thesis" unfolding hex_digit_def by (rule nth_eq_iff_index_eq [OF d]) simp_all
qed

definition short_escapes :: "(char \<times> char) list" where
  "short_escapes =
     [(CHR 0x22, CHR 0x22), (CHR 0x5C, CHR 0x5C), (CHR ''b'', CHR 0x08), (CHR ''f'', CHR 0x0C), (CHR ''n'', CHR 0x0A),
      (CHR ''r'', CHR 0x0D), (CHR ''t'', CHR 0x09)]"

lemma json_escape_forms:
  "json_escape c = [c] \<and> c \<noteq> CHR 0x22 \<and> c \<noteq> CHR 0x5C
   \<or> (\<exists>x. json_escape c = [CHR 0x5C, x] \<and> x \<noteq> CHR ''u'' \<and> map_of short_escapes x = Some c)
   \<or> json_escape c = [CHR 0x5C, CHR ''u'', CHR ''0'', CHR ''0'', hex_digit (of_char c div 16), hex_digit (of_char c mod 16)]
     \<and> of_char c < (32 :: nat)"
proof (cases "c \<in> {CHR 0x22, CHR 0x5C, CHR 0x08, CHR 0x0C, CHR 0x0A, CHR 0x0D, CHR 0x09}")
  case True
  then have "\<exists>x. json_escape c = [CHR 0x5C, x] \<and> x \<noteq> CHR ''u'' \<and> map_of short_escapes x = Some c"
    by (elim insertE emptyE) (simp_all add: json_escape_def short_escapes_def)
  then show ?thesis by blast
next
  case False
  then show ?thesis by (cases "of_char c < (32 :: nat)") (simp_all add: json_escape_def)
qed

lemma json_escape_cons: "\<exists>x xs. json_escape c = x # xs \<and> x \<noteq> CHR 0x22"
  using json_escape_forms [of c] by auto

lemma json_escape_inj: "json_escape c @ xs = json_escape d @ ys \<Longrightarrow> c = d \<and> xs = ys"
proof -
  have control: "c = d" if "of_char c < (32 :: nat)" "of_char d < (32 :: nat)"
    "hex_digit (of_char c div 16) = hex_digit (of_char d div 16)"
    "hex_digit (of_char c mod 16) = hex_digit (of_char d mod 16)"
  proof -
    have "of_char c div 16 = (of_char d div 16 :: nat)" "of_char c mod 16 = (of_char d mod 16 :: nat)"
      using that by (simp_all add: hex_digit_inj)
    then have "of_char c = (of_char d :: nat)" by (metis div_mult_mod_eq)
    then show ?thesis by simp
  qed
  assume "json_escape c @ xs = json_escape d @ ys"
  then show ?thesis
    using json_escape_forms [of c] json_escape_forms [of d] by (elim disjE exE conjE) (auto intro: control)
qed

lemma json_escapes_inj:
  "concat (map json_escape s) @ CHR 0x22 # xs = concat (map json_escape t) @ CHR 0x22 # ys \<Longrightarrow> s = t \<and> xs = ys"
proof (induction s arbitrary: t)
  case Nil
  then show ?case using json_escape_cons by (cases t) (auto, metis append_Cons list.inject)
next
  case (Cons c s)
  show ?case
  proof (cases t)
    case Nil
    with Cons.prems json_escape_cons [of c] show ?thesis by auto
  next
    case (Cons d t')
    with Cons.prems have "json_escape c @ (concat (map json_escape s) @ CHR 0x22 # xs)
        = json_escape d @ (concat (map json_escape t') @ CHR 0x22 # ys)" by simp
    from json_escape_inj [OF this] Cons.IH [of t'] Cons show ?thesis by blast
  qed
qed

lemma json_string_inj: "json_string s @ xs = json_string t @ ys \<Longrightarrow> s = t \<and> xs = ys"
  using json_escapes_inj [of s xs t ys] by (simp add: json_string_def)

lemma json_strings_inj: "json_strings s = json_strings t \<Longrightarrow> length s = length t \<Longrightarrow> s = t"
proof (induction s arbitrary: t rule: json_strings.induct)
  case (2 x)
  then obtain y where "t = [y]" by (cases t) auto
  with 2 json_string_inj [of x "[]" y "[]"] show ?case by simp
next
  case (3 x y xs)
  then obtain x' y' ys where t: "t = x' # y' # ys" by (metis length_Suc_conv)
  with 3(2) have "json_string x @ ('','' @ json_strings (y # xs)) = json_string x' @ ('','' @ json_strings (y' # ys))"
    by simp
  from json_string_inj [OF this] 3(1) [of "y' # ys"] 3(3) t show ?case by simp
qed simp

lemma partition_key_inj: "partition_key s = partition_key t \<Longrightarrow> length s = length t \<Longrightarrow> s = t"
  using json_strings_inj [of s t] by (auto simp: partition_key_def split: list.splits simp del: json_strings.simps)

end
