(* ===== verification/Dedup_Spec.thy ===== *)
theory Dedup_Spec
  imports Dedup
begin

text \<open>
  What \<open>src/dedup.rs\<close> promises: the cut-off read from a target's rows stands for those rows, and the
  filter keeps exactly the rows the target lacks, on the ordering the module asks of its source. A
  row is its timestamp, its key and the tuple of its partition columns.
\<close>

type_synonym 't dedup_row = "'t \<times> string \<times> string list"

section \<open>Batches of rows\<close>

definition batch_of :: "nat \<Rightarrow> 't dedup_row list \<Rightarrow> 't dedup_batch" where
  "batch_of n rows =
     \<lparr>db_rows = length rows, db_ts = Inr (map (\<lambda>(t, _, _). Some t) rows), db_keys = Inr (map (\<lambda>(_, k, _). Some k) rows),
      db_parts = Inr (map (\<lambda>j. map (\<lambda>(_, _, p). Some (p ! j)) rows) [0..<n]), db_comparable = Inr ()\<rparr>"

lemma batch_of_simps [simp]:
  "db_rows (batch_of n rows) = length rows"
  "db_ts (batch_of n rows) = Inr (map (\<lambda>(t, _, _). Some t) rows)"
  "db_keys (batch_of n rows) = Inr (map (\<lambda>(_, k, _). Some k) rows)"
  "db_parts (batch_of n rows) = Inr (map (\<lambda>j. map (\<lambda>(_, _, p). Some (p ! j)) rows) [0..<n])"
  "db_comparable (batch_of n rows) = Inr ()"
  by (simp_all add: batch_of_def)

lemma row_part_batch_of:
  assumes "i < length rows" "length (snd (snd (rows ! i))) = n"
  shows "row_part (map (\<lambda>j. map (\<lambda>(_, _, p). Some (p ! j)) rows) [0..<n]) i = Some (partition_key (snd (snd (rows ! i))))"
proof -
  let ?columns = "map (\<lambda>j. map (\<lambda>(_, _, p). Some (p ! j)) rows) [0..<n]"
  have "\<not> part_null ?columns i" using assms(1) by (auto simp: part_null_def list_ex_iff split: prod.splits)
  moreover have "part_tuple ?columns i = snd (snd (rows ! i))"
    using assms by (intro nth_equalityI) (auto simp: part_tuple_def split: prod.splits)
  moreover have "list_all (\<lambda>c. length c = length rows) ?columns" by (simp add: list_all_iff)
  ultimately show ?thesis using row_part_eq [OF _ assms(1), of ?columns] by simp
qed

lemma row_parts_batch_of:
  assumes "\<forall>r \<in> set rows. length (snd (snd r)) = n"
  shows "map (row_part (map (\<lambda>j. map (\<lambda>(_, _, p). Some (p ! j)) rows) [0..<n])) [0..<length rows]
    = map (\<lambda>(_, _, p). Some (partition_key p)) rows"
  using assms by (intro nth_equalityI) (auto simp: row_part_batch_of split: prod.splits)

section \<open>The cut-off stands for the rows it was read from\<close>

definition mark_of :: "'t :: linorder dedup_row list \<Rightarrow> string list \<Rightarrow> 't option \<times> string set" where
  "mark_of rows p = cutoff_of (map (\<lambda>(t, k, _). (Some t, Some k)) (filter (\<lambda>(_, _, q). q = p) rows))"

definition some_mark :: "'t option \<times> string set \<Rightarrow> ('t \<times> string set) option" where
  "some_mark m = (case m of (None, _) \<Rightarrow> None | (Some t, ks) \<Rightarrow> Some (t, ks))"

definition stands_for :: "nat \<Rightarrow> 't :: linorder dedup \<Rightarrow> 't dedup_row list \<Rightarrow> bool" where
  "stands_for n d rows \<longleftrightarrow>
     length (dd_partition_columns d) = n \<and> (\<forall>r \<in> set rows. length (snd (snd r)) = n)
     \<and> (if n = 0 then (dd_watermark d, dd_boundary_keys d) = mark_of rows []
        else \<forall>p. length p = n \<longrightarrow> bt_get (dd_partitions d) (partition_key p) = some_mark (mark_of rows p))"

lemma mark_of_Nil [simp]: "mark_of [] p = (None, {})"
  by (simp add: mark_of_def cutoff_of_def newest_def)

lemma mark_of_snoc:
  "mark_of (rows @ [(t, k, q)]) p = (if q = p then see_row (Some t, Some k) (mark_of rows p) else mark_of rows p)"
  by (simp add: mark_of_def see_row_cutoff_of)

lemma some_mark_see_row:
  "some_mark (see_row (Some t, Some k) m) = Some (case some_mark m of
     None \<Rightarrow> (t, {k})
   | Some (b, tied) \<Rightarrow> if t > b then (t, {k}) else if t = b then (b, tied \<union> {k}) else (b, tied))"
  by (auto simp: some_mark_def see_row_def key_set_def split: option.splits prod.splits)

lemma fold_see_part_rows:
  assumes "\<forall>r \<in> set (rows @ b). length (snd (snd r)) = n"
    and "\<forall>p. length p = n \<longrightarrow> bt_get m (partition_key p) = some_mark (mark_of rows p)"
    and "fold_res (see_part_row limit) (map (\<lambda>(t, k, p). (Some t, Some k, Some (partition_key p))) b) m = Inr m'"
  shows "\<forall>p. length p = n \<longrightarrow> bt_get m' (partition_key p) = some_mark (mark_of (rows @ b) p)"
  using assms
proof (induction b arbitrary: rows m)
  case (Cons r b)
  obtain t k q where r: "r = (t, k, q)" by (cases r)
  from Cons.prems(3) obtain m1 where one: "see_part_row limit (Some t, Some k, Some (partition_key q)) m = Inr m1"
    and rest: "fold_res (see_part_row limit) (map (\<lambda>(t, k, p). (Some t, Some k, Some (partition_key p))) b) m1 = Inr m'"
    by (auto simp: r)
  have q: "length q = n" using Cons.prems(1) by (simp add: r)
  then have at: "bt_get m (partition_key q) = some_mark (mark_of rows q)" using Cons.prems(2) by blast
  have new: "bt_get m1 (partition_key q) = some_mark (mark_of (rows @ [r]) q)"
    using one at by (auto simp: r mark_of_snoc some_mark_see_row see_part_row_def key_set_def split: option.splits if_splits)
  have other: "bt_get m1 (partition_key p) = bt_get m (partition_key p)" if "length p = n" "p \<noteq> q" for p
  proof -
    from that q have "partition_key p \<noteq> partition_key q" using partition_key_inj by metis
    with one show ?thesis by (auto simp: see_part_row_def split: option.splits if_splits)
  qed
  have "\<forall>p. length p = n \<longrightarrow> bt_get m1 (partition_key p) = some_mark (mark_of (rows @ [r]) p)"
    using new other Cons.prems(2) by (metis mark_of_snoc r)
  from Cons.IH [OF _ this rest] Cons.prems(1) show ?case by simp
qed simp

lemma zip_map_batch: "zip (map f rows) (map g rows) = map (\<lambda>r. (f r, g r)) rows"
  by (induction rows) auto

lemma batch_triples:
  assumes "\<forall>r \<in> set b. length (snd (snd r)) = n"
  shows "zip (map (\<lambda>(t, _, _). Some t) b) (zip (map (\<lambda>(_, k, _). Some k) b)
      (map (row_part (map (\<lambda>j. map (\<lambda>(_, _, p). Some (p ! j)) b) [0..<n])) [0..<length b]))
    = map (\<lambda>(t, k, p). (Some t, Some k, Some (partition_key p))) b"
  unfolding row_parts_batch_of [OF assms] zip_map_batch by (simp add: case_prod_unfold)

lemma see_batch_stands_for:
  assumes "stands_for n d rows" and "dd_key_column d = Some c" and "\<forall>r \<in> set b. length (snd (snd r)) = n"
    and "see_batch limit (batch_of n b) d = Inr d'"
  shows "stands_for n d' (rows @ b) \<and> dd_key_column d' = Some c"
proof (cases "b = []")
  case True
  with assms show ?thesis by (simp add: see_batch_def)
next
  case False
  show ?thesis
  proof (cases "n = 0")
    case True
    have f: "filter (\<lambda>(_, _, q). q = []) rows = rows" "filter (\<lambda>(_, _, q). q = []) b = b"
      using assms(1,3) True by (force simp: stands_for_def filter_id_conv)+
    have z: "zip (map (\<lambda>(t, _, _). Some t) b) (map (\<lambda>(_, k, _). Some k) b) = map (\<lambda>(t, k, _). (Some t, Some k)) b"
      by (simp add: zip_map_batch case_prod_unfold)
    from assms(1) True have "(dd_watermark d, dd_boundary_keys d) = mark_of rows []" and "\<not> is_partitioned d"
      by (simp_all add: stands_for_def is_partitioned_def)
    with assms(2,4) False have "d' = d\<lparr>dd_watermark := fst (mark_of (rows @ b) []), dd_boundary_keys := snd (mark_of (rows @ b) [])\<rparr>"
      by (simp add: see_batch_def batch_key_list_def z mark_of_def f fold_see_row split: prod.splits)
    with assms True show ?thesis by (auto simp: stands_for_def)
  next
    case part: False
    from assms(1) part have "is_partitioned d" by (auto simp: stands_for_def is_partitioned_def)
    then obtain running where
      running: "fold_res (see_part_row limit) (map (\<lambda>(t, k, p). (Some t, Some k, Some (partition_key p))) b) (dd_partitions d) = Inr running"
      and d': "d' = d\<lparr>dd_partitions := running\<rparr>"
      using assms(2,3,4) False
      by (auto simp: see_batch_def batch_key_list_def batch_triples)
    have "\<forall>r \<in> set (rows @ b). length (snd (snd r)) = n" using assms(1,3) by (auto simp: stands_for_def)
    from fold_see_part_rows [OF this _ running] assms(1,2) part d' \<open>\<forall>r \<in> set (rows @ b). length (snd (snd r)) = n\<close>
    show ?thesis by (simp add: stands_for_def)
  qed
qed

lemma read_stands_for:
  assumes "read_bounded schema (map (\<lambda>b. Inr (batch_of (length parts) b)) target) ts (Some key) parts limit = Inr d"
    and "\<forall>b \<in> set target. \<forall>r \<in> set b. length (snd (snd r)) = length parts"
  shows "stands_for (length parts) d (concat target) \<and> dd_key_column d = Some key"
proof -
  have fold: "stands_for n d' (rows @ concat target) \<and> dd_key_column d' = Some key"
    if "fold_res (\<lambda>b d. res_bind b (\<lambda>b. see_batch limit b d)) (map (\<lambda>b. Inr (batch_of n b)) target) d = Inr d'"
      "stands_for n d rows" "dd_key_column d = Some key" "\<forall>b \<in> set target. \<forall>r \<in> set b. length (snd (snd r)) = n"
    for n and d d' :: "'a dedup" and rows
    using that
  proof (induction target arbitrary: d rows)
    case (Cons b target)
    then obtain d1 where one: "see_batch limit (batch_of n b) d = Inr d1"
      and rest: "fold_res (\<lambda>b d. res_bind b (\<lambda>b. see_batch limit b d)) (map (\<lambda>b. Inr (batch_of n b)) target) d1 = Inr d'"
      by auto
    from see_batch_stands_for [OF Cons.prems(2,3) _ one] Cons.prems(4) Cons.IH [OF rest, of "rows @ b"] show ?case by simp
  qed simp
  have "stands_for (length parts) (dedup_new ts (Some key) parts :: 'a dedup) []"
    by (simp add: stands_for_def dedup_new_def some_mark_def)
  from fold [OF _ this] assms show ?thesis by (auto simp: read_bounded_def dedup_new_def)
qed

section \<open>What the filter keeps\<close>

text \<open>The ordering the module asks of a source: within a partition timestamps rise with arrival; a key names one row.\<close>

definition arrives_in_order :: "nat \<Rightarrow> 't :: linorder dedup_row list \<Rightarrow> bool" where
  "arrives_in_order n source \<longleftrightarrow>
     (\<forall>r \<in> set source. length (snd (snd r)) = n) \<and> distinct (map (fst \<circ> snd) source)
     \<and> (\<forall>i j. i < j \<longrightarrow> j < length source \<longrightarrow> snd (snd (source ! i)) = snd (snd (source ! j))
              \<longrightarrow> fst (source ! i) \<le> fst (source ! j))"

text \<open>A target filled from the source: of every partition it holds the rows up to some point.\<close>

definition filled_from :: "'t dedup_row list \<Rightarrow> 't dedup_row set \<Rightarrow> bool" where
  "filled_from source held \<longleftrightarrow>
     held \<subseteq> set source
     \<and> (\<forall>i j. i < j \<longrightarrow> j < length source \<longrightarrow> snd (snd (source ! i)) = snd (snd (source ! j))
              \<longrightarrow> source ! j \<in> held \<longrightarrow> source ! i \<in> held)"

lemma arrives_le:
  "arrives_in_order n source \<Longrightarrow> i \<le> j \<Longrightarrow> j < length source \<Longrightarrow> source ! i = (t, k, p) \<Longrightarrow> source ! j = (t', k', p)
    \<Longrightarrow> t \<le> t'"
  unfolding arrives_in_order_def by (cases "i = j") (simp, metis fst_conv snd_conv le_neq_implies_less)

lemma mark_of_None_iff: "some_mark (mark_of rows p) = None \<longleftrightarrow> (\<forall>t k. (t, k, p) \<notin> set rows)"
  unfolding some_mark_def mark_of_def cutoff_of_def
  by (simp add: newest_None_iff split: option.splits)
     (use newest_None_iff [of "map (\<lambda>(t, k, _). (Some t, Some k)) (filter (\<lambda>(_, _, q). q = p) rows)"] in force)

lemma mark_of_Some:
  assumes "some_mark (mark_of rows p) = Some (m, ks)"
  shows "\<exists>k. (m, k, p) \<in> set rows" and "(t, k, p) \<in> set rows \<Longrightarrow> t \<le> m" and "k \<in> ks \<longleftrightarrow> (m, k, p) \<in> set rows"
proof -
  let ?rows = "map (\<lambda>(t, k, _). (Some t, Some k)) (filter (\<lambda>(_, _, q). q = p) rows)"
  from assms have n: "newest ?rows = Some m" and ks: "ks = tied_keys ?rows m"
    by (auto simp: some_mark_def mark_of_def cutoff_of_def split: option.splits)
  have mem: "(Some t, k) \<in> set ?rows \<longleftrightarrow> (\<exists>x. k = Some x \<and> (t, x, p) \<in> set rows)" for t k by force
  from n show "\<exists>k. (m, k, p) \<in> set rows" and "(t, k, p) \<in> set rows \<Longrightarrow> t \<le> m"
    unfolding newest_Some_iff mem by blast+
  show "k \<in> ks \<longleftrightarrow> (m, k, p) \<in> set rows" unfolding ks tied_keys_def mem by simp
qed

lemma mark_decides:
  assumes order: "arrives_in_order n source" and held: "filled_from source (set rows)" and r: "(t, k, p) \<in> set source"
  shows "(t, k, p) \<in> set rows \<longleftrightarrow>
    (case some_mark (mark_of rows p) of None \<Rightarrow> False | Some (m, ks) \<Rightarrow> t < m \<or> t = m \<and> k \<in> ks)"
proof (cases "some_mark (mark_of rows p)")
  case None
  then show ?thesis by (simp only: option.case) (simp add: mark_of_None_iff)
next
  case (Some mk)
  obtain m ks where mk: "some_mark (mark_of rows p) = Some (m, ks)" using Some by (cases mk) auto
  note mark = mark_of_Some [OF mk]
  obtain k0 where k0: "(m, k0, p) \<in> set rows" using mark(1) by blast
  have "(t, k, p) \<in> set rows" if "t < m"
  proof -
    from k0 held have "(m, k0, p) \<in> set source" by (auto simp: filled_from_def)
    then obtain j where j: "j < length source" "source ! j = (m, k0, p)" by (auto simp: in_set_conv_nth)
    from r obtain i where i: "i < length source" "source ! i = (t, k, p)" by (auto simp: in_set_conv_nth)
    have "\<not> j \<le> i"
    proof
      assume "j \<le> i"
      from arrives_le [OF order this i(1) j(2) i(2)] that show False by simp
    qed
    then have "i < j" by simp
    with held i j k0 show ?thesis unfolding filled_from_def by (metis snd_conv)
  qed
  with mk mark(2,3) show ?thesis by (auto simp: not_less dest: le_neq_trans)
qed

text \<open>A row past its partition's mark, and every row of the partition after it, is not in the target.\<close>

lemma past_the_mark:
  assumes "arrives_in_order n source" and "i \<le> j" "j < length source" "snd (snd (source ! i)) = snd (snd (source ! j))"
    and "case some_mark (mark_of rows (snd (snd (source ! i)))) of None \<Rightarrow> True | Some (m, _) \<Rightarrow> m < fst (source ! i)"
  shows "source ! j \<notin> set rows"
proof
  assume held: "source ! j \<in> set rows"
  obtain t k p where j: "source ! j = (t, k, p)" by (cases "source ! j")
  have p: "snd (snd (source ! i)) = p" using assms(4) j by simp
  obtain t' k' where i: "source ! i = (t', k', p)" using p by (cases "source ! i") simp
  from arrives_le [OF assms(1-3) i j] i have le: "fst (source ! i) \<le> t" by simp
  from held j have at: "(t, k, p) \<in> set rows" by simp
  show False
  proof (cases "some_mark (mark_of rows p)")
    case None
    with at show False by (simp add: mark_of_None_iff)
  next
    case (Some mk)
    then obtain m ks where mk: "some_mark (mark_of rows p) = Some (m, ks)" by (cases mk) auto
    with assms(5) p have "m < fst (source ! i)" by simp
    with le mark_of_Some(2) [OF mk at] show False by simp
  qed
qed

text \<open>A row under the marks read from a target: covered when the target holds it, past when it lies beyond its mark.\<close>

definition row_past :: "'t :: linorder dedup_row list \<Rightarrow> 't dedup_row \<Rightarrow> bool" where
  "row_past rows = (\<lambda>(t, k, p). case some_mark (mark_of rows p) of None \<Rightarrow> True | Some (m, _) \<Rightarrow> m < t)"

lemma row_covered_by_marks:
  assumes "bt_get marks (partition_key p) = some_mark (mark_of rows p)"
  shows "row_covered marks True ties (Some t, Some k, Some (partition_key p))
    = ((case some_mark (mark_of rows p) of None \<Rightarrow> False | Some (m, ks) \<Rightarrow> t < m \<or> t = m \<and> k \<in> ks), row_past rows (t, k, p))"
  using assms by (auto simp: row_covered_def row_past_def key_unseen_def split: option.splits prod.splits)

lemma not_covered_count: "length xs - length (filter (\<lambda>x. x) (map (\<lambda>r. \<not> P r) xs)) = length (filter P xs)"
  using sum_length_filter_compl [of P xs] by (simp add: filter_map comp_def)

lemma filter_by_marks:
  assumes d: "stands_for n d rows" "dd_key_column d = Some key" and order: "arrives_in_order n source"
    and held: "filled_from source (set rows)" and batch: "set batch \<subseteq> set source"
  shows "dedup_filter d (batch_of n batch) =
    Inr \<lparr>fi_keep = map (\<lambda>r. r \<notin> set rows) batch, fi_covered = length (filter (\<lambda>r. r \<in> set rows) batch),
         fi_beyond = length (filter (row_past rows) batch)\<rparr>"
proof -
  have n: "\<forall>r \<in> set batch. length (snd (snd r)) = n" using batch order by (auto simp: arrives_in_order_def)
  have decides: "(case some_mark (mark_of rows p) of None \<Rightarrow> False | Some (m, ks) \<Rightarrow> t < m \<or> t = m \<and> k \<in> ks)
      \<longleftrightarrow> (t, k, p) \<in> set rows" if "(t, k, p) \<in> set batch" for t k p
    using mark_decides [OF order held] that batch by blast
  show ?thesis
  proof (cases "n = 0")
    case True
    have p: "snd (snd r) = []" if "r \<in> set batch" for r using n that True by simp
    from d(1) True have m: "(dd_watermark d, dd_boundary_keys d) = mark_of rows []" and np: "\<not> is_partitioned d"
      by (simp_all add: stands_for_def is_partitioned_def)
    show ?thesis
    proof (cases "dd_watermark d")
      case None
      with m have none: "some_mark (mark_of rows []) = None" by (metis some_mark_def case_prod_conv option.case(1))
      have "r \<notin> set rows \<and> row_past rows r" if "r \<in> set batch" for r
        using decides [of "fst r" "fst (snd r)" "snd (snd r)"] that p [OF that] none by (cases r) (simp add: row_past_def)
      then have "map (\<lambda>r. r \<notin> set rows) batch = replicate (length batch) True" "filter (\<lambda>r. r \<in> set rows) batch = []"
        "filter (row_past rows) batch = batch"
        by (simp_all add: filter_id_conv map_replicate_const [symmetric])
      with None np show ?thesis by (simp add: dedup_filter_def)
    next
      case (Some mark)
      with m have some: "some_mark (mark_of rows []) = Some (mark, dd_boundary_keys d)"
        by (metis some_mark_def case_prod_conv option.case(2))
      have kept: "row_kept (Some key) mark (dd_boundary_keys d) (Some (fst r), Some (fst (snd r))) \<longleftrightarrow> r \<notin> set rows"
        if "r \<in> set batch" for r
        using decides [of "fst r" "fst (snd r)" "snd (snd r)"] that p [OF that] some
        by (cases r) (auto simp: row_kept_def row_after_def key_unseen_def not_less)
      have past: "row_after mark (Some (fst r)) \<longleftrightarrow> row_past rows r" if "r \<in> set batch" for r
        using p [OF that] some by (cases r) (simp add: row_past_def row_after_def)
      let ?ts = "map (\<lambda>(t, _, _). Some t) batch" and ?ks = "map (\<lambda>(_, k, _). Some k) batch"
      have keep: "map (row_kept (Some key) mark (dd_boundary_keys d)) (zip ?ts ?ks) = map (\<lambda>r. r \<notin> set rows) batch"
        unfolding zip_map_batch by (simp add: case_prod_unfold kept)
      have after: "length (filter (row_after mark) ?ts) = length (filter (row_past rows) batch)"
        by (simp add: filter_map comp_def case_prod_unfold past cong: filter_cong)
      have "require_timestamps (batch_of n batch) = Inr ?ts" by (auto simp: require_timestamps_def)
      with Some np d(2) show ?thesis
        using not_covered_count [of batch "\<lambda>r. r \<in> set rows"]
        by (simp add: dedup_filter_def batch_key_list_def Let_def keep after del: filter_map length_filter_map)
    qed
  next
    case False
    let ?columns = "map (\<lambda>j. map (\<lambda>(_, _, p). Some (p ! j)) batch) [0..<n]"
    let ?triples = "map (\<lambda>(t, k, p). (Some t, Some k, Some (partition_key p))) batch"
    from d(1) False have part: "is_partitioned d"
      and marks: "\<And>p. length p = n \<Longrightarrow> bt_get (dd_partitions d) (partition_key p) = some_mark (mark_of rows p)"
      by (auto simp: stands_for_def is_partitioned_def)
    have row: "row_covered (dd_partitions d) True True (Some (fst r), Some (fst (snd r)), Some (partition_key (snd (snd r))))
        = (r \<in> set rows, row_past rows r)" if "r \<in> set batch" for r
      using row_covered_by_marks [OF marks, of "snd (snd r)" True "fst r" "fst (snd r)"] n that
        decides [of "fst r" "fst (snd r)" "snd (snd r)"] by simp
    have rows: "map (row_covered (dd_partitions d) True True) ?triples = map (\<lambda>r. (r \<in> set rows, row_past rows r)) batch"
      by (simp add: case_prod_unfold row)
    have covered: "covered_rows d True (map (\<lambda>(t, _, _). Some t) batch) ?columns (Some (map (\<lambda>(_, k, _). Some k) batch)) (length batch)
        = (map (\<lambda>r. r \<in> set rows) batch, length (filter (row_past rows) batch))"
    proof (cases "dd_partitions d = []")
      case True
      have "r \<notin> set rows \<and> row_past rows r" if "r \<in> set batch" for r
      proof -
        have "some_mark (mark_of rows (snd (snd r))) = None" using marks [of "snd (snd r)"] n that True by simp
        with decides [of "fst r" "fst (snd r)" "snd (snd r)"] that show ?thesis by (cases r) (simp add: row_past_def)
      qed
      then have "map (\<lambda>r. r \<in> set rows) batch = replicate (length batch) False" "filter (row_past rows) batch = batch"
        by (simp_all add: filter_id_conv map_replicate_const [symmetric])
      with True show ?thesis by (simp add: covered_rows_def)
    next
      case ne: False
      have "map fst (map (row_covered (dd_partitions d) True True) ?triples) = map (\<lambda>r. r \<in> set rows) batch"
        "length (filter snd (map (row_covered (dd_partitions d) True True) ?triples)) = length (filter (row_past rows) batch)"
        unfolding rows by (simp_all add: comp_def)
      with ne show ?thesis
        by (simp add: covered_rows_def batch_triples [OF n] Let_def del: map_map filter_map length_filter_map)
    qed
    have "require_timestamps (batch_of n batch) = Inr (map (\<lambda>(t, _, _). Some t) batch)"
      by (auto simp: require_timestamps_def)
    moreover have "require_partitions (batch_of n batch) = Inr ?columns"
      by (auto simp: require_partitions_def list_ex_iff)
    ultimately show ?thesis using part d(2) not_covered_count [of batch "\<lambda>r. r \<in> set rows"]
      by (simp add: dedup_filter_def filter_partitioned_def covered comp_def)
  qed
qed

text \<open>
  C6. The filter keeps exactly the rows the target lacks. When the target was filled from the same
  source, of every partition the rows up to some point, and the source's rows arrive in the order the
  module asks for, then of any batch of source rows the filter drops those the target holds and no
  other, in both forms of the cut-off; it counts what it dropped; and it reports a row as past the
  target's only when neither that row nor any later one of its partition is in the target, which is
  what ends a coverage window.
\<close>

theorem filter_keeps_what_the_target_lacks:
  assumes "read_bounded schema (map (\<lambda>b. Inr (batch_of (length parts) b)) target) ts (Some key) parts limit = Inr d"
    and "arrives_in_order (length parts) source" and "filled_from source (set (concat target))"
    and "set batch \<subseteq> set source"
  shows "\<exists>f. dedup_filter d (batch_of (length parts) batch) = Inr f
    \<and> fi_keep f = map (\<lambda>r. r \<notin> set (concat target)) batch
    \<and> fi_covered f = length (filter (\<lambda>r. r \<in> set (concat target)) batch)
    \<and> (0 < fi_beyond f \<longrightarrow> (\<exists>i. i < length source \<and> source ! i \<in> set batch
          \<and> (\<forall>j. i \<le> j \<longrightarrow> j < length source \<longrightarrow> snd (snd (source ! i)) = snd (snd (source ! j))
                \<longrightarrow> source ! j \<notin> set (concat target))))"
proof -
  have "\<forall>b \<in> set target. \<forall>r \<in> set b. length (snd (snd r)) = length parts"
    using assms(2,3) by (auto simp: arrives_in_order_def filled_from_def)
  with read_stands_for [OF assms(1)] have d: "stands_for (length parts) d (concat target)" "dd_key_column d = Some key"
    by blast+
  have past: "\<exists>i. i < length source \<and> source ! i \<in> set batch
          \<and> (\<forall>j. i \<le> j \<longrightarrow> j < length source \<longrightarrow> snd (snd (source ! i)) = snd (snd (source ! j))
                \<longrightarrow> source ! j \<notin> set (concat target))"
    if some: "0 < length (filter (row_past (concat target)) batch)"
  proof -
    from some obtain r where r: "r \<in> set batch" "row_past (concat target) r" by (force simp: filter_empty_conv)
    with assms(4) obtain i where i: "i < length source" "source ! i = r" by (metis in_set_conv_nth subsetD)
    from r(2) i(2) have "case some_mark (mark_of (concat target) (snd (snd (source ! i)))) of
        None \<Rightarrow> True | Some (m, _) \<Rightarrow> m < fst (source ! i)"
      by (cases r) (auto simp: row_past_def split: option.splits)
    from past_the_mark [OF assms(2) _ _ _ this] i r(1) show ?thesis by blast
  qed
  from filter_by_marks [OF d assms(2-4)] past show ?thesis by (intro exI conjI) (assumption | simp)+
qed

theorem filter_keeps_what_the_target_lacks_witness:
  "\<exists>d f. read_bounded [(''at'', OtherType ''timestamp''), (''id'', Int64), (''day'', Utf8)]
        [Inr (batch_of 1 [(10 :: int, ''a'', [''mon'']), (30, ''b'', [''tue''])])] ''at'' (Some ''id'') [''day''] 10 = Inr d
    \<and> dedup_filter d (batch_of 1 [(10, ''a'', [''mon'']), (30, ''c'', [''tue'']), (20, ''d'', [''mon''])]) = Inr f
    \<and> fi_keep f = [False, True, True] \<and> fi_beyond f = 1"
proof -
  let ?rows = "[(10 :: int, ''a'', [''mon'']), (30, ''b'', [''tue''])]"
  let ?source = "[(10 :: int, ''a'', [''mon'']), (30, ''b'', [''tue'']), (30, ''c'', [''tue'']), (20, ''d'', [''mon''])]"
  let ?batch = "[(10 :: int, ''a'', [''mon'']), (30, ''c'', [''tue'']), (20, ''d'', [''mon''])]"
  obtain d where d: "read_bounded [(''at'', OtherType ''timestamp''), (''id'', Int64), (''day'', Utf8)]
        (map (\<lambda>b. Inr (batch_of (length [''day'']) b)) [?rows]) ''at'' (Some ''id'') [''day''] 10 = Inr d"
    and parts: "dd_partitions d = [(''mon'', (10, {''a''})), (''tue'', (30, {''b''}))]"
    and other: "dd_partition_columns d = [''day'']" "dd_key_column d = Some ''id''"
    by (simp add: read_bounded_def require_columns_def groups_exactly_def dedup_new_def see_batch_def is_partitioned_def
        batch_key_list_def see_part_row_def row_part_def part_null_def part_with_def key_set_def upt_rec
        partition_key_def)
  have order: "arrives_in_order (length [''day'']) ?source"
    unfolding arrives_in_order_def by (auto simp: less_Suc_eq nth_Cons')
  have held: "filled_from ?source (set (concat [?rows]))"
    unfolding filled_from_def by (auto simp: less_Suc_eq nth_Cons')
  from filter_keeps_what_the_target_lacks [OF d order held, of ?batch] obtain f where
    f: "dedup_filter d (batch_of 1 ?batch) = Inr f" "fi_keep f = [False, True, True]" by auto
  from f(1) have "fi_beyond f = 1"
    by (simp add: dedup_filter_def filter_partitioned_def is_partitioned_def other parts require_timestamps_def
        require_partitions_def covered_rows_def row_covered_def row_part_def part_null_def part_with_def key_unseen_def
        upt_rec Let_def) force
  with d f show ?thesis by auto
qed

end
