(* ===== verification/Stats.thy ===== *)
theory Stats
  imports Cursor "HOL-Library.Word"
begin

text \<open>
  \<open>src/stats.rs\<close>: Delta's per-file statistics as bounds, and the comparisons that may rule a file out. A
  double is its bit pattern; IEEE addition, subtraction and the conversion of an integer are the
  machine's (\<open>fpu\<close>), and so is chrono's reading of a timestamp's text.
\<close>

unbundle bit_operations_syntax

section \<open>Doubles\<close>

type_synonym f64 = "64 word"

definition f64_negative :: "f64 \<Rightarrow> bool" where
  "f64_negative x \<longleftrightarrow> 2 ^ 63 \<le> unat x"

definition f64_magnitude :: "f64 \<Rightarrow> nat" where
  "f64_magnitude x = (if f64_negative x then unat x - 2 ^ 63 else unat x)"

definition f64_inf_bits :: nat where
  "f64_inf_bits = 2047 * 2 ^ 52"

definition f64_is_nan :: "f64 \<Rightarrow> bool" where
  "f64_is_nan x \<longleftrightarrow> f64_inf_bits < f64_magnitude x"

definition f64_is_infinite :: "f64 \<Rightarrow> bool" where
  "f64_is_infinite x \<longleftrightarrow> f64_magnitude x = f64_inf_bits"

text \<open>The bits of a double that is not NaN order it once its sign is taken into account.\<close>

definition f64_rank :: "f64 \<Rightarrow> int" where
  "f64_rank x = (if f64_negative x then - int (f64_magnitude x) else int (f64_magnitude x))"

definition f64_partial_cmp :: "f64 \<Rightarrow> f64 \<Rightarrow> ordering option" where
  "f64_partial_cmp a b =
     (if f64_is_nan a \<or> f64_is_nan b then None
      else Some (if f64_rank a < f64_rank b then Less else if f64_rank a = f64_rank b then Equal else Greater))"

record fpu =
  f64_add :: "f64 \<Rightarrow> f64 \<Rightarrow> f64"
  f64_sub :: "f64 \<Rightarrow> f64 \<Rightarrow> f64"
  f64_of_int :: "int \<Rightarrow> f64"

section \<open>Bounds\<close>

datatype bound = BInt int | BFloat f64 | BText string

text \<open>\<open>derive(PartialOrd)\<close>: the variants in their order, then their values.\<close>

fun bound_partial_cmp :: "bound \<Rightarrow> bound \<Rightarrow> ordering option" where
  "bound_partial_cmp (BInt a) (BInt b) = Some (if a < b then Less else if a = b then Equal else Greater)"
| "bound_partial_cmp (BFloat a) (BFloat b) = f64_partial_cmp a b"
| "bound_partial_cmp (BText a) (BText b) = Some (if a < b then Less else if a = b then Equal else Greater)"
| "bound_partial_cmp (BInt _) _ = Some Less"
| "bound_partial_cmp (BFloat _) (BInt _) = Some Greater"
| "bound_partial_cmp (BFloat _) (BText _) = Some Less"
| "bound_partial_cmp (BText _) _ = Some Greater"

definition bound_lt :: "bound \<Rightarrow> bound \<Rightarrow> bool" where
  "bound_lt a b \<longleftrightarrow> bound_partial_cmp a b = Some Less"

definition provably_below :: "bound \<Rightarrow> bound \<Rightarrow> bool" where
  "provably_below a b \<longleftrightarrow>
     (case (a, b) of
        (BText x, BText y) \<Rightarrow> x < y \<and> strip_prefix x y = None
      | _ \<Rightarrow> bound_lt a b)"

definition ranges_can_overlap :: "bound \<Rightarrow> bound \<Rightarrow> bound \<Rightarrow> bound \<Rightarrow> bool" where
  "ranges_can_overlap file_min file_max want_min want_max \<longleftrightarrow>
     \<not> (provably_below file_max want_min \<or> provably_below want_max file_min)"

text \<open>\<open>partition_point\<close> of a slice that is partitioned by its predicate.\<close>

definition partition_point :: "('a \<Rightarrow> bool) \<Rightarrow> 'a list \<Rightarrow> nat" where
  "partition_point P xs = length (takeWhile P xs)"

definition range_touches_any :: "bound \<Rightarrow> bound \<Rightarrow> bound list \<Rightarrow> bool" where
  "range_touches_any file_min file_max wanted =
     (let i = partition_point (\<lambda>k. bound_lt k file_min) wanted
      in if i < length wanted then \<not> provably_below file_max (wanted ! i) else False)"

section \<open>Slack\<close>

datatype slack = Decimal f64 | Millisecond

definition ulps :: nat where
  "ulps = 16"

definition truncated_micros :: int where
  "truncated_micros = 999"

definition next_toward :: "bool \<Rightarrow> f64 \<Rightarrow> f64" where
  "next_toward up v =
     (if f64_is_nan v \<or> f64_is_infinite v then v
      else if f64_rank v = 0 then (if up then 1 else 2 ^ 63 + 1)
      else if (0 < f64_rank v) = up then v + 1 else v - 1)"

definition saturating_add_i64 :: "int \<Rightarrow> int \<Rightarrow> int" where
  "saturating_add_i64 a b = max (- (2 ^ 63)) (min (2 ^ 63 - 1) (a + b))"

definition saturating_sub_i64 :: "int \<Rightarrow> int \<Rightarrow> int" where
  "saturating_sub_i64 a b = max (- (2 ^ 63)) (min (2 ^ 63 - 1) (a - b))"

fun slack_below :: "fpu \<Rightarrow> slack \<Rightarrow> bound \<Rightarrow> bound" where
  "slack_below f (Decimal unit) (BFloat v) = BFloat ((next_toward False ^^ ulps) (f64_sub f v unit))"
| "slack_below f _ b = b"

fun slack_above :: "fpu \<Rightarrow> slack \<Rightarrow> bound \<Rightarrow> bound" where
  "slack_above f (Decimal unit) (BFloat v) = BFloat ((next_toward True ^^ ulps) (f64_add f v unit))"
| "slack_above f Millisecond (BInt us) = BInt (if us mod 1000 = 0 then saturating_add_i64 us truncated_micros else us)"
| "slack_above f _ b = b"

section \<open>Reading statistics\<close>

definition as_f64 :: "fpu \<Rightarrow> json \<Rightarrow> f64 option" where
  "as_f64 f j = (case j of JInt x \<Rightarrow> Some (f64_of_int f x) | JFloat bits \<Rightarrow> Some (word_of_nat bits) | _ \<Rightarrow> None)"

definition bound_of_stat :: "fpu \<Rightarrow> (string \<Rightarrow> int option) \<Rightarrow> json \<Rightarrow> bound \<Rightarrow> bound option" where
  "bound_of_stat f parse_timestamp_micros stat like =
     (case like of
        BInt _ \<Rightarrow>
          (case stat of
             JInt _ \<Rightarrow> map_option BInt (as_i64 stat)
           | JStr s \<Rightarrow> map_option BInt (parse_timestamp_micros s)
           | _ \<Rightarrow> None)
      | BFloat _ \<Rightarrow> map_option BFloat (as_f64 f stat)
      | BText _ \<Rightarrow> map_option BText (as_str stat))"

record column_stats =
  cs_min :: "bound option"
  cs_max :: "bound option"

definition column_stats_of ::
    "fpu \<Rightarrow> (string \<Rightarrow> int option) \<Rightarrow> json \<Rightarrow> string \<Rightarrow> bound \<Rightarrow> column_stats" where
  "column_stats_of f parse_ts stats column like =
     (let side = (\<lambda>which. Option.bind (Option.bind (json_get which stats) (json_get column))
                            (\<lambda>s. bound_of_stat f parse_ts s like))
      in \<lparr>cs_min = side ''minValues'', cs_max = side ''maxValues''\<rparr>)"

definition loosened :: "fpu \<Rightarrow> slack option \<Rightarrow> column_stats \<Rightarrow> column_stats" where
  "loosened f sl s =
     (case sl of
        None \<Rightarrow> s
      | Some sl \<Rightarrow> \<lparr>cs_min = map_option (slack_below f sl) (cs_min s), cs_max = map_option (slack_above f sl) (cs_max s)\<rparr>)"

section \<open>What a recorded statistic stands for\<close>

text \<open>
  A recorded minimum is at or below every value of its file, a text truncated or not; a recorded
  maximum is the largest value itself or, for text, a prefix of it.
\<close>

definition bound_le :: "bound \<Rightarrow> bound \<Rightarrow> bool" where
  "bound_le a b \<longleftrightarrow> bound_partial_cmp a b \<in> {Some Less, Some Equal}"

definition max_stands_for :: "bound \<Rightarrow> bound \<Rightarrow> bool" where
  "max_stands_for recorded largest \<longleftrightarrow>
     recorded = largest \<or> (\<exists>x s. recorded = BText x \<and> largest = BText (x @ s))"

definition ordered_bound :: "bound \<Rightarrow> bool" where
  "ordered_bound b \<longleftrightarrow> (case b of BFloat x \<Rightarrow> \<not> f64_is_nan x | _ \<Rightarrow> True)"

definition same_kind :: "bound \<Rightarrow> bound \<Rightarrow> bool" where
  "same_kind a b \<longleftrightarrow>
     (case (a, b) of (BInt _, BInt _) \<Rightarrow> True | (BFloat _, BFloat _) \<Rightarrow> True | (BText _, BText _) \<Rightarrow> True | _ \<Rightarrow> False)"

lemma bound_lt_simps [simp]:
  "bound_lt (BInt a) (BInt b) \<longleftrightarrow> a < b"
  "bound_lt (BText s) (BText t) \<longleftrightarrow> s < t"
  "bound_lt (BFloat x) (BFloat y) \<longleftrightarrow> \<not> f64_is_nan x \<and> \<not> f64_is_nan y \<and> f64_rank x < f64_rank y"
  by (auto simp: bound_lt_def f64_partial_cmp_def)

lemma bound_le_simps [simp]:
  "bound_le (BInt a) (BInt b) \<longleftrightarrow> a \<le> b"
  "bound_le (BText s) (BText t) \<longleftrightarrow> s \<le> t"
  "bound_le (BFloat x) (BFloat y) \<longleftrightarrow> \<not> f64_is_nan x \<and> \<not> f64_is_nan y \<and> f64_rank x \<le> f64_rank y"
  by (auto simp: bound_le_def f64_partial_cmp_def)

lemma list_less_append: "(x :: string) < y \<Longrightarrow> strip_prefix x y = None \<Longrightarrow> x @ s < y"
proof (induction x arbitrary: y)
  case Nil
  then show ?case by simp
next
  case (Cons c x)
  then show ?case by (cases y) (auto split: if_splits)
qed

text \<open>A file is below a key for certain when every value its maximum may stand for is.\<close>

lemma provably_below_sound:
  assumes "provably_below recorded k" and "max_stands_for recorded largest" and "same_kind recorded k"
  shows "bound_lt largest k"
  using assms
  by (cases recorded; cases k)
    (auto simp: provably_below_def max_stands_for_def same_kind_def list_less_append)

lemma bound_lt_le_trans: "bound_le a b \<Longrightarrow> bound_lt b c \<Longrightarrow> bound_lt a c"
  by (cases a; cases b; cases c) (auto simp: bound_lt_def bound_le_def f64_partial_cmp_def split: if_splits)

lemma bound_le_trans: "bound_le a b \<Longrightarrow> bound_le b c \<Longrightarrow> bound_le a c"
  by (cases a; cases b; cases c) (auto simp: bound_le_def f64_partial_cmp_def split: if_splits)

lemma bound_le_not_lt: "bound_le a b \<Longrightarrow> \<not> bound_lt b a"
  by (cases a; cases b) (auto simp: bound_lt_def bound_le_def f64_partial_cmp_def split: if_splits)

lemma bound_le_refl: "ordered_bound a \<Longrightarrow> bound_le a a"
  by (cases a) (auto simp: ordered_bound_def)

section \<open>No file that may hold a key is ruled out\<close>

lemma partition_point_below:
  "j < partition_point P xs \<Longrightarrow> P (xs ! j)"
  unfolding partition_point_def using nth_mem [of j "takeWhile P xs"] takeWhile_nth [of j P xs]
  by (metis set_takeWhileD)

lemma partition_point_at:
  "partition_point P xs < length xs \<Longrightarrow> \<not> P (xs ! partition_point P xs)"
  unfolding partition_point_def by (rule nth_length_takeWhile)

lemma bound_le_total: "ordered_bound a \<Longrightarrow> ordered_bound b \<Longrightarrow> bound_le a b \<or> bound_lt b a"
  by (cases a; cases b) (auto simp: ordered_bound_def bound_le_def bound_lt_def f64_partial_cmp_def)

text \<open>
  Whatever a file's recorded minimum is, as long as no value lies below it, and whatever its recorded maximum
  is, exact or a text its writer cut short, a file with a value among the sorted keys is touched.
\<close>

lemma wanted_key_touches:
  assumes "sorted_wrt bound_le wanted" and "x \<in> set wanted"
    and "bound_le file_min x" and "bound_le x largest" and "max_stands_for file_max largest"
    and "list_all (\<lambda>k. ordered_bound k \<and> same_kind file_max k) wanted" and "ordered_bound file_min"
  shows "range_touches_any file_min file_max wanted"
proof -
  let ?below = "\<lambda>k. bound_lt k file_min" and ?i = "partition_point (\<lambda>k. bound_lt k file_min) wanted"
  obtain j where j: "j < length wanted" "wanted ! j = x" using assms(2) by (auto simp: in_set_conv_nth)
  have "\<not> bound_lt x file_min" by (rule bound_le_not_lt [OF assms(3)])
  then have "\<not> j < ?i" using partition_point_below [of j ?below wanted] j(2) by auto
  then have i: "?i \<le> j" "?i < length wanted" using j(1) by simp_all
  have k: "ordered_bound (wanted ! ?i)" "same_kind file_max (wanted ! ?i)"
    using assms(6) i(2) by (simp_all add: list_all_length)
  have "bound_le (wanted ! ?i) x"
  proof (cases "?i = j")
    case True
    with j k(1) show ?thesis by (simp add: bound_le_refl)
  next
    case False
    with i(1) j assms(1) show ?thesis by (auto simp: sorted_wrt_iff_nth_less)
  qed
  then have "bound_le (wanted ! ?i) largest" using assms(4) bound_le_trans by blast
  then have "\<not> bound_lt largest (wanted ! ?i)" by (rule bound_le_not_lt)
  then have "\<not> provably_below file_max (wanted ! ?i)" using provably_below_sound [OF _ assms(5) k(2)] by blast
  with i(2) show ?thesis by (simp add: range_touches_any_def Let_def)
qed

section \<open>Slack\<close>

lemma f64_word_bound: "unat (x :: f64) < 2 ^ 64"
  using unsigned_less [of x] by simp

lemma f64_parts: "unat (x :: f64) = f64_magnitude x + (if f64_negative x then 2 ^ 63 else 0)" "f64_magnitude x < 2 ^ 63"
  using f64_word_bound [of x] by (auto simp: f64_magnitude_def f64_negative_def)

lemma f64_eqI: "f64_magnitude x = f64_magnitude y \<Longrightarrow> f64_negative x = f64_negative y \<Longrightarrow> x = (y :: f64)"
  using f64_parts(1) [of x] f64_parts(1) [of y] by (simp add: word_unat_eq_iff)

lemma f64_parts_unique:
  assumes "unat (x :: f64) = m + (if s then 2 ^ 63 else 0)" and "m < 2 ^ 63"
  shows "f64_magnitude x = m \<and> f64_negative x = s"
  using assms by (cases s) (simp_all add: f64_magnitude_def f64_negative_def)

lemma f64_succ:
  assumes "f64_magnitude x < 2 ^ 63 - 1"
  shows "f64_magnitude (x + 1) = f64_magnitude x + 1 \<and> f64_negative (x + 1) = f64_negative x"
proof (rule f64_parts_unique)
  have "unat x + 1 < 2 ^ LENGTH(64)"
    using f64_parts(1) [of x] assms by (cases "f64_negative x") simp_all
  then have "unat (x + 1) = unat x + unat (1 :: f64)" by (subst unat_plus_if') simp
  then show "unat (x + 1) = f64_magnitude x + 1 + (if f64_negative x then 2 ^ 63 else 0)"
    using f64_parts(1) [of x] by simp
  show "f64_magnitude x + 1 < 2 ^ 63" using assms by simp
qed

lemma f64_pred:
  assumes "0 < f64_magnitude x"
  shows "f64_magnitude (x - 1) = f64_magnitude x - 1 \<and> f64_negative (x - 1) = f64_negative x"
proof (rule f64_parts_unique)
  have "x \<noteq> 0" using assms f64_parts(1) [of x] by (cases "x = 0") auto
  then have "unat (x - 1) = unat x - 1" by (rule unat_minus_one)
  then show "unat (x - 1) = f64_magnitude x - 1 + (if f64_negative x then 2 ^ 63 else 0)"
    using f64_parts(1) [of x] assms by simp
  show "f64_magnitude x - 1 < 2 ^ 63" using f64_parts(2) [of x] by simp
qed

text \<open>\<open>next_toward\<close> moves a finite double to its neighbour: ranks are consecutive integers, and both zeros have rank 0.\<close>

lemma next_toward_rank:
  assumes "\<not> f64_is_nan v" "\<not> f64_is_infinite v"
  shows "f64_rank (next_toward up v) = f64_rank v + (if up then 1 else - 1) \<and> \<not> f64_is_nan (next_toward up v)"
proof -
  have m: "f64_magnitude v < f64_inf_bits" using assms by (simp add: f64_is_nan_def f64_is_infinite_def)
  then have lt: "f64_magnitude v < 2 ^ 63 - 1" by (simp add: f64_inf_bits_def)
  show ?thesis
  proof (cases "f64_rank v = 0")
    case True
    have one: "f64_magnitude (1 :: f64) = 1 \<and> f64_negative (1 :: f64) = False"
      by (rule f64_parts_unique) simp_all
    have neg: "f64_magnitude (2 ^ 63 + 1 :: f64) = 1 \<and> f64_negative (2 ^ 63 + 1 :: f64) = True"
      by (rule f64_parts_unique) simp_all
    have "f64_rank (1 :: f64) = 1" "f64_rank (2 ^ 63 + 1 :: f64) = - 1"
      unfolding f64_rank_def using one neg by simp_all
    with True assms one neg show ?thesis
      by (simp add: next_toward_def f64_is_nan_def f64_inf_bits_def)
  next
    case False
    then have pos: "0 < f64_magnitude v" by (auto simp: f64_rank_def split: if_splits)
    then have sign: "0 < f64_rank v \<longleftrightarrow> \<not> f64_negative v" by (simp add: f64_rank_def)
    show ?thesis
    proof (cases "(0 < f64_rank v) = up")
      case True
      then have "next_toward up v = v + 1" using False assms by (simp add: next_toward_def)
      with f64_succ [OF lt] m True sign show ?thesis by (auto simp: f64_rank_def f64_is_nan_def)
    next
      case up: False
      then have "next_toward up v = v - 1" using False assms by (simp add: next_toward_def)
      with f64_pred [OF pos] m pos up sign show ?thesis by (auto simp: f64_rank_def f64_is_nan_def)
    qed
  qed
qed

text \<open>A timestamp's maximum, exact or cut to the millisecond, is at or below what the slack makes of it.\<close>

lemma slack_above_covers:
  assumes "i64 t" and "r = t \<or> r = t - t mod 1000"
  shows "\<exists>m. slack_above f Millisecond (BInt r) = BInt m \<and> t \<le> m"
proof -
  have "t mod 1000 < 1000" "0 \<le> t mod 1000" by simp_all
  moreover have "(t - t mod 1000) mod 1000 = 0" by (simp add: minus_mod_eq_mult_div)
  ultimately show ?thesis
    using assms by (auto simp: saturating_add_i64_def truncated_micros_def i64_def)
qed

end
