(* ===== verification/Rescan.thy ===== *)
theory Rescan
  imports Dedup_Spec Stats Log_Stream
begin

text \<open>
  \<open>src/dedup.rs\<close>, how far back a rebuild has to read: the walk down the source's log that stops at the
  first commit whose rows the target already holds, for a single cut-off (\<open>bounded_rescan_start\<close>) and
  for one per partition. The log's commits, serde_json and the source's parquet files are outside;
  what they answer is the record \<open>rescan_env\<close>.
\<close>

section \<open>What is read\<close>

record source_add = add_file +
  sa_stats :: "string option"
  sa_partition_values :: "string \<Rightarrow> string option option"

datatype source_action =
    SourceAdd source_add
  | SourceRemove remove_file
  | SourceCommitInfo "string option" \<comment> \<open>the operation\<close>
  | SourceOther string

definition source_plain :: "source_action \<Rightarrow> action" where
  "source_plain a =
     (case a of
        SourceAdd add \<Rightarrow> ActAdd (add_file.truncate add)
      | SourceRemove r \<Rightarrow> ActRemove r
      | SourceCommitInfo _ \<Rightarrow> ActOther ''commitInfo''
      | SourceOther name \<Rightarrow> ActOther name)"

definition source_adds :: "source_action list \<Rightarrow> source_add list" where
  "source_adds actions =
     List.map_filter (\<lambda>a. case a of SourceAdd add \<Rightarrow> if add_data_change add then Some add else None | _ \<Rightarrow> None) actions"

text \<open>One batch of a parquet file: its timestamps cast to the target's type and its columns cast to text, where they can be.\<close>

record 't file_batch =
  fb_rows :: nat
  fb_ts :: "'t option list option"
  fb_text :: "string \<Rightarrow> string option list option"

record 't rescan_env =
  re_head :: "version option"
  re_commit :: "version \<Rightarrow> source_action list option res"
  re_json :: "string \<Rightarrow> json option"
  re_fpu :: fpu
  re_micros :: "string \<Rightarrow> int option"
  re_bound :: "'t \<Rightarrow> bound option" \<comment> \<open>\<open>bound_of_scalar\<close>\<close>
  re_slack :: "slack option" \<comment> \<open>\<open>Slack::of\<close> the timestamp's type\<close>
  re_schema :: "string set" \<comment> \<open>the source's columns\<close>
  re_partitioned_by :: "string set"
  re_file_columns :: "source_add \<Rightarrow> string set res"
  re_file_batches :: "source_add \<Rightarrow> 't file_batch res list"

text \<open>The highest value a statistic could stand for, and the lowest.\<close>

definition loosest_above :: "'t rescan_env \<Rightarrow> bound \<Rightarrow> bound" where
  "loosest_above env b = (case re_slack env of Some s \<Rightarrow> slack_above (re_fpu env) s b | None \<Rightarrow> b)"

definition loosest_below :: "'t rescan_env \<Rightarrow> bound \<Rightarrow> bound" where
  "loosest_below env b = (case re_slack env of Some s \<Rightarrow> slack_below (re_fpu env) s b | None \<Rightarrow> b)"

section \<open>A single cut-off\<close>

definition saturating_succ :: "version \<Rightarrow> version" where
  "saturating_succ v = min (Suc v) (2 ^ 64 - 1)"

text \<open>The highest value a commit's files may hold; \<open>Inl\<close> when one of them cannot tell.\<close>

fun commit_max_from ::
    "'t rescan_env \<Rightarrow> string \<Rightarrow> bound \<Rightarrow> source_add list \<Rightarrow> bound option \<Rightarrow> unit + bound option" where
  "commit_max_from env column mark [] high = Inr high"
| "commit_max_from env column mark (add # adds) high =
     (case Option.bind (Option.bind (Option.bind (Option.bind (sa_stats add) (re_json env)) (json_get ''maxValues'')) (json_get column))
             (\<lambda>stat. bound_of_stat (re_fpu env) (re_micros env) stat mark) of
        None \<Rightarrow> Inl ()
      | Some b \<Rightarrow>
          let b = loosest_above env b
          in commit_max_from env column mark adds
               (Some (case high of Some cur \<Rightarrow> if bound_partial_cmp cur b = Some Greater then cur else b | None \<Rightarrow> b)))"

function bounded_walk ::
    "'t rescan_env \<Rightarrow> string \<Rightarrow> bound \<Rightarrow> bound \<Rightarrow> version \<Rightarrow> nat \<Rightarrow> version \<Rightarrow> nat \<Rightarrow> version res" where
  "bounded_walk env column mark covered_to fallback max_scan v walked =
     (if walked \<ge> max_scan \<or> v < fallback then Inr fallback
      else case re_commit env v of
        Inl e \<Rightarrow> Inl e
      | Inr None \<Rightarrow> Inr fallback
      | Inr (Some actions) \<Rightarrow>
          (case commit_max_from env column mark (source_adds actions) None of
             Inl _ \<Rightarrow> Inr fallback
           | Inr commit_max \<Rightarrow>
               if (case commit_max of Some cmax \<Rightarrow> bound_lt cmax covered_to | None \<Rightarrow> False)
               then Inr (saturating_succ v)
               else if v = 0 then Inr fallback
               else bounded_walk env column mark covered_to fallback max_scan (v - 1) (u64_add walked 1)))"
  by pat_completeness auto
termination by (relation "measure (\<lambda>(_, _, _, _, _, _, v, _). v)") auto

declare bounded_walk.simps [simp del]

definition bounded_rescan_start :: "'t rescan_env \<Rightarrow> string \<Rightarrow> 't \<Rightarrow> version \<Rightarrow> nat \<Rightarrow> version res" where
  "bounded_rescan_start env column watermark fallback max_scan =
     (case re_bound env watermark of
        None \<Rightarrow> Inr fallback
      | Some mark \<Rightarrow>
          let covered_to = loosest_below env mark
          in case re_head env of
               None \<Rightarrow> Inr fallback
             | Some head \<Rightarrow> bounded_walk env column mark covered_to fallback max_scan head 0)"

section \<open>A cut-off per partition\<close>

definition max_probe_files :: nat where
  "max_probe_files = 10000"

definition ascii_lower :: "char \<Rightarrow> char" where
  "ascii_lower c = (if CHR ''A'' \<le> c \<and> c \<le> CHR ''Z'' then char_of (of_char c + (32 :: nat)) else c)"

definition may_prove_coverage :: "source_action list \<Rightarrow> bool" where
  "may_prove_coverage actions \<longleftrightarrow>
     (case classify (map source_plain actions) of ClassData _ \<Rightarrow> True | _ \<Rightarrow> False)
     \<and> \<not> list_ex (\<lambda>a. case a of SourceCommitInfo (Some op) \<Rightarrow> map ascii_lower op = ''restore'' | _ \<Rightarrow> False) actions"

datatype file_coverage = FileCovered nat | FileUncovered | FileUnknown

definition commit_is_covered :: "file_coverage list \<Rightarrow> bool" where
  "commit_is_covered files \<longleftrightarrow>
     list_all (\<lambda>f. case f of FileCovered _ \<Rightarrow> True | _ \<Rightarrow> False) files
     \<and> 0 < sum_list (map (\<lambda>f. case f of FileCovered n \<Rightarrow> n | _ \<Rightarrow> 0) files) mod 2 ^ 64"

text \<open>\<open>MarkBounds::highest\<close>.\<close>

fun highest_from :: "bound option \<Rightarrow> bound option list \<Rightarrow> bound option option" where
  "highest_from high [] = Some high"
| "highest_from high (None # bs) = None"
| "highest_from high (Some b # bs) =
     (case high of
        None \<Rightarrow> highest_from (Some b) bs
      | Some h \<Rightarrow>
          (case bound_partial_cmp h b of
             None \<Rightarrow> None
           | Some Less \<Rightarrow> highest_from (Some b) bs
           | Some _ \<Rightarrow> highest_from (Some h) bs))"

definition mark_highest :: "'t rescan_env \<Rightarrow> 't dedup \<Rightarrow> bound option" where
  "mark_highest env d =
     Option.bind (highest_from None (map (\<lambda>(_, mark, _). re_bound env mark) (dd_partitions d))) (\<lambda>h. h)"

definition integer_text :: "json \<Rightarrow> string option" where
  "integer_text stat =
     (case as_i64 stat of Some v \<Rightarrow> Some (show_int v) | None \<Rightarrow> map_option show_nat (as_u64 stat))"

definition stat_of :: "json \<Rightarrow> string \<Rightarrow> string \<Rightarrow> json option" where
  "stat_of stats which column = Option.bind (json_get which stats) (json_get column)"

definition nulls_of :: "json \<Rightarrow> string \<Rightarrow> nat option" where
  "nulls_of stats column = Option.bind (stat_of stats ''nullCount'' column) as_u64"

text \<open>The one partition a file holds, when its log entry tells; \<open>Inl\<close> when a row has none.\<close>

fun known_parts ::
    "json \<Rightarrow> (string \<Rightarrow> string option option) \<Rightarrow> string list \<Rightarrow> string list option \<Rightarrow> unit + string list option" where
  "known_parts stats partition_values [] parts = Inr parts"
| "known_parts stats partition_values (c # cs) parts =
     (case partition_values c of
        Some (Some v) \<Rightarrow> known_parts stats partition_values cs (map_option (\<lambda>p. p @ [v]) parts)
      | Some None \<Rightarrow> Inl ()
      | None \<Rightarrow>
          (case nulls_of stats c of
             None \<Rightarrow> known_parts stats partition_values cs None
           | Some n \<Rightarrow>
               if n \<noteq> 0 then Inl ()
               else case (Option.bind (stat_of stats ''minValues'' c) integer_text,
                          Option.bind (stat_of stats ''maxValues'' c) integer_text) of
                      (Some lo, Some hi) \<Rightarrow>
                        known_parts stats partition_values cs
                          (if lo = hi then map_option (\<lambda>p. p @ [lo]) parts else None)
                    | _ \<Rightarrow> known_parts stats partition_values cs None))"

definition file_coverage_from_stats ::
    "'t rescan_env \<Rightarrow> 't dedup \<Rightarrow> json option \<Rightarrow> (string \<Rightarrow> string option option) \<Rightarrow> file_coverage" where
  "file_coverage_from_stats env d stats partition_values =
     (case stats of
        None \<Rightarrow> FileUnknown
      | Some stats \<Rightarrow>
          (case Option.bind (json_get ''numRecords'' stats) as_u64 of
             None \<Rightarrow> FileUnknown
           | Some rows \<Rightarrow>
               if rows = 0 then FileCovered 0
               else
                 let read = (\<lambda>which like. Option.bind (stat_of stats which (dd_timestamp_column d))
                               (\<lambda>s. bound_of_stat (re_fpu env) (re_micros env) s like))
                 in case known_parts stats partition_values (dd_partition_columns d) (Some []) of
                      Inl _ \<Rightarrow> FileUncovered
                    | Inr None \<Rightarrow>
                        (case mark_highest env d of
                           None \<Rightarrow> FileUnknown
                         | Some highest \<Rightarrow>
                             (case read ''minValues'' highest of
                                Some low \<Rightarrow> if provably_below highest (loosest_below env low) then FileUncovered else FileUnknown
                              | None \<Rightarrow> FileUnknown))
                    | Inr (Some parts) \<Rightarrow>
                        (case bt_get (dd_partitions d) (partition_key parts) of
                           None \<Rightarrow> FileUncovered
                         | Some (mark, _) \<Rightarrow>
                             (case re_bound env mark of
                                None \<Rightarrow> FileUnknown
                              | Some mark \<Rightarrow>
                                  (case nulls_of stats (dd_timestamp_column d) of
                                     None \<Rightarrow> FileUnknown
                                   | Some n \<Rightarrow>
                                       if n \<noteq> 0 then FileUncovered
                                       else if (case read ''maxValues'' mark of
                                                  Some m \<Rightarrow> provably_below (loosest_above env m) mark | None \<Rightarrow> False)
                                       then FileCovered rows
                                       else if (case read ''minValues'' mark of
                                                  Some low \<Rightarrow> provably_below mark (loosest_below env low) | None \<Rightarrow> False)
                                       then FileUncovered
                                       else FileUnknown)))))"

text \<open>\<open>Probe::read\<close>: every row of a file under its partition's mark.\<close>

definition probe_columns :: "'t rescan_env \<Rightarrow> 't dedup \<Rightarrow> source_add \<Rightarrow> 't file_batch \<Rightarrow> string option list list option" where
  "probe_columns env d add b =
     collect_opt (\<lambda>c. if c \<in> re_partitioned_by env
                      then Some (replicate (fb_rows b)
                             (case sa_partition_values add c of Some (Some v) \<Rightarrow> Some v | _ \<Rightarrow> None))
                      else fb_text b c) (dd_partition_columns d)"

fun probe_batches ::
    "'t :: linorder rescan_env \<Rightarrow> 't dedup \<Rightarrow> source_add \<Rightarrow> string option \<Rightarrow> 't file_batch res list \<Rightarrow> nat \<Rightarrow> file_coverage" where
  "probe_batches env d add key [] rows = FileCovered rows"
| "probe_batches env d add key (Inl e # bs) rows = FileUnknown"
| "probe_batches env d add key (Inr b # bs) rows =
     (if fb_rows b = 0 then probe_batches env d add key bs rows
      else case (fb_ts b, probe_columns env d add b) of
        (Some ts, Some columns) \<Rightarrow>
          (case (case key of None \<Rightarrow> Some None | Some k \<Rightarrow> map_option Some (fb_text b k)) of
             None \<Rightarrow> FileUnknown
           | Some keys \<Rightarrow>
               if list_all (\<lambda>x. x) (fst (covered_rows d False ts columns keys (fb_rows b)))
               then probe_batches env d add key bs (rows + fb_rows b)
               else FileUncovered)
      | _ \<Rightarrow> FileUnknown)"

definition probe_read :: "'t :: linorder rescan_env \<Rightarrow> 't dedup \<Rightarrow> source_add \<Rightarrow> file_coverage" where
  "probe_read env d add =
     (if dd_partitions d = [] then FileUnknown
      else case re_file_columns env add of
        Inl _ \<Rightarrow> FileUnknown
      | Inr columns \<Rightarrow>
          let key = opt_filter (\<lambda>k. k \<in> columns) (dd_key_column d)
          in if dd_timestamp_column d \<notin> columns
                \<or> list_ex (\<lambda>c. c \<notin> re_partitioned_by env \<and> c \<notin> columns) (dd_partition_columns d)
             then FileUnknown
             else probe_batches env d add key (re_file_batches env add) 0)"

text \<open>\<open>commit_coverage\<close>: \<open>None\<close> once the files that may be read are spent; beside it, those left.\<close>

fun probe_files ::
    "'t :: linorder rescan_env \<Rightarrow> 't dedup \<Rightarrow> (source_add \<times> file_coverage) list \<Rightarrow> file_coverage list \<Rightarrow> nat
       \<Rightarrow> bool option \<times> nat" where
  "probe_files env d [] verdicts budget = (Some (commit_is_covered verdicts), budget)"
| "probe_files env d ((add, v) # files) verdicts budget =
     (if v = FileUnknown then
        if budget = 0 then (None, budget)
        else case probe_read env d add of
               FileCovered n \<Rightarrow> probe_files env d files (verdicts @ [FileCovered n]) (budget - 1)
             | _ \<Rightarrow> (Some False, budget - 1)
      else probe_files env d files (verdicts @ [v]) budget)"

definition commit_coverage ::
    "'t :: linorder rescan_env \<Rightarrow> 't dedup \<Rightarrow> source_action list \<Rightarrow> nat \<Rightarrow> bool option \<times> nat" where
  "commit_coverage env d actions budget =
     (let adds = source_adds actions;
          verdicts = map (\<lambda>add. file_coverage_from_stats env d (Option.bind (sa_stats add) (re_json env)) (sa_partition_values add)) adds
      in if FileUncovered \<in> set verdicts then (Some False, budget)
         else probe_files env d (zip adds verdicts) [] budget)"

function partitioned_walk ::
    "'t :: linorder rescan_env \<Rightarrow> 't dedup \<Rightarrow> version \<Rightarrow> nat \<Rightarrow> version \<Rightarrow> nat \<Rightarrow> nat \<Rightarrow> version res" where
  "partitioned_walk env d fallback max_scan v walked budget =
     (if walked \<ge> max_scan \<or> v < fallback then Inr fallback
      else case re_commit env v of
        Inl e \<Rightarrow> Inl e
      | Inr None \<Rightarrow> Inr fallback
      | Inr (Some actions) \<Rightarrow>
          (let (verdict, budget') = (if may_prove_coverage actions then commit_coverage env d actions budget else (Some False, budget))
           in case verdict of
                Some True \<Rightarrow> Inr (saturating_succ v)
              | None \<Rightarrow> Inr fallback
              | Some False \<Rightarrow>
                  if v = 0 then Inr fallback
                  else partitioned_walk env d fallback max_scan (v - 1) (u64_add walked 1) budget'))"
  by pat_completeness auto
termination by (relation "measure (\<lambda>(_, _, _, _, v, _, _). v)") auto

declare partitioned_walk.simps [simp del]

definition bounded_rescan_start_partitioned ::
    "'t :: linorder rescan_env \<Rightarrow> 't dedup \<Rightarrow> version \<Rightarrow> nat \<Rightarrow> version res" where
  "bounded_rescan_start_partitioned env d fallback max_scan =
     (if \<not> is_partitioned d \<or> is_inert d then Inr fallback
      else case re_head env of
        None \<Rightarrow> Inr fallback
      | Some head \<Rightarrow>
          if list_ex (\<lambda>c. c \<notin> re_schema env) (dd_timestamp_column d # dd_partition_columns d) then Inr fallback
          else partitioned_walk env d fallback max_scan head 0 max_probe_files)"

definition rescan_start :: "'t :: linorder rescan_env \<Rightarrow> 't dedup \<Rightarrow> version \<Rightarrow> nat \<Rightarrow> version res" where
  "rescan_start env d fallback max_scan =
     (if is_partitioned d then bounded_rescan_start_partitioned env d fallback max_scan
      else case dd_watermark d of
        Some w \<Rightarrow> bounded_rescan_start env (dd_timestamp_column d) w fallback max_scan
      | None \<Rightarrow> Inr fallback)"

end
