(* ===== verification/Rescan_Spec.thy ===== *)
theory Rescan_Spec
  imports Rescan
begin

text \<open>
  Where a rebuild starts re-reading is never past a row the target lacks: what the log's statistics and
  the probed files must say of their rows, and that the walk of \<open>src/dedup.rs\<close> then stops soundly in
  both forms of the cut-off. Timestamps are microseconds or another integer sequence.
\<close>

section \<open>What a source's log says of its rows\<close>






section \<open>A single cut-off\<close>





section \<open>A file under its partitions' marks\<close>












section \<open>A commit\<close>



section \<open>The walks\<close>



section \<open>Where a rebuild starts\<close>







section \<open>An example source\<close>

definition example_stats :: "int \<Rightarrow> json" where
  "example_stats t =
     JObj [(''numRecords'', JInt 1), (''minValues'', JObj [(''at'', JInt t)]), (''maxValues'', JObj [(''at'', JInt t)]),
           (''nullCount'', JObj [(''at'', JInt 0)])]"

definition example_add :: "string \<Rightarrow> source_add" where
  "example_add path =
     \<lparr>add_path = path, add_size = 1, add_data_change = True, add_deletion_vector = False, sa_stats = Some path,
      sa_partition_values = (\<lambda>_. None)\<rparr>"

text \<open>Statistics are looked up by the file's path, which names the timestamp of the file's one row.\<close>

definition example_env :: "fpu \<Rightarrow> (version \<times> source_action list) list \<Rightarrow> (string \<times> int) list \<Rightarrow> int rescan_env" where
  "example_env f commits newest_at =
     \<lparr>re_head = Some (length commits - 1), re_commit = (\<lambda>v. Inr (map_of commits v)),
      re_json = (\<lambda>path. map_option example_stats (map_of newest_at path)), re_fpu = f, re_micros = (\<lambda>_. None),
      re_bound = (\<lambda>t. Some (BInt t)), re_slack = Some Millisecond, re_schema = {''at'', ''id''},
      re_partitioned_by = {}, re_file_columns = (\<lambda>_. Inr {''at'', ''id''}), re_file_batches = (\<lambda>_. [Inl (E_Other ''unread'')])\<rparr>"

definition example_times :: "(string \<times> int) list" where
  "example_times = [(''first'', 10), (''second'', 20), (''third'', 30)]"

text \<open>Integer bounds never reach the floating-point unit.\<close>

definition example_fpu :: fpu where
  "example_fpu = \<lparr>f64_add = (\<lambda>x _. x), f64_sub = (\<lambda>x _. x), f64_of_int = word_of_int\<rparr>"

lemmas example_source_defs =
  example_env_def example_add_def example_times_def example_stats_def stat_of_def nulls_of_def


section \<open>What the single cut-off takes for proof\<close>

text \<open>
  The walk of a single cut-off does not ask whether a commit is a plain append. A DELETE that rewrites an
  old file leaves a commit whose only rows are old ones; the walk stops at it and starts the rebuild
  after it, past a version with a row the target lacks. The partitioned walk refuses the same commit.
\<close>

lemma a_rewrite_is_taken_for_proof:
  "\<exists>d f. read_bounded [(''at'', OtherType ''timestamp''), (''id'', Utf8)]
         [Inr (batch_of 0 [(10, ''a'', []), (20, ''b'', [])])] ''at'' (Some ''id'') [] 10 = Inr d
     \<and> rescan_start (example_env example_fpu [(0, [SourceAdd (example_add ''first'')]), (1, [SourceAdd (example_add ''second'')]),
                          (2, [SourceAdd (example_add ''third'')]),
                          (3, [SourceRemove \<lparr>remove_path = ''old'', remove_data_change = True\<rparr>, SourceAdd (example_add ''first'')])]
                          example_times) d 0 100 = Inr 4
     \<and> dedup_filter d (batch_of 0 [(30, ''c'', [])]) = Inr f \<and> fi_keep f = [True]
     \<and> \<not> may_prove_coverage [SourceRemove \<lparr>remove_path = ''old'', remove_data_change = True\<rparr>, SourceAdd (example_add ''first'')]"
proof -
  let ?schema = "[(''at'', OtherType ''timestamp''), (''id'', Utf8)]"
  let ?rewrite = "[SourceRemove \<lparr>remove_path = ''old'', remove_data_change = True\<rparr>, SourceAdd (example_add ''first'')]"
  obtain d where d: "read_bounded ?schema [Inr (batch_of 0 [(10 :: int, ''a'', []), (20, ''b'', [])])] ''at'' (Some ''id'') [] 10 = Inr d"
    and read: "dd_watermark d = Some 20" "dd_timestamp_column d = ''at''" "dd_partition_columns d = []"
      "dd_key_column d = Some ''id''"
    by (simp add: read_bounded_def require_columns_def groups_exactly_def dedup_new_def see_batch_def is_partitioned_def
        batch_key_list_def see_row_def key_set_def)
  have start: "rescan_start (example_env example_fpu [(0, [SourceAdd (example_add ''first'')]), (1, [SourceAdd (example_add ''second'')]),
      (2, [SourceAdd (example_add ''third'')]), (3, ?rewrite)] example_times) d 0 100 = Inr 4"
    by (simp add: rescan_start_def is_partitioned_def read bounded_rescan_start_def example_source_defs loosest_below_def
        loosest_above_def bounded_walk.simps source_adds_def List.map_filter_def bound_of_stat_def i64_def
        saturating_add_i64_def truncated_micros_def bound_lt_def saturating_succ_def u64_add_def)
  have "\<not> may_prove_coverage ?rewrite"
    by (simp add: may_prove_coverage_def classify_def source_plain_def data_removes_def List.map_filter_def example_add_def
        add_file.truncate_def)
  moreover obtain f where "dedup_filter d (batch_of 0 [(30, ''c'', [])]) = Inr f" "fi_keep f = [True]"
    by (simp add: dedup_filter_def is_partitioned_def read require_timestamps_def batch_key_list_def row_kept_def row_after_def)
  ultimately show ?thesis using d start by blast
qed

text \<open>
  Nor does it allow for a truncated text. A recorded maximum that is a prefix of the cut-off's value
  lies below it, while the value it stands for may lie above; \<open>provably_below\<close> says nothing of the two.
\<close>

definition example_text_env :: "string rescan_env" where
  "example_text_env =
     \<lparr>re_head = Some 0, re_commit = (\<lambda>v. Inr (Some [SourceAdd (example_add ''only'')])),
      re_json = (\<lambda>_. Some (JObj [(''maxValues'', JObj [(''at'', JStr ''2026'')])])), re_fpu = example_fpu,
      re_micros = (\<lambda>_. None), re_bound = (\<lambda>t. Some (BText t)), re_slack = None, re_schema = {''at''},
      re_partitioned_by = {}, re_file_columns = (\<lambda>_. Inr {''at''}), re_file_batches = (\<lambda>_. [])\<rparr>"

lemma a_truncated_maximum_is_taken_for_proof:
  "bounded_rescan_start example_text_env ''at'' ''2026-05'' 0 100 = Inr 1
   \<and> max_stands_for (BText ''2026'') (BText ''2026-08'') \<and> bound_lt (BText ''2026-05'') (BText ''2026-08'')
   \<and> \<not> provably_below (BText ''2026'') (BText ''2026-05'')"
  by (simp add: bounded_rescan_start_def example_text_env_def example_add_def loosest_below_def loosest_above_def
      bounded_walk.simps source_adds_def List.map_filter_def bound_of_stat_def saturating_succ_def bound_lt_def
      max_stands_for_def provably_below_def less_char_def)

end
