(* ===== verification/Resume.thy ===== *)
theory Resume
  imports Rescan_Spec Pipeline
begin

text \<open>
  Where a Delta pipeline resumes (\<open>src/pipeline.rs\<close>, \<open>resume_cursor\<close> and
  \<open>adjust_for_replaced_source\<close>), and what it asks of its target's log to know
  (\<open>src/dbt/watermark.rs\<close>): whether another writer rewrote the target since its last commit, what
  that commit recorded, and the watermark a dbt rebuild declared.
\<close>

section \<open>The target's log\<close>

datatype target_action =
    TargetTxn string
  | TargetRemove bool \<comment> \<open>\<open>dataChange\<close>\<close>
  | TargetInfo "(string \<times> json) list"
  | TargetOther

record target_log =
  tl_head :: "version option"
  tl_commit :: "version \<Rightarrow> target_action list option res"

datatype target_state = OursOrUntouched | OverwrittenAt version

definition default_max_scan :: nat where
  "default_max_scan = 10000"

definition carries_txn :: "string \<Rightarrow> target_action list \<Rightarrow> bool" where
  "carries_txn app_id actions \<longleftrightarrow> list_ex (\<lambda>a. a = TargetTxn app_id) actions"

definition removes_data :: "target_action list \<Rightarrow> bool" where
  "removes_data actions \<longleftrightarrow> list_ex (\<lambda>a. a = TargetRemove True) actions"

function state_walk :: "target_log \<Rightarrow> string \<Rightarrow> nat \<Rightarrow> version \<Rightarrow> nat \<Rightarrow> target_state res" where
  "state_walk log app_id max_scan v walked =
     (if walked \<ge> max_scan then Inr (OverwrittenAt v)
      else case tl_commit log v of
        Inl e \<Rightarrow> Inl e
      | Inr None \<Rightarrow> Inr OursOrUntouched
      | Inr (Some actions) \<Rightarrow>
          if carries_txn app_id actions then Inr OursOrUntouched
          else if removes_data actions then Inr (OverwrittenAt v)
          else if v = 0 then Inr OursOrUntouched
          else state_walk log app_id max_scan (v - 1) (u64_add walked 1))"
  by pat_completeness auto
termination by (relation "measure (\<lambda>(_, _, _, v, _). v)") auto

declare state_walk.simps [simp del]

definition target_state_of :: "target_log \<Rightarrow> string \<Rightarrow> nat \<Rightarrow> target_state res" where
  "target_state_of log app_id max_scan =
     (case tl_head log of None \<Rightarrow> Inr OursOrUntouched | Some head \<Rightarrow> state_walk log app_id max_scan head 0)"

record our_last_commit =
  lc_commit_version :: "version option"
  lc_source_table_id :: "string option"
  lc_source_table_id_version :: "version option"
  lc_lookup_table_ids :: "(string, string) bmap"
  lc_cutoff :: "recorded_cutoff option"

definition our_last_commit_default :: our_last_commit where
  "our_last_commit_default =
     \<lparr>lc_commit_version = None, lc_source_table_id = None, lc_source_table_id_version = None, lc_lookup_table_ids = [],
      lc_cutoff = None\<rparr>"

text \<open>\<open>find_map\<close>.\<close>

fun find_some :: "('a \<Rightarrow> 'b option) \<Rightarrow> 'a list \<Rightarrow> 'b option" where
  "find_some f [] = None"
| "find_some f (x # xs) = (case f x of Some y \<Rightarrow> Some y | None \<Rightarrow> find_some f xs)"

definition commit_info :: "target_action list \<Rightarrow> string \<Rightarrow> json option" where
  "commit_info actions key = find_some (\<lambda>a. case a of TargetInfo info \<Rightarrow> map_of info key | _ \<Rightarrow> None) actions"

definition lookup_table_ids_of :: "target_action list \<Rightarrow> (string, string) bmap" where
  "lookup_table_ids_of actions =
     bt_collect (List.map_filter
       (\<lambda>(key, value).
          Option.bind (strip_prefix ''ddi.lookup.'' key) (\<lambda>k. Option.bind (strip_suffix ''.tableId'' k) (\<lambda>name.
          Option.bind (as_str value) (\<lambda>i. Some (name, i)))))
       (concat (map (\<lambda>a. case a of TargetInfo info \<Rightarrow> info | _ \<Rightarrow> []) actions)))"

definition described_by :: "version \<Rightarrow> target_action list \<Rightarrow> our_last_commit" where
  "described_by v actions =
     \<lparr>lc_commit_version = Some v,
      lc_source_table_id = Option.bind (commit_info actions ''ddi.sourceTableId'') as_str,
      lc_source_table_id_version = Option.bind (commit_info actions ''ddi.sourceTableIdVersion'') as_u64,
      lc_lookup_table_ids = lookup_table_ids_of actions,
      lc_cutoff = find_some (\<lambda>a. case a of TargetInfo info \<Rightarrow> from_commit_info (map_of info) | _ \<Rightarrow> None) actions\<rparr>"

function last_walk :: "target_log \<Rightarrow> string \<Rightarrow> nat \<Rightarrow> version \<Rightarrow> nat \<Rightarrow> our_last_commit res" where
  "last_walk log app_id max_scan v walked =
     (if walked \<ge> max_scan then Inr our_last_commit_default
      else case tl_commit log v of
        Inl e \<Rightarrow> Inl e
      | Inr None \<Rightarrow> Inr our_last_commit_default
      | Inr (Some actions) \<Rightarrow>
          if carries_txn app_id actions then Inr (described_by v actions)
          else if v = 0 then Inr our_last_commit_default
          else last_walk log app_id max_scan (v - 1) (u64_add walked 1))"
  by pat_completeness auto
termination by (relation "measure (\<lambda>(_, _, _, v, _). v)") auto

declare last_walk.simps [simp del]

definition our_last_commit_of :: "target_log \<Rightarrow> string \<Rightarrow> nat \<Rightarrow> our_last_commit res" where
  "our_last_commit_of log app_id max_scan =
     (case tl_head log of None \<Rightarrow> Inr our_last_commit_default | Some head \<Rightarrow> last_walk log app_id max_scan head 0)"

section \<open>dbt's watermark\<close>

text \<open>A batch of the watermark table: its columns, when it has them, the id cast to text and the version a BIGINT.\<close>

record watermark_batch =
  wb_app_id :: "string option list res option"
  wb_source_version :: "int option list option option"

fun watermark_rows :: "string \<Rightarrow> (string option \<times> int option) list \<Rightarrow> version option \<Rightarrow> version option res" where
  "watermark_rows app_id [] best = Inr best"
| "watermark_rows app_id ((i, v) # rows) best =
     (case (i, v) of
        (Some i, Some v) \<Rightarrow>
          if i \<noteq> app_id then watermark_rows app_id rows best
          else if v < 0 then Inl (E_Other ''watermark table holds a negative source_version; refusing to guess a resume point'')
          else watermark_rows app_id rows (Some (case best of None \<Rightarrow> nat v | Some b \<Rightarrow> max b (nat v)))
      | _ \<Rightarrow> watermark_rows app_id rows best)"

fun watermark_last :: "string \<Rightarrow> watermark_batch list \<Rightarrow> version option \<Rightarrow> version option res" where
  "watermark_last app_id [] best = Inr best"
| "watermark_last app_id (b # bs) best =
     (case wb_app_id b of
        None \<Rightarrow> Inl (E_Config ''watermark table has no app_id column'')
      | Some ids \<Rightarrow>
          (case wb_source_version b of
             None \<Rightarrow> Inl (E_Config ''watermark table has no source_version column'')
           | Some versions \<Rightarrow>
               res_bind ids (\<lambda>ids.
               case versions of
                 None \<Rightarrow> Inl (E_Config ''watermark table: source_version must be a BIGINT'')
               | Some versions \<Rightarrow> res_bind (watermark_rows app_id (zip ids versions) best) (watermark_last app_id bs))))"

section \<open>Where to resume\<close>

text \<open>A \<open>ResolvedPipeline\<close> as far as an open looks at it beyond what a step does.\<close>

record open_config = pipeline_config +
  oc_app_id :: string
  oc_source_uri :: string
  oc_source_is_stage :: bool
  oc_stage_for :: "string option"
  oc_starting_version :: version
  oc_watermark_uri :: "string option"
  oc_dedup_key :: "string option"
  oc_change_policy :: change_policy
  oc_max_files_per_batch :: nat
  oc_max_bytes_per_batch :: nat
  oc_target_file_size :: nat

text \<open>What an open finds: the source and its log, the target's log, rows and \<open>txn\<close>, and the watermark table.\<close>

record 't open_env =
  oe_source :: "'t rescan_env"
  oe_store :: log_store
  oe_source_version :: "version option"
  oe_source_table_id :: "string option"
  oe_rfc3339 :: "nat \<Rightarrow> string"
  oe_listing :: "(string option \<times> nat) list res"
  oe_txn :: "string \<Rightarrow> delta_error + int option"
  oe_log :: target_log
  oe_fields :: "(string \<times> arrow_type) list"
  oe_rows :: "'t dedup_batch res list"
  oe_watermarks :: "watermark_batch list res"

record 't resume =
  ru_cursor :: stream_cursor
  ru_bootstrapping :: bool
  ru_rebuilt :: "'t dedup option"
  ru_committed :: "version option"

definition read_target :: "'t :: linorder open_env \<Rightarrow> string \<Rightarrow> string option \<Rightarrow> string list \<Rightarrow> 't dedup res" where
  "read_target env ts key parts = read_partitioned (oe_fields env) (oe_rows env) ts key parts"

definition resume_position :: "open_config \<Rightarrow> 't :: linorder open_env \<Rightarrow> 't resume res" where
  "resume_position cfg env =
     res_bind (last_committed_version (offset_store_new (oc_app_id cfg) (oc_starting_version cfg)) (oe_txn env)) (\<lambda>stored.
     let own = (case stored of Some v \<Rightarrow> at_version (u64_add v 1) | None \<Rightarrow> at_version (oc_starting_version cfg));
         ordinary = \<lparr>ru_cursor = own, ru_bootstrapping = stored = None, ru_rebuilt = None, ru_committed = stored\<rparr>
     in if oc_watermark_uri cfg = None \<and> pc_dedup_timestamp cfg = None then Inr ordinary
        else res_bind (target_state_of (oe_log env) (oc_app_id cfg) default_max_scan) (\<lambda>state.
          case state of
            OursOrUntouched \<Rightarrow> Inr ordinary
          | OverwrittenAt _ \<Rightarrow>
              (case pc_dedup_timestamp cfg of
                 Some ts \<Rightarrow>
                   res_bind (read_target env ts (oc_dedup_key cfg) (pc_dedup_partition cfg)) (\<lambda>d.
                   res_bind (rescan_start (oe_source env) d (oc_starting_version cfg) default_max_scan) (\<lambda>from_version.
                   Inr \<lparr>ru_cursor = at_version from_version, ru_bootstrapping = False, ru_rebuilt = Some d,
                        ru_committed = stored\<rparr>))
               | None \<Rightarrow>
                   res_bind (oe_watermarks env) (\<lambda>batches.
                   res_bind (watermark_last (oc_app_id cfg) batches None) (\<lambda>w.
                   case w of
                     None \<Rightarrow> Inl (E_Config ''target was rewritten by another writer, and the watermark table holds no source_version'')
                   | Some w \<Rightarrow>
                       Inr \<lparr>ru_cursor = at_version (u64_add w 1), ru_bootstrapping = False, ru_rebuilt = None,
                            ru_committed = stored\<rparr>)))))"

section \<open>A source that was replaced\<close>

definition adjust_for_replaced_source ::
    "open_config \<Rightarrow> 't open_env \<Rightarrow> our_last_commit \<Rightarrow> 't resume \<Rightarrow> stream_cursor option res" where
  "adjust_for_replaced_source cfg env ours r =
     (let recorded = lc_source_table_id ours;
          different = (case (recorded, oe_source_table_id env) of (Some a, Some b) \<Rightarrow> a \<noteq> b | _ \<Rightarrow> False);
          seen_at = (case lc_source_table_id_version ours of Some v \<Rightarrow> Some v | None \<Rightarrow> ru_committed r)
      in res_bind (case (different, recorded, seen_at) of
                     (True, Some was, Some at) \<Rightarrow>
                       res_bind (keeps_identity (oe_store env) (oe_source_version env) at was) (\<lambda>same. Inr (\<not> same))
                   | _ \<Rightarrow> Inr different) (\<lambda>different_table.
         let log_went_backwards =
               (\<not> ru_bootstrapping r
                \<and> (case oe_source_version env of
                     Some h \<Rightarrow> cursor_version (ru_cursor r) > saturating_succ h | None \<Rightarrow> False))
         in if \<not> different_table \<and> \<not> log_went_backwards then Inr None
            else case pc_dedup_timestamp cfg of
                   None \<Rightarrow> Inl (E_Config ''source appears to have been dropped and recreated'')
                 | Some _ \<Rightarrow> Inr (Some (at_version (oc_starting_version cfg)))))"

text \<open>A pipeline that never committed starts only where its source's log can be read, or above its head.\<close>

definition refuse_an_unreachable_bootstrap ::
    "open_config \<Rightarrow> 't open_env \<Rightarrow> stream_cursor \<Rightarrow> unit res" where
  "refuse_an_unreachable_bootstrap cfg env cursor =
     (case read_commit_entry (oe_store env) (cursor_version cursor) of
        Inl e \<Rightarrow> Inl (E_Delta e)
      | Inr (Some _) \<Rightarrow> Inr ()
      | Inr None \<Rightarrow>
          if (case oe_source_version env of Some h \<Rightarrow> cursor_version cursor > h | None \<Rightarrow> False) then Inr ()
          else res_bind (oe_listing env) (\<lambda>listing.
            case earliest_readable_commit listing of
              None \<Rightarrow> Inl (E_Other ''the commit log holds no commit files at all'')
            | Some (oldest, committed_at) \<Rightarrow>
                Inl (E_BootstrapUnreachable (oc_source_uri cfg) (cursor_version cursor) oldest (Some (oe_rfc3339 env committed_at))
                  (case oe_source_version env of Some h \<Rightarrow> h | None \<Rightarrow> oldest))))"

end
