(* ===== verification/Open.thy ===== *)
theory Open
  imports Resume
begin

text \<open>
  \<open>src/pipeline.rs\<close>, \<open>open_with\<close> over a Delta source: what a pipeline starts from. Opening tables, the
  upsert preflight's scan of the target and the data-quality table are outside and answer as the
  world says; log lines are left out.
\<close>

section \<open>The coverage window an open starts in\<close>

function has_data_commit_between :: "'t rescan_env \<Rightarrow> version \<Rightarrow> version \<Rightarrow> version \<Rightarrow> bool res" where
  "has_data_commit_between env first v through =
     (if v > through then Inr False
      else if v - first \<ge> default_max_scan then Inr True
      else case re_commit env v of
        Inl e \<Rightarrow> Inl e
      | Inr None \<Rightarrow> Inr True
      | Inr (Some actions) \<Rightarrow>
          (case classify (map source_plain actions) of
             ClassData _ \<Rightarrow> Inr True
           | ClassChange _ \<Rightarrow> Inr True
           | _ \<Rightarrow> has_data_commit_between env first (Suc v) through))"
  by pat_completeness auto
termination by (relation "measure (\<lambda>(_, _, v, through). Suc through - v)") auto

declare has_data_commit_between.simps [simp del]

text \<open>The reason, the version it closes after, whether it is resumed, and the cut-off; or none.\<close>

definition inferred_window ::
    "open_config \<Rightarrow> 't :: linorder open_env \<Rightarrow> our_last_commit \<Rightarrow> 't resume \<Rightarrow> bool \<Rightarrow> stream_cursor \<Rightarrow> string
       \<Rightarrow> (coverage_reason \<times> version option \<times> bool \<times> 't dedup) option res" where
  "inferred_window cfg env ours r restarts cursor ts =
     (let head = (if oc_source_is_stage cfg then None else oe_source_version env);
          read = (\<lambda>parts. read_target env ts (oc_dedup_key cfg) parts)
      in if restarts then
           res_bind (case ru_rebuilt r of Some d \<Rightarrow> Inr d | None \<Rightarrow> read (pc_dedup_partition cfg)) (\<lambda>d.
           Inr (Some (SourceReplaced, None, False, d)))
         else case ru_rebuilt r of
           Some d \<Rightarrow> Inr (Some (Rebuilt, head, False, d))
         | None \<Rightarrow>
             if ru_bootstrapping r then
               res_bind (read (pc_dedup_partition cfg)) (\<lambda>d. Inr (Some (Bootstrap, head, False, d)))
             else case lc_cutoff ours of
               None \<Rightarrow> Inr None
             | Some recorded \<Rightarrow>
                 res_bind (case rc_source_through recorded of
                             Some through \<Rightarrow> has_data_commit_between (oe_source env) (cursor_version cursor) (cursor_version cursor) through
                           | None \<Rightarrow> Inr True) (\<lambda>data.
                 if \<not> data \<or> rc_partition_columns recorded \<noteq> pc_dedup_partition cfg then Inr None
                 else res_bind (read (rc_partition_columns recorded)) (\<lambda>d.
                      Inr (Some (rc_reason recorded, rc_source_through recorded, True, d)))))"

definition coverage_cutoff ::
    "open_config \<Rightarrow> 't :: linorder open_env \<Rightarrow> our_last_commit \<Rightarrow> 't resume \<Rightarrow> bool \<Rightarrow> stream_cursor
       \<Rightarrow> 't dedup cutoff option res" where
  "coverage_cutoff cfg env ours r restarts cursor =
     (case pc_dedup_timestamp cfg of
        None \<Rightarrow> Inr None
      | Some ts \<Rightarrow>
          res_bind (inferred_window cfg env ours r restarts cursor ts) (\<lambda>window.
          case window of
            None \<Rightarrow> Inr None
          | Some (reason, through, resumed, d) \<Rightarrow>
              if is_inert d \<or> (case through of Some h \<Rightarrow> \<not> cutoff_applies h cursor | None \<Rightarrow> False) then Inr None
              else Inr (Some \<lparr>cu_dedup = d, cu_partition_columns = dd_partition_columns d,
                              cu_window = \<lparr>cw_reason = reason, cw_through = through, cw_resumed = resumed\<rparr>,
                              cu_skipped = 0\<rparr>)))"

section \<open>Lookups\<close>

fun current_lookups ::
    "lookup list \<Rightarrow> (string \<Rightarrow> string option res) \<Rightarrow> string \<Rightarrow> string \<Rightarrow> (string, string) bmap \<Rightarrow> (string, string) bmap res" where
  "current_lookups [] open_lookup source_id target_id current = Inr current"
| "current_lookups (l # ls) open_lookup source_id target_id current =
     res_bind (open_lookup (lo_name l)) (\<lambda>i.
     case i of
       None \<Rightarrow> Inl (E_Config ''lookup has no Delta table id'')
     | Some i \<Rightarrow>
         if i = source_id \<or> i = target_id then
           Inl (E_Config ''lookup resolves to the same Delta table as the source or the target'')
         else if list_ex (\<lambda>e. snd e = i) current then Inl (E_Config ''lookups resolve to the same Delta table id'')
         else current_lookups ls open_lookup source_id target_id (bt_insert (lo_name l) i current))"

fun changed_lookups :: "lookup list \<Rightarrow> (string, string) bmap \<Rightarrow> (string \<times> string) list \<Rightarrow> string bset \<Rightarrow> string bset res" where
  "changed_lookups lookups current [] on_open = Inr on_open"
| "changed_lookups lookups current ((name, recorded_id) # rs) on_open =
     (case bt_get current name of
        None \<Rightarrow> Inl (E_Config ''its most recent target commit used a lookup that is no longer configured'')
      | Some current_id \<Rightarrow>
          if current_id = recorded_id then changed_lookups lookups current rs on_open
          else if (case find (\<lambda>l. lo_name l = name) lookups of Some l \<Rightarrow> lo_strict l | None \<Rightarrow> False)
          then Inl (E_Config ''lookup changed Delta table id'')
          else changed_lookups lookups current rs (bs_insert name on_open))"

definition validate_lookup_tables ::
    "lookup list \<Rightarrow> (string \<Rightarrow> string option res) \<Rightarrow> string option \<Rightarrow> string option \<Rightarrow> our_last_commit
       \<Rightarrow> ((string, string) bmap \<times> string bset) res" where
  "validate_lookup_tables lookups open_lookup source_id target_id recorded =
     res_bind (ok_or (E_Config ''source has no Delta table id'') source_id) (\<lambda>source_id.
     res_bind (ok_or (E_Config ''target has no Delta table id'') target_id) (\<lambda>target_id.
     if source_id = target_id then
       Inl (E_Config ''source and target resolve to one Delta table id; the pipeline would feed its own output'')
     else
     res_bind (current_lookups lookups open_lookup source_id target_id []) (\<lambda>current.
     if lc_commit_version recorded \<noteq> None \<and> map fst (lc_lookup_table_ids recorded) \<noteq> map fst current then
       Inl (E_Config ''its configured lookup set changed after it had already written'')
     else
     res_bind (changed_lookups lookups current (lc_lookup_table_ids recorded) []) (\<lambda>on_open.
     Inr (current, on_open)))))"

section \<open>The open\<close>

record ('t, 'tbl, 'w) open_world =
  ow_source_open :: "'t open_env res" \<comment> \<open>the source and, of what it is measured against, the target\<close>
  ow_column_mapping :: "string option"
  ow_create_like :: "string \<Rightarrow> unit res"
  ow_target_open :: "'tbl res"
  ow_target_table_id :: "string option"
  ow_lookup_open :: "string \<Rightarrow> string option res"
  ow_preflight :: "unit res"
  ow_dq :: "'w dq_ops"
  ow_publishes :: bool
  ow_root_url :: string
  ow_metadata :: "json option"

definition refuse_a_column_mapped_source :: "('t, 'tbl, 'w) open_world \<Rightarrow> unit res" where
  "refuse_a_column_mapped_source world =
     (case opt_filter (\<lambda>m. map ascii_lower m \<noteq> ''none'') (ow_column_mapping world) of
        Some _ \<Rightarrow> Inl (E_Config ''source uses column mapping, and ddi reads its files by logical column name'')
      | None \<Rightarrow> Inr ())"

definition stream_of :: "open_config \<Rightarrow> 't open_env \<Rightarrow> ('t, 'tbl, 'w) open_world \<Rightarrow> stream_cursor \<Rightarrow> 'd cutoff option \<Rightarrow> log_stream" where
  "stream_of cfg env world cursor cutoff =
     with_stop_after (Option.bind cutoff (\<lambda>c. cw_through (cu_window c)))
       (with_max_bytes_per_batch (oc_max_bytes_per_batch cfg)
         (with_max_files_per_batch (oc_max_files_per_batch cfg)
           ((with_starting_cursor cursor (log_stream_new (ow_root_url world) (oe_source_version env) (ow_metadata world)))
              \<lparr>ls_source_uri := oc_source_uri cfg, ls_policy := oc_change_policy cfg,
               ls_pin_lookup_snapshots := pc_lookups cfg \<noteq> []\<rparr>)))"

definition prefixed :: "string \<Rightarrow> 'a res \<Rightarrow> 'a res" where
  "prefixed what r = (case r of Inl e \<Rightarrow> Inl (E_Config what) | Inr x \<Rightarrow> Inr x)"

lemma prefixed_Inr_iff [simp]: "prefixed what r = Inr x \<longleftrightarrow> r = Inr x"
  by (simp add: prefixed_def split: sum.splits)

text \<open>What an open makes sure of and decides before it touches anything: the target, the lookups, the cursor and the window.\<close>

definition open_plan ::
    "open_config \<Rightarrow> ('t :: linorder, 'tbl, 'w) open_world \<Rightarrow> 't open_env
       \<Rightarrow> ('tbl \<times> ((string, string) bmap \<times> string bset) \<times> stream_cursor \<times> 't dedup cutoff option) res" where
  "open_plan cfg world env =
     res_bind (refuse_a_column_mapped_source world) (\<lambda>_.
     res_bind (case oc_stage_for cfg of Some model \<Rightarrow> prefixed ''stage'' (ow_create_like world model) | None \<Rightarrow> Inr ()) (\<lambda>_.
     res_bind (prefixed ''target'' (ow_target_open world)) (\<lambda>target.
     res_bind (our_last_commit_of (oe_log env) (oc_app_id cfg) default_max_scan) (\<lambda>ours.
     res_bind (validate_lookup_tables (pc_lookups cfg) (ow_lookup_open world) (oe_source_table_id env)
                 (ow_target_table_id world) ours) (\<lambda>lookups.
     res_bind (resume_position cfg env) (\<lambda>r.
     res_bind (adjust_for_replaced_source cfg env ours r) (\<lambda>restart.
     let cursor = (case restart of Some c \<Rightarrow> c | None \<Rightarrow> ru_cursor r) in
     res_bind (if ru_bootstrapping r then refuse_an_unreachable_bootstrap cfg env cursor else Inr ()) (\<lambda>_.
     res_bind (case pc_dedup_timestamp cfg of
                 Some ts \<Rightarrow> require_columns (oe_fields env) ts (oc_dedup_key cfg) (pc_dedup_partition cfg)
               | None \<Rightarrow> Inr ()) (\<lambda>_.
     res_bind (coverage_cutoff cfg env ours r (restart \<noteq> None) cursor) (\<lambda>cutoff.
     res_bind (if pc_is_upsert cfg then prefixed ''preflight'' (ow_preflight world) else Inr ()) (\<lambda>_.
     Inr (target, lookups, cursor, cutoff))))))))))))"

definition opened_pipeline ::
    "open_config \<Rightarrow> ('t :: linorder, 'tbl, 'w) open_world \<Rightarrow> 't open_env \<Rightarrow> data_quality option
       \<Rightarrow> 'tbl \<times> ((string, string) bmap \<times> string bset) \<times> stream_cursor \<times> 't dedup cutoff option
       \<Rightarrow> ('t dedup, 'tbl) pipeline" where
  "opened_pipeline cfg world env dq = (\<lambda>(target, (ids, on_open), cursor, cutoff).
     \<lparr>pl_cfg = pipeline_config.truncate cfg, pl_stream = stream_of cfg env world cursor cutoff,
      pl_offsets = offset_store_new (oc_app_id cfg) (oc_starting_version cfg), pl_target = target,
      pl_sink = set_source_identity
                  (case (oe_source_version env, oe_source_table_id env) of (Some v, Some i) \<Rightarrow> Some (v, i) | _ \<Rightarrow> None)
                  (sink_new (oc_app_id cfg) (oc_target_file_size cfg)),
      pl_cutoff = cutoff, pl_dq = dq, pl_lookup_ids = ids, pl_lookup_on_open = on_open,
      pl_publishes = ow_publishes world, pl_prev_published = None\<rparr>)"

definition open_with ::
    "open_config \<Rightarrow> ('t :: linorder, 'tbl, 'w) open_world \<Rightarrow> 'w \<Rightarrow> ('t dedup, 'tbl) pipeline res \<times> 'w" where
  "open_with cfg world w =
     (case prefixed ''source'' (ow_source_open world) of
        Inl e \<Rightarrow> (Inl e, w)
      | Inr env \<Rightarrow>
          (case open_plan cfg world env of
             Inl e \<Rightarrow> (Inl e, w)
           | Inr plan \<Rightarrow>
               (case dq_open (ow_dq world) (pc_dq_uri cfg) (oc_app_id cfg) (pc_name cfg) w of
                  (Inl e, w') \<Rightarrow> (Inl e, w')
                | (Inr dq, w') \<Rightarrow> (Inr (opened_pipeline cfg world env dq plan), w'))))"

end
