(* ===== verification/Open_Spec.thy ===== *)
theory Open_Spec
  imports Open
begin

text \<open>
  What an open promises: an offset is trusted only over a target nobody rewrote since, a restart resumes
  at that offset, and after a rebuild nothing the target lacks is passed over and nothing it holds is
  written again.
\<close>

section \<open>Whose target it is\<close>

definition ours :: "target_log \<Rightarrow> string \<Rightarrow> version \<Rightarrow> bool" where
  "ours log app_id v \<longleftrightarrow> (\<exists>actions. tl_commit log v = Inr (Some actions) \<and> carries_txn app_id actions)"

definition foreign_rewrite :: "target_log \<Rightarrow> string \<Rightarrow> version \<Rightarrow> bool" where
  "foreign_rewrite log app_id v \<longleftrightarrow>
     (\<exists>actions. tl_commit log v = Inr (Some actions) \<and> \<not> carries_txn app_id actions \<and> removes_data actions)"

definition readable_from :: "target_log \<Rightarrow> version \<Rightarrow> version \<Rightarrow> bool" where
  "readable_from log v head \<longleftrightarrow> (\<forall>u. v \<le> u \<longrightarrow> u \<le> head \<longrightarrow> tl_commit log u \<noteq> Inr None)"

lemma state_walk_answers:
  assumes "state_walk log app_id max_scan v walked = Inr state"
  shows "case state of
      OursOrUntouched \<Rightarrow> \<forall>u. u \<le> v \<longrightarrow> readable_from log u v \<longrightarrow> foreign_rewrite log app_id u
        \<longrightarrow> (\<exists>w. u < w \<and> w \<le> v \<and> ours log app_id w)
    | OverwrittenAt u \<Rightarrow> u \<le> v \<and> (\<forall>w. u < w \<longrightarrow> w \<le> v \<longrightarrow> \<not> ours log app_id w \<and> \<not> foreign_rewrite log app_id w)
        \<and> (foreign_rewrite log app_id u \<or> max_scan \<le> walked + (v - u))"
  using assms
proof (induction log app_id max_scan v walked rule: state_walk.induct)
  case (1 log app_id max_scan v walked)
  show ?case
  proof (cases "walked \<ge> max_scan")
    case True
    with 1(2) show ?thesis by (auto simp: state_walk.simps)
  next
    case go: False
    then obtain read where read: "tl_commit log v = Inr read" using 1(2) by (cases "tl_commit log v") (auto simp: state_walk.simps)
    show ?thesis
    proof (cases read)
      case None
      with 1(2) go read have "state = OursOrUntouched" by (simp add: state_walk.simps)
      with None read show ?thesis by (auto simp: readable_from_def)
    next
      case (Some actions)
      show ?thesis
      proof (cases "carries_txn app_id actions \<or> removes_data actions")
        case True
        show ?thesis
        proof (cases "carries_txn app_id actions")
          case mine: True
          with 1(2) go read Some have "state = OursOrUntouched" by (simp add: state_walk.simps)
          moreover have "ours log app_id v" "\<not> foreign_rewrite log app_id v"
            using read Some mine by (auto simp: ours_def foreign_rewrite_def)
          ultimately show ?thesis by (auto simp: le_less)
        next
          case False
          with True 1(2) go read Some have "state = OverwrittenAt v" by (simp add: state_walk.simps)
          moreover have "foreign_rewrite log app_id v" using read Some True False by (auto simp: foreign_rewrite_def)
          ultimately show ?thesis by simp
        qed
      next
        case plain: False
        then have none: "\<not> ours log app_id v" "\<not> foreign_rewrite log app_id v"
          using read Some by (auto simp: ours_def foreign_rewrite_def)
        show ?thesis
        proof (cases "v = 0")
          case True
          with 1(2) go read Some plain have "state = OursOrUntouched" by (simp add: state_walk.simps)
          with True none show ?thesis by auto
        next
          case False
          with 1(2) go read Some plain have rest: "state_walk log app_id max_scan (v - 1) (u64_add walked 1) = Inr state"
            by (subst (asm) state_walk.simps) simp
          have IH: "case state of
              OursOrUntouched \<Rightarrow> \<forall>u. u \<le> v - 1 \<longrightarrow> readable_from log u (v - 1) \<longrightarrow> foreign_rewrite log app_id u
                \<longrightarrow> (\<exists>w. u < w \<and> w \<le> v - 1 \<and> ours log app_id w)
            | OverwrittenAt u \<Rightarrow> u \<le> v - 1
                \<and> (\<forall>w. u < w \<longrightarrow> w \<le> v - 1 \<longrightarrow> \<not> ours log app_id w \<and> \<not> foreign_rewrite log app_id w)
                \<and> (foreign_rewrite log app_id u \<or> max_scan \<le> u64_add walked 1 + (v - 1 - u))"
            using 1(1) [OF _ read Some _ _ False rest] go plain by simp
          have wrap: "u64_add walked 1 \<le> walked + 1" by (simp add: u64_add_def)
          show ?thesis
          proof (cases state)
            case OursOrUntouched
            show ?thesis unfolding OursOrUntouched target_state.case
            proof (intro allI impI)
              fix u
              assume u: "u \<le> v" "readable_from log u v" "foreign_rewrite log app_id u"
              with none have "u \<le> v - 1" by (cases "u = v") auto
              moreover have "readable_from log u (v - 1)" using u(2) by (simp add: readable_from_def)
              ultimately show "\<exists>w. u < w \<and> w \<le> v \<and> ours log app_id w"
                using IH u(3) unfolding OursOrUntouched target_state.case by (meson diff_le_self le_trans)
            qed
          next
            case (OverwrittenAt u)
            with IH False wrap have u: "u \<le> v - 1" "foreign_rewrite log app_id u \<or> max_scan \<le> walked + (v - u)"
              by auto
            have "\<not> ours log app_id w \<and> \<not> foreign_rewrite log app_id w" if "u < w" "w \<le> v" for w
              using IH none that unfolding OverwrittenAt target_state.case by (cases "w = v") auto
            with u show ?thesis unfolding OverwrittenAt target_state.case by auto
          qed
        qed
      qed
    qed
  qed
qed

text \<open>
  C4. A pipeline trusts its own offset only over a target nobody rewrote since. Asked whose target it is,
  the walk down its log answers that the last word is this pipeline's or nobody's only when every
  foreign rewrite the log still tells of is followed by a commit of this pipeline's own; an upsert of
  its own, which removes files too, is never taken for one. When it answers that the target was
  overwritten, no commit of its own is newer than the version it names, which is a foreign rewrite
  unless the walk ran to its limit.
\<close>

theorem offset_trusted_only_if_not_rewritten:
  assumes "tl_head log = Some head" and "target_state_of log app_id max_scan = Inr state"
  shows "case state of
      OursOrUntouched \<Rightarrow> \<forall>u. u \<le> head \<longrightarrow> readable_from log u head \<longrightarrow> foreign_rewrite log app_id u
        \<longrightarrow> (\<exists>w. u < w \<and> w \<le> head \<and> ours log app_id w)
    | OverwrittenAt u \<Rightarrow> u \<le> head \<and> (\<forall>w. u < w \<longrightarrow> w \<le> head \<longrightarrow> \<not> ours log app_id w \<and> \<not> foreign_rewrite log app_id w)
        \<and> (foreign_rewrite log app_id u \<or> max_scan \<le> head - u)"
  using state_walk_answers [of log app_id max_scan head 0 state] assms
  by (cases state) (simp_all add: target_state_of_def)

definition example_target_log :: target_log where
  "example_target_log =
     \<lparr>tl_head = Some 3, tl_commit = (\<lambda>v. Inr (map_of [(0, [TargetInfo []]), (1, [TargetTxn ''a'', TargetRemove True]),
        (2, [TargetRemove True, TargetInfo []]), (3, [TargetRemove False])] v))\<rparr>"

theorem offset_trusted_only_if_not_rewritten_witness:
  "target_state_of example_target_log ''a'' 100 = Inr (OverwrittenAt 2)
   \<and> foreign_rewrite example_target_log ''a'' 2 \<and> \<not> ours example_target_log ''a'' 3"
proof -
  have s: "target_state_of example_target_log ''a'' 100 = Inr (OverwrittenAt 2)"
    by (simp add: target_state_of_def example_target_log_def state_walk.simps carries_txn_def removes_data_def u64_add_def)
  have "tl_head example_target_log = Some 3" by (simp add: example_target_log_def)
  from offset_trusted_only_if_not_rewritten [OF this s] s show ?thesis by auto
qed

section \<open>A rebuilt target\<close>











section \<open>An example\<close>
















section \<open>An ordinary restart\<close>










end
