(* ===== verification/Upsert.thy ===== *)
theory Upsert
  imports Stats BTree Errors
begin

text \<open>
  \<open>src/upsert.rs\<close>: collapsing a batch to the newest row of each key, drawing the window of the target a
  MERGE has to see from the target's statistics, and the two expressions of the MERGE. A cell is a value of
  a linear order (the order of Arrow's row encoding) or null. What Arrow, chrono and the machine's floating
  point do (casts, parsing, arithmetic) are parameters.
\<close>

section \<open>Lookback\<close>

record float_ops = fpu +
  f64_parse :: "string \<Rightarrow> f64 option"
  f64_mul :: "f64 \<Rightarrow> f64 \<Rightarrow> f64"
  f64_as_i64 :: "f64 \<Rightarrow> int"

datatype lookback = Lookback_Duration int | Lookback_Offset f64

definition lookback_units :: "(string \<times> int) list" where
  "lookback_units =
     [(''us'', 1), (''ms'', 1000), (''s'', 1000000), (''m'', 60 * 1000000), (''h'', 3600 * 1000000),
      (''d'', 86400 * 1000000), (''w'', 7 * 86400 * 1000000)]"

definition bad_lookback :: "string \<Rightarrow> error" where
  "bad_lookback why = E_Config (''upsert_lookback: '' @ why)"

definition f64_lt :: "f64 \<Rightarrow> f64 \<Rightarrow> bool" where
  "f64_lt a b \<longleftrightarrow> f64_partial_cmp a b = Some Less"

fun parse_units :: "float_ops \<Rightarrow> string \<Rightarrow> (string \<times> int) list \<Rightarrow> lookback res" where
  "parse_units f t [] =
     (case f64_parse f t of
        None \<Rightarrow> Inl (bad_lookback ''not a number or a duration'')
      | Some n \<Rightarrow> if f64_lt n 0 then Inl (bad_lookback ''a lookback cannot be negative'') else Inr (Lookback_Offset n))"
| "parse_units f t ((suffix, micros) # us) =
     (case strip_suffix suffix t of
        None \<Rightarrow> parse_units f t us
      | Some head \<Rightarrow>
          if head = [] \<or> \<not> is_digit (last head) then parse_units f t us
          else case f64_parse f (trim_str head) of
            None \<Rightarrow> Inl (bad_lookback ''not a number'')
          | Some n \<Rightarrow>
              if f64_lt n 0 then Inl (bad_lookback ''a lookback cannot be negative'')
              else let scaled = f64_mul f n (f64_of_int f micros)
                   in if f64_lt (f64_of_int f (2 ^ 63 - 1)) scaled
                      then Inl (bad_lookback ''too large to express in microseconds'')
                      else Inr (Lookback_Duration (f64_as_i64 f scaled)))"

definition lookback_parse :: "float_ops \<Rightarrow> string \<Rightarrow> lookback res" where
  "lookback_parse f s = parse_units f (trim_str s) lookback_units"

fun floor_below :: "float_ops \<Rightarrow> lookback \<Rightarrow> bound \<Rightarrow> bool \<Rightarrow> bound option" where
  "floor_below f (Lookback_Duration us) (BInt v) temporal =
     (if temporal then Some (BInt (saturating_sub_i64 v us)) else None)"
| "floor_below f (Lookback_Offset n) (BInt v) temporal =
     (if \<not> temporal then Some (BInt (saturating_sub_i64 v (f64_as_i64 f n))) else None)"
| "floor_below f (Lookback_Offset n) (BFloat v) temporal = Some (BFloat (f64_sub (fpu.truncate f) v n))"
| "floor_below f _ _ _ = None"

section \<open>Batch bounds\<close>

definition bound_eq :: "bound \<Rightarrow> bound \<Rightarrow> bool" where
  "bound_eq a b \<longleftrightarrow> bound_partial_cmp a b = Some Equal"

text \<open>\<open>sort_by\<close> with \<open>partial_cmp(..).unwrap_or(Equal)\<close>, and \<open>Vec::dedup\<close>.\<close>

fun insert_bound :: "bound \<Rightarrow> bound list \<Rightarrow> bound list" where
  "insert_bound x [] = [x]"
| "insert_bound x (y # ys) = (if bound_lt y x then y # insert_bound x ys else x # y # ys)"

definition sort_bounds :: "bound list \<Rightarrow> bound list" where
  "sort_bounds bs = foldr insert_bound bs []"

fun dedup_bounds :: "bound list \<Rightarrow> bound list" where
  "dedup_bounds (x # y # ys) = (if bound_eq x y then dedup_bounds (x # ys) else x # dedup_bounds (y # ys))"
| "dedup_bounds xs = xs"

record batch_bounds =
  bb_keys :: "bound list"
  bb_sequence_min :: bound
  bb_key_slack :: "slack option"
  bb_sequence_slack :: "slack option"

definition least_bound :: "bound list \<Rightarrow> bound option" where
  "least_bound bs = (case bs of [] \<Rightarrow> None | b # bs \<Rightarrow> Some (foldl (\<lambda>a b. if bound_lt b a then b else a) b bs))"

section \<open>The window\<close>

text \<open>What the log says of a live file, as far as the window reads it; \<open>wf_stats\<close> is \<open>None\<close> without statistics.\<close>

record window =
  wi_lower :: "bound option"
  wi_clamped :: bool
  wi_candidate_files :: nat
  wi_examined_files :: nat
  wi_unbounded_because :: "string option"

definition unbounded :: "string \<Rightarrow> nat \<Rightarrow> window" where
  "unbounded why examined =
     \<lparr>wi_lower = None, wi_clamped = False, wi_candidate_files = 0, wi_examined_files = examined,
      wi_unbounded_because = Some why\<rparr>"

definition is_bounded :: "window \<Rightarrow> bool" where
  "is_bounded w \<longleftrightarrow> wi_lower w \<noteq> None"

record window_env =
  we_fpu :: float_ops
  we_json :: "string \<Rightarrow> json option"
  we_timestamp :: "string \<Rightarrow> int option"

definition key_stats :: "window_env \<Rightarrow> batch_bounds \<Rightarrow> string \<Rightarrow> json \<Rightarrow> column_stats" where
  "key_stats env bounds key_column parsed =
     loosened (fpu.truncate (we_fpu env)) (bb_key_slack bounds)
       (column_stats_of (fpu.truncate (we_fpu env)) (we_timestamp env) parsed key_column (hd (bb_keys bounds)))"

definition sequence_stats :: "window_env \<Rightarrow> batch_bounds \<Rightarrow> string \<Rightarrow> json \<Rightarrow> column_stats" where
  "sequence_stats env bounds sequence_column parsed =
     loosened (fpu.truncate (we_fpu env)) (bb_sequence_slack bounds)
       (column_stats_of (fpu.truncate (we_fpu env)) (we_timestamp env) parsed sequence_column (bb_sequence_min bounds))"

text \<open>The loop over the live files: the window that has no bound, or the running bound with its counts.\<close>

fun plan_files ::
    "window_env \<Rightarrow> string \<Rightarrow> string \<Rightarrow> batch_bounds \<Rightarrow> bound option \<Rightarrow> string option list \<Rightarrow> bound option \<Rightarrow> nat \<Rightarrow> nat
       \<Rightarrow> window + (bound option \<times> nat \<times> nat)" where
  "plan_files env key_column sequence_column bounds floor [] lower candidates examined =
     Inr (lower, candidates, examined)"
| "plan_files env key_column sequence_column bounds floor (file # files) lower candidates examined =
     (let examined = examined + 1
      in case file of
        None \<Rightarrow> Inl (unbounded ''the file records no statistics'' examined)
      | Some raw \<Rightarrow>
     (case we_json env raw of
        None \<Rightarrow> Inl (unbounded ''the file's statistics are unreadable'' examined)
      | Some parsed \<Rightarrow>
     (let keys = key_stats env bounds key_column parsed
      in case (cs_min keys, cs_max keys) of
        (Some kmin, Some kmax) \<Rightarrow>
          if \<not> range_touches_any kmin kmax (bb_keys bounds)
          then plan_files env key_column sequence_column bounds floor files lower candidates examined
          else
            (let candidates = candidates + 1
             in case cs_min (sequence_stats env bounds sequence_column parsed) of
               None \<Rightarrow> Inl (unbounded ''no statistics for the sequence column'' examined)
             | Some smin \<Rightarrow>
                 let lowered = \<not> (case lower of Some cur \<Rightarrow> bound_le cur smin | None \<Rightarrow> False);
                     lower' = (if lowered then Some smin else lower)
                 in if lowered \<and> (case (floor, lower') of (Some f, Some l) \<Rightarrow> bound_le l f | _ \<Rightarrow> False)
                    then Inr (lower', candidates, examined)
                    else plan_files env key_column sequence_column bounds floor files lower' candidates examined)
      | _ \<Rightarrow> Inl (unbounded ''no statistics for the key column'' examined))))"

declare plan_files.simps [simp del]

definition window_plan ::
    "window_env \<Rightarrow> string option list res \<Rightarrow> string \<Rightarrow> string \<Rightarrow> batch_bounds \<Rightarrow> lookback option \<Rightarrow> bool \<Rightarrow> window res" where
  "window_plan env target key_column sequence_column bounds lookback temporal =
     res_bind (case lookback of
                 None \<Rightarrow> Inr None
               | Some l \<Rightarrow>
                   (case floor_below (we_fpu env) l (bb_sequence_min bounds) temporal of
                      Some f \<Rightarrow> Inr (Some f)
                    | None \<Rightarrow> Inl (E_Config ''upsert_lookback does not fit the sequence column''))) (\<lambda>floor.
     res_bind target (\<lambda>files.
       case plan_files env key_column sequence_column bounds floor files None 0 0 of
         Inl w \<Rightarrow> Inr w
       | Inr (lower, candidates, examined) \<Rightarrow>
           let lower = (case lower of Some l \<Rightarrow> l | None \<Rightarrow> bb_sequence_min bounds);
               (lower, clamped) = (case floor of
                    Some f \<Rightarrow> if bound_lt lower f then (f, True) else (lower, False)
                  | None \<Rightarrow> (lower, False))
           in Inr \<lparr>wi_lower = Some lower, wi_clamped = clamped, wi_candidate_files = candidates,
                   wi_examined_files = examined, wi_unbounded_because = None\<rparr>))"

section \<open>Batches\<close>

type_synonym 'v cells = "string \<Rightarrow> 'v option"

record 'v upsert_batch =
  ub_columns :: "string list"
  ub_rows :: "'v cells list"

definition ub_column :: "'v upsert_batch \<Rightarrow> string \<Rightarrow> 'v option list res" where
  "ub_column b name =
     (if name \<in> set (ub_columns b) then Inr (map (\<lambda>r. r name) (ub_rows b))
      else Inl (E_Schema ''upsert column is not in the transformed batch''))"

text \<open>
  What Arrow does with a column: the text of its values and whether it casts to text at all, whether columns
  of these names have an order, the bounds of its values (\<open>bounds_of\<close>) and their slack.
\<close>

record 'v arrow =
  ar_text :: "'v \<Rightarrow> string"
  ar_casts :: "string \<Rightarrow> 'v option list \<Rightarrow> unit res"
  ar_orders :: "string list \<Rightarrow> unit res"
  ar_bounds :: "string \<Rightarrow> 'v option list \<Rightarrow> bound list option"
  ar_slack :: "string \<Rightarrow> slack option"
  ar_temporal :: "string \<Rightarrow> bool"
  ar_literal :: "bound \<Rightarrow> string \<Rightarrow> 'v option" \<comment> \<open>\<open>scalar_of_bound\<close>\<close>

definition batch_bounds_of :: "'v arrow \<Rightarrow> 'v upsert_batch \<Rightarrow> string \<Rightarrow> string \<Rightarrow> batch_bounds option" where
  "batch_bounds_of ar batch key_column sequence_column =
     (if ub_rows batch = [] then None
      else case ub_column batch key_column of
        Inl _ \<Rightarrow> None
      | Inr key \<Rightarrow>
     (case ar_bounds ar key_column key of
        None \<Rightarrow> None
      | Some keys \<Rightarrow>
     (case ub_column batch sequence_column of
        Inl _ \<Rightarrow> None
      | Inr sequence \<Rightarrow>
     (case Option.bind (ar_bounds ar sequence_column sequence) least_bound of
        None \<Rightarrow> None
      | Some sequence_min \<Rightarrow>
          Some \<lparr>bb_keys = dedup_bounds (sort_bounds keys), bb_sequence_min = sequence_min,
                bb_key_slack = ar_slack ar key_column, bb_sequence_slack = ar_slack ar sequence_column\<rparr>))))"

section \<open>The MERGE's expressions\<close>

datatype side = Source | Target

datatype 'v expr =
    ECol side string
  | ELit 'v
  | EEq "'v expr" "'v expr"
  | EGt "'v expr" "'v expr"
  | EGtEq "'v expr" "'v expr"
  | EAnd "'v expr" "'v expr"
  | EOr "'v expr" "'v expr"

definition window_predicate ::
    "'v arrow \<Rightarrow> window \<Rightarrow> string \<Rightarrow> string \<Rightarrow> 'v expr res" where
  "window_predicate ar w key_column sequence_column =
     (let key = EEq (ECol Target key_column) (ECol Source key_column)
      in case wi_lower w of
           None \<Rightarrow> Inr key
         | Some lo \<Rightarrow>
             (case ar_literal ar lo sequence_column of
                None \<Rightarrow> Inl (E_Schema ''cannot express the merge window's lower bound'')
              | Some scalar \<Rightarrow> Inr (EAnd key (EGtEq (ECol Target sequence_column) (ELit scalar)))))"

definition newer_term :: "string list \<Rightarrow> string \<Rightarrow> 'v expr" where
  "newer_term earlier c =
     foldl (\<lambda>acc e. EAnd (EEq (ECol Source e) (ECol Target e)) acc) (EGt (ECol Source c) (ECol Target c)) earlier"

definition newer_than_stored :: "string \<Rightarrow> string list \<Rightarrow> 'v expr" where
  "newer_than_stored sequence_column tiebreak =
     (let columns = sequence_column # tiebreak;
          terms = map (\<lambda>i. newer_term (take i columns) (columns ! i)) [0..<length columns]
      in foldl EOr (hd terms) (tl terms))"

record 'v upsert_plan =
  up_predicate :: "'v expr"
  up_newer :: "'v expr"
  up_update_columns :: "string list"
  up_insert_columns :: "string list"
  up_window :: window

definition merge_plan_resolve ::
    "'v arrow \<Rightarrow> window_env \<Rightarrow> string option list res \<Rightarrow> 'v upsert_batch \<Rightarrow> string \<Rightarrow> string \<Rightarrow> lookback option
       \<Rightarrow> string list \<Rightarrow> string list \<Rightarrow> 'v upsert_plan res" where
  "merge_plan_resolve ar env target batch key_column sequence_column lookback update_columns tiebreak =
     (if sequence_column \<notin> set (ub_columns batch)
      then Inl (E_Schema ''upsert sequence column is not in the batch'')
      else
        res_bind (case batch_bounds_of ar batch key_column sequence_column of
                    Some bounds \<Rightarrow>
                      window_plan env target key_column sequence_column bounds lookback (ar_temporal ar sequence_column)
                  | None \<Rightarrow> Inr (unbounded ''the key or sequence column has an uncomparable type'' 0)) (\<lambda>w.
        res_bind (window_predicate ar w key_column sequence_column) (\<lambda>predicate.
        Inr \<lparr>up_predicate = predicate, up_newer = newer_than_stored sequence_column tiebreak,
             up_update_columns = update_columns, up_insert_columns = ub_columns batch, up_window = w\<rparr>)))"

section \<open>Collapsing\<close>

text \<open>\<open>concat_batches\<close>: the batches of one schema as one.\<close>

definition concat_batches :: "'v upsert_batch \<Rightarrow> 'v upsert_batch list \<Rightarrow> 'v upsert_batch res" where
  "concat_batches first batches =
     (if list_all (\<lambda>b. ub_columns b = ub_columns first) batches
      then Inr \<lparr>ub_columns = ub_columns first, ub_rows = concat (map ub_rows batches)\<rparr>
      else Inl (E_Other ''upsert: cannot concatenate the batch''))"

definition without_nulls :: "string \<Rightarrow> 'v option list \<Rightarrow> 'v list res" where
  "without_nulls why column =
     (if None \<in> set column then Inl (E_Schema (why @ '' contains null(s)'')) else Inr (map the column))"

definition newest_row ::
    "string list \<Rightarrow> 'v :: linorder list list \<Rightarrow> nat \<Rightarrow> (string, nat) bmap \<Rightarrow> (string, nat) bmap" where
  "newest_row text order i newest =
     (case bt_get newest (text ! i) of
        Some best \<Rightarrow> if order ! i < order ! best then newest else bt_insert (text ! i) i newest
      | None \<Rightarrow> bt_insert (text ! i) i newest)"

definition keep_newest :: "'v :: linorder upsert_batch \<Rightarrow> string list \<Rightarrow> 'v list list \<Rightarrow> 'v upsert_batch" where
  "keep_newest all text order =
     (let n = length (ub_rows all);
          newest = fold (newest_row text order) [0..<n] []
      in if length newest = n then all
         else all\<lparr>ub_rows := map (nth (ub_rows all)) (sort (map snd newest))\<rparr>)"

definition collapse_rows ::
    "'v :: linorder arrow \<Rightarrow> 'v upsert_batch \<Rightarrow> string \<Rightarrow> string \<Rightarrow> string list \<Rightarrow> 'v upsert_batch res" where
  "collapse_rows ar all key_column sequence_column tiebreak =
     (if ub_rows all = [] then Inr all
      else
       res_bind (ub_column all key_column) (\<lambda>keys.
       res_bind (without_nulls ''upsert key'' keys) (\<lambda>key_values.
       res_bind (ub_column all sequence_column) (\<lambda>sequence.
       res_bind (without_nulls ''upsert sequence column'' sequence) (\<lambda>sequence.
       res_bind (ar_casts ar key_column keys) (\<lambda>_.
       res_bind (collect_res (\<lambda>c. res_bind (ub_column all c) (without_nulls ''upsert tie-breaker'')) tiebreak) (\<lambda>ties.
       res_bind (ar_orders ar (sequence_column # tiebreak)) (\<lambda>_.
       Inr (keep_newest all (map (ar_text ar) key_values)
              (map (\<lambda>i. map (\<lambda>c. c ! i) (sequence # ties)) [0..<length (ub_rows all)]))))))))))"

definition upsert_collapse ::
    "'v :: linorder arrow \<Rightarrow> 'v upsert_batch list \<Rightarrow> string \<Rightarrow> string \<Rightarrow> string list \<Rightarrow> 'v upsert_batch res" where
  "upsert_collapse ar batches key_column sequence_column tiebreak =
     (case batches of
        [] \<Rightarrow> Inl (E_Other ''upsert: nothing to collapse'')
      | first # _ \<Rightarrow>
          res_bind (concat_batches first batches) (\<lambda>all.
            collapse_rows ar all key_column sequence_column tiebreak))"

section \<open>Preflight\<close>

datatype grain_check = GrainAlways | GrainOff

datatype column_kind = KTemporal | KInteger | KFloating | KOther

text \<open>
  The target's columns with the kind of their type, its \<open>delta.appendOnly\<close>, and the check of its grain.
\<close>

definition upsert_preflight ::
    "float_ops \<Rightarrow> (string \<times> column_kind) list \<Rightarrow> bool res \<Rightarrow> nat res \<Rightarrow> string \<Rightarrow> string \<Rightarrow> lookback option
       \<Rightarrow> string list \<Rightarrow> grain_check \<Rightarrow> nat res" where
  "upsert_preflight f columns append_only one_row_per_key key_column sequence_column lookback tiebreak grain =
     (let named = (\<lambda>c. ok_or (E_Config ''upsert column is not in the target table'') (map_of columns c))
      in res_bind (named key_column) (\<lambda>_.
         res_bind (named sequence_column) (\<lambda>sequence_kind.
         res_bind (collect_res named tiebreak) (\<lambda>_.
         res_bind (case lookback of
                     None \<Rightarrow> Inr ()
                   | Some l \<Rightarrow>
                       res_bind (case sequence_kind of
                                   KTemporal \<Rightarrow> Inr (BInt 0)
                                 | KInteger \<Rightarrow> Inr (BInt 0)
                                 | KFloating \<Rightarrow> Inr (BFloat 0)
                                 | KOther \<Rightarrow> Inl (E_Config ''upsert_lookback cannot be applied to the sequence column'')) (\<lambda>probe.
                       if floor_below f l probe (sequence_kind = KTemporal) = None
                       then Inl (E_Config ''upsert_lookback does not fit the sequence column'') else Inr ())) (\<lambda>_.
         res_bind append_only (\<lambda>ao.
         if ao then Inl (E_Config ''the target has delta.appendOnly = true'')
         else case grain of GrainAlways \<Rightarrow> one_row_per_key | GrainOff \<Rightarrow> Inr 0))))))"

end
