(* ===== verification/Upsert_Spec.thy ===== *)
theory Upsert_Spec
  imports Upsert "HOL-Library.Multiset"
begin

text \<open>
  What an upsert promises: the batch is collapsed to the newest row of each key, the window never hides a
  stored row with a key of the batch (unless the lookback's floor does), and the MERGE leaves what applying
  the batch's rows one after the other would.
\<close>

section \<open>Rows\<close>

definition key_of :: "string \<Rightarrow> 'v cells \<Rightarrow> 'v" where
  "key_of kc r = the (r kc)"

definition order_of :: "string list \<Rightarrow> 'v cells \<Rightarrow> 'v list" where
  "order_of cs r = map (\<lambda>c. the (r c)) cs"

definition filled :: "string list \<Rightarrow> 'v cells \<Rightarrow> bool" where
  "filled cs r \<longleftrightarrow> (\<forall>c \<in> set cs. r c \<noteq> None)"

section \<open>Collapsing\<close>

text \<open>Row \<open>i\<close> of \<open>m\<close> is the newest of its key, the later of equal ones.\<close>

definition wins :: "'k list \<Rightarrow> 'o :: linorder list \<Rightarrow> nat \<Rightarrow> nat \<Rightarrow> bool" where
  "wins keys ords m i \<longleftrightarrow>
     i < m \<and> (\<forall>j < m. keys ! j = keys ! i \<longrightarrow> ords ! j < ords ! i \<or> ords ! j = ords ! i \<and> j \<le> i)"

definition newest_rows :: "('r \<Rightarrow> 'k) \<Rightarrow> ('r \<Rightarrow> 'o :: linorder) \<Rightarrow> 'r list \<Rightarrow> 'r list" where
  "newest_rows key ord rows =
     map (nth rows) (filter (wins (map key rows) (map ord rows) (length rows)) [0..<length rows])"

definition newest_ok :: "string list \<Rightarrow> 'v :: linorder list list \<Rightarrow> nat \<Rightarrow> (string, nat) bmap \<Rightarrow> bool" where
  "newest_ok txts order m newest \<longleftrightarrow>
     bt_wf newest
     \<and> (\<forall>k i. bt_get newest k = Some i \<longleftrightarrow> txts ! i = k \<and> wins txts order m i)
     \<and> (\<forall>j < m. bt_get newest (txts ! j) \<noteq> None)"

lemma wins_less: "wins keys ords m i \<Longrightarrow> i < m"
  by (simp add: wins_def)

lemma wins_last: "wins keys ords (Suc m) m \<longleftrightarrow> (\<forall>j < m. keys ! j = keys ! m \<longrightarrow> ords ! j \<le> ords ! m)"
  unfolding wins_def le_less by (auto simp: less_Suc_eq)

lemma wins_earlier:
  "i \<noteq> m \<Longrightarrow>
     wins keys ords (Suc m) i \<longleftrightarrow> wins keys ords m i \<and> (keys ! m = keys ! i \<longrightarrow> ords ! m < ords ! i)"
  unfolding wins_def by (auto simp: less_Suc_eq)

lemma newest_row_ok:
  assumes ok: "newest_ok txts order m newest"
  shows "newest_ok txts order (Suc m) (newest_row txts order m newest)"
proof -
  let ?k = "txts ! m"
  have wf: "bt_wf newest" and get: "\<And>k i. bt_get newest k = Some i \<longleftrightarrow> txts ! i = k \<and> wins txts order m i"
    and all: "\<And>j. j < m \<Longrightarrow> bt_get newest (txts ! j) \<noteq> None"
    using ok by (auto simp: newest_ok_def)
  have okI: "newest_ok txts order (Suc m) n"
    if "bt_wf n" "\<And>k i. bt_get n k = Some i \<longleftrightarrow> txts ! i = k \<and> wins txts order (Suc m) i"
      "bt_get n ?k \<noteq> None" "\<And>j. bt_get newest (txts ! j) \<noteq> None \<Longrightarrow> bt_get n (txts ! j) \<noteq> None" for n
    unfolding newest_ok_def using that all by (auto simp: less_Suc_eq)
  show ?thesis
  proof (cases "bt_get newest ?k")
    case None
    have none: "txts ! j \<noteq> ?k" if "j < m" for j using None all [OF that] by auto
    then have m: "wins txts order (Suc m) m" by (simp add: wins_last)
    have other: "wins txts order (Suc m) i \<longleftrightarrow> wins txts order m i" if "i \<noteq> m" for i
      using wins_earlier [OF that, of txts order] none wins_less [of txts order m i] by metis
    have g: "bt_get (bt_insert ?k m newest) k = Some i \<longleftrightarrow> txts ! i = k \<and> wins txts order (Suc m) i" for k i
      using m other [of i] get [of k i] wins_less [of txts order m i] none [of i] by (cases "i = m") auto
    have "newest_ok txts order (Suc m) (bt_insert ?k m newest)" by (rule okI [OF _ g]) (simp_all add: wf)
    with None show ?thesis by (simp add: newest_row_def)
  next
    case (Some b)
    then have b: "txts ! b = ?k" "wins txts order m b" using get by auto
    have same: "i = b" if "wins txts order m i" "txts ! i = ?k" for i
      using that get [of ?k i] Some by simp
    show ?thesis
    proof (cases "order ! m < order ! b")
      case True
      have g: "wins txts order (Suc m) i \<longleftrightarrow> wins txts order m i" for i
      proof (cases "i = m")
        case True
        with b wins_less [OF b(2)] \<open>order ! m < order ! b\<close> show ?thesis
          by (auto simp: wins_last not_le dest: wins_less)
      next
        case False
        with True same [of i] show ?thesis by (auto simp: wins_earlier [OF False])
      qed
      have "newest_ok txts order (Suc m) newest" by (rule okI [OF wf]) (simp_all add: get g Some)
      with Some True show ?thesis by (simp add: newest_row_def)
    next
      case False
      have "order ! j \<le> order ! b" if "j < m" "txts ! j = ?k" for j
        using b that unfolding wins_def by (metis less_imp_le order.refl)
      with False have m: "wins txts order (Suc m) m" by (auto simp: wins_last not_less intro: order.trans)
      have other: "wins txts order (Suc m) i \<longleftrightarrow> wins txts order m i \<and> txts ! i \<noteq> ?k" if "i \<noteq> m" for i
        using wins_earlier [OF that, of txts order] same [of i] False by auto
      have g: "bt_get (bt_insert ?k m newest) k = Some i \<longleftrightarrow> txts ! i = k \<and> wins txts order (Suc m) i" for k i
        using m other [of i] wins_less [of txts order m i] get [of k i] by (cases "i = m") auto
      have "newest_ok txts order (Suc m) (bt_insert ?k m newest)" by (rule okI [OF _ g]) (simp_all add: wf)
      with Some False show ?thesis by (simp add: newest_row_def)
    qed
  qed
qed

lemma newest_fold_ok: "newest_ok txts order m (fold (newest_row txts order) [0..<m] [])"
proof (induction m)
  case 0
  show ?case by (simp add: newest_ok_def wins_def)
next
  case (Suc m)
  then show ?case using newest_row_ok by simp
qed

lemma newest_indices:
  assumes ok: "newest_ok txts order m newest"
  shows "sort (map snd newest) = filter (wins txts order m) [0..<m]"
proof (rule sorted_distinct_set_unique)
  have wf: "bt_wf newest" and get: "\<And>k i. bt_get newest k = Some i \<longleftrightarrow> txts ! i = k \<and> wins txts order m i"
    using ok by (auto simp: newest_ok_def)
  have mem: "(k, i) \<in> set newest \<longleftrightarrow> txts ! i = k \<and> wins txts order m i" for k i
    using get wf by (simp flip: bt_get_Some_iff)
  have "inj_on snd (set newest)" by (rule inj_onI) (auto simp: mem)
  moreover have "distinct newest" using wf by (metis btm.distinct_entries distinct_map)
  ultimately show "distinct (sort (map snd newest))" by (simp add: distinct_map)
  show "set (sort (map snd newest)) = set (filter (wins txts order m) [0..<m])"
  proof (rule set_eqI)
    fix i
    have "i \<in> snd ` set newest \<longleftrightarrow> (\<exists>k. (k, i) \<in> set newest)" by force
    also have "\<dots> \<longleftrightarrow> wins txts order m i" by (simp add: mem)
    finally show "i \<in> set (sort (map snd newest)) \<longleftrightarrow> i \<in> set (filter (wins txts order m) [0..<m])"
      using wins_less by auto
  qed
qed (simp_all add: sorted_wrt_filter)

lemma wins_cong:
  assumes "\<And>i j. i < m \<Longrightarrow> j < m \<Longrightarrow> keys ! i = keys ! j \<longleftrightarrow> keys' ! i = keys' ! j"
  shows "i < m \<Longrightarrow> wins keys ords m i \<longleftrightarrow> wins keys' ords m i"
  unfolding wins_def using assms by blast

lemma all_win: "length (filter P [0..<n]) = n \<Longrightarrow> map (nth xs) (filter P [0..<n]) = map (nth xs) [0..<n]"
  by (metis diff_zero filter_True length_filter_less length_upt less_irrefl)

lemma wins_unique:
  assumes "wins keys ords m i" and "wins keys ords m j" and "keys ! i = keys ! j"
  shows "i = j"
proof -
  have "ords ! j < ords ! i \<or> ords ! j = ords ! i \<and> j \<le> i" and "ords ! i < ords ! j \<or> ords ! i = ords ! j \<and> i \<le> j"
    using assms unfolding wins_def by auto
  then show ?thesis by auto
qed

lemma newest_rows_props:
  fixes ord :: "'r \<Rightarrow> 'o :: linorder"
  shows "distinct (map key (newest_rows key ord rows))"
    and "set (newest_rows key ord rows) \<subseteq> set rows"
    and "r \<in> set rows \<Longrightarrow> \<exists>r' \<in> set (newest_rows key ord rows). key r' = key r"
    and "r \<in> set (newest_rows key ord rows) \<Longrightarrow> r' \<in> set rows \<Longrightarrow> key r' = key r \<Longrightarrow> ord r' \<le> ord r"
proof -
  let ?W = "wins (map key rows) (map ord rows) (length rows)"
  let ?is = "filter ?W [0..<length rows]"
  have one: "i = j" if "?W i" "?W j" "key (rows ! i) = key (rows ! j)" for i j
    using that by (intro wins_unique [of "map key rows" "map ord rows" "length rows"]) (simp_all add: wins_less)
  have "inj_on (\<lambda>i. key (rows ! i)) (set ?is)" by (rule inj_onI) (use one in auto)
  then show "distinct (map key (newest_rows key ord rows))"
    by (simp add: newest_rows_def distinct_map comp_def inj_on_def)
  show "set (newest_rows key ord rows) \<subseteq> set rows" by (auto simp: newest_rows_def)
  show "\<exists>r' \<in> set (newest_rows key ord rows). key r' = key r" if r: "r \<in> set rows"
  proof -
    let ?S = "{i. i < length rows \<and> key (rows ! i) = key r}"
    let ?m = "Max ((\<lambda>i. ord (rows ! i)) ` ?S)"
    let ?T = "{i \<in> ?S. ord (rows ! i) = ?m}"
    have fin: "finite ?S" "?S \<noteq> {}" using r by (auto simp: in_set_conv_nth)
    then have "?m \<in> (\<lambda>i. ord (rows ! i)) ` ?S" by (intro Max_in) auto
    then obtain i0 where "i0 \<in> ?S" "?m = ord (rows ! i0)" by (rule imageE)
    then have T: "?T \<noteq> {}" "finite ?T" using fin(1) by (force, simp)
    let ?i = "Max ?T"
    have i: "?i \<in> ?T" by (rule Max_in [OF T(2,1)])
    have "?W ?i"
      unfolding wins_def
    proof (intro conjI allI impI)
      show "?i < length rows" using i by simp
      fix j assume j: "j < length rows" "map key rows ! j = map key rows ! ?i"
      then have S: "j \<in> ?S" using i by simp
      then have "ord (rows ! j) \<le> ?m" using fin by (intro Max_ge) auto
      moreover have "j \<le> ?i" if "ord (rows ! j) = ?m" using S that T(2) by (intro Max_ge) auto
      ultimately show "map ord rows ! j < map ord rows ! ?i \<or> map ord rows ! j = map ord rows ! ?i \<and> j \<le> ?i"
        using i j(1) by (auto simp: le_less)
    qed
    then have "rows ! ?i \<in> set (newest_rows key ord rows)" using i by (simp add: newest_rows_def)
    with i show ?thesis by blast
  qed
  show "ord r' \<le> ord r" if "r \<in> set (newest_rows key ord rows)" "r' \<in> set rows" "key r' = key r"
  proof -
    from that(1) obtain i where i: "?W i" "r = rows ! i" by (auto simp: newest_rows_def)
    from that(2) obtain j where j: "j < length rows" "r' = rows ! j" by (auto simp: in_set_conv_nth)
    from i(1) j that(3) i(2) have "ord (rows ! j) < ord (rows ! i) \<or> ord (rows ! j) = ord (rows ! i) \<and> j \<le> i"
      using wins_less [OF i(1)] unfolding wins_def by simp
    with i(2) j(2) show ?thesis by (auto simp: le_less)
  qed
qed

definition collapse_columns :: "string \<Rightarrow> string \<Rightarrow> string list \<Rightarrow> string list" where
  "collapse_columns kc sc tb = kc # sc # tb"

lemma without_nulls_Inr: "without_nulls w c = Inr xs \<longleftrightarrow> None \<notin> set c \<and> xs = map the c"
  by (auto simp: without_nulls_def)

lemma column_values:
  assumes "ub_column b c = Inr xs" and "None \<notin> set xs"
  shows "map the xs = map (\<lambda>r. the (r c)) (ub_rows b)" and "\<forall>r \<in> set (ub_rows b). r c \<noteq> None"
proof -
  have xs: "xs = map (\<lambda>r. r c) (ub_rows b)" using assms(1) by (simp add: ub_column_def split: if_splits)
  then show "map the xs = map (\<lambda>r. the (r c)) (ub_rows b)" by simp
  show "\<forall>r \<in> set (ub_rows b). r c \<noteq> None"
  proof
    fix r assume "r \<in> set (ub_rows b)"
    then have "r c \<in> set xs" by (simp add: xs)
    with assms(2) show "r c \<noteq> None" by metis
  qed
qed

lemma ties_of:
  assumes "collect_res (\<lambda>c. res_bind (ub_column all c) (without_nulls w)) tb = Inr ties"
  shows "ties = map (\<lambda>c. map (\<lambda>r. the (r c)) (ub_rows all)) tb" and "\<forall>c \<in> set tb. \<forall>r \<in> set (ub_rows all). r c \<noteq> None"
proof -
  have step: "y = map (\<lambda>r. the (r c)) (ub_rows all) \<and> (\<forall>r \<in> set (ub_rows all). r c \<noteq> None)"
    if "res_bind (ub_column all c) (without_nulls w) = Inr y" for c y
  proof -
    from that obtain xs where "ub_column all c = Inr xs" "without_nulls w xs = Inr y" by (rule res_bind_InrE)
    then have "None \<notin> set xs" "ub_column all c = Inr xs" "y = map the xs" by (simp_all add: without_nulls_Inr)
    with column_values show ?thesis by metis
  qed
  from assms have l2: "list_all2 (\<lambda>c y. res_bind (ub_column all c) (without_nulls w) = Inr y) tb ties"
    by (simp only: collect_res_Inr_iff)
  from l2 have "ties = map (\<lambda>c. map (\<lambda>r. the (r c)) (ub_rows all)) tb
      \<and> (\<forall>c \<in> set tb. \<forall>r \<in> set (ub_rows all). r c \<noteq> None)"
  proof (induction rule: list_all2_induct)
    case (Cons c tb y ties)
    from step [OF Cons(1)] Cons(3) show ?case by simp
  qed simp
  then show "ties = map (\<lambda>c. map (\<lambda>r. the (r c)) (ub_rows all)) tb"
    and "\<forall>c \<in> set tb. \<forall>r \<in> set (ub_rows all). r c \<noteq> None" by blast+
qed

lemma order_columns:
  assumes "ss = map (\<lambda>r. the (r sc)) rows" and "ties = map (\<lambda>c. map (\<lambda>r. the (r c)) rows) tb"
  shows "map (\<lambda>i. map (\<lambda>c. c ! i) (ss # ties)) [0..<length rows] = map (order_of (sc # tb)) rows"
  by (rule nth_equalityI) (simp_all add: assms order_of_def)

lemma keep_newest_rows:
  assumes inj: "inj_on t (key ` set (ub_rows all))"
  shows "ub_rows (keep_newest all (map (\<lambda>r. t (key r)) (ub_rows all)) (map ord (ub_rows all)))
       = newest_rows key ord (ub_rows all)"
proof -
  let ?rows = "ub_rows all" and ?n = "length (ub_rows all)"
  let ?txts = "map (\<lambda>r. t (key r)) ?rows" and ?ords = "map ord ?rows"
  let ?newest = "fold (newest_row ?txts ?ords) [0..<?n] []"
  have w: "wins ?txts ?ords ?n i \<longleftrightarrow> wins (map key ?rows) ?ords ?n i" if "i < ?n" for i
  proof (rule wins_cong [OF _ that])
    fix i j assume "i < ?n" "j < ?n"
    then show "?txts ! i = ?txts ! j \<longleftrightarrow> map key ?rows ! i = map key ?rows ! j"
      using inj by (auto simp: inj_on_eq_iff)
  qed
  have ix: "sort (map snd ?newest) = filter (wins (map key ?rows) ?ords ?n) [0..<?n]"
    unfolding newest_indices [OF newest_fold_ok] by (rule filter_cong) (auto simp: w)
  have len: "length ?newest = length (filter (wins (map key ?rows) ?ords ?n) [0..<?n])"
    using arg_cong [OF ix, of length] by simp
  show "ub_rows (keep_newest all ?txts ?ords) = newest_rows key ord ?rows"
  proof (cases "length ?newest = ?n")
    case True
    with len have "map (nth ?rows) (filter (wins (map key ?rows) ?ords ?n) [0..<?n]) = ?rows"
      using all_win [of "wins (map key ?rows) ?ords ?n" ?n ?rows] by (simp add: map_nth)
    with True show ?thesis by (simp add: keep_newest_def newest_rows_def)
  next
    case False
    then show ?thesis by (simp add: keep_newest_def newest_rows_def ix Let_def)
  qed
qed

lemma keep_newest_columns [simp]: "ub_columns (keep_newest all txts ords) = ub_columns all"
  by (simp add: keep_newest_def Let_def)

lemma collapse_rows_parts:
  fixes b :: "'v :: linorder upsert_batch"
  assumes ok: "collapse_rows ar all kc sc tb = Inr b" and n: "ub_rows all \<noteq> []"
  shows "\<exists>keys ss ties. ub_column all kc = Inr keys \<and> None \<notin> set keys \<and> ub_column all sc = Inr ss \<and> None \<notin> set ss
    \<and> collect_res (\<lambda>c. res_bind (ub_column all c) (without_nulls ''upsert tie-breaker'')) tb = Inr ties
    \<and> b = keep_newest all (map (ar_text ar) (map the keys))
            (map (\<lambda>i. map (\<lambda>c. c ! i) (map the ss # ties)) [0..<length (ub_rows all)])"
proof (cases "ub_column all kc")
  case (Inl e)
  with ok n show ?thesis by (simp add: collapse_rows_def)
next
  case k: (Inr keys)
  with ok n have nk: "None \<notin> set keys" by (auto simp: collapse_rows_def without_nulls_def simp del: res_bind_Inr_iff split: if_splits)
  show ?thesis
  proof (cases "ub_column all sc")
    case (Inl e)
    with ok n k nk show ?thesis by (simp add: collapse_rows_def without_nulls_def)
  next
    case s: (Inr ss)
    have ns: "None \<notin> set ss"
    proof
      assume "None \<in> set ss"
      with ok n k nk s show False by (simp add: collapse_rows_def without_nulls_def)
    qed
    have rest: "res_bind (ar_casts ar kc keys) (\<lambda>_.
       res_bind (collect_res (\<lambda>c. res_bind (ub_column all c) (without_nulls ''upsert tie-breaker'')) tb) (\<lambda>ties.
       res_bind (ar_orders ar (sc # tb)) (\<lambda>_.
       Inr (keep_newest all (map (ar_text ar) (map the keys))
              (map (\<lambda>i. map (\<lambda>c. c ! i) (map the ss # ties)) [0..<length (ub_rows all)]))))) = Inr b"
      using ok n by (simp only: collapse_rows_def k s without_nulls_def nk ns if_False res_bind.simps)
    then obtain ties v where
      t: "collect_res (\<lambda>c. res_bind (ub_column all c) (without_nulls ''upsert tie-breaker'')) tb = Inr ties"
      and "ar_orders ar (sc # tb) = Inr v"
      and "Inr (keep_newest all (map (ar_text ar) (map the keys))
              (map (\<lambda>i. map (\<lambda>c. c ! i) (map the ss # ties)) [0..<length (ub_rows all)])) = (Inr b :: 'v upsert_batch res)"
      by (elim res_bind_InrE) (rule that, assumption+)
    then have "b = keep_newest all (map (ar_text ar) (map the keys))
            (map (\<lambda>i. map (\<lambda>c. c ! i) (map the ss # ties)) [0..<length (ub_rows all)])"
      by (simp only: sum.inject)
    with k nk s ns t show ?thesis by (intro exI conjI)
  qed
qed

text \<open>The rows a collapse keeps, and what it demands of all of them.\<close>

lemma collapse_newest:
  fixes ar :: "'v :: linorder arrow"
  assumes ok: "upsert_collapse ar batches kc sc tb = Inr b" and inj: "inj (ar_text ar)"
  shows "ub_rows b = newest_rows (key_of kc) (order_of (sc # tb)) (concat (map ub_rows batches))"
    and "\<forall>r \<in> set (concat (map ub_rows batches)). filled (kc # sc # tb) r"
    and "\<forall>x \<in> set batches. ub_columns x = ub_columns b"
proof -
  let ?rows = "concat (map ub_rows batches)"
  from ok obtain first rest where bs: "batches = first # rest" by (cases batches) (auto simp: upsert_collapse_def)
  define all where "all = \<lparr>ub_columns = ub_columns first, ub_rows = ?rows\<rparr>"
  have rows: "ub_rows all = ?rows" by (simp add: all_def)
  have ok: "collapse_rows ar all kc sc tb = Inr b" and same: "\<forall>x \<in> set batches. ub_columns x = ub_columns first"
    using ok bs by (auto simp: upsert_collapse_def concat_batches_def all_def list_all_iff split: if_splits)
  have "ub_rows b = newest_rows (key_of kc) (order_of (sc # tb)) ?rows
    \<and> (\<forall>r \<in> set ?rows. filled (kc # sc # tb) r) \<and> ub_columns b = ub_columns first"
  proof (cases "ub_rows all = []")
    case True
    with ok have "b = all" by (simp add: collapse_rows_def)
    with True rows show ?thesis by (simp add: all_def newest_rows_def del: concat_eq_Nil_conv)
  next
    case False
    have n0: "ub_rows all \<noteq> []" by (fact False)
    from collapse_rows_parts [OF ok n0, unfolded rows] obtain keys ss ties where keys: "ub_column all kc = Inr keys" "None \<notin> set keys"
      and ss: "ub_column all sc = Inr ss" "None \<notin> set ss"
      and ties: "collect_res (\<lambda>c. res_bind (ub_column all c) (without_nulls ''upsert tie-breaker'')) tb = Inr ties"
      and b: "b = keep_newest all (map (ar_text ar) (map the keys))
                (map (\<lambda>i. map (\<lambda>c. c ! i) (map the ss # ties)) [0..<length ?rows])"
      by (elim exE conjE) (rule that, assumption+)
    note k = column_values [OF keys, unfolded rows] and s = column_values [OF ss, unfolded rows]
    note t = ties_of [OF ties, unfolded rows]
    have b: "b = keep_newest all (map (\<lambda>r. ar_text ar (key_of kc r)) (ub_rows all)) (map (order_of (sc # tb)) (ub_rows all))"
      unfolding b order_columns [OF s(1) t(1)] k(1) rows by (simp add: comp_def key_of_def)
    have "inj_on (ar_text ar) (key_of kc ` set (ub_rows all))" using inj by (rule inj_on_subset) simp
    from keep_newest_rows [OF this, of "order_of (sc # tb)"] rows
    have "ub_rows b = newest_rows (key_of kc) (order_of (sc # tb)) ?rows" by (simp add: b)
    moreover have "ub_columns b = ub_columns first" by (simp add: b) (simp add: all_def)
    ultimately show ?thesis using k(2) s(2) t(2) by (auto simp: filled_def)
  qed
  with same show "ub_rows b = newest_rows (key_of kc) (order_of (sc # tb)) ?rows"
    and "\<forall>r \<in> set ?rows. filled (kc # sc # tb) r" and "\<forall>x \<in> set batches. ub_columns x = ub_columns b"
    by simp_all
qed

section \<open>Newer than the stored row\<close>

text \<open>
  The expressions as SQL evaluates them: a comparison with a null is not true. The code builds no negation,
  so being true is all there is to say.
\<close>

fun expr_value :: "'v expr \<Rightarrow> 'v cells \<Rightarrow> 'v cells \<Rightarrow> 'v option" where
  "expr_value (ECol Source c) s t = s c"
| "expr_value (ECol Target c) s t = t c"
| "expr_value (ELit v) s t = Some v"
| "expr_value _ s t = None"

definition compares :: "('v \<Rightarrow> 'v \<Rightarrow> bool) \<Rightarrow> 'v option \<Rightarrow> 'v option \<Rightarrow> bool" where
  "compares R a b \<longleftrightarrow> (case (a, b) of (Some x, Some y) \<Rightarrow> R x y | _ \<Rightarrow> False)"

fun expr_true :: "'v :: linorder expr \<Rightarrow> 'v cells \<Rightarrow> 'v cells \<Rightarrow> bool" where
  "expr_true (EEq a b) s t = compares (=) (expr_value a s t) (expr_value b s t)"
| "expr_true (EGt a b) s t = compares (>) (expr_value a s t) (expr_value b s t)"
| "expr_true (EGtEq a b) s t = compares (\<ge>) (expr_value a s t) (expr_value b s t)"
| "expr_true (EAnd a b) s t = (expr_true a s t \<and> expr_true b s t)"
| "expr_true (EOr a b) s t = (expr_true a s t \<or> expr_true b s t)"
| "expr_true _ s t = False"

lemma compares_Some [simp]: "compares R (Some x) (Some y) \<longleftrightarrow> R x y"
  by (simp add: compares_def)

lemma compares_filled: "a \<noteq> None \<Longrightarrow> b \<noteq> None \<Longrightarrow> compares R a b \<longleftrightarrow> R (the a) (the b)"
  by (cases a; cases b) (simp_all add: compares_def)

lemma foldl_or_true: "expr_true (foldl EOr e es) s t \<longleftrightarrow> expr_true e s t \<or> (\<exists>x \<in> set es. expr_true x s t)"
  by (induction es arbitrary: e) auto

lemma foldl_or_terms:
  "xs \<noteq> [] \<Longrightarrow> expr_true (foldl EOr (hd xs) (tl xs)) s t \<longleftrightarrow> (\<exists>x \<in> set xs. expr_true x s t)"
  by (cases xs) (simp_all add: foldl_or_true)

lemma foldl_or_upt:
  "0 < n \<Longrightarrow>
     expr_true (foldl EOr (hd (map f [0..<n])) (tl (map f [0..<n]))) s t \<longleftrightarrow> (\<exists>i < n. expr_true (f i) s t)"
  by (subst foldl_or_terms) auto

lemma newer_term_true:
  "expr_true (newer_term earlier c) s t \<longleftrightarrow>
     (\<forall>e \<in> set earlier. compares (=) (s e) (t e)) \<and> compares (>) (s c) (t c)"
proof -
  have "expr_true (foldl (\<lambda>acc e. EAnd (EEq (ECol Source e) (ECol Target e)) acc) a earlier) s t \<longleftrightarrow>
     (\<forall>e \<in> set earlier. compares (=) (s e) (t e)) \<and> expr_true a s t" for a
    by (induction earlier arbitrary: a) auto
  then show ?thesis by (simp add: newer_term_def)
qed

lemma less_list_iff:
  fixes xs ys :: "'v :: linorder list"
  shows "length xs = length ys \<Longrightarrow> xs < ys \<longleftrightarrow> (\<exists>i < length xs. take i xs = take i ys \<and> xs ! i < ys ! i)"
proof (induction xs ys rule: list_induct2)
  case (Cons x xs y ys)
  have "(\<exists>i < length (x # xs). take i (x # xs) = take i (y # ys) \<and> (x # xs) ! i < (y # ys) ! i)
      \<longleftrightarrow> x < y \<or> x = y \<and> (\<exists>i < length xs. take i xs = take i ys \<and> xs ! i < ys ! i)"
    unfolding length_Cons Ex_less_Suc2 by auto
  with Cons.IH show ?case by simp
qed simp

lemma newer_than_stored_true:
  assumes "filled (sc # tb) s" and "filled (sc # tb) t"
  shows "expr_true (newer_than_stored sc tb) s t \<longleftrightarrow> order_of (sc # tb) t < order_of (sc # tb) s"
proof -
  let ?cs = "sc # tb"
  have "expr_true (newer_than_stored sc tb) s t \<longleftrightarrow>
      (\<exists>i < length ?cs. expr_true (newer_term (take i ?cs) (?cs ! i)) s t)"
    unfolding newer_than_stored_def Let_def by (rule foldl_or_upt) simp
  also have "\<dots> \<longleftrightarrow> (\<exists>i < length ?cs. take i (order_of ?cs t) = take i (order_of ?cs s) \<and> order_of ?cs t ! i < order_of ?cs s ! i)"
  proof (rule ex_cong1, rule conj_cong [OF refl])
    fix i assume i: "i < length ?cs"
    have f: "c \<in> set ?cs \<Longrightarrow> s c \<noteq> None \<and> t c \<noteq> None" for c using assms by (auto simp: filled_def)
    have sub: "e \<in> set (take i ?cs) \<Longrightarrow> e \<in> set ?cs" for e by (rule in_set_takeD)
    have "(\<forall>e \<in> set (take i ?cs). compares (=) (s e) (t e)) \<longleftrightarrow> map (\<lambda>c. the (t c)) (take i ?cs) = map (\<lambda>c. the (s c)) (take i ?cs)"
      using f sub by (simp add: compares_filled) (metis (no_types, lifting))
    moreover have "compares (>) (s (?cs ! i)) (t (?cs ! i)) \<longleftrightarrow> the (t (?cs ! i)) < the (s (?cs ! i))"
      using f [OF nth_mem [OF i]] by (intro compares_filled) simp_all
    ultimately show "expr_true (newer_term (take i ?cs) (?cs ! i)) s t \<longleftrightarrow>
        take i (order_of ?cs t) = take i (order_of ?cs s) \<and> order_of ?cs t ! i < order_of ?cs s ! i"
      using i unfolding newer_term_true order_of_def take_map by (simp only: nth_map)
  qed
  also have "\<dots> \<longleftrightarrow> order_of ?cs t < order_of ?cs s"
    by (subst less_list_iff) (simp_all add: order_of_def)
  finally show ?thesis .
qed

section \<open>The window\<close>

lemma bound_lt_le: "bound_lt a b \<Longrightarrow> bound_le a b"
  by (simp add: bound_lt_def bound_le_def)

lemma bound_eq_le: "bound_eq a b \<Longrightarrow> bound_le a b \<and> bound_le b a"
  by (cases a; cases b) (auto simp: bound_eq_def bound_le_def f64_partial_cmp_def split: if_splits)

lemma set_insert_bound [simp]: "set (insert_bound x xs) = insert x (set xs)"
  by (induction xs) auto

lemma set_sort_bounds [simp]: "set (sort_bounds xs) = set xs"
  unfolding sort_bounds_def by (induction xs) auto

lemma sorted_insert_bound:
  assumes "sorted_wrt bound_le xs" and "\<forall>y \<in> set (x # xs). ordered_bound y"
  shows "sorted_wrt bound_le (insert_bound x xs)"
  using assms
proof (induction xs)
  case (Cons y ys)
  show ?case
  proof (cases "bound_lt y x")
    case True
    with Cons show ?thesis by (auto simp: bound_lt_le)
  next
    case False
    with Cons.prems have le: "bound_le x y" using bound_le_total by auto
    with Cons.prems False show ?thesis using bound_le_trans [OF le] by auto
  qed
qed simp

lemma sorted_sort_bounds:
  "\<forall>y \<in> set xs. ordered_bound y \<Longrightarrow> sorted_wrt bound_le (sort_bounds xs)"
  unfolding sort_bounds_def
  by (induction xs) (use sorted_insert_bound set_sort_bounds [unfolded sort_bounds_def] in auto)

lemma dedup_bounds_subset: "set (dedup_bounds xs) \<subseteq> set xs"
  by (induction xs rule: dedup_bounds.induct) auto

lemma dedup_bounds_covers:
  "\<forall>y \<in> set xs. ordered_bound y \<Longrightarrow> k \<in> set xs \<Longrightarrow> \<exists>k' \<in> set (dedup_bounds xs). bound_le k k' \<and> bound_le k' k"
proof (induction xs arbitrary: k rule: dedup_bounds.induct)
  case (1 x y ys)
  show ?case
  proof (cases "bound_eq x y")
    case True
    show ?thesis
    proof (cases "k = y")
      case k: True
      obtain k' where "k' \<in> set (dedup_bounds (x # ys))" "bound_le x k'" "bound_le k' x"
        using "1.IH"(1) [OF True, of x] "1.prems"(1) by auto
      with True k bound_eq_le [OF True] show ?thesis by (auto intro: bound_le_trans)
    next
      case False
      with "1.IH"(1) [OF True, of k] "1.prems" True show ?thesis by auto
    qed
  next
    case False
    show ?thesis
    proof (cases "k = x")
      case True
      with "1.prems"(1) have "bound_le k k" by (simp add: bound_le_refl)
      with True False show ?thesis by auto
    next
      case k: False
      with "1.IH"(2) [OF False, of k] "1.prems" False show ?thesis by auto
    qed
  qed
qed (auto simp: bound_le_refl)

lemma sorted_dedup_bounds: "sorted_wrt bound_le xs \<Longrightarrow> sorted_wrt bound_le (dedup_bounds xs)"
proof (induction xs rule: dedup_bounds.induct)
  case (1 x y ys)
  then show ?case using dedup_bounds_subset [of "y # ys"] by (cases "bound_eq x y") auto
qed auto

text \<open>
  What the log promises of a live file's statistics, after the slack: whatever is recorded bounds every row
  of the file from its side, a text maximum up to what its writer cut off.
\<close>

type_synonym 'v target_file = "string option \<times> 'v cells list"

definition stats_hold ::
    "window_env \<Rightarrow> batch_bounds \<Rightarrow> string \<Rightarrow> string \<Rightarrow> (string \<Rightarrow> 'v \<Rightarrow> bound) \<Rightarrow> 'v target_file \<Rightarrow> bool" where
  "stats_hold env bounds kc sc cb file \<longleftrightarrow>
     (\<forall>raw parsed. fst file = Some raw \<longrightarrow> we_json env raw = Some parsed \<longrightarrow>
        (\<forall>m. cs_min (key_stats env bounds kc parsed) = Some m \<longrightarrow>
              ordered_bound m \<and> (\<forall>t \<in> set (snd file). bound_le m (cb kc (key_of kc t))))
        \<and> (\<forall>m. cs_max (key_stats env bounds kc parsed) = Some m \<longrightarrow>
              list_all (same_kind m) (bb_keys bounds)
              \<and> (\<forall>t \<in> set (snd file). \<exists>largest. max_stands_for m largest \<and> bound_le (cb kc (key_of kc t)) largest))
        \<and> (\<forall>m. cs_min (sequence_stats env bounds sc parsed) = Some m \<longrightarrow>
              ordered_bound m \<and> (\<forall>t \<in> set (snd file). bound_le m (cb sc (key_of sc t)))))"

text \<open>The rows the MERGE has to see: a key of theirs is a key of the batch.\<close>

definition wanted_in :: "batch_bounds \<Rightarrow> bound \<Rightarrow> bool" where
  "wanted_in bounds k \<longleftrightarrow> (\<exists>k' \<in> set (bb_keys bounds). bound_le k k' \<and> bound_le k' k)"

definition keys_ok :: "batch_bounds \<Rightarrow> bool" where
  "keys_ok bounds \<longleftrightarrow> sorted_wrt bound_le (bb_keys bounds) \<and> list_all ordered_bound (bb_keys bounds)"

definition seen_below :: "batch_bounds \<Rightarrow> string \<Rightarrow> string \<Rightarrow> (string \<Rightarrow> 'v \<Rightarrow> bound) \<Rightarrow> bound option \<Rightarrow> 'v cells list \<Rightarrow> bool" where
  "seen_below bounds kc sc cb lower rows \<longleftrightarrow>
     (\<forall>t \<in> set rows. wanted_in bounds (cb kc (key_of kc t)) \<longrightarrow>
        (\<exists>l. lower = Some l \<and> bound_le l (cb sc (key_of sc t))))"

lemma file_not_touched:
  assumes "stats_hold env bounds kc sc cb (Some raw, rows)" and "we_json env raw = Some parsed"
    and "cs_min (key_stats env bounds kc parsed) = Some kmin" and "cs_max (key_stats env bounds kc parsed) = Some kmax"
    and "\<not> range_touches_any kmin kmax (bb_keys bounds)" and "keys_ok bounds"
  shows "\<forall>t \<in> set rows. \<not> wanted_in bounds (cb kc (key_of kc t))"
proof (intro ballI notI)
  fix t assume t: "t \<in> set rows" and "wanted_in bounds (cb kc (key_of kc t))"
  then obtain k' where k': "k' \<in> set (bb_keys bounds)" "bound_le (cb kc (key_of kc t)) k'" "bound_le k' (cb kc (key_of kc t))"
    by (auto simp: wanted_in_def)
  from assms(1-4) t have min: "ordered_bound kmin" "bound_le kmin (cb kc (key_of kc t))"
    and kind: "list_all (same_kind kmax) (bb_keys bounds)" by (auto simp: stats_hold_def)
  from assms(1-4) t obtain largest where max: "max_stands_for kmax largest" "bound_le (cb kc (key_of kc t)) largest"
    by (auto simp: stats_hold_def)
  have "range_touches_any kmin kmax (bb_keys bounds)"
    using assms(6) k'(1) bound_le_trans [OF min(2) k'(2)] bound_le_trans [OF k'(3) max(2)] max(1) min(1) kind
    by (intro wanted_key_touches [of _ k']) (auto simp: keys_ok_def list_all_iff)
  with assms(5) show False ..
qed

text \<open>One more candidate file: the lower of the running bound and its minimum is below the rows of both.\<close>

lemma lowered_bound:
  assumes "seen_below bounds kc sc cb lower before" and "\<forall>l. lower = Some l \<longrightarrow> ordered_bound l"
    and "ordered_bound smin" and "\<And>t. t \<in> set rows \<Longrightarrow> bound_le smin (cb sc (key_of sc t))"
  shows "seen_below bounds kc sc cb
           (if \<not> (case lower of Some cur \<Rightarrow> bound_le cur smin | None \<Rightarrow> False) then Some smin else lower) (before @ rows)"
proof (cases lower)
  case None
  with assms show ?thesis by (auto simp: seen_below_def)
next
  case (Some cur)
  have "bound_le smin cur" if "\<not> bound_le cur smin"
    using that bound_le_total [of cur smin] assms(2,3) Some bound_lt_le by auto
  with Some assms(1,4) show ?thesis by (auto simp: seen_below_def intro: bound_le_trans)
qed

lemma plan_files_candidate:
  assumes "we_json env raw = Some parsed"
    and "cs_min (key_stats env bounds kc parsed) = Some kmin" and "cs_max (key_stats env bounds kc parsed) = Some kmax"
    and "range_touches_any kmin kmax (bb_keys bounds)" and "cs_min (sequence_stats env bounds sc parsed) = Some smin"
    and "low = (case lower of Some cur \<Rightarrow> bound_le cur smin | None \<Rightarrow> False)"
    and "nxt = (if \<not> low then Some smin else lower)"
  shows "plan_files env kc sc bounds floor (Some raw # files) lower cand ex =
     (if \<not> low \<and> (case (floor, nxt) of (Some f, Some l) \<Rightarrow> bound_le l f | _ \<Rightarrow> False)
      then Inr (nxt, cand + 1, ex + 1)
      else plan_files env kc sc bounds floor files nxt (cand + 1) (ex + 1))"
  unfolding plan_files.simps(2) Let_def option.case assms(1-3,5) prod.case assms(6,7)
  by (simp add: assms(4))

lemma plan_files_sound:
  assumes "plan_files env kc sc bounds floor (map fst files) lower cand ex = Inr (lower', cand', ex')"
    and "\<forall>file \<in> set files. stats_hold env bounds kc sc cb file" and "keys_ok bounds"
    and "seen_below bounds kc sc cb lower before" and "\<forall>l. lower = Some l \<longrightarrow> ordered_bound l"
  shows "(\<forall>l. lower' = Some l \<longrightarrow> ordered_bound l)
    \<and> (seen_below bounds kc sc cb lower' (before @ concat (map snd files))
       \<or> (\<exists>f l. floor = Some f \<and> lower' = Some l \<and> bound_le l f))"
  using assms
proof (induction files arbitrary: lower cand ex before)
  case Nil
  then show ?case by (simp add: plan_files.simps)
next
  case (Cons fl files)
  obtain st rows where fl: "fl = (st, rows)" by fastforce
  from Cons.prems(1) obtain raw parsed kmin kmax where st: "st = Some raw" and parsed: "we_json env raw = Some parsed"
    and kmin: "cs_min (key_stats env bounds kc parsed) = Some kmin"
    and kmax: "cs_max (key_stats env bounds kc parsed) = Some kmax"
    by (auto simp: fl plan_files.simps(2) Let_def split: option.splits)
  note hold = Cons.prems(2) [rule_format, of fl, simplified fl st, simplified]
  show ?case
  proof (cases "range_touches_any kmin kmax (bb_keys bounds)")
    case False
    note none = file_not_touched [OF hold parsed kmin kmax False Cons.prems(3)]
    have rest: "plan_files env kc sc bounds floor (map fst files) lower cand (ex + 1) = Inr (lower', cand', ex')"
      using Cons.prems(1) False by (simp add: fl st parsed kmin kmax plan_files.simps(2) Let_def)
    have "seen_below bounds kc sc cb lower (before @ rows)"
      using Cons.prems(4) none by (auto simp: seen_below_def)
    from Cons.IH [OF rest _ Cons.prems(3) this Cons.prems(5)] Cons.prems(2) fl show ?thesis by simp
  next
    case True
    from Cons.prems(1) True obtain smin where smin: "cs_min (sequence_stats env bounds sc parsed) = Some smin"
      by (simp add: fl st parsed kmin kmax plan_files.simps(2) Let_def split: option.splits)
    define low where "low = (case lower of Some cur \<Rightarrow> bound_le cur smin | None \<Rightarrow> False)"
    define nxt where "nxt = (if \<not> low then Some smin else lower)"
    have step: "(if \<not> low \<and> (case (floor, nxt) of (Some f, Some l) \<Rightarrow> bound_le l f | _ \<Rightarrow> False)
        then Inr (nxt, cand + 1, ex + 1)
        else plan_files env kc sc bounds floor (map fst files) nxt (cand + 1) (ex + 1)) = Inr (lower', cand', ex')"
      using Cons.prems(1) plan_files_candidate [OF parsed kmin kmax True smin low_def nxt_def]
      by (simp only: fl st list.map fst_conv)
    have rows: "ordered_bound smin" "t \<in> set rows \<Longrightarrow> bound_le smin (cb sc (key_of sc t))" for t
      using hold parsed smin by (auto simp: stats_hold_def)
    have ord: "\<forall>l. nxt = Some l \<longrightarrow> ordered_bound l" using rows(1) Cons.prems(5) by (simp add: nxt_def)
    have seen: "seen_below bounds kc sc cb nxt (before @ rows)"
      using lowered_bound [OF Cons.prems(4,5) rows] by (simp add: nxt_def low_def)
    show ?thesis
    proof (cases "\<not> low \<and> (case (floor, nxt) of (Some f, Some l) \<Rightarrow> bound_le l f | _ \<Rightarrow> False)")
      case True
      with step ord show ?thesis by (auto split: option.splits)
    next
      case False
      with step have rest: "plan_files env kc sc bounds floor (map fst files) nxt (cand + 1) (ex + 1) = Inr (lower', cand', ex')"
        by (simp only: if_False)
      from Cons.IH [OF rest _ Cons.prems(3) seen ord] Cons.prems(2) fl show ?thesis by simp
    qed
  qed
qed

definition below_floor ::
    "window_env \<Rightarrow> lookback option \<Rightarrow> batch_bounds \<Rightarrow> bool \<Rightarrow> bound \<Rightarrow> bool" where
  "below_floor env lookback bounds temporal b \<longleftrightarrow>
     (\<exists>l f. lookback = Some l \<and> floor_below (we_fpu env) l (bb_sequence_min bounds) temporal = Some f \<and> bound_lt b f)"

text \<open>The floor, when there is one, is a number.\<close>

definition floor_is_number :: "window_env \<Rightarrow> lookback option \<Rightarrow> batch_bounds \<Rightarrow> bool \<Rightarrow> bool" where
  "floor_is_number env lookback bounds temporal \<longleftrightarrow>
     (\<forall>l f. lookback = Some l \<longrightarrow> floor_below (we_fpu env) l (bb_sequence_min bounds) temporal = Some f \<longrightarrow> ordered_bound f)"

lemma window_plan_sound:
  assumes number: "floor_is_number env lookback bounds temporal"
    and plan: "window_plan env (Inr (map fst files)) kc sc bounds lookback temporal = Inr w"
    and hold: "\<forall>file \<in> set files. stats_hold env bounds kc sc cb file" and keys: "keys_ok bounds"
    and ord: "\<And>v. ordered_bound (cb sc v)" and t: "t \<in> set (concat (map snd files))"
    and wanted: "wanted_in bounds (cb kc (key_of kc t))" and lo: "wi_lower w = Some lo"
  shows "bound_le lo (cb sc (key_of sc t)) \<or> below_floor env lookback bounds temporal (cb sc (key_of sc t))"
proof -
  let ?s = "cb sc (key_of sc t)"
  from plan obtain floor where floor: "(case lookback of None \<Rightarrow> Inr None
       | Some l \<Rightarrow> (case floor_below (we_fpu env) l (bb_sequence_min bounds) temporal of
            Some f \<Rightarrow> Inr (Some f)
          | None \<Rightarrow> Inl (E_Config ''upsert_lookback does not fit the sequence column''))) = (Inr floor :: bound option res)"
    by (auto simp: window_plan_def elim: res_bind_InrE)
  have below: "below_floor env lookback bounds temporal ?s" if "floor = Some f" "bound_lt ?s f" for f
    using floor that by (auto simp: below_floor_def split: option.splits)
  have fo: "ordered_bound f" if "floor = Some f" for f
    using floor that number by (auto simp: floor_is_number_def split: option.splits)
  obtain r where r: "plan_files env kc sc bounds floor (map fst files) None 0 0 = r" by simp
  show ?thesis
  proof (cases r)
    case (Inl u)
    have "wi_lower u = None" if "plan_files env kc sc bounds floor fs l c e = Inl u" for fs l c e
      using that
      by (induction fs arbitrary: l c e)
        (auto simp: plan_files.simps Let_def unbounded_def split: option.splits if_splits)
    with r Inl plan floor lo show ?thesis by (auto simp: window_plan_def)
  next
    case (Inr q)
    obtain lower cand ex where q: "q = (lower, cand, ex)" by (cases q)
    note res = r [unfolded Inr q]
    have w: "lo = (case floor of
        Some f \<Rightarrow> if bound_lt (case lower of Some l \<Rightarrow> l | None \<Rightarrow> bb_sequence_min bounds) f then f
                  else (case lower of Some l \<Rightarrow> l | None \<Rightarrow> bb_sequence_min bounds)
      | None \<Rightarrow> (case lower of Some l \<Rightarrow> l | None \<Rightarrow> bb_sequence_min bounds))"
      using plan floor lo by (auto simp: window_plan_def res Let_def split: option.splits if_splits)
    have "seen_below bounds kc sc cb None []" by (simp add: seen_below_def)
    from plan_files_sound [OF res hold keys this] have lord: "\<forall>l. lower = Some l \<longrightarrow> ordered_bound l"
      and dis: "seen_below bounds kc sc cb lower (concat (map snd files))
         \<or> (\<exists>f l. floor = Some f \<and> lower = Some l \<and> bound_le l f)" by simp_all
    from dis show ?thesis
    proof
      assume "seen_below bounds kc sc cb lower (concat (map snd files))"
      with t wanted obtain l where l: "lower = Some l" "bound_le l ?s" unfolding seen_below_def by blast
      show ?thesis
      proof (cases "\<exists>f. floor = Some f \<and> bound_lt l f")
        case True
        then obtain f where f: "floor = Some f" "bound_lt l f" by blast
        then have "lo = f" using w l by simp
        then show ?thesis using bound_le_total [OF fo [OF f(1)] ord, of "key_of sc t"] below [OF f(1)] by auto
      next
        case False
        then have "lo = l" using w l by (auto split: option.splits)
        with l show ?thesis by simp
      qed
    next
      assume "\<exists>f l. floor = Some f \<and> lower = Some l \<and> bound_le l f"
      then obtain f l where f: "floor = Some f" "lower = Some l" "bound_le l f" by blast
      note fo = fo [OF f(1)]
      have "lo = f \<or> lo = l" using w f(1,2) by (auto split: if_splits)
      then have lof: "bound_le lo f" using f(3) bound_le_refl [OF fo] by auto
      show ?thesis
      proof (cases "bound_lt ?s f")
        case True
        with below [OF f(1)] show ?thesis by simp
      next
        case False
        then have "bound_le f ?s" using bound_le_total [OF fo ord] by blast
        with lof show ?thesis using bound_le_trans by blast
      qed
    qed
  qed
qed

text \<open>What Arrow's casts promise: bounds of a column's values, and a literal at or below all the bound is below.\<close>

definition arrow_ok :: "'v :: linorder arrow \<Rightarrow> (string \<Rightarrow> 'v \<Rightarrow> bound) \<Rightarrow> string \<Rightarrow> bool" where
  "arrow_ok ar cb sc \<longleftrightarrow>
     inj (ar_text ar)
     \<and> (\<forall>c xs bs. ar_bounds ar c xs = Some bs \<longrightarrow> bs = map (cb c) (List.map_filter (\<lambda>x. x) xs))
     \<and> (\<forall>c v. ordered_bound (cb c v))
     \<and> (\<forall>lo v x. ar_literal ar lo sc = Some v \<longrightarrow> bound_le lo (cb sc x) \<longrightarrow> v \<le> x)"

lemma map_filter_filled: "\<forall>r \<in> set rows. r c \<noteq> None \<Longrightarrow>
   List.map_filter (\<lambda>x. x) (map (\<lambda>r. r c) rows) = map (key_of c) rows"
  by (induction rows) (auto simp: key_of_def List.map_filter_simps)

lemma batch_bounds_ok:
  assumes bb: "batch_bounds_of ar b kc sc = Some bounds" and ok: "arrow_ok ar cb sc"
    and filled: "\<forall>r \<in> set (ub_rows b). filled (kc # sc # tb) r"
  shows "keys_ok bounds" and "s \<in> set (ub_rows b) \<Longrightarrow> wanted_in bounds (cb kc (key_of kc s))"
proof -
  from bb obtain col bs where col: "ub_column b kc = Inr col" "ar_bounds ar kc col = Some bs"
    and keys: "bb_keys bounds = dedup_bounds (sort_bounds bs)"
    by (auto simp: batch_bounds_of_def split: if_splits sum.splits option.splits)
  have "col = map (\<lambda>r. r kc) (ub_rows b)" using col(1) by (simp add: ub_column_def split: if_splits)
  then have "List.map_filter (\<lambda>x. x) col = map (key_of kc) (ub_rows b)"
    using map_filter_filled [of "ub_rows b" kc] filled by (simp add: filled_def)
  moreover have "bs = map (cb kc) (List.map_filter (\<lambda>x. x) col)" using ok col(2) unfolding arrow_ok_def by blast
  ultimately have bs: "bs = map (\<lambda>r. cb kc (key_of kc r)) (ub_rows b)" by simp
  have ord: "\<forall>y \<in> set bs. ordered_bound y" using ok bs by (auto simp: arrow_ok_def)
  show "keys_ok bounds"
    unfolding keys_ok_def keys list_all_iff
    using sorted_dedup_bounds [OF sorted_sort_bounds [OF ord]] dedup_bounds_subset [of "sort_bounds bs"] ord by auto
  show "wanted_in bounds (cb kc (key_of kc s))" if "s \<in> set (ub_rows b)"
    unfolding wanted_in_def keys using dedup_bounds_covers [of "sort_bounds bs"] ord that by (simp add: bs)
qed

text \<open>What the log says of the target's files holds of their rows, each with a key and a sequence.\<close>

definition target_ok ::
    "'v arrow \<Rightarrow> window_env \<Rightarrow> (string \<Rightarrow> 'v \<Rightarrow> bound) \<Rightarrow> 'v upsert_batch \<Rightarrow> string \<Rightarrow> string \<Rightarrow> string list
       \<Rightarrow> lookback option \<Rightarrow> 'v target_file list \<Rightarrow> bool" where
  "target_ok ar env cb b kc sc tb lookback files \<longleftrightarrow>
     (\<forall>t \<in> set (concat (map snd files)). filled (kc # sc # tb) t)
     \<and> (\<forall>bounds. batch_bounds_of ar b kc sc = Some bounds \<longrightarrow>
          floor_is_number env lookback bounds (ar_temporal ar sc)
          \<and> (\<forall>file \<in> set files. stats_hold env bounds kc sc cb file))"

lemma predicate_sees:
  assumes plan: "merge_plan_resolve ar env (Inr (map fst files)) b kc sc lookback cols tb = Inr plan"
    and ok: "arrow_ok ar cb sc" and target: "target_ok ar env cb b kc sc tb lookback files"
    and filled: "\<forall>r \<in> set (ub_rows b). filled (kc # sc # tb) r"
    and s: "s \<in> set (ub_rows b)" and t: "t \<in> set (concat (map snd files))"
  shows "expr_true (up_predicate plan) s t \<Longrightarrow> key_of kc s = key_of kc t"
    and "key_of kc s = key_of kc t \<Longrightarrow> expr_true (up_predicate plan) s t
         \<or> (\<exists>bounds. batch_bounds_of ar b kc sc = Some bounds
              \<and> below_floor env lookback bounds (ar_temporal ar sc) (cb sc (key_of sc t)))"
proof -
  have fs: "s kc \<noteq> None" "t kc \<noteq> None" "t sc \<noteq> None"
    using filled s target t unfolding target_ok_def filled_def by simp_all blast+
  have eq: "compares (=) (t kc) (s kc) \<longleftrightarrow> key_of kc s = key_of kc t"
    using compares_filled [OF fs(2,1), of "(=)"] by (auto simp: key_of_def)
  let ?key = "EEq (ECol Target kc) (ECol Source kc)"
  from plan obtain w where w: "(case batch_bounds_of ar b kc sc of
        Some bounds \<Rightarrow> window_plan env (Inr (map fst files)) kc sc bounds lookback (ar_temporal ar sc)
      | None \<Rightarrow> Inr (unbounded ''the key or sequence column has an uncomparable type'' 0)) = Inr w"
    and p: "window_predicate ar w kc sc = Inr (up_predicate plan)"
    by (auto simp: merge_plan_resolve_def split: if_splits)
  show "expr_true (up_predicate plan) s t \<Longrightarrow> key_of kc s = key_of kc t"
  proof -
    have "up_predicate plan = ?key \<or> (\<exists>e. up_predicate plan = EAnd ?key e)"
      using p unfolding window_predicate_def Let_def by (cases "wi_lower w") (auto split: option.splits simp: eq_commute)
    then show "expr_true (up_predicate plan) s t \<Longrightarrow> key_of kc s = key_of kc t" using eq by auto
  qed
  assume key: "key_of kc s = key_of kc t"
  show "expr_true (up_predicate plan) s t
         \<or> (\<exists>bounds. batch_bounds_of ar b kc sc = Some bounds
              \<and> below_floor env lookback bounds (ar_temporal ar sc) (cb sc (key_of sc t)))"
  proof (cases "wi_lower w")
    case None
    with p have "up_predicate plan = ?key" by (simp add: window_predicate_def Let_def)
    with key eq show ?thesis by simp
  next
    case (Some lo)
    with w obtain bounds where bb: "batch_bounds_of ar b kc sc = Some bounds"
      and wp: "window_plan env (Inr (map fst files)) kc sc bounds lookback (ar_temporal ar sc) = Inr w"
      by (auto simp: unbounded_def split: option.splits)
    from p Some obtain v where v: "ar_literal ar lo sc = Some v"
      and pred: "up_predicate plan = EAnd ?key (EGtEq (ECol Target sc) (ELit v))"
      by (auto simp: window_predicate_def Let_def split: option.splits)
    have hold: "\<forall>file \<in> set files. stats_hold env bounds kc sc cb file"
      and number: "floor_is_number env lookback bounds (ar_temporal ar sc)" using target bb by (simp_all add: target_ok_def)
    have ord: "\<And>v. ordered_bound (cb sc v)" using ok by (simp add: arrow_ok_def)
    have wanted: "wanted_in bounds (cb kc (key_of kc t))" using batch_bounds_ok(2) [OF bb ok filled s] key by simp
    from window_plan_sound [OF number wp hold batch_bounds_ok(1) [OF bb ok filled] ord t wanted Some]
    show ?thesis
    proof
      assume "bound_le lo (cb sc (key_of sc t))"
      then have "v \<le> key_of sc t" using ok v by (auto simp: arrow_ok_def)
      then have "compares (\<ge>) (t sc) (Some v)" using fs(3) by (auto simp: key_of_def)
      with key eq show ?thesis by (simp add: pred)
    qed (use bb in blast)
  qed
qed

section \<open>Applying rows one by one\<close>

text \<open>A keyed table, and what one row does to it: insert, or overwrite the produced columns of an older row.\<close>

definition overwrite :: "string list \<Rightarrow> 'v cells \<Rightarrow> 'v cells \<Rightarrow> 'v cells" where
  "overwrite cols s t = (\<lambda>c. if c \<in> set cols then s c else t c)"

definition apply_row ::
    "string list \<Rightarrow> string list \<Rightarrow> 'v :: linorder cells \<Rightarrow> 'v cells option \<Rightarrow> 'v cells option" where
  "apply_row cols ocs s old =
     (case old of
        None \<Rightarrow> Some s
      | Some t \<Rightarrow> if order_of ocs t < order_of ocs s then Some (overwrite cols s t) else Some t)"

definition upsert_row ::
    "string \<Rightarrow> string list \<Rightarrow> string list \<Rightarrow> 'v :: linorder cells \<Rightarrow> ('v \<rightharpoonup> 'v cells) \<Rightarrow> ('v \<rightharpoonup> 'v cells)" where
  "upsert_row kc cols ocs s table = table(key_of kc s := apply_row cols ocs s (table (key_of kc s)))"

lemma fold_upsert_row:
  "fold (upsert_row kc cols ocs) rows table k =
     fold (apply_row cols ocs) (filter (\<lambda>r. key_of kc r = k) rows) (table k)"
  by (induction rows arbitrary: table) (auto simp: upsert_row_def)

text \<open>
  What the rows of a batch have in common: the transform produced the columns that order them, the others
  are null, and two rows of one key that no column orders are one row.
\<close>

definition decided :: "string \<Rightarrow> string list \<Rightarrow> string list \<Rightarrow> 'v :: linorder cells list \<Rightarrow> bool" where
  "decided kc cols ocs rows \<longleftrightarrow>
     set (kc # ocs) \<subseteq> set cols
     \<and> (\<forall>r \<in> set rows. \<forall>c. c \<notin> set cols \<longrightarrow> r c = None)
     \<and> (\<forall>r \<in> set rows. \<forall>r' \<in> set rows. key_of kc r = key_of kc r' \<longrightarrow> order_of ocs r = order_of ocs r' \<longrightarrow> r = r')"

lemma order_of_overwrite: "set ocs \<subseteq> set cols \<Longrightarrow> order_of ocs (overwrite cols s t) = order_of ocs s"
  by (auto simp: order_of_def overwrite_def)

lemma overwrite_overwrite [simp]: "overwrite cols s (overwrite cols r t) = overwrite cols s t"
  by (auto simp: overwrite_def)

lemma overwrite_nulls:
  "\<forall>c. c \<notin> set cols \<longrightarrow> s c = None \<Longrightarrow> \<forall>c. c \<notin> set cols \<longrightarrow> t c = None \<Longrightarrow> overwrite cols s t = s"
  by (auto simp: overwrite_def)

lemma fold_apply_Some:
  assumes "set ocs \<subseteq> set cols" and "s \<in> set rows" and "\<forall>r \<in> set rows. order_of ocs r \<le> order_of ocs s"
    and "\<forall>r \<in> set rows. \<forall>r' \<in> set rows. order_of ocs r = order_of ocs r' \<longrightarrow> r = r'"
  shows "fold (apply_row cols ocs) rows (Some t) =
     Some (if order_of ocs t < order_of ocs s then overwrite cols s t else t)"
  using assms(2-4)
proof (induction rows arbitrary: s rule: rev_induct)
  case (snoc r rows)
  show ?case
  proof (cases "rows = []")
    case True
    with snoc.prems show ?thesis by (simp add: apply_row_def)
  next
    case False
    let ?m = "Max (order_of ocs ` set rows)"
    have "?m \<in> order_of ocs ` set rows" using False by (intro Max_in) auto
    then obtain s0 where s0: "s0 \<in> set rows" "order_of ocs s0 = ?m" by auto
    have max: "\<forall>x \<in> set rows. order_of ocs x \<le> order_of ocs s0" using s0(2) by simp
    have ties: "\<forall>x \<in> set rows. \<forall>x' \<in> set rows. order_of ocs x = order_of ocs x' \<longrightarrow> x = x'"
      using snoc.prems(3) by simp
    note IH = snoc.IH [OF s0(1) max ties]
    have le: "order_of ocs r \<le> order_of ocs s" "order_of ocs s0 \<le> order_of ocs s" using snoc.prems(2) s0(1) by simp_all
    have tie: "order_of ocs s0 = order_of ocs r \<Longrightarrow> s0 = r" using snoc.prems(3) s0(1) by simp
    have s: "s = r \<or> s = s0"
    proof (cases "s = r")
      case False
      with snoc.prems(1) have "s \<in> set rows" by simp
      with max le(2) have "order_of ocs s = order_of ocs s0" by (simp add: order.antisym)
      with \<open>s \<in> set rows\<close> s0(1) ties show ?thesis by blast
    qed simp
    from s show ?thesis
    proof
      assume "s = r"
      with IH le(2) tie assms(1) show ?thesis
        by (auto simp: apply_row_def order_of_overwrite le_less dest: order.strict_trans)
    next
      assume "s = s0"
      with IH le(1) assms(1) show ?thesis
        by (auto simp: apply_row_def order_of_overwrite)
    qed
  qed
qed simp

lemma fold_apply_None:
  assumes "set ocs \<subseteq> set cols" and "s \<in> set rows" and "\<forall>r \<in> set rows. order_of ocs r \<le> order_of ocs s"
    and ties: "\<forall>r \<in> set rows. \<forall>r' \<in> set rows. order_of ocs r = order_of ocs r' \<longrightarrow> r = r'"
    and "\<forall>r \<in> set rows. \<forall>c. c \<notin> set cols \<longrightarrow> r c = None"
  shows "fold (apply_row cols ocs) rows None = Some s"
proof (cases rows)
  case Nil
  with assms(2) show ?thesis by simp
next
  case (Cons r rest)
  have first: "fold (apply_row cols ocs) rows None = fold (apply_row cols ocs) rest (Some r)"
    by (simp add: Cons apply_row_def)
  have nulls: "overwrite cols s r = s" using assms(2,5) Cons by (intro overwrite_nulls) auto
  show ?thesis
  proof (cases "s \<in> set rest")
    case True
    have "fold (apply_row cols ocs) rest (Some r) = Some (if order_of ocs r < order_of ocs s then overwrite cols s r else r)"
      using assms(1,3) ties Cons True by (intro fold_apply_Some) auto
    moreover have "r = s" if "\<not> order_of ocs r < order_of ocs s"
    proof -
      have "order_of ocs r = order_of ocs s" using that assms(3) Cons by (simp add: order.antisym)
      then show ?thesis using ties Cons assms(2) by auto
    qed
    ultimately show ?thesis using first nulls by auto
  next
    case False
    with assms(2) Cons have s: "s = r" by simp
    show ?thesis
    proof (cases "rest = []")
      case True
      with first s show ?thesis by simp
    next
      case ne: False
      let ?m = "Max (order_of ocs ` set rest)"
      have "?m \<in> order_of ocs ` set rest" using ne by (intro Max_in) auto
      then obtain s0 where s0: "s0 \<in> set rest" "order_of ocs s0 = ?m" by auto
      have "fold (apply_row cols ocs) rest (Some r) = Some (if order_of ocs r < order_of ocs s0 then overwrite cols s0 r else r)"
        using assms(1) ties Cons s0 by (intro fold_apply_Some) auto
      moreover have "\<not> order_of ocs r < order_of ocs s0" using assms(3) Cons s s0(1) by (auto simp: not_less)
      ultimately show ?thesis using first s by simp
    qed
  qed
qed

section \<open>The MERGE\<close>

text \<open>
  What delta-rs documents of a MERGE with one matched update and one insert: a stored row that a source row
  matches is updated when the update's condition holds, every other stored row stays, and a source row that
  matches nothing is inserted.
\<close>

definition merged_row :: "'v :: linorder upsert_plan \<Rightarrow> 'v cells list \<Rightarrow> 'v cells \<Rightarrow> 'v cells" where
  "merged_row plan source t =
     (case filter (\<lambda>s. expr_true (up_predicate plan) s t) source of
        s # _ \<Rightarrow> if expr_true (up_newer plan) s t then overwrite (up_update_columns plan) s t else t
      | [] \<Rightarrow> t)"

definition merged_rows :: "'v :: linorder upsert_plan \<Rightarrow> 'v cells list \<Rightarrow> 'v cells list \<Rightarrow> 'v cells list" where
  "merged_rows plan source target =
     map (merged_row plan source) target
     @ map (\<lambda>s c. if c \<in> set (up_insert_columns plan) then s c else None)
         (filter (\<lambda>s. \<not> list_ex (\<lambda>t. expr_true (up_predicate plan) s t) target) source)"

definition table_of :: "string \<Rightarrow> 'v cells list \<Rightarrow> ('v \<rightharpoonup> 'v cells)" where
  "table_of kc rows = map_of (map (\<lambda>r. (key_of kc r, r)) rows)"

lemma table_of_Some:
  "distinct (map (key_of kc) rows) \<Longrightarrow> table_of kc rows k = Some r \<longleftrightarrow> r \<in> set rows \<and> key_of kc r = k"
  unfolding table_of_def by (subst map_of_eq_Some_iff) (auto simp: comp_def)

lemma table_of_None: "table_of kc rows k = None \<longleftrightarrow> (\<forall>r \<in> set rows. key_of kc r \<noteq> k)"
  by (auto simp: table_of_def map_of_eq_None_iff image_image)

lemma plan_parts:
  assumes "merge_plan_resolve ar env target b kc sc lookback cols tb = Inr plan"
  shows "up_update_columns plan = cols" and "up_newer plan = newer_than_stored sc tb"
    and "up_insert_columns plan = ub_columns b"
  using assms by (auto simp: merge_plan_resolve_def split: if_splits)

text \<open>A MERGE that sees every match, of source rows of distinct keys into stored rows of distinct keys.\<close>

definition keyed_merge ::
    "'v :: linorder upsert_plan \<Rightarrow> string \<Rightarrow> string list \<Rightarrow> 'v cells list \<Rightarrow> 'v cells list \<Rightarrow> bool" where
  "keyed_merge plan kc ocs source target \<longleftrightarrow>
     (\<forall>s \<in> set source. \<forall>t \<in> set target. expr_true (up_predicate plan) s t \<longleftrightarrow> key_of kc s = key_of kc t)
     \<and> (\<forall>s \<in> set source. \<forall>t \<in> set target. expr_true (up_newer plan) s t \<longleftrightarrow> order_of ocs t < order_of ocs s)
     \<and> distinct (map (key_of kc) source) \<and> distinct (map (key_of kc) target)
     \<and> kc \<in> set (up_update_columns plan)
     \<and> (\<forall>s \<in> set source. \<forall>c. c \<notin> set (up_insert_columns plan) \<longrightarrow> s c = None)"

lemma keyed_mergeD:
  assumes "keyed_merge plan kc ocs source target"
  shows "s \<in> set source \<Longrightarrow> t \<in> set target \<Longrightarrow> expr_true (up_predicate plan) s t \<longleftrightarrow> key_of kc s = key_of kc t"
    and "s \<in> set source \<Longrightarrow> t \<in> set target \<Longrightarrow> expr_true (up_newer plan) s t \<longleftrightarrow> order_of ocs t < order_of ocs s"
    and "distinct (map (key_of kc) source)" and "distinct (map (key_of kc) target)"
    and "kc \<in> set (up_update_columns plan)"
    and "s \<in> set source \<Longrightarrow> c \<notin> set (up_insert_columns plan) \<Longrightarrow> s c = None"
  using assms unfolding keyed_merge_def by blast+

lemma same_key_same_row: "distinct (map (key_of kc) rows) \<Longrightarrow> x \<in> set rows \<Longrightarrow> y \<in> set rows \<Longrightarrow> key_of kc x = key_of kc y \<Longrightarrow> x = y"
  by (auto simp: distinct_map dest: inj_onD)

lemma merged_row_at:
  assumes k: "keyed_merge plan kc ocs source target" and t: "t \<in> set target"
  shows "Some (merged_row plan source t) =
     (case table_of kc source (key_of kc t) of
        None \<Rightarrow> Some t
      | Some s \<Rightarrow> apply_row (up_update_columns plan) ocs s (Some t))"
proof (cases "table_of kc source (key_of kc t)")
  case None
  then have "filter (\<lambda>s. expr_true (up_predicate plan) s t) source = []"
    using t keyed_mergeD(1) [OF k] by (auto simp: table_of_None filter_empty_conv)
  with None show ?thesis by (simp add: merged_row_def)
next
  case (Some s)
  then have s: "s \<in> set source" "key_of kc s = key_of kc t"
    using keyed_mergeD(3) [OF k] by (simp_all add: table_of_Some)
  let ?m = "filter (\<lambda>s. expr_true (up_predicate plan) s t) source"
  have "s \<in> set ?m" using s t keyed_mergeD(1) [OF k] by simp
  moreover have "x = s" if "x \<in> set ?m" for x
    using that s t keyed_mergeD(1) [OF k, of x t] by (intro same_key_same_row [OF keyed_mergeD(3) [OF k]]) auto
  ultimately obtain rest where "?m = s # rest" by (cases ?m) auto
  with Some keyed_mergeD(2) [OF k s(1) t] show ?thesis by (simp add: merged_row_def apply_row_def)
qed

lemma key_of_merged_row:
  assumes k: "keyed_merge plan kc ocs source target" and t: "t \<in> set target"
  shows "key_of kc (merged_row plan source t) = key_of kc t"
proof (cases "table_of kc source (key_of kc t)")
  case None
  with merged_row_at [OF k t] show ?thesis by simp
next
  case (Some s)
  then have "key_of kc s = key_of kc t" using keyed_mergeD(3) [OF k] by (simp add: table_of_Some)
  then have "key_of kc (overwrite (up_update_columns plan) s t) = key_of kc t"
    using keyed_mergeD(5) [OF k] by (simp add: key_of_def overwrite_def)
  with merged_row_at [OF k t] Some show ?thesis by (auto simp: apply_row_def split: if_splits)
qed

definition inserted_rows :: "'v :: linorder upsert_plan \<Rightarrow> 'v cells list \<Rightarrow> 'v cells list \<Rightarrow> 'v cells list" where
  "inserted_rows plan source target =
     filter (\<lambda>s. \<not> list_ex (\<lambda>t. expr_true (up_predicate plan) s t) target) source"

lemma merged_rows_eq:
  assumes "keyed_merge plan kc ocs source target"
  shows "merged_rows plan source target = map (merged_row plan source) target @ inserted_rows plan source target"
proof -
  have "(\<lambda>c. if c \<in> set (up_insert_columns plan) then s c else None) = s" if "s \<in> set source" for s
    using keyed_mergeD(6) [OF assms that] by auto
  then show ?thesis by (auto simp: merged_rows_def inserted_rows_def intro!: map_idI)
qed

lemma set_inserted:
  assumes "keyed_merge plan kc ocs source target"
  shows "s \<in> set (inserted_rows plan source target) \<longleftrightarrow> s \<in> set source \<and> (\<forall>t \<in> set target. key_of kc s \<noteq> key_of kc t)"
  using keyed_mergeD(1) [OF assms] by (auto simp: inserted_rows_def list_ex_iff)

lemma merged_keys:
  assumes k: "keyed_merge plan kc ocs source target"
  shows "distinct (map (key_of kc) (merged_rows plan source target))"
proof -
  have "map (key_of kc) (map (merged_row plan source) target) = map (key_of kc) target"
    using key_of_merged_row [OF k] by simp
  then have all: "map (key_of kc) (merged_rows plan source target)
      = map (key_of kc) target @ map (key_of kc) (inserted_rows plan source target)"
    by (simp add: merged_rows_eq [OF k])
  have "distinct (map (key_of kc) (inserted_rows plan source target))"
    unfolding inserted_rows_def using keyed_mergeD(3) [OF k] by (rule distinct_map_filter)
  moreover have "key_of kc ` set target \<inter> key_of kc ` set (inserted_rows plan source target) = {}"
  proof (intro equalityI subsetI)
    fix x assume "x \<in> key_of kc ` set target \<inter> key_of kc ` set (inserted_rows plan source target)"
    then obtain t s where "t \<in> set target" "s \<in> set (inserted_rows plan source target)" "key_of kc s = key_of kc t" by auto
    then show "x \<in> {}" using set_inserted [OF k, of s] by auto
  qed simp
  ultimately show ?thesis unfolding all distinct_append using keyed_mergeD(4) [OF k] by simp
qed

lemma merged_table:
  assumes k: "keyed_merge plan kc ocs source target"
  shows "table_of kc (merged_rows plan source target) x =
     (case table_of kc source x of
        None \<Rightarrow> table_of kc target x
      | Some s \<Rightarrow> apply_row (up_update_columns plan) ocs s (table_of kc target x))"
proof (cases "table_of kc target x")
  case (Some t)
  then have t: "t \<in> set target" "key_of kc t = x" using keyed_mergeD(4) [OF k] by (simp_all add: table_of_Some)
  have "merged_row plan source t \<in> set (merged_rows plan source target)" using t(1) by (simp add: merged_rows_eq [OF k])
  then have "table_of kc (merged_rows plan source target) x = Some (merged_row plan source t)"
    using merged_keys [OF k] t(2) key_of_merged_row [OF k t(1)] by (simp add: table_of_Some)
  with merged_row_at [OF k t(1)] t(2) Some show ?thesis by (simp split: option.splits)
next
  case none: None
  show ?thesis
  proof (cases "table_of kc source x")
    case None
    have "key_of kc r \<noteq> x" if "r \<in> set (merged_rows plan source target)" for r
      using that none None key_of_merged_row [OF k] set_inserted [OF k, of r]
      by (auto simp: merged_rows_eq [OF k] table_of_None)
    then have "table_of kc (merged_rows plan source target) x = None" by (simp add: table_of_None)
    with none None show ?thesis by simp
  next
    case (Some s)
    then have s: "s \<in> set source" "key_of kc s = x" using keyed_mergeD(3) [OF k] by (simp_all add: table_of_Some)
    then have "s \<in> set (inserted_rows plan source target)" using none set_inserted [OF k, of s] by (auto simp: table_of_None)
    then have "s \<in> set (merged_rows plan source target)" by (simp add: merged_rows_eq [OF k])
    then have "table_of kc (merged_rows plan source target) x = Some s"
      using merged_keys [OF k] s(2) by (simp add: table_of_Some)
    with none Some show ?thesis by (simp add: apply_row_def)
  qed
qed

section \<open>The properties\<close>

lemma collapsed:
  fixes ar :: "'v :: linorder arrow"
  assumes "upsert_collapse ar batches kc sc tb = Inr b" and "inj (ar_text ar)"
  shows "distinct (map (key_of kc) (ub_rows b))"
    and "set (ub_rows b) \<subseteq> set (concat (map ub_rows batches))"
    and "\<forall>r \<in> set (concat (map ub_rows batches)). filled (kc # sc # tb) r"
    and "r \<in> set (concat (map ub_rows batches)) \<Longrightarrow>
           \<exists>r' \<in> set (ub_rows b). key_of kc r' = key_of kc r \<and> order_of (sc # tb) r \<le> order_of (sc # tb) r'"
proof -
  let ?rows = "concat (map ub_rows batches)"
  note c = collapse_newest [OF assms]
  note p = newest_rows_props [where key = "key_of kc" and ord = "order_of (sc # tb)" and rows = ?rows, folded c(1)]
  show "distinct (map (key_of kc) (ub_rows b))" by (rule p(1))
  show "set (ub_rows b) \<subseteq> set ?rows" by (rule p(2))
  show "\<forall>r \<in> set ?rows. filled (kc # sc # tb) r" by (rule c(2))
  show "\<exists>r' \<in> set (ub_rows b). key_of kc r' = key_of kc r \<and> order_of (sc # tb) r \<le> order_of (sc # tb) r'"
    if "r \<in> set ?rows"
    using p(3) [OF that] p(4) [OF _ that] by metis
qed

text \<open>
  A batch that collapses keeps, in the batch's order, exactly one row of each of its keys, and that row
  is not older than any other row of its key, compared over the sequence and then each tie-breaker. It
  collapses only when no row lacks its key, its sequence or a tie-breaker.
\<close>

lemma collapse_keeps_the_newest:
  fixes ar :: "'v :: linorder arrow"
  assumes "upsert_collapse ar batches kc sc tb = Inr b" and "inj (ar_text ar)"
  shows "(\<exists>is. sorted_wrt (<) is \<and> ub_rows b = map (nth (concat (map ub_rows batches))) is)
    \<and> distinct (map (key_of kc) (ub_rows b))
    \<and> (\<forall>r \<in> set (concat (map ub_rows batches)). filled (kc # sc # tb) r
         \<and> (\<exists>r' \<in> set (ub_rows b). key_of kc r' = key_of kc r \<and> order_of (sc # tb) r \<le> order_of (sc # tb) r'))"
proof -
  have "\<exists>is. sorted_wrt (<) is \<and> newest_rows key ord rows = map (nth rows) is" for key :: "'v cells \<Rightarrow> 'v" and ord :: "'v cells \<Rightarrow> 'v list" and rows
    by (rule exI [of _ "filter (wins (map key rows) (map ord rows) (length rows)) [0..<length rows]"])
      (simp add: newest_rows_def sorted_wrt_filter)
  with collapse_newest(1) [OF assms] collapsed [OF assms] show ?thesis by metis
qed

definition example_arrow :: "int arrow" where
  "example_arrow =
     \<lparr>ar_text = show_int, ar_casts = (\<lambda>_ _. Inr ()), ar_orders = (\<lambda>_. Inr ()),
      ar_bounds = (\<lambda>_ xs. Some (map BInt (List.map_filter (\<lambda>x. x) xs))), ar_slack = (\<lambda>_. None),
      ar_temporal = (\<lambda>_. False), ar_literal = (\<lambda>lo _. case lo of BInt i \<Rightarrow> Some i | _ \<Rightarrow> None)\<rparr>"

definition example_row :: "int \<Rightarrow> int \<Rightarrow> int \<Rightarrow> int cells" where
  "example_row k s v = [''k'' \<mapsto> k, ''s'' \<mapsto> s, ''v'' \<mapsto> v]"

definition example_batch :: "int upsert_batch" where
  "example_batch = \<lparr>ub_columns = [''k'', ''s'', ''v''], ub_rows = [example_row 1 20 100, example_row 2 21 200, example_row 1 22 101]\<rparr>"

definition example_collapsed :: "int upsert_batch" where
  "example_collapsed = \<lparr>ub_columns = [''k'', ''s'', ''v''], ub_rows = [example_row 2 21 200, example_row 1 22 101]\<rparr>"

lemma example_text: "inj (ar_text example_arrow)"
  by (simp add: example_arrow_def inj_def)

lemma example_collapse: "upsert_collapse example_arrow [example_batch] ''k'' ''s'' [] = Inr example_collapsed"
proof -
  have d: "show_int 1 = ''1''" "show_int 2 = ''2''" by code_simp+
  show ?thesis
    by (simp add: upsert_collapse_def concat_batches_def collapse_rows_def example_batch_def example_collapsed_def
        ub_column_def without_nulls_def example_row_def example_arrow_def keep_newest_def newest_row_def d upt_rec)
qed

lemma collapse_keeps_the_newest_witness:
  "upsert_collapse example_arrow [example_batch] ''k'' ''s'' [] = Inr example_collapsed
   \<and> distinct (map (key_of ''k'') (ub_rows example_collapsed))"
  using collapse_keeps_the_newest [OF example_collapse example_text] example_collapse by blast

text \<open>
  C8. The MERGE's window hides no match. Whatever the batch, the statistics and the lookback are, a
  stored row and a batch row match only if they have one key, and if they have one key they match unless
  the stored row lies below the floor the lookback sets; without a lookback, always.
\<close>

theorem window_hides_no_match:
  fixes ar :: "'v :: linorder arrow"
  assumes collapse: "upsert_collapse ar batches kc sc tb = Inr b"
    and plan: "merge_plan_resolve ar env (Inr (map fst files)) b kc sc lookback cols tb = Inr plan"
    and ok: "arrow_ok ar cb sc" and target: "target_ok ar env cb b kc sc tb lookback files"
    and s: "s \<in> set (ub_rows b)" and t: "t \<in> set (concat (map snd files))"
  shows "(expr_true (up_predicate plan) s t \<longrightarrow> key_of kc s = key_of kc t)
    \<and> (key_of kc s = key_of kc t \<longrightarrow>
         expr_true (up_predicate plan) s t
         \<or> (\<exists>bounds. batch_bounds_of ar b kc sc = Some bounds
              \<and> below_floor env lookback bounds (ar_temporal ar sc) (cb sc (key_of sc t))))
    \<and> (lookback = None \<longrightarrow> (expr_true (up_predicate plan) s t \<longleftrightarrow> key_of kc s = key_of kc t))"
proof -
  have inj: "inj (ar_text ar)" using ok by (simp add: arrow_ok_def)
  have filled: "\<forall>r \<in> set (ub_rows b). filled (kc # sc # tb) r" using collapsed(2,3) [OF collapse inj] by blast
  note p = predicate_sees [OF plan ok target filled s t]
  have "\<not> below_floor env None bounds temporal x" for bounds temporal x by (simp add: below_floor_def)
  with p show ?thesis by blast
qed

definition example_fpu :: float_ops where
  "example_fpu = \<lparr>f64_add = (\<lambda>x _. x), f64_sub = (\<lambda>x _. x), f64_of_int = (\<lambda>_. 0),
                  f64_parse = (\<lambda>_. None), f64_mul = (\<lambda>x _. x), f64_as_i64 = (\<lambda>_. 11)\<rparr>"

definition file_stats :: "int \<Rightarrow> int \<Rightarrow> int \<Rightarrow> json" where
  "file_stats kmin kmax smin =
     JObj [(''minValues'', JObj [(''k'', JInt kmin), (''s'', JInt smin)]), (''maxValues'', JObj [(''k'', JInt kmax)])]"

definition example_window_env :: window_env where
  "example_window_env = \<lparr>we_fpu = example_fpu,
     we_json = (\<lambda>raw. if raw = ''new'' then Some (file_stats 1 9 10) else Some (file_stats 1 9 5)), we_timestamp = (\<lambda>_. None)\<rparr>"

definition example_files :: "int target_file list" where
  "example_files = [(Some ''new'', [example_row 5 10 1]), (Some ''old'', [example_row 1 5 7])]"

definition example_upsert_plan :: "bool \<Rightarrow> int upsert_plan" where
  "example_upsert_plan clipped =
     \<lparr>up_predicate = EAnd (EEq (ECol Target ''k'') (ECol Source ''k''))
                          (EGtEq (ECol Target ''s'') (ELit (if clipped then 10 else 5))),
      up_newer = EGt (ECol Source ''s'') (ECol Target ''s''),
      up_update_columns = [''k'', ''s'', ''v''], up_insert_columns = [''k'', ''s'', ''v''],
      up_window = \<lparr>wi_lower = Some (BInt (if clipped then 10 else 5)), wi_clamped = False,
        wi_candidate_files = (if clipped then 1 else 2), wi_examined_files = (if clipped then 1 else 2),
        wi_unbounded_because = None\<rparr>\<rparr>"

lemmas window_eval =
  merge_plan_resolve_def batch_bounds_of_def window_plan_def window_predicate_def newer_than_stored_def newer_term_def
  plan_files.simps key_stats_def sequence_stats_def loosened_def column_stats_of_def bound_of_stat_def file_stats_def
  example_window_env_def example_arrow_def example_fpu_def fpu.defs sort_bounds_def bound_eq_def least_bound_def ub_column_def
  range_touches_any_def partition_point_def provably_below_def List.map_filter_simps i64_def

lemma example_plan:
  "merge_plan_resolve example_arrow example_window_env (Inr (map fst example_files)) example_collapsed ''k'' ''s''
     (if clipped then Some (Lookback_Offset 0) else None) [''k'', ''s'', ''v''] [] = Inr (example_upsert_plan clipped)"
  by (cases clipped)
    (simp_all add: window_eval example_files_def example_collapsed_def example_row_def example_upsert_plan_def upt_rec
      saturating_sub_i64_def)

lemma example_arrow_ok: "arrow_ok example_arrow (\<lambda>_. BInt) ''s''"
  by (auto simp: arrow_ok_def example_arrow_def inj_def ordered_bound_def split: bound.splits)

lemma example_target_ok:
  "target_ok example_arrow example_window_env (\<lambda>_. BInt) example_collapsed ''k'' ''s'' []
     (if clipped then Some (Lookback_Offset 0) else None) example_files"
  unfolding target_ok_def
proof (intro conjI allI impI)
  show "\<forall>t \<in> set (concat (map snd example_files)). filled [''k'', ''s''] t"
    by (simp add: example_files_def filled_def example_row_def)
  fix bounds
  assume "batch_bounds_of example_arrow example_collapsed ''k'' ''s'' = Some bounds"
  then have b: "bounds = \<lparr>bb_keys = [BInt 1, BInt 2], bb_sequence_min = BInt 21, bb_key_slack = None, bb_sequence_slack = None\<rparr>"
    by (simp add: window_eval example_collapsed_def example_row_def)
  show "floor_is_number example_window_env (if clipped then Some (Lookback_Offset 0) else None) bounds (ar_temporal example_arrow ''s'')"
    by (auto simp: floor_is_number_def b example_arrow_def example_window_env_def ordered_bound_def split: if_splits)
  show "\<forall>file \<in> set example_files. stats_hold example_window_env bounds ''k'' ''s'' (\<lambda>_. BInt) file"
    by (auto simp: stats_hold_def example_files_def window_eval b ordered_bound_def same_kind_def example_row_def key_of_def
        max_stands_for_def intro!: exI [of _ "BInt 9"])
qed

theorem window_hides_no_match_witness:
  "expr_true (up_predicate (example_upsert_plan False)) (example_row 1 22 101) (example_row 1 5 7)"
proof -
  have s: "example_row 1 22 101 \<in> set (ub_rows example_collapsed)" by (simp add: example_collapsed_def)
  have t: "example_row 1 5 7 \<in> set (concat (map snd example_files))" by (simp add: example_files_def)
  from window_hides_no_match [OF example_collapse example_plan [of False, simplified] example_arrow_ok
      example_target_ok [of False, simplified] s t]
  show ?thesis by (simp add: key_of_def example_row_def)
qed


text \<open>The engine: a MERGE it completes leaves the rows the documentation says, in whatever order.\<close>

definition merges_as_documented ::
    "('v :: linorder upsert_plan \<Rightarrow> 'v cells list \<Rightarrow> 'v cells list \<Rightarrow> 'v cells list option) \<Rightarrow> bool" where
  "merges_as_documented merge \<longleftrightarrow>
     (\<forall>plan source target result. merge plan source target = Some result \<longrightarrow>
        mset result = mset (merged_rows plan source target))"

lemma option_eqI: "(\<And>r. a = Some r \<longleftrightarrow> b = Some r) \<Longrightarrow> a = b"
  by (metis not_None_eq)

lemma table_of_mset:
  assumes m: "mset xs = mset ys" and d: "distinct (map (key_of kc) ys)"
  shows "distinct (map (key_of kc) xs)" and "table_of kc xs = table_of kc ys"
proof -
  have e: "mset (map (key_of kc) xs) = mset (map (key_of kc) ys)" using m by simp
  show dx: "distinct (map (key_of kc) xs)" by (rule mset_eq_imp_distinct_iff [OF e, THEN iffD2, OF d])
  show "table_of kc xs = table_of kc ys"
  proof
    fix k
    have "table_of kc xs k = Some r \<longleftrightarrow> table_of kc ys k = Some r" for r
      by (simp add: table_of_Some [OF dx] table_of_Some [OF d] mset_eq_setD [OF m])
    then show "table_of kc xs k = table_of kc ys k" by (rule option_eqI)
  qed
qed

text \<open>
  The collapsed row of a key does to the table what all of the key's rows do, one after the other.
\<close>

lemma apply_newest:
  assumes dec: "decided kc cols ocs rows" and s: "s \<in> set rows" "key_of kc s = k"
    and max: "\<forall>r \<in> set rows. key_of kc r = k \<longrightarrow> order_of ocs r \<le> order_of ocs s"
  shows "fold (apply_row cols ocs) (filter (\<lambda>r. key_of kc r = k) rows) old = apply_row cols ocs s old"
proof -
  let ?rows = "filter (\<lambda>r. key_of kc r = k) rows"
  have sub: "set ocs \<subseteq> set cols" and nulls: "\<forall>r \<in> set ?rows. \<forall>c. c \<notin> set cols \<longrightarrow> r c = None"
    and ties: "\<forall>r \<in> set ?rows. \<forall>r' \<in> set ?rows. order_of ocs r = order_of ocs r' \<longrightarrow> r = r'"
    using dec by (auto simp: decided_def)
  have mem: "s \<in> set ?rows" and le: "\<forall>r \<in> set ?rows. order_of ocs r \<le> order_of ocs s" using s max by auto
  show ?thesis
  proof (cases old)
    case None
    with fold_apply_None [OF sub mem le ties nulls] show ?thesis by (simp add: apply_row_def)
  next
    case (Some t)
    with fold_apply_Some [OF sub mem le ties, of t] show ?thesis by (simp add: apply_row_def)
  qed
qed

lemma upsert_keyed_merge:
  fixes ar :: "'v :: linorder arrow"
  assumes collapse: "upsert_collapse ar batches kc sc tb = Inr b"
    and plan: "merge_plan_resolve ar env (Inr (map fst files)) b kc sc None cols tb = Inr plan"
    and ok: "arrow_ok ar cb sc" and target: "target_ok ar env cb b kc sc tb None files"
    and grain: "distinct (map (key_of kc) (concat (map snd files)))"
    and dec: "decided kc cols (sc # tb) (concat (map ub_rows batches))" and sub: "set cols \<subseteq> set (ub_columns b)"
  shows "keyed_merge plan kc (sc # tb) (ub_rows b) (concat (map snd files))"
proof -
  have inj: "inj (ar_text ar)" using ok by (simp add: arrow_ok_def)
  note c = collapsed [OF collapse inj] and p = plan_parts [OF plan]
  have filled: "\<forall>r \<in> set (ub_rows b). filled (kc # sc # tb) r" using c(2,3) by blast
  have none: "\<not> below_floor env None bounds temporal x" for bounds temporal x by (simp add: below_floor_def)
  have "expr_true (up_predicate plan) s t \<longleftrightarrow> key_of kc s = key_of kc t"
    if "s \<in> set (ub_rows b)" "t \<in> set (concat (map snd files))" for s t
    using predicate_sees [OF plan ok target filled that] none by blast
  moreover have "expr_true (up_newer plan) s t \<longleftrightarrow> order_of (sc # tb) t < order_of (sc # tb) s"
    if "s \<in> set (ub_rows b)" "t \<in> set (concat (map snd files))" for s t
    unfolding p(2) using filled target that
    by (intro newer_than_stored_true) (auto simp: target_ok_def filled_def)
  moreover have "s x = None" if "s \<in> set (ub_rows b)" "x \<notin> set (ub_columns b)" for s x
  proof -
    have "s \<in> set (concat (map ub_rows batches))" "x \<notin> set cols" using sub c(2) that by blast+
    with dec show ?thesis unfolding decided_def by blast
  qed
  ultimately show ?thesis
    unfolding keyed_merge_def using c(1) grain dec by (auto simp: p decided_def)
qed

text \<open>
  C7. An upsert without a lookback does to the target what applying the batch's rows one after the other
  does, each inserting its key or overwriting the stored row if it is newer: collapsing the batch first,
  looking only at a window of the target and regrouping rows into other batches change nothing. The target
  keeps one row per key. It takes the columns that order two rows to decide between any two of the batch's.
\<close>

theorem upsert_is_row_by_row:
  fixes ar :: "'v :: linorder arrow"
  assumes collapse: "upsert_collapse ar batches kc sc tb = Inr b"
    and plan: "merge_plan_resolve ar env (Inr (map fst files)) b kc sc None cols tb = Inr plan"
    and ok: "arrow_ok ar cb sc" and target: "target_ok ar env cb b kc sc tb None files"
    and grain: "distinct (map (key_of kc) (concat (map snd files)))"
    and dec: "decided kc cols (sc # tb) (concat (map ub_rows batches))" and sub: "set cols \<subseteq> set (ub_columns b)"
    and engine: "merges_as_documented merge"
    and merged: "merge plan (ub_rows b) (concat (map snd files)) = Some result"
  shows "distinct (map (key_of kc) result)
    \<and> table_of kc result = fold (upsert_row kc cols (sc # tb)) (concat (map ub_rows batches)) (table_of kc (concat (map snd files)))"
proof -
  let ?rows = "concat (map ub_rows batches)" and ?T = "concat (map snd files)"
  have inj: "inj (ar_text ar)" using ok by (simp add: arrow_ok_def)
  note c = collapsed [OF collapse inj] and p = plan_parts [OF plan]
  note k = upsert_keyed_merge [OF collapse plan ok target grain dec sub]
  have m: "mset result = mset (merged_rows plan (ub_rows b) ?T)"
    using engine merged by (simp add: merges_as_documented_def)
  note t = table_of_mset [OF m merged_keys [OF k]]
  have "table_of kc (merged_rows plan (ub_rows b) ?T) x = fold (upsert_row kc cols (sc # tb)) ?rows (table_of kc ?T) x" for x
  proof (cases "table_of kc (ub_rows b) x")
    case None
    have "filter (\<lambda>r. key_of kc r = x) ?rows = []"
      using None c(4) by (fastforce simp: table_of_None filter_empty_conv simp del: set_concat)
    with None show ?thesis by (simp add: merged_table [OF k] fold_upsert_row)
  next
    case (Some s)
    then have s: "s \<in> set (ub_rows b)" "key_of kc s = x" using c(1) by (simp_all add: table_of_Some)
    have "order_of (sc # tb) r \<le> order_of (sc # tb) s" if "r \<in> set ?rows" "key_of kc r = x" for r
      using c(4) [OF that(1)] s that(2) same_key_same_row [OF c(1)] by metis
    then have "fold (apply_row cols (sc # tb)) (filter (\<lambda>r. key_of kc r = x) ?rows) (table_of kc ?T x)
        = apply_row cols (sc # tb) s (table_of kc ?T x)"
      using c(2) s by (intro apply_newest [OF dec]) auto
    with Some show ?thesis by (simp only: merged_table [OF k] fold_upsert_row p option.case)
  qed
  with t show ?thesis by (auto intro!: ext)
qed

theorem upsert_is_row_by_row_witness:
  "\<exists>result. result = merged_rows (example_upsert_plan False) (ub_rows example_collapsed) (concat (map snd example_files))
     \<and> table_of ''k'' result = fold (upsert_row ''k'' [''k'', ''s'', ''v''] [''s''])
         (ub_rows example_batch) (table_of ''k'' (concat (map snd example_files)))"
proof -
  have m: "merges_as_documented (\<lambda>p s t. Some (merged_rows p s t))" by (simp add: merges_as_documented_def)
  have dec: "decided ''k'' [''k'', ''s'', ''v''] [''s''] (concat (map ub_rows [example_batch]))"
    by (auto simp: decided_def example_batch_def example_row_def key_of_def order_of_def)
  have sub: "set [''k'', ''s'', ''v''] \<subseteq> set (ub_columns example_collapsed)" by (simp add: example_collapsed_def)
  have d: "distinct (map (key_of ''k'') (concat (map snd example_files)))"
    by (simp add: example_files_def key_of_def example_row_def)
  from upsert_is_row_by_row [OF example_collapse example_plan [of False, simplified] example_arrow_ok
      example_target_ok [of False, simplified] d dec sub m refl]
  show ?thesis by simp
qed

end
