(* ===== verification/Grain.thy ===== *)
theory Grain
  imports BTree Errors "HOL-Library.Product_Lexorder" "HOL-Library.Multiset"
begin

text \<open>
  \<open>src/grain.rs\<close>: proving that a target holds one row per key while holding only a fixed number of
  hashes of them. A pass scans the key column and keeps the hashes of one congruence class; a class
  that does not fit is split in two; hashes seen twice are resolved against the real keys in a second
  scan. The hash and the scan of the target (\<open>delta-rs\<close>, DataFusion) are parameters.
\<close>

section \<open>The ceiling\<close>

datatype ceiling_source = CeilingConfigured | CeilingDefault | CeilingClampedToBudget

record ceiling =
  ce_bytes :: nat
  ce_source :: ceiling_source

definition ceiling_min :: nat where
  "ceiling_min = 16000000"

definition ceiling_default :: nat where
  "ceiling_default = 512000000"

definition assumed_bytes_per_row :: nat where
  "assumed_bytes_per_row = 64"

text \<open>The second argument is \<open>budget::current().per_pipeline()\<close>.\<close>

definition resolve_ceiling :: "nat option \<Rightarrow> nat option \<Rightarrow> ceiling res" where
  "resolve_ceiling configured per_pipeline =
     (case configured of
        Some n \<Rightarrow>
          if n < ceiling_min then Inl (E_Config ''runtime.max_grain_check_memory is too small'')
          else Inr \<lparr>ce_bytes = n, ce_source = CeilingConfigured\<rparr>
      | None \<Rightarrow>
          Inr (case per_pipeline of
                 Some b \<Rightarrow>
                   if b < ceiling_default then \<lparr>ce_bytes = max b ceiling_min, ce_source = CeilingClampedToBudget\<rparr>
                   else \<lparr>ce_bytes = ceiling_default, ce_source = CeilingDefault\<rparr>
               | None \<Rightarrow> \<lparr>ce_bytes = ceiling_default, ce_source = CeilingDefault\<rparr>))"

definition hashes_per_pass :: "ceiling \<Rightarrow> nat" where
  "hashes_per_pass c = (ce_bytes c * 7) mod 2 ^ 64 div 8 div 8"

section \<open>Classes of the key space\<close>

record key_class =
  kc_modulus :: nat
  kc_residue :: nat

definition kc_holds :: "key_class \<Rightarrow> nat \<Rightarrow> bool" where
  "kc_holds c h \<longleftrightarrow> h mod kc_modulus c = kc_residue c"

definition kc_split :: "key_class \<Rightarrow> (key_class \<times> key_class) option" where
  "kc_split c =
     (if kc_modulus c * 2 < 2 ^ 64
      then Some (\<lparr>kc_modulus = kc_modulus c * 2, kc_residue = kc_residue c\<rparr>,
                 \<lparr>kc_modulus = kc_modulus c * 2, kc_residue = u64_add (kc_residue c) (kc_modulus c)\<rparr>)
      else None)"

section \<open>How many passes to start with\<close>

definition max_passes :: nat where
  "max_passes = 256"

definition verify_chunk :: nat where
  "verify_chunk = 4096"

text \<open>What the log says of one live file.\<close>

record live_file =
  lf_size :: int
  lf_num_records :: "nat option"
  lf_deleted :: "int option" \<comment> \<open>the cardinality of its deletion vector\<close>

definition saturating_add_u64 :: "nat \<Rightarrow> nat \<Rightarrow> nat" where
  "saturating_add_u64 a b = min (a + b) (2 ^ 64 - 1)"

definition saturating_mul_u64 :: "nat \<Rightarrow> nat \<Rightarrow> nat" where
  "saturating_mul_u64 a b = min (a * b) (2 ^ 64 - 1)"

definition live_file_rows :: "live_file \<Rightarrow> nat option \<times> nat \<Rightarrow> nat option \<times> nat" where
  "live_file_rows file = (\<lambda>(rows, bytes).
     let bytes = saturating_add_u64 bytes (nat (max (lf_size file) 0))
     in case lf_num_records file of
          None \<Rightarrow> (None, bytes)
        | Some n \<Rightarrow>
            let deleted = (case lf_deleted file of Some d \<Rightarrow> nat (max d 0) | None \<Rightarrow> 0)
            in (map_option (\<lambda>acc. saturating_add_u64 acc (n - deleted)) rows, bytes))"

definition live_rows :: "live_file list \<Rightarrow> nat option \<times> nat" where
  "live_rows files = fold live_file_rows files (Some 0, 0)"

definition div_ceil :: "nat \<Rightarrow> nat \<Rightarrow> nat" where
  "div_ceil a b = (if a mod b = 0 then a div b else a div b + 1)"

definition initial_modulus :: "nat option \<Rightarrow> nat \<Rightarrow> ceiling \<Rightarrow> nat" where
  "initial_modulus rows bytes ceil =
     (let cap = max (hashes_per_pass ceil) 1;
          est = (case rows of Some r \<Rightarrow> r | None \<Rightarrow> bytes div assumed_bytes_per_row);
          want = saturating_mul_u64 est 101 div 100
      in max (div_ceil want cap) 1)"

section \<open>One pass\<close>

text \<open>\<open>slice::windows(2)\<close>, keeping the first of each equal pair.\<close>

fun repeats :: "'a list \<Rightarrow> 'a list" where
  "repeats (a # b # xs) = (if a = b then [a] else []) @ repeats (b # xs)"
| "repeats _ = []"

definition compact :: "nat list \<Rightarrow> nat list \<Rightarrow> nat list \<times> nat list" where
  "compact hashes nominated =
     (let sorted_hashes = sort hashes;
          nominated' = remdups_adj (sort (nominated @ repeats sorted_hashes))
      in (filter (\<lambda>h. h \<notin> set nominated') (remdups_adj sorted_hashes), nominated'))"

text \<open>
  The keys of one batch, encoded; \<open>None\<close> once the class holds too much. Nothing else of the
  pass outlives a batch.
\<close>

fun scan_keys ::
    "(string \<Rightarrow> nat) \<Rightarrow> key_class \<Rightarrow> nat \<Rightarrow> string list \<Rightarrow> nat list \<times> nat list \<Rightarrow> (nat list \<times> nat list) option" where
  "scan_keys hash c cap [] st = Some st"
| "scan_keys hash c cap (k # ks) (hashes, nominated) =
     (if \<not> kc_holds c (hash k) then scan_keys hash c cap ks (hashes, nominated)
      else
        let hashes = hashes @ [hash k]
        in if length hashes + length nominated < cap then scan_keys hash c cap ks (hashes, nominated)
           else
             let (hashes, nominated) = compact hashes nominated
             in if length hashes + length nominated > cap - cap div 4 then None
                else scan_keys hash c cap ks (hashes, nominated))"

text \<open>
  What the stream of a scan hands over: the encoded key of each row of a batch with its text (\<open>None\<close>
  for a null), or the error that reading or encoding it gives, and whether the keys cast to text.
\<close>

record key_batch =
  ky_rows :: "(string \<times> string option) list res"
  ky_cast :: "unit res"

record grain_env =
  ge_files :: "live_file list"
  ge_scan :: "nat \<Rightarrow> key_batch list res" \<comment> \<open>the stream of the n-th scan\<close>

datatype pass_outcome = Overflowed | Candidates "nat list"

fun scan_batches ::
    "(string \<Rightarrow> nat) \<Rightarrow> key_class \<Rightarrow> nat \<Rightarrow> key_batch list \<Rightarrow> nat list \<times> nat list \<Rightarrow> pass_outcome res" where
  "scan_batches hash c cap [] (hashes, nominated) = Inr (Candidates (snd (compact hashes nominated)))"
| "scan_batches hash c cap (b # bs) st =
     (case ky_rows b of
        Inl e \<Rightarrow> Inl e
      | Inr rows \<Rightarrow>
          (case scan_keys hash c cap (map fst rows) st of
             None \<Rightarrow> Inr Overflowed
           | Some st' \<Rightarrow> scan_batches hash c cap bs st'))"

definition scan_class ::
    "grain_env \<Rightarrow> (string \<Rightarrow> nat) \<Rightarrow> key_class \<Rightarrow> ceiling \<Rightarrow> nat \<Rightarrow> pass_outcome res" where
  "scan_class env hash c ceil n =
     res_bind (ge_scan env n) (\<lambda>batches. scan_batches hash c (max (hashes_per_pass ceil) 1) batches ([], []))"

section \<open>Resolving what a pass nominated\<close>

record duplicate =
  du_key :: string
  du_rows :: nat

definition key_shown :: "string option \<Rightarrow> string" where
  "key_shown shown = (case shown of None \<Rightarrow> ''NULL'' | Some s \<Rightarrow> s)"

definition count_row ::
    "(string \<Rightarrow> nat) \<Rightarrow> nat set \<Rightarrow> string \<times> string option \<Rightarrow> (string, nat \<times> string) bmap
       \<Rightarrow> (string, nat \<times> string) bmap" where
  "count_row hash wanted = (\<lambda>(k, shown) seen.
     if hash k \<notin> wanted then seen
     else let entry = (case bt_get seen k of None \<Rightarrow> (0, key_shown shown) | Some e \<Rightarrow> e)
          in bt_insert k (u64_add (fst entry) 1, snd entry) seen)"

fun count_batches ::
    "(string \<Rightarrow> nat) \<Rightarrow> nat set \<Rightarrow> key_batch list \<Rightarrow> (string, nat \<times> string) bmap \<Rightarrow> (string, nat \<times> string) bmap res" where
  "count_batches hash wanted [] seen = Inr seen"
| "count_batches hash wanted (b # bs) seen =
     res_bind (ky_rows b) (\<lambda>rows.
     res_bind (if rows = [] then Inr () else ky_cast b) (\<lambda>_.
     count_batches hash wanted bs (fold (count_row hash wanted) rows seen)))"

definition duplicates_of :: "(string, nat \<times> string) bmap \<Rightarrow> duplicate list" where
  "duplicates_of seen =
     sort_key (\<lambda>d. (du_key d, du_rows d))
       (map (\<lambda>(n, key). \<lparr>du_key = key, du_rows = n\<rparr>) (filter (\<lambda>(n, _). n > 1) (map snd seen)))"

text \<open>\<open>slice::chunks\<close>.\<close>

function chunks :: "nat \<Rightarrow> 'a list \<Rightarrow> 'a list list" where
  "chunks n xs = (if n = 0 \<or> xs = [] then [] else take n xs # chunks n (drop n xs))"
  by pat_completeness auto
termination by (relation "measure (length \<circ> snd)") auto

declare chunks.simps [simp del]

text \<open>The scans are numbered as they are made; the number of the next one is threaded through.\<close>

fun verify_chunks ::
    "grain_env \<Rightarrow> (string \<Rightarrow> nat) \<Rightarrow> nat \<Rightarrow> nat list list \<Rightarrow> duplicate list \<Rightarrow> nat \<Rightarrow> (duplicate list \<times> nat) res" where
  "verify_chunks env hash wanted [] out n = Inr (out, n)"
| "verify_chunks env hash wanted (chunk # cs) out n =
     res_bind (ge_scan env n) (\<lambda>batches.
     res_bind (count_batches hash (set chunk) batches []) (\<lambda>seen.
       let out = out @ duplicates_of seen
       in if length out \<ge> wanted then Inr (out, n + 1)
          else verify_chunks env hash wanted cs out (n + 1)))"

definition verify_candidates ::
    "grain_env \<Rightarrow> (string \<Rightarrow> nat) \<Rightarrow> nat list \<Rightarrow> nat \<Rightarrow> nat \<Rightarrow> (duplicate list \<times> nat) res" where
  "verify_candidates env hash candidates wanted n =
     verify_chunks env hash wanted (chunks verify_chunk candidates) [] n"

section \<open>The check\<close>

datatype grain =
    GrainUnique "nat option" nat
  | GrainDuplicated "duplicate list" nat

definition too_many_passes :: error where
  "too_many_passes = E_Config ''the startup uniqueness check would need too many passes''"

definition still_splitting :: error where
  "still_splitting = E_Config ''the startup uniqueness check is still splitting the key space''"

definition cannot_split :: error where
  "cannot_split = E_Config ''the startup uniqueness check divided the key space as far as it can''"

function check_loop ::
    "grain_env \<Rightarrow> (string \<Rightarrow> nat) \<Rightarrow> ceiling \<Rightarrow> nat \<Rightarrow> key_class list \<Rightarrow> duplicate list \<Rightarrow> nat \<Rightarrow> nat
       \<Rightarrow> (duplicate list \<times> nat) res" where
  "check_loop env hash ceil examples queue found passes n =
     (case queue of
        [] \<Rightarrow> Inr (found, passes)
      | c # queue' \<Rightarrow>
          if passes \<ge> saturating_mul_u64 max_passes 4 then Inl still_splitting
          else case scan_class env hash c ceil n of
            Inl e \<Rightarrow> Inl e
          | Inr Overflowed \<Rightarrow>
              (case kc_split c of
                 None \<Rightarrow> Inl cannot_split
               | Some (a, b) \<Rightarrow> check_loop env hash ceil examples (a # b # queue') found (passes + 1) (n + 1))
          | Inr (Candidates candidates) \<Rightarrow>
              if candidates = [] then check_loop env hash ceil examples queue' found (passes + 1) (n + 1)
              else case verify_candidates env hash candidates (examples - length found) (n + 1) of
                Inl e \<Rightarrow> Inl e
              | Inr (extra, n') \<Rightarrow>
                  if length (found @ extra) \<ge> examples then Inr (found @ extra, passes + 1)
                  else check_loop env hash ceil examples queue' (found @ extra) (passes + 1) n')"
  by pat_completeness auto
termination
  by (relation "measure (\<lambda>(_, _, _, _, _, _, passes, _). 1024 - passes)")
    (auto simp: saturating_mul_u64_def max_passes_def)

declare check_loop.simps [simp del]

definition check_with :: "grain_env \<Rightarrow> (string \<Rightarrow> nat) \<Rightarrow> ceiling \<Rightarrow> nat \<Rightarrow> grain res" where
  "check_with env hash ceil examples =
     (let (rows, bytes) = live_rows (ge_files env);
          n0 = initial_modulus rows bytes ceil
      in if n0 > max_passes then Inl too_many_passes
         else res_bind (check_loop env hash ceil examples
                          (map (\<lambda>r. \<lparr>kc_modulus = n0, kc_residue = r\<rparr>) [0..<n0]) [] 0 0) (\<lambda>(found, passes).
           Inr (if found = [] then GrainUnique rows passes
                else GrainDuplicated (take examples found) passes)))"

text \<open>\<open>src/upsert.rs\<close>: \<open>assert_one_row_per_key\<close>, the check as the open of an upsert makes it.\<close>

definition grain_examples :: nat where
  "grain_examples = 3"

definition assert_one_row_per_key :: "grain_env \<Rightarrow> (string \<Rightarrow> nat) \<Rightarrow> ceiling \<Rightarrow> nat res" where
  "assert_one_row_per_key env hash ceil =
     res_bind (check_with env hash ceil grain_examples) (\<lambda>g.
       case g of
         GrainUnique _ passes \<Rightarrow> Inr passes
       | GrainDuplicated _ _ \<Rightarrow> Inl (E_Config ''the target already holds a key more than once''))"

end
