(* ===== verification/Grain_Spec.thy ===== *)
theory Grain_Spec
  imports Grain
begin

text \<open>
  What the uniqueness check promises: whatever the hash and the ceiling are, an answer is exact, a pass
  holds no more hashes than the ceiling allows, and a class can always be split when it has to be.
\<close>

section \<open>Compacting\<close>

lemma repeats_iff: "sorted xs \<Longrightarrow> h \<in> set (repeats xs) \<longleftrightarrow> 2 \<le> count_list xs h"
proof (induction xs rule: repeats.induct)
  case (1 a b xs)
  show ?case
  proof (cases "a = b")
    case True
    with 1 show ?thesis by auto
  next
    case False
    with "1.prems" have a: "a \<notin> set (b # xs)" by force
    then have none: "count_list (b # xs) a = 0" by (simp only: count_list_0_iff not_False_eq_True)
    have ih: "h \<in> set (repeats (b # xs)) \<longleftrightarrow> 2 \<le> count_list (b # xs) h" using 1 by simp
    show ?thesis
    proof (cases "h = a")
      case True
      with False ih none show ?thesis by simp
    next
      case h: False
      with False ih show ?thesis by simp
    qed
  qed
qed auto

lemma sorted_distinct_remdups_adj: "sorted (xs :: 'a :: linorder list) \<Longrightarrow> distinct (remdups_adj xs)"
  by (induction xs rule: remdups_adj.induct) (auto simp: order.antisym)

lemma count_list_sort [simp]: "count_list (sort xs) h = count_list xs h"
  by (simp flip: count_mset)

lemma compact_sets:
  assumes "compact hashes nominated = (hs, nom)"
  shows "set nom = set nominated \<union> {h. 2 \<le> count_list hashes h}"
    and "set hs = set hashes - set nom" and "distinct hs" and "distinct nom"
proof -
  have nom: "nom = remdups_adj (sort (nominated @ repeats (sort hashes)))"
    and hs: "hs = filter (\<lambda>h. h \<notin> set nom) (remdups_adj (sort hashes))"
    using assms by (auto simp: compact_def Let_def)
  show "set nom = set nominated \<union> {h. 2 \<le> count_list hashes h}"
    by (auto simp: nom repeats_iff)
  show "set hs = set hashes - set nom" by (auto simp: hs)
  show "distinct hs" by (simp add: hs sorted_distinct_remdups_adj)
  show "distinct nom" by (simp add: nom sorted_distinct_remdups_adj)
qed

section \<open>One pass\<close>

definition in_class :: "(string \<Rightarrow> nat) \<Rightarrow> key_class \<Rightarrow> string list \<Rightarrow> nat list" where
  "in_class hash c ks = filter (kc_holds c) (map hash ks)"

text \<open>What the buffers hold after the hashes \<open>seen\<close>: exact counts of those not nominated.\<close>

definition pass_inv :: "nat list \<Rightarrow> nat list \<times> nat list \<Rightarrow> bool" where
  "pass_inv seen st \<longleftrightarrow>
     (\<forall>h \<in> set (snd st). 2 \<le> count_list seen h)
     \<and> (\<forall>h. h \<notin> set (snd st) \<longrightarrow> count_list (fst st) h = count_list seen h)
     \<and> set (fst st) \<subseteq> set seen"

lemma pass_inv_push: "pass_inv seen (hs, nom) \<Longrightarrow> pass_inv (seen @ [h]) (hs @ [h], nom)"
  by (auto simp: pass_inv_def)

lemma pass_inv_compact:
  assumes inv: "pass_inv seen (hs, nom)" and c: "compact hs nom = (hs', nom')"
  shows "pass_inv seen (hs', nom')" and "set nom' = {h. 2 \<le> count_list seen h}"
    and "length hs' + length nom' = card (set seen)"
proof -
  note cs = compact_sets [OF c]
  show nom': "set nom' = {h. 2 \<le> count_list seen h}"
  proof (rule set_eqI)
    fix h show "h \<in> set nom' \<longleftrightarrow> h \<in> {h. 2 \<le> count_list seen h}"
      using inv cs(1) by (cases "h \<in> set nom") (auto simp: pass_inv_def)
  qed
  have nom_sub: "set nom \<subseteq> set nom'" using cs(1) by blast
  have one: "count_list hs' h = count_list seen h" if h: "h \<notin> set nom'" for h
  proof -
    have eq: "count_list hs h = count_list seen h" using h nom_sub inv by (auto simp: pass_inv_def)
    have "count_list seen h < 2" using h nom' by auto
    moreover have "count_list hs' h = (if h \<in> set hs' then 1 else 0)"
      using cs(3) by (simp add: count_list_0_iff distinct_count_atmost_1 flip: count_mset)
        
    moreover have "h \<in> set hs' \<longleftrightarrow> h \<in> set hs" using cs(2) h by blast
    moreover have "h \<in> set hs \<longleftrightarrow> count_list hs h \<noteq> 0" by (simp add: count_list_0_iff)
    ultimately show ?thesis using eq by (auto split: if_splits)
  qed
  have sub: "set hs' \<subseteq> set seen" using cs(2) inv by (auto simp: pass_inv_def)
  show "pass_inv seen (hs', nom')" using one nom' sub by (auto simp: pass_inv_def)
  have "set hs' \<union> set nom' = set seen"
  proof
    have "set nom' \<subseteq> set seen"
      using nom' by (auto simp: count_list_0_iff dest: le_zero_eq [THEN iffD1]) (metis count_list_0_iff not_numeral_le_zero)
    then show "set hs' \<union> set nom' \<subseteq> set seen" using sub by blast
    show "set seen \<subseteq> set hs' \<union> set nom'"
      using one by (metis Un_iff count_list_0_iff subsetI)
  qed
  moreover have "set hs' \<inter> set nom' = {}" using cs(2) by blast
  ultimately show "length hs' + length nom' = card (set seen)"
    using cs(3,4) by (metis List.finite_set card_Un_disjoint distinct_card)
qed

lemma in_class_simps [simp]:
  "in_class hash c [] = []"
  "in_class hash c (k # ks) = (if kc_holds c (hash k) then hash k # in_class hash c ks else in_class hash c ks)"
  "in_class hash c (xs @ ys) = in_class hash c xs @ in_class hash c ys"
  by (auto simp: in_class_def)

text \<open>Unless it reports an overflow, a pass counts what it saw, and stays below its ceiling.\<close>

lemma scan_keys_inv:
  assumes "scan_keys hash c cap ks st = Some st'" and "pass_inv seen st"
  shows "pass_inv (seen @ in_class hash c ks) st'"
  using assms
proof (induction hash c cap ks st arbitrary: seen rule: scan_keys.induct)
  case (2 hash c cap k ks hashes nominated)
  show ?case
  proof (cases "kc_holds c (hash k)")
    case False
    with 2 show ?thesis by simp
  next
    case True
    note push = pass_inv_push [OF "2.prems"(2), of "hash k"]
    show ?thesis
    proof (cases "length (hashes @ [hash k]) + length nominated < cap")
      case less: True
      with True "2.prems" "2.IH"(2) [OF _ refl less, of "seen @ [hash k]"] push show ?thesis by simp
    next
      case full: False
      obtain hs nom where c: "compact (hashes @ [hash k]) nominated = (hs, nom)" by fastforce
      from "2.prems"(1) True full c have fits: "\<not> length hs + length nom > cap - cap div 4"
        and rest: "scan_keys hash c cap ks (hs, nom) = Some st'"
        by (auto simp: Let_def split: if_splits)
      with True "2.prems" "2.IH"(3) [OF _ refl full c [symmetric] refl fits, of "seen @ [hash k]"]
        pass_inv_compact(1) [OF push c]
      show ?thesis by simp
    qed
  qed
qed auto

lemma scan_keys_bound:
  assumes "scan_keys hash c cap ks st = Some st'" and "length (fst st) + length (snd st) < cap" and "4 \<le> cap"
  shows "length (fst st') + length (snd st') < cap"
  using assms
proof (induction hash c cap ks st rule: scan_keys.induct)
  case (2 hash c cap k ks hashes nominated)
  show ?case
  proof (cases "kc_holds c (hash k)")
    case True
    obtain hs nom where c: "compact (hashes @ [hash k]) nominated = (hs, nom)" by fastforce
    show ?thesis
    proof (cases "length (hashes @ [hash k]) + length nominated < cap")
      case less: True
      with True "2.prems" "2.IH"(2) [OF _ refl less] show ?thesis by simp
    next
      case full: False
      from "2.prems"(1) True full c have fits: "\<not> length hs + length nom > cap - cap div 4"
        and rest: "scan_keys hash c cap ks (hs, nom) = Some st'"
        by (auto simp: Let_def split: if_splits)
      then have "length hs + length nom < cap" using "2.prems"(3) by linarith
      with True "2.prems"(3) "2.IH"(3) [OF _ refl full c [symmetric] refl fits rest] show ?thesis by simp
    qed
  qed (use 2 in simp)
qed auto

lemma card_class_le:
  assumes "finite S" and "\<forall>h \<in> S. kc_holds c h \<and> h < 2 ^ 64" and "0 < kc_modulus c"
  shows "card S \<le> (2 ^ 64 - 1) div kc_modulus c + 1"
proof -
  let ?m = "kc_modulus c"
  have inj: "inj_on (\<lambda>h. h div ?m) S"
  proof (rule inj_onI)
    fix x y assume "x \<in> S" "y \<in> S" and d: "x div ?m = y div ?m"
    with assms(2) have "x mod ?m = y mod ?m" by (simp add: kc_holds_def)
    with d show "x = y" by (metis div_mult_mod_eq)
  qed
  have "(\<lambda>h. h div ?m) ` S \<subseteq> {0..(2 ^ 64 - 1) div ?m}"
  proof
    fix q assume "q \<in> (\<lambda>h. h div ?m) ` S"
    then obtain h where h: "h \<in> S" "q = h div ?m" by blast
    with assms(2) have "h \<le> 2 ^ 64 - 1" by fastforce
    with h(2) show "q \<in> {0..(2 ^ 64 - 1) div ?m}" by (simp add: div_le_mono del: One_nat_def)
  qed
  then have "card ((\<lambda>h. h div ?m) ` S) \<le> card {0..(2 ^ 64 - 1) div ?m}" by (rule card_mono [rotated]) simp
  then show ?thesis by (simp add: card_image [OF inj])
qed

lemma scan_keys_overflow:
  assumes "scan_keys hash c cap ks st = None" and "pass_inv seen st"
    and "\<forall>h \<in> set seen. kc_holds c h \<and> h < 2 ^ 64" and "\<And>k. hash k < 2 ^ 64"
  shows "\<exists>S. finite S \<and> (\<forall>h \<in> S. kc_holds c h \<and> h < 2 ^ 64) \<and> card S > cap - cap div 4"
  using assms
proof (induction hash c cap ks st arbitrary: seen rule: scan_keys.induct)
  case (2 hash c cap k ks hashes nominated)
  show ?case
  proof (cases "kc_holds c (hash k)")
    case False
    with 2 show ?thesis by simp
  next
    case True
    note push = pass_inv_push [OF "2.prems"(2), of "hash k"]
    have sn: "\<forall>h \<in> set (seen @ [hash k]). kc_holds c h \<and> h < 2 ^ 64" using "2.prems"(3,4) True by simp
    show ?thesis
    proof (cases "length (hashes @ [hash k]) + length nominated < cap")
      case less: True
      with True "2.prems"(1) have "scan_keys hash c cap ks (hashes @ [hash k], nominated) = None" by simp
      then show ?thesis using "2.IH"(2) [OF _ refl less _ push sn] True less "2.prems"(4) by simp
    next
      case full: False
      obtain hs nom where c: "compact (hashes @ [hash k]) nominated = (hs, nom)" by fastforce
      show ?thesis
      proof (cases "length hs + length nom > cap - cap div 4")
        case True
        then have "card (set (seen @ [hash k])) > cap - cap div 4" using pass_inv_compact(3) [OF push c] by simp
        then show ?thesis using sn by (intro exI [of _ "set (seen @ [hash k])"]) simp
      next
        case fits: False
        from "2.prems"(1) True full c fits have rest: "scan_keys hash c cap ks (hs, nom) = None"
          by (simp add: Let_def)
        then show ?thesis
          using "2.IH"(3) [OF _ refl full c [symmetric] refl fits rest pass_inv_compact(1) [OF push c] sn]
            True "2.prems"(4) by simp
      qed
    qed
  qed
qed simp

section \<open>One scan of the target\<close>

definition rows_of :: "key_batch list \<Rightarrow> (string \<times> string option) list res" where
  "rows_of bs = res_bind (collect_res ky_rows bs) (\<lambda>rss. Inr (concat rss))"

lemma rows_of_simps [simp]:
  "rows_of [] = Inr []"
  "rows_of (b # bs) = res_bind (ky_rows b) (\<lambda>rows. res_bind (rows_of bs) (\<lambda>rest. Inr (rows @ rest)))"
  by (simp add: rows_of_def) (cases "ky_rows b"; cases "collect_res ky_rows bs"; simp add: rows_of_def)

text \<open>
  A handle is a snapshot: every scan that is read to its end yields the same rows, in whatever order the
  partitions of the plan arrive. An encoding stands for one key, so its rows show the same text.
\<close>

definition holds_rows :: "grain_env \<Rightarrow> (string \<times> string option) list \<Rightarrow> bool" where
  "holds_rows env rows \<longleftrightarrow>
     length rows < 2 ^ 64
     \<and> (\<forall>n bs rs. ge_scan env n = Inr bs \<longrightarrow> rows_of bs = Inr rs \<longrightarrow> mset rs = mset rows)
     \<and> (\<forall>k s t. (k, s) \<in> set rows \<longrightarrow> (k, t) \<in> set rows \<longrightarrow> s = t)"

definition rows_with :: "(string \<times> string option) list \<Rightarrow> string \<Rightarrow> nat" where
  "rows_with rows k = count_list (map fst rows) k"

lemma scan_batches_candidates:
  assumes "scan_batches hash c cap bs st = Inr (Candidates cs)" and "pass_inv seen st"
  shows "\<exists>rs. rows_of bs = Inr rs \<and> set cs = {h. 2 \<le> count_list (seen @ in_class hash c (map fst rs)) h}"
  using assms
proof (induction hash c cap bs st arbitrary: seen rule: scan_batches.induct)
  case (1 hash c cap hashes nominated)
  obtain hs nom where c: "compact hashes nominated = (hs, nom)" by fastforce
  with "1.prems"(1) have "cs = nom" by simp
  then show ?case using pass_inv_compact(2) [OF "1.prems"(2) c] by simp
next
  case (2 hash c cap b bs st)
  from "2.prems"(1) obtain rows st' where b: "ky_rows b = Inr rows"
    and k: "scan_keys hash c cap (map fst rows) st = Some st'" and rest: "scan_batches hash c cap bs st' = Inr (Candidates cs)"
    by (auto split: sum.splits option.splits)
  from "2.IH" [OF b k rest scan_keys_inv [OF k "2.prems"(2)]] b
  show ?case by auto
qed

lemma scan_batches_overflow:
  assumes "scan_batches hash c cap bs st = Inr Overflowed" and "pass_inv seen st"
    and "\<forall>h \<in> set seen. kc_holds c h \<and> h < 2 ^ 64" and "\<And>k. hash k < 2 ^ 64"
  shows "\<exists>S. finite S \<and> (\<forall>h \<in> S. kc_holds c h \<and> h < 2 ^ 64) \<and> card S > cap - cap div 4"
  using assms
proof (induction hash c cap bs st arbitrary: seen rule: scan_batches.induct)
  case (2 hash c cap b bs st)
  from "2.prems"(1) obtain rows where b: "ky_rows b = Inr rows" by (auto split: sum.splits)
  show ?case
  proof (cases "scan_keys hash c cap (map fst rows) st")
    case None
    from scan_keys_overflow [OF None "2.prems"(2-4)] show ?thesis .
  next
    case (Some st')
    have "\<forall>h \<in> set (seen @ in_class hash c (map fst rows)). kc_holds c h \<and> h < 2 ^ 64"
      using "2.prems"(3,4) by (auto simp: in_class_def)
    with "2.IH" [OF b Some _ scan_keys_inv [OF Some "2.prems"(2)]] "2.prems" b Some show ?thesis by simp
  qed
qed auto

lemma pass_inv_start: "pass_inv [] ([], [])"
  by (simp add: pass_inv_def)

text \<open>A class is split only for what it holds, so it can be: its modulus is far below the end of a \<open>u64\<close>.\<close>

lemma overflow_can_split:
  assumes o: "scan_class env hash c ceil n = Inr Overflowed" and cap: "4 \<le> hashes_per_pass ceil"
    and "0 < kc_modulus c" and "\<And>k. hash k < 2 ^ 64"
  shows "kc_split c \<noteq> None"
proof -
  from o obtain bs where "scan_batches hash c (hashes_per_pass ceil) bs ([], []) = Inr Overflowed"
    using cap by (auto simp: scan_class_def max_def split: if_splits)
  from scan_batches_overflow [OF this pass_inv_start] assms(4)
  obtain S where S: "finite S" "\<forall>h \<in> S. kc_holds c h \<and> h < 2 ^ 64" "card S > hashes_per_pass ceil - hashes_per_pass ceil div 4"
    by auto
  then have "2 < (2 ^ 64 - 1) div kc_modulus c + 1" using card_class_le [OF S(1,2) assms(3)] cap by linarith
  then have "2 \<le> (2 ^ 64 - 1 :: nat) div kc_modulus c" by simp
  then have "2 * kc_modulus c \<le> 2 ^ 64 - 1" using assms(3) by (simp only: less_eq_div_iff_mult_less_eq)
  then have "2 * kc_modulus c < 2 ^ 64" by simp
  then show ?thesis by (simp add: kc_split_def mult.commute)
qed

section \<open>Resolving candidates\<close>

lemma count_batches_rows:
  "count_batches hash W bs seen = Inr seen' \<Longrightarrow>
     \<exists>rs. rows_of bs = Inr rs \<and> seen' = fold (count_row hash W) rs seen"
  by (induction hash W bs seen rule: count_batches.induct) (auto 0 4)

definition first_shown :: "(string \<times> string option) list \<Rightarrow> string \<Rightarrow> string" where
  "first_shown rs k = key_shown (the (map_of rs k))"

definition counted :: "(string \<Rightarrow> nat) \<Rightarrow> nat set \<Rightarrow> (string \<times> string option) list \<Rightarrow> (string, nat \<times> string) bmap \<Rightarrow> bool" where
  "counted hash W rs seen \<longleftrightarrow>
     bt_wf seen
     \<and> (\<forall>k. bt_get seen k =
           (if hash k \<in> W \<and> k \<in> fst ` set rs then Some (rows_with rs k, first_shown rs k) else None))"

lemma rows_with_le: "rows_with rs k \<le> length rs"
  unfolding rows_with_def by (metis count_le_length length_map)

lemma rows_with_simps [simp]:
  "rows_with [] k = 0"
  "rows_with (rs @ [r]) k = rows_with rs k + (if fst r = k then 1 else 0)"
  by (auto simp: rows_with_def)

lemma rows_with_0_iff: "rows_with rs k = 0 \<longleftrightarrow> k \<notin> fst ` set rs"
  by (simp add: rows_with_def count_list_0_iff)

lemma first_shown_snoc:
  "k \<in> fst ` set rs \<Longrightarrow> first_shown (rs @ [r]) k = first_shown rs k"
  "k \<notin> fst ` set rs \<Longrightarrow> first_shown (rs @ [(k, s)]) k = key_shown s"
proof -
  assume "k \<in> fst ` set rs"
  then obtain v where "map_of rs k = Some v" by (metis map_of_eq_None_iff not_Some_eq)
  then show "first_shown (rs @ [r]) k = first_shown rs k" by (cases r) (simp add: first_shown_def map_add_def)
next
  assume "k \<notin> fst ` set rs"
  then have "map_of rs k = None" by (simp add: map_of_eq_None_iff)
  then show "first_shown (rs @ [(k, s)]) k = key_shown s" by (simp add: first_shown_def map_add_def)
qed

lemma counted_mem_iff:
  "counted hash W rs seen \<Longrightarrow>
     (k, v) \<in> set seen \<longleftrightarrow> hash k \<in> W \<and> k \<in> fst ` set rs \<and> v = (rows_with rs k, first_shown rs k)"
  unfolding counted_def using bt_get_Some_iff [of seen k v] by (auto split: if_splits)

lemma counted_step:
  assumes c: "counted hash W rs seen" and "length rs < 2 ^ 64 - 1"
  shows "counted hash W (rs @ [r]) (count_row hash W r seen)"
proof -
  obtain k0 s where r: "r = (k0, s)" by fastforce
  have le: "rows_with rs k0 < 2 ^ 64 - 1" using assms(2) rows_with_le [of rs k0] by linarith
  have wf: "bt_wf seen" and get: "\<And>k. bt_get seen k =
    (if hash k \<in> W \<and> k \<in> fst ` set rs then Some (rows_with rs k, first_shown rs k) else None)"
    using c by (auto simp: counted_def)
  have row: "count_row hash W r seen =
      (if hash k0 \<notin> W then seen
       else bt_insert k0 (rows_with (rs @ [r]) k0, first_shown (rs @ [r]) k0) seen)"
  proof (cases "k0 \<in> fst ` set rs")
    case True
    with le r show ?thesis by (simp add: count_row_def Let_def get first_shown_snoc(1))
  next
    case False
    then have "rows_with rs k0 = 0" by (simp add: rows_with_0_iff)
    with False r show ?thesis by (simp add: count_row_def Let_def get first_shown_snoc(2))
  qed
  have other: "k \<noteq> k0 \<Longrightarrow> bt_get seen k =
    (if hash k \<in> W \<and> k \<in> fst ` set (rs @ [r])
     then Some (rows_with (rs @ [r]) k, first_shown (rs @ [r]) k) else None)" for k
    using get [of k] r by (auto simp: first_shown_snoc(1))
  have "bt_get (count_row hash W r seen) k =
    (if hash k \<in> W \<and> k \<in> fst ` set (rs @ [r])
     then Some (rows_with (rs @ [r]) k, first_shown (rs @ [r]) k) else None)" for k
  proof (cases "k = k0")
    case True
    have "k0 \<in> fst ` set (rs @ [r])" using r by simp
    then show ?thesis using True row get [of k0] by simp
  next
    case False
    with other [OF False] row show ?thesis by simp
  qed
  with wf row show ?thesis by (simp add: counted_def)
qed

lemma counted_fold:
  "length rs < 2 ^ 64 \<Longrightarrow> counted hash W rs (fold (count_row hash W) rs [])"
proof (induction rs rule: rev_induct)
  case Nil
  show ?case by (simp add: counted_def)
next
  case (snoc r rs)
  then have "length rs < 2 ^ 64 - 1" by simp
  with counted_step [of hash W rs _ r] snoc show ?case by simp
qed

lemma set_duplicates_of:
  "d \<in> set (duplicates_of seen) \<longleftrightarrow> (\<exists>k. (k, du_rows d, du_key d) \<in> set seen \<and> 1 < du_rows d)"
  by (cases d) (force simp: duplicates_of_def)

definition genuine :: "(string \<times> string option) list \<Rightarrow> duplicate \<Rightarrow> bool" where
  "genuine rows d \<longleftrightarrow>
     (\<exists>k s. (k, s) \<in> set rows \<and> du_key d = key_shown s \<and> du_rows d = rows_with rows k \<and> 2 \<le> rows_with rows k)"

lemma rows_with_mset: "mset rs = mset rows \<Longrightarrow> rows_with rs k = rows_with rows k"
  unfolding rows_with_def by (metis count_mset mset_map)

lemma duplicates_genuine:
  assumes "counted hash W rs seen" and m: "mset rs = mset rows" and "d \<in> set (duplicates_of seen)"
  shows "genuine rows d"
proof -
  from assms(3) obtain k where mem: "(k, du_rows d, du_key d) \<in> set seen" and two: "1 < du_rows d"
    by (auto simp: set_duplicates_of)
  from mem have k: "k \<in> fst ` set rs" "du_rows d = rows_with rs k" "du_key d = first_shown rs k"
    by (simp_all add: counted_mem_iff [OF assms(1)])
  from k(1) obtain s where s: "map_of rs k = Some s" by (metis map_of_eq_None_iff not_Some_eq)
  then have "(k, s) \<in> set rs" by (rule map_of_SomeD)
  then have "(k, s) \<in> set rows" using m mset_eq_setD by blast
  moreover have "du_key d = key_shown s" using k(3) s by (simp add: first_shown_def)
  moreover have "du_rows d = rows_with rows k" using k(2) rows_with_mset [OF m] by simp
  ultimately show ?thesis using two unfolding genuine_def by (intro exI [of _ k] exI [of _ s]) simp
qed

lemma duplicates_complete:
  assumes "counted hash W rs seen" and m: "mset rs = mset rows" and "hash k \<in> W" and "2 \<le> rows_with rows k"
  shows "duplicates_of seen \<noteq> []"
proof -
  have two: "2 \<le> rows_with rs k" using assms(4) rows_with_mset [OF m] by simp
  then have "k \<in> fst ` set rs" using rows_with_0_iff [of rs k] by linarith
  with assms(3) have "(k, rows_with rs k, first_shown rs k) \<in> set seen" by (simp add: counted_mem_iff [OF assms(1)])
  then have "\<lparr>du_key = first_shown rs k, du_rows = rows_with rs k\<rparr> \<in> set (duplicates_of seen)"
    using two by (auto simp: set_duplicates_of)
  then show ?thesis by force
qed

lemma verify_chunks_exact:
  assumes "verify_chunks env hash wanted cs out n = Inr (out', n')" and rows: "holds_rows env rows"
    and "\<forall>d \<in> set out. genuine rows d" and "0 < wanted"
  shows "(\<forall>d \<in> set out'. genuine rows d)
    \<and> ((\<exists>k. 2 \<le> rows_with rows k \<and> hash k \<in> set (concat cs)) \<or> out \<noteq> [] \<longrightarrow> out' \<noteq> [])"
  using assms(1,3)
proof (induction cs arbitrary: out n)
  case (Cons ch cs)
  from Cons.prems(1) obtain bs seen where bs: "ge_scan env n = Inr bs"
    and seen: "count_batches hash (set ch) bs [] = Inr seen"
    and rest: "(if length (out @ duplicates_of seen) \<ge> wanted then Inr (out @ duplicates_of seen, n + 1)
                else verify_chunks env hash wanted cs (out @ duplicates_of seen) (n + 1)) = Inr (out', n')"
    by (auto simp: Let_def)
  from count_batches_rows [OF seen] obtain rs where rs: "rows_of bs = Inr rs"
    and fold: "seen = fold (count_row hash (set ch)) rs []" by blast
  have m: "mset rs = mset rows" using rows bs rs by (auto simp: holds_rows_def)
  then have "length rs = length rows" by (rule mset_eq_length)
  then have c: "counted hash (set ch) rs seen" using counted_fold rows fold by (simp add: holds_rows_def)
  have gen: "\<forall>d \<in> set (out @ duplicates_of seen). genuine rows d"
    using Cons.prems(2) duplicates_genuine [OF c m] by auto
  have comp: "duplicates_of seen \<noteq> []" if "2 \<le> rows_with rows k" "hash k \<in> set ch" for k
    using duplicates_complete [OF c m that(2,1)] .
  show ?case
  proof (cases "length (out @ duplicates_of seen) \<ge> wanted")
    case True
    with rest gen assms(4) show ?thesis by auto
  next
    case False
    with rest have "verify_chunks env hash wanted cs (out @ duplicates_of seen) (n + 1) = Inr (out', n')" by simp
    from Cons.IH [OF this gen] comp show ?thesis by auto
  qed
qed auto

lemma concat_chunks: "0 < n \<Longrightarrow> concat (chunks n xs) = xs"
  by (induction n xs rule: chunks.induct) (subst chunks.simps, simp)

section \<open>The check\<close>

definition outstanding :: "(string \<Rightarrow> nat) \<Rightarrow> (string \<times> string option) list \<Rightarrow> key_class list \<Rightarrow> duplicate list \<Rightarrow> bool" where
  "outstanding hash rows queue found \<longleftrightarrow>
     (\<forall>d \<in> set found. genuine rows d)
     \<and> (\<forall>k. 2 \<le> rows_with rows k \<longrightarrow> found \<noteq> [] \<or> (\<exists>c \<in> set queue. kc_holds c (hash k)))
     \<and> (\<forall>c \<in> set queue. 0 < kc_modulus c)"

lemma class_candidates:
  assumes "scan_class env hash c ceil n = Inr (Candidates cs)" and "holds_rows env rows"
    and "2 \<le> rows_with rows k" and "kc_holds c (hash k)"
  shows "hash k \<in> set cs"
proof -
  from assms(1) obtain bs where bs: "ge_scan env n = Inr bs"
    and scan: "scan_batches hash c (max (hashes_per_pass ceil) 1) bs ([], []) = Inr (Candidates cs)"
    by (auto simp: scan_class_def)
  from scan_batches_candidates [OF scan pass_inv_start] obtain rs where rs: "rows_of bs = Inr rs"
    and cs: "set cs = {h. 2 \<le> count_list (in_class hash c (map fst rs)) h}" by auto
  have "rows_with rs k = rows_with rows k"
    using assms(2) bs rs by (intro rows_with_mset) (simp add: holds_rows_def)
  then have two: "2 \<le> count_list (map fst rs) k" using assms(3) by (simp add: rows_with_def)
  have "count_list ks k \<le> count_list (in_class hash c ks) (hash k)" for ks
    using assms(4) by (induction ks) auto
  from order_trans [OF two this] show ?thesis using cs by simp
qed

lemma split_covers:
  assumes s: "kc_split c = Some (a, b)" and "kc_holds c h" and "0 < kc_modulus c"
  shows "kc_holds a h \<or> kc_holds b h" and "0 < kc_modulus a" and "0 < kc_modulus b"
proof -
  let ?m = "kc_modulus c"
  have m: "?m * 2 < 2 ^ 64" and a: "a = \<lparr>kc_modulus = ?m * 2, kc_residue = kc_residue c\<rparr>"
    and b: "b = \<lparr>kc_modulus = ?m * 2, kc_residue = u64_add (kc_residue c) ?m\<rparr>"
    using s by (auto simp: kc_split_def split: if_splits)
  have r: "kc_residue c = h mod ?m" using assms(2) by (simp add: kc_holds_def)
  have "h mod ?m < ?m" using assms(3) by simp
  then have "h mod ?m + ?m < 2 ^ 64" using m by linarith
  then have exact: "u64_add (kc_residue c) ?m = h mod ?m + ?m" by (simp add: r u64_def)
  have "h mod (?m * 2) = h mod ?m \<or> h mod (?m * 2) = h mod ?m + ?m"
  proof -
    have "h mod (?m * 2) = ?m * (h div ?m mod 2) + h mod ?m" by (rule mod_mult2_eq)
    then show ?thesis by (cases "h div ?m mod 2 = 0") auto
  qed
  then show "kc_holds a h \<or> kc_holds b h" using exact r by (simp add: a b kc_holds_def)
  show "0 < kc_modulus a" "0 < kc_modulus b" using assms(3) by (simp_all add: a b)
qed

lemma verified_exactly:
  assumes "verify_candidates env hash cs wanted n = Inr (out, n')" and "holds_rows env rows" and "0 < wanted"
  shows "\<forall>d \<in> set out. genuine rows d"
    and "\<exists>k. 2 \<le> rows_with rows k \<and> hash k \<in> set cs \<Longrightarrow> out \<noteq> []"
proof -
  have c: "concat (chunks verify_chunk cs) = cs" by (rule concat_chunks) (simp add: verify_chunk_def)
  note e = verify_chunks_exact [OF assms(1) [unfolded verify_candidates_def] assms(2) _ assms(3)]
  show "\<forall>d \<in> set out. genuine rows d" using e by simp
  show "out \<noteq> []" if "\<exists>k. 2 \<le> rows_with rows k \<and> hash k \<in> set cs"
    using e that by (simp only: c) simp
qed

lemma check_loop_exact:
  assumes "check_loop env hash ceil examples queue found passes n = Inr (found', passes')"
    and "holds_rows env rows" and "outstanding hash rows queue found" and "length found < examples"
    and "passes \<le> 1024"
  shows "(\<forall>d \<in> set found'. genuine rows d) \<and> ((\<exists>k. 2 \<le> rows_with rows k) \<longrightarrow> found' \<noteq> []) \<and> passes' \<le> 1024"
  using assms(1,3,4,5,2)
proof (induction env hash ceil examples queue found passes n rule: check_loop.induct)
  case (1 env hash ceil examples queue found passes n)
  note out = "1.prems"(2) [unfolded outstanding_def]
  show ?case
  proof (cases queue)
    case Nil
    with "1.prems" show ?thesis by (simp add: check_loop.simps outstanding_def)
  next
    case (Cons c q)
    have lim: "\<not> passes \<ge> saturating_mul_u64 max_passes 4"
      using "1.prems"(1) by (subst (asm) check_loop.simps) (auto simp: Cons split: if_splits)
    then have p: "passes + 1 \<le> 1024" by (simp add: saturating_mul_u64_def max_passes_def)
    from "1.prems"(1) lim obtain o' where o': "scan_class env hash c ceil n = Inr o'"
      by (subst (asm) check_loop.simps) (auto simp: Cons split: sum.splits)
    show ?thesis
    proof (cases o')
      case Overflowed
      from "1.prems"(1) lim obtain a b where s: "kc_split c = Some (a, b)"
        and rest: "check_loop env hash ceil examples (a # b # q) found (passes + 1) (n + 1) = Inr (found', passes')"
        by (subst (asm) check_loop.simps) (auto simp: Cons o' Overflowed split: option.splits)
      have pos: "0 < kc_modulus c" using out Cons by simp
      have "outstanding hash rows (a # b # q) found"
        unfolding outstanding_def using out Cons split_covers(1) [OF s _ pos] split_covers(2,3) [OF s _ pos, of "kc_residue c"] s
        by (auto simp: kc_split_def split: if_splits)
      with "1.IH"(1) [OF Cons lim o' Overflowed s refl rest] "1.prems"(3,5) p show ?thesis by simp
    next
      case (Candidates cs)
      note cand = class_candidates [OF o' [unfolded Candidates] "1.prems"(5)]
      show ?thesis
      proof (cases "cs = []")
        case True
        with "1.prems"(1) lim have rest: "check_loop env hash ceil examples q found (passes + 1) (n + 1) = Inr (found', passes')"
          by (subst (asm) check_loop.simps) (auto simp: Cons o' Candidates)
        have "outstanding hash rows q found"
          using out cand True unfolding outstanding_def Cons by fastforce
        with "1.IH"(2) [OF Cons lim o' Candidates True rest] "1.prems"(3,5) p show ?thesis by simp
      next
        case False
        from "1.prems"(1) lim False obtain extra n' where v: "verify_candidates env hash cs (examples - length found) (n + 1) = Inr (extra, n')"
          and rest: "(if length (found @ extra) \<ge> examples then Inr (found @ extra, passes + 1)
              else check_loop env hash ceil examples q (found @ extra) (passes + 1) n') = Inr (found', passes')"
          by (subst (asm) check_loop.simps) (auto simp: Cons o' Candidates split: sum.splits)
        have w: "0 < examples - length found" using "1.prems"(3) by simp
        note ve = verified_exactly [OF v "1.prems"(5) w]
        have gen: "\<forall>d \<in> set (found @ extra). genuine rows d" using ve(1) out by auto
        have here: "extra \<noteq> []" if "2 \<le> rows_with rows k" "kc_holds c (hash k)" for k
          using ve(2) cand that by blast
        show ?thesis
        proof (cases "length (found @ extra) \<ge> examples")
          case True
          with rest have "found' = found @ extra" "passes' = passes + 1" by simp_all
          with gen p True "1.prems"(3) show ?thesis by auto
        next
          case more: False
          with rest have rest: "check_loop env hash ceil examples q (found @ extra) (passes + 1) n' = Inr (found', passes')" by simp
          have "outstanding hash rows q (found @ extra)"
            using out gen here unfolding outstanding_def Cons by fastforce
          with "1.IH"(3) [OF Cons lim o' Candidates False v refl more rest] more p "1.prems"(5) show ?thesis by simp
        qed
      qed
    qed
  qed
qed

text \<open>
  C10. The startup uniqueness check is exact, whatever the hash is and however small the ceiling: when it
  answers that the target holds one row per key, no key has two rows; when it answers with duplicates,
  there are at most as many as were asked for, each a key of the target with the number of rows that
  carry it; and it has made at most 1024 passes.
\<close>

theorem uniqueness_check_is_exact:
  assumes rows: "holds_rows env rows" and "0 < examples" and check: "check_with env hash ceil examples = Inr g"
  shows "case g of
           GrainUnique _ passes \<Rightarrow> distinct (map fst rows) \<and> passes \<le> 1024
         | GrainDuplicated ds passes \<Rightarrow>
             ds \<noteq> [] \<and> length ds \<le> examples \<and> (\<forall>d \<in> set ds. genuine rows d) \<and> passes \<le> 1024"
proof -
  obtain lr bytes where lr: "live_rows (ge_files env) = (lr, bytes)" by fastforce
  let ?n0 = "initial_modulus lr bytes ceil"
  let ?q = "map (\<lambda>r. \<lparr>kc_modulus = ?n0, kc_residue = r\<rparr>) [0..<?n0]"
  from check lr obtain found passes where loop: "check_loop env hash ceil examples ?q [] 0 0 = Inr (found, passes)"
    and g: "g = (if found = [] then GrainUnique lr passes else GrainDuplicated (take examples found) passes)"
    by (auto simp: check_with_def Let_def split: if_splits)
  have n0: "0 < ?n0" by (simp add: initial_modulus_def Let_def)
  have "\<exists>c \<in> set ?q. kc_holds c (hash k)" for k
    using n0 by (intro bexI [of _ "\<lparr>kc_modulus = ?n0, kc_residue = hash k mod ?n0\<rparr>"]) (simp_all add: kc_holds_def)
  then have "outstanding hash rows ?q []" using n0 by (auto simp: outstanding_def)
  from check_loop_exact [OF loop rows this] assms(2)
  have gen: "\<forall>d \<in> set found. genuine rows d" "(\<exists>k. 2 \<le> rows_with rows k) \<longrightarrow> found \<noteq> []" "passes \<le> 1024"
    by simp_all
  have "distinct (map fst rows)" if "found = []"
    unfolding distinct_count_atmost_1 using gen(2) that
    by (metis count_list_0_iff count_mset linorder_not_less not_less_eq_eq numeral_2_eq_2 One_nat_def le_antisym less_one
        rows_with_def set_mset_mset in_multiset_in_set not_in_iff)
  with gen g assms(2) show ?thesis by (auto dest: in_set_takeD)
qed

definition example_scan :: grain_env where
  "example_scan =
     \<lparr>ge_files = [\<lparr>lf_size = 10, lf_num_records = Some 6, lf_deleted = None\<rparr>],
      ge_scan = (\<lambda>_. Inr [\<lparr>ky_rows = Inr [(''a'', Some ''1''), (''b'', Some ''2''), (''c'', Some ''3'')], ky_cast = Inr ()\<rparr>,
                         \<lparr>ky_rows = Inr [(''d'', Some ''4''), (''a'', Some ''1''), (''e'', Some ''5'')], ky_cast = Inr ()\<rparr>])\<rparr>"

definition example_hash :: "string \<Rightarrow> nat" where
  "example_hash k = (case k of [] \<Rightarrow> 0 | c # _ \<Rightarrow> of_char c)"

definition example_ceiling :: ceiling where
  "example_ceiling = \<lparr>ce_bytes = 37, ce_source = CeilingConfigured\<rparr>"

lemma example_pass:
  "hashes_per_pass example_ceiling = 4"
  "scan_class example_scan example_hash \<lparr>kc_modulus = 2, kc_residue = 0\<rparr> example_ceiling n = Inr (Candidates [])"
  "scan_class example_scan example_hash \<lparr>kc_modulus = 2, kc_residue = Suc 0\<rparr> example_ceiling n = Inr (Candidates [97])"
proof -
  show hpp: "hashes_per_pass example_ceiling = 4" by (simp add: hashes_per_pass_def example_ceiling_def)
  show "scan_class example_scan example_hash \<lparr>kc_modulus = 2, kc_residue = 0\<rparr> example_ceiling n = Inr (Candidates [])"
    and "scan_class example_scan example_hash \<lparr>kc_modulus = 2, kc_residue = Suc 0\<rparr> example_ceiling n = Inr (Candidates [97])"
    by (simp_all add: scan_class_def hpp example_scan_def kc_holds_def example_hash_def compact_def Let_def cong: if_cong)
qed

lemma example_verify:
  "verify_candidates example_scan example_hash [97] 3 n = Inr ([\<lparr>du_key = ''1'', du_rows = 2\<rparr>], n + 1)"
  by (simp add: verify_candidates_def verify_chunk_def chunks.simps example_scan_def count_row_def example_hash_def
      key_shown_def duplicates_of_def u64_add_def)

lemma example_check:
  "check_with example_scan example_hash example_ceiling 3 = Inr (GrainDuplicated [\<lparr>du_key = ''1'', du_rows = 2\<rparr>] 2)"
proof -
  have rows: "live_rows (ge_files example_scan) = (Some 6, 10)"
    by (simp add: live_rows_def live_file_rows_def example_scan_def saturating_add_u64_def Let_def)
  have "initial_modulus (Some 6) 10 example_ceiling = 2"
    by (simp add: initial_modulus_def example_pass(1) saturating_mul_u64_def div_ceil_def)
  with rows show ?thesis
    by (simp add: check_with_def max_passes_def saturating_mul_u64_def check_loop.simps example_pass example_verify upt_rec)
qed

definition example_rows :: "(string \<times> string option) list" where
  "example_rows = [(''a'', Some ''1''), (''b'', Some ''2''), (''c'', Some ''3''), (''d'', Some ''4''),
                   (''a'', Some ''1''), (''e'', Some ''5'')]"

lemma example_holds_rows: "holds_rows example_scan example_rows"
  unfolding holds_rows_def by (auto simp: example_scan_def example_rows_def)

theorem uniqueness_check_is_exact_witness:
  "\<exists>ds. ds = [\<lparr>du_key = ''1'', du_rows = 2\<rparr>]
     \<and> check_with example_scan example_hash example_ceiling 3 = Inr (GrainDuplicated ds 2)
     \<and> (\<forall>d \<in> set ds. genuine example_rows d)"
  using uniqueness_check_is_exact [OF example_holds_rows _ example_check] example_check by simp

section \<open>Its cost and its failures\<close>

definition scan_fails_with :: "grain_env \<Rightarrow> error \<Rightarrow> bool" where
  "scan_fails_with env e \<longleftrightarrow>
     (\<exists>n. ge_scan env n = Inl e
        \<or> (\<exists>bs b. ge_scan env n = Inr bs \<and> b \<in> set bs \<and> (ky_rows b = Inl e \<or> ky_cast b = Inl e)))"

lemma scan_batches_error:
  "scan_batches hash c cap bs st = Inl e \<Longrightarrow> \<exists>b \<in> set bs. ky_rows b = Inl e"
  by (induction hash c cap bs st rule: scan_batches.induct) (auto split: sum.splits option.splits)

lemma scan_class_error: "scan_class env hash c ceil n = Inl e \<Longrightarrow> scan_fails_with env e"
  unfolding scan_class_def scan_fails_with_def
  by (auto simp: res_bind_Inl_iff dest!: scan_batches_error intro!: exI [of _ n])

lemma count_batches_error:
  "count_batches hash W bs seen = Inl e \<Longrightarrow> \<exists>b \<in> set bs. ky_rows b = Inl e \<or> ky_cast b = Inl e"
  by (induction hash W bs seen rule: count_batches.induct) (auto simp: res_bind_Inl_iff split: if_splits)

lemma verify_chunks_error:
  "verify_chunks env hash wanted cs out n = Inl e \<Longrightarrow> scan_fails_with env e"
proof (induction env hash wanted cs out n rule: verify_chunks.induct)
  case (2 env hash wanted ch cs out n)
  show ?case
  proof (cases "ge_scan env n")
    case (Inl e')
    with 2 show ?thesis by (auto simp: scan_fails_with_def)
  next
    case bs: (Inr bs)
    show ?thesis
    proof (cases "count_batches hash (set ch) bs []")
      case (Inl e')
      with 2 bs have "count_batches hash (set ch) bs [] = Inl e" by simp
      from count_batches_error [OF this] bs show ?thesis by (auto simp: scan_fails_with_def)
    next
      case (Inr seen)
      with 2 bs show ?thesis by (auto simp: Let_def split: if_splits)
    qed
  qed
qed simp

lemma check_loop_error:
  assumes "check_loop env hash ceil examples queue found passes n = Inl e"
    and "4 \<le> hashes_per_pass ceil" and "\<And>k. hash k < 2 ^ 64" and "\<forall>c \<in> set queue. 0 < kc_modulus c"
  shows "e = still_splitting \<or> scan_fails_with env e"
  using assms
proof (induction env hash ceil examples queue found passes n rule: check_loop.induct)
  case (1 env hash ceil examples queue found passes n)
  show ?case
  proof (cases queue)
    case Nil
    with "1.prems" show ?thesis by (simp add: check_loop.simps)
  next
    case (Cons c q)
    show ?thesis
    proof (cases "passes \<ge> saturating_mul_u64 max_passes 4")
      case True
      with "1.prems"(1) Cons show ?thesis by (simp add: check_loop.simps)
    next
      case lim: False
      show ?thesis
      proof (cases "scan_class env hash c ceil n")
        case (Inl e')
        with "1.prems"(1) Cons lim have "e' = e" by (simp add: check_loop.simps)
        with scan_class_error [OF Inl] show ?thesis by simp
      next
        case o': (Inr o')
        have pos: "0 < kc_modulus c" using "1.prems"(4) Cons by simp
        show ?thesis
        proof (cases o')
          case Overflowed
          have "kc_split c \<noteq> None" using overflow_can_split [OF o' [unfolded Overflowed] "1.prems"(2) pos "1.prems"(3)] .
          then obtain a b where s: "kc_split c = Some (a, b)" by fastforce
          then have "0 < kc_modulus a \<and> 0 < kc_modulus b" using pos by (auto simp: kc_split_def split: if_splits)
          moreover have "check_loop env hash ceil examples (a # b # q) found (passes + 1) (n + 1) = Inl e"
            using "1.prems"(1) Cons lim o' Overflowed s by (subst (asm) check_loop.simps) simp
          ultimately show ?thesis using "1.IH"(1) [OF Cons lim o' Overflowed s refl] "1.prems"(2-4) Cons by simp
        next
          case (Candidates cs)
          show ?thesis
          proof (cases "cs = []")
            case True
            with "1.prems"(1) Cons lim o' Candidates
            have "check_loop env hash ceil examples q found (passes + 1) (n + 1) = Inl e"
              by (subst (asm) check_loop.simps) simp
            with "1.IH"(2) [OF Cons lim o' Candidates True] "1.prems"(2-4) Cons show ?thesis by simp
          next
            case False
            show ?thesis
            proof (cases "verify_candidates env hash cs (examples - length found) (n + 1)")
              case (Inl e')
              with "1.prems"(1) Cons lim o' Candidates False have "e' = e" by (simp add: check_loop.simps)
              with verify_chunks_error Inl show ?thesis by (auto simp: verify_candidates_def)
            next
              case (Inr r)
              obtain extra n' where r: "r = (extra, n')" by fastforce
              with "1.prems"(1) Cons lim o' Candidates False Inr have more: "\<not> length (found @ extra) \<ge> examples"
                and "check_loop env hash ceil examples q (found @ extra) (passes + 1) n' = Inl e"
                by (subst (asm) check_loop.simps, simp split: if_splits)+
              with "1.IH"(3) [OF Cons lim o' Candidates False Inr r [symmetric] more] "1.prems"(2-4) Cons show ?thesis by simp
            qed
          qed
        qed
      qed
    qed
  qed
qed

text \<open>
  C11. With a ceiling of at least four hashes and a 64-bit hash the check is bounded in memory and in
  passes, and its one unreachable error is unreachable: between two rows a pass holds fewer hashes than the
  ceiling; a class that overflows can always be split again; and the check fails only because reading the
  target fails, because it would start with more than 256 passes, or because it has made 1024.
\<close>

theorem uniqueness_check_is_bounded:
  assumes cap: "4 \<le> hashes_per_pass ceil" and hash: "\<And>k. hash k < 2 ^ 64"
  shows "(\<forall>ks hashes nominated.
            scan_keys hash c (hashes_per_pass ceil) ks ([], []) = Some (hashes, nominated)
              \<longrightarrow> length hashes + length nominated < hashes_per_pass ceil)
         \<and> (0 < kc_modulus c \<and> scan_class env hash c ceil n = Inr Overflowed \<longrightarrow> kc_split c \<noteq> None)
         \<and> (check_with env hash ceil examples = Inl e
              \<longrightarrow> e = too_many_passes \<or> e = still_splitting \<or> scan_fails_with env e)"
proof (intro conjI impI allI)
  fix ks hashes nominated
  assume "scan_keys hash c (hashes_per_pass ceil) ks ([], []) = Some (hashes, nominated)"
  from scan_keys_bound [OF this] cap show "length hashes + length nominated < hashes_per_pass ceil" by simp
next
  assume "0 < kc_modulus c \<and> scan_class env hash c ceil n = Inr Overflowed"
  then show "kc_split c \<noteq> None" using overflow_can_split [of env hash c ceil n, OF _ cap _ hash] by blast
next
  assume e: "check_with env hash ceil examples = Inl e"
  obtain lr bytes where lr: "live_rows (ge_files env) = (lr, bytes)" by fastforce
  have n0: "0 < initial_modulus lr bytes ceil" by (simp add: initial_modulus_def Let_def)
  show "e = too_many_passes \<or> e = still_splitting \<or> scan_fails_with env e"
  proof (cases "initial_modulus lr bytes ceil > max_passes")
    case True
    with e lr show ?thesis by (simp add: check_with_def Let_def)
  next
    case False
    with e lr have "check_loop env hash ceil examples
        (map (\<lambda>r. \<lparr>kc_modulus = initial_modulus lr bytes ceil, kc_residue = r\<rparr>) [0..<initial_modulus lr bytes ceil]) [] 0 0 = Inl e"
      by (auto simp: check_with_def Let_def res_bind_Inl_iff)
    from check_loop_error [OF this cap hash] n0 show ?thesis by auto
  qed
qed

theorem uniqueness_check_is_bounded_witness:
  "(check_with \<lparr>ge_files = [], ge_scan = (\<lambda>_. Inl E_Io)\<rparr> example_hash example_ceiling 3 = Inl E_Io)
   \<and> (E_Io = too_many_passes \<or> E_Io = still_splitting \<or> scan_fails_with \<lparr>ge_files = [], ge_scan = (\<lambda>_. Inl E_Io)\<rparr> E_Io)"
proof -
  let ?env = "\<lparr>ge_files = [], ge_scan = (\<lambda>_. Inl E_Io)\<rparr>"
  have hash: "\<And>k. example_hash k < 2 ^ 64"
  proof -
    fix k
    have "of_char c < (256 :: nat)" for c by (cases c) (simp add: of_char_def)
    from less_trans [OF this] have "of_char c < (2 ^ 64 :: nat)" for c by simp
    then show "example_hash k < 2 ^ 64" by (simp add: example_hash_def split: list.split)
  qed
  have "initial_modulus (Some 0) 0 example_ceiling = 1"
    by (simp add: initial_modulus_def example_pass(1) saturating_mul_u64_def div_ceil_def)
  then have e: "check_with ?env example_hash example_ceiling 3 = Inl E_Io"
    by (simp add: check_with_def live_rows_def max_passes_def saturating_mul_u64_def check_loop.simps scan_class_def upt_rec)
  have "4 \<le> hashes_per_pass example_ceiling" by (simp add: example_pass(1))
  from uniqueness_check_is_bounded [OF this hash] e show ?thesis by simp
qed

end
