(* ===== verification/Supervisor.thy ===== *)
theory Supervisor
  imports Pipeline
begin

text \<open>
  \<open>src/main.rs\<close>, the supervisor of one pipeline (\<open>drive\<close>, \<open>attempt\<close>, \<open>jitter\<close>, \<open>sleep_or_cancel\<close>), and
  \<open>src/locate.rs\<close>, where its tables are. Durations are milliseconds. What happens around the supervisor
  is an argument: the catalog's answers, what opening and stepping the pipeline give, and when the
  cancellation token reads as cancelled. Of the metrics only those a pipeline's health is read from are
  state of the model; its counters of rows and files are left out.
\<close>

section \<open>Where the tables are\<close>

record resolved =
  rs_name :: string
  rs_source_uri :: string
  rs_target_uri :: string
  rs_source_relation :: "string option"
  rs_target_relation :: "string option"
  rs_lookups :: "(string option \<times> string) list" \<comment> \<open>relation and location\<close>
  rs_is_kafka :: bool
  rs_allowed_latency_secs :: nat

text \<open>\<open>None\<close> is a locator without a catalog; the state is the last location given for each relation.\<close>

type_synonym catalog = "(string \<Rightarrow> string res) option"
type_synonym known = "(string, string) bmap"

definition locate :: "catalog \<Rightarrow> string option \<Rightarrow> string \<Rightarrow> known \<Rightarrow> string \<times> known" where
  "locate client relation declared known =
     (case (client, relation) of
        (Some ask, Some r) \<Rightarrow>
          (case ask r of
             Inr found \<Rightarrow> (found, bt_insert r found known)
           | Inl _ \<Rightarrow> (case bt_get known r of Some prev \<Rightarrow> prev | None \<Rightarrow> declared, known))
      | _ \<Rightarrow> (declared, known))"

fun locate_lookups :: "catalog \<Rightarrow> (string option \<times> string) list \<Rightarrow> known \<Rightarrow> (string option \<times> string) list \<times> known" where
  "locate_lookups client [] known = ([], known)"
| "locate_lookups client ((relation, uri) # ls) known =
     (let (uri', known') = locate client relation uri known;
          (rest, known'') = locate_lookups client ls known'
      in ((relation, uri') # rest, known''))"

definition refresh_locations :: "catalog \<Rightarrow> resolved \<Rightarrow> known \<Rightarrow> resolved \<times> known" where
  "refresh_locations client cfg known =
     (if client = None then (cfg, known)
      else
        let (s, k1) = locate client (rs_source_relation cfg) (rs_source_uri cfg) known;
            (t, k2) = locate client (rs_target_relation cfg) (rs_target_uri cfg) k1;
            (ls, k3) = locate_lookups client (rs_lookups cfg) k2
        in (cfg\<lparr>rs_source_uri := s, rs_target_uri := t, rs_lookups := ls\<rparr>, k3))"

definition moved :: "resolved \<Rightarrow> resolved \<Rightarrow> bool" where
  "moved before after \<longleftrightarrow>
     rs_source_uri before \<noteq> rs_source_uri after
     \<or> rs_target_uri before \<noteq> rs_target_uri after
     \<or> length (rs_lookups before) \<noteq> length (rs_lookups after)
     \<or> list_ex (\<lambda>(b, a). snd b \<noteq> snd a) (zip (rs_lookups before) (rs_lookups after))"

section \<open>One attempt\<close>

text \<open>What a Kafka pipeline tells of its progress after a step that waited.\<close>

record kafka_turn =
  kt_counts :: bool
  kt_capacity :: bool
  kt_held_whole :: bool

text \<open>
  One turn of the loop: the token, the catalog (the locator's memory is shared by all pipelines), what reopening would give, and the step with the pipeline's
  progress.
\<close>

record turn =
  tu_cancelled :: bool
  tu_others :: "(string \<times> string) list" \<comment> \<open>what the other pipelines learned of the catalog since\<close>
  tu_catalog :: catalog
  tu_reopen :: "unit res"
  tu_step :: "step_outcome res"
  tu_kafka :: "kafka_turn option"

record health =
  he_up :: int
  he_capacity_exhausted :: int
  he_batches_committed :: nat
  he_batches_fully_rejected :: nat
  he_rows_written :: nat

definition step_health :: "step_outcome \<Rightarrow> kafka_turn option \<Rightarrow> health \<Rightarrow> health" where
  "step_health o' k h =
     (let h = (if fully_rejected o' then h\<lparr>he_batches_fully_rejected := u64_add (he_batches_fully_rejected h) 1\<rparr> else h)
      in case o' of
           Progressed _ _ rows _ _ _ _ _ _ \<Rightarrow>
             h\<lparr>he_batches_committed := u64_add (he_batches_committed h) 1, he_rows_written := u64_add (he_rows_written h) rows\<rparr>
         | Waiting \<Rightarrow>
             (case k of
                None \<Rightarrow> h
              | Some p \<Rightarrow>
                  let h = (if kt_capacity p then h\<lparr>he_capacity_exhausted := 1\<rparr> else h)
                  in h\<lparr>he_up := (if kt_held_whole p then 0 else 1)\<rparr>)
         | _ \<Rightarrow> h)"

definition counts_as_progress :: "step_outcome \<Rightarrow> kafka_turn option \<Rightarrow> bool" where
  "counts_as_progress o' k \<longleftrightarrow>
     (case o' of Waiting \<Rightarrow> (case k of Some p \<Rightarrow> kt_counts p | None \<Rightarrow> False) | _ \<Rightarrow> True)"

record attempt_state =
  as_current :: resolved
  as_known :: known
  as_progressed :: bool
  as_health :: health

text \<open>\<open>None\<close>: the turns ran out with the pipeline still running.\<close>

fun attempt_loop :: "bool \<Rightarrow> turn list \<Rightarrow> attempt_state \<Rightarrow> unit res option \<times> attempt_state" where
  "attempt_loop once [] st = (None, st)"
| "attempt_loop once (t # ts) st =
     (if tu_cancelled t then (Some (Inr ()), st)
      else
        let (fresh, known) = refresh_locations (tu_catalog t) (as_current st) (bt_extend (as_known st) (tu_others t));
            st1 = st\<lparr>as_known := known\<rparr>
        in case (if moved (as_current st) fresh
                 then (case tu_reopen t of Inl e \<Rightarrow> Inl e | Inr _ \<Rightarrow> Inr (st1\<lparr>as_current := fresh\<rparr>))
                 else Inr st1) of
             Inl e \<Rightarrow> (Some (Inl e), st1\<lparr>as_current := fresh\<rparr>)
           | Inr st2 \<Rightarrow>
               (case tu_step t of
                  Inl e \<Rightarrow> (Some (Inl e), st2)
                | Inr o' \<Rightarrow>
                    let st3 = st2\<lparr>as_progressed := (as_progressed st2 \<or> counts_as_progress o' (tu_kafka t)),
                                  as_health := step_health o' (tu_kafka t) (as_health st2)\<rparr>
                    in if o' = CaughtUp \<and> once then (Some (Inr ()), st3) else attempt_loop once ts st3))"

text \<open>\<open>Up\<close> reads 1 from the open on and 0 again however the attempt ends.\<close>

definition attempt ::
    "bool \<Rightarrow> bool \<Rightarrow> catalog \<Rightarrow> unit res \<Rightarrow> turn list \<Rightarrow> resolved \<Rightarrow> known \<Rightarrow> health \<Rightarrow> unit res option \<times> attempt_state" where
  "attempt once cancelled catalog opened turns cfg known h =
     (let st = \<lparr>as_current = cfg, as_known = known, as_progressed = False, as_health = h\<rparr>
      in if cancelled then (Some (Inr ()), st)
         else
           let (current, known) = refresh_locations catalog cfg known;
               st = st\<lparr>as_current := current, as_known := known\<rparr>
           in case opened of
                Inl e \<Rightarrow> (Some (Inl e), st)
              | Inr _ \<Rightarrow>
                  (case attempt_loop once turns (st\<lparr>as_health := h\<lparr>he_up := 1\<rparr>\<rparr>) of
                     (None, st) \<Rightarrow> (None, st)
                   | (Some r, st) \<Rightarrow> (Some r, st\<lparr>as_health := (as_health st)\<lparr>he_up := 0\<rparr>\<rparr>)))"

section \<open>The supervisor\<close>

definition retry_min :: nat where
  "retry_min = 1000"

definition retry_max :: nat where
  "retry_max = 300000"

definition jitter :: "nat \<Rightarrow> string \<Rightarrow> nat \<Rightarrow> nat" where
  "jitter d name nth_attempt =
     (let seed = foldl (\<lambda>a b. ((a * 31) mod 2 ^ 64 + of_char b) mod 2 ^ 64) nth_attempt name;
          factor = 75 + seed mod 51
      in min (d * factor) (2 ^ 64 - 1) div 100)"

definition waits_at_once :: "resolved \<Rightarrow> error \<Rightarrow> bool" where
  "waits_at_once cfg e \<longleftrightarrow>
     is_capacity e
     \<or> (case e of E_BootstrapUnreachable _ _ _ _ _ \<Rightarrow> True | E_CursorUnavailable _ _ \<Rightarrow> True | _ \<Rightarrow> False)
     \<or> (rs_is_kafka cfg \<and> kafka_waits_for_an_operator e)"

text \<open>
  The sleep in ticks: the argument lists whether the token is cancelled before each, and running out of it
  is running out of time. The result is what was slept.
\<close>

definition sleep_tick :: nat where
  "sleep_tick = 200"

fun sleep_or_cancel :: "nat \<Rightarrow> bool list \<Rightarrow> nat" where
  "sleep_or_cancel left [] = left"
| "sleep_or_cancel left (cancelled # cs) =
     (if left > 0 \<and> \<not> cancelled
      then let step = min sleep_tick left in step + sleep_or_cancel (left - step) cs
      else 0)"

text \<open>
  What one attempt gave: whether it progressed, how it ended, and whether the token was cancelled when it
  had, and after the wait that follows.
\<close>

record attempted =
  at_progressed :: bool
  at_outcome :: "unit res"
  at_cancelled :: bool
  at_cancelled_after :: bool

record backoff_state =
  bs_backoff :: nat
  bs_attempts :: nat

definition backoff_start :: backoff_state where
  "backoff_start = \<lparr>bs_backoff = retry_min, bs_attempts = 0\<rparr>"

text \<open>The waits made, and how the supervision ended, or the state it is in when the attempts run out.\<close>

fun drive :: "resolved \<Rightarrow> bool \<Rightarrow> attempted list \<Rightarrow> backoff_state \<Rightarrow> nat list \<times> (unit res + backoff_state)" where
  "drive cfg once [] b = ([], Inr b)"
| "drive cfg once (a # as) b =
     (let b = (if at_progressed a then backoff_start else b)
      in case at_outcome a of
           Inr _ \<Rightarrow> ([], Inl (Inr ()))
         | Inl e \<Rightarrow>
             if once then ([], Inl (Inl e))
             else if at_cancelled a then ([], Inl (Inr ()))
             else
               let attempts = (bs_attempts b + 1) mod 2 ^ 32;
                   backoff = (if waits_at_once cfg e then retry_max else bs_backoff b);
                   wait = jitter backoff (rs_name cfg) attempts
               in if at_cancelled_after a then ([wait], Inl (Inr ()))
                  else
                    let (waits, r) = drive cfg once as
                          \<lparr>bs_backoff = min retry_max (backoff * 2), bs_attempts = attempts\<rparr>
                    in (wait # waits, r))"

section \<open>Waits\<close>

lemma jitter_bounds:
  assumes "d \<le> retry_max"
  shows "d * 75 div 100 \<le> jitter d name n" and "jitter d name n \<le> d * 125 div 100"
proof -
  define f where "f = foldl (\<lambda>a b. ((a * 31) mod 2 ^ 64 + of_char b) mod 2 ^ 64) n name mod 51"
  have f: "f \<le> 50" unfolding f_def using mod_less_divisor [of 51] by (simp add: less_Suc_eq_le [symmetric])
  have j: "jitter d name n = min (d * (75 + f)) (2 ^ 64 - 1) div 100" by (simp add: jitter_def f_def)
  have le: "d * (75 + f) \<le> d * 125" using f by simp
  also have "d * 125 \<le> 300000 * 125" using assms by (simp add: retry_max_def)
  finally have "min (d * (75 + f)) (2 ^ 64 - 1) = d * (75 + f)" by simp
  then have j: "jitter d name n = d * (75 + f) div 100" using j by simp
  show "d * 75 div 100 \<le> jitter d name n" unfolding j by (rule div_le_mono) simp
  show "jitter d name n \<le> d * 125 div 100" unfolding j by (rule div_le_mono [OF le])
qed

lemma sleep_at_most: "sleep_or_cancel left cs \<le> left"
  by (induction left cs rule: sleep_or_cancel.induct) (auto simp: Let_def)

lemma sleep_ends_with_the_token: "left > 0 \<Longrightarrow> sleep_or_cancel left (replicate n False @ True # cs) \<le> n * sleep_tick"
proof (induction n arbitrary: left)
  case (Suc n)
  show ?case
  proof (cases "left - min sleep_tick left > 0")
    case True
    with Suc show ?thesis by (simp add: Let_def)
  next
    case False
    then have "sleep_or_cancel (left - min sleep_tick left) (replicate n False @ True # cs) = 0"
      using sleep_at_most [of "left - min sleep_tick left"] by simp
    with Suc.prems show ?thesis by (simp add: Let_def)
  qed
qed simp

definition backoff_ok :: "backoff_state \<Rightarrow> bool" where
  "backoff_ok b \<longleftrightarrow> retry_min \<le> bs_backoff b \<and> bs_backoff b \<le> retry_max"

lemma backoff_start_ok [simp]: "backoff_ok backoff_start"
  by (simp add: backoff_ok_def backoff_start_def retry_min_def retry_max_def)

text \<open>An attempt that ends in an error nobody cancelled, and one more thing the supervisor does about it.\<close>

definition failed :: "attempted \<Rightarrow> bool" where
  "failed a \<longleftrightarrow> (\<exists>e. at_outcome a = Inl e) \<and> \<not> at_cancelled a \<and> \<not> at_cancelled_after a"

definition next_backoff :: "resolved \<Rightarrow> attempted \<Rightarrow> backoff_state \<Rightarrow> backoff_state" where
  "next_backoff cfg a b =
     (let b = (if at_progressed a then backoff_start else b);
          backoff = (case at_outcome a of Inl e \<Rightarrow> if waits_at_once cfg e then retry_max else bs_backoff b | Inr _ \<Rightarrow> bs_backoff b)
      in \<lparr>bs_backoff = backoff, bs_attempts = (bs_attempts b + 1) mod 2 ^ 32\<rparr>)"

definition doubled :: "backoff_state \<Rightarrow> backoff_state" where
  "doubled b = \<lparr>bs_backoff = min retry_max (bs_backoff b * 2), bs_attempts = bs_attempts b\<rparr>"

definition wait_of :: "resolved \<Rightarrow> backoff_state \<Rightarrow> nat" where
  "wait_of cfg b = jitter (bs_backoff b) (rs_name cfg) (bs_attempts b)"

lemma drive_failed:
  assumes "failed a"
  shows "drive cfg False (a # as) b =
     (let n = next_backoff cfg a b; (waits, r) = drive cfg False as (doubled n) in (wait_of cfg n # waits, r))"
  using assms by (auto simp: failed_def next_backoff_def doubled_def wait_of_def Let_def split: prod.splits)

lemma next_backoff_ok: "backoff_ok b \<Longrightarrow> backoff_ok (next_backoff cfg a b)"
  by (auto simp: backoff_ok_def next_backoff_def backoff_start_def Let_def retry_min_def retry_max_def split: sum.splits)

lemma doubled_ok: "backoff_ok b \<Longrightarrow> backoff_ok (doubled b)"
  by (auto simp: backoff_ok_def doubled_def retry_min_def retry_max_def)

lemma wait_of_bounds:
  assumes "backoff_ok b"
  shows "bs_backoff b * 75 div 100 \<le> wait_of cfg b" and "wait_of cfg b \<le> bs_backoff b * 125 div 100"
  using jitter_bounds assms by (simp_all add: wait_of_def backoff_ok_def)

lemma wait_within:
  assumes "backoff_ok b"
  shows "750 \<le> wait_of cfg b \<and> wait_of cfg b \<le> 375000"
proof -
  have "1000 * 75 div 100 \<le> bs_backoff b * 75 div 100" "bs_backoff b * 125 div 100 \<le> 300000 * 125 div 100"
    using assms unfolding backoff_ok_def retry_min_def retry_max_def by (intro div_le_mono; simp)+
  with wait_of_bounds [OF assms, of cfg] show ?thesis by simp
qed

section \<open>The supervisor never gives up\<close>

declare drive.simps(2) [simp del]

lemma drive_failedE:
  assumes "drive cfg False (a # as) b = (waits, r)" and "failed a"
  obtains ws where "drive cfg False as (doubled (next_backoff cfg a b)) = (ws, r)" "waits = wait_of cfg (next_backoff cfg a b) # ws"
  using assms unfolding drive_failed [OF assms(2)] by (auto simp: Let_def split: prod.splits)

lemma drive_failed_all:
  assumes "backoff_ok b" and "list_all failed as" and "drive cfg False as b = (waits, r)"
  shows "(\<exists>b'. r = Inr b' \<and> backoff_ok b') \<and> length waits = length as"
    and "\<forall>i < length waits. 750 \<le> waits ! i \<and> waits ! i \<le> 375000
           \<and> ((\<exists>e. at_outcome (as ! i) = Inl e \<and> waits_at_once cfg e) \<longrightarrow> 225000 \<le> waits ! i)"
  using assms
proof (induction as arbitrary: b waits)
  case (Cons a as)
  { case 1
    define n where "n = next_backoff cfg a b"
    obtain ws where ws: "drive cfg False as (doubled n) = (ws, r)" "waits = wait_of cfg n # ws"
      unfolding n_def using 1(2,3) by (auto elim: drive_failedE)
    have ok: "backoff_ok (doubled n)" using 1(1) by (simp add: n_def doubled_ok next_backoff_ok)
    show ?case using Cons.IH(1) [OF ok _ ws(1)] 1(2) by (simp add: ws(2))
  next
    case 2
    define n where "n = next_backoff cfg a b"
    obtain ws where ws: "drive cfg False as (doubled n) = (ws, r)" "waits = wait_of cfg n # ws"
      unfolding n_def using 2(2,3) by (auto elim: drive_failedE)
    have n: "backoff_ok n" using 2(1) by (simp add: n_def next_backoff_ok)
    have head: "225000 \<le> wait_of cfg n" if "at_outcome a = Inl e" "waits_at_once cfg e" for e
    proof -
      have "bs_backoff n = 300000" using that by (simp add: n_def next_backoff_def Let_def retry_max_def)
      with wait_of_bounds(1) [OF n, of cfg] show ?thesis by simp
    qed
    show ?case
    proof (intro allI impI)
      fix i assume i: "i < length waits"
      show "750 \<le> waits ! i \<and> waits ! i \<le> 375000
        \<and> ((\<exists>e. at_outcome ((a # as) ! i) = Inl e \<and> waits_at_once cfg e) \<longrightarrow> 225000 \<le> waits ! i)"
      proof (cases i)
        case 0
        with wait_within [OF n, of cfg] head show ?thesis by (auto simp: ws(2))
      next
        case (Suc j)
        with Cons.IH(2) [OF doubled_ok [OF n] _ ws(1)] 2(2) i show ?thesis by (simp add: ws(2))
      qed
    qed
  }
qed auto

definition ordinary :: "resolved \<Rightarrow> attempted \<Rightarrow> bool" where
  "ordinary cfg a \<longleftrightarrow> failed a \<and> (\<forall>e. at_outcome a = Inl e \<longrightarrow> \<not> waits_at_once cfg e)"

lemma next_backoff_ordinary:
  "ordinary cfg a \<Longrightarrow> bs_backoff (next_backoff cfg a b) = (if at_progressed a then retry_min else bs_backoff b)"
  by (auto simp: ordinary_def next_backoff_def backoff_start_def Let_def split: sum.splits)

lemma drive_doubles:
  assumes "bs_backoff b = min retry_max (retry_min * 2 ^ k)" and "list_all (ordinary cfg) as"
    and "list_all (\<lambda>a. \<not> at_progressed a) as" and "drive cfg False as b = (waits, r)" and "i < length waits"
  shows "min 300000 (1000 * 2 ^ (k + i)) * 75 div 100 \<le> waits ! i \<and> waits ! i \<le> min 300000 (1000 * 2 ^ (k + i)) * 125 div 100"
  using assms
proof (induction as arbitrary: b waits k i)
  case (Cons a as)
  define n where "n = next_backoff cfg a b"
  have "failed a" using Cons.prems(2) by (simp add: ordinary_def)
  then obtain ws where ws: "drive cfg False as (doubled n) = (ws, r)" "waits = wait_of cfg n # ws"
    unfolding n_def using Cons.prems(4) by (auto elim: drive_failedE)
  have n: "bs_backoff n = min 300000 (1000 * 2 ^ k)"
    using Cons.prems(1-3) by (simp add: n_def next_backoff_ordinary retry_max_def retry_min_def)
  then have ok: "backoff_ok n" by (simp add: backoff_ok_def retry_max_def retry_min_def)
  have d: "bs_backoff (doubled n) = min retry_max (retry_min * 2 ^ Suc k)"
    by (simp add: doubled_def n retry_max_def retry_min_def min_def)
  show ?case
  proof (cases i)
    case 0
    with wait_of_bounds [OF ok, of cfg] show ?thesis by (simp add: ws(2) n)
  next
    case (Suc j)
    with Cons.IH [OF d _ _ ws(1), of j] Cons.prems(2,3,5) show ?thesis by (simp add: ws(2))
  qed
qed simp

lemma doubling_after_progress:
  assumes "list_all failed as" and p: "at_progressed a" "list_all (\<lambda>x. \<not> at_progressed x) as"
    and o: "list_all (ordinary cfg) (a # as)" and i: "i < Suc (length as)"
  shows "min 300000 (1000 * 2 ^ i) * 75 div 100 \<le> fst (drive cfg False (a # as) earlier) ! i
       \<and> fst (drive cfg False (a # as) earlier) ! i \<le> min 300000 (1000 * 2 ^ i) * 125 div 100"
proof -
  define n where "n = next_backoff cfg a earlier"
  have a: "failed a" using o by (simp add: ordinary_def)
  obtain ws r where ws: "drive cfg False as (doubled n) = (ws, r)" by fastforce
  have waits: "fst (drive cfg False (a # as) earlier) = wait_of cfg n # ws"
    unfolding drive_failed [OF a] using ws by (simp add: n_def Let_def)
  have n: "bs_backoff n = 1000" using o p by (simp add: n_def next_backoff_ordinary retry_min_def)
  then have ok: "backoff_ok n" "backoff_ok (doubled n)"
    by (simp_all add: backoff_ok_def doubled_def retry_max_def retry_min_def)
  have d: "bs_backoff (doubled n) = min retry_max (retry_min * 2 ^ 1)"
    by (simp add: doubled_def n retry_max_def retry_min_def)
  have len: "length ws = length as" using drive_failed_all(1) [OF ok(2) assms(1) ws] by simp
  show ?thesis
  proof (cases i)
    case 0
    with wait_of_bounds [OF ok(1), of cfg] show ?thesis by (simp add: waits n)
  next
    case (Suc j)
    with drive_doubles [OF d _ p(2) ws, of j] o i len show ?thesis by (simp add: waits)
  qed
qed

definition stumble :: "bool \<Rightarrow> error \<Rightarrow> attempted" where
  "stumble progressed e =
     \<lparr>at_progressed = progressed, at_outcome = Inl e, at_cancelled = False, at_cancelled_after = False\<rparr>"

definition example_pipeline :: resolved where
  "example_pipeline =
     \<lparr>rs_name = ''orders'', rs_source_uri = ''s3://lake/raw'', rs_target_uri = ''s3://lake/orders'',
      rs_source_relation = Some ''raw'', rs_target_relation = Some ''orders'', rs_lookups = [(Some ''dim'', ''s3://lake/dim'')],
      rs_is_kafka = False, rs_allowed_latency_secs = 10\<rparr>"

text \<open>
  C30. The supervisor never gives a failing pipeline up. However often attempts in a row fail without a
  cancellation, it is still running after them, and has waited once for each: at least 0.75 and at most 375
  seconds, and at least 225 seconds after an error only an operator or freed capacity resolves. When the
  first of the attempts had made progress, and the others have not, the wait after the i-th of ordinary
  failures is that of a backoff that starts over at a second and doubles up to five minutes, give or take
  a quarter.
\<close>

theorem failing_pipeline_is_retried:
  assumes "failed a" and "list_all failed as"
  shows "(\<exists>waits b. drive cfg False (a # as) backoff_start = (waits, Inr b) \<and> length waits = Suc (length as)
    \<and> (\<forall>i < length waits. 750 \<le> waits ! i \<and> waits ! i \<le> 375000
         \<and> ((\<exists>e. at_outcome ((a # as) ! i) = Inl e \<and> waits_at_once cfg e) \<longrightarrow> 225000 \<le> waits ! i)))
    \<and> (at_progressed a \<and> list_all (\<lambda>x. \<not> at_progressed x) as \<and> list_all (ordinary cfg) (a # as) \<longrightarrow>
        (\<forall>i < Suc (length as).
           min 300000 (1000 * 2 ^ i) * 75 div 100 \<le> fst (drive cfg False (a # as) earlier) ! i
         \<and> fst (drive cfg False (a # as) earlier) ! i \<le> min 300000 (1000 * 2 ^ i) * 125 div 100))"
proof (intro conjI impI allI)
  obtain waits r where d: "drive cfg False (a # as) backoff_start = (waits, r)" by fastforce
  have f: "list_all failed (a # as)" using assms by simp
  show "\<exists>waits b. drive cfg False (a # as) backoff_start = (waits, Inr b) \<and> length waits = Suc (length as)
    \<and> (\<forall>i < length waits. 750 \<le> waits ! i \<and> waits ! i \<le> 375000
         \<and> ((\<exists>e. at_outcome ((a # as) ! i) = Inl e \<and> waits_at_once cfg e) \<longrightarrow> 225000 \<le> waits ! i))"
    using drive_failed_all [OF backoff_start_ok f d] d by auto
qed (use doubling_after_progress [of as a cfg] assms in auto)

lemma failing_pipeline_is_retried_witness:
  "\<exists>waits b. drive example_pipeline False [stumble True (E_Other ''reset''), stumble False (E_Other ''reset'')] backoff_start
       = (waits, Inr b) \<and> length waits = 2
   \<and> 1500 \<le> waits ! 1 \<and> waits ! 1 \<le> 2500"
proof -
  have "failed (stumble True (E_Other ''reset''))" "list_all failed [stumble False (E_Other ''reset'')]"
    by (simp_all add: failed_def stumble_def)
  note w = failing_pipeline_is_retried [OF this, of example_pipeline backoff_start]
  have o: "list_all (ordinary example_pipeline) [stumble True (E_Other ''reset''), stumble False (E_Other ''reset'')]"
    by (simp add: ordinary_def failed_def stumble_def waits_at_once_def example_pipeline_def is_capacity.simps)
  have i: "(1::nat) < Suc (length [stumble False (E_Other ''reset'')])" by simp
  have "1500 \<le> fst (drive example_pipeline False [stumble True (E_Other ''reset''), stumble False (E_Other ''reset'')] backoff_start) ! 1
      \<and> fst (drive example_pipeline False [stumble True (E_Other ''reset''), stumble False (E_Other ''reset'')] backoff_start) ! 1 \<le> 2500"
    using w [THEN conjunct2, rule_format, OF _ i] o by (simp add: stumble_def)
  with w [THEN conjunct1] show ?thesis by auto
qed

section \<open>Only the catalog moves a pipeline\<close>

definition tables_of :: "resolved \<Rightarrow> (string option \<times> string) list" where
  "tables_of cfg = (rs_source_relation cfg, rs_source_uri cfg) # (rs_target_relation cfg, rs_target_uri cfg) # rs_lookups cfg"

text \<open>What the catalog answers for a table when it answers, and where the table stands when it does not.\<close>

definition answers :: "catalog \<Rightarrow> string option \<Rightarrow> string option" where
  "answers client r = (case (client, r) of (Some ask, Some k) \<Rightarrow> (case ask k of Inr l \<Rightarrow> Some l | Inl _ \<Rightarrow> None) | _ \<Rightarrow> None)"

definition remembered :: "known \<Rightarrow> string option \<Rightarrow> string option" where
  "remembered known r = Option.bind r (bt_get known)"

text \<open>Every table stands where the catalog last said it is, if it ever answered for it.\<close>

definition located :: "known \<Rightarrow> resolved \<Rightarrow> bool" where
  "located known cfg \<longleftrightarrow> list_all (\<lambda>(r, uri). remembered known r \<in> {None, Some uri}) (tables_of cfg)"

definition stands :: "catalog \<Rightarrow> known \<Rightarrow> string option \<Rightarrow> string \<Rightarrow> string" where
  "stands client known r uri =
     (case answers client r of Some l \<Rightarrow> l | None \<Rightarrow> if client = None then uri else (case remembered known r of Some l \<Rightarrow> l | None \<Rightarrow> uri))"

text \<open>A refresh changes what is remembered to what the catalog answers.\<close>

definition learned :: "catalog \<Rightarrow> known \<Rightarrow> known \<Rightarrow> bool" where
  "learned client known known' \<longleftrightarrow>
     (\<forall>r. remembered known' r = remembered known r \<or> remembered known' r = answers client r \<and> answers client r \<noteq> None)"

lemma learned_refl [simp]: "learned client known known"
  by (simp add: learned_def)

lemma learned_trans: "learned c a b \<Longrightarrow> learned c b d \<Longrightarrow> learned c a d"
  unfolding learned_def by metis

lemma remembered_insert: "remembered (bt_insert k l known) r = (if r = Some k then Some l else remembered known r)"
  by (cases r) (auto simp: remembered_def)

lemma locate_learns: "learned client known (snd (locate client r uri known))"
  by (auto simp: learned_def locate_def answers_def remembered_insert split: option.splits sum.splits)

lemma locate_lookups_learns: "learned client known (snd (locate_lookups client ls known))"
proof (induction client ls known rule: locate_lookups.induct)
  case (2 client relation uri ls known)
  have "learned client known (snd (locate client relation uri known))" by (rule locate_learns)
  with 2 show ?case by (auto simp: Let_def split: prod.splits intro: learned_trans)
qed simp

lemma locate_uri: "learned client known0 known \<Longrightarrow> fst (locate client r uri known) = stands client known0 r uri"
proof -
  assume "learned client known0 known"
  then have "remembered known r = remembered known0 r \<or> answers client r \<noteq> None" unfolding learned_def by metis
  then show ?thesis
    by (auto simp: locate_def answers_def stands_def remembered_def split: option.splits sum.splits)
qed

lemma locate_lookups_uris:
  "learned client known0 known \<Longrightarrow>
   fst (locate_lookups client ls known) = map (\<lambda>(r, uri). (r, stands client known0 r uri)) ls"
proof (induction client ls known rule: locate_lookups.induct)
  case (2 client relation uri ls known)
  obtain u k where l: "locate client relation uri known = (u, k)" by fastforce
  have u: "u = stands client known0 relation uri" using locate_uri [OF 2(2), of relation uri] l by simp
  have k: "learned client known0 k" using locate_learns [of client known relation uri] l learned_trans [OF 2(2)] by simp
  with 2(1) [OF l [symmetric] refl k] u l show ?case by (auto simp: Let_def split: prod.splits)
qed simp

text \<open>Once the catalog has answered for a relation, that answer is what is remembered.\<close>

lemma learned_keeps_answer:
  "learned client known known' \<Longrightarrow> answers client r = Some l \<Longrightarrow> remembered known r = Some l \<Longrightarrow> remembered known' r = Some l"
  unfolding learned_def by metis

lemma locate_answered: "answers client r = Some l \<Longrightarrow> remembered (snd (locate client r uri known)) r = Some l"
  by (auto simp: locate_def answers_def remembered_insert split: option.splits sum.splits)

lemma locate_lookups_answered:
  "(r, uri) \<in> set ls \<Longrightarrow> answers client r = Some l \<Longrightarrow> remembered (snd (locate_lookups client ls known)) r = Some l"
proof (induction client ls known rule: locate_lookups.induct)
  case (2 client relation uri' ls known)
  obtain u k where l: "locate client relation uri' known = (u, k)" by fastforce
  have snd: "snd (locate_lookups client ((relation, uri') # ls) known) = snd (locate_lookups client ls k)"
    using l by (simp add: Let_def split: prod.splits)
  show ?case
  proof (cases "(r, uri) \<in> set ls")
    case True
    with 2(1) [OF l [symmetric] refl] 2(3) show ?thesis unfolding snd by simp
  next
    case False
    with 2(2) have "r = relation" by simp
    with locate_answered [OF 2(3), of uri' known] l have "remembered k r = Some l" by simp
    with locate_lookups_learns [of client k ls] 2(3) show ?thesis unfolding snd by (blast intro: learned_keeps_answer)
  qed
qed simp

lemma refresh_tables:
  assumes "client \<noteq> None" and "refresh_locations client cfg known = (fresh, known')"
  shows "tables_of fresh = map (\<lambda>(r, uri). (r, stands client known r uri)) (tables_of cfg)"
    and "learned client known known'"
    and "(r, uri) \<in> set (tables_of cfg) \<Longrightarrow> answers client r = Some l \<Longrightarrow> remembered known' r = Some l"
proof -
  obtain s k1 where s: "locate client (rs_source_relation cfg) (rs_source_uri cfg) known = (s, k1)" by fastforce
  obtain t k2 where t: "locate client (rs_target_relation cfg) (rs_target_uri cfg) k1 = (t, k2)" by fastforce
  obtain ls where ls: "locate_lookups client (rs_lookups cfg) k2 = (ls, known')"
    and fresh: "fresh = cfg\<lparr>rs_source_uri := s, rs_target_uri := t, rs_lookups := ls\<rparr>"
    using assms s t by (auto simp: refresh_locations_def Let_def split: prod.splits)
  have k1: "learned client known k1" using locate_learns [of client known] s by (metis snd_conv)
  have k12: "learned client k1 k2" using locate_learns [of client k1] t by (metis snd_conv)
  have k2: "learned client k2 known'" using locate_lookups_learns [of client k2 "rs_lookups cfg"] ls by simp
  show "tables_of fresh = map (\<lambda>(r, uri). (r, stands client known r uri)) (tables_of cfg)"
    using locate_uri [OF learned_refl [of client known], of "rs_source_relation cfg" "rs_source_uri cfg"]
      locate_uri [OF k1, of "rs_target_relation cfg" "rs_target_uri cfg"]
      locate_lookups_uris [OF learned_trans [OF k1 k12], of "rs_lookups cfg"] s t ls
    by (simp add: tables_of_def fresh)
  show "learned client known known'" using k1 k12 k2 by (blast intro: learned_trans)
  assume r: "(r, uri) \<in> set (tables_of cfg)" and a: "answers client r = Some l"
  then consider "r = rs_source_relation cfg" | "r = rs_target_relation cfg" | "(r, uri) \<in> set (rs_lookups cfg)"
    by (auto simp: tables_of_def)
  then show "remembered known' r = Some l"
  proof cases
    case 1
    then have "remembered k1 r = Some l" using locate_answered [OF a] s by (metis snd_conv)
    with a k12 k2 show ?thesis by (blast intro: learned_keeps_answer)
  next
    case 2
    then have "remembered k2 r = Some l" using locate_answered [OF a] t by (metis snd_conv)
    with a k2 show ?thesis by (blast intro: learned_keeps_answer)
  next
    case 3
    then show ?thesis using locate_lookups_answered [OF _ a] ls by (metis snd_conv)
  qed
qed

lemma located_after_refresh:
  assumes "client \<noteq> None" and "refresh_locations client cfg known = (fresh, known')"
  shows "located known' fresh"
  unfolding located_def refresh_tables(1) [OF assms]
proof (clarsimp simp: list_all_iff)
  fix r uri assume r: "(r, uri) \<in> set (tables_of cfg)" and k: "remembered known' r \<noteq> Some (stands client known r uri)"
  show "remembered known' r = None"
  proof (cases "answers client r")
    case None
    then have "remembered known' r = remembered known r" using refresh_tables(2) [OF assms] by (auto simp: learned_def)
    with k None assms(1) show ?thesis by (cases "remembered known r") (auto simp: stands_def)
  next
    case (Some l)
    with refresh_tables(3) [OF assms r] k show ?thesis by (simp add: stands_def)
  qed
qed

lemma moved_tables:
  assumes "tables_of fresh = map (\<lambda>(r, uri). (r, f r uri)) (tables_of cfg)"
  shows "moved cfg fresh \<longleftrightarrow> list_ex (\<lambda>(r, uri). f r uri \<noteq> uri) (tables_of cfg)"
proof -
  have "list_ex (\<lambda>(b, a). snd b \<noteq> snd a) (zip ls (map (\<lambda>(r, uri). (r, f r uri)) ls)) \<longleftrightarrow> list_ex (\<lambda>(r, uri). f r uri \<noteq> uri) ls"
    for ls by (induction ls) auto
  moreover from assms have "rs_source_uri fresh = f (rs_source_relation cfg) (rs_source_uri cfg)"
    and "rs_target_uri fresh = f (rs_target_relation cfg) (rs_target_uri cfg)"
    and "rs_lookups fresh = map (\<lambda>(r, uri). (r, f r uri)) (rs_lookups cfg)"
    by (simp_all add: tables_of_def)
  ultimately show ?thesis by (simp add: moved_def tables_of_def eq_commute)
qed

lemma stands_located: "remembered known r \<in> {None, Some uri} \<Longrightarrow> stands client known r uri = (case answers client r of Some l \<Rightarrow> l | None \<Rightarrow> uri)"
  by (auto simp: stands_def split: option.splits)

lemma some_stands_elsewhere:
  "list_all (\<lambda>(r, uri). remembered known r \<in> {None, Some uri}) ts \<Longrightarrow>
   list_ex (\<lambda>(r, uri). stands client known r uri \<noteq> uri) ts \<longleftrightarrow> (\<exists>(r, uri) \<in> set ts. \<exists>l. answers client r = Some l \<and> l \<noteq> uri)"
proof (induction ts)
  case (Cons t ts)
  obtain r uri where t: "t = (r, uri)" by fastforce
  with Cons.prems have "stands client known r uri = (case answers client r of Some l \<Rightarrow> l | None \<Rightarrow> uri)"
    by (intro stands_located) simp
  with Cons t show ?case by (cases "answers client r") auto
qed simp

text \<open>
  A pipeline that asks a catalog is reopened elsewhere exactly when the catalog answers another
  location for one of its tables: a refresh that follows another finds the pipeline moved iff, for the
  source, the target or a lookup, the catalog answers now and with a location other than the table's. So a
  catalog that stops answering moves nothing, and nothing moves back to the declared location. After every
  refresh each table stands where the catalog last said it is.
\<close>

lemma only_the_catalog_moves_a_pipeline:
  assumes "client \<noteq> None" and "refresh_locations client declared known = (current, known')"
    and "refresh_locations client' current known' = (fresh, known'')"
  shows "located known' current
    \<and> (moved current fresh \<longleftrightarrow> (\<exists>(r, uri) \<in> set (tables_of current). \<exists>l. answers client' r = Some l \<and> l \<noteq> uri))"
proof
  show l: "located known' current" by (rule located_after_refresh [OF assms(1,2)])
  show "moved current fresh \<longleftrightarrow> (\<exists>(r, uri) \<in> set (tables_of current). \<exists>l. answers client' r = Some l \<and> l \<noteq> uri)"
  proof (cases "client' = None")
    case True
    have "zip ls ls = map (\<lambda>x. (x, x)) ls" for ls :: "(string option \<times> string) list" by (induction ls) auto
    with True assms(3) show ?thesis by (auto simp: refresh_locations_def moved_def answers_def list_ex_iff)
  next
    case False
    have "moved current fresh \<longleftrightarrow> list_ex (\<lambda>(r, uri). stands client' known' r uri \<noteq> uri) (tables_of current)"
      by (rule moved_tables [OF refresh_tables(1) [OF False assms(3)]])
    also have "\<dots> \<longleftrightarrow> (\<exists>(r, uri) \<in> set (tables_of current). \<exists>l. answers client' r = Some l \<and> l \<noteq> uri)"
      using l unfolding located_def by (rule some_stands_elsewhere)
    finally show ?thesis .
  qed
qed

definition example_catalog :: "string \<Rightarrow> string res" where
  "example_catalog r = (if r = ''dim'' then Inl (E_Other ''timeout'') else Inr (''s3://lake/v2/'' @ r))"

lemma only_the_catalog_moves_a_pipeline_witness:
  "\<exists>current known' fresh known''. refresh_locations (Some example_catalog) example_pipeline [] = (current, known')
   \<and> refresh_locations (Some (\<lambda>r. Inl (E_Other ''timeout''))) current known' = (fresh, known'')
   \<and> rs_source_uri current = ''s3://lake/v2/raw'' \<and> \<not> moved current fresh"
proof -
  obtain current known' where c: "refresh_locations (Some example_catalog) example_pipeline [] = (current, known')" by fastforce
  obtain fresh known'' where f: "refresh_locations (Some (\<lambda>r. Inl (E_Other ''timeout''))) current known' = (fresh, known'')"
    by fastforce
  have "\<not> moved current fresh"
    using only_the_catalog_moves_a_pipeline [OF _ c f] by (auto simp: answers_def split: option.splits)
  moreover have "rs_source_uri current = ''s3://lake/v2/raw''"
    using c by (auto simp: refresh_locations_def locate_def example_pipeline_def example_catalog_def Let_def split: prod.splits)
  ultimately show ?thesis using c f by blast
qed

end
