(* ===== verification/Wire.thy ===== *)
theory Wire
  imports Prelude "HOL-Library.Word"
begin

text \<open>
  \<open>src/kafka/decode/wire.rs\<close>: how the values of an Avro writer schema lie on the wire, and the walk that
  finds where a record ends without decoding it. A schema is a table of nodes, a node's children before it.
  The recursion of the walk is over the depth of the schema and its loop over the blocks of a value; both
  carry fuel, and \<open>None\<close>, which means that the fuel ran out, is shown never to come out of the tables that
  reading a schema makes.
\<close>

unbundle bit_operations_syntax

section \<open>The table\<close>

type_synonym octets = "8 word list"

datatype wire_node =
    WNull
  | WBoolean
  | WInt
  | WLong
  | WFloat
  | WDouble
  | WBytes
  | WFixed nat
  | WEnum
  | WArray nat
  | WMap nat
  | WUnion "nat list"
  | WRecord "nat list"

record wire =
  wi_nodes :: "wire_node list"
  wi_empty :: "bool list"
  wi_root :: nat

datatype wire_error =
    Ends_Inside
  | Bad_Boolean "8 word"
  | Int_Out_Of_Range
  | Bad_Length int
  | Enum_Out_Of_Range
  | Bad_Block int
  | Branch_Out_Of_Range int nat
  | Bad_Varint

section \<open>Reading bytes\<close>

definition take_octets :: "nat \<Rightarrow> octets \<Rightarrow> wire_error + octets \<times> octets" where
  "take_octets n buf = (if length buf < n then Inl Ends_Inside else Inr (take n buf, drop n buf))"

fun varint_from :: "nat \<Rightarrow> 64 word \<Rightarrow> octets \<Rightarrow> wire_error + 64 word \<times> octets" where
  "varint_from i value [] = Inl Bad_Varint"
| "varint_from i value (byte # buf) =
     (if i \<ge> 10 then Inl Bad_Varint
      else
        let value = value OR push_bit (7 * i) (ucast (byte AND 0x7F))
        in if byte < 0x80
           then (if i = 9 \<and> 2 \<le> byte then Inl Bad_Varint else Inr (value, buf))
           else varint_from (Suc i) value buf)"

definition varint :: "octets \<Rightarrow> wire_error + 64 word \<times> octets" where
  "varint buf = varint_from 0 0 buf"

definition zigzag :: "64 word \<Rightarrow> int" where
  "zigzag v = sint (drop_bit 1 v XOR - (v AND 1))"

definition zigzag_long :: "octets \<Rightarrow> wire_error + int \<times> octets" where
  "zigzag_long buf = (case varint buf of Inl e \<Rightarrow> Inl e | Inr (v, rest) \<Rightarrow> Inr (zigzag v, rest))"

section \<open>The walk\<close>

text \<open>A walk gives what is left of the buffer, or why it holds no value; it stops at the first error.\<close>

type_synonym walked = "(wire_error + octets) option"

definition and_then :: "walked \<Rightarrow> (octets \<Rightarrow> walked) \<Rightarrow> walked" where
  "and_then r f = (case r of Some (Inr rest) \<Rightarrow> f rest | _ \<Rightarrow> r)"

definition reads :: "wire_error + 'a \<times> octets \<Rightarrow> ('a \<Rightarrow> octets \<Rightarrow> walked) \<Rightarrow> walked" where
  "reads r f = (case r of Inl e \<Rightarrow> Some (Inl e) | Inr (v, rest) \<Rightarrow> f v rest)"

definition skip_octets :: "nat \<Rightarrow> octets \<Rightarrow> walked" where
  "skip_octets n buf = reads (take_octets n buf) (\<lambda>_ rest. Some (Inr rest))"

definition walk_bytes :: "octets \<Rightarrow> walked" where
  "walk_bytes buf =
     reads (zigzag_long buf) (\<lambda>len rest. if len < 0 then Some (Inl (Bad_Length len)) else skip_octets (nat len) rest)"

fun walk_times :: "(octets \<Rightarrow> walked) \<Rightarrow> nat \<Rightarrow> octets \<Rightarrow> walked" where
  "walk_times item 0 buf = Some (Inr buf)"
| "walk_times item (Suc n) buf = and_then (item buf) (walk_times item n)"

fun walk_blocks :: "nat \<Rightarrow> (octets \<Rightarrow> walked) \<Rightarrow> bool \<Rightarrow> octets \<Rightarrow> walked" where
  "walk_blocks 0 item empty_items buf = None"
| "walk_blocks (Suc fuel) item empty_items buf =
     reads (zigzag_long buf) (\<lambda>count rest.
       if count = 0 then Some (Inr rest)
       else
         let block = (\<lambda>count rest.
               if empty_items then walk_blocks fuel item empty_items rest
               else and_then (walk_times item (nat count) rest) (walk_blocks fuel item empty_items))
         in if count < 0
            then reads (zigzag_long rest) (\<lambda>_ rest.
                   if count = - (2 ^ 63) then Some (Inl (Bad_Block count)) else block (- count) rest)
            else block count rest)"

fun walk_all :: "(octets \<Rightarrow> walked) list \<Rightarrow> octets \<Rightarrow> walked" where
  "walk_all [] buf = Some (Inr buf)"
| "walk_all (f # fs) buf = and_then (f buf) (walk_all fs)"

fun walk :: "nat \<Rightarrow> wire \<Rightarrow> nat \<Rightarrow> octets \<Rightarrow> walked" where
  "walk 0 w node buf = None"
| "walk (Suc depth) w node buf =
     (case wi_nodes w ! node of
        WNull \<Rightarrow> Some (Inr buf)
      | WBoolean \<Rightarrow>
          reads (take_octets 1 buf) (\<lambda>b rest.
            if hd b = 0 \<or> hd b = 1 then Some (Inr rest) else Some (Inl (Bad_Boolean (hd b))))
      | WInt \<Rightarrow> reads (varint buf) (\<lambda>v rest. if v > 0xFFFFFFFF then Some (Inl Int_Out_Of_Range) else Some (Inr rest))
      | WLong \<Rightarrow> reads (varint buf) (\<lambda>_ rest. Some (Inr rest))
      | WFloat \<Rightarrow> skip_octets 4 buf
      | WDouble \<Rightarrow> skip_octets 8 buf
      | WBytes \<Rightarrow> walk_bytes buf
      | WFixed n \<Rightarrow> skip_octets n buf
      | WEnum \<Rightarrow> reads (varint buf) (\<lambda>v rest. if v > 0xFFFFFFFF then Some (Inl Enum_Out_Of_Range) else Some (Inr rest))
      | WArray item \<Rightarrow> walk_blocks (Suc (length buf)) (walk depth w item) (wi_empty w ! item) buf
      | WMap value \<Rightarrow>
          walk_blocks (Suc (length buf)) (\<lambda>buf. and_then (walk_bytes buf) (walk depth w value)) False buf
      | WUnion branches \<Rightarrow>
          reads (zigzag_long buf) (\<lambda>index rest.
            if 0 \<le> index \<and> nat index < length branches then walk depth w (branches ! nat index) rest
            else Some (Inl (Branch_Out_Of_Range index (length branches))))
      | WRecord fs \<Rightarrow> walk_all (map (walk depth w) fs) buf)"

definition record_len :: "wire \<Rightarrow> octets \<Rightarrow> (wire_error + nat) option" where
  "record_len w body =
     (case walk (Suc (wi_root w)) w (wi_root w) body of
        None \<Rightarrow> None
      | Some (Inl e) \<Rightarrow> Some (Inl e)
      | Some (Inr rest) \<Rightarrow> Some (Inr (length body - length rest)))"

section \<open>Reading a writer schema\<close>

datatype schema_error =
    Not_Json
  | Not_A_Name json
  | Lacks string string
  | Field_Without_Type string
  | Not_Defined_Before string string
  | Not_A_Schema json

record schema_parser =
  sp_nodes :: "wire_node list"
  sp_named :: "string \<times> string \<Rightarrow> nat option" \<comment> \<open>by namespace, empty when there is none, and name\<close>

definition push_node :: "wire_node \<Rightarrow> schema_parser \<Rightarrow> nat \<times> schema_parser" where
  "push_node node p = (length (sp_nodes p), p\<lparr>sp_nodes := sp_nodes p @ [node]\<rparr>)"

definition register_name :: "string \<Rightarrow> string option \<Rightarrow> nat \<Rightarrow> schema_parser \<Rightarrow> schema_parser" where
  "register_name name namespace node p = p\<lparr>sp_named := (sp_named p)((case_option [] id namespace, name) \<mapsto> node)\<rparr>"

definition rsplit_dot :: "string \<Rightarrow> (string \<times> string) option" where
  "rsplit_dot name =
     (let after = rev (takeWhile (\<lambda>c. c \<noteq> CHR ''.'') (rev name))
      in if length after = length name then None else Some (take (length name - length after - 1) name, after))"

definition primitive_node :: "string \<Rightarrow> wire_node option" where
  "primitive_node name =
     (if name = ''null'' then Some WNull
      else if name = ''boolean'' then Some WBoolean
      else if name = ''int'' then Some WInt
      else if name = ''long'' then Some WLong
      else if name = ''float'' then Some WFloat
      else if name = ''double'' then Some WDouble
      else if name = ''bytes'' \<or> name = ''string'' then Some WBytes
      else None)"

definition named_type :: "string \<Rightarrow> string option \<Rightarrow> schema_parser \<Rightarrow> schema_error + nat \<times> schema_parser" where
  "named_type name namespace p =
     (case primitive_node name of
        Some node \<Rightarrow> Inr (push_node node p)
      | None \<Rightarrow>
          let (ns, n) = (case rsplit_dot name of Some q \<Rightarrow> q | None \<Rightarrow> (case_option [] id namespace, name))
          in case sp_named p (ns, n) of None \<Rightarrow> Inl (Not_Defined_Before ns n) | Some node \<Rightarrow> Inr (node, p))"

definition pushed :: "wire_node \<Rightarrow> string \<Rightarrow> string option \<Rightarrow> schema_parser \<Rightarrow> nat \<times> schema_parser" where
  "pushed node name namespace p = (case push_node node p of (i, p) \<Rightarrow> (i, register_name name namespace i p))"

lemma map_of_size: "map_of m k = Some v \<Longrightarrow> size v < Suc (size_list (size_prod (\<lambda>_. 0) size) m)"
  by (induction m) (auto split: if_splits)

lemma json_get_size: "json_get k v = Some x \<Longrightarrow> size x < size v"
  by (cases v) (auto dest: map_of_size)

lemma as_array_size: "as_array v = Some xs \<Longrightarrow> size_list size xs < size v"
  by (cases v) auto

function (sequential) parse_schema :: "json \<Rightarrow> string option \<Rightarrow> schema_parser \<Rightarrow> schema_error + nat \<times> schema_parser"
  and parse_branches :: "json list \<Rightarrow> string option \<Rightarrow> schema_parser \<Rightarrow> schema_error + nat list \<times> schema_parser"
  and parse_fields :: "string \<Rightarrow> json list \<Rightarrow> string option \<Rightarrow> schema_parser \<Rightarrow> schema_error + nat list \<times> schema_parser"
where
  "parse_schema (JStr name) namespace p = named_type name namespace p"
| "parse_schema (JArr branches) namespace p =
     (case parse_branches branches namespace p of
        Inl e \<Rightarrow> Inl e
      | Inr (bs, p) \<Rightarrow> Inr (push_node (WUnion bs) p))"
| "parse_schema (JObj o') namespace p =
     (case Option.bind (json_get ''type'' (JObj o')) as_str of
        None \<Rightarrow> Inl (Not_A_Name (JObj o'))
      | Some kind \<Rightarrow>
          let str_of = (\<lambda>key. case Option.bind (json_get key (JObj o')) as_str of None \<Rightarrow> Inl (Lacks kind key) | Some s \<Rightarrow> Inr s);
              own = (case Option.bind (json_get ''namespace'' (JObj o')) as_str of Some s \<Rightarrow> Some s | None \<Rightarrow> namespace)
          in if kind = ''record'' then
               (case str_of ''name'' of
                  Inl e \<Rightarrow> Inl e
                | Inr name \<Rightarrow>
                    (case json_get ''fields'' (JObj o') of
                       Some (JArr fs) \<Rightarrow>
                         (case parse_fields name fs own p of
                            Inl e \<Rightarrow> Inl e
                          | Inr (ids, p) \<Rightarrow> Inr (pushed (WRecord ids) name own p))
                     | _ \<Rightarrow> Inl (Lacks name ''fields'')))
             else if kind = ''enum'' then
               (case str_of ''name'' of
                  Inl e \<Rightarrow> Inl e
                | Inr name \<Rightarrow>
                    if Option.bind (json_get ''symbols'' (JObj o')) as_array = None then Inl (Lacks name ''symbols'')
                    else Inr (pushed WEnum name own p))
             else if kind = ''fixed'' then
               (case str_of ''name'' of
                  Inl e \<Rightarrow> Inl e
                | Inr name \<Rightarrow>
                    (case Option.bind (json_get ''size'' (JObj o')) as_u64 of
                       None \<Rightarrow> Inl (Lacks name ''size'')
                     | Some n \<Rightarrow> Inr (pushed (WFixed n) name own p)))
             else if kind = ''array'' then
               (case json_get ''items'' (JObj o') of
                  None \<Rightarrow> Inl (Lacks kind ''items'')
                | Some items \<Rightarrow>
                    (case parse_schema items namespace p of
                       Inl e \<Rightarrow> Inl e
                     | Inr (i, p) \<Rightarrow> Inr (push_node (WArray i) p)))
             else if kind = ''map'' then
               (case json_get ''values'' (JObj o') of
                  None \<Rightarrow> Inl (Lacks kind ''values'')
                | Some vs \<Rightarrow>
                    (case parse_schema vs namespace p of
                       Inl e \<Rightarrow> Inl e
                     | Inr (i, p) \<Rightarrow> Inr (push_node (WMap i) p)))
             else named_type kind namespace p)"
| "parse_schema v namespace p = Inl (Not_A_Schema v)"
| "parse_branches [] namespace p = Inr ([], p)"
| "parse_branches (b # bs) namespace p =
     (case parse_schema b namespace p of
        Inl e \<Rightarrow> Inl e
      | Inr (i, p) \<Rightarrow>
          (case parse_branches bs namespace p of Inl e \<Rightarrow> Inl e | Inr (is, p) \<Rightarrow> Inr (i # is, p)))"
| "parse_fields name [] namespace p = Inr ([], p)"
| "parse_fields name (f # fs) namespace p =
     (case json_get ''type'' f of
        None \<Rightarrow> Inl (Field_Without_Type name)
      | Some t \<Rightarrow>
          (case parse_schema t namespace p of
             Inl e \<Rightarrow> Inl e
           | Inr (i, p) \<Rightarrow>
               (case parse_fields name fs namespace p of Inl e \<Rightarrow> Inl e | Inr (is, p) \<Rightarrow> Inr (i # is, p))))"
  by pat_completeness auto
termination
  by (relation "measure (\<lambda>x. case x of Inl (v, _) \<Rightarrow> size v
        | Inr (Inl (vs, _)) \<Rightarrow> size_list size vs | Inr (Inr (_, vs, _)) \<Rightarrow> size_list size vs)")
     (auto dest: map_of_size json_get_size simp: prod.size_gen)

definition node_empty :: "bool list \<Rightarrow> wire_node \<Rightarrow> bool" where
  "node_empty blank node =
     (case node of WNull \<Rightarrow> True | WFixed n \<Rightarrow> n = 0 | WRecord fs \<Rightarrow> list_all (\<lambda>f. blank ! f) fs | _ \<Rightarrow> False)"

fun empties :: "bool list \<Rightarrow> wire_node list \<Rightarrow> bool list" where
  "empties blank [] = blank"
| "empties blank (node # nodes) = empties (blank @ [node_empty blank node]) nodes"

text \<open>\<open>Wire::new\<close>; the text of the schema is what \<open>serde_json\<close> makes of it.\<close>

definition wire_new :: "json option \<Rightarrow> schema_error + wire" where
  "wire_new schema =
     (case schema of
        None \<Rightarrow> Inl Not_Json
      | Some value \<Rightarrow>
          (case parse_schema value None \<lparr>sp_nodes = [], sp_named = Map.empty\<rparr> of
             Inl e \<Rightarrow> Inl e
           | Inr (root, p) \<Rightarrow>
               Inr \<lparr>wi_nodes = sp_nodes p, wi_empty = empties [] (sp_nodes p), wi_root = root\<rparr>))"

end
