(* ===== verification/Wire_Spec.thy ===== *)
theory Wire_Spec
  imports Wire
begin

text \<open>
  What lies on the wire, declaratively, and that the walk of \<open>Wire\<close> recognises exactly it: on any bytes
  it ends, and it accepts a prefix iff the prefix is a value of the schema. One lemma per combinator of
  the walk.
\<close>

section \<open>Varints\<close>

fun varint_value :: "octets \<Rightarrow> nat" where
  "varint_value [] = 0"
| "varint_value (b # bs) = unat b mod 128 + 128 * varint_value bs"

text \<open>The bytes of a varint of which \<open>i\<close> have been read: every byte but the last has its high bit.\<close>

definition varint_bytes :: "nat \<Rightarrow> octets \<Rightarrow> bool" where
  "varint_bytes i xs \<longleftrightarrow>
     xs \<noteq> [] \<and> list_all (\<lambda>b. 0x80 \<le> b) (butlast xs) \<and> last xs < 0x80 \<and> i + length xs \<le> 10 \<and> (i + length xs = 10 \<longrightarrow> last xs < 2)"

definition is_varint :: "octets \<Rightarrow> 64 word \<Rightarrow> bool" where
  "is_varint xs v \<longleftrightarrow> varint_bytes 0 xs \<and> unat v = varint_value xs"

definition is_long :: "octets \<Rightarrow> int \<Rightarrow> bool" where
  "is_long xs n \<longleftrightarrow> (\<exists>v. is_varint xs v \<and> zigzag v = n)"

lemma varint_bytes_Cons:
  "varint_bytes i (b # xs) \<longleftrightarrow>
     (if b < 0x80 then xs = [] \<and> i \<le> 9 \<and> (i = 9 \<longrightarrow> b < 2) else varint_bytes (Suc i) xs)"
  by (auto simp: varint_bytes_def not_less dest: leD)

lemma byte_low: "unat (b AND 0x7F :: 8 word) = unat b mod 128"
proof -
  have "unat (b AND 0x7F) = unat b AND 127" by (simp add: unsigned_and_eq)
  also have "\<dots> = take_bit 7 (unat b)" by (simp add: take_bit_eq_mask mask_eq_exp_minus_1)
  finally show ?thesis by (simp add: take_bit_eq_mod)
qed

lemma or_nat_disjoint:
  assumes "(x::nat) < 2 ^ k"
  shows "x OR push_bit k y = x + push_bit k y"
proof -
  have x: "take_bit k x = x" using assms by (simp add: take_bit_nat_eq_self_iff)
  have "take_bit k x AND push_bit k y = 0"
    by (rule bit_eqI) (auto simp: bit_and_iff bit_push_bit_iff bit_take_bit_iff)
  then show ?thesis unfolding x by (simp add: disjunctive_add_eq_or)
qed

lemma or_push_bit:
  assumes acc: "unat acc < 2 ^ k" and c: "unat (c :: 8 word) * 2 ^ k < 2 ^ 64"
  shows "unat (acc OR push_bit k (ucast c) :: 64 word) = unat acc + unat c * 2 ^ k"
proof -
  have "unat c < 2 ^ 64" by (rule less_trans [OF unsigned_less]) simp
  then have "unat (push_bit k (ucast c) :: 64 word) = push_bit k (unat c)"
    unfolding unsigned_push_bit_eq using c
    by (simp add: unsigned_ucast_eq take_bit_nat_eq_self push_bit_eq_mult [where 'a = nat])
  then show ?thesis using or_nat_disjoint [OF acc] by (simp add: unsigned_or_eq push_bit_eq_mult)
qed

lemma varint_from_10 [simp]: "varint_from 10 acc buf = Inl Bad_Varint"
  by (cases buf) simp_all

lemma varint_bytes_10 [simp]: "10 \<le> i \<Longrightarrow> \<not> varint_bytes i xs"
  by (cases xs) (auto simp: varint_bytes_def)

lemma varint_from_exact:
  "unat acc < 2 ^ (7 * i) \<Longrightarrow> i \<le> 10 \<Longrightarrow>
   varint_from i acc buf = Inr (v, rest) \<longleftrightarrow>
     (\<exists>xs. buf = xs @ rest \<and> varint_bytes i xs \<and> unat v = unat acc + 2 ^ (7 * i) * varint_value xs)"
proof (induction i acc buf rule: varint_from.induct)
  case (1 i acc)
  show ?case by (auto simp: varint_bytes_def)
next
  case (2 i acc b buf)
  define acc' where "acc' = acc OR push_bit (7 * i) (ucast (b AND 0x7F))"
  have split: "(\<exists>xs. b # buf = xs @ rest \<and> varint_bytes i xs \<and> unat v = unat acc + 2 ^ (7 * i) * varint_value xs)
    \<longleftrightarrow> (\<exists>ys. buf = ys @ rest \<and> varint_bytes i (b # ys)
           \<and> unat v = unat acc + unat b mod 128 * 2 ^ (7 * i) + 2 ^ (7 * Suc i) * varint_value ys)"
    (is "?l \<longleftrightarrow> ?r")
  proof
    assume ?l
    then obtain xs where "b # buf = xs @ rest" "varint_bytes i xs" "unat v = unat acc + 2 ^ (7 * i) * varint_value xs" by blast
    then show ?r by (cases xs) (auto simp: varint_bytes_def [of i "[]"] algebra_simps power_add)
  next
    assume ?r
    then obtain ys where "buf = ys @ rest" "varint_bytes i (b # ys)"
      "unat v = unat acc + unat b mod 128 * 2 ^ (7 * i) + 2 ^ (7 * Suc i) * varint_value ys" by blast
    then show ?l by (intro exI [of _ "b # ys"]) (simp add: algebra_simps power_add)
  qed
  show ?case
  proof (cases "i = 10 \<or> i = 9 \<and> (2 \<le> b \<or> \<not> b < 0x80)")
    case True
    then show ?thesis unfolding split by (auto simp: varint_bytes_Cons Let_def dest: leD)
  next
    case False
    then have i: "i \<le> 9" "i = 9 \<Longrightarrow> b < 2" using 2(3) by auto
    have low: "unat b mod 128 * 2 ^ (7 * i) < 2 ^ 64"
    proof (cases "i = 9")
      case True
      then have "unat b < 2" using i(2) by (simp add: word_less_nat_alt)
      then show ?thesis using True by (cases "unat b = 0") (auto simp: less_Suc_eq numeral_2_eq_2)
    next
      case False
      then have "(2::nat) ^ (7 * i) \<le> 2 ^ 56" using i by (intro power_increasing) auto
      moreover have "unat b mod 128 < 128" by simp
      ultimately have "unat b mod 128 * 2 ^ (7 * i) < 128 * 2 ^ 56"
        by (meson less_imp_le_nat mult_le_less_imp_less mult_less_le_imp_less zero_le zero_less_numeral zero_less_power)
      then show ?thesis by simp
    qed
    then have acc': "unat acc' = unat acc + unat b mod 128 * 2 ^ (7 * i)"
      using 2(2) by (simp add: acc'_def or_push_bit byte_low)
    have "(unat b mod 128 + 1) * 2 ^ (7 * i) \<le> 128 * 2 ^ (7 * i)" by (rule mult_le_mono1) (simp add: Suc_le_eq)
    then have "unat b mod 128 * 2 ^ (7 * i) + 2 ^ (7 * i) \<le> 2 ^ (7 * Suc i)"
      by (simp add: distrib_right power_add)
    then have less: "unat acc' < 2 ^ (7 * Suc i)" using 2(2) unfolding acc' by linarith
    show ?thesis
    proof (cases "b < 0x80")
      case True
      have "varint_from i acc (b # buf) = Inr (acc', buf)"
        using True i False by (auto simp: acc'_def Let_def)
      then show ?thesis unfolding split using True i by (auto simp: varint_bytes_Cons acc' word_unat_eq_iff)
    next
      case b: False
      have "varint_from i acc (b # buf) = varint_from (Suc i) acc' buf"
        using b False i by (auto simp: acc'_def Let_def)
      also have "\<dots> = Inr (v, rest) \<longleftrightarrow> (\<exists>xs. buf = xs @ rest \<and> varint_bytes (Suc i) xs
            \<and> unat v = unat acc' + 2 ^ (7 * Suc i) * varint_value xs)"
        using 2(1) [OF _ acc'_def b less] i by simp
      finally show ?thesis unfolding split using b by (simp add: varint_bytes_Cons acc')
    qed
  qed
qed

lemma varint_exact: "varint buf = Inr (v, rest) \<longleftrightarrow> (\<exists>xs. buf = xs @ rest \<and> is_varint xs v)"
  using varint_from_exact [of 0 0 buf v rest] by (simp add: varint_def is_varint_def)

lemma long_exact: "zigzag_long buf = Inr (n, rest) \<longleftrightarrow> (\<exists>xs. buf = xs @ rest \<and> is_long xs n)"
proof -
  have "zigzag_long buf = Inr (n, rest) \<longleftrightarrow> (\<exists>v. varint buf = Inr (v, rest) \<and> zigzag v = n)"
    by (auto simp: zigzag_long_def split: sum.splits)
  then show ?thesis unfolding is_long_def varint_exact by blast
qed

section \<open>What lies on the wire\<close>

definition is_bytes :: "octets \<Rightarrow> bool" where
  "is_bytes x \<longleftrightarrow> (\<exists>l xs. x = l @ xs \<and> is_long l (int (length xs)))"

text \<open>
  The items of an array or a map in blocks: a count and as many items, the count negative when the size
  of the block follows it, and at the end a count of 0.
\<close>

inductive blocks_of :: "(octets \<Rightarrow> bool) \<Rightarrow> octets \<Rightarrow> bool" for item where
  blocks_end: "is_long c 0 \<Longrightarrow> blocks_of item c"
| blocks_more: "\<lbrakk>is_long c (int (length xs)); xs \<noteq> []; list_all item xs; blocks_of item r\<rbrakk>
    \<Longrightarrow> blocks_of item (c @ concat xs @ r)"
| blocks_sized: "\<lbrakk>is_long c (- int (length xs)); xs \<noteq> []; length xs < 2 ^ 63; is_long s n; list_all item xs; blocks_of item r\<rbrakk>
    \<Longrightarrow> blocks_of item (c @ s @ concat xs @ r)"

lemma blocks_of_mono [mono]:
  assumes "\<And>x. A x \<longrightarrow> B x"
  shows "blocks_of A x \<longrightarrow> blocks_of B x"
proof
  assume "blocks_of A x"
  then show "blocks_of B x"
    by induction (auto intro: blocks_of.intros simp: list_all_iff assms [rule_format])
qed

inductive lies :: "wire_node list \<Rightarrow> nat \<Rightarrow> octets \<Rightarrow> bool" for nodes where
  "nodes ! n = WNull \<Longrightarrow> lies nodes n []"
| "nodes ! n = WBoolean \<Longrightarrow> b = 0 \<or> b = 1 \<Longrightarrow> lies nodes n [b]"
| "nodes ! n = WInt \<Longrightarrow> is_varint x v \<Longrightarrow> v \<le> 0xFFFFFFFF \<Longrightarrow> lies nodes n x"
| "nodes ! n = WLong \<Longrightarrow> is_varint x v \<Longrightarrow> lies nodes n x"
| "nodes ! n = WFloat \<Longrightarrow> length x = 4 \<Longrightarrow> lies nodes n x"
| "nodes ! n = WDouble \<Longrightarrow> length x = 8 \<Longrightarrow> lies nodes n x"
| "nodes ! n = WBytes \<Longrightarrow> is_bytes x \<Longrightarrow> lies nodes n x"
| "nodes ! n = WFixed k \<Longrightarrow> length x = k \<Longrightarrow> lies nodes n x"
| "nodes ! n = WEnum \<Longrightarrow> is_varint x v \<Longrightarrow> v \<le> 0xFFFFFFFF \<Longrightarrow> lies nodes n x"
| "nodes ! n = WArray i \<Longrightarrow> blocks_of (\<lambda>x. lies nodes i x) x \<Longrightarrow> lies nodes n x"
| "nodes ! n = WMap i \<Longrightarrow> blocks_of (\<lambda>e. \<exists>k v. e = k @ v \<and> is_bytes k \<and> lies nodes i v) x \<Longrightarrow> lies nodes n x"
| "nodes ! n = WUnion bs \<Longrightarrow> is_long x (int k) \<Longrightarrow> k < length bs \<Longrightarrow> lies nodes (bs ! k) v \<Longrightarrow> lies nodes n (x @ v)"
| "nodes ! n = WRecord fs \<Longrightarrow> list_all2 (\<lambda>f x. lies nodes f x) fs xs \<Longrightarrow> lies nodes n (concat xs)"

section \<open>The walk recognises it\<close>

definition recognises :: "(octets \<Rightarrow> bool) \<Rightarrow> (octets \<Rightarrow> walked) \<Rightarrow> bool" where
  "recognises P f \<longleftrightarrow> (\<forall>buf. f buf \<noteq> None \<and> (\<forall>rest. f buf = Some (Inr rest) \<longleftrightarrow> (\<exists>x. buf = x @ rest \<and> P x)))"

definition gives :: "(octets \<Rightarrow> 'a \<Rightarrow> bool) \<Rightarrow> (octets \<Rightarrow> wire_error + 'a \<times> octets) \<Rightarrow> bool" where
  "gives P r \<longleftrightarrow> (\<forall>buf v rest. r buf = Inr (v, rest) \<longleftrightarrow> (\<exists>x. buf = x @ rest \<and> P x v))"

lemma gives_varint: "gives is_varint varint"
  by (simp add: gives_def varint_exact)

lemma gives_long: "gives is_long zigzag_long"
  by (simp add: gives_def long_exact)

lemma gives_octets: "gives (\<lambda>x v. v = x \<and> length x = n) (take_octets n)"
  by (auto simp: gives_def take_octets_def)

lemma recognisesI:
  "(\<And>buf. f buf \<noteq> None) \<Longrightarrow> (\<And>buf rest. f buf = Some (Inr rest) \<longleftrightarrow> (\<exists>x. buf = x @ rest \<and> P x)) \<Longrightarrow> recognises P f"
  by (simp add: recognises_def)

lemma recognises_cong: "recognises P f \<Longrightarrow> (\<And>x. P x \<longleftrightarrow> Q x) \<Longrightarrow> recognises Q f"
  by (simp add: recognises_def)

lemma and_then_Inr: "and_then r f = Some (Inr rest) \<longleftrightarrow> (\<exists>mid. r = Some (Inr mid) \<and> f mid = Some (Inr rest))"
  by (auto simp: and_then_def split: option.splits sum.splits)

lemma and_then_None: "and_then r f = None \<longleftrightarrow> r = None \<or> (\<exists>mid. r = Some (Inr mid) \<and> f mid = None)"
  by (auto simp: and_then_def split: option.splits sum.splits)

lemma reads_Inr: "reads r f = Some (Inr rest) \<longleftrightarrow> (\<exists>v mid. r = Inr (v, mid) \<and> f v mid = Some (Inr rest))"
  by (auto simp: reads_def split: sum.splits)

lemma reads_None: "reads r f = None \<longleftrightarrow> (\<exists>v mid. r = Inr (v, mid) \<and> f v mid = None)"
  by (auto simp: reads_def split: sum.splits)

lemma recognises_nothing: "recognises (\<lambda>x. x = []) (\<lambda>buf. Some (Inr buf))"
  by (auto simp: recognises_def)

lemma recognises_refused: "recognises (\<lambda>_. False) (\<lambda>buf. Some (Inl e))"
  by (auto simp: recognises_def)

lemma recognises_then:
  assumes "recognises P f" and "recognises Q g"
  shows "recognises (\<lambda>x. \<exists>a b. x = a @ b \<and> P a \<and> Q b) (\<lambda>buf. and_then (f buf) g)"
proof (rule recognisesI)
  fix buf rest
  show "and_then (f buf) g \<noteq> None" using assms by (simp add: recognises_def and_then_None)
  have "and_then (f buf) g = Some (Inr rest) \<longleftrightarrow> (\<exists>mid. (\<exists>a. buf = a @ mid \<and> P a) \<and> (\<exists>b. mid = b @ rest \<and> Q b))"
    using assms by (simp add: recognises_def and_then_Inr)
  also have "\<dots> \<longleftrightarrow> (\<exists>x. buf = x @ rest \<and> (\<exists>a b. x = a @ b \<and> P a \<and> Q b))" by (metis append.assoc)
  finally show "and_then (f buf) g = Some (Inr rest) \<longleftrightarrow> (\<exists>x. buf = x @ rest \<and> (\<exists>a b. x = a @ b \<and> P a \<and> Q b))" .
qed

lemma recognises_reads:
  assumes "gives P r" and "\<And>v. recognises (Q v) (f v)"
  shows "recognises (\<lambda>x. \<exists>a b v. x = a @ b \<and> P a v \<and> Q v b) (\<lambda>buf. reads (r buf) f)"
proof (rule recognisesI)
  fix buf rest
  show "reads (r buf) f \<noteq> None" using assms(2) by (simp add: recognises_def reads_None)
  have "reads (r buf) f = Some (Inr rest) \<longleftrightarrow> (\<exists>v mid. (\<exists>a. buf = a @ mid \<and> P a v) \<and> (\<exists>b. mid = b @ rest \<and> Q v b))"
    using assms by (simp add: recognises_def gives_def reads_Inr)
  also have "\<dots> \<longleftrightarrow> (\<exists>x. buf = x @ rest \<and> (\<exists>a b v. x = a @ b \<and> P a v \<and> Q v b))" by (metis append.assoc)
  finally show "reads (r buf) f = Some (Inr rest) \<longleftrightarrow> (\<exists>x. buf = x @ rest \<and> (\<exists>a b v. x = a @ b \<and> P a v \<and> Q v b))" .
qed

lemma recognises_skip: "recognises (\<lambda>x. length x = n) (skip_octets n)"
  unfolding skip_octets_def [abs_def]
  by (rule recognises_cong [OF recognises_reads [OF gives_octets recognises_nothing]]) simp

lemma recognises_bytes: "recognises is_bytes walk_bytes"
proof -
  have "recognises (\<lambda>x. 0 \<le> len \<and> length x = nat len)
      (\<lambda>rest. if len < 0 then Some (Inl (Bad_Length len)) else skip_octets (nat len) rest)" for len
    using recognises_skip [of "nat len"] recognises_refused [of "Bad_Length len"] by (cases "len < 0") auto
  from recognises_reads [OF gives_long this] show ?thesis
    unfolding walk_bytes_def [abs_def]
    by (rule recognises_cong) (force simp: is_bytes_def)
qed

lemma recognises_times:
  assumes "recognises item f"
  shows "recognises (\<lambda>x. \<exists>xs. x = concat xs \<and> length xs = n \<and> list_all item xs) (walk_times f n)"
proof (induction n)
  case 0
  show ?case by (rule recognises_cong [OF recognises_nothing [folded walk_times.simps(1) [of f, abs_def]]]) auto
next
  case (Suc n)
  have "recognises (\<lambda>x. \<exists>a b. x = a @ b \<and> item a \<and> (\<exists>xs. b = concat xs \<and> length xs = n \<and> list_all item xs)) (walk_times f (Suc n))"
    unfolding walk_times.simps(2) [abs_def] by (rule recognises_then [OF assms Suc])
  then show ?case
    proof (rule recognises_cong)
    fix x
    show "(\<exists>a b. x = a @ b \<and> item a \<and> (\<exists>xs. b = concat xs \<and> length xs = n \<and> list_all item xs))
      \<longleftrightarrow> (\<exists>xs. x = concat xs \<and> length xs = Suc n \<and> list_all item xs)" (is "?l \<longleftrightarrow> ?r")
    proof
      assume ?l
      then obtain a xs where "x = a @ concat xs" "item a" "length xs = n" "list_all item xs" by blast
      then show ?r by (intro exI [of _ "a # xs"]) simp
    next
      assume ?r
      then obtain a xs where "x = a @ concat xs" "item a" "length xs = n" "list_all item xs" by (auto simp: length_Suc_conv)
      then show ?l by blast
    qed
  qed
qed

lemma recognises_all:
  assumes "list_all2 recognises Ps fs"
  shows "recognises (\<lambda>x. \<exists>xs. x = concat xs \<and> list_all2 (\<lambda>P x. P x) Ps xs) (walk_all fs)"
  using assms
proof (induction Ps fs rule: list_all2_induct)
  case Nil
  show ?case by (rule recognises_cong [OF recognises_nothing [folded walk_all.simps(1) [abs_def]]]) auto
next
  case (Cons P Ps f fs)
  have "recognises (\<lambda>x. \<exists>a b. x = a @ b \<and> P a \<and> (\<exists>xs. b = concat xs \<and> list_all2 (\<lambda>P x. P x) Ps xs)) (walk_all (f # fs))"
    unfolding walk_all.simps(2) [abs_def] by (rule recognises_then [OF Cons(1) Cons.IH])
  then show ?case
    proof (rule recognises_cong)
    fix x
    show "(\<exists>a b. x = a @ b \<and> P a \<and> (\<exists>xs. b = concat xs \<and> list_all2 (\<lambda>P x. P x) Ps xs))
      \<longleftrightarrow> (\<exists>xs. x = concat xs \<and> list_all2 (\<lambda>P x. P x) (P # Ps) xs)" (is "?l \<longleftrightarrow> ?r")
    proof
      assume ?l
      then obtain a xs where "x = a @ concat xs" "P a" "list_all2 (\<lambda>P x. P x) Ps xs" by blast
      then show ?r by (intro exI [of _ "a # xs"]) simp
    next
      assume ?r
      then obtain a xs where "x = a @ concat xs" "P a" "list_all2 (\<lambda>P x. P x) Ps xs" by (auto simp: list_all2_Cons1)
      then show ?l by blast
    qed
  qed
qed

lemma is_varint_Nil [simp]: "\<not> is_varint [] v"
  by (simp add: is_varint_def varint_bytes_def)

lemma is_long_Nil [simp]: "\<not> is_long [] n"
  by (simp add: is_long_def)

lemma long_shorter: "zigzag_long buf = Inr (n, rest) \<Longrightarrow> length rest < length buf"
  by (auto simp: long_exact)

lemma zigzag_range: "- (2 ^ 63) \<le> zigzag v \<and> zigzag v < 2 ^ 63"
  using sint_greater_eq [of "drop_bit 1 v XOR - (v AND 1)"] sint_less [of "drop_bit 1 v XOR - (v AND 1)"]
  by (simp add: zigzag_def)

lemma long_range: "zigzag_long buf = Inr (n, rest) \<Longrightarrow> - (2 ^ 63) \<le> n \<and> n < 2 ^ 63"
  using zigzag_range by (auto simp: zigzag_long_def split: sum.splits)

text \<open>What follows a count of a block: its items and the other blocks.\<close>

definition block_rest :: "(octets \<Rightarrow> bool) \<Rightarrow> nat \<Rightarrow> octets \<Rightarrow> octets \<Rightarrow> bool" where
  "block_rest item n buf rest \<longleftrightarrow>
     (\<exists>xs y. buf = concat xs @ y @ rest \<and> length xs = n \<and> list_all item xs \<and> blocks_of item y)"

lemma blocks_unfold:
  "(\<exists>x. buf = x @ rest \<and> blocks_of item x) \<longleftrightarrow>
   (\<exists>n mid. zigzag_long buf = Inr (n, mid) \<and>
      (n = 0 \<and> mid = rest
       \<or> 0 < n \<and> block_rest item (nat n) mid rest
       \<or> n < 0 \<and> n \<noteq> - (2 ^ 63) \<and> (\<exists>m t. zigzag_long mid = Inr (m, t) \<and> block_rest item (nat (- n)) t rest)))"
  (is "?l \<longleftrightarrow> ?r")
proof
  assume ?l
  then obtain x where x: "buf = x @ rest" "blocks_of item x" by blast
  from x(2) show ?r
  proof cases
    case blocks_end
    with x show ?thesis by (auto simp: long_exact)
  next
    case (blocks_more c xs r)
    then have "zigzag_long buf = Inr (int (length xs), concat xs @ r @ rest)" using x by (auto simp: long_exact)
    moreover have "block_rest item (nat (int (length xs))) (concat xs @ r @ rest) rest"
      using blocks_more by (auto simp: block_rest_def)
    moreover have "0 < int (length xs)" using blocks_more by simp
    ultimately show ?thesis by blast
  next
    case (blocks_sized c xs s n r)
    then have "zigzag_long buf = Inr (- int (length xs), s @ concat xs @ r @ rest)"
      and "zigzag_long (s @ concat xs @ r @ rest) = Inr (n, concat xs @ r @ rest)" using x by (auto simp: long_exact)
    moreover have "block_rest item (nat (- (- int (length xs)))) (concat xs @ r @ rest) rest"
      using blocks_sized by (auto simp: block_rest_def)
    moreover have "- int (length xs) < 0" "- int (length xs) \<noteq> - (2 ^ 63)" using blocks_sized by auto
    ultimately show ?thesis by blast
  qed
next
  assume ?r
  then obtain n mid where n: "zigzag_long buf = Inr (n, mid)" and
    r: "n = 0 \<and> mid = rest \<or> 0 < n \<and> block_rest item (nat n) mid rest
       \<or> n < 0 \<and> n \<noteq> - (2 ^ 63) \<and> (\<exists>m t. zigzag_long mid = Inr (m, t) \<and> block_rest item (nat (- n)) t rest)" by blast
  obtain c where c: "buf = c @ mid" "is_long c n" using n by (auto simp: long_exact)
  from r consider "n = 0" "mid = rest" | "0 < n" "block_rest item (nat n) mid rest"
    | m t where "n < 0" "n \<noteq> - (2 ^ 63)" "zigzag_long mid = Inr (m, t)" "block_rest item (nat (- n)) t rest" by blast
  then show ?l
  proof cases
    case 1
    with c show ?thesis by (auto intro: blocks_of.blocks_end)
  next
    case 2
    then obtain xs y where xs: "mid = concat xs @ y @ rest" "length xs = nat n" "list_all item xs" "blocks_of item y"
      by (auto simp: block_rest_def)
    then have "blocks_of item (c @ concat xs @ y)" using c 2 by (intro blocks_of.blocks_more) auto
    with c xs show ?thesis by (intro exI [of _ "c @ concat xs @ y"]) simp
  next
    case 3
    then obtain xs y where xs: "t = concat xs @ y @ rest" "length xs = nat (- n)" "list_all item xs" "blocks_of item y"
      by (auto simp: block_rest_def)
    obtain s where s: "mid = s @ t" "is_long s m" using 3 by (auto simp: long_exact)
    have "length xs < 2 ^ 63" using xs(2) 3 long_range [OF n] by auto
    then have "blocks_of item (c @ s @ concat xs @ y)" using c s xs 3 by (intro blocks_of.blocks_sized) auto
    with c s xs show ?thesis by (intro exI [of _ "c @ s @ concat xs @ y"]) simp
  qed
qed

lemma walk_blocks_exact:
  assumes item: "recognises item f" and empty: "e \<Longrightarrow> \<forall>x. item x \<longleftrightarrow> x = []"
  shows "length buf < fuel \<Longrightarrow> walk_blocks fuel f e buf \<noteq> None
    \<and> (\<forall>rest. walk_blocks fuel f e buf = Some (Inr rest) \<longleftrightarrow> (\<exists>x. buf = x @ rest \<and> blocks_of item x))"
proof (induction fuel arbitrary: buf)
  case (Suc fuel)
  define block where "block = (\<lambda>count rest. if e then walk_blocks fuel f e rest
        else and_then (walk_times f (nat count) rest) (walk_blocks fuel f e))"
  have block: "block n mid \<noteq> None \<and> (\<forall>rest. block n mid = Some (Inr rest) \<longleftrightarrow> block_rest item (nat n) mid rest)"
    if mid: "length mid < fuel" for n mid
  proof (cases e)
    case True
    have "(\<exists>x. mid = x @ rest \<and> blocks_of item x) \<longleftrightarrow> block_rest item (nat n) mid rest" for rest
    proof
      assume "\<exists>x. mid = x @ rest \<and> blocks_of item x"
      then obtain x where "mid = x @ rest" "blocks_of item x" by blast
      then show "block_rest item (nat n) mid rest" unfolding block_rest_def
        using empty [OF True] by (intro exI [of _ "replicate (nat n) []"] exI [of _ x]) (simp add: list_all_iff)
    next
      assume "block_rest item (nat n) mid rest"
      then obtain xs y where xs: "mid = concat xs @ y @ rest" "list_all item xs" "blocks_of item y"
        by (auto simp: block_rest_def)
      then have "concat xs = []" using empty [OF True] by (auto simp: list_all_iff)
      with xs show "\<exists>x. mid = x @ rest \<and> blocks_of item x" by auto
    qed
    with Suc.IH [OF mid] True show ?thesis by (simp add: block_def)
  next
    case False
    have times: "walk_times f (nat n) mid \<noteq> None"
      "\<And>t. walk_times f (nat n) mid = Some (Inr t) \<longleftrightarrow> (\<exists>xs. mid = concat xs @ t \<and> length xs = nat n \<and> list_all item xs)"
      using recognises_times [OF item, of "nat n"] by (auto simp: recognises_def)
    have short: "length t < fuel" if "walk_times f (nat n) mid = Some (Inr t)" for t
      using that mid by (auto simp: times)
    have "block n mid = Some (Inr rest) \<longleftrightarrow> block_rest item (nat n) mid rest" for rest
    proof -
      have "block n mid = Some (Inr rest) \<longleftrightarrow>
          (\<exists>t. walk_times f (nat n) mid = Some (Inr t) \<and> (\<exists>y. t = y @ rest \<and> blocks_of item y))"
        using False Suc.IH short by (auto simp: block_def and_then_Inr)
      then show ?thesis unfolding times block_rest_def by blast
    qed
    moreover have "block n mid \<noteq> None" using False times(1) Suc.IH short by (auto simp: block_def and_then_None)
    ultimately show ?thesis by blast
  qed
  then have block_Some: "length mid < fuel \<Longrightarrow> block n mid = None \<longleftrightarrow> False" for n mid by blast
  have step: "walk_blocks (Suc fuel) f e buf = reads (zigzag_long buf) (\<lambda>count rest.
       if count = 0 then Some (Inr rest)
       else if count < 0
            then reads (zigzag_long rest) (\<lambda>_ rest.
                   if count = - (2 ^ 63) then Some (Inl (Bad_Block count)) else block (- count) rest)
            else block count rest)"
    unfolding walk_blocks.simps block_def Let_def by (rule refl)
  have short: "length t < fuel" if "zigzag_long buf = Inr (n, t)" for n t
    using long_shorter [OF that] Suc.prems by simp
  have shorter: "length t < fuel" if "zigzag_long buf = Inr (n, mid)" "zigzag_long mid = Inr (m, t)" for n mid m t
    using short [OF that(1)] long_shorter [OF that(2)] by simp
  have none: "walk_blocks (Suc fuel) f e buf \<noteq> None"
  proof
    assume "walk_blocks (Suc fuel) f e buf = None"
    then show False
      unfolding step reads_None using block_Some [OF short] block_Some [OF shorter]
      by (auto simp: reads_None split: if_splits) (metis option.simps(3))
  qed
  have "walk_blocks (Suc fuel) f e buf = Some (Inr rest) \<longleftrightarrow> (\<exists>x. buf = x @ rest \<and> blocks_of item x)" for rest
  proof (cases "zigzag_long buf")
    case (Inl err)
    then show ?thesis unfolding step blocks_unfold by (simp add: reads_def)
  next
    case (Inr r)
    obtain n mid where r: "r = (n, mid)" by fastforce
    have mid: "block k mid = Some (Inr rest) \<longleftrightarrow> block_rest item (nat k) mid rest" for k
      using block [OF short, of n mid k] Inr r by blast
    consider "n = 0" | "0 < n" | "n < 0" by linarith
    then show ?thesis
    proof cases
      case 3
      show ?thesis
      proof (cases "zigzag_long mid")
        case Inl': (Inl err)
        with Inr r 3 show ?thesis unfolding step blocks_unfold by (simp add: reads_def)
      next
        case Inr': (Inr s)
        obtain m t where s: "s = (m, t)" by fastforce
        have "block k t = Some (Inr rest) \<longleftrightarrow> block_rest item (nat k) t rest" for k
          using block [OF shorter, of n mid m t k] Inr Inr' r s by blast
        with Inr Inr' r s 3 show ?thesis unfolding step blocks_unfold by (simp add: reads_def)
      qed
    qed (use Inr r mid in \<open>unfold step blocks_unfold, simp_all add: reads_def\<close>)
  qed
  with none show ?case by blast
qed simp

lemma recognises_blocks:
  assumes "recognises item f" and "e \<Longrightarrow> \<forall>x. item x \<longleftrightarrow> x = []"
  shows "recognises (blocks_of item) (\<lambda>buf. walk_blocks (Suc (length buf)) f e buf)"
  unfolding recognises_def using walk_blocks_exact [OF assms lessI] by blast

declare walk_blocks.simps(2) [simp del]

section \<open>The tables reading a schema makes\<close>

definition children :: "wire_node \<Rightarrow> nat list" where
  "children node = (case node of WArray i \<Rightarrow> [i] | WMap i \<Rightarrow> [i] | WUnion is \<Rightarrow> is | WRecord is \<Rightarrow> is | _ \<Rightarrow> [])"

text \<open>Every node's children come before it, and the second table tells which values take no bytes.\<close>

definition nodes_ok :: "wire_node list \<Rightarrow> bool" where
  "nodes_ok nodes \<longleftrightarrow> (\<forall>n < length nodes. \<forall>i \<in> set (children (nodes ! n)). i < n)"

definition wire_ok :: "wire \<Rightarrow> bool" where
  "wire_ok w \<longleftrightarrow> nodes_ok (wi_nodes w) \<and> wi_root w < length (wi_nodes w) \<and> wi_empty w = empties [] (wi_nodes w)"

definition parser_ok :: "schema_parser \<Rightarrow> bool" where
  "parser_ok p \<longleftrightarrow> nodes_ok (sp_nodes p) \<and> (\<forall>k i. sp_named p k = Some i \<longrightarrow> i < length (sp_nodes p))"

lemma push_node_ok:
  assumes "parser_ok p" and "\<forall>i \<in> set (children node). i < length (sp_nodes p)" and "push_node node p = (i, p')"
  shows "parser_ok p' \<and> i < length (sp_nodes p') \<and> length (sp_nodes p) \<le> length (sp_nodes p')"
  using assms by (auto simp: push_node_def parser_ok_def nodes_ok_def nth_append less_Suc_eq dest: less_SucI)

lemma pushed_ok:
  assumes "parser_ok p" and "\<forall>i \<in> set (children node). i < length (sp_nodes p)" and "pushed node name ns p = (i, p')"
  shows "parser_ok p' \<and> i < length (sp_nodes p') \<and> length (sp_nodes p) \<le> length (sp_nodes p')"
proof -
  obtain q where q: "push_node node p = (i, q)" "p' = register_name name ns i q"
    using assms(3) by (auto simp: pushed_def split: prod.splits)
  from push_node_ok [OF assms(1,2) q(1)] show ?thesis by (auto simp: q(2) register_name_def parser_ok_def)
qed

lemma named_type_ok:
  "parser_ok p \<Longrightarrow> named_type name ns p = Inr (i, p') \<Longrightarrow>
   parser_ok p' \<and> i < length (sp_nodes p') \<and> length (sp_nodes p) \<le> length (sp_nodes p')"
proof (cases "primitive_node name")
  case (Some node)
  assume p: "parser_ok p" "named_type name ns p = Inr (i, p')"
  have "children node = []" using Some by (auto simp: primitive_node_def children_def split: if_splits)
  moreover have "push_node node p = (i, p')" using p Some by (simp add: named_type_def)
  ultimately show ?thesis using push_node_ok [OF p(1), of node] by simp
next
  case None
  assume "parser_ok p" "named_type name ns p = Inr (i, p')"
  with None show ?thesis by (auto simp: named_type_def parser_ok_def Let_def split: prod.splits option.splits)
qed

lemma parse_ok:
  "parse_schema v ns p = Inr (i, p') \<Longrightarrow> parser_ok p \<Longrightarrow>
     parser_ok p' \<and> i < length (sp_nodes p') \<and> length (sp_nodes p) \<le> length (sp_nodes p')"
  "parse_branches vs ns p = Inr (is, p') \<Longrightarrow> parser_ok p \<Longrightarrow>
     parser_ok p' \<and> (\<forall>i \<in> set is. i < length (sp_nodes p')) \<and> length (sp_nodes p) \<le> length (sp_nodes p')"
  "parse_fields name vs ns p = Inr (is, p') \<Longrightarrow> parser_ok p \<Longrightarrow>
     parser_ok p' \<and> (\<forall>i \<in> set is. i < length (sp_nodes p')) \<and> length (sp_nodes p) \<le> length (sp_nodes p')"
proof (induction v ns p and vs ns p and name vs ns p arbitrary: i p' and "is" p' and "is" p'
    rule: parse_schema_parse_branches_parse_fields.induct)
  case (1 name ns p)
  then show ?case by (simp add: named_type_ok)
next
  case (2 branches ns p)
  then obtain bs q where q: "parse_branches branches ns p = Inr (bs, q)" "push_node (WUnion bs) q = (i, p')"
    by (auto split: sum.splits)
  with 2 have "parser_ok q" "\<forall>i \<in> set bs. i < length (sp_nodes q)" "length (sp_nodes p) \<le> length (sp_nodes q)" by auto
  with push_node_ok [OF _ _ q(2)] show ?case by (fastforce simp: children_def)
next
  case (3 m ns p)
  note ok = 3(5)
  obtain kind where kind: "Option.bind (json_get ''type'' (JObj m)) as_str = Some kind"
    using 3(4) by (auto split: option.splits)
  define own where "own = (case Option.bind (json_get ''namespace'' (JObj m)) as_str of Some s \<Rightarrow> Some s | None \<Rightarrow> ns)"
  note ih1 = 3(1) and ih2 = 3(2) and ih3 = 3(3)
  note r = 3(4) [unfolded parse_schema.simps kind option.case Let_def, folded own_def]
  consider "kind = ''record''" | "kind = ''enum''" | "kind = ''fixed''" | "kind = ''array''" | "kind = ''map''"
    | "kind \<notin> {''record'', ''enum'', ''fixed'', ''array'', ''map''}" by auto
  then show ?case
  proof cases
    case 1
    with r obtain name fs ids q where name: "Option.bind (json_get ''name'' (JObj m)) as_str = Some name"
      and fs: "json_get ''fields'' (JObj m) = Some (JArr fs)" and q: "parse_fields name fs own p = Inr (ids, q)"
      and push: "pushed (WRecord ids) name own q = (i, p')"
      by (auto split: option.splits sum.splits json.splits)
    have "parser_ok q" "\<forall>i \<in> set ids. i < length (sp_nodes q)" "length (sp_nodes p) \<le> length (sp_nodes q)"
      using ih1 [OF kind refl refl 1 _ fs refl, of name] name q ok unfolding own_def by auto
    with pushed_ok [OF _ _ push] show ?thesis by (fastforce simp: children_def)
  next
    case 2
    with r obtain name where "pushed WEnum name own p = (i, p')" by (auto split: option.splits sum.splits if_splits)
    from pushed_ok [OF ok _ this] show ?thesis by (simp add: children_def)
  next
    case 3
    with r obtain name n where "pushed (WFixed n) name own p = (i, p')" by (auto split: option.splits sum.splits)
    from pushed_ok [OF ok _ this] show ?thesis by (simp add: children_def)
  next
    case 4
    with r obtain items k q where items: "json_get ''items'' (JObj m) = Some items" and q: "parse_schema items ns p = Inr (k, q)"
      and push: "push_node (WArray k) q = (i, p')"
      by (auto split: option.splits sum.splits)
    have "parser_ok q" "k < length (sp_nodes q)" "length (sp_nodes p) \<le> length (sp_nodes q)"
      using ih2 [OF kind refl refl _ _ _ 4 items q ok] 4 by auto
    with push_node_ok [OF _ _ push] show ?thesis by (fastforce simp: children_def)
  next
    case 5
    with r obtain items k q where items: "json_get ''values'' (JObj m) = Some items" and q: "parse_schema items ns p = Inr (k, q)"
      and push: "push_node (WMap k) q = (i, p')"
      by (auto split: option.splits sum.splits)
    have "parser_ok q" "k < length (sp_nodes q)" "length (sp_nodes p) \<le> length (sp_nodes q)"
      using ih3 [OF kind refl refl _ _ _ _ 5 items q ok] 5 by auto
    with push_node_ok [OF _ _ push] show ?thesis by (fastforce simp: children_def)
  next
    case 6
    with r have "named_type kind ns p = Inr (i, p')" by simp
    from named_type_ok [OF ok this] show ?thesis .
  qed
next
  case (6 b bs ns p)
  then show ?case by (fastforce split: sum.splits prod.splits)
next
  case (8 name f fs ns p)
  then show ?case by (fastforce split: sum.splits prod.splits option.splits)
qed auto

lemma empties_prefix: "take (length b) (empties b ns) = b"
proof (induction b ns rule: empties.induct)
  case (2 b node ns)
  from arg_cong [OF 2, of "take (length b)"] show ?case by simp
qed simp

lemma length_empties [simp]: "length (empties b ns) = length b + length ns"
  by (induction b ns rule: empties.induct) simp_all

lemma empties_nth:
  "i < length ns \<Longrightarrow> empties b ns ! (length b + i) = node_empty (take (length b + i) (empties b ns)) (ns ! i)"
proof (induction b ns arbitrary: i rule: empties.induct)
  case (2 b node ns)
  show ?case
  proof (cases i)
    case 0
    let ?b = "b @ [node_empty b node]"
    have "empties ?b ns ! length b = ?b ! length b"
      using empties_prefix [of ?b ns] by (metis length_append_singleton lessI nth_take)
    moreover have "take (length b) (empties ?b ns) = b"
      using arg_cong [OF empties_prefix [of ?b ns], of "take (length b)"] by simp
    ultimately show ?thesis using 0 by simp
  next
    case (Suc j)
    with 2(1) [of j] 2(2) show ?thesis by simp
  qed
qed simp

lemma node_empty_cong:
  "\<forall>i \<in> set (children node). i < n \<Longrightarrow> n \<le> length b \<Longrightarrow> node_empty (take n b) node = node_empty b node"
  by (auto simp: node_empty_def children_def list_all_iff split: wire_node.splits)

inductive_cases lies_elim: "lies nodes n x"

lemma lies_iff:
  "lies nodes n x \<longleftrightarrow>
     (case nodes ! n of
        WNull \<Rightarrow> x = []
      | WBoolean \<Rightarrow> x = [0] \<or> x = [1]
      | WInt \<Rightarrow> \<exists>v. is_varint x v \<and> v \<le> 0xFFFFFFFF
      | WLong \<Rightarrow> \<exists>v. is_varint x v
      | WFloat \<Rightarrow> length x = 4
      | WDouble \<Rightarrow> length x = 8
      | WBytes \<Rightarrow> is_bytes x
      | WFixed k \<Rightarrow> length x = k
      | WEnum \<Rightarrow> \<exists>v. is_varint x v \<and> v \<le> 0xFFFFFFFF
      | WArray i \<Rightarrow> blocks_of (lies nodes i) x
      | WMap i \<Rightarrow> blocks_of (\<lambda>e. \<exists>k v. e = k @ v \<and> is_bytes k \<and> lies nodes i v) x
      | WUnion bs \<Rightarrow> \<exists>c k v. x = c @ v \<and> is_long c (int k) \<and> k < length bs \<and> lies nodes (bs ! k) v
      | WRecord fs \<Rightarrow> \<exists>xs. x = concat xs \<and> list_all2 (lies nodes) fs xs)"
  by (subst lies.simps) (cases "nodes ! n"; auto)

text \<open>The second table marks exactly nodes whose values take no bytes.\<close>

lemma empty_value:
  assumes "nodes_ok nodes"
  shows "n < length nodes \<Longrightarrow> empties [] nodes ! n \<Longrightarrow> lies nodes n x \<longleftrightarrow> x = []"
proof (induction n arbitrary: x rule: less_induct)
  case (less n)
  have child: "\<forall>i \<in> set (children (nodes ! n)). i < n" using assms less.prems by (simp add: nodes_ok_def)
  have e: "node_empty (empties [] nodes) (nodes ! n)"
    using less.prems empties_nth [of n nodes "[]"] node_empty_cong [OF child, of "empties [] nodes"] by simp
  show ?case
  proof (cases "nodes ! n")
    case (WRecord fs)
    have empty: "lies nodes f y \<longleftrightarrow> y = []" if "f \<in> set fs" for f y
      using less.IH [of f y] child e that less.prems by (auto simp: WRecord children_def node_empty_def list_all_iff)
    have "list_all2 (lies nodes) fs xs \<longleftrightarrow> list_all2 (\<lambda>f y. y = []) fs xs" for xs
      by (rule list.rel_cong) (auto simp: empty)
    also have "list_all2 (\<lambda>f y. y = []) fs xs \<longleftrightarrow> xs = replicate (length fs) []" for xs
      by (induction fs arbitrary: xs) (auto simp: list_all2_Cons1)
    finally show ?thesis by (simp add: lies_iff [of nodes n] WRecord)
  qed (use e in \<open>auto simp: lies_iff [of nodes n] node_empty_def\<close>)
qed

lemma recognises_if: "recognises (\<lambda>x. c \<and> x = []) (\<lambda>rest. if c then Some (Inr rest) else Some (Inl e))"
  by (cases c) (auto simp: recognises_def)

lemma recognises_unless: "recognises (\<lambda>x. \<not> c \<and> x = []) (\<lambda>rest. if c then Some (Inl e) else Some (Inr rest))"
  by (cases c) (auto simp: recognises_def)

lemma varint_at_most:
  "recognises (\<lambda>x. \<exists>v. is_varint x v \<and> v \<le> m) (\<lambda>buf. reads (varint buf) (\<lambda>v rest. if v > m then Some (Inl e) else Some (Inr rest)))"
  by (rule recognises_cong [OF recognises_reads [OF gives_varint recognises_unless]]) (auto simp: not_less)

lemma walk_exact:
  assumes nodes: "nodes_ok (wi_nodes w)" and empty: "wi_empty w = empties [] (wi_nodes w)"
  shows "n < depth \<Longrightarrow> n < length (wi_nodes w) \<Longrightarrow> recognises (lies (wi_nodes w) n) (walk depth w n)"
proof (induction depth arbitrary: n)
  case (Suc depth)
  let ?ns = "wi_nodes w"
  have child: "recognises (lies ?ns i) (walk depth w i) \<and> i < length ?ns" if "i \<in> set (children (?ns ! n))" for i
  proof -
    have "i < n" using nodes Suc.prems(2) that by (simp add: nodes_ok_def)
    then show ?thesis using Suc.IH [of i] Suc.prems by simp
  qed
  show ?case
  proof (cases "?ns ! n")
    case WNull
    then show ?thesis using recognises_nothing by (auto simp: recognises_def lies_iff [of ?ns n])
  next
    case WBoolean
    have "recognises (\<lambda>x. x = [0] \<or> x = [1])
        (\<lambda>buf. reads (take_octets 1 buf) (\<lambda>b rest. if hd b = 0 \<or> hd b = 1 then Some (Inr rest) else Some (Inl (Bad_Boolean (hd b)))))"
      by (rule recognises_cong [OF recognises_reads [OF gives_octets recognises_if]]) (auto simp: length_Suc_conv)
    then show ?thesis by (simp add: WBoolean lies_iff [of ?ns n])
  next
    case WInt
    then show ?thesis using varint_at_most by (simp add: lies_iff [of ?ns n])
  next
    case WLong
    from recognises_reads [OF gives_varint recognises_nothing] show ?thesis
      by (simp add: WLong lies_iff [of ?ns n])
  next
    case WFloat
    then show ?thesis using recognises_skip by (simp add: lies_iff [of ?ns n])
  next
    case WDouble
    then show ?thesis using recognises_skip by (simp add: lies_iff [of ?ns n])
  next
    case WBytes
    then show ?thesis using recognises_bytes by (simp add: lies_iff [of ?ns n])
  next
    case (WFixed k)
    then show ?thesis using recognises_skip by (simp add: lies_iff [of ?ns n])
  next
    case WEnum
    then show ?thesis using varint_at_most by (simp add: lies_iff [of ?ns n])
  next
    case (WArray i)
    with child [of i] have i: "recognises (lies ?ns i) (walk depth w i)" "i < length ?ns" by (auto simp: children_def)
    have e: "wi_empty w ! i \<Longrightarrow> \<forall>x. lies ?ns i x \<longleftrightarrow> x = []"
      using empty_value [OF nodes i(2)] by (simp add: empty)
    from recognises_blocks [OF i(1) e] show ?thesis by (simp add: WArray lies_iff [of ?ns n])
  next
    case (WMap i)
    with child [of i] have i: "recognises (lies ?ns i) (walk depth w i)" by (auto simp: children_def)
    have "recognises (\<lambda>e. \<exists>k v. e = k @ v \<and> is_bytes k \<and> lies ?ns i v) (\<lambda>buf. and_then (walk_bytes buf) (walk depth w i))"
      by (rule recognises_then [OF recognises_bytes i])
    from recognises_blocks [OF this, of False] show ?thesis by (simp add: WMap lies_iff [of ?ns n])
  next
    case (WUnion bs)
    have "recognises (\<lambda>x. 0 \<le> k \<and> nat k < length bs \<and> lies ?ns (bs ! nat k) x)
        (\<lambda>rest. if 0 \<le> k \<and> nat k < length bs then walk depth w (bs ! nat k) rest
                else Some (Inl (Branch_Out_Of_Range k (length bs))))" for k
      using child [of "bs ! nat k"] recognises_refused by (auto simp: WUnion children_def recognises_def)
    note r = recognises_reads [OF gives_long this]
    have "(\<exists>a b v. x = a @ b \<and> is_long a v \<and> 0 \<le> v \<and> nat v < length bs \<and> lies ?ns (bs ! nat v) b)
        \<longleftrightarrow> (\<exists>c k v. x = c @ v \<and> is_long c (int k) \<and> k < length bs \<and> lies ?ns (bs ! k) v)" for x
      by (metis int_nat_eq nat_int of_nat_0_le_iff)
    from recognises_cong [OF r this] show ?thesis by (simp add: WUnion lies_iff [of ?ns n])
  next
    case (WRecord fs)
    have "list_all2 recognises (map (lies ?ns) fs) (map (walk depth w) fs)"
      using child by (simp add: WRecord children_def list_all2_conv_all_nth)
    from recognises_all [OF this] show ?thesis
      by (simp add: WRecord lies_iff [of ?ns n] list_all2_map1)
  qed
qed simp

lemma wire_new_ok:
  assumes "wire_new schema = Inr w"
  shows "wire_ok w"
proof -
  obtain v root p where v: "schema = Some v" "parse_schema v None \<lparr>sp_nodes = [], sp_named = Map.empty\<rparr> = Inr (root, p)"
    "w = \<lparr>wi_nodes = sp_nodes p, wi_empty = empties [] (sp_nodes p), wi_root = root\<rparr>"
    using assms by (auto simp: wire_new_def split: option.splits sum.splits)
  have "parser_ok \<lparr>sp_nodes = [], sp_named = Map.empty\<rparr>" by (simp add: parser_ok_def nodes_ok_def)
  from parse_ok(1) [OF v(2) this] show ?thesis by (simp add: v(3) wire_ok_def parser_ok_def)
qed

section \<open>Where a record ends\<close>

text \<open>
  The walk ends on any bytes and finds the end of a record exactly: for every writer schema it could read, it
  gives a length iff that many bytes of the body are a value of the schema (every count, length, union branch,
  boolean and varint in range), whatever follows them. So a body has at most one such length.
\<close>

lemma record_len_exact:
  assumes "wire_new schema = Inr w"
  shows "record_len w body \<noteq> None
    \<and> (record_len w body = Some (Inr n) \<longleftrightarrow> n \<le> length body \<and> lies (wi_nodes w) (wi_root w) (take n body))"
proof -
  have "recognises (lies (wi_nodes w) (wi_root w)) (walk (Suc (wi_root w)) w (wi_root w))"
    using wire_new_ok [OF assms] by (intro walk_exact) (simp_all add: wire_ok_def)
  then have none: "walk (Suc (wi_root w)) w (wi_root w) body \<noteq> None"
    and some: "\<And>rest. walk (Suc (wi_root w)) w (wi_root w) body = Some (Inr rest)
      \<longleftrightarrow> (\<exists>x. body = x @ rest \<and> lies (wi_nodes w) (wi_root w) x)"
    by (simp_all add: recognises_def)
  have "record_len w body = Some (Inr n) \<longleftrightarrow>
      (\<exists>rest. walk (Suc (wi_root w)) w (wi_root w) body = Some (Inr rest) \<and> length body - length rest = n)"
    by (auto simp: record_len_def split: option.splits sum.splits)
  also have "\<dots> \<longleftrightarrow> (\<exists>rest x. body = x @ rest \<and> lies (wi_nodes w) (wi_root w) x \<and> length x = n)"
    unfolding some by (metis add_diff_cancel_right' length_append)
  also have "\<dots> \<longleftrightarrow> n \<le> length body \<and> lies (wi_nodes w) (wi_root w) (take n body)"
    by (auto) (metis append_take_drop_id length_take min_absorb2)
  finally show ?thesis using none by (auto simp: record_len_def split: option.splits sum.splits)
qed

text \<open>A record of a long, an optional string and an array of longs.\<close>

definition example_schema :: json where
  "example_schema =
     JObj [(''type'', JStr ''record''), (''name'', JStr ''Order''), (''fields'', JArr
       [JObj [(''name'', JStr ''id''), (''type'', JStr ''long'')],
        JObj [(''name'', JStr ''note''), (''type'', JArr [JStr ''null'', JStr ''string''])],
        JObj [(''name'', JStr ''lines''), (''type'', JObj [(''type'', JStr ''array''), (''items'', JStr ''long'')])]])]"

definition example_wire :: wire where
  "example_wire = \<lparr>wi_nodes = [WLong, WNull, WBytes, WUnion [1, 2], WLong, WArray 4, WRecord [0, 3, 5]],
     wi_empty = [False, True, False, False, False, False, False], wi_root = 6\<rparr>"

end
