(* ===== verification/Decode.thy ===== *)
theory Decode
  imports Wire BTree Errors
begin

text \<open>
  \<open>src/kafka/decode.rs\<close>: one pipeline's messages into batches of rows. arrow-avro's decoder, the schema
  registry, the Arrow kernels and base64 are parameters; texts of reasons are constructors. A decoder is
  built anew at several places: the model numbers the builds (\<open>ou_built\<close>), so that building one may fail
  at any of them.
\<close>

section \<open>Messages\<close>

datatype kafka_timestamp = NotAvailable | CreateTime int | LogAppendTime int

definition ts_millis :: "kafka_timestamp \<Rightarrow> int option" where
  "ts_millis t = (case t of NotAvailable \<Rightarrow> None | CreateTime ms \<Rightarrow> Some ms | LogAppendTime ms \<Rightarrow> Some ms)"

definition ts_micros :: "kafka_timestamp \<Rightarrow> int option" where
  "ts_micros t = Option.bind (ts_millis t) (\<lambda>ms. if i64 (ms * 1000) then Some (ms * 1000) else None)"

definition ts_type_code :: "kafka_timestamp \<Rightarrow> int" where
  "ts_type_code t = (case t of NotAvailable \<Rightarrow> -1 | CreateTime _ \<Rightarrow> 0 | LogAppendTime _ \<Rightarrow> 1)"

record kafka_message =
  km_partition :: int
  km_offset :: int
  km_timestamp :: kafka_timestamp
  km_key :: "octets option"
  km_value :: "octets option"
  km_headers :: "(string \<times> octets option) list"

definition octets_len :: "octets option \<Rightarrow> nat" where
  "octets_len b = (case b of None \<Rightarrow> 0 | Some x \<Rightarrow> length x)"

definition raw_len :: "kafka_message \<Rightarrow> nat" where
  "raw_len m = octets_len (km_key m) + octets_len (km_value m)
     + sum_list (map (\<lambda>h. length (fst h) + octets_len (snd h)) (km_headers m))"

text \<open>Why a message could not be decoded.\<close>

datatype reason =
    R_First_Byte "8 word"
  | R_Empty
  | R_Short nat
  | R_Full
  | R_Panicked string
  | R_Malformed string
  | R_After_Record string
  | R_Trailing nat
  | R_Wire wire_error
  | R_No_Body
  | R_Truncated nat
  | R_Records nat
  | R_Registry string
  | R_Not_A_Record nat
  | R_No_Decoder nat string
  | R_Zero_Width nat
  | R_Zero_Width_Items nat string
  | R_Again reason
  | R_Into_Arrow reason
  | R_No_Row
  | R_Arrow string
  | R_Assemble string

definition header_len :: nat where
  "header_len = 5"

definition frame :: "octets \<Rightarrow> reason + nat" where
  "frame payload =
     (case payload of
        [] \<Rightarrow> Inl R_Empty
      | b # _ \<Rightarrow>
          if b \<noteq> 0 then Inl (R_First_Byte b)
          else if length payload < header_len then Inl (R_Short (length payload))
          else Inr (foldl (\<lambda>a d. a * 256 + unat d) 0 (take 4 (drop 1 payload))))"

section \<open>arrow-avro's decoder, checked message by message\<close>

datatype arrow_answer = A_Panicked string | A_Failed string | A_Read nat

record 'a arrow =
  ar_capacity :: "'a \<Rightarrow> nat"
  ar_decode :: "octets \<Rightarrow> 'a \<Rightarrow> arrow_answer \<times> 'a"

record 'a avro_decoder =
  ad_inner :: 'a
  ad_wire :: "wire option"

definition wire_walk :: "'a avro_decoder \<Rightarrow> octets \<Rightarrow> reason + unit" where
  "wire_walk d framed =
     (case ad_wire d of
        None \<Rightarrow> Inr ()
      | Some w \<Rightarrow>
          let body = drop header_len framed
          in case record_len w body of
               Some (Inr len) \<Rightarrow> if len = length body then Inr () else Inl (R_Trailing (length body - len))
             | Some (Inl e) \<Rightarrow> Inl (R_Wire e)
             | None \<Rightarrow> Inl (R_Wire Ends_Inside))"

definition avro_decode_one :: "'a arrow \<Rightarrow> octets \<Rightarrow> 'a avro_decoder \<Rightarrow> (reason + unit) \<times> 'a avro_decoder" where
  "avro_decode_one ar framed d =
     (let before = ar_capacity ar (ad_inner d)
      in if before = 0 then (Inl R_Full, d)
         else
           let (result, inner) = ar_decode ar framed (ad_inner d);
               d = d\<lparr>ad_inner := inner\<rparr>;
               rows = before - ar_capacity ar inner
           in (case result of
                 A_Panicked t \<Rightarrow> Inl (R_Panicked t)
               | A_Failed e \<Rightarrow> if rows = 0 then Inl (R_Malformed e) else Inl (R_After_Record e)
               | A_Read n \<Rightarrow>
                   if rows = 1 then (if n = length framed then wire_walk d framed else Inl (R_Trailing (length framed - n)))
                   else if rows = 0 then
                     (if length framed \<le> header_len then Inl R_No_Body else Inl (R_Truncated (length framed - header_len)))
                   else Inl (R_Records rows), d))"

section \<open>Writer schemas\<close>

text \<open>The Arrow types the decoder looks at.\<close>

datatype arrow_type =
    A_Null
  | A_FixedSizeBinary nat
  | A_Struct "arrow_field list"
  | A_List arrow_field
  | A_Map arrow_field
  | A_Union "arrow_field list"
  | A_Other
and arrow_field = Arrow_Field (af_name: string) (af_type: arrow_type) (af_nullable: bool)

fun zero_width :: "arrow_type \<Rightarrow> bool" and zero_width_field :: "arrow_field \<Rightarrow> bool" where
  "zero_width A_Null = True"
| "zero_width (A_FixedSizeBinary n) = (n = 0)"
| "zero_width (A_Struct fs) = list_all zero_width_field fs"
| "zero_width _ = False"
| "zero_width_field (Arrow_Field name t nullable) = (zero_width t \<and> \<not> (nullable \<and> t \<noteq> A_Null))"

fun find_items :: "arrow_type \<Rightarrow> string \<Rightarrow> string option"
  and find_in_struct :: "arrow_field list \<Rightarrow> string \<Rightarrow> string option"
  and find_in_union :: "arrow_field list \<Rightarrow> string \<Rightarrow> string option"
  and find_in_item :: "arrow_field \<Rightarrow> string \<Rightarrow> string option" where
  "find_items (A_List item) path = (if zero_width_field item then Some path else find_in_item item (path @ ''[]''))"
| "find_items (A_Struct fs) path = find_in_struct fs path"
| "find_items (A_Map entries) path = find_in_item entries path"
| "find_items (A_Union fs) path = find_in_union fs path"
| "find_items _ path = None"
| "find_in_struct [] path = None"
| "find_in_struct (f # fs) path =
     (case find_in_item f (path @ ''.'' @ af_name f) of Some p \<Rightarrow> Some p | None \<Rightarrow> find_in_struct fs path)"
| "find_in_union [] path = None"
| "find_in_union (f # fs) path = (case find_in_item f path of Some p \<Rightarrow> Some p | None \<Rightarrow> find_in_union fs path)"
| "find_in_item (Arrow_Field name t nullable) path = find_items t path"

fun zero_width_items :: "arrow_field list \<Rightarrow> string option" where
  "zero_width_items [] = None"
| "zero_width_items (f # fs) = (case find_items (af_type f) (af_name f) of Some p \<Rightarrow> Some p | None \<Rightarrow> zero_width_items fs)"

text \<open>A schema of the registry: its id, its text, and what \<open>serde_json\<close> makes of that.\<close>

record registered_schema =
  sr_id :: nat
  sr_text :: string
  sr_json :: "json option"

definition top_level_record :: "json option \<Rightarrow> bool" where
  "top_level_record v =
     (case v of
        Some (JObj m) \<Rightarrow>
          (case json_get ''type'' (JObj m) of Some (JStr t) \<Rightarrow> t = ''record'' \<or> t = ''error'' | _ \<Rightarrow> False)
      | _ \<Rightarrow> False)"

section \<open>The decoder of one pipeline\<close>

text \<open>
  The seam \<open>Decode\<close> and \<open>DecodeFactory\<close>, and the Arrow kernels: \<open>dc_build k\<close> is the k-th build of a
  decoder, \<open>dc_rows\<close> a batch's \<open>num_rows\<close>.
\<close>

record ('d, 'b) decoding =
  dc_build :: "nat \<Rightarrow> nat \<Rightarrow> string \<Rightarrow> string + 'd"
  dc_fields :: "'d \<Rightarrow> arrow_field list"
  dc_decode_one :: "octets \<Rightarrow> 'd \<Rightarrow> (reason + unit) \<times> 'd"
  dc_flush :: "'d \<Rightarrow> (string + 'b option) \<times> 'd"
  dc_rows :: "'b \<Rightarrow> nat"
  dc_fixed_uuids :: "string \<Rightarrow> (string \<times> string option) list"
  dc_normalise :: "(string \<times> string option) list \<Rightarrow> 'b \<Rightarrow> string + 'b"
  dc_concat :: "'b list \<Rightarrow> string + 'b"
  dc_measured :: "'b \<Rightarrow> nat"
  dc_base64 :: "octets \<Rightarrow> string"
  dc_scale :: "nat \<Rightarrow> nat \<Rightarrow> nat \<Rightarrow> nat" \<comment> \<open>\<open>(pending as f64 * (bytes as f64 / raw as f64)) as u64\<close>\<close>

text \<open>A row of the metadata columns.\<close>

record metadata =
  md_topic :: string
  md_partition :: int
  md_offset :: int
  md_timestamp :: "int option"
  md_timestamp_type :: int
  md_key :: "octets option"
  md_headers :: "(string \<times> octets option) list"
  md_schema_id :: int

definition as_i32 :: "nat \<Rightarrow> int" where
  "as_i32 n = (if n < 2 ^ 31 then int n else int n - 2 ^ 32)"

definition metadata_of :: "string \<Rightarrow> nat \<Rightarrow> kafka_message \<Rightarrow> metadata" where
  "metadata_of topic sid m =
     \<lparr>md_topic = topic, md_partition = km_partition m, md_offset = km_offset m, md_timestamp = ts_micros (km_timestamp m),
      md_timestamp_type = ts_type_code (km_timestamp m), md_key = km_key m, md_headers = km_headers m, md_schema_id = as_i32 sid\<rparr>"

text \<open>A batch of rows with their metadata columns beside them.\<close>

record 'b emitted =
  em_batch :: 'b
  em_metadata :: "metadata list"

record undecodable =
  un_partition :: int
  un_offset :: int
  un_schema_id :: "nat option"
  un_reason :: reason
  un_deterministic :: bool

record 'b decoder_out =
  ou_batches :: "'b emitted list"
  ou_undecodable :: "(kafka_message \<times> undecodable) list"
  ou_tombstones :: nat
  ou_flushed_bytes :: nat
  ou_flushed_raw :: nat
  ou_pending_raw :: int
  ou_built :: nat

record 'd ready =
  re_schema :: registered_schema
  re_decoder :: 'd
  re_chunk :: "kafka_message list"
  re_fixed_uuids :: "(string \<times> string option) list"

datatype 'd group = Ready "'d ready" | Unusable reason | Collision string

record ('d, 'b) kafka_decoder =
  kd_topic :: string
  kd_prefix :: string
  kd_groups :: "(nat, 'd group) bmap"
  kd_out :: "'b decoder_out"

definition chunk_rows :: nat where
  "chunk_rows = 8192"

definition reject_message :: "kafka_message \<Rightarrow> nat option \<Rightarrow> reason \<Rightarrow> bool \<Rightarrow> 'b decoder_out \<Rightarrow> 'b decoder_out" where
  "reject_message m sid reason deterministic out =
     out\<lparr>ou_undecodable := ou_undecodable out @
       [(m, \<lparr>un_partition = km_partition m, un_offset = km_offset m, un_schema_id = sid, un_reason = reason,
             un_deterministic = deterministic\<rparr>)]\<rparr>"

text \<open>A build, and the number of the next one.\<close>

definition build_decoder :: "('d, 'b) decoding \<Rightarrow> nat \<Rightarrow> string \<Rightarrow> 'b decoder_out \<Rightarrow> (string + 'd) \<times> 'b decoder_out" where
  "build_decoder dc sid schema out = (dc_build dc (ou_built out) sid schema, out\<lparr>ou_built := Suc (ou_built out)\<rparr>)"

definition raw_sum :: "kafka_message list \<Rightarrow> nat" where
  "raw_sum ms = sum_list (map raw_len ms)"

text \<open>
  \<open>emit\<close>. \<open>RecordBatch::try_new\<close> refuses columns of different lengths; the schemas of the two halves are
  consistent by construction.
\<close>

definition emit :: "('d, 'b) decoding \<Rightarrow> string \<Rightarrow> nat \<Rightarrow> 'b \<Rightarrow> kafka_message list \<Rightarrow> nat \<Rightarrow> 'b decoder_out \<Rightarrow> 'b decoder_out" where
  "emit dc topic sid rows chunk raw out =
     (if dc_rows dc rows = length chunk
      then out\<lparr>ou_flushed_bytes := ou_flushed_bytes out + dc_measured dc rows,
               ou_flushed_raw := ou_flushed_raw out + raw,
               ou_batches := ou_batches out @ [\<lparr>em_batch = rows, em_metadata = map (metadata_of topic sid) chunk\<rparr>]\<rparr>
      else fold (\<lambda>m out. reject_message m (Some sid) (R_Assemble ''columns of different lengths'') False out) chunk out)"

record ('d, 'b) one_by_one =
  ob_clean :: bool
  ob_decoder :: 'd
  ob_rows :: "'b list"
  ob_kept :: "kafka_message list"
  ob_out :: "'b decoder_out"

text \<open>One message of \<open>flush_one_by_one\<close>; the first result says that a build failed, not the message.\<close>

definition decode_alone ::
    "('d, 'b) decoding \<Rightarrow> (string \<times> string option) list \<Rightarrow> kafka_message \<Rightarrow> 'd \<Rightarrow> bool \<times> 'd \<times> (reason + 'b)" where
  "decode_alone dc uuids m d =
     (case dc_decode_one dc (case_option [] id (km_value m)) d of
        (Inl e, d) \<Rightarrow> (False, d, Inl e)
      | (Inr _, d) \<Rightarrow>
          (case dc_flush dc d of
             (Inl e, d) \<Rightarrow> (False, d, Inl (R_Arrow e))
           | (Inr (Some b), d) \<Rightarrow>
               if dc_rows dc b = 1
               then (True, d, case dc_normalise dc uuids b of Inl e \<Rightarrow> Inl (R_Arrow e) | Inr b \<Rightarrow> Inr b)
               else (False, d, Inl R_No_Row)
           | (Inr None, d) \<Rightarrow> (False, d, Inl R_No_Row)))"

definition one_by_one_step ::
    "('d, 'b) decoding \<Rightarrow> nat \<Rightarrow> 'd ready \<Rightarrow> kafka_message \<Rightarrow> ('d, 'b) one_by_one \<Rightarrow> ('d, 'b) one_by_one" where
  "one_by_one_step dc sid g m s =
     (let (built, out) = (if ob_clean s then (Inr (ob_decoder s), ob_out s)
                          else build_decoder dc sid (sr_text (re_schema g)) (ob_out s));
          s = s\<lparr>ob_out := out\<rparr>
      in case built of
           Inl e \<Rightarrow> s\<lparr>ob_out := reject_message m (Some sid) (R_No_Decoder sid e) False out\<rparr>
         | Inr d \<Rightarrow>
             (case decode_alone dc (re_fixed_uuids g) m d of
                (clean, d, Inr b) \<Rightarrow>
                  s\<lparr>ob_clean := clean, ob_decoder := d, ob_rows := ob_rows s @ [b], ob_kept := ob_kept s @ [m]\<rparr>
              | (clean, d, Inl e) \<Rightarrow>
                  s\<lparr>ob_clean := clean, ob_decoder := d, ob_out := reject_message m (Some sid) (R_Into_Arrow e) True out\<rparr>))"

definition flush_one_by_one ::
    "('d, 'b) decoding \<Rightarrow> string \<Rightarrow> nat \<Rightarrow> 'd ready \<Rightarrow> kafka_message list \<Rightarrow> 'b decoder_out \<Rightarrow> 'd ready \<times> 'b decoder_out" where
  "flush_one_by_one dc topic sid g chunk out =
     (let s = fold (one_by_one_step dc sid g) chunk
                \<lparr>ob_clean = False, ob_decoder = re_decoder g, ob_rows = [], ob_kept = [], ob_out = out\<rparr>;
          (d, out) = (if ob_clean s then (ob_decoder s, ob_out s)
                      else case build_decoder dc sid (sr_text (re_schema g)) (ob_out s) of
                             (Inr d, out) \<Rightarrow> (d, out)
                           | (Inl _, out) \<Rightarrow> (ob_decoder s, out));
          g = g\<lparr>re_decoder := d\<rparr>
      in if ob_rows s = [] then (g, out)
         else (g, case dc_concat dc (ob_rows s) of
                    Inr b \<Rightarrow> emit dc topic sid b (ob_kept s) (raw_sum (ob_kept s)) out
                  | Inl e \<Rightarrow> fold (\<lambda>m out. reject_message m (Some sid) (R_Assemble e) False out) (ob_kept s) out))"

definition flush_group ::
    "('d, 'b) decoding \<Rightarrow> string \<Rightarrow> nat \<Rightarrow> 'd ready \<Rightarrow> 'b decoder_out \<Rightarrow> 'd ready \<times> 'b decoder_out" where
  "flush_group dc topic sid g out =
     (if re_chunk g = [] then (g, out)
      else
        let chunk = re_chunk g;
            raw = raw_sum chunk;
            out = out\<lparr>ou_pending_raw := ou_pending_raw out - int raw\<rparr>;
            (flushed, d) = dc_flush dc (re_decoder g);
            normalised = (case flushed of
                   Inr (Some b) \<Rightarrow> if dc_rows dc b = length chunk then dc_normalise dc (re_fixed_uuids g) b else Inl ''rows''
                 | _ \<Rightarrow> Inl ''rows'');
            g = g\<lparr>re_chunk := [], re_decoder := d\<rparr>
        in case normalised of
             Inr rows \<Rightarrow> (g, emit dc topic sid rows chunk raw out)
           | Inl _ \<Rightarrow> flush_one_by_one dc topic sid g chunk out)"

text \<open>
  \<open>isolate\<close>: the chunk's messages again, in a new decoder; one that does not decode again is taken out and
  the others start over. \<open>decode_again\<close> stops at the first failure, with the messages before it.
\<close>

fun decode_again ::
    "('d, 'b) decoding \<Rightarrow> kafka_message list \<Rightarrow> kafka_message list \<Rightarrow> 'd
      \<Rightarrow> (kafka_message list \<times> kafka_message \<times> reason \<times> kafka_message list) option \<times> 'd" where
  "decode_again dc seen [] d = (None, d)"
| "decode_again dc seen (m # ms) d =
     (case dc_decode_one dc (case_option [] id (km_value m)) d of
        (Inl e, d) \<Rightarrow> (Some (seen, m, e, ms), d)
      | (Inr _, d) \<Rightarrow> decode_again dc (seen @ [m]) ms d)"

lemma decode_again_shorter:
  "decode_again dc seen ms d = (Some (before, m, e, after), d') \<Longrightarrow> seen @ ms = before @ m # after"
  by (induction dc seen ms d rule: decode_again.induct) (auto split: prod.splits sum.splits)

lemma decode_again_length:
  assumes "decode_again dc [] ms d = (Some (before, m, e, after), d')"
  shows "length before + length after < length ms"
  using arg_cong [OF decode_again_shorter [OF assms], of length] by simp

definition drop_pending :: "kafka_message \<Rightarrow> nat \<Rightarrow> reason \<Rightarrow> 'b decoder_out \<Rightarrow> 'b decoder_out" where
  "drop_pending m sid reason out =
     reject_message m (Some sid) reason False (out\<lparr>ou_pending_raw := ou_pending_raw out - int (raw_len m)\<rparr>)"

function isolate_loop ::
    "('d, 'b) decoding \<Rightarrow> string \<Rightarrow> nat \<Rightarrow> kafka_message list \<Rightarrow> 'd ready \<Rightarrow> 'b decoder_out \<Rightarrow> 'd ready \<times> 'b decoder_out" where
  "isolate_loop dc topic sid good g out =
     (case build_decoder dc sid (sr_text (re_schema g)) out of
        (Inl e, out) \<Rightarrow> (g, fold (\<lambda>m. drop_pending m sid (R_No_Decoder sid e)) good out)
      | (Inr d, out) \<Rightarrow>
          (case decode_again dc [] good d of
             (None, d) \<Rightarrow> flush_group dc topic sid (g\<lparr>re_decoder := d, re_chunk := good\<rparr>) out
           | (Some (before, m, e, after), d) \<Rightarrow>
               isolate_loop dc topic sid (before @ after) (g\<lparr>re_decoder := d\<rparr>) (drop_pending m sid (R_Again e) out)))"
  by pat_completeness auto
termination
  by (relation "measure (\<lambda>(dc, topic, sid, good, g, out). length good)")
     (auto dest!: sym [THEN decode_again_length])

definition isolate :: "('d, 'b) decoding \<Rightarrow> string \<Rightarrow> nat \<Rightarrow> 'd ready \<Rightarrow> 'b decoder_out \<Rightarrow> 'd ready \<times> 'b decoder_out" where
  "isolate dc topic sid g out = isolate_loop dc topic sid (re_chunk g) (g\<lparr>re_chunk := []\<rparr>) out"

definition decode_message ::
    "('d, 'b) decoding \<Rightarrow> string \<Rightarrow> nat \<Rightarrow> kafka_message \<Rightarrow> 'd ready \<Rightarrow> 'b decoder_out \<Rightarrow> 'd ready \<times> 'b decoder_out" where
  "decode_message dc topic sid m g out =
     (case dc_decode_one dc (case_option [] id (km_value m)) (re_decoder g) of
        (Inr _, d) \<Rightarrow>
          let out = out\<lparr>ou_pending_raw := ou_pending_raw out + int (raw_len m)\<rparr>;
              g = g\<lparr>re_decoder := d, re_chunk := re_chunk g @ [m]\<rparr>
          in if length (re_chunk g) \<ge> chunk_rows then flush_group dc topic sid g out else (g, out)
      | (Inl reason, d) \<Rightarrow>
          (case isolate dc topic sid (g\<lparr>re_decoder := d\<rparr>) out of
             (g, out) \<Rightarrow> (g, reject_message m (Some sid) reason True out)))"

definition group_for :: "('d, 'b) decoding \<Rightarrow> string \<Rightarrow> registered_schema \<Rightarrow> 'b decoder_out \<Rightarrow> 'd group \<times> 'b decoder_out" where
  "group_for dc prefix schema out =
     (let sid = sr_id schema
      in if \<not> top_level_record (sr_json schema) then (Unusable (R_Not_A_Record sid), out)
         else
           let (built, out) = build_decoder dc sid (sr_text schema) out
           in (case built of
                 Inl e \<Rightarrow> Unusable (R_No_Decoder sid e)
               | Inr d \<Rightarrow>
                   (case find (\<lambda>f. strip_prefix prefix (af_name f) \<noteq> None) (dc_fields dc d) of
                      Some f \<Rightarrow> Collision (af_name f)
                    | None \<Rightarrow>
                        if zero_width (A_Struct (dc_fields dc d)) then Unusable (R_Zero_Width sid)
                        else case zero_width_items (dc_fields dc d) of
                               Some path \<Rightarrow> Unusable (R_Zero_Width_Items sid path)
                             | None \<Rightarrow>
                                 Ready \<lparr>re_schema = schema, re_decoder = d, re_chunk = [],
                                        re_fixed_uuids = dc_fixed_uuids dc (sr_text schema)\<rparr>), out))"

text \<open>What the registry says of a schema id; \<open>Inl\<close> is an error that is not the message's.\<close>

datatype schema_lookup = Lookup_Undecodable reason bool | Lookup_Avro registered_schema

definition take_group ::
    "('d, 'b) decoding \<Rightarrow> nat \<Rightarrow> kafka_message \<Rightarrow> 'd group \<Rightarrow> ('d, 'b) kafka_decoder \<Rightarrow> (error \<times> kafka_message) option \<times> ('d, 'b) kafka_decoder" where
  "take_group dc sid m grp kd =
     (case grp of
        Unusable reason \<Rightarrow> (None, kd\<lparr>kd_out := reject_message m (Some sid) reason True (kd_out kd)\<rparr>)
      | Collision field \<Rightarrow> (Some (E_KafkaMetadataCollision sid field (kd_prefix kd), m), kd)
      | Ready g \<Rightarrow>
          (case decode_message dc (kd_topic kd) sid m g (kd_out kd) of
             (g, out) \<Rightarrow> (None, kd\<lparr>kd_groups := bt_insert sid (Ready g) (kd_groups kd), kd_out := out\<rparr>)))"

text \<open>\<open>feed\<close>; \<open>Some\<close> is the message handed back.\<close>

definition feed ::
    "('d, 'b) decoding \<Rightarrow> (nat \<Rightarrow> error + schema_lookup) \<Rightarrow> kafka_message \<Rightarrow> ('d, 'b) kafka_decoder
      \<Rightarrow> (error \<times> kafka_message) option \<times> ('d, 'b) kafka_decoder" where
  "feed dc registry m kd =
     (case km_value m of
        None \<Rightarrow> (None, kd\<lparr>kd_out := (kd_out kd)\<lparr>ou_tombstones := Suc (ou_tombstones (kd_out kd))\<rparr>\<rparr>)
      | Some v \<Rightarrow>
          (case frame v of
             Inl reason \<Rightarrow> (None, kd\<lparr>kd_out := reject_message m None reason True (kd_out kd)\<rparr>)
           | Inr sid \<Rightarrow>
               (case bt_get (kd_groups kd) sid of
                  Some grp \<Rightarrow> take_group dc sid m grp kd
                | None \<Rightarrow>
                    (case registry sid of
                       Inl e \<Rightarrow> (Some (e, m), kd)
                     | Inr (Lookup_Undecodable reason deterministic) \<Rightarrow>
                         (None, kd\<lparr>kd_groups := (if deterministic then bt_insert sid (Unusable reason) (kd_groups kd) else kd_groups kd),
                                   kd_out := reject_message m (Some sid) reason deterministic (kd_out kd)\<rparr>)
                     | Inr (Lookup_Avro schema) \<Rightarrow>
                         (case group_for dc (kd_prefix kd) schema (kd_out kd) of
                            (grp, out) \<Rightarrow>
                              take_group dc sid m grp
                                (kd\<lparr>kd_groups := bt_insert sid grp (kd_groups kd), kd_out := out\<rparr>))))))"

definition decoded_bytes :: "('d, 'b) decoding \<Rightarrow> ('d, 'b) kafka_decoder \<Rightarrow> nat" where
  "decoded_bytes dc kd =
     (let out = kd_out kd
      in ou_flushed_bytes out
         + (if ou_flushed_raw out > 0 then dc_scale dc (nat (ou_pending_raw out)) (ou_flushed_bytes out) (ou_flushed_raw out)
            else 4 * nat (ou_pending_raw out)))"

definition decoder_is_empty :: "('d, 'b) kafka_decoder \<Rightarrow> bool" where
  "decoder_is_empty kd \<longleftrightarrow>
     ou_batches (kd_out kd) = [] \<and> ou_undecodable (kd_out kd) = [] \<and> ou_tombstones (kd_out kd) = 0 \<and> ou_pending_raw (kd_out kd) = 0
     \<and> list_all (\<lambda>(_, g). case g of Ready r \<Rightarrow> re_chunk r = [] | _ \<Rightarrow> True) (kd_groups kd)"

definition out_start :: "nat \<Rightarrow> 'b decoder_out" where
  "out_start built = \<lparr>ou_batches = [], ou_undecodable = [], ou_tombstones = 0, ou_flushed_bytes = 0, ou_flushed_raw = 0,
     ou_pending_raw = 0, ou_built = built\<rparr>"

record reject_row =
  rj_topic :: string
  rj_partition :: int
  rj_offset :: int
  rj_timestamp :: "int option"
  rj_key :: "string option"
  rj_value :: "string option"
  rj_schema_id :: "int option"
  rj_reason :: reason

definition rejected_rows :: "('d, 'b) decoding \<Rightarrow> string \<Rightarrow> (kafka_message \<times> undecodable) list \<Rightarrow> reject_row list option" where
  "rejected_rows dc topic us =
     (if us = [] then None
      else Some (map (\<lambda>(m, u). \<lparr>rj_topic = topic, rj_partition = km_partition m, rj_offset = km_offset m,
             rj_timestamp = ts_micros (km_timestamp m), rj_key = map_option (dc_base64 dc) (km_key m),
             rj_value = map_option (dc_base64 dc) (km_value m), rj_schema_id = map_option as_i32 (un_schema_id u),
             rj_reason = un_reason u\<rparr>) us))"

record 'b decoded_batch =
  db_batches :: "'b emitted list"
  db_undecodable :: "undecodable list"
  db_rejects :: "reject_row list option"
  db_tombstones :: nat
  db_decoded_bytes :: nat

fun flush_groups ::
    "('d, 'b) decoding \<Rightarrow> string \<Rightarrow> (nat, 'd group) bmap \<Rightarrow> 'b decoder_out \<Rightarrow> (nat, 'd group) bmap \<times> 'b decoder_out" where
  "flush_groups dc topic [] out = ([], out)"
| "flush_groups dc topic ((sid, grp) # gs) out =
     (let (grp, out) = (case grp of Ready g \<Rightarrow> (case flush_group dc topic sid g out of (g, out) \<Rightarrow> (Ready g, out)) | _ \<Rightarrow> (grp, out));
          (gs, out) = flush_groups dc topic gs out
      in ((sid, grp) # gs, out))"

definition finish :: "('d, 'b) decoding \<Rightarrow> ('d, 'b) kafka_decoder \<Rightarrow> 'b decoded_batch \<times> ('d, 'b) kafka_decoder" where
  "finish dc kd =
     (case flush_groups dc (kd_topic kd) (kd_groups kd) (kd_out kd) of
        (groups, out) \<Rightarrow>
          (\<lparr>db_batches = ou_batches out, db_undecodable = map snd (ou_undecodable out),
            db_rejects = rejected_rows dc (kd_topic kd) (ou_undecodable out), db_tombstones = ou_tombstones out,
            db_decoded_bytes = ou_flushed_bytes out\<rparr>,
           kd\<lparr>kd_groups := groups, kd_out := out_start (ou_built out)\<rparr>))"

fun discard_groups :: "('d, 'b) decoding \<Rightarrow> (nat, 'd group) bmap \<Rightarrow> 'b decoder_out \<Rightarrow> (nat, 'd group) bmap \<times> 'b decoder_out" where
  "discard_groups dc [] out = ([], out)"
| "discard_groups dc ((sid, grp) # gs) out =
     (case grp of
        Ready g \<Rightarrow>
          if re_chunk g = [] then (case discard_groups dc gs out of (gs, out) \<Rightarrow> ((sid, grp) # gs, out))
          else (case build_decoder dc sid (sr_text (re_schema g)) out of
                  (built, out) \<Rightarrow>
                    (case discard_groups dc gs out of
                       (gs, out) \<Rightarrow>
                         (case built of
                            Inr d \<Rightarrow> ((sid, Ready (g\<lparr>re_chunk := [], re_decoder := d\<rparr>)) # gs, out)
                          | Inl _ \<Rightarrow> (gs, out))))
      | _ \<Rightarrow> (case discard_groups dc gs out of (gs, out) \<Rightarrow> ((sid, grp) # gs, out)))"

definition discard :: "('d, 'b) decoding \<Rightarrow> ('d, 'b) kafka_decoder \<Rightarrow> ('d, 'b) kafka_decoder" where
  "discard dc kd =
     (case discard_groups dc (kd_groups kd) (kd_out kd) of
        (groups, out) \<Rightarrow> kd\<lparr>kd_groups := groups, kd_out := out_start (ou_built out)\<rparr>)"

definition decoder_new :: "string \<Rightarrow> string \<Rightarrow> ('d, 'b) kafka_decoder" where
  "decoder_new topic prefix = \<lparr>kd_topic = topic, kd_prefix = prefix, kd_groups = [], kd_out = out_start 0\<rparr>"

section \<open>Raw values\<close>

text \<open>\<open>RawDecoder\<close>; the rows are the values beside the metadata columns but the schema id's.\<close>

record raw_decoder =
  rw_topic :: string
  rw_prefix :: string
  rw_messages :: "kafka_message list"
  rw_tombstones :: nat
  rw_bytes :: nat

definition raw_feed :: "kafka_message \<Rightarrow> raw_decoder \<Rightarrow> raw_decoder" where
  "raw_feed m d =
     (case km_value m of
        None \<Rightarrow> d\<lparr>rw_tombstones := Suc (rw_tombstones d)\<rparr>
      | Some _ \<Rightarrow> d\<lparr>rw_bytes := rw_bytes d + raw_len m, rw_messages := rw_messages d @ [m]\<rparr>)"

definition raw_batch :: "string \<Rightarrow> kafka_message list \<Rightarrow> (octets option \<times> metadata) list" where
  "raw_batch topic ms = map (\<lambda>m. (km_value m, metadata_of topic 0 m)) ms"

definition raw_finish :: "raw_decoder \<Rightarrow> ((octets option \<times> metadata) list list \<times> nat \<times> nat) \<times> raw_decoder" where
  "raw_finish d =
     ((if rw_messages d = [] then [] else [raw_batch (rw_topic d) (rw_messages d)], rw_tombstones d, rw_bytes d),
      d\<lparr>rw_messages := [], rw_tombstones := 0, rw_bytes := 0\<rparr>)"

end
