(* ===== verification/Decode_Spec.thy ===== *)
theory Decode_Spec
  imports Decode Wire_Spec "HOL-Library.Multiset"
begin

text \<open>
  What the decoding of a batch loses and keeps: every message fed is a row, an undecodable message or a
  counted tombstone, exactly once; every row stands beside the metadata of the message it was decoded from.
\<close>

section \<open>What a batch has accounted for\<close>

definition coord :: "kafka_message \<Rightarrow> int \<times> int" where
  "coord m = (km_partition m, km_offset m)"

definition md_coord :: "metadata \<Rightarrow> int \<times> int" where
  "md_coord r = (md_partition r, md_offset r)"

definition un_coord :: "undecodable \<Rightarrow> int \<times> int" where
  "un_coord u = (un_partition u, un_offset u)"

definition batch_coords :: "'b emitted list \<Rightarrow> (int \<times> int) multiset" where
  "batch_coords es = mset (map md_coord (concat (map em_metadata es)))"

definition accounted :: "'b decoder_out \<Rightarrow> (int \<times> int) multiset" where
  "accounted out = batch_coords (ou_batches out) + mset (map (un_coord \<circ> snd) (ou_undecodable out))"

definition coords :: "kafka_message list \<Rightarrow> (int \<times> int) multiset" where
  "coords ms = mset (map coord ms)"

definition whole_rows :: "('d, 'b) decoding \<Rightarrow> 'b decoder_out \<Rightarrow> bool" where
  "whole_rows dc out \<longleftrightarrow> list_all (\<lambda>e. dc_rows dc (em_batch e) = length (em_metadata e)) (ou_batches out)"

text \<open>A step accounts for some messages, takes some bytes off what is pending, and keeps the rest.\<close>

definition settles :: "('d, 'b) decoding \<Rightarrow> kafka_message list \<Rightarrow> nat \<Rightarrow> 'b decoder_out \<Rightarrow> 'b decoder_out \<Rightarrow> bool" where
  "settles dc ms raw out out' \<longleftrightarrow>
     accounted out' = accounted out + coords ms
     \<and> ou_pending_raw out' = ou_pending_raw out - int raw
     \<and> ou_tombstones out' = ou_tombstones out
     \<and> (whole_rows dc out \<longrightarrow> whole_rows dc out')"

lemma coords_simps [simp]:
  "coords [] = {#}" "coords (m # ms) = add_mset (coord m) (coords ms)" "coords (ms @ ns) = coords ms + coords ns"
  by (simp_all add: coords_def)

lemma raw_sum_simps [simp]:
  "raw_sum [] = 0" "raw_sum (m # ms) = raw_len m + raw_sum ms" "raw_sum (ms @ ns) = raw_sum ms + raw_sum ns"
  by (simp_all add: raw_sum_def)

lemma settles_refl [simp]: "settles dc [] 0 out out"
  by (simp add: settles_def)

lemma settles_trans: "settles dc ms r a b \<Longrightarrow> settles dc ns q b c \<Longrightarrow> settles dc (ms @ ns) (r + q) a c"
  by (auto simp: settles_def)

lemma settles_built [simp]: "settles dc ms r (out\<lparr>ou_built := n\<rparr>) out' = settles dc ms r out out'"
  and settles_built' [simp]: "settles dc ms r out (out'\<lparr>ou_built := n\<rparr>) = settles dc ms r out out'"
  by (simp_all add: settles_def accounted_def whole_rows_def)

lemma reject_built [simp]: "reject_message m sid reason det (out\<lparr>ou_built := n\<rparr>) = (reject_message m sid reason det out)\<lparr>ou_built := n\<rparr>"
  by (simp add: reject_message_def)

lemma settles_reject [simp]: "settles dc [m] 0 out (reject_message m sid reason det out)"
  by (simp add: settles_def accounted_def reject_message_def un_coord_def coord_def whole_rows_def)

lemma settles_fold:
  assumes "\<And>m out. settles dc [m] (r m) out (f m out)"
  shows "settles dc ms (sum_list (map r ms)) out (fold f ms out)"
proof (induction ms arbitrary: out)
  case (Cons m ms)
  from settles_trans [OF assms Cons] show ?case by simp
qed simp

lemma settles_fold_reject: "settles dc ms 0 out (fold (\<lambda>m. reject_message m sid reason det) ms out)"
  using settles_fold [of dc "\<lambda>_. 0" "\<lambda>m. reject_message m sid reason det" ms out] by simp

lemma settles_drop [simp]: "settles dc [m] (raw_len m) out (drop_pending m sid reason out)"
  by (simp add: drop_pending_def settles_def accounted_def reject_message_def un_coord_def coord_def whole_rows_def)

lemma settles_fold_drop: "settles dc ms (raw_sum ms) out (fold (\<lambda>m. drop_pending m sid reason) ms out)"
  using settles_fold [of dc raw_len "\<lambda>m. drop_pending m sid reason" ms out] by (simp add: raw_sum_def)

lemma md_coord_metadata [simp]: "md_coord (metadata_of topic sid m) = coord m"
  by (simp add: md_coord_def metadata_of_def coord_def)

lemma settles_emit: "settles dc chunk 0 out (emit dc topic sid rows chunk raw out)"
proof (cases "dc_rows dc rows = length chunk")
  case True
  then show ?thesis
    by (simp add: emit_def settles_def accounted_def batch_coords_def coords_def whole_rows_def comp_def)
qed (simp add: emit_def settles_fold_reject)

lemma build_decoder_settles:
  "build_decoder dc sid s out = (built, out') \<Longrightarrow> settles dc ms r out' out'' = settles dc ms r out out''"
  by (auto simp: build_decoder_def)

lemma one_by_one_step_settles:
  assumes "one_by_one_step dc sid g m s = s'"
  shows "(ob_kept s' = ob_kept s @ [m] \<and> length (ob_rows s') = Suc (length (ob_rows s)) \<and> settles dc [] 0 (ob_out s) (ob_out s'))
    \<or> (ob_kept s' = ob_kept s \<and> length (ob_rows s') = length (ob_rows s) \<and> settles dc [m] 0 (ob_out s) (ob_out s'))"
  using assms unfolding one_by_one_step_def
  by (auto simp: build_decoder_def Let_def split: sum.splits prod.splits if_splits)

lemma one_by_one_settles:
  assumes "fold (one_by_one_step dc sid g) chunk s = s'" and "settles dc done 0 out (ob_out s)"
    and "length (ob_rows s) = length (ob_kept s)"
  shows "length (ob_rows s') = length (ob_kept s') \<and>
    (\<exists>rejected. settles dc rejected 0 out (ob_out s')
       \<and> coords rejected + coords (ob_kept s') = coords done + coords (ob_kept s) + coords chunk)"
  using assms
proof (induction chunk arbitrary: s "done")
  case (Cons m chunk)
  define t where "t = one_by_one_step dc sid g m s"
  have fold: "fold (one_by_one_step dc sid g) chunk t = s'" using Cons.prems(1) by (simp add: t_def)
  from one_by_one_step_settles [OF t_def [symmetric]] show ?case
  proof
    assume t: "ob_kept t = ob_kept s @ [m] \<and> length (ob_rows t) = Suc (length (ob_rows s)) \<and> settles dc [] 0 (ob_out s) (ob_out t)"
    then have "settles dc done 0 out (ob_out t)" using settles_trans [OF Cons.prems(2), of "[]" 0 "ob_out t"] by simp
    from Cons.IH [OF fold this] t Cons.prems(3) show ?thesis by (auto simp: ac_simps)
  next
    assume t: "ob_kept t = ob_kept s \<and> length (ob_rows t) = length (ob_rows s) \<and> settles dc [m] 0 (ob_out s) (ob_out t)"
    then have "settles dc (done @ [m]) 0 out (ob_out t)" using settles_trans [OF Cons.prems(2), of "[m]" 0 "ob_out t"] by simp
    from Cons.IH [OF fold this] t Cons.prems(3) show ?thesis by (auto simp: ac_simps)
  qed
qed auto

lemma flush_one_by_one_settles:
  assumes "flush_one_by_one dc topic sid g chunk out = (g', out')"
  shows "settles dc chunk 0 out out' \<and> re_chunk g' = re_chunk g"
proof -
  define s where "s = fold (one_by_one_step dc sid g) chunk
      \<lparr>ob_clean = False, ob_decoder = re_decoder g, ob_rows = [], ob_kept = [], ob_out = out\<rparr>"
  have "settles dc [] 0 out out" by simp
  with one_by_one_settles [OF s_def [symmetric], of "[]" out]
  obtain rejected where rows: "length (ob_rows s) = length (ob_kept s)" and r: "settles dc rejected 0 out (ob_out s)"
    and c: "coords rejected + coords (ob_kept s) = coords chunk" by auto
  obtain d o2 where d: "(if ob_clean s then (ob_decoder s, ob_out s)
        else case build_decoder dc sid (sr_text (re_schema g)) (ob_out s) of
               (Inr d, out) \<Rightarrow> (d, out) | (Inl _, out) \<Rightarrow> (ob_decoder s, out)) = (d, o2)" by fastforce
  then have o2: "settles dc rejected 0 out o2"
    using r by (auto simp: build_decoder_def split: if_splits sum.splits)
  have g': "g' = g\<lparr>re_decoder := d\<rparr>" and out': "out' = (if ob_rows s = [] then o2
      else case dc_concat dc (ob_rows s) of
             Inr b \<Rightarrow> emit dc topic sid b (ob_kept s) (raw_sum (ob_kept s)) o2
           | Inl e \<Rightarrow> fold (\<lambda>m out. reject_message m (Some sid) (R_Assemble e) False out) (ob_kept s) o2)"
    using assms unfolding flush_one_by_one_def s_def [symmetric] Let_def d by (auto split: if_splits)
  have "settles dc (ob_kept s) 0 o2 out'"
    using rows by (auto simp: out' settles_emit settles_fold_reject split: sum.splits)
  from settles_trans [OF o2 this] have "settles dc chunk 0 out out'" by (simp add: settles_def c)
  then show ?thesis by (simp add: g')
qed

lemma flush_group_settles:
  assumes "flush_group dc topic sid g out = (g', out')"
  shows "settles dc (re_chunk g) (raw_sum (re_chunk g)) out out' \<and> re_chunk g' = []"
proof (cases "re_chunk g = []")
  case True
  then show ?thesis using assms by (simp add: flush_group_def)
next
  case False
  obtain flushed d where d: "dc_flush dc (re_decoder g) = (flushed, d)" by fastforce
  let ?g = "g\<lparr>re_chunk := [], re_decoder := d\<rparr>" and ?out = "out\<lparr>ou_pending_raw := ou_pending_raw out - int (raw_sum (re_chunk g))\<rparr>"
  have pending: "settles dc ms 0 ?out o2 \<Longrightarrow> settles dc ms (raw_sum (re_chunk g)) out o2" for ms o2
    by (simp add: settles_def accounted_def whole_rows_def)
  from assms False have "(\<exists>rows. g' = ?g \<and> out' = emit dc topic sid rows (re_chunk g) (raw_sum (re_chunk g)) ?out)
      \<or> flush_one_by_one dc topic sid ?g (re_chunk g) ?out = (g', out')"
    by (auto simp: flush_group_def d Let_def split: sum.splits)
  then show ?thesis
  proof
    assume "\<exists>rows. g' = ?g \<and> out' = emit dc topic sid rows (re_chunk g) (raw_sum (re_chunk g)) ?out"
    then show ?thesis using pending [OF settles_emit] by auto
  next
    assume "flush_one_by_one dc topic sid ?g (re_chunk g) ?out = (g', out')"
    from flush_one_by_one_settles [OF this] show ?thesis using pending by auto
  qed
qed

lemma isolate_loop_settles:
  "isolate_loop dc topic sid good g out = (g', out') \<Longrightarrow> re_chunk g = [] \<Longrightarrow>
   settles dc good (raw_sum good) out out' \<and> re_chunk g' = []"
proof (induction dc topic sid good g out rule: isolate_loop.induct)
  case (1 dc topic sid good g out)
  obtain built o2 where b: "build_decoder dc sid (sr_text (re_schema g)) out = (built, o2)" by fastforce
  note keep = build_decoder_settles [OF b]
  show ?case
  proof (cases built)
    case (Inl e)
    with 1(2,3) b settles_fold_drop [where dc = dc and ms = good and sid = sid and reason = "R_No_Decoder sid e" and out = o2] show ?thesis by (auto simp: keep)
  next
    case (Inr d)
    show ?thesis
    proof (cases "fst (decode_again dc [] good d)")
      case None
      then obtain d' where a: "decode_again dc [] good d = (None, d')" by (cases "decode_again dc [] good d") auto
      then have "flush_group dc topic sid (g\<lparr>re_decoder := d', re_chunk := good\<rparr>) o2 = (g', out')"
        using 1(2) b Inr by simp
      from flush_group_settles [OF this] show ?thesis by (auto simp: keep)
    next
      case (Some r)
      then obtain before m e after d' where a: "decode_again dc [] good d = (Some (before, m, e, after), d')"
        by (cases "decode_again dc [] good d", cases r) auto
      then have loop: "isolate_loop dc topic sid (before @ after) (g\<lparr>re_decoder := d'\<rparr>) (drop_pending m sid (R_Again e) o2) = (g', out')"
        using 1(2) b Inr by simp
      have ih: "settles dc (before @ after) (raw_sum (before @ after)) (drop_pending m sid (R_Again e) o2) out' \<and> re_chunk g' = []"
        using 1(1) [OF b [symmetric] Inr a [symmetric] refl refl refl refl, OF loop] 1(3) by simp
      have good: "good = before @ m # after" using decode_again_shorter [OF a] by simp
      have "settles dc good (raw_sum good) o2 out'"
        using settles_trans [OF settles_drop conjunct1 [OF ih]] by (simp add: good settles_def ac_simps)
      with ih show ?thesis by (simp add: keep)
    qed
  qed
qed

lemma isolate_settles:
  "isolate dc topic sid g out = (g', out') \<Longrightarrow> settles dc (re_chunk g) (raw_sum (re_chunk g)) out out' \<and> re_chunk g' = []"
  unfolding isolate_def by (drule isolate_loop_settles) auto

text \<open>A message taken by a group is in its chunk or accounted for.\<close>

definition takes :: "('d, 'b) decoding \<Rightarrow> kafka_message list \<Rightarrow> kafka_message list \<Rightarrow> kafka_message list \<Rightarrow> 'b decoder_out \<Rightarrow> 'b decoder_out \<Rightarrow> bool" where
  "takes dc ms chunk chunk' out out' \<longleftrightarrow>
     accounted out' + coords chunk' = accounted out + coords chunk + coords ms
     \<and> ou_pending_raw out' - int (raw_sum chunk') = ou_pending_raw out - int (raw_sum chunk)
     \<and> ou_tombstones out' = ou_tombstones out
     \<and> (whole_rows dc out \<longrightarrow> whole_rows dc out')"

lemma decode_message_takes:
  assumes "decode_message dc topic sid m g out = (g', out')"
  shows "takes dc [m] (re_chunk g) (re_chunk g') out out'"
proof (cases "dc_decode_one dc (case_option [] id (km_value m)) (re_decoder g)")
  case (Pair r d)
  show ?thesis
  proof (cases r)
    case (Inr u)
    let ?out = "out\<lparr>ou_pending_raw := ou_pending_raw out + int (raw_len m)\<rparr>" and ?g = "g\<lparr>re_decoder := d, re_chunk := re_chunk g @ [m]\<rparr>"
    show ?thesis
    proof (cases "length (re_chunk ?g) \<ge> chunk_rows")
      case True
      then have "flush_group dc topic sid ?g ?out = (g', out')" using assms Pair Inr by (simp add: decode_message_def Let_def)
      from flush_group_settles [OF this] show ?thesis
        by (auto simp: settles_def takes_def accounted_def whole_rows_def)
    next
      case False
      then have "g' = ?g" "out' = ?out" using assms Pair Inr by (simp_all add: decode_message_def Let_def)
      then show ?thesis by (simp add: takes_def accounted_def whole_rows_def)
    qed
  next
    case (Inl e)
    obtain g2 o2 where i: "isolate dc topic sid (g\<lparr>re_decoder := d\<rparr>) out = (g2, o2)" by fastforce
    with assms Pair Inl have "g' = g2" "out' = reject_message m (Some sid) e True o2"
      by (simp_all add: decode_message_def)
    moreover from settles_trans [OF conjunct1 [OF isolate_settles [OF i]] settles_reject, of m "Some sid" e True]
    have "settles dc (re_chunk g @ [m]) (raw_sum (re_chunk g)) out (reject_message m (Some sid) e True o2)" by simp
    ultimately show ?thesis using isolate_settles [OF i] by (auto simp: settles_def takes_def)
  qed
qed

section \<open>The decoder's state\<close>

definition group_chunk :: "'d group \<Rightarrow> kafka_message list" where
  "group_chunk grp = (case grp of Ready g \<Rightarrow> re_chunk g | _ \<Rightarrow> [])"

definition chunks :: "(nat, 'd group) bmap \<Rightarrow> kafka_message list" where
  "chunks gs = concat (map (group_chunk \<circ> snd) gs)"

definition decoder_wf :: "('d, 'b) decoding \<Rightarrow> ('d, 'b) kafka_decoder \<Rightarrow> bool" where
  "decoder_wf dc kd \<longleftrightarrow>
     bt_wf (kd_groups kd) \<and> whole_rows dc (kd_out kd) \<and> ou_pending_raw (kd_out kd) = int (raw_sum (chunks (kd_groups kd)))"

definition fed :: "('d, 'b) kafka_decoder \<Rightarrow> (int \<times> int) multiset" where
  "fed kd = accounted (kd_out kd) + coords (chunks (kd_groups kd))"

lemma chunks_simps [simp]: "chunks [] = []" "chunks ((k, g) # gs) = group_chunk g @ chunks gs"
  by (simp_all add: chunks_def)

lemma group_chunk_simps [simp]: "group_chunk (Ready g) = re_chunk g" "group_chunk (Unusable r) = []" "group_chunk (Collision f) = []"
  by (simp_all add: group_chunk_def)

lemma chunks_insert_both:
  "bt_wf gs \<Longrightarrow>
   coords (chunks (bt_insert k g gs)) + coords (case bt_get gs k of Some h \<Rightarrow> group_chunk h | None \<Rightarrow> [])
       = coords (chunks gs) + coords (group_chunk g)
   \<and> raw_sum (chunks (bt_insert k g gs)) + raw_sum (case bt_get gs k of Some h \<Rightarrow> group_chunk h | None \<Rightarrow> [])
       = raw_sum (chunks gs) + raw_sum (group_chunk g)"
proof (induction gs)
  case (Cons e gs)
  obtain k' g' where e: "e = (k', g')" by fastforce
  have wf: "bt_wf gs" and lt: "\<forall>x \<in> fst ` set gs. k' < x" using Cons.prems by (auto simp: bt_wf_def e)
  have none: "k < k' \<Longrightarrow> bt_get gs k = None"
    using lt by (auto simp: map_of_eq_None_iff)
  from Cons.IH [OF wf] none show ?case by (auto simp: e split: option.splits)
qed simp

lemmas chunks_insert = chunks_insert_both [THEN conjunct1] chunks_insert_both [THEN conjunct2]

text \<open>A feed that takes the message counts it; one that hands it back leaves the batch as it was.\<close>

definition counts :: "('d, 'b) decoding \<Rightarrow> kafka_message \<Rightarrow> (error \<times> kafka_message) option \<Rightarrow> ('d, 'b) kafka_decoder \<Rightarrow> ('d, 'b) kafka_decoder \<Rightarrow> bool" where
  "counts dc m handed kd kd' \<longleftrightarrow>
     decoder_wf dc kd'
     \<and> fed kd' = fed kd + (if handed = None \<and> km_value m \<noteq> None then {#coord m#} else {#})
     \<and> ou_tombstones (kd_out kd') = ou_tombstones (kd_out kd) + (if handed = None \<and> km_value m = None then 1 else 0)
     \<and> (\<forall>e n. handed = Some (e, n) \<longrightarrow> n = m)"

lemma group_for_out: "group_for dc prefix schema out = (grp, out') \<Longrightarrow> \<exists>n. out' = out\<lparr>ou_built := n\<rparr>"
  by (auto simp: group_for_def build_decoder_def Let_def split: if_splits) (metis decoder_out.surjective decoder_out.update_convs(7))

lemma group_for_chunk: "group_for dc prefix schema out = (grp, out') \<Longrightarrow> group_chunk grp = []"
  by (auto simp: group_for_def Let_def split: if_splits prod.splits sum.splits option.splits)

lemma fed_built [simp]: "accounted (out\<lparr>ou_built := n\<rparr>) = accounted out" "whole_rows dc (out\<lparr>ou_built := n\<rparr>) = whole_rows dc out"
  by (simp_all add: accounted_def whole_rows_def)

lemma rejected_counts:
  assumes "decoder_wf dc kd" and "km_value m \<noteq> None"
  shows "counts dc m None kd (kd\<lparr>kd_out := reject_message m sid r det (kd_out kd)\<rparr>)"
  using settles_reject [of dc m "kd_out kd" sid r det] assms
  by (auto simp: counts_def decoder_wf_def fed_def settles_def)

lemma take_group_counts:
  assumes wf: "decoder_wf dc kd" and grp: "bt_get (kd_groups kd) sid = Some grp" and v: "km_value m \<noteq> None"
    and t: "take_group dc sid m grp kd = (handed, kd')"
  shows "counts dc m handed kd kd'"
proof (cases grp)
  case (Unusable r)
  then show ?thesis using t rejected_counts [OF wf v] by (auto simp: take_group_def)
next
  case (Collision f)
  then show ?thesis using t wf by (auto simp: take_group_def counts_def)
next
  case (Ready g)
  obtain g' out' where d: "decode_message dc (kd_topic kd) sid m g (kd_out kd) = (g', out')" by fastforce
  then have kd': "handed = None" "kd' = kd\<lparr>kd_groups := bt_insert sid (Ready g') (kd_groups kd), kd_out := out'\<rparr>"
    using t Ready by (auto simp: take_group_def)
  have k: "takes dc [m] (re_chunk g) (re_chunk g') (kd_out kd) out'" by (rule decode_message_takes [OF d])
  have wfg: "bt_wf (kd_groups kd)" using wf by (simp add: decoder_wf_def)
  note ins = chunks_insert [OF wfg, of sid "Ready g'", unfolded grp Ready option.case group_chunk_simps]
  let ?y = "coords (re_chunk g')" and ?c = "coords (chunks (bt_insert sid (Ready g') (kd_groups kd)))"
  have "accounted out' + ?c + coords (re_chunk g) + ?y = (accounted out' + ?y) + (?c + coords (re_chunk g))"
    by (simp only: ac_simps)
  also have "\<dots> = (accounted (kd_out kd) + coords (re_chunk g) + coords [m]) + (coords (chunks (kd_groups kd)) + ?y)"
    using k ins(1) by (simp only: takes_def)
  also have "\<dots> = accounted (kd_out kd) + coords (chunks (kd_groups kd)) + coords [m] + coords (re_chunk g) + ?y"
    by (simp only: ac_simps)
  finally have "fed kd' = fed kd + coords [m]" by (simp add: fed_def kd')
  moreover have "ou_pending_raw out' = int (raw_sum (chunks (bt_insert sid (Ready g') (kd_groups kd))))"
    using k ins(2) wf by (simp add: takes_def decoder_wf_def)
  ultimately show ?thesis using wf k v wfg by (auto simp: counts_def decoder_wf_def kd' takes_def)
qed

lemma feed_counts:
  assumes wf: "decoder_wf dc kd" and f: "feed dc registry m kd = (handed, kd')"
  shows "counts dc m handed kd kd'"
proof (cases "km_value m")
  case None
  then show ?thesis using f wf by (auto simp: feed_def counts_def decoder_wf_def fed_def accounted_def whole_rows_def)
next
  case (Some v)
  then have v: "km_value m \<noteq> None" by simp
  show ?thesis
  proof (cases "frame v")
    case (Inl r)
    then show ?thesis using f Some rejected_counts [OF wf v] by (auto simp: feed_def)
  next
    case (Inr sid)
    show ?thesis
    proof (cases "bt_get (kd_groups kd) sid")
      case grp: (Some grp)
      then have "take_group dc sid m grp kd = (handed, kd')" using f Some Inr by (simp add: feed_def)
      from take_group_counts [OF wf grp v this] show ?thesis .
    next
      case none: None
      have wfg: "bt_wf (kd_groups kd)" using wf by (simp add: decoder_wf_def)
      have same: "coords (chunks (bt_insert sid grp (kd_groups kd))) = coords (chunks (kd_groups kd))"
        "raw_sum (chunks (bt_insert sid grp (kd_groups kd))) = raw_sum (chunks (kd_groups kd))"
        if "group_chunk grp = []" for grp
        using chunks_insert [OF wfg, of sid grp] none that by simp_all
      consider e where "registry sid = Inl e" | r det where "registry sid = Inr (Lookup_Undecodable r det)"
        | schema where "registry sid = Inr (Lookup_Avro schema)"
        by (cases "registry sid") (auto, metis schema_lookup.exhaust)
      then show ?thesis
      proof cases
        case 1
        then show ?thesis using f wf Some Inr none by (auto simp: feed_def counts_def)
      next
        case 2
        then have "handed = None" "kd' = kd\<lparr>kd_groups := (if det then bt_insert sid (Unusable r) (kd_groups kd) else kd_groups kd),
            kd_out := reject_message m (Some sid) r det (kd_out kd)\<rparr>"
          using f Some Inr none by (auto simp: feed_def)
        with rejected_counts [OF wf v, of "Some sid" r det] same [of "Unusable r"] wfg show ?thesis
          by (auto simp: counts_def decoder_wf_def fed_def)
      next
        case 3
        obtain grp out where g: "group_for dc (kd_prefix kd) schema (kd_out kd) = (grp, out)" by fastforce
        define kd2 where "kd2 = kd\<lparr>kd_groups := bt_insert sid grp (kd_groups kd), kd_out := out\<rparr>"
        have t: "take_group dc sid m grp kd2 = (handed, kd')"
          using f Some Inr none 3 g by (simp add: feed_def kd2_def)
        have c: "group_chunk grp = []" by (rule group_for_chunk [OF g])
        obtain n where n: "out = (kd_out kd)\<lparr>ou_built := n\<rparr>" using group_for_out [OF g] by blast
        have wf2: "decoder_wf dc kd2" using wf same [OF c] wfg by (simp add: decoder_wf_def kd2_def n)
        have "counts dc m handed kd2 kd'" using take_group_counts [OF wf2 _ v t] by (simp add: kd2_def)
        moreover have "fed kd2 = fed kd" using same [OF c] by (simp add: fed_def kd2_def n)
        ultimately show ?thesis by (simp add: counts_def kd2_def n)
      qed
    qed
  qed
qed

lemma flush_groups_settles:
  "flush_groups dc topic gs out = (gs', out') \<Longrightarrow>
   settles dc (chunks gs) (raw_sum (chunks gs)) out out' \<and> chunks gs' = [] \<and> map fst gs' = map fst gs"
proof (induction gs arbitrary: out gs')
  case (Cons e gs)
  obtain sid grp where e: "e = (sid, grp)" by fastforce
  obtain grp' o2 where g: "(case grp of Ready g \<Rightarrow> (case flush_group dc topic sid g out of (g, out) \<Rightarrow> (Ready g, out)) | _ \<Rightarrow> (grp, out)) = (grp', o2)"
    by fastforce
  obtain gs2 where gs: "flush_groups dc topic gs o2 = (gs2, out')" "gs' = (sid, grp') # gs2"
    using Cons.prems g by (auto simp: e Let_def split: prod.splits)
  have "settles dc (group_chunk grp) (raw_sum (group_chunk grp)) out o2 \<and> group_chunk grp' = []"
    using g flush_group_settles by (fastforce split: group.splits prod.splits)
  with Cons.IH [OF gs(1)] settles_trans [of dc "group_chunk grp" "raw_sum (group_chunk grp)" out o2]
  show ?case by (auto simp: e gs(2))
qed simp

section \<open>A batch\<close>

text \<open>Messages fed one after the other, each with what the registry answers then; the result is those taken.\<close>

fun feed_all ::
    "('d, 'b) decoding \<Rightarrow> ((nat \<Rightarrow> error + schema_lookup) \<times> kafka_message) list \<Rightarrow> ('d, 'b) kafka_decoder
      \<Rightarrow> kafka_message list \<times> ('d, 'b) kafka_decoder" where
  "feed_all dc [] kd = ([], kd)"
| "feed_all dc ((registry, m) # fs) kd =
     (let (handed, kd) = feed dc registry m kd;
          (taken, kd) = feed_all dc fs kd
      in (if handed = None then m # taken else taken, kd))"

definition with_value :: "kafka_message list \<Rightarrow> kafka_message list" where
  "with_value ms = filter (\<lambda>m. km_value m \<noteq> None) ms"

definition tombstones :: "kafka_message list \<Rightarrow> kafka_message list" where
  "tombstones ms = filter (\<lambda>m. km_value m = None) ms"

lemma feed_all_counts:
  "decoder_wf dc kd \<Longrightarrow> feed_all dc fs kd = (taken, kd') \<Longrightarrow>
   decoder_wf dc kd' \<and> fed kd' = fed kd + coords (with_value taken)
   \<and> ou_tombstones (kd_out kd') = ou_tombstones (kd_out kd) + length (tombstones taken)"
proof (induction fs arbitrary: kd taken)
  case Nil
  then show ?case by (simp add: with_value_def tombstones_def)
next
  case (Cons f fs)
  obtain registry m where f: "f = (registry, m)" by fastforce
  obtain handed kd1 where b: "feed dc registry m kd = (handed, kd1)" by fastforce
  obtain ts where ts: "feed_all dc fs kd1 = (ts, kd')" "taken = (if handed = None then m # ts else ts)"
    using Cons.prems(2) by (auto simp: f b Let_def split: prod.splits)
  have c: "counts dc m handed kd kd1" by (rule feed_counts [OF Cons.prems(1) b])
  then have "decoder_wf dc kd1" by (simp add: counts_def)
  from Cons.IH [OF this ts(1)] c show ?case
    by (auto simp: ts(2) counts_def with_value_def tombstones_def)
qed

lemma decoder_new_wf [simp]: "decoder_wf dc (decoder_new topic prefix)" "decoder_is_empty (decoder_new topic prefix)"
  by (simp_all add: decoder_wf_def decoder_new_def out_start_def whole_rows_def decoder_is_empty_def)

lemma empty_fed: "decoder_is_empty kd \<Longrightarrow> fed kd = {#} \<and> ou_tombstones (kd_out kd) = 0"
proof -
  assume e: "decoder_is_empty kd"
  have "chunks gs = []" if "list_all (\<lambda>(_, g). case g of Ready r \<Rightarrow> re_chunk r = [] | _ \<Rightarrow> True) gs" for gs :: "(nat, 'a group) bmap"
    using that by (induction gs) (auto simp: group_chunk_def split: group.splits)
  with e show ?thesis by (simp add: fed_def decoder_is_empty_def accounted_def batch_coords_def)
qed

lemma finish_accounts:
  assumes wf: "decoder_wf dc kd" and f: "finish dc kd = (b, kd')"
  shows "batch_coords (db_batches b) + mset (map un_coord (db_undecodable b)) = fed kd
    \<and> db_tombstones b = ou_tombstones (kd_out kd)
    \<and> (\<forall>e \<in> set (db_batches b). dc_rows dc (em_batch e) = length (em_metadata e))
    \<and> decoder_wf dc kd' \<and> decoder_is_empty kd'"
proof -
  obtain gs out where g: "flush_groups dc (kd_topic kd) (kd_groups kd) (kd_out kd) = (gs, out)" by fastforce
  have s: "settles dc (chunks (kd_groups kd)) (raw_sum (chunks (kd_groups kd))) (kd_out kd) out"
    and c: "chunks gs = []" "map fst gs = map fst (kd_groups kd)"
    using flush_groups_settles [OF g] by auto
  have empty: "list_all (\<lambda>(_, g). case g of Ready r \<Rightarrow> re_chunk r = [] | _ \<Rightarrow> True) gs"
    using c(1) by (induction gs) (auto simp: group_chunk_def split: group.splits)
  have b: "db_batches b = ou_batches out" "db_undecodable b = map snd (ou_undecodable out)" "db_tombstones b = ou_tombstones out"
    and kd': "kd' = kd\<lparr>kd_groups := gs, kd_out := out_start (ou_built out)\<rparr>"
    using f g by (auto simp: finish_def)
  show ?thesis
    using s wf c empty
    by (auto simp: b kd' settles_def fed_def accounted_def decoder_wf_def whole_rows_def list_all_iff out_start_def
        decoder_is_empty_def bt_wf_def)
qed

text \<open>
  C14. Decoding a batch loses no message and keeps none twice. Whatever is fed, whatever the registry, the
  decoders and the Arrow kernels answer, and whichever builds of a decoder fail: the batch's rows and its
  undecodable messages are, by partition and offset and each exactly once, the messages taken that have a
  value; its tombstones are the others taken; every row has its metadata; and the decoder stands empty after
  it. A message handed back is in none of them.
\<close>

theorem decoded_batch_accounts_for_every_message:
  assumes "decoder_wf dc kd" and "decoder_is_empty kd"
    and "feed_all dc fs kd = (taken, kd1)" and "finish dc kd1 = (b, kd2)"
  shows "batch_coords (db_batches b) + mset (map un_coord (db_undecodable b)) = coords (with_value taken)
    \<and> db_tombstones b = length (tombstones taken)
    \<and> (\<forall>e \<in> set (db_batches b). dc_rows dc (em_batch e) = length (em_metadata e))
    \<and> 0 \<le> ou_pending_raw (kd_out kd1)
    \<and> decoder_wf dc kd2 \<and> decoder_is_empty kd2"
proof -
  have f: "decoder_wf dc kd1" "fed kd1 = coords (with_value taken)" "ou_tombstones (kd_out kd1) = length (tombstones taken)"
    using feed_all_counts [OF assms(1,3)] empty_fed [OF assms(2)] by simp_all
  with finish_accounts [OF f(1) assms(4)] show ?thesis by (simp add: decoder_wf_def)
qed

section \<open>Rows beside their messages\<close>

text \<open>
  What the decoders and kernels promise: a decoder holds the rows decoded since its last flush
  (\<open>ds_held\<close>, \<open>None\<close> for one that may hold part of a row), each a function of its schema and the message's
  bytes; a flush gives them in order; normalising is row by row, and concatenating concatenates. A schema id
  stands for one schema (\<open>ds_text\<close>), and what has been built once can be built again. \<open>ds_fed\<close> are the
  messages fed.
\<close>

record ('d, 'b, 'row) decoding_spec =
  ds_rows :: "'b \<Rightarrow> 'row list"
  ds_held :: "'d \<Rightarrow> (string \<times> 'row list) option"
  ds_row :: "string \<Rightarrow> octets \<Rightarrow> 'row"
  ds_norm :: "(string \<times> string option) list \<Rightarrow> 'row \<Rightarrow> 'row"
  ds_text :: "nat \<Rightarrow> string"
  ds_fed :: "kafka_message set"

definition decoding_ok :: "('d, 'b) decoding \<Rightarrow> ('d, 'b, 'row) decoding_spec \<Rightarrow> bool" where
  "decoding_ok dc sp \<longleftrightarrow>
     (\<forall>k sid s d. dc_build dc k sid s = Inr d \<longrightarrow> ds_held sp d = Some (s, []) \<and> (\<forall>k'. \<exists>d'. dc_build dc k' sid s = Inr d'))
     \<and> (\<forall>v d d' s rs u. ds_held sp d = Some (s, rs) \<and> dc_decode_one dc v d = (Inr u, d') \<longrightarrow> ds_held sp d' = Some (s, rs @ [ds_row sp s v]))
     \<and> (\<forall>d d' s rs b. ds_held sp d = Some (s, rs) \<and> dc_flush dc d = (Inr (Some b), d') \<longrightarrow> ds_rows sp b = rs \<and> ds_held sp d' = Some (s, []))
     \<and> (\<forall>us b b'. dc_normalise dc us b = Inr b' \<longrightarrow> ds_rows sp b' = map (ds_norm sp us) (ds_rows sp b))
     \<and> (\<forall>bs b. dc_concat dc bs = Inr b \<longrightarrow> ds_rows sp b = concat (map (ds_rows sp) bs))
     \<and> (\<forall>b. dc_rows dc b = length (ds_rows sp b))"

lemma decoding_okD:
  assumes "decoding_ok dc sp"
  shows build_held: "dc_build dc k sid s = Inr d \<Longrightarrow> ds_held sp d = Some (s, [])"
    and build_again: "dc_build dc k sid s = Inr d \<Longrightarrow> \<exists>d'. dc_build dc k' sid s = Inr d'"
    and decode_held: "ds_held sp d = Some (s, rs) \<Longrightarrow> dc_decode_one dc v d = (Inr u, d') \<Longrightarrow> ds_held sp d' = Some (s, rs @ [ds_row sp s v])"
    and flush_held: "ds_held sp d = Some (s, rs) \<Longrightarrow> dc_flush dc d = (Inr (Some b), d') \<Longrightarrow> ds_rows sp b = rs \<and> ds_held sp d' = Some (s, [])"
    and normalise_rows: "dc_normalise dc us b = Inr b' \<Longrightarrow> ds_rows sp b' = map (ds_norm sp us) (ds_rows sp b)"
    and concat_rows: "dc_concat dc bs = Inr b \<Longrightarrow> ds_rows sp b = concat (map (ds_rows sp) bs)"
    and rows_length: "dc_rows dc b = length (ds_rows sp b)"
proof -
  note ok = assms [unfolded decoding_ok_def]
  note ok1 = ok [THEN conjunct1] and ok2 = ok [THEN conjunct2, THEN conjunct1]
    and ok3 = ok [THEN conjunct2, THEN conjunct2, THEN conjunct1]
    and ok4 = ok [THEN conjunct2, THEN conjunct2, THEN conjunct2]
  show "dc_build dc k sid s = Inr d \<Longrightarrow> ds_held sp d = Some (s, [])"
    and "dc_build dc k sid s = Inr d \<Longrightarrow> \<exists>d'. dc_build dc k' sid s = Inr d'" using ok1 by blast+
  show "ds_held sp d = Some (s, rs) \<Longrightarrow> dc_decode_one dc v d = (Inr u, d') \<Longrightarrow> ds_held sp d' = Some (s, rs @ [ds_row sp s v])"
    using ok2 by blast
  show "ds_held sp d = Some (s, rs) \<Longrightarrow> dc_flush dc d = (Inr (Some b), d') \<Longrightarrow> ds_rows sp b = rs \<and> ds_held sp d' = Some (s, [])"
    using ok3 by blast
  show "dc_normalise dc us b = Inr b' \<Longrightarrow> ds_rows sp b' = map (ds_norm sp us) (ds_rows sp b)"
    and "dc_concat dc bs = Inr b \<Longrightarrow> ds_rows sp b = concat (map (ds_rows sp) bs)"
    and "dc_rows dc b = length (ds_rows sp b)" using ok4 by blast+
qed

text \<open>A message of a writer schema, the row the decoder makes of it and the row it should become.\<close>

definition of_schema :: "('d, 'b, 'row) decoding_spec \<Rightarrow> nat \<Rightarrow> kafka_message \<Rightarrow> bool" where
  "of_schema sp sid m \<longleftrightarrow> m \<in> ds_fed sp \<and> (\<exists>v. km_value m = Some v \<and> frame v = Inr sid)"

definition raw_row :: "('d, 'b, 'row) decoding_spec \<Rightarrow> nat \<Rightarrow> kafka_message \<Rightarrow> 'row" where
  "raw_row sp sid m = ds_row sp (ds_text sp sid) (the (km_value m))"

definition row_for :: "('d, 'b) decoding \<Rightarrow> ('d, 'b, 'row) decoding_spec \<Rightarrow> nat \<Rightarrow> kafka_message \<Rightarrow> 'row" where
  "row_for dc sp sid m = ds_norm sp (dc_fixed_uuids dc (ds_text sp sid)) (raw_row sp sid m)"

definition emitted_ok :: "('d, 'b) decoding \<Rightarrow> ('d, 'b, 'row) decoding_spec \<Rightarrow> string \<Rightarrow> 'b emitted \<Rightarrow> bool" where
  "emitted_ok dc sp topic e \<longleftrightarrow>
     (\<exists>sid ms. list_all (of_schema sp sid) ms \<and> ds_rows sp (em_batch e) = map (row_for dc sp sid) ms
        \<and> em_metadata e = map (metadata_of topic sid) ms)"

definition out_ok :: "('d, 'b) decoding \<Rightarrow> ('d, 'b, 'row) decoding_spec \<Rightarrow> string \<Rightarrow> 'b decoder_out \<Rightarrow> bool" where
  "out_ok dc sp topic out \<longleftrightarrow> list_all (emitted_ok dc sp topic) (ou_batches out)"

text \<open>A group's schema, and that a decoder of it can be built; then that its decoder holds its chunk.\<close>

definition schema_ok :: "('d, 'b) decoding \<Rightarrow> ('d, 'b, 'row) decoding_spec \<Rightarrow> nat \<Rightarrow> 'd ready \<Rightarrow> bool" where
  "schema_ok dc sp sid g \<longleftrightarrow>
     sr_text (re_schema g) = ds_text sp sid \<and> re_fixed_uuids g = dc_fixed_uuids dc (ds_text sp sid)
     \<and> (\<forall>k. \<exists>d. dc_build dc k sid (ds_text sp sid) = Inr d)"

definition ready_ok :: "('d, 'b) decoding \<Rightarrow> ('d, 'b, 'row) decoding_spec \<Rightarrow> nat \<Rightarrow> 'd ready \<Rightarrow> bool" where
  "ready_ok dc sp sid g \<longleftrightarrow>
     schema_ok dc sp sid g \<and> list_all (of_schema sp sid) (re_chunk g)
     \<and> ds_held sp (re_decoder g) = Some (ds_text sp sid, map (raw_row sp sid) (re_chunk g))"

lemma out_ok_reject [simp]: "out_ok dc sp topic (reject_message m sid r det out) = out_ok dc sp topic out"
  by (simp add: out_ok_def reject_message_def)

lemma out_ok_updates [simp]:
  "out_ok dc sp topic (out\<lparr>ou_pending_raw := n\<rparr>) = out_ok dc sp topic out"
  "out_ok dc sp topic (out\<lparr>ou_built := k\<rparr>) = out_ok dc sp topic out"
  "out_ok dc sp topic (drop_pending m s r out) = out_ok dc sp topic out"
  by (simp_all add: out_ok_def drop_pending_def reject_message_def)

lemma out_ok_fold [simp]:
  "out_ok dc sp topic (fold (\<lambda>m. reject_message m sid r det) ms out) = out_ok dc sp topic out"
  "out_ok dc sp topic (fold (\<lambda>m. drop_pending m s r) ms out) = out_ok dc sp topic out"
  by (induction ms arbitrary: out) simp_all

lemma value_of_schema: "of_schema sp sid m \<Longrightarrow> case_option [] id (km_value m) = the (km_value m)"
  by (auto simp: of_schema_def)

lemma emit_ok:
  assumes "out_ok dc sp topic out" and "list_all (of_schema sp sid) ms" and "ds_rows sp b = map (row_for dc sp sid) ms"
  shows "out_ok dc sp topic (emit dc topic sid b ms raw out)"
  using assms by (auto simp: emit_def out_ok_def[of dc sp topic "_\<lparr>ou_batches := _\<rparr>"] emitted_ok_def) (auto simp: out_ok_def)

lemma decode_alone_ok:
  assumes ok: "decoding_ok dc sp" and d: "ds_held sp d = Some (ds_text sp sid, [])" and m: "of_schema sp sid m"
    and a: "decode_alone dc (dc_fixed_uuids dc (ds_text sp sid)) m d = (clean, d', r)"
  shows "(clean \<longrightarrow> ds_held sp d' = Some (ds_text sp sid, [])) \<and> (\<forall>b. r = Inr b \<longrightarrow> ds_rows sp b = [row_for dc sp sid m])"
proof -
  obtain r1 d1 where one: "dc_decode_one dc (the (km_value m)) d = (r1, d1)" by fastforce
  show ?thesis
  proof (cases r1)
    case (Inl e)
    with a one show ?thesis by (auto simp: decode_alone_def value_of_schema [OF m])
  next
    case (Inr u)
    have h: "ds_held sp d1 = Some (ds_text sp sid, [raw_row sp sid m])"
      using decode_held [OF ok d] one Inr by (simp add: raw_row_def)
    obtain r2 d2 where fl: "dc_flush dc d1 = (r2, d2)" by fastforce
    show ?thesis
    proof (cases "\<exists>b. r2 = Inr (Some b) \<and> dc_rows dc b = 1")
      case True
      then obtain b where b: "r2 = Inr (Some b)" "dc_rows dc b = 1" by blast
      then have "ds_rows sp b = [raw_row sp sid m] \<and> ds_held sp d2 = Some (ds_text sp sid, [])"
        using flush_held [OF ok h] fl by simp
      with a one Inr fl b show ?thesis
        by (auto simp: decode_alone_def value_of_schema [OF m] row_for_def normalise_rows [OF ok] split: sum.splits)
    next
      case False
      with a one Inr fl show ?thesis
        by (auto simp: decode_alone_def value_of_schema [OF m] split: sum.splits option.splits if_splits)
    qed
  qed
qed

definition singles_ok :: "('d, 'b) decoding \<Rightarrow> ('d, 'b, 'row) decoding_spec \<Rightarrow> string \<Rightarrow> nat \<Rightarrow> ('d, 'b) one_by_one \<Rightarrow> bool" where
  "singles_ok dc sp topic sid s \<longleftrightarrow>
     (ob_clean s \<longrightarrow> ds_held sp (ob_decoder s) = Some (ds_text sp sid, []))
     \<and> map (ds_rows sp) (ob_rows s) = map (\<lambda>m. [row_for dc sp sid m]) (ob_kept s)
     \<and> list_all (of_schema sp sid) (ob_kept s) \<and> out_ok dc sp topic (ob_out s)"

lemma one_by_one_step_ok:
  assumes ok: "decoding_ok dc sp" and g: "schema_ok dc sp sid g" and m: "of_schema sp sid m" and s: "singles_ok dc sp topic sid s"
  shows "singles_ok dc sp topic sid (one_by_one_step dc sid g m s)"
proof -
  obtain built out where b: "(if ob_clean s then (Inr (ob_decoder s), ob_out s)
      else build_decoder dc sid (sr_text (re_schema g)) (ob_out s)) = (built, out)" by fastforce
  have out: "out_ok dc sp topic out" using b s by (auto simp: build_decoder_def singles_ok_def split: if_splits)
  show ?thesis
  proof (cases built)
    case (Inl e)
    with b have "\<not> ob_clean s" by (auto split: if_splits)
    with Inl b s out show ?thesis by (simp add: one_by_one_step_def Let_def singles_ok_def)
  next
    case (Inr d)
    have d: "ds_held sp d = Some (ds_text sp sid, [])"
      using b Inr s g build_held [OF ok] by (auto simp: build_decoder_def singles_ok_def schema_ok_def split: if_splits)
    obtain clean d' r where a: "decode_alone dc (re_fixed_uuids g) m d = (clean, d', r)" by (cases "decode_alone dc (re_fixed_uuids g) m d") auto
    then have "decode_alone dc (dc_fixed_uuids dc (ds_text sp sid)) m d = (clean, d', r)" using g by (simp add: schema_ok_def)
    note al = decode_alone_ok [OF ok d m this]
    show ?thesis
      using al s out m by (cases r) (auto simp: one_by_one_step_def b Inr a Let_def singles_ok_def)
  qed
qed

lemma one_by_one_ok:
  assumes "decoding_ok dc sp" and "schema_ok dc sp sid g"
  shows "list_all (of_schema sp sid) chunk \<Longrightarrow> singles_ok dc sp topic sid s \<Longrightarrow> singles_ok dc sp topic sid (fold (one_by_one_step dc sid g) chunk s)"
  by (induction chunk arbitrary: s) (auto simp: one_by_one_step_ok [OF assms])

lemma flush_one_by_one_ok:
  assumes ok: "decoding_ok dc sp" and g: "schema_ok dc sp sid g" and c: "re_chunk g = []" and m: "list_all (of_schema sp sid) chunk"
    and out: "out_ok dc sp topic out" and f: "flush_one_by_one dc topic sid g chunk out = (g', out')"
  shows "ready_ok dc sp sid g' \<and> out_ok dc sp topic out'"
proof -
  define s where "s = fold (one_by_one_step dc sid g) chunk
      \<lparr>ob_clean = False, ob_decoder = re_decoder g, ob_rows = [], ob_kept = [], ob_out = out\<rparr>"
  have s: "singles_ok dc sp topic sid s"
    unfolding s_def by (rule one_by_one_ok [OF ok g m]) (simp add: singles_ok_def out)
  obtain d o2 where d: "(if ob_clean s then (ob_decoder s, ob_out s)
        else case build_decoder dc sid (sr_text (re_schema g)) (ob_out s) of
               (Inr d, out) \<Rightarrow> (d, out) | (Inl _, out) \<Rightarrow> (ob_decoder s, out)) = (d, o2)" by fastforce
  have o2: "out_ok dc sp topic o2" using d s by (auto simp: build_decoder_def singles_ok_def split: if_splits sum.splits)
  obtain d0 where d0: "dc_build dc (ou_built (ob_out s)) sid (ds_text sp sid) = Inr d0" using g by (auto simp: schema_ok_def)
  have held: "ds_held sp d = Some (ds_text sp sid, [])"
    using d s g d0 build_held [OF ok d0] by (auto simp: build_decoder_def singles_ok_def schema_ok_def split: if_splits)
  have g': "g' = g\<lparr>re_decoder := d\<rparr>" and out': "out' = (if ob_rows s = [] then o2
      else case dc_concat dc (ob_rows s) of
             Inr b \<Rightarrow> emit dc topic sid b (ob_kept s) (raw_sum (ob_kept s)) o2
           | Inl e \<Rightarrow> fold (\<lambda>m out. reject_message m (Some sid) (R_Assemble e) False out) (ob_kept s) o2)"
    using f unfolding flush_one_by_one_def s_def [symmetric] Let_def d by (auto split: if_splits)
  have "ds_rows sp b = map (row_for dc sp sid) (ob_kept s)" if "dc_concat dc (ob_rows s) = Inr b" for b
    using concat_rows [OF ok that] s by (simp add: singles_ok_def)
  then have "out_ok dc sp topic out'"
    using o2 s by (auto simp: out' singles_ok_def intro!: emit_ok split: sum.splits)
  moreover have "ready_ok dc sp sid g'" using g c held by (simp add: ready_ok_def g' schema_ok_def)
  ultimately show ?thesis by simp
qed

lemma flush_group_ok:
  assumes ok: "decoding_ok dc sp" and g: "ready_ok dc sp sid g" and out: "out_ok dc sp topic out"
    and f: "flush_group dc topic sid g out = (g', out')"
  shows "ready_ok dc sp sid g' \<and> out_ok dc sp topic out'"
proof (cases "re_chunk g = []")
  case True
  then show ?thesis using f g out by (simp add: flush_group_def)
next
  case False
  obtain flushed d where d: "dc_flush dc (re_decoder g) = (flushed, d)" by fastforce
  let ?g = "g\<lparr>re_chunk := [], re_decoder := d\<rparr>" and ?out = "out\<lparr>ou_pending_raw := ou_pending_raw out - int (raw_sum (re_chunk g))\<rparr>"
  let ?r = "case flushed of Inr (Some b) \<Rightarrow> if dc_rows dc b = length (re_chunk g) then dc_normalise dc (re_fixed_uuids g) b else Inl ''rows''
              | _ \<Rightarrow> Inl ''rows''"
  have f': "(case ?r of Inr rows \<Rightarrow> (?g, emit dc topic sid rows (re_chunk g) (raw_sum (re_chunk g)) ?out)
      | Inl _ \<Rightarrow> flush_one_by_one dc topic sid ?g (re_chunk g) ?out) = (g', out')"
    using f False by (simp add: flush_group_def d Let_def)
  have schema: "schema_ok dc sp sid ?g" using g by (simp add: ready_ok_def schema_ok_def)
  show ?thesis
  proof (cases ?r)
    case (Inl e)
    with f' have "flush_one_by_one dc topic sid ?g (re_chunk g) ?out = (g', out')" by simp
    from flush_one_by_one_ok [OF ok schema _ _ _ this] g out show ?thesis by (simp add: ready_ok_def)
  next
    case (Inr rows)
    then obtain b where b: "flushed = Inr (Some b)" "dc_normalise dc (re_fixed_uuids g) b = Inr rows"
      by (auto split: sum.splits option.splits if_splits)
    have held: "ds_held sp (re_decoder g) = Some (ds_text sp sid, map (raw_row sp sid) (re_chunk g))"
      and uuids: "re_fixed_uuids g = dc_fixed_uuids dc (ds_text sp sid)"
      and msgs: "list_all (of_schema sp sid) (re_chunk g)" using g by (simp_all add: ready_ok_def schema_ok_def)
    have fl: "ds_rows sp b = map (raw_row sp sid) (re_chunk g)" "ds_held sp d = Some (ds_text sp sid, [])"
      using flush_held [OF ok held] d b by simp_all
    have "ds_rows sp rows = map (row_for dc sp sid) (re_chunk g)"
      using normalise_rows [OF ok b(2)] by (simp add: fl uuids row_for_def)
    with emit_ok [OF _ msgs this, where topic = topic and out = ?out] out f' Inr schema fl
    show ?thesis by (auto simp: ready_ok_def)
  qed
qed

lemma decode_again_ok:
  "decoding_ok dc sp \<Longrightarrow> decode_again dc seen ms d = (None, d') \<Longrightarrow> list_all (of_schema sp sid) ms \<Longrightarrow>
    ds_held sp d = Some (ds_text sp sid, map (raw_row sp sid) seen) \<Longrightarrow>
    ds_held sp d' = Some (ds_text sp sid, map (raw_row sp sid) (seen @ ms))"
proof (induction dc seen ms d rule: decode_again.induct)
  case (2 dc seen m ms d)
  note ok = 2(2) and again = 2(3) and held = 2(5)
  have m: "of_schema sp sid m" and ms: "list_all (of_schema sp sid) ms" using 2(4) by simp_all
  obtain r d1 where r: "dc_decode_one dc (the (km_value m)) d = (r, d1)" by fastforce
  obtain u where u: "r = Inr u" using again r by (cases r) (auto simp: value_of_schema [OF m])
  then have rest: "decode_again dc (seen @ [m]) ms d1 = (None, d')" using again r by (simp add: value_of_schema [OF m])
  have "ds_held sp d1 = Some (ds_text sp sid, map (raw_row sp sid) (seen @ [m]))"
    using decode_held [OF ok held] r u by (simp add: raw_row_def)
  from 2(1) [OF _ _ ok rest ms this, of r u] r u show ?case by (simp add: value_of_schema [OF m])
qed simp

lemma isolate_loop_ok:
  "isolate_loop dc topic sid good g out = (g', out') \<Longrightarrow> schema_ok dc sp sid g \<Longrightarrow> re_chunk g = [] \<Longrightarrow>
    list_all (of_schema sp sid) good \<Longrightarrow> out_ok dc sp topic out \<Longrightarrow> decoding_ok dc sp \<Longrightarrow> ready_ok dc sp sid g' \<and> out_ok dc sp topic out'"
proof (induction dc topic sid good g out rule: isolate_loop.induct)
  case (1 dc topic sid good g out)
  obtain built o2 where b: "build_decoder dc sid (sr_text (re_schema g)) out = (built, o2)" by fastforce
  have o2: "out_ok dc sp topic o2" using 1(6) b by (auto simp: build_decoder_def)
  obtain d where d: "built = Inr d" and held: "ds_held sp d = Some (ds_text sp sid, [])"
    using b 1(3) build_held [OF 1(7)] by (fastforce simp: build_decoder_def schema_ok_def)
  obtain r d' where a: "decode_again dc [] good d = (r, d')" by fastforce
  show ?case
  proof (cases r)
    case None
    then have f: "flush_group dc topic sid (g\<lparr>re_decoder := d', re_chunk := good\<rparr>) o2 = (g', out')"
      using 1(2) b d a by simp
    have "ready_ok dc sp sid (g\<lparr>re_decoder := d', re_chunk := good\<rparr>)"
      using decode_again_ok [OF 1(7), of "[]" good d d' sid] a None held 1(3,5) by (simp add: ready_ok_def schema_ok_def)
    from flush_group_ok [OF 1(7) this o2 f] show ?thesis .
  next
    case (Some q)
    obtain before m e after where q: "q = (before, m, e, after)" by (cases q) auto
    have a': "decode_again dc [] good d = (Some (before, m, e, after), d')" using a Some q by simp
    then have loop: "isolate_loop dc topic sid (before @ after) (g\<lparr>re_decoder := d'\<rparr>) (drop_pending m sid (R_Again e) o2) = (g', out')"
      using 1(2) b d by simp
    have "good = before @ m # after" using decode_again_shorter [OF a'] by simp
    then have "list_all (of_schema sp sid) (before @ after)" using 1(5) by simp
    then show ?thesis
      using 1(1) [OF b [symmetric] d a' [symmetric] refl refl refl refl, OF loop] 1(3,4,7) o2 by (simp add: schema_ok_def)
  qed
qed

lemma decode_message_ok:
  assumes ok: "decoding_ok dc sp" and g: "ready_ok dc sp sid g" and m: "of_schema sp sid m" and out: "out_ok dc sp topic out"
    and d: "decode_message dc topic sid m g out = (g', out')"
  shows "ready_ok dc sp sid g' \<and> out_ok dc sp topic out'"
proof -
  obtain r d1 where r: "dc_decode_one dc (the (km_value m)) (re_decoder g) = (r, d1)" by fastforce
  show ?thesis
  proof (cases r)
    case (Inr u)
    let ?out = "out\<lparr>ou_pending_raw := ou_pending_raw out + int (raw_len m)\<rparr>" and ?g = "g\<lparr>re_decoder := d1, re_chunk := re_chunk g @ [m]\<rparr>"
    have g2: "ready_ok dc sp sid ?g"
      using decode_held [OF ok] g r Inr m by (auto simp: ready_ok_def schema_ok_def raw_row_def)
    show ?thesis
    proof (cases "length (re_chunk ?g) \<ge> chunk_rows")
      case True
      then have "flush_group dc topic sid ?g ?out = (g', out')"
        using d r Inr by (simp add: decode_message_def value_of_schema [OF m] Let_def)
      from flush_group_ok [OF ok g2 _ this] out show ?thesis by simp
    next
      case False
      then have "g' = ?g" "out' = ?out" using d r Inr by (simp_all add: decode_message_def value_of_schema [OF m] Let_def)
      with g2 out show ?thesis by simp
    qed
  next
    case (Inl e)
    obtain g2 o2 where i: "isolate_loop dc topic sid (re_chunk g) (g\<lparr>re_decoder := d1, re_chunk := []\<rparr>) out = (g2, o2)" by fastforce
    with d r Inl have "g' = g2" "out' = reject_message m (Some sid) e True o2"
      by (simp_all add: decode_message_def value_of_schema [OF m] isolate_def)
    with isolate_loop_ok [OF i _ _ _ _ ok] g out show ?thesis by (simp add: ready_ok_def schema_ok_def)
  qed
qed

definition groups_ok :: "('d, 'b) decoding \<Rightarrow> ('d, 'b, 'row) decoding_spec \<Rightarrow> (nat, 'd group) bmap \<Rightarrow> bool" where
  "groups_ok dc sp gs \<longleftrightarrow> (\<forall>sid g. (sid, Ready g) \<in> set gs \<longrightarrow> ready_ok dc sp sid g)"

text \<open>The registry answers for an id with the schema of that id, whenever it answers.\<close>

definition registry_ok :: "('d, 'b, 'row) decoding_spec \<Rightarrow> (nat \<Rightarrow> error + schema_lookup) \<Rightarrow> bool" where
  "registry_ok sp registry \<longleftrightarrow> (\<forall>sid s. registry sid = Inr (Lookup_Avro s) \<longrightarrow> sr_id s = sid \<and> sr_text s = ds_text sp sid)"

definition decoder_ok :: "('d, 'b) decoding \<Rightarrow> ('d, 'b, 'row) decoding_spec \<Rightarrow> ('d, 'b) kafka_decoder \<Rightarrow> bool" where
  "decoder_ok dc sp kd \<longleftrightarrow> groups_ok dc sp (kd_groups kd) \<and> out_ok dc sp (kd_topic kd) (kd_out kd)"

lemma set_bt_insert: "set (bt_insert k v m) \<subseteq> insert (k, v) (set m)"
  by (induction k v m rule: bt_insert.induct) auto

lemma groups_ok_insert:
  assumes "groups_ok dc sp gs" and "\<And>g. grp = Ready g \<Longrightarrow> ready_ok dc sp sid g"
  shows "groups_ok dc sp (bt_insert sid grp gs)"
  using assms set_bt_insert [of sid grp gs] unfolding groups_ok_def by blast

lemma group_for_ready:
  assumes ok: "decoding_ok dc sp" and s: "sr_id schema = sid" "sr_text schema = ds_text sp sid"
    and g: "group_for dc prefix schema out = (grp, out')"
  shows "(\<forall>g. grp = Ready g \<longrightarrow> ready_ok dc sp sid g) \<and> ou_batches out' = ou_batches out"
proof -
  have out: "ou_batches out' = ou_batches out" using group_for_out [OF g] by auto
  have "ready_ok dc sp sid r" if "grp = Ready r" for r
  proof -
    from that g obtain d where d: "dc_build dc (ou_built out) sid (ds_text sp sid) = Inr d"
      and r: "r = \<lparr>re_schema = schema, re_decoder = d, re_chunk = [], re_fixed_uuids = dc_fixed_uuids dc (sr_text schema)\<rparr>"
      using s by (auto simp: group_for_def build_decoder_def Let_def split: if_splits sum.splits option.splits)
    have "\<exists>d'. dc_build dc k sid (ds_text sp sid) = Inr d'" for k by (rule build_again [OF ok d])
    with build_held [OF ok d] show ?thesis by (simp add: r ready_ok_def schema_ok_def s)
  qed
  with out show ?thesis by blast
qed

lemma take_group_ok:
  assumes ok: "decoding_ok dc sp" and kd: "decoder_ok dc sp kd" and m: "of_schema sp sid m"
    and grp: "\<And>g. grp = Ready g \<Longrightarrow> ready_ok dc sp sid g" and t: "take_group dc sid m grp kd = (handed, kd')"
  shows "decoder_ok dc sp kd' \<and> kd_topic kd' = kd_topic kd"
proof (cases grp)
  case (Ready g)
  obtain g' out' where d: "decode_message dc (kd_topic kd) sid m g (kd_out kd) = (g', out')" by fastforce
  have r: "ready_ok dc sp sid g' \<and> out_ok dc sp (kd_topic kd) out'"
    using decode_message_ok [OF ok grp [OF Ready] m _ d] kd by (simp add: decoder_ok_def)
  have "kd' = kd\<lparr>kd_groups := bt_insert sid (Ready g') (kd_groups kd), kd_out := out'\<rparr>"
    using t d Ready by (simp add: take_group_def)
  with r kd show ?thesis by (auto simp: decoder_ok_def intro!: groups_ok_insert)
qed (use t kd in \<open>auto simp: take_group_def decoder_ok_def\<close>)

lemma feed_ok:
  assumes ok: "decoding_ok dc sp" and reg: "registry_ok sp registry" and kd: "decoder_ok dc sp kd" and fed: "m \<in> ds_fed sp"
    and f: "feed dc registry m kd = (handed, kd')"
  shows "decoder_ok dc sp kd' \<and> kd_topic kd' = kd_topic kd"
proof (cases "\<exists>v sid. km_value m = Some v \<and> frame v = Inr sid")
  case False
  then have "kd_groups kd' = kd_groups kd \<and> kd_topic kd' = kd_topic kd \<and> ou_batches (kd_out kd') = ou_batches (kd_out kd)"
    using f by (auto simp: feed_def reject_message_def split: option.splits sum.splits)
  with kd show ?thesis by (simp add: decoder_ok_def out_ok_def)
next
  case True
  then obtain v sid where v: "km_value m = Some v" "frame v = Inr sid" by blast
  then have m: "of_schema sp sid m" using fed by (simp add: of_schema_def)
  show ?thesis
  proof (cases "bt_get (kd_groups kd) sid")
    case (Some grp)
    then have t: "take_group dc sid m grp kd = (handed, kd')" using f v by (simp add: feed_def)
    have "ready_ok dc sp sid g" if "grp = Ready g" for g
      using kd map_of_SomeD [OF Some] that by (auto simp: decoder_ok_def groups_ok_def)
    from take_group_ok [OF ok kd m this t] show ?thesis .
  next
    case None
    consider e where "registry sid = Inl e" | r det where "registry sid = Inr (Lookup_Undecodable r det)"
      | schema where "registry sid = Inr (Lookup_Avro schema)"
      by (cases "registry sid") (auto, metis schema_lookup.exhaust)
    then show ?thesis
    proof cases
      case 1
      with f v None kd show ?thesis by (auto simp: feed_def)
    next
      case 2
      then have "kd' = kd\<lparr>kd_groups := (if det then bt_insert sid (Unusable r) (kd_groups kd) else kd_groups kd),
          kd_out := reject_message m (Some sid) r det (kd_out kd)\<rparr>"
        using f v None by (auto simp: feed_def)
      with kd show ?thesis by (auto simp: decoder_ok_def intro!: groups_ok_insert)
    next
      case 3
      then have s: "sr_id schema = sid" "sr_text schema = ds_text sp sid" using reg by (simp_all add: registry_ok_def)
      obtain grp out where g: "group_for dc (kd_prefix kd) schema (kd_out kd) = (grp, out)" by fastforce
      define kd2 where "kd2 = kd\<lparr>kd_groups := bt_insert sid grp (kd_groups kd), kd_out := out\<rparr>"
      have r: "\<And>g. grp = Ready g \<Longrightarrow> ready_ok dc sp sid g" and o: "ou_batches out = ou_batches (kd_out kd)"
        using group_for_ready [OF ok s g] by auto
      have kd2: "decoder_ok dc sp kd2"
        using kd o r by (auto simp: decoder_ok_def kd2_def out_ok_def intro!: groups_ok_insert)
      have "take_group dc sid m grp kd2 = (handed, kd')" using f v None 3 g by (simp add: feed_def kd2_def)
      from take_group_ok [OF ok kd2 m r this] show ?thesis by (simp add: kd2_def)
    qed
  qed
qed

lemma feed_all_ok:
  "decoding_ok dc sp \<Longrightarrow> decoder_ok dc sp kd \<Longrightarrow> list_all (\<lambda>(registry, m). registry_ok sp registry \<and> m \<in> ds_fed sp) fs \<Longrightarrow>
   feed_all dc fs kd = (taken, kd') \<Longrightarrow> decoder_ok dc sp kd' \<and> kd_topic kd' = kd_topic kd"
proof (induction fs arbitrary: kd taken)
  case (Cons f fs)
  obtain registry m where f: "f = (registry, m)" by fastforce
  obtain handed kd1 where b: "feed dc registry m kd = (handed, kd1)" by fastforce
  obtain ts where ts: "feed_all dc fs kd1 = (ts, kd')"
    using Cons.prems(4) by (auto simp: f b Let_def split: prod.splits)
  have "decoder_ok dc sp kd1 \<and> kd_topic kd1 = kd_topic kd"
    using feed_ok [OF Cons.prems(1) _ Cons.prems(2) _ b] Cons.prems(3) by (simp add: f)
  with Cons.IH [OF Cons.prems(1) _ _ ts] Cons.prems(3) show ?case by simp
qed simp

lemma flush_groups_ok:
  "decoding_ok dc sp \<Longrightarrow> groups_ok dc sp gs \<Longrightarrow> out_ok dc sp topic out \<Longrightarrow> flush_groups dc topic gs out = (gs', out') \<Longrightarrow>
   groups_ok dc sp gs' \<and> out_ok dc sp topic out'"
proof (induction gs arbitrary: out gs')
  case (Cons e gs)
  obtain sid grp where e: "e = (sid, grp)" by fastforce
  obtain grp' o2 where g: "(case grp of Ready g \<Rightarrow> (case flush_group dc topic sid g out of (g, out) \<Rightarrow> (Ready g, out)) | _ \<Rightarrow> (grp, out)) = (grp', o2)"
    by fastforce
  obtain gs2 where gs: "flush_groups dc topic gs o2 = (gs2, out')" "gs' = (sid, grp') # gs2"
    using Cons.prems(4) g by (auto simp: e Let_def split: prod.splits)
  have "(\<forall>g. grp' = Ready g \<longrightarrow> ready_ok dc sp sid g) \<and> out_ok dc sp topic o2"
  proof (cases grp)
    case (Ready r)
    obtain r' o' where r: "flush_group dc topic sid r out = (r', o')" by fastforce
    have "ready_ok dc sp sid r" using Cons.prems(2) by (simp add: groups_ok_def e Ready)
    from flush_group_ok [OF Cons.prems(1) this Cons.prems(3) r] g r Ready show ?thesis by auto
  qed (use g Cons.prems(3) in auto)
  with Cons.IH [OF Cons.prems(1) _ _ gs(1)] Cons.prems(2) show ?case by (auto simp: groups_ok_def gs(2) e)
qed simp

text \<open>
  C15. A row never stands beside another message's metadata. When the decoders and kernels keep their
  contract, every batch of rows a decoder hands over lists rows and metadata of the same messages in the
  same order: row by row the normalised decoding of a message that was fed, by the schema its header names,
  beside that message's partition, offset, timestamp, key and headers, whatever failed on the way.
\<close>

theorem rows_stand_beside_their_messages:
  assumes "decoding_ok dc sp" and "decoder_ok dc sp kd"
    and "list_all (\<lambda>(registry, m). registry_ok sp registry \<and> m \<in> ds_fed sp) fs"
    and "feed_all dc fs kd = (taken, kd1)" and "finish dc kd1 = (b, kd2)"
  shows "list_all (emitted_ok dc sp (kd_topic kd)) (db_batches b) \<and> decoder_ok dc sp kd2"
proof -
  have k: "decoder_ok dc sp kd1" "kd_topic kd1 = kd_topic kd" using feed_all_ok [OF assms(1-4)] by simp_all
  obtain gs out where g: "flush_groups dc (kd_topic kd1) (kd_groups kd1) (kd_out kd1) = (gs, out)" by fastforce
  have "groups_ok dc sp gs" "out_ok dc sp (kd_topic kd1) out"
    using flush_groups_ok [OF assms(1) _ _ g] k(1) by (simp_all add: decoder_ok_def)
  with assms(5) g k(2) show ?thesis by (auto simp: finish_def decoder_ok_def out_ok_def out_start_def)
qed

section \<open>The strict check of one message\<close>

lemma wire_walk_accepts:
  assumes "wire_new schema = Inr w" and "ad_wire d = Some w"
  shows "wire_walk d framed = Inr () \<longleftrightarrow> lies (wi_nodes w) (wi_root w) (drop header_len framed)"
proof -
  let ?body = "drop header_len framed"
  have "wire_walk d framed = Inr () \<longleftrightarrow> record_len w ?body = Some (Inr (length ?body))"
    by (auto simp: wire_walk_def assms(2) Let_def split: option.splits sum.splits)
  then show ?thesis using record_len_exact [OF assms(1), of ?body "length ?body"] by simp
qed

text \<open>
  C16. A message passes the strict check iff it is exactly one record: arrow-avro, with room for a row, read
  all of its bytes and gained one row, and the bytes after the header are one value of the writer schema,
  with every length, count, union branch and boolean in range and nothing after it.
\<close>

theorem accepted_message_is_one_record:
  assumes "wire_new schema = Inr w" and "ad_wire d = Some w"
    and "ar_decode ar framed (ad_inner d) = (answer, inner)"
  shows "fst (avro_decode_one ar framed d) = Inr ()
    \<longleftrightarrow> answer = A_Read (length framed) \<and> ar_capacity ar (ad_inner d) = Suc (ar_capacity ar inner)
      \<and> lies (wi_nodes w) (wi_root w) (drop header_len framed)"
proof -
  have walk: "wire_walk (d\<lparr>ad_inner := inner\<rparr>) framed = Inr () \<longleftrightarrow> lies (wi_nodes w) (wi_root w) (drop header_len framed)"
    by (rule wire_walk_accepts [OF assms(1)]) (simp add: assms(2))
  show ?thesis
    by (cases answer) (auto simp: avro_decode_one_def Let_def assms(3) walk)
qed

section \<open>Examples\<close>

text \<open>A decoder that keeps a message's body as its row and refuses one that ends in 0xFF.\<close>

definition example_decoding :: "(string \<times> octets list, octets list) decoding" where
  "example_decoding =
     \<lparr>dc_build = \<lambda>k sid s. Inr (s, []),
      dc_fields = \<lambda>d. [Arrow_Field ''id'' A_Other False],
      dc_decode_one = \<lambda>v (s, rs). if last v = 0xFF then (Inl (R_Malformed ''eof''), (s, rs)) else (Inr (), (s, rs @ [drop header_len v])),
      dc_flush = \<lambda>(s, rs). (Inr (Some rs), (s, [])),
      dc_rows = length,
      dc_fixed_uuids = \<lambda>s. [],
      dc_normalise = \<lambda>us b. Inr b,
      dc_concat = \<lambda>bs. Inr (concat bs),
      dc_measured = length,
      dc_base64 = \<lambda>b. '''',
      dc_scale = \<lambda>pending bytes raw. pending * bytes div raw\<rparr>"

definition example_message :: "int \<Rightarrow> octets option \<Rightarrow> kafka_message" where
  "example_message offset v =
     \<lparr>km_partition = 0, km_offset = offset, km_timestamp = CreateTime 1000, km_key = None, km_value = v, km_headers = []\<rparr>"

definition example_messages :: "kafka_message list" where
  "example_messages =
     [example_message 1 (Some [0, 0, 0, 0, 7, 2]), example_message 2 None, example_message 3 (Some [0, 0, 0, 0, 7, 0xFF]),
      example_message 4 (Some [0, 0, 0, 0, 7, 4])]"

definition example_registry :: "nat \<Rightarrow> error + schema_lookup" where
  "example_registry sid =
     (if sid = 7 then Inr (Lookup_Avro \<lparr>sr_id = 7, sr_text = ''long'', sr_json = Some (JObj [(''type'', JStr ''record'')])\<rparr>)
      else Inl (E_Other ''timeout''))"

definition example_feeds :: "((nat \<Rightarrow> error + schema_lookup) \<times> kafka_message) list" where
  "example_feeds = map (\<lambda>m. (example_registry, m)) example_messages"

definition example_contract :: "(string \<times> octets list, octets list, octets) decoding_spec" where
  "example_contract =
     \<lparr>ds_rows = \<lambda>b. b, ds_held = \<lambda>d. Some d, ds_row = \<lambda>s v. drop header_len v, ds_norm = \<lambda>us r. r, ds_text = \<lambda>sid. ''long'',
      ds_fed = set example_messages\<rparr>"

definition example_decoder :: "(string \<times> octets list, octets list) kafka_decoder" where
  "example_decoder = decoder_new ''orders'' ''kafka_''"

lemmas example_decoding_simps = example_decoder_def decoder_new_def out_start_def example_feeds_def example_messages_def example_message_def
  feed_def take_group_def group_for_def build_decoder_def top_level_record_def example_registry_def example_decoding_def
  decode_message_def reject_message_def isolate_def flush_group_def emit_def chunk_rows_def raw_sum_def frame_def header_len_def
  finish_def raw_len_def octets_len_def

lemma example_decoding_run:
  "(let (taken, kd1) = feed_all example_decoding example_feeds example_decoder; (b, kd2) = finish example_decoding kd1
    in map km_offset taken = [1, 2, 3, 4] \<and> map em_batch (db_batches b) = [[[2]], [[4]]]
       \<and> map un_offset (db_undecodable b) = [3] \<and> db_tombstones b = 1)"
  by (simp add: example_decoding_simps)

lemma decoded_batch_accounts_for_every_message_witness:
  "\<exists>taken kd1 b kd2. feed_all example_decoding example_feeds example_decoder = (taken, kd1) \<and> finish example_decoding kd1 = (b, kd2)
     \<and> batch_coords (db_batches b) + mset (map un_coord (db_undecodable b)) = coords (with_value taken)
     \<and> db_tombstones b = 1 \<and> map km_offset taken = [1, 2, 3, 4]"
proof -
  obtain taken kd1 where f: "feed_all example_decoding example_feeds example_decoder = (taken, kd1)" by fastforce
  obtain b kd2 where d: "finish example_decoding kd1 = (b, kd2)" by fastforce
  have "decoder_wf example_decoding example_decoder" "decoder_is_empty example_decoder" by (simp_all add: example_decoder_def)
  from decoded_batch_accounts_for_every_message [OF this f d] example_decoding_run f d show ?thesis by auto
qed

lemma example_contract_holds: "decoding_ok example_decoding example_contract"
  by (auto simp: decoding_ok_def example_decoding_def example_contract_def split: if_splits)

lemma rows_stand_beside_their_messages_witness:
  "\<exists>taken kd1 b kd2. feed_all example_decoding example_feeds example_decoder = (taken, kd1) \<and> finish example_decoding kd1 = (b, kd2)
     \<and> length (db_batches b) = 2 \<and> list_all (emitted_ok example_decoding example_contract ''orders'') (db_batches b)"
proof -
  obtain taken kd1 where f: "feed_all example_decoding example_feeds example_decoder = (taken, kd1)" by fastforce
  obtain b kd2 where d: "finish example_decoding kd1 = (b, kd2)" by fastforce
  have start: "decoder_ok example_decoding example_contract example_decoder"
    by (simp add: decoder_ok_def groups_ok_def out_ok_def example_decoder_def decoder_new_def out_start_def)
  have reg: "list_all (\<lambda>(registry, m). registry_ok example_contract registry \<and> m \<in> ds_fed example_contract) example_feeds"
    by (auto simp: list_all_iff example_feeds_def registry_ok_def example_registry_def example_contract_def split: if_splits)
  have "length (map em_batch (db_batches b)) = 2" using example_decoding_run f d by simp
  with rows_stand_beside_their_messages [OF example_contract_holds start reg f d] f d show ?thesis
    by (auto simp: example_decoder_def decoder_new_def)
qed

text \<open>A record of a long, an optional string and an array of longs.\<close>

definition example_schema :: json where
  "example_schema =
     JObj [(''type'', JStr ''record''), (''name'', JStr ''Order''), (''fields'', JArr
       [JObj [(''name'', JStr ''id''), (''type'', JStr ''long'')],
        JObj [(''name'', JStr ''note''), (''type'', JArr [JStr ''null'', JStr ''string''])],
        JObj [(''name'', JStr ''lines''), (''type'', JObj [(''type'', JStr ''array''), (''items'', JStr ''long'')])]])]"

definition example_wire :: wire where
  "example_wire = \<lparr>wi_nodes = [WLong, WNull, WBytes, WUnion [1, 2], WLong, WArray 4, WRecord [0, 3, 5]],
     wi_empty = [False, True, False, False, False, False, False], wi_root = 6\<rparr>"

text \<open>An arrow-avro that reads every message as one row; its state is the room left.\<close>

definition example_arrow :: "nat arrow" where
  "example_arrow = \<lparr>ar_capacity = \<lambda>n. n, ar_decode = \<lambda>framed n. (A_Read (length framed), n - 1)\<rparr>"

definition example_framed :: octets where
  "example_framed = [0, 0, 0, 0, 7, 0x96, 0x01, 0x02, 0x04, 0x68, 0x69, 0x04, 0x02, 0x04, 0x00]"

lemma accepted_message_is_one_record_witness:
  "lies (wi_nodes example_wire) (wi_root example_wire) (drop header_len example_framed)
   \<and> \<not> lies (wi_nodes example_wire) (wi_root example_wire) (drop header_len (example_framed @ [0]))"
proof -
  let ?d = "\<lparr>ad_inner = 5 :: nat, ad_wire = Some example_wire\<rparr>"
  have w: "wire_new (Some example_schema) = Inr example_wire" by code_simp
  have ad: "ad_wire ?d = Some example_wire" by simp
  have a: "ar_decode example_arrow framed (ad_inner ?d) = (A_Read (length framed), 4)" for framed
    by (simp add: example_arrow_def)
  have "fst (avro_decode_one example_arrow example_framed ?d) = Inr ()" by code_simp
  moreover have "fst (avro_decode_one example_arrow (example_framed @ [0]) ?d) = Inl (R_Trailing 1)" by code_simp
  ultimately show ?thesis
    using accepted_message_is_one_record [OF w ad a, of example_framed]
      accepted_message_is_one_record [OF w ad a, of "example_framed @ [0]"]
    by (simp add: example_arrow_def)
qed

end
