(* ===== verification/Set_Offsets.thy ===== *)
theory Set_Offsets
  imports Member_Spec
begin

text \<open>
  \<open>src/kafka/setoffsets.rs\<close> with what it reads through \<open>src/kafka/tools.rs\<close>: an operator moves a
  Kafka pipeline's offsets by hand. \<open>decide\<close> holds the guards; \<open>set_offsets\<close> reads the target and the
  topic afresh on each attempt, commits the move and, when it goes backwards, checkpoints and reads it
  back. The broker, the opening of the target and delta-rs's operations are arguments, per attempt.
\<close>

section \<open>Where the partitions stand\<close>

record partition_status =
  ps_partition :: partition
  ps_stored :: "int option"
  ps_low :: int
  ps_high :: int

definition lag :: "partition_status \<Rightarrow> int" where
  "lag s =
     (let next = (case ps_stored s of None \<Rightarrow> max (ps_low s) 0 | Some v \<Rightarrow> i64_add v 1)
      in max (i64_sub (ps_high s) next) 0)"

definition verdict :: "partition_status \<Rightarrow> string" where
  "verdict s =
     (case ps_stored s of
        Some b \<Rightarrow>
          if i64_add b 1 < ps_low s then ''RETENTION_GAP''
          else if ps_high s \<le> b then ''REGRESSED'' else ''OK''
      | None \<Rightarrow> if ps_low s = 0 then ''NO_TXN->offset 0'' else ''NO_TXN->blocked'')"

section \<open>The guards\<close>

record request =
  rq_moves :: "(partition, int) bmap"
  rq_reassert :: bool
  rq_acknowledge_skip :: "string option"
  rq_allow_replay :: bool

record decision =
  dc_assert :: "(partition, int) bmap"
  dc_override_reason :: "string option"
  dc_backward :: bool

definition refuse :: "string \<Rightarrow> 'a res" where
  "refuse why = Inl (E_Other (''set-offsets: '' @ why))"

text \<open>One move: what is asserted so far, whether one skips, whether one goes back.\<close>

definition decide_move ::
    "(partition, partition_status) bmap \<Rightarrow> request \<Rightarrow> partition \<times> int
      \<Rightarrow> (partition, int) bmap \<times> bool \<times> bool \<Rightarrow> ((partition, int) bmap \<times> bool \<times> bool) res" where
  "decide_move by_partition req = (\<lambda>(p, nxt) (asserts, skips, backward).
     case bt_get by_partition p of
       None \<Rightarrow> refuse (''the topic has no partition '' @ show_int p)
     | Some s \<Rightarrow>
         if nxt < 0 then refuse ''negative''
         else if nxt = 0 then
           (if ps_stored s \<noteq> None then refuse ''the partition has an offset, which a txn cannot remove''
            else Inr (asserts, skips, backward))
         else if nxt > ps_high s then refuse ''past the end of the topic''
         else
           let current = (case ps_stored s of None \<Rightarrow> 0 | Some v \<Rightarrow> i64_add v 1)
           in if nxt = current then Inr (bt_insert p (nxt - 1) asserts, skips, backward)
              else if nxt > current then
                (if max current (ps_low s) < nxt then
                   (if rq_acknowledge_skip req = None then refuse ''skips offsets that the topic still holds''
                    else Inr (bt_insert p (nxt - 1) asserts, True, backward))
                 else Inr (bt_insert p (nxt - 1) asserts, skips \<or> rq_acknowledge_skip req \<noteq> None, backward))
              else
                (if \<not> rq_allow_replay req then refuse ''behind the next offset''
                 else if nxt < ps_low s then refuse ''below the first offset of the topic''
                 else Inr (bt_insert p (nxt - 1) asserts, skips, True)))"

fun decide_moves ::
    "(partition, partition_status) bmap \<Rightarrow> request \<Rightarrow> (partition \<times> int) list
      \<Rightarrow> (partition, int) bmap \<times> bool \<times> bool \<Rightarrow> ((partition, int) bmap \<times> bool \<times> bool) res" where
  "decide_moves by_partition req [] acc = Inr acc"
| "decide_moves by_partition req (m # ms) acc =
     res_bind (decide_move by_partition req m acc) (decide_moves by_partition req ms)"

definition decide :: "partition_status list \<Rightarrow> era_kind \<Rightarrow> request \<Rightarrow> decision res" where
  "decide partitions e req =
     (if e = EraFresh then refuse ''this app_id has no offsets in the target (a fresh one)''
      else
        let by_partition = bt_collect (map (\<lambda>s. (ps_partition s, s)) partitions)
        in if rq_reassert req then
             (if rq_moves req \<noteq> [] then refuse ''--reassert takes no --partition/--next/--all-partitions''
              else
                let asserts = bt_collect (List.map_filter
                      (\<lambda>s. map_option (\<lambda>v. (ps_partition s, v)) (ps_stored s)) partitions)
                in if asserts = [] then refuse ''no partition has an offset to reassert''
                   else Inr \<lparr>dc_assert = asserts, dc_override_reason = None, dc_backward = False\<rparr>)
           else if rq_moves req = [] then refuse ''name a partition''
           else
             res_bind (decide_moves by_partition req (rq_moves req) ([], False, False))
               (\<lambda>(asserts, skips, backward).
                  if asserts = [] then refuse ''nothing to write''
                  else Inr \<lparr>dc_assert = asserts,
                            dc_override_reason = (if skips then rq_acknowledge_skip req else None),
                            dc_backward = backward\<rparr>))"

section \<open>What one attempt reads\<close>

text \<open>
  \<open>ta_metadata\<close>: making the client and fetching the topic's metadata, each topic's name, whether it has
  an error, and its partitions. \<open>ta_empty\<close>: an empty batch of the schema of the handle's snapshot.
\<close>

record 'rows attempt_env =
  ta_metadata :: "(string \<times> bool \<times> partition list) list res"
  ta_open :: "handle res"
  ta_watermarks :: "partition \<Rightarrow> (int \<times> int) res"
  ta_empty :: "handle \<Rightarrow> delta_error + 'rows"
  ta_ops :: "(handle, 'rows) delta_ops"
  ta_create_checkpoint :: "handle \<Rightarrow> delta_error + unit"
  ta_reopen :: "handle res"

record view =
  vw_target :: handle
  vw_era :: era_kind
  vw_txns :: found
  vw_partitions :: "partition_status list"

definition topic_partitions :: "string \<Rightarrow> (string \<times> bool \<times> partition list) list \<Rightarrow> partition list" where
  "topic_partitions topic topics =
     concat (map (\<lambda>(name, failed, ps). ps) (filter (\<lambda>(name, failed, ps). name = topic \<and> \<not> failed) topics))"

definition stored_offset :: "found \<Rightarrow> string \<Rightarrow> partition \<Rightarrow> int option" where
  "stored_offset txns app_id p = Option.bind (bt_get txns (txn_app_id app_id p)) ts_version"

definition view_of :: "'rows attempt_env \<Rightarrow> string \<Rightarrow> string \<Rightarrow> view res" where
  "view_of ev app_id topic =
     res_bind (ta_metadata ev) (\<lambda>topics.
       let partitions = topic_partitions topic topics
       in res_bind (ta_open ev) (\<lambda>target.
          res_bind (read_txns target (map (txn_app_id app_id) partitions @ [takeover_marker_app_id app_id])) (\<lambda>txns.
          res_bind (collect_res (\<lambda>p. map_sum id (\<lambda>(low, high).
              \<lparr>ps_partition = p, ps_stored = stored_offset txns app_id p, ps_low = low, ps_high = high\<rparr>)
              (ta_watermarks ev p)) partitions) (\<lambda>ps.
          Inr \<lparr>vw_target = target, vw_era = era app_id txns, vw_txns = txns, vw_partitions = ps\<rparr>))))"

section \<open>Moving\<close>

definition set_offsets_attempts :: nat where
  "set_offsets_attempts = 5"

record outcome =
  oc_version :: int
  oc_moved :: "(partition, int option \<times> int) bmap"
  oc_checkpointed :: bool

definition is_conflict :: "error \<Rightarrow> bool" where
  "is_conflict e =
     (case e of
        E_Delta d \<Rightarrow>
          (case delta_kind d of
             DK_Transaction (TE_CommitConflict _) \<Rightarrow> True
           | DK_Transaction (TE_VersionAlreadyExists _) \<Rightarrow> True
           | _ \<Rightarrow> False)
      | _ \<Rightarrow> False)"

definition move_offsets :: "string \<Rightarrow> decision \<Rightarrow> kafka_offsets" where
  "move_offsets topic d =
     \<lparr>ko_topic = topic, ko_group_id = ''set-offsets'', ko_ranges = [], ko_assert = dc_assert d,
      ko_marks = [], ko_cleanup_logs = False, ko_baseline = False,
      ko_override_reason = dc_override_reason d, ko_takeover_marker = False\<rparr>"

definition verify_after_checkpoint :: "handle res \<Rightarrow> string \<Rightarrow> (partition, int) bmap \<Rightarrow> unit res" where
  "verify_after_checkpoint reopened app_id wanted =
     res_bind reopened (\<lambda>table.
     res_bind (read_txns table (map (txn_app_id app_id) (bt_keys wanted))) (\<lambda>read.
       if list_all (\<lambda>(p, v). stored_offset read app_id p = Some v) wanted then Inr ()
       else refuse ''the move did not hold after its checkpoint''))"

definition moved_map :: "partition_status list \<Rightarrow> (partition, int) bmap \<Rightarrow> (partition, int option \<times> int) bmap" where
  "moved_map partitions asserts =
     bt_collect (map (\<lambda>(p, v).
       (p, (Option.bind (List.find (\<lambda>s. ps_partition s = p) partitions) ps_stored, v))) asserts)"

text \<open>
  \<open>ks\<close> are the attempts left; \<open>failed\<close> is the last conflict, \<open>backward\<close> whether an attempt decided a move
  back.
\<close>

fun set_offsets_from ::
    "(nat \<Rightarrow> 'rows attempt_env) \<Rightarrow> string \<Rightarrow> nat \<Rightarrow> string \<Rightarrow> request
      \<Rightarrow> error option \<Rightarrow> bool \<Rightarrow> nat list \<Rightarrow> outcome res" where
  "set_offsets_from envs app_id target_size topic req failed backward [] =
     Inl (case failed of Some e \<Rightarrow> e | None \<Rightarrow> E_Other ''set-offsets: no attempt was made'')"
| "set_offsets_from envs app_id target_size topic req failed backward (k # ks) =
     (let ev = envs k
      in res_bind (view_of ev app_id topic) (\<lambda>view.
         res_bind (decide (vw_partitions view) (vw_era view) req) (\<lambda>decision.
           let backward = (backward \<or> dc_backward decision)
           in case ta_empty ev (vw_target view) of
                Inl e \<Rightarrow> Inl (E_Delta e)
              | Inr none \<Rightarrow>
                  (case commit_kafka (ta_ops ev) (sink_new app_id target_size) (vw_target view) [none]
                          (move_offsets topic decision) of
                     Inr table \<Rightarrow>
                       let ok = Inr \<lparr>oc_version = (case h_version table of None \<Rightarrow> - 1 | Some v \<Rightarrow> wrap_i64 (int v)),
                                     oc_moved = moved_map (vw_partitions view) (dc_assert decision),
                                     oc_checkpointed = backward\<rparr>
                       in if backward then
                            (case ta_create_checkpoint ev table of
                               Inl e \<Rightarrow> Inl (E_Delta e)
                             | Inr _ \<Rightarrow>
                                 res_bind (verify_after_checkpoint (ta_reopen ev) app_id (dc_assert decision)) (\<lambda>_. ok))
                          else ok
                   | Inl e \<Rightarrow>
                       if is_conflict e \<and> k + 1 < set_offsets_attempts
                       then set_offsets_from envs app_id target_size topic req (Some e) backward ks
                       else Inl e))))"

definition set_offsets ::
    "(nat \<Rightarrow> 'rows attempt_env) \<Rightarrow> string \<Rightarrow> nat \<Rightarrow> string \<Rightarrow> request \<Rightarrow> outcome res" where
  "set_offsets envs app_id target_size topic req =
     set_offsets_from envs app_id target_size topic req None False [0..<set_offsets_attempts]"

section \<open>What the guards let through\<close>

definition next_offset :: "int option \<Rightarrow> int" where
  "next_offset stored = (case stored of None \<Rightarrow> 0 | Some b \<Rightarrow> b + 1)"

text \<open>
  A partition at \<open>stored\<close> of a topic that holds \<open>low ..< high\<close> may move to \<open>nxt\<close>: never past the end;
  back only with leave and only to what the topic still holds; and over offsets the topic holds only with
  a reason.
\<close>

definition over_held :: "int option \<Rightarrow> int \<Rightarrow> int \<Rightarrow> bool" where
  "over_held stored low nxt \<longleftrightarrow> (\<exists>x. next_offset stored \<le> x \<and> x < nxt \<and> low \<le> x)"

definition may_move :: "request \<Rightarrow> int option \<Rightarrow> int \<times> int \<Rightarrow> int \<Rightarrow> bool" where
  "may_move req stored = (\<lambda>(low, high) nxt.
     0 < nxt \<and> nxt \<le> high
     \<and> (nxt < next_offset stored \<longrightarrow> rq_allow_replay req \<and> low \<le> nxt)
     \<and> (over_held stored low nxt \<longrightarrow> rq_acknowledge_skip req \<noteq> None))"

lemma over_held_iff: "over_held stored low nxt \<longleftrightarrow> max (next_offset stored) low < nxt"
proof
  assume "max (next_offset stored) low < nxt"
  then have "next_offset stored \<le> nxt - 1 \<and> nxt - 1 < nxt \<and> low \<le> nxt - 1" by simp
  then show "over_held stored low nxt" unfolding over_held_def by blast
qed (auto simp: over_held_def)

definition status_ok :: "partition_status \<Rightarrow> bool" where
  "status_ok s \<longleftrightarrow> (\<forall>v. ps_stored s = Some v \<longrightarrow> - (2 ^ 63) \<le> v \<and> v < 2 ^ 63 - 1)"

lemma next_offset_i64:
  "status_ok s \<Longrightarrow> (case ps_stored s of None \<Rightarrow> 0 | Some v \<Rightarrow> i64_add v 1) = next_offset (ps_stored s)"
  by (auto simp: status_ok_def next_offset_def i64_add_exact i64_def split: option.splits)

lemma decide_move_Inr:
  assumes "decide_move bp req (p, nxt) (a, sk, b) = Inr (a', sk', b')" and ok: "\<And>s. bt_get bp p = Some s \<Longrightarrow> status_ok s"
  obtains s where "bt_get bp p = Some s" "nxt = 0" "ps_stored s = None" "a' = a" "sk' = sk" "b' = b"
  | s where "bt_get bp p = Some s" "may_move req (ps_stored s) (ps_low s, ps_high s) nxt" "a' = bt_insert p (nxt - 1) a"
      "b' = (b \<or> nxt < next_offset (ps_stored s))" "over_held (ps_stored s) (ps_low s) nxt \<Longrightarrow> sk'"
      "sk \<Longrightarrow> sk'" "sk' \<Longrightarrow> sk \<or> rq_acknowledge_skip req \<noteq> None"
proof -
  from assms(1) obtain s where s: "bt_get bp p = Some s"
    by (auto simp: decide_move_def refuse_def split: option.splits)
  note n = next_offset_i64 [OF ok [OF s]]
  note run = assms(1) [unfolded decide_move_def prod.case s option.case n]
  show ?thesis
  proof (cases "nxt = 0")
    case True
    with run have "ps_stored s = None" "a' = a" "sk' = sk" "b' = b" by (auto simp: refuse_def split: if_splits)
    with s True show ?thesis by (intro that(1))
  next
    case False
    with run s show ?thesis
      by (intro that(2)) (auto simp: may_move_def over_held_iff refuse_def Let_def split: if_splits)
  qed
qed

lemma decide_moves_Inr:
  assumes "decide_moves bp req ms (a, sk, b) = Inr (a', sk', b')" and "distinct (map fst ms)"
    and ok: "\<forall>p s. bt_get bp p = Some s \<longrightarrow> status_ok s" and "bt_wf a"
  shows "bt_wf a'
    \<and> (\<forall>p. bt_get a' p = (case map_of ms p of Some nxt \<Rightarrow> if nxt = 0 then bt_get a p else Some (nxt - 1) | None \<Rightarrow> bt_get a p))
    \<and> (\<forall>(p, nxt) \<in> set ms. \<exists>s. bt_get bp p = Some s
         \<and> (if nxt = 0 then ps_stored s = None
            else may_move req (ps_stored s) (ps_low s, ps_high s) nxt
              \<and> (nxt < next_offset (ps_stored s) \<longrightarrow> b') \<and> (over_held (ps_stored s) (ps_low s) nxt \<longrightarrow> sk')))
    \<and> (b \<longrightarrow> b') \<and> (sk \<longrightarrow> sk')"
  using assms(1,2,4)
proof (induction ms arbitrary: a sk b)
  case (Cons m ms)
  obtain p nxt where m: "m = (p, nxt)" by (cases m)
  from Cons.prems(1) m obtain a1 sk1 b1 where one: "decide_move bp req (p, nxt) (a, sk, b) = Inr (a1, sk1, b1)"
    and rest: "decide_moves bp req ms (a1, sk1, b1) = Inr (a', sk', b')" by (auto simp del: res_bind.simps)
  have p: "p \<notin> fst ` set ms" "map_of ms p = None" using Cons.prems(2) m by (auto simp: map_of_eq_None_iff)
  show ?case
  proof (rule decide_move_Inr [OF one])
    show "status_ok s" if "bt_get bp p = Some s" for s using ok that by blast
  next
    fix s assume c: "bt_get bp p = Some s" "nxt = 0" "ps_stored s = None" "a1 = a" "sk1 = sk" "b1 = b"
    from Cons.IH [OF rest] Cons.prems(2,3) m c p show ?thesis by (auto split: option.splits)
  next
    fix s assume c: "bt_get bp p = Some s" "may_move req (ps_stored s) (ps_low s, ps_high s) nxt" "a1 = bt_insert p (nxt - 1) a"
      "b1 = (b \<or> nxt < next_offset (ps_stored s))" "over_held (ps_stored s) (ps_low s) nxt \<Longrightarrow> sk1" "sk \<Longrightarrow> sk1"
    have "nxt \<noteq> 0" using c(2) by (auto simp: may_move_def)
    moreover have "bt_wf a1" using Cons.prems(3) c(3) by simp
    moreover note Cons.IH [OF rest _ this]
    ultimately show ?thesis using Cons.prems(2) m c p by (auto split: option.splits)
  qed
qed simp

text \<open>What a decision comes to: the moves asked for, or every stored offset again.\<close>

lemma decide_Inr:
  assumes "decide ps e req = Inr d" and wf: "bt_wf (rq_moves req)" and ok: "\<forall>s \<in> set ps. status_ok s"
  shows "bt_wf (dc_assert d)"
    and "bt_get (rq_moves req) p = Some nxt \<Longrightarrow> nxt \<noteq> 0 \<Longrightarrow>
      bt_get (dc_assert d) p = Some (nxt - 1) \<and> (\<exists>s \<in> set ps. ps_partition s = p
        \<and> may_move req (ps_stored s) (ps_low s, ps_high s) nxt
        \<and> (nxt < next_offset (ps_stored s) \<longrightarrow> dc_backward d)
        \<and> (over_held (ps_stored s) (ps_low s) nxt \<longrightarrow> dc_override_reason d = rq_acknowledge_skip req))"
    and "bt_get (rq_moves req) p = Some 0 \<Longrightarrow> bt_get (dc_assert d) p = None"
    and "bt_get (rq_moves req) p = None \<Longrightarrow> bt_get (dc_assert d) p = Some v \<Longrightarrow>
      \<exists>s \<in> set ps. ps_partition s = p \<and> ps_stored s = Some v"
proof -
  define bp where "bp = bt_collect (map (\<lambda>s. (ps_partition s, s)) ps)"
  have bp: "s \<in> set ps \<and> ps_partition s = p" if "bt_get bp p = Some s" for p s
    using that map_of_SomeD [of "rev (map (\<lambda>s. (ps_partition s, s)) ps)" p s] by (auto simp: bp_def bt_get_collect)
  have "bt_wf (dc_assert d)
    \<and> (\<forall>p nxt. bt_get (rq_moves req) p = Some nxt \<and> nxt \<noteq> 0 \<longrightarrow>
      bt_get (dc_assert d) p = Some (nxt - 1) \<and> (\<exists>s \<in> set ps. ps_partition s = p
        \<and> may_move req (ps_stored s) (ps_low s, ps_high s) nxt
        \<and> (nxt < next_offset (ps_stored s) \<longrightarrow> dc_backward d)
        \<and> (over_held (ps_stored s) (ps_low s) nxt \<longrightarrow> dc_override_reason d = rq_acknowledge_skip req)))
    \<and> (\<forall>p. bt_get (rq_moves req) p = Some 0 \<longrightarrow> bt_get (dc_assert d) p = None)
    \<and> (\<forall>p v. bt_get (rq_moves req) p = None \<and> bt_get (dc_assert d) p = Some v \<longrightarrow>
        (\<exists>s \<in> set ps. ps_partition s = p \<and> ps_stored s = Some v))"
  proof (cases "rq_reassert req")
    case True
    define kvs where "kvs = List.map_filter (\<lambda>s. map_option (\<lambda>v. (ps_partition s, v)) (ps_stored s)) ps"
    have "rq_moves req = []" "dc_assert d = bt_collect kvs"
      using assms(1) True by (auto simp: decide_def refuse_def Let_def kvs_def split: if_splits)
    moreover have "\<exists>s \<in> set ps. ps_partition s = p \<and> ps_stored s = Some v" if "bt_get (bt_collect kvs) p = Some v" for p v
    proof -
      from that have "(p, v) \<in> set kvs" using map_of_SomeD [of "rev kvs" p v] by (auto simp: bt_get_collect)
      then show ?thesis by (auto simp: kvs_def List.map_filter_def)
    qed
    ultimately show ?thesis by simp
  next
    case False
    with assms(1) obtain a sk b where moves: "decide_moves bp req (rq_moves req) ([], False, False) = Inr (a, sk, b)"
      and d: "d = \<lparr>dc_assert = a, dc_override_reason = (if sk then rq_acknowledge_skip req else None), dc_backward = b\<rparr>"
      by (auto simp: decide_def refuse_def Let_def bp_def split: if_splits prod.splits)
    have "\<forall>p s. bt_get bp p = Some s \<longrightarrow> status_ok s" using bp ok by blast
    note inv = decide_moves_Inr [OF moves bt_wf_distinct [OF wf] this bt_wf_Nil]
    have get: "bt_get a p = (case bt_get (rq_moves req) p of Some nxt \<Rightarrow> if nxt = 0 then None else Some (nxt - 1) | None \<Rightarrow> None)"
      for p using inv by (auto split: option.splits)
    have moved: "\<exists>s \<in> set ps. ps_partition s = p \<and> may_move req (ps_stored s) (ps_low s, ps_high s) nxt
        \<and> (nxt < next_offset (ps_stored s) \<longrightarrow> b)
        \<and> (over_held (ps_stored s) (ps_low s) nxt \<longrightarrow> dc_override_reason d = rq_acknowledge_skip req)"
      if m: "bt_get (rq_moves req) p = Some nxt" "nxt \<noteq> 0" for p nxt
    proof -
      from inv map_of_SomeD [OF m(1)] m(2) obtain s where "bt_get bp p = Some s"
        "may_move req (ps_stored s) (ps_low s, ps_high s) nxt" "nxt < next_offset (ps_stored s) \<longrightarrow> b"
        "over_held (ps_stored s) (ps_low s) nxt \<longrightarrow> sk" by fastforce
      with bp [of p s] d show ?thesis by (intro bexI [of _ s]) auto
    qed
    have "bt_wf a" using inv by blast
    with get moved d show ?thesis by (auto split: option.splits if_splits)
  qed
  then show "bt_wf (dc_assert d)"
    and "bt_get (rq_moves req) p = Some nxt \<Longrightarrow> nxt \<noteq> 0 \<Longrightarrow>
      bt_get (dc_assert d) p = Some (nxt - 1) \<and> (\<exists>s \<in> set ps. ps_partition s = p
        \<and> may_move req (ps_stored s) (ps_low s, ps_high s) nxt
        \<and> (nxt < next_offset (ps_stored s) \<longrightarrow> dc_backward d)
        \<and> (over_held (ps_stored s) (ps_low s) nxt \<longrightarrow> dc_override_reason d = rq_acknowledge_skip req))"
    and "bt_get (rq_moves req) p = Some 0 \<Longrightarrow> bt_get (dc_assert d) p = None"
    and "bt_get (rq_moves req) p = None \<Longrightarrow> bt_get (dc_assert d) p = Some v \<Longrightarrow>
      \<exists>s \<in> set ps. ps_partition s = p \<and> ps_stored s = Some v"
    by blast+
qed

text \<open>A view reads every partition of the topic at one version of the target.\<close>

lemma view_of_Inr:
  assumes "view_of ev app_id topic = Inr vw"
  obtains topics where "ta_metadata ev = Inr topics" "ta_open ev = Inr (vw_target vw)"
    "read_txns (vw_target vw) (map (txn_app_id app_id) (topic_partitions topic topics) @ [takeover_marker_app_id app_id])
      = Inr (vw_txns vw)"
    "\<And>s. s \<in> set (vw_partitions vw) \<Longrightarrow> ps_partition s \<in> set (topic_partitions topic topics)
      \<and> ps_stored s = stored_offset (vw_txns vw) app_id (ps_partition s)
      \<and> ta_watermarks ev (ps_partition s) = Inr (ps_low s, ps_high s)"
proof -
  from assms obtain topics target txns ps where r: "ta_metadata ev = Inr topics" "ta_open ev = Inr target"
    "read_txns target (map (txn_app_id app_id) (topic_partitions topic topics) @ [takeover_marker_app_id app_id]) = Inr txns"
    "collect_res (\<lambda>p. map_sum id (\<lambda>(low, high).
              \<lparr>ps_partition = p, ps_stored = stored_offset txns app_id p, ps_low = low, ps_high = high\<rparr>)
              (ta_watermarks ev p)) (topic_partitions topic topics) = Inr ps"
    and vw: "vw = \<lparr>vw_target = target, vw_era = era app_id txns, vw_txns = txns, vw_partitions = ps\<rparr>"
    by (auto simp: view_of_def Let_def)
  have "ps_partition s \<in> set (topic_partitions topic topics)
      \<and> ps_stored s = stored_offset txns app_id (ps_partition s)
      \<and> ta_watermarks ev (ps_partition s) = Inr (ps_low s, ps_high s)" if "s \<in> set ps" for s
  proof -
    from that r(4) obtain p where "p \<in> set (topic_partitions topic topics)"
      "map_sum id (\<lambda>(low, high).
              \<lparr>ps_partition = p, ps_stored = stored_offset txns app_id p, ps_low = low, ps_high = high\<rparr>)
              (ta_watermarks ev p) = Inr s"
      by (auto simp: collect_res_Inr_iff list_all2_conv_all_nth in_set_conv_nth) blast
    then show ?thesis by (cases "ta_watermarks ev p") auto
  qed
  with r vw show ?thesis by (intro that) auto
qed

lemma moved_map_get:
  assumes "bt_wf a"
  shows "bt_get (moved_map ps a) p
    = map_option (Pair (Option.bind (List.find (\<lambda>s. ps_partition s = p) ps) ps_stored)) (bt_get a p)"
  using bt_get_collect_map [OF assms, of "\<lambda>p v. (Option.bind (List.find (\<lambda>s. ps_partition s = p) ps) ps_stored, v)"]
  by (simp add: moved_map_def comp_def)

lemma found_status:
  assumes "s \<in> set ps" and "\<And>s'. s' \<in> set ps \<Longrightarrow> ps_partition s' = ps_partition s \<Longrightarrow> ps_stored s' = x"
  shows "Option.bind (List.find (\<lambda>s'. ps_partition s' = ps_partition s) ps) ps_stored = x"
  using assms by (induction ps) auto

lemma set_offsets_from_Inr:
  assumes "set_offsets_from envs app_id target_size topic req failed backward ks = Inr out"
  obtains k vw d none table where "k \<in> set ks" "view_of (envs k) app_id topic = Inr vw"
    "decide (vw_partitions vw) (vw_era vw) req = Inr d"
    "commit_kafka (ta_ops (envs k)) (sink_new app_id target_size) (vw_target vw) [none] (move_offsets topic d) = Inr table"
    "oc_version out = (case h_version table of None \<Rightarrow> - 1 | Some v \<Rightarrow> wrap_i64 (int v))"
    "oc_moved out = moved_map (vw_partitions vw) (dc_assert d)"
    "dc_backward d \<Longrightarrow> oc_checkpointed out"
    "oc_checkpointed out \<Longrightarrow> verify_after_checkpoint (ta_reopen (envs k)) app_id (dc_assert d) = Inr ()"
  using assms
proof (induction ks arbitrary: failed backward thesis)
  case (Cons k ks)
  from Cons.prems(2) obtain vw d where v: "view_of (envs k) app_id topic = Inr vw"
    "decide (vw_partitions vw) (vw_era vw) req = Inr d" by (auto simp: Let_def)
  with Cons.prems(2) obtain none where none: "ta_empty (envs k) (vw_target vw) = Inr none"
    by (cases "ta_empty (envs k) (vw_target vw)") (auto simp: Let_def)
  show ?case
  proof (cases "commit_kafka (ta_ops (envs k)) (sink_new app_id target_size) (vw_target vw) [none] (move_offsets topic d)")
    case (Inl e)
    with Cons.prems(2) v none have "set_offsets_from envs app_id target_size topic req (Some e) (backward \<or> dc_backward d) ks = Inr out"
      by (auto simp: Let_def split: if_splits)
    from Cons.IH [OF _ this] Cons.prems(1) show ?thesis by (metis list.set_intros(2))
  next
    case (Inr table)
    with Cons.prems(2) v none have "oc_version out = (case h_version table of None \<Rightarrow> - 1 | Some v \<Rightarrow> wrap_i64 (int v))
      \<and> oc_moved out = moved_map (vw_partitions vw) (dc_assert d) \<and> (dc_backward d \<longrightarrow> oc_checkpointed out)
      \<and> (oc_checkpointed out \<longrightarrow> verify_after_checkpoint (ta_reopen (envs k)) app_id (dc_assert d) = Inr ())"
      by (auto simp: Let_def split: if_splits sum.splits)
    with v Inr show ?thesis by (intro Cons.prems(1) [of k vw d none table]) auto
  qed
qed simp

lemma verify_after_checkpoint_Inr:
  assumes "verify_after_checkpoint reopened app_id wanted = Inr ()" and "bt_get wanted p = Some v"
  shows "\<exists>h m. reopened = Inr h \<and> read_txns h (map (txn_app_id app_id) (bt_keys wanted)) = Inr m \<and> stored_offset m app_id p = Some v"
  using assms map_of_SomeD [OF assms(2)]
  by (auto simp: verify_after_checkpoint_def refuse_def list_all_iff split: if_splits)

section \<open>A move does what was asked, and no more\<close>

text \<open>
  What is asked of delta-rs: a write that is reported landed is in the log after the handle's version, holds
  what it was given, and shares no appId with what landed between.
\<close>

definition writes_land :: "(handle, 'rows) delta_ops \<Rightarrow> (version \<Rightarrow> log_line list) \<Rightarrow> handle \<Rightarrow> version \<Rightarrow> bool" where
  "writes_land ops hist h v \<longleftrightarrow>
     (\<forall>rows props size h'. do_write ops h rows props size = Inr h' \<longrightarrow>
        (\<exists>n > v. handle_ok h' hist n \<and> commit_writes props (hist n)
           \<and> (\<forall>u. v < u \<and> u < n \<longrightarrow> ids_of (hist u) \<inter> ids_of (hist n) = {})))"

lemma writes_landD:
  assumes "writes_land ops hist h v" and "do_write ops h rows props file_size = Inr h'"
  obtains n where "v < n" "handle_ok h' hist n" "commit_writes props (hist n)"
    "\<forall>u. v < u \<and> u < n \<longrightarrow> ids_of (hist u) \<inter> ids_of (hist n) = {}"
proof -
  from assms have "\<exists>n > v. handle_ok h' hist n \<and> commit_writes props (hist n)
      \<and> (\<forall>u. v < u \<and> u < n \<longrightarrow> ids_of (hist u) \<inter> ids_of (hist n) = {})"
    by (simp add: writes_land_def)
  with that show ?thesis by blast
qed

text \<open>Every recorded offset is an \<open>i64\<close> that has a next one.\<close>

definition offsets_ok :: "(version \<Rightarrow> log_line list) \<Rightarrow> bool" where
  "offsets_ok hist \<longleftrightarrow> (\<forall>v. \<forall>t \<in> set (txns_of (hist v)). - (2 ^ 63) \<le> ta_version t \<and> ta_version t < 2 ^ 63 - 1)"

lemma offsets_ok_newest:
  assumes "offsets_ok hist" and "newest_version hist i v = Some x"
  shows "- (2 ^ 63) \<le> x \<and> x < 2 ^ 63 - 1"
proof -
  from assms(2) obtain s where "newest_in hist i 0 (Suc v) = Some s" "ts_version s = Some x"
    by (auto simp: newest_version_def newest_state_def bind_eq_Some_conv)
  then obtain u where "commit_state (hist u) i = Some s" using newest_in_Some by blast
  with \<open>ts_version s = Some x\<close> obtain t where "map_of (rev (map (\<lambda>t. (ta_app_id t, t)) (txns_of (hist u)))) i = Some t"
    "ta_version t = x" by (auto simp: commit_state_def txn_state_of_def)
  from map_of_SomeD [OF this(1)] this(2) assms(1) show ?thesis by (auto simp: offsets_ok_def)
qed

text \<open>One partition, from the offset before the commit to the one after, given what the topic holds of it.\<close>

definition moved_as_asked :: "request \<Rightarrow> partition \<Rightarrow> int \<times> int \<Rightarrow> int option \<Rightarrow> int option \<Rightarrow> bool" where
  "moved_as_asked req p held before after \<longleftrightarrow>
     (case bt_get (rq_moves req) p of
        None \<Rightarrow> after = before
      | Some nxt \<Rightarrow> if nxt = 0 then after = before
                    else after = Some (nxt - 1) \<and> may_move req before held nxt)"

lemma read_txns_version:
  assumes "handle_ok h hist v" and "read_txns h app_ids = Inr m" and "i \<in> set app_ids"
  shows "\<exists>s. bt_get m i = Some s \<and> ts_version s = newest_version hist i v"
proof -
  from assms(2) obtain memo' where "read_log h app_ids True default_memo = (Inr m, memo')"
    by (cases "read_log h app_ids True default_memo") (auto simp: read_txns_def)
  from read_log_good [OF assms(1) memo_ok_default this] assms(3) show ?thesis by auto
qed

lemma view_reads_target:
  assumes ta: "ta_open ev = Inr (vw_target vw)" and h: "handle_ok (vw_target vw) hist v"
    and vw: "view_of ev app_id topic = Inr vw" and offs: "offsets_ok hist"
    and s: "s \<in> set (vw_partitions vw)"
  shows "ps_stored s = offsets_at hist app_id v (ps_partition s) \<and> status_ok s
    \<and> ta_watermarks ev (ps_partition s) = Inr (ps_low s, ps_high s)"
proof -
  from vw obtain topics where t: "ta_metadata ev = Inr topics"
    "read_txns (vw_target vw) (map (txn_app_id app_id) (topic_partitions topic topics) @ [takeover_marker_app_id app_id])
      = Inr (vw_txns vw)"
    and ps: "ps_partition s \<in> set (topic_partitions topic topics)"
      "ps_stored s = stored_offset (vw_txns vw) app_id (ps_partition s)"
      "ta_watermarks ev (ps_partition s) = Inr (ps_low s, ps_high s)"
    using s by (elim view_of_Inr) blast
  have "ps_stored s = offsets_at hist app_id v (ps_partition s)"
    using read_txns_version [OF h t(2), of "txn_app_id app_id (ps_partition s)"] ps(1,2)
    by (auto simp: stored_offset_def offsets_at_def)
  with offsets_ok_newest [OF offs] ps(3) show ?thesis by (auto simp: status_ok_def offsets_at_def)
qed

text \<open>What the commit of a decision did to one partition of which the topic holds \<open>held\<close>.\<close>

definition settled ::
    "'rows attempt_env \<Rightarrow> request \<Rightarrow> view \<Rightarrow> decision \<Rightarrow> (version \<Rightarrow> log_line list) \<Rightarrow> string \<Rightarrow> version
      \<Rightarrow> partition \<Rightarrow> int \<times> int \<Rightarrow> bool" where
  "settled ev req vw d hist app_id n p held \<longleftrightarrow>
     (bt_get (dc_assert d) p \<noteq> None \<longrightarrow> ta_watermarks ev p = Inr held)
      \<and> moved_as_asked req p held (offsets_at hist app_id (n - 1) p) (offsets_at hist app_id n p)
      \<and> (\<forall>x. bt_get (dc_assert d) p = Some x \<longrightarrow> offsets_at hist app_id n p = Some x
            \<and> bt_get (moved_map (vw_partitions vw) (dc_assert d)) p = Some (offsets_at hist app_id (n - 1) p, x))
      \<and> (\<forall>nxt. bt_get (rq_moves req) p = Some nxt \<and> nxt \<noteq> 0 \<longrightarrow> bt_get (dc_assert d) p = Some (nxt - 1)
            \<and> (nxt < next_offset (offsets_at hist app_id (n - 1) p) \<longrightarrow> dc_backward d)
            \<and> (over_held (offsets_at hist app_id (n - 1) p) (fst held) nxt \<longrightarrow>
                 dc_override_reason d = rq_acknowledge_skip req))"

lemma move_lands:
  assumes vw: "view_of ev app_id topic = Inr vw" and d: "decide (vw_partitions vw) (vw_era vw) req = Inr d"
    and commit: "commit_kafka (ta_ops ev) (sink_new app_id target_size) (vw_target vw) [none] (move_offsets topic d) = Inr table"
    and h: "handle_ok (vw_target vw) hist v" and lands: "writes_land (ta_ops ev) hist (vw_target vw) v"
    and ids: "\<forall>topics. ta_metadata ev = Inr topics \<longrightarrow> (\<forall>p \<in> set (topic_partitions topic topics). 0 \<le> p \<and> p < 2 ^ 31)"
    and offs: "offsets_ok hist" and wf: "bt_wf (rq_moves req)"
  obtains n where "v < n" "h_version table = Some n" "bt_wf (dc_assert d)"
    "newest_version hist (takeover_marker_app_id app_id) n = newest_version hist (takeover_marker_app_id app_id) (n - 1)"
    "\<And>p. 0 \<le> p \<Longrightarrow> p < 2 ^ 31 \<Longrightarrow> \<exists>held. settled ev req vw d hist app_id n p held"
proof -
  from vw obtain topics where topics: "ta_metadata ev = Inr topics" and opened: "ta_open ev = Inr (vw_target vw)"
    and ps: "\<And>s. s \<in> set (vw_partitions vw) \<Longrightarrow> ps_partition s \<in> set (topic_partitions topic topics)"
    by (elim view_of_Inr) blast
  note reads = view_reads_target [OF opened h vw offs]
  then have st: "\<forall>s \<in> set (vw_partitions vw). status_ok s" by blast
  note dec = decide_Inr [OF d wf st]
  let ?props = "kafka_properties (sink_new app_id target_size) (table_protocol (ta_ops ev) (vw_target vw)) (move_offsets topic d)"
  from commit have "do_write (ta_ops ev) (vw_target vw) [none] ?props (sk_target_file_size (sink_new app_id target_size)) = Inr table"
    by (auto simp: commit_kafka_def sink_write_def split: sum.splits)
  from writes_landD [OF lands this] obtain n where n: "v < n" "handle_ok table hist n" and w: "commit_writes ?props (hist n)"
    and free: "\<forall>u. v < u \<and> u < n \<longrightarrow> ids_of (hist u) \<inter> ids_of (hist n) = {}" .
  have asserted: "\<exists>s \<in> set (vw_partitions vw). ps_partition s = p" if "bt_get (dc_assert d) p = Some x" for p x
    using dec(2-4) [of p] that by (cases "bt_get (rq_moves req) p"; cases "bt_get (rq_moves req) p = Some 0") auto
  have range: "\<forall>p \<in> set (bt_keys (ko_assert (move_offsets topic d))). 0 \<le> p \<and> p < 2 ^ 31"
  proof
    fix p assume "p \<in> set (bt_keys (ko_assert (move_offsets topic d)))"
    then obtain x where "bt_get (dc_assert d) p = Some x"
      by (auto simp: move_offsets_def bt_get_Some_iff [OF dec(1)])
    with asserted ps ids topics show "0 \<le> p \<and> p < 2 ^ 31" by blast
  qed
  have wfa: "bt_wf (ko_assert (move_offsets topic d))" using dec(1) by (simp add: move_offsets_def)
  note la = kafka_landing [where hist = hist, OF w n(1) wfa range free]
  have fields: "ko_assert (move_offsets topic d) = dc_assert d" "\<not> ko_takeover_marker (move_offsets topic d)"
    "sk_app_id (sink_new app_id target_size) = app_id" by (simp_all add: move_offsets_def sink_new_def)
  note la = la [unfolded fields]
  show ?thesis
  proof (rule that [OF n(1) _ dec(1)])
    show "h_version table = Some n" using n(2) by (simp add: handle_ok_def)
    show "newest_version hist (takeover_marker_app_id app_id) n = newest_version hist (takeover_marker_app_id app_id) (n - 1)"
      using la(3) fields(2) by simp
    fix p :: int assume p: "0 \<le> p" "p < 2 ^ 31"
    show "\<exists>held. settled ev req vw d hist app_id n p held"
    proof (cases "bt_get (dc_assert d) p")
      case None
      with dec(2,3) [of p] la(1) [OF p] show ?thesis
        by (cases "bt_get (rq_moves req) p") (auto simp: settled_def moved_as_asked_def split: if_splits)
    next
      case (Some x)
      with la(2) [of p] have before: "offsets_at hist app_id (n - 1) p = offsets_at hist app_id v p" by simp
      from asserted [OF Some] obtain s0 where s0: "s0 \<in> set (vw_partitions vw)" "ps_partition s0 = p" by blast
      have same: "ps_stored s = offsets_at hist app_id (n - 1) p \<and> ps_low s = ps_low s0 \<and> ps_high s = ps_high s0"
        if "s \<in> set (vw_partitions vw)" "ps_partition s = p" for s
        using reads [OF that(1)] reads [OF s0(1)] that(2) s0(2) before by simp
      have after: "offsets_at hist app_id n p = Some x" using la(1) [OF p] Some by simp
      have "moved_as_asked req p (ps_low s0, ps_high s0) (offsets_at hist app_id (n - 1) p) (Some x)"
      proof (cases "bt_get (rq_moves req) p")
        case None
        with dec(4) [OF None Some] same show ?thesis by (auto simp: moved_as_asked_def)
      next
        case m: (Some nxt)
        then have "nxt \<noteq> 0" using dec(3) [of p] Some by auto
        with dec(2) [OF m] m Some same show ?thesis by (auto simp: moved_as_asked_def)
      qed
      then have moved: "moved_as_asked req p (ps_low s0, ps_high s0) (offsets_at hist app_id (n - 1) p) (offsets_at hist app_id n p)"
        by (simp only: after)
      have guards: "bt_get (dc_assert d) p = Some (nxt - 1) \<and> (nxt < next_offset (offsets_at hist app_id (n - 1) p) \<longrightarrow> dc_backward d)
            \<and> (over_held (offsets_at hist app_id (n - 1) p) (ps_low s0) nxt \<longrightarrow>
                 dc_override_reason d = rq_acknowledge_skip req)"
        if "bt_get (rq_moves req) p = Some nxt" "nxt \<noteq> 0" for nxt
        using dec(2) [OF that] same by auto
      have marks: "ta_watermarks ev p = Inr (ps_low s0, ps_high s0)" using reads [OF s0(1)] s0(2) by simp
      have "Option.bind (List.find (\<lambda>s. ps_partition s = ps_partition s0) (vw_partitions vw)) ps_stored
          = offsets_at hist app_id (n - 1) p"
        by (rule found_status [OF s0(1)]) (use same s0(2) in blast)
      then have stored: "bt_get (moved_map (vw_partitions vw) (dc_assert d)) p = Some (offsets_at hist app_id (n - 1) p, x)"
        using moved_map_get [OF dec(1), of "vw_partitions vw" p] Some s0(2) by simp
      show ?thesis
        by (rule exI [of _ "(ps_low s0, ps_high s0)"]) (use marks moved stored guards Some after in \<open>simp add: settled_def\<close>)
    qed
  qed
qed

lemma override_recorded:
  "map_of (cp_metadata (kafka_properties sk protocol (move_offsets topic d))) ''ddi.kafka.offsetOverride''
     = map_option JStr (dc_override_reason d)"
  by (simp add: kafka_properties_def move_offsets_def Let_def split: option.splits)

text \<open>What a settled partition comes to in the outcome an operator is shown.\<close>

lemma settled_as_shown:
  assumes "settled env req vw d hist app_id n p held" and "bt_wf (dc_assert d)"
    and moved: "oc_moved out = moved_map (vw_partitions vw) (dc_assert d)"
    and rewound: "dc_backward d \<Longrightarrow> oc_checkpointed out"
    and seen: "oc_checkpointed out \<Longrightarrow> verify_after_checkpoint (ta_reopen env) app_id (dc_assert d) = Inr ()"
  defines "before \<equiv> offsets_at hist app_id (n - 1) p" and "after \<equiv> offsets_at hist app_id n p"
  shows "(bt_get (oc_moved out) p \<noteq> None \<longrightarrow> ta_watermarks env p = Inr held)
    \<and> moved_as_asked req p held before after
    \<and> (\<forall>b a. bt_get (oc_moved out) p = Some (b, a) \<longrightarrow> b = before \<and> after = Some a)
    \<and> (\<forall>nxt. bt_get (rq_moves req) p = Some nxt \<and> 0 < nxt \<and> nxt < next_offset before \<longrightarrow>
         oc_checkpointed out \<and> (\<exists>h' asked m. ta_reopen env = Inr h' \<and> read_txns h' asked = Inr m
           \<and> stored_offset m app_id p = Some (nxt - 1)))
    \<and> (\<forall>nxt. bt_get (rq_moves req) p = Some nxt \<and> over_held before (fst held) nxt \<and> 0 < nxt \<longrightarrow>
         map_of (cp_metadata (kafka_properties sink protocol (move_offsets topic d))) ''ddi.kafka.offsetOverride''
           = map_option JStr (rq_acknowledge_skip req))"
proof -
  from assms(1) have c: "bt_get (dc_assert d) p \<noteq> None \<longrightarrow> ta_watermarks env p = Inr held"
    and m: "moved_as_asked req p held before after"
    and x: "\<And>x. bt_get (dc_assert d) p = Some x \<Longrightarrow> after = Some x \<and> bt_get (oc_moved out) p = Some (before, x)"
    and g: "\<And>nxt. bt_get (rq_moves req) p = Some nxt \<Longrightarrow> nxt \<noteq> 0 \<Longrightarrow> bt_get (dc_assert d) p = Some (nxt - 1)
        \<and> (nxt < next_offset before \<longrightarrow> dc_backward d)
        \<and> (over_held before (fst held) nxt \<longrightarrow> dc_override_reason d = rq_acknowledge_skip req)"
    unfolding settled_def moved before_def after_def by blast+
  have none: "bt_get (dc_assert d) p \<noteq> None" if "bt_get (oc_moved out) p \<noteq> None"
    using that moved_map_get [OF assms(2)] by (auto simp: moved)
  have backwards: "oc_checkpointed out \<and> (\<exists>h' asked m. ta_reopen env = Inr h' \<and> read_txns h' asked = Inr m
      \<and> stored_offset m app_id p = Some (nxt - 1))"
    if "bt_get (rq_moves req) p = Some nxt" "0 < nxt" "nxt < next_offset before" for nxt
    using g [OF that(1)] that(2,3) verify_after_checkpoint_Inr [OF seen] rewound by blast
  show ?thesis
    using c m x none backwards g override_recorded [of sink protocol topic d]
    by (intro conjI allI impI) (auto dest: x)
qed

text \<open>
  C29. An operator's move does what was asked and no more, whatever else is written meanwhile. When
  \<open>set_offsets\<close> returns, its commit left every partition that was named reading on from the offset
  asked for and every other one, and the takeover marker, as they were just before it. A named partition
  went past nothing the topic does not have; back only with leave, only to what the topic still holds, and
  then the commit was checkpointed and the offset read back from the table; over messages the topic still
  holds only with a reason, which the commit records. What is reported as moved is what moved.
\<close>

theorem set_offsets_moves_as_asked:
  assumes targets: "\<forall>k h. ta_open (envs k) = Inr h \<longrightarrow> (\<exists>v. handle_ok h hist v \<and> writes_land (ta_ops (envs k)) hist h v)"
    and ids: "\<forall>k topics. ta_metadata (envs k) = Inr topics \<longrightarrow> (\<forall>p \<in> set (topic_partitions topic topics). 0 \<le> p \<and> p < 2 ^ 31)"
    and "offsets_ok hist" and "bt_wf (rq_moves req)"
    and run: "set_offsets envs app_id target_size topic req = Inr out"
  shows "\<exists>n k props table rows h. 0 < n \<and> k < set_offsets_attempts \<and> h_version table = Some n \<and> oc_version out = wrap_i64 (int n)
    \<and> do_write (ta_ops (envs k)) h rows props (sk_target_file_size (sink_new app_id target_size)) = Inr table
    \<and> newest_version hist (takeover_marker_app_id app_id) n = newest_version hist (takeover_marker_app_id app_id) (n - 1)
    \<and> (\<forall>p. 0 \<le> p \<and> p < 2 ^ 31 \<longrightarrow>
        (let before = offsets_at hist app_id (n - 1) p; after = offsets_at hist app_id n p
         in \<exists>held. (bt_get (oc_moved out) p \<noteq> None \<longrightarrow> ta_watermarks (envs k) p = Inr held)
           \<and> moved_as_asked req p held before after
           \<and> (\<forall>b a. bt_get (oc_moved out) p = Some (b, a) \<longrightarrow> b = before \<and> after = Some a)
           \<and> (\<forall>nxt. bt_get (rq_moves req) p = Some nxt \<and> 0 < nxt \<and> nxt < next_offset before \<longrightarrow>
                oc_checkpointed out \<and> (\<exists>h' asked m. ta_reopen (envs k) = Inr h' \<and> read_txns h' asked = Inr m
                  \<and> stored_offset m app_id p = Some (nxt - 1)))
           \<and> (\<forall>nxt. bt_get (rq_moves req) p = Some nxt \<and> over_held before (fst held) nxt \<and> 0 < nxt \<longrightarrow>
                map_of (cp_metadata props) ''ddi.kafka.offsetOverride'' = map_option JStr (rq_acknowledge_skip req))))"
proof -
  from run [unfolded set_offsets_def] obtain k vw d none table where k: "k \<in> set [0..<set_offsets_attempts]"
    and vw: "view_of (envs k) app_id topic = Inr vw" and d: "decide (vw_partitions vw) (vw_era vw) req = Inr d"
    and commit: "commit_kafka (ta_ops (envs k)) (sink_new app_id target_size) (vw_target vw) [none] (move_offsets topic d) = Inr table"
    and out: "oc_version out = (case h_version table of None \<Rightarrow> - 1 | Some v \<Rightarrow> wrap_i64 (int v))"
      "oc_moved out = moved_map (vw_partitions vw) (dc_assert d)" "dc_backward d \<Longrightarrow> oc_checkpointed out"
      "oc_checkpointed out \<Longrightarrow> verify_after_checkpoint (ta_reopen (envs k)) app_id (dc_assert d) = Inr ()"
    by (rule set_offsets_from_Inr) blast
  from view_of_Inr [OF vw] have "ta_open (envs k) = Inr (vw_target vw)" by metis
  with targets obtain v where h: "handle_ok (vw_target vw) hist v"
    and lands: "writes_land (ta_ops (envs k)) hist (vw_target vw) v" by blast
  let ?props = "kafka_properties (sink_new app_id target_size) (table_protocol (ta_ops (envs k)) (vw_target vw)) (move_offsets topic d)"
  have w: "do_write (ta_ops (envs k)) (vw_target vw) [none] ?props (sk_target_file_size (sink_new app_id target_size)) = Inr table"
    using commit by (auto simp: commit_kafka_def sink_write_def split: sum.splits)
  show ?thesis
  proof (rule move_lands [OF vw d commit h lands spec [OF ids] assms(3,4)])
    fix n assume n: "v < n" "h_version table = Some n" "bt_wf (dc_assert d)"
      "newest_version hist (takeover_marker_app_id app_id) n = newest_version hist (takeover_marker_app_id app_id) (n - 1)"
      and parts: "\<And>p. 0 \<le> p \<Longrightarrow> p < 2 ^ 31 \<Longrightarrow> \<exists>held. settled (envs k) req vw d hist app_id n p held"
    note shown = settled_as_shown [OF _ n(3) out(2-4), where sink = "sink_new app_id target_size" and topic = topic
        and protocol = "table_protocol (ta_ops (envs k)) (vw_target vw)"]
    show ?thesis unfolding Let_def
      apply (rule exI [of _ n], rule exI [of _ k], rule exI [of _ ?props], rule exI [of _ table], rule exI [of _ "[none]"],
        rule exI [of _ "vw_target vw"])
      apply (intro conjI allI impI)
            apply (use n w k out(1) in auto)[6]
      by (elim conjE, drule (1) parts, erule exE, rule exI, rule shown)
  qed
qed

text \<open>Partition 0 stands at 7 and the topic holds 0 to 20; an operator moves it to 10, over 8 and 9.\<close>

definition example_move :: kafka_offsets where
  "example_move = move_offsets ''t'' \<lparr>dc_assert = [(0, 9)], dc_override_reason = Some ''poison'', dc_backward = False\<rparr>"

definition example_attempt :: "unit attempt_env" where
  "example_attempt =
     \<lparr>ta_metadata = Inr [(''t'', False, [0])], ta_open = Inr (run_handle 2 True), ta_watermarks = (\<lambda>_. Inr (0, 20)),
      ta_empty = (\<lambda>_. Inr ()),
      ta_ops = \<lparr>table_version = h_version, table_protocol = (\<lambda>_. None), table_txn = (\<lambda>_ _. None),
        new_session = (\<lambda>_. Inr ()),
        do_write = (\<lambda>h rows props size. if h_version h = Some 2 \<and> props = kafka_properties example_sink None example_move
          then Inr (run_handle 3 True) else Inl (DeltaError (DK_Transaction (TE_CommitConflict ConcurrentTransaction)) [])),
        prepare_merge = (\<lambda>_ _ _. Inr ()), do_merge = (\<lambda>_ _ _ _. Inl (DeltaError DK_KernelError [])),
        num_rows = (\<lambda>_. 0), empty_like = id\<rparr>,
      ta_create_checkpoint = (\<lambda>_. Inr ()), ta_reopen = Inl E_Io\<rparr>"

definition example_request :: request where
  "example_request = \<lparr>rq_moves = [(0, 10)], rq_reassert = False, rq_acknowledge_skip = Some ''poison'', rq_allow_replay = False\<rparr>"

lemma example_attempt_lands:
  assumes "handle_ok h (run_history example_move o4) v"
  shows "writes_land (ta_ops example_attempt) (run_history example_move o4) h v"
  unfolding writes_land_def
proof (intro allI impI)
  fix rows props fs h'
  assume "do_write (ta_ops example_attempt) h rows props fs = Inr h'"
  then have "h_version h = Some 2" "props = kafka_properties example_sink None example_move" "h' = run_handle 3 True"
    by (auto simp: example_attempt_def split: if_splits)
  moreover have "v = 2" using assms \<open>h_version h = Some 2\<close> by (simp add: handle_ok_def)
  moreover have "commit_writes (kafka_properties example_sink None example_move) (run_history example_move o4 3)"
    by (simp add: run_history_def commit_writes_lines_of)
  ultimately show "\<exists>n > v. handle_ok h' (run_history example_move o4) n \<and> commit_writes props (run_history example_move o4 n)
      \<and> (\<forall>u. v < u \<and> u < n \<longrightarrow> ids_of (run_history example_move o4 u) \<inter> ids_of (run_history example_move o4 n) = {})"
    using run_handle_ok by (intro exI [of _ 3]) auto
qed

lemma example_offsets_ok: "offsets_ok (run_history example_move example_move)"
proof -
  have "- (2 ^ 63) \<le> ta_version t \<and> ta_version t < 2 ^ 63 - 1"
    if "t \<in> set (txns_of (run_history example_move example_move v))" for t v
  proof -
    have "txns_of (lines_of (kafka_properties example_sink None example_move)) = [\<lparr>ta_app_id = txn_app_id ''a'' 0, ta_version = 9\<rparr>]"
      using kafka_commit_txns [OF commit_writes_lines_of, of example_sink None example_move]
      by (simp add: example_move_def move_offsets_def example_sink_def sink_new_def)
    moreover have "v = 0 \<or> v = 1 \<or> v = 2 \<or> 2 < v" by auto
    ultimately show ?thesis using that example_history_at
      by (auto simp: run_history_def txns_of_def List.map_filter_simps split: if_splits)
  qed
  then show ?thesis by (auto simp: offsets_ok_def)
qed

lemma example_view:
  "\<exists>vw. view_of example_attempt ''a'' ''t'' = Inr vw \<and> vw_target vw = run_handle 2 True \<and> vw_era vw = EraKdi
     \<and> vw_partitions vw = [\<lparr>ps_partition = 0, ps_stored = Some 7, ps_low = 0, ps_high = 20\<rparr>]"
proof -
  obtain m where m: "read_txns (run_handle 2 True) [''a-0'', ''a.ddi''] = Inr m"
    by (simp add: read_log_defs run_handle_fields run_newest_checkpoint)
  have "\<exists>s. bt_get m ''a-0'' = Some s \<and> ts_version s = Some 7" "\<exists>s. bt_get m ''a.ddi'' = Some s \<and> ts_version s = None"
    using read_txns_version [OF run_handle_ok m, of "''a-0''" example_move example_move]
      read_txns_version [OF run_handle_ok m, of "''a.ddi''" example_move example_move] run_newest by simp_all
  then obtain s s' where g: "bt_get m ''a-0'' = Some s" "ts_version s = Some 7" "bt_get m ''a.ddi'' = Some s'" "ts_version s' = None"
    by blast
  have "partition_of ''a'' ''a-0'' = Some 0" using partition_of_txn_app_id [of 0 "''a''"] by (simp add: run_ids)
  with map_of_SomeD [OF g(1)] g have "era ''a'' m = EraKdi"
    by (auto simp: era_def run_ids list_ex_iff)
  with m g show ?thesis
    by (simp add: view_of_def example_attempt_def topic_partitions_def run_ids stored_offset_def)
qed

lemma example_set_offsets:
  "\<exists>out. set_offsets (\<lambda>_. example_attempt) ''a'' 0 ''t'' example_request = Inr out \<and> oc_version out = 3
     \<and> oc_moved out = [(0, Some 7, 9)]"
proof -
  obtain vw where v: "view_of example_attempt ''a'' ''t'' = Inr vw" "vw_target vw = run_handle 2 True" "vw_era vw = EraKdi"
    "vw_partitions vw = [\<lparr>ps_partition = 0, ps_stored = Some 7, ps_low = 0, ps_high = 20\<rparr>]" using example_view by blast
  have d: "decide (vw_partitions vw) (vw_era vw) example_request
      = Inr \<lparr>dc_assert = [(0, 9)], dc_override_reason = Some ''poison'', dc_backward = False\<rparr>"
    by (simp add: v decide_def example_request_def decide_move_def bt_collect_def bt_extend_def i64_add_exact i64_def)
  have c: "commit_kafka (ta_ops example_attempt) (sink_new ''a'' 0) (run_handle 2 True) [()] example_move = Inr (run_handle 3 True)"
    by (simp add: commit_kafka_def sink_write_def example_attempt_def example_sink_def run_handle_def)
  have empty: "ta_empty example_attempt h = Inr ()" for h by (simp add: example_attempt_def)
  show ?thesis
    using v d c [unfolded example_move_def] run_handle_fields(1) [of 3 True]
    by (simp add: empty wrap_i64_id [of 3, unfolded i64_def] set_offsets_def set_offsets_attempts_def upt_rec moved_map_def bt_collect_def bt_extend_def)
qed

theorem set_offsets_moves_as_asked_witness:
  "\<exists>out props h rows table. set_offsets (\<lambda>_. example_attempt) ''a'' 0 ''t'' example_request = Inr out \<and> oc_version out = 3
     \<and> do_write (ta_ops example_attempt) h rows props (sk_target_file_size (sink_new ''a'' 0)) = Inr table
     \<and> offsets_at (run_history example_move example_move) ''a'' 2 0 = Some 7
     \<and> offsets_at (run_history example_move example_move) ''a'' 3 0 = Some 9"
proof -
  let ?hist = "run_history example_move example_move"
  obtain out where o: "set_offsets (\<lambda>_. example_attempt) ''a'' 0 ''t'' example_request = Inr out" "oc_version out = 3"
    "oc_moved out = [(0, Some 7, 9)]" using example_set_offsets by blast
  have t: "\<exists>v. handle_ok h ?hist v \<and> writes_land (ta_ops example_attempt) ?hist h v" if "ta_open example_attempt = Inr h" for h
  proof -
    have "handle_ok h ?hist 2" using that run_handle_ok by (auto simp: example_attempt_def)
    with example_attempt_lands show ?thesis by blast
  qed
  then have t: "\<forall>(k :: nat) h. ta_open example_attempt = Inr h \<longrightarrow> (\<exists>v. handle_ok h ?hist v \<and> writes_land (ta_ops example_attempt) ?hist h v)"
    by blast
  have i: "\<forall>(k :: nat) topics. ta_metadata example_attempt = Inr topics \<longrightarrow>
      (\<forall>p \<in> set (topic_partitions ''t'' topics). 0 \<le> p \<and> p < 2 ^ 31)"
    by (auto simp: example_attempt_def topic_partitions_def)
  have wf: "bt_wf (rq_moves example_request)" by (simp add: example_request_def bt_wf_def)
  from set_offsets_moves_as_asked [OF t i example_offsets_ok wf o(1)] show ?thesis
  proof (elim exE conjE)
    fix n k props table rows h
    assume n: "h_version table = Some n"
      and w: "do_write (ta_ops example_attempt) h rows props (sk_target_file_size (sink_new ''a'' 0)) = Inr table"
      and m: "\<forall>p. 0 \<le> p \<and> p < 2 ^ 31 \<longrightarrow>
        (let before = offsets_at ?hist ''a'' (n - 1) p; after = offsets_at ?hist ''a'' n p
         in \<exists>held. (bt_get (oc_moved out) p \<noteq> None \<longrightarrow> ta_watermarks example_attempt p = Inr held)
           \<and> moved_as_asked example_request p held before after
           \<and> (\<forall>b a. bt_get (oc_moved out) p = Some (b, a) \<longrightarrow> b = before \<and> after = Some a)
           \<and> (\<forall>nxt. bt_get (rq_moves example_request) p = Some nxt \<and> 0 < nxt \<and> nxt < next_offset before \<longrightarrow>
                oc_checkpointed out \<and> (\<exists>h' asked m. ta_reopen example_attempt = Inr h' \<and> read_txns h' asked = Inr m
                  \<and> stored_offset m ''a'' p = Some (nxt - 1)))
           \<and> (\<forall>nxt. bt_get (rq_moves example_request) p = Some nxt \<and> over_held before (fst held) nxt \<and> 0 < nxt \<longrightarrow>
                map_of (cp_metadata props) ''ddi.kafka.offsetOverride'' = map_option JStr (rq_acknowledge_skip example_request)))"
    from w have "table = run_handle 3 True" by (auto simp: example_attempt_def split: if_splits)
    with n have "n = 3" by (simp add: run_handle_fields)
    moreover have "bt_get (oc_moved out) 0 = Some (Some 7, 9)" using o(3) by simp
    ultimately have "offsets_at ?hist ''a'' 2 0 = Some 7 \<and> offsets_at ?hist ''a'' 3 0 = Some 9"
      using m [rule_format, of 0] by (simp add: Let_def) (elim exE conjE, simp)
    with o w show ?thesis by blast
  qed
qed

end
