(* ===== verification/Json_Text.thy ===== *)
theory Json_Text
  imports Stats
begin

text \<open>
  \<open>src/transform/jsonval.rs\<close>: JSON text read and written as Trino does it. A \<open>str\<close> is here the list of
  its characters' code points (\<open>char_indices\<close> without the indices, which only messages use). Reading a
  double from text and the shortest digits of one (\<open>str::parse\<close> and \<open>{:e}\<close> of the standard library) are
  the fields of \<open>float_text\<close>. The loops over members and elements have as fuel
  the characters left, of which every round takes one; nesting is bounded by the code itself.
\<close>

type_synonym chars = "nat list"

definition codes :: "string \<Rightarrow> chars" where
  "codes s = map of_char s"

definition is_scalar :: "nat \<Rightarrow> bool" where
  "is_scalar c \<longleftrightarrow> c < 0x110000 \<and> \<not> (0xD800 \<le> c \<and> c < 0xE000)"

section \<open>Values\<close>

datatype jval =
    VNull
  | VBool bool
  | VNumber chars
  | VString chars
  | VArray "jval list"
  | VObject "(chars \<times> jval) list"

fun is_container :: "jval \<Rightarrow> bool" where
  "is_container (VArray _) \<longleftrightarrow> True"
| "is_container (VObject _) \<longleftrightarrow> True"
| "is_container _ \<longleftrightarrow> False"

fun jval_as_array :: "jval \<Rightarrow> jval list option" where
  "jval_as_array (VArray a) = Some a"
| "jval_as_array _ = None"

fun jval_get :: "chars \<Rightarrow> jval \<Rightarrow> jval option" where
  "jval_get key (VObject members) = map_option snd (List.find (\<lambda>(k, v). k = key) (rev members))"
| "jval_get key _ = None"

definition jval_index :: "nat \<Rightarrow> jval \<Rightarrow> jval option" where
  "jval_index i v = Option.bind (jval_as_array v) (\<lambda>a. if i < length a then Some (a ! i) else None)"

fun scalar_text :: "jval \<Rightarrow> chars option" where
  "scalar_text (VBool b) = Some (codes (if b then ''true'' else ''false''))"
| "scalar_text (VNumber n) = Some n"
| "scalar_text (VString s) = Some s"
| "scalar_text _ = None"

fun json_size :: "jval \<Rightarrow> nat" where
  "json_size (VArray a) = length a"
| "json_size (VObject o') = length o'"
| "json_size _ = 0"

section \<open>Reading\<close>

datatype json_error =
    JE_After | JE_End | JE_Unexpected nat | JE_Expected nat | JE_Literal | JE_Depth | JE_Key | JE_Separator
  | JE_Unterminated | JE_Escape | JE_Surrogate | JE_Control nat | JE_Number | JE_Fuel

type_synonym 'a parsed = "json_error + 'a \<times> chars"

definition max_depth :: nat where
  "max_depth = 512"

definition is_ws :: "nat \<Rightarrow> bool" where
  "is_ws c \<longleftrightarrow> c = 0x20 \<or> c = 0x09 \<or> c = 0x0A \<or> c = 0x0D"

definition skip_ws :: "chars \<Rightarrow> chars" where
  "skip_ws cs = dropWhile is_ws cs"

fun expect :: "nat \<Rightarrow> chars \<Rightarrow> json_error + chars" where
  "expect want [] = Inl JE_End"
| "expect want (c # cs) = (if c = want then Inr cs else Inl (JE_Expected want))"

fun literal :: "chars \<Rightarrow> jval \<Rightarrow> chars \<Rightarrow> jval parsed" where
  "literal [] v cs = Inr (v, cs)"
| "literal (w # ws) v [] = Inl JE_Literal"
| "literal (w # ws) v (c # cs) = (if c = w then literal ws v cs else Inl JE_Literal)"

definition hex_value :: "nat \<Rightarrow> nat option" where
  "hex_value c =
     (if 0x30 \<le> c \<and> c \<le> 0x39 then Some (c - 0x30)
      else if 0x61 \<le> c \<and> c \<le> 0x66 then Some (c - 0x61 + 10)
      else if 0x41 \<le> c \<and> c \<le> 0x46 then Some (c - 0x41 + 10)
      else None)"

text \<open>\<open>n\<close> hexadecimal digits after \<open>v\<close>; four of them fill a \<open>u16\<close> without overflow.\<close>

fun hex_digits :: "nat \<Rightarrow> nat \<Rightarrow> chars \<Rightarrow> nat parsed" where
  "hex_digits 0 v cs = Inr (v, cs)"
| "hex_digits (Suc n) v [] = Inl JE_Escape"
| "hex_digits (Suc n) v (c # cs) =
     (case hex_value c of None \<Rightarrow> Inl JE_Escape | Some d \<Rightarrow> hex_digits n (v * 16 + d) cs)"

definition hex4 :: "chars \<Rightarrow> nat parsed" where
  "hex4 cs = hex_digits 4 0 cs"

text \<open>What follows a backslash.\<close>

definition unicode_escape :: "chars \<Rightarrow> nat parsed" where
  "unicode_escape cs =
     res_bind (hex4 cs) (\<lambda>(hi, rest).
       if 0xD800 \<le> hi \<and> hi < 0xDC00 then
         (case rest of
            b # u # rest' \<Rightarrow>
              if b = 0x5C \<and> u = 0x75 then
                res_bind (hex4 rest') (\<lambda>(low, rest'').
                  if 0xDC00 \<le> low \<and> low < 0xE000
                  then Inr (0x10000 + (hi - 0xD800) * 0x400 + (low - 0xDC00), rest'')
                  else Inl JE_Surrogate)
              else Inl JE_Surrogate
          | _ \<Rightarrow> Inl JE_Surrogate)
       else if is_scalar hi then Inr (hi, rest) else Inl JE_Surrogate)"

fun short_escape :: "nat \<Rightarrow> nat option" where
  "short_escape e =
     (if e = 0x22 then Some 0x22 else if e = 0x5C then Some 0x5C else if e = 0x2F then Some 0x2F
      else if e = 0x62 then Some 0x08 else if e = 0x66 then Some 0x0C else if e = 0x6E then Some 0x0A
      else if e = 0x72 then Some 0x0D else if e = 0x74 then Some 0x09 else None)"

fun escape :: "chars \<Rightarrow> nat parsed" where
  "escape [] = Inl JE_Unterminated"
| "escape (e # cs) =
     (case short_escape e of
        Some c \<Rightarrow> Inr (c, cs)
      | None \<Rightarrow> if e = 0x75 then unicode_escape cs else Inl JE_Escape)"

lemma hex_digits_shorter: "hex_digits n v cs = Inr (r, rest) \<Longrightarrow> length rest + n = length cs"
  by (induction n v cs rule: hex_digits.induct) (auto split: option.splits)

lemma escape_shorter:
  assumes "escape cs = Inr (c, rest)"
  shows "length rest < length cs"
proof -
  have hex4: "hex4 xs = Inr (r, ys) \<Longrightarrow> length ys < length xs" for xs r ys
    using hex_digits_shorter [of 4 0 xs r ys] by (simp add: hex4_def)
  have "unicode_escape xs = Inr (r, ys) \<Longrightarrow> length ys < length xs" for xs r ys
    by (auto simp: unicode_escape_def split: if_splits list.splits dest!: hex4)
  with assms show ?thesis
    by (cases cs) (auto split: option.splits if_splits simp del: short_escape.simps intro: less_SucI)
qed

text \<open>The characters after the opening quote.\<close>

function string_body :: "chars \<Rightarrow> chars \<Rightarrow> chars parsed" where
  "string_body out [] = Inl JE_Unterminated"
| "string_body out (c # cs) =
     (if c = 0x22 then Inr (out, cs)
      else if c = 0x5C then
        (case escape cs of Inl e \<Rightarrow> Inl e | Inr (ch, rest) \<Rightarrow> string_body (out @ [ch]) rest)
      else if c < 0x20 then Inl (JE_Control c)
      else string_body (out @ [c]) cs)"
  by pat_completeness auto

termination string_body
  by (relation "measure (length \<circ> snd)") (auto dest: escape_shorter)

definition json_string :: "chars \<Rightarrow> chars parsed" where
  "json_string cs = res_bind (expect 0x22 cs) (string_body [])"

definition is_dec :: "nat \<Rightarrow> bool" where
  "is_dec c \<longleftrightarrow> 0x30 \<le> c \<and> c \<le> 0x39"

definition starts :: "nat \<Rightarrow> chars \<Rightarrow> bool" where
  "starts c cs = (case cs of [] \<Rightarrow> False | d # _ \<Rightarrow> d = c)"

definition starts_dec :: "chars \<Rightarrow> bool" where
  "starts_dec cs = (case cs of [] \<Rightarrow> False | d # _ \<Rightarrow> is_dec d)"

text \<open>The parts of a number: what each takes, and what is left.\<close>

definition int_part :: "chars \<Rightarrow> chars parsed" where
  "int_part cs =
     (if starts 0x30 cs then
        (if starts_dec (tl cs) then Inl JE_Number else Inr ([0x30], tl cs))
      else if takeWhile is_dec cs = [] then Inl JE_Number
      else Inr (takeWhile is_dec cs, dropWhile is_dec cs))"

definition frac_part :: "chars \<Rightarrow> chars parsed" where
  "frac_part cs =
     (if starts 0x2E cs then
        (if takeWhile is_dec (tl cs) = [] then Inl JE_Number
         else Inr (0x2E # takeWhile is_dec (tl cs), dropWhile is_dec (tl cs)))
      else Inr ([], cs))"

definition exp_part :: "chars \<Rightarrow> chars parsed" where
  "exp_part cs =
     (if starts 0x65 cs \<or> starts 0x45 cs then
        let sign = (if starts 0x2B (tl cs) \<or> starts 0x2D (tl cs) then [hd (tl cs)] else []);
            ds = drop (length sign) (tl cs)
        in if takeWhile is_dec ds = [] then Inl JE_Number
           else Inr (hd cs # sign @ takeWhile is_dec ds, dropWhile is_dec ds)
      else Inr ([], cs))"

definition json_number :: "chars \<Rightarrow> jval parsed" where
  "json_number cs =
     (let sign = (if starts 0x2D cs then [0x2D] else [])
      in res_bind (int_part (drop (length sign) cs)) (\<lambda>(i, cs1).
         res_bind (frac_part cs1) (\<lambda>(f, cs2).
         res_bind (exp_part cs2) (\<lambda>(e, cs3).
         Inr (VNumber (sign @ i @ f @ e), cs3)))))"

definition json_scalar :: "chars \<Rightarrow> jval parsed" where
  "json_scalar cs =
     (case cs of
        [] \<Rightarrow> Inl JE_End
      | c # _ \<Rightarrow>
          if c = 0x22 then res_bind (json_string cs) (\<lambda>(s, rest). Inr (VString s, rest))
          else if c = 0x74 then literal (codes ''true'') (VBool True) cs
          else if c = 0x66 then literal (codes ''false'') (VBool False) cs
          else if c = 0x6E then literal (codes ''null'') VNull cs
          else if c = 0x2D \<or> is_dec c then json_number cs
          else Inl (JE_Unexpected c))"

text \<open>The loops over members and elements, \<open>val\<close> reading a value one level deeper.\<close>

fun json_members :: "(chars \<Rightarrow> jval parsed) \<Rightarrow> nat \<Rightarrow> (chars \<times> jval) list \<Rightarrow> chars \<Rightarrow> jval parsed" where
  "json_members val 0 ms cs = Inl JE_Fuel"
| "json_members val (Suc f) ms cs =
     (if skip_ws cs = [] then Inl JE_End
      else if \<not> starts 0x22 (skip_ws cs) then Inl JE_Key
      else res_bind (json_string (skip_ws cs)) (\<lambda>(key, cs1).
           res_bind (expect 0x3A (skip_ws cs1)) (\<lambda>cs2.
           res_bind (val (skip_ws cs2)) (\<lambda>(v, cs3).
             (case skip_ws cs3 of
                [] \<Rightarrow> Inl JE_End
              | c # cs4 \<Rightarrow>
                  if c = 0x2C then json_members val f (ms @ [(key, v)]) cs4
                  else if c = 0x7D then Inr (VObject (ms @ [(key, v)]), cs4)
                  else Inl JE_Separator)))))"

fun json_items :: "(chars \<Rightarrow> jval parsed) \<Rightarrow> nat \<Rightarrow> jval list \<Rightarrow> chars \<Rightarrow> jval parsed" where
  "json_items val 0 vs cs = Inl JE_Fuel"
| "json_items val (Suc f) vs cs =
     res_bind (val (skip_ws cs)) (\<lambda>(v, cs1).
       (case skip_ws cs1 of
          [] \<Rightarrow> Inl JE_End
        | c # cs2 \<Rightarrow>
            if c = 0x2C then json_items val f (vs @ [v]) cs2
            else if c = 0x5D then Inr (VArray (vs @ [v]), cs2)
            else Inl JE_Separator))"

definition json_object :: "(chars \<Rightarrow> jval parsed) \<Rightarrow> chars \<Rightarrow> jval parsed" where
  "json_object val cs =
     res_bind (expect 0x7B cs) (\<lambda>cs1.
       if starts 0x7D (skip_ws cs1) then Inr (VObject [], tl (skip_ws cs1))
       else json_members val (length cs) [] (skip_ws cs1))"

definition json_array :: "(chars \<Rightarrow> jval parsed) \<Rightarrow> chars \<Rightarrow> jval parsed" where
  "json_array val cs =
     res_bind (expect 0x5B cs) (\<lambda>cs1.
       if starts 0x5D (skip_ws cs1) then Inr (VArray [], tl (skip_ws cs1))
       else json_items val (length cs) [] (skip_ws cs1))"

text \<open>\<open>left\<close> is how many levels deeper \<open>enter\<close> still allows: \<open>max_depth - depth\<close>.\<close>

fun json_value :: "nat \<Rightarrow> chars \<Rightarrow> jval parsed" where
  "json_value 0 cs = (if starts 0x7B cs \<or> starts 0x5B cs then Inl JE_Depth else json_scalar cs)"
| "json_value (Suc left) cs =
     (if starts 0x7B cs then json_object (json_value left) cs
      else if starts 0x5B cs then json_array (json_value left) cs
      else json_scalar cs)"

definition json_parse :: "chars \<Rightarrow> json_error + jval" where
  "json_parse cs =
     res_bind (json_value max_depth (skip_ws cs)) (\<lambda>(v, rest).
       if skip_ws rest = [] then Inr v else Inl JE_After)"

section \<open>Java's spelling of numbers\<close>

record float_text =
  ft_parse :: "chars \<Rightarrow> f64 option"
  ft_sci :: "f64 \<Rightarrow> chars"

lemma size_member: "(k, v) \<in> set o' \<Longrightarrow> size v < Suc (size_list (size_prod (\<lambda>_. 0) size) o')"
  by (induction o') auto

lemma size_element: "x \<in> set xs \<Longrightarrow> size x < Suc (size_list size xs)"
  by (induction xs) auto

text \<open>Equality as a value: numbers compare by value where both parse.\<close>

function (sequential) same_value :: "float_text \<Rightarrow> jval \<Rightarrow> jval \<Rightarrow> bool" where
  "same_value ft (VNumber a) (VNumber b) \<longleftrightarrow>
     (case (ft_parse ft a, ft_parse ft b) of
        (Some x, Some y) \<Rightarrow> f64_partial_cmp x y = Some Equal
      | _ \<Rightarrow> a = b)"
| "same_value ft (VArray a) (VArray b) \<longleftrightarrow>
     length a = length b \<and> list_all (\<lambda>(x, y). same_value ft x y) (zip a b)"
| "same_value ft (VObject a) (VObject b) \<longleftrightarrow>
     length a = length b \<and> list_all (\<lambda>(k, v). list_ex (\<lambda>(k2, v2). k = k2 \<and> same_value ft v v2) b) a"
| "same_value ft a b \<longleftrightarrow> a = b"
  by pat_completeness auto

termination same_value
  by (relation "measure (\<lambda>(ft, a, b). size a)") (auto dest: set_zip_leftD size_member size_element)

definition dec_value :: "chars \<Rightarrow> nat" where
  "dec_value ds = foldl (\<lambda>v c. 10 * v + (c - 0x30)) 0 ds"

text \<open>\<open>str::parse::<i32>\<close>: an optional sign and digits, in range.\<close>

definition parse_i32 :: "chars \<Rightarrow> int option" where
  "parse_i32 cs =
     (let negative = starts 0x2D cs; ds = (if negative \<or> starts 0x2B cs then tl cs else cs);
          v = (if negative then - int (dec_value ds) else int (dec_value ds))
      in if ds \<noteq> [] \<and> list_all is_dec ds \<and> i32 v then Some v else None)"

definition trim_zeros :: "chars \<Rightarrow> chars" where
  "trim_zeros ds = (case dropWhile (\<lambda>c. c = 0x30) ds of [] \<Rightarrow> [0x30] | ds' \<Rightarrow> ds')"

definition java_bigdecimal :: "bool \<Rightarrow> chars \<Rightarrow> int \<Rightarrow> chars" where
  "java_bigdecimal negative digits scale =
     (let ds = trim_zeros digits;
          precision = int (length ds);
          adjusted = - scale + (precision - 1);
          sign = (if negative \<and> ds \<noteq> [0x30] then [0x2D] else []);
          body =
            (if scale = 0 then ds
             else if scale > 0 \<and> adjusted \<ge> - 6 then
               (if precision > scale
                then take (nat (precision - scale)) ds @ 0x2E # drop (nat (precision - scale)) ds
                else [0x30, 0x2E] @ replicate (nat (scale - precision)) 0x30 @ ds)
             else
               (if tl ds = [] then [hd ds] else hd ds # 0x2E # tl ds) @
               0x45 # (if adjusted \<ge> 0 then 0x2B # codes (show_int adjusted) else codes (show_int adjusted)))
      in sign @ body)"

text \<open>\<open>split_once\<close>: what is before and after the first character with \<open>P\<close>.\<close>

definition split_once :: "(nat \<Rightarrow> bool) \<Rightarrow> chars \<Rightarrow> (chars \<times> chars) option" where
  "split_once P cs =
     (case dropWhile (Not \<circ> P) cs of [] \<Rightarrow> None | _ # rest \<Rightarrow> Some (takeWhile (Not \<circ> P) cs, rest))"

definition java_bigdecimal_text :: "chars \<Rightarrow> chars" where
  "java_bigdecimal_text cs =
     (let negative = starts 0x2D cs; rest = (if negative then tl cs else cs);
          parts = (case split_once (\<lambda>c. c = 0x65 \<or> c = 0x45) rest of
                     None \<Rightarrow> Some (rest, 0)
                   | Some (m, e) \<Rightarrow> map_option (Pair m) (parse_i32 e))
      in case parts of
           None \<Rightarrow> cs
         | Some (mantissa, exponent) \<Rightarrow>
             (case (case split_once (\<lambda>c. c = 0x2E) mantissa of None \<Rightarrow> (mantissa, []) | Some p \<Rightarrow> p) of
                (int_digits, frac) \<Rightarrow>
                  java_bigdecimal negative (int_digits @ frac) (int (length frac) - exponent)))"

definition plain_layout :: "chars \<Rightarrow> int \<Rightarrow> chars" where
  "plain_layout digits exponent =
     (let point = exponent + 1
      in if point \<le> 0 then [0x30, 0x2E] @ replicate (nat (- point)) 0x30 @ digits
         else if nat point \<ge> length digits then digits @ replicate (nat point - length digits) 0x30 @ [0x2E, 0x30]
         else take (nat point) digits @ 0x2E # drop (nat point) digits)"

text \<open>The doubles \<open>1e-3\<close> and \<open>1e7\<close>; \<open>{:e}\<close> is digits with a point after the first, \<open>e\<close>, an exponent.\<close>

definition java_double :: "float_text \<Rightarrow> f64 \<Rightarrow> chars option" where
  "java_double ft v =
     (if f64_is_nan v then Some (codes ''NaN'')
      else if f64_is_infinite v then Some (codes (if f64_negative v then ''-Infinity'' else ''Infinity''))
      else if f64_magnitude v = 0 then Some (codes (if f64_negative v then ''-0.0'' else ''0.0''))
      else
        let sign = (if f64_negative v then [0x2D] else []);
            magnitude = word_of_nat (f64_magnitude v) :: f64
        in Option.bind (split_once (\<lambda>c. c = 0x65) (ft_sci ft magnitude)) (\<lambda>(mantissa, e).
           Option.bind (parse_i32 e) (\<lambda>exponent.
             let digits = filter (\<lambda>c. c \<noteq> 0x2E) mantissa
             in Some (sign @
                  (if 0x3F50624DD2F1A9FC \<le> f64_magnitude v \<and> f64_magnitude v < 0x416312D000000000
                   then plain_layout digits exponent
                   else hd digits # 0x2E # (if tl digits = [] then [0x30] else tl digits)
                          @ 0x45 # codes (show_int exponent))))))"

section \<open>Writing\<close>

datatype numbers = BigDecimal | JavaDouble
datatype members = Verbatim | LastWins | Sorted
datatype generator = Utf8 | Chars

definition number_text :: "float_text \<Rightarrow> numbers \<Rightarrow> chars \<Rightarrow> chars" where
  "number_text ft numbers n =
     (if \<not> list_ex (\<lambda>c. c = 0x2E \<or> c = 0x65 \<or> c = 0x45) n then n
      else case numbers of
             BigDecimal \<Rightarrow> java_bigdecimal_text n
           | JavaDouble \<Rightarrow>
               (case ft_parse ft n of
                  Some v \<Rightarrow> if f64_is_nan v \<or> f64_is_infinite v then n
                            else (case java_double ft v of Some s \<Rightarrow> s | None \<Rightarrow> n)
                | None \<Rightarrow> n))"

definition encode_utf16 :: "nat \<Rightarrow> nat list" where
  "encode_utf16 c =
     (if c < 0x10000 then [c]
      else [0xD800 + (c - 0x10000) div 0x400, 0xDC00 + (c - 0x10000) mod 0x400])"

definition java_units :: "chars \<Rightarrow> nat list" where
  "java_units s = concat (map encode_utf16 s)"

text \<open>\<open>sort_by\<close> with \<open>java_string_cmp\<close>, which compares the UTF-16 units: a stable sort.\<close>

fun assign_slot :: "chars \<Rightarrow> 'v \<Rightarrow> (chars \<times> 'v) list \<Rightarrow> (chars \<times> 'v) list" where
  "assign_slot k v [] = [(k, v)]"
| "assign_slot k v ((k', v') # ps) = (if k' = k then (k', v) # ps else (k', v') # assign_slot k v ps)"

definition last_wins :: "(chars \<times> 'v) list \<Rightarrow> (chars \<times> 'v) list" where
  "last_wins pairs = foldl (\<lambda>seen (k, v). assign_slot k v seen) [] pairs"

definition order_members :: "members \<Rightarrow> (chars \<times> 'v) list \<Rightarrow> (chars \<times> 'v) list" where
  "order_members m pairs =
     (case m of
        Verbatim \<Rightarrow> pairs
      | LastWins \<Rightarrow> last_wins pairs
      | Sorted \<Rightarrow> sort_key (\<lambda>(k, v). java_units k) (last_wins pairs))"

definition hex_upper :: "nat \<Rightarrow> nat" where
  "hex_upper d = (if d < 10 then 0x30 + d else 0x41 + (d - 10))"

text \<open>\<open>\u{:04X}\<close> of a 16-bit unit.\<close>

definition unit_escape :: "nat \<Rightarrow> chars" where
  "unit_escape u =
     [0x5C, 0x75, hex_upper (u div 0x1000), hex_upper (u div 0x100 mod 16), hex_upper (u div 16 mod 16), hex_upper (u mod 16)]"

definition quoted_char :: "generator \<Rightarrow> nat \<Rightarrow> chars" where
  "quoted_char g c =
     (if c = 0x22 then [0x5C, 0x22] else if c = 0x5C then [0x5C, 0x5C]
      else if c = 0x08 then [0x5C, 0x62] else if c = 0x0C then [0x5C, 0x66] else if c = 0x0A then [0x5C, 0x6E]
      else if c = 0x0D then [0x5C, 0x72] else if c = 0x09 then [0x5C, 0x74]
      else if c < 0x20 then unit_escape c
      else if 0xFFFF < c \<and> g = Utf8 then concat (map unit_escape (encode_utf16 c))
      else [c])"

definition push_quoted :: "generator \<Rightarrow> chars \<Rightarrow> chars" where
  "push_quoted g s = 0x22 # concat (map (quoted_char g) s) @ [0x22]"

definition quote :: "chars \<Rightarrow> chars" where
  "quote s = push_quoted Utf8 s"

fun comma_separated :: "chars list \<Rightarrow> chars" where
  "comma_separated [] = []"
| "comma_separated [t] = t"
| "comma_separated (t # u # ts) = t @ 0x2C # comma_separated (u # ts)"

text \<open>What \<open>write\<close> appends: members are ordered by their keys alone, so after their values are written.\<close>

fun json_write :: "float_text \<Rightarrow> members \<Rightarrow> numbers \<Rightarrow> generator \<Rightarrow> jval \<Rightarrow> chars" where
  "json_write ft m n g VNull = codes ''null''"
| "json_write ft m n g (VBool b) = codes (if b then ''true'' else ''false'')"
| "json_write ft m n g (VNumber t) = number_text ft n t"
| "json_write ft m n g (VString s) = push_quoted g s"
| "json_write ft m n g (VArray items) =
     0x5B # comma_separated (map (json_write ft m n g) items) @ [0x5D]"
| "json_write ft m n g (VObject pairs) =
     0x7B # comma_separated (map (\<lambda>(k, t). push_quoted g k @ 0x3A # t)
              (order_members m (map (\<lambda>(k, v). (k, json_write ft m n g v)) pairs))) @ [0x7D]"

section \<open>The order of a Java hash map\<close>

text \<open>\<open>String.hashCode\<close> wraps in 32 bits, and so its bits may be read as a \<open>u32\<close>.\<close>

definition java_string_hash :: "chars \<Rightarrow> 32 word" where
  "java_string_hash s = foldl (\<lambda>h u. h * 31 + word_of_nat u) 0 (java_units s)"

definition spread_hash :: "chars \<Rightarrow> nat" where
  "spread_hash s = unat (java_string_hash s XOR drop_bit 16 (java_string_hash s))"

definition slot_of :: "nat \<Rightarrow> nat \<Rightarrow> nat" where
  "slot_of capacity h = unat ((word_of_nat h :: 64 word) AND word_of_nat (capacity - 1))"

definition push_at :: "nat \<Rightarrow> nat \<Rightarrow> nat list list \<Rightarrow> nat list list" where
  "push_at slot i slots = slots[slot := slots ! slot @ [i]]"

definition resize_slots :: "nat list \<Rightarrow> nat list list \<times> nat \<Rightarrow> nat list list \<times> nat" where
  "resize_slots spread = (\<lambda>(slots, capacity).
     (foldl (\<lambda>nxt i. push_at (slot_of (capacity * 2) (spread ! i)) i nxt)
        (replicate (capacity * 2) []) (concat slots), capacity * 2))"

definition treeify_threshold :: nat where "treeify_threshold = 8"
definition min_treeify_capacity :: nat where "min_treeify_capacity = 64"

definition put_key :: "nat list \<Rightarrow> nat \<Rightarrow> nat list list \<times> nat \<Rightarrow> nat list list \<times> nat" where
  "put_key spread i = (\<lambda>(slots, capacity).
     let slot = slot_of capacity (spread ! i);
         chain_before = length (slots ! slot);
         t1 = (push_at slot i slots, capacity);
         t2 = (if chain_before \<ge> treeify_threshold \<and> capacity < min_treeify_capacity
               then resize_slots spread t1 else t1)
     in if i + 1 > snd t2 * 3 div 4 then resize_slots spread t2 else t2)"

definition java_hashmap_order :: "chars list \<Rightarrow> nat list" where
  "java_hashmap_order keys =
     (let spread = map spread_hash keys
      in concat (fst (foldl (\<lambda>t i. put_key spread i t) (replicate 16 [], 16) [0..<length keys])))"

end
