(* ===== verification/Json_Grammar.thy ===== *)
theory Json_Grammar
  imports Json_Text
begin

text \<open>
  The grammar of RFC 8259 as a relation between values and texts, and that the parser of \<open>Json_Text\<close>
  recognises exactly it, up to the depth it allows.
\<close>

section \<open>The grammar\<close>

definition ws :: "chars \<Rightarrow> bool" where
  "ws w \<longleftrightarrow> list_all is_ws w"

definition digits :: "chars \<Rightarrow> bool" where
  "digits ds \<longleftrightarrow> ds \<noteq> [] \<and> list_all is_dec ds"

definition is_int :: "chars \<Rightarrow> bool" where
  "is_int i \<longleftrightarrow> i = [0x30] \<or> digits i \<and> hd i \<noteq> 0x30"

definition is_frac :: "chars \<Rightarrow> bool" where
  "is_frac f \<longleftrightarrow> f = [] \<or> (\<exists>ds. f = 0x2E # ds \<and> digits ds)"

definition is_exp :: "chars \<Rightarrow> bool" where
  "is_exp e \<longleftrightarrow> e = [] \<or> (\<exists>m s ds. e = m # s @ ds \<and> (m = 0x65 \<or> m = 0x45) \<and> (s = [] \<or> s = [0x2B] \<or> s = [0x2D]) \<and> digits ds)"

definition is_sign :: "chars \<Rightarrow> bool" where
  "is_sign s \<longleftrightarrow> s = [] \<or> s = [0x2D]"

definition is_number :: "chars \<Rightarrow> bool" where
  "is_number n \<longleftrightarrow> (\<exists>s i f e. n = s @ i @ f @ e \<and> is_sign s \<and> is_int i \<and> is_frac f \<and> is_exp e)"

text \<open>Four hexadecimal digits of a unit.\<close>

definition quad :: "nat \<Rightarrow> chars \<Rightarrow> bool" where
  "quad u hs \<longleftrightarrow> (\<exists>a b c d da db dc dd. hs = [a, b, c, d]
     \<and> hex_value a = Some da \<and> hex_value b = Some db \<and> hex_value c = Some dc \<and> hex_value d = Some dd
     \<and> u = ((da * 16 + db) * 16 + dc) * 16 + dd)"

text \<open>One character, however it is spelt between quotes.\<close>

inductive spells_char :: "nat \<Rightarrow> chars \<Rightarrow> bool" where
  as_is: "0x20 \<le> c \<Longrightarrow> c \<noteq> 0x22 \<Longrightarrow> c \<noteq> 0x5C \<Longrightarrow> spells_char c [c]"
| short: "short_escape e = Some c \<Longrightarrow> spells_char c [0x5C, e]"
| unit: "quad u hs \<Longrightarrow> is_scalar u \<Longrightarrow> spells_char u (0x5C # 0x75 # hs)"
| pair: "quad hi hs \<Longrightarrow> 0xD800 \<le> hi \<Longrightarrow> hi < 0xDC00 \<Longrightarrow> quad low ls \<Longrightarrow> 0xDC00 \<le> low \<Longrightarrow> low < 0xE000 \<Longrightarrow>
    spells_char (0x10000 + (hi - 0xD800) * 0x400 + (low - 0xDC00)) (0x5C # 0x75 # hs @ 0x5C # 0x75 # ls)"

inductive spells_string :: "chars \<Rightarrow> chars \<Rightarrow> bool" where
  empty: "spells_string [] []"
| more: "spells_char c t \<Longrightarrow> spells_string s q \<Longrightarrow> spells_string (c # s) (t @ q)"

inductive spells :: "jval \<Rightarrow> chars \<Rightarrow> bool"
  and spells_items :: "jval list \<Rightarrow> chars \<Rightarrow> bool"
  and spells_members :: "(chars \<times> jval) list \<Rightarrow> chars \<Rightarrow> bool" where
  null: "spells VNull (codes ''null'')"
| true: "spells (VBool True) (codes ''true'')"
| false: "spells (VBool False) (codes ''false'')"
| number: "is_number n \<Longrightarrow> spells (VNumber n) n"
| string: "spells_string s q \<Longrightarrow> spells (VString s) (0x22 # q @ [0x22])"
| no_items: "ws w \<Longrightarrow> spells (VArray []) (0x5B # w @ [0x5D])"
| array: "spells_items vs t \<Longrightarrow> spells (VArray vs) (0x5B # t @ [0x5D])"
| no_members: "ws w \<Longrightarrow> spells (VObject []) (0x7B # w @ [0x7D])"
| object: "spells_members ms t \<Longrightarrow> spells (VObject ms) (0x7B # t @ [0x7D])"
| last_item: "ws a \<Longrightarrow> spells v t \<Longrightarrow> ws b \<Longrightarrow> spells_items [v] (a @ t @ b)"
| next_item: "ws a \<Longrightarrow> spells v t \<Longrightarrow> ws b \<Longrightarrow> spells_items vs r \<Longrightarrow> spells_items (v # vs) (a @ t @ b @ 0x2C # r)"
| last_member: "ws a \<Longrightarrow> spells_string k q \<Longrightarrow> ws b \<Longrightarrow> ws c \<Longrightarrow> spells v t \<Longrightarrow> ws d \<Longrightarrow>
    spells_members [(k, v)] (a @ (0x22 # q @ [0x22]) @ b @ 0x3A # c @ t @ d)"
| next_member: "ws a \<Longrightarrow> spells_string k q \<Longrightarrow> ws b \<Longrightarrow> ws c \<Longrightarrow> spells v t \<Longrightarrow> ws d \<Longrightarrow> spells_members ms r \<Longrightarrow>
    spells_members ((k, v) # ms) (a @ (0x22 # q @ [0x22]) @ b @ 0x3A # c @ t @ d @ 0x2C # r)"

text \<open>How deep the containers of a value nest.\<close>

fun nesting :: "jval \<Rightarrow> nat" where
  "nesting (VArray vs) = Suc (Max (insert 0 (set (map nesting vs))))"
| "nesting (VObject ms) = Suc (Max (insert 0 (set (map (\<lambda>(k, v). nesting v) ms))))"
| "nesting _ = 0"

lemma nesting_le [simp]:
  "nesting (VArray vs) \<le> Suc n \<longleftrightarrow> (\<forall>v \<in> set vs. nesting v \<le> n)"
  "nesting (VObject ms) \<le> Suc n \<longleftrightarrow> (\<forall>(k, v) \<in> set ms. nesting v \<le> n)"
  by auto

declare nesting.simps(1,2) [simp del]

section \<open>White space and numbers\<close>

lemma skip_ws_append:
  assumes "ws w" and "case cs of [] \<Rightarrow> True | c # _ \<Rightarrow> \<not> is_ws c"
  shows "skip_ws (w @ cs) = cs"
  using assms by (induction w) (auto simp: ws_def skip_ws_def split: list.splits)

lemma skip_ws_split: "\<exists>w. ws w \<and> cs = w @ skip_ws cs"
  unfolding ws_def skip_ws_def
  by (intro exI [of _ "takeWhile is_ws cs"]) (auto simp: list_all_iff dest: set_takeWhileD)

lemma skip_ws_Cons: "skip_ws cs = c # r \<Longrightarrow> \<not> is_ws c"
  by (auto simp: skip_ws_def dropWhile_eq_Cons_conv)

lemma length_skip_ws: "length (skip_ws cs) \<le> length cs"
  by (simp add: skip_ws_def length_dropWhile_le)

text \<open>What may follow a number without being taken for part of it.\<close>

definition ends_number :: "chars \<Rightarrow> bool" where
  "ends_number r \<longleftrightarrow> (case r of [] \<Rightarrow> True | c # _ \<Rightarrow> \<not> is_dec c \<and> c \<noteq> 0x2E \<and> c \<noteq> 0x65 \<and> c \<noteq> 0x45)"

lemma starts_append [simp]: "starts c (d # cs) \<longleftrightarrow> d = c" "\<not> starts c []"
  by (auto simp: starts_def)

lemma starts_iff: "starts c cs \<longleftrightarrow> (\<exists>r. cs = c # r)"
  by (cases cs) auto

lemma starts_dec_simps [simp]: "\<not> starts_dec []" "starts_dec (d # cs) \<longleftrightarrow> is_dec d"
  by (simp_all add: starts_dec_def)

lemma take_digits:
  assumes "digits ds" and "\<not> starts_dec r"
  shows "takeWhile is_dec (ds @ r) = ds" and "dropWhile is_dec (ds @ r) = r"
proof -
  have all: "\<forall>x \<in> set ds. is_dec x" using assms(1) by (simp add: digits_def list_all_iff)
  have "takeWhile is_dec r = []" "dropWhile is_dec r = r" using assms(2) by (cases r; simp)+
  with all show "takeWhile is_dec (ds @ r) = ds" "dropWhile is_dec (ds @ r) = r" by simp_all
qed

lemma digits_take: "takeWhile is_dec cs \<noteq> [] \<Longrightarrow> digits (takeWhile is_dec cs)"
  by (auto simp: digits_def list_all_iff dest: set_takeWhileD)

lemma digits_left [simp]: "\<not> starts_dec (dropWhile is_dec cs)"
  by (induction cs) auto

lemma int_part_Inr:
  "int_part cs = Inr (i, r) \<longleftrightarrow> cs = i @ r \<and> is_int i \<and> \<not> starts_dec r"
proof
  assume h: "int_part cs = Inr (i, r)"
  show "cs = i @ r \<and> is_int i \<and> \<not> starts_dec r"
  proof (cases "starts 0x30 cs")
    case True
    with h show ?thesis by (cases cs) (auto simp: int_part_def is_int_def split: if_splits)
  next
    case False
    with h have t: "takeWhile is_dec cs \<noteq> []" "i = takeWhile is_dec cs" "r = dropWhile is_dec cs"
      by (auto simp: int_part_def split: if_splits)
    moreover have "hd i \<noteq> 0x30" using t False by (cases cs) (auto split: if_splits)
    ultimately show ?thesis using digits_take [of cs] by (simp add: is_int_def)
  qed
next
  assume h: "cs = i @ r \<and> is_int i \<and> \<not> starts_dec r"
  show "int_part cs = Inr (i, r)"
  proof (cases "i = [0x30]")
    case False
    with h have d: "digits i" "hd i \<noteq> 0x30" by (simp_all add: is_int_def)
    then obtain x i' where i: "i = x # i'" "x \<noteq> 0x30" by (cases i) (auto simp: digits_def)
    from take_digits [OF d(1), of r] h show ?thesis by (simp add: int_part_def i)
  qed (use h in \<open>simp add: int_part_def\<close>)
qed

lemma frac_part_Inr:
  "frac_part cs = Inr (f, r) \<longleftrightarrow>
     cs = f @ r \<and> is_frac f \<and> (if f = [] then \<not> starts 0x2E r else \<not> starts_dec r)"
proof
  assume "frac_part cs = Inr (f, r)"
  then show "cs = f @ r \<and> is_frac f \<and> (if f = [] then \<not> starts 0x2E r else \<not> starts_dec r)"
    using digits_take by (cases cs) (auto simp: frac_part_def is_frac_def split: if_splits)
next
  assume h: "cs = f @ r \<and> is_frac f \<and> (if f = [] then \<not> starts 0x2E r else \<not> starts_dec r)"
  show "frac_part cs = Inr (f, r)"
  proof (cases "f = []")
    case False
    with h obtain ds where "f = 0x2E # ds" "digits ds" by (auto simp: is_frac_def)
    with h take_digits [of ds r] show ?thesis by (auto simp: frac_part_def digits_def)
  qed (use h in \<open>simp add: frac_part_def\<close>)
qed

lemma exp_part_Inr:
  "exp_part cs = Inr (e, r) \<longleftrightarrow>
     cs = e @ r \<and> is_exp e \<and> (if e = [] then \<not> starts 0x65 r \<and> \<not> starts 0x45 r else \<not> starts_dec r)"
proof
  assume h: "exp_part cs = Inr (e, r)"
  show "cs = e @ r \<and> is_exp e \<and> (if e = [] then \<not> starts 0x65 r \<and> \<not> starts 0x45 r else \<not> starts_dec r)"
  proof (cases "starts 0x65 cs \<or> starts 0x45 cs")
    case True
    then obtain m cs' where cs: "cs = m # cs'" "m = 0x65 \<or> m = 0x45" by (auto simp: starts_iff)
    define s where "s = (if starts 0x2B cs' \<or> starts 0x2D cs' then [hd cs'] else [])"
    have sgn: "cs' = s @ drop (length s) cs'" "s = [] \<or> s = [0x2B] \<or> s = [0x2D]"
      by (auto simp: s_def starts_iff)
    let ?ds = "drop (length s) cs'"
    from h cs have e: "takeWhile is_dec ?ds \<noteq> []" "e = m # s @ takeWhile is_dec ?ds" "r = dropWhile is_dec ?ds"
      by (auto simp: exp_part_def s_def Let_def split: if_splits)
    moreover have "is_exp e" unfolding is_exp_def e(2) using cs(2) sgn(2) digits_take [OF e(1)] by blast
    moreover have "cs = e @ r" using cs sgn(1) e(2,3) by simp
    ultimately show ?thesis by simp
  qed (use h in \<open>auto simp: exp_part_def is_exp_def\<close>)
next
  assume h: "cs = e @ r \<and> is_exp e \<and> (if e = [] then \<not> starts 0x65 r \<and> \<not> starts 0x45 r else \<not> starts_dec r)"
  show "exp_part cs = Inr (e, r)"
  proof (cases "e = []")
    case False
    with h obtain m s ds where e: "e = m # s @ ds" "m = 0x65 \<or> m = 0x45" "s = [] \<or> s = [0x2B] \<or> s = [0x2D]" "digits ds"
      by (auto simp: is_exp_def)
    from e(4) obtain d ds' where ds: "ds = d # ds'" "is_dec d" by (cases ds) (auto simp: digits_def)
    have "(if starts 0x2B (s @ ds @ r) \<or> starts 0x2D (s @ ds @ r) then [hd (s @ ds @ r)] else []) = s"
      using e(3) ds by (auto simp: is_dec_def)
    with h e take_digits [OF e(4), of r] show ?thesis by (auto simp: exp_part_def digits_def Let_def)
  qed (use h in \<open>simp add: exp_part_def\<close>)
qed

lemma json_number_Inr:
  assumes "json_number cs = Inr (v, r)"
  shows "\<exists>n. v = VNumber n \<and> cs = n @ r \<and> is_number n"
proof -
  define s where "s = (if starts 0x2D cs then [0x2D :: nat] else [])"
  have s: "cs = s @ drop (length s) cs" "is_sign s" by (auto simp: s_def starts_iff is_sign_def)
  from assms obtain i f e cs1 cs2 where "drop (length s) cs = i @ cs1 \<and> is_int i \<and> \<not> starts_dec cs1"
    "cs1 = f @ cs2 \<and> is_frac f" "cs2 = e @ r \<and> is_exp e" "v = VNumber (s @ i @ f @ e)"
    unfolding json_number_def Let_def s_def [symmetric]
    by (auto simp: int_part_Inr frac_part_Inr exp_part_Inr)
  with s show ?thesis unfolding is_number_def by (intro exI [of _ "s @ i @ f @ e"]) (metis append.assoc)
qed

lemma json_number_spells:
  assumes "is_number n" and r: "ends_number r"
  shows "json_number (n @ r) = Inr (VNumber n, r)"
proof -
  from assms(1) obtain s i f e where n: "n = s @ i @ f @ e" "is_sign s" "is_int i" "is_frac f" "is_exp e"
    unfolding is_number_def by blast
  have i: "i \<noteq> []" "\<not> starts 0x2D (i @ r')" for r'
    using n(3) by (cases i; auto simp: is_int_def digits_def is_dec_def)+
  have sgn: "(if starts 0x2D (n @ r) then [0x2D] else []) = s"
    using n(1,2) i(2) [of "f @ e @ r"] by (auto simp: is_sign_def)
  have r': "\<not> starts_dec r" "\<not> starts 0x2E r" "\<not> starts 0x65 r" "\<not> starts 0x45 r"
    using r by (auto simp: ends_number_def starts_dec_def starts_def split: list.splits)
  have e: "\<not> starts_dec (e @ r)" "\<not> starts 0x2E (e @ r)" using n(5) r' by (auto simp: is_exp_def is_dec_def)
  then have f: "\<not> starts_dec (f @ e @ r)" using n(4) by (auto simp: is_frac_def is_dec_def)
  have "int_part (i @ f @ e @ r) = Inr (i, f @ e @ r)" using n(3) f by (simp add: int_part_Inr)
  moreover have "frac_part (f @ e @ r) = Inr (f, e @ r)" using n(4) e by (simp add: frac_part_Inr)
  moreover have "exp_part (e @ r) = Inr (e, r)" using n(5) r' by (simp add: exp_part_Inr)
  ultimately show ?thesis unfolding json_number_def sgn by (simp add: n(1))
qed

section \<open>Strings\<close>

lemma hex_digits_4:
  "hex4 (a # b # c # d # r) = Inr (u, r) \<longleftrightarrow> quad u [a, b, c, d]"
  by (auto simp: hex4_def quad_def eval_nat_numeral split: option.splits)

lemma hex4_Inr: "hex4 cs = Inr (u, r) \<longleftrightarrow> (\<exists>hs. cs = hs @ r \<and> quad u hs)"
proof
  assume h: "hex4 cs = Inr (u, r)"
  from hex_digits_shorter [OF h [unfolded hex4_def]] have "4 \<le> length cs" by simp
  then obtain a b c d r' where cs: "cs = a # b # c # d # r'"
    by (auto simp: Suc_le_length_iff eval_nat_numeral)
  with h have "r' = r" by (auto simp: hex4_def eval_nat_numeral split: option.splits)
  with h cs hex_digits_4 [of a b c d r u] show "\<exists>hs. cs = hs @ r \<and> quad u hs" by auto
next
  assume "\<exists>hs. cs = hs @ r \<and> quad u hs"
  then obtain hs where hs: "cs = hs @ r" "quad u hs" by blast
  then obtain a b c d where "hs = [a, b, c, d]" by (auto simp: quad_def)
  with hs hex_digits_4 [of a b c d r u] show "hex4 cs = Inr (u, r)" by simp
qed

lemma escape_Inr:
  assumes "escape cs = Inr (c, r)"
  shows "\<exists>t. 0x5C # cs = t @ r \<and> spells_char c t"
proof -
  from assms obtain e cs' where cs: "cs = e # cs'" by (cases cs) auto
  show ?thesis
  proof (cases "short_escape e")
    case (Some c')
    with assms cs have "c' = c" "cs' = r" by (simp_all del: short_escape.simps)
    with Some cs spells_char.short [of e c] show ?thesis by (intro exI [of _ "[0x5C, e]"]) simp
  next
    case None
    with assms cs have e: "e = 0x75" and u: "unicode_escape cs' = Inr (c, r)"
      by (auto simp del: short_escape.simps split: if_splits)
    from u obtain hi r1 where hi: "hex4 cs' = Inr (hi, r1)" by (auto simp: unicode_escape_def)
    then obtain hs where hs: "cs' = hs @ r1" "quad hi hs" by (auto simp: hex4_Inr)
    show ?thesis
    proof (cases "0xD800 \<le> hi \<and> hi < 0xDC00")
      case True
      with u hi obtain r2 low where r1: "r1 = 0x5C # 0x75 # r2" "hex4 r2 = Inr (low, r)"
        "0xDC00 \<le> low" "low < 0xE000" "c = 0x10000 + (hi - 0xD800) * 0x400 + (low - 0xDC00)"
        by (auto simp: unicode_escape_def split: list.splits if_splits)
      then obtain ls where ls: "r2 = ls @ r" "quad low ls" by (auto simp: hex4_Inr)
      from spells_char.pair [OF hs(2) _ _ ls(2) r1(3,4)] True r1(5)
      show ?thesis using cs e hs(1) r1(1) ls(1) by (intro exI [of _ "0x5C # 0x75 # hs @ 0x5C # 0x75 # ls"]) auto
    next
      case False
      with u hi have "c = hi" "r = r1" "is_scalar hi" by (auto simp: unicode_escape_def split: if_splits)
      with spells_char.unit [OF hs(2)] cs e hs(1) show ?thesis by (intro exI [of _ "0x5C # 0x75 # hs"]) auto
    qed
  qed
qed

lemma escape_spells:
  assumes "spells_char c t" and "t = 0x5C # t'"
  shows "escape (t' @ r) = Inr (c, r)"
  using assms
proof (induction rule: spells_char.induct)
  case (unit u hs)
  from unit(1) have "hex4 (hs @ r) = Inr (u, r)" by (auto simp: hex4_Inr)
  moreover have "\<not> (0xD800 \<le> u \<and> u < 0xDC00)" using unit(2) by (auto simp: is_scalar_def)
  ultimately show ?case using unit by (auto simp: unicode_escape_def)
next
  case (pair hi hs low ls)
  have "hex4 (hs @ 0x5C # 0x75 # ls @ r) = Inr (hi, 0x5C # 0x75 # ls @ r)" using pair(1) by (auto simp: hex4_Inr)
  moreover have "hex4 (ls @ r) = Inr (low, r)" using pair(4) by (auto simp: hex4_Inr)
  ultimately show ?case using pair by (auto simp: unicode_escape_def)
qed (auto simp del: short_escape.simps)

lemma string_body_Inr:
  assumes "string_body out cs = Inr (s, r)"
  shows "\<exists>s' q. s = out @ s' \<and> cs = q @ 0x22 # r \<and> spells_string s' q"
  using assms
proof (induction out cs rule: string_body.induct)
  case (2 out c cs)
  consider "c = 0x22" | "c = 0x5C" | "c \<noteq> 0x22" "c \<noteq> 0x5C" "\<not> c < 0x20" using 2(3) by (auto split: if_splits)
  then show ?case
  proof cases
    case 1
    with 2(3) show ?thesis using spells_string.empty by (intro exI [of _ "[]"]) simp
  next
    case 2
    with "2.prems" obtain ch rest where e: "escape cs = Inr (ch, rest)" "string_body (out @ [ch]) rest = Inr (s, r)"
      by (auto split: sum.splits)
    from "2.IH"(1) [OF _ 2 e(1) refl e(2)] 2 obtain s' q where "s = (out @ [ch]) @ s'" "rest = q @ 0x22 # r" "spells_string s' q"
      by auto
    moreover from escape_Inr [OF e(1)] obtain t where "0x5C # cs = t @ rest" "spells_char ch t" by blast
    ultimately show ?thesis using 2 spells_string.more [of ch t s' q]
      by (intro exI [of _ "ch # s'"] exI [of _ "t @ q"]) simp
  next
    case 3
    with "2.prems" have "string_body (out @ [c]) cs = Inr (s, r)" by simp
    from "2.IH"(2) [OF _ _ _ this] 3 obtain s' q where "s = (out @ [c]) @ s'" "cs = q @ 0x22 # r" "spells_string s' q" by auto
    moreover have "spells_char c [c]" using 3 by (intro as_is) auto
    ultimately show ?thesis using spells_string.more [of c "[c]" s' q]
      by (intro exI [of _ "c # s'"] exI [of _ "[c] @ q"]) simp
  qed
qed simp

lemma string_body_spells:
  assumes "spells_string s q"
  shows "string_body out (q @ 0x22 # r) = Inr (out @ s, r)"
  using assms
proof (induction arbitrary: out rule: spells_string.induct)
  case (more c t s q)
  show ?case
  proof (cases "hd t = 0x5C")
    case True
    then obtain t' where t: "t = 0x5C # t'" using more(1) by (cases t) (auto elim: spells_char.cases)
    from escape_spells [OF more(1) t, of "q @ 0x22 # r"] more(3) show ?thesis by (simp add: t)
  next
    case False
    with more(1) have "t = [c]" "0x20 \<le> c" "c \<noteq> 0x22" "c \<noteq> 0x5C" by (auto elim: spells_char.cases)
    with more(3) show ?thesis by simp
  qed
qed simp

lemma json_string_Inr:
  "json_string cs = Inr (s, r) \<longleftrightarrow> (\<exists>q. cs = (0x22 # q @ [0x22]) @ r \<and> spells_string s q)"
proof
  assume "json_string cs = Inr (s, r)"
  then obtain cs' where cs: "cs = 0x22 # cs'" "string_body [] cs' = Inr (s, r)"
    by (cases cs) (auto simp: json_string_def split: if_splits)
  from string_body_Inr [OF cs(2)] cs(1) show "\<exists>q. cs = (0x22 # q @ [0x22]) @ r \<and> spells_string s q" by auto
qed (auto simp: json_string_def string_body_spells)

section \<open>Values\<close>

lemma literal_Inr: "literal w v cs = Inr (x, r) \<longleftrightarrow> x = v \<and> cs = w @ r"
  by (induction w v cs rule: literal.induct) auto

lemma spells_start:
  assumes "spells v t"
  shows "\<exists>c t'. t = c # t' \<and> \<not> is_ws c \<and> c \<noteq> 0x5D \<and> c \<noteq> 0x7D"
  using assms
proof cases
  case number
  then obtain s i f e where n: "t = s @ i @ f @ e" "is_sign s" "is_int i" by (auto simp: is_number_def)
  then obtain x i' where "i = x # i'" "is_dec x" by (cases i) (auto simp: is_int_def digits_def is_dec_def)
  with n show ?thesis by (auto simp: is_sign_def is_dec_def is_ws_def)
qed (auto simp: is_ws_def codes_def)

lemma skip_ws_value: "ws a \<Longrightarrow> spells v t \<Longrightarrow> skip_ws (a @ t @ r) = t @ r"
  using spells_start [of v t] by (auto intro!: skip_ws_append)

lemma skip_ws_Cons_eq [simp]: "ws w \<Longrightarrow> \<not> is_ws c \<Longrightarrow> skip_ws (w @ c # r) = c # r"
  by (auto intro!: skip_ws_append)

lemma not_ws [simp]: "\<not> is_ws 0x22" "\<not> is_ws 0x2C" "\<not> is_ws 0x3A" "\<not> is_ws 0x5B" "\<not> is_ws 0x5D" "\<not> is_ws 0x7B" "\<not> is_ws 0x7D"
  by (simp_all add: is_ws_def)

lemma ends_number_ws: "ws w \<Longrightarrow> ends_number r \<Longrightarrow> ends_number (w @ r)"
  by (cases w) (auto simp: ends_number_def ws_def is_ws_def is_dec_def)

lemma ends_number_Cons [simp]: "ends_number (c # r) \<longleftrightarrow> \<not> is_dec c \<and> c \<noteq> 0x2E \<and> c \<noteq> 0x65 \<and> c \<noteq> 0x45"
  by (simp add: ends_number_def)

lemma json_scalar_Inr:
  assumes "json_scalar cs = Inr (v, r)"
  shows "\<exists>t. cs = t @ r \<and> spells v t \<and> nesting v = 0"
proof -
  from assms obtain c cs' where cs: "cs = c # cs'" by (cases cs) (auto simp: json_scalar_def)
  consider s where "json_string cs = Inr (s, r)" "v = VString s"
    | "literal (codes ''true'') (VBool True) cs = Inr (v, r)" | "literal (codes ''false'') (VBool False) cs = Inr (v, r)"
    | "literal (codes ''null'') VNull cs = Inr (v, r)" | "json_number cs = Inr (v, r)"
    using assms cs by (auto simp: json_scalar_def split: if_splits)
  then show ?thesis
  proof cases
    case (1 s)
    then obtain q where "cs = (0x22 # q @ [0x22]) @ r" "spells_string s q" by (auto simp: json_string_Inr)
    with 1 spells_spells_items_spells_members.string show ?thesis by fastforce
  next
    case 5
    from json_number_Inr [OF this] obtain n where "v = VNumber n" "cs = n @ r" "is_number n" by blast
    then show ?thesis by (auto intro: spells_spells_items_spells_members.intros)
  qed (auto simp: literal_Inr intro: spells_spells_items_spells_members.intros)
qed

lemma json_items_Inr:
  assumes val: "\<And>cs v r. val cs = Inr (v, r) \<Longrightarrow> \<exists>t. cs = t @ r \<and> spells v t \<and> nesting v \<le> n"
    and "json_items val f vs cs = Inr (x, r)"
  shows "\<exists>vs' t. x = VArray (vs @ vs') \<and> cs = t @ 0x5D # r \<and> spells_items vs' t \<and> (\<forall>v \<in> set vs'. nesting v \<le> n)"
  using assms(2)
proof (induction f arbitrary: vs cs)
  case (Suc f)
  from Suc.prems obtain v cs1 where v1: "val (skip_ws cs) = Inr (v, cs1)"
    and run: "(case skip_ws cs1 of [] \<Rightarrow> Inl JE_End
        | c # cs2 \<Rightarrow> if c = 0x2C then json_items val f (vs @ [v]) cs2
                      else if c = 0x5D then Inr (VArray (vs @ [v]), cs2) else Inl JE_Separator) = Inr (x, r)" by auto
  from run obtain c cs2 where v2: "skip_ws cs1 = c # cs2"
    and rest: "c = 0x2C \<and> json_items val f (vs @ [v]) cs2 = Inr (x, r) \<or> c = 0x5D \<and> x = VArray (vs @ [v]) \<and> cs2 = r"
    by (cases "skip_ws cs1") (auto split: if_splits)
  note v = v1 v2
  obtain a b where a: "ws a" "cs = a @ skip_ws cs" and b: "ws b" "cs1 = b @ skip_ws cs1"
    using skip_ws_split by meson
  from val [OF v(1)] obtain t where t: "skip_ws cs = t @ cs1" "spells v t" "nesting v \<le> n" by blast
  from rest show ?case
  proof
    assume "c = 0x5D \<and> x = VArray (vs @ [v]) \<and> cs2 = r"
    with a b t v(2) show ?thesis using last_item [OF a(1) t(2) b(1)]
      by (intro exI [of _ "[v]"] exI [of _ "a @ t @ b"]) simp
  next
    assume r: "c = 0x2C \<and> json_items val f (vs @ [v]) cs2 = Inr (x, r)"
    with Suc.IH [of "vs @ [v]" cs2] obtain vs' t' where
      "x = VArray ((vs @ [v]) @ vs')" "cs2 = t' @ 0x5D # r" "spells_items vs' t'" "\<forall>v \<in> set vs'. nesting v \<le> n" by blast
    with a b t v(2) r show ?thesis using next_item [OF a(1) t(2) b(1), of vs' t']
      by (intro exI [of _ "v # vs'"] exI [of _ "a @ t @ b @ 0x2C # t'"]) simp
  qed
qed simp

lemma json_members_Inr:
  assumes val: "\<And>cs v r. val cs = Inr (v, r) \<Longrightarrow> \<exists>t. cs = t @ r \<and> spells v t \<and> nesting v \<le> n"
    and "json_members val f ms cs = Inr (x, r)"
  shows "\<exists>ms' t. x = VObject (ms @ ms') \<and> cs = t @ 0x7D # r \<and> spells_members ms' t \<and> (\<forall>(k, v) \<in> set ms'. nesting v \<le> n)"
  using assms(2)
proof (induction f arbitrary: ms cs)
  case (Suc f)
  from Suc.prems obtain k cs1 cs2 v cs3 where k: "json_string (skip_ws cs) = Inr (k, cs1)"
    "expect 0x3A (skip_ws cs1) = Inr cs2" and v1: "val (skip_ws cs2) = Inr (v, cs3)"
    and run: "(case skip_ws cs3 of [] \<Rightarrow> Inl JE_End
        | c # cs4 \<Rightarrow> if c = 0x2C then json_members val f (ms @ [(k, v)]) cs4
                      else if c = 0x7D then Inr (VObject (ms @ [(k, v)]), cs4) else Inl JE_Separator) = Inr (x, r)"
    by (auto split: if_splits)
  from run obtain c cs4 where v2: "skip_ws cs3 = c # cs4"
    and rest: "c = 0x2C \<and> json_members val f (ms @ [(k, v)]) cs4 = Inr (x, r)
      \<or> c = 0x7D \<and> x = VObject (ms @ [(k, v)]) \<and> cs4 = r"
    by (cases "skip_ws cs3") (auto split: if_splits)
  note v = v1 v2
  obtain a b c' d where w: "ws a" "cs = a @ skip_ws cs" "ws b" "cs1 = b @ skip_ws cs1"
    "ws c'" "cs2 = c' @ skip_ws cs2" "ws d" "cs3 = d @ skip_ws cs3"
    using skip_ws_split by meson
  from k(1) obtain q where q: "skip_ws cs = (0x22 # q @ [0x22]) @ cs1" "spells_string k q" by (auto simp: json_string_Inr)
  from k(2) have colon: "skip_ws cs1 = 0x3A # cs2" by (cases "skip_ws cs1") (auto split: if_splits)
  from val [OF v(1)] obtain t where t: "skip_ws cs2 = t @ cs3" "spells v t" "nesting v \<le> n" by blast
  have cs: "cs = (a @ (0x22 # q @ [0x22]) @ b @ 0x3A # c' @ t @ d) @ c # cs4"
    using w q colon t v(2) by simp
  from rest show ?case
  proof
    assume "c = 0x7D \<and> x = VObject (ms @ [(k, v)]) \<and> cs4 = r"
    with cs t(3) show ?thesis using last_member [OF w(1) q(2) w(3,5) t(2) w(7)]
      by (intro exI [of _ "[(k, v)]"] exI [of _ "a @ (0x22 # q @ [0x22]) @ b @ 0x3A # c' @ t @ d"]) simp
  next
    assume r: "c = 0x2C \<and> json_members val f (ms @ [(k, v)]) cs4 = Inr (x, r)"
    with Suc.IH [of "ms @ [(k, v)]" cs4] obtain ms' t' where "x = VObject ((ms @ [(k, v)]) @ ms')" "cs4 = t' @ 0x7D # r"
      "spells_members ms' t'" "\<forall>(k, v) \<in> set ms'. nesting v \<le> n" by blast
    with cs t(3) r show ?thesis using next_member [OF w(1) q(2) w(3,5) t(2) w(7), of ms' t']
      by (intro exI [of _ "(k, v) # ms'"] exI [of _ "a @ (0x22 # q @ [0x22]) @ b @ 0x3A # c' @ t @ d @ 0x2C # t'"]) simp
  qed
qed simp

lemma json_array_Inr:
  assumes val: "\<And>cs v r. val cs = Inr (v, r) \<Longrightarrow> \<exists>t. cs = t @ r \<and> spells v t \<and> nesting v \<le> n"
    and "json_array val cs = Inr (x, r)"
  shows "\<exists>t. cs = t @ r \<and> spells x t \<and> nesting x \<le> Suc n"
proof -
  from assms(2) obtain cs1 where cs: "cs = 0x5B # cs1" by (cases cs) (auto simp: json_array_def split: if_splits)
  obtain w where w: "ws w" "cs1 = w @ skip_ws cs1" using skip_ws_split by blast
  show ?thesis
  proof (cases "starts 0x5D (skip_ws cs1)")
    case True
    with assms(2) cs w obtain r' where "skip_ws cs1 = 0x5D # r'" "r' = r" "x = VArray []"
      by (auto simp: json_array_def starts_iff)
    with no_items [OF w(1)] cs w(2) show ?thesis by (intro exI [of _ "0x5B # w @ [0x5D]"]) simp
  next
    case False
    with assms(2) cs have run: "json_items val (length cs) [] (skip_ws cs1) = Inr (x, r)" by (simp add: json_array_def)
    from json_items_Inr [OF val run] obtain vs t where "x = VArray vs" "skip_ws cs1 = t @ 0x5D # r" "spells_items vs t"
      "\<forall>v \<in> set vs. nesting v \<le> n" by auto
    moreover have "spells_items vs (w @ t)" using \<open>spells_items vs t\<close>
    proof cases
      case (last_item a v t' b)
      moreover have "ws (w @ a)" using w(1) last_item by (simp add: ws_def)
      ultimately show ?thesis using spells_spells_items_spells_members.last_item [of "w @ a" v t' b] by simp
    next
      case (next_item a v t' b vs' r)
      moreover have "ws (w @ a)" using w(1) next_item by (simp add: ws_def)
      ultimately show ?thesis using spells_spells_items_spells_members.next_item [of "w @ a" v t' b vs' r] by simp
    qed
    ultimately show ?thesis using array [of vs "w @ t"] cs w(2)
      by (intro exI [of _ "0x5B # (w @ t) @ [0x5D]"]) simp
  qed
qed

lemma json_object_Inr:
  assumes val: "\<And>cs v r. val cs = Inr (v, r) \<Longrightarrow> \<exists>t. cs = t @ r \<and> spells v t \<and> nesting v \<le> n"
    and "json_object val cs = Inr (x, r)"
  shows "\<exists>t. cs = t @ r \<and> spells x t \<and> nesting x \<le> Suc n"
proof -
  from assms(2) obtain cs1 where cs: "cs = 0x7B # cs1" by (cases cs) (auto simp: json_object_def split: if_splits)
  obtain w where w: "ws w" "cs1 = w @ skip_ws cs1" using skip_ws_split by blast
  show ?thesis
  proof (cases "starts 0x7D (skip_ws cs1)")
    case True
    with assms(2) cs w obtain r' where "skip_ws cs1 = 0x7D # r'" "r' = r" "x = VObject []"
      by (auto simp: json_object_def starts_iff)
    with no_members [OF w(1)] cs w(2) show ?thesis by (intro exI [of _ "0x7B # w @ [0x7D]"]) simp
  next
    case False
    with assms(2) cs have run: "json_members val (length cs) [] (skip_ws cs1) = Inr (x, r)" by (simp add: json_object_def)
    from json_members_Inr [OF val run] obtain ms t where m: "x = VObject ms" "skip_ws cs1 = t @ 0x7D # r" "spells_members ms t"
      "\<forall>(k, v) \<in> set ms. nesting v \<le> n" by auto
    moreover have "spells_members ms (w @ t)" using \<open>spells_members ms t\<close>
    proof cases
      case (last_member a k q b c v t' d)
      moreover have "ws (w @ a)" using w(1) last_member by (simp add: ws_def)
      ultimately show ?thesis using spells_spells_items_spells_members.last_member [of "w @ a" k q b c v t' d] by simp
    next
      case (next_member a k q b c v t' d ms' r)
      moreover have "ws (w @ a)" using w(1) next_member by (simp add: ws_def)
      ultimately show ?thesis using spells_spells_items_spells_members.next_member [of "w @ a" k q b c v t' d ms' r] by simp
    qed
    ultimately show ?thesis using object [of ms "w @ t"] cs w(2)
      by (intro exI [of _ "0x7B # (w @ t) @ [0x7D]"]) simp
  qed
qed

lemma json_value_Inr:
  "json_value n cs = Inr (v, r) \<Longrightarrow> \<exists>t. cs = t @ r \<and> spells v t \<and> nesting v \<le> n"
proof (induction n arbitrary: cs v r)
  case 0
  then show ?case using json_scalar_Inr [of cs v r] by (auto split: if_splits)
next
  case (Suc n)
  then consider "json_object (json_value n) cs = Inr (v, r)" | "json_array (json_value n) cs = Inr (v, r)" | "json_scalar cs = Inr (v, r)"
    by (auto split: if_splits)
  then show ?case
  proof cases
    case 3
    from json_scalar_Inr [OF this] show ?thesis by force
  qed (use json_object_Inr [OF Suc.IH] json_array_Inr [OF Suc.IH] in blast)+
qed

section \<open>Every text of the grammar is read\<close>

lemma json_items_spells:
  assumes val: "\<And>v t r. spells v t \<Longrightarrow> nesting v \<le> n \<Longrightarrow> ends_number r \<Longrightarrow> val (t @ r) = Inr (v, r)"
    and "spells_items vs t" and "\<forall>v \<in> set vs. nesting v \<le> n" and "length vs \<le> f"
  shows "json_items val f out (t @ 0x5D # r) = Inr (VArray (out @ vs), r)"
  using assms(2-4)
proof (induction vs arbitrary: f t out)
  case (Cons v vs)
  from Cons.prems(3) obtain f' where f: "f = Suc f'" "length vs \<le> f'" by (cases f) auto
  from Cons.prems(1) show ?case
  proof cases
    case (last_item a t' b)
    then have "val (t' @ b @ 0x5D # r) = Inr (v, b @ 0x5D # r)"
      using Cons.prems(2) by (intro val ends_number_ws) (auto simp: is_dec_def)
    with last_item show ?thesis by (simp add: f skip_ws_value)
  next
    case (next_item a t' b q)
    then have "val (t' @ b @ 0x2C # q @ 0x5D # r) = Inr (v, b @ 0x2C # q @ 0x5D # r)"
      using Cons.prems(2) by (intro val ends_number_ws) (auto simp: is_dec_def)
    moreover have "json_items val f' (out @ [v]) (q @ 0x5D # r) = Inr (VArray ((out @ [v]) @ vs), r)"
      using Cons.prems(2) f(2) next_item by (intro Cons.IH) auto
    ultimately show ?thesis using next_item by (simp add: f skip_ws_value)
  qed
qed (auto elim: spells_items.cases)

lemma json_members_spells:
  assumes val: "\<And>v t r. spells v t \<Longrightarrow> nesting v \<le> n \<Longrightarrow> ends_number r \<Longrightarrow> val (t @ r) = Inr (v, r)"
    and "spells_members ms t" and "\<forall>(k, v) \<in> set ms. nesting v \<le> n" and "length ms \<le> f"
  shows "json_members val f out (t @ 0x7D # r) = Inr (VObject (out @ ms), r)"
  using assms(2-4)
proof (induction ms arbitrary: f t out)
  case (Cons m ms)
  from Cons.prems(3) obtain f' where f: "f = Suc f'" "length ms \<le> f'" by (cases f) auto
  have str: "json_string (0x22 # q @ 0x22 # r) = Inr (k, r)" if "spells_string k q" for k q r
    using that json_string_Inr [of "0x22 # q @ 0x22 # r" k r] by auto
  from Cons.prems(1) show ?case
  proof cases
    case (last_member a k q b c v t' d)
    then have "val (t' @ d @ 0x7D # r) = Inr (v, d @ 0x7D # r)"
      using Cons.prems(2) by (intro val ends_number_ws) (auto simp: is_dec_def)
    with last_member show ?thesis by (simp add: f skip_ws_value str)
  next
    case (next_member a k q b c v t' d p)
    then have "val (t' @ d @ 0x2C # p @ 0x7D # r) = Inr (v, d @ 0x2C # p @ 0x7D # r)"
      using Cons.prems(2) by (intro val ends_number_ws) (auto simp: is_dec_def)
    moreover have "json_members val f' (out @ [(k, v)]) (p @ 0x7D # r) = Inr (VObject ((out @ [(k, v)]) @ ms), r)"
      using Cons.prems(2) f(2) next_member by (intro Cons.IH) auto
    ultimately show ?thesis using next_member by (simp add: f skip_ws_value str)
  qed
qed (auto elim: spells_members.cases)

lemma spells_items_length: "spells_items vs t \<Longrightarrow> length vs \<le> length t"
proof (induction vs arbitrary: t)
  case (Cons v vs)
  from Cons.prems show ?case
  proof cases
    case (last_item a t' b)
    then show ?thesis using spells_start by fastforce
  next
    case (next_item a t' b r)
    with Cons.IH show ?thesis by fastforce
  qed
qed simp

lemma spells_members_length: "spells_members ms t \<Longrightarrow> length ms \<le> length t"
proof (induction ms arbitrary: t)
  case (Cons m ms)
  from Cons.prems show ?case
  proof cases
    case (next_member a k q b c v t' d r)
    with Cons.IH show ?thesis by fastforce
  qed simp
qed simp

lemma items_start: "spells_items vs t \<Longrightarrow> \<not> starts 0x5D (skip_ws (t @ r))"
proof (erule spells_items.cases)
  fix a v t' b assume "ws a" "spells v t'" "t = a @ t' @ b"
  with spells_start [OF this(2)] show ?thesis by (auto simp: skip_ws_value)
next
  fix a v t' b vs q assume "ws a" "spells v t'" "t = a @ t' @ b @ 0x2C # q"
  with spells_start [OF this(2)] show ?thesis by (auto simp: skip_ws_value)
qed

lemma members_start: "spells_members ms t \<Longrightarrow> \<not> starts 0x7D (skip_ws (t @ r))"
  by (erule spells_members.cases) simp_all

lemma skip_skip [simp]: "skip_ws (skip_ws cs) = skip_ws cs"
  by (simp add: skip_ws_def)

lemma items_skip [simp]: "json_items val f vs (skip_ws cs) = json_items val f vs cs"
  by (cases f) simp_all

lemma members_skip [simp]: "json_members val f ms (skip_ws cs) = json_members val f ms cs"
  by (cases f) simp_all

lemma scalar_spells:
  assumes "spells v t" and "nesting v = 0" and "ends_number r"
  shows "json_scalar (t @ r) = Inr (v, r) \<and> \<not> starts 0x7B (t @ r) \<and> \<not> starts 0x5B (t @ r)"
  using assms(1)
proof cases
  case number
  then obtain s i f e where n: "t = s @ i @ f @ e" "is_sign s" "is_int i" by (auto simp: is_number_def)
  then obtain x i' where "i = x # i'" "is_dec x" by (cases i) (auto simp: is_int_def digits_def is_dec_def)
  with n obtain c t' where t: "t = c # t'" "c = 0x2D \<or> is_dec c" by (auto simp: is_sign_def)
  with json_number_spells [OF number(2) assms(3)] number show ?thesis
    by (auto simp: json_scalar_def is_dec_def)
next
  case (string s q)
  then have "json_string (t @ r) = Inr (s, r)" by (auto simp: json_string_Inr)
  with string show ?thesis by (auto simp: json_scalar_def)
qed (use assms(2) in \<open>auto simp: json_scalar_def codes_def is_dec_def literal_Inr nesting.simps
      simp del: literal.simps\<close>)

lemma json_value_spells:
  "spells v t \<Longrightarrow> nesting v \<le> n \<Longrightarrow> ends_number r \<Longrightarrow> json_value n (t @ r) = Inr (v, r)"
proof (induction n arbitrary: v t r)
  case 0
  with scalar_spells [of v t r] show ?case by simp
next
  case (Suc n)
  note val = Suc.IH
  from Suc.prems(1) show ?case
  proof cases
    case (array vs t')
    with Suc.prems(2) have "json_items (json_value n) (length (t @ r)) [] (t' @ 0x5D # r) = Inr (VArray ([] @ vs), r)"
      using spells_items_length [of vs t'] by (intro json_items_spells [OF val]) auto
    with array items_start [OF array(3), of "0x5D # r"] show ?thesis by (simp add: json_array_def)
  next
    case (object ms t')
    with Suc.prems(2) have "json_members (json_value n) (length (t @ r)) [] (t' @ 0x7D # r) = Inr (VObject ([] @ ms), r)"
      using spells_members_length [of ms t'] by (intro json_members_spells [OF val]) auto
    with object members_start [OF object(3), of "0x7D # r"] show ?thesis by (simp add: json_object_def)
  qed (use scalar_spells [OF Suc.prems(1) _ Suc.prems(3)] in \<open>auto simp: json_array_def json_object_def\<close>)
qed

lemma json_parse_spells:
  assumes "ws a" "spells v t" "ws b" "nesting v \<le> 512"
  shows "json_parse (a @ t @ b) = Inr v"
proof -
  have "ends_number b" using ends_number_ws [OF assms(3), of "[]"] by (simp add: ends_number_def)
  with assms have "json_value max_depth (t @ b) = Inr (v, b)" by (intro json_value_spells) (auto simp: max_depth_def)
  moreover have "skip_ws b = []" using skip_ws_append [OF assms(3), of "[]"] by simp
  ultimately show ?thesis using assms by (simp add: json_parse_def skip_ws_value)
qed

lemma json_parse_Inr:
  assumes "json_parse cs = Inr v"
  shows "\<exists>a t b. cs = a @ t @ b \<and> ws a \<and> spells v t \<and> ws b \<and> nesting v \<le> 512"
proof -
  from assms obtain r where v: "json_value max_depth (skip_ws cs) = Inr (v, r)" and r: "skip_ws r = []"
    by (auto simp: json_parse_def split: if_splits)
  from json_value_Inr [OF v] obtain t where "skip_ws cs = t @ r" "spells v t" "nesting v \<le> 512"
    by (auto simp: max_depth_def)
  moreover obtain a b where "ws a" "cs = a @ skip_ws cs" "ws b" "r = b @ skip_ws r" using skip_ws_split by meson
  ultimately show ?thesis using r by (metis append_Nil2)
qed

text \<open>
  C19. The parser reads JSON as RFC 8259 has it, and nothing else: it gives a value exactly when the text
  is, white space around it aside, a text of the grammar for that value, nested no deeper than 512 levels.
  It does so for every text, so no text spells two values, and its loops never run out.
\<close>

theorem json_parse_is_rfc8259:
  "json_parse cs = Inr v \<longleftrightarrow> (\<exists>a t b. cs = a @ t @ b \<and> ws a \<and> spells v t \<and> ws b \<and> nesting v \<le> 512)"
  using json_parse_Inr json_parse_spells by blast

end
