(* ===== verification/Json_Numbers.thy ===== *)
theory Json_Numbers
  imports Complex_Main Json_Grammar
begin

text \<open>
  How \<open>Json_Text\<close> respells numbers: \<open>BigDecimal.toString()\<close> keeps a number's value and its scale and is a
  normal form, and what \<open>Double.toString()\<close> lays out is a JSON number.
\<close>

section \<open>The value of a number's text\<close>

text \<open>The exponent of an exponent part, and the value of a number's four parts.\<close>

definition signed_dec :: "chars \<Rightarrow> int" where
  "signed_dec cs =
     (if starts 0x2D cs then - int (dec_value (tl cs))
      else if starts 0x2B cs then int (dec_value (tl cs)) else int (dec_value cs))"

definition exp_value :: "chars \<Rightarrow> int" where
  "exp_value e = (if e = [] then 0 else signed_dec (tl e))"

definition parts_value :: "chars \<Rightarrow> chars \<Rightarrow> chars \<Rightarrow> chars \<Rightarrow> rat" where
  "parts_value s i f e =
     (if s = [] then 1 else - 1) * of_nat (dec_value (i @ tl f)) * 10 powi (exp_value e - int (length (tl f)))"

definition parts_of :: "chars \<Rightarrow> chars \<Rightarrow> chars \<Rightarrow> chars \<Rightarrow> chars \<Rightarrow> bool" where
  "parts_of n s i f e \<longleftrightarrow> n = s @ i @ f @ e \<and> is_sign s \<and> is_int i \<and> is_frac f \<and> is_exp e"

definition denotes :: "chars \<Rightarrow> rat \<Rightarrow> bool" where
  "denotes n q \<longleftrightarrow> (\<exists>s i f e. parts_of n s i f e \<and> q = parts_value s i f e)"

lemma is_number_iff: "is_number n \<longleftrightarrow> (\<exists>s i f e. parts_of n s i f e)"
  by (simp add: is_number_def parts_of_def)

section \<open>Digits\<close>

lemma dec_value_Nil [simp]: "dec_value [] = 0"
  by (simp add: dec_value_def)

lemma dec_fold: "foldl (\<lambda>v c. 10 * v + (c - 0x30)) x ds = x * 10 ^ length ds + dec_value ds"
proof (induction ds arbitrary: x)
  case (Cons d ds)
  show ?case
    using Cons [of "10 * x + (d - 0x30)"] Cons [of "d - 0x30"] by (simp add: dec_value_def algebra_simps)
qed (simp add: dec_value_def)

lemma dec_value_append: "dec_value (a @ b) = dec_value a * 10 ^ length b + dec_value b"
  using dec_fold [of "dec_value a" b] by (simp add: dec_value_def)

lemma dec_value_zero [simp]: "dec_value (0x30 # ds) = dec_value ds"
  by (simp add: dec_value_def)

lemma dec_value_zeros [simp]: "dec_value (replicate n 0x30 @ ds) = dec_value ds"
  by (induction n) simp_all

lemma of_char_digit: "is_digit c \<Longrightarrow> is_dec (of_char c)"
  by (auto simp: is_digit_def is_dec_def less_eq_char_def less_char_def)

lemma codes_show_nat: "digits (codes (show_nat n))" "dec_value (codes (show_nat n)) = n"
proof -
  have "list_all is_dec (codes (show_nat n))"
    using show_nat_digits [of n] of_char_digit by (auto simp: codes_def list_all_iff)
  then show "digits (codes (show_nat n))" by (simp add: digits_def codes_def)
  have "dec_value (codes cs) = digits_value cs" for cs
    by (induction cs rule: rev_induct)
      (simp_all add: codes_def dec_value_append digits_value_snoc digits_value_def [of "[]"], simp add: dec_value_def digit_value_def)
  then show "dec_value (codes (show_nat n)) = n" by simp
qed

lemma trim_zeros_cases:
  assumes "digits ds"
  shows "is_int (trim_zeros ds)" and "dec_value (trim_zeros ds) = dec_value ds"
    and "trim_zeros ds = [0x30] \<or> (\<exists>d ds'. trim_zeros ds = d # ds' \<and> d \<noteq> 0x30 \<and> is_dec d \<and> list_all is_dec ds')"
    and "list_all is_dec (trim_zeros ds)"
proof -
  have all: "list_all is_dec ds" using assms by (simp add: digits_def)
  have "trim_zeros ds = [0x30] \<and> dec_value ds = 0
    \<or> (\<exists>d ds'. trim_zeros ds = d # ds' \<and> d \<noteq> 0x30 \<and> is_dec d \<and> list_all is_dec ds' \<and> dec_value (d # ds') = dec_value ds)"
    using all by (induction ds) (auto simp: trim_zeros_def)
  then show "is_int (trim_zeros ds)" "dec_value (trim_zeros ds) = dec_value ds"
    "trim_zeros ds = [0x30] \<or> (\<exists>d ds'. trim_zeros ds = d # ds' \<and> d \<noteq> 0x30 \<and> is_dec d \<and> list_all is_dec ds')"
    "list_all is_dec (trim_zeros ds)"
    by (auto simp: is_int_def digits_def is_dec_def)
qed

lemma trim_zeros_zeros [simp]: "trim_zeros (replicate n 0x30 @ ds) = trim_zeros ds"
  by (induction n) (simp_all add: trim_zeros_def)

lemma trim_zeros_Cons [simp]: "trim_zeros (0x30 # ds) = trim_zeros ds" "d \<noteq> 0x30 \<Longrightarrow> trim_zeros (d # ds) = d # ds"
  by (simp_all add: trim_zeros_def)

lemma trim_zeros_idem: "digits ds \<Longrightarrow> trim_zeros (trim_zeros ds) = trim_zeros ds"
  using trim_zeros_cases(3) [of ds] by (auto simp: trim_zeros_def)

section \<open>Reading a number's parts\<close>

lemma is_int_dec: "is_int i \<Longrightarrow> digits i"
  by (auto simp: is_int_def digits_def is_dec_def)

lemma dec_not: "is_dec c \<Longrightarrow> c \<noteq> 0x2E \<and> c \<noteq> 0x65 \<and> c \<noteq> 0x45 \<and> c \<noteq> 0x2B \<and> c \<noteq> 0x2D"
  by (auto simp: is_dec_def)

lemma split_once_found: "(\<And>c. c \<in> set a \<Longrightarrow> \<not> P c) \<Longrightarrow> P c \<Longrightarrow> split_once P (a @ c # b) = Some (a, b)"
  by (simp add: split_once_def dropWhile_append3)

lemma split_once_none:
  assumes "\<And>c. c \<in> set a \<Longrightarrow> \<not> P c"
  shows "split_once P a = None"
proof -
  have "dropWhile (Not \<circ> P) a = []" using assms by (simp add: dropWhile_eq_Nil_conv)
  then show ?thesis unfolding split_once_def by (simp only: list.case)
qed

lemma parse_i32_signed:
  assumes "s = [] \<or> s = [0x2B] \<or> s = [0x2D]" and "digits ds"
  shows "parse_i32 (s @ ds) = (if i32 (signed_dec (s @ ds)) then Some (signed_dec (s @ ds)) else None)"
proof -
  from assms(2) obtain d ds' where "ds = d # ds'" "is_dec d" by (cases ds) (auto simp: digits_def)
  with assms show ?thesis
    by (auto simp: parse_i32_def signed_dec_def Let_def digits_def is_dec_def)
qed

lemma frac_digits: "is_frac f \<Longrightarrow> list_all is_dec (tl f)"
  by (auto simp: is_frac_def digits_def)

lemma bigdecimal_of_parts:
  assumes "parts_of n s i f e"
  shows "java_bigdecimal_text n =
    (if i32 (exp_value e) then java_bigdecimal (s \<noteq> []) (i @ tl f) (int (length (tl f)) - exp_value e) else n)"
proof -
  have p: "n = s @ i @ f @ e" "is_sign s" "is_int i" "is_frac f" "is_exp e" using assms by (simp_all add: parts_of_def)
  obtain x i' where i: "i = x # i'" "is_dec x" using is_int_dec [OF p(3)] by (cases i) (auto simp: digits_def)
  have neg: "starts 0x2D n \<longleftrightarrow> s \<noteq> []" "(if s \<noteq> [] then tl n else n) = i @ f @ e"
    using p(1,2) i by (auto simp: is_sign_def is_dec_def)
  have plain: "c \<noteq> 0x65 \<and> c \<noteq> 0x45" if "c \<in> set (i @ f)" for c
  proof -
    have "\<forall>c \<in> set i. is_dec c" "\<forall>c \<in> set f. is_dec c \<or> c = 0x2E"
      using is_int_dec [OF p(3)] p(4) by (auto simp: digits_def list_all_iff is_frac_def)
    with that dec_not [of c] show ?thesis by auto
  qed
  have parts: "(case split_once (\<lambda>c. c = 0x65 \<or> c = 0x45) (i @ f @ e) of
      None \<Rightarrow> Some (i @ f @ e, 0) | Some (m, e) \<Rightarrow> map_option (Pair m) (parse_i32 e))
    = (if i32 (exp_value e) then Some (i @ f, exp_value e) else None)"
  proof (cases "e = []")
    case True
    then show ?thesis using split_once_none [of "i @ f"] plain by (simp add: exp_value_def i32_def)
  next
    case False
    with p(5) obtain m sg ds where e: "e = m # sg @ ds" "m = 0x65 \<or> m = 0x45" "sg = [] \<or> sg = [0x2B] \<or> sg = [0x2D]" "digits ds"
      by (auto simp: is_exp_def)
    have "split_once (\<lambda>c. c = 0x65 \<or> c = 0x45) ((i @ f) @ m # sg @ ds) = Some (i @ f, sg @ ds)"
      by (rule split_once_found) (use plain e(2) in auto)
    then show ?thesis using e parse_i32_signed [OF e(3,4)] by (simp add: exp_value_def)
  qed
  have point: "(case split_once (\<lambda>c. c = 0x2E) (i @ f) of None \<Rightarrow> (i @ f, []) | Some p \<Rightarrow> p) = (i, tl f)"
  proof (cases "f = []")
    case True
    then show ?thesis using split_once_none [of i "\<lambda>c. c = 0x2E"] is_int_dec [OF p(3)] dec_not
      by (simp add: digits_def list_all_iff)
  next
    case False
    with p(4) obtain ds where f: "f = 0x2E # ds" by (auto simp: is_frac_def)
    have "split_once (\<lambda>c. c = 0x2E) (i @ 0x2E # ds) = Some (i, ds)"
      by (rule split_once_found) (use is_int_dec [OF p(3)] dec_not in \<open>auto simp: digits_def list_all_iff\<close>)
    then show ?thesis by (simp add: f)
  qed
  show ?thesis
    unfolding java_bigdecimal_text_def Let_def neg parts using point by simp
qed

section \<open>The three layouts\<close>

lemma shown_exponent:
  "is_exp (0x45 # (if a \<ge> 0 then 0x2B # codes (show_int a) else codes (show_int a)))"
  "exp_value (0x45 # (if a \<ge> 0 then 0x2B # codes (show_int a) else codes (show_int a))) = a"
proof -
  have neg: "codes (show_int a) = 0x2D # codes (show_nat (nat (- a)))" if "a < 0"
    using that by (simp add: show_int_def codes_def)
  have pos: "codes (show_int a) = codes (show_nat (nat a))" if "a \<ge> 0" using that by (simp add: show_int_def)
  have "is_exp (0x45 # 0x2D # codes (show_nat k))" "is_exp (0x45 # 0x2B # codes (show_nat k))" for k
    using codes_show_nat(1) [of k] unfolding is_exp_def by (metis append_Cons append_Nil)+
  then show "is_exp (0x45 # (if a \<ge> 0 then 0x2B # codes (show_int a) else codes (show_int a)))"
    using neg pos by simp
  show "exp_value (0x45 # (if a \<ge> 0 then 0x2B # codes (show_int a) else codes (show_int a))) = a"
    using neg pos codes_show_nat(2) by (simp add: exp_value_def signed_dec_def)
qed

lemma java_bigdecimal_parts:
  assumes ds: "digits ds"
  shows "\<exists>s i f e. parts_of (java_bigdecimal neg ds sc) s i f e \<and> (s \<noteq> [] \<longleftrightarrow> neg \<and> trim_zeros ds \<noteq> [0x30])
    \<and> trim_zeros (i @ tl f) = trim_zeros ds \<and> dec_value (i @ tl f) = dec_value ds
    \<and> int (length (tl f)) - exp_value e = sc"
proof -
  let ?t = "trim_zeros ds"
  let ?p = "int (length ?t)"
  let ?s = "if neg \<and> ?t \<noteq> [0x30] then [0x2D :: nat] else []"
  note t = trim_zeros_cases [OF ds]
  have idem: "trim_zeros ?t = ?t" by (rule trim_zeros_idem [OF ds])
  have nonempty: "?t \<noteq> []" using t(3) by auto
  have s: "is_sign ?s" "?s \<noteq> [] \<longleftrightarrow> neg \<and> ?t \<noteq> [0x30]" by (auto simp: is_sign_def)
  have built: "\<exists>s i f e. parts_of (java_bigdecimal neg ds sc) s i f e \<and> (s \<noteq> [] \<longleftrightarrow> neg \<and> ?t \<noteq> [0x30])
    \<and> trim_zeros (i @ tl f) = ?t \<and> dec_value (i @ tl f) = dec_value ds \<and> int (length (tl f)) - exp_value e = sc"
    if "java_bigdecimal neg ds sc = ?s @ i @ f @ e" "is_int i" "is_frac f" "is_exp e" "trim_zeros (i @ tl f) = ?t"
      "dec_value (i @ tl f) = dec_value ?t" "int (length (tl f)) - exp_value e = sc" for i f e
    using that s t(2) unfolding parts_of_def by (intro exI [of _ ?s] exI [of _ i] exI [of _ f] exI [of _ e]) simp
  consider "sc = 0" | "sc > 0" "- sc + (?p - 1) \<ge> - 6" "?p > sc" | "sc > 0" "- sc + (?p - 1) \<ge> - 6" "\<not> ?p > sc"
    | "\<not> (sc = 0 \<or> sc > 0 \<and> - sc + (?p - 1) \<ge> - 6)" by argo
  then show ?thesis
  proof cases
    case 1
    then show ?thesis using t(1) idem by (intro built [of ?t "[]" "[]"])
      (simp_all add: java_bigdecimal_def Let_def is_frac_def is_exp_def exp_value_def)
  next
    case 2
    let ?n = "nat (?p - sc)"
    have n: "0 < ?n" "?n < length ?t" using 2 by auto
    then obtain d ds' where dt: "?t = d # ds'" "d \<noteq> 0x30" using t(3) by (cases ?t) auto
    have "list_all is_dec (take ?n ?t)" "list_all is_dec (drop ?n ?t)"
      using t(4) by (auto simp: list_all_iff dest: in_set_takeD in_set_dropD)
    moreover have "take ?n ?t \<noteq> []" "hd (take ?n ?t) = d" "drop ?n ?t \<noteq> []" using n dt(1) by auto
    ultimately have "is_int (take ?n ?t)" "is_frac (0x2E # drop ?n ?t)"
      using dt(2) by (auto simp: is_int_def is_frac_def digits_def)
    then show ?thesis using 2 idem n by (intro built [of "take ?n ?t" "0x2E # drop ?n ?t" "[]"])
      (simp_all add: java_bigdecimal_def Let_def is_exp_def exp_value_def)
  next
    case 3
    let ?z = "replicate (nat (sc - ?p)) (0x30 :: nat)"
    have "list_all is_dec ?z" by (simp add: is_dec_def list_all_iff)
    then have "is_frac (0x2E # ?z @ ?t)" using t(4) nonempty by (auto simp: is_frac_def digits_def)
    moreover have "dec_value (0x30 # ?z @ ?t) = dec_value ?t" by simp
    ultimately show ?thesis using 3 idem by (intro built [of "[0x30]" "0x2E # ?z @ ?t" "[]"])
      (simp_all add: java_bigdecimal_def Let_def is_exp_def exp_value_def is_int_def)
  next
    case 4
    let ?a = "- sc + (?p - 1)"
    let ?e = "0x45 # (if ?a \<ge> 0 then 0x2B # codes (show_int ?a) else codes (show_int ?a))"
    let ?f = "if tl ?t = [] then [] else 0x2E # tl ?t"
    obtain d ds' where dt: "?t = d # ds'" using nonempty by (cases ?t) auto
    with t(4) have dd: "is_dec d" "list_all is_dec ds'" by auto
    have f: "tl ?f = ds'" "is_frac ?f" using dt dd by (auto simp: is_frac_def digits_def)
    have i: "is_int [d]" using dd(1) by (auto simp: is_int_def digits_def)
    from 4 have n: "sc \<noteq> 0" "\<not> (sc > 0 \<and> ?a \<ge> - 6)" by blast+
    have "java_bigdecimal neg ds sc = ?s @ (if tl ?t = [] then [hd ?t] else hd ?t # 0x2E # tl ?t) @ ?e"
      unfolding java_bigdecimal_def Let_def if_not_P [OF n(1)] if_not_P [OF n(2)] by (rule refl)
    also have "\<dots> = ?s @ [d] @ ?f @ ?e" using dt by simp
    finally have "java_bigdecimal neg ds sc = ?s @ [d] @ ?f @ ?e" .
    moreover have "int (length (tl ?f)) - exp_value ?e = sc" unfolding f(1) shown_exponent(2) using dt by simp
    ultimately show ?thesis using i f shown_exponent(1) [of ?a] dt idem
      by (intro built [of "[d]" ?f ?e]) (simp_all only: append_Cons append_Nil f(1))
  qed
qed

section \<open>BigDecimal's spelling\<close>

lemma java_bigdecimal_trim:
  assumes "digits ds" and "trim_zeros ds' = trim_zeros ds" and "neg' \<longleftrightarrow> neg \<and> trim_zeros ds \<noteq> [0x30]"
  shows "java_bigdecimal neg' ds' sc = java_bigdecimal neg ds sc"
  using assms(3) by (cases "trim_zeros ds = [0x30]") (simp_all add: java_bigdecimal_def assms(2))

lemma parts_digits: "parts_of n s i f e \<Longrightarrow> digits (i @ tl f)"
  using is_int_dec [of i] frac_digits [of f] by (auto simp: parts_of_def digits_def)

lemma bigdecimal_text_of_parts:
  assumes p: "parts_of n s i f e"
  shows "is_number (java_bigdecimal_text n) \<and> denotes (java_bigdecimal_text n) (parts_value s i f e)
    \<and> java_bigdecimal_text (java_bigdecimal_text n) = java_bigdecimal_text n"
proof (cases "i32 (exp_value e)")
  case False
  then have "java_bigdecimal_text n = n" using bigdecimal_of_parts [OF p] by simp
  with p show ?thesis by (auto simp: is_number_iff denotes_def)
next
  case True
  let ?sc = "int (length (tl f)) - exp_value e"
  note ds = parts_digits [OF p]
  have n: "java_bigdecimal_text n = java_bigdecimal (s \<noteq> []) (i @ tl f) ?sc" using bigdecimal_of_parts [OF p] True by simp
  from java_bigdecimal_parts [OF ds, of "s \<noteq> []" ?sc] obtain s' i' f' e' where
    p': "parts_of (java_bigdecimal_text n) s' i' f' e'" and sgn: "s' \<noteq> [] \<longleftrightarrow> s \<noteq> [] \<and> trim_zeros (i @ tl f) \<noteq> [0x30]"
    and t: "trim_zeros (i' @ tl f') = trim_zeros (i @ tl f)" and v: "dec_value (i' @ tl f') = dec_value (i @ tl f)"
    and sc: "int (length (tl f')) - exp_value e' = ?sc" unfolding n by blast
  have "parts_value s' i' f' e' = parts_value s i f e"
  proof (cases "trim_zeros (i @ tl f) = [0x30]")
    case True
    then have "dec_value (i @ tl f) = 0" using trim_zeros_cases(2) [OF ds] by simp
    with v show ?thesis by (simp add: parts_value_def)
  next
    case False
    have "exp_value e' - int (length (tl f')) = exp_value e - int (length (tl f))" using sc by simp
    with False sgn v show ?thesis by (simp add: parts_value_def)
  qed
  moreover have "java_bigdecimal_text (java_bigdecimal_text n) = java_bigdecimal_text n"
  proof (cases "i32 (exp_value e')")
    case True
    then have "java_bigdecimal_text (java_bigdecimal_text n) = java_bigdecimal (s' \<noteq> []) (i' @ tl f') ?sc"
      using bigdecimal_of_parts [OF p'] sc by simp
    also have "\<dots> = java_bigdecimal (s \<noteq> []) (i @ tl f) ?sc" by (rule java_bigdecimal_trim [OF ds t sgn])
    finally show ?thesis using n by simp
  qed (use bigdecimal_of_parts [OF p'] in simp)
  ultimately show ?thesis using p' unfolding is_number_iff denotes_def by metis
qed

text \<open>
  C21. \<open>json_parse\<close>'s numbers are what Java's are: the respelling of a JSON number is a JSON number of the
  same value, and a number so spelt is left as it is, however many digits it has and wherever its point and
  its exponent put them.
\<close>

theorem bigdecimal_text_keeps_the_value:
  assumes "is_number n"
  shows "is_number (java_bigdecimal_text n)
    \<and> (\<forall>q. denotes n q \<longrightarrow> denotes (java_bigdecimal_text n) q)
    \<and> java_bigdecimal_text (java_bigdecimal_text n) = java_bigdecimal_text n"
  using assms bigdecimal_text_of_parts unfolding is_number_iff denotes_def by metis

theorem bigdecimal_text_keeps_the_value_witness:
  "java_bigdecimal_text (codes ''-0.0012e-4'') = codes ''-1.2E-7''
     \<and> denotes (codes ''-1.2E-7'') (parts_value [0x2D] [0x30] (codes ''.0012'') (codes ''e-4''))"
proof -
  have "is_exp (codes ''e-4'')"
    unfolding is_exp_def
    by (intro disjI2, rule exI [of _ "0x65"], rule exI [of _ "[0x2D]"], rule exI [of _ "[0x34]"])
      (simp add: codes_def digits_def is_dec_def)
  then have n: "parts_of (codes ''-0.0012e-4'') [0x2D] [0x30] (codes ''.0012'') (codes ''e-4'')"
    by (simp add: parts_of_def is_sign_def is_int_def is_frac_def) (simp add: codes_def digits_def is_dec_def)
  then have "is_number (codes ''-0.0012e-4'')" by (auto simp: is_number_iff)
  moreover have "java_bigdecimal_text (codes ''-0.0012e-4'') = codes ''-1.2E-7''" by code_simp
  ultimately show ?thesis using bigdecimal_text_keeps_the_value [of "codes ''-0.0012e-4''"] n
    unfolding denotes_def by metis
qed

section \<open>Double's spelling\<close>

text \<open>
  What the standard library promises of \<open>{:e}\<close>: of a double that is neither zero, infinite nor NaN it
  gives a first digit that is not zero, the others after a point, and an exponent.
\<close>

definition float_text_ok :: "float_text \<Rightarrow> bool" where
  "float_text_ok ft \<longleftrightarrow> (\<forall>v. \<not> f64_is_nan v \<and> \<not> f64_is_infinite v \<and> f64_magnitude v \<noteq> 0 \<longrightarrow>
     (\<exists>d ds e. ft_sci ft v = d # (if ds = [] then [] else 0x2E # ds) @ 0x65 # codes (show_int e)
        \<and> is_dec d \<and> d \<noteq> 0x30 \<and> list_all is_dec ds \<and> i32 e))"

lemma signed_dec_show: "signed_dec (codes (show_int e)) = e" "parse_i32 (codes (show_int e)) = (if i32 e then Some e else None)"
proof -
  obtain s ds where c: "codes (show_int e) = s @ ds" "s = [] \<or> s = [0x2B] \<or> s = [0x2D]" "digits ds"
    "signed_dec (codes (show_int e)) = e"
  proof (cases "e < 0")
    case True
    then have "codes (show_int e) = [0x2D] @ codes (show_nat (nat (- e)))" by (simp add: show_int_def codes_def)
    with True codes_show_nat [of "nat (- e)"] that [of "[0x2D]" "codes (show_nat (nat (- e)))"] show ?thesis
      by (simp add: signed_dec_def)
  next
    case False
    then have e: "codes (show_int e) = codes (show_nat (nat e))" by (simp add: show_int_def)
    obtain d ds where ds: "codes (show_nat (nat e)) = d # ds" "is_dec d"
      using codes_show_nat(1) [of "nat e"] by (cases "codes (show_nat (nat e))") (auto simp: digits_def)
    then have "signed_dec (codes (show_int e)) = int (dec_value (codes (show_nat (nat e))))"
      by (auto simp: e signed_dec_def is_dec_def)
    with False e codes_show_nat [of "nat e"] that [of "[]"] show ?thesis by simp
  qed
  then show "signed_dec (codes (show_int e)) = e" "parse_i32 (codes (show_int e)) = (if i32 e then Some e else None)"
    using parse_i32_signed [OF c(2,3)] by simp_all
qed

lemma plain_layout_number:
  assumes "is_dec d" "d \<noteq> 0x30" "list_all is_dec ds"
  shows "\<exists>i f. plain_layout (d # ds) e = i @ f \<and> is_int i \<and> is_frac f"
proof -
  let ?ds = "d # ds" and ?p = "e + 1"
  have all: "list_all is_dec (replicate n 0x30)" for n by (simp add: is_dec_def list_all_iff)
  consider "?p \<le> 0" | "0 < ?p" "length ?ds \<le> nat ?p" | "0 < ?p" "nat ?p < length ?ds" by linarith
  then show ?thesis
  proof cases
    case 1
    have "is_int [0x30]" "is_frac (0x2E # replicate (nat (- ?p)) 0x30 @ ?ds)"
      using assms all by (simp_all add: is_int_def is_frac_def digits_def)
    moreover have "plain_layout ?ds e = [0x30] @ 0x2E # replicate (nat (- ?p)) 0x30 @ ?ds"
      using 1 by (simp add: plain_layout_def Let_def)
    ultimately show ?thesis by blast
  next
    case 2
    have "is_int (?ds @ replicate (nat ?p - length ?ds) 0x30)" "is_frac [0x2E, 0x30]"
      using assms all by (simp_all add: is_int_def is_frac_def digits_def is_dec_def)
    moreover have "plain_layout ?ds e = (?ds @ replicate (nat ?p - length ?ds) 0x30) @ [0x2E, 0x30]"
      using 2 by (simp add: plain_layout_def Let_def)
    ultimately show ?thesis by blast
  next
    case 3
    have "\<forall>x \<in> set ?ds. is_dec x" using assms by (simp add: list_all_iff)
    then have "list_all is_dec (take (nat ?p) ?ds)" "list_all is_dec (drop (nat ?p) ?ds)"
      unfolding list_all_iff by (meson in_set_takeD in_set_dropD)+
    moreover have "take (nat ?p) ?ds \<noteq> []" "hd (take (nat ?p) ?ds) = d" "drop (nat ?p) ?ds \<noteq> []" using 3 by auto
    ultimately have "is_int (take (nat ?p) ?ds)" "is_frac (0x2E # drop (nat ?p) ?ds)"
      using assms(2) by (auto simp: is_int_def is_frac_def digits_def)
    moreover have "plain_layout ?ds e = take (nat ?p) ?ds @ 0x2E # drop (nat ?p) ?ds"
      using 3 by (simp add: plain_layout_def Let_def)
    ultimately show ?thesis by blast
  qed
qed

lemma shown_small_exponent: "is_exp (0x45 # codes (show_int e))"
proof -
  have "is_exp (0x45 # s @ codes (show_nat k))" if "s = [] \<or> s = [0x2D]" for s k
    using that codes_show_nat(1) [of k] unfolding is_exp_def by blast
  from this [of "[]"] this [of "[0x2D]"] show ?thesis by (auto simp: show_int_def codes_def)
qed

lemma java_double_number:
  assumes ok: "float_text_ok ft" and v: "\<not> f64_is_nan v" "\<not> f64_is_infinite v"
  shows "\<exists>n. java_double ft v = Some n \<and> is_number n"
proof (cases "f64_magnitude v = 0")
  case True
  have "is_number (codes ''-0.0'')" "is_number (codes ''0.0'')"
    unfolding is_number_def
    by (rule exI [of _ "[0x2D]"] exI [of _ "[]"], rule exI [of _ "[0x30]"], rule exI [of _ "[0x2E, 0x30]"], rule exI [of _ "[]"],
        simp add: codes_def is_sign_def is_int_def is_frac_def is_exp_def digits_def is_dec_def)+
  with True v show ?thesis by (simp add: java_double_def)
next
  case False
  let ?m = "word_of_nat (f64_magnitude v) :: f64"
  have small: "f64_magnitude v < 2 ^ 63"
  proof -
    have "unat v < 2 ^ 64" using unsigned_less [where w = v and 'a = nat] by simp
    then show ?thesis by (auto simp: f64_magnitude_def f64_negative_def)
  qed
  then have "unat ?m = f64_magnitude v" by (simp add: unat_of_nat)
  with small have m: "f64_magnitude ?m = f64_magnitude v" by (simp add: f64_magnitude_def [of ?m] f64_negative_def)
  have "\<not> f64_is_nan ?m" "\<not> f64_is_infinite ?m" using v by (simp_all add: f64_is_nan_def f64_is_infinite_def m)
  with ok m False obtain d ds e where sci: "ft_sci ft ?m = d # (if ds = [] then [] else 0x2E # ds) @ 0x65 # codes (show_int e)"
    and ds: "is_dec d" "d \<noteq> 0x30" "list_all is_dec ds" "i32 e" unfolding float_text_ok_def by metis
  define mant where "mant = d # (if ds = [] then [] else 0x2E # ds)"
  have nd: "c \<noteq> 0x2E \<and> c \<noteq> 0x65" if "c \<in> set (d # ds)" for c using that ds dec_not by (auto simp: list_all_iff)
  have sp: "split_once (\<lambda>c. c = 0x65) (ft_sci ft ?m) = Some (mant, codes (show_int e))"
    unfolding sci mant_def append_Cons [symmetric] by (rule split_once_found) (use nd in \<open>auto split: if_splits\<close>)
  have "filter (\<lambda>c. c \<noteq> 0x2E) ds = ds" using nd by (simp add: filter_id_conv)
  then have fl: "filter (\<lambda>c. c \<noteq> 0x2E) mant = d # ds" using nd [of d] by (simp add: mant_def)
  let ?s = "if f64_negative v then [0x2D :: nat] else []"
  have "\<exists>i f x. (if 0x3F50624DD2F1A9FC \<le> f64_magnitude v \<and> f64_magnitude v < 0x416312D000000000
                   then plain_layout (d # ds) e
                   else d # 0x2E # (if ds = [] then [0x30] else ds) @ 0x45 # codes (show_int e)) = i @ f @ x
      \<and> is_int i \<and> is_frac f \<and> is_exp x"
  proof (cases "0x3F50624DD2F1A9FC \<le> f64_magnitude v \<and> f64_magnitude v < 0x416312D000000000")
    case True
    from plain_layout_number [OF ds(1-3), of e] obtain i f where "plain_layout (d # ds) e = i @ f @ []" "is_int i" "is_frac f"
      by auto
    with True show ?thesis by (metis is_exp_def)
  next
    case False
    have "is_int [d]" "is_frac (0x2E # (if ds = [] then [0x30] else ds))"
      using ds by (auto simp: is_int_def is_frac_def digits_def is_dec_def)
    with False shown_small_exponent [of e] show ?thesis
      by (intro exI [of _ "[d]"] exI [of _ "0x2E # (if ds = [] then [0x30] else ds)"] exI [of _ "0x45 # codes (show_int e)"]) auto
  qed
  then obtain i f x where p: "is_int i" "is_frac f" "is_exp x" and
    l: "(if 0x3F50624DD2F1A9FC \<le> f64_magnitude v \<and> f64_magnitude v < 0x416312D000000000
                   then plain_layout (d # ds) e
                   else d # 0x2E # (if ds = [] then [0x30] else ds) @ 0x45 # codes (show_int e)) = i @ f @ x" by blast
  have "java_double ft v = Some (?s @ i @ f @ x)"
    using v False ds(4) l by (auto simp: java_double_def Let_def sp fl signed_dec_show(2) split: if_splits)
  moreover have "is_number (?s @ i @ f @ x)" unfolding is_number_def
    by (rule exI [of _ ?s], rule exI [of _ i], rule exI [of _ f], rule exI [of _ x]) (use p in \<open>simp add: is_sign_def\<close>)
  ultimately show ?thesis by blast
qed

lemma number_text_number:
  assumes "is_number n" and "numbers = JavaDouble \<Longrightarrow> float_text_ok ft"
  shows "is_number (number_text ft numbers n)"
proof (cases numbers)
  case BigDecimal
  obtain s i f e where "parts_of n s i f e" using assms(1) by (auto simp: is_number_iff)
  with bigdecimal_text_of_parts BigDecimal assms(1) show ?thesis by (auto simp: number_text_def)
next
  case JavaDouble
  with assms java_double_number [of ft] show ?thesis
    by (fastforce simp: number_text_def split: option.splits)
qed

end
