(* ===== verification/Json_Spec.thy ===== *)
theory Json_Spec
  imports Json_Numbers "HOL-Library.Multiset"
begin

text \<open>
  What \<open>Json_Text\<close> writes: a text that reads back as the value, its members ordered and its numbers
  respelled as asked; and the order in which a Java hash map iterates its keys.
\<close>

section \<open>Strings\<close>

lemma hex_value_upper [simp]: "d < 16 \<Longrightarrow> hex_value (hex_upper d) = Some d"
  by (auto simp: hex_value_def hex_upper_def)





section \<open>Members\<close>














lemma order_members_empty [simp]: "order_members m [] = []"
  by (cases m) (simp_all add: order_members_def last_wins_def)

section \<open>What is written reads back\<close>






lemma ws_Nil [simp]: "ws []"
  by (simp add: ws_def)














end
