(* ===== verification/Json_Order.thy ===== *)
theory Json_Order
  imports Json_Text "HOL-Library.Multiset"
begin

text \<open>
  The order \<open>java_hashmap_order\<close> of \<open>Json_Text\<close> computes, building the table as Java does, with its chains
  and its resizes: keys come by slot, those of one slot as they were put in.
\<close>

section \<open>Slots\<close>

lemma slot_of_power:
  assumes "k < 64" and "h < 2 ^ 64"
  shows "slot_of (2 ^ k) h = h mod 2 ^ k"
proof -
  have mask: "(word_of_nat (2 ^ k - 1) :: 64 word) = mask k"
    by (simp add: mask_eq_exp_minus_1 of_nat_diff)
  have "unat ((word_of_nat h :: 64 word) AND mask k) = take_bit k (unat (word_of_nat h :: 64 word))"
    by (simp add: take_bit_eq_mask [symmetric] unsigned_take_bit_eq)
  also have "unat (word_of_nat h :: 64 word) = h" using assms(2) by (simp add: unat_of_nat)
  finally show ?thesis unfolding slot_of_def mask by (simp add: take_bit_eq_mod)
qed

lemma spread_hash_range: "spread_hash s < 2 ^ 64"
proof -
  have "spread_hash s < 2 ^ 32" unfolding spread_hash_def
    using unsigned_less [where 'a = nat and w = "java_string_hash s XOR drop_bit 16 (java_string_hash s)"] by simp
  then show ?thesis by simp
qed

text \<open>The table of the first \<open>n\<close> keys: each slot's chain in the order of insertion.\<close>

definition chains :: "nat list \<Rightarrow> nat \<Rightarrow> nat \<Rightarrow> nat list list" where
  "chains spread n cap = map (\<lambda>s. filter (\<lambda>i. spread ! i mod cap = s) [0..<n]) [0..<cap]"

lemma length_chains [simp]: "length (chains spread n cap) = cap"
  by (simp add: chains_def)

lemma push_chain:
  assumes "0 < cap"
  shows "push_at (spread ! n mod cap) n (chains spread n cap) = chains spread (Suc n) cap"
proof (rule nth_equalityI)
  fix s assume "s < length (push_at (spread ! n mod cap) n (chains spread n cap))"
  then have "s < cap" by (simp add: push_at_def)
  then show "push_at (spread ! n mod cap) n (chains spread n cap) ! s = chains spread (Suc n) cap ! s"
    using assms by (simp add: push_at_def nth_list_update chains_def)
qed (simp add: push_at_def)

lemma push_all:
  assumes "\<And>i. i \<in> set xs \<Longrightarrow> g i < length base"
  shows "foldl (\<lambda>nxt i. push_at (g i) i nxt) base xs = map (\<lambda>s. base ! s @ filter (\<lambda>i. g i = s) xs) [0..<length base]"
  using assms
proof (induction xs arbitrary: base)
  case Nil
  then show ?case by (simp add: map_nth)
next
  case (Cons x xs)
  then have "foldl (\<lambda>nxt i. push_at (g i) i nxt) (push_at (g x) x base) xs
      = map (\<lambda>s. push_at (g x) x base ! s @ filter (\<lambda>i. g i = s) xs) [0..<length (push_at (g x) x base)]"
    by (intro Cons.IH) (simp add: push_at_def)
  also have "\<dots> = map (\<lambda>s. base ! s @ filter (\<lambda>i. g i = s) (x # xs)) [0..<length base]"
    using Cons.prems by (auto simp: push_at_def nth_list_update)
  finally show ?case by simp
qed

lemma filter_concat_chains:
  assumes "s < 2 * cap" and "0 < cap"
  shows "filter (\<lambda>i. spread ! i mod (2 * cap) = s) (concat (chains spread n cap)) = filter (\<lambda>i. spread ! i mod (2 * cap) = s) [0..<n]"
proof -
  let ?P = "\<lambda>i. spread ! i mod (2 * cap) = s"
  have low: "spread ! i mod cap = s mod cap" if "?P i" for i
  proof -
    from that have "s mod cap = spread ! i mod (2 * cap) mod cap" by simp
    also have "\<dots> = spread ! i mod cap" by (rule mod_mod_cancel) (rule dvd_triv_right)
    finally show ?thesis by (rule sym)
  qed
  have other: "filter ?P (filter (\<lambda>i. spread ! i mod cap = t) [0..<n]) = (if t = s mod cap then filter ?P [0..<n] else [])" for t
  proof (cases "t = s mod cap")
    case True
    have "\<And>i. (spread ! i mod cap = t \<and> ?P i) = ?P i" using low True by blast
    with True show ?thesis by (simp only: filter_filter if_True refl)
  next
    case False
    then have "\<And>i. (spread ! i mod cap = t \<and> ?P i) = False" using low by blast
    with False show ?thesis by (simp only: filter_filter if_False) simp
  qed
  have "filter ?P (concat (chains spread n cap)) = concat (map (\<lambda>t. if t = s mod cap then filter ?P [0..<n] else []) [0..<cap])"
    by (simp only: filter_concat chains_def map_map comp_def other)
  also have "\<dots> = filter ?P [0..<n]"
  proof -
    have "concat (map (\<lambda>t. if t = r then ys else []) [0..<m]) = (if r < m then ys else [])" for r m and ys :: "nat list"
      by (induction m) auto
    then show ?thesis using assms(2) by simp
  qed
  finally show ?thesis .
qed

lemma chains_set: "i \<in> set (concat (chains spread n cap)) \<Longrightarrow> i < n"
  by (auto simp: chains_def)

lemma resize_chains:
  assumes "Suc k < 64" and "\<forall>i < n. spread ! i < 2 ^ 64"
  shows "resize_slots spread (chains spread n (2 ^ k), 2 ^ k) = (chains spread n (2 ^ Suc k), 2 ^ Suc k)"
proof -
  let ?c = "2 ^ k :: nat"
  have slot: "slot_of (?c * 2) (spread ! i) = spread ! i mod (2 * ?c)" if "i < n" for i
    using slot_of_power [of "Suc k" "spread ! i"] assms that by (simp add: mult.commute)
  have "foldl (\<lambda>nxt i. push_at (slot_of (?c * 2) (spread ! i)) i nxt) (replicate (?c * 2) []) (concat (chains spread n ?c))
      = foldl (\<lambda>nxt i. push_at (spread ! i mod (2 * ?c)) i nxt) (replicate (?c * 2) []) (concat (chains spread n ?c))"
    by (rule foldl_cong) (use slot chains_set in auto)
  also have "\<dots> = map (\<lambda>s. replicate (?c * 2) [] ! s @ filter (\<lambda>i. spread ! i mod (2 * ?c) = s) (concat (chains spread n ?c)))
      [0..<length (replicate (?c * 2) ([] :: nat list))]"
    by (rule push_all) (simp add: mult.commute [of ?c 2])
  also have "\<dots> = chains spread n (2 ^ Suc k)"
    by (auto simp: chains_def [of spread n "2 * ?c"] filter_concat_chains mult.commute)
  finally show ?thesis by (simp add: resize_slots_def mult.commute)
qed

section \<open>Putting keys in\<close>

text \<open>
  A table of \<open>n\<close> keys: its capacity is a power of two with room for a third more keys, and no larger than
  resizing makes it.
\<close>

definition hash_table_ok :: "nat list \<Rightarrow> nat \<Rightarrow> nat list list \<times> nat \<Rightarrow> bool" where
  "hash_table_ok spread n t \<longleftrightarrow> (\<exists>k. 4 \<le> k \<and> t = (chains spread n (2 ^ k), 2 ^ k)
     \<and> n \<le> 2 ^ k * 3 div 4 \<and> ((2 :: nat) ^ k \<le> 64 \<or> 2 ^ k < 4 * n))"

lemma put_key_ok:
  assumes "hash_table_ok spread n t" and n: "n < 2 ^ 60" and h: "\<forall>i < Suc n. spread ! i < 2 ^ 64"
  shows "hash_table_ok spread (Suc n) (put_key spread n t)"
proof -
  from assms(1) obtain k where k: "4 \<le> k" and t: "t = (chains spread n (2 ^ k), 2 ^ k)"
    and load: "n \<le> 2 ^ k * 3 div 4" and size: "2 ^ k \<le> (64 :: nat) \<or> 2 ^ k < 4 * n" unfolding hash_table_ok_def by blast
  have "(2 :: nat) ^ k < 2 ^ 62" using size n by auto
  then have k62: "k < 62" by (rule power_less_imp_less_exp [rotated]) simp
  let ?t1 = "(chains spread (Suc n) (2 ^ k), 2 ^ k :: nat)"
  have slot: "slot_of (2 ^ k) (spread ! n) = spread ! n mod 2 ^ k" using slot_of_power [of k "spread ! n"] k62 h by simp
  have h1: "\<forall>i < Suc n. spread ! i < 2 ^ 64" using h .
  have res: "resize_slots spread (chains spread (Suc n) (2 ^ j), 2 ^ j) = (chains spread (Suc n) (2 ^ Suc j), 2 ^ Suc j)"
    if "j < 63" for j using resize_chains [OF _ h1] that by simp
  define t2 where "t2 = (if length (chains spread n (2 ^ k) ! (spread ! n mod 2 ^ k)) \<ge> treeify_threshold \<and> (2 :: nat) ^ k < min_treeify_capacity
      then resize_slots spread ?t1 else ?t1)"
  have "\<exists>j. k \<le> j \<and> j < 63 \<and> t2 = (chains spread (Suc n) (2 ^ j), 2 ^ j) \<and> n \<le> 2 ^ j * 3 div 4
      \<and> ((2 :: nat) ^ j \<le> 64 \<or> 2 ^ j < 4 * n)"
  proof (cases "length (chains spread n (2 ^ k) ! (spread ! n mod 2 ^ k)) \<ge> treeify_threshold \<and> (2 :: nat) ^ k < min_treeify_capacity")
    case True
    then have "(2 :: nat) ^ k < 2 ^ 6" by (simp add: min_treeify_capacity_def)
    then have "k < 6" by (rule power_less_imp_less_exp [rotated]) simp
    then have "(2 :: nat) ^ Suc k \<le> 2 ^ 6" by (intro power_increasing) simp_all
    moreover have "t2 = (chains spread (Suc n) (2 ^ Suc k), 2 ^ Suc k)" using True k62 by (simp add: t2_def res)
    moreover have "n \<le> 2 ^ Suc k * 3 div 4" using load by simp
    ultimately show ?thesis using k62 by (intro exI [of _ "Suc k"]) simp
  next
    case False
    then show ?thesis using k62 load size by (intro exI [of _ k]) (auto simp: t2_def)
  qed
  then obtain j where j: "k \<le> j" "j < 63" "t2 = (chains spread (Suc n) (2 ^ j), 2 ^ j)" "n \<le> 2 ^ j * 3 div 4"
    "(2 :: nat) ^ j \<le> 64 \<or> 2 ^ j < 4 * n" by blast
  have put: "put_key spread n t = (if n + 1 > snd t2 * 3 div 4 then resize_slots spread t2 else t2)"
    using push_chain [of "2 ^ k" spread n] by (simp add: put_key_def t slot t2_def Let_def)
  show ?thesis
  proof (cases "n + 1 > 2 ^ j * 3 div 4")
    case True
    have "put_key spread n t = (chains spread (Suc n) (2 ^ Suc j), 2 ^ Suc j)" using True j(2,3) by (simp add: put res)
    moreover have "Suc n \<le> 2 ^ Suc j * 3 div 4"
    proof -
      have "(2 :: nat) ^ 4 \<le> 2 ^ j" using k j(1) by (intro power_increasing) simp_all
      with j(4) show ?thesis by simp
    qed
    moreover have "(2 :: nat) ^ Suc j < 4 * Suc n" using True by simp
    ultimately show ?thesis unfolding hash_table_ok_def using k j(1) by (intro exI [of _ "Suc j"]) simp
  next
    case False
    with put j k show ?thesis unfolding hash_table_ok_def by (intro exI [of _ j]) auto
  qed
qed

lemma put_keys_ok:
  assumes "n \<le> length spread" and "length spread < 2 ^ 60" and "\<forall>h \<in> set spread. h < 2 ^ 64"
  shows "hash_table_ok spread n (foldl (\<lambda>t i. put_key spread i t) (replicate 16 [], 16) [0..<n])"
  using assms(1)
proof (induction n)
  case 0
  have "chains spread 0 16 = replicate 16 []" by (simp add: chains_def map_replicate_const)
  then show ?case unfolding hash_table_ok_def by (intro exI [of _ 4]) simp
next
  case (Suc n)
  with assms put_key_ok [of spread n] show ?case by simp
qed

lemma chains_sorted:
  assumes "0 < cap"
  shows "concat (chains spread n cap) = sort_key (\<lambda>i. spread ! i mod cap) [0..<n]"
proof -
  let ?f = "\<lambda>i. spread ! i mod cap"
  have upto: "concat (map (\<lambda>s. filter (\<lambda>i. ?f i = s) xs) [0..<m]) = sort_key ?f (filter (\<lambda>i. ?f i < m) xs)" for m and xs :: "nat list"
  proof (rule properties_for_sort_key [symmetric])
    show "mset (concat (map (\<lambda>s. filter (\<lambda>i. ?f i = s) xs) [0..<m])) = mset (filter (\<lambda>i. ?f i < m) xs)"
    proof (induction m)
      case (Suc m)
      have "mset (filter (\<lambda>i. ?f i < Suc m) xs) = mset (filter (\<lambda>i. ?f i < m) xs) + mset (filter (\<lambda>i. ?f i = m) xs)"
        by (induction xs) auto
      with Suc show ?case by simp
    qed simp
    show "sorted (map ?f (concat (map (\<lambda>s. filter (\<lambda>i. ?f i = s) xs) [0..<m])))"
    proof (induction m)
      case (Suc m)
      have "sorted (map ?f (filter (\<lambda>i. ?f i = m) xs))" by (induction xs) auto
      with Suc show ?case by (auto simp: sorted_append)
    qed simp
    fix x assume "x \<in> set (concat (map (\<lambda>s. filter (\<lambda>i. ?f i = s) xs) [0..<m]))"
    then have "?f x < m" by auto
    then show "filter (\<lambda>y. ?f x = ?f y) (concat (map (\<lambda>s. filter (\<lambda>i. ?f i = s) xs) [0..<m]))
        = filter (\<lambda>y. ?f x = ?f y) (filter (\<lambda>i. ?f i < m) xs)"
    proof (induction m)
      case (Suc m)
      have none: "filter (\<lambda>y. ?f x = ?f y) (concat (map (\<lambda>s. filter (\<lambda>i. ?f i = s) xs) [0..<l])) = []" if "l \<le> ?f x" for l
        using that by (auto simp: filter_empty_conv)
      show ?case
      proof (cases "?f x = m")
        case True
        have "filter (\<lambda>y. m = ?f y) (filter (\<lambda>i. ?f i < Suc m) xs) = filter (\<lambda>y. m = ?f y) xs" by (auto intro!: filter_cong)
        with True none [of m] show ?thesis by (auto intro!: filter_cong)
      next
        case False
        with Suc.prems have lt: "?f x < m" by simp
        have "filter (\<lambda>y. ?f x = ?f y) (filter (\<lambda>i. ?f i < Suc m) xs) = filter (\<lambda>y. ?f x = ?f y) (filter (\<lambda>i. ?f i < m) xs)"
          using lt by (auto intro!: filter_cong)
        with Suc.IH [OF lt] False show ?thesis by (auto simp: filter_empty_conv)
      qed
    qed simp
  qed
  have "filter (\<lambda>i. ?f i < cap) [0..<n] = [0..<n]" using assms by simp
  with upto [of "[0..<n]" cap] show ?thesis by (simp add: chains_def)
qed

lemma sort_key_nth_cong:
  "sort_key (\<lambda>i. map f xs ! i mod c) [0..<length xs] = sort_key (\<lambda>i. f (xs ! i) mod (c :: nat)) [0..<length xs]"
proof (rule properties_for_sort_key)
  show "mset (sort_key (\<lambda>i. f (xs ! i) mod c) [0..<length xs]) = mset [0..<length xs]" by simp
  have "map (\<lambda>i. map f xs ! i mod c) (sort_key (\<lambda>i. f (xs ! i) mod c) [0..<length xs])
      = map (\<lambda>i. f (xs ! i) mod c) (sort_key (\<lambda>i. f (xs ! i) mod c) [0..<length xs])" by (rule map_cong) simp_all
  then show "sorted (map (\<lambda>i. map f xs ! i mod c) (sort_key (\<lambda>i. f (xs ! i) mod c) [0..<length xs]))"
    using sorted_sort_key [of "\<lambda>i. f (xs ! i) mod c"] by (simp only:)
next
  fix k assume "k \<in> set (sort_key (\<lambda>i. f (xs ! i) mod c) [0..<length xs])"
  then have k: "k < length xs" by simp
  have pick: "filter (\<lambda>y. map f xs ! k mod c = map f xs ! y mod c) ys = filter (\<lambda>y. f (xs ! k) mod c = f (xs ! y) mod c) ys"
    if "set ys \<subseteq> {0..<length xs}" for ys
    using that k by (induction ys) auto
  have "filter (\<lambda>y. f (xs ! k) mod c = f (xs ! y) mod c) (sort_key (\<lambda>i. f (xs ! i) mod c) [0..<length xs])
      = filter (\<lambda>y. f (xs ! k) mod c = f (xs ! y) mod c) [0..<length xs]"
    by (simp only: eq_commute [of "f (xs ! k) mod c"] sort_key_stable)
  then show "filter (\<lambda>y. map f xs ! k mod c = map f xs ! y mod c) (sort_key (\<lambda>i. f (xs ! i) mod c) [0..<length xs])
      = filter (\<lambda>y. map f xs ! k mod c = map f xs ! y mod c) [0..<length xs]" by (simp add: pick)
qed

text \<open>
  C22. The members of \<open>json_object\<close> come in the order Java's hash map gives them: by the spread hash of the
  key modulo a capacity that is a power of two and keeps the map at most three quarters full, those of one
  slot in the order they were put in. No member is lost and none comes twice.
\<close>

theorem java_hashmap_order_is_by_slot:
  assumes "length keys < 2 ^ 60"
  shows "\<exists>k \<ge> 4. 4 * length keys \<le> 3 * 2 ^ k
    \<and> java_hashmap_order keys = sort_key (\<lambda>i. spread_hash (keys ! i) mod 2 ^ k) [0..<length keys]"
proof -
  let ?spread = "map spread_hash keys"
  have "\<forall>h \<in> set ?spread. h < 2 ^ 64" using spread_hash_range by auto
  then have "hash_table_ok ?spread (length keys) (foldl (\<lambda>t i. put_key ?spread i t) (replicate 16 [], 16) [0..<length keys])"
    using assms put_keys_ok [of "length keys" ?spread] by simp
  then obtain k where "4 \<le> k" "length keys \<le> 2 ^ k * 3 div 4"
    "foldl (\<lambda>t i. put_key ?spread i t) (replicate 16 [], 16) [0..<length keys] = (chains ?spread (length keys) (2 ^ k), 2 ^ k)"
    unfolding hash_table_ok_def by blast
  moreover from this have "java_hashmap_order keys = sort_key (\<lambda>i. ?spread ! i mod 2 ^ k) [0..<length keys]"
    using chains_sorted [of "2 ^ k" ?spread "length keys"] by (simp add: java_hashmap_order_def Let_def)
  moreover have "sort_key (\<lambda>i. ?spread ! i mod 2 ^ k) [0..<length keys] = sort_key (\<lambda>i. spread_hash (keys ! i) mod 2 ^ k) [0..<length keys]"
    by (rule sort_key_nth_cong)
  ultimately show ?thesis by (intro exI [of _ k]) simp
qed

theorem java_hashmap_order_is_by_slot_witness:
  "\<exists>k \<ge> 4. 4 * length [codes ''b'', codes ''a''] \<le> 3 * 2 ^ k
    \<and> java_hashmap_order [codes ''b'', codes ''a'']
      = sort_key (\<lambda>i. spread_hash ([codes ''b'', codes ''a''] ! i) mod 2 ^ k) [0..<length [codes ''b'', codes ''a'']]"
proof -
  have "length [codes ''b'', codes ''a''] < 2 ^ 60" by simp
  from java_hashmap_order_is_by_slot [OF this] show ?thesis .
qed

end
