(* ===== verification/Compact.thy ===== *)
theory Compact
  imports Errors "HOL-Library.Multiset"
begin

text \<open>
  \<open>src/compact.rs\<close>: the log store a compaction commits through. Before delta-rs puts commit \<open>N\<close>, every
  commit since the snapshot the compaction planned on is read, and the write is refused if one of them
  removed a file this commit removes. The store behind it is a parameter: what a read or a write answers
  is whatever it answers then, with other engines committing in between. \<open>serde_json::from_slice\<close> of a
  line is the function \<open>parse\<close>.
\<close>

section \<open>The guard\<close>

definition newline :: char where
  "newline = CHR 0x0A"

definition removed_path :: "json \<Rightarrow> string option" where
  "removed_path v = Option.bind (json_get ''remove'' v) (\<lambda>r. Option.bind (json_get ''path'' r) as_str)"

definition removed_paths :: "(string \<Rightarrow> json option) \<Rightarrow> string \<Rightarrow> string set" where
  "removed_paths parse commit =
     set (List.map_filter (\<lambda>line. if line = [] then None else Option.bind (parse line) removed_path)
            (split_on newline commit))"

datatype commit_or_bytes = LogBytes string | TmpCommit string

record log_store =
  st_read :: "nat \<Rightarrow> delta_error + string option"
  st_write :: "nat \<Rightarrow> commit_or_bytes \<Rightarrow> transaction_error + unit"
  st_fetch :: "string \<Rightarrow> delta_error + string"

definition our_bytes :: "log_store \<Rightarrow> commit_or_bytes \<Rightarrow> delta_error + string" where
  "our_bytes st c = (case c of LogBytes b \<Rightarrow> Inr b | TmpCommit path \<Rightarrow> st_fetch st path)"

definition delete_delete :: transaction_error where
  "delete_delete = TE_CommitConflict ConcurrentDeleteDelete"

text \<open>The loop over the versions between what is checked and the version to write.\<close>

fun check_commits ::
    "(string \<Rightarrow> json option) \<Rightarrow> log_store \<Rightarrow> string set \<Rightarrow> nat list \<Rightarrow> transaction_error + unit" where
  "check_commits parse st ours [] = Inr ()"
| "check_commits parse st ours (v # vs) =
     (case st_read st v of
        Inl e \<Rightarrow> Inl (TE_LogStoreError (delta_text e))
      | Inr None \<Rightarrow> Inl delete_delete
      | Inr (Some theirs) \<Rightarrow>
          if removed_paths parse theirs \<inter> ours \<noteq> {} then Inl delete_delete
          else check_commits parse st ours vs)"

text \<open>\<open>checked\<close>, the state the guard keeps, comes back beside the result.\<close>

definition write_commit_entry ::
    "(string \<Rightarrow> json option) \<Rightarrow> log_store \<Rightarrow> nat \<Rightarrow> commit_or_bytes \<Rightarrow> nat \<Rightarrow> (transaction_error + unit) \<times> nat" where
  "write_commit_entry parse st version commit checked =
     (case our_bytes st commit of
        Inl e \<Rightarrow> (Inl (TE_LogStoreError (delta_text e)), checked)
      | Inr bytes \<Rightarrow>
          let ours = removed_paths parse bytes
          in if ours \<noteq> {} then
               (case check_commits parse st ours [checked + 1..<version] of
                  Inl e \<Rightarrow> (Inl e, checked)
                | Inr _ \<Rightarrow> (st_write st version commit, max checked (version - 1)))
             else (st_write st version commit, checked))"

text \<open>
  A handle to guard: what it has loaded, and what loading it afresh answers. The result is what the guard
  has checked and the version the compaction plans on.
\<close>

record table_handle =
  th_version :: "nat option"
  th_load :: "delta_error + nat option"
  th_load_version :: "nat \<Rightarrow> delta_error + unit"

definition guarded :: "table_handle \<Rightarrow> error + nat \<times> nat option" where
  "guarded t =
     (case th_version t of
        None \<Rightarrow> Inl (E_Other ''cannot guard a table that is not loaded'')
      | Some base \<Rightarrow>
          (case th_load t of
             Inl e \<Rightarrow> Inl (E_Delta e)
           | Inr head \<Rightarrow>
               if head \<noteq> Some base then
                 (case th_load_version t base of
                    Inl e \<Rightarrow> Inl (E_Delta e)
                  | Inr _ \<Rightarrow> Inr (base, Some base))
               else Inr (base, head)))"

lemma guarded_plans_on_what_is_checked: "guarded t = Inr (checked, planned) \<Longrightarrow> planned = Some checked"
  unfolding guarded_def by (simp split: option.splits sum.splits if_splits unit.splits)

section \<open>What is checked\<close>

text \<open>A store that answers a read at all answers it with the log's commit, which never changes.\<close>

definition store_reads :: "string list \<Rightarrow> log_store \<Rightarrow> bool" where
  "store_reads log st \<longleftrightarrow> (\<forall>v b. st_read st v = Inr (Some b) \<longrightarrow> v < length log \<and> log ! v = b)"

lemma check_commits_disjoint:
  assumes "check_commits parse st ours vs = Inr ()" and "store_reads log st" and "v \<in> set vs"
  shows "removed_paths parse (log ! v) \<inter> ours = {}"
  using assms(1,3)
proof (induction vs)
  case (Cons v' vs)
  from Cons.prems(1) obtain b where "st_read st v' = Inr (Some b)" "removed_paths parse b \<inter> ours = {}"
    "check_commits parse st ours vs = Inr ()" by (auto split: sum.splits option.splits if_splits)
  moreover from this(1) assms(2) have "log ! v' = b" unfolding store_reads_def by blast
  ultimately show ?case using Cons by auto
qed simp

lemma check_commits_passes:
  assumes "\<forall>v \<in> set vs. \<exists>b. st_read st v = Inr (Some b) \<and> removed_paths parse b \<inter> ours = {}"
  shows "check_commits parse st ours vs = Inr ()"
  using assms by (induction vs) auto

lemma check_commits_refuses:
  assumes "check_commits parse st ours vs = Inl e"
  shows "\<exists>v \<in> set vs. (\<exists>e'. st_read st v = Inl e') \<or> st_read st v = Inr None
    \<or> (\<exists>b. st_read st v = Inr (Some b) \<and> removed_paths parse b \<inter> ours \<noteq> {})"
  using assms by (induction vs) (auto split: sum.splits option.splits if_splits)

text \<open>
  delta-rs's tries of one commit: at every try the store it meets and the version it writes at, until one
  lands.
\<close>

fun landed_at :: "(string \<Rightarrow> json option) \<Rightarrow> commit_or_bytes \<Rightarrow> (log_store \<times> nat) list \<Rightarrow> nat \<Rightarrow> nat option" where
  "landed_at parse c [] checked = None"
| "landed_at parse c ((st, v) # tries) checked =
     (case write_commit_entry parse st v c checked of
        (Inr _, _) \<Rightarrow> Some v
      | (Inl _, checked') \<Rightarrow> landed_at parse c tries checked')"

lemma landed_disjoint:
  assumes "landed_at parse c tries checked = Some v"
    and "\<forall>(st, w) \<in> set tries. store_reads log st \<and> (\<forall>b. our_bytes st c = Inr b \<longrightarrow> b = bytes)"
    and "\<forall>u. base < u \<and> u \<le> checked \<longrightarrow> removed_paths parse (log ! u) \<inter> removed_paths parse bytes = {}"
    and "base < u" and "u < v"
  shows "removed_paths parse (log ! u) \<inter> removed_paths parse bytes = {}"
  using assms(1-3)
proof (induction tries arbitrary: checked)
  case (Cons x tries)
  obtain st w where x: "x = (st, w)" by (cases x)
  let ?ours = "removed_paths parse bytes"
  from Cons.prems(2) x have reads: "store_reads log st" and mine: "\<And>b. our_bytes st c = Inr b \<Longrightarrow> b = bytes" by auto
  have kept: "\<forall>u. base < u \<and> u \<le> max checked (w - 1) \<longrightarrow> removed_paths parse (log ! u) \<inter> ?ours = {}"
    if "check_commits parse st ?ours [checked + 1..<w] = Inr ()"
  proof (intro allI impI)
    fix u assume u: "base < u \<and> u \<le> max checked (w - 1)"
    show "removed_paths parse (log ! u) \<inter> ?ours = {}"
    proof (cases "u \<le> checked")
      case False
      with u have "u \<in> set [checked + 1..<w]" by auto
      with that reads show ?thesis by (rule check_commits_disjoint)
    qed (use Cons.prems(3) u in blast)
  qed
  from Cons.prems(1) consider
      (lost) checked' where "landed_at parse c tries checked' = Some v"
        "checked' = checked \<or> (checked' = max checked (w - 1) \<and> check_commits parse st ?ours [checked + 1..<w] = Inr ())"
    | (idle) "?ours = {}"
    | (lands) "w = v" "check_commits parse st ?ours [checked + 1..<w] = Inr ()"
    using mine
    by (auto simp: x write_commit_entry_def Let_def split: sum.splits if_splits unit.splits prod.splits dest: mine)
  then show ?case
  proof cases
    case lost
    with kept Cons.prems(3) have "\<forall>u. base < u \<and> u \<le> checked' \<longrightarrow> removed_paths parse (log ! u) \<inter> ?ours = {}" by metis
    with lost(1) Cons.prems(2) show ?thesis by (intro Cons.IH [of checked']) auto
  next
    case idle
    then show ?thesis by simp
  next
    case lands
    with kept assms(4,5) show ?thesis by simp
  qed
qed simp

section \<open>What a table holds\<close>

text \<open>The files a log leaves live, and their rows, \<open>rows\<close> being what each file holds.\<close>

definition added_paths :: "(string \<Rightarrow> json option) \<Rightarrow> string \<Rightarrow> string set" where
  "added_paths parse commit =
     set (List.map_filter
            (\<lambda>line. Option.bind (parse line) (\<lambda>v. Option.bind (json_get ''add'' v) (\<lambda>a. Option.bind (json_get ''path'' a) as_str)))
            (split_on newline commit))"

definition live_files :: "(string \<Rightarrow> json option) \<Rightarrow> string list \<Rightarrow> string set" where
  "live_files parse log = foldl (\<lambda>files c. files - removed_paths parse c \<union> added_paths parse c) {} log"

definition held_rows :: "(string \<Rightarrow> 'r multiset) \<Rightarrow> string set \<Rightarrow> 'r multiset" where
  "held_rows rows files = (\<Sum>p \<in> files. rows p)"

lemma live_snoc:
  "v < length log \<Longrightarrow> live_files parse (take (Suc v) log)
    = live_files parse (take v log) - removed_paths parse (log ! v) \<union> added_paths parse (log ! v)"
  by (simp add: live_files_def take_Suc_conv_app_nth)

lemma finite_live: "finite (live_files parse log)"
  by (induction log rule: rev_induct) (auto simp: live_files_def added_paths_def)

lemma still_live:
  assumes "files \<subseteq> live_files parse (take (Suc base) log)" and "base < v" and "v \<le> length log"
    and "\<And>u. base < u \<Longrightarrow> u < v \<Longrightarrow> removed_paths parse (log ! u) \<inter> files = {}"
  shows "files \<subseteq> live_files parse (take v log)"
  using assms(2-4)
proof (induction v)
  case (Suc v)
  show ?case
  proof (cases "base = v")
    case False
    with Suc have "files \<subseteq> live_files parse (take v log)" by simp
    moreover have "removed_paths parse (log ! v) \<inter> files = {}" using Suc.prems False by simp
    ultimately show ?thesis using Suc.prems by (auto simp: live_snoc)
  qed (use assms(1) in simp)
qed simp

lemma rewrite_keeps_rows:
  assumes "finite files" and "old \<subseteq> files" and "finite new" and "new \<inter> files = {}"
    and "held_rows rows new = held_rows rows old"
  shows "held_rows rows (files - old \<union> new) = held_rows rows files"
proof -
  have "held_rows rows (files - old \<union> new) = held_rows rows (files - old) + held_rows rows new"
    unfolding held_rows_def using assms by (intro sum.union_disjoint) auto
  also have "\<dots> = held_rows rows files"
    unfolding assms(5) unfolding held_rows_def by (rule sum.subset_diff [symmetric]) (use assms in auto)
  finally show ?thesis .
qed

text \<open>
  A compaction lands beside whatever commits between do not touch its files, and is refused only for one
  that does, or that cannot be read.
\<close>

lemma refused_for_a_cause:
  assumes "write_commit_entry parse st v c checked = (Inl e, checked')" and "our_bytes st c = Inr bytes"
    and "\<forall>e. st_write st v c \<noteq> Inl e"
  shows "\<exists>u. checked < u \<and> u < v \<and> ((\<exists>e'. st_read st u = Inl e') \<or> st_read st u = Inr None
    \<or> (\<exists>b. st_read st u = Inr (Some b) \<and> removed_paths parse b \<inter> removed_paths parse bytes \<noteq> {}))"
proof -
  have "check_commits parse st (removed_paths parse bytes) [checked + 1..<v] = Inl e"
    using assms by (simp add: write_commit_entry_def Let_def split: if_splits sum.splits unit.splits)
  from check_commits_refuses [OF this] obtain u where "u \<in> set [checked + 1..<v]"
    and "(\<exists>e'. st_read st u = Inl e') \<or> st_read st u = Inr None
      \<or> (\<exists>b. st_read st u = Inr (Some b) \<and> removed_paths parse b \<inter> removed_paths parse bytes \<noteq> {})" by blast
  then show ?thesis by (intro exI [of _ u]) simp
qed

text \<open>
  C28. A guarded compaction keeps every row once: however many tries its commit takes and whatever other
  engines commit meanwhile, when it lands no commit since the snapshot it planned on removed one of its
  files, and the table holds after it exactly the rows it held before it.
\<close>

theorem guarded_compaction_keeps_every_row:
  assumes "guarded t = Inr (checked, Some base)" and "landed_at parse c tries checked = Some v"
    and tries: "\<forall>(st, w) \<in> set tries. store_reads log st \<and> (\<forall>b. our_bytes st c = Inr b \<longrightarrow> b = log ! v)"
    and v: "base < v" "v < length log"
    and planned: "removed_paths parse (log ! v) \<subseteq> live_files parse (take (Suc base) log)"
    and same: "held_rows rows (added_paths parse (log ! v)) = held_rows rows (removed_paths parse (log ! v))"
    and new: "added_paths parse (log ! v) \<inter> live_files parse (take v log) = {}"
  shows "(\<forall>u. base < u \<and> u < v \<longrightarrow> removed_paths parse (log ! u) \<inter> removed_paths parse (log ! v) = {})
    \<and> held_rows rows (live_files parse (take (Suc v) log)) = held_rows rows (live_files parse (take v log))"
proof -
  have "checked = base" using guarded_plans_on_what_is_checked [OF assms(1)] by simp
  with assms(2) have lands: "landed_at parse c tries base = Some v" by simp
  have none: "\<forall>u. base < u \<and> u \<le> base \<longrightarrow> removed_paths parse (log ! u) \<inter> removed_paths parse (log ! v) = {}"
    by (meson leD)
  have disjoint: "\<forall>u. base < u \<and> u < v \<longrightarrow> removed_paths parse (log ! u) \<inter> removed_paths parse (log ! v) = {}"
  proof (intro allI impI)
    fix u assume "base < u \<and> u < v"
    then show "removed_paths parse (log ! u) \<inter> removed_paths parse (log ! v) = {}"
      using landed_disjoint [OF lands tries none] by blast
  qed
  have "removed_paths parse (log ! v) \<subseteq> live_files parse (take v log)"
    using still_live [OF planned] v disjoint by simp
  from rewrite_keeps_rows [OF finite_live this _ new same] v disjoint show ?thesis
    by (simp add: live_snoc added_paths_def)
qed

definition example_parse :: "string \<Rightarrow> json option" where
  "example_parse line =
     (if line = ''-a'' then Some (JObj [(''remove'', JObj [(''path'', JStr ''a'')])])
      else if line = ''+a'' then Some (JObj [(''add'', JObj [(''path'', JStr ''a'')])])
      else if line = ''+b'' then Some (JObj [(''add'', JObj [(''path'', JStr ''b'')])])
      else if line = ''+c'' then Some (JObj [(''add'', JObj [(''path'', JStr ''c'')])])
      else None)"

definition example_store :: "nat \<Rightarrow> log_store" where
  "example_store n =
     \<lparr>st_read = (\<lambda>v. Inr (if v < 2 then Some ([''+a'', ''+b'', ''-a'' @ newline # ''+c''] ! v) else None)),
      st_write = (\<lambda>v _. if v < n then Inl (TE_VersionAlreadyExists v) else Inr ()),
      st_fetch = (\<lambda>_. Inl (DeltaError DK_Io []))\<rparr>"

theorem guarded_compaction_keeps_every_row_witness:
  "let log = [''+a'', ''+b'', ''-a'' @ newline # ''+c'']; rows = (\<lambda>p. if p = ''b'' then {#(2::nat)#} else {#1#})
   in held_rows rows (live_files example_parse (take 3 log)) = held_rows rows (live_files example_parse (take 2 log))"
proof -
  let ?log = "[''+a'', ''+b'', ''-a'' @ newline # ''+c'']"
  let ?rows = "\<lambda>p. if p = ''b'' then {#(2::nat)#} else {#1#}"
  let ?c = "LogBytes (''-a'' @ newline # ''+c'')"
  let ?t = "\<lparr>th_version = Some 0, th_load = Inr (Some 1), th_load_version = (\<lambda>_. Inr ())\<rparr>"
  have paths: "removed_paths example_parse ''+a'' = {}" "removed_paths example_parse ''+b'' = {}"
    "removed_paths example_parse (''-a'' @ newline # ''+c'') = {''a''}"
    "added_paths example_parse ''+a'' = {''a''}" "added_paths example_parse ''+b'' = {''b''}"
    "added_paths example_parse (''-a'' @ newline # ''+c'') = {''c''}"
    by (simp_all add: removed_paths_def added_paths_def newline_def example_parse_def map_filter_simps removed_path_def)
  have "[Suc 0..<2] = [1]" by (simp add: upt_rec numeral_2_eq_2)
  then have "check_commits example_parse (example_store 2) {''a''} [Suc 0..<2] = Inr ()"
    using paths by (simp add: example_store_def)
  moreover have "st_write (example_store 2) 1 ?c = Inl (TE_VersionAlreadyExists 1)" "st_write (example_store 2) 2 ?c = Inr ()"
    by (simp_all add: example_store_def)
  ultimately have "write_commit_entry example_parse (example_store 2) 1 ?c 0 = (Inl (TE_VersionAlreadyExists 1), 0)"
    "write_commit_entry example_parse (example_store 2) 2 ?c 0 = (Inr (), 1)"
    using paths by (simp_all add: write_commit_entry_def our_bytes_def)
  then have lands: "landed_at example_parse ?c [(example_store 2, 1), (example_store 2, 2)] 0 = Some 2" by simp
  have "guarded ?t = Inr (0, Some 0)" by (simp add: guarded_def)
  with lands show ?thesis
    using guarded_compaction_keeps_every_row [of ?t 0 0 example_parse ?c "[(example_store 2, 1), (example_store 2, 2)]" 2 ?log ?rows] paths
    by (simp add: store_reads_def our_bytes_def example_store_def live_files_def held_rows_def numeral_2_eq_2 numeral_3_eq_3 less_Suc_eq)
qed

end
