(* ===== verification/Json_Functions.thy ===== *)
theory Json_Functions
  imports Json_Text
begin

text \<open>
  \<open>src/transform/json.rs\<close>: the JSON functions a transform may call, row by row, over columns of text. A
  \<open>StringArray\<close> is the list of its values, a null one \<^const>\<open>None\<close>; the cast that makes an argument one is
  Arrow's. \<open>char::is_alphanumeric\<close>, a table of Unicode's, is the parameter \<open>alnum\<close>. The wording of errors
  is not modelled.
\<close>

section \<open>Paths\<close>

datatype path_step = Field chars | Index nat

datatype path_error = PE_Empty | PE_Wildcard | PE_Unterminated | PE_Index | PE_Unexpected nat

text \<open>\<open>str::trim\<close>: Unicode's white space at both ends. \<open>str::parse\<close> of an unsigned and a signed integer.\<close>

definition is_white :: "nat \<Rightarrow> bool" where
  "is_white c \<longleftrightarrow> (0x09 \<le> c \<and> c \<le> 0x0D) \<or> c = 0x20 \<or> c = 0x85 \<or> c = 0xA0 \<or> c = 0x1680
     \<or> (0x2000 \<le> c \<and> c \<le> 0x200A) \<or> c = 0x2028 \<or> c = 0x2029 \<or> c = 0x202F \<or> c = 0x205F \<or> c = 0x3000"

definition trim :: "chars \<Rightarrow> chars" where
  "trim cs = rev (dropWhile is_white (rev (dropWhile is_white cs)))"

definition parse_usize :: "chars \<Rightarrow> nat option" where
  "parse_usize cs =
     (let ds = (if starts 0x2B cs then tl cs else cs)
      in if ds \<noteq> [] \<and> list_all is_dec ds \<and> u64 (dec_value ds) then Some (dec_value ds) else None)"

definition parse_i64 :: "chars \<Rightarrow> int option" where
  "parse_i64 cs =
     (let negative = starts 0x2D cs; ds = (if negative \<or> starts 0x2B cs then tl cs else cs);
          v = (if negative then - int (dec_value ds) else int (dec_value ds))
      in if ds \<noteq> [] \<and> list_all is_dec ds \<and> i64 v then Some v else None)"

definition ends_name :: "nat \<Rightarrow> bool" where
  "ends_name c \<longleftrightarrow> c = 0x2E \<or> c = 0x5B"

function path_loop :: "(nat \<Rightarrow> bool) \<Rightarrow> path_step list \<Rightarrow> chars \<Rightarrow> path_error + path_step list" where
  "path_loop alnum steps [] = Inr steps"
| "path_loop alnum steps (c # cs) =
     (let name = takeWhile (Not \<circ> ends_name) cs; rest = dropWhile (Not \<circ> ends_name) cs
      in if c = 0x2E then
           (if name = [] then Inl PE_Empty
            else if 0x2A \<in> set name then Inl PE_Wildcard
            else path_loop alnum (steps @ [Field name]) rest)
         else if c = 0x5B then
           (if starts 0x22 cs \<or> starts 0x27 cs then
              (case dropWhile (\<lambda>d. d \<noteq> hd cs) (tl cs) of
                 _ # d # after \<Rightarrow>
                   if d = 0x5D then path_loop alnum (steps @ [Field (takeWhile (\<lambda>d. d \<noteq> hd cs) (tl cs))]) after
                   else Inl PE_Unterminated
               | _ \<Rightarrow> Inl PE_Unterminated)
            else
              (case dropWhile (\<lambda>d. d \<noteq> 0x5D) cs of
                 [] \<Rightarrow> Inl PE_Unterminated
               | _ # after \<Rightarrow>
                   if 0x2A \<in> set (takeWhile (\<lambda>d. d \<noteq> 0x5D) cs) then Inl PE_Wildcard
                   else case parse_usize (trim (takeWhile (\<lambda>d. d \<noteq> 0x5D) cs)) of
                          None \<Rightarrow> Inl PE_Index
                        | Some n \<Rightarrow> path_loop alnum (steps @ [Index n]) after))
         else if steps = [] \<and> (alnum c \<or> c = 0x5F) then path_loop alnum (steps @ [Field (c # name)]) rest
         else Inl (PE_Unexpected c))"
  by pat_completeness auto

termination path_loop
proof (relation "measure (\<lambda>(_, _, cs). length cs)", simp_all add: length_dropWhile_le le_imp_less_Suc)
  fix cs d d' after and P :: "nat \<Rightarrow> bool"
  assume "dropWhile P (tl cs) = d' # d # after"
  then have "length (d' # d # after) \<le> length (tl cs)" by (metis length_dropWhile_le)
  then show "length after < Suc (length cs)" by simp
next
  fix cs d' after and P :: "nat \<Rightarrow> bool"
  assume "dropWhile P cs = d' # after"
  then have "length (d' # after) \<le> length cs" by (metis length_dropWhile_le)
  then show "length after < Suc (length cs)" by simp
qed

definition parse_path :: "(nat \<Rightarrow> bool) \<Rightarrow> chars \<Rightarrow> path_error + path_step list" where
  "parse_path alnum cs = path_loop alnum [] (if starts 0x24 cs then tl cs else cs)"

fun resolve_path :: "jval \<Rightarrow> path_step list \<Rightarrow> jval option" where
  "resolve_path v [] = Some v"
| "resolve_path v (Field f # steps) = Option.bind (jval_get f v) (\<lambda>w. resolve_path w steps)"
| "resolve_path v (Index n # steps) = Option.bind (jval_index n v) (\<lambda>w. resolve_path w steps)"

definition extract_text :: "float_text \<Rightarrow> jval \<Rightarrow> chars" where
  "extract_text ft v = json_write ft Verbatim JavaDouble Utf8 v"

definition query_text :: "float_text \<Rightarrow> jval \<Rightarrow> chars" where
  "query_text ft v = json_write ft LastWins JavaDouble Utf8 v"

definition tree_text :: "float_text \<Rightarrow> jval \<Rightarrow> chars" where
  "tree_text ft v = json_write ft LastWins JavaDouble Chars v"

section \<open>The functions\<close>

datatype json_kind =
    K_Extract | K_ExtractScalar | K_Query | K_Size | K_ArrayLength | K_ArrayContains
  | K_ArrayGet | K_Format | K_Parse | K_IsScalar | K_Exists | K_ArrayElements

fun kind_arity :: "json_kind \<Rightarrow> nat" where
  "kind_arity K_ArrayLength = 1"
| "kind_arity K_Format = 1"
| "kind_arity K_Parse = 1"
| "kind_arity K_IsScalar = 1"
| "kind_arity K_ArrayElements = 1"
| "kind_arity _ = 2"

datatype column_type = T_Int64 | T_Boolean | T_List | T_Utf8

fun kind_return_type :: "json_kind \<Rightarrow> column_type" where
  "kind_return_type K_Size = T_Int64"
| "kind_return_type K_ArrayLength = T_Int64"
| "kind_return_type K_ArrayContains = T_Boolean"
| "kind_return_type K_IsScalar = T_Boolean"
| "kind_return_type K_Exists = T_Boolean"
| "kind_return_type K_ArrayElements = T_List"
| "kind_return_type _ = T_Utf8"

text \<open>Which functions' results carry the marker of Trino's JSON type, as a column or as its elements.\<close>

fun kind_is_json :: "json_kind \<Rightarrow> bool" where
  "kind_is_json K_Extract = True"
| "kind_is_json K_ArrayGet = True"
| "kind_is_json K_Parse = True"
| "kind_is_json K_ArrayElements = True"
| "kind_is_json _ = False"

definition json_functions :: "(string \<times> json_kind) list" where
  "json_functions =
     [(''json_extract'', K_Extract), (''json_extract_scalar'', K_ExtractScalar), (''json_size'', K_Size),
      (''json_array_length'', K_ArrayLength), (''json_array_contains'', K_ArrayContains),
      (''json_array_get'', K_ArrayGet), (''json_format'', K_Format), (''json_parse'', K_Parse),
      (''is_json_scalar'', K_IsScalar), (''json_value'', K_ExtractScalar), (''json_query'', K_Query),
      (''json_exists'', K_Exists), (''json_array_elements'', K_ArrayElements),
      (''json_extract_string'', K_ExtractScalar), (''get_json_object'', K_ExtractScalar)]"

text \<open>One row of the result: the cell its column gets.\<close>

datatype cell =
    CInt "int option" | CBool "bool option" | CList "chars option list option" | CText "chars option"

fun null_cell :: "column_type \<Rightarrow> cell" where
  "null_cell T_Int64 = CInt None"
| "null_cell T_Boolean = CBool None"
| "null_cell T_List = CList None"
| "null_cell T_Utf8 = CText None"

datatype function_error = FE_BadJson nat json_error | FE_Path path_error

fun element_text :: "float_text \<Rightarrow> jval \<Rightarrow> chars option" where
  "element_text ft VNull = None"
| "element_text ft (VString s) = Some s"
| "element_text ft (VArray a) = Some (tree_text ft (VArray a))"
| "element_text ft (VObject ob) = Some (tree_text ft (VObject ob))"
| "element_text ft v = scalar_text v"

definition array_get :: "jval \<Rightarrow> chars \<Rightarrow> jval option" where
  "array_get doc idx =
     (case (jval_as_array doc, parse_i64 (trim idx)) of
        (Some a, Some n) \<Rightarrow>
          let pos = (if n < 0 then int (length a) + n else n)
          in if 0 \<le> pos \<and> nat pos < length a then Some (a ! nat pos) else None
      | _ \<Rightarrow> None)"

definition array_contains :: "float_text \<Rightarrow> jval \<Rightarrow> chars \<Rightarrow> bool option" where
  "array_contains ft doc needle =
     (let want = (case json_parse needle of Inr v \<Rightarrow> v | Inl _ \<Rightarrow> VString needle)
      in map_option (list_ex (\<lambda>v. same_value ft v want)) (jval_as_array doc))"

text \<open>What a path lookup makes of what it found.\<close>

fun found_cell :: "float_text \<Rightarrow> json_kind \<Rightarrow> jval option \<Rightarrow> cell" where
  "found_cell ft K_Extract found = CText (map_option (extract_text ft) found)"
| "found_cell ft K_Query found = CText (map_option (query_text ft) found)"
| "found_cell ft K_ExtractScalar found = CText (Option.bind found scalar_text)"
| "found_cell ft K_Size found = CInt (map_option (int \<circ> json_size) found)"
| "found_cell ft _ found = CBool (Some (found \<noteq> None))"

definition eval_row ::
    "float_text \<Rightarrow> (nat \<Rightarrow> bool) \<Rightarrow> json_kind \<Rightarrow> nat \<Rightarrow> chars option \<Rightarrow> chars option option \<Rightarrow> function_error + cell" where
  "eval_row ft alnum kind i doc arg2 =
     (case (doc, arg2) of
        (None, _) \<Rightarrow> Inr (null_cell (kind_return_type kind))
      | (_, Some None) \<Rightarrow> Inr (null_cell (kind_return_type kind))
      | (Some raw, _) \<Rightarrow>
          let second = (case arg2 of Some (Some s) \<Rightarrow> s | _ \<Rightarrow> [])
          in case json_parse raw of
               Inl e \<Rightarrow> Inl (FE_BadJson i e)
             | Inr v \<Rightarrow>
                 (case kind of
                    K_Parse \<Rightarrow> Inr (CText (Some (json_write ft Sorted BigDecimal Utf8 v)))
                  | K_Format \<Rightarrow> Inr (CText (Some raw))
                  | K_IsScalar \<Rightarrow> Inr (CBool (Some (\<not> is_container v)))
                  | K_ArrayLength \<Rightarrow> Inr (CInt (map_option (int \<circ> length) (jval_as_array v)))
                  | K_ArrayElements \<Rightarrow>
                      Inr (CList (map_option (List.map (\<lambda>w. Some (tree_text ft w))) (jval_as_array v)))
                  | K_ArrayContains \<Rightarrow> Inr (CBool (array_contains ft v second))
                  | K_ArrayGet \<Rightarrow> Inr (CText (Option.bind (array_get v second) (element_text ft)))
                  | _ \<Rightarrow>
                      (case parse_path alnum second of
                         Inl e \<Rightarrow> Inl (FE_Path e)
                       | Inr steps \<Rightarrow> Inr (found_cell ft kind (resolve_path v steps)))))"

text \<open>The loop over the rows: \<open>args2\<close> is there when the function takes two.\<close>

definition invoke_with_args ::
    "float_text \<Rightarrow> (nat \<Rightarrow> bool) \<Rightarrow> json_kind \<Rightarrow> chars option list \<Rightarrow> chars option list \<Rightarrow> function_error + cell list" where
  "invoke_with_args ft alnum kind docs args2 =
     collect_res (\<lambda>i. eval_row ft alnum kind i (docs ! i) (if kind_arity kind = 2 then Some (args2 ! i) else None))
       [0..<length docs]"

end
