(* ===== verification/Json_Paths.thy ===== *)
theory Json_Paths
  imports Json_Functions Json_Numbers
begin

text \<open>The paths \<open>parse_path\<close> of \<open>Json_Functions\<close> accepts, as a grammar.\<close>

section \<open>The grammar\<close>

definition index_text :: "nat \<Rightarrow> chars \<Rightarrow> bool" where
  "index_text n raw \<longleftrightarrow> (\<exists>a s ds b. raw = a @ s @ ds @ b \<and> list_all is_white a \<and> list_all is_white b
     \<and> (s = [] \<or> s = [0x2B]) \<and> digits ds \<and> dec_value ds = n \<and> n < 2 ^ 64)"

inductive spells_steps :: "path_step list \<Rightarrow> chars \<Rightarrow> bool" where
  no_step: "spells_steps [] []"
| dotted: "name \<noteq> [] \<Longrightarrow> list_all (\<lambda>c. \<not> ends_name c \<and> c \<noteq> 0x2A) name \<Longrightarrow> spells_steps ss r \<Longrightarrow>
    spells_steps (Field name # ss) (0x2E # name @ r)"
| quoted: "q = 0x22 \<or> q = 0x27 \<Longrightarrow> q \<notin> set name \<Longrightarrow> spells_steps ss r \<Longrightarrow>
    spells_steps (Field name # ss) (0x5B # q # name @ q # 0x5D # r)"
| indexed: "index_text n raw \<Longrightarrow> spells_steps ss r \<Longrightarrow> spells_steps (Index n # ss) (0x5B # raw @ 0x5D # r)"

text \<open>A path that forgot its \<open>$\<close> and its first dot: a name that may hold anything but what ends it.\<close>

definition spells_bare :: "(nat \<Rightarrow> bool) \<Rightarrow> path_step list \<Rightarrow> chars \<Rightarrow> bool" where
  "spells_bare alnum steps cs \<longleftrightarrow> (\<exists>c name ss r. steps = Field (c # name) # ss \<and> cs = c # name @ r
     \<and> (alnum c \<or> c = 0x5F) \<and> list_all (Not \<circ> ends_name) (c # name) \<and> spells_steps ss r)"

section \<open>Indexes\<close>

lemma trim_split:
  obtains a b where "raw = a @ trim raw @ b" "list_all is_white a" "list_all is_white b"
proof -
  let ?m = "dropWhile is_white raw"
  have "?m = trim raw @ rev (takeWhile is_white (rev ?m))"
    unfolding trim_def by (metis rev_append rev_rev_ident takeWhile_dropWhile_id)
  then have "raw = takeWhile is_white raw @ trim raw @ rev (takeWhile is_white (rev ?m))"
    by (metis takeWhile_dropWhile_id)
  moreover have "list_all is_white (takeWhile is_white raw)" "list_all is_white (rev (takeWhile is_white (rev ?m)))"
    by (auto simp: list_all_iff dest: set_takeWhileD)
  ultimately show ?thesis by (rule that)
qed

lemma trim_between:
  assumes "list_all is_white a" and "list_all is_white b" and "m \<noteq> []" and "\<not> is_white (hd m)" and "\<not> is_white (List.last m)"
  shows "trim (a @ m @ b) = m"
proof -
  have "dropWhile is_white (a @ m @ b) = m @ b"
    using assms by (cases m) (auto simp: list_all_iff dropWhile_append)
  moreover have "dropWhile is_white (rev b @ rev m) = rev m"
    using assms by (cases "rev m") (auto simp: list_all_iff dropWhile_append hd_rev dest: arg_cong [where f = hd])
  ultimately show ?thesis by (simp add: trim_def)
qed

lemma is_dec_not_white: "is_dec c \<Longrightarrow> \<not> is_white c"
  by (auto simp: is_dec_def is_white_def)

lemma parse_usize_Some:
  "parse_usize cs = Some n \<longleftrightarrow> (\<exists>s ds. cs = s @ ds \<and> (s = [] \<or> s = [0x2B]) \<and> digits ds \<and> dec_value ds = n \<and> n < 2 ^ 64)"
proof
  assume some: "parse_usize cs = Some n"
  show "\<exists>s ds. cs = s @ ds \<and> (s = [] \<or> s = [0x2B]) \<and> digits ds \<and> dec_value ds = n \<and> n < 2 ^ 64"
  proof (cases "starts 0x2B cs")
    case True
    then obtain ds where "cs = [0x2B] @ ds" by (auto simp: starts_iff)
    moreover from this some have "digits ds \<and> dec_value ds = n \<and> n < 2 ^ 64"
      by (simp add: parse_usize_def digits_def u64_def split: if_splits)
    ultimately show ?thesis by blast
  next
    case False
    with some have "digits cs \<and> dec_value cs = n \<and> n < 2 ^ 64"
      by (simp add: parse_usize_def digits_def u64_def split: if_splits)
    then show ?thesis by (intro exI [of _ "[]"] exI [of _ cs]) simp
  qed
next
  assume "\<exists>s ds. cs = s @ ds \<and> (s = [] \<or> s = [0x2B]) \<and> digits ds \<and> dec_value ds = n \<and> n < 2 ^ 64"
  then obtain s ds where *: "cs = s @ ds" "s = [] \<or> s = [0x2B]" "digits ds" "dec_value ds = n" "n < 2 ^ 64" by blast
  then have "\<not> starts 0x2B ds" by (auto simp: digits_def starts_def is_dec_def split: list.splits)
  with * show "parse_usize cs = Some n" by (auto simp: parse_usize_def digits_def u64_def)
qed

lemma parse_index_Some: "parse_usize (trim raw) = Some n \<longleftrightarrow> index_text n raw"
proof
  assume "parse_usize (trim raw) = Some n"
  then obtain s ds where core: "trim raw = s @ ds" "s = [] \<or> s = [0x2B]" "digits ds" "dec_value ds = n" "n < 2 ^ 64"
    by (auto simp: parse_usize_Some)
  obtain a b where "raw = a @ trim raw @ b" "list_all is_white a" "list_all is_white b" by (rule trim_split)
  with core show "index_text n raw" unfolding index_text_def by (metis append_assoc)
next
  assume "index_text n raw"
  then obtain a s ds b where *: "raw = a @ s @ ds @ b" "list_all is_white a" "list_all is_white b"
    "s = [] \<or> s = [0x2B]" "digits ds" "dec_value ds = n" "n < 2 ^ 64" unfolding index_text_def by blast
  have "ds \<noteq> []" "is_dec (hd ds)" "is_dec (List.last ds)" using *(5) by (auto simp: digits_def list_all_iff)
  then have "trim (a @ (s @ ds) @ b) = s @ ds"
    using * by (intro trim_between) (auto simp: is_dec_not_white hd_append is_white_def [of 43])
  with * show "parse_usize (trim raw) = Some n" by (auto simp: parse_usize_Some)
qed

lemma index_text_char: "index_text n raw \<Longrightarrow> c \<in> set raw \<Longrightarrow> is_white c \<or> c = 0x2B \<or> is_dec c"
  by (auto simp: index_text_def list_all_iff digits_def)

lemma index_text_clean:
  assumes "index_text n raw"
  shows "0x5D \<notin> set raw" "0x2A \<notin> set raw" "\<not> starts 0x22 raw" "\<not> starts 0x27 raw"
proof -
  have none: "c \<notin> set raw" if "\<not> is_white c" "c \<noteq> 0x2B" "\<not> is_dec c" for c
    using index_text_char [OF assms, of c] that by blast
  show "0x5D \<notin> set raw" "0x2A \<notin> set raw" by (rule none; simp add: is_white_def is_dec_def)+
  have "0x22 \<notin> set raw" "0x27 \<notin> set raw" by (rule none; simp add: is_white_def is_dec_def)+
  then show "\<not> starts 0x22 raw" "\<not> starts 0x27 raw" by (auto simp: starts_iff)
qed

section \<open>The parser reads the grammar\<close>

lemma spells_steps_ends: "spells_steps ss r \<Longrightarrow> r = [] \<or> ends_name (hd r)"
  by (induction rule: spells_steps.induct) (auto simp: ends_name_def)

lemma take_name:
  assumes "list_all (Not \<circ> ends_name) name" and "spells_steps ss r"
  shows "takeWhile (Not \<circ> ends_name) (name @ r) = name" "dropWhile (Not \<circ> ends_name) (name @ r) = r"
  using assms(1) spells_steps_ends [OF assms(2)]
  by (auto simp: list_all_iff takeWhile_append dropWhile_append takeWhile_eq_Nil_iff dropWhile_eq_self_iff)

lemma take_until:
  assumes "c \<notin> set a"
  shows "takeWhile (\<lambda>d. d \<noteq> c) (a @ c # r) = a" "dropWhile (\<lambda>d. d \<noteq> c) (a @ c # r) = c # r"
  using assms by (auto simp: takeWhile_append dropWhile_append)

lemma loop_reads: "spells_steps ss cs \<Longrightarrow> path_loop alnum acc cs = Inr (acc @ ss)"
proof (induction arbitrary: acc rule: spells_steps.induct)
  case (dotted name ss r)
  then have "list_all (Not \<circ> ends_name) name" by (simp add: list_all_iff)
  from take_name [OF this dotted.hyps(3)] dotted show ?case by (auto simp: list_all_iff)
next
  case (quoted q name ss r)
  with take_until [of q name "0x5D # r"] show ?case by (auto simp: Let_def)
next
  case (indexed n raw ss r)
  note clean = index_text_clean [OF indexed.hyps(1)]
  have "\<not> starts 0x22 (raw @ 0x5D # r)" "\<not> starts 0x27 (raw @ 0x5D # r)"
    using clean(3,4) by (cases raw; simp)+
  moreover have "parse_usize (trim raw) = Some n" using indexed.hyps(1) by (simp only: parse_index_Some)
  ultimately show ?case using clean(2) take_until [OF clean(1), of r] indexed.IH [of "acc @ [Index n]"]
    by (simp del: starts_append add: Let_def)
qed simp

lemma clean_take: "list_all (Not \<circ> P) (takeWhile (Not \<circ> P) cs)"
  by (auto simp: list_all_iff dest: set_takeWhileD)

lemma dropWhile_Cons: "dropWhile (\<lambda>d. d \<noteq> c) cs = x # r \<Longrightarrow> x = c \<and> cs = takeWhile (\<lambda>d. d \<noteq> c) cs @ c # r"
  by (induction cs) (auto split: if_splits)

text \<open>What one round of the loop takes, and what it leaves to the next.\<close>

lemma loop_round:
  assumes "path_loop alnum acc (c # cs) = Inr steps"
  obtains (dotted) name r where "c = 0x2E" "cs = name @ r" "name \<noteq> []" "list_all (\<lambda>c. \<not> ends_name c \<and> c \<noteq> 0x2A) name"
      "path_loop alnum (acc @ [Field name]) r = Inr steps"
  | (quoted) q name r where "c = 0x5B" "q = 0x22 \<or> q = 0x27" "cs = q # name @ q # 0x5D # r" "q \<notin> set name"
      "path_loop alnum (acc @ [Field name]) r = Inr steps"
  | (indexed) n raw r where "c = 0x5B" "cs = raw @ 0x5D # r" "index_text n raw" "path_loop alnum (acc @ [Index n]) r = Inr steps"
  | (bare) name r where "c \<noteq> 0x2E" "c \<noteq> 0x5B" "acc = []" "alnum c \<or> c = 0x5F" "cs = name @ r" "list_all (Not \<circ> ends_name) name"
      "path_loop alnum (acc @ [Field (c # name)]) r = Inr steps"
proof -
  let ?name = "takeWhile (Not \<circ> ends_name) cs" and ?rest = "dropWhile (Not \<circ> ends_name) cs"
  consider (dot) "c = 0x2E" | (quote) "c = 0x5B" "starts 0x22 cs \<or> starts 0x27 cs"
    | (index) "c = 0x5B" "\<not> (starts 0x22 cs \<or> starts 0x27 cs)" | (other) "c \<noteq> 0x2E" "c \<noteq> 0x5B" by blast
  then show ?thesis
  proof cases
    case dot
    with assms have "?name \<noteq> []" "0x2A \<notin> set ?name" "path_loop alnum (acc @ [Field ?name]) ?rest = Inr steps"
      by (auto simp: Let_def split: if_splits)
    moreover from this have "list_all (\<lambda>c. \<not> ends_name c \<and> c \<noteq> 0x2A) ?name"
      using clean_take [of ends_name cs] by (auto simp: list_all_iff)
    ultimately show ?thesis using dotted [of ?name ?rest] dot by simp
  next
    case quote
    then obtain q r where q: "cs = q # r" "q = 0x22 \<or> q = 0x27" by (auto simp: starts_iff)
    with assms quote obtain x d after where d: "dropWhile (\<lambda>d. d \<noteq> q) r = x # d # after" "d = 0x5D"
      "path_loop alnum (acc @ [Field (takeWhile (\<lambda>d. d \<noteq> q) r)]) after = Inr steps"
      by (auto simp: Let_def split: if_splits list.splits)
    from dropWhile_Cons [OF d(1)] d(2) q have "cs = q # takeWhile (\<lambda>d. d \<noteq> q) r @ q # 0x5D # after" by simp
    moreover have "q \<notin> set (takeWhile (\<lambda>d. d \<noteq> q) r)" by (auto dest: set_takeWhileD)
    ultimately show ?thesis using quoted [of q "takeWhile (\<lambda>d. d \<noteq> q) r" after] quote(1) q(2) d(3) by simp
  next
    case index
    with assms obtain x after n where n: "dropWhile (\<lambda>d. d \<noteq> 0x5D) cs = x # after"
      "parse_usize (trim (takeWhile (\<lambda>d. d \<noteq> 0x5D) cs)) = Some n" "path_loop alnum (acc @ [Index n]) after = Inr steps"
      by (auto simp: Let_def split: if_splits list.splits option.splits)
    from dropWhile_Cons [OF n(1)] n indexed [of "takeWhile (\<lambda>d. d \<noteq> 0x5D) cs" after n] index(1) show ?thesis
      by (simp add: parse_index_Some)
  next
    case other
    with assms have "acc = []" "alnum c \<or> c = 0x5F" "path_loop alnum (acc @ [Field (c # ?name)]) ?rest = Inr steps"
      by (auto simp: Let_def split: if_splits)
    with bare [of ?name ?rest] other clean_take [of ends_name cs] show ?thesis by simp
  qed
qed

lemma loop_Inr:
  "path_loop alnum acc cs = Inr steps \<Longrightarrow>
    \<exists>ss. steps = acc @ ss \<and> (spells_steps ss cs \<or> acc = [] \<and> spells_bare alnum ss cs)"
proof (induction cs arbitrary: acc rule: measure_induct_rule [where f = length])
  case (less cs)
  have later: "\<exists>ss. steps = acc @ s # ss \<and> spells_steps ss r"
    if "path_loop alnum (acc @ [s]) r = Inr steps" "length r < length cs" for s r
    using less.IH [OF that(2,1)] by auto
  show ?case
  proof (cases cs)
    case Nil
    with less.prems show ?thesis by (auto intro: no_step)
  next
    case (Cons c cs')
    with less.prems have "path_loop alnum acc (c # cs') = Inr steps" by simp
    then show ?thesis
    proof (cases rule: loop_round)
      case (dotted name r)
      then obtain ss where "steps = acc @ Field name # ss" "spells_steps ss r" using later [of "Field name" r] Cons by auto
      with dotted Cons show ?thesis by (auto intro: spells_steps.dotted)
    next
      case (quoted q name r)
      then obtain ss where "steps = acc @ Field name # ss" "spells_steps ss r" using later [of "Field name" r] Cons by auto
      with quoted Cons show ?thesis by (auto intro: spells_steps.quoted)
    next
      case (indexed n raw r)
      then obtain ss where "steps = acc @ Index n # ss" "spells_steps ss r" using later [of "Index n" r] Cons by auto
      with indexed Cons show ?thesis by (auto intro: spells_steps.indexed)
    next
      case (bare name r)
      then obtain ss where "steps = acc @ Field (c # name) # ss" "spells_steps ss r"
        using later [of "Field (c # name)" r] Cons by auto
      moreover have "list_all (Not \<circ> ends_name) (c # name)" using bare by (simp add: ends_name_def)
      ultimately have "spells_bare alnum (Field (c # name) # ss) cs" unfolding spells_bare_def using bare Cons by blast
      with \<open>steps = _\<close> bare(3) show ?thesis by simp
    qed
  qed
qed

lemma bare_reads: "spells_bare alnum steps cs \<Longrightarrow> path_loop alnum [] cs = Inr steps"
proof -
  assume "spells_bare alnum steps cs"
  then obtain c name ss r where *: "steps = Field (c # name) # ss" "cs = c # name @ r" "alnum c \<or> c = 0x5F"
    "list_all (Not \<circ> ends_name) (c # name)" "spells_steps ss r" unfolding spells_bare_def by blast
  with take_name [of name ss r] loop_reads [OF *(5), of alnum "[Field (c # name)]"] show ?thesis
    by (simp add: ends_name_def [of c])
qed

text \<open>
  C23. The paths the JSON functions take are exactly these: a \<open>$\<close> or none, and then steps, each a dot and a
  name without wildcard, a quoted name in brackets, or an index in brackets, white space around it allowed
  and its number a \<open>usize\<close>; the first step may leave out its dot. What is accepted is read as those steps in
  order, so a path has one reading. Of a first name without its dot nothing but its end is checked: a
  wildcard in it is part of the name.
\<close>

theorem parse_path_reads_the_grammar:
  "parse_path alnum cs = Inr steps \<longleftrightarrow>
    (\<exists>t. (cs = 0x24 # t \<or> cs = t \<and> \<not> starts 0x24 t) \<and> (spells_steps steps t \<or> spells_bare alnum steps t))"
proof -
  have "path_loop alnum [] t = Inr steps \<longleftrightarrow> spells_steps steps t \<or> spells_bare alnum steps t" for t
    using loop_Inr [of alnum "[]" t steps] loop_reads [of steps t alnum "[]"] bare_reads [of alnum steps t] by auto
  then have "parse_path alnum cs = Inr steps \<longleftrightarrow> (let t = if starts 0x24 cs then tl cs else cs
      in spells_steps steps t \<or> spells_bare alnum steps t)" by (simp add: parse_path_def Let_def)
  moreover have "(cs = 0x24 # t \<or> cs = t \<and> \<not> starts 0x24 t) = (t = (if starts 0x24 cs then tl cs else cs))" for t
    by (cases cs) auto
  ultimately show ?thesis by (simp add: Let_def)
qed

end
