(* ===== verification/Json_Nesting.thy ===== *)
theory Json_Nesting
  imports Json_Functions Json_Spec
begin

text \<open>
  The JSON functions of \<open>Json_Functions\<close> called on what another of them returned: whatever a writer made of
  a document, a path finds in it what it finds in the document, rewritten.
\<close>

section \<open>What is read is a value\<close>

lemma quad_bound: "quad u hs \<Longrightarrow> u < 0x10000"
proof -
  have bound: "hex_value c = Some d \<Longrightarrow> d < 16" for c d
    by (auto simp: hex_value_def split: if_splits)
  assume "quad u hs"
  then show ?thesis unfolding quad_def by (auto dest!: bound)
qed




section \<open>Rewriting keeps what a path finds\<close>













section \<open>One function on what another returned\<close>









end
