(* ===== verification/Config_Rules.thy ===== *)
theory Config_Rules
  imports Log_Stream Quality "HOL-Library.Product_Lexorder"
begin

text \<open>
  The rules between pipelines of \<open>src/config.rs\<close>, \<open>src/config/kafka.rs\<close> and \<open>src/stage.rs\<close>: a staged upsert
  split in two, the pipelines a collision holds back, and what is left to run. Reading the file, and what
  else resolving one entry checks and parses, are parameters; of an entry the model has the keys these
  rules read or write. A reason is a value instead of a text. Which of several reasons a pipeline held
  back is given depends on the order of a \<open>HashMap\<close>; here it is that of the keys.
\<close>

section \<open>Entries\<close>

datatype write_mode = Append | Upsert | StagedUpsert

definition is_upsert :: "write_mode \<Rightarrow> bool" where "is_upsert m \<longleftrightarrow> m = Upsert"
definition is_staged :: "write_mode \<Rightarrow> bool" where "is_staged m \<longleftrightarrow> m = StagedUpsert"
definition keeps_one_row_per_key :: "write_mode \<Rightarrow> bool" where
  "keeps_one_row_per_key m \<longleftrightarrow> m = Upsert \<or> m = StagedUpsert"

datatype grain_setting = GrainAlways | GrainOff

record pipeline_entry =
  pe_name :: string
  pe_app_id :: string
  pe_source_uri :: string
  pe_target_uri :: string
  pe_source_relation :: "string option"
  pe_target_relation :: "string option"
  pe_lookups :: "(string \<times> string) list"
  pe_starting_version :: nat
  pe_change_policy :: change_policy
  pe_transform_sql :: "string option"
  pe_allowed_latency_secs :: "nat option"
  pe_max_bytes_per_batch :: "string option"
  pe_watermark_uri :: "string option"
  pe_dedup_timestamp :: "string option"
  pe_dedup_key :: "string option"
  pe_dedup_partition :: "string list"
  pe_write_mode :: write_mode
  pe_upsert_key :: "string option"
  pe_upsert_lookback :: "string option"
  pe_upsert_tiebreak :: "string list"
  pe_upsert_grain_check :: grain_setting
  pe_dq_uri :: "string option"
  pe_stage_uri :: "string option"
  pe_apply_max_bytes :: "string option"
  pe_apply_max_latency_secs :: "nat option"
  pe_stage_for :: "string option"
  pe_publish_group :: "string option"
  pe_meta_problem :: "string option"

record kafka_entry =
  ke_name :: string
  ke_app_id :: string
  ke_topic :: string
  ke_target_uri :: string
  ke_dq_uri :: "string option"
  ke_group_id :: "string option"

datatype reason =
    MetaProblem string
  | NeedsKey | NeedsTimestamp | StageIsOwnTable string | NotAStageUri string
  | PartitionWithoutTimestamp | EmptyPartitionColumn | PartitionIs string | PartitionTwice string
  | DuplicateAppId string | DuplicateName string nat
  | ReadsUpserted string string | ForeignStage string
  | SharedTargetAppId string | SharedDqAppId string | SharedTargetTopic string | SharedGroup string
  | SharedTargetWithDelta string string | SharedDqWithDelta string string
  | WritesStage string
  | EmptyAppId | OwnSource | RequiredKey string | NotBuilt
  | Unresolved string

section \<open>Staging\<close>

definition stage_suffix :: string where
  "stage_suffix = ''__ddi_stage''"

definition stage_uri_for :: "string \<Rightarrow> string" where
  "stage_uri_for target_uri = trim_end_slashes target_uri @ stage_suffix"

definition ingest_name :: "string \<Rightarrow> string" where "ingest_name name = name @ ''__ingest''"
definition apply_name :: "string \<Rightarrow> string" where "apply_name name = name @ ''__apply''"
definition ingest_app_id :: "string \<Rightarrow> string" where "ingest_app_id app_id = app_id @ ''.ingest''"
definition apply_app_id :: "string \<Rightarrow> string" where "apply_app_id app_id = app_id @ ''.apply''"

definition is_stage_uri :: "string \<Rightarrow> bool" where
  "is_stage_uri uri \<longleftrightarrow> ends_with stage_suffix (trim_end_slashes uri)"

fun partition_columns_problem :: "pipeline_entry \<Rightarrow> string list \<Rightarrow> string list \<Rightarrow> reason option" where
  "partition_columns_problem p seen [] = None"
| "partition_columns_problem p seen (c # cs) =
     (if trim_str c = [] then Some EmptyPartitionColumn
      else if Some c = pe_dedup_timestamp p \<or> Some c = pe_dedup_key p then Some (PartitionIs c)
      else if c \<in> set seen then Some (PartitionTwice c)
      else partition_columns_problem p (c # seen) cs)"

definition dedup_partition_problem :: "pipeline_entry \<Rightarrow> reason option" where
  "dedup_partition_problem p =
     (if pe_dedup_partition p = [] then None
      else if pe_dedup_timestamp p = None then Some PartitionWithoutTimestamp
      else partition_columns_problem p [] (pe_dedup_partition p))"

definition stage_of :: "pipeline_entry \<Rightarrow> string" where
  "stage_of p = (case pe_stage_uri p of Some u \<Rightarrow> u | None \<Rightarrow> stage_uri_for (pe_target_uri p))"

definition staged_problem :: "pipeline_entry \<Rightarrow> reason option" where
  "staged_problem p =
     (case pe_meta_problem p of
        Some m \<Rightarrow> Some (MetaProblem m)
      | None \<Rightarrow>
          if pe_upsert_key p = None \<and> pe_dedup_key p = None then Some NeedsKey
          else if pe_dedup_timestamp p = None then Some NeedsTimestamp
          else if stage_of p = pe_target_uri p \<or> stage_of p = pe_source_uri p then Some (StageIsOwnTable (stage_of p))
          else if \<not> is_stage_uri (stage_of p) then Some (NotAStageUri (stage_of p))
          else dedup_partition_problem p)"

definition ingest_half :: "pipeline_entry \<Rightarrow> pipeline_entry" where
  "ingest_half p = p\<lparr>
     pe_name := ingest_name (pe_name p),
     pe_app_id := ingest_app_id (pe_app_id p),
     pe_target_uri := stage_of p,
     pe_publish_group := None,
     pe_target_relation := None,
     pe_write_mode := Append,
     pe_upsert_key := None,
     pe_upsert_lookback := None,
     pe_upsert_tiebreak := [],
     pe_upsert_grain_check := GrainAlways,
     pe_dq_uri := Some (case pe_dq_uri p of Some u \<Rightarrow> u | None \<Rightarrow> dq_uri_for (pe_target_uri p)),
     pe_stage_uri := None,
     pe_apply_max_bytes := None,
     pe_apply_max_latency_secs := None,
     pe_stage_for := Some (pe_target_uri p)\<rparr>"

definition apply_half :: "pipeline_entry \<Rightarrow> pipeline_entry" where
  "apply_half p = p\<lparr>
     pe_name := apply_name (pe_name p),
     pe_app_id := apply_app_id (pe_app_id p),
     pe_source_uri := stage_of p,
     pe_source_relation := None,
     pe_write_mode := Upsert,
     pe_publish_group := None,
     pe_transform_sql := None,
     pe_lookups := [],
     pe_watermark_uri := None,
     pe_starting_version := 0,
     pe_change_policy := PolicyFail,
     pe_stage_uri := None,
     pe_apply_max_bytes := None,
     pe_apply_max_latency_secs := None,
     pe_stage_for := None,
     pe_max_bytes_per_batch := (if pe_apply_max_bytes p \<noteq> None then pe_apply_max_bytes p else pe_max_bytes_per_batch p),
     pe_allowed_latency_secs :=
       (if pe_apply_max_latency_secs p \<noteq> None then pe_apply_max_latency_secs p else pe_allowed_latency_secs p)\<rparr>"

definition expand_staged :: "pipeline_entry list \<Rightarrow> pipeline_entry list" where
  "expand_staged ps = concat (map (\<lambda>p.
     if \<not> is_staged (pe_write_mode p) \<or> staged_problem p \<noteq> None then [p] else [ingest_half p, apply_half p]) ps)"

text \<open>\<open>str::trim_end_matches\<close> of a string, which is not empty here.\<close>

function trim_end_str :: "string \<Rightarrow> string \<Rightarrow> string" where
  "trim_end_str x s = (if x = [] then s else case strip_suffix x s of None \<Rightarrow> s | Some r \<Rightarrow> trim_end_str x r)"
  by pat_completeness auto
termination trim_end_str
  by (relation "measure (length \<circ> snd)") auto

declare trim_end_str.simps [simp del]

text \<open>Which pipeline is taken for a stage's owner: the map's inserts go through the list in order.\<close>

definition stage_owner :: "pipeline_entry list \<Rightarrow> string \<Rightarrow> string option" where
  "stage_owner ps uri =
     map_of (rev (map (\<lambda>p. (pe_target_uri p, pe_name p)) (filter (\<lambda>p. is_stage_uri (pe_target_uri p)) ps))) uri"

definition stage_faults :: "pipeline_entry list \<Rightarrow> pipeline_entry \<Rightarrow> (string \<times> reason) list" where
  "stage_faults ps p = concat (map (\<lambda>uri.
     if \<not> is_stage_uri uri then []
     else let owner = (case stage_owner ps uri of Some n \<Rightarrow> n | None \<Rightarrow> [])
          in if pe_name p = owner \<or> apply_name (trim_end_str ''__ingest'' owner) = pe_name p then []
             else [(pe_name p, ForeignStage uri)]) [pe_source_uri p, pe_target_uri p])"

definition stage_conflicts :: "pipeline_entry list \<Rightarrow> (string \<times> reason) list" where
  "stage_conflicts ps = concat (map (stage_faults ps) ps)"

definition cascade_conflicts :: "pipeline_entry list \<Rightarrow> (string \<times> reason) list" where
  "cascade_conflicts ps = concat (map (\<lambda>up. concat (map (\<lambda>down.
     if pe_change_policy down = IgnoreChanges \<and> is_upsert (pe_write_mode down) then []
     else [(pe_name down, ReadsUpserted (pe_target_uri up) (pe_name up))])
     (filter (\<lambda>d. pe_source_uri d = pe_target_uri up) ps)))
     (filter (\<lambda>p. is_upsert (pe_write_mode p)) ps))"

section \<open>Tables, groups\<close>

text \<open>\<open>str::split_once\<close> of a string.\<close>

fun split_once_str :: "string \<Rightarrow> string \<Rightarrow> (string \<times> string) option" where
  "split_once_str pat [] = (if pat = [] then Some ([], []) else None)"
| "split_once_str pat (c # s) =
     (case strip_prefix pat (c # s) of
        Some r \<Rightarrow> Some ([], r)
      | None \<Rightarrow> map_option (\<lambda>(a, b). (c # a, b)) (split_once_str pat s))"

definition slash :: char where
  "slash = CHR ''/''"

definition collapse_slashes :: "string \<Rightarrow> string" where
  "collapse_slashes path =
     trim_end_slashes (foldl (\<lambda>out c. if c \<noteq> slash \<or> \<not> ends_with [slash] out then out @ [c] else out) [] path)"

definition table_key :: "string \<Rightarrow> string" where
  "table_key uri0 =
     (let uri = trim_str uri0;
          url = (\<lambda>scheme rest. scheme @ ''://'' @ map ascii_lower (takeWhile (\<lambda>c. c \<noteq> slash) rest)
                    @ collapse_slashes (dropWhile (\<lambda>c. c \<noteq> slash) rest));
          plain = (if starts_with [slash] uri then url ''file'' uri else collapse_slashes uri)
      in case split_once_str ''://'' uri of
           Some (scheme, rest) \<Rightarrow> url (map ascii_lower scheme) rest
         | None \<Rightarrow>
             (case split_once_str '':'' uri of
                Some (scheme, path) \<Rightarrow>
                  if eq_ignore_ascii_case scheme ''file'' \<and> starts_with [slash] path then url ''file'' path else plain
              | None \<Rightarrow> plain))"

definition display_name :: "nat \<Rightarrow> kafka_entry \<Rightarrow> string" where
  "display_name i p =
     (if trim_str (ke_name p) = [] then ''kafka.pipeline['' @ show_nat i @ '']'' else ke_name p)"

definition group_of :: "kafka_entry \<Rightarrow> string" where
  "group_of p = (case ke_group_id p of Some g \<Rightarrow> g | None \<Rightarrow> ''ddi-'' @ ke_name p)"

definition comparable :: "kafka_entry \<Rightarrow> bool" where
  "comparable p \<longleftrightarrow> list_all (\<lambda>v. trim_str v \<noteq> []) [ke_name p, ke_app_id p, ke_topic p, ke_target_uri p]"

definition dq_of :: "string \<Rightarrow> string option \<Rightarrow> string" where
  "dq_of target_uri own = (case own of Some u \<Rightarrow> u | None \<Rightarrow> dq_uri_for target_uri)"

section \<open>Collisions\<close>

text \<open>A \<open>BTreeMap\<close> from the keys of some positions to those that have them, in the order of the keys.\<close>

definition grouped :: "(nat \<Rightarrow> 'k :: linorder) \<Rightarrow> nat list \<Rightarrow> ('k \<times> nat list) list" where
  "grouped key ix = map (\<lambda>k. (k, filter (\<lambda>i. key i = k) ix)) (sort (remdups (map key ix)))"

text \<open>Whom a rule condemns, and why: a Kafka entry by its position, a Delta pipeline by its.\<close>

datatype verdict = Kafka nat reason | Delta nat reason

definition condemn_shared :: "('k \<Rightarrow> reason) \<Rightarrow> ('k \<times> nat list) list \<Rightarrow> verdict list" where
  "condemn_shared why gs = concat (map (\<lambda>(k, ix). if length ix > 1 then map (\<lambda>i. Kafka i (why k)) ix else []) gs)"

definition condemn_names :: "kafka_entry list \<Rightarrow> pipeline_entry list \<Rightarrow> verdict list" where
  "condemn_names kafka delta =
     concat (map (\<lambda>(name, ks).
         let ds = filter (\<lambda>j. pe_name (delta ! j) = name) [0..<length delta];
             n = length ks + length ds
         in if n < 2 then []
            else map (\<lambda>i. Kafka i (DuplicateName name n)) ks @ map (\<lambda>j. Delta j (DuplicateName name n)) ds)
       (grouped (\<lambda>i. ke_name (kafka ! i)) (filter (\<lambda>i. trim_str (ke_name (kafka ! i)) \<noteq> []) [0..<length kafka])))"

definition condemn_pair :: "nat \<Rightarrow> kafka_entry \<Rightarrow> nat \<Rightarrow> pipeline_entry \<Rightarrow> verdict list" where
  "condemn_pair i p j d =
     (if table_key (pe_target_uri d) = table_key (trim_str (ke_target_uri p)) then
        [Kafka i (SharedTargetWithDelta (display_name i p) (pe_name d)), Delta j (SharedTargetWithDelta (display_name i p) (pe_name d))]
      else if trim_str (pe_app_id d) = trim_str (ke_app_id p)
           \<and> table_key (dq_of (pe_target_uri d) (pe_dq_uri d)) = table_key (dq_of (ke_target_uri p) (ke_dq_uri p)) then
        [Kafka i (SharedDqWithDelta (display_name i p) (pe_name d)), Delta j (SharedDqWithDelta (display_name i p) (pe_name d))]
      else [])"

definition condemn_against_delta :: "kafka_entry list \<Rightarrow> pipeline_entry list \<Rightarrow> nat \<Rightarrow> verdict list" where
  "condemn_against_delta kafka delta i =
     concat (map (\<lambda>j. condemn_pair i (kafka ! i) j (delta ! j)) [0..<length delta])
     @ (if is_stage_uri (trim_str (ke_target_uri (kafka ! i))) then [Kafka i (WritesStage (trim_str (ke_target_uri (kafka ! i))))]
        else [])"

definition verdicts :: "kafka_entry list \<Rightarrow> pipeline_entry list \<Rightarrow> verdict list" where
  "verdicts kafka delta =
     (let ix = filter (\<lambda>i. comparable (kafka ! i)) [0..<length kafka];
          target = (\<lambda>i. table_key (ke_target_uri (kafka ! i)));
          app = (\<lambda>i. trim_str (ke_app_id (kafka ! i)));
          dq = (\<lambda>i. table_key (dq_of (ke_target_uri (kafka ! i)) (ke_dq_uri (kafka ! i))))
      in condemn_names kafka delta
         @ condemn_shared (\<lambda>(_, a). SharedTargetAppId a) (grouped (\<lambda>i. (target i, app i)) ix)
         @ condemn_shared (\<lambda>(_, a). SharedDqAppId a) (grouped (\<lambda>i. (dq i, app i)) ix)
         @ condemn_shared (\<lambda>(_, t). SharedTargetTopic t) (grouped (\<lambda>i. (target i, trim_str (ke_topic (kafka ! i)))) ix)
         @ concat (map (condemn_against_delta kafka delta) ix)
         @ condemn_shared SharedGroup (grouped (\<lambda>i. group_of (kafka ! i)) ix))"

text \<open>Per Kafka entry the first reason it was condemned for; of Delta pipelines every one.\<close>

definition first_reason :: "verdict list \<Rightarrow> nat \<Rightarrow> reason option" where
  "first_reason vs i =
     map_of (List.map_filter (\<lambda>v. case v of Kafka k r \<Rightarrow> Some (k, r) | Delta _ _ \<Rightarrow> None) vs) i"

definition conflicts :: "kafka_entry list \<Rightarrow> pipeline_entry list \<Rightarrow> reason option list \<times> (nat \<times> reason) list" where
  "conflicts kafka delta =
     (if kafka = [] then ([], [])
      else let vs = verdicts kafka delta
           in (map (first_reason vs) [0..<length kafka],
               List.map_filter (\<lambda>v. case v of Delta j r \<Rightarrow> Some (j, r) | Kafka _ _ \<Rightarrow> None) vs))"

section \<open>What runs\<close>

text \<open>\<open>resolve_one\<close> and \<open>resolve_kafka\<close>: their first checks, and \<open>rest\<close>, which is what else they check.\<close>

definition resolve_one :: "(pipeline_entry \<Rightarrow> reason option) \<Rightarrow> pipeline_entry \<Rightarrow> reason option" where
  "resolve_one rest p =
     (case pe_meta_problem p of
        Some m \<Rightarrow> Some (MetaProblem m)
      | None \<Rightarrow>
          if trim_str (pe_app_id p) = [] then Some EmptyAppId
          else if pe_source_uri p = pe_target_uri p then Some OwnSource
          else rest p)"

definition resolve_kafka :: "(kafka_entry \<Rightarrow> reason option) \<Rightarrow> kafka_entry \<Rightarrow> reason option" where
  "resolve_kafka rest p =
     (case find (\<lambda>(key, v). trim_str v = [])
             [(''name'', ke_name p), (''app_id'', ke_app_id p), (''topic'', ke_topic p), (''target_uri'', ke_target_uri p)] of
        Some (key, _) \<Rightarrow> Some (RequiredKey key)
      | None \<Rightarrow> rest p)"

record config =
  cf_pipelines :: "pipeline_entry list"
  cf_kafka :: "kafka_entry list"
  cf_has_publisher :: bool
  cf_publish_disabled :: bool

text \<open>The pipelines condemned by name before any is resolved; the first reason stands.\<close>

definition condemned :: "pipeline_entry list \<Rightarrow> (nat \<times> reason) list \<Rightarrow> string \<Rightarrow> reason option" where
  "condemned ps kafka_says name =
     (let apps = remdups (map (\<lambda>p. trim_str (pe_app_id p)) ps);
          users = (\<lambda>a. map pe_name (filter (\<lambda>p. trim_str (pe_app_id p) = a) ps));
          names = remdups (map pe_name ps);
          times = (\<lambda>n. length (filter (\<lambda>p. pe_name p = n) ps))
      in map_of
           (concat (map (\<lambda>a. if length (users a) > 1 then map (\<lambda>n. (n, DuplicateAppId a)) (users a) else []) apps)
            @ List.map_filter (\<lambda>n. if times n > 1 then Some (n, DuplicateName n (times n)) else None) names
            @ cascade_conflicts ps
            @ stage_conflicts ps
            @ map (\<lambda>(j, r). (pe_name (ps ! j), r)) kafka_says) name)"

definition publish_problem :: "pipeline_entry \<Rightarrow> bool" where
  "publish_problem p \<longleftrightarrow> pe_publish_group p \<noteq> None \<and> keeps_one_row_per_key (pe_write_mode p)"

definition contested :: "config \<Rightarrow> pipeline_entry list \<Rightarrow> string \<Rightarrow> bool" where
  "contested cfg ps name \<longleftrightarrow>
     \<not> cf_publish_disabled cfg \<and> cf_has_publisher cfg
     \<and> (\<exists>p \<in> set ps. pe_name p = name \<and> pe_publish_group p \<noteq> None \<and> \<not> publish_problem p
          \<and> 1 < length (filter (\<lambda>q. pe_publish_group q = pe_publish_group p \<and> \<not> publish_problem q) ps))"

text \<open>A Delta pipeline that runs, and whether it may publish; a Kafka pipeline and its neighbours on the table.\<close>

datatype running = RunsDelta pipeline_entry bool | RunsKafka kafka_entry "string list"

definition neighbours :: "kafka_entry list \<Rightarrow> nat \<Rightarrow> string list" where
  "neighbours kafka i =
     (let p = kafka ! i
      in filter (\<lambda>a. a \<noteq> trim_str (ke_app_id p))
           (map (\<lambda>j. trim_str (ke_app_id (kafka ! j)))
             (filter (\<lambda>j. j \<noteq> i \<and> table_key (ke_target_uri (kafka ! j)) = table_key (ke_target_uri p)) [0..<length kafka])))"

definition resolve_entries ::
    "(kafka_entry \<Rightarrow> reason option) \<Rightarrow> kafka_entry list \<Rightarrow> reason option list \<Rightarrow> bool \<Rightarrow> (running + string \<times> reason) list" where
  "resolve_entries rest kafka conflicted kafka_built =
     map (\<lambda>i. let p = kafka ! i in
         case (case conflicted ! i of Some r \<Rightarrow> Some r | None \<Rightarrow> resolve_kafka rest p) of
           Some r \<Rightarrow> Inr (display_name i p, r)
         | None \<Rightarrow> if kafka_built then Inl (RunsKafka p (neighbours kafka i)) else Inr (display_name i p, NotBuilt))
       [0..<length kafka]"

definition lefts :: "('a + 'b) list \<Rightarrow> 'a list" where
  "lefts xs = List.map_filter (\<lambda>x. case x of Inl a \<Rightarrow> Some a | Inr _ \<Rightarrow> None) xs"

definition rights :: "('a + 'b) list \<Rightarrow> 'b list" where
  "rights xs = List.map_filter (\<lambda>x. case x of Inr b \<Rightarrow> Some b | Inl _ \<Rightarrow> None) xs"

text \<open>
  \<open>derived\<close> is what the manifest gave when there is one: an error, or pipelines. The result is what runs
  and what is held back, each in order.
\<close>

definition resolve_all_with ::
    "(pipeline_entry \<Rightarrow> reason option) \<Rightarrow> (kafka_entry \<Rightarrow> reason option) \<Rightarrow> bool \<Rightarrow> (string + pipeline_entry list) option
      \<Rightarrow> config \<Rightarrow> string + running list \<times> (string \<times> reason) list" where
  "resolve_all_with rest_one rest_kafka kafka_built derived cfg =
     (let has_kafka = (cf_kafka cfg \<noteq> [])
      in case (case derived of
                 Some (Inl e) \<Rightarrow> Inl e
               | Some (Inr ps) \<Rightarrow> if ps = [] \<and> \<not> has_kafka then Inl ''no streamable models'' else Inr ps
               | None \<Rightarrow> Inr (cf_pipelines cfg)) of
           Inl e \<Rightarrow> Inl e
         | Inr written \<Rightarrow>
             if written = [] \<and> \<not> has_kafka then Inl ''nothing to run''
             else
               let ps = expand_staged written;
                   kc = conflicts (cf_kafka cfg) ps;
                   delta = map (\<lambda>p. case (case condemned ps (snd kc) (pe_name p) of Some r \<Rightarrow> Some r | None \<Rightarrow> resolve_one rest_one p) of
                       Some r \<Rightarrow> Inr (pe_name p, r)
                     | None \<Rightarrow> Inl (RunsDelta p (\<not> contested cfg ps (pe_name p)))) ps;
                   kafka = resolve_entries rest_kafka (cf_kafka cfg) (fst kc) kafka_built
               in Inr (lefts (delta @ kafka), rights (delta @ kafka)))"

end
