(* ===== verification/Config_Spec.thy ===== *)
theory Config_Spec
  imports Config_Rules Fence_Names
begin

text \<open>
  What the rules of \<open>Config_Rules\<close> leave to run: pipelines that share no name, no offsets, no group and no
  rejects; and where the rule about staging tables is wrong.
\<close>

text \<open>The white space characters spelt out, for evaluation.\<close>

lemma white_space_code [code]:
  "white_space =
    [[CHR 0x09], [CHR 0x0A], [CHR 0x0B], [CHR 0x0C], [CHR 0x0D], [CHR 0x20], [CHR 0xC2, CHR 0x85], [CHR 0xC2, CHR 0xA0],
     [CHR 0xE1, CHR 0x9A, CHR 0x80], [CHR 0xE2, CHR 0x80, CHR 0x80], [CHR 0xE2, CHR 0x80, CHR 0x81],
     [CHR 0xE2, CHR 0x80, CHR 0x82], [CHR 0xE2, CHR 0x80, CHR 0x83], [CHR 0xE2, CHR 0x80, CHR 0x84],
     [CHR 0xE2, CHR 0x80, CHR 0x85], [CHR 0xE2, CHR 0x80, CHR 0x86], [CHR 0xE2, CHR 0x80, CHR 0x87],
     [CHR 0xE2, CHR 0x80, CHR 0x88], [CHR 0xE2, CHR 0x80, CHR 0x89], [CHR 0xE2, CHR 0x80, CHR 0x8A],
     [CHR 0xE2, CHR 0x80, CHR 0xA8], [CHR 0xE2, CHR 0x80, CHR 0xA9], [CHR 0xE2, CHR 0x80, CHR 0xAF],
     [CHR 0xE2, CHR 0x81, CHR 0x9F], [CHR 0xE3, CHR 0x80, CHR 0x80]]"
  by (simp add: white_space_def upt_rec char_of_def bit_Suc_0_iff)

section \<open>Trimming, once and again\<close>

lemma strip_space_None: "strip_space strip s = None \<longleftrightarrow> (\<forall>w \<in> set white_space. w \<noteq> [] \<longrightarrow> strip w s = None)"
proof -
  let ?ws = "filter (\<lambda>w. w \<noteq> [] \<and> strip w s \<noteq> None) white_space"
  show ?thesis
  proof (cases ?ws)
    case Nil
    then show ?thesis by (auto simp: strip_space_def filter_empty_conv)
  next
    case (Cons w ws)
    then have "w \<in> set ?ws" by simp
    then have "w \<in> set white_space" "w \<noteq> []" "strip w s \<noteq> None" by simp_all
    with Cons show ?thesis unfolding strip_space_def by auto
  qed
qed

lemma trim_start_None: "strip_space strip_prefix (trim_start s) = None"
proof (induction s rule: trim_start.induct)
  case (1 s)
  then show ?case by (subst trim_start.simps) (simp split: option.splits)
qed

lemma trim_end_None: "strip_space strip_suffix (trim_end s) = None \<and> (\<exists>r. s = trim_end s @ r)"
proof (induction s rule: trim_end.induct)
  case (1 s)
  show ?case
  proof (cases "strip_space strip_suffix s")
    case None
    then show ?thesis by (subst (1 2) trim_end.simps) simp
  next
    case (Some t)
    with 1 obtain r where r: "strip_space strip_suffix (trim_end t) = None" "t = trim_end t @ r" by blast
    from Some obtain w where "strip_suffix w s = Some t"
      by (auto simp: strip_space_def split: list.splits dest: filter_eq_ConsD)
    then have "s = trim_end t @ r @ w" using r(2) by (metis append_assoc strip_suffix_Some_iff)
    moreover have "trim_end s = trim_end t" using Some by (subst trim_end.simps) simp
    ultimately show ?thesis using r(1) by auto
  qed
qed

lemma trim_str_idem [simp]: "trim_str (trim_str s) = trim_str s"
proof -
  let ?t = "trim_end (trim_start s)"
  obtain r where r: "trim_start s = ?t @ r" using trim_end_None by blast
  have "strip_space strip_prefix ?t = None"
    unfolding strip_space_None
  proof (intro ballI impI)
    fix w assume w: "w \<in> set white_space" "w \<noteq> []"
    show "strip_prefix w ?t = None"
    proof (rule ccontr)
      assume "strip_prefix w ?t \<noteq> None"
      then obtain x where "?t = w @ x" by auto
      with r have "strip_prefix w (trim_start s) = Some (x @ r)" by simp
      with trim_start_None [of s] w show False unfolding strip_space_None by simp
    qed
  qed
  then have "trim_start ?t = ?t" by (subst trim_start.simps) simp
  moreover have "trim_end ?t = ?t" using trim_end_None [of "trim_start s"] by (subst trim_end.simps) simp
  ultimately show ?thesis by (simp add: trim_str_def)
qed

lemma table_key_trim [simp]: "table_key (trim_str s) = table_key s"
  by (simp add: table_key_def)

section \<open>Who is condemned\<close>






section \<open>What runs\<close>

definition running_delta :: "running list \<Rightarrow> pipeline_entry list" where
  "running_delta run = List.map_filter (\<lambda>r. case r of RunsDelta p _ \<Rightarrow> Some p | RunsKafka _ _ \<Rightarrow> None) run"

definition running_kafka :: "running list \<Rightarrow> kafka_entry list" where
  "running_kafka run = List.map_filter (\<lambda>r. case r of RunsKafka p _ \<Rightarrow> Some p | RunsDelta _ _ \<Rightarrow> None) run"


lemma lefts_simps [simp]:
  "lefts [] = []" "lefts (Inl a # xs) = a # lefts xs" "lefts (Inr b # xs) = lefts xs" "lefts (xs @ ys) = lefts xs @ lefts ys"
  by (simp_all add: lefts_def map_filter_def)

lemma running_simps [simp]:
  "running_delta [] = []" "running_delta (RunsDelta p b # run) = p # running_delta run" "running_delta (RunsKafka k ns # run) = running_delta run"
  "running_kafka [] = []" "running_kafka (RunsDelta p b # run) = running_kafka run" "running_kafka (RunsKafka k ns # run) = k # running_kafka run"
  by (simp_all add: running_delta_def running_kafka_def map_filter_def)














text \<open>
  C40. The rule that keeps a staging table private takes the last pipeline of the file that writes it for its
  owner: a pipeline that does, under a name of its own and reading no stage, is not held back by it, and
  every pipeline before it that writes the same stage is, the half the stage was made for included.
\<close>

theorem last_writer_is_taken_for_the_owner:
  assumes "is_stage_uri (pe_target_uri w)" and "\<not> is_stage_uri (pe_source_uri w)" and fresh: "pe_name w \<notin> pe_name ` set ps"
  shows "pe_name w \<notin> fst ` set (stage_conflicts (ps @ [w]))
    \<and> (\<forall>p \<in> set ps. pe_target_uri p = pe_target_uri w \<and> apply_name (trim_end_str ''__ingest'' (pe_name w)) \<noteq> pe_name p
        \<longrightarrow> (pe_name p, ForeignStage (pe_target_uri w)) \<in> set (stage_conflicts (ps @ [w])))"
proof -
  have owner: "stage_owner (ps @ [w]) (pe_target_uri w) = Some (pe_name w)"
    using assms(1) by (simp add: stage_owner_def)
  have mine: "n = pe_name p" if "(n, r) \<in> set (stage_faults l p)" for n r l p
    using that by (auto simp: stage_faults_def Let_def split: if_splits)
  have "stage_faults (ps @ [w]) w = []" using owner assms(2) by (simp add: stage_faults_def)
  then have "pe_name w \<notin> fst ` set (stage_conflicts (ps @ [w]))"
    using mine fresh unfolding stage_conflicts_def by fastforce
  moreover have "(pe_name p, ForeignStage (pe_target_uri w)) \<in> set (stage_conflicts (ps @ [w]))"
    if "p \<in> set ps" "pe_target_uri p = pe_target_uri w" "apply_name (trim_end_str ''__ingest'' (pe_name w)) \<noteq> pe_name p" for p
  proof -
    have "pe_name p \<noteq> pe_name w" using that(1) fresh by (metis image_eqI)
    with that(2,3) owner assms(1) have "(pe_name p, ForeignStage (pe_target_uri w)) \<in> set (stage_faults (ps @ [w]) p)"
      by (simp add: stage_faults_def)
    with that(1) show ?thesis unfolding stage_conflicts_def by auto
  qed
  ultimately show ?thesis by blast
qed

text \<open>A staged upsert, and a pipeline that writes its stage; two Kafka pipelines beside an appending one.\<close>

definition plain_entry :: "string \<Rightarrow> string \<Rightarrow> string \<Rightarrow> string \<Rightarrow> pipeline_entry" where
  "plain_entry name app source target = \<lparr>pe_name = name, pe_app_id = app, pe_source_uri = source, pe_target_uri = target,
     pe_source_relation = None, pe_target_relation = None, pe_lookups = [], pe_starting_version = 0,
     pe_change_policy = PolicyFail, pe_transform_sql = None, pe_allowed_latency_secs = None, pe_max_bytes_per_batch = None,
     pe_watermark_uri = None, pe_dedup_timestamp = None, pe_dedup_key = None, pe_dedup_partition = [], pe_write_mode = Append,
     pe_upsert_key = None, pe_upsert_lookback = None, pe_upsert_tiebreak = [], pe_upsert_grain_check = GrainAlways,
     pe_dq_uri = None, pe_stage_uri = None, pe_apply_max_bytes = None, pe_apply_max_latency_secs = None, pe_stage_for = None,
     pe_publish_group = None, pe_meta_problem = None\<rparr>"

definition style_entry :: pipeline_entry where
  "style_entry = (plain_entry ''style'' ''s'' ''/raw'' ''/style'')
     \<lparr>pe_write_mode := StagedUpsert, pe_upsert_key := Some ''id'', pe_dedup_timestamp := Some ''at''\<rparr>"

theorem last_writer_is_taken_for_the_owner_witness:
  "''nosy'' \<notin> fst ` set (stage_conflicts [ingest_half style_entry, apply_half style_entry, plain_entry ''nosy'' ''n'' ''/other'' ''/style__ddi_stage''])
    \<and> expand_staged [style_entry] = [ingest_half style_entry, apply_half style_entry]
    \<and> (''style__ingest'', ForeignStage ''/style__ddi_stage'')
      \<in> set (stage_conflicts [ingest_half style_entry, apply_half style_entry, plain_entry ''nosy'' ''n'' ''/other'' ''/style__ddi_stage''])"
proof -
  let ?w = "plain_entry ''nosy'' ''n'' ''/other'' ''/style__ddi_stage''"
  have w: "pe_name ?w = ''nosy''" "pe_target_uri ?w = ''/style__ddi_stage''" "pe_source_uri ?w = ''/other''" by (simp_all add: plain_entry_def)
  have uris: "is_stage_uri ''/style__ddi_stage''" "\<not> is_stage_uri ''/other''" by code_simp+
  have stage: "stage_of style_entry = ''/style__ddi_stage''"
    by (simp add: style_entry_def plain_entry_def stage_of_def stage_uri_for_def trim_end_slashes_def stage_suffix_def)
  then have half: "pe_name (ingest_half style_entry) = ''style__ingest''" "pe_target_uri (ingest_half style_entry) = ''/style__ddi_stage''"
    "pe_name (apply_half style_entry) = ''style__apply''"
    by (simp_all add: ingest_half_def apply_half_def style_entry_def plain_entry_def ingest_name_def apply_name_def)
  have fields: "pe_write_mode style_entry = StagedUpsert" "pe_meta_problem style_entry = None" "pe_upsert_key style_entry = Some ''id''"
    "pe_dedup_timestamp style_entry = Some ''at''" "pe_target_uri style_entry = ''/style''" "pe_source_uri style_entry = ''/raw''"
    "pe_dedup_partition style_entry = []" by (simp_all add: style_entry_def plain_entry_def)
  have "expand_staged [style_entry] = [ingest_half style_entry, apply_half style_entry]"
    using uris(1) stage fields by (simp add: expand_staged_def staged_problem_def is_staged_def dedup_partition_problem_def)
  moreover have "apply_name (trim_end_str ''__ingest'' ''nosy'') \<noteq> ''style__ingest''" by (simp add: apply_name_def trim_end_str.simps)
  ultimately show ?thesis
    using last_writer_is_taken_for_the_owner [of ?w "[ingest_half style_entry, apply_half style_entry]"] uris w half by force
qed






end
