(* ===== verification/Spec2Isabelle.thy ===== *)
theory Spec2Isabelle
  imports Cursor Offset Log_Stream Cutoff Spill Sink Fence Member_Spec Rebalance Exactly_Once Step_Spec Open_Spec Upsert_Spec Grain_Spec Supervisor Wire_Spec Decode_Spec Set_Offsets Json_Spec Json_Grammar Json_Order Compact Json_Paths Json_Nesting Config_Spec
begin

text \<open>
  A verification library of \<open>ddi\<close> (delta-delta-ingest): a daemon that copies Delta tables and Kafka
  topics into Delta tables, exactly once, with no state but the target's own transaction log.

  \<^bold>\<open>The program.\<close> A supervisor (\<open>src/main.rs\<close>) runs each configured pipeline and retries it. A Delta
  pipeline (\<open>src/pipeline.rs\<close>) opens where its offset, a \<open>txn\<close> action in the target's log
  (\<open>src/offset.rs\<close>), says; the \<open>LogStream\<close> (\<open>src/source/log_stream.rs\<close>) polls the source's log from
  that cursor; the batch is transformed, cast, filtered by the coverage window if the target was rebuilt
  by another writer (\<open>src/dedup.rs\<close>), and committed with its cursor (\<open>src/sink.rs\<close>) as an append or an
  upsert (\<open>src/upsert.rs\<close>); rows the target would not take go to the data-quality table
  (\<open>src/dq.rs\<close>). A Kafka pipeline (\<open>src/kafka/\<close>) decodes messages, gathers them per partition and
  commits them with their offsets against the \<open>Fence\<close> (\<open>src/fence.rs\<close>), which reads them from the log
  and asserts them again with each commit, so that two members of a group never both land a message.

  \<^bold>\<open>The theories.\<close> Each opens with the part of the source it holds; the order is that of the imports.

  \<^item> \<open>Prelude\<close>, \<open>BTree\<close>: Rust's integers, \<open>Result\<close> as a sum (\<^term>\<open>Inl\<close> the error), \<open>Option\<close>,
    strings as their bytes, JSON as \<open>serde_json\<close> hands it over, and \<open>BTreeMap\<close> as a sorted association
    list; the simplification rules every proof uses. \<open>Errors\<close>: \<open>src/error.rs\<close>, the error type and which
    errors are transient, conflicts or losses of a race.
  \<^item> \<open>Cursor\<close>, \<open>Offset\<close>, \<open>Log_Stream\<close>: \<open>src/source/cursor.rs\<close>, \<open>src/offset.rs\<close>,
    \<open>src/source/log_stream.rs\<close>. A poll returns, delivers exactly the stretch of data files between two
    cursors, and lets only appends through.
  \<^item> \<open>Fence_Names\<close>, \<open>Fence_Read\<close>, \<open>Fence\<close>, \<open>Fence_Spec\<close>: \<open>src/fence.rs\<close>. The names of a partition's
    offsets, the takeover from kafka-delta-ingest, the walk back through commits, checkpoints and what lies
    below them, and one writer's offsets; a read answers the newest offset or fails.
  \<^item> \<open>Cutoff\<close>, \<open>Dedup\<close>, \<open>Dedup_Spec\<close>, \<open>Rescan\<close>, \<open>Rescan_Spec\<close>, \<open>Stats\<close>: \<open>src/dedup.rs\<close> and
    \<open>src/stats.rs\<close>. What an open reads of a rebuilt target, the filter that keeps what it lacks, and how
    far back the rescan starts.
  \<^item> \<open>Sink\<close>, \<open>Spill\<close>, \<open>Quality\<close>: \<open>src/sink.rs\<close>, the classification of \<open>src/spill.rs\<close>, \<open>src/dq.rs\<close>.
  \<^item> \<open>Partitions\<close>, \<open>Start\<close>, \<open>Member\<close>, \<open>Member_Spec\<close>, \<open>Rebalance\<close>: \<open>src/kafka/partitions.rs\<close>,
    \<open>start.rs\<close>, \<open>step.rs\<close> and \<open>rebalance.rs\<close>. What becomes of each message, where partitions start,
    and one member's batches, conflicts, holds and hand-overs. A batch commit is a compare-and-swap on the
    offsets; what two members land never overlaps. \<open>Set_Offsets\<close>: \<open>setoffsets.rs\<close> and \<open>tools.rs\<close>, how
    an operator moves the offsets of a stopped pipeline, and that no more moves than was asked.
  \<^item> \<open>Wire\<close>, \<open>Wire_Spec\<close>, \<open>Decode\<close>, \<open>Decode_Spec\<close>: \<open>src/kafka/decode/wire.rs\<close> and
    \<open>src/kafka/decode.rs\<close>. Avro on the wire, and the decoder that isolates a message it cannot decode.
  \<^item> \<open>Pipeline\<close>, \<open>Pipeline_Spec\<close>, \<open>Pipeline_Example\<close>, \<open>Reader\<close>, \<open>Run\<close>, \<open>Step_Spec\<close>,
    \<open>Exactly_Once\<close>: \<open>src/pipeline.rs\<close>, one step, a run to the end of a log, and the composition of the
    source, the step, the sink and the restart over histories with failures, crashes and other writers.
  \<^item> \<open>Resume\<close>, \<open>Open\<close>, \<open>Open_Spec\<close>: where an open of \<open>src/pipeline.rs\<close> and \<open>src/dbt/watermark.rs\<close>
    resumes: whether the offset can be trusted, the rescan and its window, the lookups.
  \<^item> \<open>Upsert\<close>, \<open>Upsert_Spec\<close>, \<open>Grain\<close>, \<open>Grain_Spec\<close>: \<open>src/upsert.rs\<close> and \<open>src/grain.rs\<close>. The
    collapse of a batch, the MERGE's window and its plan against a keyed table; the uniqueness check within
    a fixed number of hashes.
  \<^item> \<open>Compact\<close>: \<open>src/compact.rs\<close>, the log store that refuses a compaction whose files another engine
    has rewritten; one that lands keeps every row once.
  \<^item> \<open>Json_Text\<close>, \<open>Json_Grammar\<close>, \<open>Json_Numbers\<close>, \<open>Json_Spec\<close>, \<open>Json_Order\<close>:
    \<open>src/transform/jsonval.rs\<close>, JSON text as Trino has it. The parser reads exactly the grammar of RFC
    8259, what the writers write reads back, Java's decimals keep the value, and members come in the order
    of Java's hash map. \<open>Json_Functions\<close>, \<open>Json_Paths\<close>, \<open>Json_Nesting\<close>:
    \<open>src/transform/json.rs\<close>, the functions over columns, the grammar of their paths, and that one called on
    what another returned finds what is in the document. The parser's loops have the text's length as fuel, of which every round takes one.
  \<^item> \<open>Config_Rules\<close>, \<open>Config_Spec\<close>: \<open>src/config.rs\<close>, \<open>src/config/kafka.rs\<close> and \<open>src/stage.rs\<close>, the
    split of a staged upsert and the rules between pipelines; what a configuration lets run shares no name,
    no offsets, no group and no rejects.
  \<^item> \<open>Supervisor\<close>: \<open>drive\<close> of \<open>src/main.rs\<close> and \<open>src/locate.rs\<close>.

  \<^bold>\<open>How the code is rendered.\<close> A struct is a \<open>record\<close>, an enum a \<open>datatype\<close>, an \<open>async fn\<close> on
  \<open>&mut self\<close> a function from the state to its result and the new state, an early return or \<open>?\<close> an
  \<^term>\<open>Inl\<close>. What a call may answer besides (another writer's commit, an object store that fails, a
  commit that lands and whose answer is lost) is an argument, so a theorem holds for every answer; what it
  must answer (delta-rs refuses to commit over a version it has not checked; a checkpoint carries every
  live \<open>txn\<close>) is a predicate or a locale's assumption that the theorem names and its witness instantiates.
  Interfaces are locales: \<open>reader\<close> (\<open>Reader\<close>) is what a committing client needs of a source, and the
  model's \<open>LogStream\<close> interprets it.

  \<^bold>\<open>Bounds and fuel.\<close> \<open>scan_loop\<close> and the walks of \<open>Log_Stream\<close>, \<open>Rescan\<close> and \<open>Fence_Read\<close> recurse on
  the distance to the head or to version 0 and are total. A run to the end of a log has fuel, and
  \<open>Run\<close> shows how much of it is enough to return. The loops the code itself
  bounds keep its bounds: \<open>merge_attempts\<close> (3), \<open>kafka_conflict_retries\<close> (3), \<open>default_max_scan\<close>
  (10000), \<open>max_probe_files\<close> (10000), \<open>max_dedup_partitions\<close> (100000), and of the uniqueness check
  \<open>max_passes\<close> and \<open>verify_chunk\<close>; running into one is an outcome of the model. The walk over a record on
  the wire has two kinds of fuel, the schema's depth (one more than the root's index, as every child's is
  smaller) and the blocks' (one more than the bytes left, as a block takes at least one); \<open>record_len_exact\<close>
  shows them enough. A supervised pipeline's life is the list of its attempts' outcomes.
  \<^bold>\<open>Not modelled.\<close> Arrow, parquet, DataFusion, arrow-avro, delta-rs, librdkafka and the schema registry
  are parameters. Left out: the configuration's parsing and the checks of its single entries
  (the rest of \<open>src/config.rs\<close> and \<open>src/config/kafka.rs\<close>; the settings are arguments), the rewriting of SQL between dialects and the
  functions that need DataFusion (the rest of \<open>src/transform/\<close>), Arrow schema conversion (\<open>src/schema.rs\<close>,
  \<open>src/kafka/conform.rs\<close>, \<open>plan.rs\<close>, \<open>kdi_text.rs\<close>), HTTP and object-store clients
  (\<open>src/storage.rs\<close>, \<open>src/trino.rs\<close>, \<open>src/publish/\<close>, \<open>src/kafka/registry.rs\<close>, \<open>context.rs\<close>,
  \<open>client.rs\<close>), the import of dbt projects (\<open>src/dbt/\<close> but \<open>watermark.rs\<close>), and
  the process's counters (\<open>src/metrics.rs\<close>). Log lines, gauges
  and the texts of most messages carry no state and are dropped from the definitions that emit them.
\<close>

end
